(* ===== verification/Prelude.thy ===== *)
theory Prelude
  imports Main "HOL-Library.Word" "HOL-Library.Multiset"
begin

unbundle bit_operations_syntax

text \<open>
  Shared vocabulary of the development: bytes and C integer widths, the collections of
  facts the component theories extend, and the generic facts on lists, sub-ranges of
  lists and words that several components use.
\<close>

section \<open>Types\<close>

type_synonym byte = "8 word"
type_synonym u8 = "8 word"
type_synonym u16 = "16 word"
type_synonym u32 = "32 word"
type_synonym u64 = "64 word"

text \<open>A pointer to memory obtained from the allocator.\<close>

type_synonym addr = nat

text \<open>
  The allocator (\<^verbatim>\<open>mm_malloc\<close> calls the replaceable \<^verbatim>\<open>malloc\<close>) is a parameter of every
  operation that allocates: for a request of the given number of bytes it returns the
  address of a block, or nothing.
\<close>

type_synonym allocator = "nat \<Rightarrow> addr option"

section \<open>Collections of facts\<close>

named_theorems heap_simps \<open>how the min-heap operations act on the fields of the state\<close>
named_theorems chain_simps \<open>how chain operations act on the stored bytes and on the fields\<close>
named_theorems evbuffer_content \<open>the bytes an evbuffer holds after each operation\<close>
named_theorems evbuffer_wf_intro \<open>each evbuffer operation keeps the buffer well formed\<close>

section \<open>Sub-ranges of lists\<close>

text \<open>The \<open>n\<close> elements of \<open>xs\<close> from position \<open>i\<close> on.\<close>

definition slice :: "'a list \<Rightarrow> nat \<Rightarrow> nat \<Rightarrow> 'a list" where
  "slice xs i n = take n (drop i xs)"

text \<open>The effect of \<^verbatim>\<open>memcpy(dst + i, ys, length ys)\<close> on the block \<open>xs\<close>.\<close>

definition splice_at :: "'a list \<Rightarrow> nat \<Rightarrow> 'a list \<Rightarrow> 'a list" where
  "splice_at xs i ys = take i xs @ ys @ drop (i + length ys) xs"

lemma length_slice [simp]: "length (slice xs i n) = min n (length xs - i)"
  by (simp add: slice_def)

lemma slice_0 [simp]: "slice xs i 0 = []"
  by (simp add: slice_def)

lemma length_splice_at [simp]:
  "i + length ys \<le> length xs \<Longrightarrow> length (splice_at xs i ys) = length xs"
  by (simp add: splice_at_def)

lemma splice_at_Nil [simp]: "splice_at xs i [] = xs"
  by (simp add: splice_at_def)

lemma slice_append_adjacent: "slice xs i m @ slice xs (i + m) n = slice xs i (m + n)"
  by (simp add: slice_def take_add add.commute)

lemma take_slice: "take k (slice xs i n) = slice xs i (min k n)"
  by (simp add: slice_def)

lemma drop_slice: "drop k (slice xs i n) = slice xs (i + k) (n - k)"
  by (simp add: slice_def drop_take add.commute)

lemma slice_splice_at_exact:
  "i + length ys \<le> length xs \<Longrightarrow> slice (splice_at xs i ys) i (length ys) = ys"
  by (simp add: slice_def splice_at_def)

lemma slice_splice_at_before:
  assumes "j + n \<le> i" "i \<le> length xs"
  shows "slice (splice_at xs i ys) j n = slice xs j n"
proof -
  have "slice (splice_at xs i ys) j n = take n (drop j (take i xs))"
    using assms by (simp add: slice_def splice_at_def)
  also have "\<dots> = take n (take (i - j) (drop j xs))"
    by (simp add: drop_take)
  also have "\<dots> = slice xs j n"
    using assms by (simp add: slice_def min_def)
  finally show ?thesis .
qed

lemma slice_splice_at_append:
  assumes "i + n + length ys \<le> length xs"
  shows "slice (splice_at xs (i + n) ys) i (n + length ys) = slice xs i n @ ys"
proof -
  have "slice (splice_at xs (i + n) ys) i (n + length ys)
      = slice (splice_at xs (i + n) ys) i n @ slice (splice_at xs (i + n) ys) (i + n) (length ys)"
    by (simp add: slice_append_adjacent)
  then show ?thesis
    using assms by (simp add: slice_splice_at_before slice_splice_at_exact)
qed

lemma slice_splice_at_after:
  assumes "i + length ys \<le> j" "i + length ys \<le> length xs"
  shows "slice (splice_at xs i ys) j n = slice xs j n"
  using assms by (simp add: slice_def splice_at_def)

lemma slice_splice_at_prepend:
  assumes "length ys \<le> i" "i + n \<le> length xs"
  shows "slice (splice_at xs (i - length ys) ys) (i - length ys) (length ys + n) = ys @ slice xs i n"
proof -
  have "slice (splice_at xs (i - length ys) ys) (i - length ys) (length ys + n)
      = slice (splice_at xs (i - length ys) ys) (i - length ys) (length ys)
        @ slice (splice_at xs (i - length ys) ys) (i - length ys + length ys) n"
    by (simp add: slice_append_adjacent)
  then show ?thesis
    using assms by (simp add: slice_splice_at_after slice_splice_at_exact)
qed

section \<open>Lists updated by position\<close>

lemma take_list_update_within: "i < n \<Longrightarrow> take n (xs[i := x]) = (take n xs)[i := x]"
  by (simp add: take_update_swap)

lemma mset_list_update:
  "i < length xs \<Longrightarrow> mset (xs[i := x]) = add_mset x (mset xs - {#xs ! i#})"
  by (simp add: mset_update)

lemma take_Suc_eq_snoc: "n < length xs \<Longrightarrow> take (Suc n) xs = take n xs @ [xs ! n]"
  by (simp add: take_Suc_conv_app_nth)

lemma sum_list_map_update:
  fixes f :: "'a \<Rightarrow> nat"
  assumes "i < length xs"
  shows "sum_list (map f (xs[i := x])) + f (xs ! i) = sum_list (map f xs) + f x"
  using assms by (induction xs arbitrary: i) (auto split: nat.splits)

end
