(* ===== verification/Event_Struct.thy ===== *)
theory Event_Struct
  imports Prelude
begin

text \<open>
  The data every part of the event core shares: \<^verbatim>\<open>struct timeval\<close> with the comparison and
  arithmetic macros of \<^verbatim>\<open>include/event2/util.h\<close>, and \<^verbatim>\<open>struct event\<close> of
  \<^verbatim>\<open>include/event2/event_struct.h\<close>. Events live in a store indexed by their address.
\<close>

section \<open>Time values\<close>

datatype timeval = Timeval (tv_sec: int) (tv_usec: int)

definition evutil_timercmp_lt :: "timeval \<Rightarrow> timeval \<Rightarrow> bool" where
  "evutil_timercmp_lt t u =
     (if tv_sec t = tv_sec u then tv_usec t < tv_usec u else tv_sec t < tv_sec u)"

definition evutil_timercmp_gt :: "timeval \<Rightarrow> timeval \<Rightarrow> bool" where
  "evutil_timercmp_gt t u =
     (if tv_sec t = tv_sec u then tv_usec t > tv_usec u else tv_sec t > tv_sec u)"

definition evutil_timeradd :: "timeval \<Rightarrow> timeval \<Rightarrow> timeval" where
  "evutil_timeradd t u =
     (let s = tv_sec t + tv_sec u; us = tv_usec t + tv_usec u in
      if us \<ge> 1000000 then Timeval (s + 1) (us - 1000000) else Timeval s us)"

definition evutil_timersub :: "timeval \<Rightarrow> timeval \<Rightarrow> timeval" where
  "evutil_timersub t u =
     (let s = tv_sec t - tv_sec u; us = tv_usec t - tv_usec u in
      if us < 0 then Timeval (s - 1) (us + 1000000) else Timeval s us)"

definition evutil_timerclear :: timeval where
  "evutil_timerclear = Timeval 0 0"

definition evutil_timerisset :: "timeval \<Rightarrow> bool" where
  "evutil_timerisset t \<longleftrightarrow> tv_sec t \<noteq> 0 \<or> tv_usec t \<noteq> 0"

text \<open>
  The comparison macro is a linear order (seconds first, then microseconds), so the
  library's facts on linear orders apply to time values.
\<close>

instantiation timeval :: linorder
begin

definition less_eq_timeval :: "timeval \<Rightarrow> timeval \<Rightarrow> bool" where
  "less_eq_timeval t u \<longleftrightarrow> \<not> evutil_timercmp_gt t u"

definition less_timeval :: "timeval \<Rightarrow> timeval \<Rightarrow> bool" where
  "less_timeval t u \<longleftrightarrow> evutil_timercmp_lt t u"

instance
  by intro_classes
    (auto simp: less_eq_timeval_def less_timeval_def evutil_timercmp_gt_def
      evutil_timercmp_lt_def timeval.expand split: if_splits)

end

lemma timercmp_gt_iff: "evutil_timercmp_gt t u \<longleftrightarrow> u < t"
  by (simp add: less_eq_timeval_def flip: not_le)

lemma timercmp_lt_iff: "evutil_timercmp_lt t u \<longleftrightarrow> t < u"
  by (simp add: less_timeval_def)

section \<open>Events\<close>

text \<open>
  The union \<open>ev_timeout_pos\<close> is the field \<open>min_heap_idx\<close>; the links of an event in a common
  timeout list are the list itself. \<open>ev_pncalls\<close> tells whether the pointer to the loop counter
  of a running signal callback is set. Callback and argument are identified with the event.
\<close>

type_synonym event_id = nat

datatype ev_closure = EV_CLOSURE_NONE | EV_CLOSURE_SIGNAL | EV_CLOSURE_PERSIST

record event =
  ev_fd :: int
  ev_events :: u16
  ev_res :: u16
  ev_flags :: u16
  ev_pri :: nat
  ev_closure :: ev_closure
  ev_timeout :: timeval
  ev_io_timeout :: timeval
  ev_ncalls :: nat
  ev_pncalls :: bool
  min_heap_idx :: int

type_synonym event_store = "event_id \<Rightarrow> event"

text \<open>The flags of \<^verbatim>\<open>event_struct.h\<close> and \<^verbatim>\<open>event.h\<close>.\<close>

definition EVLIST_TIMEOUT :: u16 where "EVLIST_TIMEOUT = 0x01"
definition EVLIST_INSERTED :: u16 where "EVLIST_INSERTED = 0x02"
definition EVLIST_ACTIVE :: u16 where "EVLIST_ACTIVE = 0x08"
definition EVLIST_INTERNAL :: u16 where "EVLIST_INTERNAL = 0x10"
definition EVLIST_INIT :: u16 where "EVLIST_INIT = 0x80"
definition EVLIST_ALL :: u16 where "EVLIST_ALL = 0xf000 OR 0x9f"

definition EV_TIMEOUT :: u16 where "EV_TIMEOUT = 0x01"
definition EV_READ :: u16 where "EV_READ = 0x02"
definition EV_WRITE :: u16 where "EV_WRITE = 0x04"
definition EV_SIGNAL :: u16 where "EV_SIGNAL = 0x08"
definition EV_PERSIST :: u16 where "EV_PERSIST = 0x10"
definition EV_ET :: u16 where "EV_ET = 0x20"

lemmas evlist_defs = EVLIST_TIMEOUT_def EVLIST_INSERTED_def EVLIST_ACTIVE_def EVLIST_INTERNAL_def

definition has :: "u16 \<Rightarrow> u16 \<Rightarrow> bool" where
  "has fl x \<longleftrightarrow> x AND fl \<noteq> 0"

lemma has_iff_bit: "has q x \<longleftrightarrow> (\<exists>n<16. bit x n \<and> bit q n)"
  by (auto simp: has_def bit_eq_iff bit_and_iff)

lemma has_or [simp]: "has q (x OR p) \<longleftrightarrow> has q x \<or> has q p"
  by (auto simp: has_iff_bit bit_or_iff)

lemma has_and_not: "\<not> has q p \<Longrightarrow> has q (x AND NOT p) = has q x"
  by (auto simp: has_iff_bit bit_and_iff bit_not_iff_eq possible_bit_def)

lemma has_and_not_same [simp]: "\<not> has q (x AND NOT q)"
  by (auto simp: has_iff_bit bit_and_iff bit_not_iff_eq)

end
