(* ===== verification/Min_Heap.thy ===== *)
theory Min_Heap
  imports Event_Struct
begin

text \<open>
  The binary min-heap of \<^verbatim>\<open>minheap-internal.h\<close>, which orders events by the absolute time of
  their timeout. The heap is an array of event pointers; every event in it records its own
  position (\<open>min_heap_idx\<close>, \<open>-1\<close> outside the heap), so that an arbitrary event can be erased.
  The operations therefore change both the heap and the event store.
  Positions are natural numbers: the \<open>unsigned\<close> indices of the code do not wrap while the
  heap holds fewer than \<open>2 ^ 31\<close> events. The capacity computation of \<open>min_heap_reserve\<close>
  keeps its wrap-around.
\<close>

section \<open>Operations\<close>

record min_heap =
  heap_p :: "event_id list"
  heap_n :: nat
  heap_a :: nat

definition min_heap_elem_greater :: "event_store \<Rightarrow> event_id \<Rightarrow> event_id \<Rightarrow> bool" where
  "min_heap_elem_greater evs x y = evutil_timercmp_gt (ev_timeout (evs x)) (ev_timeout (evs y))"

definition min_heap_ctor :: min_heap where
  "min_heap_ctor = \<lparr>heap_p = [], heap_n = 0, heap_a = 0\<rparr>"

text \<open>Storing a position in an event: the assignment to \<^verbatim>\<open>ev_timeout_pos.min_heap_idx\<close>.\<close>

definition set_heap_idx :: "event_store \<Rightarrow> event_id \<Rightarrow> int \<Rightarrow> event_store" where
  "set_heap_idx evs e i = evs(e := (evs e)\<lparr>min_heap_idx := i\<rparr>)"

definition min_heap_elem_init :: "event_store \<Rightarrow> event_id \<Rightarrow> event_store" where
  "min_heap_elem_init evs e = set_heap_idx evs e (- 1)"

definition min_heap_empty :: "min_heap \<Rightarrow> bool" where
  "min_heap_empty s \<longleftrightarrow> heap_n s = 0"

definition min_heap_size :: "min_heap \<Rightarrow> nat" where
  "min_heap_size s = heap_n s"

definition min_heap_top :: "min_heap \<Rightarrow> event_id option" where
  "min_heap_top s = (if heap_n s \<noteq> 0 then Some (heap_p s ! 0) else None)"

definition min_heap_elt_is_top :: "event_store \<Rightarrow> event_id \<Rightarrow> bool" where
  "min_heap_elt_is_top evs e \<longleftrightarrow> min_heap_idx (evs e) = 0"

text \<open>
  \<open>mm_realloc\<close> keeps the old cells; the new ones are not read before they are written.
  The allocator is asked for \<open>a * sizeof *p\<close> bytes (8 bytes per pointer).
\<close>

definition min_heap_reserve :: "allocator \<Rightarrow> min_heap \<Rightarrow> nat \<Rightarrow> min_heap option" where
  "min_heap_reserve realloc s m =
     (if heap_a s < m
      then (let c = (if heap_a s \<noteq> 0 then (heap_a s * 2) mod 2 ^ 32 else 8);
                c' = (if c < m then m else c)
            in case realloc (c' * 8) of
                 None \<Rightarrow> None
               | Some _ \<Rightarrow> Some (s\<lparr>heap_p := heap_p s @ replicate (c' - length (heap_p s)) 0, heap_a := c'\<rparr>))
      else Some s)"

function min_heap_shift_up ::
  "event_store \<Rightarrow> min_heap \<Rightarrow> nat \<Rightarrow> event_id \<Rightarrow> event_store \<times> min_heap" where
  "min_heap_shift_up evs s hole_index e =
     (let parent = (hole_index - 1) div 2 in
      if hole_index \<noteq> 0 \<and> min_heap_elem_greater evs (heap_p s ! parent) e
      then min_heap_shift_up (set_heap_idx evs (heap_p s ! parent) (int hole_index))
             (s\<lparr>heap_p := (heap_p s)[hole_index := heap_p s ! parent]\<rparr>) parent e
      else (set_heap_idx evs e (int hole_index), s\<lparr>heap_p := (heap_p s)[hole_index := e]\<rparr>))"
  by pat_completeness auto
termination
  by (relation "measure (\<lambda>(evs, s, h, e). h)") auto

function min_heap_shift_down ::
  "event_store \<Rightarrow> min_heap \<Rightarrow> nat \<Rightarrow> event_id \<Rightarrow> event_store \<times> min_heap" where
  "min_heap_shift_down evs s hole_index e =
     (let min_child = 2 * (hole_index + 1) in
      if min_child \<le> heap_n s
      then (let c = (if min_child = heap_n s \<or>
                        min_heap_elem_greater evs (heap_p s ! min_child) (heap_p s ! (min_child - 1))
                     then min_child - 1 else min_child)
            in if \<not> min_heap_elem_greater evs e (heap_p s ! c)
               then (set_heap_idx evs e (int hole_index), s\<lparr>heap_p := (heap_p s)[hole_index := e]\<rparr>)
               else min_heap_shift_down (set_heap_idx evs (heap_p s ! c) (int hole_index))
                      (s\<lparr>heap_p := (heap_p s)[hole_index := heap_p s ! c]\<rparr>) c e)
      else (set_heap_idx evs e (int hole_index), s\<lparr>heap_p := (heap_p s)[hole_index := e]\<rparr>))"
  by pat_completeness auto
termination
  by (relation "measure (\<lambda>(evs, s, h, e). heap_n s - h)") (auto split: if_splits)

declare min_heap_shift_up.simps [simp del] min_heap_shift_down.simps [simp del]

text \<open>\<open>min_heap_push\<close> returns 0 with the new state, or -1 when the array cannot grow.\<close>

definition min_heap_push ::
  "allocator \<Rightarrow> event_store \<Rightarrow> min_heap \<Rightarrow> event_id \<Rightarrow> int \<times> event_store \<times> min_heap" where
  "min_heap_push realloc evs s e =
     (case min_heap_reserve realloc s (heap_n s + 1) of
        None \<Rightarrow> (- 1, evs, s)
      | Some s' \<Rightarrow> (0, min_heap_shift_up evs (s'\<lparr>heap_n := heap_n s' + 1\<rparr>) (heap_n s') e))"

definition min_heap_pop ::
  "event_store \<Rightarrow> min_heap \<Rightarrow> event_id option \<times> event_store \<times> min_heap" where
  "min_heap_pop evs s =
     (if heap_n s \<noteq> 0
      then (let e = heap_p s ! 0; s1 = s\<lparr>heap_n := heap_n s - 1\<rparr>;
                (evs', s') = min_heap_shift_down evs s1 0 (heap_p s ! (heap_n s - 1))
            in (Some e, set_heap_idx evs' e (- 1), s'))
      else (None, evs, s))"

definition min_heap_erase ::
  "event_store \<Rightarrow> min_heap \<Rightarrow> event_id \<Rightarrow> int \<times> event_store \<times> min_heap" where
  "min_heap_erase evs s e =
     (if min_heap_idx (evs e) \<noteq> - 1
      then (let last = heap_p s ! (heap_n s - 1); s1 = s\<lparr>heap_n := heap_n s - 1\<rparr>;
                i = nat (min_heap_idx (evs e)); parent = (i - 1) div 2;
                (evs', s') =
                  (if i > 0 \<and> min_heap_elem_greater evs (heap_p s ! parent) last
                   then min_heap_shift_up evs s1 i last
                   else min_heap_shift_down evs s1 i last)
            in (0, set_heap_idx evs' e (- 1), s'))
      else (- 1, evs, s))"

section \<open>The heap order on arrays\<close>

text \<open>
  Reasoning is about plain arrays of events under a key: \<open>heap_order\<close> is the heap order,
  \<open>heap_up i\<close> the heap order except between position \<open>i\<close> and its parent, \<open>heap_down i\<close>
  the heap order except between position \<open>i\<close> and its children.
\<close>

definition parent_pos :: "nat \<Rightarrow> nat" where
  "parent_pos j = (j - 1) div 2"

definition heap_order :: "('e \<Rightarrow> 'k::linorder) \<Rightarrow> 'e list \<Rightarrow> nat \<Rightarrow> bool" where
  "heap_order k xs m \<longleftrightarrow> (\<forall>j. 0 < j \<and> j < m \<longrightarrow> k (xs ! parent_pos j) \<le> k (xs ! j))"

definition heap_up :: "('e \<Rightarrow> 'k::linorder) \<Rightarrow> 'e list \<Rightarrow> nat \<Rightarrow> nat \<Rightarrow> bool" where
  "heap_up k xs m i \<longleftrightarrow>
     (\<forall>j. 0 < j \<and> j < m \<and> j \<noteq> i \<longrightarrow> k (xs ! parent_pos j) \<le> k (xs ! j)) \<and>
     (\<forall>j. 0 < j \<and> j < m \<and> parent_pos j = i \<and> 0 < i \<longrightarrow> k (xs ! parent_pos i) \<le> k (xs ! j))"

definition heap_down :: "('e \<Rightarrow> 'k::linorder) \<Rightarrow> 'e list \<Rightarrow> nat \<Rightarrow> nat \<Rightarrow> bool" where
  "heap_down k xs m i \<longleftrightarrow>
     (\<forall>j. 0 < j \<and> j < m \<and> parent_pos j \<noteq> i \<longrightarrow> k (xs ! parent_pos j) \<le> k (xs ! j)) \<and>
     (\<forall>j. 0 < j \<and> j < m \<and> parent_pos j = i \<and> 0 < i \<longrightarrow> k (xs ! parent_pos i) \<le> k (xs ! j))"

lemma parent_pos_less: "0 < j \<Longrightarrow> parent_pos j < j"
  by (auto simp: parent_pos_def)

lemma parent_pos_neq [simp]: "0 < j \<Longrightarrow> parent_pos j \<noteq> j" "0 < j \<Longrightarrow> j \<noteq> parent_pos j"
  using parent_pos_less[of j] by simp_all

lemma heap_order_root_le:
  assumes "heap_order k xs m" "j < m"
  shows "k (xs ! 0) \<le> k (xs ! j)"
  using assms(2)
proof (induction j rule: less_induct)
  case (less j)
  show ?case
  proof (cases "j = 0")
    case False
    then have "k (xs ! 0) \<le> k (xs ! parent_pos j)"
      using less parent_pos_less[of j] by simp
    also have "\<dots> \<le> k (xs ! j)"
      using assms(1) less.prems False by (simp add: heap_order_def)
    finally show ?thesis .
  qed simp
qed

lemma heap_up_stop:
  "heap_up k xs m i \<Longrightarrow> i = 0 \<or> k (xs ! parent_pos i) \<le> k (xs ! i) \<Longrightarrow> heap_order k xs m"
  unfolding heap_up_def heap_order_def by (metis less_not_refl)

lemma heap_upD:
  assumes "heap_up k xs m i"
  shows "\<And>j. 0 < j \<Longrightarrow> j < m \<Longrightarrow> j \<noteq> i \<Longrightarrow> k (xs ! parent_pos j) \<le> k (xs ! j)"
    and "\<And>j. 0 < j \<Longrightarrow> j < m \<Longrightarrow> parent_pos j = i \<Longrightarrow> 0 < i \<Longrightarrow> k (xs ! parent_pos i) \<le> k (xs ! j)"
  using assms unfolding heap_up_def by blast+

lemma heap_upI:
  assumes "\<And>j. 0 < j \<Longrightarrow> j < m \<Longrightarrow> j \<noteq> i \<Longrightarrow> k (xs ! parent_pos j) \<le> k (xs ! j)"
    and "\<And>j. 0 < j \<Longrightarrow> j < m \<Longrightarrow> parent_pos j = i \<Longrightarrow> 0 < i \<Longrightarrow> k (xs ! parent_pos i) \<le> k (xs ! j)"
  shows "heap_up k xs m i"
  using assms unfolding heap_up_def by blast

text \<open>
  One step up: the hole at \<open>i\<close> holds \<open>e\<close>; exchanging it with its larger parent moves the
  only possible violation to the parent's position.
\<close>

lemma heap_up_step:
  fixes k :: "'e \<Rightarrow> 'k::linorder"
  assumes up: "heap_up k ys m i" and i: "0 < i" "i < m" "m \<le> length ys"
    and gt: "k (ys ! i) < k (ys ! parent_pos i)"
  shows "heap_up k (ys[i := ys ! parent_pos i, parent_pos i := ys ! i]) m (parent_pos i)"
    (is "heap_up k ?zs m ?q")
proof -
  have q: "?q < i" using i parent_pos_less by blast
  have z: "?zs ! ?q = ys ! i" "?zs ! i = ys ! ?q"
    "\<And>j. j \<noteq> i \<Longrightarrow> j \<noteq> ?q \<Longrightarrow> ?zs ! j = ys ! j"
    using q i by (simp_all add: nth_list_update)
  note ord = heap_upD(1)[OF up] and below = heap_upD(2)[OF up]
  show ?thesis
  proof (rule heap_upI)
    fix j assume j: "0 < j" "j < m" "j \<noteq> ?q"
    show "k (?zs ! parent_pos j) \<le> k (?zs ! j)"
    proof (cases "j = i")
      case True
      then show ?thesis using gt z by simp
    next
      case False
      have yj: "k (ys ! parent_pos j) \<le> k (ys ! j)" using ord j False by blast
      consider "parent_pos j = i" | "parent_pos j = ?q" | "parent_pos j \<noteq> i" "parent_pos j \<noteq> ?q"
        by blast
      then show ?thesis
      proof cases
        case 1
        then show ?thesis using below[of j] j i False z by simp
      next
        case 2
        have "k (ys ! i) \<le> k (ys ! j)" using gt yj 2 by simp
        then show ?thesis using 2 j False z by simp
      next
        case 3
        then show ?thesis using yj j False z by simp
      qed
    qed
  next
    fix j assume j: "0 < j" "j < m" "parent_pos j = ?q" "0 < ?q"
    have qq: "parent_pos ?q \<noteq> i" "parent_pos ?q \<noteq> ?q"
      using parent_pos_less[OF j(4)] q by auto
    have grand: "k (ys ! parent_pos ?q) \<le> k (ys ! ?q)"
      using ord[of ?q] j(4) q i by simp
    show "k (?zs ! parent_pos ?q) \<le> k (?zs ! j)"
    proof (cases "j = i")
      case True
      then show ?thesis using grand z qq by simp
    next
      case False
      have "j \<noteq> ?q" using j parent_pos_less[of j] by auto
      moreover have "k (ys ! ?q) \<le> k (ys ! j)" using ord[of j] j False by simp
      ultimately show ?thesis using grand z qq False by simp
    qed
  qed
qed

lemma heap_downD:
  assumes "heap_down k xs m i"
  shows "\<And>j. 0 < j \<Longrightarrow> j < m \<Longrightarrow> parent_pos j \<noteq> i \<Longrightarrow> k (xs ! parent_pos j) \<le> k (xs ! j)"
    and "\<And>j. 0 < j \<Longrightarrow> j < m \<Longrightarrow> parent_pos j = i \<Longrightarrow> 0 < i \<Longrightarrow> k (xs ! parent_pos i) \<le> k (xs ! j)"
  using assms unfolding heap_down_def by blast+

lemma heap_downI:
  assumes "\<And>j. 0 < j \<Longrightarrow> j < m \<Longrightarrow> parent_pos j \<noteq> i \<Longrightarrow> k (xs ! parent_pos j) \<le> k (xs ! j)"
    and "\<And>j. 0 < j \<Longrightarrow> j < m \<Longrightarrow> parent_pos j = i \<Longrightarrow> 0 < i \<Longrightarrow> k (xs ! parent_pos i) \<le> k (xs ! j)"
  shows "heap_down k xs m i"
  using assms unfolding heap_down_def by blast

lemma heap_down_stop:
  assumes "heap_down k xs m i"
    and "\<And>j. 0 < j \<Longrightarrow> j < m \<Longrightarrow> parent_pos j = i \<Longrightarrow> k (xs ! i) \<le> k (xs ! j)"
  shows "heap_order k xs m"
  unfolding heap_order_def
proof (intro allI impI, elim conjE)
  fix j assume j: "0 < j" "j < m"
  show "k (xs ! parent_pos j) \<le> k (xs ! j)"
  proof (cases "parent_pos j = i")
    case True
    then show ?thesis using assms(2)[OF j True] by simp
  next
    case False
    then show ?thesis by (rule heap_downD(1)[OF assms(1) j])
  qed
qed

text \<open>One step down: the element at \<open>i\<close> is exchanged with its smallest child \<open>c\<close>.\<close>

lemma heap_down_step:
  fixes k :: "'e \<Rightarrow> 'k::linorder"
  assumes down: "heap_down k ys m i" and c: "parent_pos c = i" "0 < c" "c < m" "m \<le> length ys"
    and min: "\<And>j. 0 < j \<Longrightarrow> j < m \<Longrightarrow> parent_pos j = i \<Longrightarrow> k (ys ! c) \<le> k (ys ! j)"
    and gt: "k (ys ! c) < k (ys ! i)"
  shows "heap_down k (ys[i := ys ! c, c := ys ! i]) m c" (is "heap_down k ?zs m c")
proof -
  have ic: "i < c" using c parent_pos_less by blast
  have z: "?zs ! c = ys ! i" "?zs ! i = ys ! c" "\<And>j. j \<noteq> i \<Longrightarrow> j \<noteq> c \<Longrightarrow> ?zs ! j = ys ! j"
    using ic c by (simp_all add: nth_list_update)
  note ord = heap_downD(1)[OF down] and below = heap_downD(2)[OF down]
  show ?thesis
  proof (rule heap_downI)
    fix j assume j: "0 < j" "j < m" "parent_pos j \<noteq> c"
    consider "parent_pos j = i" "j = c" | "parent_pos j = i" "j \<noteq> c" | "parent_pos j \<noteq> i" "j = i"
      | "parent_pos j \<noteq> i" "j \<noteq> i" "j \<noteq> c" using c by blast
    then show "k (?zs ! parent_pos j) \<le> k (?zs ! j)"
    proof cases
      case 1
      then show ?thesis using gt z by simp
    next
      case 2
      then have "j \<noteq> i" using j parent_pos_less[of j] by auto
      then show ?thesis using 2 min[of j] j z by simp
    next
      case 3
      then show ?thesis using below[of c] c j z by simp
    next
      case 4
      then show ?thesis using ord[of j] j z by simp
    qed
  next
    fix j assume j: "0 < j" "j < m" "parent_pos j = c" "0 < c"
    have "j \<noteq> c" "j \<noteq> i" using j ic parent_pos_less[of j] by auto
    moreover have "k (ys ! c) \<le> k (ys ! j)" using ord[of j] j ic by simp
    ultimately show "k (?zs ! parent_pos c) \<le> k (?zs ! j)" using z c by simp
  qed
qed

lemma parent_pos_children: "0 < j \<Longrightarrow> parent_pos j = i \<longleftrightarrow> j = 2 * i + 1 \<or> j = 2 * i + 2"
  by (auto simp: parent_pos_def)

section \<open>Correctness of the two shift loops\<close>

abbreviation event_key :: "event_store \<Rightarrow> event_id \<Rightarrow> timeval" where
  "event_key evs \<equiv> \<lambda>x. ev_timeout (evs x)"

text \<open>Every event at a position below \<open>m\<close>, other than \<open>i\<close>, records that position.\<close>

definition indexed_but :: "event_store \<Rightarrow> event_id list \<Rightarrow> nat \<Rightarrow> nat \<Rightarrow> bool" where
  "indexed_but evs xs m i \<longleftrightarrow> (\<forall>j<m. j \<noteq> i \<longrightarrow> min_heap_idx (evs (xs ! j)) = int j)"

text \<open>Two stores that differ in the recorded positions only.\<close>

definition same_but_idx :: "event_store \<Rightarrow> event_store \<Rightarrow> bool" where
  "same_but_idx evs evs' \<longleftrightarrow> (\<forall>x. evs' x = (evs x)\<lparr>min_heap_idx := min_heap_idx (evs' x)\<rparr>)"

lemma same_but_idx_refl [simp]: "same_but_idx evs evs"
  by (simp add: same_but_idx_def)

lemma same_but_idx_set [simp]: "same_but_idx evs (set_heap_idx evs e i)"
  by (simp add: same_but_idx_def set_heap_idx_def)

lemma same_but_idx_fields:
  assumes "same_but_idx evs evs'"
  shows "ev_timeout (evs' x) = ev_timeout (evs x)" "ev_flags (evs' x) = ev_flags (evs x)"
    "ev_pri (evs' x) = ev_pri (evs x)" "ev_events (evs' x) = ev_events (evs x)" "ev_res (evs' x) = ev_res (evs x)"
    "ev_fd (evs' x) = ev_fd (evs x)" "ev_closure (evs' x) = ev_closure (evs x)"
    "ev_io_timeout (evs' x) = ev_io_timeout (evs x)" "ev_ncalls (evs' x) = ev_ncalls (evs x)"
    "ev_pncalls (evs' x) = ev_pncalls (evs x)"
proof -
  have "evs' x = (evs x)\<lparr>min_heap_idx := min_heap_idx (evs' x)\<rparr>" using assms by (simp add: same_but_idx_def)
  then obtain i where "evs' x = (evs x)\<lparr>min_heap_idx := i\<rparr>" by blast
  then show "ev_timeout (evs' x) = ev_timeout (evs x)" "ev_flags (evs' x) = ev_flags (evs x)"
    "ev_pri (evs' x) = ev_pri (evs x)" "ev_events (evs' x) = ev_events (evs x)" "ev_res (evs' x) = ev_res (evs x)"
    "ev_fd (evs' x) = ev_fd (evs x)" "ev_closure (evs' x) = ev_closure (evs x)"
    "ev_io_timeout (evs' x) = ev_io_timeout (evs x)" "ev_ncalls (evs' x) = ev_ncalls (evs x)"
    "ev_pncalls (evs' x) = ev_pncalls (evs x)" by simp_all
qed

lemma same_but_idx_trans [trans]:
  assumes "same_but_idx evs evs'" "same_but_idx evs' evs''"
  shows "same_but_idx evs evs''"
  unfolding same_but_idx_def
proof
  fix x
  obtain i where 1: "evs' x = (evs x)\<lparr>min_heap_idx := i\<rparr>" using assms(1) unfolding same_but_idx_def by blast
  obtain j where 2: "evs'' x = (evs' x)\<lparr>min_heap_idx := j\<rparr>" using assms(2) unfolding same_but_idx_def by blast
  show "evs'' x = (evs x)\<lparr>min_heap_idx := min_heap_idx (evs'' x)\<rparr>" unfolding 2 1 by simp
qed

lemma same_but_idx_key: "same_but_idx evs evs' \<Longrightarrow> event_key evs' = event_key evs"
  by (rule ext) (simp add: same_but_idx_fields)

lemma set_heap_idx_simps [simp]:
  "min_heap_idx (set_heap_idx evs e i x) = (if x = e then i else min_heap_idx (evs x))"
  "ev_timeout (set_heap_idx evs e i x) = ev_timeout (evs x)"
  "x \<noteq> e \<Longrightarrow> set_heap_idx evs e i x = evs x"
  by (auto simp: set_heap_idx_def)

lemma elem_greater_iff [simp]:
  "min_heap_elem_greater evs x y \<longleftrightarrow> ev_timeout (evs y) < ev_timeout (evs x)"
  by (simp add: min_heap_elem_greater_def timercmp_gt_iff)

text \<open>
  What a shift loop promises about the heap array with \<open>e\<close> put into the hole (\<open>ys\<close>): the
  result is heap-ordered, holds the same events, every event knows its position, and
  nothing else changes.
\<close>

definition sifted ::
  "nat \<Rightarrow> event_store \<Rightarrow> min_heap \<Rightarrow> event_id list \<Rightarrow> event_store \<times> min_heap \<Rightarrow> bool" where
  "sifted m evs s ys r \<longleftrightarrow>
     heap_order (event_key evs) (heap_p (snd r)) m \<and>
     mset (take m (heap_p (snd r))) = mset (take m ys) \<and>
     (\<forall>j<m. min_heap_idx (fst r (heap_p (snd r) ! j)) = int j) \<and>
     (\<forall>x. x \<notin> set (take m ys) \<longrightarrow> fst r x = evs x) \<and>
     same_but_idx evs (fst r) \<and>
     heap_n (snd r) = heap_n s \<and> heap_a (snd r) = heap_a s \<and>
     length (heap_p (snd r)) = length (heap_p s)"

lemma nth_in_take: "j < m \<Longrightarrow> m \<le> length xs \<Longrightarrow> xs ! j \<in> set (take m xs)"
  by (metis length_take min.absorb2 nth_mem nth_take)

lemma distinct_take_nth_eq:
  "distinct (take m xs) \<Longrightarrow> i < m \<Longrightarrow> j < m \<Longrightarrow> m \<le> length xs \<Longrightarrow> xs ! i = xs ! j \<longleftrightarrow> i = j"
  by (metis distinct_conv_nth length_take min.absorb2 nth_take)

lemma mset_take_swap:
  assumes "i < m" "j < m" "m \<le> length xs"
  shows "mset (take m (xs[i := xs ! j, j := xs ! i])) = mset (take m xs)"
proof -
  have "take m (xs[i := xs ! j, j := xs ! i]) = (take m xs)[i := take m xs ! j, j := take m xs ! i]"
    using assms by (simp add: take_update_swap)
  moreover have "mset \<dots> = mset (take m xs)"
    using assms by (intro mset_swap) auto
  ultimately show ?thesis by simp
qed

lemma sifted_stop:
  assumes "hole < m" "m \<le> length (heap_p s)"
    and "heap_order (event_key evs) ((heap_p s)[hole := e]) m"
    and "indexed_but evs (heap_p s) m hole" "distinct (take m ((heap_p s)[hole := e]))"
  shows "sifted m evs s ((heap_p s)[hole := e])
           (set_heap_idx evs e (int hole), s\<lparr>heap_p := (heap_p s)[hole := e]\<rparr>)"
proof -
  let ?ys = "(heap_p s)[hole := e]"
  have e: "?ys ! hole = e" using assms by simp
  have "min_heap_idx (set_heap_idx evs e (int hole) (?ys ! j)) = int j" if "j < m" for j
  proof (cases "j = hole")
    case True
    then show ?thesis using e by simp
  next
    case False
    then have "?ys ! j \<noteq> e"
      using distinct_take_nth_eq[OF assms(5), of j hole] e that assms(1,2) by simp
    then show ?thesis using assms(4) that False by (simp add: indexed_but_def)
  qed
  moreover have "e \<in> set (take m ?ys)"
    using nth_in_take[of hole m ?ys] e assms(1,2) by simp
  moreover have "set_heap_idx evs e (int hole) x = evs x" if "x \<notin> set (take m ?ys)" for x
    using that \<open>e \<in> set (take m ?ys)\<close> by (intro set_heap_idx_simps(3)) auto
  ultimately show ?thesis using assms(3) by (simp add: sifted_def)
qed

lemma sifted_step:
  assumes r: "sifted m (set_heap_idx evs (heap_p s ! q) (int hole))
                (s\<lparr>heap_p := (heap_p s)[hole := heap_p s ! q]\<rparr>)
                ((heap_p s)[hole := heap_p s ! q, q := e]) r"
    and q: "q < m" "hole < m" "q \<noteq> hole" "m \<le> length (heap_p s)"
  shows "sifted m evs s ((heap_p s)[hole := e]) r"
proof -
  let ?ys = "(heap_p s)[hole := e]"
  have swap: "(heap_p s)[hole := heap_p s ! q, q := e] = ?ys[hole := ?ys ! q, q := ?ys ! hole]"
    using q by simp
  have ms: "mset (take m ((heap_p s)[hole := heap_p s ! q, q := e])) = mset (take m ?ys)"
    unfolding swap using q by (intro mset_take_swap) auto
  then have st: "set (take m ((heap_p s)[hole := heap_p s ! q, q := e])) = set (take m ?ys)"
    by (metis set_mset_mset)
  have "heap_p s ! q \<in> set (take m ?ys)"
    using nth_in_take[of q m ?ys] q by simp
  then have "fst r x = evs x" if "x \<notin> set (take m ?ys)" for x
    using r that st unfolding sifted_def by (metis set_heap_idx_simps(3))
  moreover have "same_but_idx evs (fst r)"
    using r same_but_idx_trans[OF same_but_idx_set] by (auto simp: sifted_def)
  ultimately show ?thesis using r ms by (simp add: sifted_def)
qed

lemma step_state:
  assumes "distinct (take m ((heap_p s)[hole := e]))" "indexed_but evs (heap_p s) m hole"
    and q: "q < m" "hole < m" "q \<noteq> hole" "m \<le> length (heap_p s)"
  shows "distinct (take m ((heap_p s)[hole := heap_p s ! q, q := e]))"
    and "indexed_but (set_heap_idx evs (heap_p s ! q) (int hole))
           ((heap_p s)[hole := heap_p s ! q]) m q"
proof -
  let ?ys = "(heap_p s)[hole := e]"
  have "mset (take m (?ys[hole := ?ys ! q, q := ?ys ! hole])) = mset (take m ?ys)"
    using q by (intro mset_take_swap) auto
  then show "distinct (take m ((heap_p s)[hole := heap_p s ! q, q := e]))"
    using assms(1) q by (metis list_update_overwrite mset_eq_imp_distinct_iff nth_list_update_eq
        nth_list_update_neq order_less_le_trans)
  have "heap_p s ! j \<noteq> heap_p s ! q" if "j < m" "j \<noteq> hole" "j \<noteq> q" for j
    using distinct_take_nth_eq[OF assms(1), of j q] that q by simp
  then show "indexed_but (set_heap_idx evs (heap_p s ! q) (int hole))
           ((heap_p s)[hole := heap_p s ! q]) m q"
    using assms(2) q by (auto simp: indexed_but_def nth_list_update)
qed

lemma shift_up_unfold:
  "min_heap_shift_up evs s hole e =
     (if hole \<noteq> 0 \<and> min_heap_elem_greater evs (heap_p s ! parent_pos hole) e
      then min_heap_shift_up (set_heap_idx evs (heap_p s ! parent_pos hole) (int hole))
             (s\<lparr>heap_p := (heap_p s)[hole := heap_p s ! parent_pos hole]\<rparr>) (parent_pos hole) e
      else (set_heap_idx evs e (int hole), s\<lparr>heap_p := (heap_p s)[hole := e]\<rparr>))"
  by (subst min_heap_shift_up.simps) (simp only: Let_def parent_pos_def)

lemma shift_up_sifted:
  assumes "hole < m" "m \<le> length (heap_p s)"
    and "heap_up (event_key evs) ((heap_p s)[hole := e]) m hole"
    and "indexed_but evs (heap_p s) m hole" "distinct (take m ((heap_p s)[hole := e]))"
  shows "sifted m evs s ((heap_p s)[hole := e]) (min_heap_shift_up evs s hole e)"
  using assms
proof (induction evs s hole e rule: min_heap_shift_up.induct)
  case (1 evs s hole e)
  let ?q = "parent_pos hole"
  let ?ys = "(heap_p s)[hole := e]"
  show ?case
  proof (cases "hole \<noteq> 0 \<and> min_heap_elem_greater evs (heap_p s ! ?q) e")
    case True
    then have q: "?q < hole" "?q < m" "?q \<noteq> hole" using parent_pos_less[of hole] "1.prems" by auto
    have swap: "(heap_p s)[hole := heap_p s ! ?q, ?q := e] = ?ys[hole := ?ys ! ?q, ?q := ?ys ! hole]"
      using q "1.prems" by simp
    have "heap_up (event_key evs) ((heap_p s)[hole := heap_p s ! ?q, ?q := e]) m ?q"
      unfolding swap using True q "1.prems" by (intro heap_up_step) auto
    note st = this step_state[OF "1.prems"(5,4) q(2) "1.prems"(1) q(3) "1.prems"(2)]
    have "sifted m (set_heap_idx evs (heap_p s ! ?q) (int hole))
        (s\<lparr>heap_p := (heap_p s)[hole := heap_p s ! ?q]\<rparr>)
        ((heap_p s)[hole := heap_p s ! ?q, ?q := e])
        (min_heap_shift_up (set_heap_idx evs (heap_p s ! ?q) (int hole))
           (s\<lparr>heap_p := (heap_p s)[hole := heap_p s ! ?q]\<rparr>) ?q e)"
      using "1.IH"[OF refl, folded parent_pos_def, OF True] st q "1.prems" by simp
    then show ?thesis
      using sifted_step[OF _ q(2) "1.prems"(1) q(3) "1.prems"(2)] True
      by (subst shift_up_unfold) simp
  next
    case False
    then have "hole = 0 \<or> event_key evs (?ys ! parent_pos hole) \<le> event_key evs (?ys ! hole)"
      using "1.prems" by (cases "hole = 0") auto
    then have "heap_order (event_key evs) ?ys m"
      by (rule heap_up_stop[OF "1.prems"(3)])
    then show ?thesis
      using sifted_stop[OF "1.prems"(1,2) _ "1.prems"(4,5)] False
      by (subst shift_up_unfold) auto
  qed
qed

text \<open>The child the loop of \<open>min_heap_shift_down\<close> compares with: the smaller of the two.\<close>

definition min_child_pos :: "event_store \<Rightarrow> min_heap \<Rightarrow> nat \<Rightarrow> nat" where
  "min_child_pos evs s i =
     (if 2 * (i + 1) = heap_n s \<or>
         min_heap_elem_greater evs (heap_p s ! (2 * (i + 1))) (heap_p s ! (2 * (i + 1) - 1))
      then 2 * (i + 1) - 1 else 2 * (i + 1))"

lemma shift_down_unfold:
  "min_heap_shift_down evs s hole e =
     (let c = min_child_pos evs s hole in
      if 2 * (hole + 1) \<le> heap_n s \<and> min_heap_elem_greater evs e (heap_p s ! c)
      then min_heap_shift_down (set_heap_idx evs (heap_p s ! c) (int hole))
             (s\<lparr>heap_p := (heap_p s)[hole := heap_p s ! c]\<rparr>) c e
      else (set_heap_idx evs e (int hole), s\<lparr>heap_p := (heap_p s)[hole := e]\<rparr>))"
  unfolding min_heap_shift_down.simps[of evs s hole e] Let_def min_child_pos_def[symmetric]
  by (cases "2 * (hole + 1) \<le> heap_n s") simp_all

lemma min_child_pos_bounds:
  assumes "2 * (i + 1) \<le> heap_n s"
  shows "parent_pos (min_child_pos evs s i) = i" "0 < min_child_pos evs s i"
    "min_child_pos evs s i < heap_n s" "i < min_child_pos evs s i"
  using assms by (auto simp: min_child_pos_def parent_pos_def)

lemma min_child_pos_least:
  assumes "2 * (i + 1) \<le> heap_n s" "0 < j" "j < heap_n s" "parent_pos j = i"
  shows "event_key evs (heap_p s ! min_child_pos evs s i) \<le> event_key evs (heap_p s ! j)"
proof -
  have "j = 2 * i + 1 \<or> j = 2 * i + 2" using assms parent_pos_children by blast
  then show ?thesis using assms by (auto simp: min_child_pos_def)
qed

lemma shift_down_sifted:
  assumes "hole < heap_n s" "heap_n s \<le> length (heap_p s)"
    and "heap_down (event_key evs) ((heap_p s)[hole := e]) (heap_n s) hole"
    and "indexed_but evs (heap_p s) (heap_n s) hole"
    and "distinct (take (heap_n s) ((heap_p s)[hole := e]))"
  shows "sifted (heap_n s) evs s ((heap_p s)[hole := e]) (min_heap_shift_down evs s hole e)"
  using assms
proof (induction "heap_n s - hole" arbitrary: evs s hole rule: less_induct)
  case (less s hole evs)
  let ?c = "min_child_pos evs s hole" and ?m = "heap_n s"
  let ?ys = "(heap_p s)[hole := e]"
  show ?case
  proof (cases "2 * (hole + 1) \<le> ?m \<and> min_heap_elem_greater evs e (heap_p s ! ?c)")
    case True
    then have c: "parent_pos ?c = hole" "0 < ?c" "?c < ?m" "hole < ?c" "?c \<noteq> hole"
      using min_child_pos_bounds[of hole s evs] by auto
    let ?s = "s\<lparr>heap_p := (heap_p s)[hole := heap_p s ! ?c]\<rparr>"
    let ?evs = "set_heap_idx evs (heap_p s ! ?c) (int hole)"
    have swap: "(heap_p s)[hole := heap_p s ! ?c, ?c := e] = ?ys[hole := ?ys ! ?c, ?c := ?ys ! hole]"
      using c less.prems by simp
    have least: "event_key evs (?ys ! ?c) \<le> event_key evs (?ys ! j)"
      if "0 < j" "j < ?m" "parent_pos j = hole" for j
      using min_child_pos_least[of hole s j evs] that True c by auto
    have "heap_down (event_key evs) ((heap_p s)[hole := heap_p s ! ?c, ?c := e]) ?m ?c"
      unfolding swap using True c least less.prems by (intro heap_down_step) auto
    note st = this step_state[OF less.prems(5,4) c(3) less.prems(1) c(5) less.prems(2)]
    have "sifted ?m ?evs ?s ((heap_p s)[hole := heap_p s ! ?c, ?c := e])
        (min_heap_shift_down ?evs ?s ?c e)"
      using less.hyps[of ?s ?c ?evs] st c less.prems by simp
    then have "sifted ?m evs s ?ys (min_heap_shift_down ?evs ?s ?c e)"
      using sifted_step[OF _ c(3) less.prems(1) c(5) less.prems(2)] by blast
    then show ?thesis using True by (subst shift_down_unfold) (simp add: Let_def)
  next
    case False
    have "heap_order (event_key evs) ?ys ?m"
    proof (rule heap_down_stop[OF less.prems(3)])
      fix j assume j: "0 < j" "j < ?m" "parent_pos j = hole"
      have m: "2 * (hole + 1) \<le> ?m" using j parent_pos_children[of j hole] by auto
      then have "event_key evs e \<le> event_key evs (heap_p s ! ?c)" using False by simp
      also have "\<dots> \<le> event_key evs (heap_p s ! j)" using min_child_pos_least[OF m j] .
      finally show "event_key evs (?ys ! hole) \<le> event_key evs (?ys ! j)"
        using j less.prems by auto
    qed
    then have "sifted ?m evs s ?ys (set_heap_idx evs e (int hole), s\<lparr>heap_p := ?ys\<rparr>)"
      using sifted_stop[OF less.prems(1,2) _ less.prems(4,5)] by blast
    then show ?thesis using False by (subst shift_down_unfold) (auto simp: Let_def)
  qed
qed

section \<open>The invariant and the operations\<close>

definition min_heap_elems :: "min_heap \<Rightarrow> event_id set" where
  "min_heap_elems s = set (take (heap_n s) (heap_p s))"

definition min_heap_inv :: "event_store \<Rightarrow> min_heap \<Rightarrow> bool" where
  "min_heap_inv evs s \<longleftrightarrow>
     heap_n s \<le> heap_a s \<and> heap_a s = length (heap_p s) \<and>
     heap_order (event_key evs) (heap_p s) (heap_n s) \<and>
     distinct (take (heap_n s) (heap_p s)) \<and>
     (\<forall>j<heap_n s. min_heap_idx (evs (heap_p s ! j)) = int j) \<and>
     (\<forall>x. x \<notin> min_heap_elems s \<longrightarrow> min_heap_idx (evs x) = - 1)"

lemma min_heap_invD:
  assumes "min_heap_inv evs s"
  shows "heap_n s \<le> heap_a s" "heap_a s = length (heap_p s)"
    "heap_order (event_key evs) (heap_p s) (heap_n s)"
    "distinct (take (heap_n s) (heap_p s))"
    "\<And>j. j < heap_n s \<Longrightarrow> min_heap_idx (evs (heap_p s ! j)) = int j"
    "\<And>x. x \<notin> min_heap_elems s \<Longrightarrow> min_heap_idx (evs x) = - 1"
    "heap_n s \<le> length (heap_p s)"
  using assms by (auto simp: min_heap_inv_def)

lemma min_heap_inv_ctor: "(\<And>x. min_heap_idx (evs x) = - 1) \<Longrightarrow> min_heap_inv evs min_heap_ctor"
  by (simp add: min_heap_inv_def min_heap_ctor_def heap_order_def)

lemma min_heap_elems_nth: "j < heap_n s \<Longrightarrow> heap_n s \<le> length (heap_p s) \<Longrightarrow> heap_p s ! j \<in> min_heap_elems s"
  by (simp add: min_heap_elems_def nth_in_take)

lemma min_heap_elems_pos:
  assumes "min_heap_inv evs s" "e \<in> min_heap_elems s"
  obtains i where "i < heap_n s" "heap_p s ! i = e" "min_heap_idx (evs e) = int i"
proof -
  from assms(2) obtain i where "i < heap_n s" "heap_p s ! i = e"
    by (auto simp: min_heap_elems_def in_set_conv_nth)
  then show ?thesis using that min_heap_invD(5)[OF assms(1)] by metis
qed

lemma min_heap_idx_iff:
  "min_heap_inv evs s \<Longrightarrow> min_heap_idx (evs e) \<noteq> - 1 \<longleftrightarrow> e \<in> min_heap_elems s"
  by (metis min_heap_elems_pos min_heap_invD(6) of_nat_0_le_iff neg_0_le_iff_le not_one_le_zero)

lemma min_heap_top_least:
  assumes "min_heap_inv evs s" "min_heap_top s = Some e" "x \<in> min_heap_elems s"
  shows "ev_timeout (evs e) \<le> ev_timeout (evs x)"
proof -
  obtain i where "i < heap_n s" "heap_p s ! i = x"
    using assms by (elim min_heap_elems_pos)
  then show ?thesis
    using heap_order_root_le[OF min_heap_invD(3)[OF assms(1)], of i] assms(2)
    by (auto simp: min_heap_top_def split: if_splits)
qed

lemma min_heap_top_None: "min_heap_inv evs s \<Longrightarrow> min_heap_top s = None \<longleftrightarrow> min_heap_elems s = {}"
  by (auto simp: min_heap_top_def min_heap_elems_def min_heap_inv_def)

lemma min_heap_top_Some: "min_heap_inv evs s \<Longrightarrow> min_heap_top s = Some e \<Longrightarrow> e \<in> min_heap_elems s"
  using min_heap_elems_nth[of 0 s] by (auto simp: min_heap_top_def min_heap_inv_def split: if_splits)

lemma min_heap_reserve_Some:
  assumes "min_heap_reserve realloc s m = Some s'" "heap_a s = length (heap_p s)" "heap_n s \<le> heap_a s"
  shows "heap_n s' = heap_n s" "heap_a s' = length (heap_p s')" "m \<le> length (heap_p s')"
    "take (heap_n s) (heap_p s') = take (heap_n s) (heap_p s)"
    "\<And>j. j < heap_n s \<Longrightarrow> heap_p s' ! j = heap_p s ! j"
  using assms by (auto simp: min_heap_reserve_def Let_def nth_append split: if_splits option.splits)

lemma min_heap_push_ok:
  assumes inv: "min_heap_inv evs s" and e: "e \<notin> min_heap_elems s"
    and push: "min_heap_push realloc evs s e = (0, evs', s')"
  shows "min_heap_inv evs' s' \<and> min_heap_elems s' = insert e (min_heap_elems s) \<and> same_but_idx evs evs'"
proof -
  note D = min_heap_invD[OF inv]
  obtain s1 where s1: "min_heap_reserve realloc s (heap_n s + 1) = Some s1"
    and r: "(evs', s') = min_heap_shift_up evs (s1\<lparr>heap_n := heap_n s + 1\<rparr>) (heap_n s) e"
    using push D(1,2) min_heap_reserve_Some(1)
    by (auto simp: min_heap_push_def split: option.splits)
  note R = min_heap_reserve_Some[OF s1 D(2,1)]
  let ?s = "s1\<lparr>heap_n := heap_n s + 1\<rparr>" and ?n = "heap_n s"
  let ?ys = "(heap_p s1)[?n := e]"
  have len: "?n + 1 \<le> length (heap_p s1)" using R(3) by simp
  have old: "take (?n + 1) ?ys = take ?n (heap_p s) @ [e]"
    using len R(4) by (simp add: take_Suc_eq_snoc)
  have "heap_up (event_key evs) ?ys (?n + 1) ?n"
  proof (rule heap_upI)
    fix j assume j: "0 < j" "j < ?n + 1" "j \<noteq> ?n"
    then have "parent_pos j < j" "j < ?n" using parent_pos_less by auto
    then show "event_key evs (?ys ! parent_pos j) \<le> event_key evs (?ys ! j)"
      using D(3) j R(5) by (simp add: heap_order_def)
  next
    fix j assume "0 < j" "j < ?n + 1" "parent_pos j = ?n"
    then show "event_key evs (?ys ! parent_pos ?n) \<le> event_key evs (?ys ! j)"
      using parent_pos_less[of j] by auto
  qed
  moreover have "indexed_but evs (heap_p s1) (?n + 1) ?n"
    using D(5) R(5) by (auto simp: indexed_but_def)
  moreover have "distinct (take (?n + 1) ?ys)"
    using D(4) e unfolding old by (simp add: min_heap_elems_def)
  ultimately have "sifted (?n + 1) evs ?s ?ys (evs', s')"
    unfolding r using shift_up_sifted[of ?n "?n + 1" ?s evs e] len by simp
  then have S: "heap_order (event_key evs) (heap_p s') (?n + 1)"
    "mset (take (?n + 1) (heap_p s')) = mset (take ?n (heap_p s) @ [e])"
    "\<forall>j<?n + 1. min_heap_idx (evs' (heap_p s' ! j)) = int j"
    "\<forall>x. x \<notin> set (take ?n (heap_p s) @ [e]) \<longrightarrow> evs' x = evs x"
    "same_but_idx evs evs'" "heap_n s' = ?n + 1" "heap_a s' = heap_a s1"
    "length (heap_p s') = length (heap_p s1)"
    unfolding sifted_def old by auto
  have "set (take (?n + 1) (heap_p s')) = insert e (min_heap_elems s)"
    using mset_eq_setD[OF S(2)] by (simp add: min_heap_elems_def)
  then have el: "min_heap_elems s' = insert e (min_heap_elems s)"
    using S(6) by (simp add: min_heap_elems_def)
  have "distinct (take (?n + 1) (heap_p s'))"
    using mset_eq_imp_distinct_iff[OF S(2)] D(4) e by (simp add: min_heap_elems_def)
  moreover have "\<forall>x. x \<notin> min_heap_elems s' \<longrightarrow> min_heap_idx (evs' x) = - 1"
    using S(4) D(6) el by (simp add: min_heap_elems_def)
  ultimately have "min_heap_inv evs' s'"
    using S len R(2) same_but_idx_key[OF S(5)] by (simp add: min_heap_inv_def)
  then show ?thesis using el S(5) by simp
qed

text \<open>Removing \<open>e\<close>: its place is taken by the last event, which is shifted up or down.\<close>

lemma sifted_remove:
  assumes inv: "min_heap_inv evs s" and m: "heap_n s = Suc m"
    and i: "i < Suc m" "heap_p s ! i = e"
    and ys: "i < m \<Longrightarrow> ys = (heap_p s)[i := heap_p s ! m]" "i = m \<Longrightarrow> ys = heap_p s"
    and r: "sifted m evs (s\<lparr>heap_n := m\<rparr>) ys (evs1, s')" 
  shows "min_heap_inv (set_heap_idx evs1 e (- 1)) s' \<and> min_heap_elems s' = min_heap_elems s - {e} \<and>
         same_but_idx evs (set_heap_idx evs1 e (- 1))"
proof -
  note D = min_heap_invD[OF inv]
  have whole: "take (Suc m) (heap_p s) = take m (heap_p s) @ [heap_p s ! m]"
    using D(7) m by (simp add: take_Suc_eq_snoc)
  have "mset (take m ys) = mset (take (Suc m) (heap_p s)) - {#e#}"
  proof (cases "i = m")
    case True
    then show ?thesis using ys(2) i whole by simp
  next
    case False
    then have "i < m" using i by simp
    then have "take m ys = (take m (heap_p s))[i := heap_p s ! m]"
      using ys(1) by (simp add: take_list_update_within)
    moreover have "e \<in># mset (take m (heap_p s))"
      using \<open>i < m\<close> i D(7) m nth_in_take[of i m "heap_p s"] by simp
    ultimately show ?thesis
      using \<open>i < m\<close> i D(7) m whole by (auto simp: mset_update dest!: multi_member_split)
  qed
  then have ms: "mset (take m (heap_p s')) = mset (take (Suc m) (heap_p s)) - {#e#}"
    using r by (simp add: sifted_def)
  have dist: "distinct (take (Suc m) (heap_p s))" using D(4) m by simp
  have "mset (take m (heap_p s')) = mset (remove1 e (take (Suc m) (heap_p s)))"
    using ms by simp
  from mset_eq_setD[OF this] mset_eq_imp_distinct_iff[OF this]
  have dist': "distinct (take m (heap_p s'))"
    and "set (take m (heap_p s')) = set (take (Suc m) (heap_p s)) - {e}"
    using dist by (simp_all add: set_remove1_eq)
  then have el: "min_heap_elems s' = min_heap_elems s - {e}"
    using r m by (simp add: sifted_def min_heap_elems_def)
  have ys_el: "set (take m ys) = min_heap_elems s - {e}"
    using r el mset_eq_setD[of "take m (heap_p s')" "take m ys"]
    by (auto simp: sifted_def min_heap_elems_def)
  have len: "m \<le> length (heap_p s')" "heap_n s' = m" using r D(7) m by (auto simp: sifted_def)
  have "min_heap_idx (set_heap_idx evs1 e (- 1) (heap_p s' ! j)) = int j" if "j < m" for j
  proof -
    have "heap_p s' ! j \<noteq> e" using min_heap_elems_nth[of j s'] len that el by auto
    then show ?thesis using r that by (simp add: sifted_def)
  qed
  moreover have "min_heap_idx (set_heap_idx evs1 e (- 1) x) = - 1" if "x \<notin> min_heap_elems s'" for x
  proof (cases "x = e")
    case False
    then have "x \<notin> min_heap_elems s" using that el by simp
    then show ?thesis using False r D(6) ys_el by (simp add: sifted_def)
  qed simp
  ultimately have "min_heap_inv (set_heap_idx evs1 e (- 1)) s'"
    using r len dist' D(1,2) m same_but_idx_key[of evs evs1]
    by (simp add: min_heap_inv_def sifted_def)
  moreover have "same_but_idx evs (set_heap_idx evs1 e (- 1))"
    using r same_but_idx_trans[OF _ same_but_idx_set] by (auto simp: sifted_def)
  ultimately show ?thesis using el by simp
qed

text \<open>The last event put into the hole at \<open>i\<close> violates the order upwards or downwards, not both.\<close>

lemma replace_heap_up_down:
  fixes k :: "event_id \<Rightarrow> 'k::linorder"
  assumes h: "heap_order k xs (Suc m)" and i: "i < m" "m < length xs"
  shows "0 < i \<Longrightarrow> k (xs ! m) < k (xs ! parent_pos i) \<Longrightarrow> heap_up k (xs[i := xs ! m]) m i"
    and "\<not> (0 < i \<and> k (xs ! m) < k (xs ! parent_pos i)) \<Longrightarrow> heap_down k (xs[i := xs ! m]) m i"
proof -
  have ord: "k (xs ! parent_pos j) \<le> k (xs ! j)" if "0 < j" "j < m" for j
    using h that by (simp add: heap_order_def)
  have grand: "k (xs ! parent_pos i) \<le> k (xs ! j)" if "0 < j" "j < m" "parent_pos j = i" "0 < i" for j
    using ord[of j] ord[of i] that i by simp
  have child: "j \<noteq> i" if "0 < j" "parent_pos j = i" for j
    using that parent_pos_less[of j] by auto
  show "heap_up k (xs[i := xs ! m]) m i" if "0 < i" "k (xs ! m) < k (xs ! parent_pos i)"
  proof (rule heap_upI)
    fix j assume j: "0 < j" "j < m" "j \<noteq> i"
    show "k (xs[i := xs ! m] ! parent_pos j) \<le> k (xs[i := xs ! m] ! j)"
      using ord[of j] grand[of j] j that i by (cases "parent_pos j = i") auto
  next
    fix j assume j: "0 < j" "j < m" "parent_pos j = i" "0 < i"
    then show "k (xs[i := xs ! m] ! parent_pos i) \<le> k (xs[i := xs ! m] ! j)"
      using grand[of j] child[of j] i by auto
  qed
  show "heap_down k (xs[i := xs ! m]) m i" if "\<not> (0 < i \<and> k (xs ! m) < k (xs ! parent_pos i))"
  proof (rule heap_downI)
    fix j assume j: "0 < j" "j < m" "parent_pos j \<noteq> i"
    show "k (xs[i := xs ! m] ! parent_pos j) \<le> k (xs[i := xs ! m] ! j)"
      using ord[of j] j that i by (cases "j = i") auto
  next
    fix j assume j: "0 < j" "j < m" "parent_pos j = i" "0 < i"
    then show "k (xs[i := xs ! m] ! parent_pos i) \<le> k (xs[i := xs ! m] ! j)"
      using grand[of j] child[of j] i by auto
  qed
qed

lemma erase_shift_sifted:
  assumes inv: "min_heap_inv evs s" and m: "heap_n s = Suc m" and i: "i < m"
  shows "0 < i \<and> min_heap_elem_greater evs (heap_p s ! parent_pos i) (heap_p s ! m) \<Longrightarrow>
           sifted m evs (s\<lparr>heap_n := m\<rparr>) ((heap_p s)[i := heap_p s ! m])
             (min_heap_shift_up evs (s\<lparr>heap_n := m\<rparr>) i (heap_p s ! m))"
    and "\<not> (0 < i \<and> min_heap_elem_greater evs (heap_p s ! parent_pos i) (heap_p s ! m)) \<Longrightarrow>
           sifted m evs (s\<lparr>heap_n := m\<rparr>) ((heap_p s)[i := heap_p s ! m])
             (min_heap_shift_down evs (s\<lparr>heap_n := m\<rparr>) i (heap_p s ! m))"
proof -
  note D = min_heap_invD[OF inv]
  let ?s = "s\<lparr>heap_n := m\<rparr>" and ?l = "heap_p s ! m"
  have len: "m \<le> length (heap_p ?s)" "m < length (heap_p s)" using D(7) m by auto
  have idx: "indexed_but evs (heap_p ?s) m i" using D(5) m by (simp add: indexed_but_def)
  have "distinct (take m (heap_p s) @ [?l])"
    using D(4) m len by (simp add: take_Suc_eq_snoc)
  then have dist: "distinct (take m ((heap_p ?s)[i := ?l]))"
    using i by (simp add: take_list_update_within distinct_list_update)
  note replace = replace_heap_up_down[OF D(3)[unfolded m] i len(2)]
  show "sifted m evs ?s ((heap_p s)[i := ?l]) (min_heap_shift_up evs ?s i ?l)"
    if "0 < i \<and> min_heap_elem_greater evs (heap_p s ! parent_pos i) ?l"
    using shift_up_sifted[OF i len(1) _ idx dist] replace(1) that by simp
  show "sifted m evs ?s ((heap_p s)[i := ?l]) (min_heap_shift_down evs ?s i ?l)"
    if "\<not> (0 < i \<and> min_heap_elem_greater evs (heap_p s ! parent_pos i) ?l)"
    using shift_down_sifted[of i ?s evs ?l] i len idx dist replace(2) that by auto
qed

text \<open>Erasing the last event leaves the array as it is.\<close>

lemma erase_last_sifted:
  assumes inv: "min_heap_inv evs s" and m: "heap_n s = Suc m"
  shows "\<not> (0 < m \<and> min_heap_elem_greater evs (heap_p s ! parent_pos m) (heap_p s ! m))"
    and "min_heap_shift_down evs (s\<lparr>heap_n := m\<rparr>) m (heap_p s ! m) =
           (set_heap_idx evs (heap_p s ! m) (int m), s\<lparr>heap_n := m\<rparr>)"
    and "sifted m evs (s\<lparr>heap_n := m\<rparr>) (heap_p s) (evs, s\<lparr>heap_n := m\<rparr>)"
proof -
  note D = min_heap_invD[OF inv]
  show "\<not> (0 < m \<and> min_heap_elem_greater evs (heap_p s ! parent_pos m) (heap_p s ! m))"
    using D(3) m by (auto simp: heap_order_def not_less)
  show "min_heap_shift_down evs (s\<lparr>heap_n := m\<rparr>) m (heap_p s ! m) =
      (set_heap_idx evs (heap_p s ! m) (int m), s\<lparr>heap_n := m\<rparr>)"
    by (subst shift_down_unfold) (simp add: Let_def)
  show "sifted m evs (s\<lparr>heap_n := m\<rparr>) (heap_p s) (evs, s\<lparr>heap_n := m\<rparr>)"
    using D(3,5) m by (simp add: sifted_def heap_order_def)
qed

lemma min_heap_erase_ok:
  assumes inv: "min_heap_inv evs s" and e: "e \<in> min_heap_elems s"
    and erase: "min_heap_erase evs s e = (r, evs', s')"
  shows "r = 0 \<and> min_heap_inv evs' s' \<and> min_heap_elems s' = min_heap_elems s - {e} \<and>
         same_but_idx evs evs'"
proof -
  obtain i where i: "i < heap_n s" "heap_p s ! i = e" "min_heap_idx (evs e) = int i"
    using min_heap_elems_pos[OF inv e] .
  then obtain m where m: "heap_n s = Suc m" by (cases "heap_n s") auto
  let ?up = "0 < i \<and> min_heap_elem_greater evs (heap_p s ! parent_pos i) (heap_p s ! m)"
  let ?r = "if ?up then min_heap_shift_up evs (s\<lparr>heap_n := m\<rparr>) i (heap_p s ! m)
            else min_heap_shift_down evs (s\<lparr>heap_n := m\<rparr>) i (heap_p s ! m)"
  have eq: "r = 0" "evs' = set_heap_idx (fst ?r) e (- 1)" "s' = snd ?r"
    using erase i m by (auto simp: min_heap_erase_def Let_def parent_pos_def split: prod.splits if_splits)
  show ?thesis
  proof (cases "i = m")
    case True
    then have "evs' = set_heap_idx evs e (- 1)" "s' = s\<lparr>heap_n := m\<rparr>"
      using eq erase_last_sifted(1,2)[OF inv m] i by (auto simp: set_heap_idx_def)
    then show ?thesis
      using sifted_remove[OF inv m i(1)[unfolded m] i(2) _ _ erase_last_sifted(3)[OF inv m]] True eq
      by simp
  next
    case False
    then have "i < m" using i m by simp
    then have "sifted m evs (s\<lparr>heap_n := m\<rparr>) ((heap_p s)[i := heap_p s ! m]) (fst ?r, snd ?r)"
      unfolding prod.collapse
    proof (cases ?up)
      case True
      then show "sifted m evs (s\<lparr>heap_n := m\<rparr>) ((heap_p s)[i := heap_p s ! m]) ?r"
        using erase_shift_sifted(1)[OF inv m \<open>i < m\<close>] by simp
    next
      case False
      then show "sifted m evs (s\<lparr>heap_n := m\<rparr>) ((heap_p s)[i := heap_p s ! m]) ?r"
        using erase_shift_sifted(2)[OF inv m \<open>i < m\<close> False] by (simp only: if_False)
    qed
    from sifted_remove[OF inv m i(1)[unfolded m] i(2) _ _ this] False
    show ?thesis unfolding eq by blast
  qed
qed

lemma min_heap_pop_eq:
  assumes inv: "min_heap_inv evs s" and n: "heap_n s \<noteq> 0"
  shows "min_heap_pop evs s = (Some (heap_p s ! 0), snd (min_heap_erase evs s (heap_p s ! 0)))"
  using min_heap_invD(5)[OF inv, of 0] n
  by (simp add: min_heap_pop_def min_heap_erase_def Let_def split: prod.splits)

lemma min_heap_pop_ok:
  assumes inv: "min_heap_inv evs s" and pop: "min_heap_pop evs s = (Some e, evs', s')"
  shows "min_heap_top s = Some e \<and> min_heap_inv evs' s' \<and> min_heap_elems s' = min_heap_elems s - {e}
         \<and> same_but_idx evs evs'"
proof -
  have n: "heap_n s \<noteq> 0" using pop by (auto simp: min_heap_pop_def split: if_splits)
  then have e: "e = heap_p s ! 0" "snd (min_heap_erase evs s e) = (evs', s')"
    using min_heap_pop_eq[OF inv n] pop by auto
  then have "e \<in> min_heap_elems s" using min_heap_elems_nth n min_heap_invD(7)[OF inv] by simp
  from min_heap_erase_ok[OF inv this] e(2)
  have "min_heap_inv evs' s' \<and> min_heap_elems s' = min_heap_elems s - {e} \<and> same_but_idx evs evs'"
    by (metis prod.collapse)
  then show ?thesis using e n by (simp add: min_heap_top_def)
qed

text \<open>No operation but \<open>min_heap_reserve\<close> changes the capacity.\<close>

lemma shift_up_cap: "heap_a (snd (min_heap_shift_up evs s i e)) = heap_a s"
proof (induction evs s i e rule: min_heap_shift_up.induct)
  case (1 evs s i e)
  then show ?case by (subst min_heap_shift_up.simps) (simp add: Let_def)
qed

lemma shift_down_cap: "heap_a (snd (min_heap_shift_down evs s i e)) = heap_a s"
proof (induction evs s i e rule: min_heap_shift_down.induct)
  case (1 evs s i e)
  then show ?case by (subst min_heap_shift_down.simps) (simp add: Let_def)
qed

lemma min_heap_erase_cap: "min_heap_erase evs s e = (r, evs', s') \<Longrightarrow> heap_a s' = heap_a s"
  by (auto simp: min_heap_erase_def Let_def case_prod_unfold shift_up_cap shift_down_cap split: if_splits)

section \<open>The interface of a timer queue\<close>

text \<open>
  What the event loop relies on: a queue of timers from which an earliest one can be read
  and any one can be removed. The client of the interface fires timers in order: it reads
  the earliest timer and removes it for as long as it is due.
\<close>

fun fire_due ::
  "('s \<Rightarrow> 'e option) \<Rightarrow> ('s \<Rightarrow> 'e \<Rightarrow> 's) \<Rightarrow> ('s \<Rightarrow> 'e \<Rightarrow> 'k::linorder) \<Rightarrow> 'k \<Rightarrow> nat \<Rightarrow> 's \<Rightarrow> 'e list \<times> 's" where
  "fire_due first remove key now 0 s = ([], s)"
| "fire_due first remove key now (Suc fuel) s =
     (case first s of
        None \<Rightarrow> ([], s)
      | Some e \<Rightarrow> if key s e > now then ([], s)
                  else let (es, s') = fire_due first remove key now fuel (remove s e) in (e # es, s'))"

locale timer_queue =
  fixes inv :: "'s \<Rightarrow> bool"
    and elems :: "'s \<Rightarrow> 'e set"
    and key :: "'s \<Rightarrow> 'e \<Rightarrow> 'k::linorder"
    and first :: "'s \<Rightarrow> 'e option"
    and remove :: "'s \<Rightarrow> 'e \<Rightarrow> 's"
  assumes finite_elems: "inv s \<Longrightarrow> finite (elems s)"
    and top_None: "inv s \<Longrightarrow> first s = None \<longleftrightarrow> elems s = {}"
    and top_Some: "inv s \<Longrightarrow> first s = Some e \<Longrightarrow> e \<in> elems s"
    and top_least: "inv s \<Longrightarrow> first s = Some e \<Longrightarrow> x \<in> elems s \<Longrightarrow> key s e \<le> key s x"
    and inv_remove: "inv s \<Longrightarrow> e \<in> elems s \<Longrightarrow> inv (remove s e)"
    and elems_remove: "inv s \<Longrightarrow> e \<in> elems s \<Longrightarrow> elems (remove s e) = elems s - {e}"
    and key_remove: "inv s \<Longrightarrow> e \<in> elems s \<Longrightarrow> key (remove s e) = key s"
begin

abbreviation fire :: "'k \<Rightarrow> nat \<Rightarrow> 's \<Rightarrow> 'e list \<times> 's" where
  "fire \<equiv> fire_due first remove key"

text \<open>With fuel for every timer, exactly the due timers fire, each once and in order of time.\<close>

lemma fire_due_correct:
  assumes "inv s" "card (elems s) \<le> fuel" "fire now fuel s = (es, s')"
  shows "inv s' \<and> key s' = key s \<and> elems s' = {x \<in> elems s. now < key s x} \<and>
         set es = {x \<in> elems s. key s x \<le> now} \<and> distinct es \<and> sorted (map (key s) es)"
  using assms
proof (induction fuel arbitrary: s es)
  case 0
  then have "elems s = {}" using finite_elems by auto
  then show ?case using 0 by auto
next
  case (Suc fuel)
  show ?case
  proof (cases "first s")
    case None
    then have "elems s = {}" using Suc.prems(1) top_None by blast
    then show ?thesis using Suc.prems None by auto
  next
    case (Some e)
    then have e: "e \<in> elems s" using Suc.prems top_Some by blast
    show ?thesis
    proof (cases "now < key s e")
      case True
      then have "\<forall>x \<in> elems s. now < key s x"
        using top_least[OF Suc.prems(1) Some] by (auto intro: less_le_trans)
      then show ?thesis using Suc.prems Some True by fastforce
    next
      case False
      obtain es' where es: "es = e # es'" "fire now fuel (remove s e) = (es', s')"
        using Suc.prems(3) Some False by (auto split: prod.splits)
      have r: "inv (remove s e)" "elems (remove s e) = elems s - {e}" "key (remove s e) = key s"
        using Suc.prems(1) e inv_remove elems_remove key_remove by auto
      have "card (elems (remove s e)) \<le> fuel"
        using Suc.prems r(2) e finite_elems by simp
      note IH = Suc.IH[OF r(1) this es(2)]
      have "\<forall>x \<in> set es'. key s e \<le> key s x"
        using top_least[OF Suc.prems(1) Some] IH r(2,3) by auto
      then show ?thesis using IH r e False es(1) by auto
    qed
  qed
qed

end

text \<open>The min-heap, together with the event store it keeps its indices in, is a timer queue.\<close>

definition heap_remove :: "event_store \<times> min_heap \<Rightarrow> event_id \<Rightarrow> event_store \<times> min_heap" where
  "heap_remove st e = snd (min_heap_erase (fst st) (snd st) e)"

interpretation heap: timer_queue
  "\<lambda>st. min_heap_inv (fst st) (snd st)" "\<lambda>st. min_heap_elems (snd st)"
  "\<lambda>st e. ev_timeout (fst st e)" "\<lambda>st. min_heap_top (snd st)" heap_remove
proof (unfold_locales, goal_cases)
  case (1 st)
  then show ?case by (simp add: min_heap_elems_def)
next
  case (2 st)
  then show ?case by (rule min_heap_top_None)
next
  case (3 st e)
  then show ?case by (rule min_heap_top_Some)
next
  case (4 st e x)
  then show ?case by (rule min_heap_top_least)
next
  case (5 st e)
  then show ?case by (metis heap_remove_def min_heap_erase_ok prod.collapse)
next
  case (6 st e)
  then show ?case by (metis heap_remove_def min_heap_erase_ok prod.collapse)
next
  case (7 st e)
  then show ?case by (metis heap_remove_def min_heap_erase_ok prod.collapse same_but_idx_key)
qed

section \<open>Properties of the heap\<close>

text \<open>Two events in a heap, for the concrete instances below.\<close>

definition heap_events :: event_store where
  "heap_events e = \<lparr>ev_fd = - 1, ev_events = 0, ev_res = 0, ev_flags = 0, ev_pri = 0,
     ev_closure = EV_CLOSURE_NONE, ev_timeout = Timeval (int e) 0, ev_io_timeout = Timeval 0 0, ev_ncalls = 0,
     ev_pncalls = False, min_heap_idx = (if e = 3 then 0 else if e = 5 then 1 else - 1)\<rparr>"

definition heap_two :: min_heap where
  "heap_two = \<lparr>heap_p = [3, 5], heap_n = 2, heap_a = 2\<rparr>"

lemma heap_two_elems: "min_heap_elems heap_two = {3, 5}"
  by (simp add: min_heap_elems_def heap_two_def)

lemma heap_two_inv: "min_heap_inv heap_events heap_two"
proof -
  have "heap_order (event_key heap_events) [3, 5] 2"
    unfolding heap_order_def
  proof (intro allI impI)
    fix j :: nat assume "0 < j \<and> j < 2"
    then have "j = 1" by linarith
    then show "event_key heap_events ([3, 5] ! parent_pos j) \<le> event_key heap_events ([3, 5] ! j)"
      by (simp add: parent_pos_def heap_events_def less_eq_timeval_def evutil_timercmp_gt_def)
  qed
  moreover have "\<forall>j<2. min_heap_idx (heap_events ([3, 5] ! j)) = int j"
    by (auto simp: less_2_cases_iff heap_events_def)
  ultimately show ?thesis
    unfolding min_heap_inv_def heap_two_elems by (simp add: heap_two_def heap_events_def)
qed

text \<open>
  Pushing an event that is not in the heap returns 0, keeps the heap order, the recorded
  positions and every other field of the events, and adds exactly that event; when the array
  cannot grow the result is -1 and nothing changes.
\<close>

theorem min_heap_push_correct:
  assumes "min_heap_inv evs s" "e \<notin> min_heap_elems s" "min_heap_push realloc evs s e = (r, evs', s')"
  shows "r = 0 \<and> min_heap_inv evs' s' \<and> min_heap_elems s' = insert e (min_heap_elems s) \<and> same_but_idx evs evs' \<or>
         r = - 1 \<and> evs' = evs \<and> s' = s \<and> (\<exists>m. realloc m = None)"
proof (cases "r = 0")
  case True
  then show ?thesis using min_heap_push_ok assms by blast
next
  case False
  then show ?thesis
    using assms(3) by (auto simp: min_heap_push_def min_heap_reserve_def Let_def split: option.splits if_splits)
qed

text \<open>
  C11: erasing an event keeps the heap order, the recorded positions and every other field of
  the events, and removes exactly that event; it returns 0 for an event of the heap, at any
  position, and -1 without a change for any other event.
\<close>

theorem min_heap_erase_correct:
  assumes "min_heap_inv evs s" "min_heap_erase evs s e = (r, evs', s')"
  shows "min_heap_inv evs' s' \<and> min_heap_elems s' = min_heap_elems s - {e} \<and> same_but_idx evs evs' \<and>
         r = (if e \<in> min_heap_elems s then 0 else - 1)"
proof (cases "e \<in> min_heap_elems s")
  case True
  then show ?thesis using min_heap_erase_ok[OF assms(1) True assms(2)] by simp
next
  case False
  then have "min_heap_idx (evs e) = - 1" using min_heap_invD(6)[OF assms(1)] by blast
  then show ?thesis using assms False by (auto simp: min_heap_erase_def)
qed

theorem min_heap_erase_correct_witness:
  "\<exists>r evs' s'. min_heap_erase heap_events heap_two 3 = (r, evs', s') \<and> r = 0 \<and>
     min_heap_inv evs' s' \<and> min_heap_elems s' = {5}"
proof -
  obtain r evs' s' where eq: "min_heap_erase heap_events heap_two 3 = (r, evs', s')" by (metis prod.exhaust)
  from min_heap_erase_correct[OF heap_two_inv eq] eq show ?thesis by (auto simp: heap_two_elems)
qed

text \<open>
  Popping a non-empty heap returns an event whose timeout no other event of the heap
  precedes, removes exactly that event and keeps the invariant; only an empty heap pops nothing.
\<close>

theorem min_heap_pop_correct:
  assumes "min_heap_inv evs s" "min_heap_pop evs s = (r, evs', s')"
  shows "case r of
           None \<Rightarrow> min_heap_elems s = {} \<and> evs' = evs \<and> s' = s
         | Some e \<Rightarrow> e \<in> min_heap_elems s \<and> (\<forall>x \<in> min_heap_elems s. ev_timeout (evs e) \<le> ev_timeout (evs x)) \<and>
             min_heap_inv evs' s' \<and> min_heap_elems s' = min_heap_elems s - {e} \<and> same_but_idx evs evs'"
proof (cases r)
  case None
  then show ?thesis using assms by (auto simp: min_heap_pop_def min_heap_elems_def Let_def split: if_splits prod.splits)
next
  case (Some e)
  have pop: "min_heap_top s = Some e \<and> min_heap_inv evs' s' \<and> min_heap_elems s' = min_heap_elems s - {e}
         \<and> same_but_idx evs evs'"
    using min_heap_pop_ok[OF assms(1), of e evs' s'] assms(2) Some by simp
  then have "e \<in> min_heap_elems s" using min_heap_top_Some[OF assms(1)] by blast
  moreover have "\<forall>x \<in> min_heap_elems s. ev_timeout (evs e) \<le> ev_timeout (evs x)"
    using min_heap_top_least[OF assms(1) conjunct1[OF pop]] by blast
  ultimately show ?thesis using pop Some by simp
qed

end
