(* ===== verification/Event_Base.thy ===== *)
theory Event_Base
  imports Min_Heap "HOL-Library.Monad_Syntax"
begin

text \<open>
  The state of an event base (\<^verbatim>\<open>struct event_base\<close> of \<^verbatim>\<open>event-internal.h\<close>), the maps from
  descriptors and signals to events (\<^verbatim>\<open>evmap.c\<close>), and the queues an event can be on
  (\<open>event_queue_insert\<close>, \<open>event_queue_remove\<close> of \<^verbatim>\<open>event.c\<close>).

  A TAILQ is a list of event identifiers. An operation is \<open>None\<close> where the code calls
  \<open>event_errx\<close> (which exits), fails an assertion, or reads outside an array.
  The back end (\<open>evsel\<close>, \<open>evsigsel\<close>) is called through function pointers: it is a parameter
  that gives the result of each call, from the calls made before it, and the base keeps the
  list of these calls.
\<close>

section \<open>The event base\<close>

datatype backend_call =
    Evsel_add int u16 u16
  | Evsel_del int u16 u16
  | Evsig_add int
  | Evsig_del int

type_synonym backend = "backend_call list \<Rightarrow> backend_call \<Rightarrow> int"

record evmap_io =
  io_events :: "event_id list"
  nread :: nat
  nwrite :: nat

record common_timeout_list =
  ctl_events :: "event_id list"
  duration :: timeval
  timeout_event :: event_id

record deferred_cb_queue =
  deferred_cb_list :: "nat list"
  active_count :: int
  cb_queued :: "nat \<Rightarrow> bool"

record event_base =
  ev_store :: event_store
  backend_calls :: "backend_call list"
  virtual_event_count :: int
  event_count :: int
  event_count_active :: int
  event_gotterm :: bool
  event_break :: bool
  event_continue :: bool
  event_running_priority :: int
  running_loop :: bool
  activequeues :: "event_id list list"
  common_timeout_queues :: "common_timeout_list list"
  n_common_timeouts_allocated :: nat
  defer_queue :: deferred_cb_queue
  io_map :: "evmap_io option list"
  sigmap :: "event_id list option list"
  eventqueue :: "event_id list"
  event_tv :: timeval
  timeheap :: min_heap
  tv_cache :: timeval
  need_notify :: bool
  th_notify_fn :: "int option"
  is_notify_pending :: bool
  sig_aborted :: bool
  cb_trace :: "(event_id \<times> u16) list"

text \<open>
  \<open>th_notify_fn\<close> is the result of that function where it is set. \<open>need_notify\<close> is the value of \<open>EVBASE_NEED_NOTIFY\<close>: another thread than the caller's runs the
  loop. \<open>sig_aborted\<close> stands for the assignment \<^verbatim>\<open>*ev->ev_pncalls = 0\<close> to the counter of the
  signal callback that is running. \<open>cb_trace\<close> lists the callbacks that have been called.
\<close>

definition ev_of :: "event_base \<Rightarrow> event_id \<Rightarrow> event" where
  "ev_of b e = ev_store b e"

definition upd_ev :: "event_base \<Rightarrow> event_id \<Rightarrow> (event \<Rightarrow> event) \<Rightarrow> event_base" where
  "upd_ev b e f = b\<lparr>ev_store := (ev_store b)(e := f (ev_store b e))\<rparr>"

definition on_queue :: "u16 \<Rightarrow> event_base \<Rightarrow> event_id \<Rightarrow> bool" where
  "on_queue q b e \<longleftrightarrow> has q (ev_flags (ev_store b e))"

definition gettime :: "event_base \<Rightarrow> timeval \<Rightarrow> timeval" where
  "gettime b clk = (if tv_sec (tv_cache b) \<noteq> 0 then tv_cache b else clk)"

definition clear_time_cache :: "event_base \<Rightarrow> event_base" where
  "clear_time_cache b = b\<lparr>tv_cache := Timeval 0 (tv_usec (tv_cache b))\<rparr>"

definition update_time_cache :: "event_base \<Rightarrow> bool \<Rightarrow> timeval \<Rightarrow> event_base" where
  "update_time_cache b no_cache clk =
     (let b1 = b\<lparr>tv_cache := Timeval 0 (tv_usec (tv_cache b))\<rparr>
      in if no_cache then b1 else b1\<lparr>tv_cache := gettime b1 clk\<rparr>)"

definition evthread_notify_base :: "event_base \<Rightarrow> int \<times> event_base" where
  "evthread_notify_base b =
     (case th_notify_fn b of
        None \<Rightarrow> (- 1, b)
      | Some r \<Rightarrow> if is_notify_pending b then (0, b) else (r, b\<lparr>is_notify_pending := True\<rparr>))"

definition notify_if :: "bool \<Rightarrow> event_base \<Rightarrow> event_base" where
  "notify_if notify b = (if notify \<and> need_notify b then snd (evthread_notify_base b) else b)"

definition N_ACTIVE_CALLBACKS :: "event_base \<Rightarrow> int" where
  "N_ACTIVE_CALLBACKS b = event_count_active b + active_count (defer_queue b)"

definition event_haveevents :: "event_base \<Rightarrow> bool" where
  "event_haveevents b \<longleftrightarrow> virtual_event_count b > 0 \<or> event_count b > 0"

section \<open>Common timeouts\<close>

definition MICROSECONDS_MASK :: int where "MICROSECONDS_MASK = 0x000fffff"
definition COMMON_TIMEOUT_IDX_MASK :: int where "COMMON_TIMEOUT_IDX_MASK = 0x0ff00000"
definition COMMON_TIMEOUT_MASK :: int where "COMMON_TIMEOUT_MASK = 0xf0000000"
definition COMMON_TIMEOUT_MAGIC :: int where "COMMON_TIMEOUT_MAGIC = 0x50000000"

definition COMMON_TIMEOUT_IDX :: "timeval \<Rightarrow> nat" where
  "COMMON_TIMEOUT_IDX tv = nat (drop_bit 20 (tv_usec tv AND COMMON_TIMEOUT_IDX_MASK))"

definition is_common_timeout :: "timeval \<Rightarrow> event_base \<Rightarrow> bool" where
  "is_common_timeout tv b \<longleftrightarrow>
     tv_usec tv AND COMMON_TIMEOUT_MASK = COMMON_TIMEOUT_MAGIC \<and>
     COMMON_TIMEOUT_IDX tv < length (common_timeout_queues b)"

definition is_same_common_timeout :: "timeval \<Rightarrow> timeval \<Rightarrow> bool" where
  "is_same_common_timeout tv1 tv2 \<longleftrightarrow>
     tv_usec tv1 AND NOT MICROSECONDS_MASK = tv_usec tv2 AND NOT MICROSECONDS_MASK"

definition get_common_timeout_list :: "event_base \<Rightarrow> timeval \<Rightarrow> common_timeout_list" where
  "get_common_timeout_list b tv = common_timeout_queues b ! COMMON_TIMEOUT_IDX tv"

definition mask_usec :: "timeval \<Rightarrow> timeval" where
  "mask_usec tv = Timeval (tv_sec tv) (tv_usec tv AND MICROSECONDS_MASK)"

definition set_ctl_events :: "event_base \<Rightarrow> nat \<Rightarrow> event_id list \<Rightarrow> event_base" where
  "set_ctl_events b i es =
     b\<lparr>common_timeout_queues := (common_timeout_queues b)[i := (common_timeout_queues b ! i)\<lparr>ctl_events := es\<rparr>]\<rparr>"

text \<open>
  The search from the end of the list for the place of a new event: the list is given reversed.
  The assertion that all entries belong to the same common timeout can fail.
\<close>

fun insert_inorder_rev :: "event_store \<Rightarrow> event_id \<Rightarrow> event_id list \<Rightarrow> event_id list option" where
  "insert_inorder_rev evs ev [] = Some [ev]"
| "insert_inorder_rev evs ev (e # es) =
     (if \<not> is_same_common_timeout (ev_timeout (evs e)) (ev_timeout (evs ev)) then None
      else if \<not> evutil_timercmp_lt (ev_timeout (evs ev)) (ev_timeout (evs e)) then Some (ev # e # es)
      else map_option ((#) e) (insert_inorder_rev evs ev es))"

definition insert_common_timeout_inorder ::
  "event_base \<Rightarrow> nat \<Rightarrow> event_id \<Rightarrow> event_base option" where
  "insert_common_timeout_inorder b i ev =
     map_option (\<lambda>es. set_ctl_events b i (rev es))
       (insert_inorder_rev (ev_store b) ev (rev (ctl_events (common_timeout_queues b ! i))))"

section \<open>The queues\<close>

definition event_queue_insert :: "allocator \<Rightarrow> event_base \<Rightarrow> event_id \<Rightarrow> u16 \<Rightarrow> event_base option" where
  "event_queue_insert realloc b ev queue =
     (if on_queue queue b ev
      then (if has EVLIST_ACTIVE queue then Some b else None)
      else (let b1 = (if \<not> on_queue EVLIST_INTERNAL b ev
                      then b\<lparr>event_count := event_count b + 1\<rparr> else b);
                b2 = upd_ev b1 ev (\<lambda>x. x\<lparr>ev_flags := ev_flags x OR queue\<rparr>);
                e = ev_store b2 ev
            in if queue = EVLIST_INSERTED then Some (b2\<lparr>eventqueue := eventqueue b2 @ [ev]\<rparr>)
            else if queue = EVLIST_ACTIVE
            then (if ev_pri e < length (activequeues b2)
                  then Some (b2\<lparr>event_count_active := event_count_active b2 + 1,
                               activequeues := (activequeues b2)[ev_pri e := activequeues b2 ! ev_pri e @ [ev]]\<rparr>)
                  else None)
            else if queue = EVLIST_TIMEOUT
            then (if is_common_timeout (ev_timeout e) b2
                  then insert_common_timeout_inorder b2 (COMMON_TIMEOUT_IDX (ev_timeout e)) ev
                  else (case min_heap_push realloc (ev_store b2) (timeheap b2) ev of
                          (r, evs', h') \<Rightarrow> Some (b2\<lparr>ev_store := evs', timeheap := h'\<rparr>)))
            else None))"

definition event_queue_remove :: "event_base \<Rightarrow> event_id \<Rightarrow> u16 \<Rightarrow> event_base option" where
  "event_queue_remove b ev queue =
     (if \<not> on_queue queue b ev then None
      else (let b1 = (if \<not> on_queue EVLIST_INTERNAL b ev
                      then b\<lparr>event_count := event_count b - 1\<rparr> else b);
                b2 = upd_ev b1 ev (\<lambda>x. x\<lparr>ev_flags := ev_flags x AND NOT queue\<rparr>);
                e = ev_store b2 ev
            in if queue = EVLIST_INSERTED then Some (b2\<lparr>eventqueue := remove1 ev (eventqueue b2)\<rparr>)
            else if queue = EVLIST_ACTIVE
            then (if ev_pri e < length (activequeues b2)
                  then Some (b2\<lparr>event_count_active := event_count_active b2 - 1,
                               activequeues := (activequeues b2)[ev_pri e := remove1 ev (activequeues b2 ! ev_pri e)]\<rparr>)
                  else None)
            else if queue = EVLIST_TIMEOUT
            then (if is_common_timeout (ev_timeout e) b2
                  then (let i = COMMON_TIMEOUT_IDX (ev_timeout e)
                        in Some (set_ctl_events b2 i (remove1 ev (ctl_events (common_timeout_queues b2 ! i)))))
                  else (case min_heap_erase (ev_store b2) (timeheap b2) ev of
                          (r, evs', h') \<Rightarrow> Some (b2\<lparr>ev_store := evs', timeheap := h'\<rparr>)))
            else None))"

end
