(* ===== verification/Changelist.thy ===== *)
theory Changelist
  imports Event_Base
begin

text \<open>
  The list of changes that a back end makes to the kernel before it waits (\<^verbatim>\<open>changelist-internal.h\<close>
  and \<^verbatim>\<open>event_changelist_*\<close> of \<^verbatim>\<open>evmap.c\<close>). \<open>n_changes\<close> is the length of the list. Each entry of the
  descriptor and signal maps has an \<open>event_changelist_fdinfo\<close> behind it, with the position of its change
  plus one: here \<open>idxplus1\<close>, first for the descriptors and then for the signals. The pointer the
  operations get is the pair of the map and the descriptor. \<open>None\<close> stands for a failed assertion.
\<close>

text \<open>A test of flags, at every width.\<close>

definition flagged :: "'a::len word \<Rightarrow> 'a word \<Rightarrow> bool" where
  "flagged fl x \<longleftrightarrow> x AND fl \<noteq> 0"

definition EV_CHANGE_ADD :: u8 where "EV_CHANGE_ADD = 0x01"
definition EV_CHANGE_DEL :: u8 where "EV_CHANGE_DEL = 0x02"
definition EV_CHANGE_SIGNAL :: u8 where "EV_CHANGE_SIGNAL = 0x08"

record event_change =
  ch_fd :: int
  old_events :: u16
  read_change :: u8
  write_change :: u8

record event_changelist =
  changes :: "event_change list"
  changes_size :: nat
  idxplus1 :: "bool \<times> int \<Rightarrow> nat"

definition event_changelist_init :: "(bool \<times> int \<Rightarrow> nat) \<Rightarrow> event_changelist" where
  "event_changelist_init fdinfo = \<lparr>changes = [], changes_size = 0, idxplus1 = fdinfo\<rparr>"

definition event_change_get_fdinfo :: "event_change \<Rightarrow> bool \<times> int" where
  "event_change_get_fdinfo change = (flagged EV_CHANGE_SIGNAL (read_change change), ch_fd change)"

text \<open>The loop of \<open>event_changelist_remove_all\<close>, from change \<open>i\<close> on.\<close>

fun remove_all_loop :: "nat \<Rightarrow> event_change list \<Rightarrow> (bool \<times> int \<Rightarrow> nat) \<Rightarrow> (bool \<times> int \<Rightarrow> nat) option" where
  "remove_all_loop i [] fdinfo = Some fdinfo"
| "remove_all_loop i (ch # chs) fdinfo =
     (if fdinfo (event_change_get_fdinfo ch) = i + 1
      then remove_all_loop (i + 1) chs (fdinfo(event_change_get_fdinfo ch := 0))
      else None)"

definition event_changelist_remove_all :: "event_changelist \<Rightarrow> event_changelist option" where
  "event_changelist_remove_all cl =
     map_option (\<lambda>fdinfo. cl\<lparr>changes := [], idxplus1 := fdinfo\<rparr>) (remove_all_loop 0 (changes cl) (idxplus1 cl))"

definition event_changelist_freemem :: "event_changelist \<Rightarrow> event_changelist" where
  "event_changelist_freemem cl = event_changelist_init (idxplus1 cl)"

definition event_changelist_grow :: "allocator \<Rightarrow> event_changelist \<Rightarrow> int \<times> event_changelist" where
  "event_changelist_grow malloc cl =
     (let new_size = (if changes_size cl < 64 then 64 else changes_size cl * 2) in
      case malloc (new_size * 8) of
        None \<Rightarrow> (- 1, cl)
      | Some _ \<Rightarrow> (0, cl\<lparr>changes_size := new_size\<rparr>))"

text \<open>The position of the change in the list; no position is the null pointer.\<close>

definition event_changelist_get_or_construct ::
  "allocator \<Rightarrow> event_changelist \<Rightarrow> int \<Rightarrow> u16 \<Rightarrow> bool \<times> int \<Rightarrow> (nat option \<times> event_changelist) option" where
  "event_changelist_get_or_construct malloc cl fd old fdinfo =
     (if idxplus1 cl fdinfo = 0
      then (if \<not> length (changes cl) \<le> changes_size cl then None
            else (let (r, cl1) = (if length (changes cl) = changes_size cl
                                  then event_changelist_grow malloc cl else (0, cl))
                  in if r < 0 then Some (None, cl1)
                     else (let idx = length (changes cl1)
                           in Some (Some idx, cl1\<lparr>changes := changes cl1 @
                                      [\<lparr>ch_fd = fd, old_events = old, read_change = 0, write_change = 0\<rparr>],
                                    idxplus1 := (idxplus1 cl1)(fdinfo := idx + 1)\<rparr>))))
      else (let idx = idxplus1 cl fdinfo - 1
            in if idx < length (changes cl) \<and> ch_fd (changes cl ! idx) = fd then Some (Some idx, cl) else None))"

text \<open>The flags of an addition that are kept in a change.\<close>

definition change_flags :: "u16 \<Rightarrow> u8" where
  "change_flags events = EV_CHANGE_ADD OR ucast (events AND (EV_ET OR EV_PERSIST OR EV_SIGNAL))"

definition add_change :: "u16 \<Rightarrow> event_change \<Rightarrow> event_change" where
  "add_change events ch =
     (let ch1 = (if has (EV_READ OR EV_SIGNAL) events then ch\<lparr>read_change := change_flags events\<rparr> else ch)
      in if has EV_WRITE events then ch1\<lparr>write_change := change_flags events\<rparr> else ch1)"

definition event_changelist_add ::
  "allocator \<Rightarrow> event_changelist \<Rightarrow> int \<Rightarrow> u16 \<Rightarrow> u16 \<Rightarrow> bool \<times> int \<Rightarrow> (int \<times> event_changelist) option" where
  "event_changelist_add malloc cl fd old events p =
     map_option (\<lambda>(change, cl1). case change of
         None \<Rightarrow> (- 1, cl1)
       | Some i \<Rightarrow> (0, cl1\<lparr>changes := (changes cl1)[i := add_change events (changes cl1 ! i)]\<rparr>))
       (event_changelist_get_or_construct malloc cl fd old p)"

definition del_change :: "u16 \<Rightarrow> event_change \<Rightarrow> event_change" where
  "del_change events ch =
     (let ch1 = (if has (EV_READ OR EV_SIGNAL) events
                 then (if \<not> has (EV_READ OR EV_SIGNAL) (old_events ch) \<and> flagged EV_CHANGE_ADD (read_change ch)
                       then ch\<lparr>read_change := 0\<rparr> else ch\<lparr>read_change := EV_CHANGE_DEL\<rparr>)
                 else ch)
      in if has EV_WRITE events
         then (if \<not> has EV_WRITE (old_events ch1) \<and> flagged EV_CHANGE_ADD (write_change ch1)
               then ch1\<lparr>write_change := 0\<rparr> else ch1\<lparr>write_change := EV_CHANGE_DEL\<rparr>)
         else ch1)"

definition event_changelist_del ::
  "allocator \<Rightarrow> event_changelist \<Rightarrow> int \<Rightarrow> u16 \<Rightarrow> u16 \<Rightarrow> bool \<times> int \<Rightarrow> (int \<times> event_changelist) option" where
  "event_changelist_del malloc cl fd old events p =
     map_option (\<lambda>(change, cl1). case change of
         None \<Rightarrow> (- 1, cl1)
       | Some i \<Rightarrow> (0, cl1\<lparr>changes := (changes cl1)[i := del_change events (changes cl1 ! i)]\<rparr>))
       (event_changelist_get_or_construct malloc cl fd old p)"


section \<open>The list as a map from descriptors to changes\<close>

definition pending :: "event_changelist \<Rightarrow> int \<Rightarrow> event_change option" where
  "pending cl fd = (if idxplus1 cl (False, fd) = 0 then None else Some (changes cl ! (idxplus1 cl (False, fd) - 1)))"

definition cl_wf :: "event_changelist \<Rightarrow> bool" where
  "cl_wf cl \<longleftrightarrow>
     length (changes cl) \<le> changes_size cl \<and>
     (\<forall>i < length (changes cl). idxplus1 cl (False, ch_fd (changes cl ! i)) = i + 1 \<and>
        \<not> flagged EV_CHANGE_SIGNAL (read_change (changes cl ! i))) \<and>
     (\<forall>fd. idxplus1 cl (False, fd) \<noteq> 0 \<longrightarrow>
        idxplus1 cl (False, fd) \<le> length (changes cl) \<and> ch_fd (changes cl ! (idxplus1 cl (False, fd) - 1)) = fd)"

lemma cl_wfD:
  assumes "cl_wf cl"
  shows "length (changes cl) \<le> changes_size cl"
    "\<And>i. i < length (changes cl) \<Longrightarrow> idxplus1 cl (False, ch_fd (changes cl ! i)) = i + 1"
    "\<And>i. i < length (changes cl) \<Longrightarrow> \<not> flagged EV_CHANGE_SIGNAL (read_change (changes cl ! i))"
    "\<And>fd. idxplus1 cl (False, fd) \<noteq> 0 \<Longrightarrow> idxplus1 cl (False, fd) - 1 < length (changes cl)"
    "\<And>fd. idxplus1 cl (False, fd) \<noteq> 0 \<Longrightarrow> ch_fd (changes cl ! (idxplus1 cl (False, fd) - 1)) = fd"
proof -
  show "idxplus1 cl (False, fd) \<noteq> 0 \<Longrightarrow> idxplus1 cl (False, fd) - 1 < length (changes cl)" for fd
  proof -
    assume nz: "idxplus1 cl (False, fd) \<noteq> 0"
    then have "idxplus1 cl (False, fd) \<le> length (changes cl)" using assms by (simp add: cl_wf_def)
    then show ?thesis using nz by simp
  qed
qed (use assms in \<open>auto simp: cl_wf_def\<close>)

definition fresh_change :: "int \<Rightarrow> u16 \<Rightarrow> event_change" where
  "fresh_change fd old = \<lparr>ch_fd = fd, old_events = old, read_change = 0, write_change = 0\<rparr>"

text \<open>Changing the change of a descriptor, made first when there is none.\<close>

definition change_with ::
  "(event_change \<Rightarrow> event_change) \<Rightarrow> allocator \<Rightarrow> event_changelist \<Rightarrow> int \<Rightarrow> u16 \<Rightarrow> (int \<times> event_changelist) option" where
  "change_with f malloc cl fd old =
     map_option (\<lambda>(change, cl1). case change of
         None \<Rightarrow> (- 1, cl1)
       | Some i \<Rightarrow> (0, cl1\<lparr>changes := (changes cl1)[i := f (changes cl1 ! i)]\<rparr>))
       (event_changelist_get_or_construct malloc cl fd old (False, fd))"

lemma changelist_change_with:
  "event_changelist_add malloc cl fd old events (False, fd) = change_with (add_change events) malloc cl fd old"
  "event_changelist_del malloc cl fd old events (False, fd) = change_with (del_change events) malloc cl fd old"
  by (simp_all add: event_changelist_add_def event_changelist_del_def change_with_def)

definition pending_outcome ::
  "(event_change \<Rightarrow> event_change) \<Rightarrow> allocator \<Rightarrow> event_changelist \<Rightarrow> int \<Rightarrow> u16 \<Rightarrow> int \<Rightarrow> event_changelist \<Rightarrow> bool" where
  "pending_outcome f malloc cl fd old r cl' \<longleftrightarrow> cl_wf cl' \<and>
     (r = 0 \<and> pending cl' = (pending cl)(fd \<mapsto> f (case pending cl fd of None \<Rightarrow> fresh_change fd old | Some ch \<Rightarrow> ch)) \<or>
      r = - 1 \<and> pending cl' = pending cl \<and> (\<exists>m. malloc m = None))"

lemma update_change_ok:
  assumes wf: "cl_wf cl" and i: "i < length (changes cl)" and fd: "ch_fd (f (changes cl ! i)) = ch_fd (changes cl ! i)"
    and sig: "\<not> flagged EV_CHANGE_SIGNAL (read_change (f (changes cl ! i)))"
  defines "cl' \<equiv> cl\<lparr>changes := (changes cl)[i := f (changes cl ! i)]\<rparr>"
  shows "cl_wf cl'" "pending cl' = (pending cl)(ch_fd (changes cl ! i) \<mapsto> f (changes cl ! i))"
proof -
  note D = cl_wfD[OF wf]
  have same: "ch_fd (changes cl' ! j) = ch_fd (changes cl ! j)" for j
    using fd i by (cases "j = i") (simp_all add: cl'_def)
  have "\<not> flagged EV_CHANGE_SIGNAL (read_change (changes cl' ! j))" if "j < length (changes cl)" for j
    using sig D(3)[OF that] that by (cases "j = i") (simp_all add: cl'_def)
  then show "cl_wf cl'" using wf same by (simp add: cl_wf_def) (simp add: cl'_def)
  show "pending cl' = (pending cl)(ch_fd (changes cl ! i) \<mapsto> f (changes cl ! i))"
  proof
    fix g
    show "pending cl' g = ((pending cl)(ch_fd (changes cl ! i) \<mapsto> f (changes cl ! i))) g"
    proof (cases "g = ch_fd (changes cl ! i)")
      case True
      then show ?thesis using D(2)[OF i] i by (simp add: pending_def cl'_def)
    next
      case False
      then have "idxplus1 cl (False, g) - 1 \<noteq> i" if "idxplus1 cl (False, g) \<noteq> 0" using D(5)[OF that] by auto
      then show ?thesis using False by (auto simp: pending_def cl'_def)
    qed
  qed
qed

lemma append_change_ok:
  fixes old :: u16
  assumes wf: "cl_wf cl" and none: "idxplus1 cl (False, fd) = 0" and n: "length (changes cl) < changes_size cl"
  defines "cl' \<equiv> cl\<lparr>changes := changes cl @ [fresh_change fd old], idxplus1 := (idxplus1 cl)((False, fd) := length (changes cl) + 1)\<rparr>"
  shows "cl_wf cl'" "pending cl' = (pending cl)(fd \<mapsto> fresh_change fd old)"
proof -
  note D = cl_wfD[OF wf]
  have fds: "ch_fd (changes cl ! i) \<noteq> fd" if "i < length (changes cl)" for i using D(2)[OF that] none by auto
  have "idxplus1 cl' (False, ch_fd (changes cl' ! i)) = i + 1 \<and> \<not> flagged EV_CHANGE_SIGNAL (read_change (changes cl' ! i))"
    if "i < length (changes cl')" for i
    using that D(2)[of i] D(3)[of i] fds[of i]
    by (cases "i < length (changes cl)") (auto simp: cl'_def nth_append fresh_change_def flagged_def less_Suc_eq)
  moreover have "idxplus1 cl' (False, g) \<le> length (changes cl') \<and> ch_fd (changes cl' ! (idxplus1 cl' (False, g) - 1)) = g"
    if "idxplus1 cl' (False, g) \<noteq> 0" for g
    using that D(4)[of g] D(5)[of g] by (cases "g = fd") (auto simp: cl'_def nth_append fresh_change_def)
  ultimately show "cl_wf cl'" using n unfolding cl_wf_def by (auto simp: cl'_def)
  show "pending cl' = (pending cl)(fd \<mapsto> fresh_change fd old)"
    using D(4) by (auto simp: pending_def cl'_def nth_append fun_eq_iff)
qed


lemma room_for_change:
  fixes malloc :: allocator
  assumes "cl_wf cl"
  defines "g \<equiv> (if length (changes cl) = changes_size cl then event_changelist_grow malloc cl else (0, cl))"
  shows "g = (- 1, cl) \<and> (\<exists>m. malloc m = None) \<or> (\<exists>n. length (changes cl) < n \<and> g = (0, cl\<lparr>changes_size := n\<rparr>))"
proof (cases "length (changes cl) = changes_size cl")
  case True
  define n where "n = (if changes_size cl < 64 then 64 else changes_size cl * 2)"
  have "length (changes cl) < n" using True by (simp add: n_def)
  then show ?thesis using True by (cases "malloc (n * 8)") (auto simp: g_def event_changelist_grow_def n_def[symmetric] Let_def)
next
  case False
  then have "length (changes cl) < changes_size cl" "g = (0, cl\<lparr>changes_size := changes_size cl\<rparr>)"
    using assms(1) by (simp_all add: cl_wf_def g_def)
  then show ?thesis by blast
qed

lemma change_with_ok:
  assumes wf: "cl_wf cl"
    and f: "\<And>ch. ch_fd (f ch) = ch_fd ch"
      "\<And>ch. \<not> flagged EV_CHANGE_SIGNAL (read_change ch) \<Longrightarrow> \<not> flagged EV_CHANGE_SIGNAL (read_change (f ch))"
  shows "\<exists>r cl'. change_with f malloc cl fd old = Some (r, cl') \<and> pending_outcome f malloc cl fd old r cl'"
proof (cases "idxplus1 cl (False, fd) = 0")
  case False
  note D = cl_wfD[OF wf]
  define i where "i = idxplus1 cl (False, fd) - 1"
  have i: "i < length (changes cl)" "ch_fd (changes cl ! i) = fd" using D(4,5)[OF False] by (simp_all add: i_def)
  have "change_with f malloc cl fd old = Some (0, cl\<lparr>changes := (changes cl)[i := f (changes cl ! i)]\<rparr>)"
    using False i by (simp add: change_with_def event_changelist_get_or_construct_def i_def Let_def)
  moreover have "pending cl fd = Some (changes cl ! i)" using False by (simp add: pending_def i_def)
  ultimately show ?thesis
    using update_change_ok[OF wf i(1), of f] f(1) f(2)[OF D(3)[OF i(1)]] i(2) by (auto simp: pending_outcome_def)
next
  case True
  have none: "pending cl fd = None" using True by (simp add: pending_def)
  define g where "g = (if length (changes cl) = changes_size cl then event_changelist_grow malloc cl else (0, cl))"
  consider "g = (- 1, cl)" "\<exists>m. malloc m = None" | (ok) n where "length (changes cl) < n" "g = (0, cl\<lparr>changes_size := n\<rparr>)"
    using room_for_change[OF wf, of malloc] unfolding g_def by blast
  then show ?thesis
  proof cases
    case 1
    have "change_with f malloc cl fd old = Some (- 1, cl)"
      using True wf unfolding change_with_def event_changelist_get_or_construct_def g_def[symmetric] 1(1) by (simp add: cl_wf_def)
    then show ?thesis using 1(2) wf by (simp add: pending_outcome_def)
  next
    case ok
    define cl1 where "cl1 = cl\<lparr>changes_size := n\<rparr>"
    have cl1: "cl_wf cl1" "pending cl1 = pending cl" "length (changes cl1) < changes_size cl1" "idxplus1 cl1 (False, fd) = 0"
      using wf ok(1) True by (simp_all add: cl1_def cl_wf_def pending_def fun_eq_iff)
    define c where "c = cl1\<lparr>changes := changes cl1 @ [fresh_change fd old], idxplus1 := (idxplus1 cl1)((False, fd) := length (changes cl1) + 1)\<rparr>"
    have c: "cl_wf c" "pending c = (pending cl)(fd \<mapsto> fresh_change fd old)"
      using append_change_ok[OF cl1(1,4,3), of old] cl1(2) by (simp_all add: c_def)
    define i where "i = length (changes cl1)"
    have i: "i < length (changes c)" "changes c ! i = fresh_change fd old" by (simp_all add: i_def c_def)
    have "change_with f malloc cl fd old = Some (0, c\<lparr>changes := (changes c)[i := f (changes c ! i)]\<rparr>)"
      using True wf unfolding change_with_def event_changelist_get_or_construct_def g_def[symmetric] ok(2) cl1_def[symmetric]
      by (simp add: cl_wf_def c_def i_def fresh_change_def Let_def)
    moreover have "\<not> flagged EV_CHANGE_SIGNAL (read_change (f (changes c ! i)))"
      unfolding i(2) by (rule f(2)) (simp add: fresh_change_def flagged_def)
    ultimately show ?thesis
      using update_change_ok[OF c(1) i(1), of f] f(1) i(2) none c(2) by (auto simp: pending_outcome_def fresh_change_def)
  qed
qed

lemma remove_all_loop_ok:
  assumes "distinct (map event_change_get_fdinfo chs)"
    and "\<And>j. j < length chs \<Longrightarrow> fdinfo (event_change_get_fdinfo (chs ! j)) = i + j + 1"
  shows "remove_all_loop i chs fdinfo = Some (\<lambda>p. if p \<in> event_change_get_fdinfo ` set chs then 0 else fdinfo p)"
  using assms
proof (induction chs arbitrary: i fdinfo)
  case (Cons ch chs)
  define F where "F = fdinfo(event_change_get_fdinfo ch := 0)"
  have first: "fdinfo (event_change_get_fdinfo ch) = i + 1" using Cons.prems(2)[of 0] by simp
  have "F (event_change_get_fdinfo (chs ! j)) = i + 1 + j + 1" if "j < length chs" for j
  proof -
    have "event_change_get_fdinfo (chs ! j) \<noteq> event_change_get_fdinfo ch"
      using Cons.prems(1) nth_mem[OF that] by (metis distinct.simps(2) imageI list.simps(9) set_map)
    then show ?thesis using Cons.prems(2)[of "Suc j"] that by (simp add: F_def)
  qed
  then have "remove_all_loop (i + 1) chs F = Some (\<lambda>p. if p \<in> event_change_get_fdinfo ` set chs then 0 else F p)"
    using Cons.IH[of F "i + 1"] Cons.prems(1) by simp
  then have "remove_all_loop i (ch # chs) fdinfo = Some (\<lambda>p. if p \<in> event_change_get_fdinfo ` set chs then 0 else F p)"
    using first by (simp add: F_def[symmetric])
  also have "(\<lambda>p. if p \<in> event_change_get_fdinfo ` set chs then 0 else F p) =
      (\<lambda>p. if p \<in> event_change_get_fdinfo ` set (ch # chs) then 0 else fdinfo p)" by (auto simp: F_def)
  finally show ?case .
qed simp

lemma remove_all_ok:
  assumes wf: "cl_wf cl"
  shows "\<exists>cl'. event_changelist_remove_all cl = Some cl' \<and> cl_wf cl' \<and> pending cl' = Map.empty"
proof -
  note D = cl_wfD[OF wf]
  have info: "event_change_get_fdinfo (changes cl ! j) = (False, ch_fd (changes cl ! j))" if "j < length (changes cl)" for j
    using D(3)[OF that] by (simp add: event_change_get_fdinfo_def)
  have "event_change_get_fdinfo (changes cl ! i) \<noteq> event_change_get_fdinfo (changes cl ! j)"
    if "i < length (changes cl)" "j < length (changes cl)" "i \<noteq> j" for i j
    using D(2)[OF that(1)] D(2)[OF that(2)] info[OF that(1)] info[OF that(2)] that(3) by auto
  then have "distinct (map event_change_get_fdinfo (changes cl))" by (simp add: distinct_conv_nth)
  then have r: "remove_all_loop 0 (changes cl) (idxplus1 cl) =
      Some (\<lambda>p. if p \<in> event_change_get_fdinfo ` set (changes cl) then 0 else idxplus1 cl p)"
    by (rule remove_all_loop_ok) (use info D(2) in simp)
  have "idxplus1 cl (False, fd) = 0" if "(False, fd) \<notin> event_change_get_fdinfo ` set (changes cl)" for fd
  proof (rule ccontr)
    assume "idxplus1 cl (False, fd) \<noteq> 0"
    then have "event_change_get_fdinfo (changes cl ! (idxplus1 cl (False, fd) - 1)) = (False, fd)"
      using D(4,5) info by simp
    then show False using that D(4)[OF \<open>idxplus1 cl (False, fd) \<noteq> 0\<close>] nth_mem by (metis image_eqI)
  qed
  then show ?thesis using r D(1) by (auto simp: event_changelist_remove_all_def cl_wf_def pending_def)
qed

end
