(* ===== verification/Event_Invariant.thy ===== *)
theory Event_Invariant
  imports Event_Base
begin

text \<open>
  The invariant of an event base: the flags of every event say on which queues it is, each
  queue is duplicate-free, the timer heap is a heap, and the two counters are right. The
  queue operations keep it.
\<close>

section \<open>The invariant\<close>

definition common_of :: "event_base \<Rightarrow> event_id \<Rightarrow> bool" where
  "common_of b e \<longleftrightarrow> is_common_timeout (ev_timeout (ev_store b e)) b"

definition idx_of :: "event_base \<Rightarrow> event_id \<Rightarrow> nat" where
  "idx_of b e = COMMON_TIMEOUT_IDX (ev_timeout (ev_store b e))"

definition visible_on :: "u16 \<Rightarrow> event_base \<Rightarrow> event_id set" where
  "visible_on q b = {e. on_queue q b e \<and> \<not> on_queue EVLIST_INTERNAL b e}"

definition counts_ok :: "event_base \<Rightarrow> bool" where
  "counts_ok b \<longleftrightarrow>
     event_count b = int (card (visible_on EVLIST_INSERTED b)) + int (card (visible_on EVLIST_ACTIVE b)) +
                     int (card (visible_on EVLIST_TIMEOUT b)) \<and>
     event_count_active b = int (card {e. on_queue EVLIST_ACTIVE b e})"

definition active_ok :: "event_base \<Rightarrow> bool" where
  "active_ok b \<longleftrightarrow>
     (\<forall>i < length (activequeues b). distinct (activequeues b ! i) \<and>
        set (activequeues b ! i) = {e. on_queue EVLIST_ACTIVE b e \<and> ev_pri (ev_store b e) = i}) \<and>
     (\<forall>e. on_queue EVLIST_ACTIVE b e \<longrightarrow> ev_pri (ev_store b e) < length (activequeues b))"

definition timers_ok :: "event_base \<Rightarrow> bool" where
  "timers_ok b \<longleftrightarrow>
     min_heap_inv (ev_store b) (timeheap b) \<and>
     min_heap_elems (timeheap b) = {e. on_queue EVLIST_TIMEOUT b e \<and> \<not> common_of b e} \<and>
     (\<forall>i < length (common_timeout_queues b). distinct (ctl_events (common_timeout_queues b ! i)) \<and>
        set (ctl_events (common_timeout_queues b ! i)) =
          {e. on_queue EVLIST_TIMEOUT b e \<and> common_of b e \<and> idx_of b e = i}) \<and>
     (\<forall>e. on_queue EVLIST_TIMEOUT b e \<and> common_of b e \<longrightarrow>
        0 \<le> tv_usec (ev_timeout (ev_store b e)) \<and> tv_usec (ev_timeout (ev_store b e)) < 2 ^ 32)"

definition base_inv :: "event_base \<Rightarrow> bool" where
  "base_inv b \<longleftrightarrow>
     distinct (eventqueue b) \<and> set (eventqueue b) = {e. on_queue EVLIST_INSERTED b e} \<and>
     active_ok b \<and> timers_ok b \<and> counts_ok b"

lemma base_invD:
  assumes "base_inv b"
  shows "distinct (eventqueue b)" "set (eventqueue b) = {e. on_queue EVLIST_INSERTED b e}"
    "active_ok b" "timers_ok b" "counts_ok b"
  using assms by (auto simp: base_inv_def)

lemma has_queue_consts [simp]:
  "has EVLIST_INSERTED EVLIST_INSERTED" "has EVLIST_ACTIVE EVLIST_ACTIVE" "has EVLIST_TIMEOUT EVLIST_TIMEOUT"
  "\<not> has EVLIST_INSERTED EVLIST_ACTIVE" "\<not> has EVLIST_INSERTED EVLIST_TIMEOUT" "\<not> has EVLIST_INSERTED EVLIST_INTERNAL"
  "\<not> has EVLIST_ACTIVE EVLIST_INSERTED" "\<not> has EVLIST_ACTIVE EVLIST_TIMEOUT" "\<not> has EVLIST_ACTIVE EVLIST_INTERNAL"
  "\<not> has EVLIST_TIMEOUT EVLIST_INSERTED" "\<not> has EVLIST_TIMEOUT EVLIST_ACTIVE" "\<not> has EVLIST_TIMEOUT EVLIST_INTERNAL"
  "\<not> has EVLIST_INTERNAL EVLIST_INSERTED" "\<not> has EVLIST_INTERNAL EVLIST_ACTIVE" "\<not> has EVLIST_INTERNAL EVLIST_TIMEOUT"
  "EVLIST_INSERTED \<noteq> EVLIST_ACTIVE" "EVLIST_INSERTED \<noteq> EVLIST_TIMEOUT" "EVLIST_ACTIVE \<noteq> EVLIST_INSERTED"
  "EVLIST_ACTIVE \<noteq> EVLIST_TIMEOUT" "EVLIST_TIMEOUT \<noteq> EVLIST_INSERTED" "EVLIST_TIMEOUT \<noteq> EVLIST_ACTIVE"
  by (simp_all add: has_def evlist_defs)

lemma finite_queues:
  assumes "base_inv b" "q \<in> {EVLIST_INSERTED, EVLIST_ACTIVE, EVLIST_TIMEOUT}"
  shows "finite {e. on_queue q b e}" "finite (visible_on q b)"
proof -
  note D = base_invD[OF assms(1)]
  have "{e. on_queue EVLIST_ACTIVE b e} \<subseteq> (\<Union>i < length (activequeues b). set (activequeues b ! i))"
    using D(3) by (auto simp: active_ok_def)
  then have a: "finite {e. on_queue EVLIST_ACTIVE b e}" by (rule finite_subset) simp
  have "{e. on_queue EVLIST_TIMEOUT b e} \<subseteq>
      min_heap_elems (timeheap b) \<union> (\<Union>i < length (common_timeout_queues b). set (ctl_events (common_timeout_queues b ! i)))"
    using D(4) by (auto simp: timers_ok_def common_of_def is_common_timeout_def idx_of_def)
  then have t: "finite {e. on_queue EVLIST_TIMEOUT b e}"
    by (rule finite_subset) (simp add: min_heap_elems_def)
  have "finite {e. on_queue EVLIST_INSERTED b e}" using D(2) by (metis List.finite_set)
  then show "finite {e. on_queue q b e}" using a t assms(2) by auto
  then show "finite (visible_on q b)" by (rule rev_finite_subset) (auto simp: visible_on_def)
qed

section \<open>What a queue operation leaves alone\<close>

text \<open>The parts of the base that no queue operation touches.\<close>

lemma queue_flags_in_all [simp]:
  "(f OR EVLIST_INSERTED) AND NOT EVLIST_ALL = f AND NOT EVLIST_ALL"
  "(f OR EVLIST_ACTIVE) AND NOT EVLIST_ALL = f AND NOT EVLIST_ALL"
  "(f OR EVLIST_TIMEOUT) AND NOT EVLIST_ALL = f AND NOT EVLIST_ALL"
  "(f AND NOT EVLIST_INSERTED) AND NOT EVLIST_ALL = f AND NOT EVLIST_ALL"
  "(f AND NOT EVLIST_ACTIVE) AND NOT EVLIST_ALL = f AND NOT EVLIST_ALL"
  "(f AND NOT EVLIST_TIMEOUT) AND NOT EVLIST_ALL = f AND NOT EVLIST_ALL"
  by (simp_all add: and.assoc bit.conj_disj_distrib2 evlist_defs EVLIST_ALL_def)

definition queue_frame :: "event_base \<Rightarrow> event_base \<Rightarrow> bool" where
  "queue_frame b b' \<longleftrightarrow>
     (\<forall>x. ev_store b' x = (ev_store b x)\<lparr>ev_flags := ev_flags (ev_store b' x),
                                          min_heap_idx := min_heap_idx (ev_store b' x)\<rparr> \<and>
          ev_flags (ev_store b' x) AND NOT EVLIST_ALL = ev_flags (ev_store b x) AND NOT EVLIST_ALL) \<and>
     b' = b\<lparr>ev_store := ev_store b', event_count := event_count b', event_count_active := event_count_active b',
            eventqueue := eventqueue b', activequeues := activequeues b',
            common_timeout_queues := common_timeout_queues b', timeheap := timeheap b'\<rparr> \<and>
     length (activequeues b') = length (activequeues b) \<and>
     map timeout_event (common_timeout_queues b') = map timeout_event (common_timeout_queues b) \<and>
     map duration (common_timeout_queues b') = map duration (common_timeout_queues b)"

lemma queue_frame_fields:
  assumes "queue_frame b b'"
  shows "ev_timeout (ev_store b' x) = ev_timeout (ev_store b x)" "ev_pri (ev_store b' x) = ev_pri (ev_store b x)"
    "ev_events (ev_store b' x) = ev_events (ev_store b x)" "ev_res (ev_store b' x) = ev_res (ev_store b x)"
    "ev_fd (ev_store b' x) = ev_fd (ev_store b x)" "ev_closure (ev_store b' x) = ev_closure (ev_store b x)"
    "ev_io_timeout (ev_store b' x) = ev_io_timeout (ev_store b x)" "ev_ncalls (ev_store b' x) = ev_ncalls (ev_store b x)"
    "ev_pncalls (ev_store b' x) = ev_pncalls (ev_store b x)"
    "length (activequeues b') = length (activequeues b)"
    "length (common_timeout_queues b') = length (common_timeout_queues b)"
    "io_map b' = io_map b" "sigmap b' = sigmap b" "backend_calls b' = backend_calls b" "tv_cache b' = tv_cache b"
    "event_running_priority b' = event_running_priority b" "event_break b' = event_break b"
    "event_continue b' = event_continue b" "cb_trace b' = cb_trace b" "defer_queue b' = defer_queue b"
    "need_notify b' = need_notify b" "sig_aborted b' = sig_aborted b"
    "ev_flags (ev_store b' x) AND NOT EVLIST_ALL = ev_flags (ev_store b x) AND NOT EVLIST_ALL"
    "map timeout_event (common_timeout_queues b') = map timeout_event (common_timeout_queues b)"
proof -
  obtain f i where x: "ev_store b' x = (ev_store b x)\<lparr>ev_flags := f, min_heap_idx := i\<rparr>"
    using assms unfolding queue_frame_def by blast
  show "ev_timeout (ev_store b' x) = ev_timeout (ev_store b x)" "ev_pri (ev_store b' x) = ev_pri (ev_store b x)"
    "ev_events (ev_store b' x) = ev_events (ev_store b x)" "ev_res (ev_store b' x) = ev_res (ev_store b x)"
    "ev_fd (ev_store b' x) = ev_fd (ev_store b x)" "ev_closure (ev_store b' x) = ev_closure (ev_store b x)"
    "ev_io_timeout (ev_store b' x) = ev_io_timeout (ev_store b x)" "ev_ncalls (ev_store b' x) = ev_ncalls (ev_store b x)"
    "ev_pncalls (ev_store b' x) = ev_pncalls (ev_store b x)" unfolding x by simp_all
  show "length (activequeues b') = length (activequeues b)"
    "length (common_timeout_queues b') = length (common_timeout_queues b)"
    using assms unfolding queue_frame_def by (auto dest: map_eq_imp_length_eq)
  obtain s ec ea eq aq cq th where b: "b' = b\<lparr>ev_store := s, event_count := ec, event_count_active := ea, eventqueue := eq,
         activequeues := aq, common_timeout_queues := cq, timeheap := th\<rparr>"
    using assms unfolding queue_frame_def by blast
  show "io_map b' = io_map b" "sigmap b' = sigmap b" "backend_calls b' = backend_calls b" "tv_cache b' = tv_cache b"
    "event_running_priority b' = event_running_priority b" "event_break b' = event_break b"
    "event_continue b' = event_continue b" "cb_trace b' = cb_trace b" "defer_queue b' = defer_queue b"
    "need_notify b' = need_notify b" "sig_aborted b' = sig_aborted b"
    unfolding b by simp_all
  show "ev_flags (ev_store b' x) AND NOT EVLIST_ALL = ev_flags (ev_store b x) AND NOT EVLIST_ALL"
    "map timeout_event (common_timeout_queues b') = map timeout_event (common_timeout_queues b)"
    using assms unfolding queue_frame_def by blast+
qed

lemma queue_frame_common: "queue_frame b b' \<Longrightarrow> common_of b' x = common_of b x" "queue_frame b b' \<Longrightarrow> idx_of b' x = idx_of b x"
  by (simp_all add: common_of_def idx_of_def is_common_timeout_def queue_frame_fields)

lemma is_common_timeout_update [simp]:
  "is_common_timeout t (b\<lparr>ev_store := s\<rparr>) = is_common_timeout t b"
  "is_common_timeout t (b\<lparr>event_count := n\<rparr>) = is_common_timeout t b"
  "is_common_timeout t (upd_ev b e f) = is_common_timeout t b"
  by (simp_all add: is_common_timeout_def upd_ev_def)

section \<open>Changing one flag\<close>

lemma min_heap_inv_cong:
  assumes "\<And>x. ev_timeout (evs' x) = ev_timeout (evs x)" "\<And>x. min_heap_idx (evs' x) = min_heap_idx (evs x)"
  shows "min_heap_inv evs' h = min_heap_inv evs h"
proof -
  have "event_key evs' = event_key evs" using assms(1) by (intro ext) simp
  then show ?thesis using assms(2) by (simp add: min_heap_inv_def)
qed

text \<open>\<open>ev\<close> and only \<open>ev\<close> is put on queue \<open>q\<close>, or taken off it.\<close>

definition put_on :: "u16 \<Rightarrow> event_id \<Rightarrow> event_base \<Rightarrow> event_base \<Rightarrow> bool" where
  "put_on q ev b b' \<longleftrightarrow>
     (\<forall>p x. p \<in> {EVLIST_INSERTED, EVLIST_ACTIVE, EVLIST_TIMEOUT, EVLIST_INTERNAL} \<longrightarrow>
        on_queue p b' x = (on_queue p b x \<or> x = ev \<and> p = q)) \<and> \<not> on_queue q b ev"

definition taken_off :: "u16 \<Rightarrow> event_id \<Rightarrow> event_base \<Rightarrow> event_base \<Rightarrow> bool" where
  "taken_off q ev b b' \<longleftrightarrow> put_on q ev b' b"

lemma put_on_simps:
  assumes "put_on q ev b b'"
  shows "on_queue EVLIST_INSERTED b' x = (on_queue EVLIST_INSERTED b x \<or> x = ev \<and> q = EVLIST_INSERTED)"
    "on_queue EVLIST_ACTIVE b' x = (on_queue EVLIST_ACTIVE b x \<or> x = ev \<and> q = EVLIST_ACTIVE)"
    "on_queue EVLIST_TIMEOUT b' x = (on_queue EVLIST_TIMEOUT b x \<or> x = ev \<and> q = EVLIST_TIMEOUT)"
    "on_queue EVLIST_INTERNAL b' x = (on_queue EVLIST_INTERNAL b x \<or> x = ev \<and> q = EVLIST_INTERNAL)"
    "\<not> on_queue q b ev"
  using assms by (auto simp: put_on_def)

lemma internal_neq [simp]: "EVLIST_INTERNAL \<noteq> EVLIST_INSERTED" "EVLIST_INTERNAL \<noteq> EVLIST_ACTIVE"
    "EVLIST_INTERNAL \<noteq> EVLIST_TIMEOUT" "EVLIST_INSERTED \<noteq> EVLIST_INTERNAL" "EVLIST_ACTIVE \<noteq> EVLIST_INTERNAL"
    "EVLIST_TIMEOUT \<noteq> EVLIST_INTERNAL"
  by (simp_all add: evlist_defs)

lemma upd_flags_put_on:
  assumes "q \<in> {EVLIST_INSERTED, EVLIST_ACTIVE, EVLIST_TIMEOUT}" "\<not> on_queue q b ev"
    and "\<And>x. ev_flags (ev_store b' x) = (if x = ev then ev_flags (ev_store b x) OR q else ev_flags (ev_store b x))"
  shows "put_on q ev b b'"
  using assms by (auto simp: put_on_def on_queue_def)

lemma upd_flags_taken_off:
  assumes "q \<in> {EVLIST_INSERTED, EVLIST_ACTIVE, EVLIST_TIMEOUT}" "on_queue q b ev"
    and "\<And>x. ev_flags (ev_store b' x) = (if x = ev then ev_flags (ev_store b x) AND NOT q else ev_flags (ev_store b x))"
  shows "taken_off q ev b b'"
  unfolding taken_off_def put_on_def
proof (intro conjI allI impI)
  fix p x assume p: "p \<in> {EVLIST_INSERTED, EVLIST_ACTIVE, EVLIST_TIMEOUT, EVLIST_INTERNAL}"
  show "on_queue p b x = (on_queue p b' x \<or> x = ev \<and> p = q)"
  proof (cases "x = ev \<and> p \<noteq> q")
    case True
    then have "\<not> has p q" using p assms(1) by auto
    then show ?thesis using True by (simp add: on_queue_def assms(3) has_and_not)
  next
    case False
    then show ?thesis using assms(2) by (cases "x = ev") (simp_all add: on_queue_def assms(3))
  qed
next
  show "\<not> on_queue q b' ev" by (simp add: on_queue_def assms(3))
qed

lemma visible_put_on:
  assumes "put_on q ev b b'" "q \<in> {EVLIST_INSERTED, EVLIST_ACTIVE, EVLIST_TIMEOUT}"
    "p \<in> {EVLIST_INSERTED, EVLIST_ACTIVE, EVLIST_TIMEOUT}"
  shows "visible_on p b' = (if p = q \<and> \<not> on_queue EVLIST_INTERNAL b ev then insert ev (visible_on p b) else visible_on p b)"
    "ev \<notin> visible_on q b"
proof -
  have on: "on_queue p b' x = (on_queue p b x \<or> x = ev \<and> p = q)" for x
    using assms(1,3) unfolding put_on_def by blast
  have int: "on_queue EVLIST_INTERNAL b' x = on_queue EVLIST_INTERNAL b x" for x
    using put_on_simps(4)[OF assms(1), of x] assms(2) by auto
  show "visible_on p b' = (if p = q \<and> \<not> on_queue EVLIST_INTERNAL b ev then insert ev (visible_on p b) else visible_on p b)"
    unfolding visible_on_def on int by auto
  show "ev \<notin> visible_on q b" using put_on_simps(5)[OF assms(1)] by (simp add: visible_on_def)
qed

lemma counts_put_on:
  assumes put: "put_on q ev b b'" and q: "q \<in> {EVLIST_INSERTED, EVLIST_ACTIVE, EVLIST_TIMEOUT}"
    and fin: "\<And>p. p \<in> {EVLIST_INSERTED, EVLIST_ACTIVE, EVLIST_TIMEOUT} \<Longrightarrow> finite {e. on_queue p b e}"
    and ec: "event_count b' = event_count b + (if on_queue EVLIST_INTERNAL b ev then 0 else 1)"
    and ea: "event_count_active b' = event_count_active b + (if q = EVLIST_ACTIVE then 1 else 0)"
  shows "counts_ok b' = counts_ok b"
proof -
  have finv: "finite (visible_on p b)" if "p \<in> {EVLIST_INSERTED, EVLIST_ACTIVE, EVLIST_TIMEOUT}" for p
    using fin[OF that] by (rule rev_finite_subset) (auto simp: visible_on_def)
  have card: "int (card (visible_on p b')) = int (card (visible_on p b)) +
      (if p = q \<and> \<not> on_queue EVLIST_INTERNAL b ev then 1 else 0)"
    if "p \<in> {EVLIST_INSERTED, EVLIST_ACTIVE, EVLIST_TIMEOUT}" for p
    using visible_put_on[OF put q that] finv[OF that] by auto
  have "{e. on_queue EVLIST_ACTIVE b' e} =
      (if q = EVLIST_ACTIVE then insert ev {e. on_queue EVLIST_ACTIVE b e} else {e. on_queue EVLIST_ACTIVE b e})"
    using put by (auto simp: put_on_simps)
  then have act: "int (card {e. on_queue EVLIST_ACTIVE b' e}) =
      int (card {e. on_queue EVLIST_ACTIVE b e}) + (if q = EVLIST_ACTIVE then 1 else 0)"
    using fin[of EVLIST_ACTIVE] put_on_simps(5)[OF put] by auto
  show ?thesis
    unfolding counts_ok_def ec ea act card[of EVLIST_INSERTED, simplified] card[of EVLIST_ACTIVE, simplified]
      card[of EVLIST_TIMEOUT, simplified]
    using q by auto
qed

lemma active_ok_cong:
  assumes "queue_frame b b'" "activequeues b' = activequeues b"
    "\<And>x. on_queue EVLIST_ACTIVE b' x = on_queue EVLIST_ACTIVE b x"
  shows "active_ok b' = active_ok b"
  unfolding active_ok_def assms(2,3) queue_frame_fields(2)[OF assms(1)] ..

lemma timers_ok_cong:
  assumes "queue_frame b b'" "timeheap b' = timeheap b" "common_timeout_queues b' = common_timeout_queues b"
    "\<And>x. on_queue EVLIST_TIMEOUT b' x = on_queue EVLIST_TIMEOUT b x"
    "\<And>x. min_heap_idx (ev_store b' x) = min_heap_idx (ev_store b x)"
  shows "timers_ok b' = timers_ok b"
proof -
  have "min_heap_inv (ev_store b') (timeheap b) = min_heap_inv (ev_store b) (timeheap b)"
    by (rule min_heap_inv_cong) (simp_all add: queue_frame_fields[OF assms(1)] assms(5))
  then show ?thesis
    unfolding timers_ok_def assms(2,3,4) queue_frame_common[OF assms(1)] queue_frame_fields(1)[OF assms(1)] by simp
qed

section \<open>Insertion\<close>

text \<open>What every successful insertion gives.\<close>

definition inserted_ok :: "u16 \<Rightarrow> event_id \<Rightarrow> event_base \<Rightarrow> event_base \<Rightarrow> bool" where
  "inserted_ok q ev b b' \<longleftrightarrow> base_inv b' \<and> queue_frame b b' \<and> put_on q ev b b'"

lemma queue_insert_INSERTED:
  assumes inv: "base_inv b" and off: "\<not> on_queue EVLIST_INSERTED b ev"
  shows "\<exists>b'. event_queue_insert m b ev EVLIST_INSERTED = Some b' \<and> inserted_ok EVLIST_INSERTED ev b b' \<and>
           timeheap b' = timeheap b"
proof -
  note D = base_invD[OF inv]
  define b' where "b' = b\<lparr>ev_store := (ev_store b)(ev := (ev_store b ev)\<lparr>ev_flags := ev_flags (ev_store b ev) OR EVLIST_INSERTED\<rparr>),
    event_count := event_count b + (if on_queue EVLIST_INTERNAL b ev then 0 else 1), eventqueue := eventqueue b @ [ev]\<rparr>"
  have fr: "queue_frame b b'" by (simp add: queue_frame_def b'_def event_base.equality)
  have put: "put_on EVLIST_INSERTED ev b b'" using off by (intro upd_flags_put_on) (simp_all add: b'_def)
  have "active_ok b'" using D(3) active_ok_cong[OF fr] put_on_simps[OF put] by (simp add: b'_def)
  moreover have "timers_ok b'" using D(4) timers_ok_cong[OF fr] put_on_simps[OF put] by (simp add: b'_def)
  moreover have "counts_ok b'"
    using D(5) counts_put_on[OF put _ finite_queues(1)[OF inv]] by (simp add: b'_def)
  moreover have "distinct (eventqueue b') \<and> set (eventqueue b') = {e. on_queue EVLIST_INSERTED b' e}"
    unfolding put_on_simps[OF put] using D(1,2) off by (auto simp: b'_def)
  ultimately have "base_inv b'" by (simp add: base_inv_def)
  moreover have "event_queue_insert m b ev EVLIST_INSERTED = Some b'"
    using off by (simp add: event_queue_insert_def upd_ev_def b'_def Let_def)
  ultimately show ?thesis using fr put by (auto simp: inserted_ok_def b'_def)
qed

lemma queue_insert_ACTIVE:
  assumes inv: "base_inv b" and off: "\<not> on_queue EVLIST_ACTIVE b ev"
    and pri: "ev_pri (ev_store b ev) < length (activequeues b)"
  shows "\<exists>b'. event_queue_insert m b ev EVLIST_ACTIVE = Some b' \<and> inserted_ok EVLIST_ACTIVE ev b b' \<and>
           timeheap b' = timeheap b \<and> common_timeout_queues b' = common_timeout_queues b \<and> eventqueue b' = eventqueue b \<and>
           activequeues b' = (activequeues b)[ev_pri (ev_store b ev) := activequeues b ! ev_pri (ev_store b ev) @ [ev]]"
proof -
  note D = base_invD[OF inv]
  let ?p = "ev_pri (ev_store b ev)"
  define b' where "b' = b\<lparr>ev_store := (ev_store b)(ev := (ev_store b ev)\<lparr>ev_flags := ev_flags (ev_store b ev) OR EVLIST_ACTIVE\<rparr>),
    event_count := event_count b + (if on_queue EVLIST_INTERNAL b ev then 0 else 1),
    event_count_active := event_count_active b + 1, activequeues := (activequeues b)[?p := activequeues b ! ?p @ [ev]]\<rparr>"
  have fr: "queue_frame b b'" by (simp add: queue_frame_def b'_def event_base.equality)
  have put: "put_on EVLIST_ACTIVE ev b b'" using off by (intro upd_flags_put_on) (simp_all add: b'_def)
  have q: "activequeues b' ! i = (if i = ?p then activequeues b ! i @ [ev] else activequeues b ! i)" for i
    using pri by (auto simp: b'_def nth_list_update)
  have "active_ok b'"
    using D(3) off pri unfolding active_ok_def put_on_simps[OF put] queue_frame_fields[OF fr] q by auto
  moreover have "timers_ok b'" using D(4) timers_ok_cong[OF fr] put_on_simps[OF put] by (simp add: b'_def)
  moreover have "counts_ok b'"
    using D(5) counts_put_on[OF put _ finite_queues(1)[OF inv]] by (simp add: b'_def)
  moreover have "distinct (eventqueue b') \<and> set (eventqueue b') = {e. on_queue EVLIST_INSERTED b' e}"
    unfolding put_on_simps[OF put] using D(1,2) by (simp add: b'_def)
  ultimately have "base_inv b'" by (simp add: base_inv_def)
  moreover have "event_queue_insert m b ev EVLIST_ACTIVE = Some b'"
    using off pri by (simp add: event_queue_insert_def upd_ev_def b'_def Let_def)
  ultimately show ?thesis using fr put by (auto simp: inserted_ok_def b'_def)
qed

section \<open>Insertion into the timeout queues\<close>

lemma timeout_masks:
  "MICROSECONDS_MASK = mask 20" "COMMON_TIMEOUT_IDX_MASK = push_bit 20 (mask 8)"
  "COMMON_TIMEOUT_MASK = push_bit 28 (mask 4)"
  by (simp_all add: MICROSECONDS_MASK_def COMMON_TIMEOUT_IDX_MASK_def COMMON_TIMEOUT_MASK_def mask_eq_exp_minus_1
      push_bit_eq_mult)

text \<open>Two common timeouts with the same index carry the same magic bits.\<close>

lemma int_bit_bound: "0 \<le> (u::int) \<Longrightarrow> u < 2 ^ k \<Longrightarrow> k \<le> n \<Longrightarrow> \<not> bit u n"
  by (metis take_bit_int_eq_self_iff bit_take_bit_iff not_le)

lemma same_common_timeout:
  assumes u: "0 \<le> tv_usec t" "tv_usec t < 2 ^ 32" and v: "0 \<le> tv_usec s" "tv_usec s < 2 ^ 32"
    and "is_common_timeout t b" "is_common_timeout s b" and idx: "COMMON_TIMEOUT_IDX t = COMMON_TIMEOUT_IDX s"
  shows "is_same_common_timeout t s"
proof -
  let ?u = "tv_usec t" and ?v = "tv_usec s"
  have magic: "?u AND push_bit 28 (mask 4) = ?v AND push_bit 28 (mask 4)"
    using assms(5,6) by (simp add: is_common_timeout_def timeout_masks)
  have "0 \<le> drop_bit 20 (?u AND push_bit 20 (mask 8))" "0 \<le> drop_bit 20 (?v AND push_bit 20 (mask 8))"
    using u v by simp_all
  then have idx': "drop_bit 20 (?u AND push_bit 20 (mask 8)) = drop_bit 20 (?v AND push_bit 20 (mask 8))"
    using idx by (simp add: COMMON_TIMEOUT_IDX_def timeout_masks eq_nat_nat_iff)
  have "bit ?u n = bit ?v n" if "20 \<le> n" for n
  proof -
    consider "n < 28" | "28 \<le> n" "n < 32" | "32 \<le> n" by linarith
    then show ?thesis
    proof cases
      case 1
      then have "bit (drop_bit 20 (?u AND push_bit 20 (mask 8))) (n - 20) = bit ?u n"
        "bit (drop_bit 20 (?v AND push_bit 20 (mask 8))) (n - 20) = bit ?v n"
        using that by (auto simp: bit_drop_bit_eq bit_and_iff bit_push_bit_iff_int bit_mask_iff)
      then show ?thesis using idx' by simp
    next
      case 2
      then have "bit (?u AND push_bit 28 (mask 4)) n = bit ?u n" "bit (?v AND push_bit 28 (mask 4)) n = bit ?v n"
        by (auto simp: bit_and_iff bit_push_bit_iff_int bit_mask_iff)
      then show ?thesis using magic by simp
    next
      case 3
      then show ?thesis using int_bit_bound[OF u] int_bit_bound[OF v] by blast
    qed
  qed
  then show ?thesis
    unfolding is_same_common_timeout_def timeout_masks
    by (auto simp: bit_eq_iff bit_and_iff bit_not_iff bit_mask_iff)
qed

lemma insert_inorder_rev_ok:
  assumes "\<forall>e \<in> set es. is_same_common_timeout (ev_timeout (evs e)) (ev_timeout (evs ev))"
  shows "\<exists>es'. insert_inorder_rev evs ev es = Some es' \<and> set es' = insert ev (set es) \<and>
           (distinct es \<and> ev \<notin> set es \<longrightarrow> distinct es') \<and>
           (sorted_wrt (\<lambda>x y. ev_timeout (evs y) \<le> ev_timeout (evs x)) es \<longrightarrow>
            sorted_wrt (\<lambda>x y. ev_timeout (evs y) \<le> ev_timeout (evs x)) es')"
  using assms
proof (induction es)
  case (Cons e es)
  then obtain es' where IH: "insert_inorder_rev evs ev es = Some es'" "set es' = insert ev (set es)"
    "distinct es \<and> ev \<notin> set es \<longrightarrow> distinct es'"
    "sorted_wrt (\<lambda>x y. ev_timeout (evs y) \<le> ev_timeout (evs x)) es \<longrightarrow>
     sorted_wrt (\<lambda>x y. ev_timeout (evs y) \<le> ev_timeout (evs x)) es'" by auto
  show ?case
  proof (cases "ev_timeout (evs ev) < ev_timeout (evs e)")
    case True
    then show ?thesis using IH Cons.prems by (auto simp: timercmp_lt_iff)
  next
    case False
    then show ?thesis using Cons.prems by (auto simp: timercmp_lt_iff)
  qed
qed simp

lemma frame_heap:
  assumes "\<And>x. \<exists>f. s2 x = (s x)\<lparr>ev_flags := f\<rparr>" "same_but_idx s2 s'"
  shows "s' x = (s x)\<lparr>ev_flags := ev_flags (s' x), min_heap_idx := min_heap_idx (s' x)\<rparr>"
proof -
  obtain f where f: "s2 x = (s x)\<lparr>ev_flags := f\<rparr>" using assms(1) by blast
  obtain i where i: "s' x = (s2 x)\<lparr>min_heap_idx := i\<rparr>" using assms(2) unfolding same_but_idx_def by blast
  show ?thesis unfolding i f by simp
qed

lemma queue_insert_TIMEOUT_heap:
  assumes inv: "base_inv b" and off: "\<not> on_queue EVLIST_TIMEOUT b ev"
    and nc: "\<not> common_of b ev" and room: "heap_n (timeheap b) < heap_a (timeheap b)"
  shows "\<exists>b'. event_queue_insert m b ev EVLIST_TIMEOUT = Some b' \<and> inserted_ok EVLIST_TIMEOUT ev b b'"
proof -
  note D = base_invD[OF inv]
  note T = D(4)[unfolded timers_ok_def]
  define b2 where "b2 = b\<lparr>ev_store := (ev_store b)(ev := (ev_store b ev)\<lparr>ev_flags := ev_flags (ev_store b ev) OR EVLIST_TIMEOUT\<rparr>),
    event_count := event_count b + (if on_queue EVLIST_INTERNAL b ev then 0 else 1)\<rparr>"
  have inv2: "min_heap_inv (ev_store b2) (timeheap b)"
    using T min_heap_inv_cong[of "ev_store b2" "ev_store b"] by (simp add: b2_def)
  have notin: "ev \<notin> min_heap_elems (timeheap b)" using T off by auto
  have res: "min_heap_reserve m (timeheap b) (heap_n (timeheap b) + 1) = Some (timeheap b)"
    using room by (simp add: min_heap_reserve_def)
  obtain evs' h' where push: "min_heap_push m (ev_store b2) (timeheap b) ev = (0, evs', h')"
    using res by (simp add: min_heap_push_def) (metis prod.exhaust)
  have P: "min_heap_inv evs' h'" "min_heap_elems h' = insert ev (min_heap_elems (timeheap b))" "same_but_idx (ev_store b2) evs'"
    using min_heap_push_ok[OF inv2 notin push] by auto
  define b' where "b' = b2\<lparr>ev_store := evs', timeheap := h'\<rparr>"
  have "\<exists>f. ev_store b2 x = (ev_store b x)\<lparr>ev_flags := f\<rparr>" for x
    by (rule exI[of _ "ev_flags (ev_store b2 x)"]) (simp add: b2_def)
  then have fr: "queue_frame b b'"
    using frame_heap[OF _ P(3), of "ev_store b"]
    by (simp add: queue_frame_def b'_def b2_def event_base.equality same_but_idx_fields[OF P(3)])
  have put: "put_on EVLIST_TIMEOUT ev b b'"
    using off by (intro upd_flags_put_on) (simp_all add: b'_def same_but_idx_fields[OF P(3)], simp add: b2_def)
  have "active_ok b'" using D(3) active_ok_cong[OF fr] put_on_simps[OF put] by (simp add: b'_def b2_def)
  moreover have "counts_ok b'"
    using D(5) counts_put_on[OF put _ finite_queues(1)[OF inv]] by (simp add: b'_def b2_def)
  moreover have "distinct (eventqueue b') \<and> set (eventqueue b') = {e. on_queue EVLIST_INSERTED b' e}"
    unfolding put_on_simps[OF put] using D(1,2) by (simp add: b'_def b2_def)
  moreover have "timers_ok b'"
    unfolding timers_ok_def put_on_simps[OF put] queue_frame_common[OF fr] queue_frame_fields[OF fr]
    using T P(1,2) nc by (auto simp: b'_def b2_def)
  ultimately have "base_inv b'" by (simp add: base_inv_def)
  moreover have "event_queue_insert m b ev EVLIST_TIMEOUT = Some b'"
    using off push nc unfolding event_queue_insert_def upd_ev_def b'_def
    by (simp add: Let_def b2_def common_of_def split: if_splits)
  ultimately show ?thesis using fr put by (auto simp: inserted_ok_def)
qed

lemma queue_insert_TIMEOUT_common:
  assumes inv: "base_inv b" and off: "\<not> on_queue EVLIST_TIMEOUT b ev" and c: "common_of b ev"
    and us: "0 \<le> tv_usec (ev_timeout (ev_store b ev))" "tv_usec (ev_timeout (ev_store b ev)) < 2 ^ 32"
  shows "\<exists>b'. event_queue_insert m b ev EVLIST_TIMEOUT = Some b' \<and> inserted_ok EVLIST_TIMEOUT ev b b' \<and>
           timeheap b' = timeheap b"
proof -
  note D = base_invD[OF inv]
  note T = D(4)[unfolded timers_ok_def]
  let ?i = "idx_of b ev"
  have i: "?i < length (common_timeout_queues b)" using c by (simp add: common_of_def is_common_timeout_def idx_of_def)
  define b2 where "b2 = b\<lparr>event_count := event_count b + (if on_queue EVLIST_INTERNAL b ev then 0 else 1),
    ev_store := (ev_store b)(ev := (ev_store b ev)\<lparr>ev_flags := ev_flags (ev_store b ev) OR EVLIST_TIMEOUT\<rparr>)\<rparr>"
  have t2: "ev_timeout (ev_store b2 x) = ev_timeout (ev_store b x)" for x by (simp add: b2_def)
  let ?es = "ctl_events (common_timeout_queues b ! ?i)"
  have es: "distinct ?es" "set ?es = {e. on_queue EVLIST_TIMEOUT b e \<and> common_of b e \<and> idx_of b e = ?i}"
    using T i by auto
  have "is_same_common_timeout (ev_timeout (ev_store b e)) (ev_timeout (ev_store b ev))" if "e \<in> set ?es" for e
    using that es(2) T c us by (intro same_common_timeout[of _ _ b]) (auto simp: common_of_def idx_of_def)
  then have "\<forall>e \<in> set (rev ?es). is_same_common_timeout (ev_timeout (ev_store b2 e)) (ev_timeout (ev_store b2 ev))"
    by (simp add: t2)
  from insert_inorder_rev_ok[OF this] obtain es' where
    ins: "insert_inorder_rev (ev_store b2) ev (rev ?es) = Some es'" "set es' = insert ev (set ?es)" "distinct es'"
    using es off by auto
  define b' where "b' = set_ctl_events b2 ?i (rev es')"
  have st: "ev_store b' = ev_store b2" by (simp add: b'_def set_ctl_events_def)
  have q: "common_timeout_queues b' ! j =
      (if j = ?i then (common_timeout_queues b ! j)\<lparr>ctl_events := rev es'\<rparr> else common_timeout_queues b ! j)" for j
    using i by (auto simp: b'_def set_ctl_events_def b2_def nth_list_update)
  have len: "length (common_timeout_queues b') = length (common_timeout_queues b)"
    by (simp add: b'_def set_ctl_events_def b2_def)
  have "map timeout_event (common_timeout_queues b') = map timeout_event (common_timeout_queues b)"
    "map duration (common_timeout_queues b') = map duration (common_timeout_queues b)"
    by (auto intro!: nth_equalityI simp: len q)
  moreover have "ev_store b' x = (ev_store b x)\<lparr>ev_flags := ev_flags (ev_store b' x), min_heap_idx := min_heap_idx (ev_store b' x)\<rparr>"
    "ev_flags (ev_store b' x) AND NOT EVLIST_ALL = ev_flags (ev_store b x) AND NOT EVLIST_ALL" for x
    by (simp_all add: st b2_def)
  ultimately have fr: "queue_frame b b'"
    by (simp add: queue_frame_def) (simp add: b'_def set_ctl_events_def b2_def event_base.equality)
  have put: "put_on EVLIST_TIMEOUT ev b b'"
    using off by (intro upd_flags_put_on) (simp_all add: st, simp add: b2_def)
  have rest: "activequeues b' = activequeues b" "eventqueue b' = eventqueue b" "timeheap b' = timeheap b"
    "event_count b' = event_count b + (if on_queue EVLIST_INTERNAL b ev then 0 else 1)" "event_count_active b' = event_count_active b"
    "\<And>x. min_heap_idx (ev_store b' x) = min_heap_idx (ev_store b x)"
    by (simp_all add: b'_def set_ctl_events_def b2_def)
  have "active_ok b'" using D(3) active_ok_cong[OF fr] put_on_simps[OF put] rest by simp
  moreover have "counts_ok b'" using D(5) counts_put_on[OF put _ finite_queues(1)[OF inv]] rest by simp
  moreover have "distinct (eventqueue b') \<and> set (eventqueue b') = {e. on_queue EVLIST_INSERTED b' e}"
    unfolding put_on_simps[OF put] using D(1,2) rest by simp
  moreover have "timers_ok b'"
  proof -
    have "min_heap_inv (ev_store b') (timeheap b)"
      using T min_heap_inv_cong[of "ev_store b'" "ev_store b"] rest queue_frame_fields(1)[OF fr] by simp
    moreover have "distinct (ctl_events (common_timeout_queues b' ! j)) \<and> set (ctl_events (common_timeout_queues b' ! j)) =
        {e. (on_queue EVLIST_TIMEOUT b e \<or> e = ev) \<and> common_of b e \<and> idx_of b e = j}"
      if "j < length (common_timeout_queues b)" for j
      using T that ins(2,3) es(2) c unfolding q by auto
    ultimately show ?thesis
      unfolding timers_ok_def put_on_simps[OF put] queue_frame_common[OF fr] queue_frame_fields[OF fr] rest
      using T c us by auto
  qed
  ultimately have "base_inv b'" by (simp add: base_inv_def)
  moreover have "event_queue_insert m b ev EVLIST_TIMEOUT = Some b'"
  proof -
    have "event_queue_insert m b ev EVLIST_TIMEOUT = insert_common_timeout_inorder b2 ?i ev"
      using off c by (simp add: event_queue_insert_def upd_ev_def Let_def b2_def common_of_def idx_of_def)
    also have "\<dots> = Some b'"
      using ins(1) by (simp add: insert_common_timeout_inorder_def b'_def b2_def)
    finally show ?thesis .
  qed
  ultimately show ?thesis using fr put rest by (auto simp: inserted_ok_def)
qed

section \<open>Removal\<close>

definition removed_ok :: "u16 \<Rightarrow> event_id \<Rightarrow> event_base \<Rightarrow> event_base \<Rightarrow> bool" where
  "removed_ok q ev b b' \<longleftrightarrow> base_inv b' \<and> queue_frame b b' \<and> taken_off q ev b b'"

lemma taken_off_simps:
  assumes "taken_off q ev b b'" "q \<in> {EVLIST_INSERTED, EVLIST_ACTIVE, EVLIST_TIMEOUT}"
  shows "on_queue EVLIST_INSERTED b' x = (on_queue EVLIST_INSERTED b x \<and> \<not> (x = ev \<and> q = EVLIST_INSERTED))"
    "on_queue EVLIST_ACTIVE b' x = (on_queue EVLIST_ACTIVE b x \<and> \<not> (x = ev \<and> q = EVLIST_ACTIVE))"
    "on_queue EVLIST_TIMEOUT b' x = (on_queue EVLIST_TIMEOUT b x \<and> \<not> (x = ev \<and> q = EVLIST_TIMEOUT))"
    "on_queue EVLIST_INTERNAL b' x = on_queue EVLIST_INTERNAL b x"
proof -
  note P = put_on_simps[OF assms(1)[unfolded taken_off_def]]
  show "on_queue EVLIST_INSERTED b' x = (on_queue EVLIST_INSERTED b x \<and> \<not> (x = ev \<and> q = EVLIST_INSERTED))"
    using P(1)[of x] P(5) by blast
  show "on_queue EVLIST_ACTIVE b' x = (on_queue EVLIST_ACTIVE b x \<and> \<not> (x = ev \<and> q = EVLIST_ACTIVE))"
    using P(2)[of x] P(5) by blast
  show "on_queue EVLIST_TIMEOUT b' x = (on_queue EVLIST_TIMEOUT b x \<and> \<not> (x = ev \<and> q = EVLIST_TIMEOUT))"
    using P(3)[of x] P(5) by blast
  show "on_queue EVLIST_INTERNAL b' x = on_queue EVLIST_INTERNAL b x" using P(4)[of x] assms(2) by auto
qed

lemma counts_taken_off:
  assumes off: "taken_off q ev b b'" and q: "q \<in> {EVLIST_INSERTED, EVLIST_ACTIVE, EVLIST_TIMEOUT}" and inv: "base_inv b"
    and ec: "event_count b' = event_count b - (if on_queue EVLIST_INTERNAL b ev then 0 else 1)"
    and ea: "event_count_active b' = event_count_active b - (if q = EVLIST_ACTIVE then 1 else 0)"
  shows "counts_ok b'"
proof -
  have fin: "finite {e. on_queue p b' e}" if "p \<in> {EVLIST_INSERTED, EVLIST_ACTIVE, EVLIST_TIMEOUT}" for p
    using finite_queues(1)[OF inv that] that taken_off_simps[OF off q] by (elim rev_finite_subset) auto
  have "counts_ok b = counts_ok b'"
    using counts_put_on[OF off[unfolded taken_off_def] q fin] ec ea taken_off_simps(4)[OF off q] by simp
  then show ?thesis using base_invD(5)[OF inv] by simp
qed

lemma queue_remove_INSERTED:
  assumes inv: "base_inv b" and on: "on_queue EVLIST_INSERTED b ev"
  shows "\<exists>b'. event_queue_remove b ev EVLIST_INSERTED = Some b' \<and> removed_ok EVLIST_INSERTED ev b b' \<and>
           timeheap b' = timeheap b"
proof -
  note D = base_invD[OF inv]
  define b' where "b' = b\<lparr>ev_store := (ev_store b)(ev := (ev_store b ev)\<lparr>ev_flags := ev_flags (ev_store b ev) AND NOT EVLIST_INSERTED\<rparr>),
    event_count := event_count b - (if on_queue EVLIST_INTERNAL b ev then 0 else 1), eventqueue := remove1 ev (eventqueue b)\<rparr>"
  have fr: "queue_frame b b'" by (simp add: queue_frame_def b'_def event_base.equality)
  have off: "taken_off EVLIST_INSERTED ev b b'" using on by (intro upd_flags_taken_off) (simp_all add: b'_def)
  note O = taken_off_simps[OF off, simplified]
  have "active_ok b'" using D(3) active_ok_cong[OF fr] O by (simp add: b'_def)
  moreover have "timers_ok b'" using D(4) timers_ok_cong[OF fr] O by (simp add: b'_def)
  moreover have "counts_ok b'" using counts_taken_off[OF off _ inv] by (simp add: b'_def)
  moreover have "distinct (eventqueue b') \<and> set (eventqueue b') = {e. on_queue EVLIST_INSERTED b' e}"
    unfolding O using D(1,2) by (auto simp: b'_def)
  ultimately have "base_inv b'" by (simp add: base_inv_def)
  moreover have "event_queue_remove b ev EVLIST_INSERTED = Some b'"
    using on by (simp add: event_queue_remove_def upd_ev_def b'_def Let_def)
  ultimately show ?thesis using fr off by (auto simp: removed_ok_def b'_def)
qed

lemma queue_remove_ACTIVE:
  assumes inv: "base_inv b" and on: "on_queue EVLIST_ACTIVE b ev"
  shows "\<exists>b'. event_queue_remove b ev EVLIST_ACTIVE = Some b' \<and> removed_ok EVLIST_ACTIVE ev b b' \<and>
           timeheap b' = timeheap b \<and> ev_pri (ev_store b ev) < length (activequeues b) \<and>
           activequeues b' = (activequeues b)[ev_pri (ev_store b ev) := remove1 ev (activequeues b ! ev_pri (ev_store b ev))]"
proof -
  note D = base_invD[OF inv]
  let ?p = "ev_pri (ev_store b ev)"
  have pri: "?p < length (activequeues b)" using D(3) on by (auto simp: active_ok_def)
  define b' where "b' = b\<lparr>ev_store := (ev_store b)(ev := (ev_store b ev)\<lparr>ev_flags := ev_flags (ev_store b ev) AND NOT EVLIST_ACTIVE\<rparr>),
    event_count := event_count b - (if on_queue EVLIST_INTERNAL b ev then 0 else 1),
    event_count_active := event_count_active b - 1, activequeues := (activequeues b)[?p := remove1 ev (activequeues b ! ?p)]\<rparr>"
  have fr: "queue_frame b b'" by (simp add: queue_frame_def b'_def event_base.equality)
  have off: "taken_off EVLIST_ACTIVE ev b b'" using on by (intro upd_flags_taken_off) (simp_all add: b'_def)
  note O = taken_off_simps[OF off, simplified]
  have q: "activequeues b' ! i = (if i = ?p then remove1 ev (activequeues b ! i) else activequeues b ! i)" for i
    using pri by (auto simp: b'_def nth_list_update)
  have "active_ok b'"
    using D(3) unfolding active_ok_def O queue_frame_fields[OF fr] q by auto
  moreover have "timers_ok b'" using D(4) timers_ok_cong[OF fr] O by (simp add: b'_def)
  moreover have "counts_ok b'" using counts_taken_off[OF off _ inv] by (simp add: b'_def)
  moreover have "distinct (eventqueue b') \<and> set (eventqueue b') = {e. on_queue EVLIST_INSERTED b' e}"
    unfolding O using D(1,2) by (simp add: b'_def)
  ultimately have "base_inv b'" by (simp add: base_inv_def)
  moreover have "event_queue_remove b ev EVLIST_ACTIVE = Some b'"
    using on pri by (simp add: event_queue_remove_def upd_ev_def b'_def Let_def)
  ultimately show ?thesis using fr off pri by (auto simp: removed_ok_def b'_def)
qed

lemma queue_remove_TIMEOUT_heap:
  assumes inv: "base_inv b" and on: "on_queue EVLIST_TIMEOUT b ev" and nc: "\<not> common_of b ev"
  shows "\<exists>b'. event_queue_remove b ev EVLIST_TIMEOUT = Some b' \<and> removed_ok EVLIST_TIMEOUT ev b b' \<and>
           heap_a (timeheap b') = heap_a (timeheap b)"
proof -
  note D = base_invD[OF inv]
  note T = D(4)[unfolded timers_ok_def]
  define b2 where "b2 = b\<lparr>ev_store := (ev_store b)(ev := (ev_store b ev)\<lparr>ev_flags := ev_flags (ev_store b ev) AND NOT EVLIST_TIMEOUT\<rparr>),
    event_count := event_count b - (if on_queue EVLIST_INTERNAL b ev then 0 else 1)\<rparr>"
  have inv2: "min_heap_inv (ev_store b2) (timeheap b)"
    using T min_heap_inv_cong[of "ev_store b2" "ev_store b"] by (simp add: b2_def)
  have ev: "ev \<in> min_heap_elems (timeheap b)" using T on nc by auto
  obtain r evs' h' where er: "min_heap_erase (ev_store b2) (timeheap b) ev = (r, evs', h')" by (metis prod.exhaust)
  have P: "min_heap_inv evs' h'" "min_heap_elems h' = min_heap_elems (timeheap b) - {ev}" "same_but_idx (ev_store b2) evs'"
    using min_heap_erase_ok[OF inv2 ev er] by auto
  have cap: "heap_a h' = heap_a (timeheap b)" using min_heap_erase_cap[OF er] .
  define b' where "b' = b2\<lparr>ev_store := evs', timeheap := h'\<rparr>"
  have "\<exists>f. ev_store b2 x = (ev_store b x)\<lparr>ev_flags := f\<rparr>" for x
    by (rule exI[of _ "ev_flags (ev_store b2 x)"]) (simp add: b2_def)
  then have fr: "queue_frame b b'"
    using frame_heap[OF _ P(3), of "ev_store b"]
    by (simp add: queue_frame_def b'_def b2_def event_base.equality same_but_idx_fields[OF P(3)])
  have off: "taken_off EVLIST_TIMEOUT ev b b'"
    using on by (intro upd_flags_taken_off) (simp_all add: b'_def same_but_idx_fields[OF P(3)], simp add: b2_def)
  note O = taken_off_simps[OF off, simplified]
  have "active_ok b'" using D(3) active_ok_cong[OF fr] O by (simp add: b'_def b2_def)
  moreover have "counts_ok b'" using counts_taken_off[OF off _ inv] by (simp add: b'_def b2_def)
  moreover have "distinct (eventqueue b') \<and> set (eventqueue b') = {e. on_queue EVLIST_INSERTED b' e}"
    unfolding O using D(1,2) by (simp add: b'_def b2_def)
  moreover have "timers_ok b'"
    unfolding timers_ok_def O queue_frame_common[OF fr] queue_frame_fields[OF fr]
    using T P(1,2) nc by (auto simp: b'_def b2_def)
  ultimately have "base_inv b'" by (simp add: base_inv_def)
  moreover have "event_queue_remove b ev EVLIST_TIMEOUT = Some b'"
    using on er nc unfolding event_queue_remove_def upd_ev_def b'_def
    by (simp add: Let_def b2_def common_of_def split: if_splits)
  ultimately show ?thesis using fr off cap by (auto simp: removed_ok_def b'_def)
qed

lemma queue_remove_TIMEOUT_common:
  assumes inv: "base_inv b" and on: "on_queue EVLIST_TIMEOUT b ev" and c: "common_of b ev"
  shows "\<exists>b'. event_queue_remove b ev EVLIST_TIMEOUT = Some b' \<and> removed_ok EVLIST_TIMEOUT ev b b' \<and>
           timeheap b' = timeheap b"
proof -
  note D = base_invD[OF inv]
  note T = D(4)[unfolded timers_ok_def]
  let ?i = "idx_of b ev"
  let ?es = "ctl_events (common_timeout_queues b ! ?i)"
  have i: "?i < length (common_timeout_queues b)" using c by (simp add: common_of_def is_common_timeout_def idx_of_def)
  define b2 where "b2 = b\<lparr>ev_store := (ev_store b)(ev := (ev_store b ev)\<lparr>ev_flags := ev_flags (ev_store b ev) AND NOT EVLIST_TIMEOUT\<rparr>),
    event_count := event_count b - (if on_queue EVLIST_INTERNAL b ev then 0 else 1)\<rparr>"
  define b' where "b' = set_ctl_events b2 ?i (remove1 ev ?es)"
  have st: "ev_store b' = ev_store b2" by (simp add: b'_def set_ctl_events_def)
  have q: "common_timeout_queues b' ! j =
      (if j = ?i then (common_timeout_queues b ! j)\<lparr>ctl_events := remove1 ev ?es\<rparr> else common_timeout_queues b ! j)" for j
    using i by (auto simp: b'_def set_ctl_events_def b2_def nth_list_update)
  have rest: "length (common_timeout_queues b') = length (common_timeout_queues b)"
    "activequeues b' = activequeues b" "eventqueue b' = eventqueue b" "timeheap b' = timeheap b"
    "event_count b' = event_count b - (if on_queue EVLIST_INTERNAL b ev then 0 else 1)" "event_count_active b' = event_count_active b"
    "\<And>x. min_heap_idx (ev_store b' x) = min_heap_idx (ev_store b x)"
    by (simp_all add: b'_def set_ctl_events_def b2_def)
  have "map timeout_event (common_timeout_queues b') = map timeout_event (common_timeout_queues b)"
    "map duration (common_timeout_queues b') = map duration (common_timeout_queues b)"
    by (auto intro!: nth_equalityI simp: rest q)
  moreover have "ev_store b' x = (ev_store b x)\<lparr>ev_flags := ev_flags (ev_store b' x), min_heap_idx := min_heap_idx (ev_store b' x)\<rparr>"
    "ev_flags (ev_store b' x) AND NOT EVLIST_ALL = ev_flags (ev_store b x) AND NOT EVLIST_ALL" for x
    by (simp_all add: st b2_def)
  ultimately have fr: "queue_frame b b'"
    by (simp add: queue_frame_def) (simp add: b'_def set_ctl_events_def b2_def event_base.equality)
  have off: "taken_off EVLIST_TIMEOUT ev b b'"
    using on by (intro upd_flags_taken_off) (simp_all add: st, simp add: b2_def)
  note O = taken_off_simps[OF off, simplified]
  have "active_ok b'" using D(3) active_ok_cong[OF fr] O rest by simp
  moreover have "counts_ok b'" using counts_taken_off[OF off _ inv] rest by simp
  moreover have "distinct (eventqueue b') \<and> set (eventqueue b') = {e. on_queue EVLIST_INSERTED b' e}"
    unfolding O using D(1,2) rest by simp
  moreover have "timers_ok b'"
  proof -
    have "min_heap_inv (ev_store b') (timeheap b)"
      using T min_heap_inv_cong[of "ev_store b'" "ev_store b"] rest queue_frame_fields(1)[OF fr] by simp
    moreover have "distinct (ctl_events (common_timeout_queues b' ! j)) \<and> set (ctl_events (common_timeout_queues b' ! j)) =
        {e. (on_queue EVLIST_TIMEOUT b e \<and> e \<noteq> ev) \<and> common_of b e \<and> idx_of b e = j}"
      if "j < length (common_timeout_queues b)" for j
      using T that c unfolding q by auto
    ultimately show ?thesis
      unfolding timers_ok_def O queue_frame_common[OF fr] queue_frame_fields[OF fr] rest
      using T c by auto
  qed
  ultimately have "base_inv b'" by (simp add: base_inv_def)
  moreover have "event_queue_remove b ev EVLIST_TIMEOUT = Some b'"
    using on c unfolding event_queue_remove_def upd_ev_def b'_def
    by (simp add: Let_def b2_def common_of_def idx_of_def set_ctl_events_def split: if_splits)
  ultimately show ?thesis using fr off rest by (auto simp: removed_ok_def)
qed

text \<open>Removal from any queue the event is on.\<close>

lemma queue_remove_ok:
  assumes "base_inv b" "q \<in> {EVLIST_INSERTED, EVLIST_ACTIVE, EVLIST_TIMEOUT}" "on_queue q b ev"
  shows "\<exists>b'. event_queue_remove b ev q = Some b' \<and> removed_ok q ev b b' \<and> heap_a (timeheap b') = heap_a (timeheap b)"
proof -
  consider "q = EVLIST_INSERTED" | "q = EVLIST_ACTIVE" | "q = EVLIST_TIMEOUT" "common_of b ev"
    | "q = EVLIST_TIMEOUT" "\<not> common_of b ev" using assms(2) by blast
  then show ?thesis
  proof cases
    case 1
    then show ?thesis using queue_remove_INSERTED[OF assms(1), of ev] assms(3) by fastforce
  next
    case 2
    then show ?thesis using queue_remove_ACTIVE[OF assms(1), of ev] assms(3) by fastforce
  next
    case 3
    then show ?thesis using queue_remove_TIMEOUT_common[OF assms(1), of ev] assms(3) by fastforce
  next
    case 4
    then show ?thesis using queue_remove_TIMEOUT_heap[OF assms(1), of ev] assms(3) by fastforce
  qed
qed

end
