(* ===== verification/Evmap.thy ===== *)
theory Evmap
  imports Event_Invariant
begin

text \<open>
  The maps of \<^verbatim>\<open>evmap.c\<close> from file descriptors and signals to the events added for them.
  Both are arrays of pointers to entries (the variant without hash tables); an absent entry is
  \<open>None\<close>. Debug mode (\<open>_event_debug_mode_on\<close>) is off. The sizes passed to the allocator leave
  out the back end's private part of an entry.
\<close>

section \<open>Growing the array\<close>

text \<open>Doubling stops with \<open>None\<close> where the \<open>int\<close> would overflow.\<close>

function grow_entries :: "nat \<Rightarrow> nat \<Rightarrow> nat option" where
  "grow_entries n slot =
     (if n \<le> slot then (if n = 0 \<or> n * 2 \<ge> 2 ^ 31 then None else grow_entries (n * 2) slot) else Some n)"
  by pat_completeness auto
termination
  by (relation "measure (\<lambda>(n, slot). Suc slot - n)") auto

declare grow_entries.simps [simp del]

definition evmap_make_space :: "allocator \<Rightarrow> 'a option list \<Rightarrow> nat \<Rightarrow> (int \<times> 'a option list) option" where
  "evmap_make_space realloc entries slot =
     (if length entries \<le> slot
      then do {
        n \<leftarrow> grow_entries (if length entries \<noteq> 0 then length entries else 32) slot;
        (case realloc (n * 8) of
           None \<Rightarrow> Some (- 1, entries)
         | Some _ \<Rightarrow> Some (0, entries @ replicate (n - length entries) None))
      }
      else Some (0, entries))"

text \<open>
  The slot with its entry constructed when absent: \<open>GET_SIGNAL_SLOT_AND_CTOR\<close> after the
  bounds check of its callers. Result -1 when an allocation fails.
\<close>

definition get_slot_and_ctor ::
  "allocator \<Rightarrow> 'a option list \<Rightarrow> nat \<Rightarrow> 'a \<Rightarrow> (int \<times> 'a option list) option" where
  "get_slot_and_ctor malloc entries slot init = do {
     (r, entries1) \<leftarrow> evmap_make_space malloc entries slot;
     if r = - 1 then Some (- 1, entries1)
     else (case entries1 ! slot of
             Some _ \<Rightarrow> Some (0, entries1)
           | None \<Rightarrow> (case malloc 24 of
                        None \<Rightarrow> Some (- 1, entries1)
                      | Some _ \<Rightarrow> Some (0, entries1[slot := Some init])))
   }"

definition evmap_io_init :: evmap_io where
  "evmap_io_init = \<lparr>io_events = [], nread = 0, nwrite = 0\<rparr>"

section \<open>Descriptors\<close>

definition rw_flags :: "nat \<Rightarrow> nat \<Rightarrow> u16" where
  "rw_flags r w = (if r \<noteq> 0 then EV_READ else 0) OR (if w \<noteq> 0 then EV_WRITE else 0)"

definition call_backend :: "backend \<Rightarrow> event_base \<Rightarrow> backend_call \<Rightarrow> int \<times> event_base" where
  "call_backend evsel b c = (evsel (backend_calls b) c, b\<lparr>backend_calls := backend_calls b @ [c]\<rparr>)"

text \<open>The part of \<open>evmap_io_add\<close> that follows the lookup of the entry \<open>ctx\<close>.\<close>

definition io_add_entry :: "backend \<Rightarrow> event_base \<Rightarrow> nat \<Rightarrow> event_id \<Rightarrow> evmap_io \<Rightarrow> int \<times> event_base" where
  "io_add_entry evsel b fd ev ctx =
     (let evts = ev_events (ev_store b ev);
          old = rw_flags (nread ctx) (nwrite ctx);
          nr = (if has EV_READ evts then nread ctx + 1 else nread ctx);
          nw = (if has EV_WRITE evts then nwrite ctx + 1 else nwrite ctx);
          res = (if has EV_READ evts \<and> nr = 1 then EV_READ else 0) OR
                (if has EV_WRITE evts \<and> nw = 1 then EV_WRITE else 0)
      in
      if nr > 0xffff \<or> nw > 0xffff then (- 1, b)
      else (let (rc, b2) = (if res \<noteq> 0
                            then call_backend evsel b (Evsel_add (int fd) old ((evts AND EV_ET) OR res))
                            else (0, b))
            in
            if res \<noteq> 0 \<and> rc = - 1 then (- 1, b2)
            else (if res \<noteq> 0 then 1 else 0,
                  b2\<lparr>io_map := (io_map b2)[fd := Some (ctx\<lparr>nread := nr, nwrite := nw,
                                 io_events := io_events ctx @ [ev]\<rparr>)]\<rparr>)))"

definition evmap_io_add ::
  "backend \<Rightarrow> allocator \<Rightarrow> event_base \<Rightarrow> int \<Rightarrow> event_id \<Rightarrow> (int \<times> event_base) option" where
  "evmap_io_add evsel malloc b fd ev =
     (if fd \<noteq> ev_fd (ev_store b ev) then None
      else if fd < 0 then Some (0, b)
      else do {
        (r, entries) \<leftarrow> get_slot_and_ctor malloc (io_map b) (nat fd) evmap_io_init;
        let b1 = b\<lparr>io_map := entries\<rparr> in
        if r = - 1 then Some (- 1, b1)
        else map_option (io_add_entry evsel b1 (nat fd) ev) (entries ! nat fd)
      })"

text \<open>Likewise for \<open>evmap_io_del\<close>, with its two assertions.\<close>

definition io_del_entry :: "backend \<Rightarrow> event_base \<Rightarrow> nat \<Rightarrow> event_id \<Rightarrow> evmap_io \<Rightarrow> (int \<times> event_base) option" where
  "io_del_entry evsel b fd ev ctx =
     (let evts = ev_events (ev_store b ev);
          old = rw_flags (nread ctx) (nwrite ctx);
          rd = has EV_READ evts; wr = has EV_WRITE evts;
          res = (if rd \<and> nread ctx = 1 then EV_READ else 0) OR
                (if wr \<and> nwrite ctx = 1 then EV_WRITE else 0)
      in
      if rd \<and> nread ctx = 0 \<or> wr \<and> nwrite ctx = 0 then None
      else (let (rc, b1) = (if res \<noteq> 0 then call_backend evsel b (Evsel_del (int fd) old res) else (0, b))
            in
            if res \<noteq> 0 \<and> rc = - 1 then Some (- 1, b1)
            else Some (if res \<noteq> 0 then 1 else 0,
                       b1\<lparr>io_map := (io_map b1)[fd := Some (ctx\<lparr>
                            nread := (if rd then nread ctx - 1 else nread ctx),
                            nwrite := (if wr then nwrite ctx - 1 else nwrite ctx),
                            io_events := remove1 ev (io_events ctx)\<rparr>)]\<rparr>)))"

definition evmap_io_del :: "backend \<Rightarrow> event_base \<Rightarrow> int \<Rightarrow> event_id \<Rightarrow> (int \<times> event_base) option" where
  "evmap_io_del evsel b fd ev =
     (if fd < 0 then Some (0, b)
      else if fd \<noteq> ev_fd (ev_store b ev) then None
      else if nat fd \<ge> length (io_map b) then Some (- 1, b)
      else io_map b ! nat fd \<bind> io_del_entry evsel b (nat fd) ev)"

section \<open>Signals\<close>

definition evmap_signal_add ::
  "backend \<Rightarrow> allocator \<Rightarrow> event_base \<Rightarrow> int \<Rightarrow> event_id \<Rightarrow> (int \<times> event_base) option" where
  "evmap_signal_add evsel malloc b sig ev =
     (if sig < 0 then None
      else do {
        (r, entries) \<leftarrow> get_slot_and_ctor malloc (sigmap b) (nat sig) [];
        let b1 = b\<lparr>sigmap := entries\<rparr> in
        if r = - 1 then Some (- 1, b1)
        else (case entries ! nat sig of
          None \<Rightarrow> None
        | Some es \<Rightarrow>
            (let (rc, b2) = (if es = [] then call_backend evsel b1 (Evsig_add (ev_fd (ev_store b ev))) else (0, b1))
             in if es = [] \<and> rc = - 1 then Some (- 1, b2)
                else Some (1, b2\<lparr>sigmap := (sigmap b2)[nat sig := Some (es @ [ev])]\<rparr>)))
      })"

text \<open>First and last element are equal for a list of at most one event.\<close>

definition evmap_signal_del :: "backend \<Rightarrow> event_base \<Rightarrow> int \<Rightarrow> event_id \<Rightarrow> (int \<times> event_base) option" where
  "evmap_signal_del evsel b sig ev =
     (if sig < 0 then None
      else if nat sig \<ge> length (sigmap b) then Some (- 1, b)
      else (case sigmap b ! nat sig of
        None \<Rightarrow> None
      | Some es \<Rightarrow>
          (let single = length es \<le> 1;
               (rc, b1) = (if single then call_backend evsel b (Evsig_del (ev_fd (ev_store b ev))) else (0, b))
           in if single \<and> rc = - 1 then Some (- 1, b1)
              else Some (1, b1\<lparr>sigmap := (sigmap b1)[nat sig := Some (remove1 ev es)]\<rparr>))))"

section \<open>The maps and the added events\<close>

text \<open>
  \<open>maps_ok\<close>: the maps hold exactly the events of \<open>I\<close>, each under its descriptor or signal, and the
  counters of an entry are right. Events with a negative descriptor are in no map.
\<close>

definition io_entry_ok :: "event_store \<Rightarrow> event_id set \<Rightarrow> nat \<Rightarrow> evmap_io \<Rightarrow> bool" where
  "io_entry_ok S I k ctx \<longleftrightarrow>
     distinct (io_events ctx) \<and>
     (\<forall>e \<in> set (io_events ctx). e \<in> I \<and> has (EV_READ OR EV_WRITE) (ev_events (S e)) \<and> ev_fd (S e) = int k) \<and>
     nread ctx = length (filter (\<lambda>e. has EV_READ (ev_events (S e))) (io_events ctx)) \<and>
     nwrite ctx = length (filter (\<lambda>e. has EV_WRITE (ev_events (S e))) (io_events ctx))"

definition sig_entry_ok :: "event_store \<Rightarrow> event_id set \<Rightarrow> nat \<Rightarrow> event_id list \<Rightarrow> bool" where
  "sig_entry_ok S I k es \<longleftrightarrow>
     distinct es \<and> (\<forall>e \<in> set es. e \<in> I \<and> \<not> has (EV_READ OR EV_WRITE) (ev_events (S e)) \<and> ev_fd (S e) = int k)"

definition mapped :: "event_store \<Rightarrow> evmap_io option list \<Rightarrow> event_id list option list \<Rightarrow> event_id \<Rightarrow> bool" where
  "mapped S io sig e \<longleftrightarrow>
     (if has (EV_READ OR EV_WRITE) (ev_events (S e))
      then ev_fd (S e) < 0 \<or>
           nat (ev_fd (S e)) < length io \<and>
           (case io ! nat (ev_fd (S e)) of None \<Rightarrow> False | Some ctx \<Rightarrow> e \<in> set (io_events ctx))
      else 0 \<le> ev_fd (S e) \<and> nat (ev_fd (S e)) < length sig \<and>
           (case sig ! nat (ev_fd (S e)) of None \<Rightarrow> False | Some es \<Rightarrow> e \<in> set es))"

definition maps_ok ::
  "event_store \<Rightarrow> event_id set \<Rightarrow> evmap_io option list \<Rightarrow> event_id list option list \<Rightarrow> bool" where
  "maps_ok S I io sig \<longleftrightarrow>
     (\<forall>e \<in> I. mapped S io sig e) \<and>
     (\<forall>k ctx. k < length io \<and> io ! k = Some ctx \<longrightarrow> io_entry_ok S I k ctx) \<and>
     (\<forall>k es. k < length sig \<and> sig ! k = Some es \<longrightarrow> sig_entry_ok S I k es)"

lemma grow_entries_ok:
  assumes "0 < n" "slot < 2 ^ 30"
  shows "\<exists>n'. grow_entries n slot = Some n' \<and> slot < n' \<and> n \<le> n'"
  using assms
proof (induction n slot rule: grow_entries.induct)
  case (1 n slot)
  show ?case
  proof (cases "n \<le> slot")
    case True
    then have lt: "n * 2 < 2 ^ 31" using 1 by simp
    then have "grow_entries n slot = grow_entries (n * 2) slot"
      using 1 True by (subst grow_entries.simps) simp
    moreover have "\<exists>n'. grow_entries (n * 2) slot = Some n' \<and> slot < n' \<and> n * 2 \<le> n'"
      using 1 True lt by simp
    ultimately show ?thesis by auto
  next
    case False
    then show ?thesis by (subst grow_entries.simps) simp
  qed
qed

lemma make_space_ok:
  assumes "slot < 2 ^ 30"
  shows "\<exists>r ent'. evmap_make_space m ent slot = Some (r, ent') \<and>
           (r = - 1 \<and> ent' = ent \<and> (\<exists>k. m k = None) \<or> r = 0 \<and> slot < length ent' \<and> (\<exists>j. ent' = ent @ replicate j None))"
proof (cases "length ent \<le> slot")
  case True
  have "0 < (if length ent \<noteq> 0 then length ent else 32)" by simp
  from grow_entries_ok[OF this assms] obtain n where
    n: "grow_entries (if length ent \<noteq> 0 then length ent else 32) slot = Some n" "slot < n" "length ent \<le> n"
    by (auto split: if_splits)
  show ?thesis
  proof (cases "m (n * 8)")
    case None
    then show ?thesis using True n by (auto simp: evmap_make_space_def)
  next
    case (Some a)
    then show ?thesis using True n by (auto simp: evmap_make_space_def)
  qed
next
  case False
  then show ?thesis by (auto simp: evmap_make_space_def intro: exI[of _ 0])
qed

text \<open>The slot's entry, with a fresh one where there was none; other entries stay.\<close>

definition slot_entry :: "'a option list \<Rightarrow> nat \<Rightarrow> 'a \<Rightarrow> 'a" where
  "slot_entry ent slot init = (if slot < length ent \<and> ent ! slot \<noteq> None then the (ent ! slot) else init)"

lemma get_slot_ok:
  assumes "slot < 2 ^ 30"
  shows "\<exists>r j. get_slot_and_ctor m ent slot init = Some (r, if r = 0 then (ent @ replicate j None)[slot := Some (slot_entry ent slot init)]
             else ent @ replicate j None) \<and>
           (r = 0 \<and> slot < length ent + j \<or> r = - 1 \<and> (\<exists>k. m k = None))"
proof -
  from make_space_ok[OF assms, of m ent] obtain r ent' where ms: "evmap_make_space m ent slot = Some (r, ent')"
    "r = - 1 \<and> ent' = ent \<and> (\<exists>k. m k = None) \<or> r = 0 \<and> slot < length ent' \<and> (\<exists>j. ent' = ent @ replicate j None)"
    by (elim exE conjE) (rule that)
  show ?thesis
  proof (cases "r = - 1")
    case True
    then show ?thesis using ms by (auto simp: get_slot_and_ctor_def intro!: exI[of _ "- 1 :: int"] exI[of _ 0])
  next
    case False
    then obtain j where e: "ent' = ent @ replicate j None" "r = 0" "slot < length ent + j" using ms(2) by auto
    show ?thesis
    proof (cases "ent' ! slot")
      case (Some x)
      then have "slot < length ent" using e by (auto simp: nth_append split: if_splits)
      then have "slot_entry ent slot init = x" using Some e by (auto simp: slot_entry_def nth_append)
      moreover have "ent'[slot := Some x] = ent'" using Some by (metis list_update_id)
      ultimately have "get_slot_and_ctor m ent slot init =
          Some (0, (ent @ replicate j None)[slot := Some (slot_entry ent slot init)])"
        using ms(1) e Some by (simp add: get_slot_and_ctor_def)
      then show ?thesis using e(3) by (intro exI[of _ 0] exI[of _ j]) simp
    next
      case None
      then have "slot_entry ent slot init = init" using e by (auto simp: slot_entry_def nth_append)
      then show ?thesis
      proof (cases "m 24")
        case None': None
        then have "get_slot_and_ctor m ent slot init = Some (- 1, ent @ replicate j None)" "\<exists>k. m k = None"
          using ms(1) e None by (auto simp: get_slot_and_ctor_def)
        then show ?thesis by (intro exI[of _ "- 1 :: int"] exI[of _ j]) simp
      next
        case (Some a)
        then show ?thesis using ms(1) e None \<open>slot_entry ent slot init = init\<close>
          by (auto simp: get_slot_and_ctor_def intro!: exI[of _ 0] exI[of _ j])
      qed
    qed
  qed
qed

text \<open>Entries that are absent or newly made empty do not matter.\<close>

lemma io_entry_ok_init [simp]: "io_entry_ok S I k evmap_io_init"
  by (simp add: io_entry_ok_def evmap_io_init_def)

lemma sig_entry_ok_Nil [simp]: "sig_entry_ok S I k []"
  by (simp add: sig_entry_ok_def)

lemma io_entry_mono: "io_entry_ok S I k ctx \<Longrightarrow> I \<subseteq> J \<Longrightarrow> io_entry_ok S J k ctx"
  by (auto simp: io_entry_ok_def)

lemma sig_entry_mono: "sig_entry_ok S I k es \<Longrightarrow> I \<subseteq> J \<Longrightarrow> sig_entry_ok S J k es"
  by (auto simp: sig_entry_ok_def)

lemma maps_ok_io: "maps_ok S I io sig \<Longrightarrow> I \<subseteq> J \<Longrightarrow> k < length io \<Longrightarrow> io ! k = Some x \<Longrightarrow> io_entry_ok S J k x"
  unfolding maps_ok_def by (blast intro: io_entry_mono)

lemma maps_ok_sig: "maps_ok S I io sig \<Longrightarrow> I \<subseteq> J \<Longrightarrow> k < length sig \<Longrightarrow> sig ! k = Some x \<Longrightarrow> sig_entry_ok S J k x"
  unfolding maps_ok_def by (blast intro: sig_entry_mono)

lemma slot_entry_io:
  assumes "maps_ok S I io sig"
  shows "io_entry_ok S I k (slot_entry io k evmap_io_init)"
  using assms by (auto simp: slot_entry_def maps_ok_def)

lemma slot_entry_sig:
  assumes "maps_ok S I io sig"
  shows "sig_entry_ok S I k (slot_entry sig k [])"
  using assms by (auto simp: slot_entry_def maps_ok_def)

lemma slot_extend_nth:
  assumes "k < length (ent @ replicate j None)" "(ent @ replicate j None) ! k = Some x"
  shows "k < length ent \<and> ent ! k = Some x"
  using assms by (auto simp: nth_append split: if_splits)

lemma slot_set_nth:
  "k < length ent \<Longrightarrow> (ent @ replicate j None)[slot := v] ! k = (if k = slot then v else ent ! k)"
  by (simp add: nth_list_update nth_append)

text \<open>A map that only grew, possibly with a fresh entry, still fits.\<close>

lemma maps_ok_set_io:
  assumes ok: "maps_ok S I io sig" and ctx: "io_entry_ok S J slot ctx" and J: "I \<subseteq> J"
    and slot: "slot < length io + j"
    and keep: "set (io_events (slot_entry io slot evmap_io_init)) \<subseteq> set (io_events ctx)"
    and new: "\<forall>e \<in> J - I. mapped S ((io @ replicate j None)[slot := Some ctx]) sig e"
  shows "maps_ok S J ((io @ replicate j None)[slot := Some ctx]) sig"
  unfolding maps_ok_def
proof (intro conjI ballI allI impI)
  fix e assume e: "e \<in> J"
  show "mapped S ((io @ replicate j None)[slot := Some ctx]) sig e"
  proof (cases "e \<in> I")
    case True
    then have "mapped S io sig e" using ok by (simp add: maps_ok_def)
    then show ?thesis
      using keep unfolding mapped_def slot_entry_def by (auto simp: slot_set_nth nth_append split: if_splits option.splits)
  qed (use e new in blast)
next
  fix k x assume k: "k < length ((io @ replicate j None)[slot := Some ctx]) \<and> (io @ replicate j None)[slot := Some ctx] ! k = Some x"
  show "io_entry_ok S J k x"
  proof (cases "k = slot")
    case False
    then have "k < length io \<and> io ! k = Some x" using k slot_extend_nth[of k io j x] by simp
    then show ?thesis using maps_ok_io[OF ok J] by blast
  qed (use k slot ctx in simp)
next
  fix k es assume "k < length sig \<and> sig ! k = Some es"
  then show "sig_entry_ok S J k es" using maps_ok_sig[OF ok J] by blast
qed

lemma maps_ok_set_sig:
  assumes ok: "maps_ok S I io sig" and es: "sig_entry_ok S J slot es'" and J: "I \<subseteq> J"
    and slot: "slot < length sig + j"
    and keep: "set (slot_entry sig slot []) \<subseteq> set es'"
    and new: "\<forall>e \<in> J - I. mapped S io ((sig @ replicate j None)[slot := Some es']) e"
  shows "maps_ok S J io ((sig @ replicate j None)[slot := Some es'])"
  unfolding maps_ok_def
proof (intro conjI ballI allI impI)
  fix e assume e: "e \<in> J"
  show "mapped S io ((sig @ replicate j None)[slot := Some es']) e"
  proof (cases "e \<in> I")
    case True
    then have "mapped S io sig e" using ok by (simp add: maps_ok_def)
    then show ?thesis
      using keep unfolding mapped_def slot_entry_def by (auto simp: slot_set_nth nth_append split: if_splits option.splits)
  qed (use e new in blast)
next
  fix k x assume "k < length io \<and> io ! k = Some x"
  then have "io_entry_ok S I k x" using ok unfolding maps_ok_def by blast
  then show "io_entry_ok S J k x" using J by (rule io_entry_mono)
next
  fix k x assume k: "k < length ((sig @ replicate j None)[slot := Some es']) \<and> (sig @ replicate j None)[slot := Some es'] ! k = Some x"
  show "sig_entry_ok S J k x"
  proof (cases "k = slot")
    case False
    then have "k < length sig \<and> sig ! k = Some x" using k slot_extend_nth[of k sig j x] by simp
    then show ?thesis using maps_ok_sig[OF ok J] by blast
  qed (use k slot es in simp)
qed

lemma maps_ok_extend:
  assumes ok: "maps_ok S I io sig"
  shows "maps_ok S I (io @ replicate j None) sig" "maps_ok S I io (sig @ replicate j None)"
proof -
  have "mapped S io sig e \<Longrightarrow> mapped S (io @ replicate j None) sig e" "mapped S io sig e \<Longrightarrow> mapped S io (sig @ replicate j None) e" for e
    by (auto simp: mapped_def nth_append split: if_splits option.splits)
  then show "maps_ok S I (io @ replicate j None) sig" "maps_ok S I io (sig @ replicate j None)"
    using ok slot_extend_nth[of _ io j] slot_extend_nth[of _ sig j] unfolding maps_ok_def by blast+
qed

section \<open>Adding and deleting keeps the maps right\<close>

lemma call_backend_simps [simp]:
  "snd (call_backend evsel b c) = b\<lparr>backend_calls := backend_calls b @ [c]\<rparr>"
  "fst (call_backend evsel b c) = evsel (backend_calls b) c"
  by (simp_all add: call_backend_def)

text \<open>What the operations on the maps may change.\<close>

definition maps_frame :: "event_base \<Rightarrow> event_base \<Rightarrow> bool" where
  "maps_frame b b' \<longleftrightarrow> b' = b\<lparr>backend_calls := backend_calls b', io_map := io_map b', sigmap := sigmap b'\<rparr>"

lemma maps_ok_insert:
  assumes "maps_ok S I io sig" "mapped S io sig ev"
  shows "maps_ok S (insert ev I) io sig"
  using assms(2) maps_ok_io[OF assms(1) subset_insertI] maps_ok_sig[OF assms(1) subset_insertI] assms(1)
  unfolding maps_ok_def by blast

text \<open>The entry with the event added, and what the back end was told.\<close>

lemma io_add_entry_cases:
  obtains (fail) c where "io_add_entry evsel b fd ev ctx = (- 1, c)" "maps_frame b c" "io_map c = io_map b" "sigmap c = sigmap b"
  | (ok) r c ctx' where "io_add_entry evsel b fd ev ctx = (r, c)" "r = 0 \<or> r = 1" "maps_frame b c"
      "io_map c = (io_map b)[fd := Some ctx']" "sigmap c = sigmap b" "io_events ctx' = io_events ctx @ [ev]"
      "nread ctx' = nread ctx + (if has EV_READ (ev_events (ev_store b ev)) then 1 else 0)"
      "nwrite ctx' = nwrite ctx + (if has EV_WRITE (ev_events (ev_store b ev)) then 1 else 0)"
proof -
  define evts where "evts = ev_events (ev_store b ev)"
  define nr where "nr = (if has EV_READ evts then nread ctx + 1 else nread ctx)"
  define nw where "nw = (if has EV_WRITE evts then nwrite ctx + 1 else nwrite ctx)"
  define res where "res = (if has EV_READ evts \<and> nr = 1 then EV_READ else 0) OR (if has EV_WRITE evts \<and> nw = 1 then EV_WRITE else 0)"
  define b2 where "b2 = (if res \<noteq> 0 then b\<lparr>backend_calls := backend_calls b @
      [Evsel_add (int fd) (rw_flags (nread ctx) (nwrite ctx)) ((evts AND EV_ET) OR res)]\<rparr> else b)"
  define rc where "rc = (if res \<noteq> 0 then evsel (backend_calls b)
      (Evsel_add (int fd) (rw_flags (nread ctx) (nwrite ctx)) ((evts AND EV_ET) OR res)) else 0)"
  define ctx' where "ctx' = ctx\<lparr>nread := nr, nwrite := nw, io_events := io_events ctx @ [ev]\<rparr>"
  have step: "io_add_entry evsel b fd ev ctx =
     (if nr > 0xffff \<or> nw > 0xffff then (- 1, b) else if res \<noteq> 0 \<and> rc = - 1 then (- 1, b2)
      else (if res \<noteq> 0 then 1 else 0, b2\<lparr>io_map := (io_map b2)[fd := Some ctx']\<rparr>))"
    by (simp only: io_add_entry_def Let_def evts_def[symmetric] nr_def[symmetric] nw_def[symmetric] res_def[symmetric]
        ctx'_def[symmetric]) (simp add: b2_def rc_def call_backend_def)
  have b2: "maps_frame b b2" "io_map b2 = io_map b" "sigmap b2 = sigmap b" by (simp_all add: b2_def maps_frame_def)
  show ?thesis
  proof (cases "nr > 0xffff \<or> nw > 0xffff \<or> (res \<noteq> 0 \<and> rc = - 1)")
    case True
    then have "io_add_entry evsel b fd ev ctx = (- 1, if nr > 0xffff \<or> nw > 0xffff then b else b2)"
      unfolding step by (cases "nr > 0xffff \<or> nw > 0xffff") simp_all
    from fail[OF this] show ?thesis using b2 by (simp add: maps_frame_def)
  next
    case False
    have fr: "maps_frame b (b2\<lparr>io_map := (io_map b2)[fd := Some ctx']\<rparr>)" by (simp add: maps_frame_def b2_def)
    have c: "nread ctx' = nread ctx + (if has EV_READ (ev_events (ev_store b ev)) then 1 else 0)"
      "nwrite ctx' = nwrite ctx + (if has EV_WRITE (ev_events (ev_store b ev)) then 1 else 0)"
      "io_events ctx' = io_events ctx @ [ev]"
      by (simp_all add: ctx'_def nr_def nw_def evts_def)
    have "io_add_entry evsel b fd ev ctx = (if res \<noteq> 0 then 1 else 0, b2\<lparr>io_map := (io_map b2)[fd := Some ctx']\<rparr>)"
      using step False by simp
    from ok[OF this _ fr _ _ c(3,1,2)] show ?thesis using b2 by simp
  qed
qed

lemma evmap_io_add_ok:
  assumes maps: "maps_ok (ev_store b) I (io_map b) (sigmap b)" and ev: "ev \<notin> I"
    and rw: "has (EV_READ OR EV_WRITE) (ev_events (ev_store b ev))" and fd: "ev_fd (ev_store b ev) < 2 ^ 30"
  shows "\<exists>r b'. evmap_io_add evsel m b (ev_fd (ev_store b ev)) ev = Some (r, b') \<and> maps_frame b b' \<and>
     (r = - 1 \<and> maps_ok (ev_store b) I (io_map b') (sigmap b') \<or>
      (r = 0 \<or> r = 1) \<and> maps_ok (ev_store b) (insert ev I) (io_map b') (sigmap b'))"
proof (cases "ev_fd (ev_store b ev) < 0")
  case True
  then have "maps_ok (ev_store b) (insert ev I) (io_map b) (sigmap b)"
    using rw by (intro maps_ok_insert[OF maps]) (simp add: mapped_def)
  then show ?thesis using True by (simp add: evmap_io_add_def maps_frame_def)
next
  case False
  define S fd where "S = ev_store b" and "fd = nat (ev_fd (ev_store b ev))"
  have fd': "fd < 2 ^ 30" "ev_fd (S ev) = int fd" using False assms(4) by (auto simp: fd_def S_def nat_less_iff)
  define ctx where "ctx = slot_entry (io_map b) fd evmap_io_init"
  have ctx: "io_entry_ok S I fd ctx" using slot_entry_io[OF maps] by (simp add: ctx_def S_def)
  from get_slot_ok[OF fd'(1), of m "io_map b" evmap_io_init, folded ctx_def] obtain r j where
    slot: "get_slot_and_ctor m (io_map b) fd evmap_io_init =
        Some (r, if r = 0 then (io_map b @ replicate j None)[fd := Some ctx] else io_map b @ replicate j None)"
      "r = 0 \<and> fd < length (io_map b) + j \<or> r = - 1 \<and> (\<exists>k. m k = None)"
    by (elim exE conjE) (rule that)
  show ?thesis
  proof (cases "r = - 1")
    case True
    then show ?thesis
      using slot False maps_ok_extend(1)[OF maps] by (simp add: evmap_io_add_def maps_frame_def fd_def)
  next
    case r: False
    then have r0: "r = 0" "fd < length (io_map b) + j" using slot(2) by auto
    define b1 where "b1 = b\<lparr>io_map := (io_map b @ replicate j None)[fd := Some ctx]\<rparr>"
    have step: "evmap_io_add evsel m b (ev_fd (ev_store b ev)) ev = Some (io_add_entry evsel b1 fd ev ctx)"
      using False slot(1) r0 by (simp add: evmap_io_add_def fd_def[symmetric] b1_def)
    have fr: "maps_frame b c" if "maps_frame b1 c" for c
      using that by (auto simp: maps_frame_def b1_def)
    show ?thesis
    proof (cases rule: io_add_entry_cases[of evsel b1 fd ev ctx])
      case (fail c)
      have "maps_ok S I (io_map b1) (sigmap b1)"
        unfolding b1_def using ctx r0 maps maps_ok_set_io[of S I "io_map b" "sigmap b" I fd ctx j] by (simp add: ctx_def S_def)
      then show ?thesis using fail step fr by (simp add: S_def)
    next
      case (ok r' c ctx')
      note 2 = ok
      have ctx'_ok: "io_entry_ok S (insert ev I) fd ctx'"
        using ctx ev rw fd' 2(6-8) by (auto simp: io_entry_ok_def b1_def S_def)
      have io: "io_map c = (io_map b @ replicate j None)[fd := Some ctx']" using 2(4) by (simp add: b1_def)
      have "mapped S (io_map c) (sigmap b) ev"
        using rw fd' r0 2(6) by (simp add: mapped_def S_def io)
      then have "maps_ok S (insert ev I) (io_map c) (sigmap b)"
        unfolding io using ctx'_ok r0 maps 2(6)
        by (intro maps_ok_set_io[of S I]) (auto simp: S_def ctx_def)
      then show ?thesis using 2 step fr by (simp add: S_def b1_def)
    qed
  qed
qed

lemma evmap_signal_add_ok:
  assumes maps: "maps_ok (ev_store b) I (io_map b) (sigmap b)" and ev: "ev \<notin> I"
    and rw: "\<not> has (EV_READ OR EV_WRITE) (ev_events (ev_store b ev))"
    and fd: "0 \<le> ev_fd (ev_store b ev)" "ev_fd (ev_store b ev) < 2 ^ 30"
  shows "\<exists>r b'. evmap_signal_add evsel m b (ev_fd (ev_store b ev)) ev = Some (r, b') \<and> maps_frame b b' \<and>
     (r = - 1 \<and> maps_ok (ev_store b) I (io_map b') (sigmap b') \<or>
      r = 1 \<and> maps_ok (ev_store b) (insert ev I) (io_map b') (sigmap b'))"
proof -
  define S sig where "S = ev_store b" and "sig = nat (ev_fd (ev_store b ev))"
  have sig: "sig < 2 ^ 30" "ev_fd (S ev) = int sig" using fd by (auto simp: sig_def S_def nat_less_iff)
  define es where "es = slot_entry (sigmap b) sig []"
  have es: "sig_entry_ok S I sig es" using slot_entry_sig[OF maps] by (simp add: es_def S_def)
  from get_slot_ok[OF sig(1), of m "sigmap b" "[]", folded es_def] obtain r j where
    slot: "get_slot_and_ctor m (sigmap b) sig [] =
        Some (r, if r = 0 then (sigmap b @ replicate j None)[sig := Some es] else sigmap b @ replicate j None)"
      "r = 0 \<and> sig < length (sigmap b) + j \<or> r = - 1 \<and> (\<exists>k. m k = None)"
    by (elim exE conjE) (rule that)
  show ?thesis
  proof (cases "r = - 1")
    case True
    then show ?thesis
      using slot fd maps_ok_extend(2)[OF maps] by (simp add: evmap_signal_add_def maps_frame_def sig_def)
  next
    case False
    then have r0: "r = 0" "sig < length (sigmap b) + j" using slot(2) by auto
    define b1 where "b1 = b\<lparr>sigmap := (sigmap b @ replicate j None)[sig := Some es]\<rparr>"
    define b2 where "b2 = (if es = [] then b1\<lparr>backend_calls := backend_calls b1 @ [Evsig_add (int sig)]\<rparr> else b1)"
    define rc where "rc = (if es = [] then evsel (backend_calls b1) (Evsig_add (int sig)) else 0)"
    have fd_sig: "ev_fd (ev_store b ev) = int sig" using fd by (simp add: sig_def)
    have step: "evmap_signal_add evsel m b (ev_fd (ev_store b ev)) ev =
        (if es = [] \<and> rc = - 1 then Some (- 1, b2) else Some (1, b2\<lparr>sigmap := (sigmap b2)[sig := Some (es @ [ev])]\<rparr>))"
      using slot(1) r0 unfolding fd_sig evmap_signal_add_def
      by (simp add: b1_def b2_def rc_def call_backend_def fd_sig)
    have fr: "maps_frame b b2" "maps_frame b (b2\<lparr>sigmap := x\<rparr>)" "sigmap b2 = (sigmap b @ replicate j None)[sig := Some es]"
      "io_map b2 = io_map b" for x
      by (simp_all add: maps_frame_def b1_def b2_def)
    have keep: "maps_ok S I (io_map b) (sigmap b2)"
      unfolding fr using es r0 maps maps_ok_set_sig[of S I "io_map b" "sigmap b" I sig es j] by (simp add: es_def S_def)
    have "sig_entry_ok S (insert ev I) sig (es @ [ev])"
      using es ev rw sig by (auto simp: sig_entry_ok_def S_def)
    moreover have "mapped S (io_map b) ((sigmap b @ replicate j None)[sig := Some (es @ [ev])]) ev"
      using rw sig r0 by (simp add: mapped_def S_def)
    ultimately have add: "maps_ok S (insert ev I) (io_map b) ((sigmap b2)[sig := Some (es @ [ev])])"
      unfolding fr list_update_overwrite using r0 maps
      by (intro maps_ok_set_sig[of S I]) (auto simp: S_def es_def)
    show ?thesis
    proof (cases "es = [] \<and> rc = - 1")
      case True
      then show ?thesis unfolding step using keep fr by (simp add: S_def)
    next
      case False
      then have "evmap_signal_add evsel m b (ev_fd (ev_store b ev)) ev =
          Some (1, b2\<lparr>sigmap := (sigmap b2)[sig := Some (es @ [ev])]\<rparr>)" unfolding step by simp
      then show ?thesis using add fr by (simp add: S_def)
    qed
  qed
qed

text \<open>Taking an event out of the map entry it is in.\<close>

lemma maps_ok_del_io:
  assumes maps: "maps_ok S I io sig" and k: "k < length io" "io ! k = Some ctx" and ev: "ev \<in> set (io_events ctx)"
    and ctx': "io_events ctx' = remove1 ev (io_events ctx)"
      "nread ctx' = nread ctx - (if has EV_READ (ev_events (S ev)) then 1 else 0)"
      "nwrite ctx' = nwrite ctx - (if has EV_WRITE (ev_events (S ev)) then 1 else 0)"
  shows "maps_ok S (I - {ev}) (io[k := Some ctx']) sig"
    "has EV_READ (ev_events (S ev)) \<Longrightarrow> nread ctx \<noteq> 0" "has EV_WRITE (ev_events (S ev)) \<Longrightarrow> nwrite ctx \<noteq> 0"
proof -
  have C: "io_entry_ok S I k ctx" using maps_ok_io[OF maps subset_refl k] .
  have fd: "ev_fd (S ev) = int k" "has (EV_READ OR EV_WRITE) (ev_events (S ev))" using C ev by (auto simp: io_entry_ok_def)
  have len: "length (filter P (remove1 ev xs)) = length (filter P xs) - (if P ev then 1 else 0)"
    if "ev \<in> set xs" for P and xs :: "nat list"
    using that by (simp add: filter_remove1 length_remove1)
  have mem: "e \<in> set (io_events ctx') \<longleftrightarrow> e \<in> set (io_events ctx) \<and> e \<noteq> ev" for e
    using C ctx'(1) by (auto simp: io_entry_ok_def)
  have new: "io_entry_ok S (I - {ev}) k ctx'"
    unfolding io_entry_ok_def
  proof (intro conjI)
    show "distinct (io_events ctx')" using C ctx'(1) by (simp add: io_entry_ok_def)
    show "\<forall>e\<in>set (io_events ctx'). e \<in> I - {ev} \<and> has (EV_READ OR EV_WRITE) (ev_events (S e)) \<and> ev_fd (S e) = int k"
      using C mem by (simp add: io_entry_ok_def)
    show "nread ctx' = length (filter (\<lambda>e. has EV_READ (ev_events (S e))) (io_events ctx'))"
      using C unfolding ctx' len[OF ev] by (simp add: io_entry_ok_def)
    show "nwrite ctx' = length (filter (\<lambda>e. has EV_WRITE (ev_events (S e))) (io_events ctx'))"
      using C unfolding ctx' len[OF ev] by (simp add: io_entry_ok_def)
  qed
  show "maps_ok S (I - {ev}) (io[k := Some ctx']) sig"
    unfolding maps_ok_def
  proof (intro conjI ballI allI impI)
    fix e assume e: "e \<in> I - {ev}"
    then have "mapped S io sig e" using maps by (simp add: maps_ok_def)
    then show "mapped S (io[k := Some ctx']) sig e"
      using e k mem unfolding mapped_def by (cases "nat (ev_fd (S e)) = k") (simp_all split: if_splits)
  next
    fix j x assume j: "j < length (io[k := Some ctx']) \<and> io[k := Some ctx'] ! j = Some x"
    show "io_entry_ok S (I - {ev}) j x"
    proof (cases "j = k")
      case False
      then have *: "io_entry_ok S I j x" using j maps_ok_io[OF maps subset_refl, of j x] by simp
      moreover have "ev \<notin> set (io_events x)" using * False fd by (auto simp: io_entry_ok_def)
      ultimately show ?thesis by (auto simp: io_entry_ok_def)
    qed (use j k new in simp)
  next
    fix j x assume j: "j < length sig \<and> sig ! j = Some x"
    then have *: "sig_entry_ok S I j x" using maps_ok_sig[OF maps subset_refl] by blast
    moreover have "ev \<notin> set x" using * fd by (auto simp: sig_entry_ok_def)
    ultimately show "sig_entry_ok S (I - {ev}) j x" by (auto simp: sig_entry_ok_def)
  qed
  show "has EV_READ (ev_events (S ev)) \<Longrightarrow> nread ctx \<noteq> 0" "has EV_WRITE (ev_events (S ev)) \<Longrightarrow> nwrite ctx \<noteq> 0"
    using C ev by (auto simp: io_entry_ok_def filter_empty_conv)
qed

lemma maps_ok_del_sig:
  assumes maps: "maps_ok S I io sig" and k: "k < length sig" "sig ! k = Some es" and ev: "ev \<in> set es"
  shows "maps_ok S (I - {ev}) io (sig[k := Some (remove1 ev es)])"
proof -
  have C: "sig_entry_ok S I k es" using maps_ok_sig[OF maps subset_refl k] .
  have fd: "ev_fd (S ev) = int k" "\<not> has (EV_READ OR EV_WRITE) (ev_events (S ev))" using C ev by (auto simp: sig_entry_ok_def)
  have mem: "e \<in> set (remove1 ev es) \<longleftrightarrow> e \<in> set es \<and> e \<noteq> ev" for e using C by (auto simp: sig_entry_ok_def)
  show ?thesis
    unfolding maps_ok_def
  proof (intro conjI ballI allI impI)
    fix e assume e: "e \<in> I - {ev}"
    then have "mapped S io sig e" using maps by (simp add: maps_ok_def)
    then show "mapped S io (sig[k := Some (remove1 ev es)]) e"
      using e k mem unfolding mapped_def by (cases "nat (ev_fd (S e)) = k") (simp_all split: if_splits)
  next
    fix j x assume j: "j < length io \<and> io ! j = Some x"
    then have *: "io_entry_ok S I j x" using maps_ok_io[OF maps subset_refl] by blast
    moreover have "ev \<notin> set (io_events x)" using * fd by (auto simp: io_entry_ok_def)
    ultimately show "io_entry_ok S (I - {ev}) j x" by (auto simp: io_entry_ok_def)
  next
    fix j x assume j: "j < length (sig[k := Some (remove1 ev es)]) \<and> sig[k := Some (remove1 ev es)] ! j = Some x"
    show "sig_entry_ok S (I - {ev}) j x"
    proof (cases "j = k")
      case False
      then have *: "sig_entry_ok S I j x" using j maps_ok_sig[OF maps subset_refl, of j x] by simp
      moreover have "ev \<notin> set x" using * False fd by (auto simp: sig_entry_ok_def)
      ultimately show ?thesis by (auto simp: sig_entry_ok_def)
    next
      case True
      then have "x = remove1 ev es" using j k by simp
      then show ?thesis using C True mem by (simp add: sig_entry_ok_def)
    qed
  qed
qed

lemma maps_ok_del_negative:
  assumes maps: "maps_ok S I io sig" and fd: "ev_fd (S ev) < 0"
  shows "maps_ok S (I - {ev}) io sig"
proof -
  have "io_entry_ok S I k x \<Longrightarrow> io_entry_ok S (I - {ev}) k x" for k x using fd by (auto simp: io_entry_ok_def)
  moreover have "sig_entry_ok S I k y \<Longrightarrow> sig_entry_ok S (I - {ev}) k y" for k y using fd by (auto simp: sig_entry_ok_def)
  ultimately show ?thesis using maps unfolding maps_ok_def by blast
qed

lemma io_del_entry_cases:
  assumes "has EV_READ (ev_events (ev_store b ev)) \<Longrightarrow> nread ctx \<noteq> 0"
    and "has EV_WRITE (ev_events (ev_store b ev)) \<Longrightarrow> nwrite ctx \<noteq> 0"
  obtains (fail) c where "io_del_entry evsel b fd ev ctx = Some (- 1, c)" "maps_frame b c" "io_map c = io_map b" "sigmap c = sigmap b"
  | (ok) r c ctx' where "io_del_entry evsel b fd ev ctx = Some (r, c)" "r = 0 \<or> r = 1" "maps_frame b c"
      "io_map c = (io_map b)[fd := Some ctx']" "sigmap c = sigmap b" "io_events ctx' = remove1 ev (io_events ctx)"
      "nread ctx' = nread ctx - (if has EV_READ (ev_events (ev_store b ev)) then 1 else 0)"
      "nwrite ctx' = nwrite ctx - (if has EV_WRITE (ev_events (ev_store b ev)) then 1 else 0)"
proof -
  define rd where "rd = has EV_READ (ev_events (ev_store b ev))"
  define wr where "wr = has EV_WRITE (ev_events (ev_store b ev))"
  define res where "res = (if rd \<and> nread ctx = 1 then EV_READ else 0) OR (if wr \<and> nwrite ctx = 1 then EV_WRITE else 0)"
  define call where "call = Evsel_del (int fd) (rw_flags (nread ctx) (nwrite ctx)) res"
  define b1 where "b1 = (if res \<noteq> 0 then b\<lparr>backend_calls := backend_calls b @ [call]\<rparr> else b)"
  define rc where "rc = (if res \<noteq> 0 then evsel (backend_calls b) call else 0)"
  define ctx' where "ctx' = ctx\<lparr>nread := (if rd then nread ctx - 1 else nread ctx),
      nwrite := (if wr then nwrite ctx - 1 else nwrite ctx), io_events := remove1 ev (io_events ctx)\<rparr>"
  have pre: "\<not> (rd \<and> nread ctx = 0 \<or> wr \<and> nwrite ctx = 0)" using assms by (auto simp: rd_def wr_def)
  have step: "io_del_entry evsel b fd ev ctx =
     (if res \<noteq> 0 \<and> rc = - 1 then Some (- 1, b1)
      else Some (if res \<noteq> 0 then 1 else 0, b1\<lparr>io_map := (io_map b1)[fd := Some ctx']\<rparr>))"
    using pre
    by (simp only: io_del_entry_def Let_def rd_def[symmetric] wr_def[symmetric] res_def[symmetric]
        ctx'_def[symmetric] call_def[symmetric] if_False) (simp add: b1_def rc_def call_backend_def)
  have b1: "maps_frame b b1" "io_map b1 = io_map b" "sigmap b1 = sigmap b" by (simp_all add: b1_def maps_frame_def)
  show ?thesis
  proof (cases "res \<noteq> 0 \<and> rc = - 1")
    case True
    then have "io_del_entry evsel b fd ev ctx = Some (- 1, b1)" unfolding step by simp
    from fail[OF this b1] show ?thesis .
  next
    case False
    have fr: "maps_frame b (b1\<lparr>io_map := (io_map b1)[fd := Some ctx']\<rparr>)" by (simp add: maps_frame_def b1_def)
    have c: "nread ctx' = nread ctx - (if has EV_READ (ev_events (ev_store b ev)) then 1 else 0)"
      "nwrite ctx' = nwrite ctx - (if has EV_WRITE (ev_events (ev_store b ev)) then 1 else 0)"
      "io_events ctx' = remove1 ev (io_events ctx)"
      by (simp_all add: ctx'_def rd_def wr_def)
    have "io_del_entry evsel b fd ev ctx = Some (if res \<noteq> 0 then 1 else 0, b1\<lparr>io_map := (io_map b1)[fd := Some ctx']\<rparr>)"
      using step False by simp
    from ok[OF this _ fr _ _ c(3,1,2)] show ?thesis using b1 by simp
  qed
qed

lemma evmap_io_del_ok:
  assumes maps: "maps_ok (ev_store b) I (io_map b) (sigmap b)" and ev: "ev \<in> I"
    and rw: "has (EV_READ OR EV_WRITE) (ev_events (ev_store b ev))"
  shows "\<exists>r b'. evmap_io_del evsel b (ev_fd (ev_store b ev)) ev = Some (r, b') \<and> maps_frame b b' \<and>
     (r = - 1 \<and> io_map b' = io_map b \<and> sigmap b' = sigmap b \<or>
      (r = 0 \<or> r = 1) \<and> maps_ok (ev_store b) (I - {ev}) (io_map b') (sigmap b'))"
proof (cases "ev_fd (ev_store b ev) < 0")
  case True
  then show ?thesis using maps_ok_del_negative[of "ev_store b", OF maps] by (simp add: evmap_io_del_def maps_frame_def)
next
  case False
  define k where "k = nat (ev_fd (ev_store b ev))"
  have "mapped (ev_store b) (io_map b) (sigmap b) ev" using maps ev by (simp add: maps_ok_def)
  then obtain ctx where k: "k < length (io_map b)" "io_map b ! k = Some ctx" "ev \<in> set (io_events ctx)"
    using False rw by (auto simp: mapped_def k_def split: option.splits)
  have step: "evmap_io_del evsel b (ev_fd (ev_store b ev)) ev = io_del_entry evsel b k ev ctx"
    using False k by (simp add: evmap_io_del_def k_def)
  note del = maps_ok_del_io[OF maps k]
  define ctx0 where "ctx0 = \<lparr>io_events = remove1 ev (io_events ctx),
      nread = nread ctx - (if has EV_READ (ev_events (ev_store b ev)) then 1 else 0),
      nwrite = nwrite ctx - (if has EV_WRITE (ev_events (ev_store b ev)) then 1 else 0)\<rparr>"
  have pos: "has EV_READ (ev_events (ev_store b ev)) \<Longrightarrow> nread ctx \<noteq> 0"
    "has EV_WRITE (ev_events (ev_store b ev)) \<Longrightarrow> nwrite ctx \<noteq> 0"
    using del(2,3)[of ctx0] by (simp_all add: ctx0_def)
  show ?thesis
  proof (rule io_del_entry_cases[OF pos])
    fix c assume "io_del_entry evsel b k ev ctx = Some (- 1, c)" "maps_frame b c" "io_map c = io_map b" "sigmap c = sigmap b"
    then show ?thesis unfolding step by simp
  next
    fix r c ctx' assume "io_del_entry evsel b k ev ctx = Some (r, c)" "r = 0 \<or> r = 1" "maps_frame b c"
      "io_map c = (io_map b)[k := Some ctx']" "sigmap c = sigmap b" "io_events ctx' = remove1 ev (io_events ctx)"
      "nread ctx' = nread ctx - (if has EV_READ (ev_events (ev_store b ev)) then 1 else 0)"
      "nwrite ctx' = nwrite ctx - (if has EV_WRITE (ev_events (ev_store b ev)) then 1 else 0)"
    then show ?thesis unfolding step using del(1)[of ctx'] by simp
  qed
qed

lemma evmap_signal_del_ok:
  assumes maps: "maps_ok (ev_store b) I (io_map b) (sigmap b)" and ev: "ev \<in> I"
    and rw: "\<not> has (EV_READ OR EV_WRITE) (ev_events (ev_store b ev))"
  shows "\<exists>r b'. evmap_signal_del evsel b (ev_fd (ev_store b ev)) ev = Some (r, b') \<and> maps_frame b b' \<and>
     (r = - 1 \<and> io_map b' = io_map b \<and> sigmap b' = sigmap b \<or>
      r = 1 \<and> maps_ok (ev_store b) (I - {ev}) (io_map b') (sigmap b'))"
proof -
  define k where "k = nat (ev_fd (ev_store b ev))"
  have "mapped (ev_store b) (io_map b) (sigmap b) ev" using maps ev by (simp add: maps_ok_def)
  then obtain es where k: "0 \<le> ev_fd (ev_store b ev)" "k < length (sigmap b)" "sigmap b ! k = Some es" "ev \<in> set es"
    using rw by (auto simp: mapped_def k_def split: option.splits)
  define b1 where "b1 = (if length es \<le> 1 then b\<lparr>backend_calls := backend_calls b @ [Evsig_del (ev_fd (ev_store b ev))]\<rparr> else b)"
  define rc where "rc = (if length es \<le> 1 then evsel (backend_calls b) (Evsig_del (ev_fd (ev_store b ev))) else 0)"
  have step: "evmap_signal_del evsel b (ev_fd (ev_store b ev)) ev =
      (if length es \<le> 1 \<and> rc = - 1 then Some (- 1, b1)
       else Some (1, b1\<lparr>sigmap := (sigmap b1)[k := Some (remove1 ev es)]\<rparr>))"
    using k by (simp add: evmap_signal_del_def k_def[symmetric] b1_def rc_def call_backend_def Let_def)
  have b1: "maps_frame b b1" "maps_frame b (b1\<lparr>sigmap := x\<rparr>)" "io_map b1 = io_map b" "sigmap b1 = sigmap b" for x
    by (simp_all add: b1_def maps_frame_def)
  show ?thesis
  proof (cases "length es \<le> 1 \<and> rc = - 1")
    case True
    then show ?thesis unfolding step using b1 by simp
  next
    case False
    then have "evmap_signal_del evsel b (ev_fd (ev_store b ev)) ev = Some (1, b1\<lparr>sigmap := (sigmap b1)[k := Some (remove1 ev es)]\<rparr>)"
      unfolding step by simp
    then show ?thesis using b1 maps_ok_del_sig[OF maps k(2-4)] by simp
  qed
qed

end
