(* ===== verification/Event_Core.thy ===== *)
theory Event_Core
  imports Evmap
begin

text \<open>
  The operations of \<^verbatim>\<open>event.c\<close> on events: setting up, adding, deleting and activating events,
  the timeouts, common timeouts, and the processing of active events and deferred callbacks.

  Reading the clock gives the argument \<open>clk\<close>. User callbacks are an argument \<open>cb\<close>: what the
  callback of an event does to the base; they may use every operation of the library. Waiting
  for another thread that runs the callback of the same event is not modelled.
\<close>

section \<open>Setting up events\<close>

definition event_assign :: "event_base \<Rightarrow> event_id \<Rightarrow> int \<Rightarrow> u16 \<Rightarrow> int \<times> event_base" where
  "event_assign b ev fd events =
     (let b1 = upd_ev b ev (\<lambda>x. x\<lparr>ev_fd := fd, ev_events := events, ev_res := 0, ev_flags := EVLIST_INIT,
                                 ev_ncalls := 0, ev_pncalls := False\<rparr>);
          finish = (\<lambda>b2. b2\<lparr>ev_store := (min_heap_elem_init (ev_store b2) ev)
               (ev := (min_heap_elem_init (ev_store b2) ev ev)\<lparr>ev_pri := length (activequeues b2) div 2\<rparr>)\<rparr>)
      in
      if has EV_SIGNAL events
      then (if has (EV_READ OR EV_WRITE) events then (- 1, b1)
            else (0, finish (upd_ev b1 ev (\<lambda>x. x\<lparr>ev_closure := EV_CLOSURE_SIGNAL\<rparr>))))
      else if has EV_PERSIST events
      then (0, finish (upd_ev b1 ev (\<lambda>x. x\<lparr>ev_io_timeout := evutil_timerclear, ev_closure := EV_CLOSURE_PERSIST\<rparr>)))
      else (0, finish (upd_ev b1 ev (\<lambda>x. x\<lparr>ev_closure := EV_CLOSURE_NONE\<rparr>))))"

definition event_priority_set :: "event_base \<Rightarrow> event_id \<Rightarrow> int \<Rightarrow> int \<times> event_base" where
  "event_priority_set b ev pri =
     (if on_queue EVLIST_ACTIVE b ev then (- 1, b)
      else if pri < 0 \<or> pri \<ge> int (length (activequeues b)) then (- 1, b)
      else (0, upd_ev b ev (\<lambda>x. x\<lparr>ev_pri := nat pri\<rparr>)))"

text \<open>The flags reported, and the timeout when it is asked for and pending.\<close>

definition event_pending :: "event_base \<Rightarrow> event_id \<Rightarrow> u16 \<Rightarrow> u16 \<times> timeval option" where
  "event_pending b ev what =
     (let e = ev_store b ev;
          flags = (if on_queue EVLIST_INSERTED b ev then ev_events e AND (EV_READ OR EV_WRITE OR EV_SIGNAL) else 0) OR
                  (if on_queue EVLIST_ACTIVE b ev then ev_res e else 0) OR
                  (if on_queue EVLIST_TIMEOUT b ev then EV_TIMEOUT else 0);
          what' = what AND (EV_TIMEOUT OR EV_READ OR EV_WRITE OR EV_SIGNAL)
      in (flags AND what',
          if flags AND what' AND EV_TIMEOUT \<noteq> 0 then Some (mask_usec (ev_timeout e)) else None))"

definition EVENT_MAX_PRIORITIES :: int where "EVENT_MAX_PRIORITIES = 256"

definition event_base_priority_init :: "allocator \<Rightarrow> event_base \<Rightarrow> int \<Rightarrow> int \<times> event_base" where
  "event_base_priority_init calloc b npriorities =
     (if N_ACTIVE_CALLBACKS b \<noteq> 0 \<or> npriorities < 1 \<or> npriorities \<ge> EVENT_MAX_PRIORITIES then (- 1, b)
      else if npriorities = int (length (activequeues b)) then (0, b)
      else (case calloc (nat npriorities * 16) of
              None \<Rightarrow> (- 1, b\<lparr>activequeues := []\<rparr>)
            | Some _ \<Rightarrow> (0, b\<lparr>activequeues := replicate (nat npriorities) []\<rparr>)))"

section \<open>Adding\<close>

definition maybe_abort_signal :: "event_base \<Rightarrow> event_id \<Rightarrow> event_base" where
  "maybe_abort_signal b ev =
     (let e = ev_store b ev in
      if has EV_SIGNAL (ev_events e) \<and> ev_ncalls e \<noteq> 0 \<and> ev_pncalls e then b\<lparr>sig_aborted := True\<rparr> else b)"

text \<open>The part of \<open>event_add_internal\<close> that registers the event with the maps: result and notify flag.\<close>

definition add_to_maps ::
  "backend \<Rightarrow> allocator \<Rightarrow> event_base \<Rightarrow> event_id \<Rightarrow> (int \<times> bool \<times> event_base) option" where
  "add_to_maps evsel malloc b ev =
     (let e = ev_store b ev in
      if has (EV_READ OR EV_WRITE OR EV_SIGNAL) (ev_events e) \<and> \<not> has (EVLIST_INSERTED OR EVLIST_ACTIVE) (ev_flags e)
      then do {
        (res, b1) \<leftarrow> (if has (EV_READ OR EV_WRITE) (ev_events e) then evmap_io_add evsel malloc b (ev_fd e) ev
                      else evmap_signal_add evsel malloc b (ev_fd e) ev);
        b2 \<leftarrow> (if res \<noteq> - 1 then event_queue_insert malloc b1 ev EVLIST_INSERTED else Some b1);
        Some (if res = 1 then 0 else res, res = 1, b2)
      }
      else Some (0, False, b))"

definition add_deadline :: "event_base \<Rightarrow> timeval \<Rightarrow> timeval \<Rightarrow> bool \<Rightarrow> timeval" where
  "add_deadline b now tv tv_is_absolute =
     (if tv_is_absolute then tv
      else if is_common_timeout tv b
      then (let t = evutil_timeradd now (mask_usec tv)
            in Timeval (tv_sec t) (tv_usec t OR (tv_usec tv AND NOT MICROSECONDS_MASK)))
      else evutil_timeradd now tv)"

text \<open>
  The part that (re)schedules the timeout, up to the insertion into the timeout queue. The result
  tells whether the event was the top of the heap before.
\<close>

definition add_timeout ::
  "allocator \<Rightarrow> timeval \<Rightarrow> event_base \<Rightarrow> event_id \<Rightarrow> timeval \<Rightarrow> bool \<Rightarrow> (bool \<times> event_base) option" where
  "add_timeout malloc clk b ev tv tv_is_absolute = do {
     let b1 = (if ev_closure (ev_store b ev) = EV_CLOSURE_PERSIST \<and> \<not> tv_is_absolute
               then upd_ev b ev (\<lambda>x. x\<lparr>ev_io_timeout := tv\<rparr>) else b) in do {
     (was_top, b2) \<leftarrow> (if on_queue EVLIST_TIMEOUT b1 ev
                       then map_option (Pair (min_heap_elt_is_top (ev_store b1) ev))
                              (event_queue_remove b1 ev EVLIST_TIMEOUT)
                       else Some (False, b1));
     b3 \<leftarrow> (if on_queue EVLIST_ACTIVE b2 ev \<and> has EV_TIMEOUT (ev_res (ev_store b2 ev))
            then event_queue_remove (maybe_abort_signal b2 ev) ev EVLIST_ACTIVE
            else Some b2);
     b4 \<leftarrow> event_queue_insert malloc
            (upd_ev b3 ev (\<lambda>x. x\<lparr>ev_timeout := add_deadline b3 (gettime b3 clk) tv tv_is_absolute\<rparr>))
            ev EVLIST_TIMEOUT;
     Some (was_top, b4)
   }}"

text \<open>
  \<open>event_add_internal\<close> with the function that schedules the timer of a common timeout as an
  argument: the code calls itself there, on a timeout that is not common.
\<close>

definition add_step ::
  "(event_base \<Rightarrow> common_timeout_list \<Rightarrow> event_id \<Rightarrow> event_base option) \<Rightarrow> backend \<Rightarrow> allocator \<Rightarrow> timeval \<Rightarrow>
   event_base \<Rightarrow> event_id \<Rightarrow> timeval option \<Rightarrow> bool \<Rightarrow> (int \<times> event_base) option" where
  "add_step schedule evsel malloc clk b ev tv tv_is_absolute =
     (if ev_flags (ev_store b ev) AND NOT EVLIST_ALL \<noteq> 0 then None
      else (case (if tv \<noteq> None \<and> \<not> on_queue EVLIST_TIMEOUT b ev
                  then min_heap_reserve malloc (timeheap b) (1 + min_heap_size (timeheap b))
                  else Some (timeheap b)) of
        None \<Rightarrow> Some (- 1, b)
      | Some h \<Rightarrow> do {
          (res, notify, b2) \<leftarrow> add_to_maps evsel malloc (b\<lparr>timeheap := h\<rparr>) ev;
          (case tv of
             None \<Rightarrow> Some (res, notify_if (res \<noteq> - 1 \<and> notify) b2)
           | Some t \<Rightarrow>
               if res = - 1 then Some (- 1, b2)
               else do {
                 (was_top, b3) \<leftarrow> add_timeout malloc clk b2 ev t tv_is_absolute;
                 if is_common_timeout t b2
                 then (let ctl = get_common_timeout_list b3 (ev_timeout (ev_store b3 ev)) in do {
                         b4 \<leftarrow> (case ctl_events ctl of
                                  [] \<Rightarrow> Some b3
                                | e # _ \<Rightarrow> if e = ev then schedule b3 ctl ev else Some b3);
                         Some (res, notify_if (notify \<or> was_top) b4)
                       })
                 else Some (res, notify_if (notify \<or> was_top \<or> min_heap_elt_is_top (ev_store b3) ev) b3)
               })
        }))"

definition common_timeout_schedule ::
  "backend \<Rightarrow> allocator \<Rightarrow> timeval \<Rightarrow> event_base \<Rightarrow> common_timeout_list \<Rightarrow> event_id \<Rightarrow> event_base option" where
  "common_timeout_schedule evsel malloc clk b ctl head =
     map_option snd (add_step (\<lambda>_ _ _. None) evsel malloc clk b (timeout_event ctl)
       (Some (mask_usec (ev_timeout (ev_store b head)))) True)"

definition event_add_internal ::
  "backend \<Rightarrow> allocator \<Rightarrow> timeval \<Rightarrow> event_base \<Rightarrow> event_id \<Rightarrow> timeval option \<Rightarrow> bool \<Rightarrow> (int \<times> event_base) option" where
  "event_add_internal evsel malloc clk = add_step (common_timeout_schedule evsel malloc clk) evsel malloc clk"

definition event_add ::
  "backend \<Rightarrow> allocator \<Rightarrow> timeval \<Rightarrow> event_base \<Rightarrow> event_id \<Rightarrow> timeval option \<Rightarrow> (int \<times> event_base) option" where
  "event_add evsel malloc clk b ev tv = event_add_internal evsel malloc clk b ev tv False"

section \<open>Deleting and activating\<close>

definition event_del_internal :: "backend \<Rightarrow> event_base \<Rightarrow> event_id \<Rightarrow> (int \<times> event_base) option" where
  "event_del_internal evsel b ev =
     (if ev_flags (ev_store b ev) AND NOT EVLIST_ALL \<noteq> 0 then None
      else do {
        b1 \<leftarrow> (let b0 = maybe_abort_signal b ev in
               if on_queue EVLIST_TIMEOUT b0 ev then event_queue_remove b0 ev EVLIST_TIMEOUT else Some b0);
        b2 \<leftarrow> (if on_queue EVLIST_ACTIVE b1 ev then event_queue_remove b1 ev EVLIST_ACTIVE else Some b1);
        if on_queue EVLIST_INSERTED b2 ev
        then do {
          b3 \<leftarrow> event_queue_remove b2 ev EVLIST_INSERTED;
          (res, b4) \<leftarrow> (if has (EV_READ OR EV_WRITE) (ev_events (ev_store b3 ev))
                        then evmap_io_del evsel b3 (ev_fd (ev_store b3 ev)) ev
                        else evmap_signal_del evsel b3 (ev_fd (ev_store b3 ev)) ev);
          Some (if res = 1 then 0 else res, notify_if (res = 1) b4)
        }
        else Some (0, b2)
      })"

definition event_del :: "backend \<Rightarrow> event_base \<Rightarrow> event_id \<Rightarrow> (int \<times> event_base) option" where
  "event_del evsel b ev = event_del_internal evsel b ev"

definition event_active_nolock :: "allocator \<Rightarrow> event_base \<Rightarrow> event_id \<Rightarrow> u16 \<Rightarrow> nat \<Rightarrow> event_base option" where
  "event_active_nolock malloc b ev res ncalls =
     (if on_queue EVLIST_ACTIVE b ev
      then Some (upd_ev b ev (\<lambda>x. x\<lparr>ev_res := ev_res x OR res\<rparr>))
      else (let b1 = upd_ev b ev (\<lambda>x. x\<lparr>ev_res := res\<rparr>);
                b2 = (if int (ev_pri (ev_store b1 ev)) < event_running_priority b1
                      then b1\<lparr>event_continue := True\<rparr> else b1);
                b3 = (if has EV_SIGNAL (ev_events (ev_store b2 ev))
                      then upd_ev b2 ev (\<lambda>x. x\<lparr>ev_ncalls := ncalls, ev_pncalls := False\<rparr>) else b2)
            in map_option (notify_if True) (event_queue_insert malloc b3 ev EVLIST_ACTIVE)))"

fun activate_all :: "allocator \<Rightarrow> u16 \<Rightarrow> event_base \<Rightarrow> event_id list \<Rightarrow> event_base option" where
  "activate_all malloc events b [] = Some b"
| "activate_all malloc events b (ev # es) = do {
     b1 \<leftarrow> (if has events (ev_events (ev_store b ev))
            then event_active_nolock malloc b ev (ev_events (ev_store b ev) AND events) 1 else Some b);
     activate_all malloc events b1 es
   }"

definition evmap_io_active :: "allocator \<Rightarrow> event_base \<Rightarrow> nat \<Rightarrow> u16 \<Rightarrow> event_base option" where
  "evmap_io_active malloc b fd events =
     (if fd \<ge> length (io_map b) then None
      else (case io_map b ! fd of None \<Rightarrow> None | Some ctx \<Rightarrow> activate_all malloc events b (io_events ctx)))"

fun activate_signals :: "allocator \<Rightarrow> nat \<Rightarrow> event_base \<Rightarrow> event_id list \<Rightarrow> event_base option" where
  "activate_signals malloc ncalls b [] = Some b"
| "activate_signals malloc ncalls b (ev # es) = do {
     b1 \<leftarrow> event_active_nolock malloc b ev EV_SIGNAL ncalls;
     activate_signals malloc ncalls b1 es
   }"

definition evmap_signal_active :: "allocator \<Rightarrow> event_base \<Rightarrow> nat \<Rightarrow> nat \<Rightarrow> event_base option" where
  "evmap_signal_active malloc b sig ncalls =
     (if sig \<ge> length (sigmap b) then None
      else (case sigmap b ! sig of None \<Rightarrow> None | Some es \<Rightarrow> activate_signals malloc ncalls b es))"

section \<open>What the invariant depends on\<close>

lemma base_inv_cong:
  assumes "\<And>x. ev_flags (ev_store b' x) = ev_flags (ev_store b x)" "\<And>x. ev_pri (ev_store b' x) = ev_pri (ev_store b x)"
    "\<And>x. ev_timeout (ev_store b' x) = ev_timeout (ev_store b x)" "\<And>x. min_heap_idx (ev_store b' x) = min_heap_idx (ev_store b x)"
    "eventqueue b' = eventqueue b" "activequeues b' = activequeues b" "timeheap b' = timeheap b"
    "common_timeout_queues b' = common_timeout_queues b" "event_count b' = event_count b"
    "event_count_active b' = event_count_active b"
  shows "base_inv b' = base_inv b"
proof -
  have on: "on_queue q b' x = on_queue q b x" for q x by (simp add: on_queue_def assms(1))
  then have vis: "visible_on q b' = visible_on q b" for q by (simp add: visible_on_def)
  have com: "common_of b' x = common_of b x" "idx_of b' x = idx_of b x" for x
    by (simp_all add: common_of_def idx_of_def is_common_timeout_def assms)
  have "min_heap_inv (ev_store b') (timeheap b) = min_heap_inv (ev_store b) (timeheap b)"
    by (rule min_heap_inv_cong) (simp_all add: assms)
  then show ?thesis
    unfolding base_inv_def active_ok_def timers_ok_def counts_ok_def on vis com assms by simp
qed

lemma base_inv_maps_frame: "maps_frame b b' \<Longrightarrow> base_inv b' = base_inv b"
  unfolding maps_frame_def by (rule base_inv_cong; (erule ssubst, simp))

lemma base_inv_upd [simp]:
  "base_inv (b\<lparr>sig_aborted := s\<rparr>) = base_inv b" "base_inv (b\<lparr>event_continue := c\<rparr>) = base_inv b"
  "base_inv (b\<lparr>is_notify_pending := n\<rparr>) = base_inv b" "base_inv (b\<lparr>event_running_priority := p\<rparr>) = base_inv b"
  "base_inv (b\<lparr>cb_trace := t\<rparr>) = base_inv b" "base_inv (b\<lparr>tv_cache := v\<rparr>) = base_inv b"
  by (rule base_inv_cong; simp)+

lemma base_inv_upd_ev:
  assumes "\<And>x. ev_flags (f x) = ev_flags x" "\<And>x. ev_pri (f x) = ev_pri x" "\<And>x. ev_timeout (f x) = ev_timeout x"
    "\<And>x. min_heap_idx (f x) = min_heap_idx x"
  shows "base_inv (upd_ev b ev f) = base_inv b"
  by (rule base_inv_cong) (simp_all add: upd_ev_def assms)

lemma maps_ok_cong:
  assumes "\<And>x. ev_events (S' x) = ev_events (S x)" "\<And>x. ev_fd (S' x) = ev_fd (S x)"
  shows "maps_ok S' I io sig = maps_ok S I io sig"
  unfolding maps_ok_def mapped_def io_entry_ok_def sig_entry_ok_def assms ..

text \<open>What no operation on the queues changes of an event or of the base.\<close>

definition same_setup :: "event_base \<Rightarrow> event_base \<Rightarrow> bool" where
  "same_setup b b' \<longleftrightarrow>
     (\<forall>x. ev_fd (ev_store b' x) = ev_fd (ev_store b x) \<and> ev_events (ev_store b' x) = ev_events (ev_store b x) \<and>
          ev_pri (ev_store b' x) = ev_pri (ev_store b x) \<and> ev_closure (ev_store b' x) = ev_closure (ev_store b x) \<and>
          ev_flags (ev_store b' x) AND NOT EVLIST_ALL = ev_flags (ev_store b x) AND NOT EVLIST_ALL \<and>
          on_queue EVLIST_INTERNAL b' x = on_queue EVLIST_INTERNAL b x) \<and>
     length (activequeues b') = length (activequeues b) \<and>
     map timeout_event (common_timeout_queues b') = map timeout_event (common_timeout_queues b) \<and>
     tv_cache b' = tv_cache b \<and> event_running_priority b' = event_running_priority b"

lemma same_setupD:
  assumes "same_setup b b'"
  shows "ev_fd (ev_store b' x) = ev_fd (ev_store b x)" "ev_events (ev_store b' x) = ev_events (ev_store b x)"
    "ev_pri (ev_store b' x) = ev_pri (ev_store b x)" "ev_closure (ev_store b' x) = ev_closure (ev_store b x)"
    "ev_flags (ev_store b' x) AND NOT EVLIST_ALL = ev_flags (ev_store b x) AND NOT EVLIST_ALL"
    "on_queue EVLIST_INTERNAL b' x = on_queue EVLIST_INTERNAL b x" "length (activequeues b') = length (activequeues b)"
    "map timeout_event (common_timeout_queues b') = map timeout_event (common_timeout_queues b)" "tv_cache b' = tv_cache b"
    "event_running_priority b' = event_running_priority b"
    "length (common_timeout_queues b') = length (common_timeout_queues b)" "is_common_timeout t b' = is_common_timeout t b"
proof -
  show "ev_fd (ev_store b' x) = ev_fd (ev_store b x)" "ev_events (ev_store b' x) = ev_events (ev_store b x)"
    "ev_pri (ev_store b' x) = ev_pri (ev_store b x)" "ev_closure (ev_store b' x) = ev_closure (ev_store b x)"
    "ev_flags (ev_store b' x) AND NOT EVLIST_ALL = ev_flags (ev_store b x) AND NOT EVLIST_ALL"
    "on_queue EVLIST_INTERNAL b' x = on_queue EVLIST_INTERNAL b x" "length (activequeues b') = length (activequeues b)"
    and m: "map timeout_event (common_timeout_queues b') = map timeout_event (common_timeout_queues b)"
    and "tv_cache b' = tv_cache b" "event_running_priority b' = event_running_priority b"
    using assms unfolding same_setup_def by blast+
  show l: "length (common_timeout_queues b') = length (common_timeout_queues b)"
    using arg_cong[OF m, of length] by simp
  show "is_common_timeout t b' = is_common_timeout t b" by (simp add: is_common_timeout_def l)
qed

lemma same_setup_refl [simp]: "same_setup b b" by (simp add: same_setup_def)

lemma same_setup_trans: "same_setup a b \<Longrightarrow> same_setup b c \<Longrightarrow> same_setup a c"
  unfolding same_setup_def by simp

lemma same_setup_maps_frame: "maps_frame b b' \<Longrightarrow> same_setup b b'"
  unfolding maps_frame_def same_setup_def on_queue_def by (erule ssubst) simp

lemma inserted_ok_setup: "inserted_ok q ev b b' \<Longrightarrow> q \<in> {EVLIST_INSERTED, EVLIST_ACTIVE, EVLIST_TIMEOUT} \<Longrightarrow> same_setup b b'"
proof -
  assume i: "inserted_ok q ev b b'" and q: "q \<in> {EVLIST_INSERTED, EVLIST_ACTIVE, EVLIST_TIMEOUT}"
  then have f: "queue_frame b b'" "put_on q ev b b'" by (simp_all add: inserted_ok_def)
  have "q \<noteq> EVLIST_INTERNAL" using q by auto
  then show ?thesis unfolding same_setup_def by (simp add: queue_frame_fields[OF f(1)] put_on_simps(4)[OF f(2)])
qed

lemma queue_frame_refl [simp]: "queue_frame b b" by (simp add: queue_frame_def)

text \<open>Taking an event off a queue if it is on it, which three operations do.\<close>

lemma remove_if_on:
  assumes "base_inv b" "q \<in> {EVLIST_INSERTED, EVLIST_ACTIVE, EVLIST_TIMEOUT}"
  shows "\<exists>b'. (if on_queue q b ev then event_queue_remove b ev q else Some b) = Some b' \<and> base_inv b' \<and> queue_frame b b' \<and>
     same_setup b b' \<and> heap_a (timeheap b') = heap_a (timeheap b) \<and>
     (\<forall>p \<in> {EVLIST_INSERTED, EVLIST_ACTIVE, EVLIST_TIMEOUT}. \<forall>x. on_queue p b' x = (on_queue p b x \<and> \<not> (x = ev \<and> p = q)))"
proof (cases "on_queue q b ev")
  case True
  then obtain b' where b': "event_queue_remove b ev q = Some b'" "removed_ok q ev b b'" "heap_a (timeheap b') = heap_a (timeheap b)"
    using queue_remove_ok[OF assms] by blast
  then have fr: "queue_frame b b'" "base_inv b'" "taken_off q ev b b'" by (simp_all add: removed_ok_def)
  note O = taken_off_simps[OF fr(3) assms(2)]
  have "same_setup b b'" unfolding same_setup_def by (simp add: queue_frame_fields[OF fr(1)] O)
  moreover have "\<forall>p \<in> {EVLIST_INSERTED, EVLIST_ACTIVE, EVLIST_TIMEOUT}. \<forall>x. on_queue p b' x = (on_queue p b x \<and> \<not> (x = ev \<and> p = q))"
    using O(1-3) by simp blast
  ultimately show ?thesis using True b'(1,3) fr(1,2) by simp
qed (use assms(1) in auto)

section \<open>Deleting\<close>

lemma notify_if_cases: "notify_if n b = b \<or> notify_if n b = b\<lparr>is_notify_pending := True\<rparr>"
  by (simp add: notify_if_def evthread_notify_base_def split: option.split)

lemma notify_if_simps [simp]:
  "ev_store (notify_if n b) = ev_store b" "base_inv (notify_if n b) = base_inv b" "on_queue q (notify_if n b) x = on_queue q b x"
  "io_map (notify_if n b) = io_map b" "sigmap (notify_if n b) = sigmap b" "timeheap (notify_if n b) = timeheap b"
  "same_setup a (notify_if n b) = same_setup a b" "activequeues (notify_if n b) = activequeues b"
  "common_timeout_queues (notify_if n b) = common_timeout_queues b" "defer_queue (notify_if n b) = defer_queue b"
  "backend_calls (notify_if n b) = backend_calls b" "event_continue (notify_if n b) = event_continue b"
  by (rule disjE[OF notify_if_cases[of n b]]; simp add: on_queue_def same_setup_def)+

lemma maybe_abort_simps [simp]:
  "ev_store (maybe_abort_signal b ev) = ev_store b" "base_inv (maybe_abort_signal b ev) = base_inv b"
  "on_queue q (maybe_abort_signal b ev) x = on_queue q b x" "io_map (maybe_abort_signal b ev) = io_map b"
  "sigmap (maybe_abort_signal b ev) = sigmap b" "timeheap (maybe_abort_signal b ev) = timeheap b"
  "same_setup a (maybe_abort_signal b ev) = same_setup a b" "same_setup (maybe_abort_signal b ev) a = same_setup b a"
  "is_common_timeout t (maybe_abort_signal b ev) = is_common_timeout t b"
  by (simp_all add: maybe_abort_signal_def Let_def on_queue_def same_setup_def is_common_timeout_def)

text \<open>The times and results of the events, which deletion keeps.\<close>

definition same_times :: "event_base \<Rightarrow> event_base \<Rightarrow> bool" where
  "same_times b b' \<longleftrightarrow> (\<forall>x. ev_timeout (ev_store b' x) = ev_timeout (ev_store b x) \<and>
     ev_io_timeout (ev_store b' x) = ev_io_timeout (ev_store b x) \<and> ev_res (ev_store b' x) = ev_res (ev_store b x))"

lemma same_times_queue_frame: "queue_frame b b' \<Longrightarrow> same_times b b'"
  by (simp add: same_times_def queue_frame_fields)

definition maps_covered :: "event_id set \<Rightarrow> event_base \<Rightarrow> bool" where
  "maps_covered I b \<longleftrightarrow> maps_ok (ev_store b) I (io_map b) (sigmap b) \<and> (\<forall>e. on_queue EVLIST_INSERTED b e \<longrightarrow> e \<in> I)"

definition off_all_queues :: "event_id \<Rightarrow> event_base \<Rightarrow> event_base \<Rightarrow> bool" where
  "off_all_queues ev b b' \<longleftrightarrow>
     (\<forall>q \<in> {EVLIST_INSERTED, EVLIST_ACTIVE, EVLIST_TIMEOUT}. \<forall>x. on_queue q b' x = (on_queue q b x \<and> x \<noteq> ev))"

lemma maps_del_ok:
  assumes maps: "maps_ok (ev_store b) I (io_map b) (sigmap b)" and ev: "ev \<in> I"
  shows "\<exists>r b'. (if has (EV_READ OR EV_WRITE) (ev_events (ev_store b ev))
        then evmap_io_del evsel b (ev_fd (ev_store b ev)) ev else evmap_signal_del evsel b (ev_fd (ev_store b ev)) ev) = Some (r, b') \<and>
     maps_frame b b' \<and> (r = - 1 \<and> maps_ok (ev_store b) I (io_map b') (sigmap b') \<or>
      (r = 0 \<or> r = 1) \<and> maps_ok (ev_store b) (I - {ev}) (io_map b') (sigmap b'))"
proof (cases "has (EV_READ OR EV_WRITE) (ev_events (ev_store b ev))")
  case True
  from evmap_io_del_ok[OF maps ev this, of evsel] obtain r b' where
    "evmap_io_del evsel b (ev_fd (ev_store b ev)) ev = Some (r, b')" "maps_frame b b'"
    "r = - 1 \<and> io_map b' = io_map b \<and> sigmap b' = sigmap b \<or>
      (r = 0 \<or> r = 1) \<and> maps_ok (ev_store b) (I - {ev}) (io_map b') (sigmap b')" by (elim exE conjE) (rule that)
  then show ?thesis using True maps by (intro exI[of _ r] exI[of _ b']) auto
next
  case False
  from evmap_signal_del_ok[OF maps ev this, of evsel] obtain r b' where
    "evmap_signal_del evsel b (ev_fd (ev_store b ev)) ev = Some (r, b')" "maps_frame b b'"
    "r = - 1 \<and> io_map b' = io_map b \<and> sigmap b' = sigmap b \<or>
      r = 1 \<and> maps_ok (ev_store b) (I - {ev}) (io_map b') (sigmap b')" by (elim exE conjE) (rule that)
  then show ?thesis using False maps by (intro exI[of _ r] exI[of _ b']) auto
qed

lemma maps_frame_simps:
  assumes "maps_frame b b'"
  shows "ev_store b' = ev_store b" "on_queue q b' x = on_queue q b x" "timeheap b' = timeheap b"
    "common_timeout_queues b' = common_timeout_queues b"
proof -
  obtain c i g where "b' = b\<lparr>backend_calls := c, io_map := i, sigmap := g\<rparr>" using assms unfolding maps_frame_def by blast
  then show "ev_store b' = ev_store b" "on_queue q b' x = on_queue q b x" "timeheap b' = timeheap b"
    "common_timeout_queues b' = common_timeout_queues b" by (simp_all add: on_queue_def)
qed

lemma event_del_internal_ok:
  assumes inv: "base_inv b" and maps: "maps_covered I b" and fl: "ev_flags (ev_store b ev) AND NOT EVLIST_ALL = 0"
  shows "\<exists>r b'. event_del_internal evsel b ev = Some (r, b') \<and> base_inv b' \<and> same_setup b b' \<and> same_times b b' \<and>
     off_all_queues ev b b' \<and> heap_a (timeheap b') = heap_a (timeheap b) \<and>
     (r = 0 \<or> r = - 1) \<and> maps_covered (if r = 0 \<and> on_queue EVLIST_INSERTED b ev then I - {ev} else I) b'"
proof -
  define b0 where "b0 = maybe_abort_signal b ev"
  have b0: "base_inv b0" using inv by (simp add: b0_def)
  obtain b1 where b1: "(if on_queue EVLIST_TIMEOUT b0 ev then event_queue_remove b0 ev EVLIST_TIMEOUT else Some b0) = Some b1"
    "base_inv b1" "queue_frame b0 b1" "same_setup b0 b1" "heap_a (timeheap b1) = heap_a (timeheap b0)"
    "\<forall>p \<in> {EVLIST_INSERTED, EVLIST_ACTIVE, EVLIST_TIMEOUT}. \<forall>x. on_queue p b1 x = (on_queue p b0 x \<and> \<not> (x = ev \<and> p = EVLIST_TIMEOUT))"
    using remove_if_on[OF b0, of EVLIST_TIMEOUT ev] by auto
  obtain b2 where b2: "(if on_queue EVLIST_ACTIVE b1 ev then event_queue_remove b1 ev EVLIST_ACTIVE else Some b1) = Some b2"
    "base_inv b2" "queue_frame b1 b2" "same_setup b1 b2" "heap_a (timeheap b2) = heap_a (timeheap b1)"
    "\<forall>p \<in> {EVLIST_INSERTED, EVLIST_ACTIVE, EVLIST_TIMEOUT}. \<forall>x. on_queue p b2 x = (on_queue p b1 x \<and> \<not> (x = ev \<and> p = EVLIST_ACTIVE))"
    using remove_if_on[OF b1(2), of EVLIST_ACTIVE ev] by auto
  have ss: "same_setup b b2" using same_setup_trans[OF b1(4) b2(4)] by (simp add: b0_def)
  have st: "same_times b b2" using same_times_queue_frame[OF b1(3)] same_times_queue_frame[OF b2(3)]
    by (simp add: same_times_def b0_def)
  have on2: "on_queue EVLIST_INSERTED b2 x = on_queue EVLIST_INSERTED b x"
    "on_queue EVLIST_ACTIVE b2 x = (on_queue EVLIST_ACTIVE b x \<and> x \<noteq> ev)"
    "on_queue EVLIST_TIMEOUT b2 x = (on_queue EVLIST_TIMEOUT b x \<and> x \<noteq> ev)" for x
    using b1(6) b2(6) by (simp_all add: b0_def)
  have io2: "io_map b2 = io_map b" "sigmap b2 = sigmap b"
    using queue_frame_fields(12,13)[OF b1(3)] queue_frame_fields(12,13)[OF b2(3)] by (simp_all add: b0_def)
  have m2: "maps_ok (ev_store b2) I (io_map b2) (sigmap b2)"
    using maps maps_ok_cong[of "ev_store b2" "ev_store b"] same_setupD[OF ss] by (simp add: maps_covered_def io2)
  have step: "event_del_internal evsel b ev =
     (if on_queue EVLIST_INSERTED b2 ev
      then do {
        b3 \<leftarrow> event_queue_remove b2 ev EVLIST_INSERTED;
        (res, b4) \<leftarrow> (if has (EV_READ OR EV_WRITE) (ev_events (ev_store b3 ev))
                      then evmap_io_del evsel b3 (ev_fd (ev_store b3 ev)) ev
                      else evmap_signal_del evsel b3 (ev_fd (ev_store b3 ev)) ev);
        Some (if res = 1 then 0 else res, notify_if (res = 1) b4)
      } else Some (0, b2))"
    using fl b1(1) b2(1) by (simp add: event_del_internal_def b0_def[symmetric] Let_def)
  show ?thesis
  proof (cases "on_queue EVLIST_INSERTED b2 ev")
    case False
    then have "event_del_internal evsel b ev = Some (0, b2)" unfolding step by simp
    moreover have "maps_covered I b2" using maps m2 on2(1) by (simp add: maps_covered_def)
    moreover have "off_all_queues ev b b2" using on2 False by (auto simp: off_all_queues_def)
    ultimately show ?thesis using b2(2,5) b1(5) ss st on2(1) False by (simp add: b0_def)
  next
    case True
    then obtain b3 where b3: "event_queue_remove b2 ev EVLIST_INSERTED = Some b3" "base_inv b3" "queue_frame b2 b3"
      "same_setup b2 b3" "heap_a (timeheap b3) = heap_a (timeheap b2)"
      "\<forall>p \<in> {EVLIST_INSERTED, EVLIST_ACTIVE, EVLIST_TIMEOUT}. \<forall>x. on_queue p b3 x = (on_queue p b2 x \<and> \<not> (x = ev \<and> p = EVLIST_INSERTED))"
      using remove_if_on[OF b2(2), of EVLIST_INSERTED ev] by auto
    have I: "ev \<in> I" using True maps on2(1) by (simp add: maps_covered_def)
    have m3: "maps_ok (ev_store b3) I (io_map b3) (sigmap b3)"
      using m2 maps_ok_cong[of "ev_store b3" "ev_store b2"] queue_frame_fields[OF b3(3)] by simp
    from maps_del_ok[OF m3 I, of evsel] obtain r b4 where
      b4: "(if has (EV_READ OR EV_WRITE) (ev_events (ev_store b3 ev)) then evmap_io_del evsel b3 (ev_fd (ev_store b3 ev)) ev
        else evmap_signal_del evsel b3 (ev_fd (ev_store b3 ev)) ev) = Some (r, b4)" "maps_frame b3 b4"
      "r = - 1 \<and> maps_ok (ev_store b3) I (io_map b4) (sigmap b4) \<or>
       (r = 0 \<or> r = 1) \<and> maps_ok (ev_store b3) (I - {ev}) (io_map b4) (sigmap b4)"
      by (elim exE conjE) (rule that)
    note f4 = maps_frame_simps[OF b4(2)]
    define b5 where "b5 = notify_if (r = 1) b4"
    have res: "event_del_internal evsel b ev = Some (if r = 1 then 0 else r, b5)"
      using True b3(1) b4(1) unfolding step b5_def by (simp only: if_True bind.bind_lunit prod.case)
    have off: "off_all_queues ev b b5" using on2 b3(6) f4 by (auto simp: off_all_queues_def b5_def)
    have cov: "maps_covered J b5" if "maps_ok (ev_store b3) J (io_map b4) (sigmap b4)" "I - {ev} \<subseteq> J" for J
      using that off maps f4(1) by (auto simp: maps_covered_def off_all_queues_def b5_def)
    have "base_inv b5" using b3(2) base_inv_maps_frame[OF b4(2)] by (simp add: b5_def)
    moreover have "same_setup b b5"
      using same_setup_trans[OF same_setup_trans[OF ss b3(4)] same_setup_maps_frame[OF b4(2)]] by (simp add: b5_def)
    moreover have "same_times b b5" using st same_times_queue_frame[OF b3(3)] f4(1) by (simp add: same_times_def b5_def)
    moreover have "heap_a (timeheap b5) = heap_a (timeheap b)" using b3(5) b2(5) b1(5) f4 by (simp add: b0_def b5_def)
    moreover have "maps_covered (if (if r = 1 then 0 else r) = 0 \<and> on_queue EVLIST_INSERTED b ev then I - {ev} else I) b5"
      using b4(3) cov True on2(1) by auto
    ultimately show ?thesis using res off b4(3) by (intro exI[of _ "if r = 1 then 0 else r"] exI[of _ b5]) auto
  qed
qed

section \<open>Activating\<close>

text \<open>The changes of \<open>event_active_nolock\<close> before the event is queued.\<close>

definition activate_prepare :: "event_base \<Rightarrow> event_id \<Rightarrow> u16 \<Rightarrow> nat \<Rightarrow> event_base" where
  "activate_prepare b ev res ncalls =
     (let b1 = upd_ev b ev (\<lambda>x. x\<lparr>ev_res := res\<rparr>);
          b2 = (if int (ev_pri (ev_store b1 ev)) < event_running_priority b1 then b1\<lparr>event_continue := True\<rparr> else b1)
      in if has EV_SIGNAL (ev_events (ev_store b2 ev))
         then upd_ev b2 ev (\<lambda>x. x\<lparr>ev_ncalls := ncalls, ev_pncalls := False\<rparr>) else b2)"

lemma activate_prepare_simps:
  "base_inv (activate_prepare b ev res ncalls) = base_inv b"
  "same_setup b (activate_prepare b ev res ncalls)"
  "on_queue q (activate_prepare b ev res ncalls) x = on_queue q b x"
  "ev_res (ev_store (activate_prepare b ev res ncalls) x) = (if x = ev then res else ev_res (ev_store b x))"
  "ev_timeout (ev_store (activate_prepare b ev res ncalls) x) = ev_timeout (ev_store b x)"
  "ev_io_timeout (ev_store (activate_prepare b ev res ncalls) x) = ev_io_timeout (ev_store b x)"
  "ev_pri (ev_store (activate_prepare b ev res ncalls) x) = ev_pri (ev_store b x)"
  "ev_events (ev_store (activate_prepare b ev res ncalls) x) = ev_events (ev_store b x)"
  "ev_fd (ev_store (activate_prepare b ev res ncalls) x) = ev_fd (ev_store b x)"
  "activequeues (activate_prepare b ev res ncalls) = activequeues b" "timeheap (activate_prepare b ev res ncalls) = timeheap b"
  "io_map (activate_prepare b ev res ncalls) = io_map b" "sigmap (activate_prepare b ev res ncalls) = sigmap b"
  "common_timeout_queues (activate_prepare b ev res ncalls) = common_timeout_queues b"
  "event_continue (activate_prepare b ev res ncalls) =
     (event_continue b \<or> int (ev_pri (ev_store b ev)) < event_running_priority b)"
proof -
  show "base_inv (activate_prepare b ev res ncalls) = base_inv b"
    by (rule base_inv_cong) (simp_all add: activate_prepare_def Let_def upd_ev_def)
qed (simp_all add: activate_prepare_def Let_def upd_ev_def same_setup_def on_queue_def)

definition activated :: "event_id \<Rightarrow> u16 \<Rightarrow> event_base \<Rightarrow> event_base \<Rightarrow> bool" where
  "activated ev res b b' \<longleftrightarrow>
     base_inv b' \<and> same_setup b b' \<and>
     (\<forall>x. on_queue EVLIST_ACTIVE b' x = (on_queue EVLIST_ACTIVE b x \<or> x = ev) \<and>
          on_queue EVLIST_INSERTED b' x = on_queue EVLIST_INSERTED b x \<and>
          on_queue EVLIST_TIMEOUT b' x = on_queue EVLIST_TIMEOUT b x \<and>
          ev_timeout (ev_store b' x) = ev_timeout (ev_store b x) \<and>
          ev_io_timeout (ev_store b' x) = ev_io_timeout (ev_store b x) \<and>
          ev_res (ev_store b' x) =
            (if x = ev then (if on_queue EVLIST_ACTIVE b ev then ev_res (ev_store b ev) OR res else res)
             else ev_res (ev_store b x))) \<and>
     activequeues b' = (if on_queue EVLIST_ACTIVE b ev then activequeues b
                        else (activequeues b)[ev_pri (ev_store b ev) := activequeues b ! ev_pri (ev_store b ev) @ [ev]]) \<and>
     timeheap b' = timeheap b \<and> common_timeout_queues b' = common_timeout_queues b \<and>
     io_map b' = io_map b \<and> sigmap b' = sigmap b \<and>
     event_continue b' = (event_continue b \<or> \<not> on_queue EVLIST_ACTIVE b ev \<and> int (ev_pri (ev_store b ev)) < event_running_priority b)"

lemma event_active_nolock_ok:
  assumes inv: "base_inv b" and pri: "ev_pri (ev_store b ev) < length (activequeues b)"
  shows "\<exists>b'. event_active_nolock m b ev res ncalls = Some b' \<and> activated ev res b b'"
proof (cases "on_queue EVLIST_ACTIVE b ev")
  case True
  have "base_inv (upd_ev b ev (\<lambda>x. x\<lparr>ev_res := ev_res x OR res\<rparr>))" using inv by (subst base_inv_upd_ev) simp_all
  moreover have "event_active_nolock m b ev res ncalls = Some (upd_ev b ev (\<lambda>x. x\<lparr>ev_res := ev_res x OR res\<rparr>))"
    using True by (simp add: event_active_nolock_def)
  ultimately show ?thesis using True by (auto simp: activated_def same_setup_def upd_ev_def on_queue_def)
next
  case False
  define b3 where "b3 = activate_prepare b ev res ncalls"
  note P = activate_prepare_simps[where b = b and ev = ev and res = res and ncalls = ncalls, folded b3_def]
  have "base_inv b3" "\<not> on_queue EVLIST_ACTIVE b3 ev" "ev_pri (ev_store b3 ev) < length (activequeues b3)"
    using inv False pri by (simp_all add: P)
  from queue_insert_ACTIVE[OF this, of m] obtain b4 where b4: "event_queue_insert m b3 ev EVLIST_ACTIVE = Some b4"
    "inserted_ok EVLIST_ACTIVE ev b3 b4" "timeheap b4 = timeheap b3" "common_timeout_queues b4 = common_timeout_queues b3"
    "activequeues b4 = (activequeues b3)[ev_pri (ev_store b3 ev) := activequeues b3 ! ev_pri (ev_store b3 ev) @ [ev]]"
    by blast
  have f: "base_inv b4" "queue_frame b3 b4" "put_on EVLIST_ACTIVE ev b3 b4" using b4(2) by (simp_all add: inserted_ok_def)
  have ss: "same_setup b b4" using same_setup_trans[OF P(2) inserted_ok_setup[OF b4(2)]] by simp
  have step: "event_active_nolock m b ev res ncalls = Some (notify_if True b4)"
    using False b4(1) by (simp add: event_active_nolock_def b3_def activate_prepare_def Let_def)
  have "activated ev res b (notify_if True b4)"
    unfolding activated_def using f(1) ss b4(3-5) False
    by (simp add: queue_frame_fields[OF f(2)] put_on_simps[OF f(3)] P)
  then show ?thesis using step by blast
qed

lemma activated_covered: "activated ev res b b' \<Longrightarrow> maps_covered I b' = maps_covered I b"
  using maps_ok_cong[of "ev_store b'" "ev_store b"] same_setupD[of b b']
  unfolding activated_def maps_covered_def by simp

section \<open>Scheduling a timeout\<close>

lemma heap_n_card: "min_heap_inv evs h \<Longrightarrow> heap_n h = card (min_heap_elems h)"
  using min_heap_invD(1,2,4)[of evs h] by (simp add: min_heap_elems_def distinct_card)

lemma min_heap_inv_set_timeout:
  assumes "min_heap_inv evs h" "ev \<notin> min_heap_elems h"
  shows "min_heap_inv (evs(ev := (evs ev)\<lparr>ev_timeout := t\<rparr>)) h"
proof -
  note D = min_heap_invD[OF assms(1)]
  have k: "ev_timeout ((evs(ev := (evs ev)\<lparr>ev_timeout := t\<rparr>)) (heap_p h ! j)) = ev_timeout (evs (heap_p h ! j))"
    if "j < heap_n h" for j using min_heap_elems_nth[of j h] that D(1,2) assms(2) by auto
  have "parent_pos j < heap_n h" if "0 < j" "j < heap_n h" for j using parent_pos_less[OF that(1)] that(2) by simp
  then have "heap_order (event_key (evs(ev := (evs ev)\<lparr>ev_timeout := t\<rparr>))) (heap_p h) (heap_n h)"
    using D(3) k unfolding heap_order_def by simp
  then show ?thesis using assms(1) by (auto simp: min_heap_inv_def)
qed

lemma base_inv_set_timeout:
  assumes inv: "base_inv b" and off: "\<not> on_queue EVLIST_TIMEOUT b ev"
  shows "base_inv (upd_ev b ev (\<lambda>x. x\<lparr>ev_timeout := t\<rparr>))"
proof -
  define b' where "b' = upd_ev b ev (\<lambda>x. x\<lparr>ev_timeout := t\<rparr>)"
  note D = base_invD[OF inv]
  note T = D(4)[unfolded timers_ok_def]
  have on: "on_queue q b' x = on_queue q b x" for q x by (simp add: b'_def upd_ev_def on_queue_def)
  have com: "common_of b' x = common_of b x" "idx_of b' x = idx_of b x" "ev_timeout (ev_store b' x) = ev_timeout (ev_store b x)"
    if "on_queue EVLIST_TIMEOUT b x" for x
    using that off by (auto simp: common_of_def idx_of_def b'_def upd_ev_def is_common_timeout_def)
  have rest: "eventqueue b' = eventqueue b" "activequeues b' = activequeues b" "timeheap b' = timeheap b"
    "common_timeout_queues b' = common_timeout_queues b" "event_count b' = event_count b"
    "event_count_active b' = event_count_active b" "ev_pri (ev_store b' x) = ev_pri (ev_store b x)" for x
    by (simp_all add: b'_def upd_ev_def)
  have "min_heap_inv (ev_store b') (timeheap b)"
    using min_heap_inv_set_timeout[of "ev_store b" "timeheap b" ev t] T off by (simp add: b'_def upd_ev_def)
  moreover have s1: "{e. on_queue EVLIST_TIMEOUT b e \<and> \<not> common_of b' e} = {e. on_queue EVLIST_TIMEOUT b e \<and> \<not> common_of b e}"
    "{e. on_queue EVLIST_TIMEOUT b e \<and> common_of b' e \<and> idx_of b' e = i} = {e. on_queue EVLIST_TIMEOUT b e \<and> common_of b e \<and> idx_of b e = i}" for i
    using com by auto
  ultimately have "timers_ok b'" unfolding timers_ok_def on rest s1 using T com by auto
  then have "base_inv b'" using D unfolding base_inv_def active_ok_def counts_ok_def visible_on_def on rest by simp
  then show ?thesis by (simp add: b'_def)
qed

text \<open>Insertion into either timeout queue.\<close>

lemma queue_insert_TIMEOUT:
  assumes inv: "base_inv b" and off: "\<not> on_queue EVLIST_TIMEOUT b ev"
    and room: "\<not> common_of b ev \<Longrightarrow> heap_n (timeheap b) < heap_a (timeheap b)"
    and us: "common_of b ev \<Longrightarrow> 0 \<le> tv_usec (ev_timeout (ev_store b ev)) \<and> tv_usec (ev_timeout (ev_store b ev)) < 2 ^ 32"
  shows "\<exists>b'. event_queue_insert m b ev EVLIST_TIMEOUT = Some b' \<and> inserted_ok EVLIST_TIMEOUT ev b b'"
  using queue_insert_TIMEOUT_heap[OF inv off] queue_insert_TIMEOUT_common[OF inv off] room us
  by (cases "common_of b ev") blast+

lemma heap_n_queue: "base_inv b \<Longrightarrow> heap_n (timeheap b) = card {e. on_queue EVLIST_TIMEOUT b e \<and> \<not> common_of b e}"
  using heap_n_card[of "ev_store b" "timeheap b"] base_invD(4)[of b] by (simp add: timers_ok_def)

text \<open>An event taken out of the heap, or room before, leaves room in the heap.\<close>

lemma heap_room:
  assumes inv: "base_inv b" "base_inv b'" and cap: "heap_a (timeheap b') = heap_a (timeheap b)"
    and com: "\<And>x. common_of b' x = common_of b x"
    and on: "\<And>x. on_queue EVLIST_TIMEOUT b' x = (on_queue EVLIST_TIMEOUT b x \<and> x \<noteq> ev)"
    and room: "on_queue EVLIST_TIMEOUT b ev \<and> \<not> common_of b ev \<or> heap_n (timeheap b) < heap_a (timeheap b)"
  shows "heap_n (timeheap b') < heap_a (timeheap b')"
proof -
  let ?E = "{e. on_queue EVLIST_TIMEOUT b e \<and> \<not> common_of b e}"
  have T: "min_heap_inv (ev_store b) (timeheap b)" "min_heap_elems (timeheap b) = ?E"
    using base_invD(4)[OF inv(1)] by (simp_all add: timers_ok_def)
  then have le: "heap_n (timeheap b) \<le> heap_a (timeheap b)" by (simp add: min_heap_invD)
  have fin: "finite ?E" using T(2) unfolding min_heap_elems_def by (metis List.finite_set)
  have E': "{e. on_queue EVLIST_TIMEOUT b' e \<and> \<not> common_of b' e} = ?E - {ev}" using on com by auto
  have n: "heap_n (timeheap b') = card (?E - {ev})" "heap_n (timeheap b) = card ?E"
    using heap_n_queue[OF inv(1)] heap_n_queue[OF inv(2)] E' by simp_all
  show ?thesis
  proof (cases "ev \<in> ?E")
    case True
    then have "card (?E - {ev}) < card ?E" using fin by (intro psubset_card_mono) blast+
    then show ?thesis using n le cap by linarith
  next
    case False
    then have "?E - {ev} = ?E" by blast
    then show ?thesis using n False room cap by auto
  qed
qed

definition timeout_set :: "event_id \<Rightarrow> timeval \<Rightarrow> event_base \<Rightarrow> event_base \<Rightarrow> bool" where
  "timeout_set ev t b b' \<longleftrightarrow>
     base_inv b' \<and> same_setup b b' \<and> io_map b' = io_map b \<and> sigmap b' = sigmap b \<and>
     (\<forall>x. on_queue EVLIST_TIMEOUT b' x = (on_queue EVLIST_TIMEOUT b x \<or> x = ev) \<and>
          on_queue EVLIST_INSERTED b' x = on_queue EVLIST_INSERTED b x \<and>
          on_queue EVLIST_ACTIVE b' x =
            (on_queue EVLIST_ACTIVE b x \<and> \<not> (x = ev \<and> has EV_TIMEOUT (ev_res (ev_store b ev)))) \<and>
          ev_timeout (ev_store b' x) = (if x = ev then t else ev_timeout (ev_store b x)) \<and>
          ev_res (ev_store b' x) = ev_res (ev_store b x) \<and>
          (x \<noteq> ev \<longrightarrow> ev_io_timeout (ev_store b' x) = ev_io_timeout (ev_store b x)))"

lemma add_deadline_cong: "same_setup b b' \<Longrightarrow> add_deadline b' (gettime b' clk) tv absolute = add_deadline b (gettime b clk) tv absolute"
  by (simp add: add_deadline_def gettime_def same_setupD)

lemma add_timeout_ok:
  assumes inv: "base_inv b" and t: "t = add_deadline b (gettime b clk) tv absolute"
    and us: "is_common_timeout t b \<Longrightarrow> 0 \<le> tv_usec t \<and> tv_usec t < 2 ^ 32"
    and room: "\<not> is_common_timeout t b \<Longrightarrow> on_queue EVLIST_TIMEOUT b ev \<and> \<not> common_of b ev \<or> heap_n (timeheap b) < heap_a (timeheap b)"
  shows "\<exists>top b'. add_timeout m clk b ev tv absolute = Some (top, b') \<and> timeout_set ev t b b'"
proof -
  define b1 where "b1 = (if ev_closure (ev_store b ev) = EV_CLOSURE_PERSIST \<and> \<not> absolute
               then upd_ev b ev (\<lambda>x. x\<lparr>ev_io_timeout := tv\<rparr>) else b)"
  have inv1: "base_inv b1" using inv base_inv_upd_ev[of "\<lambda>x. x\<lparr>ev_io_timeout := tv\<rparr>"] by (simp add: b1_def)
  have f1: "same_setup b b1" "on_queue q b1 x = on_queue q b x" "ev_timeout (ev_store b1 x) = ev_timeout (ev_store b x)"
    "ev_res (ev_store b1 x) = ev_res (ev_store b x)" "timeheap b1 = timeheap b" "io_map b1 = io_map b" "sigmap b1 = sigmap b"
    "x \<noteq> ev \<longrightarrow> ev_io_timeout (ev_store b1 x) = ev_io_timeout (ev_store b x)" for q x
    by (simp_all add: b1_def upd_ev_def same_setup_def on_queue_def)
  obtain b2 where b2: "(if on_queue EVLIST_TIMEOUT b1 ev then event_queue_remove b1 ev EVLIST_TIMEOUT else Some b1) = Some b2"
    "base_inv b2" "queue_frame b1 b2" "same_setup b1 b2" "heap_a (timeheap b2) = heap_a (timeheap b1)"
    "\<forall>p \<in> {EVLIST_INSERTED, EVLIST_ACTIVE, EVLIST_TIMEOUT}. \<forall>x. on_queue p b2 x = (on_queue p b1 x \<and> \<not> (x = ev \<and> p = EVLIST_TIMEOUT))"
    using remove_if_on[OF inv1, of EVLIST_TIMEOUT ev] by auto
  define c where "c = (on_queue EVLIST_ACTIVE b2 ev \<and> has EV_TIMEOUT (ev_res (ev_store b2 ev)))"
  define b2' where "b2' = (if c then maybe_abort_signal b2 ev else b2)"
  have inv2': "base_inv b2'" using b2(2) by (simp add: b2'_def)
  obtain b3 where b3: "(if c then event_queue_remove (maybe_abort_signal b2 ev) ev EVLIST_ACTIVE else Some b2) = Some b3"
    "base_inv b3" "queue_frame b2' b3" "same_setup b2' b3" "heap_a (timeheap b3) = heap_a (timeheap b2')"
    "\<forall>p \<in> {EVLIST_INSERTED, EVLIST_ACTIVE, EVLIST_TIMEOUT}. \<forall>x. on_queue p b3 x = (on_queue p b2 x \<and> \<not> (c \<and> x = ev \<and> p = EVLIST_ACTIVE))"
  proof (cases c)
    case True
    then have "on_queue EVLIST_ACTIVE b2' ev" by (simp add: c_def b2'_def)
    then show ?thesis using that remove_if_on[OF inv2', of EVLIST_ACTIVE ev] True by (auto simp: b2'_def)
  next
    case False
    then show ?thesis using that[of b2] b2(2) by (simp add: b2'_def)
  qed
  have on3: "on_queue EVLIST_TIMEOUT b3 x = (on_queue EVLIST_TIMEOUT b x \<and> x \<noteq> ev)"
    "on_queue EVLIST_INSERTED b3 x = on_queue EVLIST_INSERTED b x"
    "on_queue EVLIST_ACTIVE b3 x = (on_queue EVLIST_ACTIVE b x \<and> \<not> (c \<and> x = ev))" for x
    using b2(6) b3(6) f1(2) by auto
  have c: "c = (on_queue EVLIST_ACTIVE b ev \<and> has EV_TIMEOUT (ev_res (ev_store b ev)))"
    using b2(6) by (simp add: c_def queue_frame_fields[OF b2(3)] f1)
  have ss3: "same_setup b b3" using same_setup_trans[OF same_setup_trans[OF f1(1) b2(4)]] b3(4) by (simp add: b2'_def split: if_splits)
  have ev2': "ev_store b2' = ev_store b2" "io_map b2' = io_map b2" "sigmap b2' = sigmap b2" "timeheap b2' = timeheap b2"
    by (simp_all add: b2'_def)
  have f3: "ev_timeout (ev_store b3 x) = ev_timeout (ev_store b x)" "ev_res (ev_store b3 x) = ev_res (ev_store b x)"
    "x \<noteq> ev \<longrightarrow> ev_io_timeout (ev_store b3 x) = ev_io_timeout (ev_store b x)" "io_map b3 = io_map b" "sigmap b3 = sigmap b" for x
    using queue_frame_fields[OF b2(3)] queue_frame_fields[OF b3(3)] f1(3,4,6,7,8) ev2' by simp_all
  have com3: "common_of b3 x = common_of b x" for x using f3(1) same_setupD(12)[OF ss3] by (simp add: common_of_def)
  define b4 where "b4 = upd_ev b3 ev (\<lambda>x. x\<lparr>ev_timeout := t\<rparr>)"
  have inv4: "base_inv b4" unfolding b4_def by (rule base_inv_set_timeout[OF b3(2)]) (simp add: on3)
  have f4: "on_queue q b4 x = on_queue q b3 x" "ev_timeout (ev_store b4 x) = (if x = ev then t else ev_timeout (ev_store b3 x))"
    "ev_res (ev_store b4 x) = ev_res (ev_store b3 x)" "ev_io_timeout (ev_store b4 x) = ev_io_timeout (ev_store b3 x)"
    "same_setup b3 b4" "timeheap b4 = timeheap b3" "io_map b4 = io_map b3" "sigmap b4 = sigmap b3" for q x
    by (simp_all add: b4_def upd_ev_def on_queue_def same_setup_def)
  note ss4 = same_setup_trans[OF ss3 f4(5)]
  have com4: "common_of b4 ev = is_common_timeout t b" using same_setupD(12)[OF ss4] by (simp add: common_of_def f4(2))
  have room4: "heap_n (timeheap b4) < heap_a (timeheap b4)" if "\<not> is_common_timeout t b"
    using heap_room[OF inv b3(2) _ com3 on3(1) room[OF that]] b3(5) b2(5) f1(5) ev2'(4) f4(6) by simp
  obtain b5 where b5: "event_queue_insert m b4 ev EVLIST_TIMEOUT = Some b5" "inserted_ok EVLIST_TIMEOUT ev b4 b5"
    using queue_insert_TIMEOUT[OF inv4, of ev m] room4 us com4 by (auto simp: f4 on3)
  have f5: "base_inv b5" "queue_frame b4 b5" "put_on EVLIST_TIMEOUT ev b4 b5" "same_setup b4 b5"
    using b5(2) inserted_ok_setup[OF b5(2)] by (simp_all add: inserted_ok_def)
  define top where "top = (on_queue EVLIST_TIMEOUT b1 ev \<and> min_heap_elt_is_top (ev_store b1) ev)"
  have d: "add_deadline b3 (gettime b3 clk) tv absolute = t" using add_deadline_cong[OF ss3] t by simp
  have s2: "(if on_queue EVLIST_TIMEOUT b1 ev then map_option (Pair (min_heap_elt_is_top (ev_store b1) ev)) (event_queue_remove b1 ev EVLIST_TIMEOUT)
       else Some (False, b1)) = Some (top, b2)" using b2(1) by (simp add: top_def split: if_splits)
  have "add_timeout m clk b ev tv absolute = Some (top, b5)"
    unfolding add_timeout_def Let_def b1_def[symmetric] s2 bind.bind_lunit prod.case c_def[symmetric] b3(1) d b4_def[symmetric] b5(1) ..
  moreover have "timeout_set ev t b b5"
    unfolding timeout_set_def using f5(1) same_setup_trans[OF ss4 f5(4)] c
    by (simp add: queue_frame_fields[OF f5(2)] put_on_simps[OF f5(3)] f4 on3 f3) blast
  ultimately show ?thesis by blast
qed

section \<open>Registering with the maps\<close>

definition registers :: "event_base \<Rightarrow> event_id \<Rightarrow> bool" where
  "registers b ev \<longleftrightarrow> has (EV_READ OR EV_WRITE OR EV_SIGNAL) (ev_events (ev_store b ev)) \<and>
     \<not> on_queue EVLIST_INSERTED b ev \<and> \<not> on_queue EVLIST_ACTIVE b ev"

text \<open>What \<open>evmap_make_space\<close> can handle, and \<open>evmap_signal_add\<close> needs.\<close>

definition fd_ok :: "event \<Rightarrow> bool" where
  "fd_ok e \<longleftrightarrow> ev_fd e < 2 ^ 30 \<and> (has (EV_READ OR EV_WRITE) (ev_events e) \<or> 0 \<le> ev_fd e)"

lemma maps_add_ok:
  assumes maps: "maps_ok (ev_store b) I (io_map b) (sigmap b)" and ev: "ev \<notin> I" and fd: "fd_ok (ev_store b ev)"
  shows "\<exists>r b'. (if has (EV_READ OR EV_WRITE) (ev_events (ev_store b ev)) then evmap_io_add evsel m b (ev_fd (ev_store b ev)) ev
        else evmap_signal_add evsel m b (ev_fd (ev_store b ev)) ev) = Some (r, b') \<and> maps_frame b b' \<and>
     (r = - 1 \<and> maps_ok (ev_store b) I (io_map b') (sigmap b') \<or>
      (r = 0 \<or> r = 1) \<and> maps_ok (ev_store b) (insert ev I) (io_map b') (sigmap b'))"
proof (cases "has (EV_READ OR EV_WRITE) (ev_events (ev_store b ev))")
  case True
  then show ?thesis using evmap_io_add_ok[OF maps ev True, of evsel m] fd by (simp add: fd_ok_def)
next
  case False
  from evmap_signal_add_ok[OF maps ev False, of evsel m] fd False obtain r b' where
    "evmap_signal_add evsel m b (ev_fd (ev_store b ev)) ev = Some (r, b')" "maps_frame b b'"
    "r = - 1 \<and> maps_ok (ev_store b) I (io_map b') (sigmap b') \<or>
      r = 1 \<and> maps_ok (ev_store b) (insert ev I) (io_map b') (sigmap b')" by (auto simp: fd_ok_def)
  then show ?thesis using False by (intro exI[of _ r] exI[of _ b']) auto
qed

definition registered :: "event_id set \<Rightarrow> event_id \<Rightarrow> event_base \<Rightarrow> event_base \<Rightarrow> bool" where
  "registered I ev b b' \<longleftrightarrow>
     maps_covered (if registers b ev then insert ev I else I) b' \<and>
     (\<forall>x. on_queue EVLIST_INSERTED b' x = (on_queue EVLIST_INSERTED b x \<or> x = ev \<and> registers b ev) \<and>
          on_queue EVLIST_ACTIVE b' x = on_queue EVLIST_ACTIVE b x \<and>
          on_queue EVLIST_TIMEOUT b' x = on_queue EVLIST_TIMEOUT b x)"

lemma add_to_maps_ok:
  assumes inv: "base_inv b" and maps: "maps_covered I b" and new: "registers b ev \<Longrightarrow> ev \<notin> I \<and> fd_ok (ev_store b ev)"
  shows "\<exists>res notify b'. add_to_maps evsel m b ev = Some (res, notify, b') \<and> base_inv b' \<and> same_setup b b' \<and> same_times b b' \<and>
     timeheap b' = timeheap b \<and>
     (res = - 1 \<and> maps_covered I b' \<and> ev_store b' = ev_store b \<or> res = 0 \<and> registered I ev b b')"
proof (cases "registers b ev")
  case False
  then have "\<not> (has (EV_READ OR EV_WRITE OR EV_SIGNAL) (ev_events (ev_store b ev)) \<and>
      \<not> has (EVLIST_INSERTED OR EVLIST_ACTIVE) (ev_flags (ev_store b ev)))"
    unfolding registers_def on_queue_def by (auto simp: has_iff_bit bit_or_iff)
  then have "add_to_maps evsel m b ev = Some (0, False, b)" unfolding add_to_maps_def Let_def by (rule if_not_P)
  then show ?thesis using inv maps False
    by (intro exI[of _ 0] exI[of _ False] exI[of _ b]) (simp add: registered_def same_times_def)
next
  case True
  then have c: "has (EV_READ OR EV_WRITE OR EV_SIGNAL) (ev_events (ev_store b ev)) \<and>
      \<not> has (EVLIST_INSERTED OR EVLIST_ACTIVE) (ev_flags (ev_store b ev))"
    unfolding registers_def on_queue_def by (auto simp: has_iff_bit bit_or_iff)
  have m: "maps_ok (ev_store b) I (io_map b) (sigmap b)" using maps by (simp add: maps_covered_def)
  from maps_add_ok[OF m, of ev evsel m] new[OF True] obtain r b1 where
    b1: "(if has (EV_READ OR EV_WRITE) (ev_events (ev_store b ev)) then evmap_io_add evsel m b (ev_fd (ev_store b ev)) ev
        else evmap_signal_add evsel m b (ev_fd (ev_store b ev)) ev) = Some (r, b1)" "maps_frame b b1"
     "r = - 1 \<and> maps_ok (ev_store b) I (io_map b1) (sigmap b1) \<or>
      (r = 0 \<or> r = 1) \<and> maps_ok (ev_store b) (insert ev I) (io_map b1) (sigmap b1)" by (elim exE conjE) blast
  note f1 = maps_frame_simps[OF b1(2)]
  have i1: "base_inv b1" "same_setup b b1" using inv base_inv_maps_frame[OF b1(2)] same_setup_maps_frame[OF b1(2)] by simp_all
  have step: "add_to_maps evsel m b ev = do {
      b2 \<leftarrow> (if r \<noteq> - 1 then event_queue_insert m b1 ev EVLIST_INSERTED else Some b1);
      Some (if r = 1 then 0 else r, r = 1, b2) }"
    unfolding add_to_maps_def Let_def if_P[OF c] b1(1) bind.bind_lunit prod.case ..
  show ?thesis
  proof (cases "r = - 1")
    case r: True
    then have "maps_covered I b1" using b1(3) maps f1 by (simp add: maps_covered_def)
    then show ?thesis using step r i1 f1
      by (intro exI[of _ "- 1 :: int"] exI[of _ False] exI[of _ b1]) (simp add: same_times_def)
  next
    case False
    have "\<not> on_queue EVLIST_INSERTED b1 ev" using True f1 by (simp add: registers_def)
    from queue_insert_INSERTED[OF i1(1) this, of m] obtain b2 where b2: "event_queue_insert m b1 ev EVLIST_INSERTED = Some b2"
      "inserted_ok EVLIST_INSERTED ev b1 b2" "timeheap b2 = timeheap b1" by (elim exE conjE) (rule that)
    have f2: "base_inv b2" "queue_frame b1 b2" "put_on EVLIST_INSERTED ev b1 b2" "same_setup b1 b2"
      using b2(2) inserted_ok_setup[OF b2(2)] by (simp_all add: inserted_ok_def)
    have "maps_ok (ev_store b2) (insert ev I) (io_map b2) (sigmap b2)"
      using b1(3) False maps_ok_cong[of "ev_store b2" "ev_store b"] queue_frame_fields[OF f2(2)] f1 by simp
    then have "registered I ev b b2"
      using maps True f1 by (auto simp: registered_def maps_covered_def put_on_simps[OF f2(3)])
    moreover have "same_times b b2" using same_times_queue_frame[OF f2(2)] f1(1) by (simp add: same_times_def)
    moreover have "add_to_maps evsel m b ev = Some (0, r = 1, b2)" using step b2(1) False b1(3) by auto
    ultimately show ?thesis using f2(1) same_setup_trans[OF i1(2) f2(4)] b2(3) f1(3) by simp
  qed
qed

section \<open>Adding\<close>

text \<open>The effect of a successful addition, the timer of a common timeout apart.\<close>

definition added :: "event_id set \<Rightarrow> event_id \<Rightarrow> timeval option \<Rightarrow> event_base \<Rightarrow> event_base \<Rightarrow> bool" where
  "added I ev d b b' \<longleftrightarrow>
     base_inv b' \<and> same_setup b b' \<and> maps_covered (if registers b ev then insert ev I else I) b' \<and>
     (\<forall>x. on_queue EVLIST_INSERTED b' x = (on_queue EVLIST_INSERTED b x \<or> x = ev \<and> registers b ev) \<and>
          on_queue EVLIST_TIMEOUT b' x = (on_queue EVLIST_TIMEOUT b x \<or> x = ev \<and> d \<noteq> None) \<and>
          on_queue EVLIST_ACTIVE b' x =
            (on_queue EVLIST_ACTIVE b x \<and> \<not> (x = ev \<and> d \<noteq> None \<and> has EV_TIMEOUT (ev_res (ev_store b ev)))) \<and>
          ev_timeout (ev_store b' x) = (case d of Some t \<Rightarrow> if x = ev then t else ev_timeout (ev_store b x)
                                                | None \<Rightarrow> ev_timeout (ev_store b x)) \<and>
          ev_res (ev_store b' x) = ev_res (ev_store b x))"

definition unchanged :: "event_id set \<Rightarrow> event_base \<Rightarrow> event_base \<Rightarrow> bool" where
  "unchanged I b b' \<longleftrightarrow> base_inv b' \<and> same_setup b b' \<and> maps_covered I b' \<and> ev_store b' = ev_store b"

text \<open>What the timeout argument of an addition has to satisfy.\<close>

definition timeout_fits :: "timeval \<Rightarrow> event_base \<Rightarrow> event_id \<Rightarrow> timeval \<Rightarrow> bool \<Rightarrow> bool" where
  "timeout_fits clk b ev tv absolute \<longleftrightarrow>
     (let t = add_deadline b (gettime b clk) tv absolute in
      is_common_timeout t b = is_common_timeout tv b \<and>
      (is_common_timeout t b \<longrightarrow> 0 \<le> tv_usec t \<and> tv_usec t < 2 ^ 32) \<and>
      (on_queue EVLIST_TIMEOUT b ev \<and> common_of b ev \<and> \<not> is_common_timeout t b \<longrightarrow> heap_n (timeheap b) < heap_a (timeheap b)))"

lemma base_inv_heap:
  assumes "base_inv b" "min_heap_reserve m (timeheap b) k = Some h"
  shows "base_inv (b\<lparr>timeheap := h\<rparr>)" "k \<le> heap_a h" "heap_n h = heap_n (timeheap b)"
proof -
  have T: "min_heap_inv (ev_store b) (timeheap b)" using base_invD(4)[OF assms(1)] by (simp add: timers_ok_def)
  note D = min_heap_invD[OF T]
  note R = min_heap_reserve_Some[OF assms(2) D(2,1)]
  show "heap_n h = heap_n (timeheap b)" by (rule R(1))
  show "k \<le> heap_a h" using R(2,3) by simp
  have el: "min_heap_elems h = min_heap_elems (timeheap b)" using R(1,4) by (simp add: min_heap_elems_def)
  have "parent_pos j < heap_n (timeheap b)" if "0 < j" "j < heap_n (timeheap b)" for j
    using parent_pos_less[OF that(1)] that(2) by simp
  then have "heap_order (event_key (ev_store b)) (heap_p h) (heap_n h)"
    using D(3) R(1,5) by (simp add: heap_order_def)
  moreover have "heap_n (timeheap b) \<le> length (heap_p h)" using R(4) D(1,2) by (metis length_take min_def nle_le)
  ultimately have "min_heap_inv (ev_store b) h"
    using T R el unfolding min_heap_inv_def by simp
  moreover have "base_inv b \<Longrightarrow> min_heap_inv (ev_store b) h \<Longrightarrow> base_inv (b\<lparr>timeheap := h\<rparr>)"
    unfolding base_inv_def active_ok_def timers_ok_def counts_ok_def visible_on_def common_of_def idx_of_def on_queue_def
      is_common_timeout_def using el by simp
  ultimately show "base_inv (b\<lparr>timeheap := h\<rparr>)" using assms(1) by blast
qed

text \<open>The reservation at the start of \<open>event_add_internal\<close>.\<close>

lemma add_reserve_ok:
  assumes inv: "base_inv b"
    and h: "(if tv \<noteq> None \<and> \<not> on_queue EVLIST_TIMEOUT b ev then min_heap_reserve m (timeheap b) (1 + min_heap_size (timeheap b))
             else Some (timeheap b)) = Some h"
  shows "base_inv (b\<lparr>timeheap := h\<rparr>)" "tv \<noteq> None \<and> \<not> on_queue EVLIST_TIMEOUT b ev \<Longrightarrow> heap_n h < heap_a h"
    "heap_n (timeheap b) < heap_a (timeheap b) \<Longrightarrow> heap_n h < heap_a h"
proof -
  have *: "b\<lparr>timeheap := timeheap b\<rparr> = b" by simp
  show "base_inv (b\<lparr>timeheap := h\<rparr>)"
    using h inv base_inv_heap(1)[OF inv] by (auto simp: * split: if_splits)
  show r: "tv \<noteq> None \<and> \<not> on_queue EVLIST_TIMEOUT b ev \<Longrightarrow> heap_n h < heap_a h"
    using h base_inv_heap(2,3)[OF inv, of m "1 + min_heap_size (timeheap b)" h] by (auto simp: min_heap_size_def)
  show "heap_n (timeheap b) < heap_a (timeheap b) \<Longrightarrow> heap_n h < heap_a h" using h r by (auto split: if_splits)
qed

text \<open>The end of \<open>event_add_internal\<close> for a common timeout: its timer is set if the event is the first of its list.\<close>

definition schedule_head ::
  "(event_base \<Rightarrow> common_timeout_list \<Rightarrow> event_id \<Rightarrow> event_base option) \<Rightarrow> event_base \<Rightarrow> event_id \<Rightarrow> event_base option" where
  "schedule_head schedule b ev =
     (let ctl = get_common_timeout_list b (ev_timeout (ev_store b ev)) in
      case ctl_events ctl of [] \<Rightarrow> Some b | e # _ \<Rightarrow> if e = ev then schedule b ctl ev else Some b)"

lemma add_step_ok:
  assumes inv: "base_inv b" and maps: "maps_covered I b" and new: "registers b ev \<Longrightarrow> ev \<notin> I \<and> fd_ok (ev_store b ev)"
    and fl: "ev_flags (ev_store b ev) AND NOT EVLIST_ALL = 0"
    and tv: "\<And>t. tv = Some t \<Longrightarrow> timeout_fits clk b ev t absolute"
  defines "d \<equiv> map_option (\<lambda>t. add_deadline b (gettime b clk) t absolute) tv"
  shows "(\<exists>b'. add_step sch evsel m clk b ev tv absolute = Some (- 1, b') \<and> unchanged I b b') \<or>
    (\<exists>n b'. added I ev d b b' \<and> add_step sch evsel m clk b ev tv absolute =
       (if \<exists>t. tv = Some t \<and> is_common_timeout t b
        then do { b'' \<leftarrow> schedule_head sch b' ev; Some (0, notify_if n b'') } else Some (0, notify_if n b')))"
proof (cases "if tv \<noteq> None \<and> \<not> on_queue EVLIST_TIMEOUT b ev then min_heap_reserve m (timeheap b) (1 + min_heap_size (timeheap b))
             else Some (timeheap b)")
  case None
  then have "add_step sch evsel m clk b ev tv absolute = Some (- 1, b)" using fl unfolding add_step_def by simp
  then show ?thesis using inv maps by (simp add: unchanged_def)
next
  case (Some h)
  define b1 where "b1 = b\<lparr>timeheap := h\<rparr>"
  note R = add_reserve_ok[OF inv Some, folded b1_def]
  have b1: "same_setup b b1" "on_queue q b1 x = on_queue q b x" "ev_store b1 = ev_store b" "common_of b1 x = common_of b x"
    "registers b1 x = registers b x" "maps_covered I b1 = maps_covered I b" "timeheap b1 = h" for q x
    by (simp_all add: b1_def same_setup_def on_queue_def common_of_def is_common_timeout_def registers_def maps_covered_def)
  from add_to_maps_ok[OF R(1), of I ev evsel m] maps new obtain res ntf b2 where
    b2: "add_to_maps evsel m b1 ev = Some (res, ntf, b2)" "base_inv b2" "same_setup b1 b2" "same_times b1 b2" "timeheap b2 = h"
      "res = - 1 \<and> maps_covered I b2 \<and> ev_store b2 = ev_store b \<or> res = 0 \<and> registered I ev b1 b2"
    by (auto simp: b1)
  note ss2 = same_setup_trans[OF b1(1) b2(3)]
  have step: "add_step sch evsel m clk b ev tv absolute =
     (case tv of
        None \<Rightarrow> Some (res, notify_if (res \<noteq> - 1 \<and> ntf) b2)
      | Some t \<Rightarrow> if res = - 1 then Some (- 1, b2)
          else do {
            (was_top, b3) \<leftarrow> add_timeout m clk b2 ev t absolute;
            if is_common_timeout t b2
            then do { b'' \<leftarrow> schedule_head sch b3 ev; Some (res, notify_if (ntf \<or> was_top) b'') }
            else Some (res, notify_if (ntf \<or> was_top \<or> min_heap_elt_is_top (ev_store b3) ev) b3)
          })"
    using fl unfolding add_step_def Some option.case b1_def[symmetric] b2(1) bind.bind_lunit prod.case schedule_head_def Let_def
    by (cases tv) (simp_all only: option.case bind.bind_lunit prod.case simp_thms if_False)
  show ?thesis
  proof (cases "res = - 1")
    case True
    then have "add_step sch evsel m clk b ev tv absolute = Some (- 1, b2)"
      unfolding step by (cases tv) (simp_all add: notify_if_def)
    then show ?thesis using b2(2,6) ss2 True by (simp add: unchanged_def)
  next
    case False
    then have reg: "res = 0" "registered I ev b1 b2" using b2(6) by simp_all
    then have r2: "maps_covered (if registers b ev then insert ev I else I) b2"
      "on_queue EVLIST_INSERTED b2 x = (on_queue EVLIST_INSERTED b x \<or> x = ev \<and> registers b ev)"
      "on_queue EVLIST_ACTIVE b2 x = on_queue EVLIST_ACTIVE b x" "on_queue EVLIST_TIMEOUT b2 x = on_queue EVLIST_TIMEOUT b x" for x
      by (simp_all add: registered_def b1)
    have t2: "ev_timeout (ev_store b2 x) = ev_timeout (ev_store b x)" "ev_res (ev_store b2 x) = ev_res (ev_store b x)" for x
      using b2(4) by (simp_all add: same_times_def b1)
    show ?thesis
    proof (cases tv)
      case None
      then have "added I ev d b b2" using b2(2) ss2 r2 t2 by (simp add: added_def d_def)
      then show ?thesis using step None reg by auto
    next
      case (Some t)
      define t' where "t' = add_deadline b (gettime b clk) t absolute"
      have fits: "is_common_timeout t' b = is_common_timeout t b" "is_common_timeout t' b \<Longrightarrow> 0 \<le> tv_usec t' \<and> tv_usec t' < 2 ^ 32"
        "on_queue EVLIST_TIMEOUT b ev \<and> common_of b ev \<and> \<not> is_common_timeout t' b \<Longrightarrow> heap_n (timeheap b) < heap_a (timeheap b)"
        using tv[OF Some] by (simp_all add: timeout_fits_def t'_def Let_def)
      have com2: "is_common_timeout u b2 = is_common_timeout u b" "common_of b2 x = common_of b x" for u x
        using same_setupD(12)[OF ss2] t2 by (simp_all add: common_of_def)
      have "\<exists>top b3. add_timeout m clk b2 ev t absolute = Some (top, b3) \<and> timeout_set ev t' b2 b3"
      proof (rule add_timeout_ok[OF b2(2)])
        show "t' = add_deadline b2 (gettime b2 clk) t absolute" using add_deadline_cong[OF ss2] by (simp add: t'_def)
        show "is_common_timeout t' b2 \<Longrightarrow> 0 \<le> tv_usec t' \<and> tv_usec t' < 2 ^ 32" using fits(2) com2 by simp
        show "\<not> is_common_timeout t' b2 \<Longrightarrow> on_queue EVLIST_TIMEOUT b2 ev \<and> \<not> common_of b2 ev \<or> heap_n (timeheap b2) < heap_a (timeheap b2)"
          using fits(3) R(2,3) Some com2 r2(4) b2(5) by auto
      qed
      then obtain top b3 where b3: "add_timeout m clk b2 ev t absolute = Some (top, b3)" "timeout_set ev t' b2 b3" by blast
      have T3: "base_inv b3" "same_setup b2 b3" "io_map b3 = io_map b2" "sigmap b3 = sigmap b2"
        "on_queue EVLIST_TIMEOUT b3 x = (on_queue EVLIST_TIMEOUT b2 x \<or> x = ev)" "on_queue EVLIST_INSERTED b3 x = on_queue EVLIST_INSERTED b2 x"
        "on_queue EVLIST_ACTIVE b3 x = (on_queue EVLIST_ACTIVE b2 x \<and> \<not> (x = ev \<and> has EV_TIMEOUT (ev_res (ev_store b2 ev))))"
        "ev_timeout (ev_store b3 x) = (if x = ev then t' else ev_timeout (ev_store b2 x))" "ev_res (ev_store b3 x) = ev_res (ev_store b2 x)" for x
        using b3(2) unfolding timeout_set_def by blast+
      have "maps_covered (if registers b ev then insert ev I else I) b3"
        using r2(1) maps_ok_cong[of "ev_store b3" "ev_store b2"] same_setupD(1,2)[OF T3(2)] T3(3,4,6) by (simp add: maps_covered_def)
      then have ad: "added I ev d b b3"
        using T3(1) same_setup_trans[OF ss2 T3(2)] Some by (simp add: added_def d_def t'_def[symmetric] T3(5-9) r2(2-4) t2)
      have "add_step sch evsel m clk b ev tv absolute = (if is_common_timeout t b
          then do { b'' \<leftarrow> schedule_head sch b3 ev; Some (0, notify_if (ntf \<or> top) b'') }
          else Some (0, notify_if (ntf \<or> top \<or> min_heap_elt_is_top (ev_store b3) ev) b3))"
        using step reg(1) b3(1) Some by (simp add: com2)
      then show ?thesis using ad Some by (cases "is_common_timeout t b") auto
    qed
  qed
qed

section \<open>Common timeouts and the time they are due\<close>

lemma mask_usec_not_common [simp]: "\<not> is_common_timeout (mask_usec t) b"
proof -
  have "tv_usec t AND MICROSECONDS_MASK AND COMMON_TIMEOUT_MASK = 0"
    by (simp add: MICROSECONDS_MASK_def COMMON_TIMEOUT_MASK_def)
  then show ?thesis by (simp add: is_common_timeout_def mask_usec_def COMMON_TIMEOUT_MAGIC_def and.assoc)
qed

lemma mask_usec_small: "0 \<le> tv_usec t \<Longrightarrow> tv_usec t < 2 ^ 20 \<Longrightarrow> mask_usec t = t"
  using take_bit_int_eq_self[of "tv_usec t" 20] by (cases t) (simp add: mask_usec_def timeout_masks take_bit_eq_mask)

lemma small_usec_not_common: "0 \<le> tv_usec t \<Longrightarrow> tv_usec t < 2 ^ 20 \<Longrightarrow> \<not> is_common_timeout t b"
  using mask_usec_not_common[of t b] mask_usec_small[of t] by simp

text \<open>Setting the low bits of a common timeout keeps it a common timeout of the same list.\<close>

lemma common_low_bits:
  assumes u: "0 \<le> u" "u < 2 ^ 20" and v: "0 \<le> v" "v < 2 ^ 31"
  defines "w \<equiv> u OR (v AND NOT MICROSECONDS_MASK)"
  shows "w AND COMMON_TIMEOUT_MASK = v AND COMMON_TIMEOUT_MASK" "w AND COMMON_TIMEOUT_IDX_MASK = v AND COMMON_TIMEOUT_IDX_MASK"
    "0 \<le> w" "w < 2 ^ 32" "w AND MICROSECONDS_MASK = u"
proof -
  have bw: "bit w n = (bit u n \<or> bit v n \<and> 20 \<le> n)" for n
    by (auto simp: w_def bit_or_iff bit_and_iff bit_not_iff_eq timeout_masks bit_mask_iff)
  have bu: "\<not> bit u n" if "20 \<le> n" for n using int_bit_bound[OF u that] .
  have high: "w AND M = v AND M" if M: "\<And>n. bit M n \<Longrightarrow> 20 \<le> n" for M
    by (rule bit_eqI) (use bw bu M in \<open>auto simp: bit_and_iff\<close>)
  show "w AND COMMON_TIMEOUT_MASK = v AND COMMON_TIMEOUT_MASK"
    by (rule high) (simp add: timeout_masks bit_push_bit_iff)
  show "w AND COMMON_TIMEOUT_IDX_MASK = v AND COMMON_TIMEOUT_IDX_MASK"
    by (rule high) (simp add: timeout_masks bit_push_bit_iff)
  show "w AND MICROSECONDS_MASK = u"
  proof (rule bit_eqI)
    fix n show "bit (w AND MICROSECONDS_MASK) n = bit u n"
      using bu[of n] by (cases "20 \<le> n") (simp_all add: bit_and_iff bw timeout_masks bit_mask_iff)
  qed
  show "0 \<le> w" using u v by (simp add: w_def or_nonnegative_int_iff)
  have "bit (take_bit 32 w) n = bit w n" for n
  proof (cases "n < 32")
    case False
    then have "20 \<le> n" "31 \<le> n" by simp_all
    then show ?thesis using False bw[of n] bu[of n] int_bit_bound[OF v, of n] unfolding bit_take_bit_iff by blast
  qed (simp add: bit_take_bit_iff)
  then have "take_bit 32 w = w" by (intro bit_eqI) blast
  then show "w < 2 ^ 32" by (metis take_bit_int_less_exp)
qed

definition usec_ok :: "timeval \<Rightarrow> event_base \<Rightarrow> bool" where
  "usec_ok tv b \<longleftrightarrow> 0 \<le> tv_usec tv \<and> (if is_common_timeout tv b then tv_usec tv < 2 ^ 31 else tv_usec tv < 1000000)"

lemma add_deadline_common:
  fixes absolute :: bool
  assumes now: "0 \<le> tv_usec now" "tv_usec now < 1000000" and tv: "usec_ok tv b"
  defines "t \<equiv> add_deadline b now tv absolute"
  shows "is_common_timeout t b = is_common_timeout tv b" "is_common_timeout t b \<Longrightarrow> 0 \<le> tv_usec t \<and> tv_usec t < 2 ^ 32"
    "is_common_timeout tv b \<Longrightarrow> COMMON_TIMEOUT_IDX t = COMMON_TIMEOUT_IDX tv"
    "\<not> absolute \<Longrightarrow> mask_usec t = evutil_timeradd now (mask_usec tv)"
proof -
  let ?s = "evutil_timeradd now (mask_usec tv)"
  have m: "0 \<le> tv_usec tv AND MICROSECONDS_MASK" "tv_usec tv AND MICROSECONDS_MASK < 2 ^ 20"
    using take_bit_nonnegative[of 20 "tv_usec tv"] take_bit_int_less_exp[of 20 "tv_usec tv"]
    by (simp_all add: timeout_masks take_bit_eq_mask)
  have s: "0 \<le> tv_usec ?s" "tv_usec ?s < 2 ^ 20"
    using m now by (auto simp: evutil_timeradd_def Let_def mask_usec_def)
  let ?P = "is_common_timeout t b = is_common_timeout tv b \<and> (is_common_timeout t b \<longrightarrow> 0 \<le> tv_usec t \<and> tv_usec t < 2 ^ 32) \<and>
    (is_common_timeout tv b \<longrightarrow> COMMON_TIMEOUT_IDX t = COMMON_TIMEOUT_IDX tv) \<and>
    (\<not> absolute \<longrightarrow> mask_usec t = evutil_timeradd now (mask_usec tv))"
  have abs: ?P if absolute
    using that tv by (auto simp: t_def add_deadline_def usec_ok_def)
  have com: ?P if c: "\<not> absolute" "is_common_timeout tv b"
  proof -
    have v: "0 \<le> tv_usec tv" "tv_usec tv < 2 ^ 31" using c tv by (simp_all add: usec_ok_def)
    have t: "t = Timeval (tv_sec ?s) (tv_usec ?s OR (tv_usec tv AND NOT MICROSECONDS_MASK))"
      using c by (simp add: t_def add_deadline_def Let_def)
    note L = common_low_bits[OF s v]
    have i: "COMMON_TIMEOUT_IDX t = COMMON_TIMEOUT_IDX tv" by (simp add: COMMON_TIMEOUT_IDX_def t L(2))
    have is_c: "is_common_timeout t b = is_common_timeout tv b" by (simp add: is_common_timeout_def i) (simp add: t L(1))
    show ?P using i is_c L(3-5) by (simp add: t mask_usec_def)
  qed
  have non: ?P if c: "\<not> absolute" "\<not> is_common_timeout tv b"
  proof -
    have v: "mask_usec tv = tv" using c tv by (intro mask_usec_small) (simp_all add: usec_ok_def)
    have t: "t = ?s" using c v by (simp add: t_def add_deadline_def)
    show ?P using c small_usec_not_common[OF s] mask_usec_small[OF s] v by (simp add: t)
  qed
  from abs com non show "is_common_timeout t b = is_common_timeout tv b" "is_common_timeout t b \<Longrightarrow> 0 \<le> tv_usec t \<and> tv_usec t < 2 ^ 32"
    "is_common_timeout tv b \<Longrightarrow> COMMON_TIMEOUT_IDX t = COMMON_TIMEOUT_IDX tv"
    "\<not> absolute \<Longrightarrow> mask_usec t = evutil_timeradd now (mask_usec tv)" by blast+
qed

text \<open>The timer of a common timeout is set to the time of the first event of the list.\<close>

definition ctl_timer_ok :: "event_base \<Rightarrow> event_id \<Rightarrow> bool" where
  "ctl_timer_ok b e \<longleftrightarrow>
     \<not> has (EV_READ OR EV_WRITE OR EV_SIGNAL) (ev_events (ev_store b e)) \<and>
     ev_flags (ev_store b e) AND NOT EVLIST_ALL = 0 \<and>
     (on_queue EVLIST_TIMEOUT b e \<longrightarrow> \<not> common_of b e)"

definition ctl_timers :: "event_base \<Rightarrow> event_id set" where
  "ctl_timers b = timeout_event ` set (common_timeout_queues b)"

lemma ctl_timers_cong: "same_setup b b' \<Longrightarrow> ctl_timers b' = ctl_timers b"
  using arg_cong[OF same_setupD(8), of b b' set] by (simp add: ctl_timers_def)

lemma common_timeout_schedule_ok:
  fixes head :: event_id
  assumes inv: "base_inv b" and maps: "maps_covered I b" and timer: "ctl_timer_ok b (timeout_event ctl)"
  defines "d \<equiv> mask_usec (ev_timeout (ev_store b head))"
  shows "\<exists>b'. common_timeout_schedule evsel m clk b ctl head = Some b' \<and>
     (unchanged I b b' \<or> added I (timeout_event ctl) (Some d) b b')"
proof -
  let ?e = "timeout_event ctl"
  have nr: "\<not> registers b ?e" using timer by (simp add: registers_def ctl_timer_ok_def)
  have fl: "ev_flags (ev_store b ?e) AND NOT EVLIST_ALL = 0" using timer by (simp add: ctl_timer_ok_def)
  have dl: "add_deadline b (gettime b clk) d True = d" by (simp add: add_deadline_def)
  have nc: "\<not> is_common_timeout d b" by (simp add: d_def)
  have fits: "timeout_fits clk b ?e d True" using timer nc by (auto simp: timeout_fits_def dl Let_def ctl_timer_ok_def)
  let ?r = "add_step (\<lambda>_ _ _. None) evsel m clk b ?e (Some d) True"
  have "(\<exists>b'. ?r = Some (- 1, b') \<and> unchanged I b b') \<or> (\<exists>n b'. added I ?e (Some d) b b' \<and> ?r = Some (0, notify_if n b'))"
    using add_step_ok[OF inv maps _ fl, of "Some d" clk True "\<lambda>_ _ _. None" evsel m] nr fits nc dl by auto
  then show ?thesis
  proof (elim disjE exE conjE)
    fix b' assume "?r = Some (- 1, b')" "unchanged I b b'"
    then show ?thesis by (simp add: common_timeout_schedule_def d_def)
  next
    fix n b' assume "added I ?e (Some d) b b'" "?r = Some (0, notify_if n b')"
    moreover from this have "added I ?e (Some d) b (notify_if n b')" by (simp add: added_def maps_covered_def)
    ultimately show ?thesis by (simp add: common_timeout_schedule_def d_def)
  qed
qed

text \<open>
  \<open>event_add_internal\<close>: it fails without any change to the events, or has the effect of \<open>added\<close> on
  every event but the timers of the common timeouts.
\<close>

definition added_but :: "event_id set \<Rightarrow> event_id set \<Rightarrow> event_id \<Rightarrow> timeval option \<Rightarrow> event_base \<Rightarrow> event_base \<Rightarrow> bool" where
  "added_but Z I ev d b b' \<longleftrightarrow>
     base_inv b' \<and> same_setup b b' \<and> maps_covered (if registers b ev then insert ev I else I) b' \<and>
     (\<forall>x. on_queue EVLIST_INSERTED b' x = (on_queue EVLIST_INSERTED b x \<or> x = ev \<and> registers b ev)) \<and>
     (\<forall>x. x \<notin> Z \<longrightarrow>
          on_queue EVLIST_TIMEOUT b' x = (on_queue EVLIST_TIMEOUT b x \<or> x = ev \<and> d \<noteq> None) \<and>
          on_queue EVLIST_ACTIVE b' x =
            (on_queue EVLIST_ACTIVE b x \<and> \<not> (x = ev \<and> d \<noteq> None \<and> has EV_TIMEOUT (ev_res (ev_store b ev)))) \<and>
          ev_timeout (ev_store b' x) = (case d of Some t \<Rightarrow> if x = ev then t else ev_timeout (ev_store b x)
                                                | None \<Rightarrow> ev_timeout (ev_store b x))) \<and>
     (\<forall>x. ev_res (ev_store b' x) = ev_res (ev_store b x)) \<and> (\<forall>e \<in> Z. ctl_timer_ok b' e)"

lemma ctl_timer_ok_notify [simp]: "ctl_timer_ok (notify_if n b) e = ctl_timer_ok b e"
  by (simp add: ctl_timer_ok_def common_of_def is_common_timeout_def)

lemma ctl_timer_ok_unchanged: "unchanged I b b' \<Longrightarrow> ctl_timer_ok b' e = ctl_timer_ok b e"
  using same_setupD(12)[of b b'] by (simp add: unchanged_def ctl_timer_ok_def common_of_def on_queue_def)


lemma ctl_timer_ok_added:
  assumes "added I ev d b b'" "ctl_timer_ok b e" "e \<noteq> ev"
  shows "ctl_timer_ok b' e" "\<not> registers b' e"
proof -
  have a: "same_setup b b'" "on_queue EVLIST_TIMEOUT b' e = on_queue EVLIST_TIMEOUT b e" "ev_timeout (ev_store b' e) = ev_timeout (ev_store b e)"
    using assms(1,3) by (auto simp: added_def split: option.splits)
  show "ctl_timer_ok b' e" using assms(2) unfolding ctl_timer_ok_def common_of_def same_setupD[OF a(1)] a(2,3) .
  then show "\<not> registers b' e" by (simp add: ctl_timer_ok_def registers_def)
qed

lemma added_but_added:
  assumes "added I ev d b b'" "\<forall>e \<in> Z. ctl_timer_ok b e" "ev \<notin> Z"
  shows "added_but Z I ev d b (notify_if n b')"
proof -
  have "ctl_timer_ok b' e" if "e \<in> Z" for e
    using ctl_timer_ok_added(1)[OF assms(1)] assms(2,3) that by metis
  then show ?thesis using assms(1) unfolding added_def added_but_def maps_covered_def by simp
qed

text \<open>Setting one of these timers does not matter for the other events.\<close>

lemma added_but_timer:
  assumes ad: "added I ev d b b'" and t: "e \<in> Z" "e \<noteq> ev" "\<not> registers b' e"
    and J: "J = (if registers b ev then insert ev I else I)"
    and Z: "\<forall>e \<in> Z. ctl_timer_ok b e" "ev \<notin> Z" and d': "\<not> is_common_timeout d' b"
    and sch: "unchanged J b' b'' \<or> added J e (Some d') b' b''"
  shows "added_but Z I ev d b (notify_if n b'')"
  using sch
proof
  assume u: "unchanged J b' b''"
  then have "added I ev d b b''" using ad same_setup_trans[of b b' b'']
    unfolding unchanged_def added_def J on_queue_def by simp
  then show ?thesis using Z by (rule added_but_added)
next
  assume a: "added J e (Some d') b' b''"
  have ss: "same_setup b b''" using ad a same_setup_trans[of b b' b''] by (simp add: added_def)
  moreover have "on_queue EVLIST_INSERTED b'' x = (on_queue EVLIST_INSERTED b x \<or> x = ev \<and> registers b ev)"
      "ev_res (ev_store b'' x) = ev_res (ev_store b x)" for x
    using ad a t(3) by (simp_all add: added_def)
  moreover have "on_queue EVLIST_TIMEOUT b'' x = on_queue EVLIST_TIMEOUT b' x" "on_queue EVLIST_ACTIVE b'' x = on_queue EVLIST_ACTIVE b' x"
      "ev_timeout (ev_store b'' x) = ev_timeout (ev_store b' x)" if "x \<notin> Z" for x
    using a t(1) that by (auto simp: added_def split: option.splits)
  moreover have "ctl_timer_ok b'' x" if "x \<in> Z" for x
  proof -
    have b': "ctl_timer_ok b' x" using ctl_timer_ok_added(1)[OF ad] that Z by blast
    show ?thesis
    proof (cases "x = e")
      case True
      then have "ev_timeout (ev_store b'' x) = d'" using a by (simp add: added_def)
      then show ?thesis
        using b' d' same_setupD(2,5,12)[OF ss] same_setupD(2,5)[of b b' x] ad
        by (simp add: ctl_timer_ok_def common_of_def added_def)
    qed (rule ctl_timer_ok_added(1)[OF a b'])
  qed
  ultimately show ?thesis
    using ad a t(3) J ss unfolding added_but_def by (simp add: added_def maps_covered_def)
qed

lemma event_add_internal_ok:
  fixes absolute :: bool and tv :: "timeval option"
  assumes inv: "base_inv b" and maps: "maps_covered I b" and new: "registers b ev \<Longrightarrow> ev \<notin> I \<and> fd_ok (ev_store b ev)"
    and fl: "ev_flags (ev_store b ev) AND NOT EVLIST_ALL = 0"
    and tv: "\<And>t. tv = Some t \<Longrightarrow> timeout_fits clk b ev t absolute"
    and timers: "\<forall>e \<in> ctl_timers b. ctl_timer_ok b e" and ev: "ev \<notin> ctl_timers b"
  defines "d \<equiv> map_option (\<lambda>t. add_deadline b (gettime b clk) t absolute) tv"
  shows "\<exists>r b'. event_add_internal evsel m clk b ev tv absolute = Some (r, b') \<and>
     (r = - 1 \<and> unchanged I b b' \<or> r = 0 \<and> added_but (ctl_timers b) I ev d b b')"
proof -
  note plain = added_but_added[OF _ timers ev]
  let ?sch = "common_timeout_schedule evsel m clk"
  have "(\<exists>b'. add_step ?sch evsel m clk b ev tv absolute = Some (- 1, b') \<and> unchanged I b b') \<or>
    (\<exists>n b'. added I ev d b b' \<and> add_step ?sch evsel m clk b ev tv absolute =
       (if \<exists>t. tv = Some t \<and> is_common_timeout t b
        then do { b'' \<leftarrow> schedule_head ?sch b' ev; Some (0, notify_if n b'') } else Some (0, notify_if n b')))"
    unfolding d_def by (rule add_step_ok[OF inv maps _ fl]) (use new tv in blast)+
  then show ?thesis
  proof (elim disjE exE conjE)
    fix b' assume "add_step ?sch evsel m clk b ev tv absolute = Some (- 1, b')" "unchanged I b b'"
    then show ?thesis by (simp add: event_add_internal_def)
  next
    fix n b' assume ad: "added I ev d b b'" and step: "add_step ?sch evsel m clk b ev tv absolute =
       (if \<exists>t. tv = Some t \<and> is_common_timeout t b
        then do { b'' \<leftarrow> schedule_head ?sch b' ev; Some (0, notify_if n b'') } else Some (0, notify_if n b'))"
    show ?thesis
    proof (cases "\<exists>t. tv = Some t \<and> is_common_timeout t b")
      case False
      then have "event_add_internal evsel m clk b ev tv absolute = Some (0, notify_if n b')"
        unfolding event_add_internal_def step by (rule if_not_P)
      then show ?thesis using plain[OF ad] by blast
    next
      case True
      then obtain t t' where t: "tv = Some t" "t' = add_deadline b (gettime b clk) t absolute" "d = Some t'"
        "is_common_timeout t' b" using tv by (auto simp: timeout_fits_def Let_def d_def)
      let ?ctl = "get_common_timeout_list b' (ev_timeout (ev_store b' ev))"
      have ss: "same_setup b b'" and tev: "ev_timeout (ev_store b' ev) = t'" using ad t by (simp_all add: added_def)
      have "COMMON_TIMEOUT_IDX t' < length (common_timeout_queues b')"
        using t(4) same_setupD(11)[OF ss] by (simp add: is_common_timeout_def)
      then have mem: "timeout_event ?ctl \<in> ctl_timers b"
        unfolding ctl_timers_cong[OF ss, symmetric] by (simp add: tev ctl_timers_def get_common_timeout_list_def)
      have ne: "timeout_event ?ctl \<noteq> ev" using mem ev by metis
      note ok = ctl_timer_ok_added[OF ad timers[rule_format, OF mem] ne]
      define J where "J = (if registers b ev then insert ev I else I)"
      have J: "base_inv b'" "maps_covered J b'" using ad by (simp_all add: added_def J_def)
      from common_timeout_schedule_ok[OF J ok(1), of evsel m clk ev] obtain c where
        c: "?sch b' ?ctl ev = Some c" "unchanged J b' c \<or> added J (timeout_event ?ctl) (Some (mask_usec (ev_timeout (ev_store b' ev)))) b' c" by blast
      have "\<exists>c'. schedule_head ?sch b' ev = Some c' \<and> (c' = b' \<or> c' = c)"
        using c(1) by (simp add: schedule_head_def Let_def split: list.splits)
      then obtain c' where c': "schedule_head ?sch b' ev = Some c'" "c' = b' \<or> c' = c" by blast
      have "added_but (ctl_timers b) I ev d b (notify_if n c')"
        using c'(2) plain[OF ad] added_but_timer[OF ad mem ne ok(2) J_def timers ev mask_usec_not_common c(2)] by blast
      moreover have "event_add_internal evsel m clk b ev tv absolute = Some (0, notify_if n c')"
        unfolding event_add_internal_def step if_P[OF True] c'(1) by simp
      ultimately show ?thesis by blast
    qed
  qed
qed

end
