(* ===== verification/Epoll.thy ===== *)
theory Epoll
  imports Changelist Event_Core "HOL-Library.Signed_Division"
begin

text \<open>
  The epoll back end, \<^verbatim>\<open>epoll.c\<close>, with and without a changelist. The kernel is not part of the
  program: its state has the type variable \<open>'k\<close>, and \<open>epoll_ctl\<close> and \<open>epoll_wait\<close> are parameters of
  the operations that call them. What their manual page says of them is the locale \<open>epoll_kernel\<close> below.
\<close>

section \<open>Operations\<close>

datatype epoll_op = EPOLL_CTL_ADD | EPOLL_CTL_MOD | EPOLL_CTL_DEL

text \<open>The error numbers the code distinguishes, and all others.\<close>

datatype errno = ENOENT | EEXIST | EBADF | EPERM | EOTHER

definition EPOLLIN :: u32 where "EPOLLIN = 0x001"
definition EPOLLOUT :: u32 where "EPOLLOUT = 0x004"
definition EPOLLERR :: u32 where "EPOLLERR = 0x008"
definition EPOLLHUP :: u32 where "EPOLLHUP = 0x010"
definition EPOLLET :: u32 where "EPOLLET = 0x80000000"

type_synonym 'k epoll_ctl = "'k \<Rightarrow> epoll_op \<Rightarrow> int \<Rightarrow> u32 \<Rightarrow> errno option \<times> 'k"

text \<open>The first half of \<open>epoll_apply_one_change\<close>: the operation and the events; no events mean no call.\<close>

definition side_events :: "u8 \<Rightarrow> bool \<Rightarrow> u32 \<Rightarrow> u32" where
  "side_events change was fl =
     (if flagged EV_CHANGE_ADD change then fl
      else if flagged EV_CHANGE_DEL change then 0
      else if was then fl else 0)"

definition epoll_change_op :: "event_change \<Rightarrow> epoll_op \<times> u32" where
  "epoll_change_op ch =
     (let rd = read_change ch; wr = write_change ch; old = old_events ch in
      if flagged EV_CHANGE_ADD rd \<or> flagged EV_CHANGE_ADD wr
      then (if old \<noteq> 0 then EPOLL_CTL_MOD else EPOLL_CTL_ADD,
            side_events rd (has EV_READ old) EPOLLIN OR side_events wr (has EV_WRITE old) EPOLLOUT OR
            (if flagged (ucast EV_ET) (rd OR wr) then EPOLLET else 0))
      else if flagged EV_CHANGE_DEL rd
      then (if flagged EV_CHANGE_DEL wr then (EPOLL_CTL_DEL, EPOLLIN OR EPOLLOUT)
            else if has EV_WRITE old then (EPOLL_CTL_MOD, EPOLLOUT)
            else (EPOLL_CTL_DEL, EPOLLIN))
      else if flagged EV_CHANGE_DEL wr
      then (if has EV_READ old then (EPOLL_CTL_MOD, EPOLLIN) else (EPOLL_CTL_DEL, EPOLLOUT))
      else (EPOLL_CTL_DEL, 0))"

definition epoll_apply_one_change :: "'k epoll_ctl \<Rightarrow> 'k \<Rightarrow> event_change \<Rightarrow> int \<times> 'k" where
  "epoll_apply_one_change ctl k ch =
     (let (op, events) = epoll_change_op ch; fd = ch_fd ch in
      if events = 0 then (0, k)
      else (case ctl k op fd events of
              (None, k1) \<Rightarrow> (0, k1)
            | (Some e, k1) \<Rightarrow>
                if op = EPOLL_CTL_MOD \<and> e = ENOENT
                then (case ctl k1 EPOLL_CTL_ADD fd events of (None, k2) \<Rightarrow> (0, k2) | (Some _, k2) \<Rightarrow> (- 1, k2))
                else if op = EPOLL_CTL_ADD \<and> e = EEXIST
                then (case ctl k1 EPOLL_CTL_MOD fd events of (None, k2) \<Rightarrow> (0, k2) | (Some _, k2) \<Rightarrow> (- 1, k2))
                else if op = EPOLL_CTL_DEL \<and> (e = ENOENT \<or> e = EBADF \<or> e = EPERM) then (0, k1)
                else (- 1, k1)))"

fun apply_changes_loop :: "'k epoll_ctl \<Rightarrow> 'k \<Rightarrow> int \<Rightarrow> event_change list \<Rightarrow> int \<times> 'k" where
  "apply_changes_loop ctl k r [] = (r, k)"
| "apply_changes_loop ctl k r (ch # chs) =
     (let (r', k') = epoll_apply_one_change ctl k ch
      in apply_changes_loop ctl k' (if r' < 0 then - 1 else r) chs)"

definition epoll_apply_changes :: "'k epoll_ctl \<Rightarrow> 'k \<Rightarrow> event_changelist \<Rightarrow> int \<times> 'k" where
  "epoll_apply_changes ctl k cl = apply_changes_loop ctl k 0 (changes cl)"

definition epoll_nochangelist_add :: "'k epoll_ctl \<Rightarrow> 'k \<Rightarrow> int \<Rightarrow> u16 \<Rightarrow> u16 \<Rightarrow> int \<times> 'k" where
  "epoll_nochangelist_add ctl k fd old events =
     epoll_apply_one_change ctl k
       \<lparr>ch_fd = fd, old_events = old,
        read_change = (if has EV_READ events then EV_CHANGE_ADD OR ucast (events AND EV_ET) else 0),
        write_change = (if has EV_WRITE events then EV_CHANGE_ADD OR ucast (events AND EV_ET) else 0)\<rparr>"

definition epoll_nochangelist_del :: "'k epoll_ctl \<Rightarrow> 'k \<Rightarrow> int \<Rightarrow> u16 \<Rightarrow> u16 \<Rightarrow> int \<times> 'k" where
  "epoll_nochangelist_del ctl k fd old events =
     epoll_apply_one_change ctl k
       \<lparr>ch_fd = fd, old_events = old,
        read_change = (if has EV_READ events then EV_CHANGE_DEL else 0),
        write_change = (if has EV_WRITE events then EV_CHANGE_DEL else 0)\<rparr>"

section \<open>Waiting\<close>

definition MAX_SECONDS_IN_MSEC_LONG :: int where "MAX_SECONDS_IN_MSEC_LONG = (2 ^ 63 - 1 - 999) div 1000"

definition evutil_tv_to_msec :: "timeval \<Rightarrow> int" where
  "evutil_tv_to_msec tv =
     (if tv_usec tv > 1000000 \<or> tv_sec tv > MAX_SECONDS_IN_MSEC_LONG then - 1
      else tv_sec tv * 1000 + (tv_usec tv + 999) sdiv 1000)"

definition INITIAL_NEVENT :: nat where "INITIAL_NEVENT = 32"
definition MAX_NEVENT :: nat where "MAX_NEVENT = 4096"
definition MAX_EPOLL_TIMEOUT_MSEC :: int where "MAX_EPOLL_TIMEOUT_MSEC = 35 * 60 * 1000"

record 'k epoll_state =
  ep_kernel :: 'k
  ep_changelist :: event_changelist
  nevents :: nat

text \<open>
  \<open>created\<close> is the new queue of \<open>epoll_create\<close>, if there is one. Choosing the variant of the back end by a
  flag or the environment, and setting up the signals, are not part of this definition.
\<close>

definition epoll_init :: "allocator \<Rightarrow> 'k option \<Rightarrow> 'k epoll_state option" where
  "epoll_init malloc created =
     (case created of
        None \<Rightarrow> None
      | Some k \<Rightarrow>
          if malloc 16 = None then None
          else if malloc (INITIAL_NEVENT * 12) = None then None
          else Some \<lparr>ep_kernel = k, ep_changelist = event_changelist_init (\<lambda>_. 0), nevents = INITIAL_NEVENT\<rparr>)"

definition epoll_timeout :: "timeval option \<Rightarrow> int" where
  "epoll_timeout tv =
     (case tv of
        None \<Rightarrow> - 1
      | Some t \<Rightarrow> (let timeout = evutil_tv_to_msec t in
                   if timeout < 0 \<or> timeout > MAX_EPOLL_TIMEOUT_MSEC then MAX_EPOLL_TIMEOUT_MSEC else timeout))"

definition ready_flags :: "u32 \<Rightarrow> u16" where
  "ready_flags what =
     (if flagged (EPOLLHUP OR EPOLLERR) what then EV_READ OR EV_WRITE
      else (if flagged EPOLLIN what then EV_READ else 0) OR (if flagged EPOLLOUT what then EV_WRITE else 0))"

text \<open>The loop over the events that \<open>epoll_wait\<close> reports.\<close>

fun activate_ready :: "allocator \<Rightarrow> event_base \<Rightarrow> (u32 \<times> int) list \<Rightarrow> event_base option" where
  "activate_ready malloc b [] = Some b"
| "activate_ready malloc b ((what, fd) # evs) = do {
     b1 \<leftarrow> (if ready_flags what = 0 then Some b
            else if fd < 0 then None
            else evmap_io_active malloc b (nat fd) (ready_flags what OR EV_ET));
     activate_ready malloc b1 evs
   }"

text \<open>
  \<open>wait\<close> is \<open>epoll_wait\<close>: \<open>Inl\<close> an error (true for \<open>EINTR\<close>) or \<open>Inr\<close> the ready descriptors.
\<close>

definition epoll_dispatch ::
  "'k epoll_ctl \<Rightarrow> ('k \<Rightarrow> nat \<Rightarrow> int \<Rightarrow> (bool + (u32 \<times> int) list) \<times> 'k) \<Rightarrow> allocator \<Rightarrow>
   event_base \<Rightarrow> 'k epoll_state \<Rightarrow> timeval option \<Rightarrow> (int \<times> event_base \<times> 'k epoll_state) option" where
  "epoll_dispatch ctl wait malloc b st tv =
     (let timeout = epoll_timeout tv;
          (_, k1) = epoll_apply_changes ctl (ep_kernel st) (ep_changelist st)
      in do {
        cl \<leftarrow> event_changelist_remove_all (ep_changelist st);
        let (res, k2) = wait k1 (nevents st) timeout;
            st1 = st\<lparr>ep_kernel := k2, ep_changelist := cl\<rparr> in
        case res of
          Inl eintr \<Rightarrow> Some (if eintr then 0 else - 1, b, st1)
        | Inr evs \<Rightarrow>
            if \<not> length evs \<le> nevents st then None
            else do {
              b1 \<leftarrow> activate_ready malloc b evs;
              Some (0, b1,
                if length evs = nevents st \<and> nevents st < MAX_NEVENT
                then (case malloc (nevents st * 2 * 12) of None \<Rightarrow> st1 | Some _ \<Rightarrow> st1\<lparr>nevents := nevents st * 2\<rparr>)
                else st1)
            }
      })"

section \<open>What a change asks for\<close>

definition want_side :: "u8 \<Rightarrow> bool \<Rightarrow> bool" where
  "want_side change was \<longleftrightarrow> flagged EV_CHANGE_ADD change \<or> \<not> flagged EV_CHANGE_DEL change \<and> was"

definition change_wants :: "event_change \<Rightarrow> bool \<times> bool" where
  "change_wants ch = (want_side (read_change ch) (has EV_READ (old_events ch)), want_side (write_change ch) (has EV_WRITE (old_events ch)))"

definition changing :: "event_change \<Rightarrow> bool" where
  "changing ch \<longleftrightarrow> flagged EV_CHANGE_ADD (read_change ch) \<or> flagged EV_CHANGE_DEL (read_change ch) \<or>
     flagged EV_CHANGE_ADD (write_change ch) \<or> flagged EV_CHANGE_DEL (write_change ch)"

definition kernel_has :: "bool \<times> bool \<Rightarrow> u32 option \<Rightarrow> bool" where
  "kernel_has w x \<longleftrightarrow>
     (if w = (False, False) then x = None
      else \<exists>e. x = Some e \<and> flagged EPOLLIN e = fst w \<and> flagged EPOLLOUT e = snd w)"

definition old_flags :: "bool \<times> bool \<Rightarrow> u16" where
  "old_flags w = (if fst w then EV_READ else 0) OR (if snd w then EV_WRITE else 0)"

lemmas epoll_flag_defs = EPOLLIN_def EPOLLOUT_def EPOLLET_def EPOLLERR_def EPOLLHUP_def

lemma has_rw [simp]:
  "has EV_READ (old_flags w) = fst w" "has EV_WRITE (old_flags w) = snd w" "has EV_SIGNAL (old_flags w) = False"
  "old_flags w = 0 \<longleftrightarrow> w = (False, False)"
  by (cases w; simp add: old_flags_def has_def EV_READ_def EV_WRITE_def EV_SIGNAL_def)+

text \<open>The events to register are those wanted, and a deletion is asked for exactly when none is.\<close>

lemma epoll_change_op_ok:
  assumes "epoll_change_op ch = (op, events)" "old_events ch = old_flags w"
  shows "\<not> changing ch \<Longrightarrow> events = 0 \<and> change_wants ch = w"
    "changing ch \<Longrightarrow> events \<noteq> 0"
    "changing ch \<Longrightarrow> op = EPOLL_CTL_DEL \<longleftrightarrow> change_wants ch = (False, False)"
    "changing ch \<Longrightarrow> op \<noteq> EPOLL_CTL_DEL \<Longrightarrow> flagged EPOLLIN events = fst (change_wants ch) \<and> flagged EPOLLOUT events = snd (change_wants ch)"
proof -
  define ra rd wa wd where "ra = flagged EV_CHANGE_ADD (read_change ch)" and "rd = flagged EV_CHANGE_DEL (read_change ch)"
    and "wa = flagged EV_CHANGE_ADD (write_change ch)" and "wd = flagged EV_CHANGE_DEL (write_change ch)"
  define et where "et = flagged (ucast EV_ET) (read_change ch OR write_change ch)"
  obtain r w' where w: "w = (r, w')" by fastforce
  have op: "(op, events) =
      (if ra \<or> wa
       then (if r \<or> w' then EPOLL_CTL_MOD else EPOLL_CTL_ADD,
             (if ra then EPOLLIN else if rd then 0 else if r then EPOLLIN else 0) OR
             (if wa then EPOLLOUT else if wd then 0 else if w' then EPOLLOUT else 0) OR (if et then EPOLLET else 0))
       else if rd then (if wd then (EPOLL_CTL_DEL, EPOLLIN OR EPOLLOUT) else if w' then (EPOLL_CTL_MOD, EPOLLOUT) else (EPOLL_CTL_DEL, EPOLLIN))
       else if wd then (if r then (EPOLL_CTL_MOD, EPOLLIN) else (EPOLL_CTL_DEL, EPOLLOUT)) else (EPOLL_CTL_DEL, 0))"
    using assms(1) assms(2) w
    by (auto simp: epoll_change_op_def Let_def side_events_def ra_def rd_def wa_def wd_def et_def)
  have c: "changing ch \<longleftrightarrow> ra \<or> rd \<or> wa \<or> wd" "change_wants ch = (ra \<or> \<not> rd \<and> r, wa \<or> \<not> wd \<and> w')"
    using assms(2) w by (simp_all add: changing_def change_wants_def want_side_def ra_def rd_def wa_def wd_def)
  show "\<not> changing ch \<Longrightarrow> events = 0 \<and> change_wants ch = w" using op c w by simp
  show "changing ch \<Longrightarrow> events \<noteq> 0"
    using op c by (simp split: if_splits) (simp_all add: epoll_flag_defs)
  show "changing ch \<Longrightarrow> op = EPOLL_CTL_DEL \<longleftrightarrow> change_wants ch = (False, False)"
    using op c by (auto split: if_splits)
  show "changing ch \<Longrightarrow> op \<noteq> EPOLL_CTL_DEL \<Longrightarrow> flagged EPOLLIN events = fst (change_wants ch) \<and> flagged EPOLLOUT events = snd (change_wants ch)"
    using op c by (simp split: if_splits) (simp_all add: epoll_flag_defs flagged_def)
qed

section \<open>The calls of the maps\<close>

text \<open>
  The specification of the back end: the interests in each descriptor, as the calls of \<open>evmap_io_add\<close>
  and \<open>evmap_io_del\<close> state them. The events \<open>old\<close> of a call are the interests before it.
\<close>

fun call_wants :: "(int \<Rightarrow> bool \<times> bool) \<Rightarrow> backend_call \<Rightarrow> int \<Rightarrow> bool \<times> bool" where
  "call_wants w (Evsel_add fd old ev) = w(fd := (fst (w fd) \<or> has EV_READ ev, snd (w fd) \<or> has EV_WRITE ev))"
| "call_wants w (Evsel_del fd old ev) = w(fd := (fst (w fd) \<and> \<not> has EV_READ ev, snd (w fd) \<and> \<not> has EV_WRITE ev))"
| "call_wants w (Evsig_add sig) = w"
| "call_wants w (Evsig_del sig) = w"

fun call_ok :: "(int \<Rightarrow> bool \<times> bool) \<Rightarrow> backend_call \<Rightarrow> bool" where
  "call_ok w (Evsel_add fd old ev) \<longleftrightarrow> old = old_flags (w fd) \<and> \<not> has EV_SIGNAL ev"
| "call_ok w (Evsel_del fd old ev) \<longleftrightarrow> old = old_flags (w fd) \<and> \<not> has EV_SIGNAL ev"
| "call_ok w (Evsig_add sig) \<longleftrightarrow> True"
| "call_ok w (Evsig_del sig) \<longleftrightarrow> True"

fun calls_ok :: "(int \<Rightarrow> bool \<times> bool) \<Rightarrow> backend_call list \<Rightarrow> bool" where
  "calls_ok w [] \<longleftrightarrow> True"
| "calls_ok w (c # cs) \<longleftrightarrow> call_ok w c \<and> calls_ok (call_wants w c) cs"

definition wants_after :: "backend_call list \<Rightarrow> int \<Rightarrow> bool \<times> bool" where
  "wants_after calls = foldl call_wants (\<lambda>_. (False, False)) calls"

text \<open>The two back ends as functions of these calls; signals go to another back end.\<close>

fun epoll_call :: "'k epoll_ctl \<Rightarrow> 'k \<Rightarrow> backend_call \<Rightarrow> int \<times> 'k" where
  "epoll_call ctl k (Evsel_add fd old ev) = epoll_nochangelist_add ctl k fd old ev"
| "epoll_call ctl k (Evsel_del fd old ev) = epoll_nochangelist_del ctl k fd old ev"
| "epoll_call ctl k (Evsig_add sig) = (0, k)"
| "epoll_call ctl k (Evsig_del sig) = (0, k)"

definition epoll_run :: "'k epoll_ctl \<Rightarrow> 'k \<Rightarrow> backend_call list \<Rightarrow> 'k" where
  "epoll_run ctl k calls = foldl (\<lambda>k c. snd (epoll_call ctl k c)) k calls"

definition epoll_backend :: "'k epoll_ctl \<Rightarrow> 'k \<Rightarrow> backend" where
  "epoll_backend ctl k calls c = fst (epoll_call ctl (epoll_run ctl k calls) c)"

fun changelist_call :: "allocator \<Rightarrow> event_changelist \<Rightarrow> backend_call \<Rightarrow> (int \<times> event_changelist) option" where
  "changelist_call malloc cl (Evsel_add fd old ev) = event_changelist_add malloc cl fd old ev (False, fd)"
| "changelist_call malloc cl (Evsel_del fd old ev) = event_changelist_del malloc cl fd old ev (False, fd)"
| "changelist_call malloc cl (Evsig_add sig) = Some (0, cl)"
| "changelist_call malloc cl (Evsig_del sig) = Some (0, cl)"

fun changelist_run :: "allocator \<Rightarrow> event_changelist \<Rightarrow> backend_call list \<Rightarrow> event_changelist option" where
  "changelist_run malloc cl [] = Some cl"
| "changelist_run malloc cl (c # cs) = do { (r, cl1) \<leftarrow> changelist_call malloc cl c; changelist_run malloc cl1 cs }"

lemma change_flag_values [simp]:
  "flagged EV_CHANGE_ADD (EV_CHANGE_ADD OR x)" "\<not> flagged EV_CHANGE_ADD EV_CHANGE_DEL" "flagged EV_CHANGE_DEL EV_CHANGE_DEL"
  "\<not> flagged fl 0" "\<not> flagged EV_CHANGE_SIGNAL EV_CHANGE_DEL"
proof -
  have "bit ((EV_CHANGE_ADD OR x) AND EV_CHANGE_ADD) 0" by (simp add: EV_CHANGE_ADD_def bit_simps)
  then show "flagged EV_CHANGE_ADD (EV_CHANGE_ADD OR x)" unfolding flagged_def by (metis bit_0_eq bot_apply bot_bool_def)
qed (simp_all add: flagged_def EV_CHANGE_ADD_def EV_CHANGE_DEL_def EV_CHANGE_SIGNAL_def)

lemma signal_bit: "has EV_SIGNAL x \<longleftrightarrow> bit x 3" "flagged EV_CHANGE_SIGNAL y \<longleftrightarrow> bit y 3"
  using and_exp_eq_0_iff_not_bit[of x 3] and_exp_eq_0_iff_not_bit[of y 3]
  by (simp_all add: has_def flagged_def EV_SIGNAL_def EV_CHANGE_SIGNAL_def)

lemma signal_not_kept: "\<not> has EV_SIGNAL events \<Longrightarrow> \<not> flagged EV_CHANGE_SIGNAL (change_flags events)"
  by (simp add: signal_bit change_flags_def EV_CHANGE_ADD_def bit_simps)

lemma has_read_signal: "\<not> has EV_SIGNAL x \<Longrightarrow> has (EV_READ OR EV_SIGNAL) x = has EV_READ x"
  by (auto simp: has_iff_bit bit_or_iff)

lemma change_wants_add:
  assumes "\<not> has EV_SIGNAL ev"
  shows "change_wants (add_change ev ch) = (fst (change_wants ch) \<or> has EV_READ ev, snd (change_wants ch) \<or> has EV_WRITE ev)"
    "old_events (add_change ev ch) = old_events ch" "ch_fd (add_change ev ch) = ch_fd ch"
    "\<not> flagged EV_CHANGE_SIGNAL (read_change ch) \<Longrightarrow> \<not> flagged EV_CHANGE_SIGNAL (read_change (add_change ev ch))"
  using has_read_signal[OF assms] signal_not_kept[OF assms]
  by (auto simp: add_change_def change_wants_def want_side_def Let_def) (auto simp: change_flags_def)

lemma change_wants_del:
  assumes "\<not> has EV_SIGNAL ev" "\<not> has EV_SIGNAL (old_events ch)"
  shows "change_wants (del_change ev ch) = (fst (change_wants ch) \<and> \<not> has EV_READ ev, snd (change_wants ch) \<and> \<not> has EV_WRITE ev)"
  using has_read_signal[OF assms(1)] has_read_signal[OF assms(2)]
  by (auto simp: del_change_def change_wants_def want_side_def Let_def)

lemma del_change_simps:
  "old_events (del_change ev ch) = old_events ch" "ch_fd (del_change ev ch) = ch_fd ch"
  "\<not> flagged EV_CHANGE_SIGNAL (read_change ch) \<Longrightarrow> \<not> flagged EV_CHANGE_SIGNAL (read_change (del_change ev ch))"
  by (simp_all add: del_change_def Let_def)

text \<open>
  The changelist implements the specification: a descriptor without a pending change is registered as
  wanted, one with a change as the change says it was, and the change leads to what is wanted.
\<close>

definition changes_sim ::
  "('k \<Rightarrow> int \<Rightarrow> u32 option) \<Rightarrow> (int \<Rightarrow> bool \<times> bool) \<Rightarrow> event_changelist \<Rightarrow> 'k \<Rightarrow> bool" where
  "changes_sim interest w cl k \<longleftrightarrow> cl_wf cl \<and>
     (\<forall>fd. case pending cl fd of
        None \<Rightarrow> kernel_has (w fd) (interest k fd)
      | Some ch \<Rightarrow> change_wants ch = w fd \<and> (\<exists>v. old_events ch = old_flags v \<and> kernel_has v (interest k fd)))"

lemma fresh_change_wants: "change_wants (fresh_change fd (old_flags v)) = v"
  by (simp add: change_wants_def want_side_def fresh_change_def)

lemma changes_sim_step:
  assumes sim: "changes_sim interest w cl k" and malloc: "\<forall>n. malloc n \<noteq> None"
    and f: "\<And>ch. ch_fd (f ch) = ch_fd ch" "\<And>ch. old_events (f ch) = old_events ch"
      "\<And>ch. \<not> flagged EV_CHANGE_SIGNAL (read_change ch) \<Longrightarrow> \<not> flagged EV_CHANGE_SIGNAL (read_change (f ch))"
      "\<And>ch. \<not> has EV_SIGNAL (old_events ch) \<Longrightarrow> change_wants (f ch) = g (change_wants ch)"
  shows "\<exists>cl'. change_with f malloc cl fd (old_flags (w fd)) = Some (0, cl') \<and> changes_sim interest (w(fd := g (w fd))) cl' k"
proof -
  have wf: "cl_wf cl" using sim by (simp add: changes_sim_def)
  from change_with_ok[OF wf f(1,3), of malloc fd "old_flags (w fd)"] obtain r cl' where
    r: "change_with f malloc cl fd (old_flags (w fd)) = Some (r, cl')" "pending_outcome f malloc cl fd (old_flags (w fd)) r cl'" by blast
  define ch where "ch = (case pending cl fd of None \<Rightarrow> fresh_change fd (old_flags (w fd)) | Some ch \<Rightarrow> ch)"
  have P: "r = 0" "cl_wf cl'" "pending cl' = (pending cl)(fd \<mapsto> f ch)"
    using r(2) malloc by (auto simp: pending_outcome_def ch_def)
  have S: "case pending cl h of None \<Rightarrow> kernel_has (w h) (interest k h)
      | Some ch \<Rightarrow> change_wants ch = w h \<and> (\<exists>v. old_events ch = old_flags v \<and> kernel_has v (interest k h))" for h
    using sim by (simp add: changes_sim_def)
  have old: "change_wants ch = w fd \<and> (\<exists>v. old_events ch = old_flags v \<and> kernel_has v (interest k fd))"
  proof (cases "pending cl fd")
    case None
    then have "change_wants ch = w fd" "old_events ch = old_flags (w fd)" by (simp_all add: ch_def fresh_change_wants) (simp add: fresh_change_def)
    then show ?thesis using S[of fd] None by (intro conjI exI[of _ "w fd"]) simp_all
  qed (use S[of fd] in \<open>simp add: ch_def\<close>)
  then have new: "change_wants (f ch) = g (w fd)" "\<exists>v. old_events (f ch) = old_flags v \<and> kernel_has v (interest k fd)"
    using f(2,4) by auto
  have "changes_sim interest (w(fd := g (w fd))) cl' k"
    unfolding changes_sim_def
  proof (intro conjI allI)
    show "cl_wf cl'" by (rule P(2))
    show "case pending cl' h of None \<Rightarrow> kernel_has ((w(fd := g (w fd))) h) (interest k h)
      | Some ch \<Rightarrow> change_wants ch = (w(fd := g (w fd))) h \<and> (\<exists>v. old_events ch = old_flags v \<and> kernel_has v (interest k h))" for h
      using new S[of h] P(3) by (cases "h = fd"; cases "pending cl h") simp_all
  qed
  then show ?thesis using r(1) P(1) by blast
qed

lemma changes_sim_call:
  assumes "changes_sim interest w cl k" "call_ok w c" "\<forall>n. malloc n \<noteq> None"
  shows "\<exists>cl'. changelist_call malloc cl c = Some (0, cl') \<and> changes_sim interest (call_wants w c) cl' k"
proof (cases c)
  case (Evsel_add fd old ev)
  then have "old = old_flags (w fd)" "\<not> has EV_SIGNAL ev" using assms(2) by simp_all
  then show ?thesis
    using changes_sim_step[OF assms(1,3), of "add_change ev" "\<lambda>(r, t). (r \<or> has EV_READ ev, t \<or> has EV_WRITE ev)" fd] change_wants_add[of ev] Evsel_add
    by (simp add: changelist_change_with case_prod_beta)
next
  case (Evsel_del fd old ev)
  then have "old = old_flags (w fd)" "\<not> has EV_SIGNAL ev" using assms(2) by simp_all
  then show ?thesis
    using changes_sim_step[OF assms(1,3), of "del_change ev" "\<lambda>(r, t). (r \<and> \<not> has EV_READ ev, t \<and> \<not> has EV_WRITE ev)" fd]
      change_wants_del[of ev] del_change_simps Evsel_del
    by (simp add: changelist_change_with case_prod_beta)
qed (use assms in simp_all)

lemma changes_sim_run:
  assumes "changes_sim interest w cl k" "calls_ok w calls" "\<forall>n. malloc n \<noteq> None"
  shows "\<exists>cl'. changelist_run malloc cl calls = Some cl' \<and> changes_sim interest (foldl call_wants w calls) cl' k"
  using assms(1,2)
proof (induction calls arbitrary: w cl)
  case (Cons c calls)
  from changes_sim_call[OF Cons.prems(1) _ assms(3), of c] Cons.prems(2) obtain cl1 where
    "changelist_call malloc cl c = Some (0, cl1)" "changes_sim interest (call_wants w c) cl1 k" by auto
  then show ?case using Cons.IH[of "call_wants w c" cl1] Cons.prems(2) by auto
qed simp

lemma cl_wf_changes:
  assumes "cl_wf cl"
  shows "distinct (map ch_fd (changes cl))" "ch \<in> set (changes cl) \<Longrightarrow> pending cl (ch_fd ch) = Some ch"
    "pending cl fd = Some c \<Longrightarrow> c \<in> set (changes cl) \<and> ch_fd c = fd"
proof -
  note D = cl_wfD[OF assms]
  have "ch_fd (changes cl ! i) \<noteq> ch_fd (changes cl ! j)" if "i < length (changes cl)" "j < length (changes cl)" "i \<noteq> j" for i j
    using D(2)[OF that(1)] D(2)[OF that(2)] that(3) by auto
  then show "distinct (map ch_fd (changes cl))" by (simp add: distinct_conv_nth)
  show "ch \<in> set (changes cl) \<Longrightarrow> pending cl (ch_fd ch) = Some ch" using D(2) by (auto simp: in_set_conv_nth pending_def)
  assume p: "pending cl fd = Some c"
  then have nz: "idxplus1 cl (False, fd) \<noteq> 0" and c: "c = changes cl ! (idxplus1 cl (False, fd) - 1)"
    by (auto simp: pending_def split: if_splits)
  show "c \<in> set (changes cl) \<and> ch_fd c = fd" unfolding c using nth_mem[OF D(4)[OF nz]] D(5)[OF nz] by simp
qed

section \<open>What the kernel promises\<close>

text \<open>
  \<open>interest k fd\<close> are the events registered for a descriptor, \<open>usable k fd\<close> says that it is open
  and can be kernel_has (no lack of memory, no limit reached, a file that can be polled).
\<close>

locale epoll_kernel =
  fixes ctl :: "'k epoll_ctl" and interest :: "'k \<Rightarrow> int \<Rightarrow> u32 option" and usable :: "'k \<Rightarrow> int \<Rightarrow> bool"
  assumes add_new: "usable k fd \<Longrightarrow> interest k fd = None \<Longrightarrow> ctl k EPOLL_CTL_ADD fd ev = (e, k') \<Longrightarrow>
      e = None \<and> interest k' = (interest k)(fd \<mapsto> ev) \<and> usable k' = usable k"
    and add_old: "usable k fd \<Longrightarrow> interest k fd \<noteq> None \<Longrightarrow> ctl k EPOLL_CTL_ADD fd ev = (e, k') \<Longrightarrow>
      e = Some EEXIST \<and> interest k' = interest k \<and> usable k' = usable k"
    and mod_old: "usable k fd \<Longrightarrow> interest k fd \<noteq> None \<Longrightarrow> ctl k EPOLL_CTL_MOD fd ev = (e, k') \<Longrightarrow>
      e = None \<and> interest k' = (interest k)(fd \<mapsto> ev) \<and> usable k' = usable k"
    and mod_new: "usable k fd \<Longrightarrow> interest k fd = None \<Longrightarrow> ctl k EPOLL_CTL_MOD fd ev = (e, k') \<Longrightarrow>
      e = Some ENOENT \<and> interest k' = interest k \<and> usable k' = usable k"
    and del_old: "usable k fd \<Longrightarrow> interest k fd \<noteq> None \<Longrightarrow> ctl k EPOLL_CTL_DEL fd ev = (e, k') \<Longrightarrow>
      e = None \<and> interest k' = (interest k)(fd := None) \<and> usable k' = usable k"
    and del_new: "usable k fd \<Longrightarrow> interest k fd = None \<Longrightarrow> ctl k EPOLL_CTL_DEL fd ev = (e, k') \<Longrightarrow>
      e = Some ENOENT \<and> interest k' = interest k \<and> usable k' = usable k"

begin

text \<open>Registering works whatever the kernel knows of the descriptor.\<close>

lemma apply_set:
  assumes "usable k (ch_fd ch)" "epoll_change_op ch = (op, ev)" "op \<noteq> EPOLL_CTL_DEL" "ev \<noteq> 0"
  shows "\<exists>k'. epoll_apply_one_change ctl k ch = (0, k') \<and> interest k' = (interest k)(ch_fd ch \<mapsto> ev) \<and> usable k' = usable k"
proof -
  define fd where "fd = ch_fd ch"
  obtain e k1 where c: "ctl k op fd ev = (e, k1)" by fastforce
  show ?thesis
  proof (cases e)
    case None
    have "interest k1 = (interest k)(fd \<mapsto> ev) \<and> usable k1 = usable k"
      using c None assms(1,3) add_new[of k fd ev e k1] add_old[of k fd ev e k1] mod_old[of k fd ev e k1] mod_new[of k fd ev e k1]
      by (cases op; cases "interest k fd") (auto simp: fd_def)
    then show ?thesis using c None assms(2,4) by (simp add: epoll_apply_one_change_def fd_def)
  next
    case (Some err)
    have "(op = EPOLL_CTL_ADD \<and> err = EEXIST \<and> interest k fd \<noteq> None \<or> op = EPOLL_CTL_MOD \<and> err = ENOENT \<and> interest k fd = None) \<and>
      interest k1 = interest k \<and> usable k1 = usable k"
    proof (cases op)
      case EPOLL_CTL_ADD
      then show ?thesis using c Some assms(1) add_new[of k fd ev e k1] add_old[of k fd ev e k1]
        by (cases "interest k fd") (simp_all add: fd_def)
    next
      case EPOLL_CTL_MOD
      then show ?thesis using c Some assms(1) mod_new[of k fd ev e k1] mod_old[of k fd ev e k1]
        by (cases "interest k fd") (simp_all add: fd_def)
    qed (use assms(3) in simp)
    note r = conjunct1[OF this] conjunct1[OF conjunct2[OF this]] conjunct2[OF conjunct2[OF this]]
    define op2 where "op2 = (if op = EPOLL_CTL_ADD then EPOLL_CTL_MOD else EPOLL_CTL_ADD)"
    obtain e2 k2 where c2: "ctl k1 op2 fd ev = (e2, k2)" by fastforce
    have "e2 = None \<and> interest k2 = (interest k)(fd \<mapsto> ev) \<and> usable k2 = usable k"
      using c2 r assms(1) add_new[of k1 fd ev e2 k2] mod_old[of k1 fd ev e2 k2] by (auto simp: op2_def fd_def)
    then show ?thesis using c c2 Some r(1) assms(2,4) by (auto simp: epoll_apply_one_change_def fd_def op2_def)
  qed
qed

lemma apply_del:
  assumes "usable k (ch_fd ch)" "epoll_change_op ch = (EPOLL_CTL_DEL, ev)" "ev \<noteq> 0"
  shows "\<exists>k'. epoll_apply_one_change ctl k ch = (0, k') \<and> interest k' = (interest k)(ch_fd ch := None) \<and> usable k' = usable k"
proof -
  obtain e k1 where c: "ctl k EPOLL_CTL_DEL (ch_fd ch) ev = (e, k1)" by fastforce
  have "(e = None \<or> e = Some ENOENT) \<and> interest k1 = (interest k)(ch_fd ch := None) \<and> usable k1 = usable k"
    using c assms(1) del_old[of k "ch_fd ch" ev e k1] del_new[of k "ch_fd ch" ev e k1]
    by (cases "interest k (ch_fd ch)") (auto simp: fun_upd_idem)
  then show ?thesis using c assms(2,3) by (auto simp: epoll_apply_one_change_def)
qed

lemma apply_one:
  assumes "usable k (ch_fd ch)" "old_events ch = old_flags w" "kernel_has w (interest k (ch_fd ch))"
  shows "\<exists>k'. epoll_apply_one_change ctl k ch = (0, k') \<and> usable k' = usable k \<and>
     kernel_has (change_wants ch) (interest k' (ch_fd ch)) \<and> (\<forall>g. g \<noteq> ch_fd ch \<longrightarrow> interest k' g = interest k g)"
proof -
  obtain op ev where op: "epoll_change_op ch = (op, ev)" by fastforce
  note O = epoll_change_op_ok[OF op assms(2)]
  consider "\<not> changing ch" | "changing ch" "op = EPOLL_CTL_DEL" | "changing ch" "op \<noteq> EPOLL_CTL_DEL" by blast
  then show ?thesis
  proof cases
    case 1
    then show ?thesis using O(1) op assms(3) by (simp add: epoll_apply_one_change_def)
  next
    case 2
    then show ?thesis using apply_del[OF assms(1), of ev] op O(2,3) by (auto simp: kernel_has_def)
  next
    case 3
    then show ?thesis using apply_set[OF assms(1) op 3(2)] O(2-4) by (auto simp: kernel_has_def)
  qed
qed

text \<open>Applying changes to different descriptors.\<close>

lemma apply_loop:
  assumes "distinct (map ch_fd chs)" "\<And>ch. ch \<in> set chs \<Longrightarrow> usable k (ch_fd ch)"
    and "\<And>ch. ch \<in> set chs \<Longrightarrow> \<exists>w. old_events ch = old_flags w \<and> kernel_has w (interest k (ch_fd ch))"
  shows "\<exists>k'. apply_changes_loop ctl k 0 chs = (0, k') \<and> usable k' = usable k \<and>
     (\<forall>ch \<in> set chs. kernel_has (change_wants ch) (interest k' (ch_fd ch))) \<and>
     (\<forall>g. g \<notin> ch_fd ` set chs \<longrightarrow> interest k' g = interest k g)"
  using assms
proof (induction chs arbitrary: k)
  case (Cons ch chs)
  from Cons.prems(3)[of ch] obtain w where w: "old_events ch = old_flags w" "kernel_has w (interest k (ch_fd ch))" by auto
  have "usable k (ch_fd ch)" using Cons.prems(2)[of ch] by simp
  from apply_one[OF this w] obtain k1 where k1: "epoll_apply_one_change ctl k ch = (0, k1)" "usable k1 = usable k"
    "kernel_has (change_wants ch) (interest k1 (ch_fd ch))" "\<forall>g. g \<noteq> ch_fd ch \<longrightarrow> interest k1 g = interest k g" by blast
  have ne: "ch_fd c \<noteq> ch_fd ch" if "c \<in> set chs" for c using Cons.prems(1) imageI[OF that, of ch_fd] by auto
  have "usable k1 (ch_fd c)" "\<exists>w. old_events c = old_flags w \<and> kernel_has w (interest k1 (ch_fd c))" if "c \<in> set chs" for c
    using Cons.prems(2,3)[of c] k1(2,4) ne[OF that] that by auto
  then obtain k2 where k2: "apply_changes_loop ctl k1 0 chs = (0, k2)" "usable k2 = usable k1"
    "\<forall>c \<in> set chs. kernel_has (change_wants c) (interest k2 (ch_fd c))" "\<forall>g. g \<notin> ch_fd ` set chs \<longrightarrow> interest k2 g = interest k1 g"
    using Cons.IH[of k1] Cons.prems(1) by auto
  have "ch_fd ch \<notin> ch_fd ` set chs" using Cons.prems(1) by simp
  then show ?case using k1 k2 by (intro exI[of _ k2]) auto
qed simp

end


context epoll_kernel
begin

lemma sim_apply:
  assumes "changes_sim interest w cl k" "\<And>fd. usable k fd"
  shows "\<exists>k'. epoll_apply_changes ctl k cl = (0, k') \<and> usable k' = usable k \<and> (\<forall>fd. kernel_has (w fd) (interest k' fd))"
proof -
  have wf: "cl_wf cl" using assms(1) by (simp add: changes_sim_def)
  note C = cl_wf_changes[OF wf]
  have S: "case pending cl fd of None \<Rightarrow> kernel_has (w fd) (interest k fd)
      | Some ch \<Rightarrow> change_wants ch = w fd \<and> (\<exists>v. old_events ch = old_flags v \<and> kernel_has v (interest k fd))" for fd
    using assms(1) by (simp add: changes_sim_def)
  have "\<exists>v. old_events ch = old_flags v \<and> kernel_has v (interest k (ch_fd ch))" if "ch \<in> set (changes cl)" for ch
    using S[of "ch_fd ch"] C(2)[OF that] by simp
  then obtain k' where k': "apply_changes_loop ctl k 0 (changes cl) = (0, k')" "usable k' = usable k"
    "\<forall>ch \<in> set (changes cl). kernel_has (change_wants ch) (interest k' (ch_fd ch))"
    "\<forall>g. g \<notin> ch_fd ` set (changes cl) \<longrightarrow> interest k' g = interest k g"
    using apply_loop[OF C(1), of k] assms(2) by blast
  have "kernel_has (w fd) (interest k' fd)" for fd
  proof (cases "pending cl fd")
    case None
    then have "fd \<notin> ch_fd ` set (changes cl)" using C(2) by auto
    then show ?thesis using S[of fd] None k'(4) by simp
  next
    case (Some ch)
    then show ?thesis using S[of fd] C(3)[OF Some] k'(3) by auto
  qed
  then show ?thesis using k'(1,2) by (simp add: epoll_apply_changes_def)
qed

text \<open>Without a changelist every call takes effect at once.\<close>

lemma call_registered:
  assumes "\<And>fd. usable k fd" "\<And>fd. kernel_has (w fd) (interest k fd)" "call_ok w c"
  shows "\<exists>k'. epoll_call ctl k c = (0, k') \<and> usable k' = usable k \<and> (\<forall>fd. kernel_has (call_wants w c fd) (interest k' fd))"
proof -
  have *: "\<exists>k'. epoll_apply_one_change ctl k ch = (0, k') \<and> usable k' = usable k \<and>
      (\<forall>fd. kernel_has ((w(ch_fd ch := change_wants ch)) fd) (interest k' fd))" if "old_events ch = old_flags (w (ch_fd ch))" for ch
    using apply_one[OF assms(1) that assms(2)] assms(2) by auto
  show ?thesis
  proof (cases c)
    case (Evsel_add fd old ev)
    define ch where "ch = \<lparr>ch_fd = fd, old_events = old,
        read_change = (if has EV_READ ev then EV_CHANGE_ADD OR ucast (ev AND EV_ET) else 0),
        write_change = (if has EV_WRITE ev then EV_CHANGE_ADD OR ucast (ev AND EV_ET) else 0)\<rparr>"
    have "change_wants ch = (fst (w fd) \<or> has EV_READ ev, snd (w fd) \<or> has EV_WRITE ev)" "old_events ch = old_flags (w (ch_fd ch))" "ch_fd ch = fd"
      using assms(3) Evsel_add by (auto simp: ch_def change_wants_def want_side_def)
    then show ?thesis using *[of ch] Evsel_add by (simp add: epoll_nochangelist_add_def ch_def[symmetric])
  next
    case (Evsel_del fd old ev)
    define ch where "ch = \<lparr>ch_fd = fd, old_events = old,
        read_change = (if has EV_READ ev then EV_CHANGE_DEL else 0),
        write_change = (if has EV_WRITE ev then EV_CHANGE_DEL else 0)\<rparr>"
    have "change_wants ch = (fst (w fd) \<and> \<not> has EV_READ ev, snd (w fd) \<and> \<not> has EV_WRITE ev)" "old_events ch = old_flags (w (ch_fd ch))" "ch_fd ch = fd"
      using assms(3) Evsel_del by (auto simp: ch_def change_wants_def want_side_def)
    then show ?thesis using *[of ch] Evsel_del by (simp add: epoll_nochangelist_del_def ch_def[symmetric])
  qed (use assms(2) in simp_all)
qed

lemma run_registered:
  assumes "\<And>fd. usable k fd" "\<And>fd. kernel_has (w fd) (interest k fd)" "calls_ok w calls"
  shows "(\<forall>fd. usable (epoll_run ctl k calls) fd) \<and> (\<forall>fd. kernel_has (foldl call_wants w calls fd) (interest (epoll_run ctl k calls) fd))"
  using assms
proof (induction calls arbitrary: k w)
  case (Cons c calls)
  from call_registered[OF Cons.prems(1,2), of c] Cons.prems(3) obtain k1 where
    "epoll_call ctl k c = (0, k1)" "usable k1 = usable k" "\<And>fd. kernel_has (call_wants w c fd) (interest k1 fd)" by auto
  then show ?case using Cons.IH[of k1 "call_wants w c"] Cons.prems(1,3) by (simp add: epoll_run_def)
qed (auto simp: epoll_run_def)

end


section \<open>A kernel\<close>

text \<open>The behaviour of the manual page on a table of the open descriptors.\<close>

type_synonym kernel = "(int \<Rightarrow> u32 option) \<times> (int \<Rightarrow> bool)"

fun linux_ctl :: "kernel epoll_ctl" where
  "linux_ctl (m, opened) op fd ev =
     (if \<not> opened fd then (Some EBADF, (m, opened))
      else (case op of
              EPOLL_CTL_ADD \<Rightarrow> (if m fd = None then (None, (m(fd \<mapsto> ev), opened)) else (Some EEXIST, (m, opened)))
            | EPOLL_CTL_MOD \<Rightarrow> (if m fd = None then (Some ENOENT, (m, opened)) else (None, (m(fd \<mapsto> ev), opened)))
            | EPOLL_CTL_DEL \<Rightarrow> (if m fd = None then (Some ENOENT, (m, opened)) else (None, (m(fd := None), opened)))))"

interpretation linux: epoll_kernel linux_ctl fst snd
  by unfold_locales (auto split: if_splits)

lemma fresh_sim:
  assumes "\<forall>fd. interest k fd = None"
  shows "changes_sim interest (\<lambda>_. (False, False)) (event_changelist_init (\<lambda>_. 0)) k"
  using assms by (simp add: changes_sim_def cl_wf_def event_changelist_init_def pending_def kernel_has_def)

lemma sim_after_remove:
  assumes "cl_wf cl" "\<forall>fd. kernel_has (w fd) (interest k fd)"
  shows "\<exists>cl'. event_changelist_remove_all cl = Some cl' \<and> changes_sim interest w cl' k"
  using remove_all_ok[OF assms(1)] assms(2) by (auto simp: changes_sim_def)

section \<open>Correctness of the back end\<close>





text \<open>
  C8: An addition repairs a wrong guess about the kernel: when a descriptor has been closed and opened again,
  or is already registered, a change that adds an event still ends with exactly the wanted interests.
\<close>

theorem epoll_add_recovers:
  assumes "epoll_kernel ctl interest usable" "usable k (ch_fd ch)" "old_events ch = old_flags w"
    and "flagged EV_CHANGE_ADD (read_change ch) \<or> flagged EV_CHANGE_ADD (write_change ch)"
  shows "\<exists>k' ev. epoll_apply_one_change ctl k ch = (0, k') \<and> interest k' = (interest k)(ch_fd ch \<mapsto> ev) \<and>
     kernel_has (change_wants ch) (Some ev)"
proof -
  obtain op ev where op: "epoll_change_op ch = (op, ev)" by fastforce
  note O = epoll_change_op_ok[OF op assms(3)]
  have c: "changing ch" "change_wants ch \<noteq> (False, False)" using assms(4) by (auto simp: changing_def change_wants_def want_side_def)
  then have "op \<noteq> EPOLL_CTL_DEL" using O(3) by simp
  then show ?thesis using epoll_kernel.apply_set[OF assms(1,2) op] O(2,4) c by (fastforce simp: kernel_has_def)
qed

theorem epoll_add_recovers_witness:
  "\<exists>k'. epoll_apply_one_change linux_ctl (\<lambda>_. None, \<lambda>_. True)
       \<lparr>ch_fd = 5, old_events = old_flags (True, False), read_change = 0, write_change = EV_CHANGE_ADD\<rparr> = (0, k') \<and>
     kernel_has (True, True) (fst k' 5)"
  using epoll_add_recovers[OF linux.epoll_kernel_axioms, of "(\<lambda>_. None, \<lambda>_. True)"
      "\<lparr>ch_fd = 5, old_events = old_flags (True, False), read_change = 0, write_change = EV_CHANGE_ADD\<rparr>" "(True, False)"]
  by (auto simp: flagged_def EV_CHANGE_ADD_def change_wants_def want_side_def)

text \<open>
  The time given to \<open>epoll_wait\<close> is never shorter than the normalised time value asked for and less than
  a millisecond longer, except that it is cut to 35 minutes; without a time value it is \<open>-1\<close>, to wait forever.
\<close>

theorem epoll_timeout_bounds:
  assumes "0 \<le> tv_sec tv" "0 \<le> tv_usec tv" "tv_usec tv < 1000000"
  shows "epoll_timeout None = - 1 \<and> 0 \<le> epoll_timeout (Some tv) \<and> epoll_timeout (Some tv) \<le> MAX_EPOLL_TIMEOUT_MSEC \<and>
     (epoll_timeout (Some tv) = MAX_EPOLL_TIMEOUT_MSEC \<or>
      tv_sec tv * 1000000 + tv_usec tv \<le> epoll_timeout (Some tv) * 1000 \<and>
      epoll_timeout (Some tv) * 1000 < tv_sec tv * 1000000 + tv_usec tv + 1000)"
proof -
  define u where "u = (tv_usec tv + 999) div 1000"
  have u: "(tv_usec tv + 999) sdiv 1000 = u" using assms(2) by (simp add: u_def signed_divide_int_def)
  have d: "tv_usec tv \<le> 1000 * u" "1000 * u < tv_usec tv + 1000" "0 \<le> u"
    using assms(2) by (simp_all add: u_def)
  show ?thesis using assms u d
    by (auto simp: epoll_timeout_def evutil_tv_to_msec_def Let_def MAX_EPOLL_TIMEOUT_MSEC_def)
qed

end
