(* ===== verification/Event_Loop.thy ===== *)
theory Event_Loop
  imports Event_Core
begin

text \<open>
  Timeouts and the processing of active events of \<^verbatim>\<open>event.c\<close>: \<open>timeout_next\<close>,
  \<open>timeout_correct\<close>, \<open>timeout_process\<close>, the common timeouts, the closures that run a callback,
  \<open>event_process_active\<close>, deferred callbacks, and one iteration of \<open>event_base_loop\<close>.
  Loops that may run forever are partial functions; \<open>None\<close> also stands for an abort.
\<close>

section \<open>Timeouts\<close>

text \<open>
  The time to wait: \<open>None\<close> is the null pointer (no timer). The two assertions fail for
  time values that are not normalised.
\<close>

definition timeout_next :: "event_base \<Rightarrow> timeval \<Rightarrow> timeval option option" where
  "timeout_next b clk =
     (case min_heap_top (timeheap b) of
        None \<Rightarrow> Some None
      | Some ev \<Rightarrow>
          (let now = gettime b clk; t = ev_timeout (ev_store b ev) in
           if \<not> evutil_timercmp_gt t now then Some (Some evutil_timerclear)
           else (let tv = evutil_timersub t now in
                 if tv_sec tv \<ge> 0 \<and> tv_usec tv \<ge> 0 then Some (Some tv) else None)))"

definition shift_timeout :: "timeval \<Rightarrow> event \<Rightarrow> event" where
  "shift_timeout off e = e\<lparr>ev_timeout := evutil_timersub (ev_timeout e) off\<rparr>"

definition shift_common_timeout :: "timeval \<Rightarrow> nat \<Rightarrow> event \<Rightarrow> event" where
  "shift_common_timeout off i e =
     (let t = evutil_timersub (mask_usec (ev_timeout e)) off
      in e\<lparr>ev_timeout := Timeval (tv_sec t) (tv_usec t OR COMMON_TIMEOUT_MAGIC OR push_bit 20 (int i))\<rparr>)"

definition update_all :: "(event \<Rightarrow> event) \<Rightarrow> event_id list \<Rightarrow> event_store \<Rightarrow> event_store" where
  "update_all f es evs = foldl (\<lambda>s e. s(e := f (s e))) evs es"

definition timeout_correct :: "bool \<Rightarrow> event_base \<Rightarrow> timeval \<Rightarrow> event_base" where
  "timeout_correct use_monotonic b clk =
     (if use_monotonic then b
      else (let tv = gettime b clk in
            if \<not> evutil_timercmp_lt tv (event_tv b) then b\<lparr>event_tv := tv\<rparr>
            else (let off = evutil_timersub (event_tv b) tv;
                      h = timeheap b;
                      evs1 = update_all (shift_timeout off) (take (heap_n h) (heap_p h)) (ev_store b);
                      evs2 = foldl (\<lambda>s i. update_all (shift_common_timeout off i)
                                              (ctl_events (common_timeout_queues b ! i)) s)
                               evs1 [0..<length (common_timeout_queues b)]
                  in b\<lparr>ev_store := evs2, event_tv := tv\<rparr>)))"

partial_function (option) timeout_loop ::
  "backend \<Rightarrow> allocator \<Rightarrow> timeval \<Rightarrow> event_base \<Rightarrow> event_base option" where
  "timeout_loop evsel malloc now b =
     (case min_heap_top (timeheap b) of
        None \<Rightarrow> Some b
      | Some ev \<Rightarrow>
          if evutil_timercmp_gt (ev_timeout (ev_store b ev)) now then Some b
          else do {
            r \<leftarrow> event_del_internal evsel b ev;
            b2 \<leftarrow> event_active_nolock malloc (snd r) ev EV_TIMEOUT 1;
            timeout_loop evsel malloc now b2
          })"

definition timeout_process :: "backend \<Rightarrow> allocator \<Rightarrow> event_base \<Rightarrow> timeval \<Rightarrow> event_base option" where
  "timeout_process evsel malloc b clk =
     (if min_heap_empty (timeheap b) then Some b
      else timeout_loop evsel malloc (gettime b clk) b)"

section \<open>Common timeouts\<close>

definition MAX_COMMON_TIMEOUTS :: nat where "MAX_COMMON_TIMEOUTS = 256"

text \<open>The loop of \<open>common_timeout_callback\<close>; the result is the first event that is not due.\<close>

partial_function (option) common_timeout_loop ::
  "backend \<Rightarrow> allocator \<Rightarrow> timeval \<Rightarrow> nat \<Rightarrow> event_base \<Rightarrow> (event_id option \<times> event_base) option" where
  "common_timeout_loop evsel malloc now i b =
     (case ctl_events (common_timeout_queues b ! i) of
        [] \<Rightarrow> Some (None, b)
      | ev # _ \<Rightarrow>
          (let t = mask_usec (ev_timeout (ev_store b ev)) in
           if tv_sec t > tv_sec now \<or> tv_sec t = tv_sec now \<and> tv_usec t > tv_usec now then Some (Some ev, b)
           else do {
             r \<leftarrow> event_del_internal evsel b ev;
             b2 \<leftarrow> event_active_nolock malloc (snd r) ev EV_TIMEOUT 1;
             common_timeout_loop evsel malloc now i b2
           }))"

definition common_timeout_callback ::
  "backend \<Rightarrow> allocator \<Rightarrow> timeval \<Rightarrow> nat \<Rightarrow> event_base \<Rightarrow> event_base option" where
  "common_timeout_callback evsel malloc clk i b = do {
     (ev, b1) \<leftarrow> common_timeout_loop evsel malloc (gettime b clk) i b;
     case ev of
       None \<Rightarrow> Some b1
     | Some e \<Rightarrow> common_timeout_schedule evsel malloc clk b1 (common_timeout_queues b1 ! i) e
   }"

text \<open>C's division and remainder on \<open>tv_usec\<close>, which is not negative where they are used.\<close>

definition normalize_duration :: "event_base \<Rightarrow> timeval \<Rightarrow> timeval" where
  "normalize_duration b d =
     (if tv_usec d > 1000000
      then (let us = (if is_common_timeout d b then tv_usec d AND MICROSECONDS_MASK else tv_usec d)
            in Timeval (tv_sec d + us div 1000000) (us mod 1000000))
      else d)"

fun find_duration :: "timeval \<Rightarrow> common_timeout_list list \<Rightarrow> timeval option" where
  "find_duration d [] = None"
| "find_duration d (c # cs) =
     (if tv_sec d = tv_sec (duration c) \<and> tv_usec d = tv_usec (duration c) AND MICROSECONDS_MASK
      then Some (duration c) else find_duration d cs)"

text \<open>\<open>ev\<close> is the event of the new list, part of the memory \<open>mm_calloc\<close> returns for it.\<close>

definition event_base_init_common_timeout ::
  "allocator \<Rightarrow> event_id \<Rightarrow> event_base \<Rightarrow> timeval \<Rightarrow> (timeval option \<times> event_base) option" where
  "event_base_init_common_timeout malloc ev b d0 =
     (let d = normalize_duration b d0; qs = common_timeout_queues b; n = length qs in
      case find_duration d qs of
        Some r \<Rightarrow> (if is_common_timeout r b then Some (Some r, b) else None)
      | None \<Rightarrow>
          if n = MAX_COMMON_TIMEOUTS then Some (None, b)
          else (let n' = (if n < 16 then 16 else n * 2);
                    grow = (if n_common_timeouts_allocated b = n then map_option (\<lambda>_. n') (malloc (n' * 8))
                            else Some (n_common_timeouts_allocated b))
                in case grow of
                     None \<Rightarrow> Some (None, b)
                   | Some alloc \<Rightarrow>
                       (let b1 = b\<lparr>n_common_timeouts_allocated := alloc\<rparr> in
                        case malloc 200 of
                          None \<Rightarrow> Some (None, b1)
                        | Some _ \<Rightarrow>
                            (let r = Timeval (tv_sec d) (tv_usec d OR COMMON_TIMEOUT_MAGIC OR push_bit 20 (int n));
                                 b2 = snd (event_assign b1 ev (- 1) 0);
                                 b3 = upd_ev b2 ev (\<lambda>x. x\<lparr>ev_flags := ev_flags x OR EVLIST_INTERNAL\<rparr>);
                                 b4 = snd (event_priority_set b3 ev 0);
                                 b5 = b4\<lparr>common_timeout_queues := qs @
                                        [\<lparr>ctl_events = [], duration = r, timeout_event = ev\<rparr>]\<rparr>
                             in if is_common_timeout r b5 then Some (Some r, b5) else None))))"

section \<open>Running callbacks\<close>

definition log_call :: "event_base \<Rightarrow> event_id \<Rightarrow> event_base" where
  "log_call b ev = b\<lparr>cb_trace := cb_trace b @ [(ev, ev_res (ev_store b ev))]\<rparr>"

fun ctl_of_event :: "nat \<Rightarrow> common_timeout_list list \<Rightarrow> event_id \<Rightarrow> nat option" where
  "ctl_of_event i [] ev = None"
| "ctl_of_event i (c # cs) ev = (if timeout_event c = ev then Some i else ctl_of_event (Suc i) cs ev)"

text \<open>The callback of an event: that of a common timeout for its timer, the user's otherwise.\<close>

definition run_callback ::
  "(event_id \<Rightarrow> event_base \<Rightarrow> event_base) \<Rightarrow> backend \<Rightarrow> allocator \<Rightarrow> timeval \<Rightarrow> event_base \<Rightarrow> event_id \<Rightarrow> event_base option" where
  "run_callback cb evsel malloc clk b ev =
     (case ctl_of_event 0 (common_timeout_queues b) ev of
        Some i \<Rightarrow> common_timeout_callback evsel malloc clk i (log_call b ev)
      | None \<Rightarrow> Some (cb ev (log_call b ev)))"

text \<open>
  The loop of \<open>event_signal_closure\<close>: \<open>n\<close> is the local \<open>ncalls\<close>, which a deletion sets to 0
  through \<open>ev_pncalls\<close>.
\<close>

fun signal_loop ::
  "(event_id \<Rightarrow> event_base \<Rightarrow> event_base) \<Rightarrow> backend \<Rightarrow> allocator \<Rightarrow> timeval \<Rightarrow> event_id \<Rightarrow> nat \<Rightarrow> event_base \<Rightarrow> event_base option" where
  "signal_loop cb evsel malloc clk ev 0 b = Some b"
| "signal_loop cb evsel malloc clk ev (Suc n) b = do {
     b1 \<leftarrow> run_callback cb evsel malloc clk
            (upd_ev (b\<lparr>sig_aborted := False\<rparr>) ev
               (\<lambda>x. x\<lparr>ev_ncalls := n, ev_pncalls := (if n = 0 then False else ev_pncalls x)\<rparr>)) ev;
     let left = (if sig_aborted b1 then 0 else n) in
     if event_break b1
     then Some (if left \<noteq> 0 then upd_ev b1 ev (\<lambda>x. x\<lparr>ev_pncalls := False\<rparr>) else b1)
     else if sig_aborted b1 then Some b1
     else signal_loop cb evsel malloc clk ev n b1
   }"

definition event_signal_closure ::
  "(event_id \<Rightarrow> event_base \<Rightarrow> event_base) \<Rightarrow> backend \<Rightarrow> allocator \<Rightarrow> timeval \<Rightarrow> event_base \<Rightarrow> event_id \<Rightarrow> event_base option" where
  "event_signal_closure cb evsel malloc clk b ev =
     (let n = ev_ncalls (ev_store b ev);
          b1 = (if n \<noteq> 0 then upd_ev b ev (\<lambda>x. x\<lparr>ev_pncalls := True\<rparr>) else b)
      in signal_loop cb evsel malloc clk ev n b1)"

text \<open>The time the next run of a persistent event is scheduled for.\<close>

definition persist_run_at :: "event_base \<Rightarrow> timeval \<Rightarrow> event \<Rightarrow> timeval" where
  "persist_run_at b now e =
     (let common = is_common_timeout (ev_timeout e) b;
          delay = (if common then mask_usec (ev_io_timeout e) else ev_io_timeout e);
          usec_mask = (if common then tv_usec (ev_io_timeout e) AND NOT MICROSECONDS_MASK else 0);
          relative_to = (if has EV_TIMEOUT (ev_res e)
                         then (if common then mask_usec (ev_timeout e) else ev_timeout e)
                         else now);
          run_at = evutil_timeradd relative_to delay;
          run_at' = (if evutil_timercmp_lt run_at now then evutil_timeradd now delay else run_at)
      in Timeval (tv_sec run_at') (tv_usec run_at' OR usec_mask))"

definition event_persist_closure ::
  "(event_id \<Rightarrow> event_base \<Rightarrow> event_base) \<Rightarrow> backend \<Rightarrow> allocator \<Rightarrow> timeval \<Rightarrow> event_base \<Rightarrow> event_id \<Rightarrow> event_base option" where
  "event_persist_closure cb evsel malloc clk b ev = do {
     b1 \<leftarrow> (let e = ev_store b ev in
            if evutil_timerisset (ev_io_timeout e)
            then (if \<not> is_same_common_timeout (ev_timeout e) (ev_io_timeout e) then None
                  else map_option snd (event_add_internal evsel malloc clk b ev
                         (Some (persist_run_at b (gettime b clk) e)) True))
            else Some b);
     run_callback cb evsel malloc clk b1 ev
   }"

definition run_event ::
  "(event_id \<Rightarrow> event_base \<Rightarrow> event_base) \<Rightarrow> backend \<Rightarrow> allocator \<Rightarrow> timeval \<Rightarrow> event_base \<Rightarrow> event_id \<Rightarrow> event_base option" where
  "run_event cb evsel malloc clk b ev =
     (case ev_closure (ev_store b ev) of
        EV_CLOSURE_SIGNAL \<Rightarrow> event_signal_closure cb evsel malloc clk b ev
      | EV_CLOSURE_PERSIST \<Rightarrow> event_persist_closure cb evsel malloc clk b ev
      | EV_CLOSURE_NONE \<Rightarrow> run_callback cb evsel malloc clk b ev)"

text \<open>Taking the first event off its queue: a persistent one stays added.\<close>

definition pop_active :: "backend \<Rightarrow> event_base \<Rightarrow> event_id \<Rightarrow> event_base option" where
  "pop_active evsel b ev =
     (if has EV_PERSIST (ev_events (ev_store b ev)) then event_queue_remove b ev EVLIST_ACTIVE
      else map_option snd (event_del_internal evsel b ev))"

partial_function (option) event_process_active_single_queue ::
  "(event_id \<Rightarrow> event_base \<Rightarrow> event_base) \<Rightarrow> backend \<Rightarrow> allocator \<Rightarrow> timeval \<Rightarrow> nat \<Rightarrow> int \<Rightarrow> event_base \<Rightarrow> (int \<times> event_base) option" where
  "event_process_active_single_queue cb evsel malloc clk pri cnt b =
     (case activequeues b ! pri of
        [] \<Rightarrow> Some (cnt, b)
      | ev # _ \<Rightarrow> do {
          b1 \<leftarrow> pop_active evsel b ev;
          b2 \<leftarrow> run_event cb evsel malloc clk b1 ev;
          if event_break b2 then Some (- 1, b2)
          else if event_continue b2 then Some (if on_queue EVLIST_INTERNAL b1 ev then cnt else cnt + 1, b2)
          else event_process_active_single_queue cb evsel malloc clk pri
                 (if on_queue EVLIST_INTERNAL b1 ev then cnt else cnt + 1) b2
        })"

text \<open>Deferred callbacks are user code as well: \<open>dcb\<close> is what each does to the base.\<close>

fun event_process_deferred_callbacks :: "(nat \<Rightarrow> event_base \<Rightarrow> event_base) \<Rightarrow> nat \<Rightarrow> event_base \<Rightarrow> event_base" where
  "event_process_deferred_callbacks dcb 0 b = b"
| "event_process_deferred_callbacks dcb (Suc left) b =
     (let q = defer_queue b in
      case deferred_cb_list q of
        [] \<Rightarrow> b
      | c # cs \<Rightarrow>
          (let b1 = dcb c (b\<lparr>defer_queue := q\<lparr>deferred_cb_list := cs, active_count := active_count q - 1,
                                               cb_queued := (cb_queued q)(c := False)\<rparr>\<rparr>)
           in if event_break b1 then b1 else event_process_deferred_callbacks dcb left b1))"

definition MAX_DEFERRED :: nat where "MAX_DEFERRED = 16"

text \<open>The queues from priority \<open>i\<close> on, until one with a real event has been processed.\<close>

fun process_queues ::
  "(event_id \<Rightarrow> event_base \<Rightarrow> event_base) \<Rightarrow> backend \<Rightarrow> allocator \<Rightarrow> timeval \<Rightarrow> nat \<Rightarrow> nat \<Rightarrow> int \<Rightarrow> event_base \<Rightarrow> (int \<times> event_base) option" where
  "process_queues cb evsel malloc clk i 0 c b = Some (c, b)"
| "process_queues cb evsel malloc clk i (Suc m) c b =
     (if activequeues b ! i \<noteq> []
      then do {
        (c', b1) \<leftarrow> event_process_active_single_queue cb evsel malloc clk i 0
                      (b\<lparr>event_running_priority := int i\<rparr>);
        if c' < 0 \<or> c' > 0 then Some (c', b1)
        else process_queues cb evsel malloc clk (Suc i) m c' b1
      }
      else process_queues cb evsel malloc clk (Suc i) m c b)"

definition event_process_active ::
  "(event_id \<Rightarrow> event_base \<Rightarrow> event_base) \<Rightarrow> (nat \<Rightarrow> event_base \<Rightarrow> event_base) \<Rightarrow> backend \<Rightarrow> allocator \<Rightarrow> timeval \<Rightarrow>
   event_base \<Rightarrow> (int \<times> event_base) option" where
  "event_process_active cb dcb evsel malloc clk b = do {
     (c, b1) \<leftarrow> process_queues cb evsel malloc clk 0 (length (activequeues b)) 0 b;
     if c < 0 then Some (- 1, b1\<lparr>event_running_priority := - 1\<rparr>)
     else Some (c, (event_process_deferred_callbacks dcb MAX_DEFERRED b1)\<lparr>event_running_priority := - 1\<rparr>)
   }"

section \<open>Deferred callbacks\<close>

definition event_deferred_cb_cancel :: "deferred_cb_queue \<Rightarrow> nat \<Rightarrow> deferred_cb_queue" where
  "event_deferred_cb_cancel q c =
     (if cb_queued q c
      then q\<lparr>deferred_cb_list := remove1 c (deferred_cb_list q), active_count := active_count q - 1,
             cb_queued := (cb_queued q)(c := False)\<rparr>
      else q)"

definition notify_base_cbq_callback :: "event_base \<Rightarrow> event_base" where
  "notify_base_cbq_callback b = notify_if True b"

text \<open>On the queue of a base; \<open>notify_fn\<close> is the function the queue was given, if any.\<close>

definition event_deferred_cb_schedule :: "(event_base \<Rightarrow> event_base) option \<Rightarrow> event_base \<Rightarrow> nat \<Rightarrow> event_base" where
  "event_deferred_cb_schedule notify_fn b c =
     (let q = defer_queue b in
      if \<not> cb_queued q c
      then (let b1 = b\<lparr>defer_queue := q\<lparr>deferred_cb_list := deferred_cb_list q @ [c], active_count := active_count q + 1,
                                        cb_queued := (cb_queued q)(c := True)\<rparr>\<rparr>
            in case notify_fn of None \<Rightarrow> b1 | Some f \<Rightarrow> f b1)
      else b)"

section \<open>The loop\<close>

definition EVLOOP_ONCE :: u16 where "EVLOOP_ONCE = 0x01"
definition EVLOOP_NONBLOCK :: u16 where "EVLOOP_NONBLOCK = 0x02"

definition event_loopexit_cb :: "event_base \<Rightarrow> event_base" where
  "event_loopexit_cb b = b\<lparr>event_gotterm := True\<rparr>"

definition event_base_loopbreak :: "event_base \<Rightarrow> int \<times> event_base" where
  "event_base_loopbreak b =
     (let b1 = b\<lparr>event_break := True\<rparr> in if need_notify b1 then evthread_notify_base b1 else (0, b1))"

definition event_base_add_virtual :: "event_base \<Rightarrow> event_base" where
  "event_base_add_virtual b = b\<lparr>virtual_event_count := virtual_event_count b + 1\<rparr>"

definition event_base_del_virtual :: "event_base \<Rightarrow> event_base option" where
  "event_base_del_virtual b =
     (if virtual_event_count b > 0
      then (let b1 = b\<lparr>virtual_event_count := virtual_event_count b - 1\<rparr>
            in Some (notify_if (virtual_event_count b1 = 0) b1))
      else None)"

text \<open>
  What the loop calls through pointers and from the system: the callbacks, the deferred callbacks, the
  back end with its \<open>dispatch\<close>, and the clock, read at most six times in an iteration.
\<close>

record loop_env =
  env_cb :: "event_id \<Rightarrow> event_base \<Rightarrow> event_base"
  env_dcb :: "nat \<Rightarrow> event_base \<Rightarrow> event_base"
  env_evsel :: backend
  env_malloc :: allocator
  env_dispatch :: "event_base \<Rightarrow> timeval option \<Rightarrow> int \<times> event_base"
  env_clock :: "nat \<Rightarrow> nat \<Rightarrow> timeval"
  env_monotonic :: bool
  env_no_cache :: bool

text \<open>The part of an iteration before \<open>dispatch\<close>: the time to wait, or the value to return.\<close>

definition loop_prepare :: "loop_env \<Rightarrow> u16 \<Rightarrow> nat \<Rightarrow> event_base \<Rightarrow> (int + timeval option \<times> event_base) option" where
  "loop_prepare env flags k b =
     (let b1 = timeout_correct (env_monotonic env) b (env_clock env k 0) in do {
        tv \<leftarrow> (if N_ACTIVE_CALLBACKS b1 = 0 \<and> \<not> has EVLOOP_NONBLOCK flags
              then timeout_next b1 (env_clock env k 1) else Some (Some evutil_timerclear));
        if \<not> event_haveevents b1 \<and> N_ACTIVE_CALLBACKS b1 = 0 then Some (Inl 1)
        else Some (Inr (tv, clear_time_cache (b1\<lparr>event_tv := gettime b1 (env_clock env k 2)\<rparr>)))
      })"

text \<open>The part after it: whether the loop is done.\<close>

definition loop_process :: "loop_env \<Rightarrow> u16 \<Rightarrow> nat \<Rightarrow> event_base \<Rightarrow> (bool \<times> event_base) option" where
  "loop_process env flags k b = do {
     b1 \<leftarrow> timeout_process (env_evsel env) (env_malloc env)
            (update_time_cache b (env_no_cache env) (env_clock env k 3)) (env_clock env k 4);
     if N_ACTIVE_CALLBACKS b1 \<noteq> 0
     then do {
       (n, b2) \<leftarrow> event_process_active (env_cb env) (env_dcb env) (env_evsel env) (env_malloc env) (env_clock env k 5) b1;
       Some (has EVLOOP_ONCE flags \<and> N_ACTIVE_CALLBACKS b2 = 0 \<and> n \<noteq> 0, b2)
     }
     else Some (has EVLOOP_NONBLOCK flags, b1)
   }"

text \<open>The loop; \<open>k\<close> counts the iterations. Where it returns from within \<open>loop_prepare\<close> the base is that after \<open>timeout_correct\<close>.\<close>

partial_function (option) loop_iterate :: "loop_env \<Rightarrow> u16 \<Rightarrow> nat \<Rightarrow> event_base \<Rightarrow> (int \<times> event_base) option" where
  "loop_iterate env flags k b0 =
     (let b = b0\<lparr>event_continue := False\<rparr> in
      if event_gotterm b \<or> event_break b then Some (0, b)
      else do {
        p \<leftarrow> loop_prepare env flags k b;
        (case p of
           Inl r \<Rightarrow> Some (r, timeout_correct (env_monotonic env) b (env_clock env k 0))
         | Inr tb \<Rightarrow>
             (let res = env_dispatch env (snd tb) (fst tb) in
              if fst res = - 1 then Some (- 1, snd res)
              else do {
                d \<leftarrow> loop_process env flags k (snd res);
                if fst d then Some (0, snd d) else loop_iterate env flags (Suc k) (snd d)
              }))
      })"

definition event_base_loop :: "loop_env \<Rightarrow> u16 \<Rightarrow> event_base \<Rightarrow> (int \<times> event_base) option" where
  "event_base_loop env flags b =
     (if running_loop b then Some (- 1, b)
      else do {
        (r, b1) \<leftarrow> loop_iterate env flags 0
          ((clear_time_cache (b\<lparr>running_loop := True\<rparr>))\<lparr>event_gotterm := False, event_break := False\<rparr>);
        Some (r, (clear_time_cache b1)\<lparr>running_loop := False\<rparr>)
      })"

section \<open>Processing the timers\<close>

text \<open>The events whose time has come, and what processing them does.\<close>

definition due :: "timeval \<Rightarrow> event_base \<Rightarrow> event_id \<Rightarrow> bool" where
  "due now b x \<longleftrightarrow> on_queue EVLIST_TIMEOUT b x \<and> \<not> common_of b x \<and> ev_timeout (ev_store b x) \<le> now"

definition fired :: "(event_id \<Rightarrow> bool) \<Rightarrow> event_base \<Rightarrow> event_base \<Rightarrow> bool" where
  "fired D b b' \<longleftrightarrow>
     base_inv b' \<and> same_setup b b' \<and>
     (\<forall>x. on_queue EVLIST_TIMEOUT b' x = (on_queue EVLIST_TIMEOUT b x \<and> \<not> D x) \<and>
          on_queue EVLIST_ACTIVE b' x = (on_queue EVLIST_ACTIVE b x \<or> D x) \<and>
          on_queue EVLIST_INSERTED b' x = (on_queue EVLIST_INSERTED b x \<and> \<not> D x) \<and>
          ev_timeout (ev_store b' x) = ev_timeout (ev_store b x) \<and>
          ev_res (ev_store b' x) = (if D x then EV_TIMEOUT else ev_res (ev_store b x)))"

lemma fired_refl: "base_inv b \<Longrightarrow> (\<And>x. \<not> D x) \<Longrightarrow> fired D b b"
  by (simp add: fired_def)

lemma fired_trans:
  assumes "fired D1 b b1" "fired D2 b1 b2" "\<And>x. D x = (D1 x \<or> D2 x)"
  shows "fired D b b2"
  using assms(1,2) same_setup_trans[of b b1 b2] unfolding fired_def assms(3) by auto

text \<open>Deleting an event and making it active, as both timeout loops do.\<close>

lemma expire_ok:
  assumes inv: "base_inv b" and maps: "maps_covered I b" and fl: "ev_flags (ev_store b ev) AND NOT EVLIST_ALL = 0"
    and pri: "ev_pri (ev_store b ev) < length (activequeues b)" and on: "on_queue EVLIST_TIMEOUT b ev"
  shows "\<exists>r b1 b2. event_del_internal evsel b ev = Some (r, b1) \<and> event_active_nolock m b1 ev EV_TIMEOUT 1 = Some b2 \<and>
     fired (\<lambda>x. x = ev) b b2 \<and> (\<exists>J \<subseteq> I. maps_covered J b2) \<and> heap_a (timeheap b2) = heap_a (timeheap b) \<and>
     common_timeout_queues b2 = common_timeout_queues b1"
proof -
  from event_del_internal_ok[OF inv maps fl, of evsel] obtain r b1 where
    b1: "event_del_internal evsel b ev = Some (r, b1)" "base_inv b1" "same_setup b b1" "same_times b b1" "off_all_queues ev b b1"
      "heap_a (timeheap b1) = heap_a (timeheap b)"
      "maps_covered (if r = 0 \<and> on_queue EVLIST_INSERTED b ev then I - {ev} else I) b1" by (elim exE conjE) (rule that)
  have "ev_pri (ev_store b1 ev) < length (activequeues b1)" using pri same_setupD(3,7)[OF b1(3)] by simp
  from event_active_nolock_ok[OF b1(2) this, of m EV_TIMEOUT 1] obtain b2 where
    b2: "event_active_nolock m b1 ev EV_TIMEOUT 1 = Some b2" "activated ev EV_TIMEOUT b1 b2" by blast
  have off: "on_queue EVLIST_INSERTED b1 x = (on_queue EVLIST_INSERTED b x \<and> x \<noteq> ev)"
    "on_queue EVLIST_ACTIVE b1 x = (on_queue EVLIST_ACTIVE b x \<and> x \<noteq> ev)"
    "on_queue EVLIST_TIMEOUT b1 x = (on_queue EVLIST_TIMEOUT b x \<and> x \<noteq> ev)" for x
    using b1(5) by (simp_all add: off_all_queues_def)
  have ss: "same_setup b b2" using b2(2) same_setup_trans[OF b1(3)] by (simp add: activated_def)
  have "fired (\<lambda>x. x = ev) b b2"
    using b2(2) ss b1(4) unfolding fired_def activated_def same_times_def off by auto
  moreover have "\<exists>J \<subseteq> I. maps_covered J b2"
    using b1(7) unfolding activated_covered[OF b2(2)]
    by (rule exI[of _ "if r = 0 \<and> on_queue EVLIST_INSERTED b ev then I - {ev} else I", OF conjI[rotated]]) auto
  moreover have "timeheap b2 = timeheap b1" "common_timeout_queues b2 = common_timeout_queues b1" using b2(2) by (simp_all add: activated_def)
  ultimately show ?thesis using b1(1,6) b2(1) by (intro exI[of _ r] exI[of _ b1] exI[of _ b2]) simp
qed

lemma due_after_fired:
  assumes "fired (\<lambda>x. x = ev) b b2" "due now b ev"
  shows "due now b x = (x = ev \<or> due now b2 x)"
proof -
  have "is_common_timeout t b2 = is_common_timeout t b" for t using assms(1) same_setupD(12)[of b b2] by (simp add: fired_def)
  then show ?thesis using assms by (auto simp: due_def fired_def common_of_def)
qed

definition expirable :: "event_base \<Rightarrow> bool" where
  "expirable b \<longleftrightarrow> (\<forall>x. on_queue EVLIST_TIMEOUT b x \<longrightarrow>
     ev_flags (ev_store b x) AND NOT EVLIST_ALL = 0 \<and> ev_pri (ev_store b x) < length (activequeues b))"

lemma expirable_fired: "expirable b \<Longrightarrow> fired D b b' \<Longrightarrow> expirable b'"
  unfolding expirable_def fired_def using same_setupD[of b b'] by simp

lemma timeout_loop_ok:
  assumes "base_inv b" "maps_covered I b" "expirable b"
  shows "\<exists>b'. timeout_loop evsel m now b = Some b' \<and> fired (due now b) b b' \<and> (\<exists>J \<subseteq> I. maps_covered J b')"
  using assms
proof (induction "heap_n (timeheap b)" arbitrary: b I rule: less_induct)
  case less
  note inv = \<open>base_inv b\<close> and maps = \<open>maps_covered I b\<close> and ex = \<open>expirable b\<close>
  have T: "min_heap_inv (ev_store b) (timeheap b)"
    "min_heap_elems (timeheap b) = {e. on_queue EVLIST_TIMEOUT b e \<and> \<not> common_of b e}"
    using base_invD(4)[OF inv] by (simp_all add: timers_ok_def)
  show ?case
  proof (cases "min_heap_top (timeheap b)")
    case None
    then have "\<not> due now b x" for x using T min_heap_top_None[OF T(1)] by (auto simp: due_def)
    then show ?thesis using None inv maps fired_refl[OF inv] by (subst timeout_loop.simps) auto
  next
    case (Some ev)
    have ev: "on_queue EVLIST_TIMEOUT b ev" "\<not> common_of b ev" using min_heap_top_Some[OF T(1) Some] T(2) by auto
    have least: "ev_timeout (ev_store b ev) \<le> ev_timeout (ev_store b x)" if "on_queue EVLIST_TIMEOUT b x" "\<not> common_of b x" for x
      using min_heap_top_least[OF T(1) Some] that T(2) by auto
    show ?thesis
    proof (cases "now < ev_timeout (ev_store b ev)")
      case True
      then have "\<not> due now b x" for x using least[of x] by (auto simp: due_def)
      then show ?thesis using True Some inv maps fired_refl[OF inv] by (subst timeout_loop.simps) (auto simp: timercmp_gt_iff)
    next
      case False
      have d: "due now b ev" using ev False by (simp add: due_def)
      have "ev_flags (ev_store b ev) AND NOT EVLIST_ALL = 0" "ev_pri (ev_store b ev) < length (activequeues b)"
        using ex ev(1) by (simp_all add: expirable_def)
      from expire_ok[OF inv maps this ev(1), of evsel m] obtain r b1 b2 J where
        s: "event_del_internal evsel b ev = Some (r, b1)" "event_active_nolock m b1 ev EV_TIMEOUT 1 = Some b2"
          "fired (\<lambda>x. x = ev) b b2" "J \<subseteq> I" "maps_covered J b2" by (elim exE conjE) (rule that)
      have inv2: "base_inv b2" using s(3) by (simp add: fired_def)
      have "{e. on_queue EVLIST_TIMEOUT b2 e \<and> \<not> common_of b2 e} = {e. on_queue EVLIST_TIMEOUT b e \<and> \<not> common_of b e} - {ev}"
        using s(3) same_setupD(12)[of b b2] by (auto simp: fired_def common_of_def)
      moreover have "finite {e. on_queue EVLIST_TIMEOUT b e \<and> \<not> common_of b e}" using T(2) unfolding min_heap_elems_def by (metis List.finite_set)
      ultimately have "heap_n (timeheap b2) < heap_n (timeheap b)"
        unfolding heap_n_queue[OF inv] heap_n_queue[OF inv2] using ev by (intro psubset_card_mono) auto
      from less.hyps[OF this inv2 s(5) expirable_fired[OF ex s(3)]] obtain b' J' where
        b': "timeout_loop evsel m now b2 = Some b'" "fired (due now b2) b2 b'" "J' \<subseteq> J" "maps_covered J' b'"
        by (elim exE conjE) (rule that)
      have "timeout_loop evsel m now b = Some b'"
        using Some False s(1,2) b'(1) by (subst timeout_loop.simps) (simp add: timercmp_gt_iff)
      moreover have "fired (due now b) b b'" by (rule fired_trans[OF s(3) b'(2) due_after_fired[OF s(3) d]])
      ultimately show ?thesis using b'(3,4) s(4) by blast
    qed
  qed
qed

end
