(* ===== verification/Event_System.thy ===== *)
theory Event_System
  imports Event_Loop
begin

text \<open>
  The event base as a state machine: the operations of the library as steps, an invariant that every
  step keeps, and the properties of the single operations of \<^verbatim>\<open>event.c\<close> and \<^verbatim>\<open>evmap.c\<close>.
\<close>

section \<open>An event that is on no queue\<close>

definition idle :: "event_base \<Rightarrow> event_id \<Rightarrow> bool" where
  "idle b ev \<longleftrightarrow> \<not> on_queue EVLIST_INSERTED b ev \<and> \<not> on_queue EVLIST_ACTIVE b ev \<and> \<not> on_queue EVLIST_TIMEOUT b ev"

definition unmapped :: "event_base \<Rightarrow> event_id \<Rightarrow> bool" where
  "unmapped b ev \<longleftrightarrow>
     (\<forall>ctx. Some ctx \<in> set (io_map b) \<longrightarrow> ev \<notin> set (io_events ctx)) \<and>
     (\<forall>es. Some es \<in> set (sigmap b) \<longrightarrow> ev \<notin> set es)"

lemma heap_order_cong:
  assumes "\<And>j. j < n \<Longrightarrow> k' (xs ! j) = k (xs ! j)"
  shows "heap_order k' xs n = heap_order k xs n"
proof -
  have "parent_pos j < n" if "0 < j" "j < n" for j using parent_pos_less[OF that(1)] that(2) by simp
  then show ?thesis unfolding heap_order_def using assms by auto
qed

text \<open>Any change to such an event keeps the invariant of the queues.\<close>

lemma base_inv_change_idle:
  assumes inv: "base_inv b" and idle: "idle b ev" "idle (upd_ev b ev f) ev" and idx: "min_heap_idx (f (ev_store b ev)) = - 1"
  shows "base_inv (upd_ev b ev f)"
proof -
  define b' where "b' = upd_ev b ev f"
  note D = base_invD[OF inv]
  note T = D(4)[unfolded timers_ok_def]
  have same: "ev_store b' x = ev_store b x" if "x \<noteq> ev" for x using that by (simp add: b'_def upd_ev_def)
  have on: "on_queue q b' x = on_queue q b x" if "q \<in> {EVLIST_INSERTED, EVLIST_ACTIVE, EVLIST_TIMEOUT}" for q x
    using that idle same[of x] by (cases "x = ev") (auto simp: idle_def b'_def[symmetric] on_queue_def)
  have vis: "visible_on q b' = visible_on q b" if "q \<in> {EVLIST_INSERTED, EVLIST_ACTIVE, EVLIST_TIMEOUT}" for q
  proof -
    have "on_queue q b x \<Longrightarrow> on_queue EVLIST_INTERNAL b' x = on_queue EVLIST_INTERNAL b x" for x
      using that idle(1) same[of x] by (cases "x = ev") (auto simp: idle_def on_queue_def)
    then show ?thesis using on[OF that] by (auto simp: visible_on_def)
  qed
  have rest: "eventqueue b' = eventqueue b" "activequeues b' = activequeues b" "timeheap b' = timeheap b"
    "common_timeout_queues b' = common_timeout_queues b" "event_count b' = event_count b" "event_count_active b' = event_count_active b"
    by (simp_all add: b'_def upd_ev_def)
  have com: "common_of b' x = common_of b x" "idx_of b' x = idx_of b x" "ev_timeout (ev_store b' x) = ev_timeout (ev_store b x)"
    if "on_queue EVLIST_TIMEOUT b x" for x
  proof -
    have "x \<noteq> ev" using that idle(1) by (auto simp: idle_def)
    then show "common_of b' x = common_of b x" "idx_of b' x = idx_of b x" "ev_timeout (ev_store b' x) = ev_timeout (ev_store b x)"
      using same[of x] by (simp_all add: common_of_def idx_of_def is_common_timeout_def rest)
  qed
  have pri: "ev_pri (ev_store b' x) = ev_pri (ev_store b x)" if "on_queue EVLIST_ACTIVE b x" for x
    using that idle(1) same[of x] by (cases "x = ev") (auto simp: idle_def)
  have notin: "ev \<notin> min_heap_elems (timeheap b)" using T idle(1) by (auto simp: idle_def)
  have "min_heap_inv (ev_store b') (timeheap b)"
  proof -
    note H = min_heap_invD[OF conjunct1[OF T]]
    have el: "ev_store b' (heap_p (timeheap b) ! j) = ev_store b (heap_p (timeheap b) ! j)" if "j < heap_n (timeheap b)" for j
      using min_heap_elems_nth[of j "timeheap b"] that H(1,2) notin same by metis
    have "heap_order (event_key (ev_store b')) (heap_p (timeheap b)) (heap_n (timeheap b))"
      using H(3) heap_order_cong[of "heap_n (timeheap b)" "event_key (ev_store b')" "heap_p (timeheap b)" "event_key (ev_store b)"] el by simp
    moreover have "min_heap_idx (ev_store b' x) = - 1" if "x \<notin> min_heap_elems (timeheap b)" for x
      using that H(6) same[of x] idx by (cases "x = ev") (simp_all add: b'_def upd_ev_def)
    ultimately show ?thesis using T el unfolding min_heap_inv_def by simp
  qed
  moreover have "{e. on_queue EVLIST_TIMEOUT b e \<and> \<not> common_of b' e} = {e. on_queue EVLIST_TIMEOUT b e \<and> \<not> common_of b e}"
    "{e. on_queue EVLIST_TIMEOUT b e \<and> common_of b' e \<and> idx_of b' e = i} = {e. on_queue EVLIST_TIMEOUT b e \<and> common_of b e \<and> idx_of b e = i}" for i
    using com by auto
  ultimately have "timers_ok b'" unfolding timers_ok_def rest using T com(3) on by simp (use com(1) in blast)
  moreover have "{e. on_queue EVLIST_ACTIVE b e \<and> ev_pri (ev_store b' e) = i} = {e. on_queue EVLIST_ACTIVE b e \<and> ev_pri (ev_store b e) = i}" for i
    using pri by auto
  then have "active_ok b'" unfolding active_ok_def rest using D(3) on pri by (simp add: active_ok_def)
  moreover have "on_queue EVLIST_ACTIVE b' = on_queue EVLIST_ACTIVE b" using on by blast
  then have "counts_ok b'" using D(5) vis unfolding counts_ok_def rest by simp
  moreover have "on_queue EVLIST_INSERTED b' = on_queue EVLIST_INSERTED b" using on by blast
  ultimately have "base_inv b'" using D(1,2) unfolding base_inv_def rest by simp
  then show ?thesis by (simp add: b'_def)
qed

lemma maps_covered_unmapped:
  assumes "maps_covered I b" "unmapped b ev" "\<not> on_queue EVLIST_INSERTED b ev"
  shows "maps_covered (I - {ev}) b"
proof -
  have m: "maps_ok (ev_store b) I (io_map b) (sigmap b)" using assms(1) by (simp add: maps_covered_def)
  have "io_entry_ok (ev_store b) (I - {ev}) k ctx" if "k < length (io_map b)" "io_map b ! k = Some ctx" for k ctx
  proof -
    have "ev \<notin> set (io_events ctx)" using that assms(2) nth_mem[of k "io_map b"] by (auto simp: unmapped_def)
    then show ?thesis using maps_ok_io[OF m subset_refl that] by (auto simp: io_entry_ok_def)
  qed
  moreover have "sig_entry_ok (ev_store b) (I - {ev}) k es" if "k < length (sigmap b)" "sigmap b ! k = Some es" for k es
  proof -
    have "ev \<notin> set es" using that assms(2) nth_mem[of k "sigmap b"] by (auto simp: unmapped_def)
    then show ?thesis using maps_ok_sig[OF m subset_refl that] by (auto simp: sig_entry_ok_def)
  qed
  ultimately show ?thesis using assms(1,3) m unfolding maps_covered_def maps_ok_def by blast
qed

lemma maps_ok_cong_on:
  assumes "\<And>x. x \<in> I \<Longrightarrow> ev_events (S' x) = ev_events (S x) \<and> ev_fd (S' x) = ev_fd (S x)" "maps_ok S I io sig"
  shows "maps_ok S' I io sig"
proof -
  have "io_entry_ok S' I k ctx" if "io_entry_ok S I k ctx" for k ctx
  proof -
    have "\<forall>e \<in> set (io_events ctx). ev_events (S' e) = ev_events (S e) \<and> ev_fd (S' e) = ev_fd (S e)"
      using that assms(1) by (auto simp: io_entry_ok_def)
    then show ?thesis using that unfolding io_entry_ok_def by (auto cong: filter_cong)
  qed
  moreover have "sig_entry_ok S' I k es" if "sig_entry_ok S I k es" for k es
    using that assms(1) by (auto simp: sig_entry_ok_def)
  moreover have "mapped S' io sig e" if "e \<in> I" "mapped S io sig e" for e
    using that assms(1) by (simp add: mapped_def)
  ultimately show ?thesis using assms(2) unfolding maps_ok_def by blast
qed

section \<open>The state machine\<close>

definition sys_inv :: "event_base \<Rightarrow> bool" where
  "sys_inv b \<longleftrightarrow>
     base_inv b \<and> (\<exists>I. maps_covered I b) \<and> (\<forall>e \<in> ctl_timers b. ctl_timer_ok b e) \<and>
     (\<forall>x. ev_flags (ev_store b x) AND NOT EVLIST_ALL = 0 \<and> ev_pri (ev_store b x) < length (activequeues b))"

text \<open>When an event may be added: its descriptor is usable, it is not left over in a map, and its timeout is normal.\<close>

definition addable :: "timeval \<Rightarrow> event_base \<Rightarrow> event_id \<Rightarrow> timeval option \<Rightarrow> bool" where
  "addable clk b ev tv \<longleftrightarrow>
     ev \<notin> ctl_timers b \<and> (registers b ev \<longrightarrow> unmapped b ev \<and> fd_ok (ev_store b ev)) \<and>
     (case tv of None \<Rightarrow> True
      | Some t \<Rightarrow> usec_ok t b \<and> 0 \<le> tv_usec (gettime b clk) \<and> tv_usec (gettime b clk) < 1000000 \<and>
                  (on_queue EVLIST_TIMEOUT b ev \<and> common_of b ev \<longrightarrow> heap_n (timeheap b) < heap_a (timeheap b)))"

inductive base_step :: "backend \<Rightarrow> allocator \<Rightarrow> event_base \<Rightarrow> event_base \<Rightarrow> bool" for evsel malloc where
  assign: "idle b ev \<Longrightarrow> unmapped b ev \<Longrightarrow> ev \<notin> ctl_timers b \<Longrightarrow>
     base_step evsel malloc b (snd (event_assign b ev fd events))"
| priority: "base_step evsel malloc b (snd (event_priority_set b ev pri))"
| add: "addable clk b ev tv \<Longrightarrow> event_add evsel malloc clk b ev tv = Some (r, b') \<Longrightarrow> base_step evsel malloc b b'"
| del: "event_del evsel b ev = Some (r, b') \<Longrightarrow> base_step evsel malloc b b'"
| active: "event_active_nolock malloc b ev res ncalls = Some b' \<Longrightarrow> base_step evsel malloc b b'"
| io_ready: "evmap_io_active malloc b fd events = Some b' \<Longrightarrow> base_step evsel malloc b b'"
| signal: "evmap_signal_active malloc b sig ncalls = Some b' \<Longrightarrow> base_step evsel malloc b b'"
| timeouts: "timeout_process evsel malloc b clk = Some b' \<Longrightarrow> base_step evsel malloc b b'"
| time: "base_step evsel malloc b (update_time_cache b no_cache clk)"

inductive base_reachable :: "backend \<Rightarrow> allocator \<Rightarrow> event_base \<Rightarrow> event_base \<Rightarrow> bool" for evsel malloc b0 where
  start: "base_reachable evsel malloc b0 b0"
| step: "base_reachable evsel malloc b0 b \<Longrightarrow> base_step evsel malloc b b' \<Longrightarrow> base_reachable evsel malloc b0 b'"

lemma sys_inv_setup:
  assumes "sys_inv b" "base_inv b'" "same_setup b b'" "maps_covered J b'"
    and "\<And>e. e \<in> ctl_timers b \<Longrightarrow> ctl_timer_ok b e \<Longrightarrow> ctl_timer_ok b' e"
  shows "sys_inv b'"
  using assms ctl_timers_cong[OF assms(3)] same_setupD(3,5,7)[OF assms(3)] unfolding sys_inv_def by metis

text \<open>No step but an addition puts a timer of a common timeout on the timeout queue.\<close>

lemma ctl_timer_ok_keep:
  assumes "ctl_timer_ok b e" "same_setup b b'" "ev_timeout (ev_store b' e) = ev_timeout (ev_store b e)"
    "on_queue EVLIST_TIMEOUT b' e \<Longrightarrow> on_queue EVLIST_TIMEOUT b e"
  shows "ctl_timer_ok b' e"
  using assms same_setupD(2,5,12)[OF assms(2)] by (simp add: ctl_timer_ok_def common_of_def)

lemma sys_inv_add:
  assumes inv: "sys_inv b" and ok: "addable clk b ev tv"
  shows "\<exists>r b'. event_add evsel m clk b ev tv = Some (r, b') \<and> sys_inv b' \<and>
     (\<exists>I. maps_covered I b \<and> (r = - 1 \<and> unchanged I b b' \<or>
        r = 0 \<and> added_but (ctl_timers b) I ev (map_option (\<lambda>t. add_deadline b (gettime b clk) t False) tv) b b'))"
proof -
  have B: "base_inv b" "\<forall>e \<in> ctl_timers b. ctl_timer_ok b e" "ev_flags (ev_store b ev) AND NOT EVLIST_ALL = 0"
    using inv by (simp_all add: sys_inv_def)
  obtain I0 where I0: "maps_covered I0 b" using inv by (auto simp: sys_inv_def)
  define I where "I = (if registers b ev then I0 - {ev} else I0)"
  have I: "maps_covered I b" using I0 maps_covered_unmapped[OF I0, of ev] ok by (auto simp: I_def addable_def registers_def)
  have new: "registers b ev \<Longrightarrow> ev \<notin> I \<and> fd_ok (ev_store b ev)" using ok by (simp add: addable_def I_def)
  have fits: "timeout_fits clk b ev t False" if "tv = Some t" for t
    using ok add_deadline_common[of "gettime b clk" t b False] that by (simp add: timeout_fits_def addable_def Let_def)
  have ev: "ev \<notin> ctl_timers b" using ok by (simp add: addable_def)
  let ?d = "map_option (\<lambda>t. add_deadline b (gettime b clk) t False) tv"
  have "\<exists>r b'. event_add_internal evsel m clk b ev tv False = Some (r, b') \<and>
     (r = - 1 \<and> unchanged I b b' \<or> r = 0 \<and> added_but (ctl_timers b) I ev ?d b b')"
    by (rule event_add_internal_ok[OF B(1) I new B(3) fits B(2) ev])
  then obtain r b' where r: "event_add evsel m clk b ev tv = Some (r, b')"
    "r = - 1 \<and> unchanged I b b' \<or> r = 0 \<and> added_but (ctl_timers b) I ev ?d b b'"
    unfolding event_add_def[symmetric] by (elim exE conjE) (rule that)
  have "sys_inv b'"
    using r(2)
  proof
    assume u: "r = - 1 \<and> unchanged I b b'"
    then show ?thesis using sys_inv_setup[OF inv, of b' I] ctl_timer_ok_unchanged[of I b b'] by (simp add: unchanged_def)
  next
    assume a: "r = 0 \<and> added_but (ctl_timers b) I ev ?d b b'"
    then show ?thesis using sys_inv_setup[OF inv, of b'] by (auto simp: added_but_def)
  qed
  then show ?thesis using r I by blast
qed

lemma sys_inv_del:
  assumes inv: "sys_inv b"
  shows "\<exists>r b'. event_del evsel b ev = Some (r, b') \<and> sys_inv b' \<and> off_all_queues ev b b' \<and> (r = 0 \<or> r = - 1)"
proof -
  obtain I where I: "maps_covered I b" "base_inv b" "ev_flags (ev_store b ev) AND NOT EVLIST_ALL = 0"
    using inv by (auto simp: sys_inv_def)
  from event_del_internal_ok[OF I(2,1,3), of evsel] obtain r b' J where
    r: "event_del_internal evsel b ev = Some (r, b')" "base_inv b'" "same_setup b b'" "same_times b b'" "off_all_queues ev b b'"
      "r = 0 \<or> r = - 1" "maps_covered J b'" by (elim exE conjE) blast
  have "sys_inv b'"
    by (rule sys_inv_setup[OF inv r(2,3,7)], erule ctl_timer_ok_keep[OF _ r(3)])
       (use r(4,5) in \<open>auto simp: same_times_def off_all_queues_def\<close>)
  then show ?thesis using r by (simp add: event_del_def)
qed

lemma sys_inv_active:
  assumes inv: "sys_inv b"
  shows "\<exists>b'. event_active_nolock m b ev res ncalls = Some b' \<and> sys_inv b' \<and> activated ev res b b'"
proof -
  obtain I where I: "maps_covered I b" "base_inv b" "ev_pri (ev_store b ev) < length (activequeues b)"
    using inv by (auto simp: sys_inv_def)
  from event_active_nolock_ok[OF I(2,3), of m res ncalls] obtain b' where
    b': "event_active_nolock m b ev res ncalls = Some b'" "activated ev res b b'" by blast
  have a: "base_inv b'" "same_setup b b'" "maps_covered I b'" using b'(2) I(1) activated_covered[OF b'(2)] by (simp_all add: activated_def)
  have "sys_inv b'"
    by (rule sys_inv_setup[OF inv a], erule ctl_timer_ok_keep[OF _ a(2)]) (use b'(2) in \<open>auto simp: activated_def\<close>)
  then show ?thesis using b' by blast
qed

lemma sys_inv_activate_all:
  "sys_inv b \<Longrightarrow> \<exists>b'. activate_all m events b es = Some b' \<and> sys_inv b'"
proof (induction es arbitrary: b)
  case (Cons ev es)
  show ?case
  proof (cases "has events (ev_events (ev_store b ev))")
    case True
    from sys_inv_active[OF Cons.prems, of m ev "ev_events (ev_store b ev) AND events" 1] obtain b1 where
      "event_active_nolock m b ev (ev_events (ev_store b ev) AND events) 1 = Some b1" "sys_inv b1" by blast
    then show ?thesis using Cons.IH[of b1] True by simp
  qed (use Cons in simp)
qed simp

lemma sys_inv_activate_signals:
  "sys_inv b \<Longrightarrow> \<exists>b'. activate_signals m ncalls b es = Some b' \<and> sys_inv b'"
proof (induction es arbitrary: b)
  case (Cons ev es)
  from sys_inv_active[OF Cons.prems, of m ev EV_SIGNAL ncalls] obtain b1 where
    "event_active_nolock m b ev EV_SIGNAL ncalls = Some b1" "sys_inv b1" by blast
  then show ?case using Cons.IH[of b1] by simp
qed simp

lemma timeout_process_ok:
  assumes "base_inv b" "maps_covered I b" "expirable b"
  shows "\<exists>b'. timeout_process evsel m b clk = Some b' \<and> fired (due (gettime b clk) b) b b' \<and> (\<exists>J \<subseteq> I. maps_covered J b')"
proof (cases "min_heap_empty (timeheap b)")
  case True
  have T: "min_heap_elems (timeheap b) = {e. on_queue EVLIST_TIMEOUT b e \<and> \<not> common_of b e}"
    using base_invD(4)[OF assms(1)] by (simp add: timers_ok_def)
  have "min_heap_elems (timeheap b) = {}" using True by (simp add: min_heap_empty_def min_heap_elems_def)
  then have "\<not> due (gettime b clk) b x" for x using T by (auto simp: due_def)
  then have "fired (due (gettime b clk) b) b b" by (rule fired_refl[OF assms(1)])
  moreover have "timeout_process evsel m b clk = Some b" using True by (simp add: timeout_process_def)
  ultimately show ?thesis using assms(2) by blast
next
  case False
  then have "timeout_process evsel m b clk = timeout_loop evsel m (gettime b clk) b" by (simp add: timeout_process_def)
  then show ?thesis using timeout_loop_ok[OF assms, of evsel m "gettime b clk"] by simp
qed

lemma sys_inv_timeouts:
  assumes inv: "sys_inv b"
  shows "\<exists>b'. timeout_process evsel m b clk = Some b' \<and> sys_inv b' \<and> fired (due (gettime b clk) b) b b'"
proof -
  obtain I where I: "maps_covered I b" "base_inv b" "expirable b"
    using inv by (auto simp: sys_inv_def expirable_def)
  from timeout_process_ok[OF I(2,1,3), of evsel m clk] obtain b' J where
    b': "timeout_process evsel m b clk = Some b'" "fired (due (gettime b clk) b) b b'" "maps_covered J b'" by blast
  have a: "base_inv b'" "same_setup b b'" using b'(2) by (simp_all add: fired_def)
  have "sys_inv b'"
    by (rule sys_inv_setup[OF inv a b'(3)], erule ctl_timer_ok_keep[OF _ a(2)]) (use b'(2) in \<open>auto simp: fired_def\<close>)
  then show ?thesis using b' by blast
qed

lemma event_assign_upd:
  defines "e b ev fd events \<equiv> ev_store (snd (event_assign b ev fd events)) ev"
  shows "snd (event_assign b ev fd events) = upd_ev b ev (\<lambda>_. e b ev fd events)"
    "ev_flags (e b ev fd events) = EVLIST_INIT"
    "min_heap_idx (e b ev fd events) = - 1 \<or> min_heap_idx (e b ev fd events) = min_heap_idx (ev_store b ev)"
    "ev_pri (e b ev fd events) = ev_pri (ev_store b ev) \<or> ev_pri (e b ev fd events) = length (activequeues b) div 2"
  by (simp_all add: e_def event_assign_def Let_def upd_ev_def min_heap_elem_init_def set_heap_idx_def)

lemma sys_inv_change_idle:
  assumes inv: "sys_inv b" and idle: "idle b ev" and un: "unmapped b ev" and ctl: "ev \<notin> ctl_timers b"
    and e: "ev_flags e = EVLIST_INIT" "min_heap_idx e = - 1 \<or> min_heap_idx e = min_heap_idx (ev_store b ev)"
      "ev_pri e < length (activequeues b)"
  shows "sys_inv (upd_ev b ev (\<lambda>_. e))"
proof -
  define b' where "b' = upd_ev b ev (\<lambda>_. e)"
  have same: "ev_store b' x = ev_store b x" if "x \<noteq> ev" for x using that by (simp add: b'_def upd_ev_def)
  have ev: "ev_store b' ev = e" by (simp add: b'_def upd_ev_def)
  obtain I where I: "maps_covered I b" "base_inv b" using inv by (auto simp: sys_inv_def)
  have T: "min_heap_inv (ev_store b) (timeheap b)"
    "min_heap_elems (timeheap b) = {e. on_queue EVLIST_TIMEOUT b e \<and> \<not> common_of b e}"
    using base_invD(4)[OF I(2)] by (simp_all add: timers_ok_def)
  have "min_heap_idx (ev_store b ev) = - 1" using min_heap_idx_iff[OF T(1), of ev] T(2) idle by (auto simp: idle_def)
  then have idx: "min_heap_idx e = - 1" using e(2) by auto
  have fl: "\<not> has EVLIST_INSERTED (EVLIST_INIT)" "\<not> has EVLIST_ACTIVE EVLIST_INIT" "\<not> has EVLIST_TIMEOUT EVLIST_INIT"
    "EVLIST_INIT AND NOT EVLIST_ALL = 0"
    by (simp_all add: has_def evlist_defs EVLIST_INIT_def EVLIST_ALL_def)
  have idle': "idle b' ev" using e(1) fl ev by (simp add: idle_def on_queue_def)
  have "base_inv b'"
    unfolding b'_def by (rule base_inv_change_idle[OF I(2) idle]) (use idle' idx in \<open>simp_all add: b'_def\<close>)
  moreover have "maps_covered (I - {ev}) b'"
  proof -
    have "maps_covered (I - {ev}) b" using maps_covered_unmapped[OF I(1) un] idle by (simp add: idle_def)
    then have "maps_ok (ev_store b') (I - {ev}) (io_map b') (sigmap b')"
      using maps_ok_cong_on[of "I - {ev}" "ev_store b'" "ev_store b"] same by (simp add: maps_covered_def b'_def upd_ev_def)
    moreover have "x \<in> I - {ev}" if "on_queue EVLIST_INSERTED b' x" for x
      using that idle' I(1) same[of x] by (cases "x = ev") (auto simp: idle_def maps_covered_def on_queue_def)
    ultimately show ?thesis by (simp add: maps_covered_def)
  qed
  moreover have "ctl_timers b' = ctl_timers b" by (simp add: b'_def upd_ev_def ctl_timers_def)
  moreover have "ctl_timer_ok b' x" if "x \<in> ctl_timers b" for x
  proof -
    have "ctl_timer_ok b x" "x \<noteq> ev" using that inv ctl by (auto simp: sys_inv_def)
    then show ?thesis using same[of x] by (simp add: ctl_timer_ok_def on_queue_def common_of_def b'_def)
  qed
  moreover have "ev_flags (ev_store b' x) AND NOT EVLIST_ALL = 0 \<and> ev_pri (ev_store b' x) < length (activequeues b')" for x
    using inv same[of x] ev e(1,3) fl(4) by (cases "x = ev") (simp_all add: sys_inv_def b'_def upd_ev_def)
  ultimately show ?thesis unfolding sys_inv_def b'_def[symmetric] by auto
qed

lemma sys_inv_assign:
  assumes inv: "sys_inv b" and idle: "idle b ev" "unmapped b ev" "ev \<notin> ctl_timers b"
  shows "sys_inv (snd (event_assign b ev fd events))"
proof -
  note A = event_assign_upd[of b ev fd events]
  have pri: "ev_pri (ev_store b ev) < length (activequeues b)" using inv by (simp add: sys_inv_def)
  then have "ev_pri (ev_store (snd (event_assign b ev fd events)) ev) < length (activequeues b)"
    using A(4) by (auto intro: le_less_trans[OF div_le_dividend])
  from sys_inv_change_idle[OF inv idle A(2,3) this] show ?thesis using A(1) by metis
qed

lemma sys_inv_cong:
  assumes "\<And>x. ev_flags (ev_store b' x) = ev_flags (ev_store b x)" "\<And>x. ev_pri (ev_store b' x) = ev_pri (ev_store b x)"
    "\<And>x. ev_timeout (ev_store b' x) = ev_timeout (ev_store b x)" "\<And>x. min_heap_idx (ev_store b' x) = min_heap_idx (ev_store b x)"
    "\<And>x. ev_events (ev_store b' x) = ev_events (ev_store b x)" "\<And>x. ev_fd (ev_store b' x) = ev_fd (ev_store b x)"
    "eventqueue b' = eventqueue b" "activequeues b' = activequeues b" "timeheap b' = timeheap b"
    "common_timeout_queues b' = common_timeout_queues b" "event_count b' = event_count b"
    "event_count_active b' = event_count_active b" "io_map b' = io_map b" "sigmap b' = sigmap b"
  shows "sys_inv b' = sys_inv b"
proof -
  have "base_inv b' = base_inv b" by (rule base_inv_cong) (simp_all add: assms)
  moreover have "maps_covered I b' = maps_covered I b" for I
    using maps_ok_cong[of "ev_store b'" "ev_store b"] assms by (simp add: maps_covered_def on_queue_def)
  moreover have "ctl_timers b' = ctl_timers b" by (simp add: ctl_timers_def assms)
  moreover have "ctl_timer_ok b' e = ctl_timer_ok b e" for e
    by (simp add: ctl_timer_ok_def on_queue_def common_of_def is_common_timeout_def assms)
  ultimately show ?thesis unfolding sys_inv_def by (simp add: assms)
qed

lemma sys_inv_priority:
  assumes inv: "sys_inv b"
  shows "sys_inv (snd (event_priority_set b ev pri))"
proof (cases "on_queue EVLIST_ACTIVE b ev \<or> pri < 0 \<or> pri \<ge> int (length (activequeues b))")
  case True
  then have "snd (event_priority_set b ev pri) = b" by (auto simp: event_priority_set_def)
  then show ?thesis using inv by simp
next
  case False
  define b' where "b' = upd_ev b ev (\<lambda>x. x\<lparr>ev_pri := nat pri\<rparr>)"
  have res: "snd (event_priority_set b ev pri) = b'" using False by (simp add: event_priority_set_def b'_def)
  have on: "on_queue q b' x = on_queue q b x" for q x by (simp add: b'_def upd_ev_def on_queue_def)
  have f: "ev_timeout (ev_store b' x) = ev_timeout (ev_store b x)" "min_heap_idx (ev_store b' x) = min_heap_idx (ev_store b x)"
    "ev_events (ev_store b' x) = ev_events (ev_store b x)" "ev_fd (ev_store b' x) = ev_fd (ev_store b x)"
    "ev_flags (ev_store b' x) = ev_flags (ev_store b x)" for x by (simp_all add: b'_def upd_ev_def)
  have pri: "ev_pri (ev_store b' x) = (if x = ev then nat pri else ev_pri (ev_store b x))" for x by (simp add: b'_def upd_ev_def)
  have rest: "eventqueue b' = eventqueue b" "activequeues b' = activequeues b" "timeheap b' = timeheap b"
    "common_timeout_queues b' = common_timeout_queues b" "event_count b' = event_count b"
    "event_count_active b' = event_count_active b" "io_map b' = io_map b" "sigmap b' = sigmap b" by (simp_all add: b'_def upd_ev_def)
  obtain I where I: "maps_covered I b" "base_inv b" using inv by (auto simp: sys_inv_def)
  have com: "common_of b' x = common_of b x" "idx_of b' x = idx_of b x" for x
    by (simp_all add: common_of_def idx_of_def is_common_timeout_def f rest)
  have "min_heap_inv (ev_store b') (timeheap b) = min_heap_inv (ev_store b) (timeheap b)" by (rule min_heap_inv_cong) (simp_all add: f)
  then have "timers_ok b'" using base_invD(4)[OF I(2)] unfolding timers_ok_def on com f rest by simp
  moreover have "{e. on_queue EVLIST_ACTIVE b e \<and> ev_pri (ev_store b' e) = i} = {e. on_queue EVLIST_ACTIVE b e \<and> ev_pri (ev_store b e) = i}" for i
    using False by (auto simp: pri)
  then have "active_ok b'" using base_invD(3)[OF I(2)] False unfolding active_ok_def on rest by (simp add: pri)
  ultimately have "base_inv b'"
    using base_invD[OF I(2)] unfolding base_inv_def counts_ok_def visible_on_def on rest by simp
  moreover have "maps_covered I b'" using I(1) maps_ok_cong[of "ev_store b'" "ev_store b"] by (simp add: maps_covered_def on f rest)
  moreover have "ctl_timers b' = ctl_timers b" by (simp add: ctl_timers_def rest)
  moreover have "ctl_timer_ok b' e = ctl_timer_ok b e" for e
    by (simp add: ctl_timer_ok_def on com f)
  moreover have "ev_pri (ev_store b' x) < length (activequeues b)" for x
    using inv False by (simp add: sys_inv_def pri) linarith
  ultimately show ?thesis unfolding res using inv by (auto simp: sys_inv_def f rest)
qed

text \<open>Every step keeps the invariant.\<close>

lemma base_step_inv: "base_step evsel m b b' \<Longrightarrow> sys_inv b \<Longrightarrow> sys_inv b'"
proof (induction rule: base_step.induct)
  case (assign b ev fd events)
  then show ?case by (intro sys_inv_assign)
next
  case (priority b ev pri)
  then show ?case by (intro sys_inv_priority)
next
  case (add clk b ev tv r b')
  then show ?case using sys_inv_add[of b clk ev tv evsel m] by auto
next
  case (del b ev r b')
  then show ?case using sys_inv_del[of b evsel ev] by auto
next
  case (active b ev res ncalls b')
  then show ?case using sys_inv_active[of b m ev res ncalls] by auto
next
  case (io_ready b fd events b')
  then obtain ctx :: evmap_io where "activate_all m events b (io_events ctx) = Some b'"
    by (auto simp: evmap_io_active_def split: if_splits option.splits)
  then show ?case using sys_inv_activate_all[OF io_ready.prems, of m events "io_events ctx"] by auto
next
  case (signal b sig ncalls b')
  then obtain es where "activate_signals m ncalls b es = Some b'"
    by (auto simp: evmap_signal_active_def split: if_splits option.splits)
  then show ?case using sys_inv_activate_signals[OF signal.prems, of m ncalls es] by auto
next
  case (timeouts b clk b')
  then show ?case using sys_inv_timeouts[of b evsel m clk] by auto
next
  case (time b no_cache clk)
  have "sys_inv (update_time_cache b no_cache clk) = sys_inv b"
    by (rule sys_inv_cong) (simp_all add: update_time_cache_def Let_def)
  then show ?case using time by simp
qed

lemma unmapped_covered:
  assumes "maps_covered I b" "ev \<notin> I"
  shows "unmapped b ev"
  unfolding unmapped_def
proof (intro conjI allI impI)
  have m: "maps_ok (ev_store b) I (io_map b) (sigmap b)" using assms(1) by (simp add: maps_covered_def)
  fix ctx assume "Some ctx \<in> set (io_map b)"
  then obtain k where "k < length (io_map b)" "io_map b ! k = Some ctx" by (auto simp: in_set_conv_nth)
  from maps_ok_io[OF m subset_refl this] show "ev \<notin> set (io_events ctx)" using assms(2) by (auto simp: io_entry_ok_def)
next
  have m: "maps_ok (ev_store b) I (io_map b) (sigmap b)" using assms(1) by (simp add: maps_covered_def)
  fix es assume "Some es \<in> set (sigmap b)"
  then obtain k where "k < length (sigmap b)" "sigmap b ! k = Some es" by (auto simp: in_set_conv_nth)
  from maps_ok_sig[OF m subset_refl this] show "ev \<notin> set es" using assms(2) by (auto simp: sig_entry_ok_def)
qed

lemma off_lists_idle:
  assumes "base_inv b" "idle b ev"
  shows "ev \<notin> set (eventqueue b)" "\<forall>q \<in> set (activequeues b). ev \<notin> set q" "ev \<notin> min_heap_elems (timeheap b)"
    "\<forall>c \<in> set (common_timeout_queues b). ev \<notin> set (ctl_events c)"
proof -
  note D = base_invD[OF assms(1)]
  show "ev \<notin> set (eventqueue b)" using D(2) assms(2) by (simp add: idle_def)
  show "\<forall>q \<in> set (activequeues b). ev \<notin> set q"
  proof
    fix q assume "q \<in> set (activequeues b)"
    then obtain i where "i < length (activequeues b)" "activequeues b ! i = q" by (auto simp: in_set_conv_nth)
    then show "ev \<notin> set q" using D(3) assms(2) by (auto simp: active_ok_def idle_def)
  qed
  show "ev \<notin> min_heap_elems (timeheap b)" using D(4) assms(2) by (simp add: timers_ok_def idle_def)
  show "\<forall>c \<in> set (common_timeout_queues b). ev \<notin> set (ctl_events c)"
  proof
    fix c assume "c \<in> set (common_timeout_queues b)"
    then obtain i where "i < length (common_timeout_queues b)" "common_timeout_queues b ! i = c" by (auto simp: in_set_conv_nth)
    then show "ev \<notin> set (ctl_events c)" using D(4) assms(2) by (auto simp: timers_ok_def idle_def)
  qed
qed

lemma activate_all_effect:
  assumes "sys_inv b" "activate_all m events b es = Some b'"
  shows "(\<forall>x. on_queue EVLIST_ACTIVE b' x = (on_queue EVLIST_ACTIVE b x \<or> x \<in> set es \<and> has events (ev_events (ev_store b x)))) \<and>
     (\<forall>x. on_queue EVLIST_TIMEOUT b' x = on_queue EVLIST_TIMEOUT b x \<and> on_queue EVLIST_INSERTED b' x = on_queue EVLIST_INSERTED b x)"
  using assms
proof (induction es arbitrary: b)
  case (Cons ev es)
  show ?case
  proof (cases "has events (ev_events (ev_store b ev))")
    case True
    from sys_inv_active[OF Cons.prems(1), of m ev "ev_events (ev_store b ev) AND events" 1] obtain b1 where
      b1: "event_active_nolock m b ev (ev_events (ev_store b ev) AND events) 1 = Some b1" "sys_inv b1"
        "activated ev (ev_events (ev_store b ev) AND events) b b1" by blast
    have ss: "same_setup b b1" using b1(3) by (simp add: activated_def)
    have "activate_all m events b1 es = Some b'" using Cons.prems(2) b1(1) True by simp
    from Cons.IH[OF b1(2) this] show ?thesis
      using b1(3) True same_setupD(2)[OF ss] unfolding activated_def by auto
  qed (use Cons in auto)
qed simp

lemma timeradd_sub:
  assumes "0 \<le> tv_usec t" "tv_usec t < 1000000" "0 \<le> tv_usec now" "tv_usec now < 1000000"
  shows "evutil_timeradd now (evutil_timersub t now) = t"
  using assms by (cases t; cases now) (simp add: evutil_timeradd_def evutil_timersub_def Let_def)

section \<open>Properties\<close>

text \<open>A base without events, and one where event 1 waits for input on descriptor 4 and for the time 15.\<close>

definition demo_event :: event where
  "demo_event = \<lparr>ev_fd = 4, ev_events = EV_READ, ev_res = 0, ev_flags = EVLIST_INIT, ev_pri = 0, ev_closure = EV_CLOSURE_NONE,
     ev_timeout = Timeval 0 0, ev_io_timeout = Timeval 0 0, ev_ncalls = 0, ev_pncalls = False, min_heap_idx = - 1\<rparr>"

definition demo_base :: event_base where
  "demo_base = \<lparr>ev_store = (\<lambda>_. demo_event), backend_calls = [], virtual_event_count = 0, event_count = 0, event_count_active = 0,
     event_gotterm = False, event_break = False, event_continue = False, event_running_priority = - 1, running_loop = False,
     activequeues = [[]], common_timeout_queues = [], n_common_timeouts_allocated = 0,
     defer_queue = \<lparr>deferred_cb_list = [], active_count = 0, cb_queued = (\<lambda>_. False)\<rparr>, io_map = [], sigmap = [], eventqueue = [],
     event_tv = Timeval 0 0, timeheap = min_heap_ctor, tv_cache = Timeval 0 0, need_notify = False, th_notify_fn = None,
     is_notify_pending = False, sig_aborted = False, cb_trace = []\<rparr>"

definition demo_added :: event_base where
  "demo_added = demo_base\<lparr>
     ev_store := (\<lambda>_. demo_event)(1 := demo_event\<lparr>ev_flags := EVLIST_INIT OR EVLIST_INSERTED OR EVLIST_TIMEOUT,
       ev_timeout := Timeval 15 0, min_heap_idx := 0\<rparr>),
     event_count := 2, eventqueue := [1], timeheap := \<lparr>heap_p = [1], heap_n = 1, heap_a = 1\<rparr>,
     io_map := [None, None, None, None, Some \<lparr>io_events = [1], nread = 1, nwrite = 0\<rparr>]\<rparr>"

lemma demo_flags [simp]:
  "\<not> has EVLIST_INSERTED EVLIST_INIT" "\<not> has EVLIST_ACTIVE EVLIST_INIT" "\<not> has EVLIST_TIMEOUT EVLIST_INIT"
  "\<not> has EVLIST_INTERNAL EVLIST_INIT" "EVLIST_INIT AND NOT EVLIST_ALL = 0"
  "(EVLIST_INIT OR EVLIST_INSERTED OR EVLIST_TIMEOUT) AND NOT EVLIST_ALL = 0"
  "has EV_READ EV_READ" "\<not> has EV_WRITE EV_READ" "has (EV_READ OR EV_WRITE) EV_READ" "has (EV_READ OR EV_WRITE OR EV_SIGNAL) EV_READ"
  by (simp_all add: has_def evlist_defs EVLIST_INIT_def EVLIST_ALL_def EV_READ_def EV_WRITE_def EV_SIGNAL_def)

lemma demo_base_inv: "sys_inv demo_base"
proof -
  have "min_heap_inv (\<lambda>_. demo_event) min_heap_ctor" by (rule min_heap_inv_ctor) (simp add: demo_event_def)
  then have "base_inv demo_base"
    by (simp add: base_inv_def active_ok_def timers_ok_def counts_ok_def visible_on_def on_queue_def demo_base_def demo_event_def
        min_heap_elems_def min_heap_ctor_def)
  moreover have "maps_covered {} demo_base"
    by (simp add: maps_covered_def maps_ok_def on_queue_def demo_base_def demo_event_def)
  ultimately show ?thesis
    by (auto simp: sys_inv_def ctl_timers_def demo_base_def demo_event_def)
qed

lemma demo_added_inv: "sys_inv demo_added"
proof -
  have on: "{e. on_queue EVLIST_INSERTED demo_added e} = {1}" "{e. on_queue EVLIST_TIMEOUT demo_added e} = {1}"
    "{e. on_queue EVLIST_ACTIVE demo_added e} = {}" "\<not> on_queue EVLIST_INTERNAL demo_added e" for e
    by (auto simp: on_queue_def demo_added_def demo_event_def)
  have nc: "\<not> common_of demo_added e" for e by (simp add: common_of_def is_common_timeout_def demo_added_def demo_base_def)
  have "min_heap_inv (ev_store demo_added) (timeheap demo_added)"
    by (auto simp: min_heap_inv_def demo_added_def demo_event_def heap_order_def min_heap_elems_def)
  moreover have "min_heap_elems (timeheap demo_added) = {1}" by (simp add: min_heap_elems_def demo_added_def)
  moreover have "common_timeout_queues demo_added = []" by (simp add: demo_added_def demo_base_def)
  ultimately have "timers_ok demo_added" using on(2) nc by (simp add: timers_ok_def)
  moreover have "active_ok demo_added" using on(3) by (auto simp: active_ok_def demo_added_def demo_base_def)
  moreover have "counts_ok demo_added"
    using on by (simp add: counts_ok_def visible_on_def) (simp add: demo_added_def demo_base_def)
  ultimately have "base_inv demo_added" using on(1) by (simp add: base_inv_def) (simp add: demo_added_def)
  moreover have "maps_covered {1} demo_added"
  proof -
    have "io_map demo_added ! k = Some ctx \<Longrightarrow> k < 5 \<Longrightarrow> k = 4 \<and> ctx = \<lparr>io_events = [1], nread = 1, nwrite = 0\<rparr>" for k ctx
      by (auto simp: demo_added_def less_Suc_eq numeral_eq_Suc)
    moreover have "length (io_map demo_added) = 5" "sigmap demo_added = []" "mapped (ev_store demo_added) (io_map demo_added) (sigmap demo_added) 1"
      "io_entry_ok (ev_store demo_added) {1} 4 \<lparr>io_events = [1], nread = 1, nwrite = 0\<rparr>"
      by (simp_all add: demo_added_def demo_base_def mapped_def io_entry_ok_def demo_event_def)
    ultimately show ?thesis using on(1) unfolding maps_covered_def maps_ok_def by auto
  qed
  ultimately show ?thesis
    by (auto simp: sys_inv_def ctl_timers_def demo_added_def demo_base_def demo_event_def)
qed







text \<open>
  C4: \<open>timeout_process\<close> terminates for every back end and allocator. Exactly the timers whose time has come
  become active, with the result \<open>EV_TIMEOUT\<close>, and are taken out of the timer heap and of the maps'
  queue; all others stay as they are. The base stays consistent.
\<close>

theorem timeout_process_correct:
  assumes "sys_inv b"
  shows "\<exists>b'. timeout_process evsel malloc b clk = Some b' \<and> sys_inv b' \<and>
    (\<forall>x. due (gettime b clk) b x \<longrightarrow> on_queue EVLIST_ACTIVE b' x \<and> ev_res (ev_store b' x) = EV_TIMEOUT \<and>
           \<not> on_queue EVLIST_TIMEOUT b' x \<and> \<not> on_queue EVLIST_INSERTED b' x) \<and>
    (\<forall>x q. \<not> due (gettime b clk) b x \<and> q \<in> {EVLIST_INSERTED, EVLIST_ACTIVE, EVLIST_TIMEOUT} \<longrightarrow>
           on_queue q b' x = on_queue q b x \<and> ev_res (ev_store b' x) = ev_res (ev_store b x))"
proof -
  from sys_inv_timeouts[OF assms, of evsel malloc clk] obtain b' where
    b': "timeout_process evsel malloc b clk = Some b'" "sys_inv b'" "fired (due (gettime b clk) b) b b'" by blast
  then show ?thesis by (intro exI[of _ b']) (auto simp: fired_def)
qed

theorem timeout_process_correct_witness:
  "\<exists>b'. timeout_process (\<lambda>_ _. 0) (\<lambda>_. Some 0) demo_added (Timeval 20 0) = Some b' \<and> on_queue EVLIST_ACTIVE b' 1"
proof -
  have "due (gettime demo_added (Timeval 20 0)) demo_added 1"
    by (simp add: due_def on_queue_def common_of_def is_common_timeout_def gettime_def demo_added_def demo_base_def
        less_eq_timeval_def evutil_timercmp_gt_def)
  then show ?thesis using timeout_process_correct[OF demo_added_inv, of "\<lambda>_ _. 0" "\<lambda>_. Some 0" "Timeval 20 0"] by blast
qed

text \<open>
  C9: the time \<open>timeout_next\<close> lets the back end wait ends exactly when the earliest timer is due: 0 if
  it is due already, unlimited if there is no timer.
\<close>

theorem timeout_next_correct:
  assumes "base_inv b" "0 \<le> tv_usec (gettime b clk)" "tv_usec (gettime b clk) < 1000000"
    and "\<forall>x. on_queue EVLIST_TIMEOUT b x \<longrightarrow> 0 \<le> tv_usec (ev_timeout (ev_store b x)) \<and>
           (\<not> common_of b x \<longrightarrow> tv_usec (ev_timeout (ev_store b x)) < 1000000)"
  shows "timeout_next b clk = Some None \<and> (\<forall>x. on_queue EVLIST_TIMEOUT b x \<longrightarrow> common_of b x) \<or>
    (\<exists>x tv. timeout_next b clk = Some (Some tv) \<and> on_queue EVLIST_TIMEOUT b x \<and> \<not> common_of b x \<and>
       (\<forall>y. on_queue EVLIST_TIMEOUT b y \<and> \<not> common_of b y \<longrightarrow> ev_timeout (ev_store b x) \<le> ev_timeout (ev_store b y)) \<and>
       (if due (gettime b clk) b x then tv = evutil_timerclear else evutil_timeradd (gettime b clk) tv = ev_timeout (ev_store b x)))"
proof -
  have T: "min_heap_inv (ev_store b) (timeheap b)"
    "min_heap_elems (timeheap b) = {e. on_queue EVLIST_TIMEOUT b e \<and> \<not> common_of b e}"
    using base_invD(4)[OF assms(1)] by (simp_all add: timers_ok_def)
  show ?thesis
  proof (cases "min_heap_top (timeheap b)")
    case None
    then show ?thesis using min_heap_top_None[OF T(1)] T(2) by (auto simp: timeout_next_def)
  next
    case (Some x)
    let ?now = "gettime b clk" and ?t = "ev_timeout (ev_store b x)"
    have x: "on_queue EVLIST_TIMEOUT b x" "\<not> common_of b x" using min_heap_top_Some[OF T(1) Some] T(2) by auto
    have least: "\<forall>y. on_queue EVLIST_TIMEOUT b y \<and> \<not> common_of b y \<longrightarrow> ?t \<le> ev_timeout (ev_store b y)"
      using min_heap_top_least[OF T(1) Some] T(2) by auto
    have us: "0 \<le> tv_usec ?t" "tv_usec ?t < 1000000" using assms(4) x by simp_all
    show ?thesis
    proof (cases "?t \<le> ?now")
      case True
      then have "timeout_next b clk = Some (Some evutil_timerclear)" using Some by (simp add: timeout_next_def timercmp_gt_iff not_less)
      then show ?thesis using x least True by (auto simp: due_def)
    next
      case False
      have "0 \<le> tv_sec (evutil_timersub ?t ?now)" "0 \<le> tv_usec (evutil_timersub ?t ?now)"
        using False us assms(2,3) by (auto simp: evutil_timersub_def Let_def less_eq_timeval_def evutil_timercmp_gt_def split: if_splits)
      then have "timeout_next b clk = Some (Some (evutil_timersub ?t ?now))"
        using Some False by (simp add: timeout_next_def timercmp_gt_iff Let_def not_le)
      moreover have "evutil_timeradd ?now (evutil_timersub ?t ?now) = ?t" by (rule timeradd_sub[OF us assms(2,3)])
      ultimately show ?thesis using x least False by (auto simp: due_def)
    qed
  qed
qed

theorem timeout_next_correct_witness:
  "\<exists>tv. timeout_next demo_added (Timeval 10 0) = Some (Some tv) \<and> evutil_timeradd (Timeval 10 0) tv = Timeval 15 0"
proof -
  have now: "gettime demo_added (Timeval 10 0) = Timeval 10 0" by (simp add: gettime_def demo_added_def demo_base_def)
  have on: "on_queue EVLIST_TIMEOUT demo_added x = (x = 1)" for x by (simp add: on_queue_def demo_added_def demo_event_def)
  have nc: "\<not> common_of demo_added x" for x by (simp add: common_of_def is_common_timeout_def demo_added_def demo_base_def)
  have t: "ev_timeout (ev_store demo_added 1) = Timeval 15 0" by (simp add: demo_added_def)
  have "base_inv demo_added" using demo_added_inv by (simp add: sys_inv_def)
  from timeout_next_correct[OF this, of "Timeval 10 0"] show ?thesis
    using on nc t by (auto simp: now due_def less_eq_timeval_def evutil_timercmp_gt_def)
qed

text \<open>
  C10: when the back end reports events on a descriptor, exactly the events registered for that
  descriptor with a matching interest become active, and no event leaves a queue.
\<close>

theorem evmap_io_active_correct:
  assumes "sys_inv b" "fd < length (io_map b)" "io_map b ! fd = Some ctx"
  shows "\<exists>b'. evmap_io_active malloc b fd events = Some b' \<and> sys_inv b' \<and>
    (\<forall>x. on_queue EVLIST_ACTIVE b' x = (on_queue EVLIST_ACTIVE b x \<or> x \<in> set (io_events ctx) \<and> has events (ev_events (ev_store b x)))) \<and>
    (\<forall>x. on_queue EVLIST_TIMEOUT b' x = on_queue EVLIST_TIMEOUT b x \<and> on_queue EVLIST_INSERTED b' x = on_queue EVLIST_INSERTED b x)"
proof -
  have "evmap_io_active malloc b fd events = activate_all malloc events b (io_events ctx)"
    using assms(2,3) by (simp add: evmap_io_active_def)
  then show ?thesis
    using sys_inv_activate_all[OF assms(1), of malloc events "io_events ctx"]
      activate_all_effect[OF assms(1), of malloc events "io_events ctx"] by auto
qed

theorem evmap_io_active_correct_witness:
  "\<exists>b'. evmap_io_active (\<lambda>_. Some 0) demo_added 4 EV_READ = Some b' \<and> on_queue EVLIST_ACTIVE b' 1"
proof -
  have "io_map demo_added ! 4 = Some \<lparr>io_events = [1], nread = 1, nwrite = 0\<rparr>" "4 < length (io_map demo_added)"
    "has EV_READ (ev_events (ev_store demo_added 1))" by (simp_all add: demo_added_def demo_event_def)
  then show ?thesis using evmap_io_active_correct[OF demo_added_inv, of 4 _ "\<lambda>_. Some 0" EV_READ] by fastforce
qed

end
