(* ===== verification/Epoll_System.thy ===== *)
theory Epoll_System
  imports Epoll Event_System
begin

text \<open>
  The event base on top of the epoll back end: in every state that the operations of the library reach,
  the kernel watches each descriptor for exactly the directions that the map of \<^verbatim>\<open>evmap.c\<close>
  counts events for, so that no added event is missed.
\<close>

section \<open>The map and the kernel\<close>

definition entry_wants :: "evmap_io option list \<Rightarrow> int \<Rightarrow> bool \<times> bool" where
  "entry_wants io fd =
     (if 0 \<le> fd \<and> nat fd < length io
      then (case io ! nat fd of None \<Rightarrow> (False, False) | Some ctx \<Rightarrow> (nread ctx \<noteq> 0, nwrite ctx \<noteq> 0))
      else (False, False))"

lemma entry_wants_extend [simp]: "entry_wants (io @ replicate j None) fd = entry_wants io fd"
  by (auto simp: entry_wants_def nth_append split: option.splits)

lemma entry_wants_set:
  "k < length io \<Longrightarrow> entry_wants (io[k := Some ctx]) = (entry_wants io)(int k := (nread ctx \<noteq> 0, nwrite ctx \<noteq> 0))"
  by (rule ext) (auto simp: entry_wants_def nth_list_update split: option.splits)

lemma rw_flags_old: "rw_flags r w = old_flags (r \<noteq> 0, w \<noteq> 0)"
  by (simp add: rw_flags_def old_flags_def)

lemma has_event_flags:
  "has EV_READ EV_READ" "\<not> has EV_READ EV_WRITE" "has EV_WRITE EV_WRITE" "\<not> has EV_WRITE EV_READ"
  "\<not> has EV_SIGNAL EV_READ" "\<not> has EV_SIGNAL EV_WRITE" "\<not> has q 0" "EV_READ \<noteq> 0" "EV_WRITE \<noteq> 0"
  by (simp_all add: has_def EV_READ_def EV_WRITE_def EV_SIGNAL_def)

text \<open>Steps that the map and the kernel do not see.\<close>

definition unseen :: "'k epoll_ctl \<Rightarrow> 'k \<Rightarrow> event_base \<Rightarrow> event_base \<Rightarrow> bool" where
  "unseen ctl k b b' \<longleftrightarrow>
     entry_wants (io_map b') = entry_wants (io_map b) \<and> epoll_run ctl k (backend_calls b') = epoll_run ctl k (backend_calls b)"

lemma unseen_refl [simp]: "unseen ctl k b b"
  by (simp add: unseen_def)

lemma unseenI [intro]: "io_map b' = io_map b \<Longrightarrow> backend_calls b' = backend_calls b \<Longrightarrow> unseen ctl k b b'"
  by (simp add: unseen_def)

lemma unseen_trans: "unseen ctl k a b \<Longrightarrow> unseen ctl k b c \<Longrightarrow> unseen ctl k a c"
  by (simp add: unseen_def)

definition same_maps :: "event_base \<Rightarrow> event_base \<Rightarrow> bool" where
  "same_maps b b' \<longleftrightarrow> io_map b' = io_map b \<and> backend_calls b' = backend_calls b"

lemma same_maps_refl [simp]: "same_maps b b" by (simp add: same_maps_def)

lemma same_maps_trans: "same_maps a b \<Longrightarrow> same_maps b c \<Longrightarrow> same_maps a c" by (simp add: same_maps_def)

lemma same_maps_upd [simp]:
  "same_maps b (upd_ev b ev f)" "same_maps b (notify_if n b)" "same_maps b (maybe_abort_signal b ev)"
  "same_maps b (b\<lparr>timeheap := h\<rparr>)" "same_maps b (b\<lparr>event_continue := c\<rparr>)"
  by (auto simp: same_maps_def upd_ev_def notify_if_def evthread_notify_base_def maybe_abort_signal_def Let_def split: option.splits)

lemma same_maps_insert: "event_queue_insert m b ev q = Some b' \<Longrightarrow> same_maps b b'"
  by (auto simp: event_queue_insert_def same_maps_def Let_def upd_ev_def insert_common_timeout_inorder_def set_ctl_events_def
      split: if_splits prod.splits option.splits)

lemma same_maps_remove: "event_queue_remove b ev q = Some b' \<Longrightarrow> same_maps b b'"
  by (auto simp: event_queue_remove_def same_maps_def Let_def upd_ev_def set_ctl_events_def split: if_splits prod.splits)

lemma same_maps_active: "event_active_nolock m b ev res n = Some b' \<Longrightarrow> same_maps b b'"
  unfolding event_active_nolock_def Let_def
  by (auto split: if_splits dest!: same_maps_insert intro: same_maps_trans) (auto simp: same_maps_def upd_ev_def notify_if_def evthread_notify_base_def split: option.splits if_splits)


section \<open>Adding and deleting\<close>

definition epoll_synced ::
  "'k epoll_ctl \<Rightarrow> ('k \<Rightarrow> int \<Rightarrow> u32 option) \<Rightarrow> ('k \<Rightarrow> int \<Rightarrow> bool) \<Rightarrow> 'k \<Rightarrow> event_base \<Rightarrow> bool" where
  "epoll_synced ctl interest usable k b \<longleftrightarrow>
     (\<forall>fd. usable (epoll_run ctl k (backend_calls b)) fd \<and>
           kernel_has (entry_wants (io_map b) fd) (interest (epoll_run ctl k (backend_calls b)) fd))"

lemma epoll_run_snoc: "epoll_run ctl k (calls @ [c]) = snd (epoll_call ctl (epoll_run ctl k calls) c)"
  by (simp add: epoll_run_def)

lemma synced_unseen: "epoll_synced ctl interest usable k b \<Longrightarrow> unseen ctl k b b' \<Longrightarrow> epoll_synced ctl interest usable k b'"
  by (simp add: epoll_synced_def unseen_def)

lemma same_maps_unseen: "same_maps b b' \<Longrightarrow> unseen ctl k b b'"
  by (simp add: same_maps_def unseen_def)

lemma grow_entries_bound: "grow_entries n slot = Some n' \<Longrightarrow> slot < n' \<and> n \<le> n'"
proof (induction n slot rule: grow_entries.induct)
  case (1 n slot)
  show ?case
  proof (cases "n \<le> slot")
    case True
    then have "n \<noteq> 0" "n * 2 < 2 ^ 31" "grow_entries (n * 2) slot = Some n'"
      using "1.prems" by (subst (asm) grow_entries.simps; simp split: if_splits)+
    then show ?thesis using "1.IH"[OF True] by auto
  next
    case False
    then show ?thesis using "1.prems" by (subst (asm) grow_entries.simps) simp
  qed
qed

lemma get_slot_cases:
  assumes "get_slot_and_ctor m ent slot init = Some (r, ent')"
  shows "\<exists>j. r = - 1 \<and> ent' = ent @ replicate j None \<or>
     r = 0 \<and> slot < length ent + j \<and> ent' = (ent @ replicate j None)[slot := Some (slot_entry ent slot init)]"
proof -
  obtain r1 e1 where ms: "evmap_make_space m ent slot = Some (r1, e1)" using assms by (auto simp: get_slot_and_ctor_def split: bind_splits)
  have "r1 = - 1 \<and> e1 = ent \<or> r1 = 0 \<and> slot < length e1 \<and> (\<exists>j. e1 = ent @ replicate j None)"
  proof (cases "length ent \<le> slot")
    case True
    obtain n where n: "grow_entries (if length ent \<noteq> 0 then length ent else 32) slot = Some n"
      using ms True by (auto simp: evmap_make_space_def split: bind_splits)
    then have "slot < n" "length ent \<le> n" using grow_entries_bound[OF n] by (auto split: if_splits)
    then show ?thesis using ms True n by (cases "m (n * 8)") (auto simp: evmap_make_space_def)
  next
    case False
    then show ?thesis using ms by (auto simp: evmap_make_space_def intro: exI[of _ 0])
  qed
  then show ?thesis
  proof (elim disjE conjE exE)
    assume "r1 = - 1" "e1 = ent"
    then show ?thesis using assms ms by (auto simp: get_slot_and_ctor_def intro: exI[of _ 0])
  next
    fix j assume a: "r1 = 0" "slot < length e1" "e1 = ent @ replicate j None"
    show ?thesis
    proof (cases "e1 ! slot")
      case (Some x)
      then have "slot < length ent" using a by (auto simp: nth_append split: if_splits)
      then have "slot_entry ent slot init = x" using Some a by (auto simp: slot_entry_def nth_append)
      moreover have "e1[slot := Some x] = e1" using Some by (metis list_update_id)
      ultimately show ?thesis using assms ms a Some by (intro exI[of _ j]) (simp add: get_slot_and_ctor_def)
    next
      case None
      then have "slot_entry ent slot init = init" using a by (auto simp: slot_entry_def nth_append)
      then show ?thesis using assms ms a None by (intro exI[of _ j]) (auto simp: get_slot_and_ctor_def split: option.splits)
    qed
  qed
qed

text \<open>Making the slot of a descriptor does not change what the map counts.\<close>

lemma entry_wants_slot:
  assumes "slot < length io + j"
  shows "entry_wants ((io @ replicate j None)[slot := Some (slot_entry io slot evmap_io_init)]) = entry_wants io"
proof -
  define ctx where "ctx = slot_entry io slot evmap_io_init"
  have "(nread ctx \<noteq> 0, nwrite ctx \<noteq> 0) = entry_wants io (int slot)"
    by (auto simp: ctx_def slot_entry_def entry_wants_def evmap_io_init_def split: option.splits)
  moreover have "entry_wants (io @ replicate j None) = entry_wants io" by (rule ext) simp
  ultimately show ?thesis using entry_wants_set[of slot "io @ replicate j None" ctx] assms by (simp add: ctx_def)
qed

context epoll_kernel
begin

lemma synced_call:
  assumes "epoll_synced ctl interest usable k b" "call_ok (entry_wants (io_map b)) c"
    and "backend_calls b' = backend_calls b @ [c]" "entry_wants (io_map b') = call_wants (entry_wants (io_map b)) c"
  shows "epoll_synced ctl interest usable k b'" "epoll_backend ctl k (backend_calls b) c = 0"
  using call_registered[of "epoll_run ctl k (backend_calls b)" "entry_wants (io_map b)" c] assms
  by (auto simp: epoll_synced_def epoll_run_snoc epoll_backend_def)

lemma synced_io_add_entry:
  assumes sync: "epoll_synced ctl interest usable k b" and fd: "fd < length (io_map b)" "io_map b ! fd = Some ctx"
  shows "epoll_synced ctl interest usable k (snd (io_add_entry (epoll_backend ctl k) b fd ev ctx))"
proof -
  define evts where "evts = ev_events (ev_store b ev)"
  define nr where "nr = (if has EV_READ evts then nread ctx + 1 else nread ctx)"
  define nw where "nw = (if has EV_WRITE evts then nwrite ctx + 1 else nwrite ctx)"
  define res where "res = (if has EV_READ evts \<and> nr = 1 then EV_READ else 0) OR (if has EV_WRITE evts \<and> nw = 1 then EV_WRITE else 0)"
  define c where "c = Evsel_add (int fd) (rw_flags (nread ctx) (nwrite ctx)) ((evts AND EV_ET) OR res)"
  define ctx' where "ctx' = ctx\<lparr>nread := nr, nwrite := nw, io_events := io_events ctx @ [ev]\<rparr>"
  define io' where "io' = (io_map b)[fd := Some ctx']"
  have W: "entry_wants (io_map b) (int fd) = (nread ctx \<noteq> 0, nwrite ctx \<noteq> 0)" using fd by (simp add: entry_wants_def)
  have W': "entry_wants io' = (entry_wants (io_map b))(int fd := (nr \<noteq> 0, nw \<noteq> 0))"
    using entry_wants_set[OF fd(1), of ctx'] by (simp add: io'_def ctx'_def)
  have et: "\<not> has q (evts AND EV_ET)" if "q \<in> {EV_READ, EV_WRITE, EV_SIGNAL}" for q
    using that by (auto simp: has_def EV_ET_def EV_READ_def EV_WRITE_def EV_SIGNAL_def and.assoc)
  have fl: "has EV_READ ((evts AND EV_ET) OR res) = (has EV_READ evts \<and> nr = 1)"
    "has EV_WRITE ((evts AND EV_ET) OR res) = (has EV_WRITE evts \<and> nw = 1)" "\<not> has EV_SIGNAL ((evts AND EV_ET) OR res)"
    using et[of EV_READ] et[of EV_WRITE] et[of EV_SIGNAL] by (simp_all add: res_def has_event_flags)
  have ok: "call_ok (entry_wants (io_map b)) c" using fl(3) W by (simp add: c_def rw_flags_old)
  have cw: "call_wants (entry_wants (io_map b)) c = entry_wants io'"
    unfolding W' c_def using W fl(1,2) by (auto simp: nr_def nw_def fun_eq_iff)
  define b2 where "b2 = (if res \<noteq> 0 then b\<lparr>backend_calls := backend_calls b @ [c]\<rparr> else b)"
  have zero: "res = 0 \<Longrightarrow> entry_wants io' = entry_wants (io_map b)"
    unfolding cw[symmetric] c_def using W et by (auto simp: fun_eq_iff)
  have "epoll_backend ctl k (backend_calls b) c = 0"
    by (rule synced_call(2)[OF sync ok, of "b\<lparr>backend_calls := backend_calls b @ [c], io_map := io'\<rparr>"]) (simp_all add: cw)
  then have "snd (io_add_entry (epoll_backend ctl k) b fd ev ctx) = (if nr > 0xffff \<or> nw > 0xffff then b else b2\<lparr>io_map := io'\<rparr>)"
    by (simp only: io_add_entry_def Let_def evts_def[symmetric] nr_def[symmetric] nw_def[symmetric] res_def[symmetric]
        ctx'_def[symmetric] c_def[symmetric]) (simp add: b2_def call_backend_def io'_def)
  moreover have "epoll_synced ctl interest usable k (b2\<lparr>io_map := io'\<rparr>)"
  proof (cases "res = 0")
    case True
    then show ?thesis using sync zero by (simp add: epoll_synced_def b2_def)
  next
    case False
    then show ?thesis by (intro synced_call(1)[OF sync ok]) (simp_all add: b2_def cw)
  qed
  ultimately show ?thesis using sync by simp
qed

lemma synced_io_add:
  assumes sync: "epoll_synced ctl interest usable k b" and add: "evmap_io_add (epoll_backend ctl k) m b fd ev = Some (r, b')"
  shows "epoll_synced ctl interest usable k b'"
proof (cases "fd < 0")
  case True
  then show ?thesis using add sync by (auto simp: evmap_io_add_def split: if_splits)
next
  case False
  obtain r1 ent where s: "get_slot_and_ctor m (io_map b) (nat fd) evmap_io_init = Some (r1, ent)"
    using add False by (auto simp: evmap_io_add_def split: if_splits bind_splits)
  from get_slot_cases[OF s] obtain j where j: "r1 = - 1 \<and> ent = io_map b @ replicate j None \<or>
      r1 = 0 \<and> nat fd < length (io_map b) + j \<and>
      ent = (io_map b @ replicate j None)[nat fd := Some (slot_entry (io_map b) (nat fd) evmap_io_init)]" by blast
  define b1 where "b1 = b\<lparr>io_map := ent\<rparr>"
  have "entry_wants ent = entry_wants (io_map b)" using j entry_wants_slot by (auto simp: fun_eq_iff)
  then have sync1: "epoll_synced ctl interest usable k b1" using sync by (simp add: epoll_synced_def b1_def)
  show ?thesis
  proof (cases "r1 = - 1")
    case True
    then show ?thesis using add False s sync1 by (auto simp: evmap_io_add_def b1_def split: if_splits)
  next
    case nf: False
    then have e: "nat fd < length ent" "ent ! nat fd = Some (slot_entry (io_map b) (nat fd) evmap_io_init)" using j by auto
    then have "b' = snd (io_add_entry (epoll_backend ctl k) b1 (nat fd) ev (slot_entry (io_map b) (nat fd) evmap_io_init))"
      using add False s nf by (auto simp: evmap_io_add_def b1_def split: if_splits)
    then show ?thesis using synced_io_add_entry[OF sync1] e by (simp add: b1_def)
  qed
qed

lemma synced_io_del_entry:
  assumes sync: "epoll_synced ctl interest usable k b" and fd: "fd < length (io_map b)" "io_map b ! fd = Some ctx"
    and del: "io_del_entry (epoll_backend ctl k) b fd ev ctx = Some (r, b')"
  shows "epoll_synced ctl interest usable k b'"
proof -
  define rd wr where "rd = has EV_READ (ev_events (ev_store b ev))" and "wr = has EV_WRITE (ev_events (ev_store b ev))"
  define res where "res = (if rd \<and> nread ctx = 1 then EV_READ else 0) OR (if wr \<and> nwrite ctx = 1 then EV_WRITE else 0)"
  define c where "c = Evsel_del (int fd) (rw_flags (nread ctx) (nwrite ctx)) res"
  define ctx' where "ctx' = ctx\<lparr>nread := (if rd then nread ctx - 1 else nread ctx),
      nwrite := (if wr then nwrite ctx - 1 else nwrite ctx), io_events := remove1 ev (io_events ctx)\<rparr>"
  define io' where "io' = (io_map b)[fd := Some ctx']"
  have pre: "\<not> (rd \<and> nread ctx = 0 \<or> wr \<and> nwrite ctx = 0)"
    using del by (simp add: io_del_entry_def Let_def rd_def wr_def split: if_splits)
  have W: "entry_wants (io_map b) (int fd) = (nread ctx \<noteq> 0, nwrite ctx \<noteq> 0)" using fd by (simp add: entry_wants_def)
  have W': "entry_wants io' = (entry_wants (io_map b))(int fd := (nread ctx' \<noteq> 0, nwrite ctx' \<noteq> 0))"
    using entry_wants_set[OF fd(1), of ctx'] by (simp add: io'_def)
  have fl: "has EV_READ res = (rd \<and> nread ctx = 1)" "has EV_WRITE res = (wr \<and> nwrite ctx = 1)" "\<not> has EV_SIGNAL res"
    by (simp_all add: res_def has_event_flags)
  have ok: "call_ok (entry_wants (io_map b)) c" using fl(3) W by (simp add: c_def rw_flags_old)
  have "(nread ctx' \<noteq> 0) = (nread ctx \<noteq> 0 \<and> \<not> (rd \<and> nread ctx = 1))" "(nwrite ctx' \<noteq> 0) = (nwrite ctx \<noteq> 0 \<and> \<not> (wr \<and> nwrite ctx = 1))"
    using pre by (auto simp: ctx'_def)
  then have cw: "call_wants (entry_wants (io_map b)) c = entry_wants io'"
    unfolding W' c_def using W fl(1,2) by simp
  define b2 where "b2 = (if res \<noteq> 0 then b\<lparr>backend_calls := backend_calls b @ [c]\<rparr> else b)"
  have zero: "res = 0 \<Longrightarrow> entry_wants io' = entry_wants (io_map b)"
    unfolding cw[symmetric] c_def by (auto simp: fun_eq_iff has_event_flags)
  have "epoll_backend ctl k (backend_calls b) c = 0"
    by (rule synced_call(2)[OF sync ok, of "b\<lparr>backend_calls := backend_calls b @ [c], io_map := io'\<rparr>"]) (simp_all add: cw)
  then have b': "b' = b2\<lparr>io_map := io'\<rparr>"
    using del pre
    by (simp only: io_del_entry_def Let_def rd_def[symmetric] wr_def[symmetric] res_def[symmetric]
        ctx'_def[symmetric] c_def[symmetric] if_False) (simp add: b2_def call_backend_def io'_def split: if_splits)
  show ?thesis
  proof (cases "res = 0")
    case True
    then show ?thesis using sync zero by (simp add: epoll_synced_def b2_def b')
  next
    case False
    then show ?thesis by (intro synced_call(1)[OF sync ok]) (simp_all add: b2_def cw b')
  qed
qed

lemma synced_io_del:
  assumes sync: "epoll_synced ctl interest usable k b" and del: "evmap_io_del (epoll_backend ctl k) b fd ev = Some (r, b')"
  shows "epoll_synced ctl interest usable k b'"
proof -
  consider "b' = b" | ctx where "nat fd < length (io_map b)" "io_map b ! nat fd = Some ctx"
      "io_del_entry (epoll_backend ctl k) b (nat fd) ev ctx = Some (r, b')"
    using del by (auto simp: evmap_io_del_def split: if_splits bind_splits)
  then show ?thesis
  proof cases
    case 2
    then show ?thesis by (rule synced_io_del_entry[OF sync])
  qed (use sync in simp)
qed

end

text \<open>Signals do not reach the kernel queue.\<close>

lemma unseen_sig [simp]:
  "epoll_run ctl k (calls @ [Evsig_add s]) = epoll_run ctl k calls" "epoll_run ctl k (calls @ [Evsig_del s]) = epoll_run ctl k calls"
  by (simp_all add: epoll_run_def)

lemma unseen_signal_add: "evmap_signal_add evsel m b sig ev = Some (r, b') \<Longrightarrow> unseen ctl k b b'"
  by (auto simp: evmap_signal_add_def unseen_def call_backend_def Let_def split: if_splits bind_splits option.splits)

lemma unseen_signal_del: "evmap_signal_del evsel b sig ev = Some (r, b') \<Longrightarrow> unseen ctl k b b'"
  by (auto simp: evmap_signal_del_def unseen_def call_backend_def Let_def split: if_splits bind_splits option.splits)


section \<open>The steps of the base\<close>

lemma synced_same: "epoll_synced ctl interest usable k b \<Longrightarrow> same_maps b b' \<Longrightarrow> epoll_synced ctl interest usable k b'"
  by (rule synced_unseen[OF _ same_maps_unseen])

context epoll_kernel
begin

lemma synced_del:
  assumes sync: "epoll_synced ctl interest usable k b" and del: "event_del_internal (epoll_backend ctl k) b ev = Some (r, b')"
  shows "epoll_synced ctl interest usable k b'"
proof -
  define b0 where "b0 = maybe_abort_signal b ev"
  obtain b1 where b1: "(if on_queue EVLIST_TIMEOUT b0 ev then event_queue_remove b0 ev EVLIST_TIMEOUT else Some b0) = Some b1"
    using del by (auto simp: event_del_internal_def b0_def Let_def split: if_splits bind_splits)
  obtain b2 where b2: "(if on_queue EVLIST_ACTIVE b1 ev then event_queue_remove b1 ev EVLIST_ACTIVE else Some b1) = Some b2"
    using del b1 by (simp add: event_del_internal_def b0_def[symmetric] Let_def split: if_splits bind_splits)
  have "same_maps b b2"
  proof -
    have "same_maps b b0" by (simp add: b0_def)
    moreover have "same_maps b0 b1" using b1 same_maps_remove by (auto split: if_splits)
    moreover have "same_maps b1 b2" using b2 same_maps_remove by (auto split: if_splits)
    ultimately show ?thesis using same_maps_trans by blast
  qed
  then have s2: "epoll_synced ctl interest usable k b2" by (rule synced_same[OF sync])
  have rest: "(if on_queue EVLIST_INSERTED b2 ev
        then do {
          b3 \<leftarrow> event_queue_remove b2 ev EVLIST_INSERTED;
          (res, b4) \<leftarrow> (if has (EV_READ OR EV_WRITE) (ev_events (ev_store b3 ev))
                        then evmap_io_del (epoll_backend ctl k) b3 (ev_fd (ev_store b3 ev)) ev
                        else evmap_signal_del (epoll_backend ctl k) b3 (ev_fd (ev_store b3 ev)) ev);
          Some (if res = 1 then 0 else res, notify_if (res = 1) b4)
        }
        else Some (0, b2)) = Some (r, b')"
    using del b1 b2 by (simp add: event_del_internal_def b0_def[symmetric] Let_def split: if_splits)
  show ?thesis
  proof (cases "on_queue EVLIST_INSERTED b2 ev")
    case True
    then obtain b3 where b3: "event_queue_remove b2 ev EVLIST_INSERTED = Some b3" using rest by (auto split: bind_splits)
    then have s3: "epoll_synced ctl interest usable k b3" using synced_same[OF s2 same_maps_remove] by blast
    obtain res b4 where b4: "(if has (EV_READ OR EV_WRITE) (ev_events (ev_store b3 ev))
                        then evmap_io_del (epoll_backend ctl k) b3 (ev_fd (ev_store b3 ev)) ev
                        else evmap_signal_del (epoll_backend ctl k) b3 (ev_fd (ev_store b3 ev)) ev) = Some (res, b4)"
      and b': "b' = notify_if (res = 1) b4"
      using rest True b3 by (auto split: bind_splits if_splits)
    have "epoll_synced ctl interest usable k b4"
      using b4 synced_io_del[OF s3] synced_unseen[OF s3 unseen_signal_del] by (auto split: if_splits)
    then show ?thesis unfolding b' by (rule synced_same) simp
  next
    case False
    then show ?thesis using rest s2 by simp
  qed
qed

lemma synced_timeout_loop:
  assumes "timeout_loop evsel m now b = Some b'"
  shows "evsel = epoll_backend ctl k \<longrightarrow> epoll_synced ctl interest usable k b \<longrightarrow> epoll_synced ctl interest usable k b'"
  using assms
proof (rule timeout_loop.raw_induct[rotated], intro impI)
  fix loop evsel m now b b'
  assume IH: "\<And>evsel m now b b'. loop evsel m now b = Some b' \<Longrightarrow>
      evsel = epoll_backend ctl k \<longrightarrow> epoll_synced ctl interest usable k b \<longrightarrow> epoll_synced ctl interest usable k b'"
    and step: "(case min_heap_top (timeheap b) of None \<Rightarrow> Some b
      | Some ev \<Rightarrow> if evutil_timercmp_gt (ev_timeout (ev_store b ev)) now then Some b
          else event_del_internal evsel b ev \<bind> (\<lambda>r. event_active_nolock m (snd r) ev EV_TIMEOUT 1 \<bind> loop evsel m now)) = Some b'"
    and e: "evsel = epoll_backend ctl k" and sync: "epoll_synced ctl interest usable k b"
  show "epoll_synced ctl interest usable k b'"
  proof (cases "b' = b")
    case False
    then obtain ev r b1 b2 where d: "event_del_internal evsel b ev = Some (r, b1)" "event_active_nolock m b1 ev EV_TIMEOUT 1 = Some b2"
        "loop evsel m now b2 = Some b'"
      using step by (auto split: option.splits if_splits bind_splits)
    have "epoll_synced ctl interest usable k b2"
      by (rule synced_same[OF synced_del[OF sync] same_maps_active[OF d(2)]]) (use d(1) e in simp)
    then show ?thesis using IH[OF d(3)] e by blast
  qed (use sync in simp)
qed

lemma synced_add_to_maps:
  assumes sync: "epoll_synced ctl interest usable k b" and add: "add_to_maps (epoll_backend ctl k) m b ev = Some (res, n, b')"
  shows "epoll_synced ctl interest usable k b'"
proof (cases "b' = b")
  case False
  then obtain r1 b1 where b1: "(if has (EV_READ OR EV_WRITE) (ev_events (ev_store b ev))
       then evmap_io_add (epoll_backend ctl k) m b (ev_fd (ev_store b ev)) ev
       else evmap_signal_add (epoll_backend ctl k) m b (ev_fd (ev_store b ev)) ev) = Some (r1, b1)"
    and b2: "(if r1 \<noteq> - 1 then event_queue_insert m b1 ev EVLIST_INSERTED else Some b1) = Some b'"
    using add by (auto simp: add_to_maps_def Let_def split: if_splits bind_splits)
  have "epoll_synced ctl interest usable k b1"
    using b1 synced_io_add[OF sync] synced_unseen[OF sync unseen_signal_add] by (auto split: if_splits)
  moreover have "same_maps b1 b'" using b2 same_maps_insert[of m b1 ev EVLIST_INSERTED b'] by (auto split: if_splits)
  ultimately show ?thesis by (rule synced_same)
qed (use sync in simp)

end

lemma same_maps_add_timeout:
  assumes "add_timeout m clk b ev tv absolute = Some (w, b')"
  shows "same_maps b b'"
proof -
  define b1 where "b1 = (if ev_closure (ev_store b ev) = EV_CLOSURE_PERSIST \<and> \<not> absolute then upd_ev b ev (\<lambda>x. x\<lparr>ev_io_timeout := tv\<rparr>) else b)"
  obtain w2 b2 where b2: "(if on_queue EVLIST_TIMEOUT b1 ev
      then map_option (Pair (min_heap_elt_is_top (ev_store b1) ev)) (event_queue_remove b1 ev EVLIST_TIMEOUT) else Some (False, b1)) = Some (w2, b2)"
    using assms by (auto simp: add_timeout_def b1_def[symmetric] Let_def split: if_splits bind_splits)
  obtain b3 where b3: "(if on_queue EVLIST_ACTIVE b2 ev \<and> has EV_TIMEOUT (ev_res (ev_store b2 ev))
            then event_queue_remove (maybe_abort_signal b2 ev) ev EVLIST_ACTIVE else Some b2) = Some b3"
    using assms b2 by (simp add: add_timeout_def b1_def[symmetric] Let_def split: if_splits bind_splits)
  have b4: "event_queue_insert m (upd_ev b3 ev (\<lambda>x. x\<lparr>ev_timeout := add_deadline b3 (gettime b3 clk) tv absolute\<rparr>)) ev EVLIST_TIMEOUT = Some b'"
    using assms b2 b3 by (simp add: add_timeout_def b1_def[symmetric] Let_def split: bind_splits)
  have "same_maps b b1" by (simp add: b1_def)
  moreover have "same_maps b1 b2" using b2 same_maps_remove by (auto split: if_splits)
  moreover have "same_maps b2 b3"
    using b3 same_maps_trans[OF same_maps_upd(3) same_maps_remove] by (auto split: if_splits)
  moreover have "same_maps b3 b'" using same_maps_trans[OF same_maps_upd(1) same_maps_insert[OF b4]] .
  ultimately show ?thesis using same_maps_trans by blast
qed

context epoll_kernel
begin

text \<open>The second half of \<open>event_add_internal\<close>: the timeout.\<close>

lemma synced_add_rest:
  assumes s2: "epoll_synced ctl interest usable k b2"
    and rest: "(case tv of None \<Rightarrow> Some (res, notify_if (res \<noteq> - 1 \<and> n) b2)
           | Some t \<Rightarrow>
               if res = - 1 then Some (- 1, b2)
               else do {
                 (was_top, b3) \<leftarrow> add_timeout m clk b2 ev t absolute;
                 if is_common_timeout t b2
                 then (let ctl = get_common_timeout_list b3 (ev_timeout (ev_store b3 ev)) in do {
                         b4 \<leftarrow> (case ctl_events ctl of
                                  [] \<Rightarrow> Some b3
                                | e # _ \<Rightarrow> if e = ev then sch b3 ctl ev else Some b3);
                         Some (res, notify_if (n \<or> was_top) b4)
                       })
                 else Some (res, notify_if (n \<or> was_top \<or> min_heap_elt_is_top (ev_store b3) ev) b3)
               }) = Some (r, b')"
    and sch: "\<And>c ctl' e c'. epoll_synced ctl interest usable k c \<Longrightarrow> sch c ctl' e = Some c' \<Longrightarrow> epoll_synced ctl interest usable k c'"
  shows "epoll_synced ctl interest usable k b'"
proof (cases "tv = None \<or> res = - 1")
  case True
  have "same_maps b2 b'"
  proof (cases tv)
    case None
    then have "b' = notify_if (res \<noteq> - 1 \<and> n) b2" using rest by auto
    then show ?thesis by simp
  next
    case (Some t)
    then have "b' = b2" using rest True by simp
    then show ?thesis by simp
  qed
  then show ?thesis by (rule synced_same[OF s2])
next
  case tvs: False
  then obtain t where t: "tv = Some t" by auto
  obtain wt b3 where b3: "add_timeout m clk b2 ev t absolute = Some (wt, b3)" using rest t tvs by (auto split: bind_splits)
  have s3: "epoll_synced ctl interest usable k b3" by (rule synced_same[OF s2 same_maps_add_timeout[OF b3]])
  have "\<exists>q b4. b' = notify_if q b4 \<and> (b4 = b3 \<or> (\<exists>c. sch b3 c ev = Some b4))"
  proof (cases "is_common_timeout t b2")
    case True
    define c where "c = get_common_timeout_list b3 (ev_timeout (ev_store b3 ev))"
    define x where "x = (case ctl_events c of [] \<Rightarrow> Some b3 | e # _ \<Rightarrow> if e = ev then sch b3 c ev else Some b3)"
    have "do { b4 \<leftarrow> x; Some (res, notify_if (n \<or> wt) b4) } = Some (r, b')"
      using rest t tvs b3 True unfolding Let_def c_def x_def by simp
    then obtain b4 where x: "x = Some b4" and b4: "b' = notify_if (n \<or> wt) b4" by (cases x) auto
    have "b4 = b3 \<or> sch b3 c ev = Some b4" using x by (simp add: x_def split: list.splits if_splits)
    then show ?thesis using b4 by blast
  next
    case False
    then have "b' = notify_if (n \<or> wt \<or> min_heap_elt_is_top (ev_store b3) ev) b3" using rest t tvs b3 by simp
    then show ?thesis by blast
  qed
  then obtain q b4 where b4: "b' = notify_if q b4" "b4 = b3 \<or> (\<exists>c. sch b3 c ev = Some b4)" by blast
  have "epoll_synced ctl interest usable k b4" using b4(2) s3 sch[OF s3] by auto
  then show ?thesis unfolding b4(1) by (rule synced_same) simp
qed

lemma synced_add_step:
  assumes sync: "epoll_synced ctl interest usable k b" and add: "add_step sch (epoll_backend ctl k) m clk b ev tv absolute = Some (r, b')"
    and sch: "\<And>c ctl' e c'. epoll_synced ctl interest usable k c \<Longrightarrow> sch c ctl' e = Some c' \<Longrightarrow> epoll_synced ctl interest usable k c'"
  shows "epoll_synced ctl interest usable k b'"
proof -
  define g where "g = (if tv \<noteq> None \<and> \<not> on_queue EVLIST_TIMEOUT b ev
                  then min_heap_reserve m (timeheap b) (1 + min_heap_size (timeheap b)) else Some (timeheap b))"
  have fl: "ev_flags (ev_store b ev) AND NOT EVLIST_ALL = 0" using add by (simp add: add_step_def split: if_splits)
  show ?thesis
  proof (cases g)
    case None
    then have "b' = b" using add fl unfolding add_step_def g_def[symmetric] by simp
    then show ?thesis using sync by simp
  next
    case (Some h)
    obtain res n b2 where am: "add_to_maps (epoll_backend ctl k) m (b\<lparr>timeheap := h\<rparr>) ev = Some (res, n, b2)"
      using add fl Some unfolding add_step_def g_def[symmetric] by (auto split: bind_splits)
    have "epoll_synced ctl interest usable k b2"
      by (rule synced_add_to_maps[OF synced_same[OF sync] am]) simp
    moreover have "(case tv of None \<Rightarrow> Some (res, notify_if (res \<noteq> - 1 \<and> n) b2)
           | Some t \<Rightarrow>
               if res = - 1 then Some (- 1, b2)
               else do {
                 (was_top, b3) \<leftarrow> add_timeout m clk b2 ev t absolute;
                 if is_common_timeout t b2
                 then (let ctl = get_common_timeout_list b3 (ev_timeout (ev_store b3 ev)) in do {
                         b4 \<leftarrow> (case ctl_events ctl of
                                  [] \<Rightarrow> Some b3
                                | e # _ \<Rightarrow> if e = ev then sch b3 ctl ev else Some b3);
                         Some (res, notify_if (n \<or> was_top) b4)
                       })
                 else Some (res, notify_if (n \<or> was_top \<or> min_heap_elt_is_top (ev_store b3) ev) b3)
               }) = Some (r, b')"
      using add fl Some am unfolding add_step_def g_def[symmetric] by simp
    ultimately show ?thesis by (rule synced_add_rest[OF _ _ sch])
  qed
qed

lemma synced_add:
  assumes sync: "epoll_synced ctl interest usable k b" and add: "event_add_internal (epoll_backend ctl k) m clk b ev tv absolute = Some (r, b')"
  shows "epoll_synced ctl interest usable k b'"
proof (rule synced_add_step[OF sync add[unfolded event_add_internal_def]])
  fix c ctl' e c'
  assume c: "epoll_synced ctl interest usable k c" "common_timeout_schedule (epoll_backend ctl k) m clk c ctl' e = Some c'"
  then obtain r where "add_step (\<lambda>_ _ _. None) (epoll_backend ctl k) m clk c (timeout_event ctl') (Some (mask_usec (ev_timeout (ev_store c e)))) True = Some (r, c')"
    by (auto simp: common_timeout_schedule_def)
  from synced_add_step[OF c(1) this] show "epoll_synced ctl interest usable k c'" by simp
qed

end


lemma same_maps_activate_all: "activate_all m events b es = Some b' \<Longrightarrow> same_maps b b'"
proof (induction es arbitrary: b)
  case (Cons ev es)
  then obtain b1 where b1: "(if has events (ev_events (ev_store b ev))
      then event_active_nolock m b ev (ev_events (ev_store b ev) AND events) 1 else Some b) = Some b1" "activate_all m events b1 es = Some b'"
    by (auto split: bind_splits)
  have "same_maps b b1" using b1(1) same_maps_active[of m b ev] by (simp split: if_splits)
  then show ?case using Cons.IH[OF b1(2)] by (rule same_maps_trans)
qed simp

lemma same_maps_activate_signals: "activate_signals m n b es = Some b' \<Longrightarrow> same_maps b b'"
proof (induction es arbitrary: b)
  case (Cons ev es)
  then obtain b1 where b1: "event_active_nolock m b ev EV_SIGNAL n = Some b1" "activate_signals m n b1 es = Some b'"
    by (auto split: bind_splits)
  show ?case using same_maps_active[OF b1(1)] Cons.IH[OF b1(2)] by (rule same_maps_trans)
qed simp

context epoll_kernel
begin

lemma synced_step:
  assumes "base_step (epoll_backend ctl k) m b b'" "epoll_synced ctl interest usable k b"
  shows "epoll_synced ctl interest usable k b'"
  using assms(1)
proof cases
  case (assign ev fd events)
  have "same_maps b b'" using assign(1) event_assign_upd(1)[of b ev fd events] same_maps_upd(1) by metis
  then show ?thesis by (rule synced_same[OF assms(2)])
next
  case (priority ev pri)
  then have "same_maps b b'" by (auto simp: event_priority_set_def)
  then show ?thesis by (rule synced_same[OF assms(2)])
next
  case (add clk ev tv r)
  then show ?thesis using synced_add[OF assms(2)] by (simp add: event_add_def)
next
  case (del ev r)
  then show ?thesis using synced_del[OF assms(2)] by (simp add: event_del_def)
next
  case (active ev res ncalls)
  then show ?thesis using synced_same[OF assms(2) same_maps_active] by blast
next
  case (io_ready fd events)
  then obtain ctx :: evmap_io where "activate_all m events b (io_events ctx) = Some b'"
    by (auto simp: evmap_io_active_def split: if_splits option.splits)
  then show ?thesis using synced_same[OF assms(2) same_maps_activate_all] by blast
next
  case (signal sig ncalls)
  then obtain es where "activate_signals m ncalls b es = Some b'"
    by (auto simp: evmap_signal_active_def split: if_splits option.splits)
  then show ?thesis using synced_same[OF assms(2) same_maps_activate_signals] by blast
next
  case (timeouts clk)
  then have "b' = b \<or> timeout_loop (epoll_backend ctl k) m (gettime b clk) b = Some b'" by (auto simp: timeout_process_def split: if_splits)
  then show ?thesis using synced_timeout_loop assms(2) by blast
next
  case (time no_cache clk)
  have "same_maps b b'" unfolding time by (simp add: same_maps_def update_time_cache_def Let_def)
  then show ?thesis by (rule synced_same[OF assms(2)])
qed

lemma synced_reachable:
  assumes "base_reachable (epoll_backend ctl k) m b0 b" "epoll_synced ctl interest usable k b0"
  shows "epoll_synced ctl interest usable k b"
  using assms(1)
proof (induction rule: base_reachable.induct)
  case (step b b')
  then show ?case by (intro synced_step[OF step(2)])
qed (use assms(2) in simp)

end


section \<open>No event is missed\<close>

lemma sys_inv_reachable: "base_reachable evsel m b0 b \<Longrightarrow> sys_inv b0 \<Longrightarrow> sys_inv b"
proof (induction rule: base_reachable.induct)
  case (step b b')
  then show ?case by (intro base_step_inv[OF step(2)])
qed

text \<open>An added event is counted in the entry of its descriptor.\<close>

lemma inserted_wanted:
  assumes "sys_inv b" "on_queue EVLIST_INSERTED b ev" "0 \<le> ev_fd (ev_store b ev)"
  shows "has EV_READ (ev_events (ev_store b ev)) \<Longrightarrow> fst (entry_wants (io_map b) (ev_fd (ev_store b ev)))"
    "has EV_WRITE (ev_events (ev_store b ev)) \<Longrightarrow> snd (entry_wants (io_map b) (ev_fd (ev_store b ev)))"
proof -
  obtain I where I: "maps_covered I b" using assms(1) by (auto simp: sys_inv_def)
  define fd where "fd = nat (ev_fd (ev_store b ev))"
  have m: "maps_ok (ev_store b) I (io_map b) (sigmap b)" "ev \<in> I" using I assms(2) by (auto simp: maps_covered_def)
  have "fst (entry_wants (io_map b) (int fd)) = (\<exists>e \<in> set (io_events ctx). has EV_READ (ev_events (ev_store b e))) \<and>
      snd (entry_wants (io_map b) (int fd)) = (\<exists>e \<in> set (io_events ctx). has EV_WRITE (ev_events (ev_store b e)))"
    if "fd < length (io_map b)" "io_map b ! fd = Some ctx" for ctx
    using maps_ok_io[OF m(1) subset_refl that] that by (auto simp: entry_wants_def io_entry_ok_def filter_empty_conv)
  moreover have "\<exists>ctx. fd < length (io_map b) \<and> io_map b ! fd = Some ctx \<and> ev \<in> set (io_events ctx)"
    if "has (EV_READ OR EV_WRITE) (ev_events (ev_store b ev))"
  proof -
    have "mapped (ev_store b) (io_map b) (sigmap b) ev" using m by (simp add: maps_ok_def)
    then show ?thesis using that assms(3) by (auto simp: mapped_def fd_def split: option.splits)
  qed
  moreover have "has (EV_READ OR EV_WRITE) x \<longleftrightarrow> has EV_READ x \<or> has EV_WRITE x" for x
    by (auto simp: has_iff_bit bit_or_iff)
  moreover have "ev_fd (ev_store b ev) = int fd" using assms(3) by (simp add: fd_def)
  ultimately show "has EV_READ (ev_events (ev_store b ev)) \<Longrightarrow> fst (entry_wants (io_map b) (ev_fd (ev_store b ev)))"
    "has EV_WRITE (ev_events (ev_store b ev)) \<Longrightarrow> snd (entry_wants (io_map b) (ev_fd (ev_store b ev)))" by metis+
qed

lemma kernel_has_watch: "kernel_has w x \<Longrightarrow> fst w \<Longrightarrow> \<exists>e. x = Some e \<and> flagged EPOLLIN e"
  "kernel_has w x \<Longrightarrow> snd w \<Longrightarrow> \<exists>e. x = Some e \<and> flagged EPOLLOUT e"
  by (auto simp: kernel_has_def split: if_splits)



end
