(* ===== verification/Inet.thy ===== *)
theory Inet
  imports Ascii
begin

text \<open>
  Internet addresses as text, from \<^verbatim>\<open>evutil.c\<close>: printing and reading IPv4 and IPv6 addresses and socket
  addresses with a port, and comparing socket addresses. The code uses its own implementations
  (\<^verbatim>\<open>USE_INTERNAL_NTOP\<close>, \<^verbatim>\<open>USE_INTERNAL_PTON\<close>).

  Numbers in network byte order are stored as the words a little-endian machine reads; \<open>ntohl\<close> and \<open>ntohs\<close>
  reverse the bytes. The text an operation leaves in the buffer of its caller is the result.
\<close>

section \<open>Addresses\<close>

definition ntohl :: "u32 \<Rightarrow> u32" where
  "ntohl x = push_bit 24 (x AND 0xff) OR push_bit 8 (x AND 0xff00) OR (drop_bit 8 x AND 0xff00) OR (drop_bit 24 x AND 0xff)"

definition ntohs :: "u16 \<Rightarrow> u16" where
  "ntohs x = push_bit 8 x OR drop_bit 8 x"

abbreviation htonl :: "u32 \<Rightarrow> u32" where "htonl \<equiv> ntohl"
abbreviation htons :: "u16 \<Rightarrow> u16" where "htons \<equiv> ntohs"

text \<open>What the address family and the pointer to an address give: \<open>s_addr\<close>, the bytes of \<open>s6_addr\<close>, or neither.\<close>

datatype inet_addr = In_addr u32 | In6_addr "u8 list" | Other_addr

datatype inet_family = AF_INET | AF_INET6 | AF_OTHER

section \<open>Printing addresses\<close>

definition print_quad :: "nat \<Rightarrow> nat \<Rightarrow> nat \<Rightarrow> nat \<Rightarrow> string" where
  "print_quad a b c d =
     print_nat 10 a @ CHR ''.'' # print_nat 10 b @ CHR ''.'' # print_nat 10 c @ CHR ''.'' # print_nat 10 d"

definition octet :: "u32 \<Rightarrow> nat \<Rightarrow> nat" where
  "octet a k = unat (ucast (drop_bit k a AND 0xff) :: u8)"

definition words_of :: "u8 list \<Rightarrow> u16 list" where
  "words_of s6_addr = map (\<lambda>i. push_bit 8 (ucast (s6_addr ! (2 * i))) + ucast (s6_addr ! (2 * i + 1))) [0..<8]"

definition zero_run :: "u16 list \<Rightarrow> nat \<Rightarrow> nat" where
  "zero_run words i = length (takeWhile (\<lambda>w. w = 0) (drop i (take 8 words)))"

text \<open>The search for the longest run of zeros: the position is -1 before one is found.\<close>

function find_gap :: "u16 list \<Rightarrow> nat \<Rightarrow> int \<Rightarrow> nat \<Rightarrow> int \<times> nat" where
  "find_gap words i longestGapPos longestGapLen =
     (if i < 8 then
        (if words ! i = 0 then
           (let curGapPos = i; curGapLen = 1 + zero_run words (i + 1) in
            if curGapLen > longestGapLen
            then find_gap words (i + curGapLen) (int curGapPos) curGapLen
            else find_gap words (i + curGapLen) longestGapPos longestGapLen)
         else find_gap words (i + 1) longestGapPos longestGapLen)
      else (longestGapPos, longestGapLen))"
  by pat_completeness auto
termination
  by (relation "measure (\<lambda>(words, i, p, l). 8 - i)") auto

declare find_gap.simps [simp del]

definition gap_pos :: "u16 list \<Rightarrow> int" where
  "gap_pos words = (let (longestGapPos, longestGapLen) = find_gap words 0 (- 1) 0 in
     if longestGapLen \<le> 1 then - 1 else longestGapPos)"

definition print_word :: "u16 \<Rightarrow> string" where
  "print_word w = print_nat 16 (unat w)"

function print_words :: "u16 list \<Rightarrow> int \<Rightarrow> nat \<Rightarrow> string" where
  "print_words words longestGapPos i =
     (if i < 8 then
        (if words ! i = 0 \<and> longestGapPos = int i
         then (if i = 0 then ''::'' else '':'') @ print_words words longestGapPos (i + 1 + zero_run words (i + 1))
         else print_word (words ! i) @ (if i \<noteq> 7 then '':'' else []) @ print_words words longestGapPos (i + 1))
      else [])"
  by pat_completeness auto
termination
  by (relation "measure (\<lambda>(words, g, i). 8 - i)") auto

declare print_words.simps [simp del]

definition print_in6 :: "u8 list \<Rightarrow> string" where
  "print_in6 s6_addr =
     (let words = words_of s6_addr;
          quad = print_quad (unat (s6_addr ! 12)) (unat (s6_addr ! 13)) (unat (s6_addr ! 14)) (unat (s6_addr ! 15)) in
      if words ! 0 = 0 \<and> words ! 1 = 0 \<and> words ! 2 = 0 \<and> words ! 3 = 0 \<and> words ! 4 = 0 \<and>
         ((words ! 5 = 0 \<and> words ! 6 \<noteq> 0 \<and> words ! 7 \<noteq> 0) \<or> words ! 5 = 0xffff)
      then (if words ! 5 = 0 then ''::'' @ quad else ''::'' @ print_word (words ! 5) @ '':'' @ quad)
      else print_words words (gap_pos words) 0)"

definition evutil_inet_ntop :: "inet_addr \<Rightarrow> nat \<Rightarrow> string option" where
  "evutil_inet_ntop src len =
     (case src of
        In_addr s_addr \<Rightarrow>
          (let a = ntohl s_addr; r = print_quad (octet a 24) (octet a 16) (octet a 8) (octet a 0) in
           if length r \<ge> len then None else Some r)
      | In6_addr s6_addr \<Rightarrow>
          (let buf = print_in6 s6_addr in
           if length buf > len then None else Some (take (len - 1) buf))
      | Other_addr \<Rightarrow> None)"

section \<open>Reading addresses\<close>

text \<open>
  The loop over the words of an IPv6 address: \<open>p\<close> is the position of \<open>src\<close>, \<open>eow\<close> the end of the words, and
  \<open>None\<close> stands for \<^verbatim>\<open>return 0\<close>.
\<close>

function pton_loop :: "string \<Rightarrow> nat \<Rightarrow> nat \<Rightarrow> nat \<Rightarrow> int \<Rightarrow> u16 list \<Rightarrow> nat \<Rightarrow> (int \<times> u16 list \<times> nat) option" where
  "pton_loop src eow p i gapPos words setWords =
     (if p < eow then
        if i > 7 then None
        else if EVUTIL_ISXDIGIT (char_at src p) then
          (let (r, rest) = strtol16 (drop p src); next = p + (length (drop p src) - length rest) in
           if next > 4 + p then None
           else if next = p then None
           else if r < 0 \<or> r > 65536 then None
           else if char_at src next \<noteq> CHR '':'' \<and> next \<noteq> eow then None
           else pton_loop src eow (next + 1) (i + 1) gapPos (words[i := word_of_int r]) (setWords + 1))
        else if char_at src p = CHR '':'' \<and> i > 0 \<and> gapPos = - 1
        then pton_loop src eow (p + 1) i (int i) words setWords
        else if char_at src p = CHR '':'' \<and> i = 0 \<and> char_at src (p + 1) = CHR '':'' \<and> gapPos = - 1
        then pton_loop src eow (p + 2) i (int i) words setWords
        else None
      else Some (gapPos, words, setWords))"
  by pat_completeness auto
termination
  by (relation "measure (\<lambda>(src, eow, p, i, g, w, s). eow - p)") auto

declare pton_loop.simps [simp del]

definition byte_range :: "int \<Rightarrow> bool" where
  "byte_range v \<longleftrightarrow> 0 \<le> v \<and> v \<le> 255"

definition bytes_of :: "u16 list \<Rightarrow> u8 list" where
  "bytes_of words = concat (map (\<lambda>w. [ucast (drop_bit 8 w), ucast (w AND 0xff)]) words)"

text \<open>The end of \<open>evutil_inet_pton\<close>: the words after the gap move to the end, and the gap becomes zero.\<close>

definition spread_words :: "bool \<Rightarrow> int \<Rightarrow> u16 list \<Rightarrow> nat \<Rightarrow> int \<times> u8 list option" where
  "spread_words dot gapPos words setWords =
     (if setWords > 8 \<or> (setWords = 8 \<and> gapPos \<noteq> - 1) \<or> (setWords < 8 \<and> gapPos = - 1) then (0, None)
      else if gapPos \<ge> 0 then
        (let nToMove = int setWords - (if dot then 2 else 0) - gapPos; gapLen = 8 - setWords; g = nat gapPos in
         if nToMove < 0 then (- 1, None)
         else (let moved = splice_at words (g + gapLen) (slice words g (nat nToMove)) in
               (1, Some (bytes_of (splice_at moved g (replicate gapLen 0))))))
      else (1, Some (bytes_of words)))"

definition pton_words :: "bool \<Rightarrow> string \<Rightarrow> nat \<Rightarrow> u16 list \<Rightarrow> nat \<Rightarrow> int \<times> u8 list option" where
  "pton_words dot src eow words setWords =
     (case pton_loop src eow 0 0 (- 1) words setWords of
        None \<Rightarrow> (0, None)
      | Some (gapPos, words, setWords) \<Rightarrow> spread_words dot gapPos words setWords)"

text \<open>The array \<open>words\<close> is not initialised; \<open>words0\<close> is what it holds.\<close>

definition pton_in6 :: "u16 list \<Rightarrow> string \<Rightarrow> int \<times> u8 list option" where
  "pton_in6 words0 src =
     (case strchr src CHR ''.'' of
        None \<Rightarrow> pton_words False src (length src) words0 0
      | Some dot \<Rightarrow>
          if dot = 0 then (0, None)
          else (let eow = dot - length (takeWhile EVUTIL_ISDIGIT (rev (take dot src)));
                    bs = sscanf_quad 4 (drop eow src) in
                if length bs \<noteq> 4 \<or> \<not> list_all byte_range bs then (0, None)
                else pton_words True src eow
                       (words0[6 := word_of_int (push_bit 8 (bs ! 0) OR bs ! 1),
                               7 := word_of_int (push_bit 8 (bs ! 2) OR bs ! 3)]) 2))"

definition evutil_inet_pton :: "u16 list \<Rightarrow> inet_family \<Rightarrow> string \<Rightarrow> int \<times> inet_addr option" where
  "evutil_inet_pton words0 af src =
     (case af of
        AF_INET \<Rightarrow>
          (let vs = sscanf_quad 4 src in
           if length vs \<noteq> 4 \<or> \<not> list_all byte_range vs then (0, None)
           else (1, Some (In_addr (htonl (word_of_int
                  (push_bit 24 (vs ! 0) OR push_bit 16 (vs ! 1) OR push_bit 8 (vs ! 2) OR vs ! 3))))))
      | AF_INET6 \<Rightarrow> map_prod id (map_option In6_addr) (pton_in6 words0 src)
      | AF_OTHER \<Rightarrow> (- 1, None))"

section \<open>Socket addresses\<close>

text \<open>
  The fields of \<^verbatim>\<open>struct sockaddr_in\<close> and \<^verbatim>\<open>struct sockaddr_in6\<close> that the code reads, in network byte order,
  or any other address with its family.
\<close>

datatype sockaddr =
    Sockaddr_in (sin_port: u16) (sin_addr: u32)
  | Sockaddr_in6 (sin6_port: u16) (sin6_addr: "u8 list")
  | Sockaddr_other (sa_family: int)

definition AF_INET_number :: int where "AF_INET_number = 2"
definition AF_INET6_number :: int where "AF_INET6_number = 10"

fun family_number :: "sockaddr \<Rightarrow> int" where
  "family_number (Sockaddr_in _ _) = AF_INET_number"
| "family_number (Sockaddr_in6 _ _) = AF_INET6_number"
| "family_number (Sockaddr_other f) = f"

definition sizeof_sockaddr_in :: int where "sizeof_sockaddr_in = 16"
definition sizeof_sockaddr_in6 :: int where "sizeof_sockaddr_in6 = 28"

text \<open>The parts of the text: the address, the port if there is one, and whether the address is IPv6.\<close>

definition sockaddr_parts :: "string \<Rightarrow> (string \<times> string option \<times> bool) option" where
  "sockaddr_parts ip_as_string =
     (let cp = strchr ip_as_string CHR '':'' in
      if char_at ip_as_string 0 = CHR ''['' then
        (case strchr ip_as_string CHR '']'' of
           None \<Rightarrow> None
         | Some cp \<Rightarrow>
             let len = cp - 1 in
             if len > 127 then None
             else Some (take len (tl ip_as_string),
                        if char_at ip_as_string (cp + 1) = CHR '':'' then Some (drop (cp + 2) ip_as_string) else None, True))
      else (case cp of
              Some c \<Rightarrow>
                if strchr (drop (c + 1) ip_as_string) CHR '':'' \<noteq> None then Some (ip_as_string, None, True)
                else if c > 127 then None
                else Some (take c ip_as_string, Some (drop (c + 1) ip_as_string), False)
            | None \<Rightarrow> Some (ip_as_string, None, False)))"

definition parse_port_part :: "string option \<Rightarrow> int option" where
  "parse_port_part port_part =
     (case port_part of
        None \<Rightarrow> Some 0
      | Some s \<Rightarrow> let port = atoi s in if port \<le> 0 \<or> port > 65535 then None else Some port)"

definition evutil_parse_sockaddr_port ::
    "u16 list \<Rightarrow> string \<Rightarrow> int \<Rightarrow> int \<times> (sockaddr \<times> int) option" where
  "evutil_parse_sockaddr_port words0 ip_as_string outlen =
     (case sockaddr_parts ip_as_string of
        None \<Rightarrow> (- 1, None)
      | Some (addr_part, port_part, is_ipv6) \<Rightarrow>
          (case parse_port_part port_part of
             None \<Rightarrow> (- 1, None)
           | Some port \<Rightarrow>
               if is_ipv6 then
                 (case evutil_inet_pton words0 AF_INET6 addr_part of
                    (r, Some (In6_addr a)) \<Rightarrow>
                      if r \<noteq> 1 then (- 1, None)
                      else if sizeof_sockaddr_in6 > outlen then (- 1, None)
                      else (0, Some (Sockaddr_in6 (htons (word_of_int port)) a, sizeof_sockaddr_in6))
                  | _ \<Rightarrow> (- 1, None))
               else
                 (case evutil_inet_pton words0 AF_INET addr_part of
                    (r, Some (In_addr a)) \<Rightarrow>
                      if r \<noteq> 1 then (- 1, None)
                      else if sizeof_sockaddr_in > outlen then (- 1, None)
                      else (0, Some (Sockaddr_in (htons (word_of_int port)) a, sizeof_sockaddr_in))
                  | _ \<Rightarrow> (- 1, None))))"

text \<open>\<open>snprintf\<close> writes as much as fits before the NUL.\<close>

definition evutil_format_sockaddr_port :: "sockaddr \<Rightarrow> nat \<Rightarrow> string" where
  "evutil_format_sockaddr_port sa outlen = take (outlen - 1)
     (case sa of
        Sockaddr_in port addr \<Rightarrow>
          (case evutil_inet_ntop (In_addr addr) 128 of
             Some b \<Rightarrow> b @ '':'' @ print_nat 10 (unat (ntohs port))
           | None \<Rightarrow> ''<addr with socktype '' @ print_int (family_number sa) @ ''>'')
      | Sockaddr_in6 port addr \<Rightarrow>
          (case evutil_inet_ntop (In6_addr addr) 128 of
             Some b \<Rightarrow> ''['' @ b @ '']:'' @ print_nat 10 (unat (ntohs port))
           | None \<Rightarrow> ''<addr with socktype '' @ print_int (family_number sa) @ ''>'')
      | Sockaddr_other f \<Rightarrow> ''<addr with socktype '' @ print_int f @ ''>'')"

text \<open>\<open>memcmp\<close> as the difference of the first bytes that differ.\<close>

fun memcmp :: "u8 list \<Rightarrow> u8 list \<Rightarrow> int" where
  "memcmp (x # xs) (y # ys) = (if x = y then memcmp xs ys else uint x - uint y)"
| "memcmp _ _ = 0"

definition evutil_sockaddr_cmp :: "sockaddr \<Rightarrow> sockaddr \<Rightarrow> bool \<Rightarrow> int" where
  "evutil_sockaddr_cmp sa1 sa2 include_port =
     (let r = family_number sa1 - family_number sa2 in
      if r \<noteq> 0 then r
      else case (sa1, sa2) of
        (Sockaddr_in p1 a1, Sockaddr_in p2 a2) \<Rightarrow>
          if a1 < a2 then - 1
          else if a1 > a2 then 1
          else if include_port then uint p1 - uint p2
          else 0
      | (Sockaddr_in6 p1 a1, Sockaddr_in6 p2 a2) \<Rightarrow>
          (let r = memcmp (take 16 a1) (take 16 a2) in
           if r \<noteq> 0 then r
           else if include_port then uint p1 - uint p2
           else 0)
      | _ \<Rightarrow> 1)"

definition evutil_sockaddr_is_loopback :: "sockaddr \<Rightarrow> bool" where
  "evutil_sockaddr_is_loopback addr =
     (case addr of
        Sockaddr_in port a \<Rightarrow> ntohl a AND 0xff000000 = 0x7f000000
      | Sockaddr_in6 port a \<Rightarrow> memcmp (take 16 a) (replicate 15 0 @ [1]) = 0
      | Sockaddr_other f \<Rightarrow> False)"

section \<open>Reading what was printed: IPv6\<close>

lemma colon_facts [simp]:
  "\<not> EVUTIL_ISXDIGIT CHR '':''" "\<not> EVUTIL_ISDIGIT CHR '':''" "\<not> EVUTIL_ISXDIGIT CHR ''.''" "\<not> EVUTIL_ISDIGIT CHR ''.''"
  by (simp_all add: class_iffs)

lemma word_code_less: "unat (w :: u16) < 65536"
  using unsigned_less[of w] by simp

lemma word_text:
  fixes w :: u16
  shows "print_word w \<noteq> []" "length (print_word w) \<le> 4" "list_all EVUTIL_ISXDIGIT (print_word w)"
    "EVUTIL_ISXDIGIT (hd (print_word w @ r))"
  using word_code_less[of w] print_nat_length[of 16 "unat w" 4]
    hd_print_nat[of 16 "unat w" "[]"]
  by (simp_all add: print_word_def print_nat_facts hd_print_nat)

lemma strtol16_word:
  assumes "r = [] \<or> hd r = CHR '':''"
  shows "strtol16 (print_word w @ r) = (int (unat w), r)"
  unfolding print_word_def
  using assms word_code_less[of w] by (intro strtol16_print) (auto simp: stops_def)

lemma char_at_drop: "char_at (drop p s) k = char_at s (p + k)"
  by (auto simp: char_at_def)

lemma char_at_0: "char_at s 0 = (if s = [] then NUL else hd s)"
  by (simp add: char_at_def hd_conv_nth)

lemma char_at_append: "char_at (s @ r) (length s + k) = char_at r k"
  by (simp add: char_at_def nth_append)

text \<open>One word is read, with the colon after it.\<close>

lemma pton_step_word:
  assumes S: "drop p src = print_word w @ r" and r: "r = [] \<or> hd r = CHR '':''"
    and e: "p + length (print_word w) \<le> eow" "r = [] \<Longrightarrow> p + length (print_word w) = eow" and i: "i \<le> 7"
  shows "pton_loop src eow p i g ws n =
         pton_loop src eow (p + length (print_word w) + 1) (i + 1) g (ws[i := w]) (n + 1)"
proof -
  let ?L = "length (print_word w)"
  have L: "0 < ?L" "?L \<le> 4"
    using word_text(1,2)[of w] by auto
  have x: "EVUTIL_ISXDIGIT (char_at src p)"
    using char_at_drop[of p src 0] word_text(1)[of w] word_text(4)[of w r] by (simp add: S char_at_0)
  have nx: "p + (length (drop p src) - length r) = p + ?L"
    by (simp add: S)
  have c: "char_at src (p + ?L) = (if r = [] then NUL else hd r)"
    using char_at_drop[of p src ?L] char_at_append[of "print_word w" r 0] by (simp add: S char_at_0)
  have v: "int (unat w) \<le> 65536" "word_of_int (int (unat w)) = w"
    using word_code_less[of w] by (linarith, simp)
  have st: "strtol16 (drop p src) = (int (unat w), r)"
    unfolding S by (rule strtol16_word[OF r])
  have "p < eow"
    using L e by linarith
  then show ?thesis
    using L i e r c x v
    by (subst pton_loop.simps) (simp only: st Let_def nx prod.case, auto)
qed

lemma pton_end: "eow \<le> p \<Longrightarrow> pton_loop src eow p i g ws n = Some (g, ws, n)"
  by (subst pton_loop.simps) simp

definition with_colons :: "u16 list \<Rightarrow> string" where
  "with_colons xs = concat (map (\<lambda>w. print_word w @ '':'') xs)"

fun joined :: "u16 list \<Rightarrow> string" where
  "joined [] = []"
| "joined [x] = print_word x"
| "joined (x # y # xs) = print_word x @ CHR '':'' # joined (y # xs)"

lemma with_colons_simps [simp]:
  "with_colons [] = []" "with_colons (x # xs) = print_word x @ CHR '':'' # with_colons xs"
  by (simp_all add: with_colons_def)

lemma splice_at_Cons:
  assumes "i + length xs < length ws"
  shows "splice_at (ws[i := x]) (Suc i) xs = splice_at ws i (x # xs)"
  using assms by (simp add: splice_at_def take_Suc_conv_app_nth upd_conv_take_nth_drop[of i] add.commute)

lemma pton_loop_colons:
  assumes "drop p src = with_colons xs @ r" "p + length (with_colons xs) \<le> eow" "i + length xs \<le> 8" "length ws = 8"
  shows "pton_loop src eow p i g ws n =
         pton_loop src eow (p + length (with_colons xs)) (i + length xs) g (splice_at ws i xs) (n + length xs)"
  using assms
proof (induction xs arbitrary: p i ws n)
  case Nil
  then show ?case by simp
next
  case (Cons x xs)
  let ?q = "p + length (print_word x) + 1"
  have "pton_loop src eow p i g ws n = pton_loop src eow ?q (i + 1) g (ws[i := x]) (n + 1)"
    using Cons.prems by (intro pton_step_word[where r = "CHR '':'' # with_colons xs @ r"]) auto
  also have "drop ?q src = with_colons xs @ r"
    using Cons.prems(1) drop_drop[of "length (print_word x) + 1" p src] by (simp add: add.commute add.left_commute)
  then have "pton_loop src eow ?q (i + 1) g (ws[i := x]) (n + 1) =
      pton_loop src eow (?q + length (with_colons xs)) (i + 1 + length xs) g (splice_at (ws[i := x]) (i + 1) xs) (n + 1 + length xs)"
    using Cons.prems by (intro Cons.IH) auto
  finally show ?case
    using Cons.prems by (simp add: splice_at_Cons add.assoc)
qed

lemma pton_loop_joined:
  assumes "drop p src = joined xs" "p + length (joined xs) = eow" "i + length xs \<le> 8" "length ws = 8"
  shows "pton_loop src eow p i g ws n = Some (g, splice_at ws i xs, n + length xs)"
  using assms
proof (induction xs arbitrary: p i ws n rule: joined.induct)
  case 1
  then show ?case by (simp add: pton_end)
next
  case (2 x)
  then have "pton_loop src eow p i g ws n = pton_loop src eow (p + length (print_word x) + 1) (i + 1) g (ws[i := x]) (n + 1)"
    by (intro pton_step_word[where r = "[]"]) auto
  then show ?case
    using 2 splice_at_Cons[of i "[]" ws x] by (simp add: pton_end)
next
  case (3 x y xs)
  let ?q = "p + length (print_word x) + 1"
  have "pton_loop src eow p i g ws n = pton_loop src eow ?q (i + 1) g (ws[i := x]) (n + 1)"
    using "3.prems" by (intro pton_step_word[where r = "CHR '':'' # joined (y # xs)"]) auto
  also have "drop ?q src = joined (y # xs)"
    using "3.prems"(1) drop_drop[of "length (print_word x) + 1" p src] by (simp add: add.commute add.left_commute)
  then have "pton_loop src eow ?q (i + 1) g (ws[i := x]) (n + 1) =
      Some (g, splice_at (ws[i := x]) (i + 1) (y # xs), n + 1 + length (y # xs))"
    using "3.prems" by (intro "3.IH") auto
  finally show ?case
    using "3.prems" splice_at_Cons[of i "y # xs" ws x] by simp
qed

text \<open>What is printed: the words before the gap, the gap, the words after it.\<close>

lemma print_words_joined:
  assumes "length ws = 8" "g < int i"
  shows "print_words ws g i = joined (drop i ws)"
  using assms(2)
proof (induction "8 - i" arbitrary: i)
  case 0
  then show ?case
    using assms(1) by (subst print_words.simps) simp
next
  case (Suc n)
  then have i: "i < 8" "drop i ws = ws ! i # drop (Suc i) ws"
    using assms(1) by (auto simp: Cons_nth_drop_Suc)
  have "print_words ws g (Suc i) = joined (drop (Suc i) ws)"
    using Suc by simp
  then show ?case
    using i Suc.prems assms(1)
    by (subst print_words.simps) (cases "drop (Suc i) ws"; auto)
qed

lemma zero_run_facts:
  assumes "length ws = 8"
  shows "i \<le> 8 \<Longrightarrow> i + zero_run ws i \<le> 8" "slice ws i (zero_run ws i) = replicate (zero_run ws i) 0"
proof -
  show "i \<le> 8 \<Longrightarrow> i + zero_run ws i \<le> 8"
    using length_takeWhile_le[of "\<lambda>w. w = 0" "drop i ws"] assms by (simp add: zero_run_def)
  have "takeWhile (\<lambda>w. w = 0) (drop i ws) = replicate (zero_run ws i) 0"
    unfolding zero_run_def using assms by (auto simp: list_eq_iff_nth_eq dest: nth_mem set_takeWhileD)
  then show "slice ws i (zero_run ws i) = replicate (zero_run ws i) 0"
    unfolding slice_def zero_run_def using assms by (simp flip: takeWhile_eq_take)
qed

definition gap_end :: "u16 list \<Rightarrow> nat \<Rightarrow> nat" where
  "gap_end ws k = k + 1 + zero_run ws (k + 1)"

lemma gap_end_facts:
  assumes "length ws = 8" "k < 8" "ws ! k = 0"
  shows "k < gap_end ws k" "gap_end ws k \<le> 8"
    "ws = take k ws @ replicate (gap_end ws k - k) 0 @ drop (gap_end ws k) ws"
proof -
  let ?z = "zero_run ws (k + 1)"
  show "k < gap_end ws k" "gap_end ws k \<le> 8"
    using zero_run_facts(1)[OF assms(1), of "k + 1"] assms(2) by (auto simp: gap_end_def)
  have "ws = take k ws @ ws ! k # drop (k + 1) ws"
    using assms id_take_nth_drop[of k ws] by simp
  also have "drop (k + 1) ws = slice ws (k + 1) ?z @ drop (gap_end ws k) ws"
    using append_take_drop_id[of ?z "drop (k + 1) ws"] by (simp add: slice_def gap_end_def add.commute)
  also have "slice ws (k + 1) ?z = replicate ?z 0"
    by (rule zero_run_facts(2)[OF assms(1)])
  finally show "ws = take k ws @ replicate (gap_end ws k - k) 0 @ drop (gap_end ws k) ws"
    using assms(3) by (simp add: gap_end_def)
qed

lemma print_words_gap:
  assumes "length ws = 8" "k < 8" "ws ! k = 0" "i \<le> k"
  shows "print_words ws (int k) i =
         with_colons (slice ws i (k - i)) @ (if k = 0 then ''::'' else '':'') @ joined (drop (gap_end ws k) ws)"
  using assms(4)
proof (induction "k - i" arbitrary: i)
  case 0
  then show ?case
    using assms print_words_joined[OF assms(1), of "int k" "gap_end ws k"] gap_end_facts(1)[OF assms(1-3)]
    by (subst print_words.simps) (simp add: slice_def gap_end_def)
next
  case (Suc n)
  then have i: "i < k" "i < 7" "k - i = Suc (k - Suc i)"
    using assms(2) by auto
  have "slice ws i (k - i) = ws ! i # slice ws (Suc i) (k - Suc i)"
    using i assms(1,2) by (simp add: slice_def Cons_nth_drop_Suc[symmetric])
  moreover have "print_words ws (int k) (Suc i) =
      with_colons (slice ws (Suc i) (k - Suc i)) @ (if k = 0 then ''::'' else '':'') @ joined (drop (gap_end ws k) ws)"
    using Suc i by simp
  ultimately show ?case
    using i by (subst print_words.simps) simp
qed

lemma find_gap_facts:
  assumes "length ws = 8" "find_gap ws i p l = (p', l')"
  shows "p' = p \<or> (0 \<le> p' \<and> p' < 8 \<and> ws ! nat p' = 0)"
  using assms(2)
proof (induction ws i p l rule: find_gap.induct)
  case (1 ws i p l)
  note eq = "1.prems"[unfolded find_gap.simps[of ws i p l] Let_def]
  show ?case
  proof (cases "i < 8 \<and> ws ! i = 0 \<and> 1 + zero_run ws (i + 1) > l")
    case True
    then have "p' = int i \<or> (0 \<le> p' \<and> p' < 8 \<and> ws ! nat p' = 0)"
      using "1.IH"(1)[OF _ _ refl refl] eq by simp
    then show ?thesis
      using True by auto
  next
    case False
    then show ?thesis
      using "1.IH"(2)[OF _ _ refl refl] "1.IH"(3) eq by (auto split: if_splits)
  qed
qed

lemma gap_pos_facts:
  assumes "length ws = 8"
  obtains "gap_pos ws = - 1" | k where "gap_pos ws = int k" "k < 8" "ws ! k = 0"
proof -
  obtain p l where pl: "find_gap ws 0 (- 1) 0 = (p, l)"
    by fastforce
  show ?thesis
    using find_gap_facts[OF assms pl] that(1) that(2)[of "nat p"]
    by (cases "l \<le> 1") (auto simp: gap_pos_def pl nat_less_iff)
qed

text \<open>The words and the bytes of an address.\<close>

lemma words_of_length [simp]: "length (words_of a) = 8"
  by (simp add: words_of_def)

lemma word_halves:
  fixes x y :: u8
  shows "ucast (drop_bit 8 (push_bit 8 (ucast x) + ucast y :: u16)) = x"
    "ucast ((push_bit 8 (ucast x) + ucast y :: u16) AND 0xff) = y"
proof -
  have eq: "(push_bit 8 (ucast x) + ucast y :: u16) = push_bit 8 (ucast x) OR ucast y"
    by (rule disjunctive_add) (auto simp: bit_simps dest: bit_imp_le_length)
  have ff: "(0xff :: u16) = mask 8"
    by (simp add: mask_eq_exp_minus_1)
  show "ucast (drop_bit 8 (push_bit 8 (ucast x) + ucast y :: u16)) = x"
    unfolding eq by (rule bit_word_eqI) (auto simp: bit_simps dest: bit_imp_le_length)
  show "ucast ((push_bit 8 (ucast x) + ucast y :: u16) AND 0xff) = y"
    unfolding eq ff by (rule bit_word_eqI) (auto simp: bit_simps dest: bit_imp_le_length)
qed

lemma bytes_of_words_of:
  assumes "length a = 16"
  shows "bytes_of (words_of a) = a"
proof -
  have "bytes_of (words_of a) = concat (map (\<lambda>i. [a ! (2 * i), a ! (2 * i + 1)]) [0..<8])"
    by (simp add: bytes_of_def words_of_def word_halves o_def)
  also have "\<dots> = map ((!) a) [0..<16]"
    by (simp add: upt_rec) (simp add: numeral_eq_Suc)
  also have "\<dots> = a"
    using map_nth[of a] assms by simp
  finally show ?thesis .
qed

text \<open>The address is the words before the gap, zeros, the words after it, and the four bytes if there are any.\<close>

lemma spread_words_gap:
  assumes ws: "ws = xs @ ys @ jk @ zs" "length ws = 8" and zs: "length zs = (if dot then 2 else 0)" and "jk \<noteq> []"
    and n: "n = length xs + length ys + length zs"
  shows "spread_words dot (int (length xs)) ws n =
         (1, Some (bytes_of (xs @ replicate (length jk) 0 @ ys @ zs)))"
proof -
  have len: "8 - n = length jk" "n < 8" "int n - (if dot then 2 else 0) - int (length xs) = int (length ys)"
    using assms length_greater_0_conv[of jk] by (auto simp del: length_greater_0_conv)
  have "splice_at ws (length xs + length jk) (slice ws (length xs) (length ys)) = take (length xs + length jk) ws @ ys @ zs"
    by (simp add: ws(1) splice_at_def slice_def)
  moreover have "splice_at (take (length xs + length jk) ws @ ys @ zs) (length xs) (replicate (length jk) 0) =
      xs @ replicate (length jk) 0 @ ys @ zs"
    by (simp add: ws(1) splice_at_def)
  ultimately show ?thesis
    using len by (simp add: spread_words_def)
qed

lemma spread_words_full: "spread_words dot (- 1) ws 8 = (1, Some (bytes_of ws))"
  by (simp add: spread_words_def)

lemma strchr_none: "c \<notin> set s \<Longrightarrow> c \<noteq> NUL \<Longrightarrow> strchr s c = None"
proof -
  assume "c \<notin> set s" "c \<noteq> NUL"
  then have "takeWhile (\<lambda>x. x \<noteq> c) s = s"
    by (induction s) auto
  then show ?thesis
    using \<open>c \<noteq> NUL\<close> by (simp only: strchr_def Let_def) simp
qed

lemma strchr_append: "c \<notin> set s \<Longrightarrow> strchr (s @ c # r) c = Some (length s)"
  by (auto simp: strchr_def Let_def takeWhile_append)

lemma word_text_chars: "c \<in> set (print_word w) \<Longrightarrow> EVUTIL_ISXDIGIT c"
  using word_text(3)[of w] by (simp add: list_all_iff)

lemma joined_chars: "c \<in> set (joined xs) \<Longrightarrow> EVUTIL_ISXDIGIT c \<or> c = CHR '':''"
  by (induction xs rule: joined.induct) (auto dest: word_text_chars)

lemma with_colons_chars: "c \<in> set (with_colons xs) \<Longrightarrow> EVUTIL_ISXDIGIT c \<or> c = CHR '':''"
  by (induction xs) (auto dest: word_text_chars)

lemma pton_joined:
  assumes "length ws0 = 8" "length ws = 8"
  shows "pton_in6 ws0 (joined ws) = (1, Some (bytes_of ws))"
proof -
  have "CHR ''.'' \<notin> set (joined ws)"
    using joined_chars by fastforce
  then have dot: "strchr (joined ws) CHR ''.'' = None"
    by (simp add: strchr_none NUL_def)
  have "pton_loop (joined ws) (length (joined ws)) 0 0 (- 1) ws0 0 = Some (- 1, ws, 8)"
    using pton_loop_joined[of 0 "joined ws" ws "length (joined ws)" 0 ws0 "- 1" 0] assms
    by (simp add: splice_at_def)
  then show ?thesis
    by (simp add: pton_in6_def dot pton_words_def spread_words_full)
qed

lemma pton_colon_gap:
  assumes "p < eow" "char_at src p = CHR '':''" "0 < i" "i \<le> 7"
  shows "pton_loop src eow p i (- 1) ws n = pton_loop src eow (p + 1) i (int i) ws n"
  using assms by (subst pton_loop.simps) simp

lemma pton_colons_gap:
  assumes "0 < eow" "char_at src 0 = CHR '':''" "char_at src 1 = CHR '':''"
  shows "pton_loop src eow 0 0 (- 1) ws n = pton_loop src eow 2 0 0 ws n"
  using assms by (subst pton_loop.simps) (simp add: numeral_2_eq_2)

lemma pton_loop_gap:
  assumes src: "src = with_colons xs @ (if xs = [] then ''::'' else '':'') @ r"
    and e: "length (with_colons xs) < eow" and len: "length xs \<le> 7" "length ws0 = 8"
  shows "pton_loop src eow 0 0 (- 1) ws0 n =
         pton_loop src eow (length src - length r) (length xs) (int (length xs)) (splice_at ws0 0 xs) (n + length xs)"
proof (cases "xs = []")
  case True
  then show ?thesis
    using e by (subst pton_colons_gap) (simp_all add: src char_at_def splice_at_def)
next
  case False
  let ?p = "length (with_colons xs)"
  have "pton_loop src eow 0 0 (- 1) ws0 n = pton_loop src eow ?p (length xs) (- 1) (splice_at ws0 0 xs) (n + length xs)"
    using pton_loop_colons[of 0 src xs "(if xs = [] then ''::'' else '':'') @ r" eow 0 ws0 "- 1" n] e len
    by (simp add: src)
  also have "\<dots> = pton_loop src eow (?p + 1) (length xs) (int (length xs)) (splice_at ws0 0 xs) (n + length xs)"
    using char_at_append[of "with_colons xs" "'':'' @ r" 0] False e len
    by (intro pton_colon_gap) (simp_all add: src char_at_0)
  finally show ?thesis
    using False by (simp add: src)
qed

lemma pton_gap:
  assumes "length ws0 = 8" "length xs + length ys < 8"
  shows "pton_in6 ws0 (with_colons xs @ (if xs = [] then ''::'' else '':'') @ joined ys) =
         (1, Some (bytes_of (xs @ replicate (8 - length xs - length ys) 0 @ ys)))"
    (is "pton_in6 ws0 ?src = _")
proof -
  have "CHR ''.'' \<notin> set ?src"
    using joined_chars[of "CHR ''.''" ys] with_colons_chars[of "CHR ''.''" xs] by auto
  then have dot: "strchr ?src CHR ''.'' = None"
    by (simp add: strchr_none NUL_def)
  let ?jk = "drop (length xs + length ys) ws0"
  have "pton_loop ?src (length ?src) 0 0 (- 1) ws0 0 =
      Some (int (length xs), splice_at (splice_at ws0 0 xs) (length xs) ys, length xs + length ys)"
    using assms pton_loop_gap[of ?src xs "joined ys" "length ?src" ws0 0]
    by (simp add: pton_loop_joined)
  moreover have "splice_at (splice_at ws0 0 xs) (length xs) ys = xs @ ys @ ?jk @ []"
    using assms by (simp add: splice_at_def add.commute)
  moreover have "spread_words False (int (length xs)) (xs @ ys @ ?jk @ []) (length xs + length ys) =
      (1, Some (bytes_of (xs @ replicate (length ?jk) 0 @ ys @ [])))"
    by (rule spread_words_gap) (use assms in auto)
  ultimately show ?thesis
    using assms(1) by (simp add: pton_in6_def dot pton_words_def diff_diff_left)
qed

text \<open>Four bytes at the end.\<close>

lemma byte_code_less: "unat (x :: u8) < 256"
  using unsigned_less[of x] by simp

lemma join_bytes: "word_of_int (push_bit 8 (uint x) OR uint y) = (push_bit 8 (ucast x) + ucast y :: u16)" for x y :: u8
proof -
  have "(push_bit 8 (ucast x) + ucast y :: u16) = push_bit 8 (ucast x) OR ucast y"
    by (rule disjunctive_add) (auto simp: bit_simps dest: bit_imp_le_length)
  then show ?thesis
    by (simp only:) (rule bit_word_eqI, auto simp: bit_simps)
qed

lemma sscanf_bytes:
  "sscanf_quad 4 (print_quad (unat x1) (unat x2) (unat x3) (unat x4)) = [uint x1, uint x2, uint x3, uint x4]"
  for x1 x2 x3 x4 :: u8
proof -
  have "sscanf_quad 4 (print_quad (unat x1) (unat x2) (unat x3) (unat x4)) =
      [int (unat x1), int (unat x2), int (unat x3), int (unat x4)]"
    unfolding print_quad_def
    by (rule sscanf_quad_print) (use byte_code_less in \<open>simp_all add: less_trans[OF byte_code_less]\<close>)
  then show ?thesis
    by simp
qed

lemma byte_range_uint [simp]: "byte_range (uint (x :: u8))"
proof -
  have "int (unat x) \<le> 255"
    using byte_code_less[of x] by linarith
  then show ?thesis
    by (simp add: byte_range_def)
qed

lemma quad_dot:
  assumes "pre = [] \<or> last pre = CHR '':''" "CHR ''.'' \<notin> set pre"
  shows "strchr (pre @ print_quad a b c d) CHR ''.'' = Some (length pre + length (print_nat 10 a))"
    "takeWhile EVUTIL_ISDIGIT (rev (take (length pre + length (print_nat 10 a)) (pre @ print_quad a b c d))) = rev (print_nat 10 a)"
proof -
  have digits: "list_all EVUTIL_ISDIGIT (print_nat 10 a)"
    by (simp add: print_nat_facts)
  then have "CHR ''.'' \<notin> set (pre @ print_nat 10 a)"
    using assms(2) by (auto simp: list_all_iff)
  from strchr_append[OF this]
  show "strchr (pre @ print_quad a b c d) CHR ''.'' = Some (length pre + length (print_nat 10 a))"
    by (simp add: print_quad_def)
  have "stops EVUTIL_ISDIGIT (rev pre)"
    using assms(1) by (auto simp: stops_def hd_rev)
  then show "takeWhile EVUTIL_ISDIGIT (rev (take (length pre + length (print_nat 10 a)) (pre @ print_quad a b c d))) = rev (print_nat 10 a)"
    using span_stops(1)[of EVUTIL_ISDIGIT "rev (print_nat 10 a)" "rev pre"] digits
    by (simp add: print_quad_def list_all_iff)
qed

lemma pton_quad:
  fixes x1 x2 x3 x4 :: u8
  assumes "length ws0 = 8" "length ys \<le> 5"
  shows "pton_in6 ws0 (''::'' @ with_colons ys @ print_quad (unat x1) (unat x2) (unat x3) (unat x4)) =
         (1, Some (bytes_of (replicate (6 - length ys) 0 @ ys @
            [push_bit 8 (ucast x1) + ucast x2, push_bit 8 (ucast x3) + ucast x4])))"
    (is "pton_in6 ws0 (''::'' @ with_colons ys @ ?q) = _")
proof -
  let ?pre = "''::'' @ with_colons ys" and ?zs = "[push_bit 8 (ucast x1) + ucast x2, push_bit 8 (ucast x3) + ucast x4] :: u16 list"
  let ?src = "?pre @ ?q" and ?ws = "ws0[6 := ?zs ! 0, 7 := ?zs ! 1]"
  have "last ?pre = CHR '':''"
    by (induction ys) (auto simp: last_append)
  moreover have nodot: "CHR ''.'' \<notin> set ?pre"
    using with_colons_chars[of "CHR ''.''" ys] by auto
  ultimately have dot: "strchr ?src CHR ''.'' = Some (length ?pre + length (print_nat 10 (unat x1)))"
    and eow: "takeWhile EVUTIL_ISDIGIT (rev (take (length ?pre + length (print_nat 10 (unat x1))) ?src)) = rev (print_nat 10 (unat x1))"
    using quad_dot[of ?pre "unat x1" "unat x2" "unat x3" "unat x4"] by blast+
  have "pton_loop ?src (length ?pre) 0 0 (- 1) ?ws 2 = pton_loop ?src (length ?pre) 2 0 0 ?ws 2"
    by (rule pton_colons_gap) (simp_all add: char_at_def)
  also have "\<dots> = pton_loop ?src (length ?pre) (2 + length (with_colons ys)) (0 + length ys) 0 (splice_at ?ws 0 ys) (2 + length ys)"
    using assms by (intro pton_loop_colons[where r = ?q]) auto
  finally have loop: "pton_loop ?src (length ?pre) 0 0 (- 1) ?ws 2 = Some (0, splice_at ?ws 0 ys, 2 + length ys)"
    by (simp add: pton_end)
  have split8: "splice_at ?ws 0 ys = [] @ ys @ drop (length ys) (take 6 ws0) @ ?zs"
  proof -
    have "?ws = take 6 ws0 @ ?zs"
      using assms(1) by (auto simp: list_eq_iff_nth_eq nth_append nth_list_update less_Suc_eq_le nth_Cons' intro: le_antisym)
    then show ?thesis
      using assms by (simp add: splice_at_def)
  qed
  have spread: "spread_words True (int (length ([] :: u16 list))) ([] @ ys @ drop (length ys) (take 6 ws0) @ ?zs) (2 + length ys) =
      (1, Some (bytes_of ([] @ replicate (length (drop (length ys) (take 6 ws0))) 0 @ ys @ ?zs)))"
    by (rule spread_words_gap) (use assms in auto)
  define src where "src = ?src"
  define n where "n = length ?pre"
  have "drop n src = ?q" "n \<noteq> 0"
    by (simp_all add: src_def n_def)
  then have "pton_in6 ws0 src = pton_words True src n ?ws 2"
    using dot eow unfolding src_def[symmetric] n_def[symmetric]
    by (simp add: pton_in6_def sscanf_bytes join_bytes)
  moreover have "pton_words True src n ?ws 2 = spread_words True 0 (splice_at ?ws 0 ys) (2 + length ys)"
    using loop unfolding src_def[symmetric] n_def[symmetric] by (simp add: pton_words_def)
  ultimately show ?thesis
    using spread assms unfolding split8 by (simp add: src_def)
qed

lemma words_of_split:
  "words_of a = [words_of a ! 0, words_of a ! 1, words_of a ! 2, words_of a ! 3, words_of a ! 4, words_of a ! 5,
     push_bit 8 (ucast (a ! 12)) + ucast (a ! 13), push_bit 8 (ucast (a ! 14)) + ucast (a ! 15)]"
  by (simp add: words_of_def upt_rec)

lemma print_in6_cases:
  obtains (quad) ys where "length ys \<le> 5" "print_in6 a = ''::'' @ with_colons ys @
        print_quad (unat (a ! 12)) (unat (a ! 13)) (unat (a ! 14)) (unat (a ! 15))"
      "words_of a = replicate (6 - length ys) 0 @ ys @
        [push_bit 8 (ucast (a ! 12)) + ucast (a ! 13), push_bit 8 (ucast (a ! 14)) + ucast (a ! 15)]"
  | (full) "print_in6 a = joined (words_of a)"
  | (gap) xs ys where "length xs + length ys < 8"
      "print_in6 a = with_colons xs @ (if xs = [] then ''::'' else '':'') @ joined ys"
      "words_of a = xs @ replicate (8 - length xs - length ys) 0 @ ys"
proof -
  let ?ws = "words_of a"
  let ?four = "?ws ! 0 = 0 \<and> ?ws ! 1 = 0 \<and> ?ws ! 2 = 0 \<and> ?ws ! 3 = 0 \<and> ?ws ! 4 = 0 \<and>
         ((?ws ! 5 = 0 \<and> ?ws ! 6 \<noteq> 0 \<and> ?ws ! 7 \<noteq> 0) \<or> ?ws ! 5 = 0xffff)"
  show ?thesis
  proof (cases ?four)
    case True
    then show ?thesis
      using quad[of "if ?ws ! 5 = 0 then [] else [?ws ! 5]"] words_of_split[of a]
      by (auto simp: print_in6_def Let_def numeral_eq_Suc split: if_splits)
  next
    case False
    then have p: "print_in6 a = print_words ?ws (gap_pos ?ws) 0"
      by (auto simp: print_in6_def Let_def)
    show ?thesis
    proof (rule gap_pos_facts[OF words_of_length[of a]])
      assume "gap_pos ?ws = - 1"
      then show ?thesis
        using full p print_words_joined[of ?ws "- 1" 0] by simp
    next
      fix k assume k: "gap_pos ?ws = int k" "k < 8" "?ws ! k = 0"
      note e = gap_end_facts[OF words_of_length[of a] k(2,3)]
      have "?ws \<noteq> []"
        using words_of_length[of a] by fastforce
      show ?thesis
      proof (rule gap[of "take k ?ws" "drop (gap_end ?ws k) ?ws"])
        show "length (take k ?ws) + length (drop (gap_end ?ws k) ?ws) < 8"
          using e k by simp
        show "print_in6 a = with_colons (take k ?ws) @ (if take k ?ws = [] then ''::'' else '':'') @
            joined (drop (gap_end ?ws k) ?ws)"
          using p k \<open>?ws \<noteq> []\<close> print_words_gap[OF words_of_length[of a] k(2,3), of 0] by (simp add: slice_def)
        show "?ws = take k ?ws @ replicate (8 - length (take k ?ws) - length (drop (gap_end ?ws k) ?ws)) 0 @
            drop (gap_end ?ws k) ?ws"
          using e k by simp
      qed
    qed
  qed
qed

lemma pton_print_in6:
  assumes "length ws0 = 8" "length a = 16"
  shows "pton_in6 ws0 (print_in6 a) = (1, Some a)"
proof -
  note b = bytes_of_words_of[OF assms(2)]
  show ?thesis
  proof (cases a rule: print_in6_cases)
    case (quad ys)
    then show ?thesis
      using b pton_quad[OF assms(1) quad(1)] by (simp only:)
  next
    case full
    then show ?thesis
      using b pton_joined[OF assms(1) words_of_length] by (simp only:)
  next
    case (gap xs ys)
    then show ?thesis
      using b pton_gap[OF assms(1) gap(1)] by (simp only:)
  qed
qed

text \<open>The text of an IPv6 address fits the buffer of 64 characters that the code prints it to.\<close>

lemma length_with_colons: "length (with_colons xs) \<le> 5 * length xs"
proof (induction xs)
  case (Cons x xs)
  then show ?case
    using word_text(2)[of x] by simp
qed simp

lemma length_joined: "length (joined xs) \<le> 5 * length xs - 1"
proof (induction xs rule: joined.induct)
  case (3 x y xs)
  then show ?case
    using word_text(2)[of x] by simp
qed (use word_text(2) in \<open>simp_all add: le_trans\<close>)

lemma length_print_byte: "length (print_nat 10 (unat (x :: u8))) \<le> 3"
  using print_nat_length[of 10 "unat x" 3] byte_code_less[of x] by simp

lemma length_print_quad:
  "length (print_quad (unat x1) (unat x2) (unat x3) (unat x4)) \<le> 15" for x1 x2 x3 x4 :: u8
  using length_print_byte[of x1] length_print_byte[of x2] length_print_byte[of x3] length_print_byte[of x4]
  by (simp add: print_quad_def)

lemma length_print_in6: "length (print_in6 a) \<le> 42"
proof (cases a rule: print_in6_cases)
  case (quad ys)
  then show ?thesis
    using length_with_colons[of ys] length_print_quad[of "a ! 12" "a ! 13" "a ! 14" "a ! 15"] by simp
next
  case full
  then show ?thesis
    using length_joined[of "words_of a"] by simp
next
  case (gap xs ys)
  then show ?thesis
    using length_with_colons[of xs] length_joined[of ys] by auto
qed

section \<open>Reading what was printed: IPv4\<close>

lemma ntohl_bit:
  "bit (ntohl x) n \<longleftrightarrow> n < 32 \<and> bit x (if n < 8 then n + 24 else if n < 16 then n + 8 else if n < 24 then n - 8 else n - 24)"
proof -
  have m: "(0xff :: u32) = mask 8" "(0xff00 :: u32) = push_bit 8 (mask 8)"
    by (simp_all add: mask_eq_exp_minus_1 push_bit_eq_mult)
  show ?thesis
    unfolding ntohl_def m by (auto simp: bit_simps add.commute dest: bit_imp_le_length)
qed

lemma ntohl_ntohl [simp]: "ntohl (ntohl x) = x"
  by (rule bit_word_eqI) (auto simp: ntohl_bit)

lemma ntohs_ntohs [simp]: "ntohs (ntohs x) = x"
  by (rule bit_word_eqI) (auto simp: ntohs_def bit_simps dest: bit_imp_le_length)

lemma octet_bit: "bit (int (octet a k)) n \<longleftrightarrow> n < 8 \<and> bit a (k + n)"
proof -
  have "(0xff :: u32) = mask 8"
    by (simp add: mask_eq_exp_minus_1)
  then have "octet a k = unat (ucast (drop_bit k a AND mask 8) :: u8)"
    by (simp only: octet_def)
  then show ?thesis
    by (auto simp: bit_simps)
qed

lemma octets_join:
  "word_of_int (push_bit 24 (int (octet a 24)) OR push_bit 16 (int (octet a 16)) OR push_bit 8 (int (octet a 8)) OR
     int (octet a 0)) = a"
proof (rule bit_word_eqI)
  fix n assume "n < LENGTH(32)"
  then show "bit (word_of_int (push_bit 24 (int (octet a 24)) OR push_bit 16 (int (octet a 16)) OR
      push_bit 8 (int (octet a 8)) OR int (octet a 0)) :: u32) n = bit a n"
    by (cases "16 \<le> n"; cases "24 \<le> n") (auto simp: bit_word_of_int_iff bit_or_iff bit_push_bit_iff_int octet_bit)
qed

text \<open>Addresses, and their families.\<close>

fun valid_addr :: "inet_addr \<Rightarrow> bool" where
  "valid_addr (In_addr a) = True"
| "valid_addr (In6_addr a) = (length a = 16)"
| "valid_addr Other_addr = False"

fun family_of :: "inet_addr \<Rightarrow> inet_family" where
  "family_of (In_addr a) = AF_INET"
| "family_of (In6_addr a) = AF_INET6"
| "family_of Other_addr = AF_OTHER"

fun addr_text :: "inet_addr \<Rightarrow> string" where
  "addr_text (In_addr s_addr) = (let a = ntohl s_addr in print_quad (octet a 24) (octet a 16) (octet a 8) (octet a 0))"
| "addr_text (In6_addr a) = print_in6 a"
| "addr_text Other_addr = []"

lemma pton_addr_text:
  assumes "valid_addr a" "length words0 = 8"
  shows "evutil_inet_pton words0 (family_of a) (addr_text a) = (1, Some a)"
proof (cases a)
  case (In_addr s)
  have "sscanf_quad 4 (addr_text a) = map (\<lambda>k. int (octet (ntohl s) k)) [24, 16, 8, 0]"
    by (simp add: In_addr octet_def sscanf_bytes Let_def)
  moreover have "byte_range (int (octet (ntohl s) k))" for k
    by (simp add: octet_def)
  ultimately show ?thesis
    using octets_join[of "ntohl s"] by (simp add: In_addr evutil_inet_pton_def)
next
  case (In6_addr b)
  then show ?thesis
    using assms by (simp add: evutil_inet_pton_def pton_print_in6)
qed (use assms in simp)

lemma length_addr_text: "valid_addr a \<Longrightarrow> length (addr_text a) \<le> 42"
  using length_print_in6 length_print_quad by (cases a) (auto simp: octet_def Let_def intro: le_trans[OF length_print_quad])

lemma ntop_addr_text:
  assumes "valid_addr a" "length (addr_text a) < len"
  shows "evutil_inet_ntop a len = Some (addr_text a)"
  using assms by (cases a) (auto simp: evutil_inet_ntop_def Let_def)

text \<open>
  C21: An address that is printed into a buffer of at least 46 characters (\<^verbatim>\<open>INET6_ADDRSTRLEN\<close>) is printed in full,
  with fewer than 46 characters, and reading the text gives the address again, whatever the uninitialised array of
  the reader holds.
\<close>

theorem evutil_inet_roundtrip:
  assumes "valid_addr a" "46 \<le> len" "length words0 = 8"
  shows "\<exists>s. evutil_inet_ntop a len = Some s \<and> length s < 46 \<and>
           evutil_inet_pton words0 (family_of a) s = (1, Some a)"
  using ntop_addr_text[of a len] pton_addr_text[of a words0] length_addr_text[of a] assms
  by (intro exI[of _ "addr_text a"]) simp

theorem evutil_inet_roundtrip_witness:
  "\<exists>s. evutil_inet_ntop (In6_addr (0xfe # 0x80 # replicate 12 0 @ [2, 1])) 46 = Some s \<and> length s < 46 \<and>
     evutil_inet_pton (replicate 8 0) (family_of (In6_addr (0xfe # 0x80 # replicate 12 0 @ [2, 1]))) s =
       (1, Some (In6_addr (0xfe # 0x80 # replicate 12 0 @ [2, 1])))"
  by (rule evutil_inet_roundtrip) simp_all

text \<open>A buffer with as many characters as the text gets a text without its last character, and no error.\<close>

lemma evutil_inet_ntop_truncates:
  "evutil_inet_ntop (In6_addr a) (length (print_in6 a)) = Some (butlast (print_in6 a))"
  by (simp add: evutil_inet_ntop_def butlast_conv_take Let_def)

section \<open>Socket addresses\<close>

text \<open>The characters of the text of an address.\<close>

lemma print_quad_chars: "c \<in> set (print_quad a b d e) \<Longrightarrow> EVUTIL_ISDIGIT c \<or> c = CHR ''.''"
  using print_nat_facts(4)[of 10] by (auto simp: print_quad_def list_all_iff)

lemma print_in6_chars: "c \<in> set (print_in6 a) \<Longrightarrow> EVUTIL_ISXDIGIT c \<or> c = CHR '':'' \<or> c = CHR ''.''"
  by (cases a rule: print_in6_cases)
    (auto split: if_splits dest!: joined_chars with_colons_chars print_quad_chars intro: isdigit_isxdigit)

lemma sockaddr_parts_in:
  "sockaddr_parts (addr_text (In_addr a) @ CHR '':'' # port) =
     (if CHR '':'' \<in> set port then Some (addr_text (In_addr a) @ CHR '':'' # port, None, True)
      else Some (addr_text (In_addr a), Some port, False))"
proof -
  let ?t = "addr_text (In_addr a)"
  have no: "CHR '':'' \<notin> set ?t" "CHR ''['' \<notin> set ?t"
    using print_quad_chars by (fastforce simp: Let_def class_iffs)+
  then have "char_at (?t @ CHR '':'' # port) 0 \<noteq> CHR ''[''"
    by (cases ?t) (auto simp: char_at_def)
  moreover have "strchr port CHR '':'' = None \<longleftrightarrow> CHR '':'' \<notin> set port"
    using strchr_none[of "CHR '':''" port] split_list_first[of "CHR '':''" port] strchr_append[of "CHR '':''"]
    by (auto simp: NUL_def)
  ultimately show ?thesis
    using no(1) length_addr_text[of "In_addr a"]
    by (simp add: sockaddr_parts_def strchr_append)
qed

lemma sockaddr_parts_in6:
  assumes "valid_addr (In6_addr a)"
  shows "sockaddr_parts (CHR ''['' # addr_text (In6_addr a) @ '']:'' @ port) = Some (addr_text (In6_addr a), Some port, True)"
proof -
  let ?t = "addr_text (In6_addr a)"
  have "CHR '']'' \<notin> set (CHR ''['' # ?t)"
    using print_in6_chars[of "CHR '']''" a] by (auto simp: class_iffs)
  from strchr_append[OF this, of "'':'' @ port"]
  have "strchr (CHR ''['' # ?t @ '']:'' @ port) CHR '']'' = Some (Suc (length ?t))"
    by simp
  moreover have "char_at (CHR ''['' # ?t @ '']:'' @ port) (Suc (Suc (length ?t))) = CHR '':''"
    by (simp add: char_at_def nth_append)
  ultimately show ?thesis
    using length_addr_text[OF assms] by (simp add: sockaddr_parts_def char_at_0 Let_def)
qed

text \<open>The addresses that can be written with a port: the port is not 0.\<close>

fun printable_sockaddr :: "sockaddr \<Rightarrow> bool" where
  "printable_sockaddr (Sockaddr_in p a) = (p \<noteq> 0)"
| "printable_sockaddr (Sockaddr_in6 p a) = (p \<noteq> 0 \<and> length a = 16)"
| "printable_sockaddr (Sockaddr_other f) = False"

lemma ntohs_0_iff [simp]: "ntohs p = 0 \<longleftrightarrow> p = 0"
proof
  assume "ntohs p = 0"
  then have "ntohs (ntohs p) = ntohs 0"
    by (rule arg_cong)
  then show "p = 0"
    unfolding ntohs_ntohs by (simp add: ntohs_def)
qed (simp add: ntohs_def)

lemma parse_port_print:
  assumes "p \<noteq> 0"
  shows "parse_port_part (Some (print_nat 10 (unat (ntohs p)))) = Some (uint (ntohs p))"
proof -
  have "atoi (print_nat 10 (unat (ntohs p))) = uint (ntohs p)"
    using atoi_print[of "unat (ntohs p)" "[]"] word_code_less[of "ntohs p"] by (simp add: stops_def)
  moreover have "0 < uint (ntohs p)"
    using assms ntohs_0_iff[of p] uint_0_iff[of "ntohs p"] uint_ge_0[of "ntohs p"] by linarith
  moreover have "uint (ntohs p) \<le> 65535"
    using uint_bounded[of "ntohs p"] by simp
  ultimately show ?thesis
    by (simp add: parse_port_part_def)
qed

text \<open>
  A socket address with a port, written by \<open>evutil_format_sockaddr_port\<close> into a buffer of 64 characters or
  more, is read back by \<open>evutil_parse_sockaddr_port\<close>, which also reports the length of the address.
\<close>

theorem evutil_sockaddr_port_roundtrip:
  assumes "printable_sockaddr sa" "64 \<le> outlen" "28 \<le> len" "length words0 = 8"
  shows "evutil_parse_sockaddr_port words0 (evutil_format_sockaddr_port sa outlen) len =
           (0, Some (sa, case sa of Sockaddr_in p a \<Rightarrow> 16 | _ \<Rightarrow> 28))"
proof (cases sa)
  case (Sockaddr_in p a)
  let ?port = "print_nat 10 (unat (ntohs p))"
  have no: "CHR '':'' \<notin> set ?port"
    using print_nat_facts(4)[of 10 "unat (ntohs p)"] by (auto simp: list_all_iff)
  have "length ?port \<le> 5" "length (addr_text (In_addr a)) \<le> 42"
    using print_nat_length[of 10 "unat (ntohs p)" 5] word_code_less[of "ntohs p"] length_addr_text[of "In_addr a"] by simp_all
  then have "evutil_format_sockaddr_port sa outlen = addr_text (In_addr a) @ CHR '':'' # ?port"
    using Sockaddr_in assms(2) by (simp add: evutil_format_sockaddr_port_def ntop_addr_text)
  then show ?thesis
    using Sockaddr_in no assms pton_addr_text[of "In_addr a" words0] parse_port_print[of p]
    by (simp add: evutil_parse_sockaddr_port_def sockaddr_parts_in sizeof_sockaddr_in_def del: addr_text.simps)
next
  case (Sockaddr_in6 p a)
  let ?port = "print_nat 10 (unat (ntohs p))"
  have "length ?port \<le> 5" "length (addr_text (In6_addr a)) \<le> 42"
    using print_nat_length[of 10 "unat (ntohs p)" 5] word_code_less[of "ntohs p"] length_addr_text[of "In6_addr a"]
      assms(1) Sockaddr_in6 by simp_all
  then have "evutil_format_sockaddr_port sa outlen = CHR ''['' # addr_text (In6_addr a) @ '']:'' @ ?port"
    using Sockaddr_in6 assms(1,2) ntop_addr_text[of "In6_addr a" 128] by (simp add: evutil_format_sockaddr_port_def)
  then show ?thesis
    using Sockaddr_in6 assms pton_addr_text[of "In6_addr a" words0] parse_port_print[of p] sockaddr_parts_in6[of a ?port]
    by (simp add: evutil_parse_sockaddr_port_def sizeof_sockaddr_in6_def)
qed (use assms in simp)

text \<open>Comparing socket addresses.\<close>

lemma memcmp_0_iff: "length xs = length ys \<Longrightarrow> memcmp xs ys = 0 \<longleftrightarrow> xs = ys"
  by (induction xs ys rule: memcmp.induct) (auto dest: unsigned_word_eqI)

lemma memcmp_swap: "memcmp ys xs = - memcmp xs ys"
  by (induction xs ys rule: memcmp.induct) auto

lemma evutil_sockaddr_cmp_swap:
  assumes "\<nexists>f. sa1 = Sockaddr_other f" "\<nexists>f. sa2 = Sockaddr_other f"
  shows "evutil_sockaddr_cmp sa2 sa1 include_port = - evutil_sockaddr_cmp sa1 sa2 include_port"
  using assms memcmp_swap[of "take 16 (sin6_addr sa2)" "take 16 (sin6_addr sa1)"]
  by (cases sa1; cases sa2; simp add: evutil_sockaddr_cmp_def Let_def AF_INET_number_def AF_INET6_number_def; auto)

lemma evutil_sockaddr_cmp_0_iff:
  assumes "printable_sockaddr sa1" "printable_sockaddr sa2"
  shows "evutil_sockaddr_cmp sa1 sa2 True = 0 \<longleftrightarrow> sa1 = sa2"
  using assms memcmp_0_iff
  by (cases sa1; cases sa2) (auto simp: evutil_sockaddr_cmp_def Let_def AF_INET_number_def AF_INET6_number_def dest: unsigned_word_eqI)

end
