(* ===== verification/Evbuffer_Chain.thy ===== *)
theory Evbuffer_Chain
  imports Prelude "HOL-Library.Monad_Syntax"
begin

text \<open>
  A single link of an evbuffer: \<^verbatim>\<open>struct evbuffer_chain\<close> of \<^verbatim>\<open>evbuffer-internal.h\<close> and the
  chain helpers of \<^verbatim>\<open>buffer.c\<close>. A chain carries the block of memory its \<open>buffer\<close> pointer
  points to (\<open>ch_mem\<close>, \<open>buffer_len\<close> bytes); the stored data are the \<open>ch_off\<close> bytes that
  start at \<open>misalign\<close>. Sizes are natural numbers; the places where a caller's size enters
  an unsigned computation (\<open>evbuffer_chain_new\<close>) keep the 64-bit wrap-around.

  A C function that may fail to return normally is a function into \<open>option\<close>: \<open>None\<close> is a
  loop that never ends, a failed \<open>EVUTIL_ASSERT\<close> (which aborts the process) or a NULL
  pointer that is followed. A NULL result is a value, written as an inner option or as the
  C result code.
\<close>

section \<open>Chains and their flags\<close>

definition EVBUFFER_MMAP :: u32 where "EVBUFFER_MMAP = 0x0001"
definition EVBUFFER_SENDFILE :: u32 where "EVBUFFER_SENDFILE = 0x0002"
definition EVBUFFER_REFERENCE :: u32 where "EVBUFFER_REFERENCE = 0x0004"
definition EVBUFFER_IMMUTABLE :: u32 where "EVBUFFER_IMMUTABLE = 0x0008"
definition EVBUFFER_MEM_PINNED_R :: u32 where "EVBUFFER_MEM_PINNED_R = 0x0010"
definition EVBUFFER_MEM_PINNED_W :: u32 where "EVBUFFER_MEM_PINNED_W = 0x0020"
definition EVBUFFER_MEM_PINNED_ANY :: u32 where
  "EVBUFFER_MEM_PINNED_ANY = EVBUFFER_MEM_PINNED_R OR EVBUFFER_MEM_PINNED_W"
definition EVBUFFER_DANGLING :: u32 where "EVBUFFER_DANGLING = 0x0040"

lemmas chain_flag_defs =
  EVBUFFER_MMAP_def EVBUFFER_SENDFILE_def EVBUFFER_REFERENCE_def EVBUFFER_IMMUTABLE_def
  EVBUFFER_MEM_PINNED_R_def EVBUFFER_MEM_PINNED_W_def EVBUFFER_MEM_PINNED_ANY_def
  EVBUFFER_DANGLING_def

text \<open>
  \<open>ch_cleanup\<close> is the cleanup function of a reference chain (if one was given) and \<open>ch_fd\<close>
  the descriptor of a mapped file: the extra structs stored behind the chain header.
\<close>

record evbuffer_chain =
  ch_buffer :: addr
  buffer_len :: nat
  misalign :: nat
  ch_off :: nat
  ch_flags :: u32
  ch_mem :: "byte list"
  ch_cleanup :: "nat option"
  ch_fd :: int

definition ch_has :: "u32 \<Rightarrow> evbuffer_chain \<Rightarrow> bool" where
  "ch_has f c \<longleftrightarrow> ch_flags c AND f \<noteq> 0"

definition CHAIN_SPACE_PTR :: "evbuffer_chain \<Rightarrow> addr" where
  "CHAIN_SPACE_PTR c = ch_buffer c + misalign c + ch_off c"

definition CHAIN_SPACE_LEN :: "evbuffer_chain \<Rightarrow> nat" where
  "CHAIN_SPACE_LEN c =
     (if ch_has EVBUFFER_IMMUTABLE c then 0 else buffer_len c - (misalign c + ch_off c))"

definition CHAIN_PINNED :: "evbuffer_chain \<Rightarrow> bool" where
  "CHAIN_PINNED c = ch_has EVBUFFER_MEM_PINNED_ANY c"

definition CHAIN_PINNED_R :: "evbuffer_chain \<Rightarrow> bool" where
  "CHAIN_PINNED_R c = ch_has EVBUFFER_MEM_PINNED_R c"

text \<open>The bytes a chain stores.\<close>

definition chain_data :: "evbuffer_chain \<Rightarrow> byte list" where
  "chain_data c = slice (ch_mem c) (misalign c) (ch_off c)"

section \<open>Allocation\<close>

text \<open>\<open>sizeof(struct evbuffer_chain)\<close> and \<open>MIN_BUFFER_SIZE\<close> where pointers have 8 bytes.\<close>

definition EVBUFFER_CHAIN_SIZE :: nat where "EVBUFFER_CHAIN_SIZE = 48"
definition MIN_BUFFER_SIZE :: nat where "MIN_BUFFER_SIZE = 1024"

text \<open>
  The loop \<^verbatim>\<open>while (to_alloc < size) to_alloc <<= 1;\<close> over 64-bit sizes. Once \<open>to_alloc\<close>
  has been shifted out to 0 it stays 0, and the loop never ends.
\<close>

partial_function (option) chain_alloc_size :: "nat \<Rightarrow> nat \<Rightarrow> nat option" where
  "chain_alloc_size to_alloc need =
     (if to_alloc < need then chain_alloc_size ((to_alloc * 2) mod 2 ^ 64) need else Some to_alloc)"

declare chain_alloc_size.simps [code]

definition evbuffer_chain_new :: "allocator \<Rightarrow> nat \<Rightarrow> evbuffer_chain option option" where
  "evbuffer_chain_new malloc sz =
     (let need = (sz + EVBUFFER_CHAIN_SIZE) mod 2 ^ 64 in
      do {
        to_alloc \<leftarrow> chain_alloc_size MIN_BUFFER_SIZE need;
        Some (case malloc to_alloc of
                None \<Rightarrow> None
              | Some adr \<Rightarrow>
                  Some \<lparr>ch_buffer = adr + EVBUFFER_CHAIN_SIZE,
                        buffer_len = to_alloc - EVBUFFER_CHAIN_SIZE, misalign = 0, ch_off = 0,
                        ch_flags = 0, ch_mem = replicate (to_alloc - EVBUFFER_CHAIN_SIZE) 0,
                        ch_cleanup = None, ch_fd = 0\<rparr>)
      })"

text \<open>Requests up to this bound are served; beyond it the size computation goes wrong.\<close>

definition CHAIN_MAX_REQUEST :: nat where "CHAIN_MAX_REQUEST = 2 ^ 63 - EVBUFFER_CHAIN_SIZE"

text \<open>
  What freeing a chain makes happen outside the buffer: the cleanup call of a reference
  chain, the unmapping and closing of a file. A pinned chain is only marked dangling.
\<close>

datatype chain_event = Cleanup nat addr nat | Munmap addr nat | Close int

definition evbuffer_chain_free :: "evbuffer_chain \<Rightarrow> chain_event list" where
  "evbuffer_chain_free c =
     (if CHAIN_PINNED c then []
      else if ch_has (EVBUFFER_MMAP OR EVBUFFER_SENDFILE OR EVBUFFER_REFERENCE) c
      then (if ch_has EVBUFFER_REFERENCE c
            then (case ch_cleanup c of None \<Rightarrow> [] | Some fn \<Rightarrow> [Cleanup fn (ch_buffer c) (buffer_len c)])
            else [])
         @ (if ch_has EVBUFFER_MMAP c then [Munmap (ch_buffer c) (buffer_len c), Close (ch_fd c)] else [])
         @ (if ch_has EVBUFFER_SENDFILE c then [Close (ch_fd c)] else [])
      else [])"

definition evbuffer_free_all_chains :: "evbuffer_chain list \<Rightarrow> chain_event list" where
  "evbuffer_free_all_chains cs = concat (map evbuffer_chain_free cs)"

fun evbuffer_chains_all_empty :: "evbuffer_chain list \<Rightarrow> bool" where
  "evbuffer_chains_all_empty [] = True"
| "evbuffer_chains_all_empty (c # cs) = (if ch_off c \<noteq> 0 then False else evbuffer_chains_all_empty cs)"

definition evbuffer_chain_pin :: "evbuffer_chain \<Rightarrow> u32 \<Rightarrow> evbuffer_chain option" where
  "evbuffer_chain_pin c flag =
     (if ch_flags c AND flag = 0 then Some (c\<lparr>ch_flags := ch_flags c OR flag\<rparr>) else None)"

definition evbuffer_chain_unpin ::
  "evbuffer_chain \<Rightarrow> u32 \<Rightarrow> (evbuffer_chain \<times> chain_event list) option" where
  "evbuffer_chain_unpin c flag =
     (if ch_flags c AND flag \<noteq> 0
      then (let c' = c\<lparr>ch_flags := ch_flags c AND NOT flag\<rparr>
            in Some (c', if ch_has EVBUFFER_DANGLING c' then evbuffer_chain_free c' else []))
      else None)"

section \<open>Writing into a chain\<close>

text \<open>\<open>memcpy\<close> of \<open>bs\<close> to position \<open>i\<close> of the chain's memory.\<close>

definition chain_write :: "evbuffer_chain \<Rightarrow> nat \<Rightarrow> byte list \<Rightarrow> evbuffer_chain" where
  "chain_write c i bs = c\<lparr>ch_mem := splice_at (ch_mem c) i bs\<rparr>"

definition evbuffer_chain_align :: "evbuffer_chain \<Rightarrow> evbuffer_chain option" where
  "evbuffer_chain_align c =
     (if ch_has EVBUFFER_IMMUTABLE c \<or> ch_has EVBUFFER_MEM_PINNED_ANY c then None
      else Some ((chain_write c 0 (chain_data c))\<lparr>misalign := 0\<rparr>))"

definition MAX_TO_COPY_IN_EXPAND :: nat where "MAX_TO_COPY_IN_EXPAND = 4096"
definition MAX_TO_REALIGN_IN_EXPAND :: nat where "MAX_TO_REALIGN_IN_EXPAND = 2048"

definition evbuffer_chain_should_realign :: "evbuffer_chain \<Rightarrow> nat \<Rightarrow> bool" where
  "evbuffer_chain_should_realign c datlen \<longleftrightarrow>
     buffer_len c - ch_off c \<ge> datlen \<and> ch_off c < buffer_len c div 2 \<and>
     ch_off c \<le> MAX_TO_REALIGN_IN_EXPAND"

section \<open>Well-formed chains\<close>

text \<open>
  The block has \<open>buffer_len\<close> bytes and the data lie inside it; a read-only chain is not
  empty and ends where its block ends (its data can only be taken from the front).
  Pins are set by the overlapped I/O of Windows only; elsewhere no chain is pinned.
\<close>

definition chain_wf :: "evbuffer_chain \<Rightarrow> bool" where
  "chain_wf c \<longleftrightarrow>
     length (ch_mem c) = buffer_len c \<and> misalign c + ch_off c \<le> buffer_len c \<and>
     0 < buffer_len c \<and> buffer_len c \<le> CHAIN_MAX_REQUEST \<and>
     (ch_has EVBUFFER_IMMUTABLE c \<longrightarrow> misalign c + ch_off c = buffer_len c \<and> ch_off c \<noteq> 0) \<and>
     \<not> CHAIN_PINNED c"

lemma length_chain_data [simp]: "chain_wf c \<Longrightarrow> length (chain_data c) = ch_off c"
  by (auto simp: chain_wf_def chain_data_def min_def)

lemma chain_data_empty_iff: "chain_wf c \<Longrightarrow> chain_data c = [] \<longleftrightarrow> ch_off c = 0"
  by (metis length_0_conv length_chain_data)

lemma chain_wf_not_pinned [simp]: "chain_wf c \<Longrightarrow> \<not> CHAIN_PINNED c" "chain_wf c \<Longrightarrow> \<not> CHAIN_PINNED_R c"
  "chain_wf c \<Longrightarrow> \<not> ch_has EVBUFFER_MEM_PINNED_ANY c"
proof -
  show "chain_wf c \<Longrightarrow> \<not> CHAIN_PINNED c" by (simp add: chain_wf_def)
  then show "chain_wf c \<Longrightarrow> \<not> ch_has EVBUFFER_MEM_PINNED_ANY c" by (simp add: CHAIN_PINNED_def)
  then show "chain_wf c \<Longrightarrow> \<not> CHAIN_PINNED_R c"
    by (auto simp: CHAIN_PINNED_R_def ch_has_def EVBUFFER_MEM_PINNED_ANY_def
        bit.conj_disj_distrib or_eq_0_iff)
qed

text \<open>
  Appending in place (\<open>chain_write\<close> at the end of the data, then \<open>ch_off\<close> grows),
  prepending in place, taking bytes from the front, and realigning.
\<close>

lemma chain_append_in_place:
  assumes "chain_wf c" and imm: "\<not> ch_has EVBUFFER_IMMUTABLE c"
    and "length bs \<le> buffer_len c - misalign c - ch_off c"
  shows "chain_data ((chain_write c (misalign c + ch_off c) bs)\<lparr>ch_off := ch_off c + length bs\<rparr>)
           = chain_data c @ bs"
    and "chain_wf ((chain_write c (misalign c + ch_off c) bs)\<lparr>ch_off := ch_off c + length bs\<rparr>)"
proof -
  have fits: "misalign c + ch_off c + length bs \<le> length (ch_mem c)"
    using assms by (auto simp: chain_wf_def)
  then show "chain_data ((chain_write c (misalign c + ch_off c) bs)\<lparr>ch_off := ch_off c + length bs\<rparr>)
      = chain_data c @ bs"
    by (simp add: chain_data_def chain_write_def slice_splice_at_append)
  show "chain_wf ((chain_write c (misalign c + ch_off c) bs)\<lparr>ch_off := ch_off c + length bs\<rparr>)"
    using assms fits imm by (simp add: chain_wf_def chain_write_def ch_has_def CHAIN_PINNED_def)
qed

lemma chain_prepend_in_place:
  assumes "chain_wf c" "\<not> ch_has EVBUFFER_IMMUTABLE c" "length bs \<le> misalign c"
  shows "chain_data ((chain_write c (misalign c - length bs) bs)
           \<lparr>ch_off := ch_off c + length bs, misalign := misalign c - length bs\<rparr>) = bs @ chain_data c"
    and "chain_wf ((chain_write c (misalign c - length bs) bs)
           \<lparr>ch_off := ch_off c + length bs, misalign := misalign c - length bs\<rparr>)"
proof -
  have fits: "misalign c + ch_off c \<le> length (ch_mem c)" using assms by (simp add: chain_wf_def)
  show "chain_data ((chain_write c (misalign c - length bs) bs)
      \<lparr>ch_off := ch_off c + length bs, misalign := misalign c - length bs\<rparr>) = bs @ chain_data c"
    using slice_splice_at_prepend[OF assms(3) fits]
    by (simp add: chain_data_def chain_write_def add.commute)
  show "chain_wf ((chain_write c (misalign c - length bs) bs)
      \<lparr>ch_off := ch_off c + length bs, misalign := misalign c - length bs\<rparr>)"
    using assms fits by (simp add: chain_wf_def chain_write_def ch_has_def CHAIN_PINNED_def)
qed

lemma chain_take_front:
  assumes "chain_wf c" "k \<le> ch_off c"
  shows "chain_data (c\<lparr>misalign := misalign c + k, ch_off := ch_off c - k\<rparr>) = drop k (chain_data c)"
    and "k < ch_off c \<Longrightarrow> chain_wf (c\<lparr>misalign := misalign c + k, ch_off := ch_off c - k\<rparr>)"
  using assms by (auto simp: chain_data_def drop_slice chain_wf_def ch_has_def CHAIN_PINNED_def)

lemma chain_align_ok:
  assumes "chain_wf c" "\<not> ch_has EVBUFFER_IMMUTABLE c"
  shows "\<exists>c'. evbuffer_chain_align c = Some c' \<and> chain_wf c' \<and> chain_data c' = chain_data c \<and>
           misalign c' = 0 \<and> ch_off c' = ch_off c \<and> buffer_len c' = buffer_len c \<and>
           ch_flags c' = ch_flags c"
proof -
  have len: "length (chain_data c) = ch_off c" "ch_off c \<le> length (ch_mem c)"
    using assms by (auto simp: chain_wf_def)
  then have "slice (splice_at (ch_mem c) 0 (chain_data c)) 0 (ch_off c) = chain_data c"
    using slice_splice_at_exact[of 0 "chain_data c" "ch_mem c"] by simp
  then show ?thesis
    using assms len
    by (auto simp: evbuffer_chain_align_def chain_wf_def chain_write_def chain_data_def ch_has_def
        CHAIN_PINNED_def)
qed

section \<open>The allocation loop\<close>

lemma chain_alloc_size_step:
  "to_alloc < need \<Longrightarrow> chain_alloc_size to_alloc need = chain_alloc_size ((to_alloc * 2) mod 2 ^ 64) need"
  by (simp add: chain_alloc_size.simps[of to_alloc need])

lemma chain_alloc_size_stop: "need \<le> to_alloc \<Longrightarrow> chain_alloc_size to_alloc need = Some to_alloc"
  by (simp add: chain_alloc_size.simps[of to_alloc need])

lemma chain_alloc_size_returns:
  assumes "need \<le> 2 ^ 63" "k \<le> 63"
  shows "\<exists>r. chain_alloc_size (2 ^ k) need = Some r \<and> need \<le> r \<and> 2 ^ k \<le> r \<and> r \<le> 2 ^ 63"
  using assms(2)
proof (induction "63 - k" arbitrary: k)
  case 0
  then have "k = 63" by simp
  then show ?case using assms(1) by (simp add: chain_alloc_size_stop)
next
  case (Suc d)
  show ?case
  proof (cases "(2::nat) ^ k < need")
    case True
    have k: "Suc k \<le> 63" "d = 63 - Suc k" using Suc by auto
    have "(2::nat) ^ k * 2 = 2 ^ Suc k" by simp
    moreover have "(2::nat) ^ Suc k < 2 ^ 64" using k by (intro power_strict_increasing) auto
    ultimately have "(2 ^ k * 2) mod 2 ^ 64 = (2::nat) ^ Suc k" by simp
    then show ?thesis
      using Suc.hyps(1)[OF k(2) k(1)] chain_alloc_size_step[OF True] by auto
  next
    case False
    moreover have "(2::nat) ^ k \<le> 2 ^ 63" using Suc.prems by (intro power_increasing) auto
    ultimately show ?thesis by (simp add: chain_alloc_size_stop)
  qed
qed

lemma chain_new_returns:
  assumes "sz \<le> CHAIN_MAX_REQUEST"
  obtains r where "evbuffer_chain_new malloc sz = Some r"
    "\<And>c. r = Some c \<Longrightarrow> chain_wf c \<and> ch_off c = 0 \<and> misalign c = 0 \<and> sz \<le> buffer_len c \<and>
          976 \<le> buffer_len c \<and> ch_flags c = 0 \<and> chain_data c = []"
    "r = None \<Longrightarrow> \<exists>m. malloc m = None"
proof -
  have "sz + EVBUFFER_CHAIN_SIZE \<le> 2 ^ 63"
    using assms by (simp add: CHAIN_MAX_REQUEST_def EVBUFFER_CHAIN_SIZE_def)
  then have eq: "(sz + EVBUFFER_CHAIN_SIZE) mod 2 ^ 64 = sz + EVBUFFER_CHAIN_SIZE"
    and "sz + EVBUFFER_CHAIN_SIZE \<le> 2 ^ 63" by simp_all
  from chain_alloc_size_returns[OF this(2), of 10]
  obtain m where m: "chain_alloc_size MIN_BUFFER_SIZE (sz + EVBUFFER_CHAIN_SIZE) = Some m"
    "sz + EVBUFFER_CHAIN_SIZE \<le> m" "1024 \<le> m" "m \<le> 2 ^ 63"
    by (auto simp: MIN_BUFFER_SIZE_def)
  show ?thesis
  proof (cases "malloc m")
    case None
    then show ?thesis using that[of None] m eq by (auto simp: evbuffer_chain_new_def)
  next
    case (Some adr)
    let ?c = "\<lparr>ch_buffer = adr + EVBUFFER_CHAIN_SIZE, buffer_len = m - EVBUFFER_CHAIN_SIZE,
      misalign = 0, ch_off = 0, ch_flags = 0, ch_mem = replicate (m - EVBUFFER_CHAIN_SIZE) (0::byte),
      ch_cleanup = None, ch_fd = 0\<rparr>"
    have "evbuffer_chain_new malloc sz = Some (Some ?c)"
      using Some m eq by (simp add: evbuffer_chain_new_def)
    moreover have "chain_wf ?c"
      using m by (simp add: EVBUFFER_CHAIN_SIZE_def chain_wf_def ch_has_def CHAIN_PINNED_def CHAIN_MAX_REQUEST_def)
    moreover have "sz \<le> m - EVBUFFER_CHAIN_SIZE" "976 \<le> m - EVBUFFER_CHAIN_SIZE"
      using m by (auto simp: EVBUFFER_CHAIN_SIZE_def)
    ultimately show ?thesis
      using that[of "Some ?c"] by (simp add: chain_data_def)
  qed
qed

text \<open>
  Sizes above the bound: between \<open>2 ^ 63 - 48\<close> and \<open>2 ^ 64 - 48\<close> the loop never ends, and
  from \<open>2 ^ 64 - 48\<close> on the addition wraps and a chain far too small is returned.
\<close>

lemma chain_alloc_size_zero_diverges:
  assumes "0 < need"
  shows "chain_alloc_size 0 need = None"
proof (rule ccontr)
  assume "chain_alloc_size 0 need \<noteq> None"
  then obtain r where ret: "chain_alloc_size 0 need = Some r" by blast
  have "0 < x \<longrightarrow> t \<noteq> 0" if "chain_alloc_size t x = Some r'" for t x r'
  proof (rule chain_alloc_size.raw_induct[where P = "\<lambda>t x r. 0 < x \<longrightarrow> t \<noteq> 0", OF _ that])
    fix f :: "nat \<Rightarrow> nat \<Rightarrow> nat option" and t x r
    assume IH: "\<And>t x r. f t x = Some r \<Longrightarrow> 0 < x \<longrightarrow> t \<noteq> 0"
      and eq: "(if t < x then f ((t * 2) mod 2 ^ 64) x else Some t) = Some r"
    show "0 < x \<longrightarrow> t \<noteq> 0"
    proof (intro impI notI)
      assume "0 < x" "t = 0"
      then have "f 0 x = Some r" using eq by (simp only: mult_zero_left mod_0 if_True)
      then show False using IH \<open>0 < x\<close> by blast
    qed
  qed
  from this[OF ret] show False using assms by simp
qed

lemma chain_alloc_size_diverges:
  assumes "2 ^ 63 < need" "k \<le> 63"
  shows "chain_alloc_size (2 ^ k) need = None"
  using assms(2)
proof (induction "63 - k" arbitrary: k)
  case 0
  then have k: "k = 63" by simp
  have "(2 ^ 63 * 2) mod 2 ^ 64 = (0::nat)" by simp
  then have "chain_alloc_size (2 ^ 63) need = chain_alloc_size 0 need"
    using chain_alloc_size_step[OF assms(1)] by simp
  then show ?case using chain_alloc_size_zero_diverges assms(1) k by simp
next
  case (Suc d)
  have k: "Suc k \<le> 63" "d = 63 - Suc k" using Suc by auto
  have "(2::nat) ^ k \<le> 2 ^ 63" using k by (intro power_increasing) auto
  then have lt: "(2::nat) ^ k < need" using assms(1) by simp
  have "(2::nat) ^ k * 2 = 2 ^ Suc k" by simp
  moreover have "(2::nat) ^ Suc k < 2 ^ 64" using k by (intro power_strict_increasing) auto
  ultimately have "(2 ^ k * 2) mod 2 ^ 64 = (2::nat) ^ Suc k" by simp
  then show ?case using Suc.hyps(1)[OF k(2) k(1)] chain_alloc_size_step[OF lt] by simp
qed

section \<open>Properties of chain allocation\<close>

text \<open>
  C12: for a request of at most \<open>2 ^ 63 - 48\<close> bytes \<open>evbuffer_chain_new\<close> returns, and unless the
  allocator fails it returns an empty chain with room for the request.
\<close>

theorem evbuffer_chain_new_total:
  assumes "sz \<le> CHAIN_MAX_REQUEST"
  shows "\<exists>r. evbuffer_chain_new malloc sz = Some r \<and>
           (case r of None \<Rightarrow> \<exists>m. malloc m = None
            | Some c \<Rightarrow> chain_wf c \<and> chain_data c = [] \<and> sz \<le> CHAIN_SPACE_LEN c \<and>
                        \<not> ch_has EVBUFFER_IMMUTABLE c)"
proof -
  obtain r where "evbuffer_chain_new malloc sz = Some r"
    "\<And>c. r = Some c \<Longrightarrow> chain_wf c \<and> ch_off c = 0 \<and> misalign c = 0 \<and> sz \<le> buffer_len c \<and>
          976 \<le> buffer_len c \<and> ch_flags c = 0 \<and> chain_data c = []"
    "r = None \<Longrightarrow> \<exists>m. malloc m = None"
    using chain_new_returns[OF assms, of malloc] by metis
  then show ?thesis by (auto simp: CHAIN_SPACE_LEN_def ch_has_def split: option.split)
qed

theorem evbuffer_chain_new_total_witness:
  "\<exists>c. evbuffer_chain_new (\<lambda>n. Some 4096) 5000 = Some (Some c) \<and> chain_wf c \<and> 5000 \<le> CHAIN_SPACE_LEN c"
proof -
  have "(5000::nat) \<le> CHAIN_MAX_REQUEST" by (simp add: CHAIN_MAX_REQUEST_def EVBUFFER_CHAIN_SIZE_def)
  from evbuffer_chain_new_total[OF this, of "\<lambda>n. Some 4096"] show ?thesis
    by (auto split: option.splits)
qed

text \<open>
  C13: beyond that bound the doubling loop never ends: a request of more than \<open>2 ^ 63 - 48\<close> bytes
  whose size does not wrap makes \<open>evbuffer_chain_new\<close> run forever, and a request of \<open>2 ^ 64 - 48\<close>
  bytes wraps to zero and is given the smallest chain, with room for 976 bytes only.
\<close>

theorem evbuffer_chain_new_overflow:
  "(CHAIN_MAX_REQUEST < sz \<and> sz < 2 ^ 64 - EVBUFFER_CHAIN_SIZE \<longrightarrow> evbuffer_chain_new malloc sz = None) \<and>
   (\<exists>c. evbuffer_chain_new (\<lambda>n. Some 0) (2 ^ 64 - EVBUFFER_CHAIN_SIZE) = Some (Some c) \<and> CHAIN_SPACE_LEN c = 976)"
proof
  have "chain_alloc_size (2 ^ 10) (sz + EVBUFFER_CHAIN_SIZE) = None" if "CHAIN_MAX_REQUEST < sz"
    using that by (intro chain_alloc_size_diverges) (auto simp: CHAIN_MAX_REQUEST_def EVBUFFER_CHAIN_SIZE_def)
  then show "CHAIN_MAX_REQUEST < sz \<and> sz < 2 ^ 64 - EVBUFFER_CHAIN_SIZE \<longrightarrow> evbuffer_chain_new malloc sz = None"
    by (auto simp: evbuffer_chain_new_def MIN_BUFFER_SIZE_def EVBUFFER_CHAIN_SIZE_def)
  show "\<exists>c. evbuffer_chain_new (\<lambda>n. Some 0) (2 ^ 64 - EVBUFFER_CHAIN_SIZE) = Some (Some c) \<and> CHAIN_SPACE_LEN c = 976"
    by (simp add: evbuffer_chain_new_def EVBUFFER_CHAIN_SIZE_def MIN_BUFFER_SIZE_def chain_alloc_size_stop
        CHAIN_SPACE_LEN_def ch_has_def)
qed

theorem evbuffer_chain_new_overflow_witness:
  "evbuffer_chain_new (\<lambda>n. Some 4096) (2 ^ 63) = None"
  using evbuffer_chain_new_overflow[of "2 ^ 63" "\<lambda>n. Some 4096"]
  by (simp add: CHAIN_MAX_REQUEST_def EVBUFFER_CHAIN_SIZE_def)

end
