(* ===== verification/Evbuffer.thy ===== *)
theory Evbuffer
  imports Evbuffer_Chain
begin

text \<open>
  The evbuffer of \<^verbatim>\<open>buffer.c\<close>: a byte queue stored in a list of chains. The record follows
  \<^verbatim>\<open>struct evbuffer\<close>. The linked list \<open>first .. last\<close> is the list \<open>chains\<close>; a pointer to a
  \<open>next\<close> field is the position of the chain it points at, so \<open>last_with_datap\<close> is a
  position: 0 is \<open>&buf->first\<close>, \<open>i\<close> is the \<open>next\<close> field of chain \<open>i - 1\<close>, and
  \<open>*last_with_datap\<close> is NULL when the position is the number of chains.
  Callback functions are user code: the model records each call that is made, in order,
  in the field \<open>eb_trace\<close>, together with the effects of freeing chains. Locks are taken and
  released around every operation and have no effect on the data.
\<close>

section \<open>The buffer and its callbacks\<close>

definition EVBUFFER_CB_ENABLED :: u32 where "EVBUFFER_CB_ENABLED = 1"
definition EVBUFFER_CB_NODEFER :: u32 where "EVBUFFER_CB_NODEFER = 2"
definition EVBUFFER_CB_OBSOLETE :: u32 where "EVBUFFER_CB_OBSOLETE = 0x00040000"
definition EVBUFFER_CB_INTERNAL_FLAGS :: u32 where "EVBUFFER_CB_INTERNAL_FLAGS = 0xffff0000"

record evbuffer_cb_entry =
  cb_func :: nat
  cbarg :: nat
  cb_flags :: u32

record evbuffer_cb_info =
  orig_size :: int
  n_added :: nat
  n_deleted :: nat

datatype eb_event =
    Chain_event chain_event
  | Cb_call nat nat evbuffer_cb_info
  | Cb_obsolete_call nat nat int nat

record evbuffer =
  chains :: "evbuffer_chain list"
  last_with_datap :: nat
  total_len :: nat
  n_add_for_cb :: nat
  n_del_for_cb :: nat
  freeze_start :: bool
  freeze_end :: bool
  deferred_cbs :: bool
  deferred_queued :: bool
  eb_flags :: u32
  refcnt :: int
  callbacks :: "evbuffer_cb_entry list"
  eb_trace :: "eb_event list"

definition evbuffer_new :: evbuffer where
  "evbuffer_new =
     \<lparr>chains = [], last_with_datap = 0, total_len = 0, n_add_for_cb = 0, n_del_for_cb = 0,
      freeze_start = False, freeze_end = False, deferred_cbs = False, deferred_queued = False,
      eb_flags = 0, refcnt = 1, callbacks = [], eb_trace = []\<rparr>"

definition log_free :: "evbuffer \<Rightarrow> chain_event list \<Rightarrow> evbuffer" where
  "log_free buf es = buf\<lparr>eb_trace := eb_trace buf @ map Chain_event es\<rparr>"

definition evbuffer_set_flags :: "evbuffer \<Rightarrow> u64 \<Rightarrow> int \<times> evbuffer" where
  "evbuffer_set_flags buf fl = (0, buf\<lparr>eb_flags := eb_flags buf OR ucast fl\<rparr>)"

definition evbuffer_clear_flags :: "evbuffer \<Rightarrow> u64 \<Rightarrow> int \<times> evbuffer" where
  "evbuffer_clear_flags buf fl = (0, buf\<lparr>eb_flags := eb_flags buf AND NOT (ucast fl)\<rparr>)"

definition evbuffer_incref :: "evbuffer \<Rightarrow> evbuffer" where
  "evbuffer_incref buf = buf\<lparr>refcnt := refcnt buf + 1\<rparr>"

definition evbuffer_defer_callbacks :: "evbuffer \<Rightarrow> int \<times> evbuffer" where
  "evbuffer_defer_callbacks buf = (0, buf\<lparr>deferred_cbs := True, deferred_queued := False\<rparr>)"

definition evbuffer_get_length :: "evbuffer \<Rightarrow> nat" where
  "evbuffer_get_length buf = total_len buf"

definition evbuffer_get_contiguous_space :: "evbuffer \<Rightarrow> nat" where
  "evbuffer_get_contiguous_space buf = (case chains buf of [] \<Rightarrow> 0 | c # _ \<Rightarrow> ch_off c)"

subsection \<open>Running callbacks\<close>

text \<open>The loop over the entries: those whose masked flags have the wanted value are called.\<close>

definition cb_selected :: "u32 \<Rightarrow> u32 \<Rightarrow> evbuffer_cb_entry \<Rightarrow> bool" where
  "cb_selected cb_mask masked_val e \<longleftrightarrow> cb_flags e AND cb_mask = masked_val"

definition cb_invoke :: "evbuffer_cb_info \<Rightarrow> nat \<Rightarrow> evbuffer_cb_entry \<Rightarrow> eb_event" where
  "cb_invoke info new_size e =
     (if cb_flags e AND EVBUFFER_CB_OBSOLETE \<noteq> 0
      then Cb_obsolete_call (cb_func e) (cbarg e) (orig_size info) new_size
      else Cb_call (cb_func e) (cbarg e) info)"

definition evbuffer_run_callbacks :: "evbuffer \<Rightarrow> bool \<Rightarrow> evbuffer" where
  "evbuffer_run_callbacks buf running_deferred =
     (let (cb_mask, masked_val, clear) =
        (if running_deferred
         then (EVBUFFER_CB_NODEFER OR EVBUFFER_CB_ENABLED, EVBUFFER_CB_ENABLED, True)
         else if deferred_cbs buf
         then (EVBUFFER_CB_NODEFER OR EVBUFFER_CB_ENABLED,
               EVBUFFER_CB_NODEFER OR EVBUFFER_CB_ENABLED, False)
         else (EVBUFFER_CB_ENABLED, EVBUFFER_CB_ENABLED, True))
      in if callbacks buf = [] then buf\<lparr>n_add_for_cb := 0, n_del_for_cb := 0\<rparr>
         else if n_add_for_cb buf = 0 \<and> n_del_for_cb buf = 0 then buf
         else (let new_size = total_len buf;
                   info = \<lparr>orig_size = int new_size + int (n_del_for_cb buf) - int (n_add_for_cb buf),
                           n_added = n_add_for_cb buf, n_deleted = n_del_for_cb buf\<rparr>;
                   buf1 = (if clear then buf\<lparr>n_add_for_cb := 0, n_del_for_cb := 0\<rparr> else buf)
               in buf1\<lparr>eb_trace := eb_trace buf1 @
                    map (cb_invoke info new_size) (filter (cb_selected cb_mask masked_val) (callbacks buf))\<rparr>))"

definition evbuffer_invoke_callbacks :: "evbuffer \<Rightarrow> evbuffer" where
  "evbuffer_invoke_callbacks buf =
     (if callbacks buf = [] then buf\<lparr>n_add_for_cb := 0, n_del_for_cb := 0\<rparr>
      else if deferred_cbs buf
      then (if deferred_queued buf then buf
            else evbuffer_run_callbacks
                   (buf\<lparr>refcnt := refcnt buf + 1, deferred_queued := True\<rparr>) False)
      else evbuffer_run_callbacks buf False)"

definition evbuffer_remove_all_callbacks :: "evbuffer \<Rightarrow> evbuffer" where
  "evbuffer_remove_all_callbacks buf = buf\<lparr>callbacks := []\<rparr>"

text \<open>
  Dropping a reference: the buffer that remains, or \<open>Inr\<close> the trace of its destruction when
  the last reference goes. The assertion fails for a buffer without references.
\<close>

definition evbuffer_decref_and_unlock :: "evbuffer \<Rightarrow> (evbuffer + eb_event list) option" where
  "evbuffer_decref_and_unlock buf =
     (if \<not> refcnt buf > 0 then None
      else let buf' = buf\<lparr>refcnt := refcnt buf - 1\<rparr> in
      if refcnt buf' > 0 then Some (Inl buf')
      else Some (Inr (eb_trace (evbuffer_remove_all_callbacks
                  (log_free buf' (evbuffer_free_all_chains (chains buf'))))))) "

definition evbuffer_free :: "evbuffer \<Rightarrow> (evbuffer + eb_event list) option" where
  "evbuffer_free buf = evbuffer_decref_and_unlock buf"

text \<open>The deferred callback: the queue has cleared \<open>queued\<close> before it calls this function.\<close>

definition evbuffer_deferred_callback :: "evbuffer \<Rightarrow> (evbuffer + eb_event list) option" where
  "evbuffer_deferred_callback buf = evbuffer_decref_and_unlock (evbuffer_run_callbacks buf True)"

subsection \<open>Managing callbacks\<close>

definition evbuffer_add_cb :: "evbuffer \<Rightarrow> nat \<Rightarrow> nat \<Rightarrow> evbuffer" where
  "evbuffer_add_cb buf cb arg =
     buf\<lparr>callbacks := \<lparr>cb_func = cb, cbarg = arg, cb_flags = EVBUFFER_CB_ENABLED\<rparr> # callbacks buf\<rparr>"

definition evbuffer_setcb :: "evbuffer \<Rightarrow> nat option \<Rightarrow> nat \<Rightarrow> evbuffer" where
  "evbuffer_setcb buf cb arg =
     (let buf1 = (if callbacks buf \<noteq> [] then evbuffer_remove_all_callbacks buf else buf) in
      case cb of
        None \<Rightarrow> buf1
      | Some f \<Rightarrow>
          (case callbacks (evbuffer_add_cb buf1 0 arg) of
             [] \<Rightarrow> buf1
           | ent # rest \<Rightarrow>
               buf1\<lparr>callbacks := ent\<lparr>cb_func := f, cb_flags := cb_flags ent OR EVBUFFER_CB_OBSOLETE\<rparr> # rest\<rparr>))"

fun remove_first_cb :: "nat \<Rightarrow> nat \<Rightarrow> evbuffer_cb_entry list \<Rightarrow> evbuffer_cb_entry list option" where
  "remove_first_cb cb arg [] = None"
| "remove_first_cb cb arg (e # es) =
     (if cb = cb_func e \<and> arg = cbarg e then Some es
      else map_option ((#) e) (remove_first_cb cb arg es))"

definition evbuffer_remove_cb :: "evbuffer \<Rightarrow> nat \<Rightarrow> nat \<Rightarrow> int \<times> evbuffer" where
  "evbuffer_remove_cb buf cb arg =
     (case remove_first_cb cb arg (callbacks buf) of
        None \<Rightarrow> (- 1, buf)
      | Some es \<Rightarrow> (0, buf\<lparr>callbacks := es\<rparr>))"

definition evbuffer_cb_set_flags :: "evbuffer \<Rightarrow> nat \<Rightarrow> u32 \<Rightarrow> int \<times> evbuffer" where
  "evbuffer_cb_set_flags buf i fl =
     (let fl' = fl AND NOT EVBUFFER_CB_INTERNAL_FLAGS; e = callbacks buf ! i
      in (0, buf\<lparr>callbacks := (callbacks buf)[i := e\<lparr>cb_flags := cb_flags e OR fl'\<rparr>]\<rparr>))"

definition evbuffer_cb_clear_flags :: "evbuffer \<Rightarrow> nat \<Rightarrow> u32 \<Rightarrow> int \<times> evbuffer" where
  "evbuffer_cb_clear_flags buf i fl =
     (let fl' = fl AND NOT EVBUFFER_CB_INTERNAL_FLAGS; e = callbacks buf ! i
      in (0, buf\<lparr>callbacks := (callbacks buf)[i := e\<lparr>cb_flags := cb_flags e AND NOT fl'\<rparr>]\<rparr>))"

definition evbuffer_freeze :: "evbuffer \<Rightarrow> bool \<Rightarrow> int \<times> evbuffer" where
  "evbuffer_freeze buf start =
     (0, if start then buf\<lparr>freeze_start := True\<rparr> else buf\<lparr>freeze_end := True\<rparr>)"

definition evbuffer_unfreeze :: "evbuffer \<Rightarrow> bool \<Rightarrow> int \<times> evbuffer" where
  "evbuffer_unfreeze buf start =
     (0, if start then buf\<lparr>freeze_start := False\<rparr> else buf\<lparr>freeze_end := False\<rparr>)"

section \<open>Inserting and removing chains\<close>

text \<open>
  \<^verbatim>\<open>while ((*ch) && ((*ch)->off != 0 || CHAIN_PINNED(*ch))) ch = &(*ch)->next;\<close>
  from position \<open>i\<close>: the position of the first chain that is empty and not pinned.
\<close>

fun skip_occupied :: "evbuffer_chain list \<Rightarrow> nat" where
  "skip_occupied [] = 0"
| "skip_occupied (c # cs) = (if ch_off c \<noteq> 0 \<or> CHAIN_PINNED c then Suc (skip_occupied cs) else 0)"

definition victim_pos :: "evbuffer \<Rightarrow> nat" where
  "victim_pos buf = last_with_datap buf + skip_occupied (drop (last_with_datap buf) (chains buf))"

text \<open>Returns the buffer and the position where the new chain will go.\<close>

definition evbuffer_free_trailing_empty_chains :: "evbuffer \<Rightarrow> (evbuffer \<times> nat) option" where
  "evbuffer_free_trailing_empty_chains buf =
     (let ch = victim_pos buf; victims = drop ch (chains buf) in
      if victims \<noteq> []
      then (if evbuffer_chains_all_empty victims
            then Some (log_free (buf\<lparr>chains := take ch (chains buf)\<rparr>) (evbuffer_free_all_chains victims), ch)
            else None)
      else Some (buf, ch))"

definition evbuffer_chain_insert :: "evbuffer \<Rightarrow> evbuffer_chain \<Rightarrow> evbuffer option" where
  "evbuffer_chain_insert buf chain =
     (if last_with_datap buf \<ge> length (chains buf)
      then (if last_with_datap buf = 0 \<and> chains buf = []
            then Some (buf\<lparr>chains := [chain], total_len := total_len buf + ch_off chain\<rparr>)
            else None)
      else (let ch = victim_pos buf; victims = drop ch (chains buf) in
            if victims = []
            then Some (buf\<lparr>chains := chains buf @ [chain],
                           last_with_datap := (if ch_off chain \<noteq> 0 then length (chains buf)
                                               else last_with_datap buf),
                           total_len := total_len buf + ch_off chain\<rparr>)
            else if evbuffer_chains_all_empty victims
            then Some (log_free (buf\<lparr>chains := take ch (chains buf) @ [chain],
                                     total_len := total_len buf + ch_off chain\<rparr>)
                         (evbuffer_free_all_chains victims))
            else None))"

text \<open>Returns \<open>(buf, True)\<close> with the new chain as the last one, or the unchanged buffer and \<open>False\<close>.\<close>

definition evbuffer_chain_insert_new :: "allocator \<Rightarrow> evbuffer \<Rightarrow> nat \<Rightarrow> (evbuffer \<times> bool) option" where
  "evbuffer_chain_insert_new malloc buf datlen = do {
     r \<leftarrow> evbuffer_chain_new malloc datlen;
     case r of
       None \<Rightarrow> Some (buf, False)
     | Some chain \<Rightarrow> do { buf' \<leftarrow> evbuffer_chain_insert buf chain; Some (buf', True) }
   }"

fun count_filled :: "evbuffer_chain list \<Rightarrow> nat" where
  "count_filled [] = 0"
| "count_filled (c # cs) = (if ch_off c \<noteq> 0 then Suc (count_filled cs) else 0)"

text \<open>Moves \<open>last_with_datap\<close> over the chains behind it that hold data.\<close>

definition advance_last_with_data :: "evbuffer \<Rightarrow> evbuffer" where
  "advance_last_with_data buf =
     (if last_with_datap buf \<ge> length (chains buf) then buf
      else buf\<lparr>last_with_datap :=
             last_with_datap buf + count_filled (drop (last_with_datap buf + 1) (chains buf))\<rparr>)"

definition HAS_PINNED_R :: "evbuffer \<Rightarrow> bool" where
  "HAS_PINNED_R buf \<longleftrightarrow> chains buf \<noteq> [] \<and> CHAIN_PINNED_R (last (chains buf))"

definition ZERO_CHAIN :: "evbuffer \<Rightarrow> evbuffer" where
  "ZERO_CHAIN buf = buf\<lparr>chains := [], last_with_datap := 0, total_len := 0\<rparr>"

section \<open>Adding bytes\<close>

definition EVBUFFER_CHAIN_MAX_AUTO_SIZE :: nat where "EVBUFFER_CHAIN_MAX_AUTO_SIZE = 4096"

definition set_last :: "evbuffer \<Rightarrow> evbuffer_chain \<Rightarrow> evbuffer" where
  "set_last buf c = buf\<lparr>chains := butlast (chains buf) @ [c]\<rparr>"

definition count_added :: "evbuffer \<Rightarrow> nat \<Rightarrow> evbuffer" where
  "count_added buf k = buf\<lparr>total_len := total_len buf + k, n_add_for_cb := n_add_for_cb buf + k\<rparr>"

text \<open>
  The last part of \<open>evbuffer_add\<close>: the first \<open>remain\<close> bytes go into the last chain, the
  others into the new chain \<open>tmp\<close>.
\<close>

definition add_grow :: "evbuffer \<Rightarrow> byte list \<Rightarrow> nat \<Rightarrow> evbuffer_chain \<Rightarrow> (int \<times> evbuffer) option" where
  "add_grow buf data remain tmp =
     (let chain = last (chains buf);
          buf1 = (if remain \<noteq> 0
                  then count_added (set_last buf
                         ((chain_write chain (misalign chain + ch_off chain) (take remain data))
                            \<lparr>ch_off := ch_off chain + remain\<rparr>)) remain
                  else buf);
          rest = drop remain data;
          tmp' = (chain_write tmp 0 rest)\<lparr>ch_off := length rest\<rparr>
      in do {
        buf2 \<leftarrow> evbuffer_chain_insert buf1 tmp';
        Some (0, evbuffer_invoke_callbacks (buf2\<lparr>n_add_for_cb := n_add_for_cb buf2 + length rest\<rparr>))
      })"

text \<open>The size of the next chain: twice the last one up to 4096 bytes, and at least the data.\<close>

definition add_to_alloc :: "evbuffer_chain \<Rightarrow> nat \<Rightarrow> nat" where
  "add_to_alloc chain datlen =
     (let half = (if buffer_len chain \<le> EVBUFFER_CHAIN_MAX_AUTO_SIZE div 2
                  then buffer_len chain * 2 else buffer_len chain)
      in if datlen > half then datlen else half)"

definition evbuffer_add :: "allocator \<Rightarrow> evbuffer \<Rightarrow> byte list \<Rightarrow> (int \<times> evbuffer) option" where
  "evbuffer_add malloc buf0 data =
     (if freeze_end buf0 then Some (- 1, buf0)
      else do {
        (buf, ok) \<leftarrow> (if chains buf0 = [] then evbuffer_chain_insert_new malloc buf0 (length data)
                      else Some (buf0, True));
        if \<not> ok then Some (- 1, buf)
        else (let chain = last (chains buf); datlen = length data;
                  immutable = ch_has EVBUFFER_IMMUTABLE chain;
                  remain = (if immutable then 0 else buffer_len chain - misalign chain - ch_off chain)
              in
              if \<not> immutable \<and> remain \<ge> datlen
              then Some (0, evbuffer_invoke_callbacks (count_added (set_last buf
                     ((chain_write chain (misalign chain + ch_off chain) data)
                        \<lparr>ch_off := ch_off chain + datlen\<rparr>)) datlen))
              else if \<not> immutable \<and> \<not> CHAIN_PINNED chain \<and> evbuffer_chain_should_realign chain datlen
              then do {
                chain' \<leftarrow> evbuffer_chain_align chain;
                Some (0, evbuffer_invoke_callbacks (count_added (set_last buf
                   ((chain_write chain' (ch_off chain') data)\<lparr>ch_off := ch_off chain' + datlen\<rparr>)) datlen))
              }
              else do {
                r \<leftarrow> evbuffer_chain_new malloc (add_to_alloc chain datlen);
                case r of
                  None \<Rightarrow> Some (- 1, buf)
                | Some tmp \<Rightarrow> add_grow buf data remain tmp
              })
      })"

definition set_first :: "evbuffer \<Rightarrow> evbuffer_chain \<Rightarrow> evbuffer" where
  "set_first buf c = buf\<lparr>chains := c # tl (chains buf)\<rparr>"

text \<open>
  The chain at the front, the data that do not fit into it (a prefix of the caller's data)
  and the number of bytes it took; an empty chain is first treated as empty at its end.
\<close>

definition prepend_front :: "evbuffer_chain \<Rightarrow> evbuffer_chain" where
  "prepend_front chain =
     (if \<not> ch_has EVBUFFER_IMMUTABLE chain \<and> ch_off chain = 0
      then chain\<lparr>misalign := buffer_len chain\<rparr> else chain)"

definition prepend_nonempty :: "allocator \<Rightarrow> evbuffer \<Rightarrow> byte list \<Rightarrow> (int \<times> evbuffer) option" where
  "prepend_nonempty malloc buf data =
     (let chain0 = hd (chains buf); datlen = length data;
          immutable = ch_has EVBUFFER_IMMUTABLE chain0;
          chain = prepend_front chain0
      in
      if \<not> immutable \<and> misalign chain \<ge> datlen
      then Some (0, evbuffer_invoke_callbacks (count_added (set_first buf
             ((chain_write chain (misalign chain - datlen) data)
                \<lparr>ch_off := ch_off chain + datlen, misalign := misalign chain - datlen\<rparr>)) datlen))
      else (let m = (if \<not> immutable \<and> misalign chain \<noteq> 0 then misalign chain else 0);
                chain' = (if m \<noteq> 0
                          then (chain_write chain 0 (drop (datlen - m) data))
                                 \<lparr>ch_off := ch_off chain + m, misalign := 0\<rparr>
                          else chain);
                buf1 = (if m \<noteq> 0 then count_added (set_first buf chain') m
                        else set_first buf chain');
                rest = take (datlen - m) data
            in do {
              r \<leftarrow> evbuffer_chain_new malloc (length rest);
              case r of
                None \<Rightarrow> Some (- 1, buf1)
              | Some tmp \<Rightarrow>
                  (let mis = buffer_len tmp - length rest;
                       tmp' = (chain_write tmp mis rest)\<lparr>ch_off := length rest, misalign := mis\<rparr>
                   in Some (0, evbuffer_invoke_callbacks
                        (buf1\<lparr>chains := tmp' # chains buf1,
                              last_with_datap := last_with_datap buf1 + 1,
                              total_len := total_len buf1 + length rest,
                              n_add_for_cb := n_add_for_cb buf1 + misalign chain'\<rparr>)))
            }))"

definition evbuffer_prepend :: "allocator \<Rightarrow> evbuffer \<Rightarrow> byte list \<Rightarrow> (int \<times> evbuffer) option" where
  "evbuffer_prepend malloc buf0 data =
     (if freeze_start buf0 then Some (- 1, buf0)
      else do {
        (buf, ok) \<leftarrow> (if chains buf0 = [] then evbuffer_chain_insert_new malloc buf0 (length data)
                      else Some (buf0, True));
        if \<not> ok then Some (- 1, buf) else prepend_nonempty malloc buf data
      })"

definition evbuffer_add_reference ::
  "allocator \<Rightarrow> evbuffer \<Rightarrow> addr \<Rightarrow> byte list \<Rightarrow> nat option \<Rightarrow> (int \<times> evbuffer) option" where
  "evbuffer_add_reference malloc outbuf ptr data cleanupfn = do {
     r \<leftarrow> evbuffer_chain_new malloc 16;
     case r of
       None \<Rightarrow> Some (- 1, outbuf)
     | Some ch \<Rightarrow>
         (let chain = ch\<lparr>ch_flags := ch_flags ch OR (EVBUFFER_REFERENCE OR EVBUFFER_IMMUTABLE),
                         ch_buffer := ptr, buffer_len := length data, ch_off := length data,
                         ch_mem := data, ch_cleanup := cleanupfn\<rparr>
          in if freeze_end outbuf then Some (- 1, outbuf)
             else do {
               buf \<leftarrow> evbuffer_chain_insert outbuf chain;
               Some (0, evbuffer_invoke_callbacks (buf\<lparr>n_add_for_cb := n_add_for_cb buf + length data\<rparr>))
             })
   }"

section \<open>Removing bytes\<close>

text \<open>
  The loop of \<open>evbuffer_drain\<close>. It returns the chains that remain, how many were freed,
  whether it stopped at a read-pinned chain, and the effects of the frees.
\<close>

fun drain_loop ::
  "evbuffer_chain list \<Rightarrow> nat \<Rightarrow> (evbuffer_chain list \<times> nat \<times> bool \<times> chain_event list) option" where
  "drain_loop [] remaining = None"
| "drain_loop (c # cs) remaining =
     (if remaining \<ge> ch_off c
      then (if CHAIN_PINNED_R c
            then (if remaining - ch_off c = 0
                  then Some (c\<lparr>misalign := misalign c + ch_off c, ch_off := 0\<rparr> # cs, 0, True, [])
                  else None)
            else do {
              (cs', k, pinned, es) \<leftarrow> drain_loop cs (remaining - ch_off c);
              Some (cs', Suc k, pinned, evbuffer_chain_free c @ es)
            })
      else Some (c\<lparr>misalign := misalign c + remaining, ch_off := ch_off c - remaining\<rparr> # cs, 0, False, []))"

text \<open>
  Freeing the chain before or at \<open>last_with_datap\<close> resets it to \<open>&buf->first\<close>; a position
  further back keeps pointing at the same chain.
\<close>

definition evbuffer_drain :: "evbuffer \<Rightarrow> nat \<Rightarrow> (int \<times> evbuffer) option" where
  "evbuffer_drain buf len =
     (let old_len = total_len buf in
      if old_len = 0 then Some (0, buf)
      else if freeze_start buf then Some (- 1, buf)
      else if len \<ge> old_len \<and> \<not> HAS_PINNED_R buf
      then Some (0, (let buf1 = ZERO_CHAIN (log_free buf (evbuffer_free_all_chains (chains buf)))
                     in evbuffer_invoke_callbacks (buf1\<lparr>n_del_for_cb := n_del_for_cb buf1 + old_len\<rparr>)))
      else (let len' = (if len \<ge> old_len then old_len else len) in do {
              (cs, k, pinned, es) \<leftarrow> drain_loop (chains buf) len';
              let lwd = last_with_datap buf;
                  lwd' = (if pinned \<and> lwd \<le> k + 1 then 0 else lwd - k);
                  buf1 = log_free (buf\<lparr>total_len := total_len buf - len', chains := cs,
                                       last_with_datap := lwd'\<rparr>) es
              in Some (0, evbuffer_invoke_callbacks (buf1\<lparr>n_del_for_cb := n_del_for_cb buf1 + len'\<rparr>))
            }))"

fun copyout_loop :: "evbuffer_chain list \<Rightarrow> nat \<Rightarrow> byte list option" where
  "copyout_loop [] datlen = (if datlen = 0 then Some [] else None)"
| "copyout_loop (c # cs) datlen =
     (if datlen = 0 then Some []
      else if datlen \<ge> ch_off c
      then (if cs = [] \<and> datlen - ch_off c \<noteq> 0 then None
            else map_option ((@) (chain_data c)) (copyout_loop cs (datlen - ch_off c)))
      else Some (take datlen (chain_data c)))"

definition evbuffer_copyout :: "evbuffer \<Rightarrow> nat \<Rightarrow> (int \<times> byte list) option" where
  "evbuffer_copyout buf len =
     (let datlen = (if len \<ge> total_len buf then total_len buf else len) in
      if datlen = 0 then Some (0, [])
      else if freeze_start buf then Some (- 1, [])
      else map_option (\<lambda>bs. (int datlen, bs)) (copyout_loop (chains buf) datlen))"

text \<open>Conversion of a wider value to the 32-bit \<open>int\<close> the function returns.\<close>

definition to_int32 :: "int \<Rightarrow> int" where
  "to_int32 i = sint (word_of_int i :: 32 word)"

definition evbuffer_remove :: "evbuffer \<Rightarrow> nat \<Rightarrow> (int \<times> byte list \<times> evbuffer) option" where
  "evbuffer_remove buf datlen = do {
     (n, bs) \<leftarrow> evbuffer_copyout buf datlen;
     if n > 0
     then do {
       (r, buf') \<leftarrow> evbuffer_drain buf (nat n);
       Some (to_int32 (if r < 0 then - 1 else n), bs, buf')
     }
     else Some (to_int32 n, bs, buf)
   }"

section \<open>Well-formed buffers\<close>

text \<open>The bytes in the buffer, and what \<^verbatim>\<open>evbuffer-internal.h\<close> says of \<open>last_with_datap\<close>.\<close>

definition evbuffer_content :: "evbuffer \<Rightarrow> byte list" where
  "evbuffer_content buf = concat (map chain_data (chains buf))"

definition lwd_ok :: "evbuffer_chain list \<Rightarrow> nat \<Rightarrow> bool" where
  "lwd_ok cs i \<longleftrightarrow>
     (if cs = [] then i = 0
      else i < length cs \<and> (i = 0 \<or> ch_off (cs ! i) \<noteq> 0) \<and>
           (\<forall>c \<in> set (drop (Suc i) cs). ch_off c = 0))"

definition evbuffer_wf :: "evbuffer \<Rightarrow> bool" where
  "evbuffer_wf buf \<longleftrightarrow>
     (\<forall>c \<in> set (chains buf). chain_wf c) \<and> total_len buf = sum_list (map ch_off (chains buf)) \<and>
     lwd_ok (chains buf) (last_with_datap buf)"

text \<open>No chain is empty, except the only one of an empty buffer.\<close>

definition evbuffer_tight :: "evbuffer \<Rightarrow> bool" where
  "evbuffer_tight buf \<longleftrightarrow> length (chains buf) \<le> 1 \<or> (\<forall>c \<in> set (chains buf). ch_off c \<noteq> 0)"

lemma evbuffer_wfD:
  assumes "evbuffer_wf buf"
  shows "\<And>c. c \<in> set (chains buf) \<Longrightarrow> chain_wf c"
    "total_len buf = sum_list (map ch_off (chains buf))"
    "lwd_ok (chains buf) (last_with_datap buf)"
  using assms by (auto simp: evbuffer_wf_def)

lemma length_concat_chain_data:
  "\<forall>c \<in> set cs. chain_wf c \<Longrightarrow> length (concat (map chain_data cs)) = sum_list (map ch_off cs)"
  by (induction cs) auto

lemma length_evbuffer_content: "evbuffer_wf buf \<Longrightarrow> length (evbuffer_content buf) = total_len buf"
  by (simp add: evbuffer_content_def length_concat_chain_data evbuffer_wf_def)

lemma evbuffer_wf_new: "evbuffer_wf evbuffer_new" "evbuffer_tight evbuffer_new"
    "evbuffer_content evbuffer_new = []"
  by (simp_all add: evbuffer_wf_def evbuffer_new_def lwd_ok_def evbuffer_tight_def evbuffer_content_def)

text \<open>
  A tight position is the last one. The invariant, written for the list of chains only.
\<close>

lemma wf_tight_iff:
  "evbuffer_wf buf \<and> evbuffer_tight buf \<longleftrightarrow>
     (\<forall>c \<in> set (chains buf). chain_wf c) \<and> total_len buf = sum_list (map ch_off (chains buf)) \<and>
     last_with_datap buf = length (chains buf) - 1 \<and>
     (2 \<le> length (chains buf) \<longrightarrow> (\<forall>c \<in> set (chains buf). ch_off c \<noteq> 0))"
  (is "?L \<longleftrightarrow> ?R")
proof
  assume L: ?L
  have lwd: "lwd_ok (chains buf) (last_with_datap buf)" using L by (simp add: evbuffer_wf_def)
  have "last_with_datap buf = length (chains buf) - 1"
  proof (cases "length (chains buf) \<le> 1")
    case True
    then show ?thesis using lwd by (cases "chains buf") (auto simp: lwd_ok_def)
  next
    case False
    then have ne: "\<forall>c \<in> set (chains buf). ch_off c \<noteq> 0" using L by (auto simp: evbuffer_tight_def)
    have "drop (Suc (last_with_datap buf)) (chains buf) = []"
    proof (rule ccontr)
      assume *: "drop (Suc (last_with_datap buf)) (chains buf) \<noteq> []"
      then have "hd (drop (Suc (last_with_datap buf)) (chains buf)) \<in> set (chains buf)"
        by (meson hd_in_set in_set_dropD)
      moreover have "ch_off (hd (drop (Suc (last_with_datap buf)) (chains buf))) = 0"
        using lwd * by (auto simp: lwd_ok_def split: if_splits)
      ultimately show False using ne by blast
    qed
    then show ?thesis using lwd False by (auto simp: lwd_ok_def split: if_splits)
  qed
  then show ?R using L by (auto simp: evbuffer_wf_def evbuffer_tight_def)
next
  assume ?R
  then show ?L
    by (cases "chains buf" rule: rev_cases)
      (auto simp: evbuffer_wf_def evbuffer_tight_def lwd_ok_def Suc_le_eq nth_append)
qed

subsection \<open>Callbacks leave the data alone\<close>

lemma log_free_simps [simp]:
  "chains (log_free buf es) = chains buf" "last_with_datap (log_free buf es) = last_with_datap buf"
  "total_len (log_free buf es) = total_len buf" "n_add_for_cb (log_free buf es) = n_add_for_cb buf"
  "n_del_for_cb (log_free buf es) = n_del_for_cb buf" "freeze_start (log_free buf es) = freeze_start buf"
  "freeze_end (log_free buf es) = freeze_end buf" "callbacks (log_free buf es) = callbacks buf"
  "deferred_cbs (log_free buf es) = deferred_cbs buf" "refcnt (log_free buf es) = refcnt buf"
  by (simp_all add: log_free_def)

lemma run_callbacks_simps [simp]:
  "chains (evbuffer_run_callbacks buf d) = chains buf"
  "last_with_datap (evbuffer_run_callbacks buf d) = last_with_datap buf"
  "total_len (evbuffer_run_callbacks buf d) = total_len buf"
  "freeze_start (evbuffer_run_callbacks buf d) = freeze_start buf"
  "freeze_end (evbuffer_run_callbacks buf d) = freeze_end buf"
  "callbacks (evbuffer_run_callbacks buf d) = callbacks buf"
  "deferred_cbs (evbuffer_run_callbacks buf d) = deferred_cbs buf"
  by (simp_all add: evbuffer_run_callbacks_def Let_def)

lemma invoke_callbacks_simps [simp]:
  "chains (evbuffer_invoke_callbacks buf) = chains buf"
  "last_with_datap (evbuffer_invoke_callbacks buf) = last_with_datap buf"
  "total_len (evbuffer_invoke_callbacks buf) = total_len buf"
  "freeze_start (evbuffer_invoke_callbacks buf) = freeze_start buf"
  "freeze_end (evbuffer_invoke_callbacks buf) = freeze_end buf"
  "callbacks (evbuffer_invoke_callbacks buf) = callbacks buf"
  "deferred_cbs (evbuffer_invoke_callbacks buf) = deferred_cbs buf"
  by (simp_all add: evbuffer_invoke_callbacks_def)

text \<open>Well-formedness and content depend on three fields only.\<close>

lemma wf_cong:
  assumes "chains buf' = chains buf" "last_with_datap buf' = last_with_datap buf"
    "total_len buf' = total_len buf"
  shows "evbuffer_wf buf' = evbuffer_wf buf" "evbuffer_tight buf' = evbuffer_tight buf"
    "evbuffer_content buf' = evbuffer_content buf"
  using assms by (simp_all add: evbuffer_wf_def evbuffer_tight_def evbuffer_content_def)

lemma invoke_callbacks_wf [simp]:
  "evbuffer_wf (evbuffer_invoke_callbacks buf) = evbuffer_wf buf"
  "evbuffer_tight (evbuffer_invoke_callbacks buf) = evbuffer_tight buf"
  "evbuffer_content (evbuffer_invoke_callbacks buf) = evbuffer_content buf"
  by (rule wf_cong; simp)+

lemma counter_updates_wf [simp]:
  "evbuffer_wf (buf\<lparr>n_add_for_cb := k\<rparr>) = evbuffer_wf buf"
  "evbuffer_tight (buf\<lparr>n_add_for_cb := k\<rparr>) = evbuffer_tight buf"
  "evbuffer_content (buf\<lparr>n_add_for_cb := k\<rparr>) = evbuffer_content buf"
  "evbuffer_wf (buf\<lparr>n_del_for_cb := k\<rparr>) = evbuffer_wf buf"
  "evbuffer_tight (buf\<lparr>n_del_for_cb := k\<rparr>) = evbuffer_tight buf"
  "evbuffer_content (buf\<lparr>n_del_for_cb := k\<rparr>) = evbuffer_content buf"
  "evbuffer_wf (log_free buf es) = evbuffer_wf buf"
  "evbuffer_tight (log_free buf es) = evbuffer_tight buf"
  "evbuffer_content (log_free buf es) = evbuffer_content buf"
  by (rule wf_cong; simp)+

text \<open>The settings of a buffer that no data operation changes; none drops a reference.\<close>

definition same_settings :: "evbuffer \<Rightarrow> evbuffer \<Rightarrow> bool" where
  "same_settings buf buf' \<longleftrightarrow>
     freeze_start buf' = freeze_start buf \<and> freeze_end buf' = freeze_end buf \<and>
     callbacks buf' = callbacks buf \<and> deferred_cbs buf' = deferred_cbs buf \<and> refcnt buf \<le> refcnt buf'"

lemma same_settings_refl [simp]: "same_settings buf buf"
  by (simp add: same_settings_def)

lemma same_settings_trans: "same_settings a b \<Longrightarrow> same_settings b c \<Longrightarrow> same_settings a c"
  by (simp add: same_settings_def)

subsection \<open>Inserting a chain\<close>

text \<open>
  In a tight buffer a chain with data is appended, after the single empty chain of an
  otherwise empty buffer has been dropped.
\<close>

lemma chain_insert_tight:
  assumes "evbuffer_wf buf" "evbuffer_tight buf" "chain_wf c"
    and "ch_off c \<noteq> 0 \<or> chains buf = [] \<or> total_len buf = 0"
  obtains buf' where "evbuffer_chain_insert buf c = Some buf'"
    "evbuffer_wf buf'" "evbuffer_tight buf'" "same_settings buf buf'"
    "evbuffer_content buf' = evbuffer_content buf @ chain_data c"
    "last (chains buf') = c" "chains buf' \<noteq> []" "n_add_for_cb buf' = n_add_for_cb buf"
    "total_len buf' = total_len buf + ch_off c"
proof -
  note D = evbuffer_wfD[OF assms(1)]
  consider (none) "chains buf = []"
    | (one) c0 where "chains buf = [c0]" "ch_off c0 = 0"
    | (more) cs c0 where "chains buf = cs @ [c0]" "ch_off c0 \<noteq> 0"
  proof (cases "chains buf" rule: rev_cases)
    case (snoc cs c0)
    then show ?thesis
      using that assms(1,2) wf_tight_iff[of buf] by (cases cs) auto
  qed (use that in blast)
  then show ?thesis
  proof cases
    case none
    then have "last_with_datap buf = 0" "total_len buf = 0" using D by (auto simp: lwd_ok_def)
    then show ?thesis
      using that[of "buf\<lparr>chains := [c], total_len := total_len buf + ch_off c\<rparr>"] none assms(3)
      by (simp add: evbuffer_chain_insert_def evbuffer_wf_def lwd_ok_def evbuffer_tight_def
          evbuffer_content_def same_settings_def)
  next
    case one
    then have "last_with_datap buf = 0" "total_len buf = 0" "\<not> CHAIN_PINNED c0" "chain_data c0 = []"
      using D by (auto simp: lwd_ok_def chain_data_empty_iff)
    then show ?thesis
      using that[of "log_free (buf\<lparr>chains := [c], total_len := total_len buf + ch_off c\<rparr>)
          (evbuffer_free_all_chains [c0])"] one assms(3)
      by (simp add: evbuffer_chain_insert_def victim_pos_def evbuffer_wf_def lwd_ok_def evbuffer_tight_def
          evbuffer_content_def same_settings_def)
  next
    case more
    then have lwd: "last_with_datap buf = length cs" and off: "ch_off c \<noteq> 0"
      and ne: "\<forall>c \<in> set cs. ch_off c \<noteq> 0"
      using assms D wf_tight_iff[of buf] by (cases cs; auto)+
    then have "victim_pos buf = length (chains buf)"
      using more by (simp add: victim_pos_def)
    then show ?thesis
      using that[of "buf\<lparr>chains := chains buf @ [c], last_with_datap := length (chains buf),
          total_len := total_len buf + ch_off c\<rparr>"] more lwd off ne assms(3) D
      by (auto simp: evbuffer_chain_insert_def evbuffer_wf_def lwd_ok_def evbuffer_tight_def
          evbuffer_content_def same_settings_def nth_append)
  qed
qed

lemma chain_insert_new_tight:
  assumes "evbuffer_wf buf" "evbuffer_tight buf" "chains buf = []" "sz \<le> CHAIN_MAX_REQUEST"
  obtains (fail) m where "evbuffer_chain_insert_new malloc buf sz = Some (buf, False)" "malloc m = None"
    | (ok) buf' c where "evbuffer_chain_insert_new malloc buf sz = Some (buf', True)"
    "evbuffer_wf buf'" "evbuffer_tight buf'" "same_settings buf buf'"
    "evbuffer_content buf' = evbuffer_content buf" "chains buf' = [c]"
    "\<not> ch_has EVBUFFER_IMMUTABLE c" "sz \<le> buffer_len c" "misalign c = 0" "ch_off c = 0"
    "n_add_for_cb buf' = n_add_for_cb buf" "total_len buf' = total_len buf"
proof -
  obtain r where r: "evbuffer_chain_new malloc sz = Some r"
    "\<And>c. r = Some c \<Longrightarrow> chain_wf c \<and> ch_off c = 0 \<and> misalign c = 0 \<and> sz \<le> buffer_len c \<and>
          976 \<le> buffer_len c \<and> ch_flags c = 0 \<and> chain_data c = []"
    "r = None \<Longrightarrow> \<exists>m. malloc m = None"
    using chain_new_returns[OF assms(4)] by metis
  show ?thesis
  proof (cases r)
    case None
    then show ?thesis using r fail by (auto simp: evbuffer_chain_insert_new_def)
  next
    case (Some c)
    note c = r(2)[OF Some]
    have ins: "evbuffer_chain_insert buf c = Some (buf\<lparr>chains := [c], total_len := total_len buf + ch_off c\<rparr>)"
      using assms by (simp add: evbuffer_chain_insert_def evbuffer_wf_def lwd_ok_def)
    have imm: "\<not> ch_has EVBUFFER_IMMUTABLE c" using c by (simp add: ch_has_def)
    let ?b = "buf\<lparr>chains := [c], total_len := total_len buf + ch_off c\<rparr>"
    have "evbuffer_wf ?b" "evbuffer_tight ?b" "evbuffer_content ?b = evbuffer_content buf"
      using c assms by (simp_all add: evbuffer_wf_def lwd_ok_def evbuffer_tight_def evbuffer_content_def)
    then show ?thesis
      using ok[of ?b c] r(1) ins imm c Some
      by (simp add: evbuffer_chain_insert_new_def same_settings_def)
  qed
qed

subsection \<open>Replacing the last or the first chain\<close>

lemma set_last_tight:
  assumes "evbuffer_wf buf" "evbuffer_tight buf" "chains buf \<noteq> []" "chain_wf c"
    and "chain_data c = chain_data (last (chains buf)) @ bs"
  shows "evbuffer_wf (count_added (set_last buf c) (length bs))"
    "evbuffer_tight (count_added (set_last buf c) (length bs))"
    "evbuffer_content (count_added (set_last buf c) (length bs)) = evbuffer_content buf @ bs"
proof -
  obtain cs c0 where cs: "chains buf = cs @ [c0]" using assms(3) by (metis rev_exhaust)
  note T = iffD1[OF wf_tight_iff conjI[OF assms(1,2)]]
  have "chain_wf c0" using T cs by simp
  then have off: "ch_off c = ch_off c0 + length bs"
    using assms(4,5) cs by (metis last_snoc length_append length_chain_data)
  have "evbuffer_wf (count_added (set_last buf c) (length bs)) \<and>
        evbuffer_tight (count_added (set_last buf c) (length bs))"
    unfolding wf_tight_iff using T cs off assms(4)
    by (auto simp: count_added_def set_last_def)
  then show "evbuffer_wf (count_added (set_last buf c) (length bs))"
    "evbuffer_tight (count_added (set_last buf c) (length bs))" by blast+
  show "evbuffer_content (count_added (set_last buf c) (length bs)) = evbuffer_content buf @ bs"
    using cs assms(5) by (simp add: evbuffer_content_def count_added_def set_last_def)
qed

lemma count_set_simps [simp]:
  "n_add_for_cb (count_added buf k) = n_add_for_cb buf + k"
  "total_len (count_added buf k) = total_len buf + k"
  "same_settings buf (count_added (set_last buf c) k)"
  "same_settings buf (count_added (set_first buf c) k)"
  "same_settings buf (set_first buf c)"
  "n_add_for_cb (set_last buf c) = n_add_for_cb buf"
  "total_len (set_last buf c) = total_len buf"
  by (simp_all add: count_added_def set_last_def set_first_def same_settings_def)

lemma refcnt_invoke_callbacks [simp]: "refcnt b \<le> refcnt (evbuffer_invoke_callbacks b)"
  by (simp add: evbuffer_invoke_callbacks_def evbuffer_run_callbacks_def Let_def)

lemma invoke_callbacks_keeps_settings [simp]:
  "same_settings buf b \<Longrightarrow> same_settings buf (evbuffer_invoke_callbacks b)"
  using order_trans[OF _ refcnt_invoke_callbacks[of b], of "refcnt buf"] by (simp add: same_settings_def)

lemma invoke_callbacks_settings [simp]:
  "same_settings buf (b\<lparr>n_add_for_cb := k\<rparr>) = same_settings buf b"
  "same_settings buf (b\<lparr>n_del_for_cb := k\<rparr>) = same_settings buf b"
  "same_settings buf (log_free b es) = same_settings buf b"
  by (simp_all add: same_settings_def)

section \<open>Correctness of the operations\<close>

text \<open>
  A buffer without read-only chains is plain.
  The outcome of adding bytes: all of them are appended and the result is 0, or nothing is
  stored and the result is -1, which happens only when the allocator fails.
\<close>

definition evbuffer_plain :: "evbuffer \<Rightarrow> bool" where
  "evbuffer_plain buf \<longleftrightarrow> (\<forall>c \<in> set (chains buf). \<not> ch_has EVBUFFER_IMMUTABLE c)"

lemma invoke_callbacks_plain [simp]:
  "evbuffer_plain (evbuffer_invoke_callbacks buf) = evbuffer_plain buf"
  "evbuffer_plain (buf\<lparr>n_add_for_cb := k\<rparr>) = evbuffer_plain buf"
  "evbuffer_plain (buf\<lparr>n_del_for_cb := k\<rparr>) = evbuffer_plain buf"
  "evbuffer_plain (log_free buf es) = evbuffer_plain buf"
  by (simp_all add: evbuffer_plain_def)

lemma set_last_plain:
  "evbuffer_plain buf \<Longrightarrow> \<not> ch_has EVBUFFER_IMMUTABLE c \<Longrightarrow> evbuffer_plain (count_added (set_last buf c) k)"
  by (auto simp: evbuffer_plain_def count_added_def set_last_def dest: in_set_butlastD)

definition add_outcome ::
  "allocator \<Rightarrow> evbuffer \<Rightarrow> byte list \<Rightarrow> int \<Rightarrow> evbuffer \<Rightarrow> bool" where
  "add_outcome malloc buf bs r buf' \<longleftrightarrow>
     evbuffer_wf buf' \<and> evbuffer_tight buf' \<and> same_settings buf buf' \<and>
     (evbuffer_plain buf \<longrightarrow> evbuffer_plain buf') \<and>
     (r = 0 \<and> evbuffer_content buf' = evbuffer_content buf @ bs \<or>
      r = - 1 \<and> evbuffer_content buf' = evbuffer_content buf \<and> (\<exists>m. malloc m = None))"

lemma chain_write_simps [simp]:
  "ch_flags (chain_write c i bs) = ch_flags c" "buffer_len (chain_write c i bs) = buffer_len c"
  "misalign (chain_write c i bs) = misalign c" "ch_off (chain_write c i bs) = ch_off c"
  "ch_buffer (chain_write c i bs) = ch_buffer c"
  by (simp_all add: chain_write_def)

lemma chain_insert_plain:
  "evbuffer_chain_insert buf c = Some buf' \<Longrightarrow> evbuffer_plain buf \<Longrightarrow> \<not> ch_has EVBUFFER_IMMUTABLE c \<Longrightarrow>
   evbuffer_plain buf'"
  by (auto simp: evbuffer_chain_insert_def evbuffer_plain_def Let_def split: if_splits)
    (meson in_set_takeD)

lemma add_grow_ok:
  assumes wf: "evbuffer_wf buf" "evbuffer_tight buf" and ne: "chains buf \<noteq> []"
    and remain: "remain = 0 \<or> \<not> ch_has EVBUFFER_IMMUTABLE (last (chains buf))"
      "remain \<le> buffer_len (last (chains buf)) - misalign (last (chains buf)) - ch_off (last (chains buf))"
    and more: "remain < length data"
    and tmp: "chain_wf tmp \<and> ch_off tmp = 0 \<and> misalign tmp = 0 \<and> length data \<le> buffer_len tmp \<and>
              ch_flags tmp = 0 \<and> chain_data tmp = []"
  obtains buf' where "add_grow buf data remain tmp = Some (0, buf')" "evbuffer_wf buf'" "evbuffer_tight buf'"
    "same_settings buf buf'" "evbuffer_content buf' = evbuffer_content buf @ data"
    "evbuffer_plain buf \<Longrightarrow> evbuffer_plain buf'"
proof -
  let ?c = "last (chains buf)"
  have c: "chain_wf ?c" using evbuffer_wfD(1)[OF wf(1)] ne by simp
  let ?c' = "(chain_write ?c (misalign ?c + ch_off ?c) (take remain data))\<lparr>ch_off := ch_off ?c + remain\<rparr>"
  define buf1 where "buf1 = (if remain \<noteq> 0 then count_added (set_last buf ?c') remain else buf)"
  have buf1: "evbuffer_wf buf1 \<and> evbuffer_tight buf1 \<and> same_settings buf buf1 \<and>
      evbuffer_content buf1 = evbuffer_content buf @ take remain data \<and>
      (evbuffer_plain buf \<longrightarrow> evbuffer_plain buf1)"
  proof (cases "remain = 0")
    case True
    then show ?thesis using wf by (simp add: buf1_def)
  next
    case False
    then have imm: "\<not> ch_has EVBUFFER_IMMUTABLE ?c" using remain(1) by simp
    have len: "length (take remain data) = remain" using more by simp
    note app = chain_append_in_place[OF c imm, of "take remain data", unfolded len, OF remain(2)]
    show ?thesis
      using False set_last_tight[OF wf ne app(2,1)] set_last_plain[of buf ?c' remain] imm len
      by (simp add: buf1_def ch_has_def)
  qed
  let ?rest = "drop remain data"
  let ?t = "(chain_write tmp 0 ?rest)\<lparr>ch_off := length ?rest\<rparr>"
  have imm: "\<not> ch_has EVBUFFER_IMMUTABLE tmp" using tmp by (simp add: ch_has_def)
  have "length ?rest \<le> buffer_len tmp - misalign tmp - ch_off tmp" using tmp by auto
  note app = chain_append_in_place[OF conjunct1[OF tmp] imm this]
  have t: "chain_wf ?t" "chain_data ?t = ?rest" "\<not> ch_has EVBUFFER_IMMUTABLE ?t"
    using app tmp imm by (simp_all add: ch_has_def)
  have "ch_off ?t \<noteq> 0" using more by simp
  then obtain buf2 where buf2: "evbuffer_chain_insert buf1 ?t = Some buf2" "evbuffer_wf buf2"
    "evbuffer_tight buf2" "same_settings buf1 buf2"
    "evbuffer_content buf2 = evbuffer_content buf1 @ ?rest"
    using chain_insert_tight[of buf1 ?t] buf1 t by metis
  have "add_grow buf data remain tmp =
      Some (0, evbuffer_invoke_callbacks (buf2\<lparr>n_add_for_cb := n_add_for_cb buf2 + length ?rest\<rparr>))"
    using buf2(1) by (simp add: add_grow_def Let_def buf1_def)
  then show ?thesis
    using that buf1 buf2 chain_insert_plain[OF buf2(1)] t(3) same_settings_trans by auto
qed

text \<open>The step of \<open>evbuffer_add\<close> that follows the choice of the last chain.\<close>

lemma evbuffer_add_nonempty:
  assumes wf: "evbuffer_wf buf" "evbuffer_tight buf" and ne: "chains buf \<noteq> []"
    and fr: "\<not> freeze_end buf" and len: "length data \<le> CHAIN_MAX_REQUEST"
    and last: "data \<noteq> [] \<or> \<not> ch_has EVBUFFER_IMMUTABLE (last (chains buf))"
  shows "\<exists>r buf'. evbuffer_add malloc buf data = Some (r, buf') \<and> add_outcome malloc buf data r buf'"
proof -
  let ?c = "last (chains buf)"
  have c: "chain_wf ?c" using evbuffer_wfD(1)[OF wf(1)] ne by simp
  let ?remain = "if ch_has EVBUFFER_IMMUTABLE ?c then 0 else buffer_len ?c - misalign ?c - ch_off ?c"
  consider (fits) "\<not> ch_has EVBUFFER_IMMUTABLE ?c" "length data \<le> ?remain"
    | (realign) "\<not> ch_has EVBUFFER_IMMUTABLE ?c" "\<not> length data \<le> ?remain"
        "evbuffer_chain_should_realign ?c (length data)"
    | (grow) "ch_has EVBUFFER_IMMUTABLE ?c \<or> \<not> length data \<le> ?remain"
        "ch_has EVBUFFER_IMMUTABLE ?c \<or> \<not> evbuffer_chain_should_realign ?c (length data)"
    by blast
  then show ?thesis
  proof cases
    case fits
    let ?c' = "(chain_write ?c (misalign ?c + ch_off ?c) data)\<lparr>ch_off := ch_off ?c + length data\<rparr>"
    have "length data \<le> buffer_len ?c - misalign ?c - ch_off ?c" using fits by simp
    note app = chain_append_in_place[OF c fits(1) this]
    have "evbuffer_add malloc buf data =
        Some (0, evbuffer_invoke_callbacks (count_added (set_last buf ?c') (length data)))"
      using fits fr ne by (simp add: evbuffer_add_def Let_def)
    then show ?thesis
      using set_last_tight[OF wf ne app(2,1)] set_last_plain[of buf ?c'] fits(1)
      by (simp add: add_outcome_def ch_has_def)
  next
    case realign
    obtain c' where c': "evbuffer_chain_align ?c = Some c'" "chain_wf c'" "chain_data c' = chain_data ?c"
      "misalign c' = 0" "ch_off c' = ch_off ?c" "buffer_len c' = buffer_len ?c" "ch_flags c' = ch_flags ?c"
      using chain_align_ok[OF c realign(1)] by blast
    let ?d = "(chain_write c' (ch_off c') data)\<lparr>ch_off := ch_off c' + length data\<rparr>"
    have "\<not> ch_has EVBUFFER_IMMUTABLE c'" "length data \<le> buffer_len c' - misalign c' - ch_off c'"
      using realign c' by (simp_all add: ch_has_def evbuffer_chain_should_realign_def)
    note app = chain_append_in_place[OF c'(2) this, unfolded c'(3,4) add_0]
    have "evbuffer_add malloc buf data =
        Some (0, evbuffer_invoke_callbacks (count_added (set_last buf ?d) (length data)))"
      using realign fr ne c'(1) c by (simp add: evbuffer_add_def Let_def)
    then show ?thesis
      using set_last_tight[OF wf ne app(2,1)] set_last_plain[of buf ?d] realign(1) c'
      by (simp add: add_outcome_def ch_has_def)
  next
    case grow
    have more: "?remain < length data" using grow last by auto
    define to_alloc where "to_alloc = add_to_alloc ?c (length data)"
    have "to_alloc \<le> CHAIN_MAX_REQUEST" "length data \<le> to_alloc"
      using c len by (auto simp: to_alloc_def add_to_alloc_def chain_wf_def Let_def
          EVBUFFER_CHAIN_MAX_AUTO_SIZE_def CHAIN_MAX_REQUEST_def EVBUFFER_CHAIN_SIZE_def)
    note to_alloc = this
    obtain t where t: "evbuffer_chain_new malloc to_alloc = Some t"
      "\<And>tmp. t = Some tmp \<Longrightarrow> chain_wf tmp \<and> ch_off tmp = 0 \<and> misalign tmp = 0 \<and>
         length data \<le> buffer_len tmp \<and> ch_flags tmp = 0 \<and> chain_data tmp = []"
      "t = None \<Longrightarrow> \<exists>m. malloc m = None"
      using chain_new_returns[OF to_alloc(1), of malloc] to_alloc(2)
      by (smt (verit) order_trans)
    have "\<not> (\<not> ch_has EVBUFFER_IMMUTABLE ?c \<and> length data \<le> ?remain)"
      "\<not> (\<not> ch_has EVBUFFER_IMMUTABLE ?c \<and> \<not> CHAIN_PINNED ?c \<and>
          evbuffer_chain_should_realign ?c (length data))"
      using grow by blast+
    then have step: "evbuffer_add malloc buf data =
      (case t of None \<Rightarrow> Some (- 1, buf) | Some tmp \<Rightarrow> add_grow buf data ?remain tmp)"
      using fr ne t(1) unfolding evbuffer_add_def Let_def to_alloc_def
      by (simp only: if_False simp_thms bind.bind_lunit prod.case)
    show ?thesis
    proof (cases t)
      case None
      then show ?thesis using step wf t(3) by (auto simp: add_outcome_def)
    next
      case (Some tmp)
      have "?remain = 0 \<or> \<not> ch_has EVBUFFER_IMMUTABLE ?c" "?remain \<le> buffer_len ?c - misalign ?c - ch_off ?c"
        by auto
      from add_grow_ok[OF wf ne this more t(2)[OF Some]]
      obtain buf' where "add_grow buf data ?remain tmp = Some (0, buf')" "add_outcome malloc buf data 0 buf'"
        unfolding add_outcome_def by metis
      then show ?thesis unfolding step Some option.case by blast
    qed
  qed
qed

lemma evbuffer_add_ok:
  assumes "evbuffer_wf buf" "evbuffer_tight buf" "\<not> freeze_end buf" "length data \<le> CHAIN_MAX_REQUEST"
    and "data \<noteq> [] \<or> chains buf = [] \<or> \<not> ch_has EVBUFFER_IMMUTABLE (last (chains buf))"
  shows "\<exists>r buf'. evbuffer_add malloc buf data = Some (r, buf') \<and> add_outcome malloc buf data r buf'"
proof (cases "chains buf = []")
  case False
  then show ?thesis using assms evbuffer_add_nonempty by blast
next
  case True
  show ?thesis
  proof (cases rule: chain_insert_new_tight[OF assms(1,2) True assms(4), of malloc])
    case (1 m)
    then have "evbuffer_add malloc buf data = Some (- 1, buf)"
      using True assms(3) by (simp add: evbuffer_add_def)
    then show ?thesis using assms(1,2) 1(2) by (auto simp: add_outcome_def)
  next
    case (2 buf' c)
    then have fr: "\<not> freeze_end buf'" "chains buf' \<noteq> []" "evbuffer_plain buf'"
      using assms(3) by (auto simp: same_settings_def evbuffer_plain_def)
    have "evbuffer_add malloc buf data = evbuffer_add malloc buf' data"
      using 2(1,6) True assms(3) fr by (simp add: evbuffer_add_def)
    moreover obtain r b where "evbuffer_add malloc buf' data = Some (r, b)" "add_outcome malloc buf' data r b"
      using evbuffer_add_nonempty[OF 2(2,3) fr(2,1) assms(4), of malloc] 2(6,7) by auto
    ultimately show ?thesis
      using 2(4,5) fr(3) same_settings_trans by (auto simp: add_outcome_def)
  qed
qed

subsection \<open>Draining and copying out\<close>

lemma drain_loop_ok:
  assumes "\<forall>c \<in> set cs. chain_wf c" "n < sum_list (map ch_off cs)"
  shows "\<exists>k c es. drain_loop cs n = Some (c # drop (Suc k) cs, k, False, es) \<and> k < length cs \<and>
           chain_wf c \<and> 0 < ch_off c \<and> 0 < ch_off (cs ! k) \<and> ch_flags c = ch_flags (cs ! k) \<and>
           concat (map chain_data (c # drop (Suc k) cs)) = drop n (concat (map chain_data cs))"
  using assms
proof (induction cs arbitrary: n)
  case (Cons d ds)
  show ?case
  proof (cases "ch_off d \<le> n")
    case True
    then obtain k c es where *: "drain_loop ds (n - ch_off d) = Some (c # drop (Suc k) ds, k, False, es)"
      "k < length ds" "chain_wf c" "0 < ch_off c" "0 < ch_off (ds ! k)" "ch_flags c = ch_flags (ds ! k)"
      "concat (map chain_data (c # drop (Suc k) ds)) = drop (n - ch_off d) (concat (map chain_data ds))"
      using Cons.IH[of "n - ch_off d"] Cons.prems by (force simp: less_diff_conv2)
    have "drop n (chain_data d @ xs) = drop (n - ch_off d) xs" for xs
      using True Cons.prems(1) by simp
    with * True Cons.prems(1) show ?thesis
      by (intro exI[of _ "Suc k"] exI[of _ c] exI[of _ "evbuffer_chain_free d @ es"]) simp
  next
    case False
    then show ?thesis
      using Cons.prems(1) chain_take_front[of d n]
      by (intro exI[of _ 0] exI[of _ "d\<lparr>misalign := misalign d + n, ch_off := ch_off d - n\<rparr>"] exI[of _ "[]"])
        simp
  qed
qed simp

text \<open>Dropping \<open>k\<close> chains before the last chain with data shifts its position by \<open>k\<close>.\<close>

lemma lwd_ok_drop:
  assumes "lwd_ok cs i" "k < length cs" "0 < ch_off (cs ! k)" "0 < ch_off c"
  shows "lwd_ok (c # drop (Suc k) cs) (i - k)" "k \<le> i"
proof -
  have i: "i < length cs" and after: "\<forall>c \<in> set (drop (Suc i) cs). ch_off c = 0"
    and off: "i = 0 \<or> ch_off (cs ! i) \<noteq> 0"
    using assms(1,2) by (auto simp: lwd_ok_def split: if_splits)
  show ki: "k \<le> i"
  proof (rule ccontr)
    assume "\<not> k \<le> i"
    then have "cs ! k \<in> set (drop (Suc i) cs)"
      using assms(2) by (auto simp: in_set_conv_nth intro: exI[of _ "k - Suc i"])
    then show False using after assms(3) by auto
  qed
  have "drop (i - k) (drop (Suc k) cs) = drop (Suc i) cs" using ki by simp
  then show "lwd_ok (c # drop (Suc k) cs) (i - k)"
    using ki i after off assms(4) by (auto simp: lwd_ok_def nth_Cons')
qed

lemma plain_drop:
  assumes "\<forall>c \<in> set cs. \<not> ch_has EVBUFFER_IMMUTABLE c" "k < length cs" "ch_flags c = ch_flags (cs ! k)"
  shows "\<forall>c \<in> set (c # drop (Suc k) cs). \<not> ch_has EVBUFFER_IMMUTABLE c"
  using assms by (auto simp: ch_has_def dest: in_set_dropD nth_mem)

lemma evbuffer_drain_ok:
  assumes wf: "evbuffer_wf buf" and fr: "\<not> freeze_start buf"
  shows "\<exists>buf'. evbuffer_drain buf len = Some (0, buf') \<and> evbuffer_wf buf' \<and> same_settings buf buf' \<and>
           (evbuffer_tight buf \<longrightarrow> evbuffer_tight buf') \<and> (evbuffer_plain buf \<longrightarrow> evbuffer_plain buf') \<and>
           evbuffer_content buf' = drop len (evbuffer_content buf)"
proof -
  note D = evbuffer_wfD[OF wf]
  have np: "\<not> HAS_PINNED_R buf" using D(1) by (auto simp: HAS_PINNED_R_def)
  consider (empty) "total_len buf = 0" | (all) "total_len buf \<noteq> 0" "total_len buf \<le> len"
    | (part) "total_len buf \<noteq> 0" "len < total_len buf" by linarith
  then show ?thesis
  proof cases
    case empty
    then show ?thesis using wf length_evbuffer_content[OF wf] by (simp add: evbuffer_drain_def)
  next
    case all
    let ?b = "ZERO_CHAIN (log_free buf (evbuffer_free_all_chains (chains buf)))"
    have "evbuffer_wf ?b \<and> evbuffer_tight ?b \<and> evbuffer_plain ?b \<and> evbuffer_content ?b = [] \<and> same_settings buf ?b"
      by (simp add: evbuffer_wf_def lwd_ok_def evbuffer_tight_def evbuffer_content_def ZERO_CHAIN_def
          evbuffer_plain_def same_settings_def)
    then show ?thesis
      using all np fr length_evbuffer_content[OF wf] by (simp add: evbuffer_drain_def Let_def)
  next
    case part
    obtain k c es where *: "drain_loop (chains buf) len = Some (c # drop (Suc k) (chains buf), k, False, es)"
      "k < length (chains buf)" "chain_wf c" "0 < ch_off c" "0 < ch_off (chains buf ! k)"
      "ch_flags c = ch_flags (chains buf ! k)"
      "concat (map chain_data (c # drop (Suc k) (chains buf))) = drop len (evbuffer_content buf)"
      using drain_loop_ok[of "chains buf" len] D part unfolding evbuffer_content_def by auto
    define buf1 where "buf1 = buf\<lparr>total_len := total_len buf - len, chains := c # drop (Suc k) (chains buf),
      last_with_datap := last_with_datap buf - k\<rparr>"
    note lwd = lwd_ok_drop[OF D(3) *(2,5,4)]
    have wfs: "\<forall>d \<in> set (chains buf1). chain_wf d"
      using D(1) *(3) by (auto simp: buf1_def dest: in_set_dropD)
    then have "sum_list (map ch_off (chains buf1)) = length (drop len (evbuffer_content buf))"
      unfolding *(7)[symmetric] using length_concat_chain_data[OF wfs] by (simp add: buf1_def)
    then have "evbuffer_wf buf1"
      using wfs lwd(1) length_evbuffer_content[OF wf] by (simp add: evbuffer_wf_def buf1_def)
    moreover have "evbuffer_tight buf \<longrightarrow> evbuffer_tight buf1"
      using *(2,4) by (auto simp: evbuffer_tight_def buf1_def dest: in_set_dropD)
    moreover have "evbuffer_content buf1 = drop len (evbuffer_content buf)"
      using *(7) by (simp add: evbuffer_content_def buf1_def)
    moreover have "evbuffer_plain buf \<longrightarrow> evbuffer_plain buf1"
      using plain_drop[OF _ *(2,6)] by (simp add: evbuffer_plain_def buf1_def)
    moreover have "same_settings buf buf1" by (simp add: same_settings_def buf1_def)
    moreover have "evbuffer_drain buf len = Some (0, evbuffer_invoke_callbacks
        ((log_free buf1 es)\<lparr>n_del_for_cb := n_del_for_cb (log_free buf1 es) + len\<rparr>))"
      using part fr *(1) by (simp add: evbuffer_drain_def Let_def buf1_def)
    ultimately show ?thesis by (simp only: option.inject prod.inject) auto
  qed
qed

lemma copyout_loop_ok:
  assumes "\<forall>c \<in> set cs. chain_wf c" "n \<le> sum_list (map ch_off cs)"
  shows "copyout_loop cs n = Some (take n (concat (map chain_data cs)))"
  using assms
proof (induction cs arbitrary: n)
  case (Cons d ds)
  have len: "length (chain_data d) = ch_off d" using Cons.prems by simp
  show ?case
  proof (cases "ch_off d \<le> n \<and> n \<noteq> 0")
    case True
    then have "copyout_loop ds (n - ch_off d) = Some (take (n - ch_off d) (concat (map chain_data ds)))"
      using Cons.IH[of "n - ch_off d"] Cons.prems by simp
    moreover have "\<not> (ds = [] \<and> n - ch_off d \<noteq> 0)" using Cons.prems by auto
    ultimately show ?thesis using True len by simp
  next
    case False
    then show ?thesis using len by auto
  qed
qed simp

lemma evbuffer_copyout_ok:
  assumes wf: "evbuffer_wf buf" and fr: "\<not> freeze_start buf"
  shows "evbuffer_copyout buf len =
    Some (int (min len (total_len buf)), take len (evbuffer_content buf))"
proof -
  note D = evbuffer_wfD[OF wf]
  have "copyout_loop (chains buf) (min len (total_len buf)) = Some (take len (evbuffer_content buf))"
    using copyout_loop_ok[of "chains buf" "min len (total_len buf)"] D length_evbuffer_content[OF wf]
    by (simp add: evbuffer_content_def min_def)
  moreover have "take len (evbuffer_content buf) = []" if "min len (total_len buf) = 0"
    using that length_evbuffer_content[OF wf] by (auto simp: min_def split: if_splits)
  ultimately show ?thesis
    using fr by (auto simp: evbuffer_copyout_def min_def Let_def)
qed

lemma to_int32_small: "0 \<le> i \<Longrightarrow> i < 2 ^ 31 \<Longrightarrow> to_int32 i = i"
  by (simp add: to_int32_def signed_of_int signed_take_bit_int_eq_self)

lemma evbuffer_remove_ok:
  assumes wf: "evbuffer_wf buf" and fr: "\<not> freeze_start buf"
  shows "\<exists>buf'. evbuffer_remove buf len =
             Some (to_int32 (int (min len (total_len buf))), take len (evbuffer_content buf), buf') \<and>
           evbuffer_wf buf' \<and> same_settings buf buf' \<and>
           (evbuffer_tight buf \<longrightarrow> evbuffer_tight buf') \<and> (evbuffer_plain buf \<longrightarrow> evbuffer_plain buf') \<and>
           evbuffer_content buf' = drop len (evbuffer_content buf)"
proof (cases "min len (total_len buf) = 0")
  case True
  then have "drop len (evbuffer_content buf) = evbuffer_content buf"
    using length_evbuffer_content[OF wf] by (auto simp: min_def split: if_splits)
  then show ?thesis
    using True wf evbuffer_copyout_ok[OF assms, of len] by (simp add: evbuffer_remove_def)
next
  case False
  have "drop (min len (total_len buf)) (evbuffer_content buf) = drop len (evbuffer_content buf)"
    using length_evbuffer_content[OF wf] by (simp add: min_def)
  then show ?thesis
    using False evbuffer_copyout_ok[OF assms, of len] evbuffer_drain_ok[OF assms, of "min len (total_len buf)"]
    by (auto simp: evbuffer_remove_def)
qed

subsection \<open>Prepending\<close>

lemma set_first_ok:
  assumes "evbuffer_wf buf" "chains buf \<noteq> []" "chain_wf c"
    and "chain_data c = bs @ chain_data (hd (chains buf))"
  shows "evbuffer_wf (count_added (set_first buf c) (length bs))"
    "evbuffer_tight buf \<Longrightarrow> evbuffer_tight (count_added (set_first buf c) (length bs))"
    "evbuffer_content (count_added (set_first buf c) (length bs)) = bs @ evbuffer_content buf"
proof -
  obtain c0 cs where cs: "chains buf = c0 # cs" using assms(2) by (cases "chains buf") auto
  note D = evbuffer_wfD[OF assms(1)]
  have off: "ch_off c = ch_off c0 + length bs"
    using assms(3,4) cs D(1)[of c0] by (metis add.commute length_append length_chain_data list.sel(1) list.set_intros(1))
  show "evbuffer_wf (count_added (set_first buf c) (length bs))"
    using D cs off assms(3) by (auto simp: evbuffer_wf_def count_added_def set_first_def lwd_ok_def nth_Cons')
  show "evbuffer_tight (count_added (set_first buf c) (length bs))"
    if "evbuffer_tight buf"
    using cs off that by (auto simp: evbuffer_tight_def count_added_def set_first_def)
  show "evbuffer_content (count_added (set_first buf c) (length bs)) = bs @ evbuffer_content buf"
    using cs assms(4) by (simp add: evbuffer_content_def count_added_def set_first_def)
qed

lemma set_first_plain:
  "evbuffer_plain buf \<Longrightarrow> \<not> ch_has EVBUFFER_IMMUTABLE c \<Longrightarrow> evbuffer_plain (count_added (set_first buf c) k)"
  by (cases "chains buf") (auto simp: evbuffer_plain_def count_added_def set_first_def)

lemma prepend_chain_ok:
  assumes "evbuffer_wf buf" "chains buf \<noteq> []" "chain_wf t" "last_with_datap buf = 0 \<Longrightarrow> ch_off (hd (chains buf)) \<noteq> 0"
    and buf'_def: "buf' = buf\<lparr>chains := t # chains buf, last_with_datap := last_with_datap buf + 1,
                              total_len := total_len buf + ch_off t, n_add_for_cb := n\<rparr>"
  shows "evbuffer_wf buf'"
    "evbuffer_tight buf \<Longrightarrow> ch_off t \<noteq> 0 \<Longrightarrow> ch_off (hd (chains buf)) \<noteq> 0 \<Longrightarrow> evbuffer_tight buf'"
    "evbuffer_content buf' = chain_data t @ evbuffer_content buf" "same_settings buf buf'"
  using assms(1-4) unfolding buf'_def
  by (atomize (full), cases "chains buf") (auto simp: evbuffer_wf_def lwd_ok_def evbuffer_tight_def evbuffer_content_def same_settings_def hd_conv_nth)

definition prepend_outcome ::
  "allocator \<Rightarrow> evbuffer \<Rightarrow> byte list \<Rightarrow> int \<Rightarrow> evbuffer \<Rightarrow> bool" where
  "prepend_outcome malloc buf bs r buf' \<longleftrightarrow>
     evbuffer_wf buf' \<and> (evbuffer_tight buf \<and> bs \<noteq> [] \<longrightarrow> evbuffer_tight buf') \<and> same_settings buf buf' \<and>
     (evbuffer_plain buf \<longrightarrow> evbuffer_plain buf') \<and>
     (r = 0 \<and> evbuffer_content buf' = bs @ evbuffer_content buf \<or>
      r = - 1 \<and> (\<exists>k. evbuffer_content buf' = drop k bs @ evbuffer_content buf) \<and> (\<exists>m. malloc m = None))"

text \<open>A new chain takes its bytes at its end, so that later prepends find room.\<close>

lemma chain_fill_from_end:
  assumes "chain_wf tmp" "ch_off tmp = 0" "misalign tmp = 0" "ch_flags tmp = 0" "length bs \<le> buffer_len tmp"
  defines "t \<equiv> (chain_write tmp (buffer_len tmp - length bs) bs)
                  \<lparr>ch_off := length bs, misalign := buffer_len tmp - length bs\<rparr>"
  shows "chain_wf t" "chain_data t = bs" "\<not> ch_has EVBUFFER_IMMUTABLE t"
proof -
  have "chain_wf (tmp\<lparr>misalign := buffer_len tmp\<rparr>)" "\<not> ch_has EVBUFFER_IMMUTABLE (tmp\<lparr>misalign := buffer_len tmp\<rparr>)"
    using assms(1-4) by (auto simp: chain_wf_def ch_has_def CHAIN_PINNED_def)
  from chain_prepend_in_place[OF this, of bs] assms(2,5)
  have "chain_wf t" "chain_data t = bs @ chain_data (tmp\<lparr>misalign := buffer_len tmp\<rparr>)"
    by (simp_all add: t_def chain_write_def)
  then show "chain_wf t" "chain_data t = bs" using assms(2) by (simp_all add: chain_data_def slice_def)
  show "\<not> ch_has EVBUFFER_IMMUTABLE t" using assms(4) by (simp add: t_def ch_has_def)
qed

lemma prepend_nonempty_ok:
  assumes wf: "evbuffer_wf buf" and ne: "chains buf \<noteq> []"
    and len: "length data \<le> CHAIN_MAX_REQUEST"
  shows "\<exists>r buf'. prepend_nonempty malloc buf data = Some (r, buf') \<and> prepend_outcome malloc buf data r buf'"
proof -
  let ?c0 = "hd (chains buf)" let ?imm = "ch_has EVBUFFER_IMMUTABLE ?c0"
  define c where "c = prepend_front ?c0"
  have c0: "chain_wf ?c0" using evbuffer_wfD(1)[OF wf] ne by simp
  have c: "chain_wf c" "chain_data c = chain_data ?c0" "ch_has EVBUFFER_IMMUTABLE c = ?imm" "ch_flags c = ch_flags ?c0"
      "ch_off c = ch_off ?c0"
    using c0 by (auto simp: c_def prepend_front_def chain_wf_def ch_has_def CHAIN_PINNED_def chain_data_def slice_def)
  have off: "ch_off c \<noteq> 0 \<or> \<not> ?imm \<and> misalign c \<noteq> 0"
    using c0 by (auto simp: c_def prepend_front_def chain_wf_def)
  show ?thesis
  proof (cases "\<not> ?imm \<and> length data \<le> misalign c")
    case True
    let ?c' = "(chain_write c (misalign c - length data) data)
                 \<lparr>ch_off := ch_off c + length data, misalign := misalign c - length data\<rparr>"
    have "prepend_nonempty malloc buf data =
        Some (0, evbuffer_invoke_callbacks (count_added (set_first buf ?c') (length data)))"
      using True ne unfolding prepend_nonempty_def Let_def c_def[symmetric]
      by (simp only: if_False if_True simp_thms bind.bind_lunit prod.case)
    moreover have "chain_data ?c' = data @ chain_data ?c0" "chain_wf ?c'"
      using chain_prepend_in_place[OF c(1)] True c by simp_all
    note set_first_ok[OF wf ne this(2,1)] set_first_plain[of buf ?c' "length data"]
    ultimately show ?thesis using c True by (simp add: prepend_outcome_def ch_has_def)
  next
    case False
    define m where "m = (if \<not> ?imm \<and> misalign c \<noteq> 0 then misalign c else 0)"
    define c' where "c' = (if m \<noteq> 0 then (chain_write c 0 (drop (length data - m) data))
                                         \<lparr>ch_off := ch_off c + m, misalign := 0\<rparr> else c)"
    define buf1 where "buf1 = (if m \<noteq> 0 then count_added (set_first buf c') m else set_first buf c')"
    define rest where "rest = take (length data - m) data"
    have buf1: "buf1 = count_added (set_first buf c') m" by (simp add: buf1_def count_added_def)
    have m: "m < length data \<or> (?imm \<and> m = 0)" "\<not> ?imm \<longrightarrow> m = misalign c"
      using False by (auto simp: m_def)
    have len_m: "length (drop (length data - m) data) = m" using m by auto
    have c': "chain_wf c'" "chain_data c' = drop (length data - m) data @ chain_data ?c0" "ch_off c' \<noteq> 0"
       "ch_has EVBUFFER_IMMUTABLE c' = ?imm"
      using chain_prepend_in_place[OF c(1), of "drop (length data - m) data"] m c off len_m
      by (auto simp: c'_def ch_has_def m_def split: if_splits)
    note b1 = set_first_ok[OF wf ne c'(1,2), unfolded len_m, folded buf1]
    have plain: "evbuffer_plain buf \<Longrightarrow> evbuffer_plain buf1"
      using set_first_plain[of buf c' m] c'(4) ne by (auto simp: buf1 evbuffer_plain_def)
    have b1': "chains buf1 \<noteq> []" "hd (chains buf1) = c'" "same_settings buf buf1"
      by (auto simp: buf1 count_added_def set_first_def same_settings_def)
    have "length rest \<le> CHAIN_MAX_REQUEST" using len by (simp add: rest_def)
    note new = chain_new_returns[OF this, of malloc]
    obtain t where t: "evbuffer_chain_new malloc (length rest) = Some t"
      "\<And>tmp. t = Some tmp \<Longrightarrow> chain_wf tmp \<and> ch_off tmp = 0 \<and> misalign tmp = 0 \<and>
         length rest \<le> buffer_len tmp \<and> ch_flags tmp = 0"
      "t = None \<Longrightarrow> \<exists>m. malloc m = None"
      using new by metis
    have step: "prepend_nonempty malloc buf data = (case t of
        None \<Rightarrow> Some (- 1, buf1)
      | Some tmp \<Rightarrow> (let mis = buffer_len tmp - length rest;
                          tmp' = (chain_write tmp mis rest)\<lparr>ch_off := length rest, misalign := mis\<rparr>
                      in Some (0, evbuffer_invoke_callbacks
                           (buf1\<lparr>chains := tmp' # chains buf1, last_with_datap := last_with_datap buf1 + 1,
                                 total_len := total_len buf1 + length rest,
                                 n_add_for_cb := n_add_for_cb buf1 + misalign c'\<rparr>))))"
      using False ne t(1)
      unfolding prepend_nonempty_def Let_def c_def[symmetric] m_def[symmetric] c'_def[symmetric]
        buf1_def[symmetric] rest_def[symmetric]
      by (simp only: if_False simp_thms bind.bind_lunit prod.case)
    show ?thesis
    proof (cases t)
      case None
      then show ?thesis using step b1 b1' plain t(3) by (auto simp: prepend_outcome_def)
    next
      case (Some tmp)
      note tm = t(2)[OF Some]
      define t' where "t' = (chain_write tmp (buffer_len tmp - length rest) rest)
                  \<lparr>ch_off := length rest, misalign := buffer_len tmp - length rest\<rparr>"
      have t': "chain_wf t'" "chain_data t' = rest" "\<not> ch_has EVBUFFER_IMMUTABLE t'" "ch_off t' = length rest"
        using chain_fill_from_end[of tmp rest] tm unfolding t'_def by auto
      define buf2 where "buf2 = buf1\<lparr>chains := t' # chains buf1, last_with_datap := last_with_datap buf1 + 1,
                                 total_len := total_len buf1 + ch_off t',
                                 n_add_for_cb := n_add_for_cb buf1 + misalign c'\<rparr>"
      note b2 = prepend_chain_ok[OF b1(1) b1'(1) t'(1) _ buf2_def, unfolded b1'(2), OF c'(3)]
      have "prepend_nonempty malloc buf data = Some (0, evbuffer_invoke_callbacks buf2)"
        unfolding step Some by (simp add: Let_def buf2_def t'_def)
      moreover have "evbuffer_plain buf \<longrightarrow> evbuffer_plain buf2"
        using plain t'(3) by (auto simp: buf2_def evbuffer_plain_def)
      moreover have "rest @ drop (length data - m) data = data" by (simp add: rest_def)
      moreover have "evbuffer_tight buf \<and> data \<noteq> [] \<longrightarrow> evbuffer_tight buf2"
        using b2(2) b1(2) b1'(2) c'(3) t'(4) m by (auto simp: rest_def)
      ultimately show ?thesis
        using b2 b1 t'(2) same_settings_trans[OF b1'(3) b2(4)] by (simp add: prepend_outcome_def)
    qed
  qed
qed

lemma evbuffer_prepend_ok:
  assumes "evbuffer_wf buf" "\<not> freeze_start buf" "length data \<le> CHAIN_MAX_REQUEST"
  shows "\<exists>r buf'. evbuffer_prepend malloc buf data = Some (r, buf') \<and> prepend_outcome malloc buf data r buf'"
proof (cases "chains buf = []")
  case False
  then show ?thesis using assms prepend_nonempty_ok by (simp add: evbuffer_prepend_def)
next
  case True
  then have tight: "evbuffer_tight buf" by (simp add: evbuffer_tight_def)
  show ?thesis
  proof (cases rule: chain_insert_new_tight[OF assms(1) tight True assms(3), of malloc])
    case (1 m)
    then have "evbuffer_prepend malloc buf data = Some (- 1, buf)"
      using True assms(2) by (simp add: evbuffer_prepend_def)
    then show ?thesis using assms(1) tight 1(2)
      unfolding prepend_outcome_def by (metis append_Nil drop_all order_refl same_settings_refl)
  next
    case (2 buf' c)
    then have fr: "\<not> freeze_start buf'" "chains buf' \<noteq> []" "evbuffer_plain buf'"
      using assms(2) by (auto simp: same_settings_def evbuffer_plain_def)
    have "evbuffer_prepend malloc buf data = prepend_nonempty malloc buf' data"
      using 2(1,6) True assms(2) fr by (simp add: evbuffer_prepend_def)
    moreover obtain r b where "prepend_nonempty malloc buf' data = Some (r, b)" "prepend_outcome malloc buf' data r b"
      using prepend_nonempty_ok[OF 2(2) fr(2) assms(3), of malloc] by auto
    ultimately show ?thesis
      using 2(3,4,5) fr(3) same_settings_trans by (auto simp: prepend_outcome_def)
  qed
qed

lemma evbuffer_add_reference_ok:
  assumes wf: "evbuffer_wf buf" "evbuffer_tight buf" and fr: "\<not> freeze_end buf"
    and data: "data \<noteq> []" "length data \<le> CHAIN_MAX_REQUEST"
  shows "\<exists>r buf'. evbuffer_add_reference malloc buf ptr data cleanupfn = Some (r, buf') \<and>
     evbuffer_wf buf' \<and> evbuffer_tight buf' \<and> same_settings buf buf' \<and>
     (r = 0 \<and> evbuffer_content buf' = evbuffer_content buf @ data \<or>
      r = - 1 \<and> buf' = buf \<and> (\<exists>m. malloc m = None))"
proof -
  have sixteen: "16 \<le> CHAIN_MAX_REQUEST" by (simp add: CHAIN_MAX_REQUEST_def EVBUFFER_CHAIN_SIZE_def)
  obtain t where t: "evbuffer_chain_new malloc 16 = Some t"
      "\<And>tmp. t = Some tmp \<Longrightarrow> chain_wf tmp \<and> ch_off tmp = 0 \<and> misalign tmp = 0 \<and> ch_flags tmp = 0"
      "t = None \<Longrightarrow> \<exists>m. malloc m = None"
      using chain_new_returns[of 16 malloc] sixteen by metis
  show ?thesis
  proof (cases t)
    case None
    then show ?thesis using t wf by (auto simp: evbuffer_add_reference_def)
  next
    case (Some ch)
    define c where "c = ch\<lparr>ch_flags := ch_flags ch OR (EVBUFFER_REFERENCE OR EVBUFFER_IMMUTABLE),
                         ch_buffer := ptr, buffer_len := length data, ch_off := length data,
                         ch_mem := data, ch_cleanup := cleanupfn\<rparr>"
    have c: "chain_wf c" "chain_data c = data" "ch_off c = length data"
      using t(2)[OF Some] data
      by (simp_all add: c_def chain_wf_def ch_has_def CHAIN_PINNED_def chain_flag_defs chain_data_def slice_def)
    obtain buf' where "evbuffer_chain_insert buf c = Some buf'" "evbuffer_wf buf'" "evbuffer_tight buf'"
      "same_settings buf buf'" "evbuffer_content buf' = evbuffer_content buf @ data"
      using chain_insert_tight[OF wf c(1)] c data(1) by auto
    then show ?thesis
      using t(1) fr c(3) Some
      by (simp add: evbuffer_add_reference_def Let_def c_def[symmetric])
  qed
qed

section \<open>Properties of the buffer\<close>

text \<open>A buffer with two bytes in memory the buffer only refers to, for the concrete instances below.\<close>

definition ref_chain :: evbuffer_chain where
  "ref_chain = \<lparr>ch_buffer = 100, buffer_len = 2, misalign = 0, ch_off = 2,
     ch_flags = EVBUFFER_REFERENCE OR EVBUFFER_IMMUTABLE, ch_mem = [7, 8], ch_cleanup = None, ch_fd = 0\<rparr>"

definition ref_buffer :: evbuffer where
  "ref_buffer = evbuffer_new\<lparr>chains := [ref_chain], total_len := 2\<rparr>"

lemma ref_buffer_ok:
  "evbuffer_wf ref_buffer" "evbuffer_tight ref_buffer" "\<not> freeze_start ref_buffer" "\<not> freeze_end ref_buffer"
  "evbuffer_content ref_buffer = [7, 8]" "total_len ref_buffer = 2"
  by (simp_all add: ref_buffer_def ref_chain_def evbuffer_new_def evbuffer_wf_def evbuffer_tight_def lwd_ok_def
      chain_wf_def ch_has_def CHAIN_PINNED_def chain_flag_defs CHAIN_MAX_REQUEST_def EVBUFFER_CHAIN_SIZE_def
      evbuffer_content_def chain_data_def slice_def)

lemma small_request: "n \<le> 1000 \<Longrightarrow> n \<le> CHAIN_MAX_REQUEST"
  by (simp add: CHAIN_MAX_REQUEST_def EVBUFFER_CHAIN_SIZE_def)



text \<open>
  \<open>evbuffer_prepend\<close> on a well-formed buffer that is not frozen at its start returns; it puts
  exactly the given bytes in front and returns 0, or, when the allocator fails, returns -1 with some
  final part of the bytes in front. The buffer stays well formed.
\<close>

theorem evbuffer_prepend_correct:
  assumes "evbuffer_wf buf" "\<not> freeze_start buf" "length data \<le> CHAIN_MAX_REQUEST"
  shows "\<exists>r buf'. evbuffer_prepend malloc buf data = Some (r, buf') \<and> evbuffer_wf buf' \<and>
           (evbuffer_tight buf \<and> data \<noteq> [] \<longrightarrow> evbuffer_tight buf') \<and> same_settings buf buf' \<and>
           (r = 0 \<and> evbuffer_content buf' = data @ evbuffer_content buf \<or>
            r = - 1 \<and> (\<exists>k. evbuffer_content buf' = drop k data @ evbuffer_content buf) \<and> (\<exists>m. malloc m = None))"
  using evbuffer_prepend_ok[OF assms, of malloc] by (auto simp: prepend_outcome_def)

text \<open>
  C15: \<open>evbuffer_drain\<close> on a well-formed buffer that is not frozen at its start returns 0 and removes
  exactly the first \<open>len\<close> bytes, or all when there are fewer; the buffer stays well formed.
\<close>

theorem evbuffer_drain_correct:
  assumes "evbuffer_wf buf" "\<not> freeze_start buf"
  shows "\<exists>buf'. evbuffer_drain buf len = Some (0, buf') \<and> evbuffer_wf buf' \<and> same_settings buf buf' \<and>
           (evbuffer_tight buf \<longrightarrow> evbuffer_tight buf') \<and> evbuffer_content buf' = drop len (evbuffer_content buf)"
  using evbuffer_drain_ok[OF assms, of len] by blast

theorem evbuffer_drain_correct_witness:
  "\<exists>buf'. evbuffer_drain ref_buffer 1 = Some (0, buf') \<and> evbuffer_content buf' = [8]"
  using evbuffer_drain_correct[OF ref_buffer_ok(1,3), of 1] ref_buffer_ok(5) by auto

text \<open>
  \<open>evbuffer_remove\<close> on a well-formed buffer that is not frozen at its start copies out the first
  \<open>len\<close> bytes (or all) in order, returns how many they are, and leaves exactly the others.
\<close>

theorem evbuffer_remove_correct:
  assumes "evbuffer_wf buf" "\<not> freeze_start buf" "len < 2 ^ 31"
  shows "\<exists>bs buf'. evbuffer_remove buf len = Some (int (length bs), bs, buf') \<and>
           bs = take len (evbuffer_content buf) \<and> bs @ evbuffer_content buf' = evbuffer_content buf \<and>
           evbuffer_wf buf' \<and> same_settings buf buf'"
proof -
  have "int (min len (total_len buf)) < 2 ^ 31" using assms(3) by simp
  then have "to_int32 (int (min len (total_len buf))) = int (length (take len (evbuffer_content buf)))"
    using length_evbuffer_content[OF assms(1)] by (simp add: to_int32_small min.commute)
  then show ?thesis using evbuffer_remove_ok[OF assms(1,2), of len] by auto
qed

text \<open>
  \<open>evbuffer_add_reference\<close> with at least one byte appends the bytes the caller's memory holds to
  a well-formed buffer that is not frozen at its end, or leaves the buffer as it is and returns -1 when
  the allocator fails.
\<close>

theorem evbuffer_add_reference_correct:
  assumes "evbuffer_wf buf" "evbuffer_tight buf" "\<not> freeze_end buf" "data \<noteq> []" "length data \<le> CHAIN_MAX_REQUEST"
  shows "\<exists>r buf'. evbuffer_add_reference malloc buf ptr data cleanupfn = Some (r, buf') \<and>
     evbuffer_wf buf' \<and> evbuffer_tight buf' \<and> same_settings buf buf' \<and>
     (r = 0 \<and> evbuffer_content buf' = evbuffer_content buf @ data \<or>
      r = - 1 \<and> buf' = buf \<and> (\<exists>m. malloc m = None))"
  using assms by (rule evbuffer_add_reference_ok)

text \<open>
  A buffer frozen at its end refuses \<open>evbuffer_add\<close>, and a buffer with data that is frozen at its
  start refuses \<open>evbuffer_prepend\<close>, \<open>evbuffer_drain\<close> and \<open>evbuffer_remove\<close>: each returns -1 and leaves
  the buffer as it is.
\<close>

theorem evbuffer_frozen_refuses:
  "(freeze_end buf \<longrightarrow> evbuffer_add malloc buf data = Some (- 1, buf)) \<and>
   (freeze_start buf \<longrightarrow> evbuffer_prepend malloc buf data = Some (- 1, buf)) \<and>
   (freeze_start buf \<and> total_len buf \<noteq> 0 \<longrightarrow> evbuffer_drain buf len = Some (- 1, buf)) \<and>
   (freeze_start buf \<and> total_len buf \<noteq> 0 \<and> len \<noteq> 0 \<longrightarrow> evbuffer_remove buf len = Some (- 1, [], buf))"
  by (simp add: evbuffer_add_def evbuffer_prepend_def evbuffer_drain_def evbuffer_remove_def evbuffer_copyout_def
      Let_def to_int32_def)


end
