(* ===== verification/Evbuffer_Space.thy ===== *)
theory Evbuffer_Space
  imports Evbuffer
begin

text \<open>
  Room at the end of an evbuffer, \<^verbatim>\<open>buffer.c\<close>: \<open>evbuffer_expand\<close> and formatted output, which is written
  into that room. A result \<open>(None, buf)\<close> is a NULL pointer; a chain is returned as its position.
\<close>

section \<open>Making room\<close>

definition expand_insert_new :: "allocator \<Rightarrow> evbuffer \<Rightarrow> nat \<Rightarrow> (nat option \<times> evbuffer) option" where
  "expand_insert_new malloc buf datlen = do {
     (buf', ok) \<leftarrow> evbuffer_chain_insert_new malloc buf datlen;
     Some (if ok then Some (length (chains buf') - 1) else None, buf')
   }"

definition set_chain :: "evbuffer \<Rightarrow> nat \<Rightarrow> evbuffer_chain \<Rightarrow> evbuffer" where
  "set_chain buf i c = buf\<lparr>chains := (chains buf)[i := c]\<rparr>"

lemma set_chain_simps [simp]:
  "chains (set_chain buf i c) = (chains buf)[i := c]" "last_with_datap (set_chain buf i c) = last_with_datap buf"
  "total_len (set_chain buf i c) = total_len buf" "same_settings buf (set_chain buf i c)"
  by (simp_all add: set_chain_def same_settings_def)

text \<open>The chain is replaced by a larger one.\<close>

definition expand_resize :: "allocator \<Rightarrow> evbuffer \<Rightarrow> nat \<Rightarrow> nat \<Rightarrow> (nat option \<times> evbuffer) option" where
  "expand_resize malloc buf i datlen =
     (let chain = chains buf ! i in do {
        r \<leftarrow> evbuffer_chain_new malloc (ch_off chain + datlen);
        Some (case r of
                None \<Rightarrow> (None, buf)
              | Some tmp \<Rightarrow>
                  (let tmp' = (chain_write tmp 0 (chain_data chain))\<lparr>ch_off := ch_off chain\<rparr> in
                   (Some i, log_free (set_chain buf i tmp') (evbuffer_chain_free chain))))
      })"

definition expand_choose :: "allocator \<Rightarrow> evbuffer \<Rightarrow> nat \<Rightarrow> (nat option \<times> evbuffer) option" where
  "expand_choose malloc buf datlen =
     (let i0 = last_with_datap buf;
          i = (if i0 < length (chains buf) \<and> CHAIN_SPACE_LEN (chains buf ! i0) = 0 then i0 + 1 else i0) in
      if i \<ge> length (chains buf) then expand_insert_new malloc buf datlen
      else let chain = chains buf ! i in
      if ch_has (EVBUFFER_IMMUTABLE OR EVBUFFER_MEM_PINNED_ANY) chain then expand_insert_new malloc buf datlen
      else if CHAIN_SPACE_LEN chain \<ge> datlen then Some (Some i, buf)
      else if ch_off chain = 0 then expand_insert_new malloc buf datlen
      else if evbuffer_chain_should_realign chain datlen then do {
        chain' \<leftarrow> evbuffer_chain_align chain;
        Some (Some i, set_chain buf i chain')
      }
      else if CHAIN_SPACE_LEN chain < buffer_len chain div 8 \<or> ch_off chain > MAX_TO_COPY_IN_EXPAND then
        (if i + 1 < length (chains buf) \<and> CHAIN_SPACE_LEN (chains buf ! (i + 1)) \<ge> datlen
         then Some (Some (i + 1), buf)
         else expand_insert_new malloc buf datlen)
      else expand_resize malloc buf i datlen)"

text \<open>The assertion at the end.\<close>

definition evbuffer_expand_singlechain :: "allocator \<Rightarrow> evbuffer \<Rightarrow> nat \<Rightarrow> (nat option \<times> evbuffer) option" where
  "evbuffer_expand_singlechain malloc buf datlen = do {
     (result, buf') \<leftarrow> expand_choose malloc buf datlen;
     case result of
       None \<Rightarrow> Some (None, buf')
     | Some i \<Rightarrow> if CHAIN_SPACE_LEN (chains buf' ! i) \<ge> datlen then Some (Some i, buf') else None
   }"

definition evbuffer_expand :: "allocator \<Rightarrow> evbuffer \<Rightarrow> nat \<Rightarrow> (int \<times> evbuffer) option" where
  "evbuffer_expand malloc buf datlen = do {
     (result, buf') \<leftarrow> evbuffer_expand_singlechain malloc buf datlen;
     Some (if result \<noteq> None then 0 else - 1, buf')
   }"

section \<open>Formatted output\<close>

text \<open>
  The format and its arguments give the text \<open>txt\<close> (\<open>vsnprintf\<close> does not fail). \<open>vsnprintf\<close> writes what fits
  and a NUL behind it.
\<close>

definition vsnprintf_chain :: "evbuffer_chain \<Rightarrow> byte list \<Rightarrow> evbuffer_chain" where
  "vsnprintf_chain c txt =
     (let space = CHAIN_SPACE_LEN c in
      if space = 0 then c else chain_write c (misalign c + ch_off c) (take (space - 1) txt @ [0]))"

partial_function (option) vprintf_loop ::
    "allocator \<Rightarrow> byte list \<Rightarrow> nat \<Rightarrow> evbuffer \<Rightarrow> (int \<times> evbuffer) option" where
  "vprintf_loop malloc txt i buf =
     (let chain = chains buf ! i; space = CHAIN_SPACE_LEN chain; sz = length txt;
          chain' = vsnprintf_chain chain txt in
      if sz < space
      then Some (int sz, evbuffer_invoke_callbacks (advance_last_with_data
             (count_added (set_chain buf i (chain'\<lparr>ch_off := ch_off chain' + sz\<rparr>)) sz)))
      else do {
        (result, buf') \<leftarrow> evbuffer_expand_singlechain malloc (set_chain buf i chain') (sz + 1);
        case result of None \<Rightarrow> Some (- 1, buf') | Some j \<Rightarrow> vprintf_loop malloc txt j buf'
      })"

declare vprintf_loop.simps [code]

definition evbuffer_add_vprintf :: "allocator \<Rightarrow> evbuffer \<Rightarrow> byte list \<Rightarrow> (int \<times> evbuffer) option" where
  "evbuffer_add_vprintf malloc buf txt =
     (if freeze_end buf then Some (- 1, buf)
      else do {
        (result, buf') \<leftarrow> evbuffer_expand_singlechain malloc buf 64;
        case result of None \<Rightarrow> Some (- 1, buf') | Some i \<Rightarrow> vprintf_loop malloc txt i buf'
      })"

definition evbuffer_add_printf :: "allocator \<Rightarrow> evbuffer \<Rightarrow> byte list \<Rightarrow> (int \<times> evbuffer) option" where
  "evbuffer_add_printf malloc buf txt = evbuffer_add_vprintf malloc buf txt"

section \<open>Making room is correct\<close>

lemma chains_all_empty_iff: "evbuffer_chains_all_empty cs \<longleftrightarrow> (\<forall>c \<in> set cs. ch_off c = 0)"
  by (induction cs) auto

lemma wf_victims:
  assumes "evbuffer_wf buf" "chains buf \<noteq> []"
  shows "victim_pos buf = (if ch_off (chains buf ! last_with_datap buf) = 0 then 0 else last_with_datap buf + 1)"
    "ch_off (chains buf ! last_with_datap buf) = 0 \<Longrightarrow> last_with_datap buf = 0"
    "\<forall>c \<in> set (drop (victim_pos buf) (chains buf)). ch_off c = 0"
proof -
  note D = evbuffer_wfD[OF assms(1)]
  let ?k = "last_with_datap buf" and ?cs = "chains buf"
  have k: "?k < length ?cs" "?k = 0 \<or> ch_off (?cs ! ?k) \<noteq> 0" "\<forall>c \<in> set (drop (Suc ?k) ?cs). ch_off c = 0"
    using D(3) assms(2) by (auto simp: lwd_ok_def)
  then have d: "drop ?k ?cs = ?cs ! ?k # drop (Suc ?k) ?cs"
    by (simp add: Cons_nth_drop_Suc)
  have skip: "skip_occupied xs = 0" if "\<forall>c \<in> set xs. ch_off c = 0 \<and> chain_wf c" for xs
    using that by (cases xs) auto
  have "chain_wf (?cs ! ?k)" "\<forall>c \<in> set (drop (Suc ?k) ?cs). chain_wf c"
    using D(1) k(1) by (auto dest: in_set_dropD)
  then show v: "victim_pos buf = (if ch_off (?cs ! ?k) = 0 then 0 else ?k + 1)"
    using k skip[of "drop (Suc ?k) ?cs"] by (auto simp: victim_pos_def d)
  show "ch_off (?cs ! ?k) = 0 \<Longrightarrow> ?k = 0"
    using k by auto
  then show "\<forall>c \<in> set (drop (victim_pos buf) ?cs). ch_off c = 0"
    using k d by (cases "chains buf") (auto simp: v)
qed

lemma chain_insert_empty:
  assumes wf: "evbuffer_wf buf" and c: "chain_wf c" "ch_off c = 0"
  obtains buf' where "evbuffer_chain_insert buf c = Some buf'" "evbuffer_wf buf'" "same_settings buf buf'"
    "evbuffer_content buf' = evbuffer_content buf" "chains buf' \<noteq> []" "last (chains buf') = c"
    "last_with_datap buf' < length (chains buf')" "length (chains buf') \<le> last_with_datap buf' + 2"
    "evbuffer_tight buf \<Longrightarrow> \<forall>d \<in> set (butlast (chains buf')). ch_off d \<noteq> 0"
    "chains buf' = take (victim_pos buf) (chains buf) @ [c]"
proof (cases "chains buf = []")
  case True
  then have "last_with_datap buf = 0" "total_len buf = 0"
    using evbuffer_wfD[OF wf] by (auto simp: lwd_ok_def)
  then show ?thesis
    using that[of "buf\<lparr>chains := [c], total_len := total_len buf + ch_off c\<rparr>"] True c
    by (simp add: evbuffer_chain_insert_def evbuffer_wf_def lwd_ok_def evbuffer_content_def same_settings_def
        chain_data_empty_iff)
next
  case False
  note D = evbuffer_wfD[OF wf] and V = wf_victims[OF wf False]
  let ?k = "last_with_datap buf" and ?cs = "chains buf" and ?v = "victim_pos buf"
  have k: "?k < length ?cs"
    using D(3) False by (simp add: lwd_ok_def)
  define buf' where "buf' = (if drop ?v ?cs = []
      then buf\<lparr>chains := ?cs @ [c], total_len := total_len buf + ch_off c\<rparr>
      else log_free (buf\<lparr>chains := take ?v ?cs @ [c], total_len := total_len buf + ch_off c\<rparr>)
             (evbuffer_free_all_chains (drop ?v ?cs)))"
  have eq: "chains buf' = take ?v ?cs @ [c]" "total_len buf' = total_len buf" "last_with_datap buf' = ?k"
    using c by (auto simp: buf'_def)
  have ins: "evbuffer_chain_insert buf c = Some buf'"
    using k c V(3) by (simp add: evbuffer_chain_insert_def buf'_def Let_def chains_all_empty_iff)
  have sum: "sum_list (map ch_off ?cs) = sum_list (map ch_off (take ?v ?cs))"
  proof -
    have "sum_list (map ch_off (drop ?v ?cs)) = 0"
      using V(3) by (simp add: sum_list_eq_0_iff)
    then show ?thesis
      by (metis append_take_drop_id map_append sum_list_append add_0_right)
  qed
  have con: "concat (map chain_data ?cs) = concat (map chain_data (take ?v ?cs))"
  proof -
    have "concat (map chain_data (drop ?v ?cs)) = []"
      using V(3) D(1) chain_data_empty_iff by (simp add: concat_eq_Nil_conv) (metis in_set_dropD)
    then show ?thesis
      by (metis append_take_drop_id map_append concat_append append_Nil2)
  qed
  have "lwd_ok (take ?v ?cs @ [c]) ?k"
    using V k c by (cases "ch_off (?cs ! ?k) = 0") (simp_all add: lwd_ok_def nth_append)
  moreover have "\<forall>d \<in> set (take ?v ?cs @ [c]). chain_wf d"
    using D(1) c by (auto dest: in_set_takeD)
  ultimately have wf': "evbuffer_wf buf'"
    using D(2) c sum by (simp add: evbuffer_wf_def eq)
  have content': "evbuffer_content buf' = evbuffer_content buf"
    using c con by (simp add: evbuffer_content_def eq chain_data_empty_iff)
  have tight': "\<forall>d \<in> set (butlast (chains buf')). ch_off d \<noteq> 0" if "evbuffer_tight buf"
  proof (cases "length ?cs \<le> 1")
    case True
    then obtain x where "?cs = [x]" "?k = 0"
      using False k by (cases ?cs) auto
    then show ?thesis
      using V(1) by (simp add: eq)
  next
    case False
    then show ?thesis
      using that by (auto simp: eq evbuffer_tight_def dest: in_set_takeD)
  qed
  have settings: "same_settings buf buf'"
    by (simp add: buf'_def same_settings_def)
  have len: "last_with_datap buf' < length (chains buf')" "length (chains buf') \<le> last_with_datap buf' + 2"
    using V(1,2) k by (simp_all add: eq split: if_splits)
  show ?thesis
    by (rule that[OF ins wf' settings content' _ _ len tight' eq(1)]) (simp_all add: eq)
qed

text \<open>What making room gives: a chain at or after the last one with data, with the space asked for.\<close>

definition expand_outcome :: "allocator \<Rightarrow> evbuffer \<Rightarrow> nat \<Rightarrow> nat option \<Rightarrow> evbuffer \<Rightarrow> bool" where
  "expand_outcome malloc buf datlen result buf' \<longleftrightarrow>
     (case result of
        None \<Rightarrow> buf' = buf \<and> (\<exists>m. malloc m = None)
      | Some i \<Rightarrow>
          evbuffer_wf buf' \<and> same_settings buf buf' \<and> evbuffer_content buf' = evbuffer_content buf \<and>
          i < length (chains buf') \<and> datlen \<le> CHAIN_SPACE_LEN (chains buf' ! i) \<and>
          \<not> ch_has EVBUFFER_IMMUTABLE (chains buf' ! i) \<and>
          last_with_datap buf' \<le> i \<and> i \<le> last_with_datap buf' + 1 \<and> (evbuffer_plain buf \<longrightarrow> evbuffer_plain buf') \<and>
          (evbuffer_tight buf \<longrightarrow> i = length (chains buf') - 1 \<and> (\<forall>d \<in> set (butlast (chains buf')). ch_off d \<noteq> 0)))"

lemma expand_insert_new_ok:
  assumes "evbuffer_wf buf" "datlen \<le> CHAIN_MAX_REQUEST"
  shows "\<exists>result buf'. expand_insert_new malloc buf datlen = Some (result, buf') \<and>
           expand_outcome malloc buf datlen result buf'"
proof -
  obtain r where r: "evbuffer_chain_new malloc datlen = Some r"
    "\<And>c. r = Some c \<Longrightarrow> chain_wf c \<and> ch_off c = 0 \<and> misalign c = 0 \<and> datlen \<le> buffer_len c \<and>
          976 \<le> buffer_len c \<and> ch_flags c = 0 \<and> chain_data c = []"
    "r = None \<Longrightarrow> \<exists>m. malloc m = None"
    using chain_new_returns[OF assms(2)] by metis
  show ?thesis
  proof (cases r)
    case None
    then show ?thesis
      using r by (auto simp: expand_insert_new_def evbuffer_chain_insert_new_def expand_outcome_def)
  next
    case (Some c)
    note c = r(2)[OF Some]
    obtain buf' where b: "evbuffer_chain_insert buf c = Some buf'" "evbuffer_wf buf'" "same_settings buf buf'"
      "evbuffer_content buf' = evbuffer_content buf" "chains buf' \<noteq> []" "last (chains buf') = c"
      "last_with_datap buf' < length (chains buf')" "length (chains buf') \<le> last_with_datap buf' + 2"
      "evbuffer_tight buf \<Longrightarrow> \<forall>d \<in> set (butlast (chains buf')). ch_off d \<noteq> 0"
      using chain_insert_empty[OF assms(1)] c by metis
    have "expand_insert_new malloc buf datlen = Some (Some (length (chains buf') - 1), buf')"
      using r Some b(1) by (simp add: expand_insert_new_def evbuffer_chain_insert_new_def)
    moreover have "chains buf' ! (length (chains buf') - 1) = c"
      using b(5,6) by (simp add: last_conv_nth)
    moreover have "evbuffer_plain buf \<longrightarrow> evbuffer_plain buf'"
      using chain_insert_plain[OF b(1)] c by (simp add: ch_has_def)
    ultimately show ?thesis
      using b c by (auto simp: expand_outcome_def CHAIN_SPACE_LEN_def ch_has_def)
  qed
qed

lemma lwd_ok_offs:
  "lwd_ok cs k \<longleftrightarrow> (let xs = map ch_off cs in
     if xs = [] then k = 0 else k < length xs \<and> (k = 0 \<or> xs ! k \<noteq> 0) \<and> (\<forall>x \<in> set (drop (Suc k) xs). x = 0))"
  by (auto simp: lwd_ok_def drop_map)

text \<open>A chain is replaced by one with the same data.\<close>

lemma set_chain_ok:
  assumes "evbuffer_wf buf" "i < length (chains buf)" "chain_wf c" "chain_data c = chain_data (chains buf ! i)"
  shows "evbuffer_wf (set_chain buf i c)" "evbuffer_content (set_chain buf i c) = evbuffer_content buf"
    "map ch_off ((chains buf)[i := c]) = map ch_off (chains buf)"
proof -
  note D = evbuffer_wfD[OF assms(1)]
  have off: "ch_off c = ch_off (chains buf ! i)"
    using assms D(1)[of "chains buf ! i"] by (metis length_chain_data nth_mem)
  have offs: "map ch_off ((chains buf)[i := c]) = map ch_off (chains buf)"
    using off by (simp add: map_update list_update_same_conv assms(2))
  have data: "map chain_data ((chains buf)[i := c]) = map chain_data (chains buf)"
    using assms(2,4) by (simp add: map_update list_update_same_conv)
  have lwd: "lwd_ok ((chains buf)[i := c]) k = lwd_ok (chains buf) k" for k
    unfolding lwd_ok_offs offs ..
  show "evbuffer_wf (set_chain buf i c)"
    using D assms(3) lwd offs by (auto simp: evbuffer_wf_def set_chain_def dest: set_update_subset_insert[THEN subsetD])
  show "evbuffer_content (set_chain buf i c) = evbuffer_content buf"
    using data by (simp add: evbuffer_content_def set_chain_def)
  show "map ch_off ((chains buf)[i := c]) = map ch_off (chains buf)"
    by (rule offs)
qed

lemma space_not_immutable: "0 < CHAIN_SPACE_LEN c \<Longrightarrow> \<not> ch_has EVBUFFER_IMMUTABLE c"
  by (auto simp: CHAIN_SPACE_LEN_def)

lemma ch_has_or: "ch_has (a OR b) c \<longleftrightarrow> ch_has a c \<or> ch_has b c"
  by (simp add: ch_has_def bit.conj_disj_distrib or_eq_0_iff)

lemma set_chain_plain: "evbuffer_plain buf \<Longrightarrow> \<not> ch_has EVBUFFER_IMMUTABLE c \<Longrightarrow> evbuffer_plain (set_chain buf i c)"
  by (auto simp: evbuffer_plain_def dest: set_update_subset_insert[THEN subsetD])

text \<open>Replacing a chain by one with the same data and enough space.\<close>

lemma expand_replace_ok:
  assumes wf: "evbuffer_wf buf" and i: "i < length (chains buf)" "last_with_datap buf \<le> i" "i \<le> last_with_datap buf + 1"
    and c: "chain_wf c" "chain_data c = chain_data (chains buf ! i)" "\<not> ch_has EVBUFFER_IMMUTABLE c"
      "datlen \<le> CHAIN_SPACE_LEN c"
  shows "expand_outcome malloc buf datlen (Some i) (log_free (set_chain buf i c) es)"
proof -
  note S = set_chain_ok[OF wf i(1) c(1,2)]
  have "i = length (chains buf) - 1 \<and> (\<forall>d \<in> set (butlast ((chains buf)[i := c])). ch_off d \<noteq> 0)" if "evbuffer_tight buf"
  proof -
    have T: "last_with_datap buf = length (chains buf) - 1"
      "2 \<le> length (chains buf) \<longrightarrow> (\<forall>c \<in> set (chains buf). ch_off c \<noteq> 0)"
      using wf_tight_iff[of buf] wf that by auto
    then have last: "i = length (chains buf) - 1"
      using i by auto
    then have "butlast ((chains buf)[i := c]) = butlast (chains buf)"
      by (simp add: butlast_list_update)
    then show ?thesis
      using last T(2) by (cases "2 \<le> length (chains buf)") (auto dest: in_set_takeD simp: butlast_conv_take)
  qed
  then show ?thesis
    using S(1,2) i c by (simp add: expand_outcome_def set_chain_plain)
qed

lemma log_free_Nil [simp]: "log_free buf [] = buf"
  by (simp add: log_free_def)

lemma set_chain_same [simp]: "set_chain buf i (chains buf ! i) = buf"
  by (simp add: set_chain_def)

lemma expand_keep_ok:
  assumes "evbuffer_wf buf" "i < length (chains buf)" "last_with_datap buf \<le> i" "i \<le> last_with_datap buf + 1"
    "\<not> ch_has EVBUFFER_IMMUTABLE (chains buf ! i)" "datlen \<le> CHAIN_SPACE_LEN (chains buf ! i)"
  shows "expand_outcome malloc buf datlen (Some i) buf"
  using expand_replace_ok[of buf i "chains buf ! i" datlen malloc "[]"] assms evbuffer_wfD(1)[OF assms(1)] by simp

lemma expand_resize_ok:
  assumes wf: "evbuffer_wf buf" and i: "i < length (chains buf)" "last_with_datap buf \<le> i" "i \<le> last_with_datap buf + 1"
    and len: "ch_off (chains buf ! i) + datlen \<le> CHAIN_MAX_REQUEST"
  shows "\<exists>result buf'. expand_resize malloc buf i datlen = Some (result, buf') \<and>
           expand_outcome malloc buf datlen result buf'"
proof -
  let ?c = "chains buf ! i"
  have c: "chain_wf ?c"
    using evbuffer_wfD(1)[OF wf] i by simp
  obtain r where r: "evbuffer_chain_new malloc (ch_off ?c + datlen) = Some r"
    "\<And>t. r = Some t \<Longrightarrow> chain_wf t \<and> ch_off t = 0 \<and> misalign t = 0 \<and> ch_off ?c + datlen \<le> buffer_len t \<and>
          976 \<le> buffer_len t \<and> ch_flags t = 0 \<and> chain_data t = []"
    "r = None \<Longrightarrow> \<exists>m. malloc m = None"
    using chain_new_returns[OF len] by metis
  show ?thesis
  proof (cases r)
    case None
    then show ?thesis
      using r by (simp add: expand_resize_def expand_outcome_def)
  next
    case (Some t)
    note t = r(2)[OF Some]
    let ?t = "(chain_write t 0 (chain_data ?c))\<lparr>ch_off := ch_off ?c\<rparr>"
    have "\<not> ch_has EVBUFFER_IMMUTABLE t"
      using t by (simp add: ch_has_def)
    from chain_append_in_place[OF conjunct1[OF t] this, of "chain_data ?c"]
    have "chain_wf ?t" "chain_data ?t = chain_data ?c"
      using t c by simp_all
    moreover have "\<not> ch_has EVBUFFER_IMMUTABLE ?t" "datlen \<le> CHAIN_SPACE_LEN ?t"
      using t by (auto simp: ch_has_def CHAIN_SPACE_LEN_def)
    ultimately have "expand_outcome malloc buf datlen (Some i) (log_free (set_chain buf i ?t) (evbuffer_chain_free ?c))"
      using expand_replace_ok[OF wf i] by blast
    then show ?thesis
      using r(1) Some by (simp add: expand_resize_def Let_def)
  qed
qed

lemma expand_realign_ok:
  assumes wf: "evbuffer_wf buf" and i: "i < length (chains buf)" "last_with_datap buf \<le> i" "i \<le> last_with_datap buf + 1"
    and c: "\<not> ch_has EVBUFFER_IMMUTABLE (chains buf ! i)" "evbuffer_chain_should_realign (chains buf ! i) datlen"
  shows "\<exists>c'. evbuffer_chain_align (chains buf ! i) = Some c' \<and> expand_outcome malloc buf datlen (Some i) (set_chain buf i c')"
proof -
  obtain c' where c': "evbuffer_chain_align (chains buf ! i) = Some c'" "chain_wf c'"
    "chain_data c' = chain_data (chains buf ! i)" "misalign c' = 0" "ch_off c' = ch_off (chains buf ! i)"
    "buffer_len c' = buffer_len (chains buf ! i)" "ch_flags c' = ch_flags (chains buf ! i)"
    using chain_align_ok[OF _ c(1)] evbuffer_wfD(1)[OF wf] i by (metis nth_mem)
  have "\<not> ch_has EVBUFFER_IMMUTABLE c'" "datlen \<le> CHAIN_SPACE_LEN c'"
    using c c' by (simp_all add: ch_has_def CHAIN_SPACE_LEN_def evbuffer_chain_should_realign_def)
  then show ?thesis
    using c'(1) expand_replace_ok[OF wf i c'(2,3), of datlen malloc "[]"] by simp
qed

lemma expand_choose_ok:
  assumes wf: "evbuffer_wf buf" and len: "MAX_TO_COPY_IN_EXPAND + datlen \<le> CHAIN_MAX_REQUEST"
  shows "\<exists>result buf'. expand_choose malloc buf datlen = Some (result, buf') \<and>
           expand_outcome malloc buf datlen result buf'"
proof -
  define i where "i = (if last_with_datap buf < length (chains buf) \<and> CHAIN_SPACE_LEN (chains buf ! last_with_datap buf) = 0
    then last_with_datap buf + 1 else last_with_datap buf)"
  let ?c = "chains buf ! i"
  note E = expand_choose_def[of malloc buf datlen, unfolded Let_def, folded i_def]
  have i: "last_with_datap buf \<le> i" "i \<le> last_with_datap buf + 1"
    by (simp_all add: i_def)
  have new: ?thesis if "expand_choose malloc buf datlen = expand_insert_new malloc buf datlen"
    unfolding that using expand_insert_new_ok[OF wf, of datlen malloc] len by simp
  show ?thesis
  proof (cases "i < length (chains buf) \<and> \<not> ch_has (EVBUFFER_IMMUTABLE OR EVBUFFER_MEM_PINNED_ANY) ?c")
    case False
    then show ?thesis
      by (intro new) (simp add: E)
  next
    case True
    then have imm: "\<not> ch_has EVBUFFER_IMMUTABLE ?c" and lt: "i < length (chains buf)"
      by (simp_all add: ch_has_or)
    have ne: "chains buf \<noteq> []"
      using lt by auto
    have after: "ch_off (chains buf ! (last_with_datap buf + 1)) = 0"
      "\<not> ch_has EVBUFFER_IMMUTABLE (chains buf ! (last_with_datap buf + 1))" if "last_with_datap buf + 1 < length (chains buf)"
    proof -
      have "chains buf ! (last_with_datap buf + 1) \<in> set (drop (Suc (last_with_datap buf)) (chains buf))"
        using that by (metis Suc_eq_plus1 drop_eq_Nil2 hd_drop_conv_nth hd_in_set not_less)
      then show "ch_off (chains buf ! (last_with_datap buf + 1)) = 0"
        using evbuffer_wfD(3)[OF wf] ne by (simp add: lwd_ok_def)
      then show "\<not> ch_has EVBUFFER_IMMUTABLE (chains buf ! (last_with_datap buf + 1))"
        using evbuffer_wfD(1)[OF wf nth_mem[OF that]] by (simp add: chain_wf_def)
    qed
    consider "datlen \<le> CHAIN_SPACE_LEN ?c"
      | "\<not> datlen \<le> CHAIN_SPACE_LEN ?c" "ch_off ?c = 0"
      | "\<not> datlen \<le> CHAIN_SPACE_LEN ?c" "ch_off ?c \<noteq> 0" "evbuffer_chain_should_realign ?c datlen"
      | "\<not> datlen \<le> CHAIN_SPACE_LEN ?c" "ch_off ?c \<noteq> 0" "\<not> evbuffer_chain_should_realign ?c datlen"
        "CHAIN_SPACE_LEN ?c < buffer_len ?c div 8 \<or> ch_off ?c > MAX_TO_COPY_IN_EXPAND"
      | "\<not> datlen \<le> CHAIN_SPACE_LEN ?c" "ch_off ?c \<noteq> 0" "\<not> evbuffer_chain_should_realign ?c datlen"
        "\<not> (CHAIN_SPACE_LEN ?c < buffer_len ?c div 8 \<or> ch_off ?c > MAX_TO_COPY_IN_EXPAND)"
      by blast
    then show ?thesis
    proof cases
      case 1
      then show ?thesis
        using True expand_keep_ok[OF wf lt i imm] by (simp add: E)
    next
      case 2
      then show ?thesis
        using True by (intro new) (simp add: E)
    next
      case 3
      then show ?thesis
        using True expand_realign_ok[OF wf lt i imm, of datlen malloc] by (auto simp: E)
    next
      case 4
      have "i \<noteq> last_with_datap buf + 1"
        using after(1) 4(2) lt by auto
      then have here: "i = last_with_datap buf"
        using i by simp
      then have nx: "\<not> ch_has EVBUFFER_IMMUTABLE (chains buf ! (i + 1))" if "i + 1 < length (chains buf)"
        using after(2) that by simp
      show ?thesis
      proof (cases "i + 1 < length (chains buf) \<and> CHAIN_SPACE_LEN (chains buf ! (i + 1)) \<ge> datlen")
        case fits: True
        then show ?thesis
          using True 4 expand_keep_ok[OF wf _ _ _ nx, of datlen malloc] here by (simp add: E)
      next
        case False
        then have "expand_choose malloc buf datlen = expand_insert_new malloc buf datlen"
          unfolding E using True 4 by (simp only: if_False if_True linorder_not_less[symmetric] simp_thms if_cancel)
        then show ?thesis
          by (rule new)
      qed
    next
      case 5
      then show ?thesis
        using True expand_resize_ok[OF wf lt i, of datlen malloc] len by (simp add: E)
    qed
  qed
qed

lemma expand_singlechain_ok:
  assumes wf: "evbuffer_wf buf" and len: "MAX_TO_COPY_IN_EXPAND + datlen \<le> CHAIN_MAX_REQUEST"
  shows "\<exists>result buf'. evbuffer_expand_singlechain malloc buf datlen = Some (result, buf') \<and>
           expand_outcome malloc buf datlen result buf'"
proof -
  obtain result buf' where r: "expand_choose malloc buf datlen = Some (result, buf')" "expand_outcome malloc buf datlen result buf'"
    using expand_choose_ok[OF assms, of malloc] by (elim exE conjE) (rule that)
  then show ?thesis
    by (intro exI[of _ result] exI[of _ buf'])
      (cases result, simp_all add: evbuffer_expand_singlechain_def expand_outcome_def)
qed

section \<open>Formatted output is correct\<close>

text \<open>\<open>vsnprintf\<close> writes behind the data of the chain.\<close>

lemma vsnprintf_keeps:
  assumes c: "chain_wf c" "\<not> ch_has EVBUFFER_IMMUTABLE c"
  shows "chain_wf (vsnprintf_chain c txt)" "chain_data (vsnprintf_chain c txt) = chain_data c"
proof -
  let ?bs = "take (CHAIN_SPACE_LEN c - 1) txt @ [0]"
  have "chain_wf (vsnprintf_chain c txt) \<and> chain_data (vsnprintf_chain c txt) = chain_data c"
  proof (cases "CHAIN_SPACE_LEN c = 0")
    case False
    then have "misalign c + ch_off c + length ?bs \<le> length (ch_mem c)"
      using c by (auto simp: CHAIN_SPACE_LEN_def chain_wf_def)
    then show ?thesis
      using False c slice_splice_at_before[of "misalign c" "ch_off c" "misalign c + ch_off c" "ch_mem c" ?bs]
      by (simp add: vsnprintf_chain_def Let_def chain_wf_def chain_write_def ch_has_def CHAIN_PINNED_def chain_data_def)
  qed (use c in \<open>simp add: vsnprintf_chain_def\<close>)
  then show "chain_wf (vsnprintf_chain c txt)" "chain_data (vsnprintf_chain c txt) = chain_data c"
    by blast+
qed

lemma vsnprintf_fits:
  assumes c: "chain_wf c" "\<not> ch_has EVBUFFER_IMMUTABLE c" and sz: "length txt < CHAIN_SPACE_LEN c"
  defines "c' \<equiv> (vsnprintf_chain c txt)\<lparr>ch_off := ch_off (vsnprintf_chain c txt) + length txt\<rparr>"
  shows "chain_wf c'" "chain_data c' = chain_data c @ txt" "ch_off c' = ch_off c + length txt"
proof -
  let ?d = "(chain_write c (misalign c + ch_off c) (txt @ [0]))\<lparr>ch_off := ch_off c + length (txt @ [0])\<rparr>"
  have eq: "c' = ?d\<lparr>ch_off := ch_off c + length txt\<rparr>"
    using sz by (simp add: c'_def vsnprintf_chain_def Let_def)
  have d: "chain_wf ?d" "chain_data ?d = chain_data c @ txt @ [0]"
    using chain_append_in_place[OF c, of "txt @ [0]"] sz c by (simp_all add: CHAIN_SPACE_LEN_def)
  have "chain_data c' = take (ch_off c + length txt) (chain_data ?d)"
    unfolding eq by (simp add: chain_data_def slice_def)
  then show "chain_data c' = chain_data c @ txt"
    using d(2) length_chain_data[OF c(1)] by simp
  show "ch_off c' = ch_off c + length txt"
    by (simp add: eq)
  show "chain_wf c'"
    using d(1) c(2) by (simp add: eq chain_wf_def ch_has_def CHAIN_PINNED_def)
qed

lemma count_filled_empty: "\<forall>c \<in> set cs. ch_off c = 0 \<Longrightarrow> count_filled cs = 0"
  by (cases cs) auto

text \<open>Data are written into a chain at or just after the last chain with data.\<close>

lemma write_chain_ok:
  assumes wf: "evbuffer_wf buf" and i: "i < length (chains buf)" "last_with_datap buf \<le> i" "i \<le> last_with_datap buf + 1"
    and c: "chain_wf c" "chain_data c = chain_data (chains buf ! i) @ txt" "ch_off c = ch_off (chains buf ! i) + length txt"
  defines "buf' \<equiv> advance_last_with_data (count_added (set_chain buf i c) (length txt))"
  shows "evbuffer_wf buf'" "evbuffer_content buf' = evbuffer_content buf @ txt"
    "chains buf' = (chains buf)[i := c]" "same_settings buf buf'"
proof -
  note D = evbuffer_wfD[OF wf]
  let ?k = "last_with_datap buf" and ?cs = "chains buf"
  define pre d post where "pre = take i ?cs" and "d = ?cs ! i" and "post = drop (Suc i) ?cs"
  have cs: "?cs = pre @ d # post" "length pre = i" and upd: "?cs[i := c] = pre @ c # post"
    using i(1) id_take_nth_drop[of i ?cs] by (simp_all add: pre_def d_def post_def upd_conv_take_nth_drop)
  have lwd: "?k < length ?cs" "?k = 0 \<or> ch_off (?cs ! ?k) \<noteq> 0" "\<forall>x \<in> set (drop (Suc ?k) ?cs). ch_off x = 0"
    using D(3) i(1) by (auto simp: lwd_ok_def split: if_splits)
  have post: "\<forall>x \<in> set post. ch_off x = 0"
    using lwd(3) i(2) set_drop_subset_set_drop[of "Suc ?k" "Suc i" ?cs] by (auto simp: post_def)
  show chains': "chains buf' = ?cs[i := c]" and "same_settings buf buf'"
    by (simp_all add: buf'_def advance_last_with_data_def count_added_def same_settings_def set_chain_def)
  have total: "total_len buf' = total_len buf + length txt"
    by (simp add: buf'_def advance_last_with_data_def count_added_def)
  have lwd': "last_with_datap buf' = ?k + count_filled (drop (?k + 1) (pre @ c # post))"
    using lwd(1) by (simp add: buf'_def advance_last_with_data_def count_added_def upd)
  have off: "ch_off c = ch_off d + length txt" and data: "chain_data c = chain_data d @ txt"
    using c(2,3) by (simp_all add: d_def)
  have "lwd_ok (pre @ c # post) (last_with_datap buf')"
  proof (cases "i = ?k")
    case True
    then have "?k = 0 \<or> ch_off c \<noteq> 0" "count_filled post = 0"
      using lwd(2) post off by (auto simp: d_def count_filled_empty)
    then show ?thesis
      using True cs(2) post by (simp add: lwd' lwd_ok_def nth_append)
  next
    case False
    then have k: "i = Suc ?k"
      using i by simp
    then have "pre ! ?k = ?cs ! ?k"
      using i(1) by (simp add: pre_def)
    then have "?k = 0 \<or> ch_off (pre ! ?k) \<noteq> 0"
      using lwd(2) by simp
    then show ?thesis
      using k cs(2) post by (simp add: lwd' lwd_ok_def nth_append count_filled_empty)
  qed
  moreover have "\<forall>x \<in> set (pre @ c # post). chain_wf x"
    using D(1) c(1) cs(1) by auto
  moreover have "total_len buf' = sum_list (map ch_off (pre @ c # post))"
    using D(2) off by (simp add: total cs(1))
  ultimately show "evbuffer_wf buf'"
    by (simp add: evbuffer_wf_def chains' upd)
  have "concat (map chain_data post) = []"
    using post D(1) chain_data_empty_iff unfolding cs(1) by simp
  then have "concat (map chain_data (pre @ c # post)) = concat (map chain_data (pre @ d # post)) @ txt"
    by (simp add: data del: concat_eq_Nil_conv)
  then show "evbuffer_content buf' = evbuffer_content buf @ txt"
    using chains' upd cs(1) by (simp only: evbuffer_content_def)
qed

definition printf_outcome :: "allocator \<Rightarrow> evbuffer \<Rightarrow> byte list \<Rightarrow> int \<Rightarrow> evbuffer \<Rightarrow> bool" where
  "printf_outcome malloc buf txt r buf' \<longleftrightarrow>
     evbuffer_wf buf' \<and> same_settings buf buf' \<and> (evbuffer_plain buf \<longrightarrow> evbuffer_plain buf') \<and>
     (r = int (length txt) \<and> evbuffer_content buf' = evbuffer_content buf @ txt \<or>
      r = - 1 \<and> evbuffer_content buf' = evbuffer_content buf \<and> (\<exists>m. malloc m = None))"

lemma expand_outcome_someD:
  assumes "expand_outcome malloc buf datlen (Some i) buf'"
  shows "evbuffer_wf buf'" "same_settings buf buf'" "evbuffer_content buf' = evbuffer_content buf"
    "i < length (chains buf')" "datlen \<le> CHAIN_SPACE_LEN (chains buf' ! i)"
    "\<not> ch_has EVBUFFER_IMMUTABLE (chains buf' ! i)" "last_with_datap buf' \<le> i" "i \<le> last_with_datap buf' + 1"
    "evbuffer_tight buf \<Longrightarrow> i = length (chains buf') - 1"
    "evbuffer_tight buf \<Longrightarrow> d \<in> set (butlast (chains buf')) \<Longrightarrow> ch_off d \<noteq> 0"
    "evbuffer_plain buf \<Longrightarrow> evbuffer_plain buf'"
  using assms by (auto simp: expand_outcome_def)

lemma vprintf_loop_fits:
  assumes wf: "evbuffer_wf buf" and i: "i < length (chains buf)" "last_with_datap buf \<le> i" "i \<le> last_with_datap buf + 1"
    and c: "\<not> ch_has EVBUFFER_IMMUTABLE (chains buf ! i)" "length txt < CHAIN_SPACE_LEN (chains buf ! i)"
  obtains buf' c' where "vprintf_loop malloc txt i buf = Some (int (length txt), buf')" "evbuffer_wf buf'"
    "same_settings buf buf'" "evbuffer_content buf' = evbuffer_content buf @ txt"
    "chains buf' = (chains buf)[i := c']" "ch_off c' = ch_off (chains buf ! i) + length txt"
    "evbuffer_plain buf \<longrightarrow> evbuffer_plain buf'"
proof -
  let ?c = "chains buf ! i"
  define c' where "c' = (vsnprintf_chain ?c txt)\<lparr>ch_off := ch_off (vsnprintf_chain ?c txt) + length txt\<rparr>"
  have wfc: "chain_wf ?c"
    using evbuffer_wfD(1)[OF wf] i by simp
  note V = vsnprintf_fits[OF wfc c, folded c'_def]
  note W = write_chain_ok[OF wf i V]
  have "vprintf_loop malloc txt i buf = Some (int (length txt),
      evbuffer_invoke_callbacks (advance_last_with_data (count_added (set_chain buf i c') (length txt))))"
    using c(2) by (subst vprintf_loop.simps) (simp add: c'_def Let_def)
  moreover have "\<not> ch_has EVBUFFER_IMMUTABLE c'"
    using c(1) by (simp add: c'_def vsnprintf_chain_def Let_def ch_has_def)
  then have "evbuffer_plain buf \<longrightarrow> evbuffer_plain (set_chain buf i c')"
    using set_chain_plain by blast
  ultimately show ?thesis
    using that W V(3) by (simp add: evbuffer_plain_def)
qed

lemma vprintf_loop_ok:
  assumes wf: "evbuffer_wf buf" and i: "i < length (chains buf)" "last_with_datap buf \<le> i" "i \<le> last_with_datap buf + 1"
    and c: "\<not> ch_has EVBUFFER_IMMUTABLE (chains buf ! i)"
    and len: "MAX_TO_COPY_IN_EXPAND + length txt + 1 \<le> CHAIN_MAX_REQUEST"
  shows "\<exists>r buf'. vprintf_loop malloc txt i buf = Some (r, buf') \<and> printf_outcome malloc buf txt r buf'"
proof (cases "length txt < CHAIN_SPACE_LEN (chains buf ! i)")
  case True
  then show ?thesis
    using vprintf_loop_fits[OF wf i c, of "txt" malloc] by (metis printf_outcome_def)
next
  case False
  let ?c = "chains buf ! i"
  have wfc: "chain_wf ?c"
    using evbuffer_wfD(1)[OF wf] i by simp
  let ?b = "set_chain buf i (vsnprintf_chain ?c txt)"
  note B = set_chain_ok[OF wf i(1) vsnprintf_keeps[OF wfc c, of "txt"]]
  obtain result b where r: "evbuffer_expand_singlechain malloc ?b (length txt + 1) = Some (result, b)"
    "expand_outcome malloc ?b (length txt + 1) result b"
    using expand_singlechain_ok[OF B(1), of "length txt + 1" malloc] len by auto
  have step: "vprintf_loop malloc txt i buf =
      (case result of None \<Rightarrow> Some (- 1, b) | Some j \<Rightarrow> vprintf_loop malloc txt j b)"
    using False r(1) by (subst vprintf_loop.simps) (simp add: Let_def)
  have plain: "evbuffer_plain buf \<Longrightarrow> evbuffer_plain ?b"
    using c by (intro set_chain_plain) (simp_all add: vsnprintf_chain_def Let_def ch_has_def)
  show ?thesis
  proof (cases result)
    case None
    then show ?thesis
      using plain r(2) B step by (simp add: expand_outcome_def printf_outcome_def)
  next
    case (Some j)
    note X = expand_outcome_someD[OF r(2)[unfolded Some]]
    obtain buf' c' where "vprintf_loop malloc txt j b = Some (int (length txt), buf')" "evbuffer_wf buf'"
      "same_settings b buf'" "evbuffer_content buf' = evbuffer_content b @ txt" "evbuffer_plain b \<Longrightarrow> evbuffer_plain buf'"
      using vprintf_loop_fits[OF X(1,4,7,8,6), of "txt" malloc] X(5) by auto
    moreover have "same_settings buf b"
      using X(2) same_settings_trans[of buf ?b b] by simp
    ultimately show ?thesis
      using step Some B(2) X(3,11) plain same_settings_trans by (auto simp: printf_outcome_def)
  qed
qed

lemma evbuffer_add_vprintf_ok:
  assumes "evbuffer_wf buf" "\<not> freeze_end buf" "MAX_TO_COPY_IN_EXPAND + length txt + 65 \<le> CHAIN_MAX_REQUEST"
  shows "\<exists>r buf'. evbuffer_add_vprintf malloc buf txt = Some (r, buf') \<and> printf_outcome malloc buf txt r buf'"
proof -
  obtain result b where r: "evbuffer_expand_singlechain malloc buf 64 = Some (result, b)" "expand_outcome malloc buf 64 result b"
    using expand_singlechain_ok[OF assms(1), of 64 malloc] assms(3) by auto
  show ?thesis
  proof (cases result)
    case None
    then show ?thesis
      using r assms(1,2) by (simp add: evbuffer_add_vprintf_def expand_outcome_def printf_outcome_def)
  next
    case (Some i)
    note X = expand_outcome_someD[OF r(2)[unfolded Some]]
    obtain q buf' where q: "vprintf_loop malloc txt i b = Some (q, buf')" "printf_outcome malloc b txt q buf'"
      using vprintf_loop_ok[OF X(1,4,7,8,6), of "txt" malloc] assms(3) by auto
    have "printf_outcome malloc buf txt q buf'"
      using q(2) X(2,3,11) same_settings_trans by (auto simp: printf_outcome_def)
    then show ?thesis
      using q(1) r(1) Some assms(2) by (simp add: evbuffer_add_vprintf_def)
  qed
qed

text \<open>
  The text is put at the end of a tight buffer. The first round can leave an empty chain behind the data; the second
  round takes the same way, since the chain before it still has too little space.
\<close>

definition expand_stuck :: "evbuffer_chain \<Rightarrow> nat \<Rightarrow> bool" where
  "expand_stuck c d \<longleftrightarrow> CHAIN_SPACE_LEN c = 0 \<or> ch_has EVBUFFER_MEM_PINNED_ANY c \<or>
     CHAIN_SPACE_LEN c < d \<and> \<not> evbuffer_chain_should_realign c d \<and>
     (CHAIN_SPACE_LEN c < buffer_len c div 8 \<or> ch_off c > MAX_TO_COPY_IN_EXPAND)"

definition near_tight :: "evbuffer \<Rightarrow> nat \<Rightarrow> bool" where
  "near_tight buf d \<longleftrightarrow> (\<forall>c \<in> set (butlast (chains buf)). ch_off c \<noteq> 0) \<and>
     (2 \<le> length (chains buf) \<and> ch_off (last (chains buf)) = 0 \<longrightarrow> expand_stuck (chains buf ! (length (chains buf) - 2)) d)"

lemma expand_stuck_mono: "expand_stuck c d \<Longrightarrow> d \<le> d' \<Longrightarrow> expand_stuck c d'"
  by (auto simp: expand_stuck_def evbuffer_chain_should_realign_def)

lemma near_tight_mono: "near_tight buf d \<Longrightarrow> d \<le> d' \<Longrightarrow> near_tight buf d'"
  using expand_stuck_mono by (auto simp: near_tight_def)

lemma tight_near: "evbuffer_tight buf \<Longrightarrow> near_tight buf d"
  by (cases "chains buf" rule: rev_cases) (auto simp: evbuffer_tight_def near_tight_def)

lemma near_tight_filled: "near_tight buf d \<Longrightarrow> chains buf = cs @ [c] \<Longrightarrow> ch_off c' \<noteq> 0 \<Longrightarrow> chains buf' = cs @ [c'] \<Longrightarrow> evbuffer_tight buf'"
  by (auto simp: near_tight_def evbuffer_tight_def)

text \<open>The last chain with data is the last one or, with an empty last chain, the one before.\<close>

lemma near_tight_lwd:
  assumes "evbuffer_wf buf" "near_tight buf d" "chains buf \<noteq> []"
  shows "last_with_datap buf < length (chains buf)" "length (chains buf) \<le> last_with_datap buf + 2"
    "last_with_datap buf + 2 = length (chains buf) \<Longrightarrow> ch_off (last (chains buf)) = 0"
proof -
  let ?k = "last_with_datap buf" and ?cs = "chains buf"
  have L: "?k < length ?cs" "\<forall>c \<in> set (drop (Suc ?k) ?cs). ch_off c = 0"
    using evbuffer_wfD(3)[OF assms(1)] assms(3) by (simp_all add: lwd_ok_def)
  have empty: "ch_off (?cs ! j) = 0" if "?k < j" "j < length ?cs" for j
    using L(2) that by (metis Cons_nth_drop_Suc Suc_leI in_set_dropD le_antisym less_or_eq_imp_le list.set_intros(1)
        not_less set_drop_subset_set_drop subsetD Suc_le_eq nth_mem length_drop drop_eq_Nil2)
  show "?k < length ?cs"
    by (rule L)
  show "length ?cs \<le> ?k + 2"
  proof (rule ccontr)
    assume "\<not> length ?cs \<le> ?k + 2"
    then have *: "?k + 1 < length ?cs - 1"
      by simp
    then have "?cs ! (?k + 1) \<in> set (butlast ?cs)"
      by (metis length_butlast nth_butlast nth_mem)
    then have "ch_off (?cs ! (?k + 1)) \<noteq> 0"
      using assms(2) by (simp add: near_tight_def)
    moreover have "?k + 1 < length ?cs"
      using * by linarith
    ultimately show False
      using empty[of "?k + 1"] by simp
  qed
  show "ch_off (last ?cs) = 0" if "?k + 2 = length ?cs"
    using empty[of "?k + 1"] that assms(3) by (simp add: last_conv_nth flip: that)
qed

lemma near_tight_snoc2:
  assumes "chains buf = xs @ [a, c]" "\<forall>x \<in> set xs. ch_off x \<noteq> 0" "ch_off a \<noteq> 0" "expand_stuck a d"
  shows "near_tight buf d"
proof -
  have "butlast (xs @ [a, c]) = xs @ [a]"
    by (simp add: butlast_append)
  then show ?thesis
    using assms by (auto simp: near_tight_def nth_append)
qed

lemma expand_insert_new_chains:
  assumes "evbuffer_wf buf" "d \<le> CHAIN_MAX_REQUEST" "expand_insert_new malloc buf d = Some (Some j, buf')"
  obtains c where "chains buf' = take (victim_pos buf) (chains buf) @ [c]" "ch_off c = 0"
proof -
  obtain r where r: "evbuffer_chain_new malloc d = Some r"
    "\<And>c. r = Some c \<Longrightarrow> chain_wf c \<and> ch_off c = 0 \<and> misalign c = 0 \<and> d \<le> buffer_len c \<and>
          976 \<le> buffer_len c \<and> ch_flags c = 0 \<and> chain_data c = []"
    using chain_new_returns[OF assms(2)] by metis
  then obtain c where c: "r = Some c" "chain_wf c" "ch_off c = 0"
    using assms(3) by (cases r) (auto simp: expand_insert_new_def evbuffer_chain_insert_new_def)
  obtain b where "evbuffer_chain_insert buf c = Some b" "chains b = take (victim_pos buf) (chains buf) @ [c]"
    by (rule chain_insert_empty[OF assms(1) c(2,3)]) (rule that)
  then show ?thesis
    using that[of c] assms(3) r(1) c by (simp add: expand_insert_new_def evbuffer_chain_insert_new_def)
qed

lemma near_tight_insert_new:
  assumes "evbuffer_wf buf" "near_tight buf d" "d \<le> CHAIN_MAX_REQUEST" "expand_insert_new malloc buf d = Some (Some j, buf')"
    and stuck: "chains buf \<noteq> [] \<Longrightarrow> ch_off (chains buf ! last_with_datap buf) \<noteq> 0 \<Longrightarrow> expand_stuck (chains buf ! last_with_datap buf) d"
  shows "near_tight buf' d" "j = length (chains buf') - 1"
proof -
  obtain c where c: "chains buf' = take (victim_pos buf) (chains buf) @ [c]" "ch_off c = 0"
    by (rule expand_insert_new_chains[OF assms(1,3,4)])
  show "j = length (chains buf') - 1"
    using assms(4) by (auto simp: expand_insert_new_def split: bind_splits if_splits)
  show "near_tight buf' d"
  proof (cases "chains buf = [] \<or> victim_pos buf = 0")
    case True
    then show ?thesis
      using c by (auto simp: near_tight_def)
  next
    case False
    let ?k = "last_with_datap buf"
    have v: "victim_pos buf = ?k + 1" "ch_off (chains buf ! ?k) \<noteq> 0"
      using wf_victims(1)[OF assms(1)] False by (auto split: if_splits)
    have k: "?k < length (chains buf)"
      using near_tight_lwd(1)[OF assms(1,2)] False by simp
    have take: "take (victim_pos buf) (chains buf) = take ?k (chains buf) @ [chains buf ! ?k]"
      using k v(1) by (simp add: take_Suc_conv_app_nth)
    have "take ?k (chains buf) = take ?k (butlast (chains buf))"
      using k by (simp add: butlast_conv_take min_def) linarith
    then have "\<forall>x \<in> set (take ?k (chains buf)). ch_off x \<noteq> 0"
      using assms(2) by (metis in_set_takeD near_tight_def)
    then show ?thesis
      using near_tight_snoc2[of buf' "take ?k (chains buf)" "chains buf ! ?k" c d] c(1) v take stuck False by simp
  qed
qed

lemma map_off_near_tight:
  assumes "near_tight buf d" "chains buf \<noteq> []" "ch_off (last (chains buf)) \<noteq> 0" "map ch_off (chains buf') = map ch_off (chains buf)"
  shows "near_tight buf' d" "length (chains buf') = length (chains buf)"
proof -
  have "ch_off c \<noteq> 0" if "c \<in> set (chains buf)" for c
    using that assms(1-3) by (cases "chains buf" rule: rev_cases) (auto simp: near_tight_def)
  then have "0 \<notin> set (map ch_off (chains buf))"
    by fastforce
  then have "\<forall>c \<in> set (chains buf'). ch_off c \<noteq> 0"
    using assms(4) by (metis image_eqI image_set)
  then have "evbuffer_tight buf'"
    by (simp add: evbuffer_tight_def)
  then show "near_tight buf' d"
    by (rule tight_near)
  show "length (chains buf') = length (chains buf)"
    using assms(4) by (metis length_map)
qed

lemma chain_align_off: "evbuffer_chain_align c = Some c' \<Longrightarrow> ch_off c' = ch_off c"
  by (auto simp: evbuffer_chain_align_def split: if_splits)

lemma expand_choose_near_tight:
  assumes wf: "evbuffer_wf buf" and nt: "near_tight buf d" and len: "MAX_TO_COPY_IN_EXPAND + d \<le> CHAIN_MAX_REQUEST"
    and ex: "expand_choose malloc buf d = Some (Some j, buf')"
  shows "near_tight buf' d \<and> j = length (chains buf') - 1"
proof -
  define k i where "k = last_with_datap buf"
    and "i = (if k < length (chains buf) \<and> CHAIN_SPACE_LEN (chains buf ! k) = 0 then k + 1 else k)"
  let ?cs = "chains buf" and ?c = "chains buf ! i"
  note E = ex[unfolded expand_choose_def Let_def, folded k_def, folded i_def]
  note L = near_tight_lwd[OF wf nt, folded k_def]
  have new: ?thesis if "expand_insert_new malloc buf d = Some (Some j, buf')"
    "?cs \<noteq> [] \<Longrightarrow> ch_off (?cs ! k) \<noteq> 0 \<Longrightarrow> expand_stuck (?cs ! k) d"
    using near_tight_insert_new[OF wf nt _ that(1)] len that(2) by (simp add: k_def)
  show ?thesis
  proof (cases "i < length ?cs \<and> \<not> ch_has (EVBUFFER_IMMUTABLE OR EVBUFFER_MEM_PINNED_ANY) ?c")
    case False
    have "expand_stuck (?cs ! k) d" if "?cs \<noteq> []"
    proof (cases "i = k")
      case True
      then have "ch_has (EVBUFFER_IMMUTABLE OR EVBUFFER_MEM_PINNED_ANY) (?cs ! k)"
        using False L(1)[OF that] by simp
      then show ?thesis
        by (auto simp: ch_has_or expand_stuck_def CHAIN_SPACE_LEN_def)
    next
      case False
      then show ?thesis
        by (auto simp: i_def expand_stuck_def split: if_splits)
    qed
    moreover have "expand_insert_new malloc buf d = Some (Some j, buf')"
      using E False by (simp split: if_splits)
    ultimately show ?thesis
      using new by blast
  next
    case True
    then have lt: "i < length ?cs" "?cs \<noteq> []" and pin: "\<not> ch_has EVBUFFER_MEM_PINNED_ANY ?c"
      by (auto simp: ch_has_or)
    have next_stuck: "expand_stuck (?cs ! k) d" if "i \<noteq> k"
      using that by (auto simp: i_def expand_stuck_def split: if_splits)
    have here: "CHAIN_SPACE_LEN ?c \<noteq> 0" if "i = k"
      using that lt by (auto simp: i_def split: if_splits)
    have pos: "i = length ?cs - 1 \<or> i = k \<and> k + 2 = length ?cs \<and> CHAIN_SPACE_LEN ?c < d \<and> \<not> evbuffer_chain_should_realign ?c d \<and>
        (CHAIN_SPACE_LEN ?c < buffer_len ?c div 8 \<or> ch_off ?c > MAX_TO_COPY_IN_EXPAND)"
    proof (cases "i = k \<and> k + 2 = length ?cs")
      case True
      moreover have "length ?cs - 2 = k" "2 \<le> length ?cs"
        using True by linarith+
      ultimately have "expand_stuck ?c d"
        using nt L(3)[OF lt(2)] by (simp add: near_tight_def)
      then show ?thesis
        using True here pin by (auto simp: expand_stuck_def)
    next
      case False
      then show ?thesis
        using L(1,2)[OF lt(2)] lt(1) by (auto simp: i_def split: if_splits)
    qed
    have full: "ch_off (last ?cs) \<noteq> 0" if "i = length ?cs - 1" "ch_off ?c \<noteq> 0"
      using that lt(2) by (simp add: last_conv_nth)
    consider "d \<le> CHAIN_SPACE_LEN ?c"
      | "\<not> d \<le> CHAIN_SPACE_LEN ?c" "ch_off ?c = 0"
      | "\<not> d \<le> CHAIN_SPACE_LEN ?c" "ch_off ?c \<noteq> 0" "evbuffer_chain_should_realign ?c d"
      | "\<not> d \<le> CHAIN_SPACE_LEN ?c" "ch_off ?c \<noteq> 0" "\<not> evbuffer_chain_should_realign ?c d"
        "CHAIN_SPACE_LEN ?c < buffer_len ?c div 8 \<or> ch_off ?c > MAX_TO_COPY_IN_EXPAND"
      | "\<not> d \<le> CHAIN_SPACE_LEN ?c" "ch_off ?c \<noteq> 0" "\<not> evbuffer_chain_should_realign ?c d"
        "\<not> (CHAIN_SPACE_LEN ?c < buffer_len ?c div 8 \<or> ch_off ?c > MAX_TO_COPY_IN_EXPAND)"
      by blast
    then show ?thesis
    proof cases
      case 1
      then have "j = i" "buf' = buf"
        using E True by simp_all
      then show ?thesis
        using pos 1 nt by auto
    next
      case 2
      then have "expand_insert_new malloc buf d = Some (Some j, buf')"
        using E True by simp
      then show ?thesis
        by (rule new) (use next_stuck 2(2) in \<open>cases "i = k"; simp\<close>)
    next
      case 3
      then have last: "i = length ?cs - 1"
        using pos by blast
      obtain c' where c': "evbuffer_chain_align ?c = Some c'" "j = i" "buf' = set_chain buf i c'"
        using E True 3 by (cases "evbuffer_chain_align ?c") auto
      have "ch_off c' = ch_off ?c"
        using chain_align_off[OF c'(1)] .
      then have "map ch_off (chains buf') = map ch_off ?cs"
        using lt c'(3) by (simp add: map_update list_update_same_conv)
      then show ?thesis
        using map_off_near_tight[OF nt lt(2) full[OF last 3(2)], of buf'] last c'(2) by simp
    next
      case 4
      show ?thesis
      proof (cases "i + 1 < length ?cs \<and> CHAIN_SPACE_LEN (?cs ! (i + 1)) \<ge> d")
        case fits: True
        then have "j = i + 1" "buf' = buf"
          using E True 4 by simp_all
        then show ?thesis
          using fits pos nt by auto
      next
        case False
        then have "expand_insert_new malloc buf d = Some (Some j, buf')"
          using E True 4 by (simp only: if_False if_True linorder_not_less[symmetric] simp_thms if_cancel)
        moreover have "i = k \<Longrightarrow> expand_stuck (?cs ! k) d"
          using 4 by (auto simp: expand_stuck_def)
        ultimately show ?thesis
          using new next_stuck by blast
      qed
    next
      case 5
      then have last: "i = length ?cs - 1"
        using pos by blast
      have r: "expand_resize malloc buf i d = Some (Some j, buf')"
        using E True 5 by simp
      then obtain t where t: "j = i" "buf' = log_free (set_chain buf i ((chain_write t 0 (chain_data ?c))\<lparr>ch_off := ch_off ?c\<rparr>)) (evbuffer_chain_free ?c)"
        by (auto simp: expand_resize_def Let_def split: bind_splits option.splits)
      then have "map ch_off (chains buf') = map ch_off ?cs"
        using lt by (simp add: map_update list_update_same_conv)
      then show ?thesis
        using map_off_near_tight[OF nt lt(2) full[OF last 5(2)], of buf'] last t(1) by simp
    qed
  qed
qed

lemma expand_near_tight:
  assumes "evbuffer_wf buf" "near_tight buf d" "MAX_TO_COPY_IN_EXPAND + d \<le> CHAIN_MAX_REQUEST"
    "evbuffer_expand_singlechain malloc buf d = Some (Some j, buf')"
  shows "near_tight buf' d" "j = length (chains buf') - 1"
proof -
  have "expand_choose malloc buf d = Some (Some j, buf')"
    using assms(4) by (auto simp: evbuffer_expand_singlechain_def split: bind_splits option.splits if_splits)
  then show "near_tight buf' d" "j = length (chains buf') - 1"
    using expand_choose_near_tight[OF assms(1-3)] by blast+
qed

lemma near_tight_set_last:
  assumes "near_tight buf d" "chains buf \<noteq> []" "ch_off c = ch_off (last (chains buf))" "d \<le> d'"
  shows "near_tight (set_chain buf (length (chains buf) - 1) c) d'"
proof -
  obtain xs x where "chains buf = xs @ [x]"
    using assms(2) by (cases "chains buf" rule: rev_cases) auto
  then show ?thesis
    using near_tight_mono[OF assms(1,4)] assms(3) by (auto simp: near_tight_def nth_append split: if_splits)
qed

lemma vprintf_loop_tight:
  assumes wf: "evbuffer_wf buf" and i: "i < length (chains buf)" "last_with_datap buf \<le> i" "i \<le> last_with_datap buf + 1"
    and c: "\<not> ch_has EVBUFFER_IMMUTABLE (chains buf ! i)" "64 \<le> CHAIN_SPACE_LEN (chains buf ! i)"
    and len: "MAX_TO_COPY_IN_EXPAND + length txt + 1 \<le> CHAIN_MAX_REQUEST" and ne: "txt \<noteq> []"
    and nt: "near_tight buf 64" "i = length (chains buf) - 1"
    and run: "vprintf_loop malloc txt i buf = Some (r, buf')"
  shows "evbuffer_tight buf' \<or> r = - 1"
proof -
  have filled: "evbuffer_tight b'" if nt: "near_tight b d" and j: "j = length (chains b) - 1" "j < length (chains b)"
    and "chains b' = (chains b)[j := x]" "ch_off x \<noteq> 0" for b b' :: evbuffer and j x d
  proof -
    obtain xs y where "chains b = xs @ [y]"
      using j by (cases "chains b" rule: rev_cases) auto
    then show ?thesis
      using near_tight_filled[OF nt] that by simp
  qed
  have fits: "evbuffer_tight b'" if b: "evbuffer_wf b" "j < length (chains b)" "last_with_datap b \<le> j" "j \<le> last_with_datap b + 1"
    "\<not> ch_has EVBUFFER_IMMUTABLE (chains b ! j)" "length txt < CHAIN_SPACE_LEN (chains b ! j)"
    "near_tight b d" "j = length (chains b) - 1" "vprintf_loop malloc txt j b = Some (q, b')" for b j d q b'
  proof -
    obtain b2 c2 where "vprintf_loop malloc txt j b = Some (int (length txt), b2)"
      "chains b2 = (chains b)[j := c2]" "ch_off c2 = ch_off (chains b ! j) + length txt"
      by (rule vprintf_loop_fits[OF b(1-6), of malloc])
    then show ?thesis
      using filled[OF b(7,8,2), of b2 c2] b(9) ne by simp
  qed
  show ?thesis
  proof (cases "length txt < CHAIN_SPACE_LEN (chains buf ! i)")
    case True
    then show ?thesis
      using fits[OF wf i c(1) _ nt run] by blast
  next
    case False
    let ?c = "chains buf ! i"
    have wfc: "chain_wf ?c"
      using evbuffer_wfD(1)[OF wf] i by simp
    let ?b = "set_chain buf i (vsnprintf_chain ?c txt)"
    have "ch_off (vsnprintf_chain ?c txt) = ch_off ?c"
      by (simp add: vsnprintf_chain_def Let_def)
    then have near: "near_tight ?b (length txt + 1)"
      using near_tight_set_last[OF nt(1), of "vsnprintf_chain ?c txt" "length txt + 1"] i(1) nt(2) False c(2)
      by (cases "chains buf = []") (simp_all add: last_conv_nth)
    note B = set_chain_ok[OF wf i(1) vsnprintf_keeps[OF wfc c(1), of "txt"]]
    obtain result b where e: "evbuffer_expand_singlechain malloc ?b (length txt + 1) = Some (result, b)"
      "expand_outcome malloc ?b (length txt + 1) result b"
      using expand_singlechain_ok[OF B(1), of "length txt + 1" malloc] len by auto
    have step: "vprintf_loop malloc txt i buf =
        (case result of None \<Rightarrow> Some (- 1, b) | Some j \<Rightarrow> vprintf_loop malloc txt j b)"
      using False e(1) by (subst vprintf_loop.simps) (simp add: Let_def)
    show ?thesis
    proof (cases result)
      case None
      then show ?thesis
        using step run by simp
    next
      case (Some j)
      note X = expand_outcome_someD[OF e(2)[unfolded Some]]
      note N = expand_near_tight[OF B(1) near _ e(1)[unfolded Some]]
      show ?thesis
        using fits[OF X(1,4,7,8,6) _ N, of r buf'] X(5) len step Some run by simp
    qed
  qed
qed

lemma evbuffer_add_vprintf_tight:
  assumes "evbuffer_wf buf" "evbuffer_tight buf" "\<not> freeze_end buf" "txt \<noteq> []" "length txt \<le> 2 ^ 31 - 2" "\<And>n. malloc n \<noteq> None"
  shows "\<exists>buf'. evbuffer_add_vprintf malloc buf txt = Some (int (length txt), buf') \<and>
           printf_outcome malloc buf txt (int (length txt)) buf' \<and> evbuffer_tight buf'"
proof -
  have len: "MAX_TO_COPY_IN_EXPAND + length txt + 65 \<le> CHAIN_MAX_REQUEST"
    using assms(5) by (simp add: MAX_TO_COPY_IN_EXPAND_def CHAIN_MAX_REQUEST_def EVBUFFER_CHAIN_SIZE_def)
  obtain r buf' where r: "evbuffer_add_vprintf malloc buf txt = Some (r, buf')" "printf_outcome malloc buf txt r buf'"
    using evbuffer_add_vprintf_ok[OF assms(1,3) len, of malloc] by blast
  have ok: "r = int (length txt)"
    using r(2) assms(6) by (auto simp: printf_outcome_def)
  obtain result b where e: "evbuffer_expand_singlechain malloc buf 64 = Some (result, b)" "expand_outcome malloc buf 64 result b"
    using expand_singlechain_ok[OF assms(1), of 64 malloc] len by auto
  then obtain i where i: "result = Some i"
    using assms(6) by (cases result) (simp_all add: expand_outcome_def)
  note X = expand_outcome_someD[OF e(2)[unfolded i]]
  note N = expand_near_tight[OF assms(1) tight_near[OF assms(2)] _ e(1)[unfolded i]]
  have "vprintf_loop malloc txt i b = Some (r, buf')"
    using r(1) e(1) i assms(3) by (simp add: evbuffer_add_vprintf_def)
  then have "evbuffer_tight buf'"
    using vprintf_loop_tight[OF X(1,4,7,8,6,5) _ assms(4) N, of malloc r buf'] len ok by simp
  then show ?thesis
    using r ok by blast
qed

lemma space_limit: "n \<le> 2 ^ 31 \<Longrightarrow> MAX_TO_COPY_IN_EXPAND + n + 65 \<le> CHAIN_MAX_REQUEST"
  by (simp add: MAX_TO_COPY_IN_EXPAND_def CHAIN_MAX_REQUEST_def EVBUFFER_CHAIN_SIZE_def)

text \<open>
  \<open>evbuffer_expand\<close> on a well-formed buffer returns; it returns 0 with the bytes unchanged and a chain at or
  just after the last chain with data that has the space asked for, or -1 with the buffer unchanged when the
  allocator fails.
\<close>

theorem evbuffer_expand_correct:
  assumes "evbuffer_wf buf" "datlen \<le> 2 ^ 31"
  shows "\<exists>r buf'. evbuffer_expand malloc buf datlen = Some (r, buf') \<and>
           (r = 0 \<and> evbuffer_wf buf' \<and> same_settings buf buf' \<and> evbuffer_content buf' = evbuffer_content buf \<and>
            (\<exists>i. i < length (chains buf') \<and> i \<in> {last_with_datap buf', last_with_datap buf' + 1} \<and>
                 datlen \<le> CHAIN_SPACE_LEN (chains buf' ! i)) \<or>
            r = - 1 \<and> buf' = buf \<and> (\<exists>m. malloc m = None))"
proof -
  obtain result b where r: "evbuffer_expand_singlechain malloc buf datlen = Some (result, b)"
    "expand_outcome malloc buf datlen result b"
    using expand_singlechain_ok[OF assms(1), of datlen malloc] space_limit[OF assms(2)] by auto
  show ?thesis
  proof (cases result)
    case None
    then show ?thesis
      using r by (simp add: evbuffer_expand_def expand_outcome_def)
  next
    case (Some i)
    note X = expand_outcome_someD[OF r(2)[unfolded Some]]
    have "i \<in> {last_with_datap b, last_with_datap b + 1}"
      using X(7,8) by auto
    then show ?thesis
      using r(1) Some X by (auto simp: evbuffer_expand_def)
  qed
qed

text \<open>
  C22: \<open>evbuffer_add_printf\<close> on a well-formed buffer that is not frozen at its end returns; it appends the
  formatted text, however long, and returns its length, or returns -1 with the bytes unchanged when the allocator
  fails.
\<close>

theorem evbuffer_add_printf_correct:
  assumes "evbuffer_wf buf" "\<not> freeze_end buf" "length text \<le> 2 ^ 31 - 2"
  shows "\<exists>r buf'. evbuffer_add_printf malloc buf text = Some (r, buf') \<and> evbuffer_wf buf' \<and> same_settings buf buf' \<and>
           (r = int (length text) \<and> evbuffer_content buf' = evbuffer_content buf @ text \<or>
            r = - 1 \<and> evbuffer_content buf' = evbuffer_content buf \<and> (\<exists>m. malloc m = None))"
  using evbuffer_add_vprintf_ok[OF assms(1,2), of "text" malloc] space_limit[of "length text"] assms(3)
  by (auto simp: evbuffer_add_printf_def printf_outcome_def)

theorem evbuffer_add_printf_correct_witness:
  "\<exists>buf'. evbuffer_add_printf (\<lambda>n. Some n) ref_buffer (replicate 2000 65) = Some (2000, buf') \<and>
     evbuffer_content buf' = [7, 8] @ replicate 2000 65"
  using evbuffer_add_printf_correct[OF ref_buffer_ok(1,4), of "replicate 2000 65" "\<lambda>n. Some n"] ref_buffer_ok(5) by auto

end
