(* ===== verification/Http_Uri.thy ===== *)
theory Http_Uri
  imports Inet Evbuffer_Space
begin

text \<open>
  URIs and HTTP headers, from \<^verbatim>\<open>http.c\<close>: escaping, encoding and decoding, parsing a URI and putting it
  together again, parsing a query, and the list of headers.

  Strings that the code builds in an evbuffer are built in the modelled one. \<open>None\<close> as the outer result is an
  abort there, the inner \<open>None\<close> a NULL pointer. Strings are shorter than \<open>2 ^ 31\<close> characters. The in-place
  changes of the parser write a NUL behind a part that is then copied; here the part is cut out.
\<close>

section \<open>Allocation of strings\<close>

definition mm_strdup :: "allocator \<Rightarrow> string \<Rightarrow> string option" where
  "mm_strdup malloc s = (case malloc (length s + 1) of None \<Rightarrow> None | Some _ \<Rightarrow> Some s)"

text \<open>The sizes of \<^verbatim>\<open>struct evbuffer\<close>, \<^verbatim>\<open>struct evkeyval\<close> and \<^verbatim>\<open>struct evhttp_uri\<close> on a 64-bit machine.\<close>

definition sizeof_evbuffer :: nat where "sizeof_evbuffer = 144"
definition sizeof_evkeyval :: nat where "sizeof_evkeyval = 32"
definition sizeof_evhttp_uri :: nat where "sizeof_evhttp_uri = 64"

definition to_bytes :: "string \<Rightarrow> byte list" where
  "to_bytes s = map of_char s"

definition of_bytes :: "byte list \<Rightarrow> string" where
  "of_bytes bs = map (\<lambda>b. char_of (unat b)) bs"

section \<open>Escaping for HTML\<close>

text \<open>What is written for a character, or \<open>None\<close> for the character itself.\<close>

definition html_replace :: "char \<Rightarrow> string option" where
  "html_replace ch =
     (if ch = CHR ''<'' then Some ''&lt;''
      else if ch = CHR ''>'' then Some ''&gt;''
      else if ch = CHR 0x22 then Some ''&quot;''
      else if ch = CHR 0x27 then Some ''&#039;''
      else if ch = CHR ''&'' then Some ''&amp;''
      else None)"

definition html_replaced :: "char \<Rightarrow> string" where
  "html_replaced ch = (case html_replace ch of Some s \<Rightarrow> s | None \<Rightarrow> [ch])"

definition EV_SIZE_MAX :: nat where "EV_SIZE_MAX = 2 ^ 64 - 1"

text \<open>The size of the result, or \<open>None\<close> where the sum would overflow.\<close>

fun html_size :: "string \<Rightarrow> nat \<Rightarrow> nat option" where
  "html_size [] new_size = Some new_size"
| "html_size (ch # cs) new_size =
     (let replace_size = length (html_replaced ch) in
      if replace_size > EV_SIZE_MAX - new_size then None else html_size cs (new_size + replace_size))"

definition evhttp_htmlescape :: "allocator \<Rightarrow> string option \<Rightarrow> string option" where
  "evhttp_htmlescape malloc html =
     (case html of
        None \<Rightarrow> None
      | Some s \<Rightarrow>
          (case html_size s 0 of
             None \<Rightarrow> None
           | Some new_size \<Rightarrow>
               if new_size = EV_SIZE_MAX then None
               else (case malloc (new_size + 1) of
                       None \<Rightarrow> None
                     | Some _ \<Rightarrow> Some (concat (map html_replaced s)))))"

section \<open>Encoding and decoding\<close>

definition uri_chars :: "nat list" where
  "uri_chars = [
     0, 0, 0, 0, 0, 0, 0, 0,   0, 0, 0, 0, 0, 0, 0, 0,
     0, 0, 0, 0, 0, 0, 0, 0,   0, 0, 0, 0, 0, 0, 0, 0,
     0, 0, 0, 0, 0, 0, 0, 0,   0, 0, 0, 0, 0, 1, 1, 0,
     1, 1, 1, 1, 1, 1, 1, 1,   1, 1, 0, 0, 0, 0, 0, 0,
     0, 1, 1, 1, 1, 1, 1, 1,   1, 1, 1, 1, 1, 1, 1, 1,
     1, 1, 1, 1, 1, 1, 1, 1,   1, 1, 1, 0, 0, 0, 0, 1,
     0, 1, 1, 1, 1, 1, 1, 1,   1, 1, 1, 1, 1, 1, 1, 1,
     1, 1, 1, 1, 1, 1, 1, 1,   1, 1, 1, 0, 0, 0, 1, 0] @ replicate 128 0"

definition CHAR_IS_UNRESERVED :: "char \<Rightarrow> bool" where
  "CHAR_IS_UNRESERVED c \<longleftrightarrow> uri_chars ! of_char c \<noteq> 0"

text \<open>The format \<^verbatim>\<open>%%%02X\<close>.\<close>

definition percent_X :: "char \<Rightarrow> string" where
  "percent_X c = [CHR ''%'', ''0123456789ABCDEF'' ! (of_char c div 16), ''0123456789ABCDEF'' ! (of_char c mod 16)]"

text \<open>One character; the results of adding it are ignored.\<close>

definition uriencode_char :: "allocator \<Rightarrow> bool \<Rightarrow> char \<Rightarrow> evbuffer \<Rightarrow> evbuffer option" where
  "uriencode_char malloc space_as_plus c buf =
     map_option snd
       (if CHAR_IS_UNRESERVED c then evbuffer_add malloc buf (to_bytes [c])
        else if c = CHR '' '' \<and> space_as_plus then evbuffer_add malloc buf (to_bytes ''+'')
        else evbuffer_add_printf malloc buf (to_bytes (percent_X c)))"

fun uriencode_loop :: "allocator \<Rightarrow> bool \<Rightarrow> string \<Rightarrow> evbuffer \<Rightarrow> evbuffer option" where
  "uriencode_loop malloc space_as_plus [] buf = Some buf"
| "uriencode_loop malloc space_as_plus (c # cs) buf = do {
     buf' \<leftarrow> uriencode_char malloc space_as_plus c buf;
     uriencode_loop malloc space_as_plus cs buf'
   }"

text \<open>
  \<open>uri\<close> is the memory the pointer points to: all of it up to a NUL is read when \<open>len\<close> is negative, else its first
  \<open>len\<close> characters. The result is the memory that is returned, with its terminating NUL.
\<close>

definition evhttp_uriencode :: "allocator \<Rightarrow> string \<Rightarrow> int \<Rightarrow> bool \<Rightarrow> string option option" where
  "evhttp_uriencode malloc uri len space_as_plus =
     (case malloc sizeof_evbuffer of
        None \<Rightarrow> Some None
      | Some _ \<Rightarrow>
          (let text = (if len \<ge> 0 then take (nat len) uri else takeWhile (\<lambda>c. c \<noteq> NUL) uri) in do {
             buf \<leftarrow> uriencode_loop malloc space_as_plus text evbuffer_new;
             (_, buf) \<leftarrow> evbuffer_add malloc buf (to_bytes [NUL]);
             (case malloc (evbuffer_get_length buf) of
                None \<Rightarrow> do { _ \<leftarrow> evbuffer_free buf; Some None }
              | Some _ \<Rightarrow> do {
                  (_, result, buf) \<leftarrow> evbuffer_remove buf (evbuffer_get_length buf);
                  _ \<leftarrow> evbuffer_free buf;
                  Some (Some (of_bytes result))
                })
           }))"

definition evhttp_encode_uri :: "allocator \<Rightarrow> string \<Rightarrow> string option option" where
  "evhttp_encode_uri malloc str = evhttp_uriencode malloc str (- 1) False"

text \<open>
  The loop of the decoder on the rest of the string, of which \<open>n\<close> characters are left; reading one or two
  characters ahead gives the NUL at the end. The second flag is \<^verbatim>\<open>decode_plus_ctl < 0\<close>.
\<close>

function decode_uri_loop :: "string \<Rightarrow> nat \<Rightarrow> bool \<Rightarrow> bool \<Rightarrow> string" where
  "decode_uri_loop uri n decode_plus ctl_negative =
     (if n = 0 then []
      else let c = char_at uri 0 in
      if c = CHR ''?'' then
        c # decode_uri_loop (tl uri) (n - 1) (decode_plus \<or> ctl_negative) ctl_negative
      else if c = CHR ''+'' \<and> decode_plus then
        CHR '' '' # decode_uri_loop (tl uri) (n - 1) decode_plus ctl_negative
      else if c = CHR ''%'' \<and> EVUTIL_ISXDIGIT (char_at uri 1) \<and> EVUTIL_ISXDIGIT (char_at uri 2) then
        char_of (nat (fst (strtol16 [char_at uri 1, char_at uri 2]))) #
          decode_uri_loop (drop 3 uri) (n - 3) decode_plus ctl_negative
      else c # decode_uri_loop (tl uri) (n - 1) decode_plus ctl_negative)"
  by pat_completeness auto
termination
  by (relation "measure (\<lambda>(uri, n, p, c). n)") auto

declare decode_uri_loop.simps [simp del]

definition evhttp_decode_uri_internal :: "string \<Rightarrow> nat \<Rightarrow> int \<Rightarrow> int \<times> string" where
  "evhttp_decode_uri_internal uri len decode_plus_ctl =
     (let ret = decode_uri_loop uri len (decode_plus_ctl = 1) (decode_plus_ctl < 0) in (int (length ret), ret))"

definition evhttp_decode_uri :: "allocator \<Rightarrow> string \<Rightarrow> string option" where
  "evhttp_decode_uri malloc uri =
     (case malloc (length uri + 1) of
        None \<Rightarrow> None
      | Some _ \<Rightarrow> Some (snd (evhttp_decode_uri_internal uri (length uri) (- 1))))"

definition evhttp_uridecode :: "allocator \<Rightarrow> string \<Rightarrow> bool \<Rightarrow> (string \<times> nat) option" where
  "evhttp_uridecode malloc uri decode_plus =
     (case malloc (length uri + 1) of
        None \<Rightarrow> None
      | Some _ \<Rightarrow>
          (let (n, ret) = evhttp_decode_uri_internal uri (length uri) (if decode_plus then 1 else 0) in
           Some (ret, nat n)))"

section \<open>Headers\<close>

text \<open>The list of headers of a request: \<^verbatim>\<open>struct evkeyvalq\<close>.\<close>

type_synonym evkeyvalq = "(string \<times> string) list"

fun evhttp_find_header :: "evkeyvalq \<Rightarrow> string \<Rightarrow> string option" where
  "evhttp_find_header [] key = None"
| "evhttp_find_header ((k, v) # hs) key =
     (if evutil_ascii_strcasecmp k key = 0 then Some v else evhttp_find_header hs key)"

definition evhttp_clear_headers :: "evkeyvalq \<Rightarrow> evkeyvalq" where
  "evhttp_clear_headers headers = []"

fun evhttp_remove_header :: "evkeyvalq \<Rightarrow> string \<Rightarrow> int \<times> evkeyvalq" where
  "evhttp_remove_header [] key = (- 1, [])"
| "evhttp_remove_header (h # hs) key =
     (if evutil_ascii_strcasecmp (fst h) key = 0 then (0, hs)
      else let (r, hs') = evhttp_remove_header hs key in (r, h # hs'))"

definition CR :: char where "CR = CHR 0x0D"
definition LF :: char where "LF = CHR 0x0A"
definition TAB :: char where "TAB = CHR 0x09"

definition is_newline :: "char \<Rightarrow> bool" where
  "is_newline c \<longleftrightarrow> c = CR \<or> c = LF"

lemma length_dropWhile_less: "xs \<noteq> [] \<Longrightarrow> P (hd xs) \<Longrightarrow> length (dropWhile P xs) < length xs"
  by (cases xs) (auto simp: less_Suc_eq_le length_dropWhile_le)

text \<open>Behind each run of line ends a blank must follow. \<open>p\<close> is the rest that \<open>strpbrk\<close> searches.\<close>

function evhttp_header_is_valid_value :: "string \<Rightarrow> bool" where
  "evhttp_header_is_valid_value p =
     (let q = dropWhile (\<lambda>c. \<not> is_newline c) p in
      if q = [] then True
      else let r = dropWhile is_newline q in
        if char_at r 0 \<noteq> CHR '' '' \<and> char_at r 0 \<noteq> TAB then False
        else evhttp_header_is_valid_value r)"
  by pat_completeness auto
termination
proof (relation "measure length", simp, goal_cases)
  case (1 p q r)
  then have "is_newline (hd q)"
    using hd_dropWhile[of "\<lambda>c. \<not> is_newline c" p] by simp
  then have "length r < length q"
    using length_dropWhile_less[of q is_newline] 1(2,3) by blast
  moreover have "length q \<le> length p"
    using 1 length_dropWhile_le by blast
  ultimately show ?case
    by simp
qed

declare evhttp_header_is_valid_value.simps [simp del]

definition evhttp_add_header_internal :: "allocator \<Rightarrow> evkeyvalq \<Rightarrow> string \<Rightarrow> string \<Rightarrow> int \<times> evkeyvalq" where
  "evhttp_add_header_internal malloc headers key value =
     (case malloc sizeof_evkeyval of
        None \<Rightarrow> (- 1, headers)
      | Some _ \<Rightarrow>
          (case mm_strdup malloc key of
             None \<Rightarrow> (- 1, headers)
           | Some k \<Rightarrow>
               (case mm_strdup malloc value of
                  None \<Rightarrow> (- 1, headers)
                | Some v \<Rightarrow> (0, headers @ [(k, v)]))))"

definition evhttp_add_header :: "allocator \<Rightarrow> evkeyvalq \<Rightarrow> string \<Rightarrow> string \<Rightarrow> int \<times> evkeyvalq" where
  "evhttp_add_header malloc headers key value =
     (if strchr key CR \<noteq> None \<or> strchr key LF \<noteq> None then (- 1, headers)
      else if \<not> evhttp_header_is_valid_value value then (- 1, headers)
      else evhttp_add_header_internal malloc headers key value)"

section \<open>The parts of a URI\<close>

record evhttp_uri =
  uri_flags :: u32
  scheme :: "string option"
  userinfo :: "string option"
  host :: "string option"
  port :: int
  path :: "string option"
  query :: "string option"
  fragment :: "string option"

definition EVHTTP_URI_NONCONFORMANT :: u32 where "EVHTTP_URI_NONCONFORMANT = 0x01"

definition uri_init :: "u32 \<Rightarrow> evhttp_uri" where
  "uri_init fl = \<lparr>uri_flags = fl, scheme = None, userinfo = None, host = None, port = - 1,
                  path = None, query = None, fragment = None\<rparr>"

definition evhttp_uri_new :: "allocator \<Rightarrow> evhttp_uri option" where
  "evhttp_uri_new malloc = (case malloc sizeof_evhttp_uri of None \<Rightarrow> None | Some _ \<Rightarrow> Some (uri_init 0))"

definition evhttp_uri_set_flags :: "evhttp_uri \<Rightarrow> u32 \<Rightarrow> evhttp_uri" where
  "evhttp_uri_set_flags uri fl = uri\<lparr>uri_flags := fl\<rparr>"

definition SUBDELIMS :: string where
  "SUBDELIMS = ''!$&'' @ [CHR 0x27] @ ''()*+,;=''"

fun scheme_rest_ok :: "string \<Rightarrow> bool" where
  "scheme_rest_ok [] = True"
| "scheme_rest_ok (c # cs) =
     (if \<not> EVUTIL_ISALNUM c \<and> c \<noteq> CHR ''+'' \<and> c \<noteq> CHR ''-'' \<and> c \<noteq> CHR ''.'' then False else scheme_rest_ok cs)"

definition scheme_ok :: "string \<Rightarrow> bool" where
  "scheme_ok s = (if s = [] then False else if \<not> EVUTIL_ISALPHA (hd s) then False else scheme_rest_ok (tl s))"

definition unreserved_or_subdelim :: "char \<Rightarrow> bool" where
  "unreserved_or_subdelim c \<longleftrightarrow> CHAR_IS_UNRESERVED c \<or> strchr SUBDELIMS c \<noteq> None"

fun userinfo_ok :: "string \<Rightarrow> bool" where
  "userinfo_ok [] = True"
| "userinfo_ok (c # cs) =
     (if unreserved_or_subdelim c \<or> c = CHR '':'' then userinfo_ok cs
      else if c = CHR ''%'' then
        (case cs of
           a # b # r \<Rightarrow> if EVUTIL_ISXDIGIT a \<and> EVUTIL_ISXDIGIT b then userinfo_ok r else False
         | _ \<Rightarrow> False)
      else False)"

text \<open>The range is the first \<open>n\<close> characters of \<open>s\<close>; the two characters after a percent sign are read without a test.\<close>

function regname_ok :: "string \<Rightarrow> nat \<Rightarrow> bool" where
  "regname_ok s n =
     (if n = 0 then True
      else let c = char_at s 0 in
      if unreserved_or_subdelim c then regname_ok (tl s) (n - 1)
      else if c = CHR ''%'' \<and> EVUTIL_ISXDIGIT (char_at s 1) \<and> EVUTIL_ISXDIGIT (char_at s 2) then regname_ok (drop 3 s) (n - 3)
      else False)"
  by pat_completeness auto
termination
  by (relation "measure snd") auto

declare regname_ok.simps [simp del]

text \<open>The \<open>int\<close> wraps, as it does on the usual machines.\<close>

fun parse_port_loop :: "int \<Rightarrow> string \<Rightarrow> int" where
  "parse_port_loop portnum [] = portnum"
| "parse_port_loop portnum (c # cs) =
     (if \<not> EVUTIL_ISDIGIT c then - 1
      else let p = signed_take_bit 31 (portnum * 10 + (of_char c - 48)) in
        if p < 0 then - 1 else parse_port_loop p cs)"

definition parse_port :: "string \<Rightarrow> int" where
  "parse_port s = parse_port_loop 0 s"

definition bracket_addr_ok :: "u16 list \<Rightarrow> string \<Rightarrow> int" where
  "bracket_addr_ok words0 s =
     (if length s < 3 \<or> hd s \<noteq> CHR ''['' \<or> last s \<noteq> CHR '']'' then 0
      else if s ! 1 = CHR ''v'' then
        (let t = butlast (drop 2 s); r = dropWhile EVUTIL_ISXDIGIT t in
         if \<not> EVUTIL_ISXDIGIT (s ! 2) then 0
         else if r = [] \<or> hd r \<noteq> CHR ''.'' then 0
         else if list_all (\<lambda>c. unreserved_or_subdelim c \<or> c = CHR '':'') (tl r) then 2
         else 0)
      else (let buf = butlast (tl s) in
            if length buf \<ge> 64 then 0
            else if fst (evutil_inet_pton words0 AF_INET6 buf) = 1 then 1 else 0))"

text \<open>
  The authority is the first \<open>n\<close> characters of \<open>s\<close>. The part behind the user information is split at a port: \<open>None\<close>
  stands for -1 as the result, else the host and the port.
\<close>

definition split_port :: "string \<Rightarrow> (string \<times> int option) option" where
  "split_port t =
     (let k = length (takeWhile EVUTIL_ISDIGIT (rev t)); i = length t - k in
      if i \<ge> 1 \<and> t ! (i - 1) = CHR '':'' then
        (if k = 0 then Some (take (i - 1) t, Some (- 1))
         else let p = parse_port (drop i t) in if p < 0 then None else Some (take (i - 1) t, Some p))
      else Some (t, None))"

definition host_ok :: "u16 list \<Rightarrow> string \<Rightarrow> nat \<Rightarrow> bool" where
  "host_ok words0 cp n =
     (if char_at cp 0 = CHR ''['' \<and> n \<ge> 2 \<and> char_at cp (n - 1) = CHR '']''
      then bracket_addr_ok words0 (take n cp) \<noteq> 0
      else regname_ok cp n)"

definition parse_authority :: "allocator \<Rightarrow> u16 list \<Rightarrow> evhttp_uri \<Rightarrow> string \<Rightarrow> nat \<Rightarrow> int \<times> evhttp_uri" where
  "parse_authority malloc words0 uri s n =
     (if n = 0 then
        (case mm_strdup malloc [] of None \<Rightarrow> (- 1, uri) | Some h \<Rightarrow> (0, uri\<lparr>host := Some h\<rparr>))
      else
        (let at = strchr s CHR ''@'';
             user = (case at of
                None \<Rightarrow> Some (uri, 0)
              | Some a \<Rightarrow>
                  if a < n then
                    (if \<not> userinfo_ok (take a s) then None
                     else case mm_strdup malloc (take a s) of
                            None \<Rightarrow> None
                          | Some u \<Rightarrow> Some (uri\<lparr>userinfo := Some u\<rparr>, a + 1))
                  else Some (uri, 0))
         in case user of
              None \<Rightarrow> (- 1, uri)
            | Some (uri1, cp) \<Rightarrow>
                (case split_port (drop cp (take n s)) of
                   None \<Rightarrow> (- 1, uri1)
                 | Some (h, p) \<Rightarrow>
                     (let uri2 = (case p of None \<Rightarrow> uri1 | Some v \<Rightarrow> uri1\<lparr>port := v\<rparr>) in
                      if \<not> host_ok words0 (drop cp s) (length h) then (- 1, uri2)
                      else case malloc (length h + 1) of
                             None \<Rightarrow> (- 1, uri2)
                           | Some _ \<Rightarrow> (0, uri2\<lparr>host := Some h\<rparr>)))))"

definition end_of_authority :: "string \<Rightarrow> nat" where
  "end_of_authority cp = length (takeWhile (\<lambda>c. \<not> (c = CHR ''?'' \<or> c = CHR ''#'' \<or> c = CHR ''/'')) cp)"

datatype uri_part = PART_PATH | PART_QUERY | PART_FRAGMENT

text \<open>The number of characters before the end that \<open>end_of_path\<close> finds.\<close>

fun conformant_end :: "uri_part \<Rightarrow> string \<Rightarrow> nat" where
  "conformant_end part [] = 0"
| "conformant_end part (c # cs) =
     (if unreserved_or_subdelim c \<or> c = CHR '':'' \<or> c = CHR ''@'' \<or> c = CHR ''/'' then Suc (conformant_end part cs)
      else if c = CHR ''%'' \<and> EVUTIL_ISXDIGIT (char_at cs 0) \<and> EVUTIL_ISXDIGIT (char_at cs 1)
      then 3 + conformant_end part (drop 2 cs)
      else if c = CHR ''?'' \<and> part \<noteq> PART_PATH then Suc (conformant_end part cs)
      else 0)"

definition end_of_path :: "string \<Rightarrow> uri_part \<Rightarrow> u32 \<Rightarrow> nat" where
  "end_of_path cp part fl =
     (if fl AND EVHTTP_URI_NONCONFORMANT \<noteq> 0 then
        (case part of
           PART_PATH \<Rightarrow> length (takeWhile (\<lambda>c. c \<noteq> CHR ''#'' \<and> c \<noteq> CHR ''?'') cp)
         | PART_QUERY \<Rightarrow> length (takeWhile (\<lambda>c. c \<noteq> CHR ''#'') cp)
         | PART_FRAGMENT \<Rightarrow> length cp)
      else conformant_end part cp)"

fun path_matches_noscheme :: "string \<Rightarrow> bool" where
  "path_matches_noscheme [] = True"
| "path_matches_noscheme (c # cs) =
     (if c = CHR '':'' then False else if c = CHR ''/'' then True else path_matches_noscheme cs)"

section \<open>Parsing a URI\<close>

text \<open>The scheme and the rest of the text.\<close>

definition parse_scheme :: "allocator \<Rightarrow> evhttp_uri \<Rightarrow> string \<Rightarrow> (evhttp_uri \<times> string) option" where
  "parse_scheme malloc uri readp =
     (case strchr readp CHR '':'' of
        None \<Rightarrow> Some (uri, readp)
      | Some token \<Rightarrow>
          if scheme_ok (take token readp) then
            (case mm_strdup malloc (take token readp) of
               None \<Rightarrow> None
             | Some s \<Rightarrow> Some (uri\<lparr>scheme := Some s\<rparr>, drop (token + 1) readp))
          else Some (uri, readp))"

text \<open>The authority; the flag is \<open>got_authority\<close>.\<close>

definition parse_hier :: "allocator \<Rightarrow> u16 list \<Rightarrow> evhttp_uri \<Rightarrow> string \<Rightarrow> (evhttp_uri \<times> string \<times> bool) option" where
  "parse_hier malloc words0 uri readp =
     (if char_at readp 0 = CHR ''/'' \<and> char_at readp 1 = CHR ''/'' then
        (let authority = drop 2 readp; n = end_of_authority authority;
             (r, uri') = parse_authority malloc words0 uri authority n in
         if r < 0 then None else Some (uri', drop n authority, True))
      else Some (uri, readp, False))"

text \<open>The path, query and fragment of the rest of the text, or \<open>None\<close> when characters are left over.\<close>

definition split_tail :: "u32 \<Rightarrow> string \<Rightarrow> (string \<times> string option \<times> string option) option" where
  "split_tail fl readp =
     (let n = end_of_path readp PART_PATH fl; p = take n readp; r = drop n readp;
          (q, r) = (if char_at r 0 = CHR ''?'' then
                      (let m = end_of_path (tl r) PART_QUERY fl in (Some (take m (tl r)), drop m (tl r)))
                    else (None, r));
          (f, r) = (if char_at r 0 = CHR ''#'' then
                      (let m = end_of_path (tl r) PART_FRAGMENT fl in (Some (take m (tl r)), drop m (tl r)))
                    else (None, r))
      in if r \<noteq> [] then None else Some (p, q, f))"

definition dup_opt :: "allocator \<Rightarrow> string option \<Rightarrow> string option option" where
  "dup_opt malloc s = (case s of None \<Rightarrow> Some None | Some t \<Rightarrow> map_option Some (mm_strdup malloc t))"

definition evhttp_uri_parse_with_flags :: "allocator \<Rightarrow> u16 list \<Rightarrow> string \<Rightarrow> u32 \<Rightarrow> evhttp_uri option" where
  "evhttp_uri_parse_with_flags malloc words0 source_uri fl = do {
     _ \<leftarrow> malloc sizeof_evhttp_uri;
     readbuf \<leftarrow> mm_strdup malloc source_uri;
     (uri, readp) \<leftarrow> parse_scheme malloc (uri_init fl) readbuf;
     (uri, readp, got_authority) \<leftarrow> parse_hier malloc words0 uri readp;
     (p, q, f) \<leftarrow> split_tail fl readp;
     if \<not> got_authority \<and> char_at p 0 = CHR ''/'' \<and> char_at p 1 = CHR ''/'' then None
     else if got_authority \<and> char_at p 0 \<noteq> CHR ''/'' \<and> char_at p 0 \<noteq> NUL then None
     else if scheme uri = None \<and> \<not> path_matches_noscheme p then None
     else do {
       p' \<leftarrow> mm_strdup malloc p;
       q' \<leftarrow> dup_opt malloc q;
       f' \<leftarrow> dup_opt malloc f;
       Some (uri\<lparr>path := Some p', query := q', fragment := f'\<rparr>)
     }
   }"

definition evhttp_uri_parse :: "allocator \<Rightarrow> u16 list \<Rightarrow> string \<Rightarrow> evhttp_uri option" where
  "evhttp_uri_parse malloc words0 source_uri = evhttp_uri_parse_with_flags malloc words0 source_uri 0"

section \<open>Putting a URI together\<close>

definition uri_add :: "allocator \<Rightarrow> string \<Rightarrow> evbuffer \<Rightarrow> evbuffer option" where
  "uri_add malloc s tmp = map_option snd (evbuffer_add malloc tmp (to_bytes s))"

definition uri_printf :: "allocator \<Rightarrow> string \<Rightarrow> evbuffer \<Rightarrow> evbuffer option" where
  "uri_printf malloc s tmp = map_option snd (evbuffer_add_printf malloc tmp (to_bytes s))"

text \<open>A part with the separator before it, if the part is there.\<close>

definition uri_add_opt :: "allocator \<Rightarrow> string \<Rightarrow> string option \<Rightarrow> evbuffer \<Rightarrow> evbuffer option" where
  "uri_add_opt malloc sep f tmp =
     (case f of
        None \<Rightarrow> Some tmp
      | Some s \<Rightarrow> do { tmp \<leftarrow> (if sep = [] then Some tmp else uri_add malloc sep tmp); uri_add malloc s tmp })"

definition join_authority :: "allocator \<Rightarrow> evhttp_uri \<Rightarrow> string \<Rightarrow> evbuffer \<Rightarrow> evbuffer option" where
  "join_authority malloc uri h tmp = do {
     tmp \<leftarrow> uri_add malloc ''//'' tmp;
     tmp \<leftarrow> (case userinfo uri of None \<Rightarrow> Some tmp | Some u \<Rightarrow> uri_printf malloc (u @ ''@'') tmp);
     tmp \<leftarrow> uri_add malloc h tmp;
     if port uri \<ge> 0 then uri_printf malloc ('':'' @ print_int (port uri)) tmp else Some tmp
   }"

definition bad_path :: "evhttp_uri \<Rightarrow> bool" where
  "bad_path uri \<longleftrightarrow>
     (case path uri of None \<Rightarrow> False | Some p \<Rightarrow> char_at p 0 \<noteq> CHR ''/'' \<and> char_at p 0 \<noteq> NUL)"

text \<open>The text in the caller's buffer of \<open>limit\<close> characters, or \<open>None\<close> for NULL.\<close>

definition evhttp_uri_join :: "allocator \<Rightarrow> evhttp_uri \<Rightarrow> nat \<Rightarrow> string option option" where
  "evhttp_uri_join malloc uri limit =
     (if limit = 0 then Some None
      else case malloc sizeof_evbuffer of
        None \<Rightarrow> Some None
      | Some _ \<Rightarrow> do {
          tmp \<leftarrow> (case scheme uri of
                    None \<Rightarrow> Some evbuffer_new
                  | Some s \<Rightarrow> do { tmp \<leftarrow> uri_add malloc s evbuffer_new; uri_add malloc '':'' tmp });
          tmp \<leftarrow> (case host uri of None \<Rightarrow> Some tmp | Some h \<Rightarrow> join_authority malloc uri h tmp);
          if host uri \<noteq> None \<and> bad_path uri then do { _ \<leftarrow> evbuffer_free tmp; Some None }
          else do {
            tmp \<leftarrow> uri_add_opt malloc [] (path uri) tmp;
            tmp \<leftarrow> uri_add_opt malloc ''?'' (query uri) tmp;
            tmp \<leftarrow> uri_add_opt malloc ''#'' (fragment uri) tmp;
            tmp \<leftarrow> uri_add malloc [NUL] tmp;
            let joined_size = evbuffer_get_length tmp in
            if joined_size > limit then do { _ \<leftarrow> evbuffer_free tmp; Some None }
            else do {
              (_, buf, tmp) \<leftarrow> evbuffer_remove tmp joined_size;
              _ \<leftarrow> evbuffer_free tmp;
              Some (Some (of_bytes buf))
            }
          }
        })"

section \<open>Setting the parts\<close>

text \<open>The old string is freed before the new one is copied: when that fails, the part is NULL and the result -1.\<close>

definition uri_set_str :: "allocator \<Rightarrow> (string option \<Rightarrow> evhttp_uri) \<Rightarrow> string option \<Rightarrow> int \<times> evhttp_uri" where
  "uri_set_str malloc upd f =
     (case f of
        None \<Rightarrow> (0, upd None)
      | Some s \<Rightarrow> (case mm_strdup malloc s of None \<Rightarrow> (- 1, upd None) | Some t \<Rightarrow> (0, upd (Some t))))"

definition evhttp_uri_set_scheme :: "allocator \<Rightarrow> evhttp_uri \<Rightarrow> string option \<Rightarrow> int \<times> evhttp_uri" where
  "evhttp_uri_set_scheme malloc uri s =
     (if (case s of None \<Rightarrow> False | Some t \<Rightarrow> \<not> scheme_ok t) then (- 1, uri)
      else uri_set_str malloc (\<lambda>x. uri\<lparr>scheme := x\<rparr>) s)"

definition evhttp_uri_set_userinfo :: "allocator \<Rightarrow> evhttp_uri \<Rightarrow> string option \<Rightarrow> int \<times> evhttp_uri" where
  "evhttp_uri_set_userinfo malloc uri s =
     (if (case s of None \<Rightarrow> False | Some t \<Rightarrow> \<not> userinfo_ok t) then (- 1, uri)
      else uri_set_str malloc (\<lambda>x. uri\<lparr>userinfo := x\<rparr>) s)"

definition evhttp_uri_set_host :: "allocator \<Rightarrow> u16 list \<Rightarrow> evhttp_uri \<Rightarrow> string option \<Rightarrow> int \<times> evhttp_uri" where
  "evhttp_uri_set_host malloc words0 uri h =
     (if (case h of
            None \<Rightarrow> False
          | Some t \<Rightarrow> if char_at t 0 = CHR ''['' then bracket_addr_ok words0 t = 0 else \<not> regname_ok t (length t))
      then (- 1, uri)
      else uri_set_str malloc (\<lambda>x. uri\<lparr>host := x\<rparr>) h)"

definition evhttp_uri_set_port :: "evhttp_uri \<Rightarrow> int \<Rightarrow> int \<times> evhttp_uri" where
  "evhttp_uri_set_port uri p = (if p < - 1 then (- 1, uri) else (0, uri\<lparr>port := p\<rparr>))"

definition part_bad :: "evhttp_uri \<Rightarrow> uri_part \<Rightarrow> string option \<Rightarrow> bool" where
  "part_bad uri part s \<longleftrightarrow> (case s of None \<Rightarrow> False | Some t \<Rightarrow> end_of_path t part (uri_flags uri) \<noteq> length t)"

definition evhttp_uri_set_path :: "allocator \<Rightarrow> evhttp_uri \<Rightarrow> string option \<Rightarrow> int \<times> evhttp_uri" where
  "evhttp_uri_set_path malloc uri s =
     (if part_bad uri PART_PATH s then (- 1, uri) else uri_set_str malloc (\<lambda>x. uri\<lparr>path := x\<rparr>) s)"

definition evhttp_uri_set_query :: "allocator \<Rightarrow> evhttp_uri \<Rightarrow> string option \<Rightarrow> int \<times> evhttp_uri" where
  "evhttp_uri_set_query malloc uri s =
     (if part_bad uri PART_QUERY s then (- 1, uri) else uri_set_str malloc (\<lambda>x. uri\<lparr>query := x\<rparr>) s)"

definition evhttp_uri_set_fragment :: "allocator \<Rightarrow> evhttp_uri \<Rightarrow> string option \<Rightarrow> int \<times> evhttp_uri" where
  "evhttp_uri_set_fragment malloc uri s =
     (if part_bad uri PART_FRAGMENT s then (- 1, uri) else uri_set_str malloc (\<lambda>x. uri\<lparr>fragment := x\<rparr>) s)"

section \<open>Parsing a query\<close>

text \<open>\<open>strsep\<close> with one separator: the part before it, and the rest behind it, if there is a separator.\<close>

definition strsep :: "string \<Rightarrow> char \<Rightarrow> string \<times> string option" where
  "strsep s del =
     (case strchr s del of None \<Rightarrow> (s, None) | Some d \<Rightarrow> (take d s, Some (drop (d + 1) s)))"

text \<open>The loop over the arguments; \<open>None\<close> is the jump to the label for errors.\<close>

function parse_query_loop :: "allocator \<Rightarrow> string option \<Rightarrow> evkeyvalq \<Rightarrow> evkeyvalq option" where
  "parse_query_loop malloc p headers =
     (case p of
        None \<Rightarrow> Some headers
      | Some [] \<Rightarrow> Some headers
      | Some (c # cs) \<Rightarrow>
          (let (argument, p') = strsep (c # cs) CHR ''&''; (key, value) = strsep argument CHR ''='' in
           case value of
             None \<Rightarrow> None
           | Some v \<Rightarrow>
               if key = [] then None
               else (case malloc (length v + 1) of
                       None \<Rightarrow> None
                     | Some _ \<Rightarrow>
                         parse_query_loop malloc p'
                           (snd (evhttp_add_header_internal malloc headers key
                              (takeWhile (\<lambda>c. c \<noteq> NUL) (snd (evhttp_decode_uri_internal v (length v) 1))))))))"
  by pat_completeness auto
termination
  by (relation "measure (\<lambda>(m, p, h). case p of None \<Rightarrow> 0 | Some s \<Rightarrow> Suc (length s))")
    (auto simp: strsep_def split: option.splits if_splits)

declare parse_query_loop.simps [simp del]

definition parse_query_text :: "allocator \<Rightarrow> string option \<Rightarrow> int \<times> evkeyvalq" where
  "parse_query_text malloc query_part =
     (case query_part of
        None \<Rightarrow> (0, [])
      | Some q \<Rightarrow>
          if q = [] then (0, [])
          else (case mm_strdup malloc q of
                  None \<Rightarrow> (- 1, evhttp_clear_headers [])
                | Some line \<Rightarrow>
                    (case parse_query_loop malloc (Some line) [] of
                       None \<Rightarrow> (- 1, evhttp_clear_headers [])
                     | Some headers \<Rightarrow> (0, headers))))"

definition evhttp_parse_query :: "allocator \<Rightarrow> u16 list \<Rightarrow> string \<Rightarrow> int \<times> evkeyvalq" where
  "evhttp_parse_query malloc words0 uri =
     (case evhttp_uri_parse malloc words0 uri of
        None \<Rightarrow> (- 1, evhttp_clear_headers [])
      | Some u \<Rightarrow> parse_query_text malloc (query u))"

definition evhttp_parse_query_str :: "allocator \<Rightarrow> string \<Rightarrow> int \<times> evkeyvalq" where
  "evhttp_parse_query_str malloc uri = parse_query_text malloc (Some uri)"

end
