(* ===== verification/Tag_Code.thy ===== *)
theory Tag_Code
  imports Prelude
begin

text \<open>
  The integer and tag codes of \<^verbatim>\<open>event_tagging.c\<close> on arrays of bytes: an integer is written as
  nibbles, the first of which holds their number less one, a tag as groups of seven bits, the least
  significant first, with the high bit of each byte as a continuation mark. The macros of the code are
  generic in the width of the number, as the definitions here are.
\<close>

section \<open>Integers\<close>

text \<open>The loop of \<open>ENCODE_INT_INTERNAL\<close>: \<open>off\<close> is the position of the next nibble.\<close>

function encode_int_loop :: "byte list \<Rightarrow> 'a::len word \<Rightarrow> nat \<Rightarrow> byte list \<times> nat" where
  "encode_int_loop data number off =
     (if number = 0 then (data, off)
      else encode_int_loop
             (if odd off
              then data[off div 2 := (data ! (off div 2) AND 0xf0) OR ucast (number AND 0x0f)]
              else data[off div 2 := (data ! (off div 2) AND 0x0f) OR push_bit 4 (ucast (number AND 0x0f))])
             (drop_bit 4 number) (off + 1))"
  by auto

lemma unat_drop_bit_less: "number \<noteq> 0 \<Longrightarrow> 0 < n \<Longrightarrow> unat (drop_bit n number) < unat (number :: 'a::len word)"
  using div_less_dividend[of "2 ^ n" "unat number"] one_less_power[of "2 :: nat" n]
  by (simp only: unat_drop_bit_eq) (simp add: drop_bit_eq_div unat_gt_0)

termination encode_int_loop
  by (relation "measure (\<lambda>(_, number, _). unat number)") (auto intro: unat_drop_bit_less)

declare encode_int_loop.simps [simp del]

text \<open>The number of bytes to use, and the array of \<open>sizeof(number) + 1\<close> bytes.\<close>

definition ENCODE_INT_INTERNAL :: "'a::len word \<Rightarrow> nat \<times> byte list" where
  "ENCODE_INT_INTERNAL number =
     (let (data, off) = encode_int_loop (replicate (LENGTH('a) div 8 + 1) 0) number 1;
          nibbles = (if off > 2 then off - 2 else 0);
          data' = data[0 := (data ! 0 AND 0x0f) OR push_bit 4 (of_nat nibbles AND 0x0f)]
      in ((off + 1) div 2, data'))"

definition encode_int_internal :: "u32 \<Rightarrow> nat \<times> byte list" where
  "encode_int_internal number = ENCODE_INT_INTERNAL number"

definition encode_int64_internal :: "u64 \<Rightarrow> nat \<times> byte list" where
  "encode_int64_internal number = ENCODE_INT_INTERNAL number"

text \<open>The loop of \<open>DECODE_INT_INTERNAL\<close>, from the last nibble to the first.\<close>

fun decode_int_loop :: "byte list \<Rightarrow> nat \<Rightarrow> 'a::len word \<Rightarrow> 'a word" where
  "decode_int_loop data 0 number = number"
| "decode_int_loop data (Suc n) number =
     decode_int_loop data n
       (push_bit 4 number OR
        (if odd (Suc n) then ucast (data ! (Suc n div 2) AND 0x0f)
         else ucast (drop_bit 4 (data ! (Suc n div 2) AND 0xf0))))"

section \<open>Tags\<close>

text \<open>The loop of \<open>evtag_encode_tag\<close>: the bytes it stores in \<open>data\<close>.\<close>

function encode_tag_loop :: "u32 \<Rightarrow> byte list" where
  "encode_tag_loop tag =
     (let tag' = drop_bit 7 tag in
      if tag' \<noteq> 0 then (ucast (tag AND 0x7f) OR 0x80) # encode_tag_loop tag'
      else [ucast (tag AND 0x7f)])"
  by auto

termination encode_tag_loop
  by (relation "measure unat") (auto simp: Let_def intro!: unat_drop_bit_less)

declare encode_tag_loop.simps [simp del]

text \<open>
  The loop of \<open>decode_tag_internal\<close> over the bytes at \<open>data\<close>, with \<open>left\<close> bytes of the buffer
  to go. It is \<open>None\<close> where it reads past the bytes that \<open>data\<close> points at or shifts by the width
  of the number or more; otherwise it returns \<open>done\<close>, the number and \<open>count\<close>. The shift by 28
  drops the bits beyond the width, as the 32-bit shift of the machine does.
\<close>

fun decode_tag_loop :: "byte list \<Rightarrow> nat \<Rightarrow> u32 \<Rightarrow> nat \<Rightarrow> nat \<Rightarrow> (bool \<times> u32 \<times> nat) option" where
  "decode_tag_loop data 0 number shift cnt = Some (False, number, cnt + 1)"
| "decode_tag_loop [] (Suc left) number shift cnt = None"
| "decode_tag_loop (lower # data) (Suc left) number shift cnt =
     (if shift \<ge> 32 then None
      else (let number' = number OR push_bit shift (ucast (lower AND 0x7f))
            in if lower AND 0x80 = 0 then Some (True, number', cnt + 1)
               else decode_tag_loop data left number' (shift + 7) (cnt + 1)))"


section \<open>Nibbles of an array\<close>

definition nib :: "byte list \<Rightarrow> nat \<Rightarrow> byte" where
  "nib data j = (if odd j then data ! (j div 2) AND 0x0f else drop_bit 4 (data ! (j div 2) AND 0xf0))"

definition put_nib :: "byte list \<Rightarrow> nat \<Rightarrow> byte \<Rightarrow> byte list" where
  "put_nib data j v =
     data[j div 2 := (if odd j then (data ! (j div 2) AND 0xf0) OR v else (data ! (j div 2) AND 0x0f) OR push_bit 4 v)]"

lemma nibble_masks: "(0x0f :: 'a::len word) = mask 4" "(0xf0 :: byte) = push_bit 4 (mask 4)"
  by (simp_all add: mask_eq_exp_minus_1 push_bit_eq_mult)

lemma length_put_nib [simp]: "length (put_nib data j v) = length data"
  by (simp add: put_nib_def)

lemma nib_put_nib:
  assumes "j div 2 < length data" "take_bit 4 v = v"
  shows "nib (put_nib data j v) i = (if i = j then v else nib data i)"
proof -
  have v: "bit v n \<Longrightarrow> n < 4" for n using assms(2) bit_take_bit_iff[of 4 v n] by simp
  have low: "(x AND 0x0f OR push_bit 4 v) AND 0xf0 = push_bit 4 v" "(x AND 0xf0 OR v) AND 0x0f = v"
    "(x AND 0x0f OR push_bit 4 v) AND 0x0f = x AND 0x0f" "(x AND 0xf0 OR v) AND 0xf0 = x AND 0xf0" for x :: byte
    by (rule bit_word_eqI, auto simp: nibble_masks bit_simps dest: v)+
  have "drop_bit 4 v = 0" by (rule bit_word_eqI) (auto simp: bit_simps dest: v)
  moreover have "drop_bit 4 (push_bit 4 v) = v" by (rule bit_word_eqI) (use v in \<open>auto simp: bit_simps\<close>)
  moreover have "i = j" if "i div 2 = j div 2" "odd i = odd j" using that by presburger
  ultimately show ?thesis using assms(1) low by (auto simp: nib_def put_nib_def nth_list_update)
qed

lemma encode_int_loop_put:
  "encode_int_loop data number off =
     (if number = 0 then (data, off)
      else encode_int_loop (put_nib data off (ucast (number AND 0x0f))) (drop_bit 4 number) (off + 1))"
  by (subst encode_int_loop.simps) (simp add: put_nib_def)

lemma decode_int_loop_nib:
  "decode_int_loop data (Suc n) number = decode_int_loop data n (push_bit 4 number OR ucast (nib data (Suc n)))"
  by (simp add: nib_def)


section \<open>The round trip of an integer\<close>

lemma encode_int_loop_ok:
  fixes number :: "'a::len word"
  assumes "encode_int_loop data number off = (data', off')" "drop_bit (4 * m) number = 0" "off + m \<le> 2 * length data"
  shows "length data' = length data \<and> off \<le> off' \<and> off' \<le> off + m \<and> drop_bit (4 * (off' - off)) number = 0 \<and>
    (\<forall>j. nib data' j = (if off \<le> j \<and> j < off' then ucast (drop_bit (4 * (j - off)) number AND 0x0f) else nib data j))"
  using assms
proof (induction data number off arbitrary: m rule: encode_int_loop.induct)
  case (1 data number off)
  show ?case
  proof (cases "number = 0")
    case True
    then show ?thesis using "1.prems"(1) by (auto simp: encode_int_loop_put)
  next
    case False
    define d where "d = put_nib data off (ucast (number AND 0x0f))"
    from False "1.prems"(2) obtain k where m: "m = Suc k" by (cases m) auto
    have step: "encode_int_loop d (drop_bit 4 number) (off + 1) = (data', off')"
      using "1.prems"(1) False by (subst (asm) encode_int_loop_put) (simp add: d_def)
    have "drop_bit (4 * k) (drop_bit 4 number) = 0" using "1.prems"(2) by (simp add: m drop_bit_drop_bit add.commute)
    moreover have "d = (if odd off
              then data[off div 2 := (data ! (off div 2) AND 0xf0) OR ucast (number AND 0x0f)]
              else data[off div 2 := (data ! (off div 2) AND 0x0f) OR push_bit 4 (ucast (number AND 0x0f))])"
      by (simp add: d_def put_nib_def)
    ultimately have IH: "length data' = length d" "off + 1 \<le> off'" "off' \<le> off + 1 + k"
      "drop_bit (4 * (off' - (off + 1))) (drop_bit 4 number) = 0"
      "\<And>j. nib data' j = (if off + 1 \<le> j \<and> j < off' then ucast (drop_bit (4 * (j - (off + 1))) (drop_bit 4 number) AND 0x0f) else nib d j)"
      using "1.IH"[OF False, of k] step "1.prems"(3) m by (simp_all add: d_def)
    have "nib d j = (if j = off then ucast (number AND 0x0f) else nib data j)" for j
      unfolding d_def using "1.prems"(3) m
      by (intro nib_put_nib) (simp, rule bit_word_eqI, auto simp: nibble_masks bit_simps)
    moreover have "4 * (j - (off + 1)) + 4 = 4 * (j - off)" if "off + 1 \<le> j" for j using that by simp
    ultimately show ?thesis using IH by (auto simp: d_def drop_bit_drop_bit m)
  qed
qed


lemma decode_int_loop_ok:
  fixes number :: "'a::len word"
  assumes "\<And>j. 1 \<le> j \<Longrightarrow> j \<le> n \<Longrightarrow> nib data j = ucast (drop_bit (4 * (j - 1)) number AND 0x0f)"
    and "8 \<le> LENGTH('a)"
  shows "decode_int_loop data n (drop_bit (4 * n) number) = number"
  using assms(1)
proof (induction n)
  case (Suc n)
  have "push_bit 4 (drop_bit (4 * Suc n) number) OR ucast (ucast (drop_bit (4 * n) number AND 0x0f) :: byte)
      = drop_bit (4 * n) number"
  proof (rule bit_word_eqI)
    fix i
    have "4 + 4 * n + (i - 4) = 4 * n + i" if "4 \<le> i" using that by simp
    then show "bit (push_bit 4 (drop_bit (4 * Suc n) number) OR ucast (ucast (drop_bit (4 * n) number AND 0x0f) :: byte)) i
        = bit (drop_bit (4 * n) number) i" if "i < LENGTH('a)"
      using that assms(2) by (cases "i < 4") (simp_all add: nibble_masks bit_simps)
  qed
  then show ?case using Suc by (simp add: decode_int_loop_nib del: decode_int_loop.simps)
qed simp

text \<open>The nibble count of the first byte and the bytes of an encoded number.\<close>

definition int_code :: "'a::len word \<Rightarrow> byte list" where
  "int_code number = (let (len, data) = ENCODE_INT_INTERNAL number in take len data)"

definition nibble_count :: "byte \<Rightarrow> nat" where
  "nibble_count b = unat (drop_bit 4 (b AND 0xf0)) + 1"

lemma nib_prefix: "j div 2 < length xs \<Longrightarrow> nib (xs @ ys) j = nib xs j"
  by (simp add: nib_def nth_append)

lemma int_code_ok:
  fixes number :: "'a::len word"
  assumes "LENGTH('a) = 8 * k" "1 \<le> k" "k \<le> 8"
  shows "\<exists>n. 1 \<le> n \<and> n \<le> 2 * k \<and> length (int_code number) = n div 2 + 1 \<and> nibble_count (hd (int_code number)) = n \<and>
    drop_bit (4 * n) number = 0 \<and>
    (\<forall>j. 1 \<le> j \<longrightarrow> j \<le> n \<longrightarrow> nib (int_code number) j = ucast (drop_bit (4 * (j - 1)) number AND 0x0f))"
proof -
  define z where "z = replicate (LENGTH('a) div 8 + 1) (0 :: byte)"
  obtain data off where L: "encode_int_loop z number 1 = (data, off)" by fastforce
  have z: "drop_bit (4 * (2 * k)) number = 0" by (rule bit_word_eqI) (auto simp: bit_simps assms(1) dest: bit_imp_le_length)
  have lz: "length z = k + 1" by (simp add: z_def assms(1))
  from encode_int_loop_ok[OF L z] have E: "length data = k + 1" "1 \<le> off" "off \<le> 1 + 2 * k" "drop_bit (4 * (off - 1)) number = 0"
    "\<And>j. 1 \<le> j \<Longrightarrow> j < off \<Longrightarrow> nib data j = ucast (drop_bit (4 * (j - 1)) number AND 0x0f)"
    "\<And>j. off \<le> j \<Longrightarrow> nib data j = nib z j"
    using lz by simp_all
  define n where "n = (if off > 2 then off - 1 else 1)"
  define nibbles where "nibbles = (if off > 2 then off - 2 else 0)"
  have n: "1 \<le> n" "n \<le> 2 * k" "n = nibbles + 1" "nibbles < 16" "(off + 1) div 2 = n div 2 + 1"
    using E(2,3) assms(2,3) by (auto simp: n_def nibbles_def)
  define data' where "data' = put_nib data 0 (of_nat nibbles AND 0x0f)"
  have code: "int_code number = take (n div 2 + 1) data'"
    unfolding int_code_def ENCODE_INT_INTERNAL_def z_def[symmetric] L using n(5)
    by (simp add: nibbles_def data'_def put_nib_def Let_def)
  have nib: "nib data' j = (if j = 0 then of_nat nibbles AND 0x0f else nib data j)" for j
    unfolding data'_def
    by (rule nib_put_nib) (use E(1) in simp, rule bit_word_eqI, auto simp: nibble_masks bit_simps)
  have len: "length data' = k + 1" "n div 2 + 1 \<le> k + 1" using E(1) n(2) by (simp_all add: data'_def)
  have pre: "nib (int_code number) j = nib data' j" if "j \<le> n" for j
    using nib_prefix[of j "int_code number" "drop (n div 2 + 1) data'"] that len by (simp add: code)
  have "nib (int_code number) 0 = of_nat nibbles" using pre[of 0] n(4) nib[of 0] nibble_masks
    by (simp add: nibble_masks take_bit_eq_mod word_unat_eq_iff unat_mod unat_of_nat flip: take_bit_eq_mask)
  then have "nibble_count (hd (int_code number)) = n"
    using n len hd_conv_nth[of "int_code number"] by (force simp: nib_def nibble_count_def code unat_of_nat)
  moreover have "nib (int_code number) j = ucast (drop_bit (4 * (j - 1)) number AND 0x0f)" if "1 \<le> j" "j \<le> n" for j
  proof (cases "j < off")
    case True
    then show ?thesis using that pre[OF that(2)] nib[of j] E(5)[OF that(1)] by simp
  next
    case False
    then have "off = 1" "j = 1" using that n_def E(2) by (auto split: if_splits)
    then show ?thesis using pre[OF that(2)] nib[of j] E(4) E(6)[of j] assms(2) by (simp add: nib_def z_def)
  qed
  moreover have "drop_bit (4 * n) number = 0"
  proof -
    have "4 * n = (4 * n - 4 * (off - 1)) + 4 * (off - 1)" using E(2) by (simp add: n_def)
    then show ?thesis using E(4) by (metis drop_bit_drop_bit drop_bit_of_0)
  qed
  ultimately show ?thesis using n len by (intro exI[of _ n]) (simp add: code)
qed


text \<open>The decoder of the macro on the bytes at its position: the number and the bytes it takes.\<close>

definition int_decode :: "nat \<Rightarrow> byte list \<Rightarrow> ('a::len word \<times> nat) option" where
  "int_decode maxnibbles bs =
     (case bs of
        [] \<Rightarrow> None
      | b # _ \<Rightarrow>
          (let nibbles = nibble_count b in
           if nibbles > maxnibbles \<or> nibbles div 2 + 1 > length bs then None
           else Some (decode_int_loop bs nibbles 0, nibbles div 2 + 1)))"

lemma int_decode_code:
  fixes number :: "'a::len word"
  assumes "LENGTH('a) = 8 * k" "1 \<le> k" "k \<le> 8"
  shows "int_decode (2 * k) (int_code number @ rest) = Some (number, length (int_code number))"
proof -
  from int_code_ok[OF assms, of number] obtain n where n: "1 \<le> n" "n \<le> 2 * k" "length (int_code number) = n div 2 + 1"
    "nibble_count (hd (int_code number)) = n" "drop_bit (4 * n) number = 0"
    "\<And>j. 1 \<le> j \<Longrightarrow> j \<le> n \<Longrightarrow> nib (int_code number) j = ucast (drop_bit (4 * (j - 1)) number AND 0x0f)" by blast
  obtain b bs where b: "int_code number = b # bs" using n(3) by (cases "int_code number") auto
  have "decode_int_loop (int_code number @ rest) n (drop_bit (4 * n) number) = number"
    by (rule decode_int_loop_ok) (use n(3,6) nib_prefix[of _ "int_code number"] assms in auto)
  then show ?thesis using n b by (simp add: int_decode_def)
qed

lemma decode_int_loop_prefix:
  "n div 2 < length xs \<Longrightarrow> decode_int_loop (xs @ ys) n number = decode_int_loop xs n number"
  by (induction n arbitrary: number) (simp_all add: decode_int_loop_nib nib_prefix del: decode_int_loop.simps(2))

section \<open>The round trip of a tag\<close>

lemma seven_bits: "(0x7f :: 'a::len word) = mask 7" "bit (0x80 :: int) n = (n = 7)"
proof -
  have "(0x80 :: int) = 2 ^ 7" by simp
  then show "bit (0x80 :: int) n = (n = 7)" by (simp only: bit_exp_iff) auto
qed (simp add: mask_eq_exp_minus_1)

lemma tag_group:
  "ucast ((ucast (tag AND 0x7f) OR 0x80 :: byte) AND 0x7f) = take_bit 7 (tag :: u32)"
  "ucast (ucast (tag AND 0x7f) AND 0x7f :: byte) = take_bit 7 (tag :: u32)"
  by (rule bit_word_eqI, auto simp: seven_bits bit_simps)+

lemma tag_mark:
  "(ucast (tag AND 0x7f) OR 0x80 :: byte) AND 0x80 \<noteq> 0" "(ucast ((tag :: u32) AND 0x7f) :: byte) AND 0x80 = 0"
proof -
  have "bit ((ucast (tag AND 0x7f) OR 0x80 :: byte) AND 0x80) 7" by (simp add: seven_bits bit_simps)
  then show "(ucast (tag AND 0x7f) OR 0x80 :: byte) AND 0x80 \<noteq> 0" by auto
  show "(ucast (tag AND 0x7f) :: byte) AND 0x80 = 0" by (rule bit_word_eqI) (auto simp: seven_bits bit_simps)
qed

lemma tag_join: "push_bit shift (take_bit 7 tag) OR push_bit (shift + 7) (drop_bit 7 tag) = push_bit shift (tag :: u32)"
proof -
  have "push_bit shift (take_bit 7 tag) OR push_bit (shift + 7) (drop_bit 7 tag)
      = push_bit shift (push_bit 7 (drop_bit 7 tag) OR take_bit 7 tag)"
    by (simp only: push_bit_or push_bit_push_bit or.commute)
  moreover have "push_bit 7 (drop_bit 7 tag) OR take_bit 7 tag = tag" by (rule bit_word_eqI) (auto simp: bit_simps)
  ultimately show ?thesis by simp
qed

lemma decode_tag_loop_ok:
  assumes "shift + 7 * m < 39" "drop_bit (7 * m) tag = 0" "0 < m" "length (encode_tag_loop tag) + length rest = left"
  shows "decode_tag_loop (encode_tag_loop tag @ rest) left number shift cnt =
    Some (True, number OR push_bit shift tag, cnt + length (encode_tag_loop tag)) \<and> length (encode_tag_loop tag) \<le> m"
  using assms
proof (induction tag arbitrary: m number shift cnt left rule: encode_tag_loop.induct)
  case (1 tag)
  have less: "shift < 32" using "1.prems"(1,3) by simp
  obtain l where l: "left = Suc l" using "1.prems"(4) by (cases left) (auto simp: encode_tag_loop.simps[of tag] Let_def split: if_splits)
  show ?case
  proof (cases "drop_bit 7 tag = 0")
    case True
    then have "take_bit 7 tag = tag" using bits_ident[of 7 tag] by simp
    then show ?thesis using True less l "1.prems"(3)
      by (simp add: encode_tag_loop.simps[of tag] tag_group(2) tag_mark(2))
  next
    case False
    obtain k where m: "m = Suc k" using "1.prems"(3) by (cases m) auto
    have k: "drop_bit (7 * k) (drop_bit 7 tag) = 0" using "1.prems"(2) by (simp add: m drop_bit_drop_bit add.commute)
    then have "0 < k" using False by (cases k) auto
    moreover have "length (encode_tag_loop (drop_bit 7 tag)) + length rest = l"
      using "1.prems"(4) False l by (simp add: encode_tag_loop.simps[of tag])
    ultimately have IH: "decode_tag_loop (encode_tag_loop (drop_bit 7 tag) @ rest) l (number OR push_bit shift (take_bit 7 tag)) (shift + 7) (cnt + 1) =
        Some (True, (number OR push_bit shift (take_bit 7 tag)) OR push_bit (shift + 7) (drop_bit 7 tag), cnt + 1 + length (encode_tag_loop (drop_bit 7 tag)))"
      "length (encode_tag_loop (drop_bit 7 tag)) \<le> k"
      using "1.IH"[of "drop_bit 7 tag" "shift + 7" k l] False k "1.prems"(1) m by auto
    have "(number OR push_bit shift (take_bit 7 tag)) OR push_bit (shift + 7) (drop_bit 7 tag) = number OR push_bit shift tag"
      using tag_join[of shift tag] by (simp only: or.assoc)
    then show ?thesis using IH False less l m
      by (simp add: encode_tag_loop.simps[of tag] tag_group(1) tag_mark(1) or.assoc)
  qed
qed


definition tag_decode :: "byte list \<Rightarrow> (u32 \<times> nat) option" where
  "tag_decode bs =
     (case decode_tag_loop bs (length bs) 0 0 0 of
        Some (True, tag, n) \<Rightarrow> Some (tag, n)
      | _ \<Rightarrow> None)"

lemma tag_length: "1 \<le> length (encode_tag_loop tag)" "length (encode_tag_loop tag) \<le> 5"
proof -
  have "drop_bit (7 * 5) tag = 0" by (rule bit_word_eqI) (auto simp: bit_simps dest: bit_imp_le_length)
  then show "length (encode_tag_loop tag) \<le> 5" using decode_tag_loop_ok[of 0 5 tag "[]" _ 0 0] by simp
  show "1 \<le> length (encode_tag_loop tag)" by (simp add: encode_tag_loop.simps[of tag] Let_def)
qed

lemma tag_decode_code: "tag_decode (encode_tag_loop tag @ rest) = Some (tag, length (encode_tag_loop tag))"
proof -
  have "drop_bit (7 * 5) tag = 0" by (rule bit_word_eqI) (auto simp: bit_simps dest: bit_imp_le_length)
  then show ?thesis using decode_tag_loop_ok[of 0 5 tag rest _ 0 0] by (simp add: tag_decode_def)
qed

lemma int_code_length: "1 \<le> length (int_code (n :: u32))" "length (int_code (n :: u32)) \<le> 5"
  "1 \<le> length (int_code (m :: u64))" "length (int_code (m :: u64)) \<le> 9"
  using int_code_ok[of 4 n] int_code_ok[of 8 m] by auto

section \<open>Codes without common prefixes\<close>

text \<open>
  What the readers of a stream rely on: the encoding of a value can be told from what follows it.
  Values in a row are then read back in order, and no two rows have the same encoding.
\<close>

locale prefix_code =
  fixes enc :: "'a \<Rightarrow> byte list" and dec :: "byte list \<Rightarrow> ('a \<times> nat) option"
  assumes dec_enc: "dec (enc x @ rest) = Some (x, length (enc x))"
    and enc_nonempty: "enc x \<noteq> []"
begin

lemma enc_inject: "enc x @ r = enc y @ s \<longleftrightarrow> x = y \<and> r = s"
proof
  assume e: "enc x @ r = enc y @ s"
  then have "Some (x, length (enc x)) = Some (y, length (enc y))" by (metis dec_enc)
  then show "x = y \<and> r = s" using e by simp
qed simp

lemma enc_prefix_free: "x \<noteq> y \<Longrightarrow> take (length (enc x)) (enc y) \<noteq> enc x"
  using enc_inject[of x "drop (length (enc x)) (enc y)" y "[]"] append_take_drop_id[of "length (enc x)" "enc y"]
  by (metis append.right_neutral)

lemma stream_inject: "concat (map enc xs) = concat (map enc ys) \<Longrightarrow> xs = ys"
proof (induction xs arbitrary: ys)
  case Nil
  then show ?case using enc_nonempty by (cases ys) auto
next
  case (Cons x xs)
  then show ?case using enc_nonempty enc_inject by (cases ys) auto
qed

end

text \<open>One code after another is such a code again.\<close>

locale prefix_pair = a: prefix_code enca deca + b: prefix_code encb decb
  for enca :: "'a \<Rightarrow> byte list" and deca and encb :: "'b \<Rightarrow> byte list" and decb
begin

abbreviation pair_enc :: "'a \<times> 'b \<Rightarrow> byte list" where
  "pair_enc \<equiv> \<lambda>(x, y). enca x @ encb y"

abbreviation pair_dec :: "byte list \<Rightarrow> (('a \<times> 'b) \<times> nat) option" where
  "pair_dec \<equiv> \<lambda>bs. (case deca bs of None \<Rightarrow> None
     | Some (x, m) \<Rightarrow> (case decb (drop m bs) of None \<Rightarrow> None | Some (y, n) \<Rightarrow> Some ((x, y), m + n)))"

end

sublocale prefix_pair \<subseteq> both: prefix_code pair_enc pair_dec
proof unfold_locales
  show "pair_dec (pair_enc x @ rest) = Some (x, length (pair_enc x))" for x rest
    by (cases x) (simp add: a.dec_enc b.dec_enc)
  show "pair_enc x \<noteq> []" for x by (cases x) (simp add: a.enc_nonempty)
qed

interpretation tag: prefix_code encode_tag_loop tag_decode
proof unfold_locales
  show "tag_decode (encode_tag_loop x @ rest) = Some (x, length (encode_tag_loop x))" for x rest by (rule tag_decode_code)
  show "encode_tag_loop x \<noteq> []" for x using tag_length(1)[of x] by auto
qed

interpretation int32: prefix_code "int_code :: u32 \<Rightarrow> byte list" "int_decode 8"
proof unfold_locales
  show "int_decode 8 (int_code x @ rest) = Some (x, length (int_code x))" for x :: u32 and rest
    using int_decode_code[of 4 x rest] by simp
  show "int_code x \<noteq> []" for x :: u32 using int_code_length(1)[of x] by auto
qed

interpretation int64: prefix_code "int_code :: u64 \<Rightarrow> byte list" "int_decode 16"
proof unfold_locales
  show "int_decode 16 (int_code x @ rest) = Some (x, length (int_code x))" for x :: u64 and rest
    using int_decode_code[of 8 x rest] by simp
  show "int_code x \<noteq> []" for x :: u64 using int_code_length(3)[of x] by auto
qed

text \<open>The header of a tagged value: the tag and the length of the data.\<close>

interpretation header: prefix_pair encode_tag_loop tag_decode "int_code :: u32 \<Rightarrow> byte list" "int_decode 8"
  by unfold_locales

end
