(* ===== verification/Evbuffer_Move.thy ===== *)
theory Evbuffer_Move
  imports Evbuffer
begin

text \<open>
  The operations of \<^verbatim>\<open>buffer.c\<close> that move chains: between two buffers
  (\<open>evbuffer_add_buffer\<close>, \<open>evbuffer_prepend_buffer\<close>, \<open>evbuffer_remove_buffer\<close>) and
  to the front of one (\<open>evbuffer_pullup\<close>).

  An operation on two buffers takes a flag \<open>same\<close> that is true when the two pointers are equal;
  the code then leaves both alone. The chains that \<open>PRESERVE_PINNED\<close> saves are a list, empty
  where the code has a null pointer. A result is \<open>None\<close> where the code fails an assertion or
  dereferences a null pointer.
\<close>

section \<open>Two buffers\<close>

definition PRESERVE_PINNED ::
  "allocator \<Rightarrow> evbuffer \<Rightarrow> (int \<times> evbuffer \<times> evbuffer_chain list) option" where
  "PRESERVE_PINNED malloc src =
     (if \<not> HAS_PINNED_R src then Some (0, src, [])
      else if last_with_datap src \<ge> length (chains src) then None
      else (let cs = chains src; lwd = last_with_datap src;
                pinned = (if CHAIN_PINNED_R (cs ! lwd) then lwd else lwd + 1) in
            if pinned \<ge> length cs \<or> \<not> CHAIN_PINNED_R (cs ! pinned) then None
            else (let chain = cs ! pinned in
                  if ch_off chain \<noteq> 0
                  then (if pinned \<noteq> lwd then None
                        else do {
                          r \<leftarrow> evbuffer_chain_new malloc (ch_off chain);
                          case r of
                            None \<Rightarrow> Some (- 1, src, drop pinned cs)
                          | Some tmp \<Rightarrow>
                              Some (0, src\<lparr>chains := take lwd cs @
                                       [(chain_write tmp 0 (chain_data chain))\<lparr>ch_off := ch_off chain\<rparr>]\<rparr>,
                                    chain\<lparr>misalign := misalign chain + ch_off chain, ch_off := 0\<rparr>
                                      # drop (Suc pinned) cs)
                        })
                  else Some (0, src\<lparr>chains := take pinned cs\<rparr>, drop pinned cs))))"

definition RESTORE_PINNED :: "evbuffer \<Rightarrow> evbuffer_chain list \<Rightarrow> evbuffer" where
  "RESTORE_PINNED src pinned =
     (if pinned = [] then ZERO_CHAIN src
      else src\<lparr>chains := pinned, last_with_datap := 0, total_len := 0\<rparr>)"

definition COPY_CHAIN :: "evbuffer \<Rightarrow> evbuffer \<Rightarrow> evbuffer" where
  "COPY_CHAIN dst src =
     dst\<lparr>chains := chains src, last_with_datap := last_with_datap src, total_len := total_len src\<rparr>"

definition APPEND_CHAIN :: "evbuffer \<Rightarrow> evbuffer \<Rightarrow> evbuffer" where
  "APPEND_CHAIN dst src =
     dst\<lparr>chains := chains dst @ chains src,
         last_with_datap := length (chains dst) + last_with_datap src,
         total_len := total_len dst + total_len src\<rparr>"

definition PREPEND_CHAIN :: "evbuffer \<Rightarrow> evbuffer \<Rightarrow> evbuffer" where
  "PREPEND_CHAIN dst src =
     dst\<lparr>chains := chains src @ chains dst,
         last_with_datap := (if last_with_datap dst \<ge> length (chains dst) then last_with_datap src
                             else length (chains src) + last_with_datap dst),
         total_len := total_len dst + total_len src\<rparr>"

text \<open>The part the two moving operations share, after their guards.\<close>

definition move_chains ::
  "(evbuffer \<Rightarrow> evbuffer \<Rightarrow> evbuffer) \<Rightarrow> allocator \<Rightarrow> evbuffer \<Rightarrow> evbuffer \<Rightarrow> (int \<times> evbuffer \<times> evbuffer) option" where
  "move_chains join malloc outbuf inbuf = do {
     (r, inbuf1, pinned) \<leftarrow> PRESERVE_PINNED malloc inbuf;
     if r < 0 then Some (- 1, outbuf, inbuf1)
     else (let outbuf1 = (if total_len outbuf = 0
                          then COPY_CHAIN (log_free outbuf (evbuffer_free_all_chains (chains outbuf))) inbuf1
                          else join outbuf inbuf1);
               inbuf2 = RESTORE_PINNED inbuf1 pinned;
               n = total_len inbuf
           in Some (0, evbuffer_invoke_callbacks (outbuf1\<lparr>n_add_for_cb := n_add_for_cb outbuf1 + n\<rparr>),
                    evbuffer_invoke_callbacks (inbuf2\<lparr>n_del_for_cb := n_del_for_cb inbuf2 + n\<rparr>)))
   }"

definition evbuffer_add_buffer ::
  "allocator \<Rightarrow> bool \<Rightarrow> evbuffer \<Rightarrow> evbuffer \<Rightarrow> (int \<times> evbuffer \<times> evbuffer) option" where
  "evbuffer_add_buffer malloc same outbuf inbuf =
     (if total_len inbuf = 0 \<or> same then Some (0, outbuf, inbuf)
      else if freeze_end outbuf \<or> freeze_start inbuf then Some (- 1, outbuf, inbuf)
      else move_chains APPEND_CHAIN malloc outbuf inbuf)"

definition evbuffer_prepend_buffer ::
  "allocator \<Rightarrow> bool \<Rightarrow> evbuffer \<Rightarrow> evbuffer \<Rightarrow> (int \<times> evbuffer \<times> evbuffer) option" where
  "evbuffer_prepend_buffer malloc same outbuf inbuf =
     (if total_len inbuf = 0 \<or> same then Some (0, outbuf, inbuf)
      else if freeze_start outbuf \<or> freeze_start inbuf then Some (- 1, outbuf, inbuf)
      else move_chains PREPEND_CHAIN malloc outbuf inbuf)"

text \<open>
  The loop of \<open>evbuffer_remove_buffer\<close> over the chains that go as a whole: the position reached,
  the position of \<open>last_with_datap\<close>, the bytes still wanted and the bytes passed.
\<close>

fun remove_buffer_loop ::
  "evbuffer_chain list \<Rightarrow> nat \<Rightarrow> nat \<Rightarrow> nat \<Rightarrow> nat \<Rightarrow> (nat \<times> nat \<times> nat \<times> nat) option" where
  "remove_buffer_loop [] i lwd datlen nread = None"
| "remove_buffer_loop (c # cs) i lwd datlen nread =
     (if ch_off c \<le> datlen
      then (if i = lwd then None
            else remove_buffer_loop cs (Suc i) (if lwd = Suc i then 0 else lwd) (datlen - ch_off c) (nread + ch_off c))
      else Some (i, lwd, datlen, nread))"

text \<open>The state of \<open>dst\<close> once the chains \<open>ms\<close> hang behind its last chain with data.\<close>

definition hang_chains :: "evbuffer \<Rightarrow> nat \<Rightarrow> evbuffer_chain list \<Rightarrow> evbuffer" where
  "hang_chains dst1 chp ms = advance_last_with_data
     (dst1\<lparr>chains := (if chains dst1 = [] then ms else take chp (chains dst1) @ ms)\<rparr>)"

text \<open>The chains before position \<open>k\<close> of \<open>src\<close> become the last chains of \<open>dst\<close>.\<close>

definition take_chains ::
  "evbuffer \<Rightarrow> evbuffer \<Rightarrow> nat \<Rightarrow> nat \<Rightarrow> nat \<Rightarrow> (evbuffer \<times> evbuffer) option" where
  "take_chains src dst k lwd nread =
     (if nread = 0 then Some (src\<lparr>last_with_datap := lwd\<rparr>, dst)
      else do {
        (dst1, chp) \<leftarrow> evbuffer_free_trailing_empty_chains dst;
        let moved = take k (chains src);
            dst2 = hang_chains dst1 chp moved
        in Some (src\<lparr>chains := drop k (chains src), last_with_datap := (if lwd = 0 then 0 else lwd - k)\<rparr>,
                 count_added dst2 nread)
      })"

text \<open>The position of the chain that is split is 0 after chains were moved, and \<open>k\<close> otherwise.\<close>

definition evbuffer_remove_buffer ::
  "allocator \<Rightarrow> bool \<Rightarrow> evbuffer \<Rightarrow> evbuffer \<Rightarrow> nat \<Rightarrow> (int \<times> evbuffer \<times> evbuffer) option" where
  "evbuffer_remove_buffer malloc same src dst datlen0 =
     (if datlen0 = 0 \<or> same then Some (0, src, dst)
      else if freeze_end dst \<or> freeze_start src then Some (- 1, src, dst)
      else if datlen0 \<ge> total_len src
      then do {
        (r, dst', src') \<leftarrow> evbuffer_add_buffer malloc False dst src;
        Some (to_int32 (int (total_len src)), src', dst')
      }
      else do {
        (k, lwd, datlen, nread) \<leftarrow> remove_buffer_loop (chains src) 0 (last_with_datap src) datlen0 0;
        (src1, dst1) \<leftarrow> take_chains src dst k lwd nread;
        let pos = (if nread = 0 then k else 0); chain = chains src1 ! pos in do {
          (r, dst2) \<leftarrow> evbuffer_add malloc dst1 (take datlen (chain_data chain));
          let chain' = chain\<lparr>misalign := misalign chain + datlen, ch_off := ch_off chain - datlen\<rparr>;
              total = nread + datlen;
              src2 = src1\<lparr>chains := (chains src1)[pos := chain'], total_len := total_len src1 - total,
                          n_del_for_cb := n_del_for_cb src1 + total\<rparr>
          in Some (to_int32 (int total),
                   (if total \<noteq> 0 then evbuffer_invoke_callbacks src2 else src2),
                   (if total \<noteq> 0 then evbuffer_invoke_callbacks dst2 else dst2))
        }
      })"

section \<open>Making the front contiguous\<close>

text \<open>
  The copying loop of \<open>evbuffer_pullup\<close>: the bytes copied, the chains that remain (the first of
  them split), the number of chains freed and the effects of the frees.
\<close>

fun pullup_loop ::
  "evbuffer_chain list \<Rightarrow> nat \<Rightarrow> byte list \<times> evbuffer_chain list \<times> nat \<times> chain_event list" where
  "pullup_loop [] n = ([], [], 0, [])"
| "pullup_loop (c # cs) n =
     (if n \<ge> ch_off c
      then (case pullup_loop cs (n - ch_off c) of
              (bs, rest, k, es) \<Rightarrow> (chain_data c @ bs, rest, Suc k, evbuffer_chain_free c @ es))
      else (take n (chain_data c),
            c\<lparr>misalign := misalign c + n, ch_off := ch_off c - n\<rparr> # cs, 0, []))"

text \<open>Whether one of the chains to copy from is pinned.\<close>

fun pullup_pinned :: "evbuffer_chain list \<Rightarrow> nat \<Rightarrow> bool" where
  "pullup_pinned [] remaining = False"
| "pullup_pinned (c # cs) remaining =
     (CHAIN_PINNED c \<or> \<not> ch_off c \<ge> remaining \<and> pullup_pinned cs (remaining - ch_off c))"

text \<open>
  The new position of \<open>last_with_datap\<close> when the chains from \<open>start\<close> to \<open>start + k - 1\<close> were
  freed and \<open>rest\<close> follows the first chain.
\<close>

definition pullup_lwd :: "nat \<Rightarrow> nat \<Rightarrow> nat \<Rightarrow> evbuffer_chain list \<Rightarrow> nat" where
  "pullup_lwd start k i rest =
     (if start \<le> i \<and> i < start + k then 0
      else if start < i \<and> i \<le> start + k
      then (if rest \<noteq> [] \<and> ch_off (hd rest) \<noteq> 0 then 1 else 0)
      else if i \<le> start then i else i - (start + k) + 1)"

text \<open>
  \<open>tmp\<close> receives bytes from position \<open>at\<close> of its memory on until it holds \<open>sz\<close> of them;
  \<open>start\<close> is the position of the first chain to copy from.
\<close>

definition pullup_into :: "evbuffer \<Rightarrow> evbuffer_chain \<Rightarrow> nat \<Rightarrow> nat \<Rightarrow> nat \<Rightarrow> nat \<Rightarrow> evbuffer" where
  "pullup_into buf tmp at want start sz =
     (case pullup_loop (drop start (chains buf)) want of
        (bs, rest, k, es) \<Rightarrow>
          log_free (buf\<lparr>chains := (chain_write tmp at bs)\<lparr>ch_off := sz\<rparr> # rest,
                        last_with_datap := pullup_lwd start k (last_with_datap buf) rest\<rparr>) es)"

definition to_ssize :: "nat \<Rightarrow> int" where
  "to_ssize n = sint (word_of_nat n :: 64 word)"

text \<open>
  The result is the data of the first chain, which the returned pointer gives access to, or
  \<open>None\<close> for the null pointer.
\<close>

definition evbuffer_pullup :: "allocator \<Rightarrow> evbuffer \<Rightarrow> int \<Rightarrow> (byte list option \<times> evbuffer) option" where
  "evbuffer_pullup malloc buf sz0 =
     (let sz1 = (if sz0 < 0 then to_ssize (total_len buf) else sz0);
          sz = unat (word_of_int sz1 :: 64 word) in
      if sz = 0 \<or> sz > total_len buf then Some (None, buf)
      else (case chains buf of
              [] \<Rightarrow> None
            | chain # cs \<Rightarrow>
                if ch_off chain \<ge> sz then Some (Some (chain_data chain), buf)
                else if pullup_pinned cs (sz - ch_off chain) then Some (None, buf)
                else if CHAIN_PINNED chain
                then (if CHAIN_SPACE_LEN chain < sz - ch_off chain then Some (None, buf)
                      else (let buf' = pullup_into buf chain (misalign chain + ch_off chain) (sz - ch_off chain) 1 sz
                            in Some (Some (chain_data (hd (chains buf'))), buf')))
                else if buffer_len chain - misalign chain \<ge> sz
                then (let buf' = pullup_into buf chain (misalign chain + ch_off chain) (sz - ch_off chain) 1 sz
                      in Some (Some (chain_data (hd (chains buf'))), buf'))
                else do {
                  r \<leftarrow> evbuffer_chain_new malloc sz;
                  case r of
                    None \<Rightarrow> Some (None, buf)
                  | Some tmp \<Rightarrow>
                      (let buf' = pullup_into buf tmp 0 sz 0 sz
                       in Some (Some (chain_data (hd (chains buf'))), buf'))
                }))"

section \<open>Correctness of the moves\<close>

lemma lwd_nonempty:
  assumes "evbuffer_wf buf" "total_len buf \<noteq> 0"
  shows "last_with_datap buf < length (chains buf)" "ch_off (chains buf ! last_with_datap buf) \<noteq> 0"
    "\<forall>c \<in> set (drop (Suc (last_with_datap buf)) (chains buf)). ch_off c = 0"
proof -
  note D = evbuffer_wfD[OF assms(1)]
  have ne: "chains buf \<noteq> []" using assms(2) D(2) by auto
  then show lt: "last_with_datap buf < length (chains buf)"
    and after: "\<forall>c \<in> set (drop (Suc (last_with_datap buf)) (chains buf)). ch_off c = 0"
    using D(3) by (auto simp: lwd_ok_def)
  show "ch_off (chains buf ! last_with_datap buf) \<noteq> 0"
  proof (cases "last_with_datap buf = 0")
    case True
    obtain c cs where cs: "chains buf = c # cs" using ne by (cases "chains buf") auto
    then have "sum_list (map ch_off cs) = 0" using after True by simp
    then show ?thesis using cs True assms(2) D(2) by simp
  qed (use D(3) ne in \<open>auto simp: lwd_ok_def\<close>)
qed

lemma PRESERVE_PINNED_wf [simp]: "evbuffer_wf src \<Longrightarrow> PRESERVE_PINNED malloc src = Some (0, src, [])"
  by (auto simp: PRESERVE_PINNED_def HAS_PINNED_R_def evbuffer_wf_def)

text \<open>Joining two lists of chains keeps the last chain with data of the second.\<close>

lemma join_chains_ok:
  assumes wf: "evbuffer_wf a" "evbuffer_wf b" and ne: "total_len b \<noteq> 0"
    and eq: "chains c = chains a @ chains b" "last_with_datap c = length (chains a) + last_with_datap b"
      "total_len c = total_len a + total_len b"
  shows "evbuffer_wf c" "evbuffer_content c = evbuffer_content a @ evbuffer_content b"
    "evbuffer_tight a \<Longrightarrow> evbuffer_tight b \<Longrightarrow> total_len a \<noteq> 0 \<Longrightarrow> evbuffer_tight c"
    "evbuffer_plain a \<Longrightarrow> evbuffer_plain b \<Longrightarrow> evbuffer_plain c"
proof -
  note D = evbuffer_wfD[OF wf(1)] evbuffer_wfD[OF wf(2)] and L = lwd_nonempty[OF wf(2) ne]
  have "lwd_ok (chains c) (last_with_datap c)"
    using L by (auto simp: lwd_ok_def eq nth_append)
  then show "evbuffer_wf c" using D eq by (auto simp: evbuffer_wf_def)
  show "evbuffer_content c = evbuffer_content a @ evbuffer_content b"
    by (simp add: evbuffer_content_def eq)
  show "evbuffer_plain a \<Longrightarrow> evbuffer_plain b \<Longrightarrow> evbuffer_plain c"
    by (auto simp: evbuffer_plain_def eq)
  have single: "evbuffer_tight d \<Longrightarrow> total_len d \<noteq> 0 \<Longrightarrow> evbuffer_wf d \<Longrightarrow> \<forall>c \<in> set (chains d). ch_off c \<noteq> 0" for d
    by (cases "chains d") (auto simp: evbuffer_tight_def evbuffer_wf_def)
  show "evbuffer_tight c" if t: "evbuffer_tight a" "evbuffer_tight b" "total_len a \<noteq> 0"
  proof -
    have "\<forall>x \<in> set (chains a). ch_off x \<noteq> 0" "\<forall>x \<in> set (chains b). ch_off x \<noteq> 0"
      using single t wf ne by blast+
    then show ?thesis unfolding evbuffer_tight_def eq(1) set_append by blast
  qed
qed

lemma COPY_CHAIN_ok:
  assumes "evbuffer_wf src"
  shows "evbuffer_wf (COPY_CHAIN dst src)" "evbuffer_content (COPY_CHAIN dst src) = evbuffer_content src"
    "evbuffer_tight (COPY_CHAIN dst src) = evbuffer_tight src" "evbuffer_plain (COPY_CHAIN dst src) = evbuffer_plain src"
  using assms by (simp_all add: COPY_CHAIN_def evbuffer_wf_def evbuffer_content_def evbuffer_tight_def evbuffer_plain_def)

lemma ZERO_CHAIN_ok [simp]:
  "evbuffer_wf (ZERO_CHAIN buf)" "evbuffer_content (ZERO_CHAIN buf) = []" "evbuffer_tight (ZERO_CHAIN buf)"
  "evbuffer_plain (ZERO_CHAIN buf)" "same_settings buf (ZERO_CHAIN buf)"
  "freeze_start (ZERO_CHAIN buf) = freeze_start buf" "freeze_end (ZERO_CHAIN buf) = freeze_end buf"
  "callbacks (ZERO_CHAIN buf) = callbacks buf" "deferred_cbs (ZERO_CHAIN buf) = deferred_cbs buf" "refcnt (ZERO_CHAIN buf) = refcnt buf"
  by (simp_all add: ZERO_CHAIN_def evbuffer_wf_def lwd_ok_def evbuffer_content_def evbuffer_tight_def
      evbuffer_plain_def same_settings_def)

text \<open>What a move of all of \<open>src\<close> into \<open>dst\<close> leaves, given the resulting content \<open>bs\<close> of \<open>dst\<close>.\<close>

definition move_outcome :: "evbuffer \<Rightarrow> evbuffer \<Rightarrow> byte list \<Rightarrow> evbuffer \<Rightarrow> evbuffer \<Rightarrow> bool" where
  "move_outcome dst src bs dst' src' \<longleftrightarrow>
     evbuffer_wf dst' \<and> evbuffer_wf src' \<and> evbuffer_content dst' = bs \<and> evbuffer_content src' = [] \<and>
     (evbuffer_tight dst \<and> evbuffer_tight src \<longrightarrow> evbuffer_tight dst' \<and> evbuffer_tight src') \<and>
     (evbuffer_plain dst \<and> evbuffer_plain src \<longrightarrow> evbuffer_plain dst' \<and> evbuffer_plain src') \<and>
     same_settings dst dst' \<and> same_settings src src'"

lemma move_chains_ok:
  assumes wf: "evbuffer_wf dst" "evbuffer_wf src" and ne: "total_len src \<noteq> 0"
    and join: "total_len dst \<noteq> 0 \<Longrightarrow> move_outcome dst src bs (join dst src) (ZERO_CHAIN src)"
    and empty: "total_len dst = 0 \<Longrightarrow> bs = evbuffer_content src"
  shows "\<exists>dst' src'. move_chains join malloc dst src = Some (0, dst', src') \<and> move_outcome dst src bs dst' src'"
proof (cases "total_len dst = 0")
  case True
  let ?d = "COPY_CHAIN (log_free dst (evbuffer_free_all_chains (chains dst))) src"
  have "same_settings dst ?d" by (simp add: COPY_CHAIN_def same_settings_def)
  then show ?thesis
    using True wf empty COPY_CHAIN_ok[OF wf(2)]
    by (simp add: move_chains_def Let_def RESTORE_PINNED_def move_outcome_def)
next
  case False
  then show ?thesis
    using wf join by (simp add: move_chains_def Let_def RESTORE_PINNED_def move_outcome_def)
qed

lemma empty_content: "evbuffer_wf buf \<Longrightarrow> total_len buf = 0 \<longleftrightarrow> evbuffer_content buf = []"
  using length_evbuffer_content by fastforce

lemma evbuffer_add_buffer_ok:
  assumes wf: "evbuffer_wf dst" "evbuffer_wf src" and fr: "\<not> freeze_end dst" "\<not> freeze_start src"
  shows "\<exists>dst' src'. evbuffer_add_buffer malloc False dst src = Some (0, dst', src') \<and>
           move_outcome dst src (evbuffer_content dst @ evbuffer_content src) dst' src'"
proof (cases "total_len src = 0")
  case True
  then show ?thesis
    using wf empty_content[OF wf(2)] by (simp add: evbuffer_add_buffer_def move_outcome_def)
next
  case False
  have "move_outcome dst src (evbuffer_content dst @ evbuffer_content src) (APPEND_CHAIN dst src) (ZERO_CHAIN src)"
    if "total_len dst \<noteq> 0"
    using join_chains_ok[OF wf False, of "APPEND_CHAIN dst src"] that
    by (simp add: move_outcome_def APPEND_CHAIN_def same_settings_def)
  from move_chains_ok[where join = APPEND_CHAIN, OF wf False this] show ?thesis
    using False fr empty_content[OF wf(1)] by (simp add: evbuffer_add_buffer_def)
qed

lemma evbuffer_prepend_buffer_ok:
  assumes wf: "evbuffer_wf dst" "evbuffer_wf src" and fr: "\<not> freeze_start dst" "\<not> freeze_start src"
  shows "\<exists>dst' src'. evbuffer_prepend_buffer malloc False dst src = Some (0, dst', src') \<and>
           move_outcome dst src (evbuffer_content src @ evbuffer_content dst) dst' src'"
proof (cases "total_len src = 0")
  case True
  then show ?thesis
    using wf empty_content[OF wf(2)] by (simp add: evbuffer_prepend_buffer_def move_outcome_def)
next
  case False
  have "move_outcome dst src (evbuffer_content src @ evbuffer_content dst) (PREPEND_CHAIN dst src) (ZERO_CHAIN src)"
    if ne: "total_len dst \<noteq> 0"
    using join_chains_ok[OF wf(2,1) ne, of "PREPEND_CHAIN dst src"] lwd_nonempty(1)[OF wf(1) ne] False
    by (simp add: move_outcome_def PREPEND_CHAIN_def same_settings_def)
  from move_chains_ok[where join = PREPEND_CHAIN, OF wf False this] show ?thesis
    using False fr empty_content[OF wf(1)] by (simp add: evbuffer_prepend_buffer_def)
qed

section \<open>Correctness of pullup\<close>

lemma pullup_loop_ok:
  assumes "\<forall>c \<in> set cs. chain_wf c" "n \<le> sum_list (map ch_off cs)"
  shows "\<exists>rest k es. pullup_loop cs n = (take n (concat (map chain_data cs)), rest, k, es) \<and>
           concat (map chain_data rest) = drop n (concat (map chain_data cs)) \<and>
           (k = length cs \<and> rest = [] \<or>
            k < length cs \<and> 0 < ch_off (cs ! k) \<and>
            (\<exists>c. rest = c # drop (Suc k) cs \<and> chain_wf c \<and> 0 < ch_off c \<and> ch_flags c = ch_flags (cs ! k)))"
  using assms
proof (induction cs arbitrary: n)
  case (Cons d ds)
  have len: "length (chain_data d) = ch_off d" using Cons.prems by simp
  show ?case
  proof (cases "ch_off d \<le> n")
    case True
    have "n - ch_off d \<le> sum_list (map ch_off ds)" using Cons.prems by simp
    with Cons.IH[of "n - ch_off d"] Cons.prems obtain rest k es where *:
      "pullup_loop ds (n - ch_off d) = (take (n - ch_off d) (concat (map chain_data ds)), rest, k, es)"
      "concat (map chain_data rest) = drop (n - ch_off d) (concat (map chain_data ds))"
      "k = length ds \<and> rest = [] \<or> k < length ds \<and> 0 < ch_off (ds ! k) \<and>
         (\<exists>c. rest = c # drop (Suc k) ds \<and> chain_wf c \<and> 0 < ch_off c \<and> ch_flags c = ch_flags (ds ! k))"
      by (metis list.set_intros(2))
    show ?thesis
      by (intro exI[of _ rest] exI[of _ "Suc k"] exI[of _ "evbuffer_chain_free d @ es"])
        (use * True len in simp)
  next
    case False
    then show ?thesis
      using Cons.prems(1) chain_take_front[of d n] len by simp
  qed
qed simp

lemma pullup_lwd_eq:
  assumes "start \<le> 1" "1 \<le> start + k" "i = start + k \<Longrightarrow> rest \<noteq> [] \<and> 0 < ch_off (hd rest)"
  shows "pullup_lwd start k i rest = (if i < start + k then 0 else i - (start + k) + 1)"
  using assms by (auto simp: pullup_lwd_def)

lemma lwd_ok_pullup:
  assumes "lwd_ok cs i" "1 \<le> K" "ch_off t \<noteq> 0"
    and "K = length cs \<and> rest = [] \<or>
      K < length cs \<and> 0 < ch_off (cs ! K) \<and> (\<exists>c. rest = c # drop (Suc K) cs \<and> 0 < ch_off c)"
  shows "lwd_ok (t # rest) (if i < K then 0 else i - K + 1)"
    "i = K \<Longrightarrow> cs \<noteq> [] \<Longrightarrow> rest \<noteq> [] \<and> 0 < ch_off (hd rest)"
proof -
  have "lwd_ok (t # rest) (if i < K then 0 else i - K + 1) \<and>
      (i = K \<longrightarrow> cs \<noteq> [] \<longrightarrow> rest \<noteq> [] \<and> 0 < ch_off (hd rest))"
    using assms(4)
  proof (elim disjE conjE exE)
    assume "K = length cs" "rest = []"
    then show ?thesis using assms(1,2) by (auto simp: lwd_ok_def split: if_splits)
  next
    fix c assume "K < length cs" "0 < ch_off (cs ! K)" "rest = c # drop (Suc K) cs" "0 < ch_off c"
    with lwd_ok_drop[OF assms(1) this(1,2,4)] show ?thesis by (auto simp: lwd_ok_def nth_Cons')
  qed
  then show "lwd_ok (t # rest) (if i < K then 0 else i - K + 1)"
    "i = K \<Longrightarrow> cs \<noteq> [] \<Longrightarrow> rest \<noteq> [] \<and> 0 < ch_off (hd rest)" by blast+
qed

text \<open>
  The bytes already in \<open>tmp\<close> are those of the chains before \<open>start\<close>, and the loop brings the
  others.
\<close>

lemma pullup_into_ok:
  assumes wf: "evbuffer_wf buf" and start: "start \<le> 1" "start < length (chains buf)"
    and pre: "chain_data tmp = concat (map chain_data (take start (chains buf)))"
    and sz: "sz = ch_off tmp + want" "sz \<le> total_len buf" "0 < want"
    and tmp: "chain_wf tmp" "\<not> ch_has EVBUFFER_IMMUTABLE tmp" "want \<le> buffer_len tmp - misalign tmp - ch_off tmp"
    and first: "start = 0 \<Longrightarrow> ch_off (hd (chains buf)) \<le> want"
  defines "buf' \<equiv> pullup_into buf tmp (misalign tmp + ch_off tmp) want start sz"
  shows "evbuffer_wf buf'" "evbuffer_content buf' = evbuffer_content buf" "same_settings buf buf'"
    "chain_data (hd (chains buf')) = take sz (evbuffer_content buf)"
    "evbuffer_tight buf \<longrightarrow> evbuffer_tight buf'" "evbuffer_plain buf \<longrightarrow> evbuffer_plain buf'"
proof -
  note D = evbuffer_wfD[OF wf]
  let ?cs = "drop start (chains buf)"
  have split: "evbuffer_content buf = chain_data tmp @ concat (map chain_data ?cs)"
    unfolding pre evbuffer_content_def by (metis append_take_drop_id concat_append map_append)
  have wfs: "\<forall>c \<in> set ?cs. chain_wf c" using D(1) by (auto dest: in_set_dropD)
  have "length (evbuffer_content buf) = ch_off tmp + sum_list (map ch_off ?cs)"
    unfolding split using length_concat_chain_data[OF wfs] tmp(1) by simp
  then have want: "want \<le> sum_list (map ch_off ?cs)" using sz length_evbuffer_content[OF wf] by simp
  obtain rest k es where L:
    "pullup_loop ?cs want = (take want (concat (map chain_data ?cs)), rest, k, es)"
    "concat (map chain_data rest) = drop want (concat (map chain_data ?cs))"
    "k = length ?cs \<and> rest = [] \<or> k < length ?cs \<and> 0 < ch_off (?cs ! k) \<and>
       (\<exists>c. rest = c # drop (Suc k) ?cs \<and> chain_wf c \<and> 0 < ch_off c \<and> ch_flags c = ch_flags (?cs ! k))"
    using pullup_loop_ok[OF wfs want] by metis
  define bs where "bs = take want (concat (map chain_data ?cs))"
  have bs: "length bs = want" using want length_concat_chain_data[OF wfs] by (simp add: bs_def)
  define t where "t = (chain_write tmp (misalign tmp + ch_off tmp) bs)\<lparr>ch_off := sz\<rparr>"
  have t: "chain_wf t" "chain_data t = chain_data tmp @ bs" "ch_off t \<noteq> 0" "\<not> ch_has EVBUFFER_IMMUTABLE t"
    using chain_append_in_place[OF tmp(1,2), of bs] tmp(2,3) bs sz by (simp_all add: t_def ch_has_def)
  have "0 < k" if "start = 0"
    using first[OF that] L(1) that start(2) by (cases "chains buf") (auto split: prod.splits)
  then have K1: "1 \<le> start + k" by (cases start) auto
  have K: "start + k = length (chains buf) \<and> rest = [] \<or>
      start + k < length (chains buf) \<and> 0 < ch_off (chains buf ! (start + k)) \<and>
      (\<exists>c. rest = c # drop (Suc (start + k)) (chains buf) \<and> chain_wf c \<and> 0 < ch_off c \<and>
           ch_flags c = ch_flags (chains buf ! (start + k)))"
    using L(3) start(2) by (auto simp: add.commute)
  then have "start + k = length (chains buf) \<and> rest = [] \<or> start + k < length (chains buf) \<and>
      0 < ch_off (chains buf ! (start + k)) \<and> (\<exists>c. rest = c # drop (Suc (start + k)) (chains buf) \<and> 0 < ch_off c)"
    by auto
  note lwd = lwd_ok_pullup[OF D(3) K1 t(3) this]
  have ne: "chains buf \<noteq> []" using start by auto
  have b: "buf' = log_free (buf\<lparr>chains := t # rest, last_with_datap :=
      (if last_with_datap buf < start + k then 0 else last_with_datap buf - (start + k) + 1)\<rparr>) es"
    using L(1) pullup_lwd_eq[OF start(1) K1 lwd(2)[OF _ ne]]
    by (simp add: buf'_def pullup_into_def t_def bs_def)
  have rest: "\<forall>c \<in> set rest. chain_wf c" using K D(1) by (auto dest!: in_set_dropD)
  show content: "evbuffer_content buf' = evbuffer_content buf"
    unfolding split using t(2) L(2) by (simp add: b evbuffer_content_def bs_def)
  show "chain_data (hd (chains buf')) = take sz (evbuffer_content buf)"
    unfolding split using t(2) tmp(1) sz by (simp add: b bs_def)
  have "length (evbuffer_content buf') = sum_list (map ch_off (chains buf'))"
    unfolding evbuffer_content_def using rest t(1) by (intro length_concat_chain_data) (simp add: b)
  then have "total_len buf = sum_list (map ch_off (t # rest))"
    unfolding content length_evbuffer_content[OF wf] by (simp add: b)
  then show "evbuffer_wf buf'" using rest t(1) lwd(1) by (simp add: b evbuffer_wf_def)
  show "same_settings buf buf'" by (simp add: b same_settings_def)
  show "evbuffer_tight buf \<longrightarrow> evbuffer_tight buf'"
    using K K1 t(3) by (auto simp: b evbuffer_tight_def dest!: in_set_dropD)
  show "evbuffer_plain buf \<longrightarrow> evbuffer_plain buf'"
    using K t(4) by (auto simp: b evbuffer_plain_def ch_has_def dest!: in_set_dropD)
qed

lemma pullup_not_pinned: "\<forall>c \<in> set cs. chain_wf c \<Longrightarrow> \<not> pullup_pinned cs n"
  by (induction cs arbitrary: n) auto

lemma word64_of_small: "n < 2 ^ 64 \<Longrightarrow> unat (word_of_int (int n) :: 64 word) = n"
  by (simp add: unat_of_nat take_bit_nat_eq_self)

definition pullup_outcome :: "allocator \<Rightarrow> evbuffer \<Rightarrow> nat \<Rightarrow> byte list option \<Rightarrow> evbuffer \<Rightarrow> bool" where
  "pullup_outcome malloc buf n r buf' \<longleftrightarrow>
     evbuffer_wf buf' \<and> evbuffer_content buf' = evbuffer_content buf \<and> same_settings buf buf' \<and>
     (evbuffer_tight buf \<longrightarrow> evbuffer_tight buf') \<and> (evbuffer_plain buf \<longrightarrow> evbuffer_plain buf') \<and>
     (case r of
        None \<Rightarrow> n = 0 \<or> n > total_len buf \<or> (\<exists>m. malloc m = None)
      | Some bs \<Rightarrow> 0 < n \<and> n \<le> length bs \<and> bs = take (length bs) (evbuffer_content buf))"

lemma evbuffer_pullup_ok:
  assumes wf: "evbuffer_wf buf" and n: "n \<le> CHAIN_MAX_REQUEST"
  shows "\<exists>r buf'. evbuffer_pullup malloc buf (int n) = Some (r, buf') \<and> pullup_outcome malloc buf n r buf'"
proof -
  note D = evbuffer_wfD[OF wf]
  have n64: "unat (word_of_int (int n) :: 64 word) = n"
    using n by (intro word64_of_small) (simp add: CHAIN_MAX_REQUEST_def EVBUFFER_CHAIN_SIZE_def)
  consider (null) "n = 0 \<or> n > total_len buf" | (some) "0 < n" "n \<le> total_len buf" by linarith
  then show ?thesis
  proof cases
    case null
    then show ?thesis using wf n64 by (auto simp: evbuffer_pullup_def Let_def pullup_outcome_def)
  next
    case some
    then obtain c cs where cs: "chains buf = c # cs" using D(2) by (cases "chains buf") auto
    have c: "chain_wf c" using D(1) cs by simp
    have np: "\<not> pullup_pinned cs m" for m using pullup_not_pinned D(1) cs by simp
    show ?thesis
    proof (cases "n \<le> ch_off c")
      case True
      have bs: "chain_data c = take (length (chain_data c)) (evbuffer_content buf)" "n \<le> length (chain_data c)"
        using True c by (simp_all add: evbuffer_content_def cs)
      have "evbuffer_pullup malloc buf (int n) = Some (Some (chain_data c), buf)"
        using True some n64 cs by (simp add: evbuffer_pullup_def Let_def)
      then show ?thesis
        using bs some(1) wf unfolding pullup_outcome_def
        by (intro exI[of _ "Some (chain_data c)"] exI[of _ buf]) (simp only: option.case same_settings_refl simp_thms)
    next
      case False
      then have cs_ne: "cs \<noteq> []" using some D(2) cs by auto
      have len: "length (evbuffer_content buf) = total_len buf" by (rule length_evbuffer_content[OF wf])
      have unf: "evbuffer_pullup malloc buf (int n) =
          (if buffer_len c - misalign c \<ge> n
           then (let buf' = pullup_into buf c (misalign c + ch_off c) (n - ch_off c) 1 n
                 in Some (Some (chain_data (hd (chains buf'))), buf'))
           else do {
             r \<leftarrow> evbuffer_chain_new malloc n;
             case r of
               None \<Rightarrow> Some (None, buf)
             | Some tmp \<Rightarrow> (let buf' = pullup_into buf tmp 0 n 0 n
                             in Some (Some (chain_data (hd (chains buf'))), buf'))
           })"
        using some False n64 c cs np by (simp add: evbuffer_pullup_def Let_def)
      show ?thesis
      proof (cases "n \<le> buffer_len c - misalign c")
        case True
        have "\<not> ch_has EVBUFFER_IMMUTABLE c" using c False True by (auto simp: chain_wf_def)
        note P = pullup_into_ok[OF wf, of 1 c n "n - ch_off c", OF _ _ _ _ _ _ c this]
        show ?thesis unfolding unf using True False cs cs_ne some len P
          by (simp add: Let_def pullup_outcome_def)
      next
        case noroom: False
        obtain r where r: "evbuffer_chain_new malloc n = Some r"
          "\<And>c. r = Some c \<Longrightarrow> chain_wf c \<and> ch_off c = 0 \<and> misalign c = 0 \<and> n \<le> buffer_len c \<and>
             ch_flags c = 0 \<and> chain_data c = []"
          "r = None \<Longrightarrow> \<exists>m. malloc m = None"
          using chain_new_returns[OF n, of malloc] by metis
        show ?thesis
        proof (cases r)
          case None
          then show ?thesis unfolding unf using noroom r wf by (simp add: pullup_outcome_def)
        next
          case (Some tmp)
          note tm = r(2)[OF Some]
          have "\<not> ch_has EVBUFFER_IMMUTABLE tmp" using tm by (simp add: ch_has_def)
          note P = pullup_into_ok[OF wf, of 0 tmp n n, OF _ _ _ _ _ _ conjunct1[OF tm] this]
          show ?thesis unfolding unf using noroom False r(1) Some tm cs some len P
            by (simp add: Let_def pullup_outcome_def)
        qed
      qed
    qed
  qed
qed

section \<open>Correctness of remove\_buffer\<close>

lemma remove_buffer_loop_ok:
  assumes "\<forall>c \<in> set cs. ch_off c \<noteq> 0" "n < sum_list (map ch_off cs)" "lwd = i + length cs - 1"
  shows "\<exists>k. remove_buffer_loop cs i lwd n r =
             Some (i + k, (if k \<noteq> 0 \<and> Suc k = length cs then 0 else lwd),
                   n - sum_list (map ch_off (take k cs)), r + sum_list (map ch_off (take k cs))) \<and>
           k < length cs \<and> sum_list (map ch_off (take k cs)) \<le> n \<and>
           n < sum_list (map ch_off (take k cs)) + ch_off (cs ! k)"
  using assms
proof (induction cs arbitrary: i n r)
  case (Cons c cs)
  show ?case
  proof (cases "ch_off c \<le> n")
    case True
    then obtain d ds where cs: "cs = d # ds" using Cons.prems by (cases cs) auto
    show ?thesis
    proof (cases ds)
      case Nil
      then show ?thesis using True Cons.prems cs by (intro exI[of _ 1]) auto
    next
      case (Cons e es)
      have "\<forall>c \<in> set cs. ch_off c \<noteq> 0" "n - ch_off c < sum_list (map ch_off cs)" "lwd = Suc i + length cs - 1"
        using Cons.prems True by auto
      from Cons.IH[OF this, of "r + ch_off c"] obtain k where
        "remove_buffer_loop cs (Suc i) lwd (n - ch_off c) (r + ch_off c) =
             Some (Suc i + k, (if k \<noteq> 0 \<and> Suc k = length cs then 0 else lwd),
                   n - ch_off c - sum_list (map ch_off (take k cs)),
                   r + ch_off c + sum_list (map ch_off (take k cs)))"
        "k < length cs" "sum_list (map ch_off (take k cs)) \<le> n - ch_off c"
        "n - ch_off c < sum_list (map ch_off (take k cs)) + ch_off (cs ! k)" by blast
      then show ?thesis
        using True Cons.prems cs Cons by (intro exI[of _ "Suc k"]) auto
    qed
  next
    case False
    then show ?thesis by (intro exI[of _ 0]) auto
  qed
qed simp

text \<open>Whole chains with data at the front of \<open>src\<close> are appended to \<open>dst\<close>.\<close>

lemma tight_nonempty: "evbuffer_wf buf \<Longrightarrow> evbuffer_tight buf \<Longrightarrow> total_len buf \<noteq> 0 \<Longrightarrow>
    \<forall>c \<in> set (chains buf). ch_off c \<noteq> 0"
  by (cases "chains buf") (auto simp: evbuffer_tight_def evbuffer_wf_def)

lemma count_filled_all: "\<forall>c \<in> set cs. ch_off c \<noteq> 0 \<Longrightarrow> count_filled cs = length cs"
  by (induction cs) auto

lemma hang_chains_tight:
  assumes "evbuffer_wf dst" "evbuffer_tight dst" "ms \<noteq> []" "\<forall>c \<in> set ms. chain_wf c \<and> ch_off c \<noteq> 0"
  obtains dst1 chp cs0 where "evbuffer_free_trailing_empty_chains dst = Some (dst1, chp)"
    "chains (hang_chains dst1 chp ms) = cs0 @ ms" "last_with_datap (hang_chains dst1 chp ms) = length (cs0 @ ms) - 1"
    "total_len (hang_chains dst1 chp ms) = sum_list (map ch_off cs0)" "same_settings dst (hang_chains dst1 chp ms)"
    "set cs0 \<subseteq> set (chains dst)" "\<forall>c \<in> set cs0. ch_off c \<noteq> 0" "concat (map chain_data cs0) = evbuffer_content dst"
proof -
  note T = iffD1[OF wf_tight_iff conjI[OF assms(1,2)]]
  have full: "count_filled (drop 1 ms) = length ms - 1" "count_filled ms = length ms"
    using assms(4) count_filled_all[of ms] count_filled_all[of "drop 1 ms"] by (auto dest: in_set_dropD)
  show ?thesis
  proof (cases "total_len dst = 0")
    case True
    then have c: "chains dst = [] \<or> (\<exists>c. chains dst = [c] \<and> ch_off c = 0)"
      using T by (cases "chains dst") (auto simp: Suc_le_eq)
    have lwd: "last_with_datap dst = 0" "evbuffer_content dst = []"
      using T c True empty_content[OF assms(1)] by auto
    define dst1 where "dst1 = (if chains dst = [] then dst
        else log_free (dst\<lparr>chains := []\<rparr>) (evbuffer_free_all_chains (chains dst)))"
    have 1: "evbuffer_free_trailing_empty_chains dst = Some (dst1, 0)"
    proof (cases "chains dst")
      case Nil
      then show ?thesis using lwd by (simp add: dst1_def evbuffer_free_trailing_empty_chains_def victim_pos_def)
    next
      case (Cons d ds)
      then have "\<not> CHAIN_PINNED d" "ds = []" "ch_off d = 0" using c T by auto
      then show ?thesis using lwd Cons
        by (simp add: dst1_def evbuffer_free_trailing_empty_chains_def victim_pos_def)
    qed
    have 2: "chains dst1 = []" "last_with_datap dst1 = 0" "total_len dst1 = 0" "same_settings dst dst1"
      using lwd True by (auto simp: dst1_def same_settings_def)
    show ?thesis
      by (rule that[OF 1, of "[]"])
        (use 2 assms(3) full lwd in \<open>simp_all add: hang_chains_def advance_last_with_data_def same_settings_def\<close>)
  next
    case False
    note ne = tight_nonempty[OF assms(1,2) False]
    obtain cs c where cs: "chains dst = cs @ [c]" using False T by (cases "chains dst" rule: rev_cases) auto
    have lwd: "last_with_datap dst = length cs" using cs T by simp
    then have "victim_pos dst = length (chains dst)" using ne cs by (simp add: victim_pos_def)
    then have 1: "evbuffer_free_trailing_empty_chains dst = Some (dst, length (chains dst))"
      by (simp add: evbuffer_free_trailing_empty_chains_def Let_def)
    show ?thesis
      by (rule that[OF 1, of "chains dst"])
        (use T ne full lwd cs in \<open>simp_all add: hang_chains_def advance_last_with_data_def same_settings_def
          evbuffer_content_def\<close>)
  qed
qed

lemma append_chains_tight:
  assumes "evbuffer_wf dst" "evbuffer_tight dst" "ms \<noteq> []" "\<forall>c \<in> set ms. chain_wf c \<and> ch_off c \<noteq> 0"
    and plain: "evbuffer_plain dst" "\<forall>c \<in> set ms. \<not> ch_has EVBUFFER_IMMUTABLE c"
    and n: "n = sum_list (map ch_off ms)"
  obtains dst1 chp where "evbuffer_free_trailing_empty_chains dst = Some (dst1, chp)"
    "evbuffer_wf (count_added (hang_chains dst1 chp ms) n)" "evbuffer_tight (count_added (hang_chains dst1 chp ms) n)"
    "same_settings dst (count_added (hang_chains dst1 chp ms) n)" "evbuffer_plain (count_added (hang_chains dst1 chp ms) n)"
    "evbuffer_content (count_added (hang_chains dst1 chp ms) n) = evbuffer_content dst @ concat (map chain_data ms)"
proof -
  obtain dst1 chp cs0 where F: "evbuffer_free_trailing_empty_chains dst = Some (dst1, chp)" and
    H: "chains (hang_chains dst1 chp ms) = cs0 @ ms" "last_with_datap (hang_chains dst1 chp ms) = length (cs0 @ ms) - 1"
    "total_len (hang_chains dst1 chp ms) = sum_list (map ch_off cs0)" "same_settings dst (hang_chains dst1 chp ms)"
    "set cs0 \<subseteq> set (chains dst)" "\<forall>c \<in> set cs0. ch_off c \<noteq> 0" "concat (map chain_data cs0) = evbuffer_content dst"
    using hang_chains_tight[OF assms(1-4)] by metis
  let ?d = "count_added (hang_chains dst1 chp ms) n"
  have d: "chains ?d = cs0 @ ms" "last_with_datap ?d = length (cs0 @ ms) - 1" "total_len ?d = sum_list (map ch_off (cs0 @ ms))"
    "same_settings dst ?d"
    using H n by (simp_all add: count_added_def same_settings_def)
  have "evbuffer_wf ?d \<and> evbuffer_tight ?d"
    unfolding wf_tight_iff d using evbuffer_wfD(1)[OF assms(1)] H(5,6) assms(4) by auto
  moreover have "evbuffer_plain ?d" using plain H(5) by (auto simp: evbuffer_plain_def d)
  ultimately show ?thesis using that[OF F] d(4) H(7) by (simp add: evbuffer_content_def d(1))
qed

text \<open>Taking \<open>k\<close> whole chains from a tight source.\<close>

lemma take_chains_ok:
  assumes src: "evbuffer_wf src" "evbuffer_tight src" "evbuffer_plain src" "total_len src \<noteq> 0" "k < length (chains src)"
    and dst: "evbuffer_wf dst" "evbuffer_tight dst" "evbuffer_plain dst"
    and lwd: "lwd = (if k \<noteq> 0 \<and> Suc k = length (chains src) then 0 else last_with_datap src)"
    and n: "n = sum_list (map ch_off (take k (chains src)))"
  obtains src1 dst1 where "take_chains src dst k lwd n = Some (src1, dst1)"
    "chains src1 = drop k (chains src)" "last_with_datap src1 = length (chains src) - k - 1" "same_settings src src1"
    "total_len src1 = total_len src" "(if n = 0 then k else 0) = (0::nat)"
    "evbuffer_wf dst1" "evbuffer_tight dst1" "evbuffer_plain dst1" "same_settings dst dst1"
    "evbuffer_content dst1 = evbuffer_content dst @ concat (map chain_data (take k (chains src)))"
proof -
  note T = iffD1[OF wf_tight_iff conjI[OF src(1,2)]] and ne = tight_nonempty[OF src(1,2,4)]
  have n0: "n = 0 \<longleftrightarrow> k = 0"
  proof
    assume "n = 0"
    then have "\<forall>c \<in> set (take k (chains src)). ch_off c = 0" using n by simp
    then have "set (take k (chains src)) = {}" using ne by (meson all_not_in_conv in_set_takeD)
    then show "k = 0" using src(5) by auto
  qed (simp add: n)
  show ?thesis
  proof (cases "k = 0")
    case True
    then show ?thesis
      using that[of "src\<lparr>last_with_datap := lwd\<rparr>" dst] n0 T lwd src(5) dst by (simp add: take_chains_def same_settings_def)
  next
    case False
    let ?ms = "take k (chains src)"
    have "?ms \<noteq> []" using False src(5) by auto
    moreover have "\<forall>c \<in> set ?ms. chain_wf c \<and> ch_off c \<noteq> 0" using T ne by (auto dest: in_set_takeD)
    moreover have "\<forall>c \<in> set ?ms. \<not> ch_has EVBUFFER_IMMUTABLE c"
      using src(3) by (auto simp: evbuffer_plain_def dest: in_set_takeD)
    ultimately obtain d chp where D: "evbuffer_free_trailing_empty_chains dst = Some (d, chp)"
      "evbuffer_wf (count_added (hang_chains d chp ?ms) n)" "evbuffer_tight (count_added (hang_chains d chp ?ms) n)"
      "same_settings dst (count_added (hang_chains d chp ?ms) n)" "evbuffer_plain (count_added (hang_chains d chp ?ms) n)"
      "evbuffer_content (count_added (hang_chains d chp ?ms) n) = evbuffer_content dst @ concat (map chain_data ?ms)"
      using append_chains_tight[OF dst(1,2) _ _ dst(3) _ n] by metis
    let ?s = "src\<lparr>chains := drop k (chains src), last_with_datap := (if lwd = 0 then 0 else lwd - k)\<rparr>"
    have "take_chains src dst k lwd n = Some (?s, count_added (hang_chains d chp ?ms) n)"
      using n0 False D(1) by (simp add: take_chains_def)
    moreover have "last_with_datap ?s = length (chains src) - k - 1" using T lwd src(5) False by auto
    ultimately show ?thesis using that[of ?s] D n0 False by (simp add: same_settings_def)
  qed
qed

definition remove_outcome ::
  "allocator \<Rightarrow> evbuffer \<Rightarrow> evbuffer \<Rightarrow> nat \<Rightarrow> evbuffer \<Rightarrow> evbuffer \<Rightarrow> bool" where
  "remove_outcome malloc src dst len src' dst' \<longleftrightarrow>
     evbuffer_wf src' \<and> evbuffer_tight src' \<and> evbuffer_plain src' \<and> same_settings src src' \<and>
     evbuffer_wf dst' \<and> evbuffer_tight dst' \<and> evbuffer_plain dst' \<and> same_settings dst dst' \<and>
     evbuffer_content src' = drop len (evbuffer_content src) \<and>
     (evbuffer_content dst' = evbuffer_content dst @ take len (evbuffer_content src) \<or>
      (\<exists>m. malloc m = None) \<and>
      (\<exists>j \<le> len. evbuffer_content dst' = evbuffer_content dst @ take j (evbuffer_content src)))"

lemma split_first_ok:
  assumes "chains src1 = drop k cs" "k < length cs" "last_with_datap src1 = length cs - k - 1"
    and wf: "\<forall>c \<in> set cs. chain_wf c \<and> ch_off c \<noteq> 0 \<and> \<not> ch_has EVBUFFER_IMMUTABLE c"
    and m: "m < ch_off (cs ! k)" "total_len src1 = sum_list (map ch_off cs)"
      "t = sum_list (map ch_off (take k cs)) + m"
    and c_def: "c = cs ! k"
    and src2_def: "src2 = src1\<lparr>chains := (chains src1)[0 := c\<lparr>misalign := misalign c + m, ch_off := ch_off c - m\<rparr>],
                       total_len := total_len src1 - t, n_del_for_cb := d\<rparr>"
  shows "evbuffer_wf src2" "evbuffer_tight src2" "evbuffer_plain src2" "same_settings src1 src2"
    "evbuffer_content src2 = drop t (concat (map chain_data cs))"
    "take t (concat (map chain_data cs)) = concat (map chain_data (take k cs)) @ take m (chain_data c)"
    "take (sum_list (map ch_off (take k cs))) (concat (map chain_data cs)) = concat (map chain_data (take k cs))"
proof -
  let ?c = "c\<lparr>misalign := misalign c + m, ch_off := ch_off c - m\<rparr>"
  have cs: "cs = take k cs @ c # drop (Suc k) cs" using assms(2) by (simp add: c_def id_take_nth_drop)
  have c: "chain_wf c" "\<not> ch_has EVBUFFER_IMMUTABLE c" using wf assms(2) by (auto simp: c_def)
  have c': "chain_wf ?c" "chain_data ?c = drop m (chain_data c)" "\<not> ch_has EVBUFFER_IMMUTABLE ?c" "ch_off ?c \<noteq> 0"
    using chain_take_front[OF c(1), of m] m(1) c(2) by (simp_all add: c_def ch_has_def)
  have ch: "chains src2 = ?c # drop (Suc k) cs"
    using assms(1,2) by (simp add: src2_def c_def Cons_nth_drop_Suc[symmetric])
  have rest: "\<forall>x \<in> set (drop (Suc k) cs). chain_wf x \<and> ch_off x \<noteq> 0 \<and> \<not> ch_has EVBUFFER_IMMUTABLE x"
    using wf by (auto dest: in_set_dropD)
  have "sum_list (map ch_off cs) = sum_list (map ch_off (take k cs)) + (ch_off c + sum_list (map ch_off (drop (Suc k) cs)))"
    by (subst cs) simp
  then have tot: "total_len src2 = sum_list (map ch_off (chains src2))"
    unfolding ch using m by (simp add: src2_def c_def)
  have "evbuffer_wf src2 \<and> evbuffer_tight src2"
    unfolding wf_tight_iff tot using ch c' rest assms(2,3) by (auto simp: src2_def)
  then show "evbuffer_wf src2" "evbuffer_tight src2" by blast+
  show "evbuffer_plain src2" using ch c' rest by (auto simp: evbuffer_plain_def)
  show "same_settings src1 src2" by (simp add: src2_def same_settings_def)
  have len: "length (concat (map chain_data (take k cs))) = sum_list (map ch_off (take k cs))"
    using wf by (intro length_concat_chain_data) (auto dest: in_set_takeD)
  have data: "concat (map chain_data cs) =
      concat (map chain_data (take k cs)) @ chain_data c @ concat (map chain_data (drop (Suc k) cs))"
    by (subst cs) simp
  show "evbuffer_content src2 = drop t (concat (map chain_data cs))"
    unfolding data using c' c len m by (simp add: evbuffer_content_def ch c_def)
  show "take t (concat (map chain_data cs)) = concat (map chain_data (take k cs)) @ take m (chain_data c)"
    unfolding data using c len m by (simp add: c_def)
  show "take (sum_list (map ch_off (take k cs))) (concat (map chain_data cs)) = concat (map chain_data (take k cs))"
    unfolding data using len by simp
qed

lemma remove_buffer_step:
  assumes "len \<noteq> 0" "len < total_len src" "\<not> freeze_start src" "\<not> freeze_end dst"
    and "remove_buffer_loop (chains src) 0 (last_with_datap src) len 0 = Some (k, lwd, m, n)"
    and "take_chains src dst k lwd n = Some (src1, dst1)" "(if n = 0 then k else 0) = 0" "chains src1 ! 0 = c"
    and "evbuffer_add malloc dst1 (take m (chain_data c)) = Some (r, dst2)" "len = n + m"
  shows "evbuffer_remove_buffer malloc False src dst len =
    Some (to_int32 (int len),
          evbuffer_invoke_callbacks (src1\<lparr>chains := (chains src1)[0 := c\<lparr>misalign := misalign c + m, ch_off := ch_off c - m\<rparr>],
                       total_len := total_len src1 - len, n_del_for_cb := n_del_for_cb src1 + len\<rparr>),
          evbuffer_invoke_callbacks dst2)"
  using assms by (auto simp: evbuffer_remove_buffer_def Let_def)

lemma evbuffer_remove_buffer_ok:
  assumes src: "evbuffer_wf src" "evbuffer_tight src" "evbuffer_plain src" "\<not> freeze_start src"
    and dst: "evbuffer_wf dst" "evbuffer_tight dst" "evbuffer_plain dst" "\<not> freeze_end dst"
  shows "\<exists>src' dst'. evbuffer_remove_buffer malloc False src dst len =
             Some (to_int32 (int (min len (total_len src))), src', dst') \<and>
           remove_outcome malloc src dst len src' dst'"
proof -
  note D = evbuffer_wfD[OF src(1)] and lenc = length_evbuffer_content[OF src(1)]
  consider (zero) "len = 0" | (all) "len \<noteq> 0" "total_len src \<le> len" | (part) "len \<noteq> 0" "len < total_len src" by linarith
  then show ?thesis
  proof cases
    case zero
    then show ?thesis
      using src dst by (simp add: evbuffer_remove_buffer_def remove_outcome_def to_int32_def)
  next
    case all
    then show ?thesis
      using evbuffer_add_buffer_ok[OF dst(1) src(1) dst(4) src(4), of malloc] src dst lenc
      by (auto simp: evbuffer_remove_buffer_def remove_outcome_def move_outcome_def)
  next
    case part
    then have tot: "total_len src \<noteq> 0" by simp
    note T = iffD1[OF wf_tight_iff conjI[OF src(1,2)]] and ne = tight_nonempty[OF src(1,2) tot]
    let ?S = "\<lambda>k. sum_list (map ch_off (take k (chains src)))"
    obtain k where k: "remove_buffer_loop (chains src) 0 (last_with_datap src) len 0 =
         Some (k, (if k \<noteq> 0 \<and> Suc k = length (chains src) then 0 else last_with_datap src), len - ?S k, ?S k)"
      "k < length (chains src)" "?S k \<le> len" "len < ?S k + ch_off (chains src ! k)"
      using remove_buffer_loop_ok[OF ne, of len "last_with_datap src" 0 0] part T by auto
    obtain src1 dst1 where C: "take_chains src dst k (if k \<noteq> 0 \<and> Suc k = length (chains src) then 0 else last_with_datap src) (?S k) = Some (src1, dst1)"
      "chains src1 = drop k (chains src)" "last_with_datap src1 = length (chains src) - k - 1" "same_settings src src1"
      "total_len src1 = total_len src" "(if ?S k = 0 then k else 0) = (0::nat)"
      "evbuffer_wf dst1" "evbuffer_tight dst1" "evbuffer_plain dst1" "same_settings dst dst1"
      "evbuffer_content dst1 = evbuffer_content dst @ concat (map chain_data (take k (chains src)))"
      using take_chains_ok[OF src(1,2,3) tot k(2) dst(1,2,3) refl refl] by metis
    let ?c = "chains src ! k" let ?m = "len - ?S k"
    define data where "data = take ?m (chain_data ?c)"
    have wfc: "\<forall>c \<in> set (chains src). chain_wf c \<and> ch_off c \<noteq> 0 \<and> \<not> ch_has EVBUFFER_IMMUTABLE c"
      using T ne src(3) by (auto simp: evbuffer_plain_def)
    then have cwf: "chain_wf ?c" using k(2) by simp
    have "length data \<le> CHAIN_MAX_REQUEST" using cwf by (auto simp: data_def chain_wf_def chain_data_def slice_def)
    moreover have "\<not> freeze_end dst1" using C(10) dst(4) by (simp add: same_settings_def)
    moreover have "data \<noteq> [] \<or> chains dst1 = [] \<or> \<not> ch_has EVBUFFER_IMMUTABLE (last (chains dst1))"
      using C(9) by (auto simp: evbuffer_plain_def)
    ultimately obtain r dst2 where A: "evbuffer_add malloc dst1 data = Some (r, dst2)" "add_outcome malloc dst1 data r dst2"
      using evbuffer_add_ok[OF C(7,8)] by blast
    define src2 where "src2 = src1\<lparr>chains := (chains src1)[0 := ?c\<lparr>misalign := misalign ?c + ?m, ch_off := ch_off ?c - ?m\<rparr>],
                       total_len := total_len src1 - len, n_del_for_cb := n_del_for_cb src1 + len\<rparr>"
    have m: "?m < ch_off ?c" "total_len src1 = sum_list (map ch_off (chains src))" "len = ?S k + ?m" using k C(5) T by auto
    note S2 = split_first_ok[OF C(2) k(2) C(3) wfc m refl src2_def, folded evbuffer_content_def]
    have c0: "chains src1 ! 0 = ?c" using C(2) k(2) by simp
    have step: "evbuffer_remove_buffer malloc False src dst len =
        Some (to_int32 (int len), evbuffer_invoke_callbacks src2, evbuffer_invoke_callbacks dst2)"
      unfolding src2_def
      by (rule remove_buffer_step[OF part src(4) dst(4) k(1) C(1,6) c0 A(1)[unfolded data_def] m(3)])
    have out: "evbuffer_content dst2 = evbuffer_content dst @ take len (evbuffer_content src) \<or>
      (\<exists>m. malloc m = None) \<and> (\<exists>j \<le> len. evbuffer_content dst2 = evbuffer_content dst @ take j (evbuffer_content src))"
      using A(2) S2(6,7) C(11) k(3) unfolding add_outcome_def data_def by auto
    show ?thesis unfolding step
      using S2(1-5) A(2) out same_settings_trans[OF C(4) S2(4)] same_settings_trans[OF C(10)] C(9) part
      by (simp add: remove_outcome_def add_outcome_def)
  qed
qed

section \<open>Properties of the moves\<close>

text \<open>
  C17: \<open>evbuffer_add_buffer\<close> on two different well-formed buffers (the source not frozen at its
  start, the destination not at its end) returns 0, appends all bytes of the source to the destination
  without allocating, and leaves the source empty; both stay well formed.
\<close>

theorem evbuffer_add_buffer_correct:
  assumes "evbuffer_wf dst" "evbuffer_wf src" "\<not> freeze_end dst" "\<not> freeze_start src"
  shows "\<exists>dst' src'. evbuffer_add_buffer malloc False dst src = Some (0, dst', src') \<and>
           evbuffer_wf dst' \<and> evbuffer_wf src' \<and>
           evbuffer_content dst' = evbuffer_content dst @ evbuffer_content src \<and> evbuffer_content src' = []"
  using evbuffer_add_buffer_ok[OF assms, of malloc] by (auto simp: move_outcome_def)

theorem evbuffer_add_buffer_correct_witness:
  "\<exists>dst' src'. evbuffer_add_buffer (\<lambda>n. None) False ref_buffer ref_buffer = Some (0, dst', src') \<and>
     evbuffer_content dst' = [7, 8, 7, 8] \<and> evbuffer_content src' = []"
  using evbuffer_add_buffer_correct[OF ref_buffer_ok(1,1,4,3), of "\<lambda>n. None"] ref_buffer_ok(5) by auto

text \<open>
  \<open>evbuffer_prepend_buffer\<close> likewise puts all bytes of the source in front of those of the
  destination.
\<close>

theorem evbuffer_prepend_buffer_correct:
  assumes "evbuffer_wf dst" "evbuffer_wf src" "\<not> freeze_start dst" "\<not> freeze_start src"
  shows "\<exists>dst' src'. evbuffer_prepend_buffer malloc False dst src = Some (0, dst', src') \<and>
           evbuffer_wf dst' \<and> evbuffer_wf src' \<and>
           evbuffer_content dst' = evbuffer_content src @ evbuffer_content dst \<and> evbuffer_content src' = []"
  using evbuffer_prepend_buffer_ok[OF assms, of malloc] by (auto simp: move_outcome_def)


text \<open>Three bytes in a chain of their own, for the concrete instances.\<close>

definition mem_buffer :: evbuffer where
  "mem_buffer = evbuffer_new\<lparr>chains := [\<lparr>ch_buffer = 48, buffer_len = 4, misalign = 0, ch_off = 3,
     ch_flags = 0, ch_mem = [1, 2, 3, 0], ch_cleanup = None, ch_fd = 0\<rparr>], total_len := 3\<rparr>"

lemma mem_buffer_ok:
  "evbuffer_wf mem_buffer" "evbuffer_tight mem_buffer" "evbuffer_plain mem_buffer" "\<not> freeze_start mem_buffer"
  "\<not> freeze_end mem_buffer" "evbuffer_content mem_buffer = [1, 2, 3]" "total_len mem_buffer = 3"
  by (simp_all add: mem_buffer_def evbuffer_new_def evbuffer_wf_def evbuffer_tight_def lwd_ok_def evbuffer_plain_def
      chain_wf_def ch_has_def CHAIN_PINNED_def CHAIN_MAX_REQUEST_def EVBUFFER_CHAIN_SIZE_def
      evbuffer_content_def chain_data_def slice_def)


text \<open>
  \<open>evbuffer_pullup\<close> of \<open>n\<close> bytes does not change the bytes of a well-formed buffer and keeps it
  well formed; for \<open>0 < n \<le> total_len\<close>, unless the allocator fails, the pointer it returns reads (at
  least) the first \<open>n\<close> bytes of the buffer.
\<close>

theorem evbuffer_pullup_correct:
  assumes "evbuffer_wf buf" "n \<le> CHAIN_MAX_REQUEST"
  shows "\<exists>r buf'. evbuffer_pullup malloc buf (int n) = Some (r, buf') \<and> evbuffer_wf buf' \<and>
           evbuffer_content buf' = evbuffer_content buf \<and>
           (case r of
              None \<Rightarrow> n = 0 \<or> total_len buf < n \<or> (\<exists>m. malloc m = None)
            | Some bs \<Rightarrow> 0 < n \<and> n \<le> length bs \<and> take n bs = take n (evbuffer_content buf))"
proof -
  obtain r buf' where P: "evbuffer_pullup malloc buf (int n) = Some (r, buf')" "pullup_outcome malloc buf n r buf'"
    using evbuffer_pullup_ok[OF assms] by blast
  have "take n bs = take n (evbuffer_content buf)"
    if "n \<le> length bs" "bs = take (length bs) (evbuffer_content buf)" for bs
    using that by (metis min.absorb1 take_take)
  then show ?thesis using P by (auto simp: pullup_outcome_def split: option.splits)
qed

end
