(* ===== verification/Event_Tagging.thy ===== *)
theory Event_Tagging
  imports Tag_Code Event_Struct Evbuffer_Move
begin

text \<open>
  Tagged values in buffers, \<^verbatim>\<open>event_tagging.c\<close>. Every operation threads the buffers it
  works on. \<open>None\<close> stands for undefined behaviour: the code dereferences what \<open>evbuffer_pullup\<close>
  returns without looking, so a failed allocation there crashes it. The results that the code stores
  through a pointer are options, \<open>None\<close> when nothing is stored.
\<close>

section \<open>Encoding\<close>

text \<open>The code ignores what \<open>evbuffer_add\<close> returns.\<close>

definition add_bytes :: "allocator \<Rightarrow> byte list \<Rightarrow> evbuffer \<Rightarrow> evbuffer option" where
  "add_bytes malloc data evbuf = map_option snd (evbuffer_add malloc evbuf data)"

definition evtag_encode_int :: "allocator \<Rightarrow> evbuffer \<Rightarrow> u32 \<Rightarrow> evbuffer option" where
  "evtag_encode_int malloc evbuf number =
     (let (len, data) = encode_int_internal number in add_bytes malloc (take len data) evbuf)"

definition evtag_encode_int64 :: "allocator \<Rightarrow> evbuffer \<Rightarrow> u64 \<Rightarrow> evbuffer option" where
  "evtag_encode_int64 malloc evbuf number =
     (let (len, data) = encode_int64_internal number in add_bytes malloc (take len data) evbuf)"

text \<open>The callers pass a buffer; for a null pointer the code only counts the bytes.\<close>

definition evtag_encode_tag :: "allocator \<Rightarrow> evbuffer \<Rightarrow> u32 \<Rightarrow> (nat \<times> evbuffer) option" where
  "evtag_encode_tag malloc evbuf tag =
     (let data = encode_tag_loop tag in map_option (Pair (length data)) (add_bytes malloc data evbuf))"

definition evtag_marshal :: "allocator \<Rightarrow> evbuffer \<Rightarrow> u32 \<Rightarrow> byte list \<Rightarrow> evbuffer option" where
  "evtag_marshal malloc evbuf tag data = do {
     (_, b1) \<leftarrow> evtag_encode_tag malloc evbuf tag;
     b2 \<leftarrow> evtag_encode_int malloc b1 (of_nat (length data));
     add_bytes malloc data b2
   }"

definition evtag_marshal_buffer :: "allocator \<Rightarrow> evbuffer \<Rightarrow> u32 \<Rightarrow> evbuffer \<Rightarrow> (evbuffer \<times> evbuffer) option" where
  "evtag_marshal_buffer malloc evbuf tag data = do {
     (_, b1) \<leftarrow> evtag_encode_tag malloc evbuf tag;
     b2 \<leftarrow> evtag_encode_int malloc b1 (of_nat (evbuffer_get_length data));
     (_, b3, data') \<leftarrow> evbuffer_add_buffer malloc False b2 data;
     Some (b3, data')
   }"

definition evtag_marshal_int :: "allocator \<Rightarrow> evbuffer \<Rightarrow> u32 \<Rightarrow> u32 \<Rightarrow> evbuffer option" where
  "evtag_marshal_int malloc evbuf tag integer =
     (let (len, data) = encode_int_internal integer in do {
        (_, b1) \<leftarrow> evtag_encode_tag malloc evbuf tag;
        b2 \<leftarrow> evtag_encode_int malloc b1 (of_nat len);
        add_bytes malloc (take len data) b2
      })"

definition evtag_marshal_int64 :: "allocator \<Rightarrow> evbuffer \<Rightarrow> u32 \<Rightarrow> u64 \<Rightarrow> evbuffer option" where
  "evtag_marshal_int64 malloc evbuf tag integer =
     (let (len, data) = encode_int64_internal integer in do {
        (_, b1) \<leftarrow> evtag_encode_tag malloc evbuf tag;
        b2 \<leftarrow> evtag_encode_int malloc b1 (of_nat len);
        add_bytes malloc (take len data) b2
      })"

text \<open>A C string is the bytes before its terminating zero.\<close>

definition evtag_marshal_string :: "allocator \<Rightarrow> evbuffer \<Rightarrow> u32 \<Rightarrow> byte list \<Rightarrow> evbuffer option" where
  "evtag_marshal_string malloc buf tag string = evtag_marshal malloc buf tag (takeWhile (\<lambda>c. c \<noteq> 0) string)"

text \<open>Both fields of a time value are cut to 32 bits.\<close>

definition evtag_marshal_timeval :: "allocator \<Rightarrow> evbuffer \<Rightarrow> u32 \<Rightarrow> timeval \<Rightarrow> evbuffer option" where
  "evtag_marshal_timeval malloc evbuf tag tv =
     (let (len1, data1) = encode_int_internal (word_of_int (tv_sec tv));
          (len2, data2) = encode_int_internal (word_of_int (tv_usec tv))
      in evtag_marshal malloc evbuf tag (take len1 data1 @ take len2 data2))"

section \<open>Decoding\<close>

definition decode_tag_internal :: "allocator \<Rightarrow> evbuffer \<Rightarrow> bool \<Rightarrow> (int \<times> u32 option \<times> evbuffer) option" where
  "decode_tag_internal malloc evbuf dodrain =
     (let len = evbuffer_get_length evbuf in do {
        (data, b1) \<leftarrow> evbuffer_pullup malloc evbuf (int (if len < 4 + 1 then len else 4 + 1));
        (fin, number, cnt) \<leftarrow> decode_tag_loop (case data of None \<Rightarrow> [] | Some bs \<Rightarrow> bs) len 0 0 0;
        if \<not> fin then Some (- 1, None, b1)
        else do {
          b2 \<leftarrow> (if dodrain then map_option snd (evbuffer_drain b1 cnt) else Some b1);
          Some (if cnt > 2 ^ 31 - 1 then 2 ^ 31 - 1 else int cnt, Some number, b2)
        }
      })"

definition evtag_decode_tag :: "allocator \<Rightarrow> evbuffer \<Rightarrow> (int \<times> u32 option \<times> evbuffer) option" where
  "evtag_decode_tag malloc evbuf = decode_tag_internal malloc evbuf True"

definition DECODE_INT_INTERNAL ::
  "nat \<Rightarrow> allocator \<Rightarrow> evbuffer \<Rightarrow> nat \<Rightarrow> (int \<times> 'a::len word option \<times> evbuffer) option" where
  "DECODE_INT_INTERNAL maxnibbles malloc evbuf offset =
     (let len = int (evbuffer_get_length evbuf) - int offset in
      if len \<le> 0 then Some (- 1, None, evbuf)
      else do {
        (p, b1) \<leftarrow> evbuffer_pullup malloc evbuf (int offset + 1);
        data \<leftarrow> map_option (drop offset) p;
        let nibbles = unat (drop_bit 4 (data ! 0 AND 0xf0)) + 1 in
        if nibbles > maxnibbles \<or> int (nibbles div 2 + 1) > len then Some (- 1, None, b1)
        else (let len' = nibbles div 2 + 1 in do {
          (q, b2) \<leftarrow> evbuffer_pullup malloc b1 (int (offset + len'));
          data' \<leftarrow> map_option (drop offset) q;
          Some (int len', Some (decode_int_loop data' nibbles 0), b2)
        })
      })"

definition decode_int_internal :: "allocator \<Rightarrow> evbuffer \<Rightarrow> nat \<Rightarrow> (int \<times> u32 option \<times> evbuffer) option" where
  "decode_int_internal malloc evbuf offset = DECODE_INT_INTERNAL 8 malloc evbuf offset"

definition decode_int64_internal :: "allocator \<Rightarrow> evbuffer \<Rightarrow> nat \<Rightarrow> (int \<times> u64 option \<times> evbuffer) option" where
  "decode_int64_internal malloc evbuf offset = DECODE_INT_INTERNAL 16 malloc evbuf offset"

definition evtag_decode_int :: "allocator \<Rightarrow> evbuffer \<Rightarrow> (int \<times> u32 option \<times> evbuffer) option" where
  "evtag_decode_int malloc evbuf = do {
     (res, number, b1) \<leftarrow> decode_int_internal malloc evbuf 0;
     b2 \<leftarrow> (if res \<noteq> - 1 then map_option snd (evbuffer_drain b1 (nat res)) else Some b1);
     Some (if res = - 1 then - 1 else 0, number, b2)
   }"

definition evtag_decode_int64 :: "allocator \<Rightarrow> evbuffer \<Rightarrow> (int \<times> u64 option \<times> evbuffer) option" where
  "evtag_decode_int64 malloc evbuf = do {
     (res, number, b1) \<leftarrow> decode_int64_internal malloc evbuf 0;
     b2 \<leftarrow> (if res \<noteq> - 1 then map_option snd (evbuffer_drain b1 (nat res)) else Some b1);
     Some (if res = - 1 then - 1 else 0, number, b2)
   }"

definition evtag_peek :: "allocator \<Rightarrow> evbuffer \<Rightarrow> (int \<times> u32 option \<times> evbuffer) option" where
  "evtag_peek malloc evbuf = decode_tag_internal malloc evbuf False"

definition evtag_peek_length :: "allocator \<Rightarrow> evbuffer \<Rightarrow> (int \<times> u32 option \<times> evbuffer) option" where
  "evtag_peek_length malloc evbuf = do {
     (len, _, b1) \<leftarrow> decode_tag_internal malloc evbuf False;
     if len = - 1 then Some (- 1, None, b1)
     else do {
       (res, plength, b2) \<leftarrow> decode_int_internal malloc b1 (nat len);
       if res = - 1 then Some (- 1, plength, b2)
       else Some (0, map_option (\<lambda>n. n + word_of_int (res + len)) plength, b2)
     }
   }"

definition evtag_payload_length :: "allocator \<Rightarrow> evbuffer \<Rightarrow> (int \<times> u32 option \<times> evbuffer) option" where
  "evtag_payload_length malloc evbuf = do {
     (len, _, b1) \<leftarrow> decode_tag_internal malloc evbuf False;
     if len = - 1 then Some (- 1, None, b1)
     else do {
       (res, plength, b2) \<leftarrow> decode_int_internal malloc b1 (nat len);
       if res = - 1 then Some (- 1, plength, b2) else Some (0, plength, b2)
     }
   }"

text \<open>The length is returned as an \<open>int\<close>.\<close>

definition evtag_unmarshal_header :: "allocator \<Rightarrow> evbuffer \<Rightarrow> (int \<times> u32 option \<times> evbuffer) option" where
  "evtag_unmarshal_header malloc evbuf = do {
     (r, tag, b1) \<leftarrow> decode_tag_internal malloc evbuf True;
     if r = - 1 then Some (- 1, tag, b1)
     else do {
       (r', plen, b2) \<leftarrow> evtag_decode_int malloc b1;
       if r' = - 1 then Some (- 1, tag, b2)
       else do {
         len \<leftarrow> plen;
         if evbuffer_get_length b2 < unat len then Some (- 1, tag, b2)
         else Some (to_int32 (uint len), tag, b2)
       }
     }
   }"

text \<open>An \<open>int\<close> passed as a \<open>size_t\<close>.\<close>

definition size_of_int :: "int \<Rightarrow> nat" where
  "size_of_int i = unat (word_of_int i :: 64 word)"

definition evtag_consume :: "allocator \<Rightarrow> evbuffer \<Rightarrow> (int \<times> evbuffer) option" where
  "evtag_consume malloc evbuf = do {
     (len, _, b1) \<leftarrow> evtag_unmarshal_header malloc evbuf;
     if len = - 1 then Some (- 1, b1)
     else do { (_, b2) \<leftarrow> evbuffer_drain b1 (size_of_int len); Some (0, b2) }
   }"

text \<open>
  \<open>evbuffer_add\<close> of \<open>n\<close> bytes from a pointer: defined when nothing is read or the pointer
  points at enough bytes.
\<close>

definition add_from :: "allocator \<Rightarrow> evbuffer \<Rightarrow> byte list option \<Rightarrow> nat \<Rightarrow> (int \<times> evbuffer) option" where
  "add_from malloc dst p n =
     (if n = 0 then evbuffer_add malloc dst []
      else do { bs \<leftarrow> p; if n \<le> length bs then evbuffer_add malloc dst (take n bs) else None })"

definition evtag_unmarshal :: "allocator \<Rightarrow> evbuffer \<Rightarrow> evbuffer \<Rightarrow> (int \<times> u32 option \<times> evbuffer \<times> evbuffer) option" where
  "evtag_unmarshal malloc src dst = do {
     (len, tag, s1) \<leftarrow> evtag_unmarshal_header malloc src;
     if len = - 1 then Some (- 1, tag, s1, dst)
     else do {
       (p, s2) \<leftarrow> evbuffer_pullup malloc s1 len;
       (r, dst') \<leftarrow> add_from malloc dst p (size_of_int len);
       if r = - 1 then Some (- 1, tag, s2, dst')
       else do { (_, s3) \<leftarrow> evbuffer_drain s2 (size_of_int len); Some (len, tag, s3, dst') }
     }
   }"

text \<open>The common part of \<open>evtag_unmarshal_int\<close> and \<open>evtag_unmarshal_int64\<close>.\<close>

definition unmarshal_int_with ::
  "(evbuffer \<Rightarrow> (int \<times> 'a::len word option \<times> evbuffer) option) \<Rightarrow> allocator \<Rightarrow> evbuffer \<Rightarrow> u32 \<Rightarrow>
   (int \<times> 'a word option \<times> evbuffer) option" where
  "unmarshal_int_with decode malloc evbuf need_tag = do {
     (r, tag, b1) \<leftarrow> decode_tag_internal malloc evbuf True;
     if r = - 1 then Some (- 1, None, b1)
     else if Some need_tag \<noteq> tag then Some (- 1, None, b1)
     else do {
       (r', plen, b2) \<leftarrow> evtag_decode_int malloc b1;
       if r' = - 1 then Some (- 1, None, b2)
       else do {
         len \<leftarrow> plen;
         if evbuffer_get_length b2 < unat len then Some (- 1, None, b2)
         else do {
           (result, pinteger, b3) \<leftarrow> decode b2;
           (_, b4) \<leftarrow> evbuffer_drain b3 (unat len);
           if result < 0 \<or> nat result > unat len then Some (- 1, pinteger, b4)
           else Some (result, pinteger, b4)
         }
       }
     }
   }"

definition evtag_unmarshal_int :: "allocator \<Rightarrow> evbuffer \<Rightarrow> u32 \<Rightarrow> (int \<times> u32 option \<times> evbuffer) option" where
  "evtag_unmarshal_int malloc evbuf need_tag =
     unmarshal_int_with (\<lambda>b. decode_int_internal malloc b 0) malloc evbuf need_tag"

definition evtag_unmarshal_int64 :: "allocator \<Rightarrow> evbuffer \<Rightarrow> u32 \<Rightarrow> (int \<times> u64 option \<times> evbuffer) option" where
  "evtag_unmarshal_int64 malloc evbuf need_tag =
     unmarshal_int_with (\<lambda>b. decode_int64_internal malloc b 0) malloc evbuf need_tag"

definition evtag_unmarshal_fixed :: "allocator \<Rightarrow> evbuffer \<Rightarrow> u32 \<Rightarrow> nat \<Rightarrow> (int \<times> byte list option \<times> evbuffer) option" where
  "evtag_unmarshal_fixed malloc src need_tag len = do {
     (tag_len, tag, b1) \<leftarrow> evtag_unmarshal_header malloc src;
     if tag_len < 0 \<or> tag \<noteq> Some need_tag then Some (- 1, None, b1)
     else if nat tag_len \<noteq> len then Some (- 1, None, b1)
     else do { (_, data, b2) \<leftarrow> evbuffer_remove b1 len; Some (0, Some data, b2) }
   }"

text \<open>
  The string that is stored; \<open>None\<close> when \<open>evbuffer_remove\<close> did not fill it. With a length
  that is negative as an \<open>int\<close> the terminator is written before the memory.
\<close>

definition evtag_unmarshal_string :: "allocator \<Rightarrow> evbuffer \<Rightarrow> u32 \<Rightarrow> (int \<times> byte list option \<times> evbuffer) option" where
  "evtag_unmarshal_string malloc evbuf need_tag = do {
     (tag_len, tag, b1) \<leftarrow> evtag_unmarshal_header malloc evbuf;
     if tag_len = - 1 \<or> tag \<noteq> Some need_tag then Some (- 1, None, b1)
     else (case malloc (size_of_int (tag_len + 1)) of
             None \<Rightarrow> Some (- 1, None, b1)
           | Some _ \<Rightarrow> do {
               (_, bs, b2) \<leftarrow> evbuffer_remove b1 (size_of_int tag_len);
               if tag_len < 0 then None
               else Some (0, if length bs = nat tag_len then Some (bs @ [0]) else None, b2)
             })
   }"

text \<open>The seconds and the microseconds that are stored: the first may be without the second.\<close>

definition evtag_unmarshal_timeval ::
  "allocator \<Rightarrow> evbuffer \<Rightarrow> u32 \<Rightarrow> (int \<times> int option \<times> int option \<times> evbuffer) option" where
  "evtag_unmarshal_timeval malloc evbuf need_tag = do {
     (len, tag, b1) \<leftarrow> evtag_unmarshal_header malloc evbuf;
     if len = - 1 then Some (- 1, None, None, b1)
     else do {
       (result, sec, usec, b2) \<leftarrow>
         (if tag \<noteq> Some need_tag then Some (- 1, None, None, b1)
          else do {
            (offset, s, b2) \<leftarrow> decode_int_internal malloc b1 0;
            if offset = - 1 then Some (- 1, None, None, b2)
            else do {
              (offset2, u, b3) \<leftarrow> decode_int_internal malloc b2 (nat offset);
              if offset2 = - 1 then Some (- 1, map_option uint s, None, b3)
              else Some (if offset + offset2 > len then - 1 else 0, map_option uint s, map_option uint u, b3)
            }
          });
       (_, b4) \<leftarrow> evbuffer_drain b2 (size_of_int len);
       Some (result, sec, usec, b4)
     }
   }"


section \<open>What the code relies on: a queue of bytes\<close>

locale byte_queue =
  fixes ok :: "'b \<Rightarrow> bool" and content :: "'b \<Rightarrow> byte list" and size :: "'b \<Rightarrow> nat"
    and add :: "'b \<Rightarrow> byte list \<Rightarrow> (int \<times> 'b) option" and drain :: "'b \<Rightarrow> nat \<Rightarrow> (int \<times> 'b) option"
    and pullup :: "'b \<Rightarrow> int \<Rightarrow> (byte list option \<times> 'b) option" and limit :: nat
  assumes size: "ok b \<Longrightarrow> size b = length (content b)"
    and add: "ok b \<Longrightarrow> length bs \<le> limit \<Longrightarrow> \<exists>b'. add b bs = Some (0, b') \<and> ok b' \<and> content b' = content b @ bs"
    and drain: "ok b \<Longrightarrow> \<exists>b'. drain b n = Some (0, b') \<and> ok b' \<and> content b' = drop n (content b)"
    and pullup: "ok b \<Longrightarrow> 0 < n \<Longrightarrow> n \<le> length (content b) \<Longrightarrow> n \<le> limit \<Longrightarrow>
      \<exists>bs b'. pullup b (int n) = Some (Some bs, b') \<and> ok b' \<and> content b' = content b \<and>
              n \<le> length bs \<and> bs = take (length bs) (content b)"
begin

text \<open>The \<open>m\<close> bytes at an offset, as a pointer to at least that many bytes of the queue.\<close>

lemma read_at:
  assumes "ok b" "0 < m" "off + m \<le> length (content b)" "off + m \<le> limit"
  obtains bs b' r where "pullup b (int (off + m)) = Some (Some bs, b')" "ok b'" "content b' = content b"
    "drop off (content b) = drop off bs @ r" "m \<le> length (drop off bs)" "content b = bs @ r"
proof -
  from pullup[OF assms(1) _ assms(3,4)] assms(2) obtain bs b' where
    P: "pullup b (int (off + m)) = Some (Some bs, b')" "ok b'" "content b' = content b" "off + m \<le> length bs"
      "bs = take (length bs) (content b)" by auto
  have "content b = bs @ drop (length bs) (content b)" using P(5) by (metis append_take_drop_id)
  moreover from this have "drop off (content b) = drop off bs @ drop (length bs) (content b)"
    using P(4) by (metis add_leD1 append_eq_conv_conj drop_append diff_is_0_eq drop0)
  ultimately show ?thesis using that P by simp
qed

text \<open>What is added after other bytes is found after they are drained.\<close>

lemma add_drain:
  assumes "ok b" "length bs \<le> limit" "n = length (content b)"
  shows "\<exists>b1 b2. add b bs = Some (0, b1) \<and> drain b1 n = Some (0, b2) \<and> ok b2 \<and> content b2 = bs"
proof -
  from add[OF assms(1,2)] obtain b1 where b1: "add b bs = Some (0, b1)" "ok b1" "content b1 = content b @ bs" by blast
  then show ?thesis using drain[OF b1(2), of n] assms(3) by auto
qed

end

text \<open>A buffer that can be read and written, when no allocation fails.\<close>

definition tag_ready :: "allocator \<Rightarrow> evbuffer \<Rightarrow> bool" where
  "tag_ready malloc buf \<longleftrightarrow>
     (\<forall>n. malloc n \<noteq> None) \<and> evbuffer_wf buf \<and> evbuffer_tight buf \<and> evbuffer_plain buf \<and>
     \<not> freeze_start buf \<and> \<not> freeze_end buf"

lemma tag_ready_pullup:
  assumes "tag_ready malloc b" "0 < n" "n \<le> length (evbuffer_content b)" "n \<le> CHAIN_MAX_REQUEST"
  shows "\<exists>bs b'. evbuffer_pullup malloc b (int n) = Some (Some bs, b') \<and> tag_ready malloc b' \<and>
     evbuffer_content b' = evbuffer_content b \<and> n \<le> length bs \<and> bs = take (length bs) (evbuffer_content b)"
proof -
  have b: "evbuffer_wf b" "evbuffer_tight b" "evbuffer_plain b" "\<And>n. malloc n \<noteq> None"
    using assms(1) by (simp_all add: tag_ready_def)
  from evbuffer_pullup_ok[OF b(1) assms(4), of malloc] obtain r b' where
    P: "evbuffer_pullup malloc b (int n) = Some (r, b')" "pullup_outcome malloc b n r b'" by blast
  have "\<not> total_len b < n" using length_evbuffer_content[OF b(1)] assms(3) by simp
  then obtain bs where "r = Some bs" using P(2) assms(2) b(4) by (cases r) (auto simp: pullup_outcome_def)
  moreover have "tag_ready malloc b'" using P(2) assms(1) by (auto simp: pullup_outcome_def tag_ready_def same_settings_def)
  ultimately show ?thesis using P by (auto simp: pullup_outcome_def)
qed

lemma tag_ready_add:
  assumes "tag_ready malloc b" "length bs \<le> CHAIN_MAX_REQUEST"
  shows "\<exists>b'. evbuffer_add malloc b bs = Some (0, b') \<and> tag_ready malloc b' \<and> evbuffer_content b' = evbuffer_content b @ bs"
proof -
  have b: "evbuffer_wf b" "evbuffer_tight b" "\<not> freeze_end b" "\<And>n. malloc n \<noteq> None"
    "bs \<noteq> [] \<or> chains b = [] \<or> \<not> ch_has EVBUFFER_IMMUTABLE (last (chains b))"
    using assms(1) by (auto simp: tag_ready_def evbuffer_plain_def)
  from evbuffer_add_ok[OF b(1-3) assms(2) b(5), of malloc] obtain r b' where
    A: "evbuffer_add malloc b bs = Some (r, b')" "add_outcome malloc b bs r b'" by blast
  moreover have "r = 0" "evbuffer_content b' = evbuffer_content b @ bs" using A(2) b(4) by (auto simp: add_outcome_def)
  moreover have "tag_ready malloc b'" using A(2) assms(1) by (auto simp: add_outcome_def tag_ready_def same_settings_def)
  ultimately show ?thesis by simp
qed

lemma tag_ready_drain:
  assumes "tag_ready malloc b"
  shows "\<exists>b'. evbuffer_drain b n = Some (0, b') \<and> tag_ready malloc b' \<and> evbuffer_content b' = drop n (evbuffer_content b)"
  using evbuffer_drain_ok[of b n] assms by (auto simp: tag_ready_def same_settings_def)

interpretation evb: byte_queue "tag_ready malloc" evbuffer_content evbuffer_get_length "evbuffer_add malloc" evbuffer_drain
  "evbuffer_pullup malloc" CHAIN_MAX_REQUEST for malloc
proof unfold_locales
  show "tag_ready malloc b \<Longrightarrow> evbuffer_get_length b = length (evbuffer_content b)" for b
    by (simp add: tag_ready_def evbuffer_get_length_def length_evbuffer_content)
qed (fact tag_ready_add tag_ready_drain tag_ready_pullup)+


section \<open>The operations on the bytes of the buffer\<close>

lemma small_limit: "n \<le> 2 ^ 32 \<Longrightarrow> n \<le> CHAIN_MAX_REQUEST"
  by (simp add: CHAIN_MAX_REQUEST_def EVBUFFER_CHAIN_SIZE_def)

lemma add_bytes_ok:
  "tag_ready malloc b \<Longrightarrow> length bs \<le> 2 ^ 32 \<Longrightarrow>
   \<exists>b'. add_bytes malloc bs b = Some b' \<and> tag_ready malloc b' \<and> evbuffer_content b' = evbuffer_content b @ bs"
  using evb.add[of malloc b bs] small_limit by (auto simp: add_bytes_def)

lemma int_code_internal:
  "encode_int_internal n = (len, data) \<Longrightarrow> take len data = int_code n \<and> len = length (int_code n)"
  "encode_int64_internal m = (len, data) \<Longrightarrow> take len data = int_code m \<and> len = length (int_code m)"
proof -
  have "fst (ENCODE_INT_INTERNAL w) \<le> length (snd (ENCODE_INT_INTERNAL w))" if "LENGTH('a) = 8 * k" "1 \<le> k" for w :: "'a::len word" and k
  proof -
    obtain data off where L: "encode_int_loop (replicate (LENGTH('a) div 8 + 1) 0) w 1 = (data, off)" by fastforce
    have "drop_bit (4 * (2 * k)) w = 0" by (rule bit_word_eqI) (auto simp: bit_simps that(1) dest: bit_imp_le_length)
    from encode_int_loop_ok[OF L this] have "length data = k + 1" "off \<le> 1 + 2 * k" using that by simp_all
    then show ?thesis unfolding ENCODE_INT_INTERNAL_def L by (simp add: Let_def)
  qed
  from this[of 4 n] this[of 8 m] show
    "encode_int_internal n = (len, data) \<Longrightarrow> take len data = int_code n \<and> len = length (int_code n)"
    "encode_int64_internal m = (len, data) \<Longrightarrow> take len data = int_code m \<and> len = length (int_code m)"
    by (simp_all add: encode_int_internal_def encode_int64_internal_def int_code_def)
qed

lemma evtag_encode_int_eq: "evtag_encode_int malloc b n = add_bytes malloc (int_code n) b"
  using int_code_internal(1)[of n] by (auto simp: evtag_encode_int_def split: prod.split)

lemma evtag_encode_int64_eq: "evtag_encode_int64 malloc b n = add_bytes malloc (int_code n) b"
  using int_code_internal(2)[of n] by (auto simp: evtag_encode_int64_def split: prod.split)

text \<open>A tagged value: the tag, the length, the data.\<close>

definition tagged :: "u32 \<Rightarrow> byte list \<Rightarrow> byte list" where
  "tagged tag data = encode_tag_loop tag @ int_code (of_nat (length data) :: u32) @ data"

lemma evtag_marshal_ok:
  assumes "tag_ready malloc b" "length data \<le> 2 ^ 32"
  shows "\<exists>b'. evtag_marshal malloc b tag data = Some b' \<and> tag_ready malloc b' \<and>
     evbuffer_content b' = evbuffer_content b @ tagged tag data"
proof -
  from add_bytes_ok[OF assms(1), of "encode_tag_loop tag"] tag_length[of tag] obtain b1 where
    b1: "add_bytes malloc (encode_tag_loop tag) b = Some b1" "tag_ready malloc b1"
      "evbuffer_content b1 = evbuffer_content b @ encode_tag_loop tag" by auto
  let ?n = "of_nat (length data) :: u32"
  from add_bytes_ok[OF b1(2), of "int_code ?n"] int_code_length(2)[of ?n] obtain b2 where
    b2: "add_bytes malloc (int_code ?n) b1 = Some b2" "tag_ready malloc b2"
      "evbuffer_content b2 = evbuffer_content b1 @ int_code ?n" by auto
  from add_bytes_ok[OF b2(2) assms(2)] show ?thesis
    using b1 b2 by (auto simp: evtag_marshal_def evtag_encode_tag_def evtag_encode_int_eq tagged_def Let_def)
qed

lemma evtag_marshal_int_eq:
  "evtag_marshal_int malloc b tag n = evtag_marshal malloc b tag (int_code n)"
  "evtag_marshal_int64 malloc b tag m = evtag_marshal malloc b tag (int_code m)"
  using int_code_internal(1)[of n] int_code_internal(2)[of m]
  by (auto simp: evtag_marshal_int_def evtag_marshal_int64_def evtag_marshal_def split: prod.split)

lemma evtag_marshal_timeval_eq:
  "evtag_marshal_timeval malloc b tag tv =
     evtag_marshal malloc b tag (int_code (word_of_int (tv_sec tv) :: u32) @ int_code (word_of_int (tv_usec tv) :: u32))"
  using int_code_internal(1)[of "word_of_int (tv_sec tv)"] int_code_internal(1)[of "word_of_int (tv_usec tv)"]
  by (auto simp: evtag_marshal_timeval_def split: prod.split)

lemma DECODE_INT_INTERNAL_ok:
  assumes "tag_ready malloc b" "off \<le> 2 ^ 31" "mx \<le> 16"
  shows "\<exists>b'. DECODE_INT_INTERNAL mx malloc b off =
      Some (case int_decode mx (drop off (evbuffer_content b)) of
              None \<Rightarrow> (- 1, None, b') | Some (v, n) \<Rightarrow> (int n, Some v, b')) \<and>
    tag_ready malloc b' \<and> evbuffer_content b' = evbuffer_content b"
proof (cases "drop off (evbuffer_content b)")
  case Nil
  then show ?thesis using assms(1) evb.size[OF assms(1)] by (simp add: DECODE_INT_INTERNAL_def int_decode_def)
next
  case (Cons c cs)
  have len: "off + 1 \<le> length (evbuffer_content b)" using arg_cong[OF Cons, of length] by simp
  have size: "int (evbuffer_get_length b) - int off = int (length (c # cs))"
    using evb.size[OF assms(1)] arg_cong[OF Cons, of length] len by simp
  have lim: "off + 1 \<le> CHAIN_MAX_REQUEST" using assms(2) by (intro small_limit) simp
  obtain bs b1 r where
    P: "evbuffer_pullup malloc b (int (off + 1)) = Some (Some bs, b1)" "tag_ready malloc b1" "evbuffer_content b1 = evbuffer_content b"
      "drop off (evbuffer_content b) = drop off bs @ r" "1 \<le> length (drop off bs)"
    by (rule evb.read_at[OF assms(1) zero_less_one len lim])
  have hd: "drop off bs ! 0 = c" using P(4,5) Cons by (cases "drop off bs") auto
  define nb where "nb = nibble_count c"
  have nb: "unat (drop_bit 4 (c AND 0xf0)) + 1 = nb" by (simp add: nb_def nibble_count_def)
  show ?thesis
  proof (cases "nb > mx \<or> nb div 2 + 1 > length (c # cs)")
    case True
    then have "int_decode mx (c # cs) = (None :: ('a word \<times> nat) option)" by (auto simp: int_decode_def nb_def Let_def)
    moreover have "DECODE_INT_INTERNAL mx malloc b off = (Some (- 1, None, b1) :: (int \<times> 'a word option \<times> evbuffer) option)"
      using P(1) hd nb size True by (auto simp: DECODE_INT_INTERNAL_def Let_def add.commute)
    ultimately show ?thesis using P(2,3) Cons by simp
  next
    case False
    then have "off + (nb div 2 + 1) \<le> length (evbuffer_content b1)" "off + (nb div 2 + 1) \<le> CHAIN_MAX_REQUEST"
      using arg_cong[OF Cons, of length] P(3) assms(2,3) by (auto intro!: small_limit)
    note bounds = this
    obtain ds b2 r' where
      Q: "evbuffer_pullup malloc b1 (int (off + (nb div 2 + 1))) = Some (Some ds, b2)" "tag_ready malloc b2"
        "evbuffer_content b2 = evbuffer_content b1" "drop off (evbuffer_content b1) = drop off ds @ r'"
        "nb div 2 + 1 \<le> length (drop off ds)"
      by (rule evb.read_at[OF P(2) _ bounds]) auto
    have "DECODE_INT_INTERNAL mx malloc b off = Some (int (nb div 2 + 1), Some (decode_int_loop (drop off ds) nb 0 :: 'a word), b2)"
      unfolding DECODE_INT_INTERNAL_def using P(1) Q(1) hd nb size False by (simp add: Let_def add.commute add.left_commute)
    moreover have "decode_int_loop (drop off ds) nb 0 = (decode_int_loop (c # cs) nb 0 :: 'a word)"
      using decode_int_loop_prefix[of nb "drop off ds" r' "0 :: 'a word"] Q(4,5) P(3) Cons by simp
    moreover have "int_decode mx (c # cs) = Some (decode_int_loop (c # cs) nb 0 :: 'a word, nb div 2 + 1)"
      using False by (simp add: int_decode_def nb_def Let_def)
    ultimately show ?thesis using Q(2,3) P(3) Cons by simp
  qed
qed


lemma decode_tag_loop_prefix:
  assumes "left = length (bs @ r)" "32 \<le> s + 7 * length bs \<or> r = []"
  shows "decode_tag_loop bs left n s c = decode_tag_loop (bs @ r) left n s c"
  using assms
proof (induction bs arbitrary: left n s c)
  case Nil
  then show ?case by (cases r) auto
next
  case (Cons x bs)
  then show ?case by (auto simp: Let_def)
qed

lemma decode_tag_loop_count:
  "decode_tag_loop bs left n s c = Some (f, v, k) \<Longrightarrow> s = 7 * c \<Longrightarrow> c \<le> 5 \<Longrightarrow> k \<le> 6 \<and> (f \<longrightarrow> 1 \<le> k \<and> k \<le> 5)"
proof (induction bs left n s c rule: decode_tag_loop.induct)
  case (3 x bs left n s c)
  then show ?case by (auto simp: Let_def split: if_splits)
qed auto

lemma decode_tag_internal_ok:
  assumes "tag_ready malloc b"
  shows "\<exists>b'. decode_tag_internal malloc b dodrain =
      map_option (\<lambda>(fin, tag, n). if fin then (int n, Some tag, b') else (- 1, None, b'))
        (decode_tag_loop (evbuffer_content b) (length (evbuffer_content b)) 0 0 0) \<and> tag_ready malloc b' \<and>
    evbuffer_content b' = (case tag_decode (evbuffer_content b) of
        None \<Rightarrow> evbuffer_content b | Some (tag, n) \<Rightarrow> if dodrain then drop n (evbuffer_content b) else evbuffer_content b)"
proof -
  define bs where "bs = evbuffer_content b"
  define L where "L = decode_tag_loop bs (length bs) 0 0 0"
  have size: "evbuffer_get_length b = length bs" using evb.size[OF assms] by (simp add: bs_def)
  have "\<exists>p b1. evbuffer_pullup malloc b (int (if length bs < 4 + 1 then length bs else 4 + 1)) = Some (p, b1) \<and>
      tag_ready malloc b1 \<and> evbuffer_content b1 = bs \<and>
      decode_tag_loop (case p of None \<Rightarrow> [] | Some bs \<Rightarrow> bs) (length bs) 0 0 0 = L"
  proof (cases bs)
    case Nil
    have "evbuffer_pullup malloc b (int 0) = Some (None, b)"
      using evbuffer_pullup_ok[of b 0 malloc] assms size Nil by (auto simp: tag_ready_def evbuffer_pullup_def)
    then show ?thesis using Nil assms by (simp add: L_def bs_def)
  next
    case (Cons c cs)
    define m where "m = (if length bs < 4 + 1 then length bs else 4 + 1)"
    have m: "0 < m" "0 + m \<le> length (evbuffer_content b)" "0 + m \<le> CHAIN_MAX_REQUEST"
      using Cons by (auto simp: m_def bs_def[symmetric] intro!: small_limit)
    obtain p b1 r where
      P: "evbuffer_pullup malloc b (int (0 + m)) = Some (Some p, b1)" "tag_ready malloc b1" "evbuffer_content b1 = evbuffer_content b"
        "drop 0 (evbuffer_content b) = drop 0 p @ r" "m \<le> length (drop 0 p)" by (rule evb.read_at[OF assms m])
    have "bs = p @ r" using P(4) by (simp add: bs_def)
    moreover have "32 \<le> 0 + 7 * length p \<or> r = []" using P(5) calculation by (auto simp: m_def split: if_splits)
    ultimately have "decode_tag_loop p (length bs) 0 0 0 = L" using decode_tag_loop_prefix[of "length bs" p r 0] by (simp add: L_def)
    then show ?thesis unfolding m_def[symmetric] using P(1-3)
      by (intro exI[of _ "Some p"] exI[of _ b1]) (simp add: bs_def)
  qed
  then obtain p b1 where P: "evbuffer_pullup malloc b (int (if length bs < 4 + 1 then length bs else 4 + 1)) = Some (p, b1)"
      "tag_ready malloc b1" "evbuffer_content b1 = bs" "decode_tag_loop (case p of None \<Rightarrow> [] | Some bs \<Rightarrow> bs) (length bs) 0 0 0 = L"
    by (elim exE conjE) (rule that)
  show ?thesis
  proof (cases L)
    case None
    then show ?thesis using P size unfolding bs_def[symmetric] L_def[symmetric]
      by (intro exI[of _ b1]) (simp add: decode_tag_internal_def tag_decode_def L_def[symmetric])
  next
    case (Some q)
    obtain fin tag n where q: "L = Some (fin, tag, n)" using Some by (cases q) auto
    show ?thesis
    proof (cases "fin \<and> dodrain")
      case True
      have "n \<le> 5" using decode_tag_loop_count[of bs "length bs" 0 0 0 fin tag n] q True by (simp add: L_def)
      moreover from evb.drain[OF P(2), of n] obtain b2 where
        b2: "evbuffer_drain b1 n = Some (0, b2)" "tag_ready malloc b2" "evbuffer_content b2 = drop n bs" using P(3) by auto
      ultimately show ?thesis using P(1,4) size q True unfolding bs_def[symmetric] L_def[symmetric]
        by (intro exI[of _ b2]) (simp add: decode_tag_internal_def tag_decode_def L_def[symmetric])
    next
      case False
      have "fin \<Longrightarrow> n \<le> 5" using decode_tag_loop_count[of bs "length bs" 0 0 0 fin tag n] q by (simp add: L_def)
      then show ?thesis using P size q False unfolding bs_def[symmetric] L_def[symmetric]
        by (intro exI[of _ b1]) (auto simp: decode_tag_internal_def tag_decode_def L_def[symmetric] split: bool.splits)
    qed
  qed
qed


lemma tag_decode_loop:
  "decode_tag_loop (encode_tag_loop tag @ rest) (length (encode_tag_loop tag @ rest)) 0 0 0 =
     Some (True, tag, length (encode_tag_loop tag))"
proof -
  have "drop_bit (7 * 5) tag = 0" by (rule bit_word_eqI) (auto simp: bit_simps dest: bit_imp_le_length)
  then show ?thesis using decode_tag_loop_ok[of 0 5 tag rest _ 0 0] by simp
qed

lemma decode_tag_ok:
  assumes "tag_ready malloc b" "evbuffer_content b = encode_tag_loop tag @ rest"
  shows "\<exists>b'. decode_tag_internal malloc b dodrain = Some (int (length (encode_tag_loop tag)), Some tag, b') \<and> tag_ready malloc b' \<and>
     evbuffer_content b' = (if dodrain then rest else evbuffer_content b)"
  using decode_tag_internal_ok[OF assms(1), of dodrain] tag_decode_loop[of tag rest] tag_decode_code[of tag rest] assms(2)
  by auto

lemma decode_int_ok:
  assumes "tag_ready malloc b" "off \<le> 2 ^ 31" "drop off (evbuffer_content b) = int_code n @ rest"
  shows "\<exists>b'. decode_int_internal malloc b off = Some (int (length (int_code n)), Some n, b') \<and> tag_ready malloc b' \<and>
     evbuffer_content b' = evbuffer_content b"
  using DECODE_INT_INTERNAL_ok[OF assms(1,2), of 8, where 'a = 32] int32.dec_enc[of n rest] assms(3)
  by (auto simp: decode_int_internal_def)

lemma decode_int64_ok:
  assumes "tag_ready malloc b" "off \<le> 2 ^ 31" "drop off (evbuffer_content b) = int_code n @ rest"
  shows "\<exists>b'. decode_int64_internal malloc b off = Some (int (length (int_code n)), Some n, b') \<and> tag_ready malloc b' \<and>
     evbuffer_content b' = evbuffer_content b"
  using DECODE_INT_INTERNAL_ok[OF assms(1,2), of 16, where 'a = 64] int64.dec_enc[of n rest] assms(3)
  by (auto simp: decode_int64_internal_def)

lemma evtag_decode_int_ok:
  assumes "tag_ready malloc b" "evbuffer_content b = int_code n @ rest"
  shows "\<exists>b'. evtag_decode_int malloc b = Some (0, Some n, b') \<and> tag_ready malloc b' \<and> evbuffer_content b' = rest"
proof -
  from decode_int_ok[OF assms(1), of 0 n rest] assms(2) obtain b1 where
    b1: "decode_int_internal malloc b 0 = Some (int (length (int_code n)), Some n, b1)" "tag_ready malloc b1"
      "evbuffer_content b1 = evbuffer_content b" by auto
  from evb.drain[OF b1(2), of "length (int_code n)"] show ?thesis using b1 assms(2) by (auto simp: evtag_decode_int_def)
qed

lemma evtag_decode_int64_ok:
  assumes "tag_ready malloc b" "evbuffer_content b = int_code n @ rest"
  shows "\<exists>b'. evtag_decode_int64 malloc b = Some (0, Some n, b') \<and> tag_ready malloc b' \<and> evbuffer_content b' = rest"
proof -
  from decode_int64_ok[OF assms(1), of 0 n rest] assms(2) obtain b1 where
    b1: "decode_int64_internal malloc b 0 = Some (int (length (int_code n)), Some n, b1)" "tag_ready malloc b1"
      "evbuffer_content b1 = evbuffer_content b" by auto
  from evb.drain[OF b1(2), of "length (int_code n)"] show ?thesis using b1 assms(2) by (auto simp: evtag_decode_int64_def)
qed

text \<open>Reading the header of a value whose data is complete.\<close>

lemma unmarshal_header_ok:
  assumes "tag_ready malloc b" "evbuffer_content b = tagged tag data @ rest" "length data < 2 ^ 31"
  shows "\<exists>b'. evtag_unmarshal_header malloc b = Some (int (length data), Some tag, b') \<and> tag_ready malloc b' \<and>
     evbuffer_content b' = data @ rest"
proof -
  define n :: u32 where "n = of_nat (length data)"
  have n: "unat n = length data" "uint n = int (length data)" using assms(3) by (simp_all add: n_def unat_of_nat uint_nat)
  from decode_tag_ok[OF assms(1), of tag _ True] assms(2) obtain b1 where
    b1: "decode_tag_internal malloc b True = Some (int (length (encode_tag_loop tag)), Some tag, b1)" "tag_ready malloc b1"
      "evbuffer_content b1 = int_code n @ data @ rest" by (auto simp: tagged_def n_def)
  from evtag_decode_int_ok[OF b1(2,3)] obtain b2 where
    b2: "evtag_decode_int malloc b1 = Some (0, Some n, b2)" "tag_ready malloc b2" "evbuffer_content b2 = data @ rest" by auto
  have "evbuffer_get_length b2 = length (data @ rest)" using evb.size[OF b2(2)] b2(3) by simp
  moreover have "to_int32 (uint n) = int (length data)" unfolding n(2) by (rule to_int32_small) (use assms(3) in simp_all)
  ultimately show ?thesis using b1(1) b2 n(1) by (simp add: evtag_unmarshal_header_def)
qed

lemma size_of_int_small: "n < 2 ^ 63 \<Longrightarrow> size_of_int (int n) = n"
  unfolding size_of_int_def by (rule word64_of_small) simp

lemma evtag_unmarshal_ok:
  assumes "tag_ready malloc src" "tag_ready malloc dst" "evbuffer_content src = tagged tag data @ rest" "length data < 2 ^ 31"
  shows "\<exists>src' dst'. evtag_unmarshal malloc src dst = Some (int (length data), Some tag, src', dst') \<and>
     tag_ready malloc src' \<and> evbuffer_content src' = rest \<and> tag_ready malloc dst' \<and> evbuffer_content dst' = evbuffer_content dst @ data"
proof -
  from unmarshal_header_ok[OF assms(1,3,4)] obtain s1 where
    s1: "evtag_unmarshal_header malloc src = Some (int (length data), Some tag, s1)" "tag_ready malloc s1" "evbuffer_content s1 = data @ rest"
    by blast
  have sz: "size_of_int (int (length data)) = length data" using assms(4) by (intro size_of_int_small) simp
  have lim: "length data \<le> CHAIN_MAX_REQUEST" using assms(4) by (intro small_limit) simp
  from evb.add[OF assms(2) lim] obtain dst' where
    d: "evbuffer_add malloc dst data = Some (0, dst')" "tag_ready malloc dst'" "evbuffer_content dst' = evbuffer_content dst @ data" by blast
  have "\<exists>p s2. evbuffer_pullup malloc s1 (int (length data)) = Some (p, s2) \<and> tag_ready malloc s2 \<and> evbuffer_content s2 = data @ rest \<and>
      add_from malloc dst p (length data) = Some (0, dst')"
  proof (cases data)
    case Nil
    then have "evbuffer_pullup malloc s1 (int (length data)) = Some (None, s1)" by (simp add: evbuffer_pullup_def)
    then show ?thesis using s1(2,3) d(1) Nil by (simp add: add_from_def)
  next
    case (Cons c cs)
    obtain bs s2 where P: "evbuffer_pullup malloc s1 (int (length data)) = Some (Some bs, s2)" "tag_ready malloc s2"
        "evbuffer_content s2 = evbuffer_content s1" "length data \<le> length bs" "bs = take (length bs) (evbuffer_content s1)"
      using evb.pullup[OF s1(2), of "length data"] s1(3) lim Cons by auto
    have "take (length data) bs = data" using P(4,5) s1(3) by (metis append_eq_conv_conj min.absorb1 take_take)
    then show ?thesis using P s1(3) d(1) Cons by (auto simp: add_from_def)
  qed
  then obtain p s2 where P: "evbuffer_pullup malloc s1 (int (length data)) = Some (p, s2)" "tag_ready malloc s2"
      "evbuffer_content s2 = data @ rest" "add_from malloc dst p (length data) = Some (0, dst')" by blast
  from evb.drain[OF P(2), of "length data"] P(3) show ?thesis
    using s1(1) P(1,4) d(2,3) sz by (auto simp: evtag_unmarshal_def)
qed


lemma unmarshal_int_with_ok:
  assumes "tag_ready malloc b" "evbuffer_content b = tagged tag data @ rest" "length data < 2 ^ 31" "k \<le> length data"
    and "\<And>c. tag_ready malloc c \<Longrightarrow> evbuffer_content c = data @ rest \<Longrightarrow>
      \<exists>c'. decode c = Some (int k, Some n, c') \<and> tag_ready malloc c' \<and> evbuffer_content c' = evbuffer_content c"
  shows "\<exists>b'. unmarshal_int_with decode malloc b tag = Some (int k, Some n, b') \<and> tag_ready malloc b' \<and> evbuffer_content b' = rest"
proof -
  define l :: u32 where "l = of_nat (length data)"
  have l: "unat l = length data" using assms(3) by (simp add: l_def unat_of_nat)
  from decode_tag_ok[OF assms(1), of tag _ True] assms(2) obtain b1 where
    b1: "decode_tag_internal malloc b True = Some (int (length (encode_tag_loop tag)), Some tag, b1)" "tag_ready malloc b1"
      "evbuffer_content b1 = int_code l @ data @ rest" by (auto simp: tagged_def l_def)
  from evtag_decode_int_ok[OF b1(2,3)] obtain b2 where
    b2: "evtag_decode_int malloc b1 = Some (0, Some l, b2)" "tag_ready malloc b2" "evbuffer_content b2 = data @ rest" by auto
  have sz: "evbuffer_get_length b2 = length (data @ rest)" using evb.size[OF b2(2)] b2(3) by simp
  from assms(5)[OF b2(2,3)] obtain b3 where
    b3: "decode b2 = Some (int k, Some n, b3)" "tag_ready malloc b3" "evbuffer_content b3 = data @ rest" using b2(3) by auto
  from evb.drain[OF b3(2), of "length data"] b3(3) obtain b4 where
    "evbuffer_drain b3 (length data) = Some (0, b4)" "tag_ready malloc b4" "evbuffer_content b4 = rest" by auto
  then show ?thesis using b1(1) b2(1) b3(1) l sz assms(4) by (simp add: unmarshal_int_with_def)
qed

lemma evtag_unmarshal_timeval_ok:
  assumes "tag_ready malloc b" "evbuffer_content b = tagged tag (int_code (s :: u32) @ int_code (u :: u32)) @ rest"
  shows "\<exists>b'. evtag_unmarshal_timeval malloc b tag = Some (0, Some (uint s), Some (uint u), b') \<and>
     tag_ready malloc b' \<and> evbuffer_content b' = rest"
proof -
  define data where "data = int_code s @ int_code u"
  have len: "length data \<le> 10" using int_code_length(2)[of s] int_code_length(2)[of u] by (simp add: data_def)
  obtain b1 where b1: "evtag_unmarshal_header malloc b = Some (int (length data), Some tag, b1)" "tag_ready malloc b1"
      "evbuffer_content b1 = data @ rest"
    using unmarshal_header_ok[OF assms(1), of tag data rest] assms(2) len by (auto simp: data_def)
  obtain b2 where b2: "decode_int_internal malloc b1 0 = Some (int (length (int_code s)), Some s, b2)" "tag_ready malloc b2"
      "evbuffer_content b2 = data @ rest"
    using decode_int_ok[OF b1(2), of 0 s "int_code u @ rest"] b1(3) by (auto simp: data_def)
  obtain b3 where b3: "decode_int_internal malloc b2 (length (int_code s)) = Some (int (length (int_code u)), Some u, b3)" "tag_ready malloc b3"
      "evbuffer_content b3 = data @ rest"
    using decode_int_ok[OF b2(2), of "length (int_code s)" u rest] b2(3) len by (auto simp: data_def)
  obtain b4 where b4: "evbuffer_drain b3 (length data) = Some (0, b4)" "tag_ready malloc b4" "evbuffer_content b4 = rest"
    using evb.drain[OF b3(2), of "length data"] b3(3) by auto
  have "size_of_int (int (length data)) = length data" using len by (intro size_of_int_small) simp
  then show ?thesis using b1(1) b2(1) b3(1) b4 by (simp add: evtag_unmarshal_timeval_def data_def)
qed

lemma evtag_unmarshal_string_ok:
  assumes "tag_ready malloc b" "evbuffer_content b = tagged tag data @ rest" "length data < 2 ^ 31"
  shows "\<exists>b'. evtag_unmarshal_string malloc b tag = Some (0, Some (data @ [0]), b') \<and> tag_ready malloc b' \<and> evbuffer_content b' = rest"
proof -
  obtain b1 where b1: "evtag_unmarshal_header malloc b = Some (int (length data), Some tag, b1)" "tag_ready malloc b1"
      "evbuffer_content b1 = data @ rest" using unmarshal_header_ok[OF assms] by blast
  have sz: "size_of_int (int (length data)) = length data" using assms(3) by (intro size_of_int_small) simp
  have wf: "evbuffer_wf b1" "\<not> freeze_start b1" using b1(2) by (simp_all add: tag_ready_def)
  from evbuffer_remove_ok[OF wf, of "length data"] b1(2,3) obtain r b2 where
    b2: "evbuffer_remove b1 (length data) = Some (r, data, b2)" "tag_ready malloc b2" "evbuffer_content b2 = rest"
    by (auto simp: tag_ready_def same_settings_def)
  obtain q where "malloc (size_of_int (int (length data) + 1)) = Some q" using assms(1) by (auto simp: tag_ready_def)
  then show ?thesis using b1(1) b2 sz by (simp add: evtag_unmarshal_string_def)
qed

lemma evtag_unmarshal_fixed_ok:
  assumes "tag_ready malloc b" "evbuffer_content b = tagged tag data @ rest" "length data < 2 ^ 31"
  shows "\<exists>b'. evtag_unmarshal_fixed malloc b tag (length data) = Some (0, Some data, b') \<and> tag_ready malloc b' \<and> evbuffer_content b' = rest"
proof -
  obtain b1 where b1: "evtag_unmarshal_header malloc b = Some (int (length data), Some tag, b1)" "tag_ready malloc b1"
      "evbuffer_content b1 = data @ rest" using unmarshal_header_ok[OF assms] by blast
  have wf: "evbuffer_wf b1" "\<not> freeze_start b1" using b1(2) by (simp_all add: tag_ready_def)
  from evbuffer_remove_ok[OF wf, of "length data"] b1(2,3) obtain r b2 where
    "evbuffer_remove b1 (length data) = Some (r, data, b2)" "tag_ready malloc b2" "evbuffer_content b2 = rest"
    by (auto simp: tag_ready_def same_settings_def)
  then show ?thesis using b1(1) by (simp add: evtag_unmarshal_fixed_def)
qed

section \<open>Round trips\<close>

text \<open>A row of values written one after another, and read back one after another into new buffers.\<close>

fun marshal_all :: "allocator \<Rightarrow> evbuffer \<Rightarrow> (u32 \<times> byte list) list \<Rightarrow> evbuffer option" where
  "marshal_all malloc b [] = Some b"
| "marshal_all malloc b ((tag, data) # ms) = do { b1 \<leftarrow> evtag_marshal malloc b tag data; marshal_all malloc b1 ms }"

fun unmarshal_all :: "allocator \<Rightarrow> evbuffer \<Rightarrow> nat \<Rightarrow> ((int \<times> u32 option \<times> byte list) list \<times> evbuffer) option" where
  "unmarshal_all malloc src 0 = Some ([], src)"
| "unmarshal_all malloc src (Suc n) = do {
     (r, tag, src1, dst) \<leftarrow> evtag_unmarshal malloc src evbuffer_new;
     (ms, src2) \<leftarrow> unmarshal_all malloc src1 n;
     Some ((r, tag, evbuffer_content dst) # ms, src2)
   }"

lemma marshal_all_ok:
  assumes "tag_ready malloc b" "list_all (\<lambda>(tag, data). length data < 2 ^ 31) ms"
  shows "\<exists>b'. marshal_all malloc b ms = Some b' \<and> tag_ready malloc b' \<and>
     evbuffer_content b' = evbuffer_content b @ concat (map (\<lambda>(tag, data). tagged tag data) ms)"
  using assms
proof (induction ms arbitrary: b)
  case (Cons m ms)
  obtain tag data where m: "m = (tag, data)" by fastforce
  obtain b1 where "evtag_marshal malloc b tag data = Some b1" "tag_ready malloc b1" "evbuffer_content b1 = evbuffer_content b @ tagged tag data"
    using evtag_marshal_ok[OF Cons.prems(1), of data tag] Cons.prems(2) m by auto
  then show ?case using Cons.IH[of b1] Cons.prems(2) m by auto
qed simp

lemma evbuffer_new_ready: "(\<forall>n. malloc n \<noteq> None) \<Longrightarrow> tag_ready malloc evbuffer_new \<and> evbuffer_content evbuffer_new = []"
  by (simp add: tag_ready_def evbuffer_new_def evbuffer_wf_def lwd_ok_def evbuffer_tight_def evbuffer_plain_def evbuffer_content_def)

lemma unmarshal_all_ok:
  assumes "tag_ready malloc src" "list_all (\<lambda>(tag, data). length data < 2 ^ 31) ms"
    "evbuffer_content src = concat (map (\<lambda>(tag, data). tagged tag data) ms) @ rest"
  shows "\<exists>src'. unmarshal_all malloc src (length ms) = Some (map (\<lambda>(tag, data). (int (length data), Some tag, data)) ms, src') \<and>
     evbuffer_content src' = rest"
  using assms
proof (induction ms arbitrary: src)
  case (Cons m ms)
  obtain tag data where m: "m = (tag, data)" by fastforce
  have new: "tag_ready malloc evbuffer_new" "evbuffer_content evbuffer_new = []"
    using evbuffer_new_ready[of malloc] Cons.prems(1) by (simp_all add: tag_ready_def)
  obtain src1 dst where
    "evtag_unmarshal malloc src evbuffer_new = Some (int (length data), Some tag, src1, dst)" "tag_ready malloc src1"
    "evbuffer_content src1 = concat (map (\<lambda>(tag, data). tagged tag data) ms) @ rest" "evbuffer_content dst = data"
    using evtag_unmarshal_ok[OF Cons.prems(1) new(1), of tag data] Cons.prems(2,3) m new(2) by auto
  then show ?case using Cons.IH[of src1] Cons.prems(2) m by auto
qed simp


text \<open>
  C19: A row of tagged values that \<open>evtag_marshal\<close> wrote into an empty buffer is read back by
  \<open>evtag_unmarshal\<close> exactly: every tag, length and data, in order, with nothing left over (for data
  shorter than \<open>2^31\<close> bytes, while no allocation fails).
\<close>

theorem evtag_stream_roundtrip:
  assumes "tag_ready malloc b" "evbuffer_content b = []" "list_all (\<lambda>(tag, data). length data < 2 ^ 31) ms"
  shows "\<exists>b1 b2. marshal_all malloc b ms = Some b1 \<and>
     unmarshal_all malloc b1 (length ms) = Some (map (\<lambda>(tag, data). (int (length data), Some tag, data)) ms, b2) \<and>
     evbuffer_content b2 = []"
proof -
  from marshal_all_ok[OF assms(1,3)] assms(2) obtain b1 where
    "marshal_all malloc b ms = Some b1" "tag_ready malloc b1" "evbuffer_content b1 = concat (map (\<lambda>(tag, data). tagged tag data) ms)"
    by auto
  then show ?thesis using unmarshal_all_ok[OF _ assms(3), of malloc b1 "[]"] by simp
qed

theorem evtag_stream_roundtrip_witness:
  "\<exists>b1 b2. marshal_all (\<lambda>n. Some n) evbuffer_new [(0x166, [1, 2]), (7, [])] = Some b1 \<and>
     unmarshal_all (\<lambda>n. Some n) b1 (Suc (Suc 0)) = Some ([(2, Some 0x166, [1, 2]), (0, Some 7, [])], b2) \<and> evbuffer_content b2 = []"
  using evtag_stream_roundtrip[of "\<lambda>n. Some n" evbuffer_new "[(0x166, [1, 2]), (7, [])]"] evbuffer_new_ready[of "\<lambda>n. Some n"]
  by (simp del: unmarshal_all.simps marshal_all.simps)

text \<open>
  C20: An integer that \<open>evtag_marshal_int\<close> or \<open>evtag_marshal_int64\<close> wrote is read back by
  \<open>evtag_unmarshal_int\<close> or \<open>evtag_unmarshal_int64\<close> with the same tag, for every value of either width,
  and the untagged codes \<open>evtag_encode_int\<close> and \<open>evtag_encode_int64\<close> are read back likewise.
\<close>

theorem evtag_int_roundtrip:
  assumes "tag_ready malloc b" "evbuffer_content b = []"
  shows "(\<exists>b1 b2 k. evtag_marshal_int malloc b tag n = Some b1 \<and> evtag_unmarshal_int malloc b1 tag = Some (k, Some n, b2) \<and>
            1 \<le> k \<and> k \<le> 5 \<and> evbuffer_content b2 = []) \<and>
         (\<exists>b1 b2 k. evtag_marshal_int64 malloc b tag m = Some b1 \<and> evtag_unmarshal_int64 malloc b1 tag = Some (k, Some m, b2) \<and>
            1 \<le> k \<and> k \<le> 9 \<and> evbuffer_content b2 = []) \<and>
         (\<exists>b1 b2. evtag_encode_int malloc b n = Some b1 \<and> evtag_decode_int malloc b1 = Some (0, Some n, b2) \<and> evbuffer_content b2 = []) \<and>
         (\<exists>b1 b2. evtag_encode_int64 malloc b m = Some b1 \<and> evtag_decode_int64 malloc b1 = Some (0, Some m, b2) \<and> evbuffer_content b2 = [])"
proof (intro conjI)
  note L = int_code_length(1,2)[of n] int_code_length(3,4)[of m]
  obtain b1 where b1: "evtag_marshal malloc b tag (int_code n) = Some b1" "tag_ready malloc b1" "evbuffer_content b1 = tagged tag (int_code n) @ []"
    using evtag_marshal_ok[OF assms(1), of "int_code n" tag] L assms(2) by auto
  show "\<exists>b1 b2 k. evtag_marshal_int malloc b tag n = Some b1 \<and> evtag_unmarshal_int malloc b1 tag = Some (k, Some n, b2) \<and>
           1 \<le> k \<and> k \<le> 5 \<and> evbuffer_content b2 = []"
    using unmarshal_int_with_ok[OF b1(2,3), of "length (int_code n)" "\<lambda>b. decode_int_internal malloc b 0" n] decode_int_ok[of malloc _ 0 n "[]"] b1(1) L
    by (auto simp: evtag_marshal_int_eq evtag_unmarshal_int_def)
  obtain b2 where b2: "evtag_marshal malloc b tag (int_code m) = Some b2" "tag_ready malloc b2" "evbuffer_content b2 = tagged tag (int_code m) @ []"
    using evtag_marshal_ok[OF assms(1), of "int_code m" tag] L assms(2) by auto
  show "\<exists>b1 b2 k. evtag_marshal_int64 malloc b tag m = Some b1 \<and> evtag_unmarshal_int64 malloc b1 tag = Some (k, Some m, b2) \<and>
           1 \<le> k \<and> k \<le> 9 \<and> evbuffer_content b2 = []"
    using unmarshal_int_with_ok[OF b2(2,3), of "length (int_code m)" "\<lambda>b. decode_int64_internal malloc b 0" m] decode_int64_ok[of malloc _ 0 m "[]"] b2(1) L
    by (auto simp: evtag_marshal_int_eq evtag_unmarshal_int64_def)
  show "\<exists>b1 b2. evtag_encode_int malloc b n = Some b1 \<and> evtag_decode_int malloc b1 = Some (0, Some n, b2) \<and> evbuffer_content b2 = []"
  proof -
    obtain c where c: "add_bytes malloc (int_code n) b = Some c" "tag_ready malloc c" "evbuffer_content c = int_code n @ []"
      using add_bytes_ok[OF assms(1), of "int_code n"] L assms(2) by auto
    from evtag_decode_int_ok[OF c(2,3)] show ?thesis using c(1) by (auto simp: evtag_encode_int_eq)
  qed
  show "\<exists>b1 b2. evtag_encode_int64 malloc b m = Some b1 \<and> evtag_decode_int64 malloc b1 = Some (0, Some m, b2) \<and> evbuffer_content b2 = []"
  proof -
    obtain c where c: "add_bytes malloc (int_code m) b = Some c" "tag_ready malloc c" "evbuffer_content c = int_code m @ []"
      using add_bytes_ok[OF assms(1), of "int_code m"] L assms(2) by auto
    from evtag_decode_int64_ok[OF c(2,3)] show ?thesis using c(1) by (auto simp: evtag_encode_int64_eq)
  qed
qed

theorem evtag_int_roundtrip_witness:
  "\<exists>b1 b2 k. evtag_marshal_int64 (\<lambda>n. Some n) evbuffer_new 5 0xffffffffffffffff = Some b1 \<and>
     evtag_unmarshal_int64 (\<lambda>n. Some n) b1 5 = Some (k, Some 0xffffffffffffffff, b2) \<and> k \<le> 9 \<and> evbuffer_content b2 = []"
  using evtag_int_roundtrip[of "\<lambda>n. Some n" evbuffer_new 5 0 "0xffffffffffffffff"] evbuffer_new_ready[of "\<lambda>n. Some n"] by auto

text \<open>
  A time value whose fields fit in 32 bits, a string, and data of a fixed length survive the round
  trip through \<open>evtag_marshal_timeval\<close>, \<open>evtag_marshal_string\<close> and \<open>evtag_marshal\<close>; the string comes
  back up to its terminating zero.
\<close>

theorem evtag_value_roundtrip:
  assumes "tag_ready malloc b" "evbuffer_content b = []" "length data < 2 ^ 31" "0 \<notin> set data"
    and "0 \<le> tv_sec tv" "tv_sec tv < 2 ^ 32" "0 \<le> tv_usec tv" "tv_usec tv < 2 ^ 32"
  shows "(\<exists>b1 b2. evtag_marshal_timeval malloc b tag tv = Some b1 \<and>
            evtag_unmarshal_timeval malloc b1 tag = Some (0, Some (tv_sec tv), Some (tv_usec tv), b2) \<and> evbuffer_content b2 = []) \<and>
         (\<exists>b1 b2. evtag_marshal_string malloc b tag (data @ 0 # junk) = Some b1 \<and>
            evtag_unmarshal_string malloc b1 tag = Some (0, Some (data @ [0]), b2) \<and> evbuffer_content b2 = []) \<and>
         (\<exists>b1 b2. evtag_marshal malloc b tag data = Some b1 \<and>
            evtag_unmarshal_fixed malloc b1 tag (length data) = Some (0, Some data, b2) \<and> evbuffer_content b2 = [])"
proof (intro conjI)
  have M: "\<exists>b1. evtag_marshal malloc b tag d = Some b1 \<and> tag_ready malloc b1 \<and> evbuffer_content b1 = tagged tag d @ []"
    if "length d < 2 ^ 31" for d using evtag_marshal_ok[OF assms(1), of d tag] that assms(2) by simp
  define s u :: u32 where "s = word_of_int (tv_sec tv)" and "u = word_of_int (tv_usec tv)"
  have su: "uint s = tv_sec tv" "uint u = tv_usec tv" using assms(5-8) by (simp_all add: s_def u_def unsigned_of_int take_bit_int_eq_self)
  obtain b1 where b1: "evtag_marshal malloc b tag (int_code s @ int_code u) = Some b1" "tag_ready malloc b1"
      "evbuffer_content b1 = tagged tag (int_code s @ int_code u) @ []"
    using M[of "int_code s @ int_code u"] int_code_length(2)[of s] int_code_length(2)[of u] by auto
  show "\<exists>b1 b2. evtag_marshal_timeval malloc b tag tv = Some b1 \<and>
      evtag_unmarshal_timeval malloc b1 tag = Some (0, Some (tv_sec tv), Some (tv_usec tv), b2) \<and> evbuffer_content b2 = []"
    using evtag_unmarshal_timeval_ok[OF b1(2,3)] b1(1) su by (auto simp: evtag_marshal_timeval_eq s_def[symmetric] u_def[symmetric])
  have str: "takeWhile (\<lambda>c. c \<noteq> 0) (data @ 0 # junk) = data" using assms(4) by (subst takeWhile_append2) auto
  obtain b2 where b2: "evtag_marshal malloc b tag data = Some b2" "tag_ready malloc b2" "evbuffer_content b2 = tagged tag data @ []"
    using M[OF assms(3)] by blast
  show "\<exists>b1 b2. evtag_marshal_string malloc b tag (data @ 0 # junk) = Some b1 \<and>
      evtag_unmarshal_string malloc b1 tag = Some (0, Some (data @ [0]), b2) \<and> evbuffer_content b2 = []"
    using evtag_unmarshal_string_ok[OF b2(2,3) assms(3)] b2(1) str by (auto simp: evtag_marshal_string_def)
  show "\<exists>b1 b2. evtag_marshal malloc b tag data = Some b1 \<and>
      evtag_unmarshal_fixed malloc b1 tag (length data) = Some (0, Some data, b2) \<and> evbuffer_content b2 = []"
    using evtag_unmarshal_fixed_ok[OF b2(2,3) assms(3)] b2(1) by auto
qed

text \<open>
  A tag of more than five bytes is not rejected: on a buffer that starts with five bytes that have
  the continuation bit and holds a sixth, the decoder goes on past the bytes it made contiguous and
  past the width of its number, which the language leaves undefined.
\<close>

theorem evtag_decode_tag_overlong:
  assumes "tag_ready malloc b" "5 < length (evbuffer_content b)" "list_all (\<lambda>c. c AND 0x80 \<noteq> 0) (take 5 (evbuffer_content b))"
  shows "evtag_decode_tag malloc b = None \<and> evtag_peek malloc b = None \<and> evtag_unmarshal_header malloc b = None"
proof -
  define bs where "bs = evbuffer_content b"
  have long: "decode_tag_loop bs left n s c = None"
    if "list_all (\<lambda>c. c AND 0x80 \<noteq> 0) (take k bs)" "k < left" "32 \<le> s + 7 * k" "left = length bs" for bs left n s c k
    using that
  proof (induction k arbitrary: bs left n s c)
    case 0
    then show ?case by (cases bs) auto
  next
    case (Suc k)
    then show ?case by (cases bs) (auto simp: Let_def)
  qed
  have "decode_tag_loop bs (length bs) 0 0 0 = None"
    using assms(2,3) long[of 5 bs "length bs" 0 0 0] by (simp add: bs_def)
  then have "decode_tag_internal malloc b d = None" for d
    using decode_tag_internal_ok[OF assms(1), of d] by (auto simp: bs_def)
  then show ?thesis by (simp add: evtag_decode_tag_def evtag_peek_def evtag_unmarshal_header_def)
qed

text \<open>
  \<open>evtag_peek\<close>, \<open>evtag_payload_length\<close> and \<open>evtag_peek_length\<close> report the tag, the length of the
  data and the length of the whole value at the front of a buffer without changing what it holds, and
  \<open>evtag_consume\<close> removes exactly that value.
\<close>

lemma evtag_lengths_correct:
  assumes "tag_ready malloc b" "evbuffer_content b = tagged tag data @ rest" "length data < 2 ^ 31"
  shows "(\<exists>k b'. evtag_peek malloc b = Some (k, Some tag, b') \<and> evbuffer_content b' = evbuffer_content b) \<and>
         (\<exists>b'. evtag_payload_length malloc b = Some (0, Some (of_nat (length data)), b') \<and> evbuffer_content b' = evbuffer_content b) \<and>
         (\<exists>b'. evtag_peek_length malloc b = Some (0, Some (of_nat (length (tagged tag data))), b') \<and> evbuffer_content b' = evbuffer_content b) \<and>
         (\<exists>b'. evtag_consume malloc b = Some (0, b') \<and> evbuffer_content b' = rest)"
proof -
  define n :: u32 where "n = of_nat (length data)"
  have c: "evbuffer_content b = encode_tag_loop tag @ (int_code n @ data @ rest)" using assms(2) by (simp add: tagged_def n_def)
  obtain b1 where b1: "decode_tag_internal malloc b False = Some (int (length (encode_tag_loop tag)), Some tag, b1)" "tag_ready malloc b1"
      "evbuffer_content b1 = evbuffer_content b" using decode_tag_ok[OF assms(1) c, of False] by auto
  obtain b2 where b2: "decode_int_internal malloc b1 (length (encode_tag_loop tag)) = Some (int (length (int_code n)), Some n, b2)"
      "tag_ready malloc b2" "evbuffer_content b2 = evbuffer_content b"
    using decode_int_ok[OF b1(2), of "length (encode_tag_loop tag)" n "data @ rest"] tag_length(2)[of tag] c b1(3) by auto
  obtain b3 where b3: "evtag_unmarshal_header malloc b = Some (int (length data), Some tag, b3)" "tag_ready malloc b3" "evbuffer_content b3 = data @ rest"
    using unmarshal_header_ok[OF assms] by blast
  obtain b4 where b4: "evbuffer_drain b3 (length data) = Some (0, b4)" "evbuffer_content b4 = rest"
    using evb.drain[OF b3(2), of "length data"] b3(3) by auto
  have sz: "size_of_int (int (length data)) = length data" using assms(3) by (intro size_of_int_small) simp
  have "evtag_peek malloc b = Some (int (length (encode_tag_loop tag)), Some tag, b1)" using b1(1) by (simp add: evtag_peek_def)
  moreover have "evtag_payload_length malloc b = Some (0, Some n, b2)" using b1(1) b2(1) by (simp add: evtag_payload_length_def)
  moreover have "evtag_peek_length malloc b = Some (0, Some (of_nat (length (tagged tag data))), b2)"
    using b1(1) b2(1) by (simp add: evtag_peek_length_def tagged_def n_def ac_simps)
  moreover have "evtag_consume malloc b = Some (0, b4)" using b3(1) b4(1) sz by (simp add: evtag_consume_def)
  ultimately show ?thesis using b1(3) b2(3) b4(2) by (auto simp: n_def)
qed

end
