(* ===== verification/Http_Uri_Correct.thy ===== *)
theory Http_Uri_Correct
  imports Http_Uri Event_Tagging
begin

text \<open>
  Correctness of the URI functions: what is encoded is decoded, a well-formed URI that is put together is parsed
  back, and what the parser accepts is well formed.
\<close>

section \<open>Writing text into a buffer\<close>

text \<open>A buffer that can be written to while memory lasts, and that is not shared out of existence.\<close>

definition text_ready :: "allocator \<Rightarrow> evbuffer \<Rightarrow> bool" where
  "text_ready malloc b \<longleftrightarrow> tag_ready malloc b \<and> 0 < refcnt b"

lemma text_ready_new: "(\<And>n. malloc n \<noteq> None) \<Longrightarrow> text_ready malloc evbuffer_new"
  using evbuffer_new_ready[of malloc] by (simp add: text_ready_def evbuffer_new_def)

lemma text_ready_add:
  assumes "text_ready malloc b" "length bs \<le> 2 ^ 32"
  shows "\<exists>b'. evbuffer_add malloc b bs = Some (0, b') \<and> text_ready malloc b' \<and> evbuffer_content b' = evbuffer_content b @ bs"
proof -
  have b: "evbuffer_wf b" "evbuffer_tight b" "\<not> freeze_end b" "\<And>n. malloc n \<noteq> None" "0 < refcnt b"
    "bs \<noteq> [] \<or> chains b = [] \<or> \<not> ch_has EVBUFFER_IMMUTABLE (last (chains b))"
    using assms(1) by (auto simp: text_ready_def tag_ready_def evbuffer_plain_def)
  obtain r b' where A: "evbuffer_add malloc b bs = Some (r, b')" "add_outcome malloc b bs r b'"
    using evbuffer_add_ok[OF b(1-3) small_limit[OF assms(2)] b(6), of malloc] by blast
  have "r = 0" "evbuffer_content b' = evbuffer_content b @ bs"
    using A(2) b(4) by (auto simp: add_outcome_def)
  moreover have "text_ready malloc b'"
    using A(2) assms(1) by (auto simp: add_outcome_def text_ready_def tag_ready_def same_settings_def)
  ultimately show ?thesis
    using A(1) by simp
qed

lemma text_ready_printf:
  assumes "text_ready malloc b" "bs \<noteq> []" "length bs \<le> 2 ^ 31 - 2"
  shows "\<exists>b'. evbuffer_add_printf malloc b bs = Some (int (length bs), b') \<and> text_ready malloc b' \<and>
           evbuffer_content b' = evbuffer_content b @ bs"
proof -
  have b: "evbuffer_wf b" "evbuffer_tight b" "\<not> freeze_end b" "\<And>n. malloc n \<noteq> None"
    using assms(1) by (auto simp: text_ready_def tag_ready_def)
  obtain b' where A: "evbuffer_add_printf malloc b bs = Some (int (length bs), b')"
      "printf_outcome malloc b bs (int (length bs)) b'" "evbuffer_tight b'"
    using evbuffer_add_vprintf_tight[where malloc = malloc, OF b(1-3) assms(2,3) b(4)] unfolding evbuffer_add_printf_def by blast
  moreover have "text_ready malloc b'"
    using A(2,3) assms(1) by (auto simp: printf_outcome_def text_ready_def tag_ready_def same_settings_def)
  ultimately show ?thesis
    by (auto simp: printf_outcome_def)
qed

lemma text_ready_take_all:
  assumes "text_ready malloc b" "length (evbuffer_content b) < 2 ^ 31"
  shows "\<exists>r b'. evbuffer_remove b (evbuffer_get_length b) = Some (r, evbuffer_content b, b') \<and> evbuffer_free b' \<noteq> None"
proof -
  have b: "evbuffer_wf b" "\<not> freeze_start b" "0 < refcnt b"
    using assms(1) by (auto simp: text_ready_def tag_ready_def)
  have len: "evbuffer_get_length b = length (evbuffer_content b)"
    using b by (simp add: evbuffer_get_length_def length_evbuffer_content)
  obtain r b' where R: "evbuffer_remove b (evbuffer_get_length b) = Some (r, evbuffer_content b, b')" "same_settings b b'"
    using evbuffer_remove_ok[OF b(1,2), of "evbuffer_get_length b"] len by auto
  then have "evbuffer_free b' \<noteq> None"
    using b(3) by (simp add: evbuffer_free_def evbuffer_decref_and_unlock_def same_settings_def Let_def)
  then show ?thesis
    using R(1) by blast
qed

lemma of_to_bytes [simp]: "of_bytes (to_bytes s) = s"
  by (induction s) (simp_all add: of_bytes_def to_bytes_def)

lemma to_bytes_simps [simp]:
  "to_bytes (s @ t) = to_bytes s @ to_bytes t" "length (to_bytes s) = length s" "to_bytes s = [] \<longleftrightarrow> s = []" "to_bytes [] = []"
  by (simp_all add: to_bytes_def)

section \<open>Encoding and decoding\<close>

text \<open>The characters that are written for one character.\<close>

definition uri_encoded :: "bool \<Rightarrow> char \<Rightarrow> string" where
  "uri_encoded space_as_plus c =
     (if CHAR_IS_UNRESERVED c then [c] else if c = CHR '' '' \<and> space_as_plus then ''+'' else percent_X c)"

definition uri_encode :: "bool \<Rightarrow> string \<Rightarrow> string" where
  "uri_encode space_as_plus s = concat (map (uri_encoded space_as_plus) s)"

lemma length_uri_encoded: "uri_encoded p c \<noteq> []" "length (uri_encoded p c) \<le> 3"
  by (simp_all add: uri_encoded_def percent_X_def)

lemma length_uri_encode: "length (uri_encode p s) \<le> 3 * length s"
proof (induction s)
  case (Cons c s)
  then show ?case
    using length_uri_encoded(2)[of p c] by (simp add: uri_encode_def)
qed (simp add: uri_encode_def)

lemma uriencode_char_ok:
  assumes "text_ready malloc b"
  shows "\<exists>b'. uriencode_char malloc p c b = Some b' \<and> text_ready malloc b' \<and>
           evbuffer_content b' = evbuffer_content b @ to_bytes (uri_encoded p c)"
proof -
  have "length (to_bytes (uri_encoded p c)) \<le> 2 ^ 31 - 2" "to_bytes (uri_encoded p c) \<noteq> []"
    "length (to_bytes (uri_encoded p c)) \<le> 2 ^ 32"
    using length_uri_encoded[of p c] by simp_all
  then show ?thesis
    using text_ready_add[OF assms, of "to_bytes (uri_encoded p c)"] text_ready_printf[OF assms, of "to_bytes (uri_encoded p c)"]
    by (auto simp: uriencode_char_def uri_encoded_def)
qed

lemma uriencode_loop_ok:
  assumes "text_ready malloc b"
  shows "\<exists>b'. uriencode_loop malloc p s b = Some b' \<and> text_ready malloc b' \<and>
           evbuffer_content b' = evbuffer_content b @ to_bytes (uri_encode p s)"
  using assms
proof (induction s arbitrary: b)
  case (Cons c s)
  obtain b1 where b1: "uriencode_char malloc p c b = Some b1" "text_ready malloc b1"
    "evbuffer_content b1 = evbuffer_content b @ to_bytes (uri_encoded p c)"
    using uriencode_char_ok[OF Cons.prems] by blast
  obtain b2 where "uriencode_loop malloc p s b1 = Some b2" "text_ready malloc b2"
    "evbuffer_content b2 = evbuffer_content b1 @ to_bytes (uri_encode p s)"
    using Cons.IH[OF b1(2)] by blast
  then show ?case
    using b1 by (simp add: uri_encode_def)
qed (simp add: uri_encode_def)

definition encode_input :: "string \<Rightarrow> int \<Rightarrow> string" where
  "encode_input uri len = (if len \<ge> 0 then take (nat len) uri else takeWhile (\<lambda>c. c \<noteq> NUL) uri)"

lemma evhttp_uriencode_ok:
  assumes "\<And>n. malloc n \<noteq> None" "3 * length (encode_input uri len) + 1 < 2 ^ 31"
  shows "evhttp_uriencode malloc uri len p = Some (Some (uri_encode p (encode_input uri len) @ [NUL]))"
proof -
  let ?t = "encode_input uri len"
  obtain b1 where b1: "uriencode_loop malloc p ?t evbuffer_new = Some b1" "text_ready malloc b1"
    "evbuffer_content b1 = evbuffer_content evbuffer_new @ to_bytes (uri_encode p ?t)"
    using uriencode_loop_ok[OF text_ready_new[where malloc = malloc, OF assms(1)], of p ?t] by blast
  obtain b2 where b2: "evbuffer_add malloc b1 (to_bytes [NUL]) = Some (0, b2)" "text_ready malloc b2"
    "evbuffer_content b2 = evbuffer_content b1 @ to_bytes [NUL]"
    using text_ready_add[OF b1(2), of "to_bytes [NUL]"] by auto
  have new: "evbuffer_content evbuffer_new = []"
    using evbuffer_new_ready[of malloc] assms(1) by blast
  then have c: "evbuffer_content b2 = to_bytes (uri_encode p ?t @ [NUL])"
    using b1(3) b2(3) by simp
  moreover have "length (uri_encode p ?t @ [NUL]) < 2 ^ 31"
    using length_uri_encode[of p ?t] assms(2) by simp
  ultimately obtain r b3 where "evbuffer_remove b2 (evbuffer_get_length b2) = Some (r, evbuffer_content b2, b3)"
    "evbuffer_free b3 \<noteq> None"
    using text_ready_take_all[OF b2(2)] by auto
  then obtain x where "evbuffer_remove b2 (evbuffer_get_length b2) = Some (r, evbuffer_content b2, b3)" "evbuffer_free b3 = Some x"
    by blast
  moreover obtain m m' where "malloc sizeof_evbuffer = Some m" "malloc (evbuffer_get_length b2) = Some m'"
    using assms(1) by blast
  ultimately show ?thesis
    using b1(1) b2(1) c by (simp add: evhttp_uriencode_def encode_input_def Let_def del: to_bytes_simps)
qed

text \<open>The digits of a percent sign are read back.\<close>

lemma hex_digit_facts:
  assumes "d < 16"
  shows "EVUTIL_ISXDIGIT (''0123456789ABCDEF'' ! d)" "digit_val (''0123456789ABCDEF'' ! d) = d"
proof -
  have "list_all (\<lambda>d. EVUTIL_ISXDIGIT (''0123456789ABCDEF'' ! d) \<and> digit_val (''0123456789ABCDEF'' ! d) = d) [0..<16]"
    by code_simp
  then have "\<forall>d \<in> set [0..<16]. EVUTIL_ISXDIGIT (''0123456789ABCDEF'' ! d) \<and> digit_val (''0123456789ABCDEF'' ! d) = d"
    by (simp only: list.pred_set)
  then show "EVUTIL_ISXDIGIT (''0123456789ABCDEF'' ! d)" "digit_val (''0123456789ABCDEF'' ! d) = d"
    using assms by (simp_all only: set_upt atLeastLessThan_iff simp_thms zero_le Ball_def)
qed

lemma strtol16_two_digits:
  assumes "EVUTIL_ISXDIGIT a" "EVUTIL_ISXDIGIT b" "digit_val a < 16" "digit_val b < 16"
  shows "fst (strtol16 [a, b]) = int (digit_val a * 16 + digit_val b)"
proof -
  have "read_sign (skip_blanks [a, b]) = (False, [a, b])"
    using assms by (intro read_number_start) simp_all
  moreover have "b \<noteq> CHR ''x''" "b \<noteq> CHR ''X''"
    using assms(2) by (auto simp: class_iffs)
  ultimately show ?thesis
    using assms by (simp add: strtol16_def char_at_def digits_val_def clamp_long_def)
qed

lemma percent_X_facts:
  obtains a b where "percent_X c = [CHR ''%'', a, b]" "EVUTIL_ISXDIGIT a" "EVUTIL_ISXDIGIT b"
    "char_of (nat (fst (strtol16 [a, b]))) = c"
proof -
  let ?n = "of_char c :: nat"
  let ?a = "''0123456789ABCDEF'' ! (?n div 16)" and ?b = "''0123456789ABCDEF'' ! (?n mod 16)"
  have n: "?n div 16 < 16" "?n mod 16 < 16"
    using nat_of_char_less_256[of c] less_mult_imp_div_less[of ?n 16 16] by simp_all
  note H = n[THEN hex_digit_facts(1)] n[THEN hex_digit_facts(2)]
  have "fst (strtol16 [?a, ?b]) = int (?n div 16 * 16 + ?n mod 16)"
    using strtol16_two_digits[OF H(1,2)] n unfolding H by blast
  then have "char_of (nat (fst (strtol16 [?a, ?b]))) = c"
    by (simp only: div_mult_mod_eq nat_int char_of_char)
  with H show ?thesis
    by (intro that[of ?a ?b]) (simp_all add: percent_X_def)
qed

lemma reserved_chars:
  "\<not> CHAR_IS_UNRESERVED CHR ''%''" "\<not> CHAR_IS_UNRESERVED CHR ''+''" "\<not> CHAR_IS_UNRESERVED CHR ''?''"
  "\<not> CHAR_IS_UNRESERVED CHR ''#''" "\<not> CHAR_IS_UNRESERVED CHR ''/''" "\<not> CHAR_IS_UNRESERVED CHR ''@''"
  "\<not> CHAR_IS_UNRESERVED CHR '':''" "\<not> CHAR_IS_UNRESERVED CHR ''[''" "\<not> CHAR_IS_UNRESERVED CHR '']''"
  "\<not> CHAR_IS_UNRESERVED NUL" "\<not> CHAR_IS_UNRESERVED CHR '' ''" "\<not> CHAR_IS_UNRESERVED CHR ''&''" "\<not> CHAR_IS_UNRESERVED CHR ''=''"
  by code_simp+

lemma char_at_simps [simp]:
  "char_at (c # s) 0 = c" "char_at (c # s) (Suc i) = char_at s i"
  by (simp_all add: char_at_def)

lemma char_at_numeral [simp]: "char_at (c # s) (numeral k) = char_at s (pred_numeral k)"
  by (simp add: char_at_def numeral_eq_Suc)

text \<open>The loop ends at the end of the string and needs no more characters than there are.\<close>

lemma decode_encoded:
  assumes "p \<longrightarrow> decode_plus"
  shows "decode_uri_loop (uri_encoded p c @ rest) (length (uri_encoded p c) + n) decode_plus ctl =
         c # decode_uri_loop rest n decode_plus ctl"
proof -
  consider "CHAR_IS_UNRESERVED c" | "\<not> CHAR_IS_UNRESERVED c" "c = CHR '' ''" p
    | "\<not> CHAR_IS_UNRESERVED c" "\<not> (c = CHR '' '' \<and> p)"
    by blast
  then show ?thesis
  proof cases
    case 1
    then have "c \<noteq> CHR ''?''" "c \<noteq> CHR ''+''" "c \<noteq> CHR ''%''"
      using reserved_chars by metis+
    then show ?thesis
      using 1 by (simp add: uri_encoded_def decode_uri_loop.simps[of "c # rest"])
  next
    case 2
    then show ?thesis
      using assms by (simp add: uri_encoded_def decode_uri_loop.simps[of "CHR ''+'' # rest"])
  next
    case 3
    obtain a b where "percent_X c = [CHR ''%'', a, b]" "EVUTIL_ISXDIGIT a" "EVUTIL_ISXDIGIT b"
      "char_of (nat (fst (strtol16 [a, b]))) = c"
      by (rule percent_X_facts)
    moreover have "uri_encoded p c = percent_X c"
      using 3 by (auto simp: uri_encoded_def)
    ultimately show ?thesis
      by (simp add: decode_uri_loop.simps[of "CHR ''%'' # a # b # rest"])
  qed
qed

lemma decode_encode:
  assumes "p \<longrightarrow> decode_plus"
  shows "decode_uri_loop (uri_encode p s) (length (uri_encode p s)) decode_plus ctl = s"
proof (induction s)
  case Nil
  show ?case
    by (simp add: uri_encode_def decode_uri_loop.simps)
next
  case (Cons c s)
  then show ?case
    using decode_encoded[OF assms, of c "uri_encode p s" "length (uri_encode p s)" ctl] by (simp add: uri_encode_def)
qed

lemma uri_encode_chars:
  assumes "c \<in> set (uri_encode p s)"
  shows "CHAR_IS_UNRESERVED c \<or> c = CHR ''%'' \<or> c = CHR ''+'' \<and> p \<or> EVUTIL_ISXDIGIT c"
proof -
  obtain d where "c \<in> set (uri_encoded p d)"
    using assms by (auto simp: uri_encode_def)
  moreover obtain a b where "percent_X d = [CHR ''%'', a, b]" "EVUTIL_ISXDIGIT a" "EVUTIL_ISXDIGIT b"
    "char_of (nat (fst (strtol16 [a, b]))) = d"
    by (rule percent_X_facts)
  ultimately show ?thesis
    by (auto simp: uri_encoded_def split: if_splits)
qed

text \<open>The unreserved characters, and the characters that separate the parts of a URI.\<close>

lemma nth_map_upt_0: "i < n \<Longrightarrow> map f [0..<n] ! i = f i"
  by simp

lemma unreserved_iff:
  "CHAR_IS_UNRESERVED c \<longleftrightarrow> EVUTIL_ISALNUM c \<or> c \<in> {CHR ''-'', CHR ''.'', CHR ''_'', CHR ''~''}"
proof -
  let ?ok = "\<lambda>n :: nat. n = 45 \<or> n = 46 \<or> n = 95 \<or> n = 126 \<or> 48 \<le> n \<and> n \<le> 57 \<or> 65 \<le> n \<and> n \<le> 90 \<or> 97 \<le> n \<and> n \<le> 122"
  have "uri_chars = map (\<lambda>n. if ?ok n then 1 else 0) [0..<256]"
    by code_simp
  then have *: "(uri_chars ! of_char c \<noteq> 0) = ?ok (of_char c)"
    using nth_map_upt_0[OF nat_of_char_less_256[of c], of "\<lambda>n. if ?ok n then 1 else 0 :: nat"] by (simp del: upt_rec_numeral)
  have code: "of_char c = (of_char d :: nat) \<longleftrightarrow> c = d" for d :: char
    by simp
  have "of_char c = (45 :: nat) \<longleftrightarrow> c = CHR ''-''" "of_char c = (46 :: nat) \<longleftrightarrow> c = CHR ''.''"
    "of_char c = (95 :: nat) \<longleftrightarrow> c = CHR ''_''" "of_char c = (126 :: nat) \<longleftrightarrow> c = CHR ''~''"
    using code[of "CHR ''-''"] code[of "CHR ''.''"] code[of "CHR ''_''"] code[of "CHR ''~''"] by simp_all
  then show ?thesis
    unfolding CHAR_IS_UNRESERVED_def * class_iffs by blast
qed

lemma xdigit_unreserved: "EVUTIL_ISXDIGIT c \<Longrightarrow> CHAR_IS_UNRESERVED c"
  by (auto simp: unreserved_iff class_iffs)

lemma subdelims_iff:
  "strchr SUBDELIMS c \<noteq> None \<longleftrightarrow> c = NUL \<or> c \<in> set SUBDELIMS"
proof -
  have "length (takeWhile (\<lambda>x. x \<noteq> c) s) < length s \<longleftrightarrow> c \<in> set s" for s
    by (induction s) auto
  then show ?thesis
    by (simp add: strchr_def Let_def)
qed

text \<open>The characters that separate the parts of a URI from each other, and the percent sign.\<close>

definition gen_delim :: "char \<Rightarrow> bool" where
  "gen_delim c \<longleftrightarrow> c \<in> set '':/?#@[]%''"

lemma delim_not_ok: "gen_delim c \<Longrightarrow> \<not> unreserved_or_subdelim c"
proof -
  have "list_all (\<lambda>c. \<not> unreserved_or_subdelim c) '':/?#@[]%''"
    by code_simp
  then show "gen_delim c \<Longrightarrow> \<not> unreserved_or_subdelim c"
    by (auto simp: gen_delim_def)
qed

lemma ok_not_delim:
  assumes "unreserved_or_subdelim c"
  shows "c \<noteq> CHR '':''" "c \<noteq> CHR ''/''" "c \<noteq> CHR ''?''" "c \<noteq> CHR ''#''" "c \<noteq> CHR ''@''" "c \<noteq> CHR ''[''" "c \<noteq> CHR '']''" "c \<noteq> CHR ''%''"
  using assms delim_not_ok by (auto simp: gen_delim_def)

lemma xdigit_ok: "EVUTIL_ISXDIGIT c \<Longrightarrow> unreserved_or_subdelim c"
  by (simp add: unreserved_or_subdelim_def xdigit_unreserved)

lemmas xdigit_not_delim = ok_not_delim[OF xdigit_ok]

lemma nul_no_xdigit [simp]: "\<not> EVUTIL_ISXDIGIT NUL" "\<not> EVUTIL_ISDIGIT NUL"
  by code_simp+

lemma xdigit_at: "EVUTIL_ISXDIGIT (char_at s i) \<Longrightarrow> i < length s"
  by (auto simp: char_at_def split: if_splits)

section \<open>The characters of an address\<close>

definition address_char :: "char \<Rightarrow> bool" where
  "address_char c \<longleftrightarrow> EVUTIL_ISXDIGIT c \<or> EVUTIL_ISSPACE c \<or> c \<in> set '':.xX+-''"

lemma address_char_facts: "address_char CHR ''.''" "address_char CHR '':''"
  by (simp_all add: address_char_def)

lemma read_sign_chars:
  assumes "read_sign (skip_blanks s) = (neg, r)"
  obtains pre where "s = pre @ r" "list_all address_char pre"
proof -
  have blanks: "s = takeWhile EVUTIL_ISSPACE s @ skip_blanks s" "list_all address_char (takeWhile EVUTIL_ISSPACE s)"
    by (auto simp: skip_blanks_def address_char_def list_all_iff dest: set_takeWhileD)
  have "skip_blanks s = r \<or> (\<exists>c \<in> {CHR ''-'', CHR ''+''}. skip_blanks s = c # r)"
    using assms by (auto simp: read_sign_def split: list.splits if_splits)
  then show ?thesis
  proof (elim disjE bexE)
    assume "skip_blanks s = r"
    then show ?thesis
      using blanks that by metis
  next
    fix c assume "c \<in> {CHR ''-'', CHR ''+''}" "skip_blanks s = c # r"
    then show ?thesis
      using blanks that[of "takeWhile EVUTIL_ISSPACE s @ [c]"] by (auto simp: address_char_def)
  qed
qed

lemma scan_int_chars:
  assumes "scan_int s = Some (v, r)"
  obtains pre where "s = pre @ r" "list_all address_char pre"
proof -
  obtain neg t where t: "read_sign (skip_blanks s) = (neg, t)"
    by (cases "read_sign (skip_blanks s)") blast
  obtain pre where pre: "s = pre @ t" "list_all address_char pre"
    by (rule read_sign_chars[OF t])
  have "r = dropWhile EVUTIL_ISDIGIT t"
    using assms t by (auto simp: scan_int_def strtol10_def Let_def split: if_splits)
  moreover have "list_all address_char (takeWhile EVUTIL_ISDIGIT t)"
    using isdigit_isxdigit by (auto simp: list_all_iff address_char_def dest: set_takeWhileD)
  ultimately show ?thesis
    using pre that[of "pre @ takeWhile EVUTIL_ISDIGIT t"] by simp
qed

lemma sscanf_quad_chars:
  assumes "length (sscanf_quad (Suc k) s) = Suc k"
  shows "list_all address_char s"
  using assms
proof (induction k arbitrary: s)
  case 0
  then obtain v r where scan: "scan_int s = Some (v, r)"
    by (auto split: option.splits)
  obtain pre where "s = pre @ r" "list_all address_char pre"
    by (rule scan_int_chars[OF scan])
  moreover have "r = []"
    using 0 scan by (auto split: list.splits)
  ultimately show ?case
    by simp
next
  case (Suc k)
  then obtain v r where scan: "scan_int s = Some (v, r)"
    by (auto split: option.splits)
  obtain pre where "s = pre @ r" "list_all address_char pre"
    by (rule scan_int_chars[OF scan])
  moreover obtain r' where "r = CHR ''.'' # r'" "length (sscanf_quad (Suc k) r') = Suc k"
    using Suc.prems scan by (auto simp del: sscanf_quad.simps(2) simp: sscanf_quad.simps(2)[of "Suc k"] split: list.splits if_splits)
  ultimately show ?case
    using Suc.IH address_char_facts(1) by (simp del: sscanf_quad.simps)
qed

lemma strtol16_chars:
  assumes "EVUTIL_ISXDIGIT (hd s)" "s \<noteq> []"
  obtains pre where "s = pre @ snd (strtol16 s)" "list_all address_char pre"
proof -
  have start: "read_sign (skip_blanks s) = (False, s)"
    using assms by (intro read_number_start)
  define r' where "r' = (if char_at s 0 = CHR ''0'' \<and> char_at s 1 \<in> {CHR ''x'', CHR ''X''} \<and> EVUTIL_ISXDIGIT (char_at s 2) then drop 2 s else s)"
  have pre: "\<exists>pre. s = pre @ r' \<and> list_all address_char pre"
  proof (cases "r' = s")
    case False
    then have *: "r' = drop 2 s" "char_at s 0 = CHR ''0''" "char_at s 1 \<in> {CHR ''x'', CHR ''X''}" "EVUTIL_ISXDIGIT (char_at s 2)"
      by (auto simp: r'_def split: if_splits)
    then obtain a b t where "s = a # b # t"
      using xdigit_at[OF *(4)] by (cases s; cases "tl s") auto
    then show ?thesis
      using * by (intro exI[of _ "[a, b]"]) (auto simp: address_char_def class_iffs)
  qed auto
  have xs: "list_all address_char (takeWhile EVUTIL_ISXDIGIT r')"
    by (auto simp: list_all_iff address_char_def dest: set_takeWhileD)
  have "snd (strtol16 s) = s \<or> snd (strtol16 s) = dropWhile EVUTIL_ISXDIGIT r'"
    by (auto simp: strtol16_def start r'_def Let_def)
  then show ?thesis
  proof
    assume "snd (strtol16 s) = dropWhile EVUTIL_ISXDIGIT r'"
    moreover obtain pre where "s = pre @ r'" "list_all address_char pre"
      using pre by blast
    ultimately show ?thesis
      using xs that[of "pre @ takeWhile EVUTIL_ISXDIGIT r'"] by simp
  qed (use that[of "[]"] in simp)
qed

text \<open>The loop reads everything before the end of the words.\<close>

lemma pton_loop_chars:
  assumes "pton_loop src eow p i g ws n \<noteq> None" "eow \<le> length src" "p \<le> j" "j < eow"
  shows "address_char (char_at src j)"
  using assms
proof (induction src eow p i g ws n rule: pton_loop.induct)
  case (1 src eow p i g ws n)
  have lt: "p < eow"
    using "1.prems" by simp
  note P = "1.prems"(1)[unfolded pton_loop.simps[of src eow p i g ws n]]
  show ?case
  proof (cases "EVUTIL_ISXDIGIT (char_at src p)")
    case True
    obtain r rest where w: "strtol16 (drop p src) = (r, rest)"
      by (cases "strtol16 (drop p src)") blast
    have ne: "drop p src \<noteq> []" "EVUTIL_ISXDIGIT (hd (drop p src))"
      using lt "1.prems"(2) True by (simp_all add: hd_drop_conv_nth char_at_def)
    obtain pre where pre: "drop p src = pre @ rest" "list_all address_char pre"
      by (rule strtol16_chars[OF ne(2,1)]) (simp add: w)
    define nx where "nx = p + (length (drop p src) - length rest)"
    have nx: "nx = p + length pre"
      by (simp add: nx_def pre)
    have step: "i \<le> 7" "\<not> nx > 4 + p" "nx \<noteq> p" "\<not> (r < 0 \<or> r > 65536)" "\<not> (char_at src nx \<noteq> CHR '':'' \<and> nx \<noteq> eow)"
      "pton_loop src eow (nx + 1) (i + 1) g (ws[i := word_of_int r]) (n + 1) \<noteq> None"
      using P lt True w by (auto simp: Let_def nx_def split: if_splits)
    consider "j < nx" | "j = nx" | "nx + 1 \<le> j"
      by linarith
    then show ?thesis
    proof cases
      case 1
      then have "pre ! (j - p) \<in> set pre"
        using nx \<open>p \<le> j\<close> by simp
      moreover have "char_at src j = pre ! (j - p)"
      proof -
        have "char_at src j = char_at (drop p src) (j - p)"
          using \<open>p \<le> j\<close> by (simp add: char_at_drop)
        then show ?thesis
          using less_diff_conv2[OF \<open>p \<le> j\<close>, of "length pre"] 1 nx by (simp add: pre char_at_def nth_append add.commute)
      qed
      ultimately show ?thesis
        using pre(2) by (simp add: list_all_iff)
    next
      case 2
      then show ?thesis
        using step(5) \<open>j < eow\<close> address_char_facts(2) by auto
    next
      case 3
      then show ?thesis
        using "1.IH"(1)[OF lt _ True refl w[symmetric] nx_def _ step(3,4,5,6)] step(1,2) "1.prems"(2,4) by simp
    qed
  next
    case False
    then have colon: "char_at src p = CHR '':''"
      using P lt by (auto split: if_splits)
    show ?thesis
    proof (cases "i > 0 \<and> g = - 1")
      case once: True
      then have "pton_loop src eow (p + 1) i (int i) ws n \<noteq> None" "\<not> i > 7"
        using P lt False colon by (auto split: if_splits)
      then show ?thesis
        using "1.IH"(2)[OF lt _ False] colon once "1.prems"(2-4) address_char_facts(2) by (cases "j = p") simp_all
    next
      case twice: False
      then have w: "i = 0" "char_at src (p + 1) = CHR '':''" "g = - 1" "pton_loop src eow (p + 2) i (int i) ws n \<noteq> None"
        using P lt False colon by (auto split: if_splits)
      then show ?thesis
        using "1.IH"(3)[OF lt _ False] colon twice "1.prems"(2-4) address_char_facts(2)
        by (cases "j = p"; cases "j = p + 1") simp_all
    qed
  qed
qed

lemma pton_in6_chars:
  assumes "fst (evutil_inet_pton words0 AF_INET6 s) = 1" "c \<in> set s"
  shows "address_char c"
proof -
  have ok: "fst (pton_in6 words0 s) = 1"
    using assms(1) by (simp add: evutil_inet_pton_def)
  obtain j where j: "j < length s" "char_at s j = c"
    using assms(2) by (auto simp: in_set_conv_nth char_at_def)
  have words: "address_char c" if "fst (pton_words dot s eow ws n) = 1" "eow \<le> length s" "j < eow" for dot eow ws n
  proof -
    have "pton_loop s eow 0 0 (- 1) ws n \<noteq> None"
      using that(1) by (auto simp: pton_words_def split: option.splits)
    then show ?thesis
      using pton_loop_chars[of s eow 0 0 "- 1" ws n j] that j(2) by simp
  qed
  show ?thesis
  proof (cases "strchr s CHR ''.''")
    case None
    then show ?thesis
      using words[of False "length s" words0 0] ok j by (simp add: pton_in6_def)
  next
    case (Some dot)
    then have dot: "dot < length s"
      by (auto simp: strchr_def NUL_def Let_def split: if_splits)
    define eow where "eow = dot - length (takeWhile EVUTIL_ISDIGIT (rev (take dot s)))"
    let ?bs = "sscanf_quad 4 (drop eow s)"
    have "length ?bs = 4 \<and> fst (pton_words True s eow (words0[6 := word_of_int (push_bit 8 (?bs ! 0) OR ?bs ! 1),
                               7 := word_of_int (push_bit 8 (?bs ! 2) OR ?bs ! 3)]) 2) = 1"
      using ok Some by (simp add: pton_in6_def Let_def eow_def split: if_splits)
    then have "length ?bs = 4" "j < eow \<Longrightarrow> address_char c"
      using words dot by (auto simp: eow_def)
    moreover have "address_char c" if "\<not> j < eow"
    proof -
      have "list_all address_char (drop eow s)"
        using sscanf_quad_chars[of 3 "drop eow s"] \<open>length ?bs = 4\<close> by (simp del: sscanf_quad.simps)
      moreover have "drop eow s ! (j - eow) = c" "j - eow < length (drop eow s)"
        using that j by (simp_all add: char_at_def)
      ultimately show ?thesis
        by (metis list_all_length)
    qed
    ultimately show ?thesis
      by blast
  qed
qed

section \<open>The text of a URI\<close>

text \<open>The text of RFC 3986, section 5.3, with the host and the port written out.\<close>

definition part_text :: "string \<Rightarrow> string option \<Rightarrow> string" where
  "part_text sep x = (case x of None \<Rightarrow> [] | Some s \<Rightarrow> sep @ s)"

definition scheme_text :: "evhttp_uri \<Rightarrow> string" where
  "scheme_text u = (case scheme u of None \<Rightarrow> [] | Some s \<Rightarrow> s @ '':'')"

definition userinfo_text :: "evhttp_uri \<Rightarrow> string" where
  "userinfo_text u = (case userinfo u of None \<Rightarrow> [] | Some s \<Rightarrow> s @ ''@'')"

definition port_text :: "evhttp_uri \<Rightarrow> string" where
  "port_text u = (if port u < 0 then [] else '':'' @ print_nat 10 (nat (port u)))"

definition authority_text :: "evhttp_uri \<Rightarrow> string \<Rightarrow> string" where
  "authority_text u h = userinfo_text u @ h @ port_text u"

definition tail_text :: "evhttp_uri \<Rightarrow> string" where
  "tail_text u = part_text [] (path u) @ part_text ''?'' (query u) @ part_text ''#'' (fragment u)"

definition uri_text :: "evhttp_uri \<Rightarrow> string" where
  "uri_text u = scheme_text u @ (case host u of None \<Rightarrow> [] | Some h \<Rightarrow> ''//'' @ authority_text u h) @ tail_text u"

text \<open>A step that appends a text to the buffer.\<close>

definition writes :: "allocator \<Rightarrow> string \<Rightarrow> (evbuffer \<Rightarrow> evbuffer option) \<Rightarrow> bool" where
  "writes malloc s f \<longleftrightarrow> (\<forall>b. text_ready malloc b \<longrightarrow>
     (\<exists>b'. f b = Some b' \<and> text_ready malloc b' \<and> evbuffer_content b' = evbuffer_content b @ to_bytes s))"

lemma writesE:
  assumes "writes malloc s f" "text_ready malloc b"
  obtains b' where "f b = Some b'" "text_ready malloc b'" "evbuffer_content b' = evbuffer_content b @ to_bytes s"
  using assms by (auto simp: writes_def)

lemma writes_skip [intro]: "writes malloc [] Some"
  by (simp add: writes_def)

lemma writes_then [intro]:
  assumes "writes malloc s f" "writes malloc t g"
  shows "writes malloc (s @ t) (\<lambda>b. f b \<bind> g)"
proof -
  have "\<exists>b'. f b \<bind> g = Some b' \<and> text_ready malloc b' \<and> evbuffer_content b' = evbuffer_content b @ to_bytes (s @ t)"
    if ready: "text_ready malloc b" for b
  proof -
    obtain b1 where 1: "f b = Some b1" "text_ready malloc b1" "evbuffer_content b1 = evbuffer_content b @ to_bytes s"
      by (rule writesE[OF assms(1) ready])
    obtain b2 where "g b1 = Some b2" "text_ready malloc b2" "evbuffer_content b2 = evbuffer_content b1 @ to_bytes t"
      by (rule writesE[OF assms(2) 1(2)])
    then show ?thesis
      using 1 by simp
  qed
  then show ?thesis
    by (simp add: writes_def)
qed

lemma writes_add: "length s < 2 ^ 31 \<Longrightarrow> writes malloc s (uri_add malloc s)"
  using text_ready_add[of malloc _ "to_bytes s"] by (fastforce simp: writes_def uri_add_def)

lemma writes_printf: "s \<noteq> [] \<Longrightarrow> length s < 2 ^ 31 - 1 \<Longrightarrow> writes malloc s (uri_printf malloc s)"
  using text_ready_printf[of malloc _ "to_bytes s"] by (fastforce simp: writes_def uri_printf_def)

lemma writes_scheme:
  assumes "length (scheme_text u) < 2 ^ 31"
  shows "writes malloc (scheme_text u)
    (\<lambda>b. case scheme u of None \<Rightarrow> Some b | Some s \<Rightarrow> uri_add malloc s b \<bind> uri_add malloc '':'')"
  using assms by (auto simp: scheme_text_def split: option.splits intro!: writes_then writes_add)

lemma writes_part:
  assumes "length (part_text sep x) < 2 ^ 31"
  shows "writes malloc (part_text sep x) (uri_add_opt malloc sep x)"
proof (cases x)
  case None
  have "uri_add_opt malloc sep None = Some"
    by (rule ext) (simp add: uri_add_opt_def)
  then show ?thesis
    using None writes_skip by (simp add: part_text_def)
next
  case (Some s)
  show ?thesis
  proof (cases "sep = []")
    case True
    have "uri_add_opt malloc [] (Some s) = uri_add malloc s"
      by (rule ext) (simp add: uri_add_opt_def)
    then show ?thesis
      using True assms Some writes_add[of s malloc] by (simp add: part_text_def)
  next
    case False
    then have "uri_add_opt malloc sep (Some s) = (\<lambda>b. uri_add malloc sep b \<bind> uri_add malloc s)"
      by (intro ext) (simp add: uri_add_opt_def)
    then show ?thesis
      using assms Some writes_then[OF writes_add writes_add, of sep s malloc] by (simp add: part_text_def)
  qed
qed

lemma writes_authority:
  assumes "length (authority_text u h) < 2 ^ 31 - 1"
  shows "writes malloc (''//'' @ authority_text u h) (join_authority malloc u h)"
proof -
  have user: "writes malloc (userinfo_text u) (\<lambda>b. case userinfo u of None \<Rightarrow> Some b | Some s \<Rightarrow> uri_printf malloc (s @ ''@'') b)"
    using assms writes_skip writes_printf
    by (auto simp: userinfo_text_def authority_text_def split: option.splits)
  have prt: "writes malloc (port_text u) (\<lambda>b. if port u \<ge> 0 then uri_printf malloc ('':'' @ print_int (port u)) b else Some b)"
    using assms writes_skip writes_printf[of "port_text u" malloc]
    by (auto simp: port_text_def authority_text_def print_int_def)
  have w: "writes malloc h (uri_add malloc h)" "writes malloc ''//'' (uri_add malloc ''//'')"
    using assms by (intro writes_add; simp add: authority_text_def)+
  have "join_authority malloc u h = (\<lambda>b. uri_add malloc ''//'' b \<bind> (\<lambda>b.
      (case userinfo u of None \<Rightarrow> Some b | Some s \<Rightarrow> uri_printf malloc (s @ ''@'') b) \<bind> (\<lambda>b. uri_add malloc h b \<bind>
      (\<lambda>b. if port u \<ge> 0 then uri_printf malloc ('':'' @ print_int (port u)) b else Some b))))"
    by (rule ext) (simp add: join_authority_def)
  then show ?thesis
    using writes_then[OF w(2) writes_then[OF user writes_then[OF w(1) prt]]] unfolding authority_text_def by (simp only:)
qed

lemma bad_path_iff: "bad_path u \<longleftrightarrow> (\<exists>c s. path u = Some (c # s) \<and> c \<noteq> CHR ''/'' \<and> c \<noteq> NUL)"
  by (auto simp: bad_path_def char_at_def split: option.splits list.splits if_splits) (metis list.exhaust nth_Cons_0)

lemma evhttp_uri_join_ok:
  assumes "\<And>n. malloc n \<noteq> None" "length (uri_text u) + 2 < 2 ^ 31" "\<not> (host u \<noteq> None \<and> bad_path u)" "0 < limit"
  shows "evhttp_uri_join malloc u limit =
    Some (if length (uri_text u) + 1 \<le> limit then Some (uri_text u @ [NUL]) else None)"
proof -
  have len: "length (scheme_text u) < 2 ^ 31" "length (part_text [] (path u)) < 2 ^ 31"
    "length (part_text ''?'' (query u)) < 2 ^ 31" "length (part_text ''#'' (fragment u)) < 2 ^ 31"
    using assms(2) by (simp_all add: uri_text_def tail_text_def)
  obtain b1 where b1: "(case scheme u of None \<Rightarrow> Some evbuffer_new | Some s \<Rightarrow> uri_add malloc s evbuffer_new \<bind> uri_add malloc '':'') = Some b1"
    "text_ready malloc b1" "evbuffer_content b1 = evbuffer_content evbuffer_new @ to_bytes (scheme_text u)"
    by (rule writesE[OF writes_scheme[OF len(1), of malloc] text_ready_new[where malloc = malloc, OF assms(1)]])
  let ?a = "case host u of None \<Rightarrow> [] | Some h \<Rightarrow> ''//'' @ authority_text u h"
  have w: "writes malloc ?a (\<lambda>b. case host u of None \<Rightarrow> Some b | Some h \<Rightarrow> join_authority malloc u h b)"
    using writes_authority[of u _ malloc] writes_skip assms(2) by (auto simp: uri_text_def split: option.splits)
  obtain b2 where b2: "(case host u of None \<Rightarrow> Some b1 | Some h \<Rightarrow> join_authority malloc u h b1) = Some b2"
    "text_ready malloc b2" "evbuffer_content b2 = evbuffer_content b1 @ to_bytes ?a"
    by (rule writesE[OF w b1(2)])
  have "writes malloc [NUL] (uri_add malloc [NUL])"
    by (rule writes_add) simp
  from writes_then[OF writes_part[OF len(2)] writes_then[OF writes_part[OF len(3)] writes_then[OF writes_part[OF len(4)] this]]]
  obtain b3 where b3: "uri_add_opt malloc [] (path u) b2 \<bind> (\<lambda>b. uri_add_opt malloc ''?'' (query u) b \<bind>
      (\<lambda>b. uri_add_opt malloc ''#'' (fragment u) b \<bind> uri_add malloc [NUL])) = Some b3" "text_ready malloc b3"
    "evbuffer_content b3 = evbuffer_content b2 @ to_bytes (tail_text u @ [NUL])"
    using b2(2) by (auto simp: tail_text_def elim!: writesE)
  then obtain c1 c2 c3 where parts: "uri_add_opt malloc [] (path u) b2 = Some c1" "uri_add_opt malloc ''?'' (query u) c1 = Some c2"
    "uri_add_opt malloc ''#'' (fragment u) c2 = Some c3" "uri_add malloc [NUL] c3 = Some b3"
    by (auto simp: bind_eq_Some_conv)
  have no_bad_path: "(host u \<noteq> None \<and> bad_path u) = False"
    using assms(3) by blast
  have new: "evbuffer_content evbuffer_new = []"
    using evbuffer_new_ready[of malloc] assms(1) by blast
  have content: "evbuffer_content b3 = to_bytes (uri_text u @ [NUL])"
    by (simp add: b1(3) b2(3) b3(3) new uri_text_def)
  obtain r b4 x where out: "evbuffer_remove b3 (evbuffer_get_length b3) = Some (r, evbuffer_content b3, b4)" "evbuffer_free b4 = Some x"
    using text_ready_take_all[OF b3(2)] assms(2) content by auto
  have free: "evbuffer_free b3 \<noteq> None"
    using b3(2) by (simp add: evbuffer_free_def evbuffer_decref_and_unlock_def text_ready_def Let_def)
  have size: "evbuffer_get_length b3 = length (uri_text u) + 1"
    using content b3(2) by (simp add: evbuffer_get_length_def text_ready_def tag_ready_def flip: length_evbuffer_content)
  obtain m where "malloc sizeof_evbuffer = Some m"
    using assms(1) by blast
  then have "evhttp_uri_join malloc u limit = (if length (uri_text u) + 1 > limit then evbuffer_free b3 \<bind> (\<lambda>_. Some None)
      else evbuffer_remove b3 (evbuffer_get_length b3) \<bind> (\<lambda>(r, buf, tmp). evbuffer_free tmp \<bind> (\<lambda>_. Some (Some (of_bytes buf)))))"
    using assms(4) b1(1) b2(1) parts size unfolding evhttp_uri_join_def no_bad_path
    by (simp add: Let_def)
  then show ?thesis
    using out free content by (auto simp del: to_bytes_simps(1))
qed

section \<open>Well-formed URIs\<close>

fun if_some :: "('a \<Rightarrow> bool) \<Rightarrow> 'a option \<Rightarrow> bool" where
  "if_some P None = True"
| "if_some P (Some x) = P x"

definition full_part :: "u32 \<Rightarrow> uri_part \<Rightarrow> string \<Rightarrow> bool" where
  "full_part fl part s \<longleftrightarrow> end_of_path s part fl = length s"

definition host_valid :: "u16 list \<Rightarrow> string \<Rightarrow> bool" where
  "host_valid words0 h \<longleftrightarrow> (if char_at h 0 = CHR ''['' then bracket_addr_ok words0 h \<noteq> 0 else regname_ok h (length h))"

text \<open>Each part satisfies the grammar.\<close>

definition uri_parts_ok :: "u16 list \<Rightarrow> evhttp_uri \<Rightarrow> bool" where
  "uri_parts_ok words0 u \<longleftrightarrow>
     if_some scheme_ok (scheme u) \<and> if_some userinfo_ok (userinfo u) \<and> if_some (host_valid words0) (host u) \<and>
     - 1 \<le> port u \<and> port u < 2 ^ 31 \<and> if_some (full_part (uri_flags u) PART_PATH) (path u) \<and>
     if_some (full_part (uri_flags u) PART_QUERY) (query u) \<and> if_some (full_part (uri_flags u) PART_FRAGMENT) (fragment u)"

text \<open>The parts fit together: the text can only be read in one way.\<close>

definition uri_wf :: "u16 list \<Rightarrow> evhttp_uri \<Rightarrow> bool" where
  "uri_wf words0 u \<longleftrightarrow> uri_parts_ok words0 u \<and>
     (case path u of
        None \<Rightarrow> False
      | Some p \<Rightarrow>
          (if host u = None then userinfo u = None \<and> port u = - 1 \<and> \<not> (char_at p 0 = CHR ''/'' \<and> char_at p 1 = CHR ''/'')
           else p = [] \<or> hd p = CHR ''/'') \<and>
          (scheme u = None \<longrightarrow> path_matches_noscheme p))"

subsection \<open>The end of a part\<close>

text \<open>What can follow a part.\<close>

definition part_stop :: "uri_part \<Rightarrow> string \<Rightarrow> bool" where
  "part_stop part r \<longleftrightarrow> r = [] \<or> part \<noteq> PART_FRAGMENT \<and> hd r = CHR ''#'' \<or> part = PART_PATH \<and> hd r = CHR ''?''"

lemma percentE:
  assumes "EVUTIL_ISXDIGIT (char_at cs 0) \<and> EVUTIL_ISXDIGIT (char_at cs 1)"
  obtains a b t where "cs = a # b # t" "EVUTIL_ISXDIGIT a" "EVUTIL_ISXDIGIT b"
proof -
  have "1 < length cs"
    using assms xdigit_at by blast
  then obtain a b t where "cs = a # b # t"
    by (cases cs; cases "tl cs") auto
  then show ?thesis
    using that assms by simp
qed

lemma delims_not_ok [simp]:
  "\<not> unreserved_or_subdelim CHR ''%''" "\<not> unreserved_or_subdelim CHR '':''" "\<not> unreserved_or_subdelim CHR ''/''"
  "\<not> unreserved_or_subdelim CHR ''?''" "\<not> unreserved_or_subdelim CHR ''#''" "\<not> unreserved_or_subdelim CHR ''@''"
  "\<not> unreserved_or_subdelim CHR ''[''" "\<not> unreserved_or_subdelim CHR '']''"
  by (rule delim_not_ok; simp add: gen_delim_def)+

lemma char_at_append1: "i < length s \<Longrightarrow> char_at (s @ r) i = char_at s i"
  by (simp add: char_at_def nth_append)

lemma conformant_end_percent:
  "EVUTIL_ISXDIGIT a \<Longrightarrow> EVUTIL_ISXDIGIT b \<Longrightarrow> conformant_end part (CHR ''%'' # a # b # t) = Suc (Suc (Suc (conformant_end part t)))"
  by simp

lemma conformant_end_le: "conformant_end part s \<le> length s"
proof (induction part s rule: conformant_end.induct)
  case (2 part c cs)
  show ?case
  proof (cases "c = CHR ''%'' \<and> EVUTIL_ISXDIGIT (char_at cs 0) \<and> EVUTIL_ISXDIGIT (char_at cs 1)")
    case True
    then obtain a b t where "cs = a # b # t" "EVUTIL_ISXDIGIT a" "EVUTIL_ISXDIGIT b"
      using percentE by blast
    then show ?thesis
      using 2(2) True by simp
  qed (use 2 in auto)
qed simp

lemma conformant_end_stop: "part_stop part r \<Longrightarrow> conformant_end part r = 0"
  by (cases r) (auto simp: part_stop_def dest: ok_not_delim)

lemma conformant_end_append:
  assumes "conformant_end part s = length s" "part_stop part r"
  shows "conformant_end part (s @ r) = length s"
  using assms
proof (induction part s rule: conformant_end.induct)
  case (1 part)
  then show ?case
    by (simp add: conformant_end_stop)
next
  case (2 part c cs)
  let ?one = "unreserved_or_subdelim c \<or> c = CHR '':'' \<or> c = CHR ''@'' \<or> c = CHR ''/''"
  let ?pct = "c = CHR ''%'' \<and> EVUTIL_ISXDIGIT (char_at cs 0) \<and> EVUTIL_ISXDIGIT (char_at cs 1)"
  consider (one) ?one | (pct) "\<not> ?one" ?pct | (q) "\<not> ?one" "\<not> ?pct" "c = CHR ''?''" "part \<noteq> PART_PATH"
    using "2.prems"(1) by (auto split: if_splits)
  then show ?case
  proof cases
    case pct
    then obtain a b t where cs: "cs = a # b # t" "EVUTIL_ISXDIGIT a" "EVUTIL_ISXDIGIT b"
      using percentE by blast
    then have "conformant_end part t = length t"
      using pct "2.prems"(1) by simp
    then show ?thesis
      using "2.IH"(2) pct "2.prems"(2) cs by simp
  qed (use 2 in simp_all)
qed

lemma conformant_end_take: "conformant_end part (take (conformant_end part s) s) = conformant_end part s"
proof (induction part s rule: conformant_end.induct)
  case (2 part c cs)
  show ?case
  proof (cases "c = CHR ''%'' \<and> EVUTIL_ISXDIGIT (char_at cs 0) \<and> EVUTIL_ISXDIGIT (char_at cs 1)")
    case True
    then obtain a b t where cs: "cs = a # b # t" "EVUTIL_ISXDIGIT a" "EVUTIL_ISXDIGIT b"
      using percentE by blast
    then have "conformant_end part (c # cs) = Suc (Suc (Suc (conformant_end part t)))"
      using True by simp
    moreover have "conformant_end part (take (conformant_end part t) t) = conformant_end part t"
      using 2(2) True cs by simp
    ultimately show ?thesis
      using True cs by (simp add: conformant_end_percent del: conformant_end.simps(2))
  qed (use 2 in auto)
qed simp

lemma full_part_append:
  assumes "full_part fl part s" "part_stop part r"
  shows "end_of_path (s @ r) part fl = length s"
proof -
  have tw: "length (takeWhile P (s @ r)) = length s" if "length (takeWhile P s) = length s" "r = [] \<or> \<not> P (hd r)" for P
  proof -
    have "x \<in> set s \<Longrightarrow> P x" for x
      using that(1) by (metis append_eq_append_conv self_append_conv set_takeWhileD takeWhile_dropWhile_id)
    then have "takeWhile P (s @ r) = s @ takeWhile P r"
      by (rule takeWhile_append2)
    moreover have "takeWhile P r = []"
      using that(2) by (cases r) simp_all
    ultimately show ?thesis
      by (simp only: append_Nil2)
  qed
  show ?thesis
    using assms conformant_end_append[of part s r]
    by (cases part) (auto simp: full_part_def end_of_path_def part_stop_def intro!: tw split: if_splits)
qed

lemma full_part_take:
  "end_of_path s part fl \<le> length s" "full_part fl part (take (end_of_path s part fl) s)"
proof -
  show le: "end_of_path s part fl \<le> length s"
    using conformant_end_le[of part s] by (cases part) (auto simp: end_of_path_def length_takeWhile_le)
  have tw: "takeWhile P (take (length (takeWhile P s)) s) = takeWhile P s" for P
    by (metis append_eq_conv_conj takeWhile_dropWhile_id takeWhile_idem)
  show "full_part fl part (take (end_of_path s part fl) s)"
    using le conformant_end_take[of part s]
    by (cases part) (auto simp: full_part_def end_of_path_def tw length_takeWhile_le min_def split: if_splits)
qed

subsection \<open>Reading the parts\<close>

lemma split_tail_text:
  assumes "full_part fl PART_PATH p" "if_some (full_part fl PART_QUERY) q" "if_some (full_part fl PART_FRAGMENT) f"
  shows "split_tail fl (p @ part_text ''?'' q @ part_text ''#'' f) = Some (p, q, f)"
proof -
  let ?F = "part_text ''#'' f" and ?Q = "part_text ''?'' q"
  have stop: "part_stop PART_PATH (?Q @ ?F)" "part_stop PART_QUERY ?F" "part_stop PART_FRAGMENT []"
    by (simp_all add: part_stop_def part_text_def split: option.splits)
  have P: "end_of_path (p @ ?Q @ ?F) PART_PATH fl = length p"
    by (rule full_part_append[OF assms(1) stop(1)])
  have Q: "end_of_path (s @ ?F) PART_QUERY fl = length s" if "q = Some s" for s
    using full_part_append[OF _ stop(2)] assms(2) that by simp
  have F: "end_of_path s PART_FRAGMENT fl = length s" if "f = Some s" for s
    using assms(3) that by (simp add: full_part_def)
  have none: "char_at [] 0 \<noteq> CHR ''?''" "char_at [] 0 \<noteq> CHR ''#''"
    by (simp_all add: NUL_def)
  show ?thesis
    using P Q F none by (cases q; cases f) (simp_all add: split_tail_def part_text_def Let_def)
qed

lemma strchr_Some: "strchr s c = Some n \<Longrightarrow> c \<noteq> NUL \<Longrightarrow> n < length s \<and> s ! n = c \<and> c \<notin> set (take n s)"
proof -
  assume "strchr s c = Some n" "c \<noteq> NUL"
  then have n: "n = length (takeWhile (\<lambda>x. x \<noteq> c) s)" "n < length s"
    by (auto simp: strchr_def Let_def split: if_splits)
  then have "take n s = takeWhile (\<lambda>x. x \<noteq> c) s"
    by (simp add: takeWhile_eq_take[symmetric])
  then show "n < length s \<and> s ! n = c \<and> c \<notin> set (take n s)"
    using n nth_length_takeWhile[of "\<lambda>x. x \<noteq> c" s] set_takeWhileD[of c "\<lambda>x. x \<noteq> c" s] by auto
qed

lemma scheme_rest_ok_iff:
  "scheme_rest_ok s \<longleftrightarrow> list_all (\<lambda>c. EVUTIL_ISALNUM c \<or> c = CHR ''+'' \<or> c = CHR ''-'' \<or> c = CHR ''.'') s"
  by (induction s) auto

lemma scheme_chars:
  assumes "scheme_ok s" "c \<in> set s"
  shows "c \<noteq> CHR '':''" "c \<noteq> CHR ''/''" "c \<noteq> CHR ''?''" "c \<noteq> CHR ''#''"
proof -
  have "EVUTIL_ISALNUM c \<or> c = CHR ''+'' \<or> c = CHR ''-'' \<or> c = CHR ''.''"
    using assms by (cases s) (auto simp: scheme_ok_def scheme_rest_ok_iff list_all_iff isalnum_iff split: if_splits)
  then show "c \<noteq> CHR '':''" "c \<noteq> CHR ''/''" "c \<noteq> CHR ''?''" "c \<noteq> CHR ''#''"
    by (auto simp: class_iffs)
qed

text \<open>A path without a scheme has a slash or the end before any colon.\<close>

lemma path_matches_noscheme_split:
  "path_matches_noscheme p \<longleftrightarrow> CHR '':'' \<notin> set (takeWhile (\<lambda>c. c \<noteq> CHR ''/'') p)"
  by (induction p) auto

lemma no_scheme_in_tail:
  assumes "path_matches_noscheme p" "strchr (p @ r) CHR '':'' = Some n" "r = [] \<or> hd r \<in> {CHR ''?'', CHR ''#''}"
  shows "\<not> scheme_ok (take n (p @ r))"
proof
  assume ok: "scheme_ok (take n (p @ r))"
  have n: "n < length (p @ r)" "(p @ r) ! n = CHR '':''"
    using strchr_Some[OF assms(2)] by (simp_all add: NUL_def)
  have "n < length p"
  proof (rule ccontr)
    assume "\<not> n < length p"
    then have "n \<noteq> length p"
      using n assms(3) by (cases r) auto
    then have "hd r \<in> set (take n (p @ r))" "r \<noteq> []"
      using \<open>\<not> n < length p\<close> n(1) by (cases r; auto simp: take_Cons')+
    then show False
      using assms(3) scheme_chars[OF ok] by auto
  qed
  moreover have "CHR ''/'' \<notin> set (take n p)"
    using scheme_chars(2)[OF ok] by auto
  moreover have "p = take n p @ CHR '':'' # drop (Suc n) p"
    using id_take_nth_drop[OF \<open>n < length p\<close>] n(2) \<open>n < length p\<close> by (simp add: nth_append)
  ultimately have "takeWhile (\<lambda>c. c \<noteq> CHR ''/'') p = take n p @ takeWhile (\<lambda>c. c \<noteq> CHR ''/'') (CHR '':'' # drop (Suc n) p)"
    using takeWhile_append2[of "take n p" "\<lambda>c. c \<noteq> CHR ''/''" "CHR '':'' # drop (Suc n) p"] by metis
  then show False
    using assms(1) by (simp add: path_matches_noscheme_split)
qed

lemma userinfo_chars:
  assumes "userinfo_ok s" "c \<in> set s"
  shows "c \<noteq> CHR ''/''" "c \<noteq> CHR ''?''" "c \<noteq> CHR ''#''" "c \<noteq> CHR ''@''"
proof -
  have "unreserved_or_subdelim c \<or> c = CHR '':'' \<or> c = CHR ''%''"
    using assms
  proof (induction s rule: userinfo_ok.induct)
    case (2 d cs)
    show ?case
    proof (cases "unreserved_or_subdelim d \<or> d = CHR '':''")
      case True
      then show ?thesis
        using 2 by auto
    next
      case False
      then obtain a b r where "d = CHR ''%''" "cs = a # b # r" "EVUTIL_ISXDIGIT a" "EVUTIL_ISXDIGIT b" "userinfo_ok r"
        using "2.prems"(1) by (auto split: if_splits list.splits)
      then show ?thesis
        using False 2 xdigit_ok by auto
    qed
  qed simp
  then show "c \<noteq> CHR ''/''" "c \<noteq> CHR ''?''" "c \<noteq> CHR ''#''" "c \<noteq> CHR ''@''"
    by auto
qed

text \<open>A registered name can be read with anything behind it, and does not depend on it.\<close>

lemma regname_simps:
  "regname_ok s 0 = True"
  "regname_ok (c # cs) (Suc n) =
     (if unreserved_or_subdelim c then regname_ok cs n
      else if c = CHR ''%'' \<and> EVUTIL_ISXDIGIT (char_at cs 0) \<and> EVUTIL_ISXDIGIT (char_at cs 1)
      then regname_ok (drop 2 cs) (n - 2) else False)"
  by (simp_all add: regname_ok.simps[of s 0] regname_ok.simps[of "c # cs"] numeral_3_eq_3 numeral_2_eq_2)

lemma regname_cases [consumes 1]:
  assumes "regname_ok (c # cs) (Suc n)"
  obtains "unreserved_or_subdelim c" "regname_ok cs n"
  | a b t where "c = CHR ''%''" "cs = a # b # t" "EVUTIL_ISXDIGIT a" "EVUTIL_ISXDIGIT b" "regname_ok t (n - 2)"
proof (cases "unreserved_or_subdelim c")
  case False
  then have pct: "c = CHR ''%''" "EVUTIL_ISXDIGIT (char_at cs 0) \<and> EVUTIL_ISXDIGIT (char_at cs 1)" "regname_ok (drop 2 cs) (n - 2)"
    using assms by (simp_all add: regname_simps split: if_splits)
  obtain a b t where "cs = a # b # t" "EVUTIL_ISXDIGIT a" "EVUTIL_ISXDIGIT b"
    by (rule percentE[OF pct(2)])
  then show ?thesis
    using that(2) pct by simp
qed (use assms that in \<open>simp add: regname_simps\<close>)

lemma regname_chars:
  assumes "regname_ok s n" "n \<le> length s" "c \<in> set (take n s)"
  shows "unreserved_or_subdelim c \<or> c = CHR ''%''"
  using assms
proof (induction n arbitrary: s rule: less_induct)
  case (less n)
  then obtain d ds k where s: "s = d # ds" "n = Suc k"
    by (cases s; cases n) auto
  from less.prems(1)[unfolded s] show ?case
  proof (cases rule: regname_cases)
    case 1
    then show ?thesis
      using less.IH[of k ds] less.prems(2,3) s by auto
  next
    case (2 a b t)
    then have "c \<in> {CHR ''%'', a, b} \<union> set (take (k - 2) t)"
      using less.prems(3) s by (auto simp: take_Cons' numeral_2_eq_2 split: if_splits)
    then show ?thesis
      using less.IH[of "k - 2" t] less.prems(2) 2 s xdigit_ok by auto
  qed
qed

lemma regname_append:
  assumes "regname_ok s (length s)"
  shows "regname_ok (s @ r) (length s)"
  using assms
proof (induction s rule: length_induct)
  case (1 s)
  show ?case
  proof (cases s)
    case Nil
    then show ?thesis
      by (simp add: regname_simps)
  next
    case (Cons c cs)
    from "1.prems"[unfolded Cons list.size(4) add_Suc_right add_0_right] show ?thesis
    proof (cases rule: regname_cases)
      case 1
      then show ?thesis
        using "1.IH" Cons by (simp add: regname_simps)
    next
      case (2 a b t)
      then show ?thesis
        using "1.IH" Cons by (simp add: regname_simps)
    qed
  qed
qed

text \<open>The characters of a valid host.\<close>

lemma butlast_tl_last: "3 \<le> length s \<Longrightarrow> s = hd s # butlast (tl s) @ [last s]"
  by (cases s; cases "tl s" rule: rev_cases) auto

lemma bracket_chars:
  assumes "bracket_addr_ok words0 h \<noteq> 0" "c \<in> set h"
  shows "c \<noteq> CHR ''/''" "c \<noteq> CHR ''?''" "c \<noteq> CHR ''#''" "c \<noteq> CHR ''@''"
proof -
  have h: "3 \<le> length h" "hd h = CHR ''[''" "last h = CHR '']''"
    using assms(1) by (auto simp: bracket_addr_ok_def split: if_splits)
  have inner: "unreserved_or_subdelim c \<or> c = CHR '':'' \<or> c = CHR ''.'' \<or> address_char c"
    if in_buf: "c \<in> set (butlast (tl h))"
  proof (cases "h ! 1 = CHR ''v''")
    case True
    let ?t = "butlast (drop 2 h)"
    let ?r = "dropWhile EVUTIL_ISXDIGIT ?t"
    have r: "?r \<noteq> []" "hd ?r = CHR ''.''" "list_all (\<lambda>c. unreserved_or_subdelim c \<or> c = CHR '':'') (tl ?r)"
      using assms(1) h True by (auto simp: bracket_addr_ok_def Let_def split: if_splits)
    obtain x y z where hs: "h = x # y # z" "z \<noteq> []"
      using h(1) by (cases h; cases "tl h"; cases "tl (tl h)") auto
    then have "c = CHR ''v'' \<or> c \<in> set ?t"
      using in_buf True by auto
    moreover have "set ?t = set (takeWhile EVUTIL_ISXDIGIT ?t) \<union> set ?r"
      by (metis set_append takeWhile_dropWhile_id)
    moreover have "set ?r = {CHR ''.''} \<union> set (tl ?r)"
      using r by (cases ?r) auto
    moreover have "unreserved_or_subdelim CHR ''v''"
      by code_simp
    ultimately show ?thesis
      using r(3) xdigit_ok by (auto simp: list_all_iff dest!: set_takeWhileD)
  next
    case False
    then have "fst (evutil_inet_pton words0 AF_INET6 (butlast (tl h))) = 1"
      using assms(1) h by (auto simp: bracket_addr_ok_def Let_def split: if_splits)
    then show ?thesis
      using pton_in6_chars in_buf by blast
  qed
  have "set h = {CHR ''['', CHR '']''} \<union> set (butlast (tl h))"
    using arg_cong[OF butlast_tl_last[OF h(1)], of set] h(2,3) by auto
  then have "c \<in> {CHR ''['', CHR '']'', CHR '':'', CHR ''.''} \<or> unreserved_or_subdelim c \<or> address_char c"
    using inner assms(2) by auto
  then show "c \<noteq> CHR ''/''" "c \<noteq> CHR ''?''" "c \<noteq> CHR ''#''" "c \<noteq> CHR ''@''"
    by (auto simp: address_char_def class_iffs)
qed

lemma host_chars:
  assumes "host_valid words0 h" "c \<in> set h"
  shows "c \<noteq> CHR ''/''" "c \<noteq> CHR ''?''" "c \<noteq> CHR ''#''" "c \<noteq> CHR ''@''"
  using assms bracket_chars[of words0 h c] regname_chars[of h "length h" c]
  by (auto simp: host_valid_def split: if_splits)

lemma host_valid_ok:
  assumes "host_valid words0 h"
  shows "host_ok words0 (h @ r) (length h)"
proof (cases "char_at h 0 = CHR ''[''")
  case True
  then have ok: "bracket_addr_ok words0 h \<noteq> 0"
    using assms by (simp add: host_valid_def)
  then have "3 \<le> length h" "last h = CHR '']''"
    by (auto simp: bracket_addr_ok_def split: if_splits)
  then have "char_at (h @ r) (length h - 1) = CHR '']''" "char_at (h @ r) 0 = CHR ''[''" "2 \<le> length h"
    using True by (simp_all add: char_at_def nth_append last_conv_nth split: if_splits)
  then show ?thesis
    using ok by (simp add: host_ok_def)
next
  case False
  then have "char_at (h @ r) 0 \<noteq> CHR ''['' \<or> \<not> 2 \<le> length h"
    by (cases h) (auto simp: char_at_def)
  moreover have "regname_ok h (length h)"
    using assms False by (simp add: host_valid_def)
  ultimately show ?thesis
    using regname_append[of h r] by (auto simp: host_ok_def)
qed

lemma isdigit_value: "EVUTIL_ISDIGIT c \<Longrightarrow> int (digit_val c) = of_char c - 48"
proof -
  assume "EVUTIL_ISDIGIT c"
  then have "of_char c \<in> set [48..<58]"
    by (simp add: class_iffs del: upt_rec_numeral)
  moreover have "list_all (\<lambda>n. digit_val (char_of n) = n - 48) [48..<58]"
    by code_simp
  ultimately have "digit_val c = of_char c - 48"
    unfolding list.pred_set by (metis char_of_char)
  moreover have "48 \<le> (of_char c :: nat)"
    using \<open>EVUTIL_ISDIGIT c\<close> by (simp add: class_iffs)
  ultimately show "int (digit_val c) = of_char c - 48"
    by (simp add: of_nat_diff of_nat_of_char)
qed

lemma parse_port_digits:
  assumes "list_all EVUTIL_ISDIGIT s" "foldl (\<lambda>n c. n * 10 + digit_val c) v s < 2 ^ 31"
  shows "parse_port_loop (int v) s = int (foldl (\<lambda>n c. n * 10 + digit_val c) v s)"
  using assms
proof (induction s arbitrary: v)
  case (Cons c s)
  let ?w = "v * 10 + digit_val c"
  have mono: "n \<le> foldl (\<lambda>n c. n * 10 + digit_val c) n xs" for n xs
  proof (induction xs arbitrary: n)
    case (Cons x xs)
    from Cons[of "n * 10 + digit_val x"] show ?case
      by simp
  qed simp
  have "?w < 2 ^ 31"
    using mono[of ?w s] Cons.prems(2) by simp
  moreover have "int (digit_val c) = of_char c - 48"
    using Cons.prems(1) by (auto simp: isdigit_value)
  ultimately have "signed_take_bit 31 (int v * 10 + (of_char c - 48)) = int ?w"
    by (simp add: signed_take_bit_int_eq_self)
  then show ?case
    using Cons.IH[of ?w] Cons.prems by (simp add: Let_def)
qed simp

lemma parse_port_printed:
  assumes "n < 2 ^ 31"
  shows "parse_port (print_nat 10 n) = int n"
  using parse_port_digits[of "print_nat 10 n" 0] print_nat_facts(2,4)[of 10 n] assms
  by (simp add: parse_port_def digits_val_def)

lemma split_port_text:
  assumes "n < 2 ^ 31"
  shows "split_port (h @ CHR '':'' # print_nat 10 n) = Some (h, Some (int n))"
proof -
  let ?d = "print_nat 10 n"
  have d: "list_all EVUTIL_ISDIGIT ?d" "?d \<noteq> []"
    by (simp_all add: print_nat_facts)
  have "takeWhile EVUTIL_ISDIGIT (rev ?d @ CHR '':'' # rev h) = rev ?d"
    by (rule span_stops(1)) (use d in \<open>simp_all add: list_all_iff stops_def class_iffs\<close>)
  then show ?thesis
    using d(2) parse_port_printed[OF assms] by (simp add: split_port_def Let_def nth_append)
qed

lemma split_port_none:
  assumes "host_valid words0 h"
  shows "split_port h = Some (h, None)"
proof -
  let ?k = "length (takeWhile EVUTIL_ISDIGIT (rev h))"
  let ?i = "length h - ?k"
  have "h ! (?i - 1) \<noteq> CHR '':''" if i: "?i \<ge> 1"
  proof (cases "char_at h 0 = CHR ''[''")
    case True
    then have "h \<noteq> []" "last h = CHR '']''"
      using assms by (auto simp: host_valid_def bracket_addr_ok_def split: if_splits)
    then obtain xs where "h = xs @ [CHR '']'']"
      by (metis append_butlast_last_id)
    then have "?k = 0"
      by (simp add: class_iffs)
    then show ?thesis
      using \<open>h \<noteq> []\<close> \<open>last h = CHR '']''\<close> by (simp add: last_conv_nth)
  next
    case False
    then have "regname_ok h (length h)"
      using assms by (simp add: host_valid_def)
    moreover have "h ! (?i - 1) \<in> set h"
      using i by (intro nth_mem) simp
    ultimately show ?thesis
      using regname_chars[of h "length h" "CHR '':''"] by auto
  qed
  then show ?thesis
    by (auto simp: split_port_def Let_def)
qed

text \<open>The authority.\<close>

lemma mm_strdup_total:
  assumes "\<And>n. malloc n \<noteq> None"
  shows "mm_strdup malloc s = Some s"
  using assms[of "length s + 1"] by (auto simp: mm_strdup_def)

lemma strchr_before: "c \<notin> set s \<Longrightarrow> c \<noteq> NUL \<Longrightarrow> strchr (s @ r) c = None \<or> (\<exists>n. strchr (s @ r) c = Some n \<and> length s \<le> n)"
  using takeWhile_append2[of s "\<lambda>x. x \<noteq> c" r] by (fastforce simp: strchr_def Let_def)

definition authority_wf :: "u16 list \<Rightarrow> evhttp_uri \<Rightarrow> string \<Rightarrow> bool" where
  "authority_wf words0 u h \<longleftrightarrow> host_valid words0 h \<and> if_some userinfo_ok (userinfo u) \<and> - 1 \<le> port u \<and> port u < 2 ^ 31"

lemma port_text_chars: "c \<in> set (port_text u) \<Longrightarrow> c = CHR '':'' \<or> EVUTIL_ISXDIGIT c"
  using print_nat_facts(3)[of 10 "nat (port u)"] by (auto simp: port_text_def list_all_iff split: if_splits)

lemma authority_chars:
  assumes "authority_wf words0 u h" "c \<in> set (authority_text u h)"
  shows "c \<noteq> CHR ''/''" "c \<noteq> CHR ''?''" "c \<noteq> CHR ''#''"
proof -
  have "(\<exists>s. userinfo u = Some s \<and> userinfo_ok s \<and> c \<in> set s) \<or> c = CHR ''@'' \<or> c \<in> set h \<or> c = CHR '':'' \<or> EVUTIL_ISXDIGIT c"
    using assms port_text_chars[of c u]
    by (cases "userinfo u") (auto simp: authority_text_def userinfo_text_def authority_wf_def)
  then have "c \<noteq> CHR ''/'' \<and> c \<noteq> CHR ''?'' \<and> c \<noteq> CHR ''#''"
    using host_chars[of words0 h c] assms(1) userinfo_chars[of _ c] xdigit_not_delim[of c]
    by (elim disjE exE conjE) (simp_all add: authority_wf_def)
  then show "c \<noteq> CHR ''/''" "c \<noteq> CHR ''?''" "c \<noteq> CHR ''#''"
    by simp_all
qed

lemma parse_authority_text:
  assumes wf: "authority_wf words0 u h" and m: "\<And>n. malloc n \<noteq> None" and v: "port v = - 1" "userinfo v = None"
  shows "parse_authority malloc words0 v (authority_text u h @ r) (length (authority_text u h)) =
    (0, v\<lparr>userinfo := userinfo u, port := port u, host := Some h\<rparr>)"
proof -
  let ?a = "authority_text u h" and ?t = "h @ port_text u"
  define v1 where "v1 = v\<lparr>userinfo := userinfo u\<rparr>"
  have host: "host_valid words0 h" and port: "- 1 \<le> port u" "port u < 2 ^ 31"
    using wf by (simp_all add: authority_wf_def)
  have no_at: "CHR ''@'' \<notin> set ?t"
    using host_chars(4)[OF host] port_text_chars xdigit_not_delim(5) by fastforce
  have dup: "mm_strdup malloc s = Some s" "\<exists>x. malloc n = Some x" for s n
    using mm_strdup_total[OF m] m[of n] by auto
  have user: "(case strchr (?a @ r) CHR ''@'' of
                None \<Rightarrow> Some (v, 0)
              | Some a \<Rightarrow>
                  if a < length ?a then
                    (if \<not> userinfo_ok (take a (?a @ r)) then None
                     else case mm_strdup malloc (take a (?a @ r)) of None \<Rightarrow> None | Some u \<Rightarrow> Some (v\<lparr>userinfo := Some u\<rparr>, a + 1))
                  else Some (v, 0)) = Some (v1, length (userinfo_text u))"
  proof (cases "userinfo u")
    case None
    then have "v1 = v" "?a = ?t"
      using v by (simp_all add: v1_def authority_text_def userinfo_text_def)
    moreover have "strchr (?t @ r) CHR ''@'' = None \<or> (\<exists>n. strchr (?t @ r) CHR ''@'' = Some n \<and> length ?t \<le> n)"
      using strchr_before[OF no_at] by (simp add: NUL_def)
    ultimately show ?thesis
      using None by (auto simp: userinfo_text_def)
  next
    case (Some s)
    then have s: "userinfo_ok s" "CHR ''@'' \<notin> set s"
      using wf userinfo_chars(4) by (auto simp: authority_wf_def)
    have a: "?a @ r = s @ CHR ''@'' # (?t @ r)" "length s < length ?a"
      using Some by (simp_all add: authority_text_def userinfo_text_def)
    show ?thesis
      unfolding a(1) strchr_append[OF s(2)] using a(2) s(1) Some dup(1) by (simp add: v1_def userinfo_text_def)
  qed
  have split: "split_port ?t = Some (h, if port u < 0 then None else Some (port u))"
    using split_port_text[of "nat (port u)" h] split_port_none[OF host] port by (auto simp: port_text_def)
  show ?thesis
  proof (cases "?a = []")
    case True
    then have "userinfo u = None" "h = []" "port u < 0"
      by (auto simp: authority_text_def userinfo_text_def port_text_def split: option.splits if_splits)
    then show ?thesis
      using True v port dup(1) by (simp add: parse_authority_def)
  next
    case False
    have rest: "drop (length (userinfo_text u)) (take (length ?a) (?a @ r)) = ?t" "drop (length (userinfo_text u)) (?a @ r) = h @ port_text u @ r"
      by (simp_all add: authority_text_def)
    have ok: "host_ok words0 (h @ port_text u @ r) (length h)"
      by (rule host_valid_ok[OF host])
    obtain x where x: "malloc (length h + 1) = Some x"
      using dup(2) by blast
    have "port u < 0 \<Longrightarrow> port u = - 1" "port v1 = - 1"
      using port v by (simp_all add: v1_def)
    then show ?thesis
      using False ok x unfolding parse_authority_def Let_def user option.case prod.case rest split
      by (auto simp: v1_def)
  qed
qed

subsection \<open>The whole text\<close>

lemma parse_scheme_text:
  assumes m: "\<And>n. malloc n \<noteq> None"
    and none: "scheme u = None \<Longrightarrow> \<exists>p t. r = ''//'' @ t \<or> r = p @ t \<and> path_matches_noscheme p \<and> (t = [] \<or> hd t \<in> {CHR ''?'', CHR ''#''})"
    and some: "if_some scheme_ok (scheme u)" and v: "scheme v = None"
  shows "parse_scheme malloc v (scheme_text u @ r) = Some (v\<lparr>scheme := scheme u\<rparr>, r)"
proof (cases "scheme u")
  case None
  have "\<not> scheme_ok (take n r)" if n: "strchr r CHR '':'' = Some n" for n
  proof -
    obtain p t where "r = ''//'' @ t \<or> r = p @ t \<and> path_matches_noscheme p \<and> (t = [] \<or> hd t \<in> {CHR ''?'', CHR ''#''})"
      using none[OF None] by blast
    then show ?thesis
    proof
      assume r: "r = ''//'' @ t"
      then have "n \<noteq> 0"
        using strchr_Some[OF n] by (cases n) (simp_all add: NUL_def)
      then show ?thesis
        using r by (cases n) (auto simp: scheme_ok_def class_iffs)
    qed (use no_scheme_in_tail n in blast)
  qed
  then show ?thesis
    using None v by (auto simp: parse_scheme_def scheme_text_def split: option.splits)
next
  case (Some s)
  then have "scheme_ok s" "CHR '':'' \<notin> set s"
    using some scheme_chars(1) by auto
  then show ?thesis
    using Some mm_strdup_total[where s = s, OF m] strchr_append[of "CHR '':''" s r] by (simp add: parse_scheme_def scheme_text_def)
qed

lemma end_of_authority_text:
  assumes "authority_wf words0 u h" "r = [] \<or> hd r \<in> {CHR ''/'', CHR ''?'', CHR ''#''}"
  shows "end_of_authority (authority_text u h @ r) = length (authority_text u h)"
proof -
  have "list_all (\<lambda>c. \<not> (c = CHR ''?'' \<or> c = CHR ''#'' \<or> c = CHR ''/'')) (authority_text u h)"
    using authority_chars[OF assms(1)] by (auto simp: list_all_iff)
  moreover have "stops (\<lambda>c. \<not> (c = CHR ''?'' \<or> c = CHR ''#'' \<or> c = CHR ''/'')) r"
    using assms(2) by (auto simp: stops_def)
  ultimately show ?thesis
    unfolding end_of_authority_def by (simp only: span_stops(1))
qed

lemma uri_wfD:
  assumes "uri_wf words0 u"
  obtains p where "path u = Some p" "full_part (uri_flags u) PART_PATH p" "if_some (full_part (uri_flags u) PART_QUERY) (query u)"
    "if_some (full_part (uri_flags u) PART_FRAGMENT) (fragment u)" "if_some scheme_ok (scheme u)"
    "scheme u = None \<longrightarrow> path_matches_noscheme p"
    "host u = None \<longrightarrow> userinfo u = None \<and> port u = - 1 \<and> \<not> (char_at p 0 = CHR ''/'' \<and> char_at p 1 = CHR ''/'')"
    "\<forall>h. host u = Some h \<longrightarrow> (p = [] \<or> hd p = CHR ''/'') \<and> authority_wf words0 u h"
  using assms by (auto simp: uri_wf_def uri_parts_ok_def authority_wf_def split: option.splits if_splits)

lemma tail_start:
  assumes "t = part_text ''?'' q @ part_text ''#'' f"
  shows "t = [] \<or> hd t \<in> {CHR ''?'', CHR ''#''}"
  by (auto simp: assms part_text_def split: option.splits)

lemma parse_uri_text:
  assumes wf: "uri_wf words0 u" and m: "\<And>n. malloc n \<noteq> None"
  shows "evhttp_uri_parse_with_flags malloc words0 (uri_text u) (uri_flags u) = Some u"
proof -
  obtain p where p: "path u = Some p" "full_part (uri_flags u) PART_PATH p" "if_some (full_part (uri_flags u) PART_QUERY) (query u)"
    "if_some (full_part (uri_flags u) PART_FRAGMENT) (fragment u)" "if_some scheme_ok (scheme u)"
    "scheme u = None \<longrightarrow> path_matches_noscheme p"
    "host u = None \<longrightarrow> userinfo u = None \<and> port u = - 1 \<and> \<not> (char_at p 0 = CHR ''/'' \<and> char_at p 1 = CHR ''/'')"
    "\<forall>h. host u = Some h \<longrightarrow> (p = [] \<or> hd p = CHR ''/'') \<and> authority_wf words0 u h"
    by (rule uri_wfD[OF wf])
  define t where "t = part_text ''?'' (query u) @ part_text ''#'' (fragment u)"
  have tail: "tail_text u = p @ t"
    using p(1) by (simp add: tail_text_def t_def part_text_def)
  have t: "t = [] \<or> hd t \<in> {CHR ''?'', CHR ''#''}"
    by (rule tail_start[OF t_def])
  define a where "a = (case host u of None \<Rightarrow> [] | Some h \<Rightarrow> ''//'' @ authority_text u h)"
  have whole: "uri_text u = scheme_text u @ a @ p @ t"
    by (simp add: uri_text_def tail a_def)
  define v where "v = (uri_init (uri_flags u))\<lparr>scheme := scheme u\<rparr>"
  have "\<exists>p' t'. a @ p @ t = ''//'' @ t' \<or> a @ p @ t = p' @ t' \<and> path_matches_noscheme p' \<and> (t' = [] \<or> hd t' \<in> {CHR ''?'', CHR ''#''})"
    if "scheme u = None"
    using p(6)[rule_format, OF that] t by (cases "host u") (auto simp: a_def)
  then have sch: "parse_scheme malloc (uri_init (uri_flags u)) (uri_text u) = Some (v, a @ p @ t)"
    unfolding whole v_def by (rule parse_scheme_text[OF m _ p(5)]) (simp_all add: uri_init_def)
  have v: "scheme v = scheme u" "port v = - 1" "userinfo v = None" "host v = None"
    by (simp_all add: v_def uri_init_def)
  define w where "w = v\<lparr>userinfo := userinfo u, port := port u, host := host u\<rparr>"
  have hier: "parse_hier malloc words0 v (a @ p @ t) = Some (w, p @ t, host u \<noteq> None)"
  proof (cases "host u")
    case None
    have no_slashes: "\<not> (char_at (p @ t) 0 = CHR ''/'' \<and> char_at (p @ t) 1 = CHR ''/'')"
      using p(7)[rule_format, OF None] t by (cases p; cases "tl p"; cases t) (auto simp: NUL_def)
    have "parse_hier malloc words0 v (p @ t) = Some (v, p @ t, False)"
      unfolding parse_hier_def if_not_P[OF no_slashes] ..
    moreover have "w = v" "a = []"
      using None p(7) v by (simp_all add: w_def a_def)
    ultimately show ?thesis
      using None by simp
  next
    case (Some h)
    have "p @ t = [] \<or> hd (p @ t) \<in> {CHR ''/'', CHR ''?'', CHR ''#''}"
      using p(8)[rule_format, OF Some] t by (cases p) auto
    then have "end_of_authority (authority_text u h @ p @ t) = length (authority_text u h)"
      using end_of_authority_text p(8)[rule_format, OF Some] by blast
    then show ?thesis
      using Some parse_authority_text[where r = "p @ t", OF conjunct2[OF p(8)[rule_format, OF Some]] m v(2,3)]
      by (simp add: parse_hier_def a_def w_def Let_def)
  qed
  have split: "split_tail (uri_flags u) (p @ t) = Some (p, query u, fragment u)"
    unfolding t_def by (rule split_tail_text[OF p(2-4)])
  obtain x where "malloc sizeof_evhttp_uri = Some x"
    using m by blast
  moreover have dup: "mm_strdup malloc s = Some s" for s
    using mm_strdup_total[OF m] .
  moreover have "dup_opt malloc s = Some s" for s
    using dup by (cases s) (simp_all add: dup_opt_def)
  moreover have "\<not> (host u = None \<and> char_at p 0 = CHR ''/'' \<and> char_at p 1 = CHR ''/'')"
    "\<not> (host u \<noteq> None \<and> char_at p 0 \<noteq> CHR ''/'' \<and> char_at p 0 \<noteq> NUL)"
    using p(7,8) by (cases p; auto)+
  moreover have "w\<lparr>path := Some p, query := query u, fragment := fragment u\<rparr> = u" "scheme w = scheme u"
    using p(1) by (simp_all add: w_def v_def uri_init_def)
  ultimately show ?thesis
    using p(6) sch hier split by (auto simp: evhttp_uri_parse_with_flags_def)
qed

section \<open>What the parser accepts is well formed\<close>

lemma regname_prefix:
  assumes "regname_ok (h @ r) (length h)" "stops EVUTIL_ISXDIGIT r"
  shows "regname_ok h (length h)"
  using assms(1)
proof (induction h rule: length_induct)
  case (1 h)
  show ?case
  proof (cases h)
    case Nil
    then show ?thesis
      by (simp add: regname_simps)
  next
    case (Cons c cs)
    from "1.prems"[unfolded Cons append_Cons list.size(4) add_Suc_right add_0_right] show ?thesis
    proof (cases rule: regname_cases)
      case 1
      then show ?thesis
        using "1.IH" Cons by (simp add: regname_simps)
    next
      case (2 a b t)
      then obtain t' where "cs = a # b # t'" "t = t' @ r"
        using assms(2) by (cases cs; cases "tl cs") (auto simp: stops_def)
      then show ?thesis
        using "1.IH" Cons 2 by (simp add: regname_simps)
    qed
  qed
qed

lemma host_ok_valid:
  assumes "host_ok words0 (h @ r) (length h)" "stops EVUTIL_ISXDIGIT r"
  shows "host_valid words0 h"
proof (cases "char_at (h @ r) 0 = CHR ''['' \<and> 2 \<le> length h \<and> char_at (h @ r) (length h - 1) = CHR '']''")
  case True
  then have "char_at h 0 = CHR ''['' "
    by (cases h) (auto simp: char_at_def)
  then show ?thesis
    using True assms(1) by (simp add: host_ok_def host_valid_def)
next
  case False
  then have ok: "regname_ok (h @ r) (length h)"
    using assms(1) by (auto simp: host_ok_def)
  then have "char_at h 0 \<noteq> CHR ''[''"
    by (cases h) (auto simp: regname_simps NUL_def)
  then show ?thesis
    using regname_prefix[OF ok assms(2)] by (simp add: host_valid_def)
qed

lemma parse_port_range: "v < 2 ^ 31 \<Longrightarrow> parse_port_loop v s < 2 ^ 31"
proof (induction s arbitrary: v)
  case (Cons c s)
  have "signed_take_bit 31 (v * 10 + (of_char c - 48)) < (2 ^ 31 :: int)"
    by (rule signed_take_bit_int_less_exp)
  then show ?case
    using Cons.IH by (simp add: Let_def)
qed simp

lemma split_port_parts:
  assumes "split_port t = Some (h, p)"
  obtains r where "t = h @ r" "r = [] \<or> hd r = CHR '':''" "if_some (\<lambda>v. - 1 \<le> v \<and> v < 2 ^ 31) p"
proof -
  define i where "i = length t - length (takeWhile EVUTIL_ISDIGIT (rev t))"
  note S = assms[unfolded split_port_def Let_def, folded i_def]
  show ?thesis
  proof (cases "i \<ge> 1 \<and> t ! (i - 1) = CHR '':''")
    case True
    then have "i - 1 < length t"
      using i_def by linarith
    then have "t = take (i - 1) t @ CHR '':'' # drop i t"
      using id_take_nth_drop[of "i - 1" t] True by simp
    moreover have "h = take (i - 1) t" "if_some (\<lambda>v. - 1 \<le> v \<and> v < 2 ^ 31) p"
      using S True parse_port_range[of 0 "drop i t"] by (auto simp: parse_port_def split: if_splits)
    ultimately show ?thesis
      using that by (metis list.sel(1))
  next
    case False
    then show ?thesis
      using S that[of "[]"] by auto
  qed
qed

lemma parse_authority_wf:
  assumes run: "parse_authority malloc words0 v (a @ r) (length a) = (res, w)" "\<not> res < 0"
    and v: "port v = - 1" "userinfo v = None" and r: "r = [] \<or> hd r \<in> {CHR ''/'', CHR ''?'', CHR ''#''}"
  obtains h where "w = v\<lparr>userinfo := userinfo w, port := port w, host := Some h\<rparr>" "authority_wf words0 w h"
proof (cases "a = []")
  case True
  then have "w = v\<lparr>host := Some []\<rparr>"
    using run by (auto simp: parse_authority_def mm_strdup_def split: option.splits)
  then show ?thesis
    using v that[of "[]"] by (simp add: authority_wf_def host_valid_def regname_simps NUL_def)
next
  case False
  define user where "user = (case strchr (a @ r) CHR ''@'' of
                None \<Rightarrow> Some (v, 0)
              | Some k \<Rightarrow>
                  if k < length a then
                    (if \<not> userinfo_ok (take k (a @ r)) then None
                     else case mm_strdup malloc (take k (a @ r)) of
                            None \<Rightarrow> None
                          | Some u \<Rightarrow> Some (v\<lparr>userinfo := Some u\<rparr>, k + 1))
                  else Some (v, 0))"
  note R = run(1)[unfolded parse_authority_def Let_def, folded user_def]
  obtain v1 cp where user: "user = Some (v1, cp)"
    using R False run(2) by (cases user) auto
  have "v1 = v\<lparr>userinfo := userinfo v1\<rparr> \<and> if_some userinfo_ok (userinfo v1) \<and> cp \<le> length a"
    using user v unfolding user_def by (auto simp: mm_strdup_def split: option.splits if_splits)
  then obtain ui where v1: "v1 = v\<lparr>userinfo := ui\<rparr>" "if_some userinfo_ok ui" "cp \<le> length a"
    by blast
  let ?t = "drop cp a"
  have t: "drop cp (take (length a) (a @ r)) = ?t" "drop cp (a @ r) = ?t @ r"
    using v1(3) by simp_all
  obtain h p where hp: "split_port ?t = Some (h, p)"
    using R False run(2) user t by (cases "split_port ?t") auto
  define w' where "w' = (case p of None \<Rightarrow> v1 | Some x \<Rightarrow> v1\<lparr>port := x\<rparr>)"
  have ok: "host_ok words0 (?t @ r) (length h)" "w = w'\<lparr>host := Some h\<rparr>"
    using R False run(2) user t hp by (auto simp: w'_def split: if_splits option.splits)
  obtain x where x: "?t = h @ x" "x = [] \<or> hd x = CHR '':''" "if_some (\<lambda>v. - 1 \<le> v \<and> v < 2 ^ 31) p"
    by (rule split_port_parts[OF hp])
  have "stops EVUTIL_ISXDIGIT (x @ r)"
    using x(2) r by (cases x) (auto simp: stops_def class_iffs)
  then have "host_valid words0 h"
    using host_ok_valid[of words0 h "x @ r"] ok(1) x(1) by simp
  moreover have "w = v\<lparr>userinfo := userinfo w, port := port w, host := Some h\<rparr>" "userinfo w = ui"
    "- 1 \<le> port w \<and> port w < 2 ^ 31"
    using v x(3) by (cases p; simp add: ok(2) w'_def v1(1))+
  ultimately show ?thesis
    using that v1(2) by (simp add: authority_wf_def)
qed

lemma parse_scheme_wf:
  assumes "parse_scheme malloc v s = Some (w, r)" "scheme v = None"
  obtains sc where "w = v\<lparr>scheme := sc\<rparr>" "if_some scheme_ok sc" "set r \<subseteq> set s"
proof -
  have "\<exists>sc. w = v\<lparr>scheme := sc\<rparr> \<and> if_some scheme_ok sc \<and> set r \<subseteq> set s"
  proof (cases "w = v")
    case True
    then show ?thesis
      using assms by (intro exI[of _ None]) (auto simp: parse_scheme_def mm_strdup_def split: option.splits if_splits dest: in_set_dropD)
  next
    case False
    then obtain t where "w = v\<lparr>scheme := Some t\<rparr>" "scheme_ok t" "set r \<subseteq> set s"
      using assms(1) set_drop_subset by (fastforce simp: parse_scheme_def mm_strdup_def split: option.splits if_splits)
    then show ?thesis
      by (intro exI[of _ "Some t"]) simp
  qed
  then show ?thesis
    using that by blast
qed

lemma parse_hier_wf:
  assumes run: "parse_hier malloc words0 v s = Some (w, r, got)" and v: "port v = - 1" "userinfo v = None" "host v = None"
  shows "set r \<subseteq> set s" "\<not> got \<Longrightarrow> w = v"
    "got \<Longrightarrow> \<exists>h. w = v\<lparr>userinfo := userinfo w, port := port w, host := Some h\<rparr> \<and> authority_wf words0 w h"
proof -
  have *: "set r \<subseteq> set s \<and> (got \<longrightarrow> (\<exists>h. w = v\<lparr>userinfo := userinfo w, port := port w, host := Some h\<rparr> \<and> authority_wf words0 w h)) \<and>
    (\<not> got \<longrightarrow> w = v)"
  proof (cases "char_at s 0 = CHR ''/'' \<and> char_at s 1 = CHR ''/''")
    case False
    have "parse_hier malloc words0 v s = Some (v, s, False)"
      unfolding parse_hier_def if_not_P[OF False] ..
    then show ?thesis
      using run by simp
  next
    case True
    define a b where "a = takeWhile (\<lambda>c. \<not> (c = CHR ''?'' \<or> c = CHR ''#'' \<or> c = CHR ''/'')) (drop 2 s)"
      and "b = dropWhile (\<lambda>c. \<not> (c = CHR ''?'' \<or> c = CHR ''#'' \<or> c = CHR ''/'')) (drop 2 s)"
    have ab: "drop 2 s = a @ b" "end_of_authority (drop 2 s) = length a"
      by (simp_all add: a_def b_def end_of_authority_def)
    have b: "b = [] \<or> hd b \<in> {CHR ''/'', CHR ''?'', CHR ''#''}"
      using hd_dropWhile[of "\<lambda>c. \<not> (c = CHR ''?'' \<or> c = CHR ''#'' \<or> c = CHR ''/'')" "drop 2 s"] unfolding b_def by blast
    obtain res w' where p: "parse_authority malloc words0 v (a @ b) (length a) = (res, w')"
      by (cases "parse_authority malloc words0 v (a @ b) (length a)") blast
    then have w: "\<not> res < 0" "w' = w" "r = b" "got"
      using run True ab by (auto simp: parse_hier_def Let_def split: if_splits)
    obtain h where "w = v\<lparr>userinfo := userinfo w, port := port w, host := Some h\<rparr>" "authority_wf words0 w h"
      by (rule parse_authority_wf[OF p[unfolded w(2)] w(1) v(1,2) b])
    moreover have "set b \<subseteq> set s"
      using set_dropWhileD[of _ _ "drop 2 s"] by (auto simp: b_def dest!: in_set_dropD)
    ultimately show ?thesis
      using w(3,4) by blast
  qed
  show "set r \<subseteq> set s" "\<not> got \<Longrightarrow> w = v"
    "got \<Longrightarrow> \<exists>h. w = v\<lparr>userinfo := userinfo w, port := port w, host := Some h\<rparr> \<and> authority_wf words0 w h"
    using * by blast+
qed

lemma split_tail_wf:
  assumes "split_tail fl r = Some (p, q, f)"
  shows "full_part fl PART_PATH p" "if_some (full_part fl PART_QUERY) q" "if_some (full_part fl PART_FRAGMENT) f" "set p \<subseteq> set r"
proof -
  have "p = take (end_of_path r PART_PATH fl) r"
    using assms by (auto simp: split_tail_def Let_def split: prod.splits if_splits)
  then show "full_part fl PART_PATH p" "set p \<subseteq> set r"
    by (simp_all add: full_part_take(2) set_take_subset)
  show "if_some (full_part fl PART_QUERY) q"
    using assms full_part_take(2)
    by (auto simp: split_tail_def Let_def simp del: take_all take_all_iff split: prod.splits if_splits)
  show "if_some (full_part fl PART_FRAGMENT) f"
    using assms full_part_take(2)
    by (auto simp: split_tail_def Let_def simp del: take_all take_all_iff split: prod.splits if_splits)
qed

lemma parse_uri_wf:
  assumes run: "evhttp_uri_parse_with_flags malloc words0 s fl = Some u" and s: "is_c_string s"
  shows "uri_wf words0 u" "uri_flags u = fl"
proof -
  obtain v r1 where sch: "parse_scheme malloc (uri_init fl) s = Some (v, r1)"
    using run by (auto simp: evhttp_uri_parse_with_flags_def mm_strdup_def bind_eq_Some_conv split: option.splits)
  obtain w r2 got where hier: "parse_hier malloc words0 v r1 = Some (w, r2, got)"
    using run sch by (auto simp: evhttp_uri_parse_with_flags_def mm_strdup_def bind_eq_Some_conv split: option.splits)
  obtain p q f where tail: "split_tail fl r2 = Some (p, q, f)"
    using run sch hier by (auto simp: evhttp_uri_parse_with_flags_def mm_strdup_def bind_eq_Some_conv split: option.splits)
  have rest: "\<not> (\<not> got \<and> char_at p 0 = CHR ''/'' \<and> char_at p 1 = CHR ''/'')"
    "\<not> (got \<and> char_at p 0 \<noteq> CHR ''/'' \<and> char_at p 0 \<noteq> NUL)" "\<not> (scheme w = None \<and> \<not> path_matches_noscheme p)"
    "u = w\<lparr>path := Some p, query := q, fragment := f\<rparr>"
    using run sch hier tail
    by (auto simp: evhttp_uri_parse_with_flags_def mm_strdup_def dup_opt_def bind_eq_Some_conv split: option.splits if_splits)
  obtain sc where v: "v = (uri_init fl)\<lparr>scheme := sc\<rparr>" "if_some scheme_ok sc" "set r1 \<subseteq> set s"
    by (rule parse_scheme_wf[OF sch]) (simp add: uri_init_def)
  have v0: "port v = - 1" "userinfo v = None" "host v = None" "uri_flags v = fl" "scheme v = sc"
    by (simp_all add: v(1) uri_init_def)
  note H = parse_hier_wf[OF hier v0(1-3)] and T = split_tail_wf[OF tail]
  have nul: "NUL \<notin> set p"
    using T(4) H(1) v(3) s by (auto simp: is_c_string_def)
  have tail_ok: "if_some (full_part fl PART_PATH) (path u)" "if_some (full_part fl PART_QUERY) (query u)"
    "if_some (full_part fl PART_FRAGMENT) (fragment u)" "path u = Some p"
    using T(1-3) by (simp_all add: rest(4))
  have "uri_wf words0 u \<and> uri_flags u = fl"
  proof (cases got)
    case False
    then have w: "w = v"
      by (rule H(2))
    have "host u = None" "userinfo u = None" "port u = - 1" "uri_flags u = fl" "scheme u = sc" "scheme w = sc"
      using v0 by (simp_all add: rest(4) w)
    then show ?thesis
      using rest(1,3) False tail_ok v(2) by (auto simp: uri_wf_def uri_parts_ok_def)
  next
    case True
    obtain h where h: "w = v\<lparr>userinfo := userinfo w, port := port w, host := Some h\<rparr>" "authority_wf words0 w h"
      using H(3)[OF True] by blast
    obtain ui po where w: "w = v\<lparr>userinfo := ui, port := po, host := Some h\<rparr>"
      using h(1) by blast
    have "host u = Some h" "userinfo u = ui" "port u = po" "uri_flags u = fl" "scheme u = sc" "scheme w = sc" "userinfo w = ui" "port w = po"
      using v0 by (simp_all add: rest(4) w)
    moreover have "p = [] \<or> hd p = CHR ''/''"
      using rest(2) True nul by (cases p) auto
    ultimately show ?thesis
      using rest(3) tail_ok v(2) h(2) by (auto simp: uri_wf_def uri_parts_ok_def authority_wf_def)
  qed
  then show "uri_wf words0 u" "uri_flags u = fl"
    by blast+
qed

text \<open>
  A URI that is made by \<open>evhttp_uri_new\<close> or by the parser and changed by the functions that set a part, with an
  allocator that may fail at any time. Changing the flags later is not among these steps.
\<close>

inductive uri_built :: "u16 list \<Rightarrow> u32 \<Rightarrow> evhttp_uri \<Rightarrow> bool" for words0 fl where
  new: "evhttp_uri_new malloc = Some u \<Longrightarrow> uri_built words0 fl (evhttp_uri_set_flags u fl)"
| parsed: "evhttp_uri_parse_with_flags malloc words0 s fl = Some u \<Longrightarrow> is_c_string s \<Longrightarrow> uri_built words0 fl u"
| set_scheme: "uri_built words0 fl u \<Longrightarrow> evhttp_uri_set_scheme malloc u x = (r, u') \<Longrightarrow> uri_built words0 fl u'"
| set_userinfo: "uri_built words0 fl u \<Longrightarrow> evhttp_uri_set_userinfo malloc u x = (r, u') \<Longrightarrow> uri_built words0 fl u'"
| set_host: "uri_built words0 fl u \<Longrightarrow> evhttp_uri_set_host malloc words0 u x = (r, u') \<Longrightarrow> uri_built words0 fl u'"
| set_port: "uri_built words0 fl u \<Longrightarrow> - (2 ^ 31) \<le> n \<Longrightarrow> n < 2 ^ 31 \<Longrightarrow> evhttp_uri_set_port u n = (r, u') \<Longrightarrow> uri_built words0 fl u'"
| set_path: "uri_built words0 fl u \<Longrightarrow> evhttp_uri_set_path malloc u x = (r, u') \<Longrightarrow> uri_built words0 fl u'"
| set_query: "uri_built words0 fl u \<Longrightarrow> evhttp_uri_set_query malloc u x = (r, u') \<Longrightarrow> uri_built words0 fl u'"
| set_fragment: "uri_built words0 fl u \<Longrightarrow> evhttp_uri_set_fragment malloc u x = (r, u') \<Longrightarrow> uri_built words0 fl u'"

lemma uri_set_str_cases:
  assumes "uri_set_str malloc upd x = (r, u')"
  shows "u' = upd x \<or> u' = upd None"
  using assms by (auto simp: uri_set_str_def mm_strdup_def split: option.splits)

lemmas setter_defs = evhttp_uri_set_scheme_def evhttp_uri_set_userinfo_def evhttp_uri_set_host_def evhttp_uri_set_port_def
  evhttp_uri_set_path_def evhttp_uri_set_query_def evhttp_uri_set_fragment_def

lemma uri_built_parts:
  assumes "uri_built words0 fl u"
  shows "uri_parts_ok words0 u \<and> uri_flags u = fl"
  using assms
proof induction
  case (new malloc u)
  then show ?case
    by (auto simp: evhttp_uri_new_def evhttp_uri_set_flags_def uri_init_def uri_parts_ok_def split: option.splits)
next
  case (parsed malloc s u)
  then show ?case
    using parse_uri_wf[OF parsed] by (simp add: uri_wf_def)
qed (auto simp: setter_defs uri_parts_ok_def part_bad_def full_part_def host_valid_def
    dest!: uri_set_str_cases split: if_splits option.splits)

section \<open>Queries\<close>

text \<open>Arguments as a form sends them: the values are encoded, the keys are not.\<close>

definition argument_text :: "bool \<Rightarrow> string \<times> string \<Rightarrow> string" where
  "argument_text space_as_plus kv = fst kv @ CHR ''='' # uri_encode space_as_plus (snd kv)"

fun query_text :: "bool \<Rightarrow> (string \<times> string) list \<Rightarrow> string" where
  "query_text space_as_plus [] = []"
| "query_text space_as_plus [kv] = argument_text space_as_plus kv"
| "query_text space_as_plus (kv # kvs) = argument_text space_as_plus kv @ CHR ''&'' # query_text space_as_plus kvs"

definition argument_ok :: "string \<times> string \<Rightarrow> bool" where
  "argument_ok kv \<longleftrightarrow> fst kv \<noteq> [] \<and> CHR ''='' \<notin> set (fst kv) \<and> CHR ''&'' \<notin> set (fst kv) \<and> NUL \<notin> set (fst kv) \<and> NUL \<notin> set (snd kv)"

lemma encoded_no_separator: "CHR ''&'' \<notin> set (uri_encode p s)" "CHR ''='' \<notin> set (uri_encode p s)"
  using uri_encode_chars[of _ p s] xdigit_unreserved reserved_chars(12,13) by fastforce+

lemma strsep_append:
  assumes "c \<notin> set s" "c \<noteq> NUL"
  shows "strsep (s @ c # r) c = (s, Some r)" "strsep s c = (s, None)"
  using strchr_append[OF assms(1), of r] strchr_none[OF assms] by (simp_all add: strsep_def)

lemma add_header_internal_total:
  assumes "\<And>n. malloc n \<noteq> None"
  shows "evhttp_add_header_internal malloc hs k v = (0, hs @ [(k, v)])"
  using assms[of sizeof_evkeyval] mm_strdup_total[where s = k, OF assms] mm_strdup_total[where s = v, OF assms]
  by (auto simp: evhttp_add_header_internal_def)

lemma parse_argument:
  assumes m: "\<And>n. malloc n \<noteq> None" and ok: "argument_ok kv"
    and rest: "r = [] \<and> p' = None \<or> (\<exists>r'. r = CHR ''&'' # r' \<and> p' = Some r')"
  shows "parse_query_loop malloc (Some (argument_text sp kv @ r)) hs = parse_query_loop malloc p' (hs @ [kv])"
proof -
  obtain k v where kv: "kv = (k, v)"
    by (cases kv)
  obtain c cs where c: "argument_text sp (k, v) @ r = c # cs"
    using ok by (cases "argument_text sp (k, v) @ r") (auto simp: argument_text_def argument_ok_def kv)
  have no_amp: "CHR ''&'' \<notin> set (argument_text sp kv)"
    using ok encoded_no_separator by (simp add: argument_ok_def argument_text_def)
  have amp: "strsep (argument_text sp kv @ r) CHR ''&'' = (argument_text sp kv, p')"
    using rest strsep_append[OF no_amp] by (auto simp: NUL_def)
  have eq: "strsep (argument_text sp kv) CHR ''='' = (k, Some (uri_encode sp v))"
    using strsep_append(1)[of "CHR ''=''" k] ok by (simp add: argument_text_def argument_ok_def kv NUL_def)
  have dec: "snd (evhttp_decode_uri_internal (uri_encode sp v) (length (uri_encode sp v)) 1) = v"
    by (simp add: evhttp_decode_uri_internal_def decode_encode)
  have tw: "takeWhile (\<lambda>c. c \<noteq> NUL) v = v"
    using ok by (auto simp: argument_ok_def kv takeWhile_eq_all_conv)
  have "k \<noteq> []"
    using ok by (simp add: argument_ok_def kv)
  moreover obtain x where "malloc (length (uri_encode sp v) + 1) = Some x"
    using m by blast
  ultimately show ?thesis
    using amp eq dec add_header_internal_total[where malloc = malloc, OF m] unfolding kv c
    by (simp add: parse_query_loop.simps[of malloc "Some (c # cs)"] tw)
qed

lemma parse_query_text_ok:
  assumes m: "\<And>n. malloc n \<noteq> None" and "list_all argument_ok kvs" "kvs \<noteq> []"
  shows "parse_query_loop malloc (Some (query_text sp kvs)) hs = Some (hs @ kvs)"
  using assms(2,3)
proof (induction sp kvs arbitrary: hs rule: query_text.induct)
  case (2 sp kv)
  then have "parse_query_loop malloc (Some (argument_text sp kv @ [])) hs = parse_query_loop malloc None (hs @ [kv])"
    by (intro parse_argument m) simp_all
  then show ?case
    by (simp add: parse_query_loop.simps[of malloc None])
next
  case (3 sp kv kv' kvs)
  then have "parse_query_loop malloc (Some (argument_text sp kv @ CHR ''&'' # query_text sp (kv' # kvs))) hs =
      parse_query_loop malloc (Some (query_text sp (kv' # kvs))) (hs @ [kv])"
    by (intro parse_argument m) simp_all
  then show ?case
    using 3 by simp
qed simp

section \<open>Properties\<close>

text \<open>
  C26: Any bytes that are encoded by \<open>evhttp_uriencode\<close> give a text of unreserved characters, percent signs and, if
  asked for, plus signs, which \<open>evhttp_uridecode\<close> turns back into exactly these bytes, zero bytes included.
\<close>

theorem evhttp_uriencode_roundtrip:
  assumes "\<forall>n. malloc n \<noteq> None" "3 * length (encode_input uri len) + 1 < 2 ^ 31" "space_as_plus \<longrightarrow> decode_plus"
  shows "\<exists>e. evhttp_uriencode malloc uri len space_as_plus = Some (Some (e @ [NUL])) \<and>
           (\<forall>c \<in> set e. CHAR_IS_UNRESERVED c \<or> c = CHR ''%'' \<or> c = CHR ''+'' \<and> space_as_plus) \<and>
           evhttp_uridecode malloc e decode_plus = Some (encode_input uri len, length (encode_input uri len))"
proof (intro exI conjI)
  let ?e = "uri_encode space_as_plus (encode_input uri len)"
  show "evhttp_uriencode malloc uri len space_as_plus = Some (Some (?e @ [NUL]))"
    using assms(1,2) by (intro evhttp_uriencode_ok) auto
  show "\<forall>c \<in> set ?e. CHAR_IS_UNRESERVED c \<or> c = CHR ''%'' \<or> c = CHR ''+'' \<and> space_as_plus"
    using uri_encode_chars xdigit_unreserved by blast
  obtain x where "malloc (length ?e + 1) = Some x"
    using assms(1) by blast
  then show "evhttp_uridecode malloc ?e decode_plus = Some (encode_input uri len, length (encode_input uri len))"
    using decode_encode[OF assms(3)]
    by (cases decode_plus) (simp_all add: evhttp_uridecode_def evhttp_decode_uri_internal_def Let_def)
qed

theorem evhttp_uriencode_roundtrip_witness:
  "\<exists>e. evhttp_uriencode (\<lambda>n. Some n) [CHR ''a'', NUL, CHR '' '', CHR ''b''] 4 True = Some (Some (e @ [NUL])) \<and>
       evhttp_uridecode (\<lambda>n. Some n) e True = Some ([CHR ''a'', NUL, CHR '' '', CHR ''b''], 4)"
  using evhttp_uriencode_roundtrip[of "\<lambda>n. Some n" "[CHR ''a'', NUL, CHR '' '', CHR ''b'']" 4 True True]
  by (auto simp: encode_input_def)

text \<open>
  C23: A well-formed URI that is put together by \<open>evhttp_uri_join\<close> is the text of RFC 3986 and is parsed back to the
  same URI; a buffer that is too small gives NULL.
\<close>

theorem evhttp_uri_join_parse:
  assumes "uri_wf words0 u" "\<forall>n. malloc n \<noteq> None" "length (uri_text u) + 2 < 2 ^ 31" "0 < limit"
  shows "evhttp_uri_join malloc u limit = Some (if length (uri_text u) + 1 \<le> limit then Some (uri_text u @ [NUL]) else None) \<and>
         evhttp_uri_parse_with_flags malloc words0 (uri_text u) (uri_flags u) = Some u"
proof -
  have "\<not> (host u \<noteq> None \<and> bad_path u)"
    using assms(1) by (auto simp: uri_wf_def bad_path_iff split: option.splits)
  then show ?thesis
    using evhttp_uri_join_ok[where malloc = malloc, of u limit] parse_uri_text[where malloc = malloc, OF assms(1)] assms(2-4) by auto
qed

definition example_uri :: evhttp_uri where
  "example_uri = \<lparr>uri_flags = 0, scheme = Some ''http'', userinfo = Some ''me:pw'', host = Some ''[::1]'', port = 80,
     path = Some ''/a%20b'', query = Some ''q=1?'', fragment = Some ''top''\<rparr>"

lemma example_uri_wf: "uri_wf (replicate 8 0) example_uri"
  by code_simp

theorem evhttp_uri_join_parse_witness:
  "evhttp_uri_join (\<lambda>n. Some n) example_uri 100 = Some (Some (''http://me:pw@[::1]:80/a%20b?q=1?#top'' @ [NUL])) \<and>
   evhttp_uri_parse_with_flags (\<lambda>n. Some n) (replicate 8 0) ''http://me:pw@[::1]:80/a%20b?q=1?#top'' 0 = Some example_uri"
proof -
  have t: "uri_text example_uri = ''http://me:pw@[::1]:80/a%20b?q=1?#top''"
    by (simp add: uri_text_def scheme_text_def authority_text_def userinfo_text_def port_text_def tail_text_def part_text_def
        example_uri_def print_nat.simps[of 10 80] print_nat.simps[of 10 8] digit_char_def)
  show ?thesis
    using evhttp_uri_join_parse[OF example_uri_wf, of "\<lambda>n. Some n" 100] unfolding t by (simp add: example_uri_def)
qed

text \<open>
  C24: Whatever string \<open>evhttp_uri_parse_with_flags\<close> accepts, the result is a well-formed URI: each part satisfies its
  grammar and the parts can be put together again without being misread.
\<close>

theorem evhttp_uri_parse_wf:
  assumes "evhttp_uri_parse_with_flags malloc words0 s fl = Some u" "is_c_string s"
  shows "uri_wf words0 u \<and> uri_flags u = fl"
  using parse_uri_wf[OF assms] by blast

theorem evhttp_uri_parse_wf_witness:
  "\<exists>u. evhttp_uri_parse_with_flags (\<lambda>n. Some n) [] ''//a.b:0080?x'' 0 = Some u \<and> uri_wf [] u"
proof -
  have "evhttp_uri_parse_with_flags (\<lambda>n. Some n) [] ''//a.b:0080?x'' 0 =
    Some ((uri_init 0)\<lparr>host := Some ''a.b'', port := 80, path := Some [], query := Some ''x''\<rparr>)"
    by code_simp
  then show ?thesis
    using evhttp_uri_parse_wf[of "\<lambda>n. Some n" "[]" "''//a.b:0080?x''" 0] by (simp add: is_c_string_def NUL_def)
qed



text \<open>
  The arguments of a form, with non-empty keys without separators and values that are encoded, are read back by
  \<open>evhttp_parse_query_str\<close> exactly and in order.
\<close>

theorem evhttp_parse_query_roundtrip:
  assumes "\<forall>n. malloc n \<noteq> None" "list_all argument_ok kvs"
  shows "evhttp_parse_query_str malloc (query_text space_as_plus kvs) = (0, kvs)"
proof (cases "kvs = []")
  case False
  then obtain kv kvs' where "kvs = kv # kvs'"
    by (cases kvs) auto
  then have "query_text space_as_plus kvs \<noteq> []"
    using assms(2) by (cases kvs') (auto simp: argument_text_def)
  then show ?thesis
    using parse_query_text_ok[where malloc = malloc, OF _ assms(2) False, of space_as_plus "[]"]
      mm_strdup_total[where malloc = malloc and s = "query_text space_as_plus kvs"] assms(1)
    by (simp add: evhttp_parse_query_str_def parse_query_text_def)
qed (simp add: evhttp_parse_query_str_def parse_query_text_def)

end
