(* ===== verification/Evbuffer_Search.thy ===== *)
theory Evbuffer_Search
  imports Evbuffer_Move
begin

text \<open>
  Searching an evbuffer and reading lines from it, \<^verbatim>\<open>buffer.c\<close>. A pointer to a chain is its position in the list
  of chains; the rest of the chains from there on is what the loops run over.
\<close>

section \<open>Pointers into a buffer\<close>

record evbuffer_ptr =
  ptr_pos :: int
  ptr_chain :: "nat option"
  pos_in_chain :: nat

definition chains_from :: "evbuffer \<Rightarrow> nat option \<Rightarrow> evbuffer_chain list" where
  "chains_from buf c = (case c of None \<Rightarrow> [] | Some k \<Rightarrow> drop k (chains buf))"

definition chain_number :: "nat option \<Rightarrow> nat" where
  "chain_number c = (case c of None \<Rightarrow> 0 | Some k \<Rightarrow> k)"

text \<open>The pointer to chain \<open>k\<close>, NULL when there are no more chains.\<close>

definition chain_ptr :: "evbuffer_chain list \<Rightarrow> nat \<Rightarrow> nat option" where
  "chain_ptr cs k = (if cs = [] then None else Some k)"

definition first_ptr :: "evbuffer \<Rightarrow> evbuffer_ptr" where
  "first_ptr buf = \<lparr>ptr_pos = 0, ptr_chain = chain_ptr (chains buf) 0, pos_in_chain = 0\<rparr>"

datatype evbuffer_ptr_how = EVBUFFER_PTR_SET | EVBUFFER_PTR_ADD

text \<open>
  The loop of \<open>evbuffer_ptr_set\<close>: the chain and the position in it. The sum of the positions is a \<open>size_t\<close> and can
  wrap around; when it is not less than the length of the chain, \<open>left -= chain->off - position\<close> gives the difference.
\<close>

fun ptr_walk :: "evbuffer_chain list \<Rightarrow> nat \<Rightarrow> nat \<Rightarrow> nat \<Rightarrow> (nat \<times> nat) option" where
  "ptr_walk [] k position left = None"
| "ptr_walk (c # cs) k position left =
     (let sum = (position + left) mod 2 ^ 64 in
      if sum \<ge> ch_off c then ptr_walk cs (k + 1) 0 (sum - ch_off c) else Some (k, sum))"

definition to_int64 :: "int \<Rightarrow> int" where
  "to_int64 i = sint (word_of_int i :: 64 word)"

definition evbuffer_ptr_set :: "evbuffer \<Rightarrow> evbuffer_ptr \<Rightarrow> nat \<Rightarrow> evbuffer_ptr_how \<Rightarrow> int \<times> evbuffer_ptr" where
  "evbuffer_ptr_set buf p position how =
     (let (chain, pos, offset) =
        (case how of
           EVBUFFER_PTR_SET \<Rightarrow> (chain_ptr (chains buf) 0, to_int64 (int position), 0)
         | EVBUFFER_PTR_ADD \<Rightarrow> (ptr_chain p, to_int64 (ptr_pos p + int position), pos_in_chain p))
      in case ptr_walk (chains_from buf chain) (chain_number chain) offset position of
           Some (k, i) \<Rightarrow> (0, p\<lparr>ptr_pos := pos, ptr_chain := Some k, pos_in_chain := i\<rparr>)
         | None \<Rightarrow> (- 1, p\<lparr>ptr_pos := - 1, ptr_chain := None\<rparr>))"

section \<open>Searching\<close>

text \<open>\<open>memchr\<close> gives the position of the first byte with the value.\<close>

definition memchr :: "byte list \<Rightarrow> byte \<Rightarrow> nat option" where
  "memchr s c = (let n = length (takeWhile (\<lambda>x. x \<noteq> c) s) in if n < length s then Some n else None)"

lemma memchr_less: "memchr s c = Some j \<Longrightarrow> j < length s"
  by (auto simp: memchr_def Let_def split: if_splits)

fun memcmp_bytes :: "byte list \<Rightarrow> byte list \<Rightarrow> int" where
  "memcmp_bytes (x # xs) (y # ys) = (if x < y then - 1 else if y < x then 1 else memcmp_bytes xs ys)"
| "memcmp_bytes _ _ = 0"

fun ptr_memcmp_loop :: "evbuffer_chain list \<Rightarrow> nat \<Rightarrow> byte list \<Rightarrow> int" where
  "ptr_memcmp_loop [] position mem = 0"
| "ptr_memcmp_loop (c # cs) position mem =
     (if mem = [] then 0
      else let n_comparable = (if length mem + position > ch_off c then ch_off c - position else length mem);
               r = memcmp_bytes (take n_comparable (drop position (chain_data c))) (take n_comparable mem) in
        if r \<noteq> 0 then r else ptr_memcmp_loop cs 0 (drop n_comparable mem))"

definition evbuffer_ptr_memcmp :: "evbuffer \<Rightarrow> evbuffer_ptr \<Rightarrow> byte list \<Rightarrow> int" where
  "evbuffer_ptr_memcmp buf p mem =
     (if ptr_pos p + int (length mem) > int (total_len buf) then - 1
      else ptr_memcmp_loop (chains_from buf (ptr_chain p)) (pos_in_chain p) mem)"

text \<open>
  The loop of the search over the rest of the chains, which starts with chain \<open>k\<close> and is read from \<open>q\<close> on; \<open>pos\<close> is
  the position in the buffer. The end is a position that the text may reach, and the chain it is in.
\<close>

definition search_not_found :: "nat \<Rightarrow> evbuffer_ptr" where
  "search_not_found q = \<lparr>ptr_pos = - 1, ptr_chain = None, pos_in_chain = q\<rparr>"

function search_loop ::
    "evbuffer \<Rightarrow> byte list \<Rightarrow> evbuffer_ptr option \<Rightarrow> evbuffer_chain list \<Rightarrow> nat \<Rightarrow> nat \<Rightarrow> int \<Rightarrow> evbuffer_ptr" where
  "search_loop buf what end_ptr [] k q pos = search_not_found q"
| "search_loop buf what end_ptr (c # cs) k q pos =
     (case memchr (drop q (chain_data c)) (hd what) of
        Some j \<Rightarrow>
          (let p = \<lparr>ptr_pos = pos + int j, ptr_chain = Some k, pos_in_chain = q + j\<rparr> in
           if evbuffer_ptr_memcmp buf p what = 0 then
             (case end_ptr of
                Some e \<Rightarrow> if pos + int j + int (length what) > ptr_pos e then search_not_found (q + j) else p
              | None \<Rightarrow> p)
           else if q + j + 1 = ch_off c then search_loop buf what end_ptr cs (k + 1) 0 (pos + int j + 1)
           else search_loop buf what end_ptr (c # cs) k (q + j + 1) (pos + int j + 1))
      | None \<Rightarrow>
          if end_ptr \<noteq> None \<and> ptr_chain (the end_ptr) = Some k then search_not_found q
          else search_loop buf what end_ptr cs (k + 1) 0 (pos + (int (ch_off c) - int q)))"
  by pat_completeness auto

termination
  by (relation "measures [\<lambda>(b, w, e, cs, k, q, p). length cs,
      \<lambda>(b, w, e, cs, k, q, p). length (chain_data (hd cs)) - q]") (auto dest!: memchr_less)

definition EV_SSIZE_MAX :: nat where "EV_SSIZE_MAX = 2 ^ 63 - 1"

definition evbuffer_search_range ::
    "evbuffer \<Rightarrow> byte list \<Rightarrow> evbuffer_ptr option \<Rightarrow> evbuffer_ptr option \<Rightarrow> evbuffer_ptr" where
  "evbuffer_search_range buffer what start end_ptr =
     (let p = (case start of Some p \<Rightarrow> p | None \<Rightarrow> first_ptr buffer) in
      if what = [] \<or> length what > EV_SSIZE_MAX then p
      else search_loop buffer what end_ptr (chains_from buffer (ptr_chain p)) (chain_number (ptr_chain p))
             (pos_in_chain p) (ptr_pos p))"

definition evbuffer_search :: "evbuffer \<Rightarrow> byte list \<Rightarrow> evbuffer_ptr option \<Rightarrow> evbuffer_ptr" where
  "evbuffer_search buffer what start = evbuffer_search_range buffer what start None"

text \<open>The result of \<open>evbuffer_find\<close> is the memory from the position of the text on, of which a part is contiguous.\<close>

definition evbuffer_find :: "allocator \<Rightarrow> evbuffer \<Rightarrow> byte list \<Rightarrow> (byte list option \<times> evbuffer) option" where
  "evbuffer_find malloc buffer what =
     (let p = evbuffer_search buffer what None in
      if ptr_pos p < 0 then Some (None, buffer)
      else do {
        (mem, buffer') \<leftarrow> evbuffer_pullup malloc buffer (ptr_pos p + int (length what));
        Some (map_option (drop (nat (ptr_pos p))) mem, buffer')
      })"

section \<open>Ends of lines\<close>

datatype evbuffer_eol_style = EVBUFFER_EOL_ANY | EVBUFFER_EOL_CRLF | EVBUFFER_EOL_CRLF_STRICT | EVBUFFER_EOL_LF

definition CR_byte :: byte where "CR_byte = 13"
definition LF_byte :: byte where "LF_byte = 10"

text \<open>
  The loops that look for a byte: the result is -1, or the position, to which the pointer is set. Without success
  only the number \<open>pos\<close> is advanced.
\<close>

fun strchr_loop ::
    "(byte list \<Rightarrow> nat option) \<Rightarrow> evbuffer_chain list \<Rightarrow> nat \<Rightarrow> nat \<Rightarrow> evbuffer_ptr \<Rightarrow> int \<times> evbuffer_ptr" where
  "strchr_loop finder [] k i it = (- 1, it)"
| "strchr_loop finder (c # cs) k i it =
     (case finder (drop i (chain_data c)) of
        Some j \<Rightarrow> (ptr_pos it + int j, \<lparr>ptr_pos = ptr_pos it + int j, ptr_chain = Some k, pos_in_chain = i + j\<rparr>)
      | None \<Rightarrow> strchr_loop finder cs (k + 1) 0 (it\<lparr>ptr_pos := ptr_pos it + (int (ch_off c) - int i)\<rparr>))"

definition evbuffer_strchr :: "evbuffer \<Rightarrow> evbuffer_ptr \<Rightarrow> byte \<Rightarrow> int \<times> evbuffer_ptr" where
  "evbuffer_strchr buffer it chr =
     strchr_loop (\<lambda>s. memchr s chr) (chains_from buffer (ptr_chain it)) (chain_number (ptr_chain it)) (pos_in_chain it) it"

definition CHUNK_SZ :: nat where "CHUNK_SZ = 128"

function find_eol_char :: "byte list \<Rightarrow> nat option" where
  "find_eol_char s =
     (if s = [] then None
      else let chunk = (if CHUNK_SZ < length s then CHUNK_SZ else length s);
               cr = memchr (take chunk s) CR_byte; lf = memchr (take chunk s) LF_byte in
        case cr of
          Some i \<Rightarrow> (case lf of Some j \<Rightarrow> if j < i then Some j else Some i | None \<Rightarrow> Some i)
        | None \<Rightarrow> (case lf of
                    Some j \<Rightarrow> Some j
                  | None \<Rightarrow> map_option (\<lambda>n. CHUNK_SZ + n) (find_eol_char (drop CHUNK_SZ s))))"
  by pat_completeness auto
termination
  by (relation "measure length") (auto simp: CHUNK_SZ_def)

declare find_eol_char.simps [simp del]

definition evbuffer_find_eol_char :: "evbuffer \<Rightarrow> evbuffer_ptr \<Rightarrow> int \<times> evbuffer_ptr" where
  "evbuffer_find_eol_char buffer it =
     strchr_loop find_eol_char (chains_from buffer (ptr_chain it)) (chain_number (ptr_chain it)) (pos_in_chain it) it"

text \<open>The number of bytes from the pointer on that are in a set. At the end of the last chain the position is set to 0.\<close>

fun strspn_loop :: "byte list \<Rightarrow> evbuffer_chain list \<Rightarrow> nat \<Rightarrow> nat \<Rightarrow> nat \<Rightarrow> evbuffer_ptr \<Rightarrow> int \<times> evbuffer_ptr" where
  "strspn_loop chrset [] k i cnt p = (- 1, p)"
| "strspn_loop chrset (c # cs) k i cnt p =
     (let n = length (takeWhile (\<lambda>b. b \<in> set chrset) (drop i (chain_data c))) in
      if i + n < ch_off c
      then (int (cnt + n), p\<lparr>ptr_chain := Some k, pos_in_chain := i + n, ptr_pos := ptr_pos p + int (cnt + n)\<rparr>)
      else if cs = []
      then (int (cnt + n), p\<lparr>ptr_chain := Some k, pos_in_chain := 0, ptr_pos := ptr_pos p + int (cnt + n)\<rparr>)
      else strspn_loop chrset cs (k + 1) 0 (cnt + n) p)"

definition evbuffer_strspn :: "evbuffer \<Rightarrow> evbuffer_ptr \<Rightarrow> byte list \<Rightarrow> int \<times> evbuffer_ptr" where
  "evbuffer_strspn buffer p chrset =
     strspn_loop chrset (chains_from buffer (ptr_chain p)) (chain_number (ptr_chain p)) (pos_in_chain p) 0 p"

definition evbuffer_getchr :: "evbuffer \<Rightarrow> evbuffer_ptr \<Rightarrow> byte option" where
  "evbuffer_getchr buffer it =
     (case chains_from buffer (ptr_chain it) of
        [] \<Rightarrow> None
      | c # cs \<Rightarrow> if misalign c + pos_in_chain it < length (ch_mem c) then Some (ch_mem c ! (misalign c + pos_in_chain it)) else None)"

text \<open>
  The loop for \<open>EVBUFFER_EOL_CRLF\<close>: the pointer and the length of the line end, 0 when there is none. The outer
  \<open>None\<close> is an access outside a chain, or a loop that does not end.
\<close>

partial_function (option) crlf_loop :: "evbuffer \<Rightarrow> evbuffer_ptr \<Rightarrow> (nat \<times> evbuffer_ptr) option" where
  "crlf_loop buffer it =
     (let (r, it) = evbuffer_find_eol_char buffer it in
      if r < 0 then Some (0, it)
      else do {
        c \<leftarrow> evbuffer_getchr buffer it;
        if c = LF_byte then Some (1, it)
        else if evbuffer_ptr_memcmp buffer it [CR_byte, LF_byte] = 0 then Some (2, it)
        else (let (r, it) = evbuffer_ptr_set buffer it 1 EVBUFFER_PTR_ADD in
              if r < 0 then Some (0, it) else crlf_loop buffer it)
      })"

declare crlf_loop.simps [code]

text \<open>The length of the line end and the pointer.\<close>

definition evbuffer_search_eol ::
    "evbuffer \<Rightarrow> evbuffer_ptr option \<Rightarrow> evbuffer_eol_style \<Rightarrow> (nat \<times> evbuffer_ptr) option" where
  "evbuffer_search_eol buffer start eol_style =
     (let it = (case start of Some p \<Rightarrow> p | None \<Rightarrow> first_ptr buffer);
          failed = (\<lambda>it. it\<lparr>ptr_pos := - 1\<rparr>) in
      case eol_style of
        EVBUFFER_EOL_ANY \<Rightarrow>
          (let (r, it) = evbuffer_find_eol_char buffer it in
           if r < 0 then Some (0, failed it)
           else Some (unat (word_of_int (fst (evbuffer_strspn buffer it [CR_byte, LF_byte])) :: 64 word), it))
      | EVBUFFER_EOL_CRLF_STRICT \<Rightarrow>
          (let it = evbuffer_search buffer [CR_byte, LF_byte] (Some it) in
           if ptr_pos it < 0 then Some (0, failed it) else Some (2, it))
      | EVBUFFER_EOL_CRLF \<Rightarrow> do {
          (n, it) \<leftarrow> crlf_loop buffer it;
          if n = 0 then Some (0, failed it) else Some (n, it)
        }
      | EVBUFFER_EOL_LF \<Rightarrow>
          (let (r, it) = evbuffer_strchr buffer it LF_byte in
           if r < 0 then Some (0, failed it) else Some (1, it)))"

text \<open>The line without its end, or NULL.\<close>

definition evbuffer_readln ::
    "allocator \<Rightarrow> evbuffer \<Rightarrow> evbuffer_eol_style \<Rightarrow> (byte list option \<times> nat \<times> evbuffer) option" where
  "evbuffer_readln malloc buffer eol_style =
     (if freeze_start buffer then Some (None, 0, buffer)
      else do {
        (extra_drain, it) \<leftarrow> evbuffer_search_eol buffer None eol_style;
        if ptr_pos it < 0 then Some (None, 0, buffer)
        else (let n_to_copy = nat (ptr_pos it) in
              case malloc (n_to_copy + 1) of
                None \<Rightarrow> Some (None, 0, buffer)
              | Some _ \<Rightarrow> do {
                  (_, line, buffer) \<leftarrow> evbuffer_remove buffer n_to_copy;
                  (_, buffer) \<leftarrow> evbuffer_drain buffer extra_drain;
                  Some (Some line, n_to_copy, buffer)
                })
      })"

definition evbuffer_readline :: "allocator \<Rightarrow> evbuffer \<Rightarrow> (byte list option \<times> nat \<times> evbuffer) option" where
  "evbuffer_readline malloc buffer = evbuffer_readln malloc buffer EVBUFFER_EOL_ANY"

section \<open>The bytes behind a pointer\<close>

definition chain_bytes :: "evbuffer_chain list \<Rightarrow> byte list" where
  "chain_bytes cs = concat (map chain_data cs)"

lemma chain_bytes_simps [simp]: "chain_bytes [] = []" "chain_bytes (c # cs) = chain_data c @ chain_bytes cs"
  by (simp_all add: chain_bytes_def)

text \<open>The pointer is at position \<open>n\<close> of the buffer.\<close>

definition ptr_at :: "evbuffer \<Rightarrow> evbuffer_ptr \<Rightarrow> nat \<Rightarrow> bool" where
  "ptr_at buf p n \<longleftrightarrow> ptr_pos p = int n \<and>
     (case ptr_chain p of
        None \<Rightarrow> chains buf = [] \<and> n = 0 \<and> pos_in_chain p = 0
      | Some k \<Rightarrow> k < length (chains buf) \<and> pos_in_chain p \<le> ch_off (chains buf ! k) \<and>
          n = sum_list (map ch_off (take k (chains buf))) + pos_in_chain p)"

lemma first_ptr_at [simp]: "ptr_at buf (first_ptr buf) 0"
  by (simp add: ptr_at_def first_ptr_def chain_ptr_def)

lemma wf_chain_data: "evbuffer_wf buf \<Longrightarrow> c \<in> set (chains buf) \<Longrightarrow> length (chain_data c) = ch_off c"
  using evbuffer_wfD(1) length_chain_data by blast

lemma length_chain_bytes:
  assumes "\<forall>c \<in> set cs. length (chain_data c) = ch_off c"
  shows "length (chain_bytes cs) = sum_list (map ch_off cs)"
  using assms by (induction cs) simp_all

text \<open>What the loops know of the rest of the chains.\<close>

definition suffix_at :: "evbuffer \<Rightarrow> evbuffer_chain list \<Rightarrow> nat \<Rightarrow> nat \<Rightarrow> nat \<Rightarrow> bool" where
  "suffix_at buf cs k q n \<longleftrightarrow> cs = drop k (chains buf) \<and> k \<le> length (chains buf) \<and>
     q \<le> (case cs of [] \<Rightarrow> 0 | c # _ \<Rightarrow> ch_off c) \<and> n = sum_list (map ch_off (take k (chains buf))) + q"

lemma suffix_bytes:
  assumes "evbuffer_wf buf" "suffix_at buf cs k q n"
  shows "drop q (chain_bytes cs) = drop n (evbuffer_content buf)" "n + length (drop q (chain_bytes cs)) = length (evbuffer_content buf)"
proof -
  have data: "\<forall>c \<in> set (chains buf). length (chain_data c) = ch_off c"
    using wf_chain_data[OF assms(1)] by blast
  have split: "evbuffer_content buf = chain_bytes (take k (chains buf)) @ chain_bytes cs"
    using assms(2) unfolding evbuffer_content_def chain_bytes_def suffix_at_def
    by (metis append_take_drop_id concat_append map_append)
  have len: "length (chain_bytes (take k (chains buf))) = sum_list (map ch_off (take k (chains buf)))"
    using data by (intro length_chain_bytes) (auto dest: in_set_takeD)
  show "drop q (chain_bytes cs) = drop n (evbuffer_content buf)"
    using assms(2) len by (simp add: split suffix_at_def)
  have "q \<le> length (chain_bytes cs)"
  proof (cases cs)
    case (Cons c cs')
    then have "c \<in> set (chains buf)"
      using assms(2) by (metis suffix_at_def in_set_dropD list.set_intros(1))
    moreover have "q \<le> ch_off c"
      using assms(2) unfolding suffix_at_def Cons by simp
    ultimately show ?thesis
      using data by (simp add: Cons)
  qed (use assms(2) in \<open>simp add: suffix_at_def\<close>)
  then show "n + length (drop q (chain_bytes cs)) = length (evbuffer_content buf)"
    using assms(2) len by (simp add: split suffix_at_def)
qed

lemma ptr_suffix:
  assumes "ptr_at buf p n"
  shows "suffix_at buf (chains_from buf (ptr_chain p)) (chain_number (ptr_chain p)) (pos_in_chain p) n"
  using assms by (auto simp: ptr_at_def suffix_at_def chains_from_def chain_number_def split: option.splits list.splits
      dest: drop_eq_Nil2[THEN iffD1] simp: Cons_nth_drop_Suc[symmetric])

lemma suffix_ConsD:
  assumes "suffix_at buf (c # cs) k q n" "evbuffer_wf buf"
  shows "k < length (chains buf)" "chains buf ! k = c" "q \<le> ch_off c" "length (chain_data c) = ch_off c"
    "i \<le> ch_off c \<Longrightarrow> ptr_at buf \<lparr>ptr_pos = int (n - q + i), ptr_chain = Some k, pos_in_chain = i\<rparr> (n - q + i)"
    "suffix_at buf cs (k + 1) 0 (n - q + ch_off c)" "i \<le> ch_off c \<Longrightarrow> suffix_at buf (c # cs) k i (n - q + i)" "q \<le> n"
proof -
  have cs: "c # cs = drop k (chains buf)" "q \<le> ch_off c" "n = sum_list (map ch_off (take k (chains buf))) + q"
    using assms(1) by (simp_all add: suffix_at_def)
  then show k: "k < length (chains buf)"
    by (metis drop_eq_Nil2 linorder_not_le list.distinct(1))
  then show nth: "chains buf ! k = c"
    using cs(1) by (metis Cons_nth_drop_Suc list.inject)
  show "q \<le> ch_off c" "q \<le> n"
    using cs by simp_all
  show "length (chain_data c) = ch_off c"
    using wf_chain_data[OF assms(2)] nth k by (metis nth_mem)
  have cs': "cs = drop (k + 1) (chains buf)"
    using cs(1) k by (metis Cons_nth_drop_Suc Suc_eq_plus1 list.inject)
  show "i \<le> ch_off c \<Longrightarrow> ptr_at buf \<lparr>ptr_pos = int (n - q + i), ptr_chain = Some k, pos_in_chain = i\<rparr> (n - q + i)"
    using k nth cs(3) by (simp add: ptr_at_def)
  show "suffix_at buf cs (k + 1) 0 (n - q + ch_off c)"
    using k cs cs' nth by (simp add: suffix_at_def take_Suc_conv_app_nth split: list.splits)
  show "i \<le> ch_off c \<Longrightarrow> suffix_at buf (c # cs) k i (n - q + i)"
    using k cs(1)[symmetric] cs(3) by (simp add: suffix_at_def)
qed

section \<open>The first position with a property\<close>

text \<open>The reference definition of the searches: the first position at which the rest of the bytes has a property.\<close>

fun first_at :: "(byte list \<Rightarrow> bool) \<Rightarrow> byte list \<Rightarrow> nat option" where
  "first_at P [] = None"
| "first_at P (x # xs) = (if P (x # xs) then Some 0 else map_option Suc (first_at P xs))"

lemma first_at_Some: "first_at P s = Some j \<longleftrightarrow> j < length s \<and> P (drop j s) \<and> (\<forall>i<j. \<not> P (drop i s))"
proof (induction s arbitrary: j)
  case (Cons x xs)
  show ?case
  proof (cases "P (x # xs)")
    case True
    then show ?thesis by (cases j) auto
  next
    case False
    then show ?thesis by (cases j) (auto simp: Cons All_less_Suc2)
  qed
qed simp

lemma first_at_None: "first_at P s = None \<longleftrightarrow> (\<forall>i<length s. \<not> P (drop i s))"
  by (induction s) (auto simp: All_less_Suc2)

lemma first_at_skip:
  assumes "m \<le> length s" "\<forall>i<m. \<not> P (drop i s)"
  shows "first_at P s = map_option ((+) m) (first_at P (drop m s))"
  using assms
proof (induction m arbitrary: s)
  case (Suc m)
  then obtain x xs where s: "s = x # xs" by (cases s) auto
  then have "first_at P xs = map_option ((+) m) (first_at P (drop m xs))"
    using Suc by (auto simp: All_less_Suc2)
  moreover have "\<not> P (x # xs)"
    using Suc.prems(2) s by auto
  ultimately show ?case
    by (simp add: s option.map_comp comp_def)
qed (simp add: option.map_ident_strong)

lemma first_at_cong: "(\<And>i. i < length s \<Longrightarrow> P (drop i s) = Q (drop i s)) \<Longrightarrow> first_at P s = first_at Q s"
proof (induction s)
  case (Cons x xs)
  have "first_at P xs = first_at Q xs"
    using Cons.prems[of "Suc i" for i] by (intro Cons.IH) simp
  then show ?case using Cons.prems[of 0] by simp
qed simp

lemma first_at_here: "P s \<Longrightarrow> s \<noteq> [] \<Longrightarrow> first_at P s = Some 0"
  by (cases s) simp_all

lemma first_at_holds: "first_at P s = Some j \<Longrightarrow> P (drop j s)"
  by (simp add: first_at_Some)

text \<open>For a property of the first byte the chains can be searched one after the other.\<close>

definition at_byte :: "(byte \<Rightarrow> bool) \<Rightarrow> byte list \<Rightarrow> bool" where
  "at_byte p s = (case s of [] \<Rightarrow> False | x # _ \<Rightarrow> p x)"

lemma at_byte_simps [simp]: "\<not> at_byte p []" "at_byte p (x # s) = p x"
  by (simp_all add: at_byte_def)

lemma first_at_byte_append: "first_at (at_byte p) (xs @ ys) =
    (case first_at (at_byte p) xs of Some j \<Rightarrow> Some j | None \<Rightarrow> map_option ((+) (length xs)) (first_at (at_byte p) ys))"
  by (induction xs) (auto simp: map_option_case split: option.splits)

lemma memchr_first_at: "memchr s c = first_at (at_byte (\<lambda>x. x = c)) s"
  by (induction s) (auto simp: memchr_def Let_def map_option_case split: option.splits)

lemma first_at_byte_or: "first_at (at_byte (\<lambda>x. p x \<or> q x)) s =
    (case first_at (at_byte p) s of
       Some i \<Rightarrow> (case first_at (at_byte q) s of Some j \<Rightarrow> Some (min i j) | None \<Rightarrow> Some i)
     | None \<Rightarrow> first_at (at_byte q) s)"
  by (induction s) (auto split: option.splits)

text \<open>The search in chunks finds the first carriage return or line feed.\<close>

abbreviation is_eol_byte :: "byte \<Rightarrow> bool" where
  "is_eol_byte x \<equiv> x = CR_byte \<or> x = LF_byte"

lemma find_eol_char_first_at: "find_eol_char s = first_at (at_byte is_eol_byte) s"
proof (induction s rule: find_eol_char.induct)
  case (1 s)
  show ?case
  proof (cases "s = []")
    case False
    define chunk where "chunk = (if CHUNK_SZ < length s then CHUNK_SZ else length s)"
    have split: "first_at (at_byte is_eol_byte) s =
        (case first_at (at_byte is_eol_byte) (take chunk s) of Some j \<Rightarrow> Some j
         | None \<Rightarrow> map_option ((+) (length (take chunk s))) (first_at (at_byte is_eol_byte) (drop chunk s)))"
      by (subst append_take_drop_id[of chunk s, symmetric], subst first_at_byte_append) (rule refl)
    have rest: "map_option ((+) (length (take chunk s))) (first_at (at_byte is_eol_byte) (drop chunk s)) =
        map_option (\<lambda>n. CHUNK_SZ + n) (first_at (at_byte is_eol_byte) (drop CHUNK_SZ s))"
      by (auto simp: chunk_def)
    show ?thesis
    proof (cases "first_at (at_byte is_eol_byte) (take chunk s)")
      case None
      then have none: "memchr (take chunk s) CR_byte = None" "memchr (take chunk s) LF_byte = None"
        unfolding memchr_first_at first_at_byte_or by (auto split: option.splits)
      then show ?thesis
        using 1[OF False] None split rest False
        by (subst find_eol_char.simps) (simp add: chunk_def[symmetric])
    next
      case (Some j)
      then show ?thesis
        using False split
        by (subst find_eol_char.simps)
          (auto simp: Let_def chunk_def[symmetric] memchr_first_at first_at_byte_or min_def split: option.splits)
    qed
  qed (simp add: find_eol_char.simps)
qed

section \<open>The loops of the search\<close>

text \<open>The pointer is at the byte at position \<open>n\<close>.\<close>

definition ptr_in :: "evbuffer \<Rightarrow> evbuffer_ptr \<Rightarrow> nat \<Rightarrow> bool" where
  "ptr_in buf p n \<longleftrightarrow> ptr_at buf p n \<and> (\<exists>k. ptr_chain p = Some k \<and> pos_in_chain p < ch_off (chains buf ! k))"

lemma suffix_split:
  assumes "evbuffer_wf buf" "suffix_at buf (c # cs) k q n"
  shows "drop n (evbuffer_content buf) = drop q (chain_data c) @ drop (n - q + ch_off c) (evbuffer_content buf)"
proof -
  note S = suffix_ConsD[OF assms(2,1)]
  have "drop n (evbuffer_content buf) = drop q (chain_data c) @ chain_bytes cs"
    using suffix_bytes(1)[OF assms] S(3,4) by simp
  then show ?thesis using suffix_bytes(1)[OF assms(1) S(6)] by simp
qed

lemma suffix_Nil: "evbuffer_wf buf \<Longrightarrow> suffix_at buf [] k q n \<Longrightarrow> drop n (evbuffer_content buf) = []"
  using suffix_bytes(1)[of buf "[]"] by fastforce

lemma suffix_find:
  assumes "evbuffer_wf buf" "suffix_at buf (c # cs) k q n"
  shows "first_at (at_byte p) (drop q (chain_data c)) = Some j \<Longrightarrow>
           first_at (at_byte p) (drop n (evbuffer_content buf)) = Some j"
    "first_at (at_byte p) (drop q (chain_data c)) = Some j \<Longrightarrow> q + j < ch_off c"
    "first_at (at_byte p) (drop q (chain_data c)) = None \<Longrightarrow>
       first_at (at_byte p) (drop n (evbuffer_content buf)) =
       map_option ((+) (ch_off c - q)) (first_at (at_byte p) (drop (n - q + ch_off c) (evbuffer_content buf)))"
proof -
  note S = suffix_ConsD(3,4)[OF assms(2,1)] and split = suffix_split[OF assms]
  show "first_at (at_byte p) (drop n (evbuffer_content buf)) = Some j"
    if "first_at (at_byte p) (drop q (chain_data c)) = Some j"
    unfolding split first_at_byte_append using that by simp
  show "q + j < ch_off c" if "first_at (at_byte p) (drop q (chain_data c)) = Some j"
    using that S by (auto simp: first_at_Some)
  show "first_at (at_byte p) (drop n (evbuffer_content buf)) =
       map_option ((+) (ch_off c - q)) (first_at (at_byte p) (drop (n - q + ch_off c) (evbuffer_content buf)))"
    if "first_at (at_byte p) (drop q (chain_data c)) = None"
    unfolding split first_at_byte_append using that S by simp
qed

lemma suffix_ptr_in:
  assumes "suffix_at buf (c # cs) k q n" "evbuffer_wf buf" "q + j < ch_off c"
  shows "ptr_in buf \<lparr>ptr_pos = int n + int j, ptr_chain = Some k, pos_in_chain = q + j\<rparr> (n + j)"
proof -
  note S = suffix_ConsD[OF assms(1,2)]
  have "n - q + (q + j) = n + j" using S(8) by simp
  then show ?thesis
    using S(5)[of "q + j"] S(2) assms(3) by (simp add: ptr_in_def)
qed

lemma ptr_in_bytes:
  assumes "evbuffer_wf buf" "ptr_in buf p n"
  obtains k where "ptr_chain p = Some k" "k < length (chains buf)" "pos_in_chain p < ch_off (chains buf ! k)"
    "chain_data (chains buf ! k) ! pos_in_chain p = evbuffer_content buf ! n" "n < length (evbuffer_content buf)"
    "n < total_len buf"
proof -
  obtain k where k: "ptr_chain p = Some k" "pos_in_chain p < ch_off (chains buf ! k)" "ptr_at buf p n"
    using assms(2) by (auto simp: ptr_in_def)
  then have kl: "k < length (chains buf)"
    by (simp add: ptr_at_def)
  have cs: "chains_from buf (ptr_chain p) = chains buf ! k # drop (Suc k) (chains buf)"
    using k(1) kl by (simp add: chains_from_def Cons_nth_drop_Suc)
  note S = ptr_suffix[OF k(3), unfolded cs]
  have "drop n (evbuffer_content buf) = drop (pos_in_chain p) (chain_data (chains buf ! k)) @
      drop (n - pos_in_chain p + ch_off (chains buf ! k)) (evbuffer_content buf)"
    by (rule suffix_split[OF assms(1) S])
  moreover have "pos_in_chain p < length (chain_data (chains buf ! k))"
    using k(2) suffix_ConsD(4)[OF S assms(1)] by simp
  ultimately have "n < length (evbuffer_content buf)" "hd (drop n (evbuffer_content buf)) = chain_data (chains buf ! k) ! pos_in_chain p"
    by (auto simp: hd_append hd_drop_conv_nth dest!: arg_cong[of _ _ length])
  then show ?thesis
    using that[OF k(1) kl k(2)] length_evbuffer_content[OF assms(1)] by (simp add: hd_drop_conv_nth)
qed

lemma ptr_in_less: "evbuffer_wf buf \<Longrightarrow> ptr_in buf p n \<Longrightarrow> n < total_len buf"
  by (erule ptr_in_bytes)

lemma strchr_loop_ok:
  assumes "evbuffer_wf buf" "\<And>s. finder s = first_at (at_byte p) s"
  shows "suffix_at buf cs k q n \<Longrightarrow> ptr_pos it = int n \<Longrightarrow>
     (case first_at (at_byte p) (drop n (evbuffer_content buf)) of
        None \<Rightarrow> fst (strchr_loop finder cs k q it) = - 1
      | Some j \<Rightarrow> \<exists>it'. strchr_loop finder cs k q it = (int (n + j), it') \<and> ptr_in buf it' (n + j))"
proof (induction cs arbitrary: k q n it)
  case Nil
  then show ?case using suffix_Nil[OF assms(1)] by simp
next
  case (Cons c cs)
  note S = suffix_ConsD[OF Cons.prems(1) assms(1)] and F = suffix_find[OF assms(1) Cons.prems(1), of p]
  show ?case
  proof (cases "first_at (at_byte p) (drop q (chain_data c))")
    case (Some j)
    then show ?thesis
      using F(1,2)[OF Some] Cons.prems(2) suffix_ptr_in[OF Cons.prems(1) assms(1) F(2)[OF Some]]
      by (simp add: assms(2))
  next
    case None
    define m where "m = n - q + ch_off c"
    have pos: "int n + (int (ch_off c) - int q) = int m" "n + (ch_off c - q + j) = m + j" for j
      using S(3,8) by (simp_all add: m_def)
    have "strchr_loop finder (c # cs) k q it = strchr_loop finder cs (k + 1) 0 (it\<lparr>ptr_pos := int m\<rparr>)"
      using None Cons.prems(2) pos(1) by (simp add: assms(2))
    then show ?thesis
      using Cons.IH[OF S(6)[folded m_def], of "it\<lparr>ptr_pos := int m\<rparr>"] F(3)[OF None, folded m_def]
      by (cases "first_at (at_byte p) (drop m (evbuffer_content buf))") (simp_all only: pos(2) option.map option.case, simp_all)
  qed
qed

text \<open>The comparison with the bytes behind a pointer.\<close>

lemma memcmp_bytes_0: "length xs = length ys \<Longrightarrow> memcmp_bytes xs ys = 0 \<longleftrightarrow> xs = ys"
  by (induction xs ys rule: list_induct2) auto

lemma memcmp_loop_ok:
  assumes "evbuffer_wf buf"
  shows "suffix_at buf cs k q n \<Longrightarrow> n + length mem \<le> length (evbuffer_content buf) \<Longrightarrow>
     ptr_memcmp_loop cs q mem = 0 \<longleftrightarrow> take (length mem) (drop n (evbuffer_content buf)) = mem"
proof (induction cs arbitrary: k q n mem)
  case Nil
  have "length (evbuffer_content buf) \<le> n"
    using suffix_Nil[OF assms Nil.prems(1)] by simp
  then have "mem = []"
    using Nil.prems(2) by (cases mem) simp_all
  then show ?case by simp
next
  case (Cons c cs)
  note S = suffix_ConsD[OF Cons.prems(1) assms]
  define m where "m = n - q + ch_off c"
  define r where "r = drop m (evbuffer_content buf)"
  have split: "drop n (evbuffer_content buf) = drop q (chain_data c) @ r"
    using suffix_split[OF assms Cons.prems(1)] by (simp add: r_def m_def)
  show ?case
  proof (cases "length mem + q > ch_off c")
    case True
    define l where "l = ch_off c - q"
    have l: "l < length mem" "length (drop q (chain_data c)) = l" "m = n + l"
      using True S(3,4,8) by (auto simp: l_def m_def)
    have "ptr_memcmp_loop cs 0 (drop l mem) = 0 \<longleftrightarrow> take (length (drop l mem)) r = drop l mem"
      unfolding r_def using Cons.prems(2) l by (intro Cons.IH[OF S(6)[folded m_def]]) simp
    moreover have "memcmp_bytes (drop q (chain_data c)) (take l mem) = 0 \<longleftrightarrow> drop q (chain_data c) = take l mem"
      using l by (intro memcmp_bytes_0) simp
    moreover have "take (length mem) (drop q (chain_data c) @ r) = mem \<longleftrightarrow>
        drop q (chain_data c) = take l mem \<and> take (length (drop l mem)) r = drop l mem"
      using l by (auto simp: append_eq_conv_conj dest: arg_cong[of _ _ "take l"] arg_cong[of _ _ "drop l"])
    ultimately show ?thesis
      using True l by (auto simp: split Let_def l_def[symmetric])
  next
    case False
    then have "take (length mem) (drop n (evbuffer_content buf)) = take (length mem) (drop q (chain_data c))"
      using S(3,4) by (simp add: split)
    moreover have "memcmp_bytes (take (length mem) (drop q (chain_data c))) mem = 0 \<longleftrightarrow>
        take (length mem) (drop q (chain_data c)) = mem"
      using False S(3,4) by (intro memcmp_bytes_0) simp
    ultimately show ?thesis
      using False by (cases cs) (auto simp: Let_def)
  qed
qed

lemma evbuffer_ptr_memcmp_ok:
  assumes "evbuffer_wf buf" "ptr_at buf p n"
  shows "evbuffer_ptr_memcmp buf p mem = 0 \<longleftrightarrow> take (length mem) (drop n (evbuffer_content buf)) = mem"
proof (cases "n + length mem \<le> length (evbuffer_content buf)")
  case True
  then show ?thesis
    using memcmp_loop_ok[OF assms(1) ptr_suffix[OF assms(2)]] assms length_evbuffer_content[OF assms(1)]
    by (auto simp: evbuffer_ptr_memcmp_def ptr_at_def)
next
  case False
  have "n \<le> length (evbuffer_content buf)"
    using suffix_bytes(2)[OF assms(1) ptr_suffix[OF assms(2)]] by simp
  then have "length (take (length mem) (drop n (evbuffer_content buf))) \<noteq> length mem"
    using False by simp
  then have "take (length mem) (drop n (evbuffer_content buf)) \<noteq> mem"
    by metis
  then show ?thesis
    using False assms length_evbuffer_content[OF assms(1)] by (auto simp: evbuffer_ptr_memcmp_def ptr_at_def)
qed

text \<open>A text is looked for at the places of its first byte only.\<close>

lemma first_at_skipped:
  assumes "first_at P s = map_option ((+) m) (first_at P (drop m s))" "m \<le> length s" "i < m"
  shows "\<not> P (drop i s)"
proof (cases "first_at P s")
  case None
  then show ?thesis using assms(2,3) by (simp add: first_at_None)
next
  case (Some j)
  then have "i < j" using assms(1,3) by auto
  then show ?thesis using Some by (simp add: first_at_Some)
qed

lemma first_at_skip_byte:
  assumes "\<forall>s. Q s \<longrightarrow> P s" "first_at P s = map_option ((+) m) (first_at P (drop m s))" "m \<le> length s"
  shows "first_at Q s = map_option ((+) m) (first_at Q (drop m s))"
proof -
  have "\<forall>i<m. \<not> Q (drop i s)"
    using assms(1) first_at_skipped[OF assms(2,3)] by blast
  then show ?thesis by (rule first_at_skip[OF assms(3)])
qed

lemma first_at_next_byte:
  assumes "\<forall>s. Q s \<longrightarrow> P s" "first_at P s = Some j"
  shows "first_at Q s = (if Q (drop j s) then Some j else map_option ((+) (Suc j)) (first_at Q (drop (Suc j) s)))"
proof -
  have j: "j < length s" "\<forall>i<j. \<not> Q (drop i s)"
    using assms by (auto simp: first_at_Some)
  show ?thesis
  proof (cases "Q (drop j s)")
    case True
    then show ?thesis using j by (simp add: first_at_Some)
  next
    case False
    then show ?thesis using j first_at_skip[of "Suc j" s Q] by (simp add: less_Suc_eq)
  qed
qed

definition starts_with :: "byte list \<Rightarrow> byte list \<Rightarrow> bool" where
  "starts_with what s \<longleftrightarrow> take (length what) s = what"

lemma starts_with_hd: "what \<noteq> [] \<Longrightarrow> \<forall>s. starts_with what s \<longrightarrow> at_byte (\<lambda>x. x = hd what) s"
proof (intro allI impI)
  fix s
  assume "what \<noteq> []" "starts_with what s"
  then show "at_byte (\<lambda>x. x = hd what) s"
    by (cases what; cases s) (auto simp: starts_with_def)
qed

text \<open>
  What the search promises, for the place \<open>x\<close> of the text that \<open>first_at\<close> gives: a pointer there if the text ends
  before the given end, or the pointer that says that there is none.
\<close>

definition search_answer :: "evbuffer \<Rightarrow> byte list \<Rightarrow> evbuffer_ptr option \<Rightarrow> nat \<Rightarrow> nat option \<Rightarrow> evbuffer_ptr \<Rightarrow> bool" where
  "search_answer buf what end_ptr n x r \<longleftrightarrow>
     (case x of
        Some j \<Rightarrow>
          if (case end_ptr of Some e \<Rightarrow> int (n + j + length what) \<le> ptr_pos e | None \<Rightarrow> True) then ptr_in buf r (n + j)
          else ptr_pos r = - 1 \<and> ptr_chain r = None
      | None \<Rightarrow> ptr_pos r = - 1 \<and> ptr_chain r = None)"

lemma search_answer_skip:
  "n' = n + m \<Longrightarrow> search_answer buf what e n (map_option ((+) m) x) r = search_answer buf what e n' x r"
  by (cases x; cases e) (simp_all add: search_answer_def add.assoc)

lemma search_not_found_simps [simp]:
  "ptr_pos (search_not_found q) = - 1" "ptr_chain (search_not_found q) = None"
  by (simp_all add: search_not_found_def)

lemma suffix_skip:
  assumes wf: "evbuffer_wf buf" and S: "suffix_at buf (c # cs) k q n" and what: "what \<noteq> []"
    and none: "first_at (at_byte (\<lambda>x. x = hd what)) (drop q (chain_data c)) = None"
  shows "first_at (starts_with what) (drop n (evbuffer_content buf)) =
    map_option ((+) (ch_off c - q)) (first_at (starts_with what) (drop (n - q + ch_off c) (evbuffer_content buf)))"
proof -
  note C = suffix_ConsD[OF S wf]
  have "ch_off c - q \<le> length (drop n (evbuffer_content buf))"
    using suffix_split[OF wf S] C(3,4) by simp
  moreover have "drop (ch_off c - q) (drop n (evbuffer_content buf)) = drop (n - q + ch_off c) (evbuffer_content buf)"
    using suffix_split[OF wf S] C(3,4) by simp
  ultimately show ?thesis
    using first_at_skip_byte[OF starts_with_hd[OF what], of "drop n (evbuffer_content buf)" "ch_off c - q"]
      suffix_find(3)[OF wf S none] by (simp only:)
qed

lemma search_loop_end:
  assumes wf: "evbuffer_wf buf" and S: "suffix_at buf (c # cs) k q n" and what: "what \<noteq> []"
    and none: "first_at (at_byte (\<lambda>x. x = hd what)) (drop q (chain_data c)) = None"
    and e: "ptr_at buf e m" "ptr_chain e = Some k"
  shows "search_answer buf what (Some e) n (first_at (starts_with what) (drop n (evbuffer_content buf))) (search_not_found i)"
proof (cases "first_at (starts_with what) (drop n (evbuffer_content buf))")
  case (Some j)
  note C = suffix_ConsD[OF S wf]
  have "ch_off c - q \<le> j"
    using suffix_skip[OF wf S what none] Some by (auto dest: sym)
  moreover have "ptr_pos e \<le> int (n - q + ch_off c)"
    using e C(2,8) S by (auto simp: ptr_at_def suffix_at_def)
  moreover have "length what > 0"
    using what by simp
  ultimately have "\<not> int (n + j + length what) \<le> ptr_pos e"
    using C(3,8) by linarith
  then show ?thesis by (simp add: search_answer_def Some)
qed (simp add: search_answer_def)

lemma search_loop_ok:
  assumes wf: "evbuffer_wf buf"
  shows "what \<noteq> [] \<Longrightarrow> (\<And>e. end_ptr = Some e \<Longrightarrow> \<exists>m. ptr_at buf e m) \<Longrightarrow> suffix_at buf cs k q n \<Longrightarrow> pos = int n \<Longrightarrow>
     search_answer buf what end_ptr n
       (first_at (starts_with what) (drop n (evbuffer_content buf))) (search_loop buf what end_ptr cs k q pos)"
  using wf
proof (induction buf what end_ptr cs k q pos arbitrary: n rule: search_loop.induct)
  case (1 buf what end_ptr k q pos)
  then show ?case using suffix_Nil[OF 1(5,3)] by (simp add: search_answer_def)
next
  case (2 buf what end_ptr c cs k q pos)
  let ?B = "evbuffer_content buf"
  note wf = 2(8) and what = 2(4) and e = 2(5) and S = 2(6) and pos = 2(7)
  note C = suffix_ConsD[OF S wf]
  show ?case
  proof (cases "memchr (drop q (chain_data c)) (hd what)")
    case None
    then have none: "first_at (at_byte (\<lambda>x. x = hd what)) (drop q (chain_data c)) = None"
      by (simp add: memchr_first_at)
    show ?thesis
    proof (cases "end_ptr \<noteq> None \<and> ptr_chain (the end_ptr) = Some k")
      case True
      then obtain e' m where "end_ptr = Some e'" "ptr_at buf e' m" "ptr_chain e' = Some k"
        using e by fastforce
      then show ?thesis
        using None search_loop_end[OF wf S what none] by simp
    next
      case False
      define m where "m = n - q + ch_off c"
      have m: "pos + (int (ch_off c) - int q) = int m" "m = n + (ch_off c - q)"
        using C(3,8) pos by (simp_all add: m_def)
      have "first_at (starts_with what) (drop n ?B) =
          map_option ((+) (ch_off c - q)) (first_at (starts_with what) (drop m ?B))"
        using suffix_skip[OF wf S what none] by (simp add: m_def)
      then show ?thesis
        using 2(1)[OF None False what e C(6)[folded m_def] m(1) wf] None False
        by (auto simp: search_answer_skip[OF m(2)])
    qed
  next
    case (Some j)
    then have some: "first_at (at_byte (\<lambda>x. x = hd what)) (drop q (chain_data c)) = Some j"
      by (simp add: memchr_first_at)
    note F = suffix_find(1,2)[OF wf S some]
    define p where "p = \<lparr>ptr_pos = pos + int j, ptr_chain = Some k, pos_in_chain = q + j\<rparr>"
    have p: "ptr_in buf p (n + j)"
      using suffix_ptr_in[OF S wf F(2)] by (simp add: p_def pos)
    have here: "evbuffer_ptr_memcmp buf p what = 0 \<longleftrightarrow> starts_with what (drop j (drop n ?B))"
      using evbuffer_ptr_memcmp_ok[OF wf, of p "n + j" what] p by (simp add: ptr_in_def starts_with_def add.commute)
    note next_byte = first_at_next_byte[OF starts_with_hd[OF what] F(1)]
    show ?thesis
    proof (cases "evbuffer_ptr_memcmp buf p what = 0")
      case True
      have "search_loop buf what end_ptr (c # cs) k q pos =
          (case end_ptr of Some e \<Rightarrow> if pos + int j + int (length what) > ptr_pos e then search_not_found (q + j) else p | None \<Rightarrow> p)"
        using Some True by (simp add: p_def[symmetric] Let_def)
      moreover have "first_at (starts_with what) (drop n ?B) = Some j"
        using next_byte here True by simp
      ultimately show ?thesis
        using p by (cases end_ptr) (simp_all add: search_answer_def pos)
    next
      case False
      define m where "m = n + j + 1"
      have m: "pos + int j + 1 = int m" "m = n + Suc j"
        by (simp_all add: m_def pos)
      have rest: "first_at (starts_with what) (drop n ?B) = map_option ((+) (Suc j)) (first_at (starts_with what) (drop m ?B))"
        using next_byte here False by (simp add: m_def add.commute)
      show ?thesis
      proof (cases "q + j + 1 = ch_off c")
        case True
        then have "n - q + ch_off c = m"
          using C(8) by (simp add: m_def)
        then have "suffix_at buf cs (k + 1) 0 m"
          using C(6) by simp
        from 2(2)[OF Some p_def _ True what e this m(1) wf] show ?thesis
          using Some False True by (simp add: p_def[symmetric] Let_def rest search_answer_skip[OF m(2)])
      next
        case neq: False
        have "n - q + (q + j + 1) = m"
          using C(8) by (simp add: m_def)
        then have "suffix_at buf (c # cs) k (q + j + 1) m"
          using C(7)[of "q + j + 1"] F(2) by simp
        from 2(3)[OF Some p_def _ neq what e this m(1) wf] show ?thesis
          using Some False neq by (simp add: p_def[symmetric] Let_def rest search_answer_skip[OF m(2)])
      qed
    qed
  qed
qed

lemma evbuffer_search_range_ok:
  assumes "evbuffer_wf buf" "what \<noteq> []" "length what \<le> EV_SSIZE_MAX"
    and "case start of None \<Rightarrow> n = 0 | Some p \<Rightarrow> ptr_at buf p n" "\<And>e. end_ptr = Some e \<Longrightarrow> \<exists>m. ptr_at buf e m"
  shows "search_answer buf what end_ptr n (first_at (starts_with what) (drop n (evbuffer_content buf)))
     (evbuffer_search_range buf what start end_ptr)"
proof -
  define p where "p = (case start of Some p \<Rightarrow> p | None \<Rightarrow> first_ptr buf)"
  have p: "ptr_at buf p n"
    using assms(4) by (auto simp: p_def split: option.splits)
  have "search_answer buf what end_ptr n (first_at (starts_with what) (drop n (evbuffer_content buf)))
     (search_loop buf what end_ptr (chains_from buf (ptr_chain p)) (chain_number (ptr_chain p)) (pos_in_chain p) (ptr_pos p))"
    using p by (intro search_loop_ok[OF assms(1,2,5) ptr_suffix[OF p]]) (simp_all add: ptr_at_def)
  then show ?thesis
    using assms(2,3) by (simp add: evbuffer_search_range_def p_def[symmetric])
qed

section \<open>Moving a pointer\<close>

lemma wf_suffix_len: "evbuffer_wf buf \<Longrightarrow> suffix_at buf cs k q n \<Longrightarrow> n \<le> total_len buf"
  using suffix_bytes(2)[of buf cs k q n] length_evbuffer_content[of buf] by simp

lemma ptr_walk_ok:
  assumes wf: "evbuffer_wf buf"
  shows "suffix_at buf cs k q n \<Longrightarrow> q + left < 2 ^ 64 \<Longrightarrow>
     (case ptr_walk cs k q left of
        Some (k', i) \<Rightarrow> ptr_in buf \<lparr>ptr_pos = int (n + left), ptr_chain = Some k', pos_in_chain = i\<rparr> (n + left)
      | None \<Rightarrow> n + left \<ge> total_len buf)"
proof (induction cs arbitrary: k q n left)
  case Nil
  then show ?case
    using suffix_bytes(2)[OF wf Nil(1)] length_evbuffer_content[OF wf] by simp
next
  case (Cons c cs)
  note C = suffix_ConsD[OF Cons.prems(1) wf]
  show ?case
  proof (cases "q + left \<ge> ch_off c")
    case True
    define l where "l = q + left - ch_off c"
    have "n - q + ch_off c + l = n + left" "0 + l < 2 ^ 64"
      using True C(8) Cons.prems(2) by (simp_all add: l_def)
    then show ?thesis
      using Cons.IH[OF C(6), of l, unfolded \<open>n - q + ch_off c + l = n + left\<close>] Cons.prems(2) True
      by (simp add: l_def[symmetric])
  next
    case False
    have "ptr_in buf \<lparr>ptr_pos = int n + int left, ptr_chain = Some k, pos_in_chain = q + left\<rparr> (n + left)"
      using False by (intro suffix_ptr_in[OF Cons.prems(1) wf]) simp
    then show ?thesis
      using False Cons.prems(2) by simp
  qed
qed

lemma to_int64_small: "0 \<le> i \<Longrightarrow> i < 2 ^ 63 \<Longrightarrow> to_int64 i = i"
  by (simp add: to_int64_def signed_of_int signed_take_bit_int_eq_self)

definition ptr_base :: "evbuffer \<Rightarrow> evbuffer_ptr \<Rightarrow> evbuffer_ptr_how \<Rightarrow> nat \<Rightarrow> bool" where
  "ptr_base buf p how n = (case how of EVBUFFER_PTR_SET \<Rightarrow> n = 0 | EVBUFFER_PTR_ADD \<Rightarrow> ptr_at buf p n)"

lemma evbuffer_ptr_set_ok:
  assumes wf: "evbuffer_wf buf" and base: "ptr_base buf p how n" and small: "n + position < 2 ^ 63"
  shows "if n + position < total_len buf
     then \<exists>p'. evbuffer_ptr_set buf p position how = (0, p') \<and> ptr_in buf p' (n + position)
     else \<exists>p'. evbuffer_ptr_set buf p position how = (- 1, p') \<and> ptr_pos p' = - 1 \<and> ptr_chain p' = None"
proof -
  define p0 where "p0 = (case how of EVBUFFER_PTR_SET \<Rightarrow> first_ptr buf | EVBUFFER_PTR_ADD \<Rightarrow> p)"
  have p0: "ptr_at buf p0 n"
    using base by (auto simp: p0_def ptr_base_def split: evbuffer_ptr_how.splits)
  note S = ptr_suffix[OF p0]
  have "pos_in_chain p0 \<le> n"
    using p0 by (auto simp: ptr_at_def split: option.splits)
  then have walk: "case ptr_walk (chains_from buf (ptr_chain p0)) (chain_number (ptr_chain p0)) (pos_in_chain p0) position of
        Some (k', i) \<Rightarrow> ptr_in buf \<lparr>ptr_pos = int (n + position), ptr_chain = Some k', pos_in_chain = i\<rparr> (n + position)
      | None \<Rightarrow> n + position \<ge> total_len buf"
    using small by (intro ptr_walk_ok[OF wf S]) simp
  have set: "evbuffer_ptr_set buf p position how =
      (case ptr_walk (chains_from buf (ptr_chain p0)) (chain_number (ptr_chain p0)) (pos_in_chain p0) position of
         Some (k, i) \<Rightarrow> (0, p\<lparr>ptr_pos := int (n + position), ptr_chain := Some k, pos_in_chain := i\<rparr>)
       | None \<Rightarrow> (- 1, p\<lparr>ptr_pos := - 1, ptr_chain := None\<rparr>))"
    using base p0 small
    by (cases how)
      (auto simp: evbuffer_ptr_set_def p0_def ptr_base_def ptr_at_def first_ptr_def to_int64_small simp flip: of_nat_add
        cong: option.case_cong)
  show ?thesis
  proof (cases "ptr_walk (chains_from buf (ptr_chain p0)) (chain_number (ptr_chain p0)) (pos_in_chain p0) position")
    case None
    then show ?thesis using walk set by simp
  next
    case (Some ki)
    obtain k i where ki: "ki = (k, i)" by (cases ki)
    then have "ptr_in buf \<lparr>ptr_pos = int (n + position), ptr_chain = Some k, pos_in_chain = i\<rparr> (n + position)"
      using walk Some by simp
    moreover from this have "n + position < total_len buf"
      using ptr_in_less[OF wf] by blast
    ultimately show ?thesis
      using set Some ki by (simp add: ptr_in_def ptr_at_def)
  qed
qed

section \<open>Ends of lines\<close>

text \<open>The reference definition: the length of the line end that the bytes begin with, and the first line end.\<close>

definition eol_here :: "evbuffer_eol_style \<Rightarrow> byte list \<Rightarrow> nat option" where
  "eol_here style s =
     (case style of
        EVBUFFER_EOL_ANY \<Rightarrow> if at_byte is_eol_byte s then Some (length (takeWhile is_eol_byte s)) else None
      | EVBUFFER_EOL_CRLF \<Rightarrow>
          if at_byte (\<lambda>x. x = LF_byte) s then Some 1 else if starts_with [CR_byte, LF_byte] s then Some 2 else None
      | EVBUFFER_EOL_CRLF_STRICT \<Rightarrow> if starts_with [CR_byte, LF_byte] s then Some 2 else None
      | EVBUFFER_EOL_LF \<Rightarrow> if at_byte (\<lambda>x. x = LF_byte) s then Some 1 else None)"

definition is_eol :: "evbuffer_eol_style \<Rightarrow> byte list \<Rightarrow> bool" where
  "is_eol style s \<longleftrightarrow> eol_here style s \<noteq> None"

definition line_end :: "evbuffer_eol_style \<Rightarrow> byte list \<Rightarrow> (nat \<times> nat) option" where
  "line_end style s = map_option (\<lambda>i. (i, the (eol_here style (drop i s)))) (first_at (is_eol style) s)"

lemma is_eol_simps:
  "is_eol EVBUFFER_EOL_ANY = at_byte is_eol_byte"
  "is_eol EVBUFFER_EOL_LF = at_byte (\<lambda>x. x = LF_byte)"
  "is_eol EVBUFFER_EOL_CRLF_STRICT = starts_with [CR_byte, LF_byte]"
  by (auto simp: is_eol_def eol_here_def fun_eq_iff)

lemma is_eol_byte: "\<forall>s. is_eol style s \<longrightarrow> at_byte is_eol_byte s"
proof (intro allI impI)
  fix s
  assume "is_eol style s"
  then show "at_byte is_eol_byte s"
    by (cases style; cases s) (auto simp: is_eol_def eol_here_def starts_with_def split: if_splits)
qed

lemma strspn_loop_ok:
  assumes wf: "evbuffer_wf buf"
  shows "suffix_at buf cs k i n \<Longrightarrow> cs \<noteq> [] \<Longrightarrow>
     fst (strspn_loop chrset cs k i cnt p) =
       int (cnt + length (takeWhile (\<lambda>b. b \<in> set chrset) (drop n (evbuffer_content buf))))"
proof (induction cs arbitrary: k i n cnt)
  case (Cons c cs)
  note C = suffix_ConsD[OF Cons.prems(1) wf]
  let ?rest = "drop (n - i + ch_off c) (evbuffer_content buf)"
  note split = suffix_split[OF wf Cons.prems(1)]
  let ?n = "length (takeWhile (\<lambda>b. b \<in> set chrset) (drop i (chain_data c)))"
  show ?case
  proof (cases "i + ?n < ch_off c")
    case True
    then have "?n < length (drop i (chain_data c))"
      using C(3,4) by simp
    then have "\<not> (\<forall>x \<in> set (drop i (chain_data c)). x \<in> set chrset)"
      using takeWhile_eq_all_conv[of "\<lambda>b. b \<in> set chrset" "drop i (chain_data c)"] by force
    then have "takeWhile (\<lambda>b. b \<in> set chrset) (drop n (evbuffer_content buf)) =
        takeWhile (\<lambda>b. b \<in> set chrset) (drop i (chain_data c))"
      unfolding split by (metis takeWhile_append1)
    then show ?thesis using True by (simp add: Let_def)
  next
    case False
    have "?n \<le> length (drop i (chain_data c))"
      by (rule length_takeWhile_le)
    then have full: "?n = length (drop i (chain_data c))"
      using False C(3,4) by simp
    then have all: "takeWhile (\<lambda>b. b \<in> set chrset) (drop i (chain_data c)) = drop i (chain_data c)"
      by (metis takeWhile_eq_take take_all_iff order_refl)
    then have "\<forall>x \<in> set (drop i (chain_data c)). x \<in> set chrset"
      by (simp only: takeWhile_eq_all_conv)
    then have total: "takeWhile (\<lambda>b. b \<in> set chrset) (drop n (evbuffer_content buf)) =
        drop i (chain_data c) @ takeWhile (\<lambda>b. b \<in> set chrset) ?rest"
      unfolding split by (intro takeWhile_append2) blast
    show ?thesis
    proof (cases "cs = []")
      case True
      then have "?rest = []"
        using suffix_Nil[OF wf] C(6) by blast
      then show ?thesis using True False full total by (simp add: Let_def all)
    next
      case neq: False
      then show ?thesis
        using False full total Cons.IH[OF C(6) neq, of "cnt + ?n"] by (simp add: Let_def all)
    qed
  qed
qed simp

lemma evbuffer_strspn_ok:
  assumes "evbuffer_wf buf" "ptr_in buf p n"
  shows "fst (evbuffer_strspn buf p chrset) =
    int (length (takeWhile (\<lambda>b. b \<in> set chrset) (drop n (evbuffer_content buf))))"
proof -
  obtain k where k: "ptr_chain p = Some k" "k < length (chains buf)"
    using assms by (rule ptr_in_bytes)
  then have "chains_from buf (ptr_chain p) \<noteq> []"
    by (simp add: chains_from_def)
  moreover have "ptr_at buf p n"
    using assms(2) by (simp add: ptr_in_def)
  ultimately show ?thesis
    using strspn_loop_ok[OF assms(1) ptr_suffix] by (simp add: evbuffer_strspn_def)
qed

lemma evbuffer_getchr_ok:
  assumes wf: "evbuffer_wf buf" and p: "ptr_in buf p n"
  shows "evbuffer_getchr buf p = Some (evbuffer_content buf ! n)"
proof -
  obtain k where k: "ptr_chain p = Some k" "k < length (chains buf)" "pos_in_chain p < ch_off (chains buf ! k)"
    "chain_data (chains buf ! k) ! pos_in_chain p = evbuffer_content buf ! n"
    using wf p by (rule ptr_in_bytes)
  define c where "c = chains buf ! k"
  have "length (chain_data c) = ch_off c"
    using wf_chain_data[OF wf] k(2) by (simp add: c_def)
  then have "misalign c + pos_in_chain p < length (ch_mem c)" "ch_mem c ! (misalign c + pos_in_chain p) = chain_data c ! pos_in_chain p"
    using k(3) by (auto simp: chain_data_def slice_def c_def[symmetric])
  moreover have "chains_from buf (ptr_chain p) = c # drop (Suc k) (chains buf)"
    using k(1,2) by (simp add: chains_from_def c_def Cons_nth_drop_Suc)
  ultimately show ?thesis
    using k(4) by (simp add: evbuffer_getchr_def c_def)
qed

lemma find_eol_ok:
  assumes "evbuffer_wf buf" "ptr_at buf it n"
  shows "case first_at (at_byte is_eol_byte) (drop n (evbuffer_content buf)) of
      None \<Rightarrow> fst (evbuffer_find_eol_char buf it) = - 1
    | Some j \<Rightarrow> \<exists>it'. evbuffer_find_eol_char buf it = (int (n + j), it') \<and> ptr_in buf it' (n + j)"
  unfolding evbuffer_find_eol_char_def
  by (rule strchr_loop_ok[OF assms(1) find_eol_char_first_at ptr_suffix[OF assms(2)]])
    (use assms(2) in \<open>simp add: ptr_at_def\<close>)

lemma strchr_ok:
  assumes "evbuffer_wf buf" "ptr_at buf it n"
  shows "case first_at (at_byte (\<lambda>x. x = chr)) (drop n (evbuffer_content buf)) of
      None \<Rightarrow> fst (evbuffer_strchr buf it chr) = - 1
    | Some j \<Rightarrow> \<exists>it'. evbuffer_strchr buf it chr = (int (n + j), it') \<and> ptr_in buf it' (n + j)"
  unfolding evbuffer_strchr_def
  by (rule strchr_loop_ok[OF assms(1) memchr_first_at ptr_suffix[OF assms(2)]])
    (use assms(2) in \<open>simp add: ptr_at_def\<close>)

text \<open>The loop for \<open>EVBUFFER_EOL_CRLF\<close> ends, with the first end of a line.\<close>

definition crlf_answer :: "evbuffer \<Rightarrow> nat \<Rightarrow> nat option \<Rightarrow> nat \<Rightarrow> evbuffer_ptr \<Rightarrow> bool" where
  "crlf_answer buf n x l it \<longleftrightarrow>
     (case x of
        None \<Rightarrow> l = 0
      | Some j \<Rightarrow> ptr_in buf it (n + j) \<and> eol_here EVBUFFER_EOL_CRLF (drop (n + j) (evbuffer_content buf)) = Some l)"

lemma crlf_answer_skip: "n' = n + m \<Longrightarrow> crlf_answer buf n (map_option ((+) m) x) l it = crlf_answer buf n' x l it"
  by (cases x) (simp_all add: crlf_answer_def add.assoc)

lemma crlf_here:
  assumes "s \<noteq> []"
  shows "hd s = LF_byte \<Longrightarrow> eol_here EVBUFFER_EOL_CRLF s = Some 1"
    "hd s \<noteq> LF_byte \<Longrightarrow> eol_here EVBUFFER_EOL_CRLF s = (if starts_with [CR_byte, LF_byte] s then Some 2 else None)"
  using assms by (cases s; simp add: eol_here_def)+

lemma crlf_loop_ok:
  assumes wf: "evbuffer_wf buf" and small: "total_len buf < 2 ^ 63 - 1"
  shows "ptr_at buf it n \<Longrightarrow> \<exists>l it'. crlf_loop buf it = Some (l, it') \<and>
     crlf_answer buf n (first_at (is_eol EVBUFFER_EOL_CRLF) (drop n (evbuffer_content buf))) l it'"
proof (induction "total_len buf - n" arbitrary: n it rule: less_induct)
  case less
  let ?B = "evbuffer_content buf"
  obtain r it1 where find: "evbuffer_find_eol_char buf it = (r, it1)"
    by (cases "evbuffer_find_eol_char buf it")
  note F = find_eol_ok[OF wf less.prems, unfolded find]
  show ?case
  proof (cases "first_at (at_byte is_eol_byte) (drop n ?B)")
    case None
    then have "first_at (is_eol EVBUFFER_EOL_CRLF) (drop n ?B) = None"
      using is_eol_byte by (auto simp: first_at_None)
    then show ?thesis
      using F None find by (subst crlf_loop.simps) (simp add: crlf_answer_def)
  next
    case (Some j)
    then have it1: "ptr_in buf it1 (n + j)" and r: "r = int (n + j)"
      using F by auto
    then have at: "ptr_at buf it1 (n + j)" and j: "n + j < length ?B" "n + j < total_len buf"
      using ptr_in_less[OF wf] length_evbuffer_content[OF wf] by (auto simp: ptr_in_def)
    define s where "s = drop (n + j) ?B"
    have s: "s \<noteq> []" "hd s = ?B ! (n + j)" "drop j (drop n ?B) = s"
      using j by (simp_all add: s_def hd_drop_conv_nth add.commute)
    note step = first_at_next_byte[OF is_eol_byte Some, of EVBUFFER_EOL_CRLF, unfolded s(3)]
    note get = evbuffer_getchr_ok[OF wf it1, folded s(2)]
    have cmp: "evbuffer_ptr_memcmp buf it1 [CR_byte, LF_byte] = 0 \<longleftrightarrow> starts_with [CR_byte, LF_byte] s"
      using evbuffer_ptr_memcmp_ok[OF wf at] by (simp add: starts_with_def s_def)
    note loop = crlf_loop.simps[of buf it, unfolded find]
    consider (lf) "hd s = LF_byte" | (crlf) "hd s \<noteq> LF_byte" "starts_with [CR_byte, LF_byte] s"
      | (other) "hd s \<noteq> LF_byte" "\<not> starts_with [CR_byte, LF_byte] s" by blast
    then show ?thesis
    proof cases
      case lf
      then have here: "eol_here EVBUFFER_EOL_CRLF s = Some 1" "is_eol EVBUFFER_EOL_CRLF s"
        using crlf_here(1)[OF s(1)] by (simp_all add: is_eol_def)
      then show ?thesis
        using loop step it1 get r s_def lf by (simp add: crlf_answer_def)
    next
      case crlf
      then have here: "eol_here EVBUFFER_EOL_CRLF s = Some 2" "is_eol EVBUFFER_EOL_CRLF s"
        using crlf_here(2)[OF s(1)] by (simp_all add: is_eol_def)
      then show ?thesis
        using loop step it1 get r s_def cmp crlf by (simp add: crlf_answer_def)
    next
      case other
      then have not_here: "\<not> is_eol EVBUFFER_EOL_CRLF s"
        using crlf_here(2)[OF s(1)] by (simp add: is_eol_def)
      have skip: "first_at (is_eol EVBUFFER_EOL_CRLF) (drop n ?B) =
          map_option ((+) (Suc j)) (first_at (is_eol EVBUFFER_EOL_CRLF) (drop (n + Suc j) ?B))"
        using step not_here by (simp add: add.commute)
      obtain r2 it2 where set: "evbuffer_ptr_set buf it1 1 EVBUFFER_PTR_ADD = (r2, it2)"
        by (cases "evbuffer_ptr_set buf it1 1 EVBUFFER_PTR_ADD")
      have next_at: "if n + j + 1 < total_len buf then r2 = 0 \<and> ptr_in buf it2 (n + Suc j) else r2 = - 1"
        using evbuffer_ptr_set_ok[OF wf, of it1 EVBUFFER_PTR_ADD "n + j" 1, unfolded set] at small j
        by (simp add: ptr_base_def split: if_splits)
      have loop': "crlf_loop buf it = (if r2 < 0 then Some (0, it2) else crlf_loop buf it2)"
        using loop r get cmp other set by simp
      show ?thesis
      proof (cases "n + j + 1 < total_len buf")
        case True
        then have "total_len buf - (n + Suc j) < total_len buf - n" "ptr_at buf it2 (n + Suc j)" "r2 = 0"
          using next_at by (auto simp: ptr_in_def)
        then show ?thesis
          using less.hyps[of "n + Suc j" it2] loop' by (simp add: skip crlf_answer_skip[OF refl])
      next
        case False
        then have "drop (n + Suc j) ?B = []"
          using length_evbuffer_content[OF wf] by simp
        then show ?thesis
          using loop' next_at False by (simp add: skip crlf_answer_def)
      qed
    qed
  qed
qed

text \<open>The search for the end of a line, from position \<open>n\<close> on.\<close>

definition eol_answer :: "evbuffer \<Rightarrow> nat \<Rightarrow> (nat \<times> nat) option \<Rightarrow> nat \<Rightarrow> evbuffer_ptr \<Rightarrow> bool" where
  "eol_answer buf n x l it \<longleftrightarrow>
     (case x of
        None \<Rightarrow> l = 0 \<and> ptr_pos it = - 1
      | Some (j, m) \<Rightarrow> ptr_in buf it (n + j) \<and> l = m)"

lemma eol_here_pos: "eol_here style s = Some l \<Longrightarrow> l \<noteq> 0"
  by (cases style; cases s) (auto simp: eol_here_def split: if_splits)

lemma search_eol_any:
  assumes wf: "evbuffer_wf buf" and small: "total_len buf < 2 ^ 63 - 1" and it: "ptr_at buf it n"
  shows "\<exists>l it'. evbuffer_search_eol buf (Some it) EVBUFFER_EOL_ANY = Some (l, it') \<and>
    eol_answer buf n (line_end EVBUFFER_EOL_ANY (drop n (evbuffer_content buf))) l it'"
proof -
  obtain r it1 where find: "evbuffer_find_eol_char buf it = (r, it1)"
    by (cases "evbuffer_find_eol_char buf it")
  note F = find_eol_ok[OF wf it, unfolded find]
  show ?thesis
  proof (cases "first_at (at_byte is_eol_byte) (drop n (evbuffer_content buf))")
    case None
    then show ?thesis
      using F find by (simp add: evbuffer_search_eol_def eol_answer_def line_end_def is_eol_simps)
  next
    case (Some j)
    then have it1: "ptr_in buf it1 (n + j)" and r: "r = int (n + j)"
      using F by auto
    let ?s = "drop (n + j) (evbuffer_content buf)"
    have "length (takeWhile is_eol_byte ?s) \<le> length ?s"
      by (rule length_takeWhile_le)
    then have "length (takeWhile is_eol_byte ?s) < 2 ^ 64"
      using small length_evbuffer_content[OF wf] by simp
    then have "unat (word_of_int (fst (evbuffer_strspn buf it1 [CR_byte, LF_byte])) :: 64 word) =
        length (takeWhile is_eol_byte ?s)"
      using evbuffer_strspn_ok[OF wf it1, of "[CR_byte, LF_byte]"] word64_of_small by simp
    moreover have "at_byte is_eol_byte ?s"
      using Some by (simp add: first_at_Some add.commute)
    ultimately show ?thesis
      using it1 r find Some
      by (simp add: evbuffer_search_eol_def eol_answer_def line_end_def is_eol_simps eol_here_def add.commute)
  qed
qed

lemma search_eol_lf:
  assumes wf: "evbuffer_wf buf" and it: "ptr_at buf it n"
  shows "\<exists>l it'. evbuffer_search_eol buf (Some it) EVBUFFER_EOL_LF = Some (l, it') \<and>
    eol_answer buf n (line_end EVBUFFER_EOL_LF (drop n (evbuffer_content buf))) l it'"
proof -
  obtain r it1 where find: "evbuffer_strchr buf it LF_byte = (r, it1)"
    by (cases "evbuffer_strchr buf it LF_byte")
  show ?thesis
    using strchr_ok[OF wf it, of LF_byte, unfolded find] find
    by (cases "first_at (at_byte (\<lambda>x. x = LF_byte)) (drop n (evbuffer_content buf))")
      (auto simp: evbuffer_search_eol_def eol_answer_def line_end_def is_eol_simps eol_here_def dest!: first_at_holds)
qed

lemma search_eol_strict:
  assumes wf: "evbuffer_wf buf" and it: "ptr_at buf it n"
  shows "\<exists>l it'. evbuffer_search_eol buf (Some it) EVBUFFER_EOL_CRLF_STRICT = Some (l, it') \<and>
    eol_answer buf n (line_end EVBUFFER_EOL_CRLF_STRICT (drop n (evbuffer_content buf))) l it'"
proof -
  have "search_answer buf [CR_byte, LF_byte] None n
     (first_at (starts_with [CR_byte, LF_byte]) (drop n (evbuffer_content buf)))
     (evbuffer_search buf [CR_byte, LF_byte] (Some it))"
    unfolding evbuffer_search_def
    by (rule evbuffer_search_range_ok[OF wf]) (use it in \<open>simp_all add: EV_SSIZE_MAX_def\<close>)
  then show ?thesis
    by (cases "first_at (starts_with [CR_byte, LF_byte]) (drop n (evbuffer_content buf))")
      (auto simp: evbuffer_search_eol_def search_answer_def eol_answer_def line_end_def is_eol_simps eol_here_def
        ptr_in_def ptr_at_def Let_def dest!: first_at_holds)
qed

lemma search_eol_crlf:
  assumes wf: "evbuffer_wf buf" and small: "total_len buf < 2 ^ 63 - 1" and it: "ptr_at buf it n"
  shows "\<exists>l it'. evbuffer_search_eol buf (Some it) EVBUFFER_EOL_CRLF = Some (l, it') \<and>
    eol_answer buf n (line_end EVBUFFER_EOL_CRLF (drop n (evbuffer_content buf))) l it'"
proof -
  obtain l it' where loop: "crlf_loop buf it = Some (l, it')"
    "crlf_answer buf n (first_at (is_eol EVBUFFER_EOL_CRLF) (drop n (evbuffer_content buf))) l it'"
    using crlf_loop_ok[OF assms] by (elim exE conjE) (rule that)
  show ?thesis
    using loop eol_here_pos[of EVBUFFER_EOL_CRLF]
    by (cases "first_at (is_eol EVBUFFER_EOL_CRLF) (drop n (evbuffer_content buf))")
      (auto simp: evbuffer_search_eol_def crlf_answer_def eol_answer_def line_end_def add.commute)
qed

lemma evbuffer_search_eol_ok:
  assumes "evbuffer_wf buf" "total_len buf < 2 ^ 63 - 1" "case start of None \<Rightarrow> n = 0 | Some p \<Rightarrow> ptr_at buf p n"
  shows "\<exists>l it. evbuffer_search_eol buf start style = Some (l, it) \<and>
    eol_answer buf n (line_end style (drop n (evbuffer_content buf))) l it"
proof -
  define it where "it = (case start of Some p \<Rightarrow> p | None \<Rightarrow> first_ptr buf)"
  have it: "ptr_at buf it n" "evbuffer_search_eol buf start style = evbuffer_search_eol buf (Some it) style"
    using assms(3) by (auto simp: it_def evbuffer_search_eol_def split: option.splits)
  then show ?thesis
    using search_eol_any[OF assms(1,2) it(1)] search_eol_crlf[OF assms(1,2) it(1)] search_eol_lf[OF assms(1) it(1)]
      search_eol_strict[OF assms(1) it(1)] by (cases style) simp_all
qed

section \<open>Reading a line\<close>

lemma evbuffer_readln_ok:
  assumes wf: "evbuffer_wf buf" and fr: "\<not> freeze_start buf" and small: "total_len buf < 2 ^ 63 - 1"
  shows "case line_end style (evbuffer_content buf) of
      None \<Rightarrow> evbuffer_readln malloc buf style = Some (None, 0, buf)
    | Some (i, l) \<Rightarrow>
        if malloc (i + 1) = None then evbuffer_readln malloc buf style = Some (None, 0, buf)
        else \<exists>buf'. evbuffer_readln malloc buf style = Some (Some (take i (evbuffer_content buf)), i, buf') \<and>
               evbuffer_content buf' = drop (i + l) (evbuffer_content buf) \<and> evbuffer_wf buf' \<and> same_settings buf buf' \<and>
               (evbuffer_tight buf \<longrightarrow> evbuffer_tight buf') \<and> (evbuffer_plain buf \<longrightarrow> evbuffer_plain buf')"
proof -
  obtain l it where eol: "evbuffer_search_eol buf None style = Some (l, it)"
    "eol_answer buf 0 (line_end style (evbuffer_content buf)) l it"
    using evbuffer_search_eol_ok[OF wf small, where start = None and n = 0 and style = style] by auto
  show ?thesis
  proof (cases "line_end style (evbuffer_content buf)")
    case None
    then show ?thesis using eol fr by (simp add: evbuffer_readln_def eol_answer_def)
  next
    case (Some x)
    obtain i m where x: "x = (i, m)" by (cases x)
    then have it: "ptr_pos it = int i" "l = m"
      using eol(2) Some by (auto simp: eol_answer_def ptr_in_def ptr_at_def)
    show ?thesis
    proof (cases "malloc (i + 1)")
      case None
      then show ?thesis using eol(1) fr it by (simp add: evbuffer_readln_def Some x Let_def)
    next
      case (Some y)
      obtain b1 where b1: "evbuffer_remove buf i = Some (to_int32 (int (min i (total_len buf))), take i (evbuffer_content buf), b1)"
        "evbuffer_wf b1" "same_settings buf b1" "evbuffer_tight buf \<longrightarrow> evbuffer_tight b1" "evbuffer_plain buf \<longrightarrow> evbuffer_plain b1"
        "evbuffer_content b1 = drop i (evbuffer_content buf)"
        using evbuffer_remove_ok[OF wf fr, of i] by (elim exE conjE) (rule that)
      have fr1: "\<not> freeze_start b1"
        using b1(3) fr by (simp add: same_settings_def)
      obtain b2 where b2: "evbuffer_drain b1 l = Some (0, b2)" "evbuffer_wf b2" "same_settings b1 b2"
        "evbuffer_tight b1 \<longrightarrow> evbuffer_tight b2" "evbuffer_plain b1 \<longrightarrow> evbuffer_plain b2"
        "evbuffer_content b2 = drop l (evbuffer_content b1)"
        using evbuffer_drain_ok[OF b1(2) fr1, of l] by (elim exE conjE) (rule that)
      have "evbuffer_readln malloc buf style = Some (Some (take i (evbuffer_content buf)), i, b2)"
        using eol(1) fr it Some b1(1) b2(1) by (simp add: evbuffer_readln_def Let_def)
      moreover have "evbuffer_content b2 = drop (i + m) (evbuffer_content buf)"
        using b1(6) b2(6) it(2) by (simp add: add.commute)
      ultimately show ?thesis
        using Some \<open>line_end style (evbuffer_content buf) = Some x\<close> x b2(2,4,5) b1(4,5) same_settings_trans[OF b1(3) b2(3)]
        by simp
    qed
  qed
qed

text \<open>What a line end is, without the searches: the line and the bytes before the line end hold no line end.\<close>

lemma line_end_Some:
  assumes "line_end style s = Some (i, l)"
  shows "i < length s" "eol_here style (drop i s) = Some l" "\<forall>j<i. eol_here style (drop j s) = None"
  using assms by (auto simp: line_end_def first_at_Some is_eol_def)

text \<open>The caller's loop: up to \<open>n\<close> lines.\<close>

fun read_lines :: "allocator \<Rightarrow> evbuffer_eol_style \<Rightarrow> nat \<Rightarrow> evbuffer \<Rightarrow> (byte list list \<times> evbuffer) option" where
  "read_lines malloc style 0 buf = Some ([], buf)"
| "read_lines malloc style (Suc n) buf = do {
     (line, _, buf) \<leftarrow> evbuffer_readln malloc buf style;
     case line of
       None \<Rightarrow> Some ([], buf)
     | Some l \<Rightarrow> do { (ls, buf) \<leftarrow> read_lines malloc style n buf; Some (l # ls, buf) }
   }"

definition eol_text :: "evbuffer_eol_style \<Rightarrow> byte list" where
  "eol_text style = (if style = EVBUFFER_EOL_LF then [LF_byte] else [CR_byte, LF_byte])"

lemma line_end_text:
  assumes "CR_byte \<notin> set l" "LF_byte \<notin> set l" "style \<noteq> EVBUFFER_EOL_ANY"
  shows "line_end style (l @ eol_text style @ rest) = Some (length l, length (eol_text style))"
proof -
  have "\<not> is_eol style (drop i (l @ eol_text style @ rest))" if "i < length l" for i
  proof -
    have "drop i (l @ eol_text style @ rest) = l ! i # drop (Suc i) (l @ eol_text style @ rest)"
      using that Cons_nth_drop_Suc[of i "l @ eol_text style @ rest"] by (simp add: nth_append)
    moreover have "\<not> is_eol_byte (l ! i)"
      using that assms(1,2) by (metis nth_mem)
    ultimately show ?thesis
      using is_eol_byte[of style] by auto
  qed
  then have skip: "\<forall>i<length l. \<not> is_eol style (drop i (l @ eol_text style @ rest))"
    by blast
  have "first_at (is_eol style) (l @ eol_text style @ rest) =
      map_option ((+) (length l)) (first_at (is_eol style) (eol_text style @ rest))"
    using first_at_skip[OF _ skip] by simp
  moreover have "eol_here style (eol_text style @ rest) = Some (length (eol_text style))"
    using assms(3) by (cases style) (simp_all add: eol_here_def eol_text_def starts_with_def CR_byte_def LF_byte_def)
  moreover from this have "first_at (is_eol style) (eol_text style @ rest) = Some 0"
    by (intro first_at_here) (simp_all add: is_eol_def eol_text_def)
  ultimately show ?thesis by (simp add: line_end_def)
qed

lemma read_lines_ok:
  assumes malloc: "\<And>n. malloc n \<noteq> None" and style: "style \<noteq> EVBUFFER_EOL_ANY"
  shows "evbuffer_wf buf \<Longrightarrow> \<not> freeze_start buf \<Longrightarrow> total_len buf < 2 ^ 63 - 1 \<Longrightarrow>
     evbuffer_content buf = concat (map (\<lambda>l. l @ eol_text style) ls) @ rest \<Longrightarrow>
     (\<And>l. l \<in> set ls \<Longrightarrow> CR_byte \<notin> set l \<and> LF_byte \<notin> set l) \<Longrightarrow>
     \<exists>buf'. read_lines malloc style (length ls) buf = Some (ls, buf') \<and> evbuffer_content buf' = rest \<and>
       evbuffer_wf buf' \<and> same_settings buf buf'"
proof (induction ls arbitrary: buf)
  case (Cons l ls)
  define more where "more = concat (map (\<lambda>l. l @ eol_text style) ls) @ rest"
  have content: "evbuffer_content buf = l @ eol_text style @ more"
    using Cons.prems(4) by (simp add: more_def)
  have l: "line_end style (evbuffer_content buf) = Some (length l, length (eol_text style))"
    unfolding content using Cons.prems(5)[of l] style by (intro line_end_text) simp_all
  obtain b where b: "evbuffer_readln malloc buf style = Some (Some l, length l, b)" "evbuffer_content b = more"
    "evbuffer_wf b" "same_settings buf b"
    using evbuffer_readln_ok[OF Cons.prems(1-3), of malloc style] malloc[of "length l + 1"]
    unfolding l by (auto simp: content)
  have "length (evbuffer_content b) \<le> length (evbuffer_content buf)"
    by (simp add: b(2) content)
  then have "total_len b < 2 ^ 63 - 1"
    using Cons.prems(3) length_evbuffer_content[OF Cons.prems(1)] length_evbuffer_content[OF b(3)] by simp
  moreover have "\<not> freeze_start b"
    using b(4) Cons.prems(2) by (simp add: same_settings_def)
  ultimately obtain b' where b': "read_lines malloc style (length ls) b = Some (ls, b')" "evbuffer_content b' = rest"
    "evbuffer_wf b'" "same_settings b b'"
    using Cons.IH[OF b(3) _ _ b(2)[unfolded more_def]] Cons.prems(5) by (metis list.set_intros(2))
  then show ?case
    using b(1) same_settings_trans[OF b(4) b'(4)] by simp
qed simp

section \<open>Properties of the searches\<close>

text \<open>A line of two characters with its end, and the beginning of the next one, for the concrete instances.\<close>

definition line_buffer :: evbuffer where
  "line_buffer = evbuffer_new\<lparr>chains := [\<lparr>ch_buffer = 48, buffer_len = 4, misalign = 0, ch_off = 3,
     ch_flags = 0, ch_mem = [72, 105, 13, 0], ch_cleanup = None, ch_fd = 0\<rparr>, \<lparr>ch_buffer = 96, buffer_len = 4, misalign = 1, ch_off = 2,
     ch_flags = 0, ch_mem = [0, 10, 33, 0], ch_cleanup = None, ch_fd = 0\<rparr>], total_len := 5, last_with_datap := 1\<rparr>"

lemma line_buffer_ok:
  "evbuffer_wf line_buffer" "\<not> freeze_start line_buffer" "evbuffer_content line_buffer = [72, 105, 13, 10, 33]" "total_len line_buffer = 5"
  by (simp_all add: line_buffer_def evbuffer_new_def evbuffer_wf_def lwd_ok_def chain_wf_def ch_has_def CHAIN_PINNED_def
      CHAIN_MAX_REQUEST_def EVBUFFER_CHAIN_SIZE_def evbuffer_content_def chain_data_def slice_def)

text \<open>
  C27: \<open>evbuffer_search_range\<close> in a well-formed buffer, from position \<open>n\<close> on, gives a pointer to the first place where
  the bytes are the text, over the bounds of the chains, if the text there ends not after the given end. Otherwise
  the position is -1.
\<close>

theorem evbuffer_search_range_correct:
  assumes "evbuffer_wf buf" "what \<noteq> []" "length what \<le> EV_SSIZE_MAX"
    and "case start of None \<Rightarrow> n = 0 | Some p \<Rightarrow> ptr_at buf p n" "\<And>e. end_ptr = Some e \<Longrightarrow> \<exists>m. ptr_at buf e m"
  shows "search_answer buf what end_ptr n (first_at (starts_with what) (drop n (evbuffer_content buf)))
     (evbuffer_search_range buf what start end_ptr)"
  using assms by (rule evbuffer_search_range_ok)

theorem evbuffer_search_range_correct_witness:
  "ptr_pos (evbuffer_search_range line_buffer [13, 10] None None) = 2"
  using evbuffer_search_range_correct[OF line_buffer_ok(1), where what = "[13, 10]" and start = None and n = 0 and end_ptr = None]
  by (simp add: line_buffer_ok(3) starts_with_def EV_SSIZE_MAX_def search_answer_def ptr_in_def ptr_at_def)



text \<open>
  The lines that were written, each with its line end, are read back one by one by \<open>evbuffer_readln\<close>, exactly
  and in order, and the bytes behind them stay. (With \<open>EVBUFFER_EOL_ANY\<close> empty lines are lost.)
\<close>

theorem evbuffer_readln_roundtrip:
  assumes "\<And>n. malloc n \<noteq> None" "style \<noteq> EVBUFFER_EOL_ANY"
    and "evbuffer_wf buf" "\<not> freeze_start buf" "total_len buf < 2 ^ 63 - 1"
    and "evbuffer_content buf = concat (map (\<lambda>l. l @ eol_text style) ls) @ rest"
    and "\<And>l. l \<in> set ls \<Longrightarrow> CR_byte \<notin> set l \<and> LF_byte \<notin> set l"
  shows "\<exists>buf'. read_lines malloc style (length ls) buf = Some (ls, buf') \<and> evbuffer_content buf' = rest \<and>
       evbuffer_wf buf' \<and> same_settings buf buf'"
  using read_lines_ok[OF assms] .

text \<open>
  A large position wraps around: \<open>evbuffer_ptr_set\<close> with \<open>EVBUFFER_PTR_ADD\<close> and the largest \<open>size_t\<close> succeeds and
  moves the pointer back by one.
\<close>

theorem evbuffer_ptr_set_wraps:
  assumes wf: "evbuffer_wf buf" and p: "ptr_at buf p n" and pos: "0 < pos_in_chain p" "n < 2 ^ 63"
  shows "\<exists>p'. evbuffer_ptr_set buf p (2 ^ 64 - 1) EVBUFFER_PTR_ADD = (0, p') \<and> ptr_in buf p' (n - 1)"
proof -
  obtain k where k: "ptr_chain p = Some k" "k < length (chains buf)" "pos_in_chain p \<le> ch_off (chains buf ! k)"
    "n = sum_list (map ch_off (take k (chains buf))) + pos_in_chain p" "ptr_pos p = int n"
    using p pos(1) by (auto simp: ptr_at_def split: option.splits)
  have cs: "chains_from buf (ptr_chain p) = chains buf ! k # drop (Suc k) (chains buf)"
    using k(1,2) by (simp add: chains_from_def Cons_nth_drop_Suc)
  have "(pos_in_chain p + (2 ^ 64 - 1)) mod 2 ^ 64 = pos_in_chain p - 1"
  proof -
    have "pos_in_chain p + (2 ^ 64 - 1) = (pos_in_chain p - 1) + 2 ^ 64"
      using pos(1) by simp
    moreover have "pos_in_chain p - 1 < 2 ^ 64"
      using pos(2) k(4) by simp
    ultimately show ?thesis by (metis mod_add_self2 mod_less)
  qed
  then have walk: "ptr_walk (chains_from buf (ptr_chain p)) k (pos_in_chain p) (2 ^ 64 - 1) = Some (k, pos_in_chain p - 1)"
    using pos(1) k(3) unfolding cs by (simp add: Let_def)
  have "to_int64 (ptr_pos p + int (2 ^ 64 - 1)) = int (n - 1)"
  proof -
    have "word_of_int (ptr_pos p + int (2 ^ 64 - 1)) = (word_of_int (int (n - 1)) :: 64 word)"
      using k(4,5) pos(1) by (simp add: of_nat_diff word_of_int_eq_iff take_bit_eq_mod)
    then show ?thesis
      using to_int64_small[of "int (n - 1)"] pos(2) by (simp add: to_int64_def)
  qed
  moreover have "pos_in_chain p - 1 < ch_off (chains buf ! k)"
    using k(3) pos(1) by linarith
  ultimately show ?thesis
    using walk k pos(1) by (simp add: evbuffer_ptr_set_def chain_number_def ptr_in_def ptr_at_def)
qed

end
