(* ===== verification/Dns_Name.thy ===== *)
theory Dns_Name
  imports Prelude
begin

text \<open>
  Names in DNS messages, \<^verbatim>\<open>evdns.c\<close>: the macros that read and write numbers, \<open>name_parse\<close>, the table of the labels
  that were written, and \<open>dnsname_to_labels\<close>. A message is memory of which the first \<open>len\<close> bytes are the packet.
\<close>

section \<open>Reading\<close>

text \<open>
  The outcome of code that reads a packet: \<open>None\<close> when it reads outside of the memory that holds the packet,
  \<open>Some None\<close> when it gives up (\<open>goto err\<close> or a return of -1), otherwise what it read and the index behind it.
\<close>

type_synonym 'a reading = "'a option option"

definition and_then :: "'a reading \<Rightarrow> ('a \<Rightarrow> 'b reading) \<Rightarrow> 'b reading" where
  "and_then m f = (case m of None \<Rightarrow> None | Some None \<Rightarrow> Some None | Some (Some x) \<Rightarrow> f x)"

lemma and_then_simps [simp]:
  "and_then None f = None" "and_then (Some None) f = Some None" "and_then (Some (Some x)) f = f x"
  by (simp_all add: and_then_def)

definition read_bytes :: "u8 list \<Rightarrow> nat \<Rightarrow> nat \<Rightarrow> u8 list option" where
  "read_bytes m j n = (if j + n \<le> length m then Some (slice m j n) else None)"

text \<open>Numbers are in network byte order.\<close>

definition be16 :: "u8 list \<Rightarrow> u16" where
  "be16 bs = push_bit 8 (ucast (bs ! 0)) OR ucast (bs ! 1)"

definition be32 :: "u8 list \<Rightarrow> u32" where
  "be32 bs = push_bit 24 (ucast (bs ! 0)) OR push_bit 16 (ucast (bs ! 1)) OR push_bit 8 (ucast (bs ! 2)) OR ucast (bs ! 3)"

definition GET16 :: "u8 list \<Rightarrow> nat \<Rightarrow> nat \<Rightarrow> (u16 \<times> nat) reading" where
  "GET16 m len j = (if j + 2 > len then Some None else map_option (\<lambda>bs. Some (be16 bs, j + 2)) (read_bytes m j 2))"

definition GET32 :: "u8 list \<Rightarrow> nat \<Rightarrow> nat \<Rightarrow> (u32 \<times> nat) reading" where
  "GET32 m len j = (if j + 4 > len then Some None else map_option (\<lambda>bs. Some (be32 bs, j + 4)) (read_bytes m j 4))"

definition GET8 :: "u8 list \<Rightarrow> nat \<Rightarrow> nat \<Rightarrow> (u8 \<times> nat) reading" where
  "GET8 m len j = (if j \<ge> len then Some None else map_option (\<lambda>bs. Some (bs ! 0, j + 1)) (read_bytes m j 1))"

definition DOT :: u8 where "DOT = 46"

text \<open>
  The loop of \<open>name_parse\<close>; \<open>out\<close> is the text between \<open>name_out\<close> and \<open>cp\<close>. It ends because every pass moves the
  index forward or follows a pointer, and not more pointers are followed than the packet has bytes.
\<close>

definition label_len_ptr :: "u8 \<Rightarrow> u8 \<Rightarrow> nat" where
  "label_len_ptr hi lo = push_bit 8 (unat (hi AND 0x3f)) + unat lo"

function name_loop :: "u8 list \<Rightarrow> nat \<Rightarrow> nat \<Rightarrow> nat \<Rightarrow> nat \<Rightarrow> nat option \<Rightarrow> u8 list \<Rightarrow> (nat \<times> u8 list) reading" where
  "name_loop packet len name_out_len j ptr_count name_end out =
     (if j \<ge> len then Some None
      else if j \<ge> length packet then None
      else let label_len = packet ! j; j = j + 1 in
        if label_len = 0 then
          (if length out \<ge> name_out_len then Some None
           else Some (Some (case name_end of None \<Rightarrow> j | Some e \<Rightarrow> e, out)))
        else if label_len AND 0xc0 \<noteq> 0 then
          (if j \<ge> len then Some None
           else if j \<ge> length packet then None
           else let ptr_low = packet ! j; j = j + 1;
                    name_end = (case name_end of None \<Rightarrow> Some j | Some e \<Rightarrow> Some e);
                    j = label_len_ptr label_len ptr_low in
             if j \<ge> len then Some None
             else if ptr_count + 1 > len then Some None
             else name_loop packet len name_out_len j (ptr_count + 1) name_end out)
        else if unat label_len > 63 then Some None
        else if out \<noteq> [] \<and> length out + 1 \<ge> name_out_len then Some None
        else let out = (if out \<noteq> [] then out @ [DOT] else out) in
          if length out + unat label_len \<ge> name_out_len then Some None
          else (case read_bytes packet j (unat label_len) of
                  None \<Rightarrow> None
                | Some bs \<Rightarrow> name_loop packet len name_out_len (j + unat label_len) ptr_count name_end (out @ bs)))"
  by pat_completeness auto
termination
  by (relation "measures [\<lambda>(m, len, n, j, k, e, t). len + 1 - k, \<lambda>(m, len, n, j, k, e, t). len - j]") auto

declare name_loop.simps [simp del]

text \<open>The index behind the name and the name.\<close>

definition name_parse :: "u8 list \<Rightarrow> nat \<Rightarrow> nat \<Rightarrow> nat \<Rightarrow> (nat \<times> u8 list) reading" where
  "name_parse packet len idx name_out_len = name_loop packet len name_out_len idx 0 None []"

section \<open>Writing\<close>

definition to_be16 :: "u16 \<Rightarrow> u8 list" where
  "to_be16 x = [ucast (drop_bit 8 x), ucast x]"

definition to_be32 :: "u32 \<Rightarrow> u8 list" where
  "to_be32 x = [ucast (drop_bit 24 x), ucast (drop_bit 16 x), ucast (drop_bit 8 x), ucast x]"

text \<open>The buffer and the index; nothing when there is no room (\<open>goto overflow\<close>).\<close>

definition APPEND16 :: "u8 list \<Rightarrow> nat \<Rightarrow> u16 \<Rightarrow> (u8 list \<times> nat) option" where
  "APPEND16 buf j x = (if j + 2 > length buf then None else Some (splice_at buf j (to_be16 x), j + 2))"

definition APPEND32 :: "u8 list \<Rightarrow> nat \<Rightarrow> u32 \<Rightarrow> (u8 list \<times> nat) option" where
  "APPEND32 buf j x = (if j + 4 > length buf then None else Some (splice_at buf j (to_be32 x), j + 4))"

definition MAX_LABELS :: nat where "MAX_LABELS = 128"

type_synonym dnslabel_table = "(u8 list \<times> nat) list"

definition dnslabel_table_init :: dnslabel_table where "dnslabel_table_init = []"

definition dnslabel_clear :: "dnslabel_table \<Rightarrow> dnslabel_table" where "dnslabel_clear table = []"

fun dnslabel_table_get_pos :: "dnslabel_table \<Rightarrow> u8 list \<Rightarrow> int" where
  "dnslabel_table_get_pos [] label = - 1"
| "dnslabel_table_get_pos ((v, pos) # table) label =
     (if label = v then int pos else dnslabel_table_get_pos table label)"

definition dnslabel_table_add :: "allocator \<Rightarrow> dnslabel_table \<Rightarrow> u8 list \<Rightarrow> nat \<Rightarrow> int \<times> dnslabel_table" where
  "dnslabel_table_add malloc table label pos =
     (if length table = MAX_LABELS then (- 1, table)
      else case malloc (length label + 1) of None \<Rightarrow> (- 1, table) | Some _ \<Rightarrow> (0, table @ [(label, pos)]))"

text \<open>The part of a name up to the first dot, and what \<open>strchr\<close> finds.\<close>

definition first_label :: "u8 list \<Rightarrow> u8 list" where "first_label name = takeWhile (\<lambda>c. c \<noteq> DOT) name"

definition from_dot :: "u8 list \<Rightarrow> u8 list" where "from_dot name = dropWhile (\<lambda>c. c \<noteq> DOT) name"

text \<open>
  The loop of \<open>dnsname_to_labels\<close> gives the value the function returns at once, or the index at which the loop ends,
  and the buffer and the table. A name is a C string and \<open>name_len\<close> its length.
\<close>

definition write_label :: "u8 list \<Rightarrow> nat \<Rightarrow> u8 list \<Rightarrow> u8 list" where
  "write_label buf j label = splice_at buf j (word_of_nat (length label) # label)"

function labels_loop ::
    "allocator \<Rightarrow> u8 list \<Rightarrow> nat \<Rightarrow> u8 list \<Rightarrow> dnslabel_table option \<Rightarrow> (int + nat) \<times> u8 list \<times> dnslabel_table option" where
  "labels_loop malloc buf j name table =
     (let ref = (case table of Some t \<Rightarrow> dnslabel_table_get_pos t name | None \<Rightarrow> - 1) in
      if ref \<ge> 0 then
        (case APPEND16 buf j (word_of_int ref OR 0xc000) of
           Some (buf, j) \<Rightarrow> (Inl (int j), buf, table)
         | None \<Rightarrow> (Inl (- 2), buf, table))
      else let label = first_label name in
        if length label > 63 then (Inl (- 1), buf, table)
        else if j + length label + 1 > length buf then (Inl (- 2), buf, table)
        else let table = map_option (\<lambda>t. snd (dnslabel_table_add malloc t name j)) table;
                 buf = write_label buf j label; j = j + 1 + length label in
          if from_dot name = [] then (Inr j, buf, table)
          else labels_loop malloc buf j (tl (from_dot name)) table)"
  by pat_completeness auto
termination
  by (relation "measure (\<lambda>(m, b, j, name, t). length name)")
    (auto simp: from_dot_def intro!: le_less_trans[OF diff_le_mono[OF length_dropWhile_le]] diff_less)

declare labels_loop.simps [simp del]

text \<open>
  The end of \<open>dnsname_to_labels\<close>: the index behind the name, or a negative number. \<open>None\<close> is a write outside of the
  buffer: the final zero is written without a test.
\<close>

definition end_labels ::
    "(int + nat) \<times> u8 list \<times> dnslabel_table option \<Rightarrow> (int \<times> u8 list \<times> dnslabel_table option) option" where
  "end_labels x =
     (case x of
        (Inl r, buf, table) \<Rightarrow> Some (r, buf, table)
      | (Inr j, buf, table) \<Rightarrow>
          if j = 0 \<or> buf ! (j - 1) \<noteq> 0 then
            (if j \<ge> length buf then None else Some (int (j + 1), buf[j := 0], table))
          else Some (int j, buf, table))"

definition dnsname_to_labels ::
    "allocator \<Rightarrow> u8 list \<Rightarrow> nat \<Rightarrow> u8 list \<Rightarrow> dnslabel_table option \<Rightarrow> (int \<times> u8 list \<times> dnslabel_table option) option" where
  "dnsname_to_labels malloc buf j name table =
     (if length name > 255 then Some (- 2, buf, table) else end_labels (labels_loop malloc buf j name table))"

section \<open>Names in a packet\<close>

text \<open>
  What a name is: labels with their lengths and a zero, or labels and a pointer to the rest of the name. A name at
  \<open>j\<close> has the labels, the number of pointers that are followed, and the index behind it.
\<close>

inductive name_at :: "u8 list \<Rightarrow> nat \<Rightarrow> nat \<Rightarrow> u8 list list \<Rightarrow> nat \<Rightarrow> nat \<Rightarrow> bool" for packet len where
  name_end: "j < len \<Longrightarrow> packet ! j = 0 \<Longrightarrow> name_at packet len j [] 0 (j + 1)"
| name_label: "j < len \<Longrightarrow> packet ! j \<noteq> 0 \<Longrightarrow> packet ! j AND 0xc0 = 0 \<Longrightarrow>
    name_at packet len (j + 1 + unat (packet ! j)) ls k e \<Longrightarrow>
    name_at packet len j (slice packet (j + 1) (unat (packet ! j)) # ls) k e"
| name_pointer: "j + 1 < len \<Longrightarrow> packet ! j AND 0xc0 \<noteq> 0 \<Longrightarrow>
    name_at packet len (label_len_ptr (packet ! j) (packet ! (j + 1))) ls k e \<Longrightarrow>
    name_at packet len j ls (k + 1) (j + 2)"

text \<open>The labels separated by dots.\<close>

fun dotted :: "u8 list list \<Rightarrow> u8 list" where
  "dotted [] = []"
| "dotted [l] = l"
| "dotted (l # m # ls) = l @ DOT # dotted (m # ls)"

definition add_label :: "u8 list \<Rightarrow> u8 list \<Rightarrow> u8 list" where
  "add_label out l = (if out \<noteq> [] then out @ [DOT] else out) @ l"

lemma add_label_length: "length out \<le> length (add_label out l)" "l \<noteq> [] \<Longrightarrow> length out < length (add_label out l)"
  by (auto simp: add_label_def)

lemma add_labels_length: "length out \<le> length (foldl add_label out ls)"
  by (induction ls arbitrary: out) (auto intro: le_trans[OF add_label_length(1)])

lemma dotted_Cons: "dotted (l # ls) = (if ls = [] then l else l @ DOT # dotted ls)"
  by (cases ls) simp_all

lemma add_labels_dotted:
  "out \<noteq> [] \<Longrightarrow> foldl add_label out ls = (if ls = [] then out else out @ DOT # dotted ls)"
proof (induction ls arbitrary: out)
  case (Cons l ls)
  have "add_label out l = out @ DOT # l"
    using Cons.prems by (simp add: add_label_def)
  then show ?case
    using Cons.IH[of "add_label out l"] by (simp add: dotted_Cons)
qed simp

lemma foldl_add_label: "\<forall>l \<in> set ls. l \<noteq> [] \<Longrightarrow> foldl add_label [] ls = dotted ls"
proof (cases ls)
  case (Cons l ls')
  assume "\<forall>l \<in> set ls. l \<noteq> []"
  then have "l \<noteq> []" "add_label [] l = l"
    by (simp_all add: Cons add_label_def)
  then show ?thesis
    using add_labels_dotted[of l ls'] by (simp add: Cons dotted_Cons)
qed simp

lemma label_len_small: "(x :: u8) AND 0xc0 = 0 \<Longrightarrow> unat x \<le> 63"
proof -
  assume x: "x AND 0xc0 = 0"
  have "x = x AND 0x3f"
  proof (rule bit_word_eqI)
    fix n
    assume n: "n < LENGTH(8)"
    have "\<not> bit (x AND 0xc0) n" using x by simp
    then show "bit x n = bit (x AND 0x3f) n"
      using n by (auto simp: bit_simps less_Suc_eq numeral_eq_Suc)
  qed
  then have "x \<le> 0x3f" by (metis word_and_le1)
  then show ?thesis by (simp add: word_le_nat_alt)
qed

lemma label_len_no_ptr: "unat (x :: u8) \<le> 63 \<Longrightarrow> x AND 0xc0 = 0"
proof -
  assume x: "unat x \<le> 63"
  have "take_bit 6 x = x"
    using x by (simp add: word_unat_eq_iff unsigned_take_bit_eq take_bit_nat_eq_self)
  then have "x AND 0xc0 = take_bit 6 x AND 0xc0" by simp
  also have "\<dots> = 0"
    by (rule bit_word_eqI) (auto simp: bit_simps less_Suc_eq numeral_eq_Suc)
  finally show ?thesis .
qed

lemma name_at_less: "name_at packet len j ls k e \<Longrightarrow> j < len"
  by (erule name_at.cases) simp_all

lemma name_at_labels:
  "name_at packet len j ls k e \<Longrightarrow> len \<le> length packet \<Longrightarrow> l \<in> set ls \<Longrightarrow> l \<noteq> [] \<and> length l \<le> 63"
proof (induction rule: name_at.induct)
  case (name_label j ls k e)
  then show ?case
    using label_len_small[of "packet ! j"] name_at_less[OF name_label(4)]
    by (auto simp: slice_def unat_eq_zero)
qed simp_all

lemma name_at_end: "name_at packet len j ls k e \<Longrightarrow> j < e \<and> e \<le> len"
  by (induction rule: name_at.induct) simp_all

text \<open>The loop accepts exactly the names.\<close>

lemma name_loop_complete:
  assumes "len \<le> length packet"
  shows "name_at packet len j ls c e \<Longrightarrow> k + c \<le> len \<Longrightarrow> length (foldl add_label out ls) < lim \<Longrightarrow>
     name_loop packet len lim j k ne out =
       Some (Some (case ne of None \<Rightarrow> e | Some x \<Rightarrow> x, foldl add_label out ls))"
proof (induction arbitrary: k out ne rule: name_at.induct)
  case (name_end j)
  then show ?case using assms by (subst name_loop.simps) (simp add: Let_def split: option.split)
next
  case (name_label j ls c e)
  let ?n = "unat (packet ! j)" and ?l = "slice packet (j + 1) (unat (packet ! j))"
  have next_j: "j + 1 + ?n < len"
    using name_at_less[OF name_label(4)] .
  then have read: "read_bytes packet (j + 1) ?n = Some ?l" "length ?l = ?n"
    using assms by (simp_all add: read_bytes_def)
  have le: "length (add_label out ?l) < lim"
    using name_label.prems(2) add_labels_length[of "add_label out ?l" ls] by simp
  have n: "?n \<le> 63" "?n \<noteq> 0"
    using label_len_small name_label.hyps(2,3) by (simp_all add: unat_eq_zero)
  have "name_loop packet len lim j k ne out = name_loop packet len lim (j + 1 + ?n) k ne (add_label out ?l)"
    using name_label.hyps(1-3) assms n le read
    by (subst name_loop.simps) (auto simp: Let_def add_label_def)
  also have "\<dots> = Some (Some (case ne of None \<Rightarrow> e | Some x \<Rightarrow> x, foldl add_label out (?l # ls)))"
    using name_label.IH[of k "add_label out ?l" ne] name_label.prems by simp
  finally show ?case .
next
  case (name_pointer j ls c e)
  have "packet ! j \<noteq> 0"
    using name_pointer.hyps(2) by auto
  then have "name_loop packet len lim j k ne out =
      name_loop packet len lim (label_len_ptr (packet ! j) (packet ! (j + 1))) (k + 1)
        (case ne of None \<Rightarrow> Some (j + 2) | Some x \<Rightarrow> Some x) out"
    using name_pointer.hyps name_at_less[OF name_pointer.hyps(3)] name_pointer.prems(1) assms
    by (subst name_loop.simps) (cases ne; simp add: Let_def)
  also have "\<dots> = Some (Some (case ne of None \<Rightarrow> j + 2 | Some x \<Rightarrow> x, foldl add_label out ls))"
    using name_pointer.IH[of "k + 1" out] name_pointer.prems by (simp split: option.split)
  finally show ?case .
qed

text \<open>What the loop gives is a name; the case distinction of one pass is shared by the proofs.\<close>

lemma name_loop_cases:
  assumes "len \<le> length packet" "name_loop packet len lim j k ne out = r"
  obtains (bad) "r = Some None"
  | (outside) "j < len" "0 < unat (packet ! j)" "unat (packet ! j) \<le> 63" "length packet < j + 1 + unat (packet ! j)" "r = None"
  | (fin) "j < len" "packet ! j = 0" "length out < lim" "r = Some (Some (case ne of None \<Rightarrow> j + 1 | Some x \<Rightarrow> x, out))"
  | (jump) "j + 1 < len" "packet ! j AND 0xc0 \<noteq> 0" "label_len_ptr (packet ! j) (packet ! (j + 1)) < len" "k + 1 \<le> len"
      "r = name_loop packet len lim (label_len_ptr (packet ! j) (packet ! (j + 1))) (k + 1)
             (case ne of None \<Rightarrow> Some (j + 2) | Some x \<Rightarrow> Some x) out"
  | (label) "j < len" "packet ! j \<noteq> 0" "packet ! j AND 0xc0 = 0" "j + 1 + unat (packet ! j) \<le> length packet"
      "r = name_loop packet len lim (j + 1 + unat (packet ! j)) k ne (add_label out (slice packet (j + 1) (unat (packet ! j))))"
proof -
  note loop = name_loop.simps[of packet len lim j k ne out, unfolded assms(2)]
  show ?thesis
  proof (cases "j < len")
    case j: True
    show ?thesis
    proof (cases "packet ! j = 0")
      case True
      then show ?thesis
        using loop j assms(1) bad fin by (cases ne) (auto simp: Let_def split: if_splits)
    next
      case nz: False
      show ?thesis
      proof (cases "packet ! j AND 0xc0 = 0")
        case False
        then show ?thesis
          using loop j nz assms(1) bad jump by (cases ne) (auto simp: Let_def split: if_splits)
      next
        case True
        note small = label_len_small[OF True]
        show ?thesis
        proof (cases "j + 1 + unat (packet ! j) \<le> length packet")
          case True
          then show ?thesis
            using loop j nz small \<open>packet ! j AND 0xc0 = 0\<close> assms(1) bad label
            by (auto simp: Let_def read_bytes_def add_label_def split: if_splits)
        next
          case False
          then show ?thesis
            using loop j nz small \<open>packet ! j AND 0xc0 = 0\<close> assms(1) bad outside
            by (auto simp: Let_def read_bytes_def unat_gt_0 split: if_splits)
        qed
      qed
    qed
  qed (use loop bad in simp)
qed

definition passes_left :: "nat \<Rightarrow> nat \<Rightarrow> nat \<Rightarrow> nat" where
  "passes_left len j k = (len + 1 - k) * (len + 1) + (len - j)"

lemma passes_left_jump: "k + 1 \<le> len \<Longrightarrow> passes_left len t (k + 1) < passes_left len j k"
proof -
  assume "k + 1 \<le> len"
  then have "len + 1 - k = Suc (len + 1 - (k + 1))" by simp
  then have "passes_left len j k = (len + 1) + (len + 1 - (k + 1)) * (len + 1) + (len - j)"
    unfolding passes_left_def by (metis mult_Suc)
  then show ?thesis by (simp add: passes_left_def)
qed

lemma passes_left_label: "j < len \<Longrightarrow> passes_left len (j + 1 + n) k < passes_left len j k"
  by (simp add: passes_left_def)

lemma name_loop_sound:
  assumes "len \<le> length packet"
  shows "name_loop packet len lim j k ne out = Some (Some (e', out')) \<Longrightarrow> k \<le> len \<Longrightarrow>
     \<exists>ls c e. name_at packet len j ls c e \<and> k + c \<le> len \<and> out' = foldl add_label out ls \<and> length out' < lim \<and>
       e' = (case ne of None \<Rightarrow> e | Some x \<Rightarrow> x)"
proof (induction "passes_left len j k" arbitrary: j k ne out rule: less_induct)
  case less
  from assms less.prems(1) show ?case
  proof (cases rule: name_loop_cases)
    case fin
    then show ?thesis
      using name_at.name_end[OF fin(1,2)] less.prems(2) by (intro exI[of _ "[]"] exI[of _ 0] exI[of _ "j + 1"]) simp
  next
    case jump
    from less.hyps[OF passes_left_jump[OF jump(4)] jump(5)[symmetric] jump(4)] obtain ls c e where
      IH: "name_at packet len (label_len_ptr (packet ! j) (packet ! (j + 1))) ls c e" "k + 1 + c \<le> len"
        "out' = foldl add_label out ls" "length out' < lim"
        "e' = (case case ne of None \<Rightarrow> Some (j + 2) | Some x \<Rightarrow> Some x of None \<Rightarrow> e | Some x \<Rightarrow> x)"
      by (elim exE conjE) (rule that)
    have "name_at packet len j ls (c + 1) (j + 2)"
      by (rule name_at.name_pointer[OF jump(1,2) IH(1)])
    moreover have "e' = (case ne of None \<Rightarrow> j + 2 | Some x \<Rightarrow> x)"
      using IH(5) by (cases ne) simp_all
    ultimately show ?thesis
      using IH(2-4) by (intro exI[of _ ls] exI[of _ "c + 1"] exI[of _ "j + 2"]) simp
  next
    case label
    from less.hyps[OF passes_left_label[OF label(1)] label(5)[symmetric] less.prems(2)] obtain ls c e where
      IH: "name_at packet len (j + 1 + unat (packet ! j)) ls c e" "k + c \<le> len"
        "out' = foldl add_label (add_label out (slice packet (j + 1) (unat (packet ! j)))) ls" "length out' < lim"
        "e' = (case ne of None \<Rightarrow> e | Some x \<Rightarrow> x)"
      by (elim exE conjE) (rule that)
    then show ?thesis
      using name_at.name_label[OF label(1-3) IH(1)]
      by (intro exI[of _ "slice packet (j + 1) (unat (packet ! j)) # ls"] exI[of _ c] exI[of _ e]) simp
  qed simp_all
qed

lemma name_loop_inside:
  assumes "len + 63 \<le> length packet"
  shows "name_loop packet len lim j k ne out \<noteq> None"
proof (induction "passes_left len j k" arbitrary: j k ne out rule: less_induct)
  case less
  define r where "r = name_loop packet len lim j k ne out"
  have "len \<le> length packet" using assms by simp
  from this r_def[symmetric] have "r \<noteq> None"
  proof (cases rule: name_loop_cases)
    case outside
    then show ?thesis using assms by simp
  next
    case jump
    then show ?thesis using less[OF passes_left_jump[OF jump(4)]] by simp
  next
    case label
    then show ?thesis using less[OF passes_left_label[OF label(1)]] by simp
  qed simp_all
  then show ?case by (simp add: r_def)
qed

section \<open>Reading names\<close>

lemma name_parse_iff:
  assumes "len \<le> length packet"
  shows "name_parse packet len idx lim = Some (Some (e, name)) \<longleftrightarrow>
     (\<exists>ls k. name_at packet len idx ls k e \<and> k \<le> len \<and> name = dotted ls \<and> length name < lim)"
proof
  assume "name_parse packet len idx lim = Some (Some (e, name))"
  then obtain ls k e' where L: "name_at packet len idx ls k e'" "0 + k \<le> len" "name = foldl add_label [] ls" "length name < lim"
    "e = (case None of None \<Rightarrow> e' | Some x \<Rightarrow> x)"
    using name_loop_sound[OF assms, of lim idx 0 None "[]" e name] unfolding name_parse_def by auto
  then have "name = dotted ls"
    using foldl_add_label name_at_labels[OF L(1) assms] by metis
  then show "\<exists>ls k. name_at packet len idx ls k e \<and> k \<le> len \<and> name = dotted ls \<and> length name < lim"
    using L by (intro exI[of _ ls] exI[of _ k]) simp
next
  assume "\<exists>ls k. name_at packet len idx ls k e \<and> k \<le> len \<and> name = dotted ls \<and> length name < lim"
  then obtain ls k where L: "name_at packet len idx ls k e" "k \<le> len" "name = dotted ls" "length name < lim"
    by (elim exE conjE) (rule that)
  then have "name = foldl add_label [] ls"
    using foldl_add_label name_at_labels[OF L(1) assms] by metis
  then show "name_parse packet len idx lim = Some (Some (e, name))"
    using name_loop_complete[OF assms L(1), of 0 "[]" lim None] L by (simp add: name_parse_def)
qed

section \<open>Writing names\<close>

text \<open>The labels of a name, and the names that can be written.\<close>

lemma tl_from_dot_less: "from_dot name \<noteq> [] \<Longrightarrow> length (tl (from_dot name)) < length name"
  by (metis Nitpick.size_list_simp(2) from_dot_def length_dropWhile_le lessI less_le_trans)

function labels_of :: "u8 list \<Rightarrow> u8 list list" where
  "labels_of name = first_label name # (if from_dot name = [] then [] else labels_of (tl (from_dot name)))"
  by pat_completeness auto
termination
  by (relation "measure length") (simp_all add: tl_from_dot_less del: length_tl)

declare labels_of.simps [simp del]

definition labels_fine :: "u8 list list \<Rightarrow> bool" where
  "labels_fine ls \<longleftrightarrow> (\<forall>l \<in> set ls. l \<noteq> [] \<and> length l \<le> 63 \<and> 0 \<notin> set l)"

definition dns_name :: "u8 list \<Rightarrow> bool" where
  "dns_name name \<longleftrightarrow> length name \<le> 255 \<and> labels_fine (labels_of name)"

lemma name_split: "name = first_label name @ from_dot name"
  by (simp add: first_label_def from_dot_def)

lemma from_dot_hd: "from_dot name \<noteq> [] \<Longrightarrow> from_dot name = DOT # tl (from_dot name)"
  using hd_dropWhile[of "\<lambda>c. c \<noteq> DOT" name] by (cases "from_dot name") (auto simp: from_dot_def)

lemma dotted_labels_of [simp]: "dotted (labels_of name) = name"
proof (induction name rule: labels_of.induct)
  case (1 name)
  show ?case
  proof (cases "from_dot name = []")
    case True
    then show ?thesis using name_split[of name] by (simp add: labels_of.simps[of name])
  next
    case False
    have "labels_of (tl (from_dot name)) \<noteq> []"
      by (subst labels_of.simps) simp
    then show ?thesis
      using 1[OF False] from_dot_hd[OF False] name_split[of name] False
      by (subst labels_of.simps) (simp add: dotted_Cons)
  qed
qed

text \<open>A name stays when the packet grows.\<close>

lemma name_at_mono:
  assumes "len \<le> len'" "\<forall>i<len. packet' ! i = packet ! i" "len \<le> length packet" "len \<le> length packet'"
  shows "name_at packet len j ls k e \<Longrightarrow> name_at packet' len' j ls k e"
proof (induction rule: name_at.induct)
  case (name_end j)
  then show ?case using assms by (intro name_at.name_end) simp_all
next
  case (name_label j ls k e)
  have "j + 1 + unat (packet ! j) < len"
    using name_at_less[OF name_label(4)] .
  then have "slice packet (j + 1) (unat (packet ! j)) = slice packet' (j + 1) (unat (packet' ! j))"
    using assms name_label(1) by (intro nth_equalityI) (auto simp: slice_def)
  then show ?case
    using name_at.name_label[of j len' packet' ls k e] name_label assms by simp
next
  case (name_pointer j ls k e)
  then show ?case using assms by (intro name_at.name_pointer) simp_all
qed

text \<open>The entries of the table name what is written; the pointers from there on are fewer than the bytes before it.\<close>

definition entries :: "dnslabel_table option \<Rightarrow> dnslabel_table" where
  "entries table = (case table of None \<Rightarrow> [] | Some t \<Rightarrow> t)"

definition table_ok :: "u8 list \<Rightarrow> nat \<Rightarrow> dnslabel_table \<Rightarrow> bool" where
  "table_ok buf j t \<longleftrightarrow> (\<forall>(v, pos) \<in> set t. \<exists>k e. name_at buf j pos (labels_of v) k e \<and> k \<le> pos)"

lemma get_pos_Some: "dnslabel_table_get_pos t label \<ge> 0 \<Longrightarrow> (label, nat (dnslabel_table_get_pos t label)) \<in> set t"
  by (induction t label rule: dnslabel_table_get_pos.induct) auto

lemma table_ok_mono:
  assumes "table_ok buf j t" "j \<le> j'" "\<forall>i<j. buf' ! i = buf ! i" "j \<le> length buf" "j \<le> length buf'"
  shows "table_ok buf' j' t"
  using assms(1) name_at_mono[OF assms(2-5)] unfolding table_ok_def by blast

lemma ptr_word:
  assumes "ref < 0x4000"
  shows "(ucast (drop_bit 8 (word_of_nat ref OR 0xc000 :: u16)) :: u8) AND 0xc0 \<noteq> 0"
    "(ucast (drop_bit 8 (word_of_nat ref OR 0xc000 :: u16)) :: u8) AND 0x3f = ucast (drop_bit 8 (word_of_nat ref :: u16))"
    "(ucast (word_of_nat ref OR 0xc000 :: u16) :: u8) = ucast (word_of_nat ref :: u16)"
proof -
  define w where "w = (word_of_nat ref :: u16)"
  have "take_bit 14 w = w"
    using assms by (simp add: w_def word_unat_eq_iff unsigned_take_bit_eq take_bit_nat_eq_self unat_of_nat)
  then have small: "bit w n \<Longrightarrow> n < 14" for n
    by (metis bit_take_bit_iff)
  have c0: "bit (0xc000 :: u16) n \<longleftrightarrow> n = 14 \<or> n = 15" for n
    by (auto simp: bit_simps numeral_eq_Suc less_Suc_eq)
  have "bit ((ucast (drop_bit 8 (w OR 0xc000)) :: u8) AND 0xc0) 7"
    by (simp add: bit_simps c0 numeral_eq_Suc)
  then show "(ucast (drop_bit 8 (word_of_nat ref OR 0xc000 :: u16)) :: u8) AND 0xc0 \<noteq> 0"
    unfolding w_def by (metis bit_0_eq bot_apply bot_bool_def)
  show "(ucast (drop_bit 8 (word_of_nat ref OR 0xc000 :: u16)) :: u8) AND 0x3f = ucast (drop_bit 8 (word_of_nat ref :: u16))"
    unfolding w_def[symmetric]
  proof (rule bit_word_eqI)
    fix n
    assume n: "n < LENGTH(8)"
    have "bit (0x3f :: u8) n \<longleftrightarrow> n < 6"
      by (auto simp: bit_simps numeral_eq_Suc less_Suc_eq)
    then show "bit ((ucast (drop_bit 8 (w OR 0xc000)) :: u8) AND 0x3f) n = bit (ucast (drop_bit 8 w) :: u8) n"
      using n small[of "n + 8"] unfolding bit_and_iff bit_ucast_iff bit_drop_bit_eq comp_apply bit_or_iff c0
      by (auto simp: add.commute)
  qed
  show "(ucast (word_of_nat ref OR 0xc000 :: u16) :: u8) = ucast (word_of_nat ref :: u16)"
    unfolding w_def[symmetric]
    by (rule bit_word_eqI) (unfold bit_ucast_iff bit_or_iff c0, auto)
qed

lemma ptr_bytes:
  assumes "ref < 0x4000"
  shows "to_be16 (word_of_nat ref OR 0xc000) ! 0 AND 0xc0 \<noteq> 0"
    "label_len_ptr (to_be16 (word_of_nat ref OR 0xc000) ! 0) (to_be16 (word_of_nat ref OR 0xc000) ! 1) = ref"
proof -
  show "to_be16 (word_of_nat ref OR 0xc000) ! 0 AND 0xc0 \<noteq> 0"
    using ptr_word(1)[OF assms] by (simp add: to_be16_def)
  have "unat (drop_bit 8 (word_of_nat ref :: u16)) = ref div 256"
    unfolding unat_drop_bit_eq using assms by (simp add: drop_bit_eq_div unat_of_nat)
  then have "unat (ucast (drop_bit 8 (word_of_nat ref :: u16)) :: u8) = ref div 256"
    using assms by (simp add: unsigned_ucast_eq take_bit_eq_mod)
  moreover have "unat (ucast (word_of_nat ref :: u16) :: u8) = ref mod 256"
    using assms by (simp add: unsigned_ucast_eq take_bit_eq_mod unat_of_nat)
  ultimately show "label_len_ptr (to_be16 (word_of_nat ref OR 0xc000) ! 0) (to_be16 (word_of_nat ref OR 0xc000) ! 1) = ref"
    using ptr_word(2,3)[OF assms] by (simp add: to_be16_def label_len_ptr_def push_bit_eq_mult)
qed

text \<open>
  What writing a name, or the end of a name that begins at \<open>j0\<close>, does: the name is read back at \<open>j\<close>, the bytes
  before \<open>j\<close> stay, and the new entries of the table are true.
\<close>

definition name_written ::
    "u8 list \<Rightarrow> nat \<Rightarrow> nat \<Rightarrow> dnslabel_table \<Rightarrow> u8 list \<Rightarrow> u8 list \<Rightarrow> nat \<Rightarrow> dnslabel_table \<Rightarrow> bool" where
  "name_written buf j0 j told name buf' r new \<longleftrightarrow>
     (\<exists>k. name_at buf' r j (labels_of name) k r \<and> k \<le> j0) \<and> length buf' = length buf \<and> (\<forall>i<j. buf' ! i = buf ! i) \<and>
     j < r \<and> r \<le> length buf \<and> r \<le> j + length name + 2 \<and> table_ok buf' r (told @ new)"

lemma nth_splice_at:
  assumes "i + length ys \<le> length xs" "k < length xs"
  shows "splice_at xs i ys ! k = (if i \<le> k \<and> k < i + length ys then ys ! (k - i) else xs ! k)"
  using assms by (auto simp: splice_at_def nth_append min_def)

lemma name_written_pointer:
  assumes t: "table_ok buf j0 told" "(name, ref) \<in> set told" and j: "j0 \<le> j" "j + 2 \<le> length buf" "length buf \<le> 0x4000"
  shows "name_written buf j0 j told name (splice_at buf j (to_be16 (word_of_nat ref OR 0xc000))) (j + 2) []"
proof -
  define buf' where "buf' = splice_at buf j (to_be16 (word_of_nat ref OR 0xc000))"
  have two: "length (to_be16 (word_of_nat ref OR 0xc000)) = 2" by (simp add: to_be16_def)
  then have len: "length buf' = length buf" and below: "\<forall>i<j. buf' ! i = buf ! i"
    and at: "buf' ! j = to_be16 (word_of_nat ref OR 0xc000) ! 0" "buf' ! (j + 1) = to_be16 (word_of_nat ref OR 0xc000) ! 1"
    using j(2) unfolding buf'_def by (simp_all add: nth_splice_at)
  then have below0: "\<forall>i<j0. buf' ! i = buf ! i"
    using j(1) by simp
  obtain k e where k: "name_at buf j0 ref (labels_of name) k e" "k \<le> ref"
    using t unfolding table_ok_def by blast
  have ref: "ref < j0"
    using name_at_less[OF k(1)] .
  have "name_at buf' (j + 2) ref (labels_of name) k e"
    using name_at_mono[OF _ below0 _ _ k(1), of "j + 2"] j len by simp
  then have "name_at buf' (j + 2) j (labels_of name) (k + 1) (j + 2)"
    using ptr_bytes[of ref] ref j at by (intro name_at.name_pointer) simp_all
  moreover have "table_ok buf' (j + 2) told"
    using table_ok_mono[OF t(1) _ below0] j len by simp
  moreover have "k + 1 \<le> j0"
    using k(2) ref by simp
  ultimately show ?thesis
    using len below j(2) by (auto simp: name_written_def buf'_def[symmetric])
qed

lemma write_label_props:
  assumes "j + 1 + length label \<le> length buf"
  shows "length (write_label buf j label) = length buf" "\<forall>i<j. write_label buf j label ! i = buf ! i"
    "write_label buf j label ! j = word_of_nat (length label)"
    "slice (write_label buf j label) (j + 1) (length label) = label"
    "label \<noteq> [] \<Longrightarrow> write_label buf j label ! (j + length label) = last label"
proof -
  let ?w = "word_of_nat (length label) # label"
  have room: "j + length ?w \<le> length buf" using assms by simp
  then show "length (write_label buf j label) = length buf" "\<forall>i<j. write_label buf j label ! i = buf ! i"
    "write_label buf j label ! j = word_of_nat (length label)"
    unfolding write_label_def by (simp_all add: nth_splice_at)
  show "slice (write_label buf j label) (j + 1) (length label) = label"
    unfolding write_label_def using room
    by (intro nth_equalityI) (auto simp: slice_def nth_splice_at)
  show "label \<noteq> [] \<Longrightarrow> write_label buf j label ! (j + length label) = last label"
    unfolding write_label_def using room by (simp add: nth_splice_at last_conv_nth)
qed

text \<open>The first label before a name that is written behind it.\<close>

lemma name_written_label:
  assumes label: "label \<noteq> []" "length label \<le> 63" and room: "j + 1 + length label \<le> length buf"
    and rest: "name_at buf' r (j + 1 + length label) ls k r"
    and buf': "length buf' = length buf" "\<forall>i<j + 1 + length label. buf' ! i = write_label buf j label ! i" "r \<le> length buf"
  shows "name_at buf' r j (label # ls) k r"
proof -
  note W = write_label_props[OF room]
  have j: "buf' ! j = word_of_nat (length label)" "unat (buf' ! j) = length label"
    using W(3) buf'(2) label(2) by (simp_all add: unat_of_nat)
  have "slice buf' (j + 1) (length label) = slice (write_label buf j label) (j + 1) (length label)"
    using buf'(1,2) W(1) room by (intro nth_equalityI) (auto simp: slice_def)
  then have "name_at buf' r j (slice buf' (j + 1) (unat (buf' ! j)) # ls) k r"
    using rest name_at_less[OF rest] label label_len_no_ptr[of "buf' ! j"] j
    by (intro name_at.name_label) (auto simp: unat_eq_zero[symmetric])
  then show ?thesis
    using j(2) W(4) \<open>slice buf' (j + 1) (length label) = slice (write_label buf j label) (j + 1) (length label)\<close> by simp
qed

lemma table_ok_append: "table_ok buf j (s @ t) \<longleftrightarrow> table_ok buf j s \<and> table_ok buf j t"
  unfolding table_ok_def set_append ball_Un ..

lemma table_ok_one: "set t \<subseteq> {(name, p)} \<Longrightarrow> name_at buf j p (labels_of name) k e \<Longrightarrow> k \<le> p \<Longrightarrow> table_ok buf j t"
  unfolding table_ok_def by blast

lemma add_entries:
  "\<exists>extra. entries (map_option (\<lambda>t. snd (dnslabel_table_add malloc t name j)) table) = entries table @ extra \<and>
     set extra \<subseteq> {(name, j)}"
proof (cases table)
  case (Some t)
  have "snd (dnslabel_table_add malloc t name j) = t @ [] \<or> snd (dnslabel_table_add malloc t name j) = t @ [(name, j)]"
    by (simp add: dnslabel_table_add_def split: option.split)
  then show ?thesis
    unfolding Some entries_def by (metis empty_subsetI list.set(1) list.simps(15) option.case(2) option.map(2) subset_refl)
qed (simp add: entries_def)

lemma labels_loop_written:
  assumes buf_len: "length buf \<le> 0x4000"
  shows "end_labels (labels_loop malloc buf j name table) = Some (r, buf', table') \<Longrightarrow> 0 \<le> r \<Longrightarrow>
     labels_fine (labels_of name) \<Longrightarrow> entries table = told @ pend \<Longrightarrow> table_ok buf j0 told \<Longrightarrow> j0 \<le> j \<Longrightarrow> j \<le> length buf \<Longrightarrow>
     \<forall>(v, p) \<in> set pend. length name < length v \<Longrightarrow>
     \<exists>new. name_written buf j0 j told name buf' (nat r) new \<and> entries table' = told @ pend @ new \<and> (table' = None) = (table = None)"
  using buf_len
proof (induction malloc buf j name table arbitrary: pend rule: labels_loop.induct)
  case (1 malloc buf j name table)
  note prems = 1(2-10)
  define ref where "ref = (case table of Some t \<Rightarrow> dnslabel_table_get_pos t name | None \<Rightarrow> - 1)"
  note loop = labels_loop.simps[of malloc buf j name table, folded ref_def]
  show ?case
  proof (cases "ref \<ge> 0")
    case True
    then obtain t where t: "table = Some t" "ref = dnslabel_table_get_pos t name"
      by (auto simp: ref_def split: option.splits)
    have "(name, nat ref) \<in> set (told @ pend)"
      using get_pos_Some[of t name] True t prems(4) by (simp add: entries_def)
    then have mem: "(name, nat ref) \<in> set told"
      using prems(8) by auto
    have r: "word_of_int ref = (word_of_nat (nat ref) :: u16)"
      using True by simp
    have "j + 2 \<le> length buf"
      using prems(1,2) loop True by (auto simp: end_labels_def APPEND16_def split: if_splits)
    then have res: "buf' = splice_at buf j (to_be16 (word_of_int ref OR 0xc000))" "r = int (j + 2)" "table' = table"
      using prems(1) loop True by (simp_all add: end_labels_def APPEND16_def)
    have "name_written buf j0 j told name buf' (j + 2) []"
      using name_written_pointer[OF prems(5) mem prems(6) \<open>j + 2 \<le> length buf\<close> prems(9)] unfolding res(1) r .
    then show ?thesis
      using prems(4) res(2,3) by (intro exI[of _ "[]"]) (simp add: nat_add_distrib)
  next
    case False
    define label where "label = first_label name"
    have fine: "label \<noteq> []" "length label \<le> 63" "0 \<notin> set label"
      using prems(3) by (simp_all add: labels_fine_def labels_of.simps[of name] label_def)
    have room: "j + 1 + length label \<le> length buf"
      using prems(1,2) loop False fine(2) by (auto simp: end_labels_def label_def[symmetric] Let_def split: if_splits)
    note W = write_label_props[OF room]
    define buf1 where "buf1 = write_label buf j label"
    define table1 where "table1 = map_option (\<lambda>t. snd (dnslabel_table_add malloc t name j)) table"
    define j1 where "j1 = j + 1 + length label"
    obtain extra where extra: "entries table1 = told @ pend @ extra" "set extra \<subseteq> {(name, j)}" "(table1 = None) = (table = None)"
      using add_entries[of malloc name j table] prems(4) unfolding table1_def by auto
    have below: "\<forall>i<j. buf1 ! i = buf ! i" "length buf1 = length buf"
      using W(1,2) by (simp_all add: buf1_def)
    have told1: "table_ok buf1 j0 told"
      using table_ok_mono[OF prems(5) order_refl, of buf1] below prems(6,7) by simp
    show ?thesis
    proof (cases "from_dot name = []")
      case True
      have "buf1 ! (j1 - 1) \<noteq> 0"
        using W(5)[OF fine(1)] fine(3) last_in_set[OF fine(1)] by (simp add: buf1_def j1_def) metis
      then have res: "j1 < length buf" "r = int (j1 + 1)" "buf' = buf1[j1 := 0]" "table' = table1"
        using prems(1) loop False room fine(2) True below(2)
        by (auto simp: end_labels_def label_def[symmetric] Let_def buf1_def[symmetric] table1_def[symmetric] j1_def split: if_splits)
      have "name_at buf' (j1 + 1) j1 [] 0 (j1 + 1)"
        using res(1,3) below(2) by (intro name_at.name_end) simp_all
      then have at: "name_at buf' (j1 + 1) j (labels_of name) 0 (j1 + 1)"
        using name_written_label[OF fine(1,2) room, of buf' "j1 + 1" "[]" 0] res below True
        by (simp add: labels_of.simps[of name] label_def[symmetric] j1_def buf1_def)
      have "table_ok buf' (j1 + 1) (told @ extra)"
      proof -
        have "table_ok buf' (j1 + 1) told"
          using table_ok_mono[OF told1, of "j1 + 1" buf'] res below prems(6,7) by (simp add: j1_def)
        then show ?thesis
          using table_ok_one[OF extra(2) at] by (simp add: table_ok_append)
      qed
      moreover have "length label \<le> length name"
        by (simp add: label_def first_label_def length_takeWhile_le)
      ultimately have "name_written buf j0 j told name buf' (j1 + 1) extra"
        using at res(1,3) below unfolding name_written_def by (intro conjI exI[of _ 0]) (auto simp: j1_def)
      moreover have "nat r = j1 + 1"
        using res(2) by linarith
      ultimately have "name_written buf j0 j told name buf' (nat r) extra"
        by (simp only:)
      then show ?thesis
        using extra res(4) by (intro exI[of _ extra]) simp
    next
      case more: False
      define rest where "rest = tl (from_dot name)"
      have shorter: "length rest < length name"
        using tl_from_dot_less[OF more] by (simp add: rest_def)
      have fine': "labels_fine (labels_of rest)" "labels_of name = label # labels_of rest"
        using prems(3) more by (simp_all add: labels_fine_def labels_of.simps[of name] rest_def label_def)
      have run: "end_labels (labels_loop malloc buf1 j1 rest table1) = Some (r, buf', table')"
        using prems(1) loop False fine(2) room more
        by (simp add: label_def[symmetric] Let_def buf1_def[symmetric] table1_def[symmetric] j1_def rest_def[symmetric])
      have pend: "\<forall>(v, p) \<in> set (pend @ extra). length rest < length v"
        using prems(8) extra(2) shorter by fastforce
      have cond: "\<not> 63 < length label" "\<not> length buf < j + length label + 1" "j0 \<le> j1" "j1 \<le> length buf1" "length buf1 \<le> 0x4000"
        using fine(2) room prems(6,9) below(2) by (simp_all add: j1_def)
      from 1(1)[OF ref_def False label_def cond(1,2) table1_def buf1_def j1_def more, folded rest_def,
          OF run prems(2) fine'(1) extra(1) told1 cond(3,4) pend cond(5)]
      obtain new where new: "name_written buf1 j0 j1 told rest buf' (nat r) new" "entries table' = told @ (pend @ extra) @ new"
        "(table' = None) = (table1 = None)"
        by (elim exE conjE) (rule that)
      obtain k where k: "name_at buf' (nat r) j1 (labels_of rest) k (nat r)" "k \<le> j0"
        using new(1) unfolding name_written_def by (elim exE conjE) (rule that)
      have N: "length buf' = length buf1" "\<forall>i<j1. buf' ! i = buf1 ! i" "j1 < nat r" "nat r \<le> length buf1"
        "nat r \<le> j1 + length rest + 2" "table_ok buf' (nat r) (told @ new)"
        using new(1) by (simp_all add: name_written_def)
      have at: "name_at buf' (nat r) j (labels_of name) k (nat r)"
        unfolding fine'(2) using name_written_label[OF fine(1,2) room, of buf' "nat r" "labels_of rest" k] k(1) N below(2)
        by (simp add: j1_def buf1_def)
      have "length name = length label + 1 + length rest"
        using name_split[of name] from_dot_hd[OF more] by (metis add.assoc add.commute label_def length_Cons length_append plus_1_eq_Suc rest_def)
      moreover have "table_ok buf' (nat r) (told @ extra @ new)"
        using N(6) table_ok_one[OF extra(2) at] k(2) prems(6) by (simp add: table_ok_append)
      ultimately have "name_written buf j0 j told name buf' (nat r) (extra @ new)"
        using at k(2) N below by (auto simp: name_written_def j1_def)
      then show ?thesis
        using new(2,3) extra(3) by (intro exI[of _ "extra @ new"]) simp
    qed
  qed
qed

lemma dnsname_to_labels_written:
  assumes "dnsname_to_labels malloc buf j name table = Some (r, buf', table')" "0 \<le> r"
    and "dns_name name" "table_ok buf j (entries table)" "j \<le> length buf" "length buf \<le> 0x4000"
  shows "\<exists>new. name_written buf j j (entries table) name buf' (nat r) new \<and> entries table' = entries table @ new \<and>
     (table' = None) = (table = None)"
proof -
  have "end_labels (labels_loop malloc buf j name table) = Some (r, buf', table')" "labels_fine (labels_of name)"
    using assms(1,3) by (simp_all add: dnsname_to_labels_def dns_name_def)
  from labels_loop_written[OF assms(6) this(1) assms(2) this(2) append_Nil2[symmetric] assms(4) order_refl assms(5)]
  show ?thesis by simp
qed

lemma name_written_parse:
  assumes "name_written buf j j told name buf' r new" "dns_name name" "255 < lim" "r \<le> len" "len \<le> length packet"
    and "\<forall>i<r. packet ! i = buf' ! i"
  shows "name_parse packet len j lim = Some (Some (r, name))"
proof -
  obtain k where k: "name_at buf' r j (labels_of name) k r" "k \<le> j" and r: "r \<le> length buf'" "j < r"
    using assms(1) unfolding name_written_def by auto
  have "name_at packet len j (labels_of name) k r"
    using assms(4-6) r by (intro name_at_mono[OF assms(4,6) r(1) _ k(1)]) simp
  moreover have "k \<le> len" using k(2) r(2) assms(4) by simp
  moreover have "length name < lim" using assms(2,3) by (simp add: dns_name_def)
  ultimately have "\<exists>ls k. name_at packet len j ls k r \<and> k \<le> len \<and> name = dotted ls \<and> length name < lim"
    by (intro exI[of _ "labels_of name"] exI[of _ k]) simp
  then show ?thesis using name_parse_iff[OF assms(5)] by simp
qed

text \<open>With room enough writing succeeds.\<close>

lemma labels_loop_room:
  "labels_fine (labels_of name) \<Longrightarrow> j + length name + 2 \<le> length buf \<Longrightarrow>
   \<exists>r buf' table'. end_labels (labels_loop malloc buf j name table) = Some (r, buf', table') \<and> 0 \<le> r"
proof (induction malloc buf j name table rule: labels_loop.induct)
  case (1 malloc buf j name table)
  define ref where "ref = (case table of Some t \<Rightarrow> dnslabel_table_get_pos t name | None \<Rightarrow> - 1)"
  note loop = labels_loop.simps[of malloc buf j name table, folded ref_def]
  define label where "label = first_label name"
  have fine: "length label \<le> 63"
    using 1(2) by (simp add: labels_fine_def labels_of.simps[of name] label_def)
  have len: "length name = length label + length (from_dot name)"
    using name_split[of name] by (metis label_def length_append)
  then have room: "\<not> length buf < j + length label + 1" "\<not> 63 < length label" "j + 1 + length label \<le> length buf"
    using 1(3) fine by simp_all
  show ?case
  proof (cases "ref \<ge> 0")
    case True
    then show ?thesis using loop 1(3) by (simp add: end_labels_def APPEND16_def)
  next
    case False
    define buf1 where "buf1 = write_label buf j label"
    define table1 where "table1 = map_option (\<lambda>t. snd (dnslabel_table_add malloc t name j)) table"
    define j1 where "j1 = j + 1 + length label"
    have buf1: "length buf1 = length buf"
      using write_label_props(1)[OF room(3)] by (simp add: buf1_def)
    note step = loop[unfolded Let_def, folded label_def, folded buf1_def table1_def j1_def]
    show ?thesis
    proof (cases "from_dot name = []")
      case True
      then show ?thesis
        using step False room 1(3) len buf1 by (simp add: end_labels_def j1_def)
    next
      case more: False
      have "labels_fine (labels_of (tl (from_dot name)))"
        using 1(2) more by (simp add: labels_fine_def labels_of.simps[of name])
      moreover have "j1 + length (tl (from_dot name)) + 2 \<le> length buf1"
        using 1(3) len more buf1 by (cases "from_dot name") (simp_all add: j1_def)
      ultimately show ?thesis
        using 1(1)[OF ref_def False label_def room(2,1) table1_def buf1_def j1_def more] step False room more by simp
    qed
  qed
qed

section \<open>Properties of names\<close>



text \<open>
  C32: The length of a label is not compared with what is left of the packet before its bytes are copied: a label
  that reaches over the end of the memory that holds the packet is read from outside of it.
\<close>

theorem name_parse_overreads:
  assumes "idx < len" "len \<le> length packet" "0 < unat (packet ! idx)" "unat (packet ! idx) \<le> 63"
    and "length packet < idx + 1 + unat (packet ! idx)" "63 < lim"
  shows "name_parse packet len idx lim = None"
proof -
  have "packet ! idx \<noteq> 0" "packet ! idx AND 0xc0 = 0"
    using assms(3) label_len_no_ptr[OF assms(4)] by (auto simp: unat_gt_0)
  then show ?thesis
    using assms unfolding name_parse_def by (subst name_loop.simps) (simp add: Let_def read_bytes_def)
qed

theorem name_parse_overreads_witness: "name_parse [63, 97] 2 0 256 = None"
  using name_parse_overreads[of 0 2 "[63, 97]" 256] by simp

text \<open>
  C33: A name that \<open>dnsname_to_labels\<close> writes, with pointers into what the table says was written before or without a
  table, is read back by \<open>name_parse\<close> from the finished packet, whatever is written behind it. The bytes before it
  stay, and what the table says is true of the new packet, too.
\<close>

theorem dnsname_to_labels_roundtrip:
  assumes "dnsname_to_labels malloc buf j name table = Some (r, buf', table')" "0 \<le> r"
    and "dns_name name" "table_ok buf j (entries table)" "j \<le> length buf" "length buf \<le> 0x4000"
    and "nat r \<le> len" "len \<le> length packet" "\<forall>i<nat r. packet ! i = buf' ! i"
  shows "name_parse packet len j 256 = Some (Some (nat r, name)) \<and> (\<forall>i<j. buf' ! i = buf ! i) \<and>
    table_ok buf' (nat r) (entries table')"
proof -
  obtain new where new: "name_written buf j j (entries table) name buf' (nat r) new" "entries table' = entries table @ new"
    using dnsname_to_labels_written[OF assms(1-6)] by (elim exE conjE) (rule that)
  have "name_parse packet len j 256 = Some (Some (nat r, name))"
    by (rule name_written_parse[OF new(1) assms(3) _ assms(7-9)]) simp
  then show ?thesis
    using new by (simp add: name_written_def)
qed

text \<open>The second of two names ends like the first and is written with a pointer.\<close>

theorem dnsname_to_labels_roundtrip_witness:
  "name_parse [1, 97, 1, 98, 0, 1, 99, 0xc0, 2, 0, 0, 0] 9 5 256 = Some (Some (9, [99, DOT, 98]))"
proof -
  let ?t = "[([97, DOT, 98], 0), ([98], 2)] :: dnslabel_table"
  have fine: "dns_name [97, DOT, 98]" "dns_name [99, DOT, 98]"
    by code_simp+
  have first: "dnsname_to_labels (\<lambda>n. Some n) (replicate 12 0) 0 [97, DOT, 98] (Some []) =
      Some (5, [1, 97, 1, 98, 0, 0, 0, 0, 0, 0, 0, 0], Some ?t)"
    by code_simp
  have second: "dnsname_to_labels (\<lambda>n. Some n) [1, 97, 1, 98, 0, 0, 0, 0, 0, 0, 0, 0] 5 [99, DOT, 98] (Some ?t) =
      Some (9, [1, 97, 1, 98, 0, 1, 99, 0xc0, 2, 0, 0, 0], Some (?t @ [([99, DOT, 98], 5)]))"
    by code_simp
  have "table_ok (replicate 12 0) 0 (entries (Some []))"
    by (simp add: table_ok_def entries_def)
  from dnsname_to_labels_roundtrip[OF first _ fine(1) this, of 12 "[1, 97, 1, 98, 0, 0, 0, 0, 0, 0, 0, 0]"]
  have "table_ok [1, 97, 1, 98, 0, 0, 0, 0, 0, 0, 0, 0] 5 (entries (Some ?t))"
    by simp
  from dnsname_to_labels_roundtrip[OF second _ fine(2) this, of 9 "[1, 97, 1, 98, 0, 1, 99, 0xc0, 2, 0, 0, 0]"]
  show ?thesis by simp
qed

text \<open>
  The zero behind the last label is written without a test for room: with room for the labels only, the byte
  behind the buffer is overwritten.
\<close>

theorem dnsname_to_labels_overflows:
  assumes "name \<noteq> []" "DOT \<notin> set name" "0 \<notin> set name" "length name \<le> 63" "j + 1 + length name = length buf"
  shows "dnsname_to_labels malloc buf j name None = None"
proof -
  have "first_label name = name" "from_dot name = []"
    using assms(2) by (auto simp: first_label_def from_dot_def takeWhile_eq_all_conv)
  moreover have "length buf - 1 = j + length name"
    using assms(5) by simp
  moreover have "write_label buf j name ! (j + length name) \<noteq> 0"
    using write_label_props(5)[of j name buf] assms last_in_set[OF assms(1)] by (simp, metis)
  moreover have "length (write_label buf j name) = length buf"
    using write_label_props(1)[of j name buf] assms(5) by simp
  ultimately show ?thesis
    using assms by (simp add: dnsname_to_labels_def labels_loop.simps end_labels_def Let_def)
qed

end
