(* ===== verification/Dns_Message.thy ===== *)
theory Dns_Message
  imports Dns_Name Inet
begin

text \<open>
  DNS messages, \<^verbatim>\<open>evdns.c\<close>: the question a client sends, how a server reads it, collects the answer and writes it
  with compressed names, and how the client reads the answer.
\<close>

section \<open>Constants\<close>

definition TYPE_A :: u16 where "TYPE_A = 1"
definition TYPE_CNAME :: u16 where "TYPE_CNAME = 5"
definition TYPE_PTR :: u16 where "TYPE_PTR = 12"
definition TYPE_SOA :: u16 where "TYPE_SOA = 6"
definition TYPE_AAAA :: u16 where "TYPE_AAAA = 28"
definition CLASS_INET :: u16 where "CLASS_INET = 1"
definition MAX_V4_ADDRS :: nat where "MAX_V4_ADDRS = 32"
definition MAX_V6_ADDRS :: nat where "MAX_V6_ADDRS = 32"
definition HOST_NAME_MAX :: nat where "HOST_NAME_MAX = 255"

lemmas dns_constants = TYPE_A_def TYPE_CNAME_def TYPE_PTR_def TYPE_SOA_def TYPE_AAAA_def CLASS_INET_def
  MAX_V4_ADDRS_def MAX_V6_ADDRS_def HOST_NAME_MAX_def

text \<open>The C string at the beginning of some memory, and what a text is in memory.\<close>

definition c_string :: "u8 list \<Rightarrow> u8 list" where "c_string bs = takeWhile (\<lambda>b. b \<noteq> 0) bs"

definition bytes_of_string :: "string \<Rightarrow> u8 list" where "bytes_of_string s = map of_char s"

definition string_of_bytes :: "u8 list \<Rightarrow> string" where "string_of_bytes bs = map (\<lambda>b. char_of (unat b)) bs"

section \<open>Writing a message\<close>

text \<open>
  The buffer, the index and the table of a message that is written. A step goes on, jumps to the label \<open>overflow\<close>
  or makes the function return a number; without a result it accesses memory outside of the buffer.
\<close>

type_synonym dns_writer = "u8 list \<times> nat \<times> dnslabel_table"

datatype write_end = Done | Overflow | Returned int

type_synonym dns_step = "dns_writer \<Rightarrow> (write_end \<times> dns_writer) option"

fun put_all :: "dns_step list \<Rightarrow> dns_step" where
  "put_all [] w = Some (Done, w)"
| "put_all (f # fs) w =
     (case f w of Some (Done, w') \<Rightarrow> put_all fs w' | Some (Overflow, w') \<Rightarrow> Some (Overflow, w')
      | Some (Returned r, w') \<Rightarrow> Some (Returned r, w') | None \<Rightarrow> None)"

definition put16 :: "u16 \<Rightarrow> dns_step" where
  "put16 x w = (case w of (buf, j, t) \<Rightarrow>
     (case APPEND16 buf j x of Some (buf, j) \<Rightarrow> Some (Done, (buf, j, t)) | None \<Rightarrow> Some (Overflow, w)))"

definition put32 :: "u32 \<Rightarrow> dns_step" where
  "put32 x w = (case w of (buf, j, t) \<Rightarrow>
     (case APPEND32 buf j x of Some (buf, j) \<Rightarrow> Some (Done, (buf, j, t)) | None \<Rightarrow> Some (Overflow, w)))"

text \<open>A name; \<open>fail\<close> says what happens with a negative result.\<close>

definition put_name :: "allocator \<Rightarrow> (int \<Rightarrow> write_end) \<Rightarrow> u8 list \<Rightarrow> dns_step" where
  "put_name malloc fail name w = (case w of (buf, j, t) \<Rightarrow>
     (case dnsname_to_labels malloc buf j name (Some t) of
        None \<Rightarrow> None
      | Some (r, buf, t') \<Rightarrow>
          if r < 0 then Some (fail r, (buf, j, entries t')) else Some (Done, (buf, nat r, entries t'))))"

section \<open>The question\<close>

definition evdns_request_len :: "nat \<Rightarrow> nat" where
  "evdns_request_len name_len = 96 + name_len + 2 + 4"

text \<open>The number of bytes, or a negative number, and the buffer.\<close>

definition evdns_request_data_build :: "u8 list \<Rightarrow> u16 \<Rightarrow> u16 \<Rightarrow> u16 \<Rightarrow> u8 list \<Rightarrow> (int \<times> u8 list) option" where
  "evdns_request_data_build name trans_id type class_id buf =
     (case put_all (map put16 [trans_id, 0x0100, 1, 0, 0, 0]) (buf, 0, []) of
        Some (Done, (buf, j, t)) \<Rightarrow>
          (case dnsname_to_labels (\<lambda>n. None) buf j name None of
             None \<Rightarrow> None
           | Some (r, buf, _) \<Rightarrow>
               if r < 0 then Some (r, buf)
               else (case put_all [put16 type, put16 class_id] (buf, nat r, []) of
                       Some (Done, (buf, j, t)) \<Rightarrow> Some (int j, buf)
                     | Some (_, (buf, _)) \<Rightarrow> Some (- 1, buf)
                     | None \<Rightarrow> None))
      | Some (_, (buf, _)) \<Rightarrow> Some (- 1, buf)
      | None \<Rightarrow> None)"

section \<open>The server's side of a request\<close>

record evdns_server_question =
  q_type :: int
  dns_question_class :: int
  q_name :: "u8 list"

record server_reply_item =
  item_name :: "u8 list"
  item_type :: u16
  item_class :: u16
  item_ttl :: u32
  is_name :: bool
  datalen :: u16
  item_data :: "u8 list option"

text \<open>The fields \<open>flags\<close> and \<open>questions\<close> are those of the part of the structure that the callback sees.\<close>

record server_request =
  sr_trans_id :: u16
  n_answer :: int
  n_authority :: int
  n_additional :: int
  answer :: "server_reply_item list"
  authority :: "server_reply_item list"
  additional :: "server_reply_item list"
  response :: "u8 list option"
  sr_flags :: int
  questions :: "evdns_server_question list"

definition sizeof_server_request :: nat where "sizeof_server_request = 232"
definition sizeof_server_question :: nat where "sizeof_server_question = 12"
definition sizeof_server_reply_item :: nat where "sizeof_server_reply_item = 40"

text \<open>Reading the questions of a request.\<close>

fun read_questions ::
    "allocator \<Rightarrow> u8 list \<Rightarrow> nat \<Rightarrow> nat \<Rightarrow> nat \<Rightarrow> evdns_server_question list reading" where
  "read_questions malloc packet len 0 j = Some (Some [])"
| "read_questions malloc packet len (Suc n) j =
     and_then (name_parse packet len j 256) (\<lambda>(j, tmp_name).
     and_then (GET16 packet len j) (\<lambda>(type, j).
     and_then (GET16 packet len j) (\<lambda>(class_id, j).
       let name = c_string tmp_name in
       case malloc (sizeof_server_question + length name) of
         None \<Rightarrow> Some None
       | Some _ \<Rightarrow>
           and_then (read_questions malloc packet len n j) (\<lambda>qs.
             Some (Some (\<lparr>q_type = uint type, dns_question_class = uint class_id, q_name = name\<rparr> # qs))))))"

text \<open>Several values one after the other, such as the six numbers at the beginning of a message.\<close>

fun get_all :: "(nat \<Rightarrow> ('a \<times> nat) reading) \<Rightarrow> nat \<Rightarrow> nat \<Rightarrow> ('a list \<times> nat) reading" where
  "get_all get 0 j = Some (Some ([], j))"
| "get_all get (Suc n) j =
     and_then (get j) (\<lambda>(x, j). and_then (get_all get n j) (\<lambda>(xs, j). Some (Some (x # xs, j))))"

text \<open>
  The request is given to the callback of the port, or it is answered with an error. Otherwise the function only
  returns -1.
\<close>

datatype request_outcome = To_callback server_request | Answered server_request int

definition DNS_ERR_NOTIMPL :: int where "DNS_ERR_NOTIMPL = 4"

definition request_parse :: "allocator \<Rightarrow> u8 list \<Rightarrow> nat \<Rightarrow> request_outcome reading" where
  "request_parse malloc packet len =
     and_then (get_all (GET16 packet len) 6 0) (\<lambda>(h, j).
       let trans_id = h ! 0; flags = h ! 1; n = unat (h ! 2) in
       if flags AND 0x8000 \<noteq> 0 then Some None
       else let flags = flags AND 0x0110 in
         case malloc sizeof_server_request of
           None \<Rightarrow> Some None
         | Some _ \<Rightarrow>
             (case malloc (8 * n) of
                None \<Rightarrow> Some None
              | Some _ \<Rightarrow>
                  and_then (read_questions malloc packet len n j) (\<lambda>qs.
                    let req = \<lparr>sr_trans_id = trans_id, n_answer = 0, n_authority = 0, n_additional = 0, answer = [],
                           authority = [], additional = [], response = None, sr_flags = uint flags, questions = qs\<rparr> in
                    Some (Some (if flags AND 0x7800 \<noteq> 0 then Answered req DNS_ERR_NOTIMPL else To_callback req)))))"

section \<open>The answer\<close>

definition EVDNS_ANSWER_SECTION :: int where "EVDNS_ANSWER_SECTION = 0"
definition EVDNS_AUTHORITY_SECTION :: int where "EVDNS_AUTHORITY_SECTION = 1"
definition EVDNS_ADDITIONAL_SECTION :: int where "EVDNS_ADDITIONAL_SECTION = 2"

text \<open>
  The copy of the data of an item: nothing without data, \<open>Some None\<close> when there is no memory. A name is a C string,
  other data are \<open>datalen\<close> bytes.
\<close>

definition copy_data :: "allocator \<Rightarrow> bool \<Rightarrow> int \<Rightarrow> u8 list option \<Rightarrow> (u16 \<times> u8 list option) reading" where
  "copy_data malloc named len data =
     (case data of
        None \<Rightarrow> Some (Some (0, None))
      | Some d \<Rightarrow>
          if named then
            (case malloc (length (c_string d) + 1) of
               None \<Rightarrow> Some None
             | Some _ \<Rightarrow> Some (Some (- 1, Some (c_string d))))
          else (let n = unat (word_of_int len :: 64 word) in
            case malloc n of
              None \<Rightarrow> Some None
            | Some _ \<Rightarrow> map_option (\<lambda>bs. Some (word_of_int len, Some bs)) (read_bytes d 0 n)))"

definition add_to_section :: "server_request \<Rightarrow> int \<Rightarrow> server_reply_item \<Rightarrow> server_request" where
  "add_to_section req section item =
     (if section = EVDNS_ANSWER_SECTION then req\<lparr>answer := answer req @ [item], n_answer := n_answer req + 1\<rparr>
      else if section = EVDNS_AUTHORITY_SECTION
      then req\<lparr>authority := authority req @ [item], n_authority := n_authority req + 1\<rparr>
      else req\<lparr>additional := additional req @ [item], n_additional := n_additional req + 1\<rparr>)"

definition evdns_server_request_add_reply ::
    "allocator \<Rightarrow> server_request \<Rightarrow> int \<Rightarrow> u8 list \<Rightarrow> int \<Rightarrow> int \<Rightarrow> int \<Rightarrow> int \<Rightarrow> bool \<Rightarrow> u8 list option \<Rightarrow>
     (int \<times> server_request) option" where
  "evdns_server_request_add_reply malloc req section name type class_id ttl len named data =
     (if response req \<noteq> None then Some (- 1, req)
      else if section \<notin> {EVDNS_ANSWER_SECTION, EVDNS_AUTHORITY_SECTION, EVDNS_ADDITIONAL_SECTION} then Some (- 1, req)
      else if malloc sizeof_server_reply_item = None then Some (- 1, req)
      else if malloc (length name + 1) = None then Some (- 1, req)
      else case copy_data malloc named len data of
        None \<Rightarrow> None
      | Some None \<Rightarrow> Some (- 1, req)
      | Some (Some (n, d)) \<Rightarrow>
          Some (0, add_to_section req section
            \<lparr>item_name = name, item_type = word_of_int type, item_class = word_of_int class_id, item_ttl = word_of_int ttl,
             is_name = named, datalen = n, item_data = d\<rparr>))"

definition evdns_server_request_add_a_reply ::
    "allocator \<Rightarrow> server_request \<Rightarrow> u8 list \<Rightarrow> int \<Rightarrow> u8 list option \<Rightarrow> int \<Rightarrow> (int \<times> server_request) option" where
  "evdns_server_request_add_a_reply malloc req name n addrs ttl =
     evdns_server_request_add_reply malloc req EVDNS_ANSWER_SECTION name (uint TYPE_A) (uint CLASS_INET) ttl (n * 4) False addrs"

definition evdns_server_request_add_aaaa_reply ::
    "allocator \<Rightarrow> server_request \<Rightarrow> u8 list \<Rightarrow> int \<Rightarrow> u8 list option \<Rightarrow> int \<Rightarrow> (int \<times> server_request) option" where
  "evdns_server_request_add_aaaa_reply malloc req name n addrs ttl =
     evdns_server_request_add_reply malloc req EVDNS_ANSWER_SECTION name (uint TYPE_AAAA) (uint CLASS_INET) ttl (n * 16) False addrs"

definition evdns_server_request_add_ptr_reply ::
    "allocator \<Rightarrow> server_request \<Rightarrow> u32 option \<Rightarrow> u8 list option \<Rightarrow> u8 list option \<Rightarrow> int \<Rightarrow> (int \<times> server_request) option" where
  "evdns_server_request_add_ptr_reply malloc req in_addr inaddr_name hostname ttl =
     (if in_addr \<noteq> None \<and> inaddr_name \<noteq> None then Some (- 1, req)
      else case inaddr_name of
        Some name \<Rightarrow>
          evdns_server_request_add_reply malloc req EVDNS_ANSWER_SECTION name (uint TYPE_PTR) (uint CLASS_INET) ttl (- 1) True hostname
      | None \<Rightarrow>
          (case in_addr of
             None \<Rightarrow> Some (- 1, req)
           | Some s_addr \<Rightarrow>
               (let a = ntohl s_addr;
                    name = bytes_of_string (print_quad (octet a 0) (octet a 8) (octet a 16) (octet a 24) @ ''.in-addr.arpa'') in
                evdns_server_request_add_reply malloc req EVDNS_ANSWER_SECTION name (uint TYPE_PTR) (uint CLASS_INET) ttl (- 1) True
                  hostname)))"

definition evdns_server_request_add_cname_reply ::
    "allocator \<Rightarrow> server_request \<Rightarrow> u8 list \<Rightarrow> u8 list \<Rightarrow> int \<Rightarrow> (int \<times> server_request) option" where
  "evdns_server_request_add_cname_reply malloc req name cname ttl =
     evdns_server_request_add_reply malloc req EVDNS_ANSWER_SECTION name (uint TYPE_CNAME) (uint CLASS_INET) ttl (- 1) True (Some cname)"

text \<open>The flags are an \<open>int\<close> of 32 bits.\<close>

definition evdns_server_request_set_flags :: "server_request \<Rightarrow> int \<Rightarrow> server_request" where
  "evdns_server_request_set_flags req flags = req\<lparr>sr_flags := (sr_flags req AND NOT (0x400 OR 0x080)) OR flags\<rparr>"

definition server_request_free_answers :: "server_request \<Rightarrow> server_request" where
  "server_request_free_answers req = req\<lparr>answer := [], authority := [], additional := []\<rparr>"

text \<open>One question, and one item with its data.\<close>

definition put_question :: "allocator \<Rightarrow> evdns_server_question \<Rightarrow> dns_step" where
  "put_question malloc q =
     put_all [put_name malloc Returned (q_name q), put16 (word_of_int (q_type q)), put16 (word_of_int (dns_question_class q))]"

text \<open>
  A name as data: the two bytes of its length are left out and written afterwards. The length is that of a
  \<open>short\<close>.
\<close>

definition put_name_data :: "allocator \<Rightarrow> u8 list option \<Rightarrow> dns_step" where
  "put_name_data malloc data w = (case w of (buf, len_idx, t) \<Rightarrow>
     (case data of
        None \<Rightarrow> None
      | Some name \<Rightarrow>
          (case put_name malloc (\<lambda>r. Overflow) name (buf, len_idx + 2, t) of
             Some (Done, (buf, j, t)) \<Rightarrow>
               Some (Done, (splice_at buf len_idx (to_be16 (word_of_nat (j - (len_idx + 2)))), j, t))
           | r \<Rightarrow> r)))"

definition put_bytes :: "nat \<Rightarrow> u8 list option \<Rightarrow> dns_step" where
  "put_bytes n data w = (case w of (buf, j, t) \<Rightarrow>
     if j + n > length buf then Some (Overflow, w)
     else case read_bytes (case data of None \<Rightarrow> [] | Some d \<Rightarrow> d) 0 n of
       None \<Rightarrow> None
     | Some bs \<Rightarrow> Some (Done, (splice_at buf j bs, j + n, t)))"

definition put_item :: "allocator \<Rightarrow> server_reply_item \<Rightarrow> dns_step" where
  "put_item malloc item =
     put_all [put_name malloc (\<lambda>r. Overflow) (item_name item), put16 (item_type item), put16 (item_class item), put32 (item_ttl item),
       (if is_name item then put_name_data malloc (item_data item)
        else put_all [put16 (datalen item), put_bytes (unat (datalen item)) (item_data item)])]"

text \<open>
  The response in 1500 bytes of the stack, of which what is not written holds what was there before. A response that
  is too long is cut off after 512 bytes.
\<close>

definition response_steps :: "allocator \<Rightarrow> server_request \<Rightarrow> int \<Rightarrow> dns_step list" where
  "response_steps malloc req err =
     map put16 [sr_trans_id req, word_of_int (sr_flags req) OR (0x8000 OR word_of_int err), word_of_nat (length (questions req)),
       word_of_int (n_answer req), word_of_int (n_authority req), word_of_int (n_additional req)] @
     map (put_question malloc) (questions req) @
     map (put_item malloc) (answer req @ authority req @ additional req)"

definition finish_response :: "allocator \<Rightarrow> server_request \<Rightarrow> u8 list \<Rightarrow> int \<times> server_request" where
  "finish_response malloc req bytes =
     (case malloc (length bytes) of
        None \<Rightarrow> (- 1, server_request_free_answers req)
      | Some _ \<Rightarrow> (0, server_request_free_answers (req\<lparr>response := Some bytes\<rparr>)))"

definition truncated_response :: "u8 list \<Rightarrow> u8 list" where
  "truncated_response buf = take 512 (buf[2 := buf ! 2 OR 0x02])"

definition evdns_server_request_format_response ::
    "allocator \<Rightarrow> u8 list \<Rightarrow> server_request \<Rightarrow> int \<Rightarrow> (int \<times> server_request) option" where
  "evdns_server_request_format_response malloc stack req err =
     (if err < 0 \<or> err > 15 then Some (- 1, req)
      else case put_all (response_steps malloc req err) (stack, 0, dnslabel_table_init) of
        None \<Rightarrow> None
      | Some (Returned r, _) \<Rightarrow> Some (r, req)
      | Some (Overflow, (buf, j, t)) \<Rightarrow> Some (finish_response malloc req (truncated_response buf))
      | Some (Done, (buf, j, t)) \<Rightarrow>
          Some (finish_response malloc req (if j > 512 then truncated_response buf else take j buf)))"

section \<open>The client's side of an answer\<close>

text \<open>
  What the client keeps of a request that is needed here: the memory with the question, the number of its bytes, the
  type, and where the canonical name is stored. The memory for the addresses and for a name is shared in the
  structure for the answer; which of them is used depends on the type of the request.
\<close>

record dns_request =
  request_mem :: "u8 list"
  request_len :: nat
  request_type :: u8
  put_cname_in_ptr :: "u8 list option option"

record reply =
  reply_type :: u8
  have_answer :: bool
  addrcount :: nat
  addresses :: "u8 list"
  ptr_name :: "u8 list"

definition no_reply :: "u8 \<Rightarrow> reply" where
  "no_reply t = \<lparr>reply_type = t, have_answer = False, addrcount = 0, addresses = [], ptr_name = []\<rparr>"

text \<open>The names of a question in the answer and in the request are compared at the same position.\<close>

definition same_name :: "bool \<Rightarrow> u8 list \<Rightarrow> u8 list \<Rightarrow> bool" where
  "same_name randomize_case a b =
     (if randomize_case then c_string a = c_string b
      else evutil_ascii_strcasecmp (string_of_bytes (c_string a)) (string_of_bytes (c_string b)) = 0)"

fun check_questions :: "bool \<Rightarrow> dns_request \<Rightarrow> u8 list \<Rightarrow> nat \<Rightarrow> nat \<Rightarrow> nat \<Rightarrow> bool \<Rightarrow> (bool \<times> nat) reading" where
  "check_questions randomize_case req packet len 0 j matches = Some (Some (matches, j))"
| "check_questions randomize_case req packet len (Suc n) j matches =
     and_then (name_parse packet len j 256) (\<lambda>(j', tmp_name).
     and_then (name_parse (request_mem req) (request_len req) j 256) (\<lambda>(_, cmp_name).
       if j' + 4 > len then Some None
       else check_questions randomize_case req packet len n (j' + 4) (matches \<or> same_name randomize_case tmp_name cmp_name)))"

text \<open>The state of the loop over the answers.\<close>

record answer_state =
  as_j :: nat
  ttl_r :: u32
  as_reply :: reply
  as_cname :: "u8 list option option"

definition copy_addresses ::
    "u8 list \<Rightarrow> nat \<Rightarrow> nat \<Rightarrow> nat \<Rightarrow> nat \<Rightarrow> u32 \<Rightarrow> nat \<Rightarrow> answer_state \<Rightarrow> (bool \<times> answer_state) reading" where
  "copy_addresses packet len width max_addrs j ttl datalength st =
     (if datalength mod width \<noteq> 0 then Some None
      else let r = as_reply st; addrtocopy = min (max_addrs - addrcount r) (datalength div width);
               ttl' = min (ttl_r st) ttl in
        if j + width * addrtocopy > len then Some None
        else case read_bytes packet j (width * addrtocopy) of
          None \<Rightarrow> None
        | Some bs \<Rightarrow>
            (let r = r\<lparr>addresses := addresses r @ bs, addrcount := addrcount r + addrtocopy, have_answer := True\<rparr> in
             Some (Some (addrcount r = max_addrs, st\<lparr>as_j := j + width * addrtocopy, ttl_r := ttl', as_reply := r\<rparr>))))"

text \<open>One answer: whether the loop is left, and the new state.\<close>

definition answer_step :: "allocator \<Rightarrow> u8 \<Rightarrow> u8 list \<Rightarrow> nat \<Rightarrow> answer_state \<Rightarrow> (bool \<times> answer_state) reading" where
  "answer_step malloc rtype packet len st =
     and_then (name_parse packet len (as_j st) 256) (\<lambda>(j, _).
     and_then (GET16 packet len j) (\<lambda>(type, j).
     and_then (GET16 packet len j) (\<lambda>(class_id, j).
     and_then (GET32 packet len j) (\<lambda>(ttl, j).
     and_then (GET16 packet len j) (\<lambda>(datalength, j).
       let n = unat datalength; skip = Some (Some (False, st\<lparr>as_j := j + n\<rparr>)) in
       if type = TYPE_A \<and> class_id = CLASS_INET then
         (if ucast rtype \<noteq> TYPE_A then skip else copy_addresses packet len 4 MAX_V4_ADDRS j ttl n st)
       else if type = TYPE_PTR \<and> class_id = CLASS_INET then
         (if ucast rtype \<noteq> TYPE_PTR then skip
          else and_then (name_parse packet len j HOST_NAME_MAX) (\<lambda>(j, name).
            Some (Some (True, st\<lparr>as_j := j, ttl_r := min (ttl_r st) ttl,
              as_reply := (as_reply st)\<lparr>ptr_name := name, have_answer := True\<rparr>\<rparr>))))
       else if type = TYPE_CNAME then
         (if as_cname st = None \<or> the (as_cname st) \<noteq> None then skip
          else and_then (name_parse packet len j HOST_NAME_MAX) (\<lambda>(j, cname).
            Some (Some (False, st\<lparr>as_j := j,
              as_cname := Some (map_option (\<lambda>_. c_string cname) (malloc (length (c_string cname) + 1)))\<rparr>))))
       else if type = TYPE_AAAA \<and> class_id = CLASS_INET then
         (if ucast rtype \<noteq> TYPE_AAAA then skip else copy_addresses packet len 16 MAX_V6_ADDRS j ttl n st)
       else skip)))))"

text \<open>The loop over the answers: whether it ends without an error, and the last state.\<close>

fun answers_loop :: "allocator \<Rightarrow> u8 \<Rightarrow> u8 list \<Rightarrow> nat \<Rightarrow> nat \<Rightarrow> answer_state \<Rightarrow> (bool \<times> answer_state) option" where
  "answers_loop malloc rtype packet len 0 st = Some (True, st)"
| "answers_loop malloc rtype packet len (Suc n) st =
     (case answer_step malloc rtype packet len st of
        None \<Rightarrow> None
      | Some None \<Rightarrow> Some (False, st)
      | Some (Some (stop, st)) \<Rightarrow> if stop then Some (True, st) else answers_loop malloc rtype packet len n st)"

text \<open>The loop over the authority section, which is read for the time a negative answer is valid.\<close>

fun authority_loop :: "u8 list \<Rightarrow> nat \<Rightarrow> nat \<Rightarrow> nat \<Rightarrow> u32 \<Rightarrow> u32 reading" where
  "authority_loop packet len 0 j least = Some (Some least)"
| "authority_loop packet len (Suc n) j least =
     and_then (name_parse packet len j 256) (\<lambda>(j, _).
     and_then (GET16 packet len j) (\<lambda>(type, j).
     and_then (GET16 packet len j) (\<lambda>(class_id, j).
     and_then (GET32 packet len j) (\<lambda>(ttl, j).
     and_then (GET16 packet len j) (\<lambda>(datalength, j).
       if type = TYPE_SOA \<and> class_id = CLASS_INET then
         and_then (name_parse packet len j 256) (\<lambda>(j, _).
         and_then (name_parse packet len j 256) (\<lambda>(j, _).
         and_then (GET32 packet len j) (\<lambda>(serial, j).
         and_then (GET32 packet len j) (\<lambda>(refresh, j).
         and_then (GET32 packet len j) (\<lambda>(retry, j).
         and_then (GET32 packet len j) (\<lambda>(expire, j).
         and_then (GET32 packet len j) (\<lambda>(minimum, j).
           authority_loop packet len n j (min (min least ttl) minimum))))))))
       else authority_loop packet len n (j + unat datalength) least)))))"

text \<open>
  The packet is dropped with -1, or \<open>reply_handle\<close> is called with the request, the flags, the time to live and the
  answer, if there is one; without an answer the function returns -1, else 0.
\<close>

datatype reply_outcome = Dropped | Handled dns_request u16 u32 "reply option"

definition reply_parse ::
    "allocator \<Rightarrow> (u16 \<Rightarrow> dns_request option) \<Rightarrow> bool \<Rightarrow> u8 list \<Rightarrow> nat \<Rightarrow> reply_outcome option" where
  "reply_parse malloc request_find randomize_case packet len =
     (case get_all (GET16 packet len) 6 0 of
        None \<Rightarrow> None
      | Some None \<Rightarrow> Some Dropped
      | Some (Some (h, j)) \<Rightarrow>
          (case request_find (h ! 0) of
             None \<Rightarrow> Some Dropped
           | Some req \<Rightarrow>
               (let flags = h ! 1; failed = (\<lambda>cname. Some (Handled (req\<lparr>put_cname_in_ptr := cname\<rparr>) flags 0 None)) in
                if flags AND 0x8000 = 0 then Some Dropped
                else if flags AND 0x020f \<noteq> 0 \<and> flags AND 0x020f \<noteq> 3 then failed (put_cname_in_ptr req)
                else case check_questions randomize_case req packet len (unat (h ! 2)) j False of
                  None \<Rightarrow> None
                | Some None \<Rightarrow> failed (put_cname_in_ptr req)
                | Some (Some (matches, j)) \<Rightarrow>
                    if \<not> matches then failed (put_cname_in_ptr req)
                    else case answers_loop malloc (request_type req) packet len (unat (h ! 3))
                           \<lparr>as_j = j, ttl_r = 0xffffffff, as_reply = no_reply (request_type req), as_cname = put_cname_in_ptr req\<rparr> of
                      None \<Rightarrow> None
                    | Some (False, st) \<Rightarrow> failed (as_cname st)
                    | Some (True, st) \<Rightarrow>
                        (case (if have_answer (as_reply st) then Some (Some (ttl_r st))
                               else authority_loop packet len (unat (h ! 4)) (as_j st) (ttl_r st)) of
                           None \<Rightarrow> None
                         | Some None \<Rightarrow> failed (as_cname st)
                         | Some (Some ttl) \<Rightarrow>
                             Some (Handled (req\<lparr>put_cname_in_ptr := as_cname st\<rparr>) flags
                               (if ttl = 0xffffffff then 0 else ttl) (Some (as_reply st)))))))"

section \<open>Fields that are written and read\<close>

lemma be16_to_be16 [simp]: "be16 (to_be16 x) = x"
  by (rule bit_word_eqI) (auto simp: be16_def to_be16_def bit_simps)

lemma be32_to_be32 [simp]: "be32 (to_be32 x) = x"
proof (rule bit_word_eqI)
  fix n
  assume "n < LENGTH(32)"
  then consider "n < 8" | "8 \<le> n" "n < 16" | "16 \<le> n" "n < 24" | "24 \<le> n" "n < 32"
    by fastforce
  then show "bit (be32 (to_be32 x)) n = bit x n"
    by cases (auto simp: be32_def to_be32_def bit_simps le_add_diff_inverse)
qed

lemma length_to_be [simp]: "length (to_be16 x) = 2" "length (to_be32 y) = 4"
  by (simp_all add: to_be16_def to_be32_def)

text \<open>A writer in a valid state, and a packet that holds what a writer has written.\<close>

definition writer_ok :: "dns_writer \<Rightarrow> bool" where
  "writer_ok w = (case w of (buf, j, t) \<Rightarrow> j \<le> length buf \<and> length buf \<le> 0x4000 \<and> table_ok buf j t)"

definition index_of :: "dns_writer \<Rightarrow> nat" where "index_of w = fst (snd w)"

lemma index_of_simps [simp]: "index_of (buf, j, t) = j"
  by (simp add: index_of_def)

definition extends :: "u8 list \<Rightarrow> nat \<Rightarrow> dns_writer \<Rightarrow> bool" where
  "extends p len w = (case w of (buf, j, t) \<Rightarrow> j \<le> len \<and> len \<le> length p \<and> j \<le> length buf \<and> (\<forall>i<j. p ! i = buf ! i))"

text \<open>A step goes forward and leaves alone what was written before.\<close>

definition step_ok :: "dns_step \<Rightarrow> bool" where
  "step_ok f \<longleftrightarrow> (\<forall>w w'. writer_ok w \<longrightarrow> f w = Some (Done, w') \<longrightarrow>
     writer_ok w' \<and> index_of w \<le> index_of w' \<and> length (fst w') = length (fst w) \<and> (\<forall>i<index_of w. fst w' ! i = fst w ! i))"

lemma step_okD:
  assumes "step_ok f" "writer_ok w" "f w = Some (Done, w')"
  shows "writer_ok w'" "index_of w \<le> index_of w'" "length (fst w') = length (fst w)" "\<forall>i<index_of w. fst w' ! i = fst w ! i"
    "extends p len w' \<Longrightarrow> extends p len w"
proof -
  show *: "writer_ok w'" "index_of w \<le> index_of w'" "length (fst w') = length (fst w)" "\<forall>i<index_of w. fst w' ! i = fst w ! i"
    using assms unfolding step_ok_def by blast+
  then show "extends p len w' \<Longrightarrow> extends p len w"
    by (auto simp: extends_def writer_ok_def index_of_def split: prod.splits)
qed

lemma put_all_Cons_Done:
  "put_all (f # fs) w = Some (Done, w'') \<longleftrightarrow> (\<exists>w'. f w = Some (Done, w') \<and> put_all fs w' = Some (Done, w''))"
  by (auto split: option.splits write_end.splits)

lemma put_all_append_Done:
  "put_all (fs @ gs) w = Some (Done, w'') \<longleftrightarrow> (\<exists>w'. put_all fs w = Some (Done, w') \<and> put_all gs w' = Some (Done, w''))"
  by (induction fs arbitrary: w) (auto simp: put_all_Cons_Done simp del: put_all.simps(2))

lemma step_ok_put_all: "\<forall>f \<in> set fs. step_ok f \<Longrightarrow> step_ok (put_all fs)"
proof (induction fs)
  case Nil
  then show ?case by (simp add: step_ok_def)
next
  case (Cons f fs)
  then have f: "step_ok f" and fs: "step_ok (put_all fs)" by simp_all
  show ?case
    unfolding step_ok_def
  proof (intro allI impI)
    fix w w''
    assume w: "writer_ok w" "put_all (f # fs) w = Some (Done, w'')"
    then obtain w' where w': "f w = Some (Done, w')" "put_all fs w' = Some (Done, w'')"
      unfolding put_all_Cons_Done by blast
    note A = step_okD[OF f w(1) w'(1)]
    note B = step_okD[OF fs A(1) w'(2)]
    show "writer_ok w'' \<and> index_of w \<le> index_of w'' \<and> length (fst w'') = length (fst w) \<and>
        (\<forall>i<index_of w. fst w'' ! i = fst w ! i)"
      using A B by (auto intro: le_trans)
  qed
qed

text \<open>
  A kind of field: values are written by steps, and read back at the same place from every packet that extends what
  was written.
\<close>

locale dns_field =
  fixes put :: "'a \<Rightarrow> dns_step" and get :: "u8 list \<Rightarrow> nat \<Rightarrow> nat \<Rightarrow> ('a \<times> nat) reading" and valid :: "'a \<Rightarrow> bool"
  assumes put_ok: "valid x \<Longrightarrow> step_ok (put x)"
    and get_put: "valid x \<Longrightarrow> writer_ok w \<Longrightarrow> put x w = Some (Done, w') \<Longrightarrow> extends p len w' \<Longrightarrow>
      get p len (index_of w) = Some (Some (x, index_of w'))"
begin

lemma put_list_ok: "\<forall>x \<in> set xs. valid x \<Longrightarrow> step_ok (put_all (map put xs))"
  using put_ok by (intro step_ok_put_all) auto

lemma get_put_list:
  "\<forall>x \<in> set xs. valid x \<Longrightarrow> writer_ok w \<Longrightarrow> put_all (map put xs) w = Some (Done, w') \<Longrightarrow> extends p len w' \<Longrightarrow>
     get_all (get p len) (length xs) (index_of w) = Some (Some (xs, index_of w'))"
proof (induction xs arbitrary: w)
  case (Cons x xs)
  then obtain v where v: "put x w = Some (Done, v)" "put_all (map put xs) v = Some (Done, w')"
    by (auto simp: put_all_Cons_Done simp del: put_all.simps(2))
  have valid: "valid x" "\<forall>x \<in> set xs. valid x"
    using Cons.prems(1) by simp_all
  note A = step_okD[OF put_ok[OF valid(1)] Cons.prems(2) v(1)]
  have "extends p len v"
    using step_okD(5)[OF put_list_ok[OF valid(2)] A(1) v(2) Cons.prems(4)] .
  then show ?case
    using get_put[OF valid(1) Cons.prems(2) v(1)] Cons.IH[OF valid(2) A(1) v(2) Cons.prems(4)] by simp
qed simp

end

lemma writer_okD:
  assumes "writer_ok (buf, j, t)"
  shows "j \<le> length buf" "length buf \<le> 0x4000" "table_ok buf j t"
  using assms by (simp_all add: writer_ok_def)

text \<open>What is written at the index is read back.\<close>

lemma splice_writer:
  assumes "writer_ok (buf, j, t)" "j + length bs \<le> length buf"
  shows "writer_ok (splice_at buf j bs, j + length bs, t)" "\<forall>i<j. splice_at buf j bs ! i = buf ! i"
    "extends p len (splice_at buf j bs, j + length bs, t) \<Longrightarrow> read_bytes p j (length bs) = Some bs \<and> j + length bs \<le> len"
proof -
  note W = writer_okD[OF assms(1)]
  show below: "\<forall>i<j. splice_at buf j bs ! i = buf ! i"
    using assms(2) by (simp add: nth_splice_at)
  then show "writer_ok (splice_at buf j bs, j + length bs, t)"
    using table_ok_mono[OF W(3) _ below W(1)] W assms(2) by (simp add: writer_ok_def)
  assume e: "extends p len (splice_at buf j bs, j + length bs, t)"
  have "slice p j (length bs) = bs"
    using e assms(2) by (intro nth_equalityI) (auto simp: extends_def slice_def nth_splice_at)
  then show "read_bytes p j (length bs) = Some bs \<and> j + length bs \<le> len"
    using e by (auto simp: read_bytes_def extends_def)
qed

text \<open>The steps that write bytes do the same.\<close>

definition splice_step :: "u8 list \<Rightarrow> dns_step" where
  "splice_step bs w = (case w of (buf, j, t) \<Rightarrow>
     if j + length bs > length buf then Some (Overflow, w) else Some (Done, (splice_at buf j bs, j + length bs, t)))"

lemma put16_splice: "put16 x = splice_step (to_be16 x)"
  by (auto simp: fun_eq_iff put16_def splice_step_def APPEND16_def)

lemma put32_splice: "put32 x = splice_step (to_be32 x)"
  by (auto simp: fun_eq_iff put32_def splice_step_def APPEND32_def)

lemma splice_step_Done:
  assumes "splice_step bs w = Some (Done, w')"
  obtains buf j t where "w = (buf, j, t)" "j + length bs \<le> length buf" "w' = (splice_at buf j bs, j + length bs, t)"
  using assms by (cases w) (auto simp: splice_step_def split: if_splits)

lemma splice_step_ok: "step_ok (splice_step bs)"
  unfolding step_ok_def
proof (intro allI impI)
  fix w w'
  assume w: "writer_ok w" "splice_step bs w = Some (Done, w')"
  obtain buf j t where b: "w = (buf, j, t)" "j + length bs \<le> length buf" "w' = (splice_at buf j bs, j + length bs, t)"
    using w(2) by (rule splice_step_Done)
  then show "writer_ok w' \<and> index_of w \<le> index_of w' \<and> length (fst w') = length (fst w) \<and> (\<forall>i<index_of w. fst w' ! i = fst w ! i)"
    using splice_writer(1,2)[OF w(1)[unfolded b] b(2)] by simp
qed

lemma splice_step_read:
  assumes "writer_ok w" "splice_step bs w = Some (Done, w')" "extends p len w'"
  shows "read_bytes p (index_of w) (length bs) = Some bs" "index_of w + length bs \<le> len" "index_of w' = index_of w + length bs"
proof -
  obtain buf j t where b: "w = (buf, j, t)" "j + length bs \<le> length buf" "w' = (splice_at buf j bs, j + length bs, t)"
    using assms(2) by (rule splice_step_Done)
  then show "read_bytes p (index_of w) (length bs) = Some bs" "index_of w + length bs \<le> len" "index_of w' = index_of w + length bs"
    using splice_writer(3)[OF assms(1)[unfolded b] b(2), of p len] assms(3) by simp_all
qed

interpretation num16: dns_field put16 GET16 "\<lambda>x. True"
proof unfold_locales
  fix x w w' p len
  assume "writer_ok w" "put16 x w = Some (Done, w')" "extends p len w'"
  from splice_step_read[OF this(1) this(2)[unfolded put16_splice] this(3)]
  show "GET16 p len (index_of w) = Some (Some (x, index_of w'))"
    by (simp add: GET16_def)
qed (simp add: put16_splice splice_step_ok)

interpretation num32: dns_field put32 GET32 "\<lambda>x. True"
proof unfold_locales
  fix x w w' p len
  assume "writer_ok w" "put32 x w = Some (Done, w')" "extends p len w'"
  from splice_step_read[OF this(1) this(2)[unfolded put32_splice] this(3)]
  show "GET32 p len (index_of w) = Some (Some (x, index_of w'))"
    by (simp add: GET32_def)
qed (simp add: put32_splice splice_step_ok)

lemma put_name_Done:
  assumes "put_name malloc fail name (buf, j, t) = Some (Done, w')" "\<And>r. fail r \<noteq> Done"
  obtains r buf' t' where "dnsname_to_labels malloc buf j name (Some t) = Some (r, buf', t')" "0 \<le> r"
    "w' = (buf', nat r, entries t')"
  using assms by (fastforce simp: put_name_def split: option.splits if_splits)

lemma put_name_props:
  assumes w: "writer_ok w" "put_name malloc fail name w = Some (Done, w')" "\<And>r. fail r \<noteq> Done" and name: "dns_name name"
  shows "writer_ok w'" "index_of w < index_of w'" "length (fst w') = length (fst w)" "\<forall>i<index_of w. fst w' ! i = fst w ! i"
    "extends p len w' \<Longrightarrow> 255 < lim \<Longrightarrow> name_parse p len (index_of w) lim = Some (Some (index_of w', name))"
proof -
  obtain buf j t where b: "w = (buf, j, t)" by (cases w)
  obtain r buf' t' where d: "dnsname_to_labels malloc buf j name (Some t) = Some (r, buf', t')" "0 \<le> r" "w' = (buf', nat r, entries t')"
    using w(2) w(3) unfolding b by (rule put_name_Done)
  note W = writer_okD[OF w(1)[unfolded b]]
  have tab: "table_ok buf j (entries (Some t))"
    using W(3) by (simp add: entries_def)
  obtain new where new: "name_written buf j j (entries (Some t)) name buf' (nat r) new" "entries t' = entries (Some t) @ new"
    using dnsname_to_labels_written[OF d(1,2) name tab W(1,2)] by (elim exE conjE) (rule that)
  show "writer_ok w'" "index_of w < index_of w'" "length (fst w') = length (fst w)" "\<forall>i<index_of w. fst w' ! i = fst w ! i"
    using new W(2) by (simp_all add: name_written_def writer_ok_def b d(3))
  assume "extends p len w'" "255 < lim"
  then show "name_parse p len (index_of w) lim = Some (Some (index_of w', name))"
    using name_written_parse[OF new(1) name, of lim len p] by (auto simp: extends_def d(3) b)
qed

lemma put_name_ok: "dns_name name \<Longrightarrow> (\<And>r. fail r \<noteq> Done) \<Longrightarrow> step_ok (put_name malloc fail name)"
  unfolding step_ok_def
proof (intro allI impI)
  fix w w'
  assume a: "dns_name name" "\<And>r. fail r \<noteq> Done" "writer_ok w" "put_name malloc fail name w = Some (Done, w')"
  note P = put_name_props(1-4)[OF a(3,4,2,1)]
  then show "writer_ok w' \<and> index_of w \<le> index_of w' \<and> length (fst w') = length (fst w) \<and> (\<forall>i<index_of w. fst w' ! i = fst w ! i)"
    by simp
qed

lemma put_question_ok: "dns_name (q_name q) \<Longrightarrow> step_ok (put_question malloc q)"
  unfolding put_question_def using num16.put_ok by (intro step_ok_put_all) (simp add: put_name_ok)

text \<open>The text of a name has no zero.\<close>

lemma dotted_no_zero: "\<forall>l \<in> set ls. 0 \<notin> set l \<Longrightarrow> 0 \<notin> set (dotted ls)"
  by (induction ls rule: dotted.induct) (auto simp: DOT_def)

lemma dns_name_c_string [simp]: "dns_name name \<Longrightarrow> c_string name = name"
proof -
  assume "dns_name name"
  then have "\<forall>l \<in> set (labels_of name). 0 \<notin> set l"
    by (simp add: dns_name_def labels_fine_def)
  then have "0 \<notin> set (dotted (labels_of name))"
    by (rule dotted_no_zero)
  then have "0 \<notin> set name" by simp
  then show ?thesis
    by (auto simp: c_string_def takeWhile_eq_all_conv)
qed

section \<open>The question of a client\<close>

text \<open>What the built question is, for a packet that extends it.\<close>

lemma request_built:
  assumes build: "evdns_request_data_build name trans_id type class_id buf = Some (r, buf')" "0 \<le> r"
    and name: "dns_name name" and len: "length buf \<le> 0x4000"
  obtains k where "r = int (k + 4)" "length buf' = length buf" "k + 4 \<le> length buf" "k + 4 \<le> 18 + length name"
    "get_all (GET16 buf' (k + 4)) 6 0 = Some (Some ([trans_id, 0x0100, 1, 0, 0, 0], 12))"
    "\<And>l. k + 4 \<le> l \<Longrightarrow> l \<le> length buf' \<Longrightarrow> name_parse buf' l 12 256 = Some (Some (k, name))"
    "GET16 buf' (k + 4) k = Some (Some (type, k + 2))" "GET16 buf' (k + 4) (k + 2) = Some (Some (class_id, k + 4))"
proof -
  let ?h = "[trans_id, 0x0100, 1, 0, 0, 0]"
  have w0: "writer_ok (buf, 0, [])"
    using len by (simp add: writer_ok_def table_ok_def)
  obtain b1 j1 t1 where h: "put_all (map put16 ?h) (buf, 0, []) = Some (Done, (b1, j1, t1))"
    using build unfolding evdns_request_data_build_def
    by (cases "put_all (map put16 ?h) (buf, 0, [])") (auto split: write_end.splits)
  obtain q b2 t2 where q: "dnsname_to_labels (\<lambda>n. None) b1 j1 name None = Some (q, b2, t2)" "0 \<le> q"
    using build h unfolding evdns_request_data_build_def by (auto split: option.splits if_splits)
  obtain b3 j3 t3 where e: "put_all (map put16 [type, class_id]) (b2, nat q, []) = Some (Done, (b3, j3, t3))" "r = int j3" "buf' = b3"
    using build h q unfolding evdns_request_data_build_def
    by (cases "put_all (map put16 [type, class_id]) (b2, nat q, [])") (auto split: write_end.splits if_splits)
  note H = step_okD[OF num16.put_list_ok w0 h, simplified]
  have "j1 \<le> length b1" "length b1 \<le> 0x4000" "table_ok b1 j1 (entries None)"
    using H(1) by (simp_all add: writer_ok_def entries_def table_ok_def)
  from dnsname_to_labels_written[OF q(1,2) name this(3,1,2)] obtain new where
    Q: "name_written b1 j1 j1 (entries None) name b2 (nat q) new"
    by (elim exE conjE) (rule that)
  have w2: "writer_ok (b2, nat q, [])"
    using Q H(1) by (simp add: name_written_def writer_ok_def table_ok_def)
  note E = step_okD[OF num16.put_list_ok w2 e(1), simplified]
  have "j1 = 12"
    using h by (auto simp: put16_def APPEND16_def split: if_splits)
  have j3: "j3 = nat q + 4" "nat q + 4 \<le> length b2"
    using e(1) by (auto simp: put16_def APPEND16_def split: if_splits)
  define k where "k = nat q"
  have len3: "length b3 = length buf" "length b2 = length buf"
    using E(3) Q H(3) by (simp_all add: name_written_def)
  have ext3: "extends b3 (k + 4) (b3, j3, t3)"
    using j3 len3 by (simp add: extends_def k_def)
  have ext2: "extends b3 (k + 4) (b2, nat q, [])"
    using E(5)[OF ext3] .
  have ext1: "extends b3 (k + 4) (b1, j1, t1)"
    using ext2 Q by (auto simp: extends_def name_written_def)
  have head: "get_all (GET16 b3 (k + 4)) 6 0 = Some (Some (?h, 12))"
  proof -
    have "get_all (GET16 b3 (k + 4)) (length ?h) (index_of (buf, 0, [])) = Some (Some (?h, index_of (b1, j1, t1)))"
      by (rule num16.get_put_list[OF _ w0 h ext1]) simp
    moreover have "length ?h = 6" by simp
    ultimately show ?thesis by (simp only: index_of_simps \<open>j1 = 12\<close>)
  qed
  have tail: "get_all (GET16 b3 (k + 4)) (length [type, class_id]) k = Some (Some ([type, class_id], k + 4))"
    using num16.get_put_list[OF _ w2 e(1) ext3] j3(1) by (simp only: k_def index_of_simps) simp
  have "GET16 b3 (k + 4) k = Some (Some (type, k + 2))" "GET16 b3 (k + 4) (k + 2) = Some (Some (class_id, k + 4))"
    using tail by (auto simp: GET16_def and_then_def eval_nat_numeral split: option.splits if_splits)
  moreover have "name_parse b3 l 12 256 = Some (Some (k, name))" if "k + 4 \<le> l" "l \<le> length b3" for l
    using name_written_parse[OF Q name, of 256 l b3] ext2 that \<open>j1 = 12\<close> by (simp add: extends_def k_def)
  moreover have "k + 4 \<le> 18 + length name"
    using Q \<open>j1 = 12\<close> by (simp add: name_written_def k_def)
  ultimately show thesis
    using that[of k] head e(2,3) j3 len3 by (simp add: k_def)
qed

lemma put16s_room:
  "j + 2 * length xs \<le> length buf \<Longrightarrow>
   \<exists>buf'. put_all (map put16 xs) (buf, j, t) = Some (Done, (buf', j + 2 * length xs, t)) \<and> length buf' = length buf"
proof (induction xs arbitrary: buf j)
  case (Cons x xs)
  have room: "j + 2 \<le> length buf" using Cons.prems by simp
  then have step: "put16 x (buf, j, t) = Some (Done, (splice_at buf j (to_be16 x), j + 2, t))"
    by (simp add: put16_def APPEND16_def)
  have "\<exists>buf'. put_all (map put16 xs) (splice_at buf j (to_be16 x), j + 2, t) =
      Some (Done, (buf', j + 2 + 2 * length xs, t)) \<and> length buf' = length (splice_at buf j (to_be16 x))"
    using Cons.prems room by (intro Cons.IH) simp
  then show ?case
    using step room by simp
qed simp

lemma request_build_ok:
  assumes name: "dns_name name" and len: "length buf = evdns_request_len (length name)"
  obtains r buf' where "evdns_request_data_build name trans_id type class_id buf = Some (r, buf')" "0 \<le> r"
proof -
  let ?h = "[trans_id, 0x0100, 1, 0, 0, 0]"
  have small: "length name \<le> 255" "length buf \<le> 0x4000"
    using name len by (simp_all add: dns_name_def evdns_request_len_def)
  obtain b1 where h: "put_all (map put16 ?h) (buf, 0, []) = Some (Done, (b1, 12, []))" "length b1 = length buf"
    using put16s_room[of 0 ?h buf "[]"] len by (auto simp: evdns_request_len_def simp del: put_all.simps list.map)
  have fine: "labels_fine (labels_of name)"
    using name by (simp add: dns_name_def)
  have "12 + length name + 2 \<le> length b1"
    using h(2) len by (simp add: evdns_request_len_def)
  from labels_loop_room[OF fine this, of "\<lambda>n. None" None] obtain q b2 t2 where
    q: "dnsname_to_labels (\<lambda>n. None) b1 12 name None = Some (q, b2, t2)" "0 \<le> q"
    using small(1) by (auto simp: dnsname_to_labels_def)
  have "table_ok b1 12 (entries None)" "12 \<le> length b1" "length b1 \<le> 0x4000"
    using h(2) len small by (simp_all add: table_ok_def entries_def evdns_request_len_def)
  from dnsname_to_labels_written[OF q name this] have Q: "length b2 = length b1" "nat q \<le> 12 + length name + 2"
    by (auto simp: name_written_def)
  have "nat q + 2 * length [type, class_id] \<le> length b2"
    using Q h(2) len by (simp add: evdns_request_len_def)
  from put16s_room[OF this, of "[]"] obtain b3 where
    e: "put_all (map put16 [type, class_id]) (b2, nat q, []) = Some (Done, (b3, nat q + 2 * length [type, class_id], []))"
    by (elim exE conjE) (rule that)
  have "evdns_request_data_build name trans_id type class_id buf = Some (int (nat q + 2 * length [type, class_id]), b3)"
    using h(1) q e unfolding evdns_request_data_build_def by (simp del: put_all.simps put_all_Cons_Done)
  then show thesis by (rule that) simp
qed

text \<open>
  C30: The question that \<open>evdns_request_data_build\<close> writes into a buffer of \<open>evdns_request_len\<close> bytes is read by the
  server's \<open>request_parse\<close> with the same number, name, type and class, and given to the callback.
\<close>

theorem evdns_request_roundtrip:
  assumes "dns_name name" "length buf = evdns_request_len (length name)" "\<And>n. malloc n \<noteq> None"
  shows "\<exists>r buf'. evdns_request_data_build name trans_id type class_id buf = Some (int r, buf') \<and>
    request_parse malloc buf' r = Some (Some (To_callback
      \<lparr>sr_trans_id = trans_id, n_answer = 0, n_authority = 0, n_additional = 0, answer = [], authority = [], additional = [],
       response = None, sr_flags = 0x0100,
       questions = [\<lparr>q_type = uint type, dns_question_class = uint class_id, q_name = name\<rparr>]\<rparr>))"
proof -
  have small: "length buf \<le> 0x4000"
    using assms(1,2) by (simp add: dns_name_def evdns_request_len_def)
  obtain r buf' where b: "evdns_request_data_build name trans_id type class_id buf = Some (r, buf')" "0 \<le> r"
    using assms(1,2) by (rule request_build_ok)
  obtain k where k: "r = int (k + 4)" "length buf' = length buf" "k + 4 \<le> length buf"
    "get_all (GET16 buf' (k + 4)) 6 0 = Some (Some ([trans_id, 0x0100, 1, 0, 0, 0], 12))"
    "name_parse buf' (k + 4) 12 256 = Some (Some (k, name))"
    "GET16 buf' (k + 4) k = Some (Some (type, k + 2))" "GET16 buf' (k + 4) (k + 2) = Some (Some (class_id, k + 4))"
    using request_built[OF b assms(1) small] by (metis order_refl)
  obtain p1 p2 p3 where m: "malloc sizeof_server_request = Some p1" "malloc (8 * 1) = Some p2"
    "malloc (sizeof_server_question + length name) = Some p3"
    using assms(3) by (meson not_None_eq)
  have "read_questions malloc buf' (k + 4) 1 12 =
      Some (Some [\<lparr>q_type = uint type, dns_question_class = uint class_id, q_name = name\<rparr>])"
    using k(5-7) m(3) assms(1) by (simp add: Let_def eval_nat_numeral)
  then have "request_parse malloc buf' (k + 4) = Some (Some (To_callback
      \<lparr>sr_trans_id = trans_id, n_answer = 0, n_authority = 0, n_additional = 0, answer = [], authority = [], additional = [],
       response = None, sr_flags = 0x0100,
       questions = [\<lparr>q_type = uint type, dns_question_class = uint class_id, q_name = name\<rparr>]\<rparr>))"
    using k(4) m(1,2) by (simp add: request_parse_def Let_def del: get_all.simps read_questions.simps)
  then show ?thesis
    using b(1) k(1) by (intro exI[of _ "k + 4"] exI[of _ buf']) simp
qed

theorem evdns_request_roundtrip_witness:
  "\<exists>r buf'. evdns_request_data_build [97, DOT, 98] 7 1 1 (replicate 105 0) = Some (int r, buf') \<and>
     request_parse (\<lambda>n. Some n) buf' r \<noteq> Some None"
proof -
  have "dns_name [97, DOT, 98]" by code_simp
  moreover have "length (replicate 105 (0 :: u8)) = evdns_request_len (length [97, DOT, 98])"
    by (simp add: evdns_request_len_def)
  ultimately have "\<exists>r buf'. evdns_request_data_build [97, DOT, 98] 7 1 1 (replicate 105 0) = Some (int r, buf') \<and>
    request_parse (\<lambda>n. Some n) buf' r = Some (Some (To_callback
      \<lparr>sr_trans_id = 7, n_answer = 0, n_authority = 0, n_additional = 0, answer = [], authority = [], additional = [],
       response = None, sr_flags = 0x0100,
       questions = [\<lparr>q_type = uint (1 :: u16), dns_question_class = uint (1 :: u16), q_name = [97, DOT, 98]\<rparr>]\<rparr>))"
    by (rule evdns_request_roundtrip) simp
  then show ?thesis
    by (elim exE conjE) (intro exI conjI, assumption, simp)
qed

section \<open>The answer of a server\<close>

lemma put_bytes_splice:
  "put_bytes n (Some d) w = (if length d < n then (case w of (buf, j, t) \<Rightarrow> if j + n > length buf then Some (Overflow, w) else None)
     else splice_step (take n d) w)"
  by (cases w; cases "length d < n") (simp_all add: put_bytes_def splice_step_def read_bytes_def slice_def)

lemma put_bytes_ok: "step_ok (put_bytes n d)"
proof -
  have "step_ok (put_bytes n (Some bs))" for bs
  proof (cases "length bs < n")
    case True
    then have "put_bytes n (Some bs) w \<noteq> Some (Done, w')" for w w'
      by (cases w) (simp add: put_bytes_splice)
    then show ?thesis by (simp add: step_ok_def)
  next
    case False
    then have "put_bytes n (Some bs) = splice_step (take n bs)"
      by (simp add: fun_eq_iff put_bytes_splice)
    then show ?thesis using splice_step_ok by simp
  qed
  moreover have "put_bytes n None = put_bytes n (Some [])"
    by (auto simp: put_bytes_def fun_eq_iff)
  ultimately show ?thesis by (cases d) simp_all
qed

text \<open>An address record that can be sent and read.\<close>

definition address_item :: "server_reply_item \<Rightarrow> bool" where
  "address_item i \<longleftrightarrow> dns_name (item_name i) \<and> item_type i = TYPE_A \<and> item_class i = CLASS_INET \<and> \<not> is_name i \<and>
     (\<exists>d. item_data i = Some d \<and> length d = unat (datalen i) \<and> d \<noteq> [] \<and> length d mod 4 = 0)"

definition item_bytes :: "server_reply_item \<Rightarrow> u8 list" where
  "item_bytes i = (case item_data i of None \<Rightarrow> [] | Some d \<Rightarrow> d)"

lemma put_item_steps:
  assumes "address_item i"
  shows "put_item malloc i = put_all [put_name malloc (\<lambda>r. Overflow) (item_name i), put16 TYPE_A, put16 CLASS_INET,
      put32 (item_ttl i), put_all [put16 (datalen i), put_bytes (unat (datalen i)) (item_data i)]]"
  using assms by (simp add: put_item_def address_item_def)

lemma put_item_ok: "address_item i \<Longrightarrow> step_ok (put_item malloc i)"
  unfolding put_item_steps using num16.put_ok num32.put_ok put_bytes_ok
  by (intro step_ok_put_all) (auto simp: address_item_def intro!: put_name_ok step_ok_put_all)

lemma item_parts:
  assumes i: "address_item i" and w: "writer_ok w" "put_item malloc i w = Some (Done, w')" "extends p len w'"
  obtains j where "name_parse p len (index_of w) 256 = Some (Some (j, item_name i))"
    "GET16 p len j = Some (Some (TYPE_A, j + 2))" "GET16 p len (j + 2) = Some (Some (CLASS_INET, j + 4))"
    "GET32 p len (j + 4) = Some (Some (item_ttl i, j + 8))" "GET16 p len (j + 8) = Some (Some (datalen i, j + 10))"
    "read_bytes p (j + 10) (length (item_bytes i)) = Some (item_bytes i)" "j + 10 + length (item_bytes i) \<le> len"
    "index_of w' = j + 10 + length (item_bytes i)"
proof -
  obtain d where d: "item_data i = Some d" "length d = unat (datalen i)" "item_bytes i = d" "dns_name (item_name i)"
    using i by (auto simp: address_item_def item_bytes_def)
  obtain w1 w2 w3 w4 w5 where W: "put_name malloc (\<lambda>r. Overflow) (item_name i) w = Some (Done, w1)"
    "put16 TYPE_A w1 = Some (Done, w2)" "put16 CLASS_INET w2 = Some (Done, w3)" "put32 (item_ttl i) w3 = Some (Done, w4)"
    "put16 (datalen i) w4 = Some (Done, w5)" "put_bytes (unat (datalen i)) (item_data i) w5 = Some (Done, w')"
    using w(2) unfolding put_item_steps[OF i] put_all_Cons_Done by auto
  have bytes: "splice_step d w5 = Some (Done, w')"
    using W(6) d(1,2) by (simp add: put_bytes_splice)
  note N = put_name_props[OF w(1) W(1) _ d(4)]
  have ok1: "writer_ok w1" by (rule N(1)) simp
  note S2 = step_okD[OF num16.put_ok[OF TrueI] ok1 W(2)]
  note S3 = step_okD[OF num16.put_ok[OF TrueI] S2(1) W(3)]
  note S4 = step_okD[OF num32.put_ok[OF TrueI] S3(1) W(4)]
  note S5 = step_okD[OF num16.put_ok[OF TrueI] S4(1) W(5)]
  note S6 = step_okD[OF splice_step_ok S5(1) bytes]
  note E5 = S6(5)[OF w(3)]
  note E4 = S5(5)[OF E5]
  note E3 = S4(5)[OF E4]
  note E2 = S3(5)[OF E3]
  note E1 = S2(5)[OF E2]
  have idx: "index_of w2 = index_of w1 + 2" "index_of w3 = index_of w1 + 4" "index_of w4 = index_of w1 + 8"
    "index_of w5 = index_of w1 + 10"
    using W(2-5) by (auto simp: put16_splice put32_splice elim!: splice_step_Done)
  show thesis
  proof (rule that[of "index_of w1"])
    show "name_parse p len (index_of w) 256 = Some (Some (index_of w1, item_name i))"
      by (rule N(5)) (simp_all add: E1)
    show "GET16 p len (index_of w1) = Some (Some (TYPE_A, index_of w1 + 2))"
      using num16.get_put[OF TrueI ok1 W(2) E2] idx by simp
    show "GET16 p len (index_of w1 + 2) = Some (Some (CLASS_INET, index_of w1 + 4))"
      using num16.get_put[OF TrueI S2(1) W(3) E3] idx by simp
    show "GET32 p len (index_of w1 + 4) = Some (Some (item_ttl i, index_of w1 + 8))"
      using num32.get_put[OF TrueI S3(1) W(4) E4] idx by simp
    show "GET16 p len (index_of w1 + 8) = Some (Some (datalen i, index_of w1 + 10))"
      using num16.get_put[OF TrueI S4(1) W(5) E5] idx by simp
    show "read_bytes p (index_of w1 + 10) (length (item_bytes i)) = Some (item_bytes i)"
      "index_of w1 + 10 + length (item_bytes i) \<le> len" "index_of w' = index_of w1 + 10 + length (item_bytes i)"
      using splice_step_read[OF S5(1) bytes w(3)] d(3) idx(4) by simp_all
  qed
qed

lemma item_count:
  assumes "address_item i"
  shows "unat (datalen i) = length (item_bytes i)" "length (item_bytes i) mod 4 = 0" "0 < length (item_bytes i) div 4"
    "4 * (length (item_bytes i) div 4) = length (item_bytes i)"
proof -
  obtain d where d: "item_bytes i = d" "unat (datalen i) = length d" "d \<noteq> []" "length d mod 4 = 0"
    using assms by (auto simp: address_item_def item_bytes_def)
  have "0 < length d" using d(3) by simp
  then have "0 < length d div 4"
    using d(4) mult_div_mod_eq[of 4 "length d"] by (cases "length d div 4") simp_all
  then show "unat (datalen i) = length (item_bytes i)" "length (item_bytes i) mod 4 = 0" "0 < length (item_bytes i) div 4"
    "4 * (length (item_bytes i) div 4) = length (item_bytes i)"
    using d mult_div_mod_eq[of 4 "length d"] by simp_all
qed

text \<open>One answer, and the loop over the answers.\<close>

definition take_item :: "server_reply_item \<Rightarrow> nat \<Rightarrow> answer_state \<Rightarrow> answer_state" where
  "take_item i j st = st\<lparr>as_j := j, ttl_r := min (ttl_r st) (item_ttl i),
     as_reply := (as_reply st)\<lparr>addresses := addresses (as_reply st) @ item_bytes i,
       addrcount := addrcount (as_reply st) + length (item_bytes i) div 4, have_answer := True\<rparr>\<rparr>"

lemma answer_step_item:
  assumes i: "address_item i" and w: "writer_ok w" "put_item malloc' i w = Some (Done, w')" "extends p len w'"
    and st: "as_j st = index_of w" "addrcount (as_reply st) + length (item_bytes i) div 4 \<le> MAX_V4_ADDRS"
  shows "answer_step malloc 1 p len st =
    Some (Some (addrcount (as_reply st) + length (item_bytes i) div 4 = MAX_V4_ADDRS, take_item i (index_of w') st))"
proof -
  obtain j where J: "name_parse p len (index_of w) 256 = Some (Some (j, item_name i))"
    "GET16 p len j = Some (Some (TYPE_A, j + 2))" "GET16 p len (j + 2) = Some (Some (CLASS_INET, j + 4))"
    "GET32 p len (j + 4) = Some (Some (item_ttl i, j + 8))" "GET16 p len (j + 8) = Some (Some (datalen i, j + 10))"
    "read_bytes p (j + 10) (length (item_bytes i)) = Some (item_bytes i)" "j + 10 + length (item_bytes i) \<le> len"
    "index_of w' = j + 10 + length (item_bytes i)"
    using i w by (rule item_parts)
  note C = item_count[OF i]
  have n: "min (MAX_V4_ADDRS - addrcount (as_reply st)) (length (item_bytes i) div 4) = length (item_bytes i) div 4"
    using st(2) by simp
  have "copy_addresses p len 4 MAX_V4_ADDRS (j + 10) (item_ttl i) (unat (datalen i)) st =
      Some (Some (addrcount (as_reply st) + length (item_bytes i) div 4 = MAX_V4_ADDRS, take_item i (index_of w') st))"
    using J(6-8) C n by (simp add: copy_addresses_def Let_def take_item_def)
  moreover have "answer_step malloc 1 p len st =
      copy_addresses p len 4 MAX_V4_ADDRS (j + 10) (item_ttl i) (unat (datalen i)) st"
    unfolding answer_step_def st(1) J(1) and_then_simps prod.case J(2-5) Let_def by (simp add: TYPE_A_def)
  ultimately show ?thesis by simp
qed

definition count_addresses :: "server_reply_item list \<Rightarrow> nat" where
  "count_addresses is = (\<Sum>i\<leftarrow>is. length (item_bytes i) div 4)"

definition least_ttl :: "u32 \<Rightarrow> server_reply_item list \<Rightarrow> u32" where
  "least_ttl t is = fold (\<lambda>i t. min t (item_ttl i)) is t"

definition add_addresses :: "server_reply_item list \<Rightarrow> reply \<Rightarrow> reply" where
  "add_addresses is r = r\<lparr>addresses := addresses r @ concat (map item_bytes is), addrcount := addrcount r + count_addresses is,
     have_answer := is \<noteq> [] \<or> have_answer r\<rparr>"

lemma answers_loop_items:
  assumes "\<forall>i \<in> set is. address_item i" "writer_ok w" "put_all (map (put_item malloc') is) w = Some (Done, w')" "extends p len w'"
    and "as_j st = index_of w" "addrcount (as_reply st) + count_addresses is \<le> MAX_V4_ADDRS"
  shows "\<exists>st'. answers_loop malloc 1 p len (length is) st = Some (True, st') \<and> as_reply st' = add_addresses is (as_reply st) \<and>
    ttl_r st' = least_ttl (ttl_r st) is \<and> as_cname st' = as_cname st"
  using assms
proof (induction "is" arbitrary: w st)
  case Nil
  then show ?case by (simp add: add_addresses_def count_addresses_def least_ttl_def)
next
  case (Cons i "is")
  obtain v where v: "put_item malloc' i w = Some (Done, v)" "put_all (map (put_item malloc') is) v = Some (Done, w')"
    using Cons.prems(3) unfolding list.map put_all_Cons_Done by blast
  have i: "address_item i" "\<forall>i \<in> set is. address_item i"
    using Cons.prems(1) by simp_all
  note A = step_okD[OF put_item_ok[OF i(1)] Cons.prems(2) v(1)]
  have all_ok: "step_ok (put_all (map (put_item malloc') is))"
    using i(2) put_item_ok by (intro step_ok_put_all) auto
  have ext: "extends p len v"
    using step_okD(5)[OF all_ok A(1) v(2) Cons.prems(4)] .
  define n where "n = addrcount (as_reply st) + length (item_bytes i) div 4"
  have count: "n + count_addresses is \<le> MAX_V4_ADDRS"
    using Cons.prems(6) by (simp add: count_addresses_def n_def)
  define st1 where "st1 = take_item i (index_of v) st"
  have st1: "as_j st1 = index_of v" "addrcount (as_reply st1) = n"
    by (simp_all add: st1_def take_item_def n_def)
  have step: "answer_step malloc 1 p len st = Some (Some (n = MAX_V4_ADDRS, st1))"
    unfolding n_def st1_def using count
    by (intro answer_step_item[OF i(1) Cons.prems(2) v(1) ext Cons.prems(5)]) (simp add: n_def)
  show ?case
  proof (cases "n = MAX_V4_ADDRS")
    case True
    have "is = []"
    proof (rule ccontr)
      assume "is \<noteq> []"
      then obtain k ks where "is = k # ks" by (cases "is") auto
      then have "0 < count_addresses is"
        using item_count(3)[of k] i(2) by (simp add: count_addresses_def)
      then show False using count True by simp
    qed
    then show ?thesis
      using step True by (simp add: st1_def take_item_def add_addresses_def count_addresses_def least_ttl_def)
  next
    case False
    have "addrcount (as_reply st1) + count_addresses is \<le> MAX_V4_ADDRS"
      using st1(2) count by simp
    from Cons.IH[OF i(2) A(1) v(2) Cons.prems(4) st1(1) this] obtain st' where
      st': "answers_loop malloc 1 p len (length is) st1 = Some (True, st')"
      "as_reply st' = add_addresses is (as_reply st1)" "ttl_r st' = least_ttl (ttl_r st1) is" "as_cname st' = as_cname st1"
      by (elim exE conjE) (rule that)
    show ?thesis
      using step False st'
      by (simp add: st1_def take_item_def add_addresses_def count_addresses_def least_ttl_def add.assoc)
  qed
qed

section \<open>Items with names as data\<close>

text \<open>Writing a name does not depend on the bytes before it.\<close>

lemma splice_at_update:
  "i < j \<Longrightarrow> j + length bs \<le> length buf \<Longrightarrow> splice_at (buf[i := x]) j bs = (splice_at buf j bs)[i := x]"
  by (simp add: splice_at_def list_update_append take_update_swap)

lemma labels_loop_forward: "labels_loop malloc buf j name table = (Inr j', b', t') \<Longrightarrow> j < j'"
proof (induction malloc buf j name table rule: labels_loop.induct)
  case (1 malloc buf j name table)
  define label where "label = first_label name"
  define ref where "ref = (case table of Some t \<Rightarrow> dnslabel_table_get_pos t name | None \<Rightarrow> - 1)"
  define buf1 where "buf1 = write_label buf j label"
  define table1 where "table1 = map_option (\<lambda>t. snd (dnslabel_table_add malloc t name j)) table"
  define j1 where "j1 = j + 1 + length label"
  note step = labels_loop.simps[of malloc buf j name table, unfolded Let_def,
      folded ref_def label_def, folded buf1_def table1_def j1_def]
  consider (ref) "0 \<le> ref" | (bad) "\<not> 0 \<le> ref" "63 < length label \<or> length buf < j + length label + 1"
    | (fin) "\<not> 0 \<le> ref" "\<not> 63 < length label" "\<not> length buf < j + length label + 1" "from_dot name = []"
    | (more) "\<not> 0 \<le> ref" "\<not> 63 < length label" "\<not> length buf < j + length label + 1" "from_dot name \<noteq> []" by blast
  then show ?case
  proof cases
    case more
    from 1(1)[OF ref_def more(1) label_def more(2,3) table1_def buf1_def j1_def more(4)] show ?thesis
      using 1(2) step more by (simp add: j1_def)
  qed (use 1(2) step in \<open>auto simp: j1_def split: option.splits if_splits\<close>)
qed

lemma labels_loop_update:
  "i < j \<Longrightarrow> labels_loop malloc (buf[i := x]) j name table =
     (case labels_loop malloc buf j name table of (r, b, t) \<Rightarrow> (r, b[i := x], t))"
proof (induction malloc buf j name table rule: labels_loop.induct)
  case (1 malloc buf j name table)
  define label where "label = first_label name"
  define ref where "ref = (case table of Some t \<Rightarrow> dnslabel_table_get_pos t name | None \<Rightarrow> - 1)"
  define buf1 where "buf1 = write_label buf j label"
  define table1 where "table1 = map_option (\<lambda>t. snd (dnslabel_table_add malloc t name j)) table"
  define j1 where "j1 = j + 1 + length label"
  note step = labels_loop.simps[of malloc buf j name table, unfolded Let_def,
      folded ref_def label_def, folded buf1_def table1_def j1_def]
  note step' = labels_loop.simps[of malloc "buf[i := x]" j name table, unfolded Let_def,
      folded ref_def label_def, folded table1_def j1_def]
  consider (ref) "0 \<le> ref" | (bad) "\<not> 0 \<le> ref" "63 < length label \<or> length buf < j + length label + 1"
    | (ok) "\<not> 0 \<le> ref" "\<not> 63 < length label" "\<not> length buf < j + length label + 1" by blast
  then show ?case
  proof cases
    case ref
    then show ?thesis
      using step step' 1(2) by (simp add: APPEND16_def splice_at_update)
  next
    case bad
    then show ?thesis using step step' by (auto split: prod.splits)
  next
    case ok
    then have w: "write_label (buf[i := x]) j label = buf1[i := x]"
      using 1(2) by (simp add: buf1_def write_label_def splice_at_update)
    show ?thesis
    proof (cases "from_dot name = []")
      case True
      then show ?thesis using step step' ok w by simp
    next
      case False
      have "i < j1" using 1(2) by (simp add: j1_def)
      from 1(1)[OF ref_def ok(1) label_def ok(2,3) table1_def buf1_def j1_def False this] show ?thesis
        using step step' ok w False by simp
    qed
  qed
qed

lemma put_name_update:
  assumes "i < j" "put_name malloc fail name (buf, j, t) = Some (Done, (b, j', t'))" "\<And>r. fail r \<noteq> Done"
  shows "put_name malloc fail name (buf[i := x], j, t) = Some (Done, (b[i := x], j', t'))"
proof -
  obtain r table' where d: "dnsname_to_labels malloc buf j name (Some t) = Some (r, b, table')" "0 \<le> r" "j' = nat r" "t' = entries table'"
    using put_name_Done[OF assms(2,3)] by (metis prod.inject)
  obtain res b1 t1 where L: "labels_loop malloc buf j name (Some t) = (res, b1, t1)"
    by (cases "labels_loop malloc buf j name (Some t)")
  then have L': "labels_loop malloc (buf[i := x]) j name (Some t) = (res, b1[i := x], t1)"
    using labels_loop_update[OF assms(1)] by simp
  have "dnsname_to_labels malloc (buf[i := x]) j name (Some t) = Some (r, b[i := x], table')"
  proof (cases res)
    case (Inl c)
    then show ?thesis using d(1) L L' by (auto simp: dnsname_to_labels_def end_labels_def split: if_splits)
  next
    case (Inr k)
    then have "i < k" "i \<noteq> k - 1"
      using labels_loop_forward[of malloc buf j name "Some t"] L assms(1) by auto
    then show ?thesis
      using d(1) L L' Inr by (auto simp: dnsname_to_labels_def end_labels_def list_update_swap split: if_splits)
  qed
  then show ?thesis using d(2-4) by (simp add: put_name_def)
qed

lemma put_name_room:
  assumes "put_name malloc fail name (buf, j, t) = Some (Done, w')" "\<And>r. fail r \<noteq> Done"
  shows "j \<le> length buf"
proof (rule ccontr)
  assume n: "\<not> j \<le> length buf"
  obtain r b t' where d: "dnsname_to_labels malloc buf j name (Some t) = Some (r, b, t')" "0 \<le> r"
    using assms by (rule put_name_Done)
  have "\<exists>c b t'. labels_loop malloc buf j name (Some t) = (Inl c, b, t') \<and> c < 0"
    using n by (subst labels_loop.simps) (auto simp: Let_def APPEND16_def)
  then show False
    using d by (auto simp: dnsname_to_labels_def end_labels_def split: if_splits)
qed

lemma splice_at_two: "j + 2 \<le> length buf \<Longrightarrow> splice_at buf j [x, y] = buf[j := x, Suc j := y]"
  by (rule nth_equalityI) (auto simp: nth_splice_at nth_list_update nth_Cons split: nat.splits)

lemma to_be16_two: "\<exists>a b. to_be16 x = [a, b]"
  by (simp add: to_be16_def)

text \<open>The length can be written before the name as well.\<close>

lemma put_name_data_ok:
  assumes name: "dns_name name"
  shows "step_ok (put_name_data malloc (Some name))"
  unfolding step_ok_def
proof (intro allI impI)
  fix w w'
  assume w: "writer_ok w" "put_name_data malloc (Some name) w = Some (Done, w')"
  obtain buf i t where b: "w = (buf, i, t)" by (cases w)
  obtain b1 j t1 where n: "put_name malloc (\<lambda>r. Overflow) name (buf, i + 2, t) = Some (Done, (b1, j, t1))"
    using w(2) unfolding b put_name_data_def by (auto split: option.splits write_end.splits)
  define xs where "xs = to_be16 (word_of_nat (j - (i + 2)) :: u16)"
  obtain x y where xs: "xs = [x, y]"
    using to_be16_two unfolding xs_def by blast
  have w': "w' = (splice_at b1 i xs, j, t1)"
    using w(2) n unfolding b put_name_data_def xs_def by simp
  have room: "i + 2 \<le> length buf"
    using n by (rule put_name_room) simp
  have start: "writer_ok (splice_at buf i xs, i + length xs, t)" "\<forall>k<i. splice_at buf i xs ! k = buf ! k"
    using w(1) room unfolding b by (intro splice_writer(1,2); simp add: xs)+
  have n1: "put_name malloc (\<lambda>r. Overflow) name (buf[i := x], i + 2, t) = Some (Done, (b1[i := x], j, t1))"
    by (rule put_name_update[OF _ n]) simp_all
  have u: "put_name malloc (\<lambda>r. Overflow) name (buf[i := x, Suc i := y], i + 2, t) = Some (Done, (b1[i := x, Suc i := y], j, t1))"
    by (rule put_name_update[OF _ n1]) simp_all
  have st: "writer_ok (buf[i := x, Suc i := y], i + 2, t)" "\<forall>k<i. buf[i := x, Suc i := y] ! k = buf ! k"
    using start room by (simp_all add: xs splice_at_two)
  note P = put_name_props(1-4)[OF st(1) u _ name, simplified]
  have keep: "\<forall>k<i. b1 ! k = buf ! k"
  proof (intro allI impI)
    fix k
    assume k: "k < i"
    then have "k < Suc (Suc i)" by simp
    with P(4) have "b1[i := x, Suc i := y] ! k = buf[i := x, Suc i := y] ! k" by blast
    then show "b1 ! k = buf ! k" using k by simp
  qed
  have "w' = (b1[i := x, Suc i := y], j, t1)"
    using P(3) room by (simp add: w' xs splice_at_two)
  then show "writer_ok w' \<and> index_of w \<le> index_of w' \<and> length (fst w') = length (fst w) \<and> (\<forall>i<index_of w. fst w' ! i = fst w ! i)"
    using P(1,2,3) keep by (simp add: b)
qed

text \<open>What a server can put into the other sections.\<close>

definition sendable :: "server_reply_item \<Rightarrow> bool" where
  "sendable i \<longleftrightarrow> dns_name (item_name i) \<and> (is_name i \<longrightarrow> (case item_data i of None \<Rightarrow> False | Some d \<Rightarrow> dns_name d))"

lemma put_item_sendable: "sendable i \<Longrightarrow> step_ok (put_item malloc i)"
  unfolding put_item_def using num16.put_ok num32.put_ok put_bytes_ok put_name_data_ok
  by (intro step_ok_put_all) (auto simp: sendable_def put_name_ok intro!: step_ok_put_all split: option.splits)

lemma address_sendable: "address_item i \<Longrightarrow> sendable i"
  by (simp add: address_item_def sendable_def)

text \<open>No step changes the size of the buffer, however it ends.\<close>

definition keeps_length :: "dns_step \<Rightarrow> bool" where
  "keeps_length f \<longleftrightarrow> (\<forall>w e w'. f w = Some (e, w') \<longrightarrow> length (fst w') = length (fst w))"

lemma keeps_length_all: "\<forall>f \<in> set fs. keeps_length f \<Longrightarrow> keeps_length (put_all fs)"
proof (induction fs)
  case Nil
  then show ?case by (simp add: keeps_length_def)
next
  case (Cons f fs)
  then have f: "keeps_length f" and fs: "keeps_length (put_all fs)" by simp_all
  show ?case
    unfolding keeps_length_def
  proof (intro allI impI)
    fix w e w''
    assume a: "put_all (f # fs) w = Some (e, w'')"
    then obtain e1 w' where s: "f w = Some (e1, w')" by (cases "f w") auto
    then have "length (fst w') = length (fst w)"
      using f unfolding keeps_length_def by blast
    moreover have "length (fst w'') = length (fst w')"
    proof (cases e1)
      case Done
      then have "put_all fs w' = Some (e, w'')" using a s by simp
      then show ?thesis using fs unfolding keeps_length_def by blast
    qed (use a s in simp_all)
    ultimately show "length (fst w'') = length (fst w)" by simp
  qed
qed

lemma labels_loop_length: "labels_loop malloc buf j name table = (r, b, t) \<Longrightarrow> length b = length buf"
proof (induction malloc buf j name table rule: labels_loop.induct)
  case (1 malloc buf j name table)
  define label where "label = first_label name"
  define ref where "ref = (case table of Some t \<Rightarrow> dnslabel_table_get_pos t name | None \<Rightarrow> - 1)"
  define buf1 where "buf1 = write_label buf j label"
  define table1 where "table1 = map_option (\<lambda>t. snd (dnslabel_table_add malloc t name j)) table"
  define j1 where "j1 = j + 1 + length label"
  note step = labels_loop.simps[of malloc buf j name table, unfolded Let_def,
      folded ref_def label_def, folded buf1_def table1_def j1_def]
  consider (stop) "0 \<le> ref" | (bad) "\<not> 0 \<le> ref" "63 < length label \<or> length buf < j + length label + 1"
    | (ok) "\<not> 0 \<le> ref" "\<not> 63 < length label" "\<not> length buf < j + length label + 1" by blast
  then show ?case
  proof cases
    case stop
    then show ?thesis
      using step 1(2) by (auto simp: APPEND16_def split: if_splits)
  next
    case bad
    then show ?thesis using step 1(2) by (auto split: if_splits)
  next
    case ok
    have l: "length buf1 = length buf"
      using ok by (simp add: buf1_def write_label_def)
    show ?thesis
    proof (cases "from_dot name = []")
      case True
      then show ?thesis using step ok 1(2) l by simp
    next
      case False
      from 1(1)[OF ref_def ok(1) label_def ok(2,3) table1_def buf1_def j1_def False] show ?thesis
        using step ok 1(2) l False by simp
    qed
  qed
qed

lemma put_name_length: "keeps_length (put_name malloc fail name)"
  unfolding keeps_length_def
proof (intro allI impI)
  fix w e w'
  assume a: "put_name malloc fail name w = Some (e, w')"
  obtain buf j t where b: "w = (buf, j, t)" by (cases w)
  obtain r buf' t' where d: "dnsname_to_labels malloc buf j name (Some t) = Some (r, buf', t')" "fst w' = buf'"
    using a unfolding b by (auto simp: put_name_def split: option.splits if_splits)
  obtain x b1 t1 where l: "labels_loop malloc buf j name (Some t) = (x, b1, t1)"
    by (cases "labels_loop malloc buf j name (Some t)")
  have "length buf' = length b1 \<or> length buf' = length buf"
    using d(1) l by (cases x) (auto simp: dnsname_to_labels_def end_labels_def split: if_splits)
  then show "length (fst w') = length (fst w)"
    using labels_loop_length[OF l] d(2) b by auto
qed

lemma splice_step_length: "keeps_length (splice_step bs)"
  by (auto simp: keeps_length_def splice_step_def split: if_splits)

lemma put_num_length: "keeps_length (put16 x)" "keeps_length (put32 y)"
  by (simp_all add: put16_splice put32_splice splice_step_length)

lemma put_bytes_length: "keeps_length (put_bytes n d)"
  by (auto simp: keeps_length_def put_bytes_def read_bytes_def slice_def split: option.splits if_splits)

lemma put_name_data_length: "keeps_length (put_name_data malloc d)"
  unfolding keeps_length_def
proof (intro allI impI)
  fix w e w'
  assume a: "put_name_data malloc d w = Some (e, w')"
  obtain buf i t where b: "w = (buf, i, t)" by (cases w)
  obtain name e1 b1 j t1 where n: "d = Some name" "put_name malloc (\<lambda>r. Overflow) name (buf, i + 2, t) = Some (e1, (b1, j, t1))"
    using a unfolding b put_name_data_def by (auto split: option.splits)
  have l: "length b1 = length buf"
    using n(2) put_name_length[of malloc "\<lambda>r. Overflow" name] unfolding keeps_length_def by (metis fst_conv)
  show "length (fst w') = length (fst w)"
  proof (cases e1)
    case Done
    then have "i + 2 \<le> length buf"
      using n(2) by (intro put_name_room[of malloc "\<lambda>r. Overflow" name buf "i + 2" t "(b1, j, t1)"]) simp_all
    then show ?thesis
      using a n Done l unfolding b put_name_data_def by (auto simp: l)
  qed (use a n l in \<open>auto simp: b put_name_data_def\<close>)
qed

lemma response_steps_length: "keeps_length (put_all (response_steps malloc req err))"
  unfolding response_steps_def put_question_def put_item_def
  by (intro keeps_length_all)
    (auto intro!: keeps_length_all put_num_length put_name_length put_name_data_length put_bytes_length)

lemma same_name_refl: "dns_name name \<Longrightarrow> same_name rnd name name"
proof -
  assume n: "dns_name name"
  have z: "0 \<notin> set name"
    using dns_name_c_string[OF n] set_takeWhileD[of 0 "\<lambda>b. b \<noteq> 0" name] unfolding c_string_def by auto
  have "NUL \<noteq> char_of (unat b)" if "b \<in> set name" for b :: u8
  proof
    assume "NUL = char_of (unat b)"
    from this[symmetric] have "(of_char (char_of (unat b) :: char) :: nat) = 0" by (simp add: NUL_def)
    moreover have "unat b < 256" using unsigned_less[of b, where ?'a = nat] by simp
    ultimately have "b = 0" by (simp add: unat_eq_zero)
    then show False using that z by simp
  qed
  then have "is_c_string (string_of_bytes name)"
    by (auto simp: is_c_string_def string_of_bytes_def)
  then have "evutil_ascii_strcasecmp (string_of_bytes name) (string_of_bytes name) = 0"
    using strcasecmp_0_iff by blast
  then show ?thesis
    using n by (simp add: same_name_def)
qed

lemma put16s_index: "put_all (map put16 xs) w = Some (Done, w') \<Longrightarrow> index_of w' = index_of w + 2 * length xs"
proof (induction xs arbitrary: w)
  case (Cons x xs)
  then obtain v where v: "put16 x w = Some (Done, v)" "put_all (map put16 xs) v = Some (Done, w')"
    unfolding list.map put_all_Cons_Done by blast
  have "index_of v = index_of w + 2"
    using v(1) by (auto simp: put16_splice elim!: splice_step_Done)
  then show ?case using Cons.IH[OF v(2)] by simp
qed simp

text \<open>A response whose truncation bit is not set holds everything that was written.\<close>

lemma format_response_Done:
  assumes run: "evdns_server_request_format_response malloc stack sr 0 = Some (0, sr')" and p: "response sr' = Some p"
    and old: "response sr = None" and whole: "p ! 2 AND 2 = 0" and stack: "2 < length stack"
  obtains buf j t where "put_all (response_steps malloc sr 0) (stack, 0, []) = Some (Done, (buf, j, t))"
    "p = take j buf" "length buf = length stack"
proof -
  have len: "length buf = length stack" if "put_all (response_steps malloc sr 0) (stack, 0, []) = Some (e, (buf, j, t))" for e buf j t
    using response_steps_length[of malloc sr 0] that unfolding keeps_length_def by (metis fst_conv)
  have bit: "truncated_response buf ! 2 AND 2 = (2 :: u8)" if "length buf = length stack" for buf
    using stack that by (simp add: truncated_response_def bit.conj_disj_distrib2)
  have keep: "bytes = p" if "finish_response malloc sr bytes = (0, sr')" for bytes
    using that p by (auto simp: finish_response_def server_request_free_answers_def split: option.splits)
  obtain e buf j t where w: "put_all (response_steps malloc sr 0) (stack, 0, []) = Some (e, (buf, j, t))"
    using run by (auto simp: evdns_server_request_format_response_def dnslabel_table_init_def split: option.splits)
  show thesis
  proof (cases e)
    case Done
    have l: "length buf = length stack" using w by (rule len)
    show thesis
    proof (cases "512 < j")
      case True
      then have "p = truncated_response buf"
        using run w Done keep by (auto simp: evdns_server_request_format_response_def dnslabel_table_init_def)
      then show thesis using bit[OF l] whole by simp
    next
      case False
      then have b: "p = take j buf"
        using run w Done keep by (auto simp: evdns_server_request_format_response_def dnslabel_table_init_def)
      show thesis
        using w Done b l by (intro that[of buf j t]) simp_all
    qed
  next
    case Overflow
    then have "p = truncated_response buf"
      using run w keep by (auto simp: evdns_server_request_format_response_def dnslabel_table_init_def)
    then show thesis using bit[OF len[OF w]] whole by simp
  next
    case (Returned r)
    then have "sr' = sr"
      using run w by (simp add: evdns_server_request_format_response_def dnslabel_table_init_def)
    then show thesis using old p by simp
  qed
qed

lemma items_count: "\<forall>i \<in> set is. address_item i \<Longrightarrow> length is \<le> count_addresses is"
proof (induction "is")
  case (Cons i "is")
  then have "length is \<le> count_addresses is" "0 < length (item_bytes i) div 4"
    using item_count(3)[of i] by simp_all
  then show ?case by (simp add: count_addresses_def)
qed simp

definition address_response :: "server_request \<Rightarrow> u8 list \<Rightarrow> bool" where
  "address_response sr name \<longleftrightarrow> (\<exists>t c. questions sr = [\<lparr>q_type = t, dns_question_class = c, q_name = name\<rparr>]) \<and>
     (word_of_int (sr_flags sr) :: u16) AND 0x020f = 0 \<and> answer sr \<noteq> [] \<and> (\<forall>i \<in> set (answer sr). address_item i) \<and>
     n_answer sr = int (length (answer sr)) \<and> count_addresses (answer sr) \<le> MAX_V4_ADDRS \<and>
     (\<forall>i \<in> set (authority sr @ additional sr). sendable i)"

lemma response_written:
  assumes sr: "address_response sr name" "dns_name name" and stack: "length stack \<le> 0x4000"
    and w: "put_all (response_steps malloc sr 0) (stack, 0, []) = Some (Done, (buf, j, t))"
  obtains h k w2 w3 where "get_all (GET16 (take j buf) j) 6 0 = Some (Some (h, 12))" "length h = 6" "h ! 0 = sr_trans_id sr"
    "h ! 1 = word_of_int (sr_flags sr) OR 0x8000" "h ! 2 = 1" "h ! 3 = word_of_int (n_answer sr)"
    "name_parse (take j buf) j 12 256 = Some (Some (k, name))" "index_of w2 = k + 4" "k + 4 \<le> j" "writer_ok w2"
    "put_all (map (put_item malloc) (answer sr)) w2 = Some (Done, w3)" "extends (take j buf) j w3" "j \<le> length buf"
proof -
  let ?p = "take j buf"
  obtain qt qc where q: "questions sr = [\<lparr>q_type = qt, dns_question_class = qc, q_name = name\<rparr>]"
    using sr(1) by (auto simp: address_response_def)
  define q1 where "q1 = \<lparr>q_type = qt, dns_question_class = qc, q_name = name\<rparr>"
  define h where "h = [sr_trans_id sr, word_of_int (sr_flags sr) OR (0x8000 OR word_of_int 0), word_of_nat (length (questions sr)),
       word_of_int (n_answer sr), word_of_int (n_authority sr), word_of_int (n_additional sr) :: u16]"
  have steps: "response_steps malloc sr 0 = map put16 h @ [put_question malloc q1] @
      (map (put_item malloc) (answer sr) @ map (put_item malloc) (authority sr @ additional sr))"
    by (simp add: response_steps_def h_def q q1_def)
  obtain w1 w2 w3 where W: "put_all (map put16 h) (stack, 0, []) = Some (Done, w1)" "put_question malloc q1 w1 = Some (Done, w2)"
    "put_all (map (put_item malloc) (answer sr)) w2 = Some (Done, w3)"
    "put_all (map (put_item malloc) (authority sr @ additional sr)) w3 = Some (Done, (buf, j, t))"
    using w unfolding steps put_all_append_Done put_all_Cons_Done[of "put_question malloc q1" "[]"] by auto
  have items: "\<forall>i \<in> set (answer sr). sendable i" "\<forall>i \<in> set (authority sr @ additional sr). sendable i"
    using sr(1) by (auto simp: address_response_def address_sendable)
  have ok: "step_ok (put_all (map (put_item malloc) (answer sr)))"
    "step_ok (put_all (map (put_item malloc) (authority sr @ additional sr)))"
    using items by (auto intro!: step_ok_put_all put_item_sendable)
  have w0: "writer_ok (stack, 0, [])"
    using stack by (simp add: writer_ok_def table_ok_def)
  note A1 = step_okD[OF num16.put_list_ok w0 W(1), simplified]
  note A2 = step_okD[OF put_question_ok A1(1) W(2), unfolded q1_def, simplified, OF sr(2)]
  note A3 = step_okD[OF ok(1) A2(1) W(3)]
  note A4 = step_okD[OF ok(2) A3(1) W(4)]
  have j: "j \<le> length buf" using A4(1) by (simp add: writer_ok_def)
  then have "extends ?p j (buf, j, t)"
    by (simp add: extends_def)
  note e3 = A4(5)[OF this]
  note e2 = A3(5)[OF e3]
  note e1 = A2(5)[OF e2]
  have i1: "index_of w1 = 12"
    using put16s_index[OF W(1)] by (simp add: h_def)
  have six: "length h = 6" by (simp add: h_def)
  have head: "get_all (GET16 ?p j) 6 0 = Some (Some (h, 12))"
    using num16.get_put_list[OF _ w0 W(1) e1, unfolded six] i1 by simp
  obtain u1 u2 where U: "put_name malloc Returned name w1 = Some (Done, u1)" "put16 (word_of_int qt) u1 = Some (Done, u2)"
    "put16 (word_of_int qc) u2 = Some (Done, w2)"
    using W(2) unfolding put_question_def put_all_Cons_Done by (auto simp: q1_def)
  have ok1: "writer_ok u1"
    using put_name_props(1)[OF A1(1) U(1) _ sr(2)] by simp
  note B2 = step_okD[OF num16.put_ok[OF TrueI] ok1 U(2)]
  note B3 = step_okD[OF num16.put_ok[OF TrueI] B2(1) U(3)]
  have eu1: "extends ?p j u1" using B2(5)[OF B3(5)[OF e2]] .
  have parse: "name_parse ?p j 12 256 = Some (Some (index_of u1, name))"
    using put_name_props(5)[OF A1(1) U(1) _ sr(2) eu1, of 256] i1 by simp
  have i2: "index_of w2 = index_of u1 + 4"
    using U(2,3) by (auto simp: put16_splice elim!: splice_step_Done)
  have "index_of w2 \<le> j"
    using e2 by (simp add: extends_def index_of_def split: prod.splits)
  then show thesis
    using that[OF head _ _ _ _ _ parse i2 _ A2(1) W(3) e3 j] i2 by (simp add: h_def q)
qed

text \<open>
  C29: The answer of a server with address records, written by \<open>evdns_server_request_format_response\<close> with compressed
  names and not cut off, is read by \<open>reply_parse\<close> of the client that sent the question: it hands the flags, the least
  time to live and all addresses in their order to \<open>reply_handle\<close>.
\<close>

theorem evdns_response_roundtrip:
  assumes name: "dns_name name" and sr: "address_response sr name" "response sr = None"
    and run: "evdns_server_request_format_response malloc stack sr 0 = Some (0, sr')" "response sr' = Some p" "p ! 2 AND 2 = 0"
    and stack: "length stack = 1500"
    and question: "evdns_request_data_build name trans_id 1 1 mem = Some (int r, mem')" "length mem \<le> 0x4000"
    and client: "request_find (sr_trans_id sr) = Some creq" "request_mem creq = mem'" "request_len creq = r" "request_type creq = 1"
  shows "reply_parse malloc' request_find rnd p (length p) =
    Some (Handled creq (word_of_int (sr_flags sr) OR 0x8000)
      (let ttl = least_ttl 0xffffffff (answer sr) in if ttl = 0xffffffff then 0 else ttl)
      (Some (add_addresses (answer sr) (no_reply 1))))"
proof -
  have len: "2 < length stack" "length stack \<le> 0x4000" using stack by simp_all
  obtain buf j t where w: "put_all (response_steps malloc sr 0) (stack, 0, []) = Some (Done, (buf, j, t))" "p = take j buf"
    using format_response_Done[OF run(1,2) sr(2) run(3) len(1)] by metis
  obtain h k w2 w3 where R: "get_all (GET16 p j) 6 0 = Some (Some (h, 12))" "length h = 6" "h ! 0 = sr_trans_id sr"
    "h ! 1 = word_of_int (sr_flags sr) OR 0x8000" "h ! 2 = 1" "h ! 3 = word_of_int (n_answer sr)"
    "name_parse p j 12 256 = Some (Some (k, name))" "index_of w2 = k + 4" "k + 4 \<le> j" "writer_ok w2"
    "put_all (map (put_item malloc) (answer sr)) w2 = Some (Done, w3)" "extends p j w3" "j \<le> length buf"
    using response_written[OF sr(1) name len(2) w(1)] unfolding w(2) by metis
  have j: "length p = j" using w(2) R(13) by simp
  have 0: "0 \<le> int r" by simp
  obtain k' where k': "int r = int (k' + 4)" "length mem' = length mem" "k' + 4 \<le> length mem"
    "\<forall>l \<ge> k' + 4. l \<le> length mem' \<longrightarrow> name_parse mem' l 12 256 = Some (Some (k', name))"
    by (rule request_built[OF question(1) 0 name question(2)]) blast
  have cmp: "name_parse mem' r 12 256 = Some (Some (k', name))"
    using k' by simp
  have questions: "check_questions rnd creq p j 1 12 False = Some (Some (True, k + 4))"
    using R(7,9) cmp client name by (simp add: same_name_refl eval_nat_numeral)
  define st where "st = \<lparr>as_j = k + 4, ttl_r = 0xffffffff, as_reply = no_reply 1, as_cname = put_cname_in_ptr creq\<rparr>"
  have items: "\<forall>i \<in> set (answer sr). address_item i" "n_answer sr = int (length (answer sr))" "answer sr \<noteq> []"
    "count_addresses (answer sr) \<le> MAX_V4_ADDRS" "(word_of_int (sr_flags sr) :: u16) AND 0x020f = 0"
    using sr(1) by (auto simp: address_response_def)
  have "as_j st = index_of w2" "addrcount (as_reply st) + count_addresses (answer sr) \<le> MAX_V4_ADDRS"
    using R(8) items(4) by (simp_all add: st_def no_reply_def)
  from answers_loop_items[OF items(1) R(10,11,12) this, of malloc'] obtain st' where
    st': "answers_loop malloc' 1 p j (length (answer sr)) st = Some (True, st')" "as_reply st' = add_addresses (answer sr) (no_reply 1)"
      "ttl_r st' = least_ttl 0xffffffff (answer sr)" "as_cname st' = put_cname_in_ptr creq"
    unfolding st_def answer_state.simps by blast
  have "length (answer sr) \<le> 32"
    using items_count[OF items(1)] items(4) by (simp add: MAX_V4_ADDRS_def)
  then have number: "unat (h ! 3) = length (answer sr)"
    unfolding R(6) items(2) of_int_of_nat_eq by (simp add: unsigned_of_nat take_bit_nat_eq_self)
  have flags: "(word_of_int (sr_flags sr) OR 0x8000 :: u16) AND 0x8000 \<noteq> 0" "(word_of_int (sr_flags sr) OR 0x8000 :: u16) AND 0x020f = 0"
    using items(5) by (simp_all add: bit.conj_disj_distrib2)
  have loop: "answers_loop malloc' (request_type creq) p j (unat (h ! 3))
      \<lparr>as_j = k + 4, ttl_r = 0xffffffff, as_reply = no_reply (request_type creq), as_cname = put_cname_in_ptr creq\<rparr> = Some (True, st')"
    using st'(1) unfolding st_def client(4) number .
  have "have_answer (as_reply st')"
    using st'(2) items(3) by (simp add: add_addresses_def)
  then show ?thesis
    using R(1,3,4,5) client(1) flags loop questions st'(2-4)
    unfolding reply_parse_def j by (simp add: Let_def del: get_all.simps answers_loop.simps check_questions.simps)
qed

text \<open>A request of a server with one question and two addresses, and the packet of its answer.\<close>

definition sample_name :: "u8 list" where "sample_name = [97, DOT, 98]"

definition sample_request :: server_request where
  "sample_request = \<lparr>sr_trans_id = 7, n_answer = 1, n_authority = 0, n_additional = 0,
     answer = [\<lparr>item_name = sample_name, item_type = 1, item_class = 1, item_ttl = 60, is_name = False, datalen = 8,
       item_data = Some [127, 0, 0, 1, 10, 0, 0, 1]\<rparr>],
     authority = [], additional = [], response = None, sr_flags = 0x0100,
     questions = [\<lparr>q_type = 1, dns_question_class = 1, q_name = sample_name\<rparr>]\<rparr>"

definition sample_packet :: "u8 list" where
  "sample_packet = [0, 7, 129, 0, 0, 1, 0, 1, 0, 0, 0, 0, 1, 97, 1, 98, 0, 0, 1, 0, 1, 192, 12, 0, 1, 0, 1, 0, 0, 0, 60, 0, 8,
     127, 0, 0, 1, 10, 0, 0, 1]"

definition sample_memory :: "u8 list" where
  "sample_memory = [0, 7, 1, 0, 0, 1, 0, 0, 0, 0, 0, 0, 1, 97, 1, 98, 0, 0, 1, 0, 1] @ replicate 84 0"

definition sample_client :: dns_request where
  "sample_client = \<lparr>request_mem = sample_memory, request_len = 21, request_type = 1, put_cname_in_ptr = None\<rparr>"

theorem evdns_response_roundtrip_witness:
  "evdns_server_request_format_response Some (replicate 1500 0) sample_request 0 =
      Some (0, sample_request\<lparr>answer := [], response := Some sample_packet\<rparr>) \<and>
   reply_parse Some (\<lambda>t. Some sample_client) True sample_packet (length sample_packet) =
      Some (Handled sample_client 0x8100 60
        (Some \<lparr>reply_type = 1, have_answer = True, addrcount = 2, addresses = [127, 0, 0, 1, 10, 0, 0, 1], ptr_name = []\<rparr>))"
proof -
  have run: "evdns_server_request_format_response Some (replicate 1500 0) sample_request 0 =
      Some (0, sample_request\<lparr>answer := [], response := Some sample_packet\<rparr>)"
    by code_simp
  have name: "dns_name sample_name" by code_simp
  have "address_item \<lparr>item_name = sample_name, item_type = 1, item_class = 1, item_ttl = 60, is_name = False, datalen = 8,
       item_data = Some [127, 0, 0, 1, 10, 0, 0, 1]\<rparr>"
    using name by (simp add: address_item_def dns_constants)
  then have sr: "address_response sample_request sample_name"
    by (simp add: address_response_def sample_request_def count_addresses_def item_bytes_def MAX_V4_ADDRS_def)
  have mem: "evdns_request_data_build sample_name 7 1 1 (replicate 105 0) = Some (int 21, sample_memory)"
    by code_simp
  have "reply_parse Some (\<lambda>t. Some sample_client) True sample_packet (length sample_packet) =
    Some (Handled sample_client (word_of_int (sr_flags sample_request) OR 0x8000)
      (let ttl = least_ttl 0xffffffff (answer sample_request) in if ttl = 0xffffffff then 0 else ttl)
      (Some (add_addresses (answer sample_request) (no_reply 1))))"
    by (rule evdns_response_roundtrip[OF name sr _ run _ _ _ mem])
      (simp_all add: sample_request_def sample_client_def sample_packet_def)
  then show ?thesis
    using run by (simp add: sample_request_def least_ttl_def Let_def add_addresses_def count_addresses_def item_bytes_def no_reply_def)
qed

end
