(* ===== verification/Http_Server.thy ===== *)
theory Http_Server
  imports Http_Uri
begin

text \<open>
  The configuration of an HTTP server, from \<^verbatim>\<open>http.c\<close> and \<^verbatim>\<open>http-internal.h\<close>: virtual hosts and aliases, how the host
  of a request is found, and the callbacks for paths.
\<close>

section \<open>The server\<close>

text \<open>
  \<^verbatim>\<open>struct evhttp\<close>. A callback is a number, which stands for the function and its argument. Of the listening sockets
  only whether there are any is kept; the connections and the event base are not part of the model.
\<close>

datatype evhttp = Evhttp
  (http_callbacks: "(string \<times> nat) list") (virtualhosts: "evhttp list") (aliases: "string list") (vhost_pattern: "string option")
  (has_sockets: bool) (http_timeout: int) (default_max_headers_size: nat) (default_max_body_size: nat) (allowed_methods: u16)
  (gencb: "nat option")

definition sizeof_evhttp :: nat where "sizeof_evhttp = 168"
definition sizeof_evhttp_cb :: nat where "sizeof_evhttp_cb = 40"
definition sizeof_evhttp_server_alias :: nat where "sizeof_evhttp_server_alias = 24"

text \<open>The methods of requests are the bits of a number.\<close>

definition EVHTTP_REQ_GET :: u32 where "EVHTTP_REQ_GET = 0x001"
definition EVHTTP_REQ_POST :: u32 where "EVHTTP_REQ_POST = 0x002"
definition EVHTTP_REQ_HEAD :: u32 where "EVHTTP_REQ_HEAD = 0x004"
definition EVHTTP_REQ_PUT :: u32 where "EVHTTP_REQ_PUT = 0x008"
definition EVHTTP_REQ_DELETE :: u32 where "EVHTTP_REQ_DELETE = 0x010"
definition EVHTTP_REQ_OPTIONS :: u32 where "EVHTTP_REQ_OPTIONS = 0x020"
definition EVHTTP_REQ_TRACE :: u32 where "EVHTTP_REQ_TRACE = 0x040"
definition EVHTTP_REQ_CONNECT :: u32 where "EVHTTP_REQ_CONNECT = 0x080"
definition EVHTTP_REQ_PATCH :: u32 where "EVHTTP_REQ_PATCH = 0x100"
definition EVHTTP_REQ_UNKNOWN :: u32 where "EVHTTP_REQ_UNKNOWN = 0x8000"

lemmas method_defs = EVHTTP_REQ_GET_def EVHTTP_REQ_POST_def EVHTTP_REQ_HEAD_def EVHTTP_REQ_PUT_def EVHTTP_REQ_DELETE_def
  EVHTTP_REQ_OPTIONS_def EVHTTP_REQ_TRACE_def EVHTTP_REQ_CONNECT_def EVHTTP_REQ_PATCH_def EVHTTP_REQ_UNKNOWN_def

text \<open>The limits of an unlimited server are the largest numbers; a negative limit stands for none.\<close>

definition limit_of :: "int \<Rightarrow> nat" where "limit_of n = (if n < 0 then EV_SIZE_MAX else nat n)"

fun evhttp_set_max_headers_size :: "evhttp \<Rightarrow> int \<Rightarrow> evhttp" where
  "evhttp_set_max_headers_size (Evhttp c v a p s t h b m g) max_headers_size = Evhttp c v a p s t (limit_of max_headers_size) b m g"

fun evhttp_set_max_body_size :: "evhttp \<Rightarrow> int \<Rightarrow> evhttp" where
  "evhttp_set_max_body_size (Evhttp c v a p s t h b m g) max_body_size = Evhttp c v a p s t h (limit_of max_body_size) m g"

fun evhttp_set_allowed_methods :: "evhttp \<Rightarrow> u16 \<Rightarrow> evhttp" where
  "evhttp_set_allowed_methods (Evhttp c v a p s t h b m g) methods = Evhttp c v a p s t h b methods g"

fun evhttp_set_timeout :: "evhttp \<Rightarrow> int \<Rightarrow> evhttp" where
  "evhttp_set_timeout (Evhttp c v a p s t h b m g) timeout_in_secs = Evhttp c v a p s timeout_in_secs h b m g"

fun evhttp_set_gencb :: "evhttp \<Rightarrow> nat option \<Rightarrow> evhttp" where
  "evhttp_set_gencb (Evhttp c v a p s t h b m g) cb = Evhttp c v a p s t h b m cb"

definition evhttp_new_object :: "allocator \<Rightarrow> evhttp option" where
  "evhttp_new_object malloc =
     (case malloc sizeof_evhttp of
        None \<Rightarrow> None
      | Some _ \<Rightarrow>
          (let http = evhttp_set_timeout (Evhttp [] [] [] None False 0 0 0 0 None) (- 1);
               http = evhttp_set_max_headers_size http (- 1);
               http = evhttp_set_max_body_size http (- 1) in
           Some (evhttp_set_allowed_methods http
             (ucast (EVHTTP_REQ_GET OR EVHTTP_REQ_POST OR EVHTTP_REQ_HEAD OR EVHTTP_REQ_PUT OR EVHTTP_REQ_DELETE)))))"

text \<open>
  A virtual host becomes part of the server it is added to; \<open>evhttp_remove_virtual_host\<close> is given its place in the
  list and also returns the virtual host.
\<close>

fun set_pattern :: "evhttp \<Rightarrow> string option \<Rightarrow> evhttp" where
  "set_pattern (Evhttp c v a p s t h b m g) pattern = Evhttp c v a pattern s t h b m g"

fun set_virtualhosts :: "evhttp \<Rightarrow> evhttp list \<Rightarrow> evhttp" where
  "set_virtualhosts (Evhttp c v a p s t h b m g) vs = Evhttp c vs a p s t h b m g"

fun set_aliases :: "evhttp \<Rightarrow> string list \<Rightarrow> evhttp" where
  "set_aliases (Evhttp c v a p s t h b m g) als = Evhttp c v als p s t h b m g"

fun set_callbacks :: "evhttp \<Rightarrow> (string \<times> nat) list \<Rightarrow> evhttp" where
  "set_callbacks (Evhttp c v a p s t h b m g) cbs = Evhttp cbs v a p s t h b m g"

definition evhttp_add_virtual_host :: "allocator \<Rightarrow> evhttp \<Rightarrow> string \<Rightarrow> evhttp \<Rightarrow> int \<times> evhttp" where
  "evhttp_add_virtual_host malloc http pattern vhost =
     (if vhost_pattern vhost \<noteq> None \<or> has_sockets vhost then (- 1, http)
      else case mm_strdup malloc pattern of
        None \<Rightarrow> (- 1, http)
      | Some p \<Rightarrow> (0, set_virtualhosts http (virtualhosts http @ [set_pattern vhost (Some p)])))"

definition evhttp_remove_virtual_host :: "evhttp \<Rightarrow> nat \<Rightarrow> int \<times> evhttp \<times> evhttp" where
  "evhttp_remove_virtual_host http i =
     (let vs = virtualhosts http; vhost = vs ! i in
      if vhost_pattern vhost = None then (- 1, http, vhost)
      else (0, set_virtualhosts http (take i vs @ drop (Suc i) vs), set_pattern vhost None))"

definition evhttp_add_server_alias :: "allocator \<Rightarrow> evhttp \<Rightarrow> string \<Rightarrow> int \<times> evhttp" where
  "evhttp_add_server_alias malloc http alias =
     (if malloc sizeof_evhttp_server_alias = None then (- 1, http)
      else case mm_strdup malloc alias of
        None \<Rightarrow> (- 1, http)
      | Some a \<Rightarrow> (0, set_aliases http (aliases http @ [a])))"

fun remove_alias :: "string list \<Rightarrow> string \<Rightarrow> string list option" where
  "remove_alias [] alias = None"
| "remove_alias (a # als) alias =
     (if evutil_ascii_strcasecmp a alias = 0 then Some als else map_option ((#) a) (remove_alias als alias))"

definition evhttp_remove_server_alias :: "evhttp \<Rightarrow> string \<Rightarrow> int \<times> evhttp" where
  "evhttp_remove_server_alias http alias =
     (case remove_alias (aliases http) alias of None \<Rightarrow> (- 1, http) | Some als \<Rightarrow> (0, set_aliases http als))"

definition evhttp_set_cb :: "allocator \<Rightarrow> evhttp \<Rightarrow> string \<Rightarrow> nat \<Rightarrow> int \<times> evhttp" where
  "evhttp_set_cb malloc http uri cb =
     (if \<exists>c \<in> set (http_callbacks http). fst c = uri then (- 1, http)
      else if malloc sizeof_evhttp_cb = None then (- 2, http)
      else case mm_strdup malloc uri of
        None \<Rightarrow> (- 3, http)
      | Some what \<Rightarrow> (0, set_callbacks http (http_callbacks http @ [(what, cb)])))"

fun remove_cb :: "(string \<times> nat) list \<Rightarrow> string \<Rightarrow> (string \<times> nat) list option" where
  "remove_cb [] uri = None"
| "remove_cb (c # cs) uri = (if fst c = uri then Some cs else map_option ((#) c) (remove_cb cs uri))"

definition evhttp_del_cb :: "evhttp \<Rightarrow> string \<Rightarrow> int \<times> evhttp" where
  "evhttp_del_cb http uri =
     (case remove_cb (http_callbacks http) uri of None \<Rightarrow> (- 1, http) | Some cs \<Rightarrow> (0, set_callbacks http cs))"

text \<open>
  The callback for a path: the path is decoded and compared as a C string. \<open>None\<close> is also the result when there is no
  memory.
\<close>

definition evhttp_dispatch_callback :: "allocator \<Rightarrow> (string \<times> nat) list \<Rightarrow> string \<Rightarrow> nat option" where
  "evhttp_dispatch_callback malloc cbs p =
     (case malloc (length p + 1) of
        None \<Rightarrow> None
      | Some _ \<Rightarrow>
          (let translated = takeWhile (\<lambda>c. c \<noteq> NUL) (snd (evhttp_decode_uri_internal p (length p) 0)) in
           map_option snd (List.find (\<lambda>c. fst c = translated) cbs)))"

section \<open>Patterns\<close>

text \<open>
  The tests at the end of the name compare with the NUL there: a character of the pattern is never NUL, nor is its
  lower case.
\<close>

function prefix_suffix_match :: "string \<Rightarrow> string \<Rightarrow> bool \<Rightarrow> bool" where
  "prefix_suffix_match [] name ignorecase = (name = [])"
| "prefix_suffix_match (c # pattern) name ignorecase =
     (if c = CHR ''*'' then
        (case name of
           [] \<Rightarrow> False
         | n # ns \<Rightarrow>
             if prefix_suffix_match pattern name ignorecase then True else prefix_suffix_match (c # pattern) ns ignorecase)
      else (case name of
              [] \<Rightarrow> False
            | n # ns \<Rightarrow>
                if c \<noteq> n \<and> (\<not> ignorecase \<or> EVUTIL_TOLOWER c \<noteq> EVUTIL_TOLOWER n) then False
                else prefix_suffix_match pattern ns ignorecase))"
  by pat_completeness auto
termination
  by (relation "measure (\<lambda>(p, n, i). length p + length n)") auto

section \<open>Aliases and virtual hosts\<close>

fun evhttp_find_alias :: "evhttp \<Rightarrow> string \<Rightarrow> evhttp option" and find_alias_in :: "evhttp list \<Rightarrow> string \<Rightarrow> evhttp option" where
  "evhttp_find_alias (Evhttp cbs vhosts als pat socks t mh mb am g) hostname =
     (if \<exists>a \<in> set als. evutil_ascii_strcasecmp a hostname = 0 then Some (Evhttp cbs vhosts als pat socks t mh mb am g)
      else find_alias_in vhosts hostname)"
| "find_alias_in [] hostname = None"
| "find_alias_in (v # vs) hostname =
     (case evhttp_find_alias v hostname of Some h \<Rightarrow> Some h | None \<Rightarrow> find_alias_in vs hostname)"

text \<open>A virtual host in a list has a pattern: \<open>evhttp_add_virtual_host\<close> sets it.\<close>

definition vhost_matches :: "string \<Rightarrow> evhttp \<Rightarrow> bool" where
  "vhost_matches hostname vhost = (case vhost_pattern vhost of None \<Rightarrow> False | Some p \<Rightarrow> prefix_suffix_match p hostname True)"

function find_vhost_loop :: "evhttp \<Rightarrow> string \<Rightarrow> bool \<Rightarrow> bool \<times> evhttp" where
  "find_vhost_loop http hostname match_found =
     (case List.find (vhost_matches hostname) (virtualhosts http) of
        None \<Rightarrow> (match_found, http)
      | Some vhost \<Rightarrow> find_vhost_loop vhost hostname True)"
  by pat_completeness auto
termination
proof (relation "measure (\<lambda>(h, n, m). size h)", simp)
  fix http hostname and match_found :: bool and vhost
  assume "List.find (vhost_matches hostname) (virtualhosts http) = Some vhost"
  then have "vhost \<in> set (virtualhosts http)"
    by (auto simp: find_Some_iff)
  then have "size vhost < size http"
    by (cases http) (auto simp: less_Suc_eq_le dest!: size_list_estimation'[OF _ order_refl] intro: trans_le_add1)
  then show "((vhost, hostname, True), http, hostname, match_found) \<in> measure (\<lambda>(h, n, m). size h)"
    by simp
qed

declare find_vhost_loop.simps [simp del]

definition evhttp_find_vhost :: "evhttp \<Rightarrow> string \<Rightarrow> bool \<times> evhttp" where
  "evhttp_find_vhost http hostname =
     (case evhttp_find_alias http hostname of Some h \<Rightarrow> (True, h) | None \<Rightarrow> find_vhost_loop http hostname False)"

section \<open>Patterns and the names they stand for\<close>

text \<open>What a glob pattern means: a star stands for any text, every other character for itself.\<close>

definition same_char :: "bool \<Rightarrow> char \<Rightarrow> char \<Rightarrow> bool" where
  "same_char ignorecase c n \<longleftrightarrow> c = n \<or> ignorecase \<and> EVUTIL_TOLOWER c = EVUTIL_TOLOWER n"

inductive glob :: "bool \<Rightarrow> string \<Rightarrow> string \<Rightarrow> bool" for ignorecase where
  glob_end: "glob ignorecase [] []"
| glob_char: "c \<noteq> CHR ''*'' \<Longrightarrow> same_char ignorecase c n \<Longrightarrow> glob ignorecase p ns \<Longrightarrow> glob ignorecase (c # p) (n # ns)"
| glob_star: "glob ignorecase p ns \<Longrightarrow> glob ignorecase (CHR ''*'' # p) (xs @ ns)"

inductive_cases glob_NilE: "glob ignorecase [] ns"
inductive_cases glob_ConsE: "glob ignorecase (c # p) ns"

inductive_cases glob_StarE: "glob ignorecase (CHR ''*'' # p) ns"

inductive_simps glob_Nil: "glob ignorecase [] ns"

lemma glob_skip: "glob ic (CHR ''*'' # p) ns \<Longrightarrow> glob ic (CHR ''*'' # p) (n # ns)"
proof -
  assume "glob ic (CHR ''*'' # p) ns"
  then obtain ms xs where "ns = xs @ ms" "glob ic p ms"
    by (auto elim: glob_StarE)
  then show "glob ic (CHR ''*'' # p) (n # ns)"
    using glob_star[of ic p ms "n # xs"] by simp
qed

lemma glob_star_cases:
  assumes "glob ic (CHR ''*'' # p) ns"
  obtains "glob ic p ns" | n ms where "ns = n # ms" "glob ic (CHR ''*'' # p) ms"
proof -
  obtain ms xs where "ns = xs @ ms" "glob ic p ms"
    using assms by (auto elim: glob_StarE)
  then show thesis
    using that by (cases xs) (auto intro: glob_star)
qed

text \<open>A pattern of stars only matches nothing but by a star at its end.\<close>

lemma glob_empty: "glob ic p [] \<Longrightarrow> p = [] \<or> last p = CHR ''*''"
proof (induction p)
  case (Cons c p)
  from Cons.prems have "c = CHR ''*'' \<and> glob ic p []"
    by (auto elim: glob_ConsE)
  then show ?case using Cons.IH by (cases p) auto
qed simp

lemma prefix_suffix_match_glob:
  "prefix_suffix_match p ns ic \<longleftrightarrow> glob ic p ns \<and> (p = [] \<or> last p \<noteq> CHR ''*'')"
proof (induction p ns ic rule: prefix_suffix_match.induct)
  case (1 name ic)
  then show ?case by (auto simp: glob_Nil)
next
  case (2 c p name ic)
  show ?case
  proof (cases "c = CHR ''*''")
    case False
    show ?thesis
    proof (cases name)
      case Nil
      then show ?thesis using False by (auto elim: glob_ConsE)
    next
      case (Cons n ns)
      show ?thesis
      proof (cases "same_char ic c n")
        case True
        then have "prefix_suffix_match (c # p) name ic = prefix_suffix_match p ns ic"
          using False Cons by (auto simp: same_char_def)
        moreover have "glob ic (c # p) name \<longleftrightarrow> glob ic p ns"
          using True False Cons by (auto elim: glob_ConsE intro: glob_char)
        moreover have "prefix_suffix_match p ns ic \<longleftrightarrow> glob ic p ns \<and> (p = [] \<or> last p \<noteq> CHR ''*'')"
          using True False Cons by (intro 2(3)) (auto simp: same_char_def)
        ultimately show ?thesis using False by auto
      next
        case differ: False
        then show ?thesis using False Cons by (auto simp: same_char_def elim: glob_ConsE)
      qed
    qed
  next
    case star: True
    show ?thesis
    proof (cases name)
      case Nil
      have "\<not> (glob ic (c # p) [] \<and> last (c # p) \<noteq> CHR ''*'')"
        using glob_empty[of ic "c # p"] by auto
      then show ?thesis using Nil star by simp
    next
      case (Cons n ns)
      have IH: "prefix_suffix_match p name ic \<longleftrightarrow> glob ic p name \<and> (p = [] \<or> last p \<noteq> CHR ''*'')"
        using 2(1) star Cons by simp
      show ?thesis
      proof (cases "prefix_suffix_match p name ic")
        case True
        then have "glob ic p name" "p \<noteq> []" "last p \<noteq> CHR ''*''"
          using IH Cons by (auto elim: glob_NilE)
        then show ?thesis
          using True star Cons glob_star[of ic p name "[]"] by simp
      next
        case False
        have IH2: "prefix_suffix_match (c # p) ns ic \<longleftrightarrow> glob ic (c # p) ns \<and> (c # p = [] \<or> last (c # p) \<noteq> CHR ''*'')"
          using star Cons False by (intro 2(2)) simp_all
        have "glob ic (c # p) name \<and> last (c # p) \<noteq> CHR ''*'' \<Longrightarrow> glob ic (c # p) ns"
          using False IH star Cons by (auto elim!: glob_star_cases split: if_splits)
        moreover have "glob ic (c # p) ns \<Longrightarrow> glob ic (c # p) name"
          using star Cons glob_skip by simp
        ultimately show ?thesis
          using False IH2 star Cons by auto
      qed
    qed
  qed
qed

definition ends_in_star :: "string \<Rightarrow> bool" where
  "ends_in_star p \<longleftrightarrow> p \<noteq> [] \<and> last p = CHR ''*''"


section \<open>The server for a host name\<close>

text \<open>The servers that are reached over virtual hosts, and those with an alias for a name.\<close>

inductive below :: "evhttp \<Rightarrow> evhttp \<Rightarrow> bool" where
  below_refl: "below h h"
| below_step: "v \<in> set (virtualhosts h) \<Longrightarrow> below v g \<Longrightarrow> below h g"

definition has_alias :: "string \<Rightarrow> evhttp \<Rightarrow> bool" where
  "has_alias hostname h \<longleftrightarrow> (\<exists>a \<in> set (aliases h). evutil_ascii_strcasecmp a hostname = 0)"

lemma find_alias_correct:
  "case evhttp_find_alias http hostname of
     None \<Rightarrow> (\<forall>g. below http g \<longrightarrow> \<not> has_alias hostname g) | Some h \<Rightarrow> below http h \<and> has_alias hostname h"
  "case find_alias_in vs hostname of
     None \<Rightarrow> (\<forall>v \<in> set vs. \<forall>g. below v g \<longrightarrow> \<not> has_alias hostname g)
   | Some h \<Rightarrow> (\<exists>v \<in> set vs. below v h) \<and> has_alias hostname h"
proof (induction http hostname and vs hostname rule: evhttp_find_alias_find_alias_in.induct)
  case (1 cbs vhosts als pat socks t mh mb am g hostname)
  let ?h = "Evhttp cbs vhosts als pat socks t mh mb am g"
  show ?case
  proof (cases "has_alias hostname ?h")
    case True
    then show ?thesis by (simp add: has_alias_def below_refl)
  next
    case False
    then have run: "evhttp_find_alias ?h hostname = find_alias_in vhosts hostname"
      by (simp add: has_alias_def)
    have IH: "case find_alias_in vhosts hostname of
        None \<Rightarrow> (\<forall>v \<in> set vhosts. \<forall>g. below v g \<longrightarrow> \<not> has_alias hostname g)
      | Some h \<Rightarrow> (\<exists>v \<in> set vhosts. below v h) \<and> has_alias hostname h"
      using 1 False by (simp add: has_alias_def)
    show ?thesis
    proof (cases "find_alias_in vhosts hostname")
      case None
      have "\<not> has_alias hostname g" if "below ?h g" for g
        using that False IH None by cases auto
      then show ?thesis using run None by simp
    next
      case (Some h)
      then show ?thesis using run IH by (auto intro: below_step)
    qed
  qed
qed (auto split: option.splits)

lemma find_vhost_loop_correct:
  "find_vhost_loop http hostname m = (m', h) \<Longrightarrow> below http h \<and> (\<forall>v \<in> set (virtualhosts h). \<not> vhost_matches hostname v) \<and>
     (m' \<longleftrightarrow> m \<or> (\<exists>v \<in> set (virtualhosts http). vhost_matches hostname v)) \<and>
     (h = http \<or> vhost_matches hostname h)"
proof (induction http hostname m rule: find_vhost_loop.induct)
  case (1 http hostname m)
  show ?case
  proof (cases "List.find (vhost_matches hostname) (virtualhosts http)")
    case None
    then have "h = http" "m' = m"
      using 1(2) by (simp_all add: find_vhost_loop.simps[of http])
    then show ?thesis
      using None by (auto simp: find_None_iff below_refl)
  next
    case (Some v)
    then have v: "v \<in> set (virtualhosts http)" "vhost_matches hostname v"
      by (auto simp: find_Some_iff)
    have "find_vhost_loop v hostname True = (m', h)"
      using 1(2) Some by (simp add: find_vhost_loop.simps[of http])
    from 1(1)[OF Some this] show ?thesis
      using v by (auto intro: below_step)
  qed
qed

text \<open>
  \<open>evhttp_find_vhost\<close> prefers a server with an alias for the name; without one it follows the patterns as far as they
  go. It ends because virtual hosts are nested.
\<close>

theorem evhttp_find_vhost_correct:
  assumes "evhttp_find_vhost http hostname = (found, h)"
  shows "below http h"
    "\<exists>g. below http g \<and> has_alias hostname g \<Longrightarrow> found \<and> has_alias hostname h"
    "\<forall>g. below http g \<longrightarrow> \<not> has_alias hostname g \<Longrightarrow>
       (\<forall>v \<in> set (virtualhosts h). \<not> vhost_matches hostname v) \<and> (h = http \<or> vhost_matches hostname h) \<and>
       (found \<longleftrightarrow> (\<exists>v \<in> set (virtualhosts http). vhost_matches hostname v))"
proof -
  show "below http h" "\<exists>g. below http g \<and> has_alias hostname g \<Longrightarrow> found \<and> has_alias hostname h"
    using assms find_alias_correct(1)[of http hostname] find_vhost_loop_correct[of http hostname False found h]
    by (auto simp: evhttp_find_vhost_def split: option.splits)
  assume none: "\<forall>g. below http g \<longrightarrow> \<not> has_alias hostname g"
  then have "evhttp_find_alias http hostname = None"
    using find_alias_correct(1)[of http hostname] by (cases "evhttp_find_alias http hostname") auto
  then have "find_vhost_loop http hostname False = (found, h)"
    using assms by (simp add: evhttp_find_vhost_def)
  then show "(\<forall>v \<in> set (virtualhosts h). \<not> vhost_matches hostname v) \<and> (h = http \<or> vhost_matches hostname h) \<and>
       (found \<longleftrightarrow> (\<exists>v \<in> set (virtualhosts http). vhost_matches hostname v))"
    using find_vhost_loop_correct by blast
qed

end
