(* ===== verification/Http_Message.thy ===== *)
theory Http_Message
  imports Http_Server Http_Uri_Correct Evbuffer_Search
begin

text \<open>
  HTTP messages, from \<^verbatim>\<open>http.c\<close>, \<^verbatim>\<open>http-internal.h\<close> and \<^verbatim>\<open>event2/http_struct.h\<close>: writing the first line, the headers
  and the body, in one piece or in chunks, and reading them.

  As in \<open>Http_Uri\<close>, \<open>None\<close> as the result of an operation on buffers stands for an abort or an access through a null
  pointer. A line that was read is the C string at the beginning of its bytes. The pointer from a request to its
  connection is an argument.
\<close>

section \<open>Requests and connections\<close>

datatype evhttp_request_kind = EVHTTP_REQUEST | EVHTTP_RESPONSE

datatype message_read_status = ALL_DATA_READ | MORE_DATA_EXPECTED | DATA_CORRUPTED | REQUEST_CANCELED | DATA_TOO_LONG

datatype evhttp_connection_error =
  EVCON_HTTP_TIMEOUT | EVCON_HTTP_EOF | EVCON_HTTP_INVALID_HEADER | EVCON_HTTP_BUFFER_ERROR | EVCON_HTTP_REQUEST_CANCEL

datatype evhttp_connection_state =
  EVCON_DISCONNECTED | EVCON_CONNECTING | EVCON_IDLE | EVCON_READING_FIRSTLINE | EVCON_READING_HEADERS | EVCON_READING_BODY
  | EVCON_READING_TRAILER | EVCON_WRITING

definition EVHTTP_REQ_OWN_CONNECTION :: u32 where "EVHTTP_REQ_OWN_CONNECTION = 0x0001"
definition EVHTTP_PROXY_REQUEST :: u32 where "EVHTTP_PROXY_REQUEST = 0x0002"
definition EVHTTP_USER_OWNED :: u32 where "EVHTTP_USER_OWNED = 0x0004"
definition EVHTTP_REQ_DEFER_FREE :: u32 where "EVHTTP_REQ_DEFER_FREE = 0x0008"
definition EVHTTP_REQ_NEEDS_FREE :: u32 where "EVHTTP_REQ_NEEDS_FREE = 0x0010"

text \<open>
  The major and minor version are a \<open>char\<close>, the sizes a \<open>size_t\<close>, \<open>ntoread\<close> is a signed number of 64 bits. The
  callbacks and the remote address are not kept.
\<close>

record evhttp_request =
  req_flags :: u32
  input_headers :: evkeyvalq
  output_headers :: evkeyvalq
  host_cache :: "string option"
  req_kind :: evhttp_request_kind
  req_type :: u32
  headers_size :: nat
  body_size :: nat
  req_uri :: "string option"
  uri_elems :: "evhttp_uri option"
  major :: int
  minor :: int
  response_code :: int
  response_code_line :: "string option"
  input_buffer :: evbuffer
  ntoread :: int
  chunked :: bool
  userdone :: bool
  output_buffer :: evbuffer

text \<open>What a connection calls when the output was written.\<close>

datatype write_callback = Evhttp_send_done | Evhttp_write_connectioncb | Evhttp_send_continue_done

text \<open>
  A connection with the buffers of its bufferevent, whether that reads and writes, whether \<open>evhttp_read_cb\<close> is
  called for new data, and whether a deferred call of it is scheduled.
\<close>

record evhttp_connection =
  max_headers_size :: nat
  max_body_size :: nat
  con_flags :: u32
  con_state :: evhttp_connection_state
  http_server :: "evhttp option"
  con_input :: evbuffer
  con_output :: evbuffer
  reading :: bool
  writing :: bool
  con_cb :: "write_callback option"
  read_cb :: bool
  read_more :: bool

definition EVHTTP_CON_INCOMING :: u32 where "EVHTTP_CON_INCOMING = 0x0001"
definition EVHTTP_CON_OUTGOING :: u32 where "EVHTTP_CON_OUTGOING = 0x0002"

definition sizeof_evhttp_request :: nat where "sizeof_evhttp_request = 192"
definition sizeof_evkeyvalq :: nat where "sizeof_evkeyvalq = 16"

definition evhttp_request_new :: "allocator \<Rightarrow> evhttp_request option" where
  "evhttp_request_new malloc =
     (if malloc sizeof_evhttp_request = None \<or> malloc sizeof_evkeyvalq = None \<or> malloc sizeof_evbuffer = None then None
      else Some \<lparr>req_flags = 0, input_headers = [], output_headers = [], host_cache = None, req_kind = EVHTTP_RESPONSE,
        req_type = 0, headers_size = 0, body_size = 0, req_uri = None, uri_elems = None, major = 0, minor = 0,
        response_code = 0, response_code_line = None, input_buffer = evbuffer_new, ntoread = 0, chunked = False,
        userdone = False, output_buffer = evbuffer_new\<rparr>)"

definition REQ_VERSION_BEFORE :: "evhttp_request \<Rightarrow> int \<Rightarrow> int \<Rightarrow> bool" where
  "REQ_VERSION_BEFORE req major_v minor_v \<longleftrightarrow> major req < major_v \<or> major req = major_v \<and> minor req < minor_v"

definition REQ_VERSION_ATLEAST :: "evhttp_request \<Rightarrow> int \<Rightarrow> int \<Rightarrow> bool" where
  "REQ_VERSION_ATLEAST req major_v minor_v \<longleftrightarrow> major req > major_v \<or> major req = major_v \<and> minor req \<ge> minor_v"

definition evhttp_connection_set_max_headers_size :: "evhttp_connection \<Rightarrow> int \<Rightarrow> evhttp_connection" where
  "evhttp_connection_set_max_headers_size evcon n = evcon\<lparr>max_headers_size := limit_of n\<rparr>"

definition evhttp_connection_set_max_body_size :: "evhttp_connection \<Rightarrow> int \<Rightarrow> evhttp_connection" where
  "evhttp_connection_set_max_body_size evcon n = evcon\<lparr>max_body_size := limit_of n\<rparr>"

definition evhttp_connected :: "evhttp_connection \<Rightarrow> bool" where
  "evhttp_connected evcon \<longleftrightarrow> con_state evcon \<notin> {EVCON_DISCONNECTED, EVCON_CONNECTING}"

text \<open>The host that a request is for.\<close>

definition evhttp_request_get_host :: "allocator \<Rightarrow> evhttp_request \<Rightarrow> string option \<times> evhttp_request" where
  "evhttp_request_get_host malloc req =
     (if host_cache req \<noteq> None then (host_cache req, req)
      else case (case uri_elems req of None \<Rightarrow> None | Some u \<Rightarrow> host u) of
        Some h \<Rightarrow> (Some h, req)
      | None \<Rightarrow>
          (case evhttp_find_header (input_headers req) ''Host'' of
             None \<Rightarrow> (None, req)
           | Some h \<Rightarrow>
               (let n = length (dropWhile EVUTIL_ISDIGIT (rev (tl h))) in
                if n > 0 \<and> char_at h n = CHR '':'' then
                  (case malloc (n + 1) of
                     None \<Rightarrow> (None, req)
                   | Some _ \<Rightarrow> (Some (take n h), req\<lparr>host_cache := Some (take n h)\<rparr>))
                else (Some h, req))))"

section \<open>Writing a message\<close>

definition evhttp_method :: "u32 \<Rightarrow> string option" where
  "evhttp_method type =
     (if type = EVHTTP_REQ_GET then Some ''GET'' else if type = EVHTTP_REQ_POST then Some ''POST''
      else if type = EVHTTP_REQ_HEAD then Some ''HEAD'' else if type = EVHTTP_REQ_PUT then Some ''PUT''
      else if type = EVHTTP_REQ_DELETE then Some ''DELETE'' else if type = EVHTTP_REQ_OPTIONS then Some ''OPTIONS''
      else if type = EVHTTP_REQ_TRACE then Some ''TRACE'' else if type = EVHTTP_REQ_CONNECT then Some ''CONNECT''
      else if type = EVHTTP_REQ_PATCH then Some ''PATCH'' else None)"

definition HTTP_NOCONTENT :: int where "HTTP_NOCONTENT = 204"
definition HTTP_NOTMODIFIED :: int where "HTTP_NOTMODIFIED = 304"

definition evhttp_response_needs_body :: "evhttp_request \<Rightarrow> bool" where
  "evhttp_response_needs_body req \<longleftrightarrow>
     response_code req \<noteq> HTTP_NOCONTENT \<and> response_code req \<noteq> HTTP_NOTMODIFIED \<and>
     (response_code req < 100 \<or> response_code req \<ge> 200) \<and> req_type req \<noteq> EVHTTP_REQ_HEAD"

definition evhttp_is_connection_close :: "u32 \<Rightarrow> evkeyvalq \<Rightarrow> bool" where
  "evhttp_is_connection_close flags headers =
     (if flags AND EVHTTP_PROXY_REQUEST \<noteq> 0 then
        (case evhttp_find_header headers ''Proxy-Connection'' of
           None \<Rightarrow> True | Some c \<Rightarrow> evutil_ascii_strcasecmp c ''keep-alive'' \<noteq> 0)
      else (case evhttp_find_header headers ''Connection'' of
              None \<Rightarrow> False | Some c \<Rightarrow> evutil_ascii_strcasecmp c ''close'' = 0))"

definition evhttp_is_connection_keepalive :: "evkeyvalq \<Rightarrow> bool" where
  "evhttp_is_connection_keepalive headers =
     (case evhttp_find_header headers ''Connection'' of
        None \<Rightarrow> False | Some c \<Rightarrow> evutil_ascii_strncasecmp c ''keep-alive'' 10 = 0)"

text \<open>\<open>date\<close> is what \<open>strftime\<close> makes of the time, nothing when it returns 0.\<close>

definition evhttp_maybe_add_date_header :: "allocator \<Rightarrow> string option \<Rightarrow> evkeyvalq \<Rightarrow> evkeyvalq" where
  "evhttp_maybe_add_date_header malloc date headers =
     (if evhttp_find_header headers ''Date'' = None
      then (case date of None \<Rightarrow> headers | Some d \<Rightarrow> snd (evhttp_add_header malloc headers ''Date'' d)) else headers)"

definition evhttp_maybe_add_content_length_header :: "allocator \<Rightarrow> evkeyvalq \<Rightarrow> nat \<Rightarrow> evkeyvalq" where
  "evhttp_maybe_add_content_length_header malloc headers content_length =
     (if evhttp_find_header headers ''Transfer-Encoding'' = None \<and> evhttp_find_header headers ''Content-Length'' = None
      then snd (evhttp_add_header malloc headers ''Content-Length'' (print_nat 10 content_length)) else headers)"

definition evhttp_make_header_request ::
    "allocator \<Rightarrow> evhttp_connection \<Rightarrow> evhttp_request \<Rightarrow> (evhttp_connection \<times> evhttp_request) option" where
  "evhttp_make_header_request malloc evcon req =
     (let req = req\<lparr>output_headers := snd (evhttp_remove_header (output_headers req) ''Proxy-Connection'')\<rparr> in
      case (evhttp_method (req_type req), req_uri req) of
        (Some m, Some u) \<Rightarrow> do {
          out \<leftarrow> uri_printf malloc (m @ '' '' @ u @ '' HTTP/'' @ print_int (major req) @ ''.'' @ print_int (minor req) @ [CR, LF])
            (con_output evcon);
          Some (evcon\<lparr>con_output := out\<rparr>,
            if (req_type req = EVHTTP_REQ_POST \<or> req_type req = EVHTTP_REQ_PUT) \<and>
               evhttp_find_header (output_headers req) ''Content-Length'' = None
            then req\<lparr>output_headers := snd (evhttp_add_header malloc (output_headers req) ''Content-Length''
                   (print_nat 10 (evbuffer_get_length (output_buffer req))))\<rparr>
            else req)
        }
      | _ \<Rightarrow> None)"

text \<open>The headers that are added to a reply, one rule after the other.\<close>

definition reply_persistent_headers :: "allocator \<Rightarrow> string option \<Rightarrow> bool \<Rightarrow> evhttp_request \<Rightarrow> evkeyvalq" where
  "reply_persistent_headers malloc date is_keepalive req =
     (if major req = 1 then
        (let hs = (if minor req \<ge> 1 then evhttp_maybe_add_date_header malloc date (output_headers req) else output_headers req);
             hs = (if minor req = 0 \<and> is_keepalive then snd (evhttp_add_header malloc hs ''Connection'' ''keep-alive'') else hs) in
         if (minor req \<ge> 1 \<or> is_keepalive) \<and> evhttp_response_needs_body req
         then evhttp_maybe_add_content_length_header malloc hs (evbuffer_get_length (output_buffer req)) else hs)
      else output_headers req)"

definition reply_content_type :: "allocator \<Rightarrow> evhttp_request \<Rightarrow> evkeyvalq \<Rightarrow> evkeyvalq" where
  "reply_content_type malloc req hs =
     (if evhttp_response_needs_body req \<and> evhttp_find_header hs ''Content-Type'' = None
      then snd (evhttp_add_header malloc hs ''Content-Type'' ''text/html; charset=ISO-8859-1'') else hs)"

definition reply_close :: "allocator \<Rightarrow> evhttp_request \<Rightarrow> evkeyvalq \<Rightarrow> evkeyvalq" where
  "reply_close malloc req hs =
     (if evhttp_is_connection_close (req_flags req) (input_headers req) then
        (let hs = snd (evhttp_remove_header hs ''Connection'');
             hs = (if req_flags req AND EVHTTP_PROXY_REQUEST = 0 then snd (evhttp_add_header malloc hs ''Connection'' ''close'') else hs) in
         snd (evhttp_remove_header hs ''Proxy-Connection''))
      else hs)"

definition evhttp_make_header_response ::
    "allocator \<Rightarrow> string option \<Rightarrow> evhttp_connection \<Rightarrow> evhttp_request \<Rightarrow> (evhttp_connection \<times> evhttp_request) option" where
  "evhttp_make_header_response malloc date evcon req =
     (case response_code_line req of
        None \<Rightarrow> None
      | Some line \<Rightarrow> do {
          out \<leftarrow> uri_printf malloc (''HTTP/'' @ print_int (major req) @ ''.'' @ print_int (minor req) @ '' '' @
            print_int (response_code req) @ '' '' @ line @ [CR, LF]) (con_output evcon);
          Some (evcon\<lparr>con_output := out\<rparr>,
            req\<lparr>output_headers := reply_close malloc req (reply_content_type malloc req
              (reply_persistent_headers malloc date (evhttp_is_connection_keepalive (input_headers req)) req))\<rparr>)
        })"

fun put_headers :: "allocator \<Rightarrow> evkeyvalq \<Rightarrow> evbuffer \<Rightarrow> evbuffer option" where
  "put_headers malloc [] out = Some out"
| "put_headers malloc (h # hs) out = do {
     out \<leftarrow> uri_printf malloc (fst h @ '': '' @ snd h @ [CR, LF]) out;
     put_headers malloc hs out
   }"

definition evhttp_make_header ::
    "allocator \<Rightarrow> string option \<Rightarrow> evhttp_connection \<Rightarrow> evhttp_request \<Rightarrow> (evhttp_connection \<times> evhttp_request) option" where
  "evhttp_make_header malloc date evcon req = do {
     (evcon, req) \<leftarrow> (if req_kind req = EVHTTP_REQUEST then evhttp_make_header_request malloc evcon req
                     else evhttp_make_header_response malloc date evcon req);
     out \<leftarrow> put_headers malloc (output_headers req) (con_output evcon);
     out \<leftarrow> uri_add malloc [CR, LF] out;
     if evbuffer_get_length (output_buffer req) > 0 then do {
       (_, out, body) \<leftarrow> evbuffer_add_buffer malloc False out (output_buffer req);
       Some (evcon\<lparr>con_output := out\<rparr>, req\<lparr>output_buffer := body\<rparr>)
     }
     else Some (evcon\<lparr>con_output := out\<rparr>, req)
   }"

section \<open>Replies\<close>

definition evhttp_write_buffer :: "evhttp_connection \<Rightarrow> write_callback option \<Rightarrow> evhttp_connection" where
  "evhttp_write_buffer evcon cb = evcon\<lparr>con_cb := cb, writing := True, read_cb := False\<rparr>"

definition informational_phrases :: "string list" where
  "informational_phrases = [''Continue'', ''Switching Protocols'']"

definition success_phrases :: "string list" where
  "success_phrases = [''OK'', ''Created'', ''Accepted'', ''Non-Authoritative Information'', ''No Content'', ''Reset Content'',
     ''Partial Content'']"

definition redirection_phrases :: "string list" where
  "redirection_phrases = [''Multiple Choices'', ''Moved Permanently'', ''Found'', ''See Other'', ''Not Modified'', ''Use Proxy'',
     ''Temporary Redirect'']"

definition client_error_phrases :: "string list" where
  "client_error_phrases = [''Bad Request'', ''Unauthorized'', ''Payment Required'', ''Forbidden'', ''Not Found'',
     ''Method Not Allowed'', ''Not Acceptable'', ''Proxy Authentication Required'', ''Request Time-out'', ''Conflict'', ''Gone'',
     ''Length Required'', ''Precondition Failed'', ''Request Entity Too Large'', ''Request-URI Too Large'',
     ''Unsupported Media Type'', ''Requested range not satisfiable'', ''Expectation Failed'']"

definition server_error_phrases :: "string list" where
  "server_error_phrases = [''Internal Server Error'', ''Not Implemented'', ''Bad Gateway'', ''Service Unavailable'',
     ''Gateway Time-out'', ''HTTP Version not supported'']"

definition response_classes :: "(string \<times> string list) list" where
  "response_classes = [(''Informational'', informational_phrases), (''Success'', success_phrases),
     (''Redirection'', redirection_phrases), (''Client Error'', client_error_phrases), (''Server Error'', server_error_phrases)]"

text \<open>For codes below 100 the quotient of the code, rounded either way, makes the class negative.\<close>

definition evhttp_response_phrase_internal :: "int \<Rightarrow> string" where
  "evhttp_response_phrase_internal code =
     (let klass = code div 100 - 1; subcode = code mod 100 in
      if klass < 0 \<or> klass \<ge> int (length response_classes) then ''Unknown Status Class''
      else case response_classes ! nat klass of (name, responses) \<Rightarrow>
        if subcode \<ge> int (length responses) then name else responses ! nat subcode)"

text \<open>The table has no entry for 306, so that a code above it gets the phrase of the next one.\<close>

lemma phrase_of_307:
  "evhttp_response_phrase_internal 306 = ''Temporary Redirect''" "evhttp_response_phrase_internal 307 = ''Redirection''"
  by (simp_all add: evhttp_response_phrase_internal_def response_classes_def redirection_phrases_def Let_def)

definition evhttp_response_code :: "allocator \<Rightarrow> evhttp_request \<Rightarrow> int \<Rightarrow> string option \<Rightarrow> evhttp_request" where
  "evhttp_response_code malloc req code reason =
     (let r = (case reason of None \<Rightarrow> evhttp_response_phrase_internal code | Some r \<Rightarrow> r) in
      req\<lparr>req_kind := EVHTTP_RESPONSE, response_code := code, response_code_line := mm_strdup malloc r\<rparr>)"

text \<open>A request without a connection is freed when its answer is sent.\<close>

datatype sent = Freed | Sent evhttp_connection evhttp_request

definition evhttp_send ::
    "allocator \<Rightarrow> string option \<Rightarrow> evhttp_connection option \<Rightarrow> evhttp_request \<Rightarrow> evbuffer option \<Rightarrow> (sent \<times> evbuffer option) option"
where
  "evhttp_send malloc date con req databuf =
     (case con of
        None \<Rightarrow> Some (Freed, databuf)
      | Some evcon \<Rightarrow> do {
          (req, databuf) \<leftarrow> (case databuf of
             None \<Rightarrow> Some (req\<lparr>userdone := True\<rparr>, None)
           | Some d \<Rightarrow> do {
               (_, out, d) \<leftarrow> evbuffer_add_buffer malloc False (output_buffer req) d;
               Some (req\<lparr>userdone := True, output_buffer := out\<rparr>, Some d)
             });
          (evcon, req) \<leftarrow> evhttp_make_header malloc date evcon req;
          Some (Sent (evhttp_write_buffer evcon (Some Evhttp_send_done)) req, databuf)
        })"

definition evhttp_send_reply ::
    "allocator \<Rightarrow> string option \<Rightarrow> evhttp_connection option \<Rightarrow> evhttp_request \<Rightarrow> int \<Rightarrow> string option \<Rightarrow> evbuffer option \<Rightarrow>
     (sent \<times> evbuffer option) option" where
  "evhttp_send_reply malloc date con req code reason databuf =
     evhttp_send malloc date con (evhttp_response_code malloc req code reason) databuf"

definition evhttp_send_page ::
    "allocator \<Rightarrow> string option \<Rightarrow> evhttp_connection option \<Rightarrow> evhttp_request \<Rightarrow> evbuffer option \<Rightarrow> (sent \<times> evbuffer option) option"
where
  "evhttp_send_page malloc date con req databuf =
     (let req = (if major req = 0 \<or> minor req = 0 then req\<lparr>major := 1, minor := 1\<rparr> else req);
          req = (if req_kind req \<noteq> EVHTTP_RESPONSE then evhttp_response_code malloc req 200 (Some ''OK'') else req);
          hs = evhttp_clear_headers (output_headers req);
          hs = snd (evhttp_add_header malloc hs ''Content-Type'' ''text/html'');
          hs = snd (evhttp_add_header malloc hs ''Connection'' ''close'') in
      evhttp_send malloc date con (req\<lparr>output_headers := hs\<rparr>) databuf)"

text \<open>An error page. Without memory for the buffer the connection is freed.\<close>

definition error_page :: "int \<Rightarrow> string \<Rightarrow> string" where
  "error_page code reason =
     ''<HTML><HEAD>'' @ [LF] @ ''<TITLE>'' @ print_int code @ '' '' @ reason @ ''</TITLE>'' @ [LF] @ ''</HEAD><BODY>'' @ [LF] @
     ''<H1>'' @ reason @ ''</H1>'' @ [LF] @ ''</BODY></HTML>'' @ [LF]"

definition evhttp_send_error ::
    "allocator \<Rightarrow> string option \<Rightarrow> evhttp_connection option \<Rightarrow> evhttp_request \<Rightarrow> int \<Rightarrow> string option \<Rightarrow> sent option" where
  "evhttp_send_error malloc date con req err reason =
     (case malloc sizeof_evbuffer of
        None \<Rightarrow> Some Freed
      | Some _ \<Rightarrow>
          (let r = (case reason of None \<Rightarrow> evhttp_response_phrase_internal err | Some r \<Rightarrow> r) in do {
             buf \<leftarrow> uri_printf malloc (error_page err r) evbuffer_new;
             (result, _) \<leftarrow> evhttp_send_page malloc date con (evhttp_response_code malloc req err (Some r)) (Some buf);
             Some result
           }))"

definition evhttp_send_reply_start ::
    "allocator \<Rightarrow> string option \<Rightarrow> evhttp_connection \<Rightarrow> evhttp_request \<Rightarrow> int \<Rightarrow> string option \<Rightarrow>
     (evhttp_connection \<times> evhttp_request) option" where
  "evhttp_send_reply_start malloc date evcon req code reason =
     (let req = evhttp_response_code malloc req code reason;
          req = (if evhttp_find_header (output_headers req) ''Content-Length'' = None \<and> REQ_VERSION_ATLEAST req 1 1 \<and>
                    evhttp_response_needs_body req
                 then req\<lparr>output_headers := snd (evhttp_add_header malloc (output_headers req) ''Transfer-Encoding'' ''chunked''),
                        chunked := True\<rparr>
                 else req\<lparr>chunked := False\<rparr>) in do {
        (evcon, req) \<leftarrow> evhttp_make_header malloc date evcon req;
        Some (evhttp_write_buffer evcon None, req)
      })"

text \<open>The size of a chunk is printed as an \<open>unsigned\<close>.\<close>

definition evhttp_send_reply_chunk ::
    "allocator \<Rightarrow> evhttp_connection option \<Rightarrow> evhttp_request \<Rightarrow> evbuffer \<Rightarrow> (evhttp_connection option \<times> evbuffer) option" where
  "evhttp_send_reply_chunk malloc con req databuf =
     (case con of
        None \<Rightarrow> Some (None, databuf)
      | Some evcon \<Rightarrow>
          if evbuffer_get_length databuf = 0 \<or> \<not> evhttp_response_needs_body req then Some (Some evcon, databuf)
          else do {
            out \<leftarrow> (if chunked req
                   then uri_printf malloc (print_nat 16 (evbuffer_get_length databuf mod 2 ^ 32) @ [CR, LF]) (con_output evcon)
                   else Some (con_output evcon));
            (_, out, databuf) \<leftarrow> evbuffer_add_buffer malloc False out databuf;
            out \<leftarrow> (if chunked req then uri_add malloc [CR, LF] out else Some out);
            Some (Some (evhttp_write_buffer (evcon\<lparr>con_output := out\<rparr>) None), databuf)
          })"

text \<open>The end of a reply; the result says whether \<open>evhttp_send_done\<close> is called at once.\<close>

definition evhttp_send_reply_end ::
    "allocator \<Rightarrow> evhttp_connection option \<Rightarrow> evhttp_request \<Rightarrow> (bool \<times> sent) option" where
  "evhttp_send_reply_end malloc con req =
     (case con of
        None \<Rightarrow> Some (False, Freed)
      | Some evcon \<Rightarrow>
          (let req = req\<lparr>userdone := True\<rparr> in
           if chunked req then do {
             out \<leftarrow> uri_add malloc (''0'' @ [CR, LF, CR, LF]) (con_output evcon);
             Some (False, Sent (evhttp_write_buffer (evcon\<lparr>con_output := out\<rparr>) (Some Evhttp_send_done)) (req\<lparr>chunked := False\<rparr>))
           }
           else if evbuffer_get_length (con_output evcon) = 0 then Some (True, Sent evcon req)
           else Some (False, Sent (evcon\<lparr>con_cb := Some Evhttp_send_done\<rparr>) req)))"

section \<open>Reading the first line\<close>

text \<open>The C string at the beginning of a line.\<close>

definition c_line :: "byte list \<Rightarrow> string" where
  "c_line bs = takeWhile (\<lambda>c. c \<noteq> NUL) (of_bytes bs)"

text \<open>The format \<^verbatim>\<open>HTTP/%d.%d%c\<close> when exactly two values are stored.\<close>

definition sscanf_version :: "string \<Rightarrow> (int \<times> int) option" where
  "sscanf_version s =
     (if take 5 s \<noteq> ''HTTP/'' then None
      else case scan_int (drop 5 s) of
        None \<Rightarrow> None
      | Some (a, r) \<Rightarrow>
          if char_at r 0 \<noteq> CHR ''.'' then None
          else (case scan_int (tl r) of None \<Rightarrow> None | Some (b, r) \<Rightarrow> if r = [] then Some (a, b) else None))"

definition to_char :: "int \<Rightarrow> int" where "to_char v = signed_take_bit 7 v"

definition evhttp_parse_http_version :: "string \<Rightarrow> evhttp_request \<Rightarrow> int \<times> evhttp_request" where
  "evhttp_parse_http_version version req =
     (case sscanf_version version of
        None \<Rightarrow> (- 1, req)
      | Some (a, b) \<Rightarrow> if a > 1 then (- 1, req) else (0, req\<lparr>major := to_char a, minor := to_char b\<rparr>))"

definition evhttp_valid_response_code :: "int \<Rightarrow> bool" where
  "evhttp_valid_response_code code \<longleftrightarrow> code \<noteq> 0"

definition evhttp_parse_response_line :: "allocator \<Rightarrow> evhttp_request \<Rightarrow> string \<Rightarrow> int \<times> evhttp_request" where
  "evhttp_parse_response_line malloc req line =
     (case strsep line CHR '' '' of
        (protocol, None) \<Rightarrow> (- 1, req)
      | (protocol, Some line) \<Rightarrow>
          (let (number, rest) = strsep line CHR '' '';
               readable = (case rest of None \<Rightarrow> [] | Some l \<Rightarrow> l);
               (r, req) = evhttp_parse_http_version protocol req in
           if r < 0 then (- 1, req)
           else let req = req\<lparr>response_code := atoi number\<rparr> in
             if \<not> evhttp_valid_response_code (response_code req) then (- 1, req)
             else case mm_strdup malloc readable of
               None \<Rightarrow> (- 1, req\<lparr>response_code_line := None\<rparr>)
             | Some l \<Rightarrow> (0, req\<lparr>response_code_line := Some l\<rparr>)))"

definition method_type :: "string \<Rightarrow> u32" where
  "method_type m =
     (if m = ''GET'' then EVHTTP_REQ_GET else if m = ''POST'' then EVHTTP_REQ_POST else if m = ''HEAD'' then EVHTTP_REQ_HEAD
      else if m = ''PUT'' then EVHTTP_REQ_PUT else if m = ''DELETE'' then EVHTTP_REQ_DELETE
      else if m = ''OPTIONS'' then EVHTTP_REQ_OPTIONS else if m = ''TRACE'' then EVHTTP_REQ_TRACE
      else if m = ''PATCH'' then EVHTTP_REQ_PATCH else EVHTTP_REQ_UNKNOWN)"

text \<open>Whether a request is one to a proxy: it names a host that the server does not know.\<close>

definition proxy_request :: "evhttp_connection option \<Rightarrow> evhttp_uri \<Rightarrow> bool option" where
  "proxy_request con u =
     (case (scheme u, host u) of
        (Some s, Some h) \<Rightarrow>
          if evutil_ascii_strcasecmp s ''http'' = 0 \<or> evutil_ascii_strcasecmp s ''https'' = 0
          then (case con of
                  None \<Rightarrow> None
                | Some evcon \<Rightarrow> (case http_server evcon of None \<Rightarrow> None | Some http \<Rightarrow> Some (\<not> fst (evhttp_find_vhost http h))))
          else Some False
      | _ \<Rightarrow> Some False)"

definition evhttp_parse_request_line ::
    "allocator \<Rightarrow> u16 list \<Rightarrow> evhttp_connection option \<Rightarrow> evhttp_request \<Rightarrow> string \<Rightarrow> (int \<times> evhttp_request) option" where
  "evhttp_parse_request_line malloc words0 con req line =
     (case strsep line CHR '' '' of
        (m, None) \<Rightarrow> Some (- 1, req)
      | (m, Some line) \<Rightarrow>
          (case strsep line CHR '' '' of
             (uri, None) \<Rightarrow> Some (- 1, req)
           | (uri, Some line) \<Rightarrow>
               (case strsep line CHR '' '' of
                  (version, Some _) \<Rightarrow> Some (- 1, req)
                | (version, None) \<Rightarrow>
                    (let (r, req) = evhttp_parse_http_version version (req\<lparr>req_type := method_type m\<rparr>) in
                     if r < 0 then Some (- 1, req)
                     else case mm_strdup malloc uri of
                       None \<Rightarrow> Some (- 1, req\<lparr>req_uri := None\<rparr>)
                     | Some u \<Rightarrow>
                         (let req = req\<lparr>req_uri := Some u\<rparr> in
                          case evhttp_uri_parse_with_flags malloc words0 u EVHTTP_URI_NONCONFORMANT of
                            None \<Rightarrow> Some (- 1, req\<lparr>uri_elems := None\<rparr>)
                          | Some elems \<Rightarrow>
                              map_option (\<lambda>proxy. (0, if proxy
                                  then req\<lparr>uri_elems := Some elems, req_flags := req_flags req OR EVHTTP_PROXY_REQUEST\<rparr>
                                  else req\<lparr>uri_elems := Some elems\<rparr>)) (proxy_request con elems))))))"

text \<open>A size that is above the limit of the connection, if there is one.\<close>

definition headers_too_long :: "evhttp_connection option \<Rightarrow> nat \<Rightarrow> bool" where
  "headers_too_long con n = (case con of None \<Rightarrow> False | Some evcon \<Rightarrow> n > max_headers_size evcon)"

definition evhttp_parse_firstline ::
    "allocator \<Rightarrow> u16 list \<Rightarrow> evhttp_connection option \<Rightarrow> evhttp_request \<Rightarrow> evbuffer \<Rightarrow>
     (message_read_status \<times> evhttp_request \<times> evbuffer) option" where
  "evhttp_parse_firstline malloc words0 con req buffer = do {
     (line, line_length, buffer) \<leftarrow> evbuffer_readln malloc buffer EVBUFFER_EOL_CRLF;
     case line of
       None \<Rightarrow> Some (if headers_too_long con (evbuffer_get_length buffer) then DATA_TOO_LONG else MORE_DATA_EXPECTED, req, buffer)
     | Some bs \<Rightarrow>
         if headers_too_long con line_length then Some (DATA_TOO_LONG, req, buffer)
         else do {
           (r, req) \<leftarrow> (case req_kind req of
              EVHTTP_REQUEST \<Rightarrow> evhttp_parse_request_line malloc words0 con (req\<lparr>headers_size := line_length\<rparr>) (c_line bs)
            | EVHTTP_RESPONSE \<Rightarrow> Some (evhttp_parse_response_line malloc (req\<lparr>headers_size := line_length\<rparr>) (c_line bs)));
           Some (if r = - 1 then DATA_CORRUPTED else ALL_DATA_READ, req, buffer)
         }
   }"

section \<open>Reading the headers\<close>

definition evhttp_append_to_last_header :: "allocator \<Rightarrow> evkeyvalq \<Rightarrow> string \<Rightarrow> int \<times> evkeyvalq" where
  "evhttp_append_to_last_header malloc headers line =
     (if headers = [] then (- 1, headers)
      else case last headers of (k, v) \<Rightarrow>
        (case malloc (length v + length line + 1) of
           None \<Rightarrow> (- 1, headers)
         | Some _ \<Rightarrow> (0, butlast headers @ [(k, v @ line)])))"

text \<open>One line that is not empty: a continuation of the last header or a header.\<close>

definition header_line :: "allocator \<Rightarrow> evkeyvalq \<Rightarrow> string \<Rightarrow> int \<times> evkeyvalq" where
  "header_line malloc headers line =
     (if char_at line 0 = CHR '' '' \<or> char_at line 0 = TAB then evhttp_append_to_last_header malloc headers line
      else case strsep line CHR '':'' of
        (skey, None) \<Rightarrow> (- 1, headers)
      | (skey, Some svalue) \<Rightarrow> evhttp_add_header malloc headers skey (dropWhile (\<lambda>c. c = CHR '' '') svalue))"

partial_function (option) parse_headers_loop ::
    "allocator \<Rightarrow> evhttp_connection option \<Rightarrow> evhttp_request \<Rightarrow> evbuffer \<Rightarrow> (message_read_status \<times> evhttp_request \<times> evbuffer) option"
where
  "parse_headers_loop malloc con req buffer = do {
     (line, line_length, buffer) \<leftarrow> evbuffer_readln malloc buffer EVBUFFER_EOL_CRLF;
     case line of
       None \<Rightarrow> Some (MORE_DATA_EXPECTED, req, buffer)
     | Some bs \<Rightarrow>
         (let req = req\<lparr>headers_size := (headers_size req + line_length) mod 2 ^ 64\<rparr> in
          if headers_too_long con (headers_size req) then Some (DATA_TOO_LONG, req, buffer)
          else if c_line bs = [] then Some (ALL_DATA_READ, req, buffer)
          else case header_line malloc (input_headers req) (c_line bs) of
            (r, hs) \<Rightarrow>
              if r = - 1 then Some (DATA_CORRUPTED, req\<lparr>input_headers := hs\<rparr>, buffer)
              else parse_headers_loop malloc con (req\<lparr>input_headers := hs\<rparr>) buffer)
   }"

definition evhttp_parse_headers ::
    "allocator \<Rightarrow> evhttp_connection option \<Rightarrow> evhttp_request \<Rightarrow> evbuffer \<Rightarrow> (message_read_status \<times> evhttp_request \<times> evbuffer) option"
where
  "evhttp_parse_headers malloc con req buffer = do {
     (status, req, buffer) \<leftarrow> parse_headers_loop malloc con req buffer;
     Some (if status = MORE_DATA_EXPECTED \<and> headers_too_long con ((headers_size req + evbuffer_get_length buffer) mod 2 ^ 64)
           then DATA_TOO_LONG else status, req, buffer)
   }"

section \<open>Reading the body\<close>

text \<open>\<open>strtoll\<close> in base 10; without a digit it reads nothing.\<close>

definition strtoll10 :: "string \<Rightarrow> int \<times> string" where
  "strtoll10 s = (case strtol10 s of None \<Rightarrow> (0, s) | Some r \<Rightarrow> r)"

definition evhttp_get_body_length :: "evhttp_request \<Rightarrow> int \<times> evhttp_request" where
  "evhttp_get_body_length req =
     (let content_length = evhttp_find_header (input_headers req) ''Content-Length'';
          connection = evhttp_find_header (input_headers req) ''Connection'' in
      case content_length of
        None \<Rightarrow>
          (case connection of
             None \<Rightarrow> (0, req\<lparr>ntoread := - 1\<rparr>)
           | Some c \<Rightarrow> if evutil_ascii_strcasecmp c ''Close'' \<noteq> 0 then (- 1, req) else (0, req\<lparr>ntoread := - 1\<rparr>))
      | Some l \<Rightarrow>
          (case strtoll10 l of (n, endp) \<Rightarrow>
             if l = [] \<or> endp \<noteq> [] \<or> n < 0 then (- 1, req) else (0, req\<lparr>ntoread := n\<rparr>)))"

definition evhttp_method_may_have_body :: "u32 \<Rightarrow> bool" where
  "evhttp_method_may_have_body type \<longleftrightarrow> type = EVHTTP_REQ_POST \<or> type = EVHTTP_REQ_PUT \<or> type = EVHTTP_REQ_PATCH"

text \<open>The number at the beginning of a line before a chunk.\<close>

definition chunk_size :: "string \<Rightarrow> int option" where
  "chunk_size p =
     (case strtol16 p of (n, endp) \<Rightarrow>
        if p = [] \<or> (endp \<noteq> [] \<and> hd endp \<noteq> CHR '' '') \<or> n < 0 then None else Some n)"

text \<open>
  The callback for chunks of the user is a function on the request; it may call \<open>evhttp_cancel_request\<close>, which sets
  the flag \<open>EVHTTP_REQ_NEEDS_FREE\<close>. What is in the input buffer after it is thrown away.
\<close>

definition call_chunk_cb :: "(evhttp_request \<Rightarrow> evhttp_request) \<Rightarrow> evhttp_request \<Rightarrow> evhttp_request option" where
  "call_chunk_cb cb req = do {
     let req = cb (req\<lparr>req_flags := req_flags req OR EVHTTP_REQ_DEFER_FREE\<rparr>);
     (_, inp) \<leftarrow> evbuffer_drain (input_buffer req) (evbuffer_get_length (input_buffer req));
     Some (req\<lparr>input_buffer := inp, req_flags := req_flags req AND NOT EVHTTP_REQ_DEFER_FREE\<rparr>)
   }"

partial_function (option) evhttp_handle_chunked_read ::
    "allocator \<Rightarrow> evhttp_connection \<Rightarrow> (evhttp_request \<Rightarrow> evhttp_request) option \<Rightarrow> evhttp_request \<Rightarrow> evbuffer \<Rightarrow>
     (message_read_status \<times> evhttp_request \<times> evbuffer) option" where
  "evhttp_handle_chunked_read malloc evcon chunk_cb req buf =
     (let buflen = evbuffer_get_length buf in
      if buflen = 0 then Some (MORE_DATA_EXPECTED, req, buf)
      else if buflen > EV_SSIZE_MAX then Some (DATA_CORRUPTED, req, buf)
      else if ntoread req < 0 then do {
        (p, _, buf) \<leftarrow> evbuffer_readln malloc buf EVBUFFER_EOL_CRLF;
        case p of
          None \<Rightarrow> Some (MORE_DATA_EXPECTED, req, buf)
        | Some bs \<Rightarrow>
            if c_line bs = [] then evhttp_handle_chunked_read malloc evcon chunk_cb req buf
            else (case chunk_size (c_line bs) of
              None \<Rightarrow> Some (DATA_CORRUPTED, req, buf)
            | Some n \<Rightarrow>
                if nat n > EV_SIZE_MAX - body_size req then Some (DATA_CORRUPTED, req, buf)
                else if body_size req + nat n > max_body_size evcon then Some (DATA_TOO_LONG, req, buf)
                else (let req = req\<lparr>body_size := body_size req + nat n, ntoread := n\<rparr> in
                      if n = 0 then Some (ALL_DATA_READ, req, buf)
                      else evhttp_handle_chunked_read malloc evcon chunk_cb req buf))
      }
      else if ntoread req > int EV_SSIZE_MAX then Some (DATA_CORRUPTED, req, buf)
      else if ntoread req > 0 \<and> int buflen < ntoread req then Some (MORE_DATA_EXPECTED, req, buf)
      else do {
        (_, buf, inp) \<leftarrow> evbuffer_remove_buffer malloc False buf (input_buffer req) (nat (ntoread req));
        (let req = req\<lparr>input_buffer := inp, ntoread := - 1\<rparr> in
         case chunk_cb of
           None \<Rightarrow> evhttp_handle_chunked_read malloc evcon chunk_cb req buf
         | Some cb \<Rightarrow> do {
             req \<leftarrow> call_chunk_cb cb req;
             if req_flags req AND EVHTTP_REQ_NEEDS_FREE \<noteq> 0 then Some (REQUEST_CANCELED, req, buf)
             else evhttp_handle_chunked_read malloc evcon chunk_cb req buf
           })
      })"

section \<open>The states of reading\<close>

text \<open>
  How a handler ends: it waits for more data, the request is complete (\<open>evhttp_connection_done\<close>), the connection
  fails, the request was freed, an error page is sent, reading starts again, or the connection is reset.
\<close>

datatype read_outcome =
  Waiting | Request_done | Connection_failed evhttp_connection_error | Request_freed | Error_sent int | Read_again | Connection_reset

type_synonym read_result = "(read_outcome \<times> evhttp_connection \<times> evhttp_request) option"

definition evhttp_read_trailer :: "allocator \<Rightarrow> evhttp_connection \<Rightarrow> evhttp_request \<Rightarrow> read_result" where
  "evhttp_read_trailer malloc evcon req = do {
     (status, req, buf) \<leftarrow> evhttp_parse_headers malloc (Some evcon) req (con_input evcon);
     let evcon = evcon\<lparr>con_input := buf\<rparr>;
     Some (case status of
       DATA_CORRUPTED \<Rightarrow> (Connection_failed EVCON_HTTP_INVALID_HEADER, evcon, req)
     | DATA_TOO_LONG \<Rightarrow> (Connection_failed EVCON_HTTP_INVALID_HEADER, evcon, req)
     | ALL_DATA_READ \<Rightarrow> (Request_done, evcon\<lparr>reading := False\<rparr>, req)
     | _ \<Rightarrow> (Waiting, evcon\<lparr>reading := True\<rparr>, req))
   }"

text \<open>The end of \<open>evhttp_read_body\<close>: the limit, the callback for chunks, and whether the body is complete.\<close>

definition read_body_end ::
    "(evhttp_request \<Rightarrow> evhttp_request) option \<Rightarrow> evhttp_connection \<Rightarrow> evhttp_request \<Rightarrow> read_result" where
  "read_body_end chunk_cb evcon req =
     (if body_size req > max_body_size evcon \<or>
         (\<not> chunked req \<and> ntoread req \<ge> 0 \<and> nat (ntoread req) > max_body_size evcon)
      then Some (Connection_failed EVCON_HTTP_INVALID_HEADER, evcon, req)
      else let finish = (\<lambda>req. if ntoread req = 0 then (Request_done, evcon\<lparr>reading := False\<rparr>, req)
                                 else (Waiting, evcon\<lparr>reading := True\<rparr>, req)) in
        case (evbuffer_get_length (input_buffer req) > 0, chunk_cb) of
          (True, Some cb) \<Rightarrow> do {
            req \<leftarrow> call_chunk_cb cb req;
            Some (if req_flags req AND EVHTTP_REQ_NEEDS_FREE \<noteq> 0 then (Request_freed, evcon, req) else finish req)
          }
        | _ \<Rightarrow> Some (finish req))"

definition evhttp_read_body ::
    "allocator \<Rightarrow> (evhttp_request \<Rightarrow> evhttp_request) option \<Rightarrow> evhttp_connection \<Rightarrow> evhttp_request \<Rightarrow> read_result" where
  "evhttp_read_body malloc chunk_cb evcon req =
     (let buf = con_input evcon; buflen = evbuffer_get_length buf in
      if chunked req then do {
        (status, req, buf) \<leftarrow> evhttp_handle_chunked_read malloc evcon chunk_cb req buf;
        let evcon = evcon\<lparr>con_input := buf\<rparr>;
        case status of
          ALL_DATA_READ \<Rightarrow> evhttp_read_trailer malloc (evcon\<lparr>con_state := EVCON_READING_TRAILER\<rparr>) req
        | DATA_CORRUPTED \<Rightarrow> Some (Connection_failed EVCON_HTTP_INVALID_HEADER, evcon, req)
        | DATA_TOO_LONG \<Rightarrow> Some (Connection_failed EVCON_HTTP_INVALID_HEADER, evcon, req)
        | REQUEST_CANCELED \<Rightarrow> Some (Request_freed, evcon, req)
        | MORE_DATA_EXPECTED \<Rightarrow> read_body_end chunk_cb evcon req
      }
      else if ntoread req < 0 then
        (if body_size req + buflen > EV_SIZE_MAX then Some (Connection_failed EVCON_HTTP_INVALID_HEADER, evcon, req)
         else do {
           (_, inp, buf) \<leftarrow> evbuffer_add_buffer malloc False (input_buffer req) buf;
           read_body_end chunk_cb (evcon\<lparr>con_input := buf\<rparr>) (req\<lparr>body_size := body_size req + buflen, input_buffer := inp\<rparr>)
         })
      else if chunk_cb \<noteq> None \<or> buflen \<ge> nat (ntoread req) then
        (let n = min buflen (nat (ntoread req)) in do {
           (_, buf, inp) \<leftarrow> evbuffer_remove_buffer malloc False buf (input_buffer req) n;
           read_body_end chunk_cb (evcon\<lparr>con_input := buf\<rparr>)
             (req\<lparr>ntoread := ntoread req - int n, body_size := (body_size req + n) mod 2 ^ 64, input_buffer := inp\<rparr>)
         })
      else read_body_end chunk_cb evcon req)"

definition HTTP_ENTITYTOOLARGE :: int where "HTTP_ENTITYTOOLARGE = 413"
definition HTTP_EXPECTATIONFAILED :: int where "HTTP_EXPECTATIONFAILED = 417"

definition evhttp_send_continue ::
    "allocator \<Rightarrow> evhttp_connection \<Rightarrow> evhttp_request \<Rightarrow> evhttp_connection option" where
  "evhttp_send_continue malloc evcon req = do {
     out \<leftarrow> uri_printf malloc (''HTTP/'' @ print_int (major req) @ ''.'' @ print_int (minor req) @ '' 100 Continue'' @ [CR, LF, CR, LF])
       (con_output evcon);
     Some (evcon\<lparr>con_output := out, writing := True, con_cb := Some Evhttp_send_continue_done, read_cb := True\<rparr>)
   }"

text \<open>What the client expects before it sends the body: the outcome if an error is sent instead.\<close>

definition expect_step ::
    "allocator \<Rightarrow> evhttp_connection \<Rightarrow> evhttp_request \<Rightarrow> (read_outcome option \<times> evhttp_connection) option" where
  "expect_step malloc evcon req =
     (if req_kind req = EVHTTP_REQUEST \<and> REQ_VERSION_ATLEAST req 1 1 then
        (case evhttp_find_header (input_headers req) ''Expect'' of
           None \<Rightarrow> Some (None, evcon)
         | Some expect \<Rightarrow>
             if evutil_ascii_strcasecmp expect ''100-continue'' \<noteq> 0 then Some (Some (Error_sent HTTP_EXPECTATIONFAILED), evcon)
             else if ntoread req > 0 \<and> max_body_size evcon \<le> EV_SSIZE_MAX \<and> nat (ntoread req) > max_body_size evcon
             then Some (Some (Error_sent HTTP_ENTITYTOOLARGE), evcon)
             else if evbuffer_get_length (con_input evcon) = 0
             then map_option (\<lambda>c. (None, c)) (evhttp_send_continue malloc evcon req)
             else Some (None, evcon))
      else Some (None, evcon))"

definition evhttp_get_body ::
    "allocator \<Rightarrow> (evhttp_request \<Rightarrow> evhttp_request) option \<Rightarrow> evhttp_connection \<Rightarrow> evhttp_request \<Rightarrow> read_result" where
  "evhttp_get_body malloc chunk_cb evcon req =
     (if req_kind req = EVHTTP_REQUEST \<and> \<not> evhttp_method_may_have_body (req_type req) then Some (Request_done, evcon, req)
      else let evcon = evcon\<lparr>con_state := EVCON_READING_BODY\<rparr>;
               is_chunked = (case evhttp_find_header (input_headers req) ''Transfer-Encoding'' of
                 None \<Rightarrow> False | Some e \<Rightarrow> evutil_ascii_strcasecmp e ''chunked'' = 0);
               (r, req) = (if is_chunked then (0, req\<lparr>chunked := True, ntoread := - 1\<rparr>) else evhttp_get_body_length req) in
        if r = - 1 then Some (Connection_failed EVCON_HTTP_INVALID_HEADER, evcon, req)
        else if \<not> is_chunked \<and> req_kind req = EVHTTP_REQUEST \<and> ntoread req < 1 then Some (Request_done, evcon, req)
        else do {
          (stop, evcon) \<leftarrow> expect_step malloc evcon req;
          case stop of Some out \<Rightarrow> Some (out, evcon, req) | None \<Rightarrow> evhttp_read_body malloc chunk_cb evcon req
        })"

definition evhttp_start_read :: "evhttp_connection \<Rightarrow> evhttp_connection" where
  "evhttp_start_read evcon =
     evcon\<lparr>writing := False, reading := True, con_state := EVCON_READING_FIRSTLINE, read_cb := True,
       read_more := (read_more evcon \<or> evbuffer_get_length (con_input evcon) > 0)\<rparr>"

definition evhttp_read_header ::
    "allocator \<Rightarrow> (evhttp_request \<Rightarrow> evhttp_request) option \<Rightarrow> evhttp_connection \<Rightarrow> evhttp_request \<Rightarrow> read_result" where
  "evhttp_read_header malloc chunk_cb evcon req = do {
     (res, req, buf) \<leftarrow> evhttp_parse_headers malloc (Some evcon) req (con_input evcon);
     let evcon = evcon\<lparr>con_input := buf\<rparr>;
     if res = DATA_CORRUPTED \<or> res = DATA_TOO_LONG then Some (Connection_failed EVCON_HTTP_INVALID_HEADER, evcon, req)
     else if res = MORE_DATA_EXPECTED then Some (Waiting, evcon, req)
     else (let evcon = evcon\<lparr>reading := False\<rparr> in
       case req_kind req of
         EVHTTP_REQUEST \<Rightarrow> evhttp_get_body malloc chunk_cb evcon req
       | EVHTTP_RESPONSE \<Rightarrow>
           if response_code req = 100 then Some (Read_again, evhttp_start_read evcon, req)
           else if \<not> evhttp_response_needs_body req then Some (Request_done, evcon, req)
           else evhttp_get_body malloc chunk_cb evcon req)
   }"

definition evhttp_read_firstline ::
    "allocator \<Rightarrow> u16 list \<Rightarrow> (evhttp_request \<Rightarrow> evhttp_request) option \<Rightarrow> evhttp_connection \<Rightarrow> evhttp_request \<Rightarrow> read_result" where
  "evhttp_read_firstline malloc words0 chunk_cb evcon req = do {
     (res, req, buf) \<leftarrow> evhttp_parse_firstline malloc words0 (Some evcon) req (con_input evcon);
     let evcon = evcon\<lparr>con_input := buf\<rparr>;
     if res = DATA_CORRUPTED \<or> res = DATA_TOO_LONG then Some (Connection_failed EVCON_HTTP_INVALID_HEADER, evcon, req)
     else if res = MORE_DATA_EXPECTED then Some (Waiting, evcon, req)
     else evhttp_read_header malloc chunk_cb (evcon\<lparr>con_state := EVCON_READING_HEADERS\<rparr>) req
   }"

text \<open>A reset also closes the descriptor.\<close>

definition evhttp_connection_reset :: "evhttp_connection \<Rightarrow> evhttp_connection option" where
  "evhttp_connection_reset evcon = do {
     (_, out) \<leftarrow> evbuffer_drain (con_output evcon) (evbuffer_get_length (con_output evcon));
     (_, inp) \<leftarrow> evbuffer_drain (con_input evcon) (evbuffer_get_length (con_input evcon));
     Some (evcon\<lparr>con_output := out, con_input := inp, reading := False, writing := False, con_state := EVCON_DISCONNECTED\<rparr>)
   }"

definition evhttp_read_cb ::
    "allocator \<Rightarrow> u16 list \<Rightarrow> (evhttp_request \<Rightarrow> evhttp_request) option \<Rightarrow> evhttp_connection \<Rightarrow> evhttp_request \<Rightarrow> read_result" where
  "evhttp_read_cb malloc words0 chunk_cb evcon req =
     (let evcon = evcon\<lparr>read_more := False\<rparr> in
      case con_state evcon of
        EVCON_READING_FIRSTLINE \<Rightarrow> evhttp_read_firstline malloc words0 chunk_cb evcon req
      | EVCON_READING_HEADERS \<Rightarrow> evhttp_read_header malloc chunk_cb evcon req
      | EVCON_READING_BODY \<Rightarrow> evhttp_read_body malloc chunk_cb evcon req
      | EVCON_READING_TRAILER \<Rightarrow> evhttp_read_trailer malloc evcon req
      | EVCON_IDLE \<Rightarrow> map_option (\<lambda>c. (Connection_reset, c, req)) (evhttp_connection_reset evcon)
      | _ \<Rightarrow> None)"

end
