(* ===== verification/Http_Chunked.thy ===== *)
theory Http_Chunked
  imports Http_Message
begin

text \<open>
  Reading does not depend on how the bytes arrive: what it means for a reader of a stream to be incremental, the chunked
  body as a function on lists of bytes, that \<open>evhttp_handle_chunked_read\<close> computes it, and that the chunks that a server
  writes are read by a client however they are split.
\<close>

section \<open>Readers of a stream\<close>

text \<open>
  A reader takes a state and the bytes that are there, and gives a status, the new state and the bytes that are left. It
  is incremental when it goes on where it stopped for lack of data, and does not look behind the data of a result.
\<close>

locale incremental =
  fixes run :: "'s \<Rightarrow> byte list \<Rightarrow> 'r \<times> 's \<times> byte list" and again :: 'r
  assumes resume: "run s d = (again, s', r) \<Longrightarrow> run s (d @ e) = run s' (r @ e)"
    and final: "run s d = (st, s', r) \<Longrightarrow> st \<noteq> again \<Longrightarrow> run s (d @ e) = (st, s', r @ e)"

text \<open>The bytes arrive in pieces; the pieces behind a result are left.\<close>

fun feed :: "('s \<Rightarrow> byte list \<Rightarrow> 'r \<times> 's \<times> byte list) \<Rightarrow> 'r \<Rightarrow> 's \<Rightarrow> byte list \<Rightarrow> byte list list \<Rightarrow>
    'r \<times> 's \<times> byte list \<times> byte list list" where
  "feed run again s d [] = (case run s d of (st, s, r) \<Rightarrow> (st, s, r, []))"
| "feed run again s d (p # ps) =
     (case run s d of (st, s, r) \<Rightarrow> if st = again then feed run again s (r @ p) ps else (st, s, r, p # ps))"

context incremental begin

lemma feed_run: "feed run again s d ps = (st, s', r, rest) \<Longrightarrow> run s (d @ concat ps) = (st, s', r @ concat rest)"
proof (induction ps arbitrary: s d)
  case Nil
  then show ?case by (auto split: prod.splits)
next
  case (Cons p ps)
  obtain st1 s1 r1 where run: "run s d = (st1, s1, r1)" by (cases "run s d")
  show ?case
  proof (cases "st1 = again")
    case True
    then have "run s1 ((r1 @ p) @ concat ps) = (st, s', r @ concat rest)"
      using Cons.prems run by (intro Cons.IH) simp
    then show ?thesis
      using resume[of s d s1 r1 "p @ concat ps"] run True by simp
  next
    case False
    then show ?thesis
      using Cons.prems run final[OF run False] by simp
  qed
qed

lemma feed_pieces:
  assumes "concat ps = concat qs" "feed run again s [] ps = (st, s', r, rest)" "feed run again s [] qs = (st2, s2, r2, rest2)"
  shows "st2 = st \<and> s2 = s' \<and> r2 @ concat rest2 = r @ concat rest"
  using feed_run[OF assms(2)] feed_run[OF assms(3)] assms(1) by simp

end

section \<open>Lines\<close>

lemma eol_here_append:
  "2 \<le> length s \<Longrightarrow> eol_here EVBUFFER_EOL_CRLF (s @ t) = eol_here EVBUFFER_EOL_CRLF s"
  by (cases s rule: list.exhaust; cases "tl s") (auto simp: eol_here_def at_byte_def starts_with_def)

lemma eol_here_CRLF:
  "eol_here EVBUFFER_EOL_CRLF s =
     (case s of [] \<Rightarrow> None | x # xs \<Rightarrow> if x = LF_byte then Some 1 else
        case xs of [] \<Rightarrow> None | y # ys \<Rightarrow> if x = CR_byte \<and> y = LF_byte then Some 2 else None)"
  by (cases s; cases "tl s") (auto simp: eol_here_def at_byte_def starts_with_def)

lemma eol_here_append_Some:
  "eol_here EVBUFFER_EOL_CRLF s = Some l \<Longrightarrow> eol_here EVBUFFER_EOL_CRLF (s @ t) = Some l"
  by (auto simp: eol_here_CRLF split: list.splits if_splits)

lemma eol_here_length: "eol_here EVBUFFER_EOL_CRLF s = Some l \<Longrightarrow> 0 < l \<and> l \<le> length s"
  by (auto simp: eol_here_CRLF split: list.splits if_splits)

lemma line_end_append:
  assumes "line_end EVBUFFER_EOL_CRLF s = Some (i, l)"
  shows "line_end EVBUFFER_EOL_CRLF (s @ t) = Some (i, l)"
proof -
  note E = line_end_Some[OF assms]
  have "eol_here EVBUFFER_EOL_CRLF (drop i (s @ t)) = Some l"
    using eol_here_append_Some[OF E(2), of t] E(1) by simp
  moreover have "eol_here EVBUFFER_EOL_CRLF (drop j (s @ t)) = None" if "j < i" for j
    using eol_here_append[of "drop j s" t] E(1,3) that by simp
  ultimately have "first_at (is_eol EVBUFFER_EOL_CRLF) (s @ t) = Some i"
    using E(1) by (simp add: first_at_Some is_eol_def)
  then show ?thesis
    using \<open>eol_here EVBUFFER_EOL_CRLF (drop i (s @ t)) = Some l\<close> by (simp add: line_end_def)
qed

lemma line_end_length: "line_end EVBUFFER_EOL_CRLF s = Some (i, l) \<Longrightarrow> 0 < l \<and> i + l \<le> length s"
  using line_end_Some[of EVBUFFER_EOL_CRLF s i l] eol_here_length[of "drop i s" l] by (simp, linarith)

section \<open>A chunked body as a function on bytes\<close>

text \<open>The bytes that are left of the current chunk, or a negative number, the size of the body so far, and the data.\<close>

type_synonym chunk_state = "int \<times> nat \<times> byte list"

function chunk_run :: "nat \<Rightarrow> chunk_state \<Rightarrow> byte list \<Rightarrow> message_read_status \<times> chunk_state \<times> byte list" where
  "chunk_run limit (nt, sz, out) d =
     (if d = [] then (MORE_DATA_EXPECTED, (nt, sz, out), d)
      else if nt < 0 then
        (case line_end EVBUFFER_EOL_CRLF d of
           None \<Rightarrow> (MORE_DATA_EXPECTED, (nt, sz, out), d)
         | Some (i, l) \<Rightarrow>
             if c_line (take i d) = [] then chunk_run limit (nt, sz, out) (drop (i + l) d)
             else (case chunk_size (c_line (take i d)) of
               None \<Rightarrow> (DATA_CORRUPTED, (nt, sz, out), drop (i + l) d)
             | Some n \<Rightarrow>
                 if nat n > EV_SIZE_MAX - sz then (DATA_CORRUPTED, (nt, sz, out), drop (i + l) d)
                 else if sz + nat n > limit then (DATA_TOO_LONG, (nt, sz, out), drop (i + l) d)
                 else if n = 0 then (ALL_DATA_READ, (n, sz, out), drop (i + l) d)
                 else chunk_run limit (n, sz + nat n, out) (drop (i + l) d)))
      else if nt > 0 \<and> int (length d) < nt then (MORE_DATA_EXPECTED, (nt, sz, out), d)
      else chunk_run limit (- 1, sz, out @ take (nat nt) d) (drop (nat nt) d))"
  by pat_completeness auto
termination
  by (relation "measure (\<lambda>(m, (nt, sz, out), d). 2 * length d + (if nt \<ge> 0 then 1 else 0))")
    (auto dest: line_end_length)

declare chunk_run.simps [simp del]

text \<open>One pass of the loop, case by case.\<close>

lemma chunk_run_line:
  assumes "d \<noteq> []" "nt < 0" "line_end EVBUFFER_EOL_CRLF d = Some (i, l)"
  shows "chunk_run limit (nt, sz, out) d =
    (let d' = drop (i + l) d in
     if c_line (take i d) = [] then chunk_run limit (nt, sz, out) d'
     else (case chunk_size (c_line (take i d)) of
             None \<Rightarrow> (DATA_CORRUPTED, (nt, sz, out), d')
           | Some n \<Rightarrow>
               if nat n > EV_SIZE_MAX - sz then (DATA_CORRUPTED, (nt, sz, out), d')
               else if sz + nat n > limit then (DATA_TOO_LONG, (nt, sz, out), d')
               else if n = 0 then (ALL_DATA_READ, (n, sz, out), d')
               else chunk_run limit (n, sz + nat n, out) d'))"
  using assms by (subst chunk_run.simps) (simp add: Let_def)

lemma chunk_run_data:
  "d \<noteq> [] \<Longrightarrow> 0 \<le> nt \<Longrightarrow> nt \<le> int (length d) \<Longrightarrow>
   chunk_run limit (nt, sz, out) d = chunk_run limit (- 1, sz, out @ take (nat nt) d) (drop (nat nt) d)"
  by (subst chunk_run.simps) simp

lemma chunk_run_wait:
  "d = [] \<or> nt < 0 \<and> line_end EVBUFFER_EOL_CRLF d = None \<or> 0 < nt \<and> int (length d) < nt \<Longrightarrow>
   chunk_run limit (nt, sz, out) d = (MORE_DATA_EXPECTED, (nt, sz, out), d)"
  by (subst chunk_run.simps) auto

lemma chunk_run_cases:
  obtains (wait) "d = [] \<or> nt < 0 \<and> line_end EVBUFFER_EOL_CRLF d = None \<or> 0 < nt \<and> int (length d) < nt"
  | (line) i l where "d \<noteq> []" "nt < 0" "line_end EVBUFFER_EOL_CRLF d = Some (i, l)"
  | (data) "d \<noteq> []" "0 \<le> nt" "nt \<le> int (length d)"
proof (cases "line_end EVBUFFER_EOL_CRLF d")
  case None
  then show thesis using wait data by (cases "nt < 0"; cases "d = []"; cases "int (length d) < nt") auto
next
  case (Some x)
  then show thesis using wait line[of "fst x" "snd x"] data
    by (cases "nt < 0"; cases "d = []"; cases "int (length d) < nt") auto
qed

lemma chunk_run_append:
  "chunk_run limit s d = (st, s', r) \<Longrightarrow>
   chunk_run limit s (d @ e) = (if st = MORE_DATA_EXPECTED then chunk_run limit s' (r @ e) else (st, s', r @ e))"
proof (induction limit s d rule: chunk_run.induct)
  case (1 limit nt sz out d)
  show ?case
  proof (cases rule: chunk_run_cases[of d nt])
    case wait
    then show ?thesis using 1(4) chunk_run_wait[OF wait] by simp
  next
    case (line i l)
    have room: "i + l \<le> length d" "i \<le> length d"
      using line_end_length[OF line(3)] by simp_all
    then have parts: "take i (d @ e) = take i d" "drop (i + l) (d @ e) = drop (i + l) d @ e" "d @ e \<noteq> []"
      using line(1) by simp_all
    note run = chunk_run_line[OF line, of limit sz out, unfolded Let_def]
    note run' = chunk_run_line[OF parts(3) line(2) line_end_append[OF line(3)], of limit sz out, unfolded Let_def parts]
    show ?thesis
    proof (cases "c_line (take i d) = []")
      case True
      then show ?thesis
        using 1(1)[OF line(1,2,3) refl] 1(4) run run' by simp
    next
      case False
      show ?thesis
      proof (cases "chunk_size (c_line (take i d))")
        case None
        then show ?thesis using False 1(4) run run' by auto
      next
        case (Some n)
        consider (big) "nat n > EV_SIZE_MAX - sz \<or> sz + nat n > limit \<or> n = 0"
          | (ok) "\<not> nat n > EV_SIZE_MAX - sz" "\<not> sz + nat n > limit" "n \<noteq> 0" by blast
        then show ?thesis
        proof cases
          case big
          then show ?thesis using False Some 1(4) run run' by (auto split: if_splits)
        next
          case ok
          then show ?thesis
            using 1(2)[OF line(1,2,3) refl False Some ok] False Some 1(4) run run' by simp
        qed
      qed
    qed
  next
    case data
    have "\<not> nt < 0" "\<not> (0 < nt \<and> int (length d) < nt)" using data by simp_all
    from 1(3)[OF data(1) this] show ?thesis
      using 1(4) data chunk_run_data[OF data] chunk_run_data[of "d @ e" nt] by simp
  qed
qed

lemma chunk_run_rest: "chunk_run limit s d = (st, s', r) \<Longrightarrow> length r \<le> length d"
proof (induction limit s d rule: chunk_run.induct)
  case (1 limit nt sz out d)
  show ?case
  proof (cases rule: chunk_run_cases[of d nt])
    case wait
    then show ?thesis using 1(4) chunk_run_wait[OF wait] by simp
  next
    case (line i l)
    note run = chunk_run_line[OF line, of limit sz out, unfolded Let_def]
    consider (empty) "c_line (take i d) = []" | (stop) "c_line (take i d) \<noteq> []" "r = drop (i + l) d"
      | (go) n where "c_line (take i d) \<noteq> []" "chunk_size (c_line (take i d)) = Some n" "\<not> nat n > EV_SIZE_MAX - sz"
          "\<not> sz + nat n > limit" "n \<noteq> 0"
      using 1(4) run by (auto split: option.splits if_splits)
    then show ?thesis
    proof cases
      case empty
      then show ?thesis using 1(1)[OF line(1,2,3) refl empty] 1(4) run by (auto intro: le_trans)
    next
      case (go n)
      then show ?thesis using 1(2)[OF line(1,2,3) refl go(1-5)] 1(4) run by (auto intro: le_trans)
    qed simp
  next
    case data
    have "\<not> nt < 0" "\<not> (0 < nt \<and> int (length d) < nt)" using data by simp_all
    from 1(3)[OF data(1) this] show ?thesis
      using 1(4) chunk_run_data[OF data] by (auto intro: le_trans)
  qed
qed

interpretation chunks: incremental "chunk_run limit" MORE_DATA_EXPECTED for limit
  by unfold_locales (simp_all add: chunk_run_append)

section \<open>The code computes this function\<close>

lemma text_readyD:
  assumes "text_ready malloc b"
  shows "evbuffer_wf b" "evbuffer_tight b" "evbuffer_plain b" "\<not> freeze_start b" "\<not> freeze_end b" "\<And>n. malloc n \<noteq> None"
    "total_len b = length (evbuffer_content b)" "evbuffer_get_length b = length (evbuffer_content b)"
  using assms length_evbuffer_content[of b] by (auto simp: text_ready_def tag_ready_def evbuffer_get_length_def)

lemma text_readyI:
  assumes "evbuffer_wf b'" "evbuffer_tight b'" "evbuffer_plain b'" "same_settings b b'" "text_ready malloc b"
  shows "text_ready malloc b'"
  using assms by (auto simp: text_ready_def tag_ready_def same_settings_def)

lemma ready_readln:
  assumes "text_ready malloc b" "length (evbuffer_content b) < 2 ^ 63 - 1"
  shows "case line_end EVBUFFER_EOL_CRLF (evbuffer_content b) of
      None \<Rightarrow> evbuffer_readln malloc b EVBUFFER_EOL_CRLF = Some (None, 0, b)
    | Some (i, l) \<Rightarrow> \<exists>b'. evbuffer_readln malloc b EVBUFFER_EOL_CRLF = Some (Some (take i (evbuffer_content b)), i, b') \<and>
        text_ready malloc b' \<and> evbuffer_content b' = drop (i + l) (evbuffer_content b)"
proof -
  note R = text_readyD[OF assms(1)]
  have "total_len b < 2 ^ 63 - 1" using assms(2) R(7) by simp
  from evbuffer_readln_ok[OF R(1,4) this, where malloc = malloc and style = EVBUFFER_EOL_CRLF]
  have L: "case line_end EVBUFFER_EOL_CRLF (evbuffer_content b) of
      None \<Rightarrow> evbuffer_readln malloc b EVBUFFER_EOL_CRLF = Some (None, 0, b)
    | Some (i, l) \<Rightarrow> \<exists>b'. evbuffer_readln malloc b EVBUFFER_EOL_CRLF = Some (Some (take i (evbuffer_content b)), i, b') \<and>
        evbuffer_content b' = drop (i + l) (evbuffer_content b) \<and> evbuffer_wf b' \<and> same_settings b b' \<and>
        evbuffer_tight b' \<and> evbuffer_plain b'"
    using R(2,3,6) by (cases "line_end EVBUFFER_EOL_CRLF (evbuffer_content b)") auto
  then show ?thesis
    using text_readyI[OF _ _ _ _ assms(1)] by (fastforce split: option.splits)
qed

lemma ready_move:
  assumes "text_ready malloc src" "text_ready malloc dst"
  obtains r src' dst' where "evbuffer_remove_buffer malloc False src dst n = Some (r, src', dst')" "text_ready malloc src'"
    "text_ready malloc dst'" "evbuffer_content src' = drop n (evbuffer_content src)"
    "evbuffer_content dst' = evbuffer_content dst @ take n (evbuffer_content src)"
proof -
  note S = text_readyD[OF assms(1)] and D = text_readyD[OF assms(2)]
  obtain src' dst' where m: "evbuffer_remove_buffer malloc False src dst n = Some (to_int32 (int (min n (total_len src))), src', dst')"
    "remove_outcome malloc src dst n src' dst'"
    using evbuffer_remove_buffer_ok[OF S(1-4) D(1-3,5), of malloc n] by blast
  show thesis
    by (rule that[OF m(1)]) (use m(2) S(6) text_readyI assms in \<open>auto simp: remove_outcome_def\<close>)
qed

lemma chunk_size_bound: "chunk_size p = Some n \<Longrightarrow> 0 \<le> n \<and> n \<le> int EV_SSIZE_MAX"
  by (auto simp: chunk_size_def strtol16_def clamp_long_def EV_SSIZE_MAX_def Let_def split: prod.splits if_splits)

text \<open>A request of which only the data of the body has changed.\<close>

definition body_changed :: "evhttp_request \<Rightarrow> evhttp_request \<Rightarrow> bool" where
  "body_changed req req' \<longleftrightarrow>
     req' = req\<lparr>body_size := body_size req', ntoread := ntoread req', input_buffer := input_buffer req'\<rparr>"

lemma body_changed_refl [simp]: "body_changed req req"
  by (simp add: body_changed_def)

lemma body_changed_trans:
  "body_changed (req\<lparr>body_size := a, ntoread := b\<rparr>) req' \<Longrightarrow> body_changed req req'"
  "body_changed (req\<lparr>input_buffer := c, ntoread := b\<rparr>) req' \<Longrightarrow> body_changed req req'"
  by (auto simp: body_changed_def)

definition chunk_view :: "evhttp_request \<Rightarrow> chunk_state" where
  "chunk_view req = (ntoread req, body_size req, evbuffer_content (input_buffer req))"

definition chunk_ready :: "allocator \<Rightarrow> evhttp_request \<Rightarrow> bool" where
  "chunk_ready malloc req \<longleftrightarrow> text_ready malloc (input_buffer req) \<and> ntoread req \<le> int EV_SSIZE_MAX"

lemma chunked_read_run:
  "chunk_run limit s d = (st, s', r) \<Longrightarrow> limit = max_body_size evcon \<Longrightarrow> s = chunk_view req \<Longrightarrow> d = evbuffer_content buf \<Longrightarrow>
   text_ready malloc buf \<Longrightarrow> chunk_ready malloc req \<Longrightarrow> length d < 2 ^ 63 - 1 \<Longrightarrow>
   \<exists>req' buf'. evhttp_handle_chunked_read malloc evcon None req buf = Some (st, req', buf') \<and> text_ready malloc buf' \<and>
     evbuffer_content buf' = r \<and> chunk_ready malloc req' \<and> chunk_view req' = s' \<and> body_changed req req'"
proof (induction limit s d arbitrary: req buf rule: chunk_run.induct)
  case (1 limit nt sz out d)
  note view = 1(6)[unfolded chunk_view_def prod.inject]
  note B = text_readyD[OF 1(8)]
  have len: "evbuffer_get_length buf = length d" "\<not> evbuffer_get_length buf > EV_SSIZE_MAX"
    using B(8) 1(7,10) by (simp_all add: EV_SSIZE_MAX_def)
  have ln: "length (evbuffer_content buf) < 2 ^ 63 - 1" using 1(7,10) by simp
  have ready: "text_ready malloc (input_buffer req)" "nt \<le> int EV_SSIZE_MAX"
    using 1(9) view by (simp_all add: chunk_ready_def)
  note code = evhttp_handle_chunked_read.simps[of malloc evcon None req buf, unfolded Let_def len(1)]
  show ?case
  proof (cases rule: chunk_run_cases[of d nt])
    case wait
    have "evhttp_handle_chunked_read malloc evcon None req buf = Some (MORE_DATA_EXPECTED, req, buf)"
      using wait ready_readln[OF 1(8) ln] view 1(7) len ready(2) unfolding code by auto
    moreover have "st = MORE_DATA_EXPECTED" "s' = (nt, sz, out)" "r = d"
      using 1(4) chunk_run_wait[OF wait] by simp_all
    ultimately show ?thesis
      using 1(6-9) by simp
  next
    case (line i l)
    obtain b1 where b1: "evbuffer_readln malloc buf EVBUFFER_EOL_CRLF = Some (Some (take i d), i, b1)" "text_ready malloc b1"
      "evbuffer_content b1 = drop (i + l) d"
      using ready_readln[OF 1(8) ln] line(3) 1(7) by auto
    have short: "length (drop (i + l) d) < 2 ^ 63 - 1" using 1(10) by simp
    note run = chunk_run_line[OF line, of limit sz out, unfolded Let_def]
    have code': "evhttp_handle_chunked_read malloc evcon None req buf =
      (if c_line (take i d) = [] then evhttp_handle_chunked_read malloc evcon None req b1
       else (case chunk_size (c_line (take i d)) of
               None \<Rightarrow> Some (DATA_CORRUPTED, req, b1)
             | Some n \<Rightarrow>
                 if nat n > EV_SIZE_MAX - sz then Some (DATA_CORRUPTED, req, b1)
                 else if sz + nat n > limit then Some (DATA_TOO_LONG, req, b1)
                 else if n = 0 then Some (ALL_DATA_READ, req\<lparr>body_size := sz + nat n, ntoread := n\<rparr>, b1)
                 else evhttp_handle_chunked_read malloc evcon None (req\<lparr>body_size := sz + nat n, ntoread := n\<rparr>) b1))"
      using line(1,2) view b1(1) len 1(5) unfolding code by (auto split: option.splits)
    show ?thesis
    proof (cases "c_line (take i d) = []")
      case True
      have "chunk_run limit (nt, sz, out) (drop (i + l) d) = (st, s', r)" using 1(4) run True by simp
      from 1(1)[OF line(1,2,3) refl True this 1(5,6) b1(3)[symmetric] b1(2) 1(9) short] show ?thesis
        using code' True by simp
    next
      case False
      show ?thesis
      proof (cases "chunk_size (c_line (take i d))")
        case None
        then show ?thesis using False 1(4,6,9) run code' b1 by auto
      next
        case (Some n)
        note n = chunk_size_bound[OF Some]
        consider (big) "nat n > EV_SIZE_MAX - sz \<or> sz + nat n > limit"
          | (last) "\<not> nat n > EV_SIZE_MAX - sz" "\<not> sz + nat n > limit" "n = 0"
          | (ok) "\<not> nat n > EV_SIZE_MAX - sz" "\<not> sz + nat n > limit" "n \<noteq> 0" by blast
        then show ?thesis
        proof cases
          case big
          then show ?thesis using False Some 1(4,6,9) run code' b1 by (auto split: if_splits)
        next
          case last
          define req1 where "req1 = req\<lparr>body_size := sz, ntoread := 0\<rparr>"
          have "chunk_ready malloc req1" "chunk_view req1 = (0, sz, out)" "body_changed req req1"
            using ready view by (simp_all add: chunk_ready_def chunk_view_def req1_def body_changed_def)
          then show ?thesis
            using last False Some 1(4) run code' b1(2,3) by (auto simp: req1_def[symmetric])
        next
          case ok
          define req1 where "req1 = req\<lparr>body_size := sz + nat n, ntoread := n\<rparr>"
          have r1: "(n, sz + nat n, out) = chunk_view req1" "chunk_ready malloc req1"
            using ready view n by (simp_all add: chunk_ready_def chunk_view_def req1_def)
          have step: "evhttp_handle_chunked_read malloc evcon None req buf = evhttp_handle_chunked_read malloc evcon None req1 b1"
            "chunk_run limit (n, sz + nat n, out) (drop (i + l) d) = (st, s', r)"
            using ok False Some code' 1(4) run by (simp_all add: req1_def)
          from 1(2)[OF line(1,2,3) refl False Some ok step(2) 1(5) r1(1) b1(3)[symmetric] b1(2) r1(2) short] show ?thesis
            unfolding step(1) using body_changed_trans(1)[where req = req and a = "sz + nat n" and b = n] by (auto simp: req1_def)
        qed
      qed
    qed
  next
    case data
    obtain x b1 inp where m: "evbuffer_remove_buffer malloc False buf (input_buffer req) (nat nt) = Some (x, b1, inp)"
      "text_ready malloc b1" "text_ready malloc inp" "evbuffer_content b1 = drop (nat nt) (evbuffer_content buf)"
      "evbuffer_content inp = evbuffer_content (input_buffer req) @ take (nat nt) (evbuffer_content buf)"
      using ready_move[OF 1(8) ready(1)] by blast
    define req1 where "req1 = req\<lparr>input_buffer := inp, ntoread := - 1\<rparr>"
    have r1: "(- 1, sz, out @ take (nat nt) d) = chunk_view req1" "chunk_ready malloc req1"
      using m(3,5) view 1(7) by (simp_all add: chunk_ready_def chunk_view_def req1_def)
    have step: "evhttp_handle_chunked_read malloc evcon None req buf = evhttp_handle_chunked_read malloc evcon None req1 b1"
      using data view m(1) len ready(2) unfolding code by (auto simp: req1_def)
    have "\<not> nt < 0" "\<not> (0 < nt \<and> int (length d) < nt)" using data by simp_all
    moreover have "chunk_run limit (- 1, sz, out @ take (nat nt) d) (drop (nat nt) d) = (st, s', r)"
      using 1(4) chunk_run_data[OF data] by simp
    moreover have "drop (nat nt) d = evbuffer_content b1" "length (drop (nat nt) d) < 2 ^ 63 - 1"
      using m(4) 1(7,10) by simp_all
    ultimately show ?thesis
      unfolding step using 1(3)[OF data(1) _ _ _ 1(5) r1(1) _ m(2) r1(2)] body_changed_trans(2)[where req = req and c = inp and b = "- 1"]
      by (auto simp: req1_def)
  qed
qed

section \<open>Data that arrives in pieces\<close>

text \<open>\<open>evhttp_handle_chunked_read\<close> is called for the data that is there and again after each new piece.\<close>

fun receive_chunks ::
    "allocator \<Rightarrow> evhttp_connection \<Rightarrow> evhttp_request \<Rightarrow> evbuffer \<Rightarrow> byte list list \<Rightarrow>
     (message_read_status \<times> evhttp_request \<times> evbuffer \<times> byte list list) option" where
  "receive_chunks malloc evcon req buf [] =
     map_option (\<lambda>(st, req, buf). (st, req, buf, [])) (evhttp_handle_chunked_read malloc evcon None req buf)"
| "receive_chunks malloc evcon req buf (p # ps) = do {
     (st, req, buf) \<leftarrow> evhttp_handle_chunked_read malloc evcon None req buf;
     if st = MORE_DATA_EXPECTED then do {
       (_, buf) \<leftarrow> evbuffer_add malloc buf p;
       receive_chunks malloc evcon req buf ps
     }
     else Some (st, req, buf, p # ps)
   }"

lemma body_changed_chain: "body_changed a b \<Longrightarrow> body_changed b c \<Longrightarrow> body_changed a c"
  unfolding body_changed_def by (cases a; cases b; cases c) simp

lemma receive_feed:
  assumes "feed (chunk_run (max_body_size evcon)) MORE_DATA_EXPECTED (chunk_view req) (evbuffer_content buf) ps = (st, s', r, rest)"
    and "text_ready malloc buf" "chunk_ready malloc req" "length (evbuffer_content buf @ concat ps) < 2 ^ 63 - 1"
    and "\<forall>p \<in> set ps. length p \<le> 2 ^ 32"
  shows "\<exists>req' buf'. receive_chunks malloc evcon req buf ps = Some (st, req', buf', rest) \<and> text_ready malloc buf' \<and>
     evbuffer_content buf' = r \<and> chunk_ready malloc req' \<and> chunk_view req' = s' \<and> body_changed req req'"
  using assms
proof (induction ps arbitrary: req buf)
  case Nil
  obtain st1 s1 r1 where run: "chunk_run (max_body_size evcon) (chunk_view req) (evbuffer_content buf) = (st1, s1, r1)"
    by (cases "chunk_run (max_body_size evcon) (chunk_view req) (evbuffer_content buf)")
  have small: "length (evbuffer_content buf) < 2 ^ 63 - 1" using Nil.prems(4) by simp
  show ?case
    using chunked_read_run[OF run refl refl refl Nil.prems(2,3) small] Nil.prems(1) run by auto
next
  case (Cons p ps)
  obtain st1 s1 r1 where run: "chunk_run (max_body_size evcon) (chunk_view req) (evbuffer_content buf) = (st1, s1, r1)"
    by (cases "chunk_run (max_body_size evcon) (chunk_view req) (evbuffer_content buf)")
  have small: "length (evbuffer_content buf) < 2 ^ 63 - 1" using Cons.prems(4) by simp
  obtain req1 buf1 where step: "evhttp_handle_chunked_read malloc evcon None req buf = Some (st1, req1, buf1)" "text_ready malloc buf1"
    "evbuffer_content buf1 = r1" "chunk_ready malloc req1" "chunk_view req1 = s1" "body_changed req req1"
    using chunked_read_run[OF run refl refl refl Cons.prems(2,3) small] by blast
  show ?case
  proof (cases "st1 = MORE_DATA_EXPECTED")
    case False
    then show ?thesis using Cons.prems(1) run step by auto
  next
    case True
    obtain buf2 where add: "evbuffer_add malloc buf1 p = Some (0, buf2)" "text_ready malloc buf2"
      "evbuffer_content buf2 = evbuffer_content buf1 @ p"
      using text_ready_add[OF step(2), of p] Cons.prems(5) by auto
    have fed: "feed (chunk_run (max_body_size evcon)) MORE_DATA_EXPECTED (chunk_view req1) (evbuffer_content buf2) ps = (st, s', r, rest)"
      using Cons.prems(1) run True step(3,5) add(3) by simp
    have "length r1 \<le> length (evbuffer_content buf)"
      using chunk_run_rest[OF run] .
    then have "length (evbuffer_content buf2 @ concat ps) < 2 ^ 63 - 1"
      using Cons.prems(4) add(3) step(3) by simp
    moreover have "\<forall>p \<in> set ps. length p \<le> 2 ^ 32" using Cons.prems(5) by simp
    ultimately obtain req2 buf3 where "receive_chunks malloc evcon req1 buf2 ps = Some (st, req2, buf3, rest)" "text_ready malloc buf3"
      "evbuffer_content buf3 = r" "chunk_ready malloc req2" "chunk_view req2 = s'" "body_changed req1 req2"
      using Cons.IH[OF fed add(2) step(4)] by blast
    then show ?thesis
      using step(1) True add(1) body_changed_chain[OF step(6)] by auto
  qed
qed

section \<open>What a server writes\<close>

definition CRLF_bytes :: "byte list" where "CRLF_bytes = [CR_byte, LF_byte]"

definition chunk_text :: "byte list \<Rightarrow> byte list" where
  "chunk_text c = (if c = [] then [] else to_bytes (print_nat 16 (length c)) @ CRLF_bytes @ c @ CRLF_bytes)"

definition last_chunk :: "byte list" where "last_chunk = to_bytes ''0'' @ CRLF_bytes @ CRLF_bytes"

fun send_chunks :: "allocator \<Rightarrow> evhttp_connection \<Rightarrow> evhttp_request \<Rightarrow> evbuffer list \<Rightarrow> evhttp_connection option" where
  "send_chunks malloc evcon req [] = Some evcon"
| "send_chunks malloc evcon req (d # ds) = do {
     (con, _) \<leftarrow> evhttp_send_reply_chunk malloc (Some evcon) req d;
     evcon \<leftarrow> con;
     send_chunks malloc evcon req ds
   }"

lemma ready_append:
  assumes "text_ready malloc dst" "text_ready malloc src"
  obtains dst' src' where "evbuffer_add_buffer malloc False dst src = Some (0, dst', src')" "text_ready malloc dst'" "text_ready malloc src'"
    "evbuffer_content dst' = evbuffer_content dst @ evbuffer_content src" "evbuffer_content src' = []"
proof -
  note D = text_readyD[OF assms(1)] and S = text_readyD[OF assms(2)]
  obtain dst' src' where m: "evbuffer_add_buffer malloc False dst src = Some (0, dst', src')"
    "move_outcome dst src (evbuffer_content dst @ evbuffer_content src) dst' src'"
    using evbuffer_add_buffer_ok[OF D(1) S(1) D(5) S(4), of malloc] by blast
  show thesis
    by (rule that[OF m(1)]) (use m(2) D(2,3) S(2,3) text_readyI assms in \<open>auto simp: move_outcome_def\<close>)
qed

lemma to_bytes_CRLF [simp]: "to_bytes [CR, LF] = CRLF_bytes"
  by (simp add: to_bytes_def CR_def LF_def CRLF_bytes_def CR_byte_def LF_byte_def)

lemma send_chunk_ok:
  assumes "chunked req" "evhttp_response_needs_body req" "text_ready malloc (con_output evcon)" "text_ready malloc d"
    and "length (evbuffer_content d) < 2 ^ 32"
  shows "\<exists>evcon' d'. evhttp_send_reply_chunk malloc (Some evcon) req d = Some (Some evcon', d') \<and>
    text_ready malloc (con_output evcon') \<and>
    evbuffer_content (con_output evcon') = evbuffer_content (con_output evcon) @ chunk_text (evbuffer_content d)"
proof (cases "evbuffer_content d = []")
  case True
  then show ?thesis
    using assms text_readyD(8)[OF assms(4)] by (simp add: evhttp_send_reply_chunk_def chunk_text_def)
next
  case False
  let ?n = "length (evbuffer_content d)"
  have len: "evbuffer_get_length d = ?n" "?n \<noteq> 0" "?n mod 2 ^ 32 = ?n"
    using text_readyD(8)[OF assms(4)] False assms(5) by simp_all
  let ?t = "print_nat 16 ?n @ [CR, LF]"
  have "length (print_nat 16 ?n) \<le> 8"
    using assms(5) by (intro print_nat_length) simp_all
  then have "writes malloc ?t (uri_printf malloc ?t)"
    by (intro writes_printf) simp_all
  then obtain out1 where o1: "uri_printf malloc ?t (con_output evcon) = Some out1" "text_ready malloc out1"
    "evbuffer_content out1 = evbuffer_content (con_output evcon) @ to_bytes ?t"
    using assms(3) by (rule writesE)
  obtain out2 d2 where o2: "evbuffer_add_buffer malloc False out1 d = Some (0, out2, d2)" "text_ready malloc out2" "text_ready malloc d2"
    "evbuffer_content out2 = evbuffer_content out1 @ evbuffer_content d"
    using ready_append[OF o1(2) assms(4)] by blast
  have "writes malloc [CR, LF] (uri_add malloc [CR, LF])"
    by (intro writes_add) simp
  then obtain out3 where o3: "uri_add malloc [CR, LF] out2 = Some out3" "text_ready malloc out3"
    "evbuffer_content out3 = evbuffer_content out2 @ to_bytes [CR, LF]"
    using o2(2) by (rule writesE)
  show ?thesis
    using assms(1,2) len o1(1,3) o2(1,4) o3 False
    by (simp add: evhttp_send_reply_chunk_def evhttp_write_buffer_def chunk_text_def)
qed

lemma send_chunks_ok:
  assumes "chunked req" "evhttp_response_needs_body req" "text_ready malloc (con_output evcon)"
    and "\<forall>d \<in> set ds. text_ready malloc d \<and> length (evbuffer_content d) < 2 ^ 32"
  shows "\<exists>evcon'. send_chunks malloc evcon req ds = Some evcon' \<and> text_ready malloc (con_output evcon') \<and>
    evbuffer_content (con_output evcon') = evbuffer_content (con_output evcon) @ concat (map (\<lambda>d. chunk_text (evbuffer_content d)) ds)"
  using assms(3,4)
proof (induction ds arbitrary: evcon)
  case (Cons d ds)
  have d: "text_ready malloc d" "length (evbuffer_content d) < 2 ^ 32" using Cons.prems(2) by simp_all
  obtain evcon1 d1 where s: "evhttp_send_reply_chunk malloc (Some evcon) req d = Some (Some evcon1, d1)"
    "text_ready malloc (con_output evcon1)"
    "evbuffer_content (con_output evcon1) = evbuffer_content (con_output evcon) @ chunk_text (evbuffer_content d)"
    using send_chunk_ok[OF assms(1,2) Cons.prems(1) d] by blast
  show ?case
    using Cons.IH[OF s(2)] Cons.prems(2) s(1,3) by auto
qed simp

section \<open>What a client reads\<close>

lemma line_end_CRLF:
  assumes "CR_byte \<notin> set l" "LF_byte \<notin> set l"
  shows "line_end EVBUFFER_EOL_CRLF (l @ CRLF_bytes @ rest) = Some (length l, 2)"
  using line_end_text[OF assms, of EVBUFFER_EOL_CRLF rest] by (simp add: eol_text_def CRLF_bytes_def)

lemma c_line_to_bytes [simp]: "is_c_string s \<Longrightarrow> c_line (to_bytes s) = s"
  by (auto simp: c_line_def is_c_string_def takeWhile_eq_all_conv)

lemma xdigit_text:
  assumes "list_all EVUTIL_ISXDIGIT s"
  shows "CR_byte \<notin> set (to_bytes s)" "LF_byte \<notin> set (to_bytes s)" "is_c_string s"
proof -
  have "c \<noteq> NUL \<and> of_char c \<noteq> CR_byte \<and> of_char c \<noteq> LF_byte" if "EVUTIL_ISXDIGIT c" for c
  proof -
    have "(of_char c :: nat) \<in> {48..57} \<union> {65..70} \<union> {97..102}"
      using that by (auto simp: class_iffs code_in_def)
    then have n: "(of_char c :: nat) \<noteq> 0 \<and> (of_char c :: nat) \<noteq> 13 \<and> (of_char c :: nat) \<noteq> 10"
      by auto
    have u: "unat (of_char c :: byte) = of_char c" by (rule unat_of_char)
    have "unat (of_char c :: byte) \<noteq> unat CR_byte" "unat (of_char c :: byte) \<noteq> unat LF_byte"
      unfolding u using n by (simp_all add: CR_byte_def LF_byte_def)
    then have "of_char c \<noteq> CR_byte" "of_char c \<noteq> LF_byte"
      by metis+
    then show ?thesis
      using n by (auto simp: NUL_def)
  qed
  then show "CR_byte \<notin> set (to_bytes s)" "LF_byte \<notin> set (to_bytes s)" "is_c_string s"
    using assms by (fastforce simp: to_bytes_def is_c_string_def list_all_iff)+
qed

lemma chunk_run_blank: "chunk_run limit (- 1, sz, out) (CRLF_bytes @ rest) = chunk_run limit (- 1, sz, out) rest"
proof -
  have "CRLF_bytes @ rest \<noteq> []" by (simp add: CRLF_bytes_def)
  from chunk_run_line[OF this _ line_end_CRLF[of "[]" rest, simplified], of "- 1" limit sz out] show ?thesis
    by (simp add: c_line_def of_bytes_def CRLF_bytes_def)
qed

lemma chunk_size_print: "n < 2 ^ 63 \<Longrightarrow> chunk_size (print_nat 16 n) = Some (int n)"
  using strtol16_print[of n "[]"] print_nat_facts(1)[of 16 n] by (simp add: chunk_size_def stops_def)

lemma chunk_run_size:
  assumes "n < 2 ^ 63" "0 < n" "n \<le> EV_SIZE_MAX - sz" "sz + n \<le> limit"
  shows "chunk_run limit (- 1, sz, out) (to_bytes (print_nat 16 n) @ CRLF_bytes @ rest) = chunk_run limit (int n, sz + n, out) rest"
proof -
  let ?s = "print_nat 16 n"
  have s: "list_all EVUTIL_ISXDIGIT ?s" "?s \<noteq> []" by (rule print_nat_facts; simp)+
  note T = xdigit_text[OF s(1)]
  have "to_bytes ?s @ CRLF_bytes @ rest \<noteq> []" by (simp add: CRLF_bytes_def)
  from chunk_run_line[OF this _ line_end_CRLF[OF T(1,2)], of "- 1" limit sz out] show ?thesis
    using assms T(3) s(2) chunk_size_print[OF assms(1)] by (simp add: CRLF_bytes_def)
qed

lemma chunk_run_chunk:
  assumes "length c < 2 ^ 32" "sz + length c \<le> EV_SIZE_MAX" "sz + length c \<le> limit"
  shows "chunk_run limit (- 1, sz, out) (chunk_text c @ rest) = chunk_run limit (- 1, sz + length c, out @ c) rest"
proof (cases "c = []")
  case False
  have "chunk_run limit (- 1, sz, out) (chunk_text c @ rest) = chunk_run limit (int (length c), sz + length c, out) (c @ CRLF_bytes @ rest)"
    using False assms chunk_run_size[of "length c" sz limit out "c @ CRLF_bytes @ rest"] by (simp add: chunk_text_def)
  also have "\<dots> = chunk_run limit (- 1, sz + length c, out @ c) (CRLF_bytes @ rest)"
    using False chunk_run_data[of "c @ CRLF_bytes @ rest" "int (length c)" limit "sz + length c" out] by simp
  finally show ?thesis by (simp add: chunk_run_blank)
qed (simp add: chunk_text_def)

lemma chunk_run_last: "sz \<le> limit \<Longrightarrow>
  chunk_run limit (- 1, sz, out) (last_chunk @ rest) = (ALL_DATA_READ, (0, sz, out), CRLF_bytes @ rest)"
proof -
  assume "sz \<le> limit"
  have zero: "print_nat 16 0 = ''0''" by (simp add: print_nat.simps digit_char_def)
  have s: "list_all EVUTIL_ISXDIGIT ''0''" using print_nat_facts(3)[of 16 0] by (simp add: zero)
  note T = xdigit_text[OF s]
  have "to_bytes ''0'' @ CRLF_bytes @ CRLF_bytes @ rest \<noteq> []" by (simp add: CRLF_bytes_def)
  from chunk_run_line[OF this _ line_end_CRLF[OF T(1,2)], of "- 1" limit sz out] show ?thesis
    using \<open>sz \<le> limit\<close> T(3) chunk_size_print[of 0] zero by (simp add: last_chunk_def CRLF_bytes_def)
qed

lemma chunk_run_message:
  assumes "\<forall>c \<in> set cs. length c < 2 ^ 32" "sz + length (concat cs) \<le> EV_SIZE_MAX" "sz + length (concat cs) \<le> limit"
  shows "chunk_run limit (- 1, sz, out) (concat (map chunk_text cs) @ last_chunk @ rest) =
    (ALL_DATA_READ, (0, sz + length (concat cs), out @ concat cs), CRLF_bytes @ rest)"
  using assms
proof (induction cs arbitrary: sz out)
  case Nil
  then show ?case by (simp add: chunk_run_last)
next
  case (Cons c cs)
  have "chunk_run limit (- 1, sz, out) (chunk_text c @ concat (map chunk_text cs) @ last_chunk @ rest) =
      chunk_run limit (- 1, sz + length c, out @ c) (concat (map chunk_text cs) @ last_chunk @ rest)"
    using Cons.prems by (intro chunk_run_chunk) simp_all
  then show ?case
    using Cons.IH[of "sz + length c" "out @ c"] Cons.prems by (simp add: add.assoc)
qed

text \<open>
  C34: A body that a server sends with \<open>evhttp_send_reply_chunk\<close> and \<open>evhttp_send_reply_end\<close> is read by
  \<open>evhttp_handle_chunked_read\<close> of the client exactly and in order, in whatever pieces the bytes arrive; the line behind
  the last chunk and what follows it are left.
\<close>

theorem evhttp_chunked_roundtrip:
  assumes server: "chunked sreq" "evhttp_response_needs_body sreq" "text_ready malloc (con_output srv)"
      "evbuffer_content (con_output srv) = []" "\<forall>d \<in> set ds. text_ready malloc d \<and> length (evbuffer_content d) < 2 ^ 32"
    and client: "text_ready malloc buf" "evbuffer_content buf = []" "chunk_ready malloc req" "ntoread req = - 1"
    and limits: "body_size req + length (concat (map evbuffer_content ds)) \<le> EV_SIZE_MAX"
      "body_size req + length (concat (map evbuffer_content ds)) \<le> max_body_size evcon"
    and pieces: "concat ps = concat (map (chunk_text \<circ> evbuffer_content) ds) @ last_chunk @ more_bytes"
      "length (concat ps) < 2 ^ 63 - 1" "\<forall>p \<in> set ps. length p \<le> 2 ^ 32"
  shows "\<exists>srv1 srv2 sreq2 req' buf' rest. send_chunks malloc srv sreq ds = Some srv1 \<and>
    evhttp_send_reply_end malloc (Some srv1) sreq = Some (False, Sent srv2 sreq2) \<and>
    evbuffer_content (con_output srv2) = concat (map (chunk_text \<circ> evbuffer_content) ds) @ last_chunk \<and>
    receive_chunks malloc evcon req buf ps = Some (ALL_DATA_READ, req', buf', rest) \<and>
    evbuffer_content (input_buffer req') = evbuffer_content (input_buffer req) @ concat (map evbuffer_content ds) \<and>
    body_size req' = body_size req + length (concat (map evbuffer_content ds)) \<and> body_changed req req' \<and>
    evbuffer_content buf' @ concat rest = CRLF_bytes @ more_bytes"
proof -
  obtain srv1 where s1: "send_chunks malloc srv sreq ds = Some srv1" "text_ready malloc (con_output srv1)"
    "evbuffer_content (con_output srv1) = concat (map (chunk_text \<circ> evbuffer_content) ds)"
    using send_chunks_ok[OF server(1,2,3,5)] server(4) by (auto simp: comp_def)
  have "writes malloc (''0'' @ [CR, LF, CR, LF]) (uri_add malloc (''0'' @ [CR, LF, CR, LF]))"
    by (intro writes_add) simp
  then obtain out where o: "uri_add malloc (''0'' @ [CR, LF, CR, LF]) (con_output srv1) = Some out"
    "evbuffer_content out = evbuffer_content (con_output srv1) @ to_bytes (''0'' @ [CR, LF, CR, LF])"
    using s1(2) by (rule writesE)
  have "to_bytes (''0'' @ [CR, LF, CR, LF]) = last_chunk"
    by (simp add: last_chunk_def to_bytes_def CR_def LF_def CRLF_bytes_def CR_byte_def LF_byte_def)
  then obtain srv2 sreq2 where s2: "evhttp_send_reply_end malloc (Some srv1) sreq = Some (False, Sent srv2 sreq2)"
    "evbuffer_content (con_output srv2) = concat (map (chunk_text \<circ> evbuffer_content) ds) @ last_chunk"
    using server(1) o s1(3) by (auto simp: evhttp_send_reply_end_def evhttp_write_buffer_def)
  have view: "chunk_view req = (- 1, body_size req, evbuffer_content (input_buffer req))"
    using client(4) by (simp add: chunk_view_def)
  obtain st s' r rest where fed: "feed (chunk_run (max_body_size evcon)) MORE_DATA_EXPECTED (chunk_view req) (evbuffer_content buf) ps = (st, s', r, rest)"
    by (cases "feed (chunk_run (max_body_size evcon)) MORE_DATA_EXPECTED (chunk_view req) (evbuffer_content buf) ps")
  have run: "chunk_run (max_body_size evcon) (chunk_view req) (concat ps) = (st, s', r @ concat rest)"
    using chunks.feed_run[OF fed] client(2) by simp
  have "chunk_run (max_body_size evcon) (chunk_view req) (concat ps) =
    (ALL_DATA_READ, (0, body_size req + length (concat (map evbuffer_content ds)),
      evbuffer_content (input_buffer req) @ concat (map evbuffer_content ds)), CRLF_bytes @ more_bytes)"
    unfolding pieces(1) view map_map[symmetric] using server(5) limits by (intro chunk_run_message) auto
  then have res: "st = ALL_DATA_READ" "s' = (0, body_size req + length (concat (map evbuffer_content ds)),
      evbuffer_content (input_buffer req) @ concat (map evbuffer_content ds))" "r @ concat rest = CRLF_bytes @ more_bytes"
    using run by simp_all
  have "length (evbuffer_content buf @ concat ps) < 2 ^ 63 - 1" using pieces(2) client(2) by simp
  from receive_feed[OF fed client(1,3) this pieces(3)] obtain req' buf' where
    "receive_chunks malloc evcon req buf ps = Some (st, req', buf', rest)" "evbuffer_content buf' = r" "chunk_view req' = s'"
    "body_changed req req'" by blast
  then show ?thesis
    using s1(1) s2 res by (auto simp: chunk_view_def)
qed

text \<open>A connection, a request and a chunk of three bytes for the concrete instance.\<close>

definition sample_connection :: evhttp_connection where
  "sample_connection = \<lparr>max_headers_size = EV_SIZE_MAX, max_body_size = 100, con_flags = 0, con_state = EVCON_READING_BODY,
     http_server = None, con_input = evbuffer_new, con_output = evbuffer_new, reading = True, writing = False, con_cb = None,
     read_cb = True, read_more = False\<rparr>"

definition sample_http_request :: evhttp_request where
  "sample_http_request = the (evhttp_request_new Some)\<lparr>response_code := 200, chunked := True, ntoread := - 1\<rparr>"

lemma sample_ready: "text_ready Some evbuffer_new" "text_ready Some mem_buffer"
  using text_ready_new[of Some] mem_buffer_ok
  by (auto simp: text_ready_def tag_ready_def mem_buffer_def evbuffer_new_def)

lemma new_content [simp]: "evbuffer_content evbuffer_new = []"
  by (simp add: evbuffer_new_def evbuffer_content_def)

lemma sample_fields:
  "chunked sample_http_request" "ntoread sample_http_request = - 1" "body_size sample_http_request = 0"
  "input_buffer sample_http_request = evbuffer_new" "evhttp_response_needs_body sample_http_request"
  "con_output sample_connection = evbuffer_new" "max_body_size sample_connection = 100"
  by (simp_all add: sample_http_request_def evhttp_request_new_def sample_connection_def evhttp_response_needs_body_def
      HTTP_NOCONTENT_def HTTP_NOTMODIFIED_def EVHTTP_REQ_HEAD_def)

theorem evhttp_chunked_roundtrip_witness:
  "\<exists>srv1 srv2 sreq2 req' buf' rest. send_chunks Some sample_connection sample_http_request [mem_buffer] = Some srv1 \<and>
    evhttp_send_reply_end Some (Some srv1) sample_http_request = Some (False, Sent srv2 sreq2) \<and>
    receive_chunks Some sample_connection sample_http_request evbuffer_new
      [to_bytes ''3'', CRLF_bytes @ [1, 2], [3] @ CRLF_bytes @ last_chunk] = Some (ALL_DATA_READ, req', buf', rest) \<and>
    evbuffer_content (input_buffer req') = [1, 2, 3]"
proof -
  have three: "chunk_text [1, 2, 3] = to_bytes ''3'' @ CRLF_bytes @ [1, 2, 3] @ CRLF_bytes"
    by (simp add: chunk_text_def print_nat.simps digit_char_def)
  have small: "length last_chunk = 5" "length CRLF_bytes = 2" "length (to_bytes ''3'') = 1"
    by (simp_all add: last_chunk_def CRLF_bytes_def to_bytes_def)
  have ready: "chunk_ready Some sample_http_request"
    using sample_ready(1) by (simp add: chunk_ready_def sample_fields EV_SSIZE_MAX_def)
  have "\<exists>srv1 srv2 sreq2 req' buf' rest. send_chunks Some sample_connection sample_http_request [mem_buffer] = Some srv1 \<and>
    evhttp_send_reply_end Some (Some srv1) sample_http_request = Some (False, Sent srv2 sreq2) \<and>
    evbuffer_content (con_output srv2) = concat (map (chunk_text \<circ> evbuffer_content) [mem_buffer]) @ last_chunk \<and>
    receive_chunks Some sample_connection sample_http_request evbuffer_new
      [to_bytes ''3'', CRLF_bytes @ [1, 2], [3] @ CRLF_bytes @ last_chunk] = Some (ALL_DATA_READ, req', buf', rest) \<and>
    evbuffer_content (input_buffer req') = evbuffer_content (input_buffer sample_http_request) @ concat (map evbuffer_content [mem_buffer]) \<and>
    body_size req' = body_size sample_http_request + length (concat (map evbuffer_content [mem_buffer])) \<and>
    body_changed sample_http_request req' \<and> evbuffer_content buf' @ concat rest = CRLF_bytes @ []"
    by (rule evhttp_chunked_roundtrip)
      (use sample_ready ready in \<open>simp_all add: sample_fields mem_buffer_ok three small EV_SIZE_MAX_def\<close>)
  then show ?thesis
    by (elim exE conjE) (intro exI conjI, assumption, assumption, assumption, simp add: sample_fields mem_buffer_ok)
qed

end
