(* ===== verification/Http_Roundtrip.thy ===== *)
theory Http_Roundtrip
  imports Http_Chunked
begin

text \<open>
  A request that a client writes with \<open>evhttp_make_header\<close> is what a server reads with \<open>evhttp_read_cb\<close>: the first line,
  the headers and the body.
\<close>

section \<open>Lines of text\<close>

definition plain_text :: "string \<Rightarrow> bool" where
  "plain_text s \<longleftrightarrow> list_all (\<lambda>c. c \<noteq> NUL \<and> c \<noteq> CR \<and> c \<noteq> LF) s"

lemma to_bytes_inj: "to_bytes s = to_bytes t \<Longrightarrow> s = t"
  by (metis of_to_bytes)

lemma newline_bytes: "to_bytes [CR] = [CR_byte]" "to_bytes [LF] = [LF_byte]"
  by (simp_all add: to_bytes_def CR_def LF_def CR_byte_def LF_byte_def)

lemma byte_in_text: "x \<in> set (to_bytes s) \<Longrightarrow> to_bytes [c] = [x] \<Longrightarrow> c \<in> set s"
proof -
  assume "x \<in> set (to_bytes s)" "to_bytes [c] = [x]"
  then obtain d where "d \<in> set s" "to_bytes [d] = to_bytes [c]"
    by (auto simp: to_bytes_def)
  then show "c \<in> set s"
    using to_bytes_inj[of "[d]" "[c]"] by simp
qed

lemma plain_textD:
  assumes "plain_text s"
  shows "CR_byte \<notin> set (to_bytes s)" "LF_byte \<notin> set (to_bytes s)" "is_c_string s"
  using assms byte_in_text[OF _ newline_bytes(1), of s] byte_in_text[OF _ newline_bytes(2), of s]
  by (auto simp: plain_text_def list_all_iff is_c_string_def)

lemma ready_line:
  assumes "text_ready malloc b" "evbuffer_content b = to_bytes s @ CRLF_bytes @ rest" "plain_text s"
    and "length (evbuffer_content b) < 2 ^ 63 - 1"
  obtains b' where "evbuffer_readln malloc b EVBUFFER_EOL_CRLF = Some (Some (to_bytes s), length s, b')" "text_ready malloc b'"
    "evbuffer_content b' = rest"
proof -
  have "line_end EVBUFFER_EOL_CRLF (evbuffer_content b) = Some (length s, 2)"
    unfolding assms(2) using line_end_CRLF[OF plain_textD(1,2)[OF assms(3)], of rest] by simp
  then show thesis
    using ready_readln[OF assms(1,4)] assms(2) that by (auto simp: CRLF_bytes_def)
qed

section \<open>Headers\<close>

definition header_ok :: "string \<times> string \<Rightarrow> bool" where
  "header_ok h \<longleftrightarrow> plain_text (fst h) \<and> plain_text (snd h) \<and> CHR '':'' \<notin> set (fst h) \<and>
     char_at (fst h) 0 \<noteq> CHR '' '' \<and> char_at (fst h) 0 \<noteq> TAB \<and> char_at (snd h) 0 \<noteq> CHR '' '' \<and>
     length (fst h) + length (snd h) < 2 ^ 30"

definition header_text :: "string \<times> string \<Rightarrow> string" where "header_text h = fst h @ '': '' @ snd h"

definition headers_text :: "evkeyvalq \<Rightarrow> byte list" where
  "headers_text hs = concat (map (\<lambda>h. to_bytes (header_text h) @ CRLF_bytes) hs)"

lemma put_headers_ok:
  assumes "\<forall>h \<in> set hs. header_ok h" "text_ready malloc out"
  shows "\<exists>out'. put_headers malloc hs out = Some out' \<and> text_ready malloc out' \<and>
    evbuffer_content out' = evbuffer_content out @ headers_text hs"
  using assms
proof (induction hs arbitrary: out)
  case (Cons h hs)
  let ?t = "fst h @ '': '' @ snd h @ [CR, LF]"
  have t: "?t = header_text h @ [CR, LF]" "to_bytes (header_text h @ [CR, LF]) = to_bytes (header_text h) @ CRLF_bytes"
    by (simp add: header_text_def) (simp only: to_bytes_simps to_bytes_CRLF)
  have "length ?t < 2 ^ 31 - 1" using Cons.prems(1) by (simp add: header_ok_def)
  then have "writes malloc ?t (uri_printf malloc ?t)" by (intro writes_printf) simp_all
  then obtain out1 where o: "uri_printf malloc ?t out = Some out1" "text_ready malloc out1"
    "evbuffer_content out1 = evbuffer_content out @ to_bytes (header_text h) @ CRLF_bytes"
    using Cons.prems(2) unfolding t(2)[symmetric] t(1)[symmetric] by (rule writesE)
  then show ?case
    using Cons.IH[OF _ o(2)] Cons.prems(1) by (auto simp: headers_text_def)
qed (simp add: headers_text_def)

lemma strchr_at: "d \<notin> set a \<Longrightarrow> d \<noteq> NUL \<Longrightarrow> strchr (a @ d # b) d = Some (length a)"
  using takeWhile_append2[of a "\<lambda>x. x \<noteq> d" "d # b"] by (fastforce simp: strchr_def Let_def)

lemma strsep_at: "d \<notin> set a \<Longrightarrow> d \<noteq> NUL \<Longrightarrow> strsep (a @ d # b) d = (a, Some b)"
  by (simp add: strsep_def strchr_at)

lemma strsep_none: "d \<notin> set a \<Longrightarrow> d \<noteq> NUL \<Longrightarrow> strsep a d = (a, None)"
  by (simp add: strsep_def strchr_none)

lemma char_facts: "CHR '' '' \<noteq> NUL" "CHR '':'' \<noteq> NUL" "CR \<noteq> NUL" "LF \<noteq> NUL" "TAB \<noteq> NUL" "CHR '':'' \<noteq> CHR '' ''" "CHR '':'' \<noteq> TAB"
  "CHR '':'' \<noteq> CR" "CHR '':'' \<noteq> LF" "CHR '' '' \<noteq> CR" "CHR '' '' \<noteq> LF"
  by (simp_all add: NUL_def CR_def LF_def TAB_def)

lemma plain_text_append [simp]: "plain_text (s @ t) \<longleftrightarrow> plain_text s \<and> plain_text t"
  "plain_text (c # s) \<longleftrightarrow> (c \<noteq> NUL \<and> c \<noteq> CR \<and> c \<noteq> LF) \<and> plain_text s" "plain_text []"
  by (simp_all add: plain_text_def)

lemma valid_plain_value: "plain_text v \<Longrightarrow> evhttp_header_is_valid_value v"
proof -
  assume "plain_text v"
  then have "\<forall>c \<in> set v. \<not> is_newline c" by (auto simp: plain_text_def list_all_iff is_newline_def)
  then have "dropWhile (\<lambda>c. \<not> is_newline c) v = []" by (simp add: dropWhile_eq_Nil_conv)
  then show ?thesis by (subst evhttp_header_is_valid_value.simps) simp
qed

lemma header_line_ok:
  assumes "header_ok h" "\<And>n. malloc n \<noteq> None"
  shows "header_line malloc hs (header_text h) = (0, hs @ [h])" "header_text h \<noteq> []" "plain_text (header_text h)"
proof -
  note H = assms(1)[unfolded header_ok_def]
  have first: "char_at (header_text h) 0 \<noteq> CHR '' ''" "char_at (header_text h) 0 \<noteq> TAB"
    using H char_facts by (cases "fst h"; simp add: header_text_def char_at_def)+
  have split: "strsep (header_text h) CHR '':'' = (fst h, Some (CHR '' '' # snd h))"
    using strsep_at[of "CHR '':''" "fst h" "CHR '' '' # snd h"] H char_facts by (simp add: header_text_def)
  have val: "dropWhile (\<lambda>c. c = CHR '' '') (CHR '' '' # snd h) = snd h"
    using H char_facts by (cases "snd h") (simp_all add: char_at_def)
  have key: "strchr (fst h) CR = None" "strchr (fst h) LF = None"
    using H char_facts by (intro strchr_none; auto simp: plain_text_def list_all_iff)+
  have "evhttp_add_header malloc hs (fst h) (snd h) = (0, hs @ [h])"
    using key valid_plain_value[of "snd h"] H add_header_internal_total[where malloc = malloc, OF assms(2)]
    by (simp add: evhttp_add_header_def)
  then show "header_line malloc hs (header_text h) = (0, hs @ [h])"
    using first split val by (simp add: header_line_def)
  show "header_text h \<noteq> []" by (simp add: header_text_def)
  show "plain_text (header_text h)" using H char_facts by (simp add: header_text_def)
qed

lemma headers_text_Cons: "headers_text (h # hs) = to_bytes (header_text h) @ CRLF_bytes @ headers_text hs"
  by (simp add: headers_text_def)

lemma parse_headers_loop_text:
  assumes "\<forall>h \<in> set hs. header_ok h" "text_ready malloc buf" "evbuffer_content buf = headers_text hs @ CRLF_bytes @ rest"
    and "length (evbuffer_content buf) < 2 ^ 63 - 1" "headers_size req + length (headers_text hs) < 2 ^ 64"
    and "headers_size req + length (headers_text hs) \<le> max_headers_size evcon"
  shows "\<exists>req' buf'. parse_headers_loop malloc (Some evcon) req buf = Some (ALL_DATA_READ, req', buf') \<and> text_ready malloc buf' \<and>
    evbuffer_content buf' = rest \<and> req' = req\<lparr>input_headers := input_headers req @ hs, headers_size := headers_size req'\<rparr>"
  using assms
proof (induction hs arbitrary: req buf)
  case Nil
  have c: "evbuffer_content buf = to_bytes [] @ CRLF_bytes @ rest" using Nil.prems(3) by (simp add: headers_text_def)
  obtain buf' where b: "evbuffer_readln malloc buf EVBUFFER_EOL_CRLF = Some (Some (to_bytes []), length ([] :: string), buf')"
    "text_ready malloc buf'" "evbuffer_content buf' = rest"
    using ready_line[OF Nil.prems(2) c _ Nil.prems(4)] by auto
  then show ?case
    using Nil.prems(5,6) by (subst parse_headers_loop.simps) (simp add: headers_text_def headers_too_long_def c_line_def of_bytes_def)
next
  case (Cons h hs)
  have h: "header_ok h" "\<forall>h \<in> set hs. header_ok h" using Cons.prems(1) by simp_all
  note m = text_readyD(6)[OF Cons.prems(2)]
  note H = header_line_ok[OF h(1) m]
  have c: "evbuffer_content buf = to_bytes (header_text h) @ CRLF_bytes @ headers_text hs @ CRLF_bytes @ rest"
    using Cons.prems(3) by (simp add: headers_text_Cons)
  obtain buf1 where b: "evbuffer_readln malloc buf EVBUFFER_EOL_CRLF = Some (Some (to_bytes (header_text h)), length (header_text h), buf1)"
    "text_ready malloc buf1" "evbuffer_content buf1 = headers_text hs @ CRLF_bytes @ rest"
    by (rule ready_line[OF Cons.prems(2) c H(3) Cons.prems(4)])
  define req1 where "req1 = req\<lparr>headers_size := headers_size req + length (header_text h), input_headers := input_headers req @ [h]\<rparr>"
  have len: "headers_size req1 + length (headers_text hs) < 2 ^ 64" "headers_size req1 + length (headers_text hs) \<le> max_headers_size evcon"
    using Cons.prems(5,6) by (simp_all add: req1_def headers_text_Cons)
  have small: "length (evbuffer_content buf1) < 2 ^ 63 - 1" using Cons.prems(4) b(3) c by simp
  have "parse_headers_loop malloc (Some evcon) req buf = parse_headers_loop malloc (Some evcon) req1 buf1"
    using b(1) H len c_line_to_bytes[OF plain_textD(3)[OF H(3)]]
    by (subst parse_headers_loop.simps) (simp add: req1_def headers_too_long_def)
  moreover obtain req' buf' where "parse_headers_loop malloc (Some evcon) req1 buf1 = Some (ALL_DATA_READ, req', buf')"
    "text_ready malloc buf'" "evbuffer_content buf' = rest" "req' = req1\<lparr>input_headers := input_headers req1 @ hs, headers_size := headers_size req'\<rparr>"
    using Cons.IH[OF h(2) b(2,3) small len] by (elim exE conjE) (rule that)
  ultimately show ?case
    by (intro exI[of _ req'] exI[of _ buf']) (simp add: req1_def)
qed

lemma parse_headers_text:
  assumes "\<forall>h \<in> set hs. header_ok h" "text_ready malloc buf" "evbuffer_content buf = headers_text hs @ CRLF_bytes @ rest"
    and "length (evbuffer_content buf) < 2 ^ 63 - 1" "headers_size req + length (headers_text hs) < 2 ^ 64"
    and "headers_size req + length (headers_text hs) \<le> max_headers_size evcon"
  shows "\<exists>req' buf'. evhttp_parse_headers malloc (Some evcon) req buf = Some (ALL_DATA_READ, req', buf') \<and> text_ready malloc buf' \<and>
    evbuffer_content buf' = rest \<and> req' = req\<lparr>input_headers := input_headers req @ hs, headers_size := headers_size req'\<rparr>"
  using parse_headers_loop_text[OF assms] by (auto simp: evhttp_parse_headers_def)

section \<open>The first line\<close>

definition version_text :: "int \<Rightarrow> int \<Rightarrow> string" where
  "version_text a b = ''HTTP/'' @ print_int a @ ''.'' @ print_int b"

definition request_line :: "string \<Rightarrow> string \<Rightarrow> int \<Rightarrow> int \<Rightarrow> string" where
  "request_line m u a b = m @ '' '' @ u @ '' '' @ version_text a b"

lemma digit_text: "list_all EVUTIL_ISDIGIT s \<Longrightarrow> plain_text s \<and> CHR '' '' \<notin> set s \<and> CHR '':'' \<notin> set s"
proof -
  assume a: "list_all EVUTIL_ISDIGIT s"
  have "\<not> EVUTIL_ISDIGIT NUL" "\<not> EVUTIL_ISDIGIT CR" "\<not> EVUTIL_ISDIGIT LF" "\<not> EVUTIL_ISDIGIT CHR '' ''" "\<not> EVUTIL_ISDIGIT CHR '':''"
    by (simp_all add: isdigit_iff code_in_def NUL_def CR_def LF_def)
  then show ?thesis using a by (fastforce simp: plain_text_def list_all_iff)
qed

lemma print_int_plain: "0 \<le> n \<Longrightarrow> plain_text (print_int n) \<and> CHR '' '' \<notin> set (print_int n) \<and> CHR '':'' \<notin> set (print_int n)"
  using digit_text[OF print_nat_facts(4)[of 10 "nat n"]] by (simp add: print_int_def)

lemma version_plain: "0 \<le> a \<Longrightarrow> 0 \<le> b \<Longrightarrow> plain_text (version_text a b) \<and> CHR '' '' \<notin> set (version_text a b)"
  using print_int_plain[of a] print_int_plain[of b] by (simp add: version_text_def NUL_def CR_def LF_def)

lemma sscanf_version_text:
  assumes "0 \<le> a" "a < 2 ^ 31" "0 \<le> b" "b < 2 ^ 31"
  shows "sscanf_version (version_text a b) = Some (a, b)"
proof -
  have dot: "\<not> EVUTIL_ISDIGIT CHR ''.''" by (simp add: isdigit_iff code_in_def)
  have "scan_int (print_int a @ ''.'' @ print_int b) = Some (a, ''.'' @ print_int b)"
    using scan_int_print[of "nat a" "''.'' @ print_int b"] assms dot by (simp add: print_int_def stops_def)
  moreover have "scan_int (print_int b) = Some (b, [])"
    using scan_int_print[of "nat b" "[]"] assms by (simp add: print_int_def stops_def)
  ultimately show ?thesis by (simp add: sscanf_version_def version_text_def char_at_def)
qed

lemma method_known:
  assumes "evhttp_method t = Some m" "t \<noteq> EVHTTP_REQ_CONNECT"
  shows "method_type m = t" "CHR '' '' \<notin> set m" "plain_text m" "length m < 8"
  using assms by (auto simp: evhttp_method_def method_type_def NUL_def CR_def LF_def split: if_splits)

text \<open>A request whose first line reads as the given values.\<close>

definition with_first_line :: "evhttp_request \<Rightarrow> u32 \<Rightarrow> string \<Rightarrow> evhttp_uri \<Rightarrow> int \<Rightarrow> int \<Rightarrow> nat \<Rightarrow> evhttp_request" where
  "with_first_line req t u elems a b n = req\<lparr>req_type := t, req_uri := Some u, uri_elems := Some elems, major := a, minor := b,
     headers_size := n\<rparr>"

lemma to_char_small: "0 \<le> v \<Longrightarrow> v < 128 \<Longrightarrow> to_char v = v"
  by (simp add: to_char_def signed_take_bit_int_eq_self)

lemma parse_request_line_text:
  assumes m: "evhttp_method t = Some m" "t \<noteq> EVHTTP_REQ_CONNECT" and u: "CHR '' '' \<notin> set u"
    and v: "0 \<le> a" "a \<le> 1" "0 \<le> b" "b < 128" and malloc: "\<And>n. malloc n \<noteq> None"
    and parsed: "evhttp_uri_parse_with_flags malloc words0 u EVHTTP_URI_NONCONFORMANT = Some elems" "proxy_request con elems = Some False"
  shows "evhttp_parse_request_line malloc words0 con (req\<lparr>headers_size := n\<rparr>) (request_line m u a b) =
    Some (0, with_first_line req t u elems a b n)"
proof -
  note M = method_known[OF m]
  have "strsep (request_line m u a b) CHR '' '' = (m, Some (u @ '' '' @ version_text a b))"
    using strsep_at[of "CHR '' ''" m "u @ '' '' @ version_text a b"] M(2) char_facts by (simp add: request_line_def)
  moreover have "strsep (u @ '' '' @ version_text a b) CHR '' '' = (u, Some (version_text a b))"
    using strsep_at[of "CHR '' ''" u "version_text a b"] u char_facts by simp
  moreover have "strsep (version_text a b) CHR '' '' = (version_text a b, None)"
    using version_plain[of a b] v char_facts by (intro strsep_none) simp_all
  moreover have "evhttp_parse_http_version (version_text a b) (req\<lparr>headers_size := n, req_type := t\<rparr>) =
      (0, req\<lparr>headers_size := n, req_type := t, major := a, minor := b\<rparr>)"
    using sscanf_version_text[of a b] v by (simp add: evhttp_parse_http_version_def to_char_small)
  ultimately show ?thesis
    using M(1) parsed mm_strdup_total[where s = u, OF malloc] by (simp add: evhttp_parse_request_line_def with_first_line_def)
qed

lemma parse_firstline_text:
  assumes m: "evhttp_method t = Some m" "t \<noteq> EVHTTP_REQ_CONNECT" and u: "CHR '' '' \<notin> set u" "plain_text u"
    and v: "0 \<le> a" "a \<le> 1" "0 \<le> b" "b < 128"
    and parsed: "evhttp_uri_parse_with_flags malloc words0 u EVHTTP_URI_NONCONFORMANT = Some elems" "proxy_request (Some evcon) elems = Some False"
    and buf: "text_ready malloc buf" "evbuffer_content buf = to_bytes (request_line m u a b) @ CRLF_bytes @ rest"
      "length (evbuffer_content buf) < 2 ^ 63 - 1"
    and limit: "length (request_line m u a b) \<le> max_headers_size evcon" and kind: "req_kind req = EVHTTP_REQUEST"
  shows "\<exists>buf'. evhttp_parse_firstline malloc words0 (Some evcon) req buf =
      Some (ALL_DATA_READ, with_first_line req t u elems a b (length (request_line m u a b)), buf') \<and>
    text_ready malloc buf' \<and> evbuffer_content buf' = rest"
proof -
  have plain: "plain_text (request_line m u a b)"
    using method_known(3)[OF m] u(2) version_plain[of a b] v char_facts by (simp add: request_line_def)
  obtain buf' where b: "evbuffer_readln malloc buf EVBUFFER_EOL_CRLF =
      Some (Some (to_bytes (request_line m u a b)), length (request_line m u a b), buf')" "text_ready malloc buf'" "evbuffer_content buf' = rest"
    by (rule ready_line[OF buf(1,2) plain buf(3)])
  note malloc = text_readyD(6)[OF buf(1)]
  show ?thesis
    using b limit kind parse_request_line_text[where con = "Some evcon" and malloc = malloc, OF m u(1) v malloc parsed]
      c_line_to_bytes[OF plain_textD(3)[OF plain]]
    by (simp add: evhttp_parse_firstline_def headers_too_long_def)
qed

section \<open>The request that is written\<close>

definition wants_length :: "evhttp_request \<Rightarrow> bool" where
  "wants_length req \<longleftrightarrow> req_type req = EVHTTP_REQ_POST \<or> req_type req = EVHTTP_REQ_PUT"

text \<open>The headers that are sent.\<close>

definition sent_headers :: "evhttp_request \<Rightarrow> evkeyvalq" where
  "sent_headers req = (let hs = snd (evhttp_remove_header (output_headers req) ''Proxy-Connection'') in
     if wants_length req \<and> evhttp_find_header hs ''Content-Length'' = None
     then hs @ [(''Content-Length'', print_nat 10 (length (evbuffer_content (output_buffer req))))] else hs)"

definition request_text :: "string \<Rightarrow> evhttp_request \<Rightarrow> byte list" where
  "request_text m req = to_bytes (request_line m (the (req_uri req)) (major req) (minor req)) @ CRLF_bytes @
     headers_text (sent_headers req) @ CRLF_bytes @ evbuffer_content (output_buffer req)"

lemma remove_header_subset: "set (snd (evhttp_remove_header hs k)) \<subseteq> set hs"
  by (induction hs) (auto simp: Let_def split: prod.splits)

lemma length_header_ok:
  assumes "n < 2 ^ 63"
  shows "header_ok (''Content-Length'', print_nat 10 n)"
proof -
  have d: "list_all EVUTIL_ISDIGIT (print_nat 10 n)" by (simp add: print_nat_facts)
  have "length (print_nat 10 n) \<le> 19" using assms by (intro print_nat_length) simp_all
  moreover have "char_at (print_nat 10 n) 0 \<noteq> CHR '' ''"
    using digit_text[OF d] print_nat_facts(1)[of 10 n] by (cases "print_nat 10 n") (auto simp: char_at_def)
  moreover have "char_at ''Content-Length'' 0 = CHR ''C''" by (simp add: char_at_def)
  ultimately show ?thesis
    using digit_text[OF d] by (simp add: header_ok_def NUL_def CR_def LF_def TAB_def)
qed

lemma sent_headers_ok:
  assumes "\<forall>h \<in> set (output_headers req). header_ok h" "length (evbuffer_content (output_buffer req)) < 2 ^ 63"
  shows "\<forall>h \<in> set (sent_headers req). header_ok h"
  using assms remove_header_subset[of "output_headers req" "''Proxy-Connection''"] length_header_ok[OF assms(2)]
  by (auto simp: sent_headers_def Let_def)

lemma header_added:
  assumes "header_ok (k, v)" "\<And>n. malloc n \<noteq> None"
  shows "evhttp_add_header malloc hs k v = (0, hs @ [(k, v)])"
proof -
  note H = assms(1)[unfolded header_ok_def]
  have "strchr k CR = None" "strchr k LF = None"
    using H char_facts by (intro strchr_none; auto simp: plain_text_def list_all_iff)+
  then show ?thesis
    using valid_plain_value[of v] H add_header_internal_total[where malloc = malloc, OF assms(2)] by (simp add: evhttp_add_header_def)
qed

lemma make_header_request_text:
  assumes m: "evhttp_method (req_type req) = Some m" "req_type req \<noteq> EVHTTP_REQ_CONNECT"
    and u: "req_uri req = Some u" "length u < 2 ^ 30" and v: "0 \<le> major req" "major req < 128" "0 \<le> minor req" "minor req < 128"
    and ready: "text_ready malloc (con_output evcon)" "text_ready malloc (output_buffer req)"
    and body: "length (evbuffer_content (output_buffer req)) < 2 ^ 63"
  shows "\<exists>out. evhttp_make_header_request malloc evcon req =
      Some (evcon\<lparr>con_output := out\<rparr>, req\<lparr>output_headers := sent_headers req\<rparr>) \<and> text_ready malloc out \<and>
    evbuffer_content out = evbuffer_content (con_output evcon) @ to_bytes (request_line m u (major req) (minor req)) @ CRLF_bytes"
proof -
  let ?t = "m @ '' '' @ u @ '' HTTP/'' @ print_int (major req) @ ''.'' @ print_int (minor req) @ [CR, LF]"
  have t: "?t = request_line m u (major req) (minor req) @ [CR, LF]" by (simp add: request_line_def version_text_def)
  have "length (print_int (major req)) \<le> 3" "length (print_int (minor req)) \<le> 3"
    using v print_nat_length[of 10 "nat (major req)" 3] print_nat_length[of 10 "nat (minor req)" 3] by (simp_all add: print_int_def)
  then have "length ?t < 2 ^ 31 - 1" using method_known(4)[OF m] u(2) by simp
  then have "writes malloc ?t (uri_printf malloc ?t)" by (intro writes_printf) simp_all
  then obtain out where o: "uri_printf malloc ?t (con_output evcon) = Some out" "text_ready malloc out"
    "evbuffer_content out = evbuffer_content (con_output evcon) @ to_bytes ?t"
    using ready(1) by (rule writesE)
  have bytes: "to_bytes ?t = to_bytes (request_line m u (major req) (minor req)) @ CRLF_bytes"
    unfolding t by (simp only: to_bytes_simps to_bytes_CRLF)
  have len: "evbuffer_get_length (output_buffer req) = length (evbuffer_content (output_buffer req))"
    by (rule text_readyD(8)[OF ready(2)])
  show ?thesis
    using o(1,2) o(3)[unfolded bytes] m(1) u(1) header_added[OF length_header_ok[OF body] text_readyD(6)[OF ready(1)]]
    by (intro exI[of _ out]) (simp add: evhttp_make_header_request_def sent_headers_def wants_length_def len Let_def)
qed

text \<open>A request that can be sent: what the writer relies on and what makes the text unambiguous.\<close>

definition sendable :: "allocator \<Rightarrow> evhttp_request \<Rightarrow> string \<Rightarrow> string \<Rightarrow> bool" where
  "sendable malloc req m u \<longleftrightarrow> req_kind req = EVHTTP_REQUEST \<and> evhttp_method (req_type req) = Some m \<and>
     req_type req \<noteq> EVHTTP_REQ_CONNECT \<and> req_uri req = Some u \<and> length u < 2 ^ 30 \<and> plain_text u \<and> CHR '' '' \<notin> set u \<and>
     0 \<le> major req \<and> major req \<le> 1 \<and> 0 \<le> minor req \<and> minor req < 128 \<and> list_all header_ok (output_headers req) \<and>
     text_ready malloc (output_buffer req)"

lemma sendableD:
  assumes "sendable malloc req m u"
  shows "req_kind req = EVHTTP_REQUEST" "evhttp_method (req_type req) = Some m" "req_type req \<noteq> EVHTTP_REQ_CONNECT" "req_uri req = Some u"
    "length u < 2 ^ 30" "plain_text u" "CHR '' '' \<notin> set u" "0 \<le> major req" "major req \<le> 1" "0 \<le> minor req" "minor req < 128"
    "\<forall>h \<in> set (output_headers req). header_ok h" "text_ready malloc (output_buffer req)"
  using assms by (auto simp: sendable_def list_all_iff)

lemma make_header_text:
  assumes req: "sendable malloc req m u" and out: "text_ready malloc (con_output evcon)"
    and body: "length (evbuffer_content (output_buffer req)) < 2 ^ 63"
  shows "\<exists>evcon' req'. evhttp_make_header malloc date evcon req = Some (evcon', req') \<and>
    output_headers req' = sent_headers req \<and> evbuffer_content (con_output evcon') = evbuffer_content (con_output evcon) @ request_text m req"
proof -
  note R = sendableD[OF req]
  obtain out1 where o1: "evhttp_make_header_request malloc evcon req =
      Some (evcon\<lparr>con_output := out1\<rparr>, req\<lparr>output_headers := sent_headers req\<rparr>)" "text_ready malloc out1"
    "evbuffer_content out1 = evbuffer_content (con_output evcon) @ to_bytes (request_line m u (major req) (minor req)) @ CRLF_bytes"
    using make_header_request_text[OF R(2,3,4,5,8) _ R(10,11) out R(13) body] R(9) by auto
  obtain out2 where o2: "put_headers malloc (sent_headers req) out1 = Some out2" "text_ready malloc out2"
    "evbuffer_content out2 = evbuffer_content out1 @ headers_text (sent_headers req)"
    using put_headers_ok[OF sent_headers_ok[OF R(12) body] o1(2)] by auto
  have "writes malloc [CR, LF] (uri_add malloc [CR, LF])" by (intro writes_add) simp
  then obtain out3 where o3: "uri_add malloc [CR, LF] out2 = Some out3" "text_ready malloc out3"
    "evbuffer_content out3 = evbuffer_content out2 @ CRLF_bytes"
    using o2(2) unfolding to_bytes_CRLF[symmetric] by (rule writesE)
  obtain out4 body4 where o4: "evbuffer_add_buffer malloc False out3 (output_buffer req) = Some (0, out4, body4)"
    "evbuffer_content out4 = evbuffer_content out3 @ evbuffer_content (output_buffer req)"
    by (rule ready_append[OF o3(2) R(13)])
  have whole: "evbuffer_content (con_output evcon) @ request_text m req = evbuffer_content out3 @ evbuffer_content (output_buffer req)"
    using R(4) o1(3) o2(3) o3(3) by (simp add: request_text_def)
  have len: "evbuffer_get_length (output_buffer req) = length (evbuffer_content (output_buffer req))"
    by (rule text_readyD(8)[OF R(13)])
  show ?thesis
  proof (cases "evbuffer_content (output_buffer req) = []")
    case True
    then show ?thesis using R(1) o1(1) o2(1) o3(1) whole len by (simp add: evhttp_make_header_def)
  next
    case False
    then show ?thesis using R(1) o1(1) o2(1) o3(1) o4 whole len by (simp add: evhttp_make_header_def)
  qed
qed

section \<open>The request that is read\<close>

text \<open>The length that the headers state, if the method has a body.\<close>

definition stated_length :: "evhttp_request \<Rightarrow> bool" where
  "stated_length req \<longleftrightarrow> evhttp_find_header (sent_headers req) ''Transfer-Encoding'' = None \<and>
     evhttp_find_header (sent_headers req) ''Expect'' = None \<and>
     evhttp_find_header (sent_headers req) ''Content-Length'' = Some (print_nat 10 (length (evbuffer_content (output_buffer req))))"

lemma find_header_append:
  "evhttp_find_header (hs @ hs') k = (case evhttp_find_header hs k of None \<Rightarrow> evhttp_find_header hs' k | Some v \<Rightarrow> Some v)"
  by (induction hs) auto

text \<open>The length of a body that the writer adds is the one the reader wants.\<close>

lemma added_length_stated:
  assumes "wants_length req" "evhttp_find_header (sent_headers req) ''Transfer-Encoding'' = None"
    and "evhttp_find_header (sent_headers req) ''Expect'' = None"
    and "evhttp_find_header (snd (evhttp_remove_header (output_headers req) ''Proxy-Connection'')) ''Content-Length'' = None"
  shows "stated_length req"
proof -
  have "is_c_string ''Content-Length''" by (simp add: is_c_string_def NUL_def)
  then show ?thesis
    using assms strcasecmp_0_iff[of "''Content-Length''" "''Content-Length''"]
    by (simp add: stated_length_def sent_headers_def find_header_append Let_def)
qed

lemma strtoll10_print: "n < 2 ^ 63 \<Longrightarrow> strtoll10 (print_nat 10 n) = (int n, [])"
  using strtol10_print[of n "[]"] by (simp add: strtoll10_def stops_def)

lemma get_body_length_text:
  assumes "evhttp_find_header (input_headers req) ''Content-Length'' = Some (print_nat 10 n)" "n < 2 ^ 63"
  shows "evhttp_get_body_length req = (0, req\<lparr>ntoread := int n\<rparr>)"
  using assms strtoll10_print[OF assms(2)] print_nat_facts(1)[of 10 n] by (simp add: evhttp_get_body_length_def)

text \<open>What the reader knows of the request after the headers.\<close>

definition headers_read :: "evhttp_request \<Rightarrow> evhttp_request \<Rightarrow> bool" where
  "headers_read req sreq \<longleftrightarrow> req_type sreq = req_type req \<and> req_uri sreq = req_uri req \<and> major sreq = major req \<and>
     minor sreq = minor req \<and> input_headers sreq = sent_headers req"

lemma read_body_end_plain:
  "read_body_end None evcon req =
     (if body_size req > max_body_size evcon \<or> (\<not> chunked req \<and> ntoread req \<ge> 0 \<and> nat (ntoread req) > max_body_size evcon)
      then Some (Connection_failed EVCON_HTTP_INVALID_HEADER, evcon, req)
      else if ntoread req = 0 then Some (Request_done, evcon\<lparr>reading := False\<rparr>, req) else Some (Waiting, evcon\<lparr>reading := True\<rparr>, req))"
  by (cases "evbuffer_get_length (input_buffer req) > 0") (simp_all add: read_body_end_def)

lemma read_body_stated:
  assumes "ntoread req = int n" "n \<noteq> 0" "\<not> chunked req" "body_size req = 0" "n \<le> max_body_size evcon" "n < 2 ^ 63"
    and "text_ready malloc (con_input evcon)" "text_ready malloc (input_buffer req)" "evbuffer_content (input_buffer req) = []"
    and "evbuffer_content (con_input evcon) = body @ rest" "length body = n"
  shows "\<exists>evcon' req'. evhttp_read_body malloc None evcon req = Some (Request_done, evcon', req') \<and>
    evbuffer_content (input_buffer req') = body \<and> evbuffer_content (con_input evcon') = rest \<and>
    (\<forall>r. headers_read r req \<longrightarrow> headers_read r req')"
proof -
  obtain k buf inp where mv0: "evbuffer_remove_buffer malloc False (con_input evcon) (input_buffer req) n = Some (k, buf, inp)"
    "evbuffer_content buf = drop n (evbuffer_content (con_input evcon))"
    "evbuffer_content inp = evbuffer_content (input_buffer req) @ take n (evbuffer_content (con_input evcon))"
    by (rule ready_move[OF assms(7,8)])
  then have mv: "evbuffer_remove_buffer malloc False (con_input evcon) (input_buffer req) n = Some (k, buf, inp)"
    "evbuffer_content buf = rest" "evbuffer_content inp = body"
    using assms(9-11) by simp_all
  have len: "evbuffer_get_length (con_input evcon) = n + length rest"
    using text_readyD(8)[OF assms(7)] assms(10,11) by simp
  show ?thesis
    using assms(1-6) mv len by (simp add: evhttp_read_body_def read_body_end_plain headers_read_def)
qed

lemma get_body_text:
  assumes req: "req_kind sreq = EVHTTP_REQUEST" "headers_read req sreq" "\<not> chunked sreq" "body_size sreq = 0"
    and stated: "evhttp_method_may_have_body (req_type req) \<longrightarrow> stated_length req"
    and body: "length (evbuffer_content (output_buffer req)) < 2 ^ 63" "length (evbuffer_content (output_buffer req)) \<le> max_body_size evcon"
    and inp: "text_ready malloc (con_input evcon)" "evbuffer_content (con_input evcon) = evbuffer_content (output_buffer req) @ rest"
    and buf: "text_ready malloc (input_buffer sreq)" "evbuffer_content (input_buffer sreq) = []"
  shows "\<exists>evcon' sreq'. evhttp_get_body malloc None evcon sreq = Some (Request_done, evcon', sreq') \<and> headers_read req sreq' \<and>
    (if evhttp_method_may_have_body (req_type req)
     then evbuffer_content (input_buffer sreq') = evbuffer_content (output_buffer req) \<and> evbuffer_content (con_input evcon') = rest
     else evbuffer_content (input_buffer sreq') = [] \<and> evbuffer_content (con_input evcon') = evbuffer_content (output_buffer req) @ rest)"
proof (cases "evhttp_method_may_have_body (req_type req)")
  case False
  then show ?thesis using req inp buf by (simp add: evhttp_get_body_def headers_read_def)
next
  case True
  let ?n = "length (evbuffer_content (output_buffer req))" and ?c = "evcon\<lparr>con_state := EVCON_READING_BODY\<rparr>"
  let ?r = "sreq\<lparr>ntoread := int ?n\<rparr>"
  have h: "evhttp_find_header (input_headers sreq) ''Transfer-Encoding'' = None" "evhttp_find_header (input_headers sreq) ''Expect'' = None"
    "evhttp_find_header (input_headers sreq) ''Content-Length'' = Some (print_nat 10 ?n)"
    using stated True req(2) by (simp_all add: stated_length_def headers_read_def)
  have l: "evhttp_get_body_length sreq = (0, ?r)" by (rule get_body_length_text[OF h(3) body(1)])
  have e: "expect_step malloc ?c ?r = Some (None, ?c)" using h(2) by (simp add: expect_step_def)
  have t: "evhttp_method_may_have_body (req_type sreq)" using True req(2) by (simp add: headers_read_def)
  show ?thesis
  proof (cases "?n = 0")
    case True
    then show ?thesis
      using t l h(1) req inp buf by (simp add: evhttp_get_body_def headers_read_def Let_def)
  next
    case False
    then have go: "evhttp_get_body malloc None evcon sreq = evhttp_read_body malloc None ?c ?r"
      using t l h(1) e req(1) by (simp add: evhttp_get_body_def Let_def)
    obtain evcon' sreq' where "evhttp_read_body malloc None ?c ?r = Some (Request_done, evcon', sreq')"
      "evbuffer_content (input_buffer sreq') = evbuffer_content (output_buffer req)" "evbuffer_content (con_input evcon') = rest"
      "\<forall>r. headers_read r ?r \<longrightarrow> headers_read r sreq'"
      using read_body_stated[of ?r ?n ?c malloc "evbuffer_content (output_buffer req)" rest] False req(3,4) body inp buf by auto
    then show ?thesis using go True req(2) by (auto simp: headers_read_def)
  qed
qed

lemma read_request_text:
  assumes req: "sendable malloc req m u" and stated: "evhttp_method_may_have_body (req_type req) \<longrightarrow> stated_length req"
    and uri: "evhttp_uri_parse_with_flags malloc words0 u EVHTTP_URI_NONCONFORMANT = Some elems" "proxy_request (Some srv) elems = Some False"
    and srv: "text_ready malloc (con_input srv)" "evbuffer_content (con_input srv) = request_text m req @ rest"
    and sreq: "req_kind sreq = EVHTTP_REQUEST" "input_headers sreq = []" "\<not> chunked sreq" "body_size sreq = 0"
      "text_ready malloc (input_buffer sreq)" "evbuffer_content (input_buffer sreq) = []"
    and limits: "length (request_line m u (major req) (minor req)) + length (headers_text (sent_headers req)) \<le> max_headers_size srv"
      "length (request_text m req @ rest) < 2 ^ 63 - 1" "length (evbuffer_content (output_buffer req)) \<le> max_body_size srv"
  shows "\<exists>srv' sreq'. evhttp_read_firstline malloc words0 None srv sreq = Some (Request_done, srv', sreq') \<and> headers_read req sreq' \<and>
    (if evhttp_method_may_have_body (req_type req)
     then evbuffer_content (input_buffer sreq') = evbuffer_content (output_buffer req) \<and> evbuffer_content (con_input srv') = rest
     else evbuffer_content (input_buffer sreq') = [] \<and> evbuffer_content (con_input srv') = evbuffer_content (output_buffer req) @ rest)"
proof -
  note R = sendableD[OF req]
  let ?line = "request_line m u (major req) (minor req)" and ?hs = "sent_headers req" and ?body = "evbuffer_content (output_buffer req)"
  define req1 where "req1 = with_first_line sreq (req_type req) u elems (major req) (minor req) (length ?line)"
  have body: "length ?body < 2 ^ 63" using limits(2) by (simp add: request_text_def)
  have whole: "evbuffer_content (con_input srv) = to_bytes ?line @ CRLF_bytes @ headers_text ?hs @ CRLF_bytes @ ?body @ rest"
    using srv(2) R(4) by (simp add: request_text_def)
  have small: "length (evbuffer_content (con_input srv)) < 2 ^ 63 - 1" using limits(2) srv(2) by simp
  obtain buf1 where f: "evhttp_parse_firstline malloc words0 (Some srv) sreq (con_input srv) = Some (ALL_DATA_READ, req1, buf1)"
    "text_ready malloc buf1" "evbuffer_content buf1 = headers_text ?hs @ CRLF_bytes @ ?body @ rest"
    using parse_firstline_text[OF R(2,3,7,6,8-11) uri srv(1) whole small _ sreq(1)] limits(1) unfolding req1_def by auto
  define srv1 where "srv1 = srv\<lparr>con_input := buf1, con_state := EVCON_READING_HEADERS\<rparr>"
  have size: "headers_size req1 = length ?line" by (simp add: req1_def with_first_line_def)
  have small1: "length (evbuffer_content buf1) < 2 ^ 63 - 1" using small whole f(3) by simp
  obtain req2 buf2 where h: "evhttp_parse_headers malloc (Some srv1) req1 buf1 = Some (ALL_DATA_READ, req2, buf2)"
    "text_ready malloc buf2" "evbuffer_content buf2 = ?body @ rest"
    "req2 = req1\<lparr>input_headers := input_headers req1 @ ?hs, headers_size := headers_size req2\<rparr>"
    using parse_headers_text[OF sent_headers_ok[OF R(12) body] f(2,3) small1, of req1 srv1] limits(1) small whole size
    by (auto simp: srv1_def)
  let ?c = "srv1\<lparr>con_input := buf2, reading := False\<rparr>"
  have kind: "req_kind req2 = EVHTTP_REQUEST" "\<not> chunked req2" "body_size req2 = 0" "input_buffer req2 = input_buffer sreq"
    by (subst h(4), simp add: req1_def with_first_line_def sreq)+
  have read: "headers_read req req2"
    by (subst h(4)) (simp add: headers_read_def req1_def with_first_line_def sreq R(4))
  have go: "evhttp_read_firstline malloc words0 None srv sreq = evhttp_get_body malloc None ?c req2"
    using f(1) h(1) kind(1) by (simp add: evhttp_read_firstline_def evhttp_read_header_def srv1_def)
  show ?thesis
    unfolding go using kind h(2,3) limits(3) sreq(5,6)
    by (intro get_body_text[OF kind(1) read kind(2,3) stated body]) (simp_all add: srv1_def)
qed


text \<open>A request with a body of three bytes for the concrete instance.\<close>

definition sample_post :: evhttp_request where
  "sample_post = the (evhttp_request_new Some)\<lparr>req_kind := EVHTTP_REQUEST, req_type := EVHTTP_REQ_POST, req_uri := Some ''/a'',
     major := 1, minor := 1, output_headers := [(''Host'', ''h'')], output_buffer := mem_buffer\<rparr>"

definition sample_incoming :: evhttp_request where
  "sample_incoming = the (evhttp_request_new Some)\<lparr>req_kind := EVHTTP_REQUEST\<rparr>"

lemma sample_post_fields:
  "req_kind sample_post = EVHTTP_REQUEST" "req_type sample_post = EVHTTP_REQ_POST" "req_uri sample_post = Some ''/a''"
  "major sample_post = 1" "minor sample_post = 1" "output_headers sample_post = [(''Host'', ''h'')]" "output_buffer sample_post = mem_buffer"
  "req_kind sample_incoming = EVHTTP_REQUEST" "input_headers sample_incoming = []" "\<not> chunked sample_incoming"
  "body_size sample_incoming = 0" "input_buffer sample_incoming = evbuffer_new"
  by (simp_all add: sample_post_def sample_incoming_def evhttp_request_new_def)

lemma sample_post_sendable: "sendable Some sample_post ''POST'' ''/a''"
  using sample_ready(2)
  by (simp add: sendable_def sample_post_fields header_ok_def char_at_def evhttp_method_def method_defs NUL_def CR_def LF_def TAB_def)

lemma sample_post_headers: "sent_headers sample_post = [(''Host'', ''h''), (''Content-Length'', ''3'')]"
proof -
  have d: "print_nat 10 (Suc (Suc (Suc 0))) = ''3''" by code_simp
  have c: "evutil_ascii_strcasecmp ''Host'' ''Proxy-Connection'' \<noteq> 0" "evutil_ascii_strcasecmp ''Host'' ''Content-Length'' \<noteq> 0"
    by code_simp+
  show ?thesis by (simp add: sent_headers_def sample_post_fields wants_length_def mem_buffer_ok d c)
qed

definition sample_words :: "u16 list" where "sample_words = replicate 8 0"

lemma sample_uri:
  obtains elems where "evhttp_uri_parse_with_flags Some sample_words ''/a'' EVHTTP_URI_NONCONFORMANT = Some elems"
    "scheme elems = None"
proof -
  have "case evhttp_uri_parse_with_flags Some sample_words ''/a'' EVHTTP_URI_NONCONFORMANT of
      None \<Rightarrow> False | Some elems \<Rightarrow> scheme elems = None"
    by code_simp
  then show thesis using that by (auto split: option.splits)
qed

lemma sample_text_length:
  "length (request_line ''POST'' ''/a'' 1 1) = 16" "length (headers_text (sent_headers sample_post)) = 28"
  "length (request_text ''POST'' sample_post) = 51"
  unfolding request_text_def headers_text_def sample_post_headers sample_post_fields by code_simp+


end
