(* ===== verification/Http_Total.thy ===== *)
theory Http_Total
  imports Http_Roundtrip
begin

text \<open>
  Whatever bytes a peer sends, \<open>evhttp_read_cb\<close> returns: no loop runs forever, no buffer operation fails its
  assertions, and a body is never larger than the limit of the connection.
\<close>

section \<open>What the reader keeps\<close>

definition con_ready :: "allocator \<Rightarrow> evhttp_connection \<Rightarrow> bool" where
  "con_ready malloc evcon \<longleftrightarrow> text_ready malloc (con_input evcon) \<and> text_ready malloc (con_output evcon) \<and>
     length (evbuffer_content (con_input evcon)) < 2 ^ 63 - 1"

text \<open>A version number is a \<open>char\<close>.\<close>

definition char_range :: "int \<Rightarrow> bool" where "char_range v \<longleftrightarrow> - 128 \<le> v \<and> v < 128"

definition req_ready :: "allocator \<Rightarrow> evhttp_request \<Rightarrow> bool" where
  "req_ready malloc req \<longleftrightarrow> chunk_ready malloc req \<and> char_range (major req) \<and> char_range (minor req)"

text \<open>The bytes of a body, and in a chunk those still to come, are counted, and the count is within the limit.\<close>

definition body_within :: "nat \<Rightarrow> evhttp_request \<Rightarrow> bool" where
  "body_within limit req \<longleftrightarrow>
     length (evbuffer_content (input_buffer req)) + nat (if chunked req then ntoread req else 0) \<le> body_size req \<and>
     body_size req \<le> limit"

text \<open>A connection that waits for more of a message.\<close>

definition waiting :: "evhttp_connection \<Rightarrow> evhttp_request \<Rightarrow> bool" where
  "waiting evcon req \<longleftrightarrow> con_state evcon = EVCON_READING_BODY \<or> con_state evcon = EVCON_READING_TRAILER \<or>
     (con_state evcon = EVCON_READING_FIRSTLINE \<or> con_state evcon = EVCON_READING_HEADERS) \<and> \<not> chunked req"

text \<open>How a handler of a connection returns.\<close>

definition handled :: "allocator \<Rightarrow> evhttp_connection \<Rightarrow> evhttp_request \<Rightarrow> read_result \<Rightarrow> bool" where
  "handled malloc evcon req res \<longleftrightarrow> (\<exists>out evcon' req'. res = Some (out, evcon', req') \<and> con_ready malloc evcon' \<and> req_ready malloc req' \<and>
     max_body_size evcon' = max_body_size evcon \<and> http_server evcon' = http_server evcon \<and> req_kind req' = req_kind req \<and>
     length (evbuffer_content (con_input evcon')) \<le> length (evbuffer_content (con_input evcon)) \<and>
     (out = Waiting \<longrightarrow> waiting evcon' req') \<and>
     (max_body_size evcon < 2 ^ 63 \<longrightarrow> body_within (max_body_size evcon) req \<longrightarrow> (\<forall>e. out \<noteq> Connection_failed e) \<longrightarrow> body_within (max_body_size evcon) req'))"

text \<open>What parsing of lines leaves as it is.\<close>

definition body_same :: "evhttp_request \<Rightarrow> evhttp_request \<Rightarrow> bool" where
  "body_same req req' \<longleftrightarrow> input_buffer req' = input_buffer req \<and> ntoread req' = ntoread req \<and> body_size req' = body_size req \<and>
     chunked req' = chunked req \<and> req_kind req' = req_kind req"

lemma body_same_refl [simp]: "body_same req req" by (simp add: body_same_def)

lemma body_same_trans: "body_same a b \<Longrightarrow> body_same b c \<Longrightarrow> body_same a c" by (simp add: body_same_def)

lemma body_same_within: "body_same req req' \<Longrightarrow> body_within limit req' = body_within limit req"
  by (simp add: body_same_def body_within_def)

lemma handled_cong:
  assumes "handled malloc evcon' req' res" "max_body_size evcon' = max_body_size evcon" "http_server evcon' = http_server evcon"
    and "req_kind req' = req_kind req" "length (evbuffer_content (con_input evcon')) \<le> length (evbuffer_content (con_input evcon))"
    and "max_body_size evcon < 2 ^ 63 \<Longrightarrow> body_within (max_body_size evcon) req \<Longrightarrow> body_within (max_body_size evcon) req'"
  shows "handled malloc evcon req res"
  using assms by (fastforce simp: handled_def intro: le_trans)

lemma handled_Some:
  "handled malloc evcon req (Some (out, evcon', req')) \<longleftrightarrow> con_ready malloc evcon' \<and> req_ready malloc req' \<and>
     max_body_size evcon' = max_body_size evcon \<and> http_server evcon' = http_server evcon \<and> req_kind req' = req_kind req \<and>
     length (evbuffer_content (con_input evcon')) \<le> length (evbuffer_content (con_input evcon)) \<and>
     (out = Waiting \<longrightarrow> waiting evcon' req') \<and>
     (max_body_size evcon < 2 ^ 63 \<longrightarrow> body_within (max_body_size evcon) req \<longrightarrow> (\<forall>e. out \<noteq> Connection_failed e) \<longrightarrow>
       body_within (max_body_size evcon) req')"
  by (simp add: handled_def)

section \<open>Lines\<close>

lemma readln_total:
  assumes "text_ready malloc b" "length (evbuffer_content b) < 2 ^ 63 - 1"
  obtains (none) "evbuffer_readln malloc b EVBUFFER_EOL_CRLF = Some (None, 0, b)"
  | (line) bs n b' where "evbuffer_readln malloc b EVBUFFER_EOL_CRLF = Some (Some bs, n, b')" "text_ready malloc b'"
      "length (evbuffer_content b') < length (evbuffer_content b)"
proof (cases "line_end EVBUFFER_EOL_CRLF (evbuffer_content b)")
  case None
  then show thesis using ready_readln[OF assms] none by simp
next
  case (Some il)
  obtain i l where "il = (i, l)" by (cases il)
  then show thesis using ready_readln[OF assms] Some line line_end_length[of "evbuffer_content b" i l] by fastforce
qed

lemma headers_loop_total:
  assumes "text_ready malloc buf" "length (evbuffer_content buf) < 2 ^ 63 - 1"
  shows "\<exists>st req' buf'. parse_headers_loop malloc con req buf = Some (st, req', buf') \<and> text_ready malloc buf' \<and>
    length (evbuffer_content buf') \<le> length (evbuffer_content buf) \<and> body_same req req' \<and> major req' = major req \<and> minor req' = minor req"
  using assms
proof (induction "length (evbuffer_content buf)" arbitrary: req buf rule: less_induct)
  case less
  show ?case
  proof (cases rule: readln_total[OF less.prems])
    case 1
    then show ?thesis using less.prems by (subst parse_headers_loop.simps) simp
  next
    case (2 bs n b')
    define req1 where "req1 = req\<lparr>headers_size := (headers_size req + n) mod 2 ^ 64\<rparr>"
    obtain r hs where h: "header_line malloc (input_headers req) (c_line bs) = (r, hs)" by (cases "header_line malloc (input_headers req) (c_line bs)")
    define req2 where "req2 = req1\<lparr>input_headers := hs\<rparr>"
    have small: "length (evbuffer_content b') < 2 ^ 63 - 1" using 2(3) less.prems(2) by simp
    have same: "body_same req req1" "body_same req req2" "major req2 = major req" "minor req2 = minor req"
      by (simp_all add: body_same_def req1_def req2_def)
    note step = parse_headers_loop.simps[of malloc con req buf, unfolded 2(1) Let_def, folded req1_def]
    consider (long) "headers_too_long con (headers_size req1)" | (last) "\<not> headers_too_long con (headers_size req1)" "c_line bs = []"
      | (bad) "\<not> headers_too_long con (headers_size req1)" "c_line bs \<noteq> []" "r = - 1"
      | (go) "\<not> headers_too_long con (headers_size req1)" "c_line bs \<noteq> []" "r \<noteq> - 1" by blast
    then show ?thesis
    proof cases
      case go
      have e: "parse_headers_loop malloc con req buf = parse_headers_loop malloc con req2 b'"
        using go h step by (simp add: req2_def req1_def)
      obtain st req' buf' where "parse_headers_loop malloc con req2 b' = Some (st, req', buf')" "text_ready malloc buf'"
        "length (evbuffer_content buf') \<le> length (evbuffer_content b')" "body_same req2 req'" "major req' = major req2" "minor req' = minor req2"
        using less.hyps[OF 2(3,2) small, of req2] by (elim exE conjE) (rule that)
      then show ?thesis
        using e 2(3) same body_same_trans by (intro exI[of _ st] exI[of _ req'] exI[of _ buf']) auto
    qed (use step h 2 same in \<open>auto simp: req1_def body_same_def\<close>)
  qed
qed

lemma parse_headers_total:
  assumes "text_ready malloc buf" "length (evbuffer_content buf) < 2 ^ 63 - 1"
  obtains st req' buf' where "evhttp_parse_headers malloc con req buf = Some (st, req', buf')" "text_ready malloc buf'"
    "length (evbuffer_content buf') \<le> length (evbuffer_content buf)" "body_same req req'" "major req' = major req" "minor req' = minor req"
proof -
  obtain st req' buf' where p: "parse_headers_loop malloc con req buf = Some (st, req', buf')" "text_ready malloc buf'"
    "length (evbuffer_content buf') \<le> length (evbuffer_content buf)" "body_same req req'" "major req' = major req" "minor req' = minor req"
    using headers_loop_total[OF assms, of con req] by (elim exE conjE) (rule that)
  show thesis by (rule that[OF _ p(2-6)]) (simp add: evhttp_parse_headers_def p(1))
qed

lemma to_char_range: "char_range (to_char v)"
  using signed_take_bit_int_less_exp[of 7 v] signed_take_bit_int_greater_eq_minus_exp[of 7 v] by (simp add: char_range_def to_char_def)

text \<open>The parsers of a first line return, and change only what the line says.\<close>

definition line_parsed :: "evhttp_request \<Rightarrow> evhttp_request \<Rightarrow> bool" where
  "line_parsed req req' \<longleftrightarrow> body_same req req' \<and>
     (char_range (major req) \<and> char_range (minor req) \<longrightarrow> char_range (major req') \<and> char_range (minor req'))"

lemma http_version_parsed: "evhttp_parse_http_version v req = (r, req') \<Longrightarrow> line_parsed req req'"
  by (auto simp: evhttp_parse_http_version_def line_parsed_def body_same_def to_char_range split: option.splits if_splits)

lemma line_parsed_update [simp]:
  "line_parsed req (req'\<lparr>req_uri := u\<rparr>) = line_parsed req req'" "line_parsed req (req'\<lparr>uri_elems := e\<rparr>) = line_parsed req req'"
  "line_parsed req (req'\<lparr>req_flags := f\<rparr>) = line_parsed req req'" "line_parsed req (req'\<lparr>response_code := c\<rparr>) = line_parsed req req'"
  "line_parsed req (req'\<lparr>response_code_line := l\<rparr>) = line_parsed req req'" "line_parsed (req\<lparr>req_type := t\<rparr>) req' = line_parsed req req'"
  "line_parsed (req\<lparr>headers_size := n\<rparr>) req' = line_parsed req req'" "line_parsed req req"
  by (simp_all add: line_parsed_def body_same_def)

lemma request_line_total:
  assumes "case con of None \<Rightarrow> False | Some evcon \<Rightarrow> http_server evcon \<noteq> None"
  shows "\<exists>r req'. evhttp_parse_request_line malloc words0 con req line = Some (r, req') \<and> line_parsed req req'"
proof -
  have proxy: "proxy_request con u \<noteq> None" for u
    using assms by (auto simp: proxy_request_def split: option.splits)
  obtain m l1 where s1: "strsep line CHR '' '' = (m, l1)" by fastforce
  show ?thesis
  proof (cases l1)
    case (Some x1)
    obtain u l2 where s2: "strsep x1 CHR '' '' = (u, l2)" by fastforce
    show ?thesis
    proof (cases l2)
      case (Some x2)
      obtain version l3 where s3: "strsep x2 CHR '' '' = (version, l3)" by fastforce
      obtain r req1 where v: "evhttp_parse_http_version version (req\<lparr>req_type := method_type m\<rparr>) = (r, req1)" by fastforce
      have req1: "line_parsed req req1" using http_version_parsed[OF v] by simp
      note code = evhttp_parse_request_line_def s1 s2 s3 v \<open>l1 = Some x1\<close> Some
      consider "l3 \<noteq> None \<or> r < 0 \<or> mm_strdup malloc u = None"
        | u' where "l3 = None" "\<not> r < 0" "mm_strdup malloc u = Some u'" by fastforce
      then show ?thesis
      proof cases
        case 1
        then show ?thesis using req1 by (cases l3; cases "mm_strdup malloc u") (auto simp: code)
      next
        case 2
        show ?thesis
        proof (cases "evhttp_uri_parse_with_flags malloc words0 u' EVHTTP_URI_NONCONFORMANT")
          case None
          then show ?thesis using 2 req1 by (simp add: code Let_def)
        next
          case (Some elems)
          moreover obtain y where "proxy_request con elems = Some y" using proxy[of elems] by blast
          ultimately show ?thesis using 2 req1 by (cases y) (simp_all add: code \<open>l2 = Some x2\<close>)
        qed
      qed
    qed (simp add: evhttp_parse_request_line_def s1 s2 \<open>l1 = Some x1\<close>)
  qed (simp add: evhttp_parse_request_line_def s1)
qed

lemma response_line_total: "evhttp_parse_response_line malloc req line = (r, req') \<Longrightarrow> line_parsed req req'"
  using http_version_parsed by (fastforce simp: evhttp_parse_response_line_def Let_def split: prod.splits option.splits if_splits)

lemma parse_firstline_total:
  assumes "text_ready malloc buf" "length (evbuffer_content buf) < 2 ^ 63 - 1"
    and "req_kind req = EVHTTP_REQUEST \<longrightarrow> http_server evcon \<noteq> None"
  obtains st req' buf' where "evhttp_parse_firstline malloc words0 (Some evcon) req buf = Some (st, req', buf')" "text_ready malloc buf'"
    "length (evbuffer_content buf') \<le> length (evbuffer_content buf)" "line_parsed req req'"
proof (cases rule: readln_total[OF assms(1,2)])
  case 1
  show thesis
    by (rule that[of "if headers_too_long (Some evcon) (evbuffer_get_length buf) then DATA_TOO_LONG else MORE_DATA_EXPECTED" req buf])
      (simp_all add: evhttp_parse_firstline_def 1 assms(1))
next
  case (2 bs n b')
  show thesis
  proof (cases "headers_too_long (Some evcon) n")
    case True
    then show thesis using 2(2,3) by (intro that[of DATA_TOO_LONG req b']) (simp_all add: evhttp_parse_firstline_def 2(1))
  next
    case False
    have "\<exists>r req'. (case req_kind req of
        EVHTTP_REQUEST \<Rightarrow> evhttp_parse_request_line malloc words0 (Some evcon) (req\<lparr>headers_size := n\<rparr>) (c_line bs)
      | EVHTTP_RESPONSE \<Rightarrow> Some (evhttp_parse_response_line malloc (req\<lparr>headers_size := n\<rparr>) (c_line bs))) = Some (r, req') \<and>
      line_parsed req req'"
    proof (cases "req_kind req")
      case EVHTTP_REQUEST
      then show ?thesis
        using request_line_total[of "Some evcon" malloc words0 "req\<lparr>headers_size := n\<rparr>" "c_line bs"] assms(3) by simp
    next
      case EVHTTP_RESPONSE
      then show ?thesis
        using response_line_total[of malloc "req\<lparr>headers_size := n\<rparr>" "c_line bs"]
        by (cases "evhttp_parse_response_line malloc (req\<lparr>headers_size := n\<rparr>) (c_line bs)") simp
    qed
    then obtain r req' where l: "(case req_kind req of
        EVHTTP_REQUEST \<Rightarrow> evhttp_parse_request_line malloc words0 (Some evcon) (req\<lparr>headers_size := n\<rparr>) (c_line bs)
      | EVHTTP_RESPONSE \<Rightarrow> Some (evhttp_parse_response_line malloc (req\<lparr>headers_size := n\<rparr>) (c_line bs))) = Some (r, req')"
      "line_parsed req req'" by (elim exE conjE) (rule that)
    show thesis
      using False 2(2,3) l(2)
      by (intro that[of "if r = - 1 then DATA_CORRUPTED else ALL_DATA_READ" req' b']) (simp_all add: evhttp_parse_firstline_def 2(1) l(1))
  qed
qed

section \<open>The body\<close>

definition chunk_within :: "nat \<Rightarrow> chunk_state \<Rightarrow> bool" where
  "chunk_within limit s = (case s of (nt, sz, out) \<Rightarrow> length out + nat nt \<le> sz \<and> sz \<le> limit)"

lemma chunk_run_within: "chunk_run limit s d = (st, s', r) \<Longrightarrow> chunk_within limit s \<Longrightarrow> chunk_within limit s'"
proof (induction limit s d rule: chunk_run.induct)
  case (1 limit nt sz out d)
  show ?case
  proof (cases rule: chunk_run_cases[of d nt])
    case wait
    then show ?thesis using 1(4,5) chunk_run_wait[OF wait, of limit sz out] by simp
  next
    case (line i l)
    note code = chunk_run_line[OF line, of limit sz out, unfolded Let_def]
    consider (blank) "c_line (take i d) = []" | (bad) "c_line (take i d) \<noteq> []" "chunk_size (c_line (take i d)) = None"
      | (size) n where "c_line (take i d) \<noteq> []" "chunk_size (c_line (take i d)) = Some n" by blast
    then show ?thesis
    proof cases
      case blank
      then show ?thesis using 1(1)[OF line(1,2,3) refl blank] 1(4,5) code by simp
    next
      case bad
      then show ?thesis using 1(4,5) code by auto
    next
      case (size n)
      then show ?thesis
        using 1(2)[OF line(1,2,3) refl size] 1(4,5) code chunk_size_bound[OF size(2)]
        by (auto simp: chunk_within_def split: if_splits)
    qed
  next
    case data
    have "chunk_within limit (- 1, sz, out @ take (nat nt) d)" using 1(5) data by (auto simp: chunk_within_def)
    then show ?thesis using 1(3) 1(4) data chunk_run_data[OF data, of limit sz out] by auto
  qed
qed

lemma con_ready_simps [simp]:
  "con_ready malloc (evcon\<lparr>reading := a\<rparr>) = con_ready malloc evcon" "con_ready malloc (evcon\<lparr>con_state := st\<rparr>) = con_ready malloc evcon"
  "con_ready malloc (evcon\<lparr>writing := a\<rparr>) = con_ready malloc evcon" "con_ready malloc (evcon\<lparr>read_cb := a\<rparr>) = con_ready malloc evcon"
  "con_ready malloc (evcon\<lparr>read_more := a\<rparr>) = con_ready malloc evcon" "con_ready malloc (evcon\<lparr>con_cb := cb\<rparr>) = con_ready malloc evcon"
  by (simp_all add: con_ready_def)

lemma con_ready_input:
  assumes "con_ready malloc evcon" "text_ready malloc buf" "length (evbuffer_content buf) \<le> length (evbuffer_content (con_input evcon))"
  shows "con_ready malloc (evcon\<lparr>con_input := buf\<rparr>)"
  using assms by (simp add: con_ready_def)

lemma con_readyD:
  assumes "con_ready malloc evcon"
  shows "text_ready malloc (con_input evcon)" "length (evbuffer_content (con_input evcon)) < 2 ^ 63 - 1" "text_ready malloc (con_output evcon)"
  using assms by (simp_all add: con_ready_def)

lemma req_ready_same:
  assumes "req_ready malloc req" "body_same req req'" "major req' = major req" "minor req' = minor req"
  shows "req_ready malloc req'"
  using assms by (simp add: req_ready_def chunk_ready_def body_same_def)

lemma read_trailer_total:
  assumes "con_ready malloc evcon" "req_ready malloc req" "waiting evcon req"
  shows "handled malloc evcon req (evhttp_read_trailer malloc evcon req)"
proof -
  obtain st req' buf' where p: "evhttp_parse_headers malloc (Some evcon) req (con_input evcon) = Some (st, req', buf')" "text_ready malloc buf'"
    "length (evbuffer_content buf') \<le> length (evbuffer_content (con_input evcon))" "body_same req req'" "major req' = major req" "minor req' = minor req"
    by (rule parse_headers_total[OF con_readyD(1,2)[OF assms(1)]])
  have r: "con_ready malloc (evcon\<lparr>con_input := buf'\<rparr>)" "req_ready malloc req'"
    using con_ready_input[OF assms(1) p(2,3)] req_ready_same[OF assms(2) p(4-6)] by simp_all
  show ?thesis
    using r assms(3) p(3,4) body_same_within[OF p(4)]
    by (cases st) (simp_all add: evhttp_read_trailer_def p(1) handled_Some body_same_def waiting_def)
qed

lemma read_body_end_total:
  assumes "con_ready malloc evcon" "req_ready malloc req" "max_body_size evcon = max_body_size con0"
    and "http_server evcon = http_server con0" "req_kind req = req_kind req0" "waiting evcon req"
    and "length (evbuffer_content (con_input evcon)) \<le> length (evbuffer_content (con_input con0))"
    and "max_body_size con0 < 2 ^ 63 \<Longrightarrow> body_within (max_body_size con0) req0 \<Longrightarrow>
      length (evbuffer_content (input_buffer req)) + nat (if chunked req then ntoread req else 0) \<le> body_size req"
  shows "handled malloc con0 req0 (read_body_end None evcon req)"
  using assms by (auto simp: read_body_end_plain handled_Some body_within_def waiting_def)

lemma read_chunked_total:
  assumes c: "con_ready malloc evcon" and r: "req_ready malloc req" and ch: "chunked req" and wt: "waiting evcon req"
  shows "handled malloc evcon req (evhttp_read_body malloc None evcon req)"
proof -
  let ?limit = "max_body_size evcon"
  note C = con_readyD[OF c]
  obtain st s' rest where run: "chunk_run ?limit (chunk_view req) (evbuffer_content (con_input evcon)) = (st, s', rest)"
    by (cases "chunk_run ?limit (chunk_view req) (evbuffer_content (con_input evcon))")
  have cr: "chunk_ready malloc req" using r by (simp add: req_ready_def)
  obtain req1 buf1 where h: "evhttp_handle_chunked_read malloc evcon None req (con_input evcon) = Some (st, req1, buf1)" "text_ready malloc buf1"
    "evbuffer_content buf1 = rest" "chunk_ready malloc req1" "chunk_view req1 = s'" "body_changed req req1"
    using chunked_read_run[OF run refl refl refl C(1) cr C(2)] by (elim exE conjE) (rule that)
  have c1: "con_ready malloc (evcon\<lparr>con_input := buf1\<rparr>)"
    using con_ready_input[OF c h(2)] chunk_run_rest[OF run] h(3) by simp
  have le: "length (evbuffer_content buf1) \<le> length (evbuffer_content (con_input evcon))"
    using chunk_run_rest[OF run] h(3) by simp
  have eq: "major req1 = major req" "minor req1 = minor req" "chunked req1 = chunked req" "req_kind req1 = req_kind req"
    by (subst h(6)[unfolded body_changed_def], simp)+
  have r1: "req_ready malloc req1" using r h(4) eq by (simp add: req_ready_def)
  have w: "body_within ?limit req1" if "body_within ?limit req"
  proof -
    have "chunk_within ?limit (chunk_view req)" using that ch by (simp add: body_within_def chunk_within_def chunk_view_def)
    then have "chunk_within ?limit (chunk_view req1)" using chunk_run_within[OF run] h(5) by simp
    then show ?thesis using ch eq(3) by (simp add: body_within_def chunk_within_def chunk_view_def)
  qed
  let ?c = "evcon\<lparr>con_input := buf1\<rparr>"
  show ?thesis
  proof (cases st)
    case ALL_DATA_READ
    have "handled malloc evcon req (evhttp_read_trailer malloc (?c\<lparr>con_state := EVCON_READING_TRAILER\<rparr>) req1)"
      by (rule handled_cong[OF read_trailer_total]) (use c1 r1 w eq le in \<open>simp_all add: waiting_def\<close>)
    then show ?thesis using ch h(1) ALL_DATA_READ by (simp add: evhttp_read_body_def)
  next
    case MORE_DATA_EXPECTED
    have "handled malloc evcon req (read_body_end None ?c req1)"
      using w wt eq le by (intro read_body_end_total[OF c1 r1]) (simp_all add: body_within_def waiting_def)
    then show ?thesis using ch h(1) MORE_DATA_EXPECTED by (simp add: evhttp_read_body_def)
  qed (use ch h(1) c1 r1 w eq le in \<open>simp_all add: evhttp_read_body_def handled_Some\<close>)
qed

lemma read_body_total:
  assumes c: "con_ready malloc evcon" and r: "req_ready malloc req" and wt: "waiting evcon req"
  shows "handled malloc evcon req (evhttp_read_body malloc None evcon req)"
proof (cases "chunked req")
  case False
  let ?in = "evbuffer_content (con_input evcon)" and ?rb = "evbuffer_content (input_buffer req)"
  note C = con_readyD[OF c]
  have R: "text_ready malloc (input_buffer req)" "ntoread req \<le> int EV_SSIZE_MAX" "char_range (major req)" "char_range (minor req)"
    using r by (simp_all add: req_ready_def chunk_ready_def)
  have len: "evbuffer_get_length (con_input evcon) = length ?in" by (rule text_readyD(8)[OF C(1)])
  consider (close) "ntoread req < 0" | (move) "0 \<le> ntoread req" "length ?in \<ge> nat (ntoread req)" | (wait) "0 \<le> ntoread req" "length ?in < nat (ntoread req)"
    by linarith
  then show ?thesis
  proof cases
    case close
    obtain inp buf where m: "evbuffer_add_buffer malloc False (input_buffer req) (con_input evcon) = Some (0, inp, buf)" "text_ready malloc inp"
      "text_ready malloc buf" "evbuffer_content inp = ?rb @ ?in" "evbuffer_content buf = []"
      by (rule ready_append[OF R(1) C(1)])
    let ?r = "req\<lparr>body_size := body_size req + length ?in, input_buffer := inp\<rparr>" and ?c = "evcon\<lparr>con_input := buf\<rparr>"
    have "handled malloc evcon req (read_body_end None ?c ?r)"
      by (rule read_body_end_total) (use con_ready_input[OF c m(3)] m(2,4,5) R False wt in
        \<open>simp_all add: req_ready_def chunk_ready_def body_within_def waiting_def\<close>)
    moreover have "evhttp_read_body malloc None evcon req = (if body_size req + length ?in > EV_SIZE_MAX
        then Some (Connection_failed EVCON_HTTP_INVALID_HEADER, evcon, req) else read_body_end None ?c ?r)"
      using False close m(1) len by (simp add: evhttp_read_body_def Let_def)
    ultimately show ?thesis using c r by (simp add: handled_Some)
  next
    case move
    let ?n = "nat (ntoread req)"
    obtain k buf inp where m: "evbuffer_remove_buffer malloc False (con_input evcon) (input_buffer req) ?n = Some (k, buf, inp)"
      "text_ready malloc buf" "text_ready malloc inp" "evbuffer_content buf = drop ?n ?in" "evbuffer_content inp = ?rb @ take ?n ?in"
      by (rule ready_move[OF C(1) R(1)])
    let ?r = "req\<lparr>ntoread := ntoread req - int ?n, body_size := (body_size req + ?n) mod 2 ^ 64, input_buffer := inp\<rparr>"
      and ?c = "evcon\<lparr>con_input := buf\<rparr>"
    have "handled malloc evcon req (read_body_end None ?c ?r)"
      by (rule read_body_end_total) (use con_ready_input[OF c m(2)] m(3-5) R False move C(2) wt in
        \<open>simp_all add: req_ready_def chunk_ready_def body_within_def EV_SSIZE_MAX_def waiting_def\<close>)
    then show ?thesis
      using False move m(1) len by (simp add: evhttp_read_body_def)
  next
    case wait
    have "handled malloc evcon req (read_body_end None evcon req)"
      using False wt by (intro read_body_end_total[OF c r]) (simp_all add: body_within_def)
    then show ?thesis using False wait len by (simp add: evhttp_read_body_def)
  qed
qed (rule read_chunked_total[OF c r _ wt])

section \<open>Every handler\<close>

lemma send_continue_total:
  assumes "con_ready malloc evcon" "req_ready malloc req"
  obtains evcon' where "evhttp_send_continue malloc evcon req = Some evcon'" "con_ready malloc evcon'" "max_body_size evcon' = max_body_size evcon"
    "http_server evcon' = http_server evcon" "con_state evcon' = con_state evcon" "con_input evcon' = con_input evcon"
proof -
  let ?t = "''HTTP/'' @ print_int (major req) @ ''.'' @ print_int (minor req) @ '' 100 Continue'' @ [CR, LF, CR, LF]"
  have small: "length (print_int v) \<le> 4" if "char_range v" for v
  proof -
    have "nat v < 10 ^ 3" "nat (- v) < 10 ^ 3" using that by (auto simp: char_range_def nat_less_iff)
    then have "length (print_nat 10 (nat v)) \<le> 3" "length (print_nat 10 (nat (- v))) \<le> 3" by (intro print_nat_length; simp)+
    then show ?thesis by (simp add: print_int_def)
  qed
  have "length ?t < 2 ^ 31 - 1" using assms(2) small[of "major req"] small[of "minor req"] by (simp add: req_ready_def)
  then have "writes malloc ?t (uri_printf malloc ?t)" by (intro writes_printf) simp_all
  then obtain out where "uri_printf malloc ?t (con_output evcon) = Some out" "text_ready malloc out"
    using con_readyD(3)[OF assms(1)] by (rule writesE)
  then show thesis
    using that assms(1) by (simp add: evhttp_send_continue_def con_ready_def)
qed

lemma expect_step_total:
  assumes "con_ready malloc evcon" "req_ready malloc req"
  obtains stop evcon' where "expect_step malloc evcon req = Some (stop, evcon')" "con_ready malloc evcon'" "max_body_size evcon' = max_body_size evcon"
    "http_server evcon' = http_server evcon" "con_state evcon' = con_state evcon" "con_input evcon' = con_input evcon" "stop \<noteq> Some Waiting"
proof -
  obtain evcon' where s: "evhttp_send_continue malloc evcon req = Some evcon'" "con_ready malloc evcon'" "max_body_size evcon' = max_body_size evcon"
    "http_server evcon' = http_server evcon" "con_state evcon' = con_state evcon" "con_input evcon' = con_input evcon"
    by (rule send_continue_total[OF assms])
  have "expect_step malloc evcon req \<in> {Some (None, evcon), Some (Some (Error_sent HTTP_EXPECTATIONFAILED), evcon),
      Some (Some (Error_sent HTTP_ENTITYTOOLARGE), evcon), Some (None, evcon')}"
    by (simp add: expect_step_def s(1) split: option.split)
  then show thesis
    using that assms(1) s(2-6) by (elim insertE) simp_all
qed

lemma strtoll10_bound: "fst (strtoll10 s) \<le> int EV_SSIZE_MAX"
  by (auto simp: strtoll10_def strtol10_def clamp_long_def EV_SSIZE_MAX_def Let_def split: option.splits prod.splits)

lemma body_length_kept:
  assumes "evhttp_get_body_length req = (n, req')"
  shows "\<exists>m \<le> int EV_SSIZE_MAX. req' = req\<lparr>ntoread := m\<rparr> \<or> req' = req"
proof (cases "evhttp_find_header (input_headers req) ''Content-Length''")
  case None
  then have "req' = req\<lparr>ntoread := - 1\<rparr> \<or> req' = req"
    using assms by (auto simp: evhttp_get_body_length_def split: option.splits if_splits)
  then show ?thesis by (intro exI[of _ "- 1"]) simp
next
  case (Some l)
  then show ?thesis
    using assms strtoll10_bound[of l]
    by (cases "strtoll10 l") (auto simp: evhttp_get_body_length_def split: option.splits if_splits)
qed

lemma get_body_total:
  assumes c: "con_ready malloc evcon" and r: "req_ready malloc req" and ch: "\<not> chunked req"
  shows "handled malloc evcon req (evhttp_get_body malloc None evcon req)"
proof -
  let ?c = "evcon\<lparr>con_state := EVCON_READING_BODY\<rparr>"
  define is_chunked where "is_chunked = (case evhttp_find_header (input_headers req) ''Transfer-Encoding'' of
    None \<Rightarrow> False | Some e \<Rightarrow> evutil_ascii_strcasecmp e ''chunked'' = 0)"
  obtain n req1 where l: "(if is_chunked then (0, req\<lparr>chunked := True, ntoread := - 1\<rparr>) else evhttp_get_body_length req) = (n, req1)"
    by fastforce
  have "req1 = req\<lparr>chunked := True, ntoread := - 1\<rparr> \<or> (\<exists>m \<le> int EV_SSIZE_MAX. req1 = req\<lparr>ntoread := m\<rparr> \<or> req1 = req)"
    using l body_length_kept[of req n req1] by (cases is_chunked) simp_all
  then obtain ch' m where m: "req1 = req\<lparr>chunked := ch', ntoread := m\<rparr>" "m \<le> int EV_SSIZE_MAX" "ch' \<longrightarrow> m = - 1"
  proof (elim disjE exE conjE)
    assume "req1 = req\<lparr>chunked := True, ntoread := - 1\<rparr>"
    then show thesis by (rule that) simp_all
  next
    fix m assume "m \<le> int EV_SSIZE_MAX" "req1 = req\<lparr>ntoread := m\<rparr>"
    then show thesis using ch by (intro that[of m False]) simp_all
  next
    fix m assume "req1 = req"
    then show thesis using ch r by (intro that[of "ntoread req" False]) (simp_all add: req_ready_def chunk_ready_def)
  qed
  have r1: "req_ready malloc req1" using r m(2) by (simp add: m(1) req_ready_def chunk_ready_def)
  have w: "body_within k req1" if "body_within k req" for k using that ch m(3) by (simp add: m(1) body_within_def)
  obtain stop c1 where e: "expect_step malloc ?c req1 = Some (stop, c1)" "con_ready malloc c1" "max_body_size c1 = max_body_size evcon"
    "http_server c1 = http_server evcon" "con_state c1 = EVCON_READING_BODY" "con_input c1 = con_input evcon" "stop \<noteq> Some Waiting"
    by (rule expect_step_total[of malloc ?c req1]) (use c r1 in simp_all)
  have b: "handled malloc evcon req (evhttp_read_body malloc None c1 req1)"
    by (rule handled_cong[OF read_body_total]) (use e r1 w in \<open>simp_all add: m(1) waiting_def\<close>)
  have "evhttp_get_body malloc None evcon req \<in> {Some (Request_done, evcon, req), Some (Connection_failed EVCON_HTTP_INVALID_HEADER, ?c, req1),
      Some (Request_done, ?c, req1), evhttp_read_body malloc None c1 req1} \<union> {Some (out, c1, req1) | out. stop = Some out}"
    by (cases stop) (simp_all add: evhttp_get_body_def e(1) l Let_def flip: is_chunked_def)
  then show ?thesis
    using b c r r1 w e(2-7) by (elim UnE insertE) (auto simp: handled_Some m(1))
qed

lemma read_header_total:
  assumes c: "con_ready malloc evcon" and r: "req_ready malloc req" and ch: "\<not> chunked req" and wt: "waiting evcon req"
  shows "handled malloc evcon req (evhttp_read_header malloc None evcon req)"
proof -
  obtain st req' buf' where p: "evhttp_parse_headers malloc (Some evcon) req (con_input evcon) = Some (st, req', buf')" "text_ready malloc buf'"
    "length (evbuffer_content buf') \<le> length (evbuffer_content (con_input evcon))" "body_same req req'" "major req' = major req" "minor req' = minor req"
    by (rule parse_headers_total[OF con_readyD(1,2)[OF c]])
  have c': "con_ready malloc (evcon\<lparr>con_input := buf'\<rparr>)" by (rule con_ready_input[OF c p(2,3)])
  have r': "req_ready malloc req'" by (rule req_ready_same[OF r p(4-6)])
  have b: "handled malloc evcon req (evhttp_get_body malloc None (evcon\<lparr>con_input := buf', reading := False\<rparr>) req')"
    by (rule handled_cong[OF get_body_total]) (use c' r' ch p(3,4) body_same_within[OF p(4)] in \<open>simp_all add: body_same_def waiting_def\<close>)
  let ?c = "evcon\<lparr>con_input := buf'\<rparr>"
  have "evhttp_read_header malloc None evcon req \<in> {Some (Connection_failed EVCON_HTTP_INVALID_HEADER, ?c, req'), Some (Waiting, ?c, req'),
      Some (Read_again, evhttp_start_read (?c\<lparr>reading := False\<rparr>), req'), Some (Request_done, ?c\<lparr>reading := False\<rparr>, req'),
      evhttp_get_body malloc None (?c\<lparr>reading := False\<rparr>) req'}"
    by (cases "req_kind req'") (simp_all add: evhttp_read_header_def p(1) Let_def)
  then show ?thesis
    using b c' r' wt p(3,4) body_same_within[OF p(4)]
    by (elim insertE) (simp_all add: handled_Some evhttp_start_read_def body_same_def waiting_def)
qed

lemma read_firstline_total:
  assumes c: "con_ready malloc evcon" and r: "req_ready malloc req" and k: "req_kind req = EVHTTP_REQUEST \<longrightarrow> http_server evcon \<noteq> None"
    and ch: "\<not> chunked req" and wt: "waiting evcon req"
  shows "handled malloc evcon req (evhttp_read_firstline malloc words0 None evcon req)"
proof -
  obtain st req' buf' where p: "evhttp_parse_firstline malloc words0 (Some evcon) req (con_input evcon) = Some (st, req', buf')"
    "text_ready malloc buf'" "length (evbuffer_content buf') \<le> length (evbuffer_content (con_input evcon))" "line_parsed req req'"
    by (rule parse_firstline_total[OF con_readyD(1,2)[OF c] k])
  have c': "con_ready malloc (evcon\<lparr>con_input := buf'\<rparr>)" by (rule con_ready_input[OF c p(2,3)])
  have r': "req_ready malloc req'" using r p(4) by (simp add: req_ready_def chunk_ready_def line_parsed_def body_same_def)
  have w: "body_within n req' = body_within n req" for n using p(4) body_same_within by (simp add: line_parsed_def)
  have b: "handled malloc evcon req (evhttp_read_header malloc None (evcon\<lparr>con_input := buf', con_state := EVCON_READING_HEADERS\<rparr>) req')"
    by (rule handled_cong[OF read_header_total]) (use c' r' w ch p(3,4) in \<open>simp_all add: line_parsed_def body_same_def waiting_def\<close>)
  let ?c = "evcon\<lparr>con_input := buf'\<rparr>"
  have "evhttp_read_firstline malloc words0 None evcon req \<in> {Some (Connection_failed EVCON_HTTP_INVALID_HEADER, ?c, req'),
      Some (Waiting, ?c, req'), evhttp_read_header malloc None (?c\<lparr>con_state := EVCON_READING_HEADERS\<rparr>) req'}"
    by (simp add: evhttp_read_firstline_def p(1) Let_def)
  then show ?thesis
    using b c' r' w wt p(3,4) by (elim insertE) (simp_all add: handled_Some line_parsed_def body_same_def waiting_def)
qed

lemma read_cb_total:
  assumes c: "con_ready malloc evcon" and r: "req_ready malloc req" and wt: "waiting evcon req"
    and k: "req_kind req = EVHTTP_REQUEST \<longrightarrow> http_server evcon \<noteq> None"
  shows "handled malloc evcon req (evhttp_read_cb malloc words0 None evcon req)"
proof -
  let ?c = "evcon\<lparr>read_more := False\<rparr>"
  have p: "con_ready malloc ?c" "waiting ?c req" using c wt by (simp_all add: waiting_def)
  have k': "req_kind req = EVHTTP_REQUEST \<longrightarrow> http_server ?c \<noteq> None" using k by simp
  note cong = handled_cong[of malloc ?c req _ evcon req]
  show ?thesis
    using wt
      cong[OF read_firstline_total[OF p(1) r k' _ p(2)]] cong[OF read_header_total[OF p(1) r _ p(2)]]
      cong[OF read_body_total[OF p(1) r p(2)]] cong[OF read_trailer_total[OF p(1) r p(2)]]
    by (auto simp: evhttp_read_cb_def waiting_def)
qed

section \<open>A message that arrives in pieces\<close>

text \<open>
  The bytes of a peer arrive in pieces; \<open>evhttp_read_cb\<close> is called after each as long as the handler waits. The pieces
  that were not read are the last result.
\<close>

fun receive ::
    "allocator \<Rightarrow> u16 list \<Rightarrow> evhttp_connection \<Rightarrow> evhttp_request \<Rightarrow> byte list list \<Rightarrow>
     (read_outcome \<times> evhttp_connection \<times> evhttp_request \<times> byte list list) option" where
  "receive malloc words0 evcon req [] = Some (Waiting, evcon, req, [])"
| "receive malloc words0 evcon req (p # ps) = do {
     (_, inp) \<leftarrow> evbuffer_add malloc (con_input evcon) p;
     (out, evcon, req) \<leftarrow> evhttp_read_cb malloc words0 None (evcon\<lparr>con_input := inp\<rparr>) req;
     if out = Waiting then receive malloc words0 evcon req ps else Some (out, evcon, req, ps)
   }"

lemma receive_ok:
  assumes "con_ready malloc evcon" "req_ready malloc req" "waiting evcon req" "req_kind req = EVHTTP_REQUEST \<longrightarrow> http_server evcon \<noteq> None"
    and "\<forall>p \<in> set ps. length p \<le> 2 ^ 32" "length (evbuffer_content (con_input evcon) @ concat ps) < 2 ^ 63 - 1"
    and "max_body_size evcon < 2 ^ 63" "body_within (max_body_size evcon) req"
  shows "\<exists>out evcon' req' rest. receive malloc words0 evcon req ps = Some (out, evcon', req', rest) \<and>
    text_ready malloc (con_input evcon') \<and> text_ready malloc (con_output evcon') \<and> text_ready malloc (input_buffer req') \<and>
    ((\<forall>e. out \<noteq> Connection_failed e) \<longrightarrow>
      length (evbuffer_content (input_buffer req')) \<le> body_size req' \<and> body_size req' \<le> max_body_size evcon)"
  using assms
proof (induction ps arbitrary: evcon req)
  case Nil
  then show ?case by (simp add: con_ready_def req_ready_def chunk_ready_def body_within_def)
next
  case (Cons p ps)
  have "length p \<le> 2 ^ 32" using Cons.prems(5) by simp
  then obtain inp where a: "evbuffer_add malloc (con_input evcon) p = Some (0, inp)" "text_ready malloc inp"
    "evbuffer_content inp = evbuffer_content (con_input evcon) @ p"
    using text_ready_add[OF con_readyD(1)[OF Cons.prems(1)]] by blast
  let ?c = "evcon\<lparr>con_input := inp\<rparr>"
  have c: "con_ready malloc ?c" "waiting ?c req" "req_kind req = EVHTTP_REQUEST \<longrightarrow> http_server ?c \<noteq> None"
    using Cons.prems(1,3,4,6) a(2,3) by (simp_all add: con_ready_def waiting_def)
  obtain out evcon' req' where h: "evhttp_read_cb malloc words0 None ?c req = Some (out, evcon', req')"
    "handled malloc ?c req (Some (out, evcon', req'))"
    using read_cb_total[OF c(1) Cons.prems(2) c(2,3), of words0] by (auto simp: handled_def)
  note H = h(2)[unfolded handled_Some]
  have w: "body_within (max_body_size evcon) req'" if "\<forall>e. out \<noteq> Connection_failed e" using H that Cons.prems(7,8) by simp
  show ?case
  proof (cases "out = Waiting")
    case True
    have small: "length (evbuffer_content (con_input evcon') @ concat ps) < 2 ^ 63 - 1"
      using H Cons.prems(6) a(3) by simp
    have ih: "con_ready malloc evcon'" "req_ready malloc req'" "waiting evcon' req'" "max_body_size evcon' = max_body_size evcon"
      "req_kind req' = EVHTTP_REQUEST \<longrightarrow> http_server evcon' \<noteq> None"
      using H True Cons.prems(4) by simp_all
    have "receive malloc words0 evcon req (p # ps) = receive malloc words0 evcon' req' ps"
      using True a(1) h(1) by simp
    then show ?thesis
      using Cons.IH[OF ih(1-3,5) _ small] Cons.prems(5,7) ih(4) w True by simp
  next
    case False
    have "receive malloc words0 evcon req (p # ps) = Some (out, evcon', req', ps)"
      using False a(1) h(1) by simp
    moreover have "(\<forall>e. out \<noteq> Connection_failed e) \<longrightarrow>
        length (evbuffer_content (input_buffer req')) \<le> body_size req' \<and> body_size req' \<le> max_body_size evcon"
      using w by (auto simp: body_within_def)
    ultimately show ?thesis
      using H by (simp add: con_ready_def req_ready_def chunk_ready_def)
  qed
qed



end
