(* ===== verification/Evbuffer_IO.thy ===== *)
theory Evbuffer_IO
  imports Evbuffer_Space Evbuffer_Search
begin

text \<open>
  Evbuffers and descriptors, \<^verbatim>\<open>buffer.c\<close>: reserving room in the last chains and committing what was written there,
  reading from a descriptor with \<open>readv\<close>, writing with \<open>writev\<close> or \<open>sendfile\<close>, and looking at the data in place.
  The system calls are arguments: \<open>ioctl\<close> is the answer to \<open>FIONREAD\<close>, \<open>readv\<close> gives the bytes it stores in vectors
  of the given lengths (none at the end of the file) or fails, \<open>writev\<close> gets the bytes of the vectors and returns how
  many it took, or -1.

  A vector is an address and a length. The position of the chain whose block the address points into is kept beside
  the address; the code never reads it.
\<close>

section \<open>Room in the last chains\<close>

record evbuffer_iovec =
  iov_chain :: nat
  iov_base :: addr
  iov_len :: nat

text \<open>
  The loop of \<open>_evbuffer_expand_fast\<close> over the chains from the last one with data on (\<open>first\<close> holds for that one only):
  it ends with enough room, at the end of the chains, or with all \<open>n\<close> chains used. Empty chains are realigned.
\<close>

datatype fast_end = Enough | Ran_off | All_used

fun fast_loop :: "nat \<Rightarrow> nat \<Rightarrow> bool \<Rightarrow> nat \<Rightarrow> nat \<Rightarrow> evbuffer_chain list \<Rightarrow>
    (fast_end \<times> evbuffer_chain list \<times> nat) option" where
  "fast_loop datlen n first used avail [] = Some (Ran_off, [], avail)"
| "fast_loop datlen n first used avail (c # cs) =
     (if ch_off c \<noteq> 0 \<and> \<not> first then None
      else let space = CHAIN_SPACE_LEN c;
               (c', avail', used') =
                 (if ch_off c \<noteq> 0 then (if space \<noteq> 0 then (c, avail + space, used + 1) else (c, avail, used))
                  else (c\<lparr>misalign := 0\<rparr>, avail + buffer_len c, used + 1))
           in if avail' \<ge> datlen then Some (Enough, c' # cs, avail')
              else if used' = n then Some (All_used, c' # cs, avail')
              else map_option (\<lambda>(e, ds, a). (e, c' # ds, a)) (fast_loop datlen n False used' avail' cs))"

text \<open>All empty chains are replaced by one that is large enough.\<close>

definition expand_replace_empty :: "allocator \<Rightarrow> evbuffer \<Rightarrow> nat \<Rightarrow> (int \<times> evbuffer) option" where
  "expand_replace_empty malloc buf datlen =
     (let k = last_with_datap buf; chain = chains buf ! k; rmv_all = (ch_off chain = 0);
          avail = (if rmv_all then 0 else CHAIN_SPACE_LEN chain);
          keep = (if rmv_all then k else k + 1); victims = drop keep (chains buf);
          buf1 = log_free (buf\<lparr>chains := take keep (chains buf)\<rparr>) (evbuffer_free_all_chains victims)
      in if rmv_all \<and> k \<noteq> 0 \<or> \<not> evbuffer_chains_all_empty victims then None
         else do {
           r \<leftarrow> evbuffer_chain_new malloc (datlen - avail);
           Some (case r of
                   None \<Rightarrow> (- 1, if rmv_all then ZERO_CHAIN buf1 else buf1)
                 | Some tmp \<Rightarrow> (0, buf1\<lparr>chains := chains buf1 @ [tmp]\<rparr>))
         })"

definition evbuffer_expand_fast :: "allocator \<Rightarrow> evbuffer \<Rightarrow> nat \<Rightarrow> nat \<Rightarrow> (int \<times> evbuffer) option" where
  "evbuffer_expand_fast malloc buf datlen n =
     (if n < 2 then None
      else if chains buf = [] \<or> ch_has EVBUFFER_IMMUTABLE (last (chains buf)) then do {
        (buf', ok) \<leftarrow> evbuffer_chain_insert_new malloc buf datlen;
        Some (if ok then 0 else - 1, buf')
      }
      else let k = last_with_datap buf in do {
        (end, cs, avail) \<leftarrow> fast_loop datlen n True 0 0 (drop k (chains buf));
        let buf1 = buf\<lparr>chains := take k (chains buf) @ cs\<rparr>;
        case end of
          Enough \<Rightarrow> Some (0, buf1)
        | Ran_off \<Rightarrow> do {
            r \<leftarrow> evbuffer_chain_new malloc (datlen - avail);
            Some (case r of
                    None \<Rightarrow> (- 1, buf1)
                  | Some tmp \<Rightarrow> (0, buf1\<lparr>chains := chains buf1 @ [tmp]\<rparr>))
          }
        | All_used \<Rightarrow> expand_replace_empty malloc buf1 datlen
      })"

text \<open>The first chain with room is the last one with data or the next.\<close>

definition first_space_pos :: "evbuffer \<Rightarrow> nat" where
  "first_space_pos buf =
     (if CHAIN_SPACE_LEN (chains buf ! last_with_datap buf) = 0 then last_with_datap buf + 1 else last_with_datap buf)"

text \<open>The loop follows a NULL pointer when the chains end before there is room for \<open>howmuch\<close> bytes.\<close>

fun setup_vecs_loop :: "bool \<Rightarrow> nat \<Rightarrow> nat \<Rightarrow> nat \<Rightarrow> nat \<Rightarrow> evbuffer_chain list \<Rightarrow> evbuffer_iovec list option" where
  "setup_vecs_loop exact howmuch 0 so_far pos cs = Some []"
| "setup_vecs_loop exact howmuch (Suc left) so_far pos cs =
     (if so_far \<ge> howmuch then Some []
      else case cs of
        [] \<Rightarrow> None
      | c # cs' \<Rightarrow>
          (let avail0 = CHAIN_SPACE_LEN c;
               avail = (if avail0 > howmuch - so_far \<and> exact then howmuch - so_far else avail0)
           in map_option ((#) \<lparr>iov_chain = pos, iov_base = CHAIN_SPACE_PTR c, iov_len = avail\<rparr>)
                (setup_vecs_loop exact howmuch left (so_far + avail) (pos + 1) cs')))"

text \<open>Returns the number of vectors, the vectors and the position of the first chain.\<close>

definition evbuffer_read_setup_vecs ::
    "evbuffer \<Rightarrow> int \<Rightarrow> nat \<Rightarrow> bool \<Rightarrow> (int \<times> evbuffer_iovec list \<times> nat) option" where
  "evbuffer_read_setup_vecs buf howmuch n_vecs_avail exact =
     (if howmuch < 0 then Some (- 1, [], 0)
      else if last_with_datap buf \<ge> length (chains buf) then None
      else let first = first_space_pos buf in do {
        vecs \<leftarrow> setup_vecs_loop exact (nat howmuch) n_vecs_avail 0 first (drop first (chains buf));
        Some (int (length vecs), vecs, first)
      })"

section \<open>Reserving and committing\<close>

text \<open>The size is an \<open>ev_ssize_t\<close> that becomes a \<open>size_t\<close>.\<close>

definition evbuffer_reserve_space ::
    "allocator \<Rightarrow> evbuffer \<Rightarrow> int \<Rightarrow> nat \<Rightarrow> (int \<times> evbuffer_iovec list \<times> evbuffer) option" where
  "evbuffer_reserve_space malloc buf sz n_vecs =
     (if freeze_end buf \<or> n_vecs < 1 then Some (- 1, [], buf)
      else if n_vecs = 1 then do {
        (result, buf') \<leftarrow> evbuffer_expand_singlechain malloc buf (nat (sz mod 2 ^ 64));
        case result of
          None \<Rightarrow> Some (- 1, [], buf')
        | Some i \<Rightarrow> (let chain = chains buf' ! i in
            if sz < 0 \<or> int (CHAIN_SPACE_LEN chain) \<ge> sz
            then Some (1, [\<lparr>iov_chain = i, iov_base = CHAIN_SPACE_PTR chain, iov_len = CHAIN_SPACE_LEN chain\<rparr>], buf')
            else None)
      }
      else do {
        (r, buf') \<leftarrow> evbuffer_expand_fast malloc buf (nat (sz mod 2 ^ 64)) n_vecs;
        if r < 0 then Some (- 1, [], buf')
        else do {
          (n, vecs, first) \<leftarrow> evbuffer_read_setup_vecs buf' sz n_vecs False;
          Some (n, vecs, buf')
        }
      })"

text \<open>The two passes of \<open>evbuffer_commit_space\<close>: the vectors are checked, then the chains are changed.\<close>

fun commit_check :: "evbuffer_iovec list \<Rightarrow> evbuffer_chain list \<Rightarrow> bool" where
  "commit_check [] cs = True"
| "commit_check (v # vs) [] = False"
| "commit_check (v # vs) (c # cs) =
     (if iov_base v \<noteq> CHAIN_SPACE_PTR c \<or> iov_len v > CHAIN_SPACE_LEN c then False else commit_check vs cs)"

fun commit_chains :: "nat \<Rightarrow> evbuffer_iovec list \<Rightarrow> evbuffer_chain list \<Rightarrow> nat \<Rightarrow> evbuffer_chain list \<times> nat" where
  "commit_chains pos (v # vs) (c # cs) lwd =
     (let (cs', lwd') = commit_chains (pos + 1) vs cs (if iov_len v \<noteq> 0 then pos else lwd)
      in (c\<lparr>ch_off := ch_off c + iov_len v\<rparr> # cs', lwd'))"
| "commit_chains pos vs cs lwd = (cs, lwd)"

definition evbuffer_commit_space :: "evbuffer \<Rightarrow> evbuffer_iovec list \<Rightarrow> int \<times> evbuffer" where
  "evbuffer_commit_space buf vec =
     (if freeze_end buf then (- 1, buf)
      else if vec = [] then (0, buf)
      else if length vec = 1 \<and> chains buf \<noteq> [] \<and> iov_base (vec ! 0) = CHAIN_SPACE_PTR (last (chains buf))
      then (let v = vec ! 0; c = last (chains buf); added = iov_len v in
            if iov_len v > CHAIN_SPACE_LEN c then (- 1, buf)
            else let buf1 = set_last buf (c\<lparr>ch_off := ch_off c + iov_len v\<rparr>);
                     buf2 = (if added \<noteq> 0 then advance_last_with_data buf1 else buf1)
                 in (0, evbuffer_invoke_callbacks (count_added buf2 added)))
      else if last_with_datap buf \<ge> length (chains buf) then (- 1, buf)
      else let first = first_space_pos buf; cs = drop first (chains buf) in
           if \<not> commit_check vec cs then (- 1, buf)
           else let (cs', lwd) = commit_chains first vec cs (last_with_datap buf)
                in (0, evbuffer_invoke_callbacks (count_added
                      (buf\<lparr>chains := take first (chains buf) @ cs', last_with_datap := lwd\<rparr>)
                      (sum_list (map iov_len vec)))))"

section \<open>Reading from a descriptor\<close>

definition NUM_READ_IOVEC :: nat where "NUM_READ_IOVEC = 4"
definition EVBUFFER_MAX_READ :: int where "EVBUFFER_MAX_READ = 4096"

definition get_n_bytes_readable_on_socket :: "int option \<Rightarrow> int" where
  "get_n_bytes_readable_on_socket ioctl = (case ioctl of None \<Rightarrow> - 1 | Some n \<Rightarrow> n)"

text \<open>\<open>readv\<close> fills the vectors one after the other.\<close>

fun readv_store :: "evbuffer_chain list \<Rightarrow> evbuffer_iovec list \<Rightarrow> byte list \<Rightarrow> evbuffer_chain list" where
  "readv_store (c # cs) (v # vs) bs =
     chain_write c (iov_base v - ch_buffer c) (take (iov_len v) bs) # readv_store cs vs (drop (iov_len v) bs)"
| "readv_store cs vs bs = cs"

text \<open>The loop that tells the chains what was read; \<open>None\<close> is a NULL pointer.\<close>

fun read_advance :: "nat \<Rightarrow> nat \<Rightarrow> nat \<Rightarrow> evbuffer_chain list \<Rightarrow> nat \<Rightarrow> (evbuffer_chain list \<times> nat) option" where
  "read_advance 0 pos remaining cs lwd = Some (cs, lwd)"
| "read_advance (Suc i) pos remaining [] lwd = None"
| "read_advance (Suc i) pos remaining (c # cs) lwd =
     (let space = CHAIN_SPACE_LEN c in
      if space < remaining
      then map_option (\<lambda>(cs', l). (c\<lparr>ch_off := ch_off c + space\<rparr> # cs', l))
             (read_advance i (pos + 1) (remaining - space) cs lwd)
      else Some (c\<lparr>ch_off := ch_off c + remaining\<rparr> # cs, pos))"

definition read_amount :: "int option \<Rightarrow> int \<Rightarrow> int" where
  "read_amount ioctl howmuch =
     (let n0 = get_n_bytes_readable_on_socket ioctl;
          n = (if n0 \<le> 0 \<or> n0 > EVBUFFER_MAX_READ then EVBUFFER_MAX_READ else n0)
      in if howmuch < 0 \<or> howmuch > n then n else howmuch)"

definition evbuffer_read ::
    "allocator \<Rightarrow> int option \<Rightarrow> (nat list \<Rightarrow> byte list option) \<Rightarrow> evbuffer \<Rightarrow> int \<Rightarrow> (int \<times> evbuffer) option" where
  "evbuffer_read malloc ioctl readv buf howmuch =
     (if freeze_end buf then Some (- 1, buf)
      else let amount = read_amount ioctl howmuch in do {
        (r, buf1) \<leftarrow> evbuffer_expand_fast malloc buf (nat amount) NUM_READ_IOVEC;
        if r = - 1 then Some (- 1, buf1)
        else do {
          (nvecs, vecs, first) \<leftarrow> evbuffer_read_setup_vecs buf1 amount NUM_READ_IOVEC True;
          case readv (map iov_len vecs) of
            None \<Rightarrow> Some (- 1, buf1)
          | Some bs \<Rightarrow>
              if bs = [] then Some (0, buf1)
              else do {
                (cs, lwd) \<leftarrow> read_advance (nat nvecs) first (length bs)
                               (readv_store (drop first (chains buf1)) vecs bs) (last_with_datap buf1);
                Some (int (length bs), evbuffer_invoke_callbacks (count_added
                  (buf1\<lparr>chains := take first (chains buf1) @ cs, last_with_datap := lwd\<rparr>) (length bs)))
              }
        }
      })"

section \<open>Writing to a descriptor\<close>

definition NUM_WRITE_IOVEC :: nat where "NUM_WRITE_IOVEC = 128"

fun write_vecs :: "nat \<Rightarrow> nat \<Rightarrow> nat \<Rightarrow> evbuffer_chain list \<Rightarrow> evbuffer_iovec list" where
  "write_vecs 0 howmuch pos cs = []"
| "write_vecs (Suc left) howmuch pos [] = []"
| "write_vecs (Suc left) howmuch pos (c # cs) =
     (if howmuch = 0 \<or> ch_has EVBUFFER_SENDFILE c then []
      else if howmuch \<ge> ch_off c
      then \<lparr>iov_chain = pos, iov_base = ch_buffer c + misalign c, iov_len = ch_off c\<rparr>
             # write_vecs left (howmuch - ch_off c) (pos + 1) cs
      else [\<lparr>iov_chain = pos, iov_base = ch_buffer c + misalign c, iov_len = howmuch\<rparr>])"

text \<open>The bytes in the memory of a vector.\<close>

definition iov_data :: "evbuffer \<Rightarrow> evbuffer_iovec \<Rightarrow> byte list" where
  "iov_data buf v =
     (let c = chains buf ! iov_chain v in slice (ch_mem c) (iov_base v - ch_buffer c) (iov_len v))"

definition evbuffer_write_iovec :: "(byte list list \<Rightarrow> int) \<Rightarrow> evbuffer \<Rightarrow> int \<Rightarrow> int" where
  "evbuffer_write_iovec writev buf howmuch =
     (if howmuch < 0 then - 1
      else let iov = write_vecs NUM_WRITE_IOVEC (nat howmuch) 0 (chains buf)
           in if iov = [] then 0 else writev (map (iov_data buf) iov))"

text \<open>
  \<open>sendfile\<close> gets the descriptor of the file, the offset and the number of bytes; it returns how many it sent, or
  fails with an error that can be retried or not. The length asked for is not used.
\<close>

datatype sendfile_result = Sent nat | Send_error bool

definition evbuffer_write_sendfile ::
    "(int \<Rightarrow> nat \<Rightarrow> nat \<Rightarrow> sendfile_result) \<Rightarrow> evbuffer_chain \<Rightarrow> int" where
  "evbuffer_write_sendfile sendfile chain =
     (case sendfile (ch_fd chain) (misalign chain) (ch_off chain) of
        Send_error retriable \<Rightarrow> if retriable then 0 else - 1
      | Sent n \<Rightarrow> int n)"

definition evbuffer_write_atmost ::
    "(byte list list \<Rightarrow> int) \<Rightarrow> (int \<Rightarrow> nat \<Rightarrow> nat \<Rightarrow> sendfile_result) \<Rightarrow> evbuffer \<Rightarrow> int \<Rightarrow> (int \<times> evbuffer) option" where
  "evbuffer_write_atmost writev sendfile buf howmuch =
     (if freeze_start buf then Some (- 1, buf)
      else let howmuch' = (if howmuch < 0 \<or> howmuch > int (total_len buf) then int (total_len buf) else howmuch);
               n = (if howmuch' > 0
                    then (if chains buf \<noteq> [] \<and> ch_has EVBUFFER_SENDFILE (hd (chains buf))
                          then evbuffer_write_sendfile sendfile (hd (chains buf))
                          else evbuffer_write_iovec writev buf howmuch')
                    else - 1)
           in if n > 0
              then do { (r, buf') \<leftarrow> evbuffer_drain buf (nat n); Some (n, buf') }
              else Some (n, buf))"

definition evbuffer_write ::
    "(byte list list \<Rightarrow> int) \<Rightarrow> (int \<Rightarrow> nat \<Rightarrow> nat \<Rightarrow> sendfile_result) \<Rightarrow> evbuffer \<Rightarrow> (int \<times> evbuffer) option" where
  "evbuffer_write writev sendfile buf = evbuffer_write_atmost writev sendfile buf (- 1)"

section \<open>Looking at the data\<close>

text \<open>Returns how many vectors are needed, and those that were given.\<close>

fun peek_loop :: "nat \<Rightarrow> int \<Rightarrow> nat \<Rightarrow> int \<Rightarrow> nat \<Rightarrow> evbuffer_chain list \<Rightarrow> nat \<times> evbuffer_iovec list" where
  "peek_loop n_vec len idx so_far pos [] = (idx, [])"
| "peek_loop n_vec len idx so_far pos (c # cs) =
     (if len \<ge> 0 \<and> so_far \<ge> len then (idx, [])
      else if idx < n_vec
      then (let (n, vs) = peek_loop n_vec len (idx + 1) (so_far + int (ch_off c)) (pos + 1) cs
            in (n, \<lparr>iov_chain = pos, iov_base = ch_buffer c + misalign c, iov_len = ch_off c\<rparr> # vs))
      else if len < 0 then (idx, [])
      else peek_loop n_vec len (idx + 1) (so_far + int (ch_off c)) (pos + 1) cs)"

definition evbuffer_peek ::
    "evbuffer \<Rightarrow> int \<Rightarrow> evbuffer_ptr option \<Rightarrow> nat \<Rightarrow> (nat \<times> evbuffer_iovec list) option" where
  "evbuffer_peek buf len start_at n_vec =
     (let all = (\<lambda>so_far. if n_vec = 0 \<and> len < 0 then int (total_len buf) - so_far else len) in
      case start_at of
        None \<Rightarrow> Some (peek_loop n_vec (all 0) 0 0 0 (chains buf))
      | Some p \<Rightarrow>
          (case ptr_chain p of
             None \<Rightarrow> None
           | Some k \<Rightarrow>
               let chain = chains buf ! k; so_far = int (ch_off chain) - int (pos_in_chain p);
                   (n, vs) = peek_loop n_vec (all so_far) 1 so_far (k + 1) (drop (k + 1) (chains buf))
               in Some (n, (if n_vec > 0
                            then [\<lparr>iov_chain = k, iov_base = ch_buffer chain + misalign chain + pos_in_chain p,
                                   iov_len = ch_off chain - pos_in_chain p\<rparr>]
                            else []) @ vs)))"

section \<open>Appending to several chains\<close>

text \<open>Bytes are put behind the data of a chain.\<close>

definition append_bytes :: "evbuffer_chain \<Rightarrow> byte list \<Rightarrow> evbuffer_chain" where
  "append_bytes c bs = (chain_write c (misalign c + ch_off c) bs)\<lparr>ch_off := ch_off c + length bs\<rparr>"

lemma append_bytes_ok:
  assumes "chain_wf c" "length bs \<le> CHAIN_SPACE_LEN c"
  shows "chain_wf (append_bytes c bs)" "chain_data (append_bytes c bs) = chain_data c @ bs"
    "ch_off (append_bytes c bs) = ch_off c + length bs"
proof -
  have "chain_wf (append_bytes c bs) \<and> chain_data (append_bytes c bs) = chain_data c @ bs"
  proof (cases "ch_has EVBUFFER_IMMUTABLE c")
    case True
    then have "bs = []" and "append_bytes c [] = c"
      using assms by (simp_all add: CHAIN_SPACE_LEN_def append_bytes_def chain_write_def)
    then show ?thesis
      using assms by simp
  next
    case False
    then show ?thesis
      using chain_append_in_place[OF assms(1) False, of bs] assms(2)
      by (simp add: append_bytes_def CHAIN_SPACE_LEN_def)
  qed
  then show "chain_wf (append_bytes c bs)" "chain_data (append_bytes c bs) = chain_data c @ bs"
    by blast+
  show "ch_off (append_bytes c bs) = ch_off c + length bs"
    by (simp add: append_bytes_def)
qed

lemma append_bytes_Nil [simp]: "append_bytes c [] = c"
  by (simp add: append_bytes_def chain_write_def)

lemma append_bytes_flags [simp]: "ch_has f (append_bytes c bs) = ch_has f c"
  by (simp add: append_bytes_def ch_has_def)

text \<open>One step: bytes go into a chain at or behind the last one with data, which it then is.\<close>

definition append_at :: "evbuffer \<Rightarrow> nat \<Rightarrow> byte list \<Rightarrow> evbuffer" where
  "append_at buf i bs = count_added
     (buf\<lparr>chains := (chains buf)[i := append_bytes (chains buf ! i) bs],
          last_with_datap := (if bs = [] then last_with_datap buf else i)\<rparr>) (length bs)"

lemma append_at_simps [simp]:
  "chains (append_at buf i bs) = (chains buf)[i := append_bytes (chains buf ! i) bs]"
  "last_with_datap (append_at buf i bs) = (if bs = [] then last_with_datap buf else i)"
  "same_settings buf (append_at buf i bs)"
  by (simp_all add: append_at_def count_added_def same_settings_def)

lemma in_set_drop_iff: "x \<in> set (drop n xs) \<longleftrightarrow> (\<exists>j. n \<le> j \<and> j < length xs \<and> x = xs ! j)"
proof
  assume "x \<in> set (drop n xs)"
  then obtain i where "i < length xs - n" "x = xs ! (n + i)"
    by (auto simp: in_set_conv_nth)
  then show "\<exists>j. n \<le> j \<and> j < length xs \<and> x = xs ! j"
    by (intro exI[of _ "n + i"]) auto
next
  assume "\<exists>j. n \<le> j \<and> j < length xs \<and> x = xs ! j"
  then obtain j where "n \<le> j" "j < length xs" "x = xs ! j"
    by blast
  then show "x \<in> set (drop n xs)"
    by (auto simp: in_set_conv_nth intro!: exI[of _ "j - n"])
qed

lemma lwd_okD:
  assumes "lwd_ok cs k" "cs \<noteq> []"
  shows "k < length cs" "k = 0 \<or> ch_off (cs ! k) \<noteq> 0" "\<And>j. k < j \<Longrightarrow> j < length cs \<Longrightarrow> ch_off (cs ! j) = 0"
proof -
  have *: "k < length cs" "k = 0 \<or> ch_off (cs ! k) \<noteq> 0" "\<forall>c \<in> set (drop (Suc k) cs). ch_off c = 0"
    using assms by (auto simp: lwd_ok_def)
  then show "k < length cs" "k = 0 \<or> ch_off (cs ! k) \<noteq> 0"
    by blast+
  show "ch_off (cs ! j) = 0" if "k < j" "j < length cs" for j
  proof -
    have "cs ! j \<in> set (drop (Suc k) cs)"
      unfolding in_set_drop_iff using that by (intro exI[of _ j]) simp
    then show ?thesis
      using *(3) by blast
  qed
qed

lemma lwd_okI:
  assumes "k < length cs" "k = 0 \<or> ch_off (cs ! k) \<noteq> 0" "\<And>j. k < j \<Longrightarrow> j < length cs \<Longrightarrow> ch_off (cs ! j) = 0"
  shows "lwd_ok cs k"
  using assms by (auto simp: lwd_ok_def in_set_drop_iff)

lemma append_at_ok:
  assumes wf: "evbuffer_wf buf" and i: "i < length (chains buf)" "last_with_datap buf \<le> i"
    and fits: "length bs \<le> CHAIN_SPACE_LEN (chains buf ! i)"
  shows "evbuffer_wf (append_at buf i bs)" "evbuffer_content (append_at buf i bs) = evbuffer_content buf @ bs"
    "evbuffer_plain (append_at buf i bs) = evbuffer_plain buf"
proof -
  note D = evbuffer_wfD[OF wf]
  let ?cs = "chains buf" and ?c = "append_bytes (chains buf ! i) bs"
  have ne: "?cs \<noteq> []"
    using i by auto
  note L = lwd_okD[OF D(3) ne]
  have c: "chain_wf ?c" "chain_data ?c = chain_data (?cs ! i) @ bs" "ch_off ?c = ch_off (?cs ! i) + length bs"
    using append_bytes_ok[OF _ fits] D(1) i by simp_all
  have after: "ch_off (?cs ! j) = 0" if "i < j" "j < length ?cs" for j
    using L(3) that i by simp
  have split: "?cs = take i ?cs @ ?cs ! i # drop (Suc i) ?cs"
    "?cs[i := ?c] = take i ?cs @ ?c # drop (Suc i) ?cs"
    using i(1) by (simp_all add: id_take_nth_drop[symmetric] upd_conv_take_nth_drop)
  have "lwd_ok (?cs[i := ?c]) (if bs = [] then last_with_datap buf else i)"
  proof (cases "bs = []")
    case True
    then show ?thesis
      using D(3) by simp
  next
    case False
    then show ?thesis
      using i after c by (intro lwd_okI) auto
  qed
  moreover have "\<forall>d \<in> set (?cs[i := ?c]). chain_wf d"
    using D(1) c(1) by (auto dest: set_update_subset_insert[THEN subsetD])
  moreover have "sum_list (map ch_off (?cs[i := ?c])) = total_len buf + length bs"
    using arg_cong[OF split(1), of "\<lambda>xs. sum_list (map ch_off xs)"] by (simp add: D(2) split(2) c)
  ultimately show "evbuffer_wf (append_at buf i bs)"
    by (simp add: evbuffer_wf_def append_at_def count_added_def)
  have "concat (map chain_data (drop (Suc i) ?cs)) = []"
  proof -
    have "chain_data d = []" if "d \<in> set (drop (Suc i) ?cs)" for d
      using that after D(1) chain_data_empty_iff[of d] by (auto simp: in_set_drop_iff)
    then show ?thesis
      by simp
  qed
  then have "concat (map chain_data (?cs[i := ?c])) = concat (map chain_data ?cs) @ bs"
    using arg_cong[OF split(1), of "\<lambda>xs. concat (map chain_data xs)"]
    by (simp add: split(2) c(2) del: concat_eq_Nil_conv)
  then show "evbuffer_content (append_at buf i bs) = evbuffer_content buf @ bs"
    by (simp add: evbuffer_content_def)
  show "evbuffer_plain (append_at buf i bs) = evbuffer_plain buf"
    using arg_cong[OF split(1), of set] by (simp add: evbuffer_plain_def split(2))
qed

text \<open>Several steps: the blocks \<open>bss\<close> go into consecutive chains from position \<open>i\<close> on.\<close>

fun append_blocks :: "evbuffer_chain list \<Rightarrow> byte list list \<Rightarrow> evbuffer_chain list" where
  "append_blocks (c # cs) (bs # bss) = append_bytes c bs # append_blocks cs bss"
| "append_blocks cs bss = cs"

fun blocks_fit :: "byte list list \<Rightarrow> evbuffer_chain list \<Rightarrow> bool" where
  "blocks_fit [] cs = True"
| "blocks_fit (bs # bss) [] = False"
| "blocks_fit (bs # bss) (c # cs) \<longleftrightarrow> length bs \<le> CHAIN_SPACE_LEN c \<and> blocks_fit bss cs"

fun last_block :: "nat \<Rightarrow> byte list list \<Rightarrow> nat \<Rightarrow> nat" where
  "last_block i [] k = k"
| "last_block i (bs # bss) k = last_block (i + 1) bss (if bs = [] then k else i)"

lemma last_block_empty: "\<forall>bs \<in> set bss. bs = [] \<Longrightarrow> last_block i bss k = k"
  by (induction bss arbitrary: i) auto

lemma append_blocks_empty: "\<forall>bs \<in> set bss. bs = [] \<Longrightarrow> append_blocks cs bss = cs"
  by (induction cs bss rule: append_blocks.induct) auto

definition append_all :: "evbuffer \<Rightarrow> nat \<Rightarrow> byte list list \<Rightarrow> evbuffer" where
  "append_all buf i bss = count_added
     (buf\<lparr>chains := take i (chains buf) @ append_blocks (drop i (chains buf)) bss,
          last_with_datap := last_block i bss (last_with_datap buf)\<rparr>) (length (concat bss))"

lemma append_all_Cons:
  assumes "i < length (chains buf)"
  shows "append_all buf i (bs # bss) = append_all (append_at buf i bs) (i + 1) bss"
proof -
  have "drop i (chains buf) = chains buf ! i # drop (Suc i) (chains buf)"
    using assms by (simp add: Cons_nth_drop_Suc)
  moreover have "take (Suc i) ((chains buf)[i := x]) = take i (chains buf) @ [x]" for x
    using assms by (simp add: take_Suc_conv_app_nth)
  ultimately show ?thesis
    by (simp add: append_all_def append_at_def count_added_def)
qed

lemma append_all_ok:
  assumes "evbuffer_wf buf" "last_with_datap buf \<le> i" "i \<le> length (chains buf)"
    and "blocks_fit bss (drop i (chains buf))"
  shows "evbuffer_wf (append_all buf i bss) \<and> evbuffer_content (append_all buf i bss) = evbuffer_content buf @ concat bss \<and>
    evbuffer_plain (append_all buf i bss) = evbuffer_plain buf \<and> same_settings buf (append_all buf i bss)"
  using assms
proof (induction bss arbitrary: buf i)
  case Nil
  have "append_all buf i [] = buf"
    by (simp add: append_all_def count_added_def)
  then show ?case
    using Nil by simp
next
  case (Cons bs bss)
  have i: "i < length (chains buf)"
    using Cons.prems(4) by (cases "i < length (chains buf)") simp_all
  then have d: "drop i (chains buf) = chains buf ! i # drop (Suc i) (chains buf)"
    by (simp add: Cons_nth_drop_Suc)
  have fits: "length bs \<le> CHAIN_SPACE_LEN (chains buf ! i)" "blocks_fit bss (drop (Suc i) (chains buf))"
    using Cons.prems(4) by (simp_all add: d)
  note A = append_at_ok[OF Cons.prems(1) i Cons.prems(2) fits(1)]
  have "evbuffer_wf (append_all (append_at buf i bs) (i + 1) bss) \<and>
      evbuffer_content (append_all (append_at buf i bs) (i + 1) bss) = evbuffer_content (append_at buf i bs) @ concat bss \<and>
      evbuffer_plain (append_all (append_at buf i bs) (i + 1) bss) = evbuffer_plain (append_at buf i bs) \<and>
      same_settings (append_at buf i bs) (append_all (append_at buf i bs) (i + 1) bss)"
    using Cons.prems(2) i fits(2) by (intro Cons.IH A(1)) simp_all
  then show ?case
    using A(2,3) same_settings_trans[of buf "append_at buf i bs"] by (simp add: append_all_Cons[OF i])
qed

section \<open>Making room keeps the data\<close>

definition empty_chains :: "evbuffer_chain list \<Rightarrow> bool" where
  "empty_chains cs \<longleftrightarrow> (\<forall>c \<in> set cs. chain_wf c \<and> ch_off c = 0)"

lemma empty_chains_simps [simp]:
  "empty_chains []" "empty_chains (c # cs) \<longleftrightarrow> chain_wf c \<and> ch_off c = 0 \<and> empty_chains cs"
  "empty_chains (cs @ ds) \<longleftrightarrow> empty_chains cs \<and> empty_chains ds"
  by (auto simp: empty_chains_def)

lemma empty_chain_space:
  assumes "chain_wf c" "ch_off c = 0"
  shows "\<not> ch_has EVBUFFER_IMMUTABLE c" "chain_wf (c\<lparr>misalign := 0\<rparr>)"
    "CHAIN_SPACE_LEN (c\<lparr>misalign := 0\<rparr>) = buffer_len c" "0 < buffer_len c" "chain_data c = []"
  using assms by (auto simp: chain_wf_def CHAIN_SPACE_LEN_def ch_has_def CHAIN_PINNED_def chain_data_def)

definition space_sum :: "nat \<Rightarrow> evbuffer_chain list \<Rightarrow> nat" where
  "space_sum n cs = sum_list (map CHAIN_SPACE_LEN (take n cs))"

lemma space_sum_simps [simp]:
  "space_sum 0 cs = 0" "space_sum n [] = 0"
  "space_sum (Suc n) (c # cs) = CHAIN_SPACE_LEN c + space_sum n cs"
  by (simp_all add: space_sum_def)

lemma space_sum_append: "space_sum n (cs @ ds) = space_sum n cs + space_sum (n - length cs) ds"
  by (simp add: space_sum_def)

text \<open>The loop over the empty chains behind the last one with data.\<close>

definition fast_loop_outcome ::
    "nat \<Rightarrow> nat \<Rightarrow> nat \<Rightarrow> fast_end \<Rightarrow> evbuffer_chain list \<Rightarrow> nat \<Rightarrow> bool" where
  "fast_loop_outcome datlen room avail end cs a \<longleftrightarrow>
     (case end of
        Enough \<Rightarrow> datlen \<le> avail + space_sum room cs
      | Ran_off \<Rightarrow> a = avail + space_sum room cs \<and> length cs < room
      | All_used \<Rightarrow> True)"

lemma fast_loop_empty:
  assumes "empty_chains cs" "used < n"
  shows "\<exists>end ds a. fast_loop datlen n False used avail cs = Some (end, ds, a) \<and> empty_chains ds \<and>
           fast_loop_outcome datlen (n - used) avail end ds a"
  using assms
proof (induction cs arbitrary: used avail)
  case Nil
  then show ?case
    by (simp add: fast_loop_outcome_def)
next
  case (Cons c cs)
  let ?c = "c\<lparr>misalign := 0\<rparr>"
  have c: "ch_off c = 0" "chain_wf ?c" "CHAIN_SPACE_LEN ?c = buffer_len c"
    using Cons.prems(1) empty_chain_space[of c] by simp_all
  have tail: "empty_chains cs"
    using Cons.prems(1) by simp
  have room: "n - used = Suc (n - (used + 1))"
    using Cons.prems(2) by simp
  consider "datlen \<le> avail + buffer_len c" | "\<not> datlen \<le> avail + buffer_len c" "used + 1 = n"
    | "\<not> datlen \<le> avail + buffer_len c" "used + 1 < n"
    using Cons.prems(2) by linarith
  then show ?case
  proof cases
    case 1
    then show ?thesis
      using Cons.prems(1) c by (simp add: fast_loop_outcome_def room)
  next
    case 2
    then show ?thesis
      using Cons.prems(1) c by (simp add: fast_loop_outcome_def)
  next
    case 3
    obtain e ds a where "fast_loop datlen n False (used + 1) (avail + buffer_len c) cs = Some (e, ds, a)"
      "empty_chains ds" "fast_loop_outcome datlen (n - (used + 1)) (avail + buffer_len c) e ds a"
      using Cons.IH[OF tail 3(2), of "avail + buffer_len c"] by (elim exE conjE) (rule that)
    then show ?thesis
      using 3 c by (intro exI[of _ e] exI[of _ "?c # ds"] exI[of _ a])
        (cases e, simp_all add: fast_loop_outcome_def room)
  qed
qed

text \<open>The whole loop, from the last chain with data on.\<close>

definition same_chain :: "evbuffer_chain \<Rightarrow> evbuffer_chain \<Rightarrow> bool" where
  "same_chain c d \<longleftrightarrow> chain_wf d \<and> ch_off d = ch_off c \<and> chain_data d = chain_data c \<and>
     ch_has EVBUFFER_IMMUTABLE d = ch_has EVBUFFER_IMMUTABLE c"

lemma fast_loop_first:
  assumes c: "chain_wf c" and cs: "empty_chains cs" and n: "2 \<le> n"
  shows "\<exists>end d ds a. fast_loop datlen n True 0 0 (c # cs) = Some (end, d # ds, a) \<and> same_chain c d \<and>
           empty_chains ds \<and>
           fast_loop_outcome datlen n 0 end (if CHAIN_SPACE_LEN d = 0 then ds else d # ds) a"
proof -
  let ?none = "ch_off c \<noteq> 0 \<and> CHAIN_SPACE_LEN c = 0"
  define d where "d = (if ch_off c \<noteq> 0 then c else c\<lparr>misalign := 0\<rparr>)"
  have d: "same_chain c d" "CHAIN_SPACE_LEN d = 0 \<longleftrightarrow> ?none"
    "CHAIN_SPACE_LEN d = (if ch_off c \<noteq> 0 then CHAIN_SPACE_LEN c else buffer_len c)"
    using c empty_chain_space[OF c] by (auto simp: d_def same_chain_def chain_data_def ch_has_def)
  define used where "used = (if ?none then 0 else Suc 0)"
  have step: "fast_loop datlen n True 0 0 (c # cs) =
      (if CHAIN_SPACE_LEN d \<ge> datlen then Some (Enough, d # cs, CHAIN_SPACE_LEN d)
       else if used = n then Some (All_used, d # cs, CHAIN_SPACE_LEN d)
       else map_option (\<lambda>(e, ds, a). (e, d # ds, a)) (fast_loop datlen n False used (CHAIN_SPACE_LEN d) cs))"
  proof (cases "ch_off c = 0")
    case True
    then show ?thesis
      using d(3) empty_chain_space[OF c True] by (simp add: d_def used_def)
  next
    case False
    then show ?thesis
      by (simp add: d_def used_def)
  qed
  show ?thesis
  proof (cases "datlen \<le> CHAIN_SPACE_LEN d")
    case True
    then have "fast_loop datlen n True 0 0 (c # cs) = Some (Enough, d # cs, CHAIN_SPACE_LEN d)"
      unfolding step by (rule if_P)
    moreover have "fast_loop_outcome datlen n 0 Enough (if CHAIN_SPACE_LEN d = 0 then cs else d # cs) (CHAIN_SPACE_LEN d)"
      using True n by (cases n) (auto simp: fast_loop_outcome_def)
    ultimately show ?thesis
      using d(1) cs by blast
  next
    case False
    have un: "used < n"
      using n by (simp add: used_def)
    obtain e ds a where *: "fast_loop datlen n False used (CHAIN_SPACE_LEN d) cs = Some (e, ds, a)"
      "empty_chains ds" "fast_loop_outcome datlen (n - used) (CHAIN_SPACE_LEN d) e ds a"
      using fast_loop_empty[OF cs un, of datlen "CHAIN_SPACE_LEN d"] by (elim exE conjE) (rule that)
    have "fast_loop_outcome datlen n 0 e (if CHAIN_SPACE_LEN d = 0 then ds else d # ds) a"
      using *(3) n d(2) by (cases n; cases e) (auto simp: fast_loop_outcome_def used_def split: if_splits)
    moreover have "fast_loop datlen n True 0 0 (c # cs) = Some (e, d # ds, a)"
      unfolding step using False *(1) un by simp
    ultimately show ?thesis
      using *(2) d(1) by blast
  qed
qed

text \<open>The chains behind the last one with data can be replaced by other empty chains.\<close>

lemma tail_replaced:
  assumes wf: "evbuffer_wf buf" and cs: "chains buf = pre @ c # es" "length pre = last_with_datap buf"
    and d: "same_chain c d" "empty_chains ds"
    and eq: "chains buf' = pre @ d # ds" "last_with_datap buf' = last_with_datap buf" "total_len buf' = total_len buf"
  shows "evbuffer_wf buf'" "evbuffer_content buf' = evbuffer_content buf" "evbuffer_plain buf \<Longrightarrow> evbuffer_plain buf'"
proof -
  note D = evbuffer_wfD[OF wf]
  have nil: "concat (map chain_data xs) = []" "sum_list (map ch_off xs) = 0" if "empty_chains xs" for xs
    using that chain_data_empty_iff by (auto simp: empty_chains_def sum_list_eq_0_iff)
  have es: "empty_chains es"
    using D(1,3) cs by (auto simp: empty_chains_def lwd_ok_def)
  have "lwd_ok (chains buf') (last_with_datap buf')"
    using D(3) d cs by (auto simp: eq lwd_ok_def same_chain_def empty_chains_def nth_append)
  then show "evbuffer_wf buf'"
    using D(1,2) d nil(2)[OF es] nil(2)[OF d(2)] unfolding evbuffer_wf_def eq cs(1)
    by (auto simp: same_chain_def empty_chains_def)
  show "evbuffer_content buf' = evbuffer_content buf"
    using d(1) nil(1)[OF es] nil(1)[OF d(2)] unfolding evbuffer_content_def eq cs(1)
    by (simp add: same_chain_def del: concat_eq_Nil_conv)
  have "\<not> ch_has EVBUFFER_IMMUTABLE x" if "x \<in> set ds" for x
    using that d(2) empty_chain_space(1)[of x] by (simp add: empty_chains_def)
  then show "evbuffer_plain buf \<Longrightarrow> evbuffer_plain buf'"
    using d(1) unfolding evbuffer_plain_def eq cs(1) by (auto simp: same_chain_def ch_has_def)
qed

text \<open>What \<open>_evbuffer_expand_fast\<close> gives: the same data, and room for \<open>datlen\<close> bytes in \<open>n\<close> chains.\<close>

definition fast_outcome :: "allocator \<Rightarrow> evbuffer \<Rightarrow> nat \<Rightarrow> nat \<Rightarrow> int \<Rightarrow> evbuffer \<Rightarrow> bool" where
  "fast_outcome malloc buf datlen n r buf' \<longleftrightarrow>
     evbuffer_wf buf' \<and> same_settings buf buf' \<and> evbuffer_content buf' = evbuffer_content buf \<and>
     (evbuffer_plain buf \<longrightarrow> evbuffer_plain buf') \<and>
     (r = 0 \<and> last_with_datap buf' < length (chains buf') \<and>
        datlen \<le> space_sum n (drop (first_space_pos buf') (chains buf')) \<or>
      r = - 1 \<and> (\<exists>m. malloc m = None))"

lemma first_space_split:
  assumes "chains buf = pre @ c # cs" "length pre = last_with_datap buf"
  shows "drop (first_space_pos buf) (chains buf) = (if CHAIN_SPACE_LEN c = 0 then cs else c # cs)"
proof -
  have "chains buf ! last_with_datap buf = c"
    by (simp add: assms(1) assms(2)[symmetric])
  then show ?thesis
    by (simp add: first_space_pos_def assms(1)) (simp add: assms(2)[symmetric])
qed

lemma fast_insert_ok:
  assumes wf: "evbuffer_wf buf" and len: "datlen \<le> CHAIN_MAX_REQUEST" and n: "2 \<le> n"
    and c: "chains buf = [] \<or> ch_has EVBUFFER_IMMUTABLE (last (chains buf))"
  shows "\<exists>buf' ok. evbuffer_chain_insert_new malloc buf datlen = Some (buf', ok) \<and>
           fast_outcome malloc buf datlen n (if ok then 0 else - 1) buf'"
proof -
  obtain r where r: "evbuffer_chain_new malloc datlen = Some r"
    "\<And>c. r = Some c \<Longrightarrow> chain_wf c \<and> ch_off c = 0 \<and> misalign c = 0 \<and> datlen \<le> buffer_len c \<and>
          976 \<le> buffer_len c \<and> ch_flags c = 0 \<and> chain_data c = []"
    "r = None \<Longrightarrow> \<exists>m. malloc m = None"
    using chain_new_returns[OF len] by metis
  show ?thesis
  proof (cases r)
    case None
    then show ?thesis
      using r wf by (auto simp: evbuffer_chain_insert_new_def fast_outcome_def)
  next
    case (Some t)
    note t = r(2)[OF Some]
    have room: "datlen \<le> CHAIN_SPACE_LEN t" "0 < CHAIN_SPACE_LEN t"
      using t by (auto simp: CHAIN_SPACE_LEN_def ch_has_def)
    obtain buf' where b: "evbuffer_chain_insert buf t = Some buf'" "evbuffer_wf buf'" "same_settings buf buf'"
      "evbuffer_content buf' = evbuffer_content buf" "last_with_datap buf' < length (chains buf')"
      "chains buf' = take (victim_pos buf) (chains buf) @ [t]"
      using chain_insert_empty[OF wf] t by metis
    have "datlen \<le> space_sum n (drop (first_space_pos buf') (chains buf'))"
    proof (cases "chains buf = []")
      case True
      then have "chains buf' = [t]" "last_with_datap buf' = 0"
        using b(5,6) by simp_all
      then show ?thesis
        using room n by (cases n) (simp_all add: first_space_pos_def)
    next
      case False
      note L = lwd_okD[OF evbuffer_wfD(3)[OF wf] False]
      let ?l = "length (chains buf) - 1"
      have imm: "ch_has EVBUFFER_IMMUTABLE (chains buf ! ?l)"
        using c False by (simp add: last_conv_nth)
      moreover have "chain_wf (chains buf ! ?l)"
        using evbuffer_wfD(1)[OF wf] False by simp
      ultimately have off: "ch_off (chains buf ! ?l) \<noteq> 0"
        by (simp add: chain_wf_def)
      then have lwd: "last_with_datap buf = ?l"
        using L(1) L(3)[of ?l] False by (cases "last_with_datap buf < ?l") auto
      then have "victim_pos buf = length (chains buf)"
        using wf_victims(1)[OF wf False] off False by simp
      then have cs': "chains buf' = chains buf @ [t]"
        using b(6) by simp
      have "last_with_datap buf' = ?l"
        using b(1) lwd False off \<open>victim_pos buf = length (chains buf)\<close> t
        by (auto simp: evbuffer_chain_insert_def split: if_splits)
      moreover have "CHAIN_SPACE_LEN (chains buf' ! ?l) = 0"
        using imm False by (simp add: cs' nth_append CHAIN_SPACE_LEN_def)
      ultimately have "drop (first_space_pos buf') (chains buf') = [t]"
        using False by (simp add: first_space_pos_def cs')
      then show ?thesis
        using room n by (cases n) simp_all
    qed
    moreover have "evbuffer_plain buf \<longrightarrow> evbuffer_plain buf'"
      using chain_insert_plain[OF b(1)] t by (simp add: ch_has_def)
    ultimately show ?thesis
      using r(1) Some b(1-5)
      by (intro exI[of _ buf'] exI[of _ True]) (simp add: evbuffer_chain_insert_new_def fast_outcome_def)
  qed
qed

text \<open>A buffer with chains, split at the last one with data.\<close>

lemma split_at_lwd:
  assumes wf: "evbuffer_wf buf" and ne: "chains buf \<noteq> []"
  obtains pre c es where "chains buf = pre @ c # es" "length pre = last_with_datap buf" "chain_wf c" "empty_chains es"
    "chains buf ! last_with_datap buf = c" "ch_off c = 0 \<Longrightarrow> pre = []"
proof -
  note D = evbuffer_wfD[OF wf] and L = lwd_okD[OF evbuffer_wfD(3)[OF wf] ne]
  let ?k = "last_with_datap buf" and ?cs = "chains buf"
  have a: "empty_chains (drop (Suc ?k) ?cs)"
    using D(1,3) ne by (auto simp: empty_chains_def lwd_ok_def dest: in_set_dropD)
  have b: "?cs = take ?k ?cs @ ?cs ! ?k # drop (Suc ?k) ?cs"
    using L(1) by (rule id_take_nth_drop)
  have c: "chain_wf (?cs ! ?k)"
    using D(1) L(1) by simp
  show ?thesis
    by (rule that[OF b _ c a]) (use L(1,2) in auto)
qed

lemma empty_chains_all_empty: "empty_chains cs \<Longrightarrow> evbuffer_chains_all_empty cs"
  by (simp add: empty_chains_def chains_all_empty_iff)

lemma same_chain_refl: "chain_wf c \<Longrightarrow> same_chain c c"
  by (simp add: same_chain_def)

lemma replace_empty_ok:
  assumes wf: "evbuffer_wf buf" and ne: "chains buf \<noteq> []" and len: "datlen \<le> CHAIN_MAX_REQUEST" and n: "2 \<le> n"
  shows "\<exists>r buf'. expand_replace_empty malloc buf datlen = Some (r, buf') \<and> fast_outcome malloc buf datlen n r buf'"
proof -
  obtain pre c es where cs: "chains buf = pre @ c # es" "length pre = last_with_datap buf" "chain_wf c" "empty_chains es"
    "chains buf ! last_with_datap buf = c" "ch_off c = 0 \<Longrightarrow> pre = []"
    using split_at_lwd[OF wf ne] by blast
  define all where "all \<longleftrightarrow> ch_off c = 0"
  define keep where "keep = (if all then [] else pre @ [c])"
  define av where "av = (if all then 0 else CHAIN_SPACE_LEN c)"
  define buf1 where "buf1 = log_free (buf\<lparr>chains := keep\<rparr>)
    (evbuffer_free_all_chains (if all then chains buf else es))"
  have k0: "last_with_datap buf = 0" "pre = []" if all
    using that cs(2,6) by (simp_all add: all_def)
  have victims: "evbuffer_chains_all_empty (if all then chains buf else es)"
    using cs(1,3,4) k0(2) empty_chains_all_empty by (cases all) (simp_all add: all_def)
  have take: "take (if all then last_with_datap buf else last_with_datap buf + 1) (chains buf) = keep"
    "drop (if all then last_with_datap buf else last_with_datap buf + 1) (chains buf) = (if all then chains buf else es)"
    using k0 cs(2)[symmetric] by (simp_all add: keep_def cs(1))
  have E: "expand_replace_empty malloc buf datlen = do {
      r \<leftarrow> evbuffer_chain_new malloc (datlen - av);
      Some (case r of None \<Rightarrow> (- 1, if all then ZERO_CHAIN buf1 else buf1)
            | Some tmp \<Rightarrow> (0, buf1\<lparr>chains := chains buf1 @ [tmp]\<rparr>)) }"
    using k0 victims
    unfolding expand_replace_empty_def cs(5) Let_def all_def[symmetric] take buf1_def[symmetric] av_def[symmetric]
    by auto
  have b1: "last_with_datap buf1 = last_with_datap buf" "total_len buf1 = total_len buf" "chains buf1 = keep"
      "same_settings buf buf1"
    by (simp_all add: buf1_def same_settings_def)
  have len': "datlen - av \<le> CHAIN_MAX_REQUEST"
    using len by simp
  obtain r where r: "evbuffer_chain_new malloc (datlen - av) = Some r"
    "\<And>t. r = Some t \<Longrightarrow> chain_wf t \<and> ch_off t = 0 \<and> misalign t = 0 \<and> datlen - av \<le> buffer_len t \<and>
          976 \<le> buffer_len t \<and> ch_flags t = 0 \<and> chain_data t = []"
    "r = None \<Longrightarrow> \<exists>m. malloc m = None"
    using chain_new_returns[OF len'] by metis
  show ?thesis
  proof (cases r)
    case None
    have "fast_outcome malloc buf datlen n (- 1) (if all then ZERO_CHAIN buf1 else buf1)"
    proof (cases all)
      case True
      have "evbuffer_content buf = []"
        using cs(3,4) k0(2)[OF True] True chain_data_empty_iff
        by (auto simp: evbuffer_content_def cs(1) all_def empty_chains_def)
      moreover have "evbuffer_wf (ZERO_CHAIN buf1) \<and> evbuffer_content (ZERO_CHAIN buf1) = [] \<and>
          evbuffer_plain (ZERO_CHAIN buf1)"
        by (simp add: evbuffer_wf_def lwd_ok_def evbuffer_content_def ZERO_CHAIN_def evbuffer_plain_def)
      ultimately show ?thesis
        using True r(3)[OF None] b1(4) by (simp add: fast_outcome_def same_settings_def ZERO_CHAIN_def)
    next
      case False
      have "chains buf1 = pre @ c # []"
        using False by (simp add: b1 keep_def)
      from tail_replaced[OF wf cs(1,2) same_chain_refl[OF cs(3)] _ this b1(1,2)] show ?thesis
        using False r(3)[OF None] b1(4) by (simp add: fast_outcome_def)
    qed
    then show ?thesis
      using E r(1) None by simp
  next
    case (Some t)
    note t = r(2)[OF Some]
    define buf2 where "buf2 = buf1\<lparr>chains := chains buf1 @ [t]\<rparr>"
    have t': "\<not> ch_has EVBUFFER_IMMUTABLE t" "CHAIN_SPACE_LEN t = buffer_len t"
      using t by (simp_all add: ch_has_def CHAIN_SPACE_LEN_def)
    have b2: "last_with_datap buf2 = last_with_datap buf" "total_len buf2 = total_len buf" "chains buf2 = keep @ [t]"
      "same_settings buf buf2"
      using b1 by (simp_all add: buf2_def same_settings_def)
    obtain n' where n': "n = Suc (Suc n')"
      using n by (metis add_2_eq_Suc le_Suc_ex)
    have "fast_outcome malloc buf datlen n 0 buf2"
    proof (cases all)
      case True
      have "chains buf2 = pre @ t # []"
        using True k0 by (simp add: b2 keep_def)
      moreover have "same_chain c t"
        using True t t' empty_chain_space(1,5)[OF cs(3)] by (simp add: same_chain_def all_def)
      ultimately have "evbuffer_wf buf2 \<and> evbuffer_content buf2 = evbuffer_content buf \<and>
          (evbuffer_plain buf \<longrightarrow> evbuffer_plain buf2)"
        using tail_replaced[OF wf cs(1,2) _ _ _ b2(1,2)] by simp
      moreover have "drop (first_space_pos buf2) (chains buf2) = [t]"
        using first_space_split[of buf2 pre t "[]"] True k0 cs(2) t t' by (simp add: b2 keep_def)
      ultimately show ?thesis
        using True t t' b2 k0 by (simp add: fast_outcome_def n' av_def keep_def)
    next
      case False
      have ch: "chains buf2 = pre @ c # [t]"
        using False by (simp add: b2 keep_def)
      then have "evbuffer_wf buf2 \<and> evbuffer_content buf2 = evbuffer_content buf \<and>
          (evbuffer_plain buf \<longrightarrow> evbuffer_plain buf2)"
        using tail_replaced[OF wf cs(1,2) same_chain_refl[OF cs(3)] _ ch b2(1,2)] t by simp
      moreover have "drop (first_space_pos buf2) (chains buf2) = (if CHAIN_SPACE_LEN c = 0 then [t] else [c, t])"
        using first_space_split[OF ch] cs(2) b2(1) by simp
      moreover have "last_with_datap buf2 < length (chains buf2)"
        using cs(2) by (simp add: ch b2(1))
      ultimately show ?thesis
        using False t t' b2(4) by (auto simp: fast_outcome_def n' av_def)
    qed
    then show ?thesis
      using E r(1) Some by (simp add: buf2_def)
  qed
qed

lemma expand_fast_ok:
  assumes wf: "evbuffer_wf buf" and len: "datlen \<le> CHAIN_MAX_REQUEST" and n: "2 \<le> n"
  shows "\<exists>r buf'. evbuffer_expand_fast malloc buf datlen n = Some (r, buf') \<and> fast_outcome malloc buf datlen n r buf'"
proof (cases "chains buf = [] \<or> ch_has EVBUFFER_IMMUTABLE (last (chains buf))")
  case True
  then obtain buf' ok where "evbuffer_chain_insert_new malloc buf datlen = Some (buf', ok)"
    "fast_outcome malloc buf datlen n (if ok then 0 else - 1) buf'"
    using fast_insert_ok[OF wf len n True, of malloc] by (elim exE conjE) (rule that)
  then show ?thesis
    using True n by (simp add: evbuffer_expand_fast_def)
next
  case False
  then have ne: "chains buf \<noteq> []"
    by simp
  obtain pre c es where cs: "chains buf = pre @ c # es" "length pre = last_with_datap buf" "chain_wf c" "empty_chains es"
    using split_at_lwd[OF wf ne] by blast
  obtain e d ds a where loop: "fast_loop datlen n True 0 0 (c # es) = Some (e, d # ds, a)" "same_chain c d"
    "empty_chains ds" "fast_loop_outcome datlen n 0 e (if CHAIN_SPACE_LEN d = 0 then ds else d # ds) a"
    using fast_loop_first[OF cs(3,4) n, of datlen] by (elim exE conjE) (rule that)
  define buf1 where "buf1 = buf\<lparr>chains := pre @ d # ds\<rparr>"
  have b1: "chains buf1 = pre @ d # ds" "last_with_datap buf1 = last_with_datap buf" "total_len buf1 = total_len buf"
    "same_settings buf buf1"
    by (simp_all add: buf1_def same_settings_def)
  note T = tail_replaced[OF wf cs(1,2) loop(2,3) b1(1-3)]
  have F: "drop (first_space_pos buf1) (chains buf1) = (if CHAIN_SPACE_LEN d = 0 then ds else d # ds)"
    using first_space_split[OF b1(1)] cs(2) b1(2) by simp
  have eq: "evbuffer_expand_fast malloc buf datlen n = (case e of
      Enough \<Rightarrow> Some (0, buf1)
    | Ran_off \<Rightarrow> do {
        r \<leftarrow> evbuffer_chain_new malloc (datlen - a);
        Some (case r of None \<Rightarrow> (- 1, buf1) | Some tmp \<Rightarrow> (0, buf1\<lparr>chains := chains buf1 @ [tmp]\<rparr>)) }
    | All_used \<Rightarrow> expand_replace_empty malloc buf1 datlen)"
  proof -
    have dt: "drop (last_with_datap buf) (chains buf) = c # es" "take (last_with_datap buf) (chains buf) = pre"
      by (simp_all add: cs(1) cs(2)[symmetric])
    show ?thesis
      using False n unfolding evbuffer_expand_fast_def Let_def dt loop(1) buf1_def
      by (cases e) simp_all
  qed
  show ?thesis
  proof (cases e)
    case Enough
    then show ?thesis
      using T b1 loop(4) F cs(2) by (simp add: eq fast_outcome_def fast_loop_outcome_def)
  next
    case All_used
    obtain r buf' where "expand_replace_empty malloc buf1 datlen = Some (r, buf')" "fast_outcome malloc buf1 datlen n r buf'"
      using replace_empty_ok[OF T(1) _ len n, of malloc] b1(1) by auto
    then show ?thesis
      using All_used T b1(4) same_settings_trans[OF b1(4)] by (auto simp: eq fast_outcome_def)
  next
    case Ran_off
    have a: "a = space_sum n (drop (first_space_pos buf1) (chains buf1))"
      "length (drop (first_space_pos buf1) (chains buf1)) < n"
      using loop(4) Ran_off by (simp_all only: F fast_loop_outcome_def fast_end.case add_0)
    have len': "datlen - a \<le> CHAIN_MAX_REQUEST"
      using len by simp
    obtain r where r: "evbuffer_chain_new malloc (datlen - a) = Some r"
      "\<And>t. r = Some t \<Longrightarrow> chain_wf t \<and> ch_off t = 0 \<and> misalign t = 0 \<and> datlen - a \<le> buffer_len t \<and>
            976 \<le> buffer_len t \<and> ch_flags t = 0 \<and> chain_data t = []"
      "r = None \<Longrightarrow> \<exists>m. malloc m = None"
      using chain_new_returns[OF len'] by metis
    show ?thesis
    proof (cases r)
      case None
      then show ?thesis
        using Ran_off r T b1(4) by (simp add: eq fast_outcome_def)
    next
      case (Some t)
      note t = r(2)[OF Some]
      define buf2 where "buf2 = buf1\<lparr>chains := chains buf1 @ [t]\<rparr>"
      have b2: "chains buf2 = pre @ d # (ds @ [t])" "last_with_datap buf2 = last_with_datap buf"
        "total_len buf2 = total_len buf" "same_settings buf buf2"
        using b1 by (simp_all add: buf2_def same_settings_def)
      have room: "datlen - a \<le> CHAIN_SPACE_LEN t"
        using t by (simp add: CHAIN_SPACE_LEN_def ch_has_def)
      have "drop (first_space_pos buf2) (chains buf2) = drop (first_space_pos buf1) (chains buf1) @ [t]"
        using first_space_split[OF b2(1)] cs(2) b2(2) by (simp add: F)
      moreover have "space_sum n (xs @ [t]) = space_sum n xs + CHAIN_SPACE_LEN t" if "length xs < n" for xs
        using that by (cases "n - length xs") (simp_all add: space_sum_append)
      ultimately have "datlen \<le> space_sum n (drop (first_space_pos buf2) (chains buf2))"
        using a room by simp
      moreover have "evbuffer_wf buf2 \<and> evbuffer_content buf2 = evbuffer_content buf \<and>
          (evbuffer_plain buf \<longrightarrow> evbuffer_plain buf2)"
        using tail_replaced[OF wf cs(1,2) loop(2) _ b2(1-3)] loop(3) t by simp
      moreover have "last_with_datap buf2 < length (chains buf2)"
        using cs(2) by (simp add: b2)
      ultimately have "fast_outcome malloc buf datlen n 0 buf2"
        using b2(4) by (simp add: fast_outcome_def)
      then show ?thesis
        using Ran_off r(1) Some by (simp add: eq buf2_def)
    qed
  qed
qed

text \<open>The vectors: one for each chain from the first with room on.\<close>

definition vecs_for :: "nat \<Rightarrow> evbuffer_chain list \<Rightarrow> evbuffer_iovec list \<Rightarrow> bool" where
  "vecs_for pos cs vs \<longleftrightarrow> length vs \<le> length cs \<and>
     (\<forall>j < length vs. iov_chain (vs ! j) = pos + j \<and> iov_base (vs ! j) = CHAIN_SPACE_PTR (cs ! j) \<and>
        iov_len (vs ! j) \<le> CHAIN_SPACE_LEN (cs ! j))"

lemma vecs_for_simps [simp]:
  "vecs_for pos cs []" "\<not> vecs_for pos [] (v # vs)"
  "vecs_for pos (c # cs) (v # vs) \<longleftrightarrow>
     iov_chain v = pos \<and> iov_base v = CHAIN_SPACE_PTR c \<and> iov_len v \<le> CHAIN_SPACE_LEN c \<and> vecs_for (pos + 1) cs vs"
  by (auto simp: vecs_for_def less_Suc_eq_0_disj nth_Cons' all_conj_distrib)

text \<open>
  The vectors but the last take all the room of their chains.
\<close>

definition vecs_full :: "evbuffer_chain list \<Rightarrow> evbuffer_iovec list \<Rightarrow> bool" where
  "vecs_full cs vs \<longleftrightarrow> (\<forall>j. Suc j < length vs \<longrightarrow> iov_len (vs ! j) = CHAIN_SPACE_LEN (cs ! j))"

lemma vecs_full_Cons [simp]:
  "vecs_full cs []" "vecs_full (c # cs) (v # vs) \<longleftrightarrow> (vs \<noteq> [] \<longrightarrow> iov_len v = CHAIN_SPACE_LEN c) \<and> vecs_full cs vs"
  by (simp add: vecs_full_def) (auto simp: vecs_full_def nth_Cons split: nat.splits)

lemma setup_vecs_done: "howmuch \<le> so_far \<Longrightarrow> setup_vecs_loop exact howmuch left so_far pos cs = Some []"
  by (cases left) simp_all

lemma setup_vecs_ok:
  assumes "howmuch \<le> so_far + space_sum left cs"
  shows "\<exists>vs. setup_vecs_loop exact howmuch left so_far pos cs = Some vs \<and> vecs_for pos cs vs \<and> vecs_full cs vs \<and>
           length vs \<le> left \<and> howmuch \<le> so_far + sum_list (map iov_len vs) \<and>
           (exact \<and> so_far \<le> howmuch \<longrightarrow> so_far + sum_list (map iov_len vs) = howmuch)"
  using assms
proof (induction left arbitrary: so_far pos cs)
  case (Suc left)
  show ?case
  proof (cases "howmuch \<le> so_far")
    case False
    then obtain c ds where cs: "cs = c # ds"
      using Suc.prems by (cases cs) auto
    define av where "av = (if CHAIN_SPACE_LEN c > howmuch - so_far \<and> exact then howmuch - so_far else CHAIN_SPACE_LEN c)"
    have "howmuch \<le> so_far + av + space_sum left ds"
      using Suc.prems False by (auto simp: cs av_def)
    then obtain vs where vs: "setup_vecs_loop exact howmuch left (so_far + av) (pos + 1) ds = Some vs"
      "vecs_for (pos + 1) ds vs" "vecs_full ds vs" "length vs \<le> left" "howmuch \<le> so_far + av + sum_list (map iov_len vs)"
      "exact \<and> so_far + av \<le> howmuch \<longrightarrow> so_far + av + sum_list (map iov_len vs) = howmuch"
      using Suc.IH by blast
    let ?v = "\<lparr>iov_chain = pos, iov_base = CHAIN_SPACE_PTR c, iov_len = av\<rparr>"
    have "setup_vecs_loop exact howmuch (Suc left) so_far pos cs = Some (?v # vs)"
      using False vs(1) by (simp add: cs av_def Let_def)
    moreover have "av \<le> CHAIN_SPACE_LEN c" "exact \<Longrightarrow> so_far + av \<le> howmuch"
      using False by (auto simp: av_def)
    moreover have "av = CHAIN_SPACE_LEN c" if "vs \<noteq> []"
      using that vs(1) setup_vecs_done[of howmuch "so_far + av"] False by (auto simp: av_def split: if_splits)
    ultimately show ?thesis
      using vs(2-6) by (intro exI[of _ "?v # vs"]) (auto simp: cs)
  qed simp
qed simp

text \<open>After room has been made the vectors have room for the bytes asked for.\<close>

lemma read_setup_ok:
  assumes "fast_outcome malloc buf0 (nat howmuch) n 0 buf" "0 \<le> howmuch"
  shows "\<exists>vs. evbuffer_read_setup_vecs buf howmuch n exact = Some (int (length vs), vs, first_space_pos buf) \<and>
           vecs_for (first_space_pos buf) (drop (first_space_pos buf) (chains buf)) vs \<and>
           vecs_full (drop (first_space_pos buf) (chains buf)) vs \<and> length vs \<le> n \<and>
           nat howmuch \<le> sum_list (map iov_len vs) \<and> (exact \<longrightarrow> sum_list (map iov_len vs) = nat howmuch)"
proof -
  have room: "last_with_datap buf < length (chains buf)"
    "nat howmuch \<le> 0 + space_sum n (drop (first_space_pos buf) (chains buf))"
    using assms(1) by (simp_all add: fast_outcome_def)
  show ?thesis
    using setup_vecs_ok[OF room(2), of exact "first_space_pos buf"] room(1) assms(2)
    by (auto simp: evbuffer_read_setup_vecs_def Let_def)
qed

section \<open>Reading appends what was read\<close>

text \<open>The bytes the kernel stores, cut at the ends of the vectors.\<close>

fun cut_blocks :: "evbuffer_iovec list \<Rightarrow> byte list \<Rightarrow> byte list list" where
  "cut_blocks [] bs = []"
| "cut_blocks (v # vs) bs = take (iov_len v) bs # cut_blocks vs (drop (iov_len v) bs)"

lemma concat_cut_blocks: "length bs \<le> sum_list (map iov_len vs) \<Longrightarrow> concat (cut_blocks vs bs) = bs"
  by (induction vs arbitrary: bs) auto

lemma cut_blocks_fit: "vecs_for pos cs vs \<Longrightarrow> blocks_fit (cut_blocks vs bs) cs"
proof (induction vs arbitrary: pos cs bs)
  case (Cons v vs)
  then show ?case
    by (cases cs) auto
qed simp

lemma readv_store_empty: "readv_store cs vs [] = cs"
  by (induction cs vs "[] :: byte list" rule: readv_store.induct) (simp_all add: chain_write_def)

lemma chain_space_write [simp]: "CHAIN_SPACE_LEN (chain_write c i bs) = CHAIN_SPACE_LEN c"
  by (simp add: CHAIN_SPACE_LEN_def ch_has_def)

lemma last_block_all_empty: "concat bss = [] \<Longrightarrow> last_block i bss k = k"
  by (rule last_block_empty) simp

lemma last_block_irrelevant: "concat bss \<noteq> [] \<Longrightarrow> last_block i bss k = last_block i bss k'"
  by (induction bss arbitrary: i k k') auto

lemma cut_blocks_Nil: "concat (cut_blocks vs []) = []"
  by (induction vs) simp_all

lemma read_advance_ok:
  assumes "vecs_for pos cs vs" "vecs_full cs vs" "bs \<noteq> []" "length bs \<le> sum_list (map iov_len vs)"
  shows "read_advance (length vs) pos (length bs) (readv_store cs vs bs) k =
           Some (append_blocks cs (cut_blocks vs bs), last_block pos (cut_blocks vs bs) k)"
  using assms
proof (induction vs arbitrary: pos cs bs k)
  case (Cons v vs)
  then obtain c ds where cs: "cs = c # ds"
    by (cases cs) auto
  have v: "iov_base v - ch_buffer c = misalign c + ch_off c" "iov_len v \<le> CHAIN_SPACE_LEN c" "vecs_for (pos + 1) ds vs"
    "vecs_full ds vs" "vs \<noteq> [] \<Longrightarrow> iov_len v = CHAIN_SPACE_LEN c"
    using Cons.prems by (simp_all add: cs CHAIN_SPACE_PTR_def)
  show ?case
  proof (cases "length bs \<le> CHAIN_SPACE_LEN c")
    case True
    have all: "length bs \<le> iov_len v"
      using Cons.prems(4) v(5) True by (cases "vs = []") auto
    then have "cut_blocks (v # vs) bs = bs # cut_blocks vs []" "readv_store ds vs (drop (iov_len v) bs) = ds"
      by (simp_all add: readv_store_empty)
    moreover have "append_blocks ds (cut_blocks vs []) = ds"
      using cut_blocks_Nil[of vs] by (intro append_blocks_empty) simp
    ultimately show ?thesis
      using True all Cons.prems(3) v(1)
      by (simp add: cs append_bytes_def last_block_all_empty[OF cut_blocks_Nil])
  next
    case False
    then have full: "iov_len v = CHAIN_SPACE_LEN c"
      using Cons.prems(4) v(2,5) by (cases "vs = []") auto
    let ?b = "take (iov_len v) bs" and ?r = "drop (iov_len v) bs"
    have rest: "length bs - iov_len v = length ?r" "?r \<noteq> []" "length ?r \<le> sum_list (map iov_len vs)"
      using False full Cons.prems(4) by simp_all
    have "read_advance (length vs) (pos + 1) (length ?r) (readv_store ds vs ?r) k =
        Some (append_blocks ds (cut_blocks vs ?r), last_block (pos + 1) (cut_blocks vs ?r) k)" for k
      by (rule Cons.IH[OF v(3,4) rest(2,3)])
    moreover have "concat (cut_blocks vs ?r) \<noteq> []"
      using concat_cut_blocks[OF rest(3)] rest(2) by simp
    then have "last_block (pos + 1) (cut_blocks vs ?r) pos = last_block (pos + 1) (cut_blocks vs ?r) k"
      by (rule last_block_irrelevant)
    moreover have "append_bytes c ?b = (chain_write c (iov_base v - ch_buffer c) ?b)\<lparr>ch_off := ch_off c + CHAIN_SPACE_LEN c\<rparr>"
      using False full v(1) by (simp add: append_bytes_def)
    ultimately show ?thesis
      using False full rest(1) by (simp add: cs Let_def)
  qed
qed simp

text \<open>The outcome of reading: the bytes are appended, or nothing changes.\<close>

lemma append_all_chains:
  "count_added (buf\<lparr>chains := take i (chains buf) @ append_blocks (drop i (chains buf)) bss,
      last_with_datap := last_block i bss (last_with_datap buf)\<rparr>) (length (concat bss)) = append_all buf i bss"
  by (simp add: append_all_def)

lemma first_space_bounds:
  "last_with_datap buf \<le> first_space_pos buf" "last_with_datap buf < length (chains buf) \<Longrightarrow> first_space_pos buf \<le> length (chains buf)"
  by (simp_all add: first_space_pos_def)

lemma read_amount_bounds:
  "read_amount ioctl howmuch \<le> 4096" "0 \<le> read_amount ioctl howmuch" "howmuch \<noteq> 0 \<Longrightarrow> 0 < read_amount ioctl howmuch"
  by (auto simp: read_amount_def get_n_bytes_readable_on_socket_def EVBUFFER_MAX_READ_def Let_def)

lemma read_cases:
  assumes wf: "evbuffer_wf buf" and fr: "\<not> freeze_end buf"
  obtains (nomem) buf1 m where "evbuffer_read malloc ioctl readv buf howmuch = Some (- 1, buf1)" "malloc m = None"
      "fast_outcome malloc buf (nat (read_amount ioctl howmuch)) NUM_READ_IOVEC (- 1) buf1"
    | (room) buf1 vs where "fast_outcome malloc buf (nat (read_amount ioctl howmuch)) NUM_READ_IOVEC 0 buf1"
      "sum_list (map iov_len vs) = nat (read_amount ioctl howmuch)" "length vs \<le> NUM_READ_IOVEC"
      "vecs_for (first_space_pos buf1) (drop (first_space_pos buf1) (chains buf1)) vs"
      "vecs_full (drop (first_space_pos buf1) (chains buf1)) vs"
      "evbuffer_read malloc ioctl readv buf howmuch = (case readv (map iov_len vs) of
         None \<Rightarrow> Some (- 1, buf1)
       | Some bs \<Rightarrow>
           if bs = [] then Some (0, buf1)
           else do {
             (cs, lwd) \<leftarrow> read_advance (length vs) (first_space_pos buf1) (length bs)
                            (readv_store (drop (first_space_pos buf1) (chains buf1)) vs bs) (last_with_datap buf1);
             Some (int (length bs), evbuffer_invoke_callbacks (count_added
               (buf1\<lparr>chains := take (first_space_pos buf1) (chains buf1) @ cs, last_with_datap := lwd\<rparr>) (length bs)))
           })"
proof -
  let ?am = "read_amount ioctl howmuch"
  have am: "0 \<le> ?am" "nat ?am \<le> CHAIN_MAX_REQUEST" "2 \<le> NUM_READ_IOVEC"
    using read_amount_bounds[where ioctl = ioctl and howmuch = howmuch] by (simp_all add: CHAIN_MAX_REQUEST_def EVBUFFER_CHAIN_SIZE_def NUM_READ_IOVEC_def)
  obtain r buf1 where r: "evbuffer_expand_fast malloc buf (nat ?am) NUM_READ_IOVEC = Some (r, buf1)"
    "fast_outcome malloc buf (nat ?am) NUM_READ_IOVEC r buf1"
    using expand_fast_ok[OF wf am(2,3), of malloc] by (elim exE conjE) (rule that)
  show ?thesis
  proof (cases "r = - 1")
    case True
    then obtain m where "malloc m = None"
      using r(2) by (auto simp: fast_outcome_def)
    moreover have "evbuffer_read malloc ioctl readv buf howmuch = Some (- 1, buf1)"
      using r(1) True fr by (simp add: evbuffer_read_def Let_def)
    ultimately show ?thesis
      using nomem r(2) True by blast
  next
    case False
    then have r0: "r = 0"
      using r(2) by (auto simp: fast_outcome_def)
    obtain vs where vs: "evbuffer_read_setup_vecs buf1 ?am NUM_READ_IOVEC True = Some (int (length vs), vs, first_space_pos buf1)"
      "vecs_for (first_space_pos buf1) (drop (first_space_pos buf1) (chains buf1)) vs"
      "vecs_full (drop (first_space_pos buf1) (chains buf1)) vs" "length vs \<le> NUM_READ_IOVEC"
      "sum_list (map iov_len vs) = nat ?am"
      using read_setup_ok[OF r(2)[unfolded r0] am(1), of True] by auto
    show ?thesis
      by (rule room[OF r(2)[unfolded r0] vs(5,4,2,3)])
        (use r(1) r0 fr vs(1) in \<open>cases "readv (map iov_len vs)"; simp add: evbuffer_read_def Let_def\<close>)
  qed
qed

lemma read_done:
  assumes F: "fast_outcome malloc buf k n 0 buf1"
    and vs: "vecs_for (first_space_pos buf1) (drop (first_space_pos buf1) (chains buf1)) vs"
      "vecs_full (drop (first_space_pos buf1) (chains buf1)) vs"
    and bs: "bs \<noteq> []" "length bs \<le> sum_list (map iov_len vs)"
  shows "\<exists>buf'. do {
      (cs, lwd) \<leftarrow> read_advance (length vs) (first_space_pos buf1) (length bs)
                     (readv_store (drop (first_space_pos buf1) (chains buf1)) vs bs) (last_with_datap buf1);
      Some (int (length bs), evbuffer_invoke_callbacks (count_added
        (buf1\<lparr>chains := take (first_space_pos buf1) (chains buf1) @ cs, last_with_datap := lwd\<rparr>) (length bs))) }
      = Some (int (length bs), buf') \<and> evbuffer_wf buf' \<and> evbuffer_content buf' = evbuffer_content buf @ bs \<and>
      same_settings buf buf' \<and> (evbuffer_plain buf \<longrightarrow> evbuffer_plain buf')"
proof -
  let ?i = "first_space_pos buf1" and ?bss = "cut_blocks vs bs"
  have b1: "evbuffer_wf buf1" "same_settings buf buf1" "evbuffer_content buf1 = evbuffer_content buf"
    "evbuffer_plain buf \<Longrightarrow> evbuffer_plain buf1" "last_with_datap buf1 < length (chains buf1)"
    using F by (simp_all add: fast_outcome_def)
  have cat: "concat ?bss = bs"
    by (rule concat_cut_blocks[OF bs(2)])
  have A: "evbuffer_wf (append_all buf1 ?i ?bss)" "evbuffer_content (append_all buf1 ?i ?bss) = evbuffer_content buf1 @ bs"
    "evbuffer_plain (append_all buf1 ?i ?bss) = evbuffer_plain buf1" "same_settings buf1 (append_all buf1 ?i ?bss)"
    using append_all_ok[OF b1(1) first_space_bounds(1) first_space_bounds(2)[OF b1(5)] cut_blocks_fit[OF vs(1)], of bs]
    by (simp_all add: cat)
  have "same_settings buf (append_all buf1 ?i ?bss)"
    by (rule same_settings_trans[OF b1(2) A(4)])
  then show ?thesis
    using A(1-3) b1(3,4) append_all_chains[where buf = buf1 and i = ?i and bss = ?bss] unfolding cat
    by (intro exI[of _ "evbuffer_invoke_callbacks (append_all buf1 ?i ?bss)"]) (simp add: read_advance_ok[OF vs bs])
qed

text \<open>A buffer of two chains with room left, for the concrete instances.\<close>

definition own_chain :: "addr \<Rightarrow> byte list \<Rightarrow> evbuffer_chain" where
  "own_chain adr bs = \<lparr>ch_buffer = adr, buffer_len = 4, misalign = 0, ch_off = length bs, ch_flags = 0,
     ch_mem = bs @ replicate (4 - length bs) 0, ch_cleanup = None, ch_fd = 0\<rparr>"

definition own_buffer :: evbuffer where
  "own_buffer = evbuffer_new\<lparr>chains := [own_chain 100 [7, 8, 9], own_chain 200 []], total_len := 3\<rparr>"

lemma own_buffer_ok:
  "evbuffer_wf own_buffer" "\<not> freeze_start own_buffer" "\<not> freeze_end own_buffer"
  "evbuffer_content own_buffer = [7, 8, 9]" "total_len own_buffer = 3"
  by (simp_all add: own_buffer_def own_chain_def evbuffer_new_def evbuffer_wf_def lwd_ok_def
      chain_wf_def ch_has_def CHAIN_PINNED_def CHAIN_MAX_REQUEST_def EVBUFFER_CHAIN_SIZE_def
      evbuffer_content_def chain_data_def slice_def)

text \<open>
  C38: \<open>evbuffer_read\<close> on a well-formed buffer that is not frozen at its end returns. It hands \<open>readv\<close> at most four
  vectors with exactly the room it wants to read, which is at most 4096 bytes and at most \<open>howmuch\<close> if that is not
  negative. The bytes the kernel stores there are appended to the buffer in order, across chains, and their number is
  the result; at the end of the file, after an error and when no memory can be had the bytes in the buffer stay as
  they were. In every case the buffer stays well formed.
\<close>

theorem evbuffer_read_correct:
  assumes "evbuffer_wf buf" "\<not> freeze_end buf"
    and kernel: "\<And>lens bs. readv lens = Some bs \<Longrightarrow> length bs \<le> sum_list lens"
  shows "\<exists>r buf' lens. evbuffer_read malloc ioctl readv buf howmuch = Some (r, buf') \<and>
           evbuffer_wf buf' \<and> same_settings buf buf' \<and>
           length lens \<le> 4 \<and> sum_list lens \<le> 4096 \<and> (0 \<le> howmuch \<longrightarrow> int (sum_list lens) \<le> howmuch) \<and>
           (r = - 1 \<and> evbuffer_content buf' = evbuffer_content buf \<and> ((\<exists>m. malloc m = None) \<or> readv lens = None) \<or>
            (\<exists>bs. readv lens = Some bs \<and> r = int (length bs) \<and> evbuffer_content buf' = evbuffer_content buf @ bs))"
proof -
  have am: "nat (read_amount ioctl howmuch) \<le> 4096" "0 \<le> howmuch \<longrightarrow> read_amount ioctl howmuch \<le> howmuch"
      "0 \<le> read_amount ioctl howmuch"
    using read_amount_bounds[where ioctl = ioctl and howmuch = howmuch] by (auto simp: read_amount_def Let_def)
  show ?thesis
  proof (cases rule: read_cases[OF assms(1,2), of malloc ioctl readv howmuch, case_names nomem room])
    case (nomem buf1 m)
    then show ?thesis
      by (intro exI[of _ "- 1"] exI[of _ buf1] exI[of _ "[]"]) (auto simp: fast_outcome_def)
  next
    case (room buf1 vs)
    let ?lens = "map iov_len vs"
    have lens: "length ?lens \<le> 4" "sum_list ?lens \<le> 4096" "0 \<le> howmuch \<longrightarrow> int (sum_list ?lens) \<le> howmuch"
      using room(2,3) am by (simp_all add: NUM_READ_IOVEC_def)
    have b1: "evbuffer_wf buf1" "same_settings buf buf1" "evbuffer_content buf1 = evbuffer_content buf"
      using room(1) by (simp_all add: fast_outcome_def)
    consider "readv ?lens = None" | "readv ?lens = Some []" | bs where "readv ?lens = Some bs" "bs \<noteq> []"
      by (cases "readv ?lens") auto
    then show ?thesis
    proof cases
      case 1
      then show ?thesis
        using room(6) lens b1 by (intro exI[of _ "- 1"] exI[of _ buf1] exI[of _ ?lens]) simp
    next
      case 2
      then show ?thesis
        using room(6) lens b1 by (intro exI[of _ 0] exI[of _ buf1] exI[of _ ?lens]) simp
    next
      case 3
      then show ?thesis
        using room(6) lens read_done[OF room(1,4,5) 3(2) kernel[OF 3(1)]]
        by (elim exE conjE) (intro exI[of _ "int (length bs)"] exI exI[of _ ?lens] conjI; simp)
    qed
  qed
qed

theorem evbuffer_read_correct_witness:
  "\<exists>buf'. evbuffer_read (\<lambda>n. Some n) (Some 3) (\<lambda>lens. Some (take (sum_list lens) [1, 2, 3])) own_buffer 2 = Some (2, buf') \<and>
     evbuffer_content buf' = [7, 8, 9, 1, 2]"
proof -
  let ?r = "\<lambda>lens. Some (take (sum_list lens) [1, 2, 3 :: byte])"
  have "\<exists>r buf' lens. evbuffer_read (\<lambda>n. Some n) (Some 3) ?r own_buffer 2 = Some (r, buf') \<and>
           evbuffer_wf buf' \<and> same_settings own_buffer buf' \<and>
           length lens \<le> 4 \<and> sum_list lens \<le> 4096 \<and> (0 \<le> (2::int) \<longrightarrow> int (sum_list lens) \<le> 2) \<and>
           (r = - 1 \<and> evbuffer_content buf' = evbuffer_content own_buffer \<and> ((\<exists>m::nat. Some m = None) \<or> ?r lens = None) \<or>
            (\<exists>bs. ?r lens = Some bs \<and> r = int (length bs) \<and> evbuffer_content buf' = evbuffer_content own_buffer @ bs))"
    by (rule evbuffer_read_correct[OF own_buffer_ok(1,3)]) auto
  then obtain r buf' lens where *: "evbuffer_read (\<lambda>n. Some n) (Some 3) ?r own_buffer 2 = Some (r, buf')"
    and alt: "r = - 1 \<and> evbuffer_content buf' = evbuffer_content own_buffer \<and> ((\<exists>m::nat. Some m = None) \<or> ?r lens = None) \<or>
      (\<exists>bs. ?r lens = Some bs \<and> r = int (length bs) \<and> evbuffer_content buf' = evbuffer_content own_buffer @ bs)"
    by (elim exE conjE) (rule that)
  moreover have "map_option fst (evbuffer_read (\<lambda>n. Some n) (Some 3) ?r own_buffer 2) = Some 2"
    by code_simp
  ultimately have "r = 2"
    by simp
  then have "min 3 (sum_list lens) = 2" "evbuffer_content buf' = [7, 8, 9] @ take (sum_list lens) [1, 2, 3]"
    using alt by (auto simp: own_buffer_ok(4))
  then have "evbuffer_content buf' = [7, 8, 9, 1, 2]"
    by (auto simp: min_def split: if_splits)
  then show ?thesis
    using * \<open>r = 2\<close> by blast
qed

section \<open>Writing sends a prefix and keeps the rest\<close>

text \<open>The bytes of all vectors; they lie at the front of the buffer.\<close>

definition gathered :: "evbuffer \<Rightarrow> evbuffer_iovec list \<Rightarrow> byte list" where
  "gathered buf vs = concat (map (iov_data buf) vs)"

lemma write_vecs_ok:
  assumes "cs = drop pos (chains buf)" "\<forall>c \<in> set cs. chain_wf c"
  shows "\<exists>rest. concat (map chain_data cs) = gathered buf (write_vecs left howmuch pos cs) @ rest \<and>
           length (gathered buf (write_vecs left howmuch pos cs)) \<le> howmuch \<and>
           length (write_vecs left howmuch pos cs) \<le> left \<and>
           (length cs \<le> left \<and> (\<forall>c \<in> set cs. \<not> ch_has EVBUFFER_SENDFILE c) \<longrightarrow>
              length (gathered buf (write_vecs left howmuch pos cs)) = min howmuch (length (concat (map chain_data cs))))"
  using assms
proof (induction cs arbitrary: left howmuch pos)
  case Nil
  then show ?case
    by (cases left) (simp_all add: gathered_def)
next
  case (Cons c cs)
  have d: "drop pos (chains buf) = c # cs"
    using Cons.prems(1) by simp
  have c: "chains buf ! pos = c" "cs = drop (pos + 1) (chains buf)"
    using nth_via_drop[OF d] arg_cong[OF d, of tl] by (simp_all add: drop_Suc drop_tl)
  have wfs: "chain_wf c" "\<forall>d \<in> set cs. chain_wf d"
    using Cons.prems(2) by simp_all
  have data: "iov_data buf \<lparr>iov_chain = pos, iov_base = ch_buffer c + misalign c, iov_len = n\<rparr> = take n (chain_data c)"
    if "n \<le> ch_off c" for n
    using that by (simp add: iov_data_def c(1) chain_data_def take_slice min_def)
  consider "left = 0 \<or> howmuch = 0 \<or> ch_has EVBUFFER_SENDFILE c"
    | l where "left = Suc l" "\<not> (howmuch = 0 \<or> ch_has EVBUFFER_SENDFILE c)" "howmuch < ch_off c"
    | l where "left = Suc l" "\<not> (howmuch = 0 \<or> ch_has EVBUFFER_SENDFILE c)" "ch_off c \<le> howmuch"
    by (metis linorder_not_le old.nat.exhaust)
  then show ?case
  proof cases
    case 1
    then show ?thesis
      by (cases left) (auto simp: gathered_def)
  next
    case 2
    then show ?thesis
      using data[of howmuch] wfs(1) by (simp add: gathered_def) (metis append_assoc append_take_drop_id)
  next
    case 3
    let ?vs = "write_vecs l (howmuch - ch_off c) (pos + 1) cs"
    obtain rest where IH: "concat (map chain_data cs) = gathered buf ?vs @ rest"
      "length (gathered buf ?vs) \<le> howmuch - ch_off c" "length ?vs \<le> l"
      "length cs \<le> l \<and> (\<forall>c \<in> set cs. \<not> ch_has EVBUFFER_SENDFILE c) \<longrightarrow>
         length (gathered buf ?vs) = min (howmuch - ch_off c) (length (concat (map chain_data cs)))"
      using Cons.IH[OF c(2) wfs(2), of l "howmuch - ch_off c"] by (elim exE conjE) (rule that)
    have g: "gathered buf (write_vecs left howmuch pos (c # cs)) = chain_data c @ gathered buf ?vs"
      using 3 data[of "ch_off c"] wfs(1) by (simp add: gathered_def)
    show ?thesis
      using 3 IH wfs(1) unfolding g by (intro exI[of _ rest]) (auto simp: min_def split: if_splits)
  qed
qed



section \<open>Reserving, writing in place and committing\<close>

text \<open>
  What the program does between the two calls: it stores bytes through the vectors, and says in \<open>iov_len\<close> how many.
\<close>

fun store_blocks :: "evbuffer_chain list \<Rightarrow> evbuffer_iovec list \<Rightarrow> byte list list \<Rightarrow> evbuffer_chain list" where
  "store_blocks cs (v # vs) (bs # bss) =
     (let c = cs ! iov_chain v
      in store_blocks (cs[iov_chain v := chain_write c (iov_base v - ch_buffer c) bs]) vs bss)"
| "store_blocks cs vs bss = cs"

definition fill_reserved :: "evbuffer \<Rightarrow> evbuffer_iovec list \<Rightarrow> byte list list \<Rightarrow> evbuffer" where
  "fill_reserved buf vs bss = buf\<lparr>chains := store_blocks (chains buf) vs bss\<rparr>"

definition used_vecs :: "evbuffer_iovec list \<Rightarrow> byte list list \<Rightarrow> evbuffer_iovec list" where
  "used_vecs vs bss = map2 (\<lambda>v bs. v\<lparr>iov_len := length bs\<rparr>) vs bss"

definition blocks_for :: "evbuffer_iovec list \<Rightarrow> byte list list \<Rightarrow> bool" where
  "blocks_for vs bss \<longleftrightarrow> list_all2 (\<lambda>v bs. length bs \<le> iov_len v) vs bss"

text \<open>The room of the last chain does not start where the room of another chain does.\<close>

definition last_room_distinct :: "evbuffer \<Rightarrow> bool" where
  "last_room_distinct buf \<longleftrightarrow>
     (\<forall>c \<in> set (butlast (chains buf)). CHAIN_SPACE_PTR c \<noteq> CHAIN_SPACE_PTR (last (chains buf)))"

text \<open>The chains after the bytes have been stored, from the first one on.\<close>

fun stored :: "evbuffer_chain list \<Rightarrow> byte list list \<Rightarrow> evbuffer_chain list" where
  "stored (c # cs) (bs # bss) = chain_write c (misalign c + ch_off c) bs # stored cs bss"
| "stored cs bss = cs"

lemma store_blocks_eq:
  assumes "vecs_for pos (drop pos cs) vs" "length bss = length vs" "pos \<le> length cs"
  shows "store_blocks cs vs bss = take pos cs @ stored (drop pos cs) bss"
  using assms
proof (induction vs arbitrary: pos cs bss)
  case (Cons v vs)
  obtain bs bs' where bss: "bss = bs # bs'"
    using Cons.prems(2) by (cases bss) auto
  have lt: "pos < length cs"
    using Cons.prems(1,3) by (cases "pos = length cs") auto
  then have d: "drop pos cs = cs ! pos # drop (pos + 1) cs"
    by (simp add: Cons_nth_drop_Suc)
  have v: "iov_chain v = pos" "iov_base v - ch_buffer (cs ! pos) = misalign (cs ! pos) + ch_off (cs ! pos)"
      "vecs_for (pos + 1) (drop (pos + 1) cs) vs"
    using Cons.prems(1) by (simp_all add: d CHAIN_SPACE_PTR_def)
  let ?c = "chain_write (cs ! pos) (misalign (cs ! pos) + ch_off (cs ! pos)) bs"
  have "store_blocks (cs[pos := ?c]) vs bs' = take (pos + 1) (cs[pos := ?c]) @ stored (drop (pos + 1) (cs[pos := ?c])) bs'"
    using v(3) Cons.prems(2) lt by (intro Cons.IH) (simp_all add: bss)
  then show ?case
    using lt v by (simp add: bss Let_def d take_Suc_conv_app_nth del: drop_Suc)
qed simp

lemma space_ptr_write [simp]: "CHAIN_SPACE_PTR (chain_write c i bs) = CHAIN_SPACE_PTR c"
  by (simp add: CHAIN_SPACE_PTR_def)

lemma commit_check_ok:
  "vecs_for pos cs vs \<Longrightarrow> blocks_for vs bss \<Longrightarrow> commit_check (used_vecs vs bss) (stored cs bss)"
proof (induction vs arbitrary: pos cs bss)
  case (Cons v vs)
  then show ?case
    by (cases cs; cases bss) (auto simp: blocks_for_def used_vecs_def)
qed (simp add: used_vecs_def)

lemma commit_chains_ok:
  "vecs_for pos cs vs \<Longrightarrow> blocks_for vs bss \<Longrightarrow>
   commit_chains pos (used_vecs vs bss) (stored cs bss) k = (append_blocks cs bss, last_block pos bss k)"
proof (induction vs arbitrary: pos cs bss k)
  case Nil
  then show ?case
    by (cases cs) (simp_all add: used_vecs_def blocks_for_def)
next
  case (Cons v vs)
  then show ?case
    by (cases cs; cases bss) (auto simp: blocks_for_def used_vecs_def append_bytes_def)
qed

lemma blocks_for_fit: "vecs_for pos cs vs \<Longrightarrow> blocks_for vs bss \<Longrightarrow> blocks_fit bss cs"
proof (induction vs arbitrary: pos cs bss)
  case (Cons v vs)
  then show ?case
    by (cases cs; cases bss) (auto simp: blocks_for_def)
qed (simp add: blocks_for_def)

lemma blocks_for_length: "blocks_for vs bss \<Longrightarrow> length bss = length vs"
  by (simp add: blocks_for_def list_all2_lengthD)

lemma used_vecs_sum: "length bss = length vs \<Longrightarrow> sum_list (map iov_len (used_vecs vs bss)) = length (concat bss)"
  unfolding used_vecs_def by (induction bss vs rule: list_induct2) simp_all

text \<open>Committing through the two passes.\<close>

lemma fill_reserved_simps [simp]:
  "last_with_datap (fill_reserved buf vs bss) = last_with_datap buf" "freeze_end (fill_reserved buf vs bss) = freeze_end buf"
  "chains (fill_reserved buf vs bss) = store_blocks (chains buf) vs bss"
  by (simp_all add: fill_reserved_def)

lemma stored_space [simp]: "map CHAIN_SPACE_LEN (stored cs bss) = map CHAIN_SPACE_LEN cs"
  "map CHAIN_SPACE_PTR (stored cs bss) = map CHAIN_SPACE_PTR cs" "length (stored cs bss) = length cs"
  by (induction cs bss rule: stored.induct) simp_all

lemma store_blocks_keeps:
  assumes "vecs_for pos (drop pos cs) vs" "length bss = length vs" "pos \<le> length cs"
  shows "map CHAIN_SPACE_LEN (store_blocks cs vs bss) = map CHAIN_SPACE_LEN cs"
    "map CHAIN_SPACE_PTR (store_blocks cs vs bss) = map CHAIN_SPACE_PTR cs"
    "length (store_blocks cs vs bss) = length cs" "take pos (store_blocks cs vs bss) = take pos cs"
    "drop pos (store_blocks cs vs bss) = stored (drop pos cs) bss"
  using assms by (simp_all add: store_blocks_eq take_map drop_map) (simp_all add: take_map[symmetric] drop_map[symmetric] map_append[symmetric] del: map_append)

lemma commit_two_passes:
  assumes k: "last_with_datap buf < length (chains buf)" and fr: "\<not> freeze_end buf"
    and vs: "vecs_for (first_space_pos buf) (drop (first_space_pos buf) (chains buf)) vs" "blocks_for vs bss" "vs \<noteq> []"
    and other: "length vs \<noteq> 1 \<or> iov_base (vs ! 0) \<noteq> CHAIN_SPACE_PTR (last (chains buf))"
  shows "evbuffer_commit_space (fill_reserved buf vs bss) (used_vecs vs bss) =
           (0, evbuffer_invoke_callbacks (append_all buf (first_space_pos buf) bss))"
proof -
  let ?i = "first_space_pos buf" and ?b = "fill_reserved buf vs bss" and ?w = "used_vecs vs bss"
  note len = blocks_for_length[OF vs(2)]
  note S = store_blocks_keeps[OF vs(1) len first_space_bounds(2)[OF k]]
  have space: "CHAIN_SPACE_LEN (chains ?b ! last_with_datap buf) = CHAIN_SPACE_LEN (chains buf ! last_with_datap buf)"
    using arg_cong[OF S(1), of "\<lambda>xs. xs ! last_with_datap buf"] k S(3) by simp
  then have first: "first_space_pos ?b = ?i"
    by (simp add: first_space_pos_def)
  have ne: "chains buf \<noteq> []" "chains ?b \<noteq> []"
    using k S(3) by auto
  have "CHAIN_SPACE_PTR (last (chains ?b)) = CHAIN_SPACE_PTR (last (chains buf))"
    using arg_cong[OF S(2), of last] ne by (simp add: last_map)
  moreover have "length ?w = length vs" "?w \<noteq> []" "iov_base (?w ! 0) = iov_base (vs ! 0)"
    using vs(3) len by (cases vs; cases bss; simp add: used_vecs_def)+
  ultimately have alt: "\<not> (length ?w = 1 \<and> chains ?b \<noteq> [] \<and> iov_base (?w ! 0) = CHAIN_SPACE_PTR (last (chains ?b)))"
    using other by simp
  have "evbuffer_commit_space ?b ?w = (0, evbuffer_invoke_callbacks (count_added
      (?b\<lparr>chains := take ?i (chains buf) @ append_blocks (drop ?i (chains buf)) bss,
          last_with_datap := last_block ?i bss (last_with_datap buf)\<rparr>) (length (concat bss))))"
    unfolding evbuffer_commit_space_def first Let_def if_not_P[OF alt]
    using fr k \<open>?w \<noteq> []\<close> S(3-5) commit_check_ok[OF vs(1,2)] commit_chains_ok[OF vs(1,2)] used_vecs_sum[OF len]
    by (simp del: length_concat)
  also have "count_added (?b\<lparr>chains := take ?i (chains buf) @ append_blocks (drop ?i (chains buf)) bss,
          last_with_datap := last_block ?i bss (last_with_datap buf)\<rparr>) (length (concat bss)) = append_all buf ?i bss"
    by (simp add: append_all_def fill_reserved_def count_added_def)
  finally show ?thesis .
qed

text \<open>Committing the last chain alone.\<close>

lemma commit_last:
  assumes wf: "evbuffer_wf buf" and fr: "\<not> freeze_end buf" and ne: "chains buf \<noteq> []"
    and i: "length (chains buf) - 1 \<le> last_with_datap buf + 1"
    and v: "iov_chain v = length (chains buf) - 1" "iov_base v = CHAIN_SPACE_PTR (last (chains buf))"
      "iov_len v \<le> CHAIN_SPACE_LEN (last (chains buf))" "length bs \<le> iov_len v"
  shows "evbuffer_commit_space (fill_reserved buf [v] [bs]) (used_vecs [v] [bs]) =
           (0, evbuffer_invoke_callbacks (append_at buf (length (chains buf) - 1) bs))"
proof -
  let ?l = "length (chains buf) - 1" and ?k = "last_with_datap buf"
  note L = lwd_okD[OF evbuffer_wfD(3)[OF wf] ne]
  obtain cs c where cs: "chains buf = cs @ [c]"
    using ne by (cases "chains buf" rule: rev_cases) auto
  let ?c = "chain_write c (misalign c + ch_off c) bs"
  let ?b = "fill_reserved buf [v] [bs]"
  have beq: "?b = buf\<lparr>chains := cs @ [?c]\<rparr>"
    using v(1,2) by (simp add: fill_reserved_def cs Let_def CHAIN_SPACE_PTR_def)
  have fits: "length bs \<le> CHAIN_SPACE_LEN c" and base: "iov_base v = CHAIN_SPACE_PTR c"
    using v by (simp_all add: cs)
  have app: "append_at buf ?l bs = count_added
      (buf\<lparr>chains := cs @ [append_bytes c bs], last_with_datap := (if bs = [] then ?k else length cs)\<rparr>) (length bs)"
    by (simp add: append_at_def cs)
  have adv: "?k + count_filled (drop (Suc ?k) (cs @ [append_bytes c bs])) = length cs" if "bs \<noteq> []"
  proof (cases "?k = length cs")
    case True
    then show ?thesis
      by simp
  next
    case False
    then have "Suc ?k = length cs"
      using i L(1) by (simp add: cs)
    then show ?thesis
      using that by (simp add: append_bytes_def)
  qed
  have cmd: "evbuffer_commit_space ?b (used_vecs [v] [bs]) = (0, evbuffer_invoke_callbacks (count_added
      (if bs \<noteq> [] then advance_last_with_data (set_last ?b (append_bytes c bs)) else set_last ?b (append_bytes c bs))
      (length bs)))"
    using fr fits base unfolding beq
    by (simp add: evbuffer_commit_space_def used_vecs_def Let_def append_bytes_def)
  have "set_last ?b (append_bytes c bs) = buf\<lparr>chains := cs @ [append_bytes c bs]\<rparr>"
    unfolding beq by (simp add: set_last_def)
  then show ?thesis
    using adv L(1) unfolding cmd app
    by (cases "bs = []") (simp_all add: advance_last_with_data_def cs)
qed

text \<open>After a commit all bytes are at the end of the buffer.\<close>

definition commit_outcome :: "evbuffer \<Rightarrow> evbuffer_iovec list \<Rightarrow> byte list list \<Rightarrow> bool" where
  "commit_outcome buf vs bss \<longleftrightarrow>
     (\<exists>buf'. evbuffer_commit_space (fill_reserved buf vs bss) (used_vecs vs bss) = (0, buf') \<and> evbuffer_wf buf' \<and>
        evbuffer_content buf' = evbuffer_content buf @ concat bss \<and> same_settings buf buf')"

lemma commit_last_ok:
  assumes wf: "evbuffer_wf buf" and fr: "\<not> freeze_end buf" and ne: "chains buf \<noteq> []"
    and i: "last_with_datap buf \<le> length (chains buf) - 1" "length (chains buf) - 1 \<le> last_with_datap buf + 1"
    and v: "iov_chain v = length (chains buf) - 1" "iov_base v = CHAIN_SPACE_PTR (last (chains buf))"
      "iov_len v \<le> CHAIN_SPACE_LEN (last (chains buf))" and bss: "blocks_for [v] bss"
  shows "commit_outcome buf [v] bss"
proof -
  obtain bs where bs: "bss = [bs]" "length bs \<le> iov_len v"
    using bss by (auto simp: blocks_for_def list_all2_Cons1)
  have "length bs \<le> CHAIN_SPACE_LEN (chains buf ! (length (chains buf) - 1))"
    using bs(2) v(3) ne by (simp add: last_conv_nth)
  then show ?thesis
    using commit_last[OF wf fr ne i(2) v bs(2)] append_at_ok[OF wf _ i(1), of bs] ne
    by (simp add: commit_outcome_def bs(1))
qed

lemma commit_fast_ok:
  assumes wf: "evbuffer_wf buf" and fr: "\<not> freeze_end buf" and k: "last_with_datap buf < length (chains buf)"
    and vs: "vecs_for (first_space_pos buf) (drop (first_space_pos buf) (chains buf)) vs" "blocks_for vs bss"
    and dist: "last_room_distinct buf"
  shows "commit_outcome buf vs bss"
proof -
  let ?i = "first_space_pos buf"
  consider "vs = []" | "vs \<noteq> []" "length vs \<noteq> 1 \<or> iov_base (vs ! 0) \<noteq> CHAIN_SPACE_PTR (last (chains buf))"
    | v where "vs = [v]" "iov_base v = CHAIN_SPACE_PTR (last (chains buf))"
    by (cases vs) auto
  then show ?thesis
  proof cases
    case 1
    then show ?thesis
      using wf fr vs(2) blocks_for_length[OF vs(2)]
      by (simp add: commit_outcome_def evbuffer_commit_space_def used_vecs_def fill_reserved_def)
  next
    case 2
    have A: "evbuffer_wf (append_all buf ?i bss) \<and> evbuffer_content (append_all buf ?i bss) = evbuffer_content buf @ concat bss \<and>
      evbuffer_plain (append_all buf ?i bss) = evbuffer_plain buf \<and> same_settings buf (append_all buf ?i bss)"
      by (rule append_all_ok[OF wf first_space_bounds(1) first_space_bounds(2)[OF k] blocks_for_fit[OF vs]])
    then show ?thesis
      using commit_two_passes[OF k fr vs 2] by (simp add: commit_outcome_def)
  next
    case 3
    have i: "?i < length (chains buf)"
      using vs(1) 3(1) by (cases "?i < length (chains buf)") simp_all
    then have d: "drop ?i (chains buf) = chains buf ! ?i # drop (?i + 1) (chains buf)"
      by (simp add: Cons_nth_drop_Suc)
    have v: "iov_chain v = ?i" "CHAIN_SPACE_PTR (chains buf ! ?i) = CHAIN_SPACE_PTR (last (chains buf))"
        "iov_len v \<le> CHAIN_SPACE_LEN (chains buf ! ?i)"
      using vs(1) 3 by (simp_all add: d)
    have ne: "chains buf \<noteq> []"
      using i by auto
    have "?i = length (chains buf) - 1"
    proof (rule ccontr)
      assume "?i \<noteq> length (chains buf) - 1"
      then have "chains buf ! ?i \<in> set (butlast (chains buf))"
        using i by (auto simp: in_set_conv_nth nth_butlast intro!: exI[of _ ?i])
      then show False
        using dist v(2) by (auto simp: last_room_distinct_def)
    qed
    moreover have "last_with_datap buf \<le> ?i" "?i \<le> last_with_datap buf + 1"
      by (simp_all add: first_space_pos_def)
    ultimately show ?thesis
      using commit_last_ok[OF wf fr ne _ _ _ 3(2)] v vs(2) ne by (simp add: 3(1) last_conv_nth)
  qed
qed



text \<open>
  With one vector and two empty chains at the end the chain before the last is given out, but not accepted
  by \<open>evbuffer_commit_space\<close>, which looks at the last chain and at the first with any room.
\<close>

definition three_chains :: evbuffer where
  "three_chains = evbuffer_new\<lparr>chains := [(own_chain 100 [])\<lparr>buffer_len := 16, ch_mem := replicate 16 1, ch_off := 15\<rparr>,
      own_chain 200 [], own_chain 300 []], total_len := 15\<rparr>"

lemma three_chains_ok: "evbuffer_wf three_chains" "\<not> freeze_end three_chains" "last_room_distinct three_chains"
  by (simp_all add: three_chains_def own_chain_def evbuffer_new_def evbuffer_wf_def lwd_ok_def
      chain_wf_def ch_has_def CHAIN_PINNED_def CHAIN_MAX_REQUEST_def EVBUFFER_CHAIN_SIZE_def
      last_room_distinct_def CHAIN_SPACE_PTR_def)

theorem evbuffer_reserve_one_refused:
  "\<exists>v. evbuffer_reserve_space (\<lambda>n. Some n) three_chains 2 1 = Some (1, [v], three_chains) \<and>
     fst (evbuffer_commit_space three_chains [v]) = - 1"
  by (rule exI[of _ "\<lparr>iov_chain = 1, iov_base = 200, iov_len = 4\<rparr>"]) code_simp

text \<open>
  Committing only the last of three vectors leaves \<open>last_with_datap\<close> before an empty chain: the buffer is no longer
  well formed, and the next \<open>evbuffer_read\<close> fails its assertion.
\<close>

theorem evbuffer_commit_last_breaks:
  "\<exists>v1 v2 v3. evbuffer_reserve_space (\<lambda>n. Some n) three_chains 6 3 = Some (3, [v1, v2, v3], three_chains) \<and>
     fst (evbuffer_commit_space three_chains [v3]) = 0 \<and> \<not> evbuffer_wf (snd (evbuffer_commit_space three_chains [v3])) \<and>
     evbuffer_read (\<lambda>n. Some n) None (\<lambda>_. None) (snd (evbuffer_commit_space three_chains [v3])) 100 = None"
proof -
  let ?v = "\<lambda>i adr n. \<lparr>iov_chain = i, iov_base = adr, iov_len = n\<rparr>"
  let ?b = "snd (evbuffer_commit_space three_chains [?v 2 300 4])"
  have "evbuffer_reserve_space (\<lambda>n. Some n) three_chains 6 3 =
      Some (3, [?v 0 115 1, ?v 1 200 4, ?v 2 300 4], three_chains)"
    "fst (evbuffer_commit_space three_chains [?v 2 300 4]) = 0"
    "evbuffer_read (\<lambda>n. Some n) None (\<lambda>_. None) ?b 100 = None"
    by code_simp+
  moreover have "last_with_datap ?b = 0 \<and> map ch_off (chains ?b) = [15, 0, 4]"
    by code_simp
  then have "\<not> lwd_ok (chains ?b) (last_with_datap ?b)"
    unfolding lwd_ok_offs by (simp add: Let_def)
  ultimately show ?thesis
    by (auto simp: evbuffer_wf_def)
qed

section \<open>Looking at the data shows the data\<close>

definition data_from :: "evbuffer \<Rightarrow> evbuffer_ptr option \<Rightarrow> byte list" where
  "data_from buf start_at =
     (case start_at of
        None \<Rightarrow> evbuffer_content buf
      | Some p \<Rightarrow> (let k = the (ptr_chain p) in
          drop (pos_in_chain p) (chain_data (chains buf ! k)) @ concat (map chain_data (drop (k + 1) (chains buf)))))"

lemma peek_loop_ok:
  assumes "cs = drop pos (chains buf)" "\<forall>c \<in> set cs. chain_wf c" "peek_loop n_vec len idx so_far pos cs = (n, vs)"
  shows "idx \<le> n \<and> length vs = min n n_vec - min idx n_vec \<and> (\<exists>rest. concat (map chain_data cs) = gathered buf vs @ rest \<and>
     (0 \<le> len \<and> n \<le> n_vec \<and> rest \<noteq> [] \<longrightarrow> len \<le> so_far + int (length (gathered buf vs))))"
  using assms
proof (induction cs arbitrary: idx so_far pos n vs)
  case Nil
  then show ?case
    by (simp add: gathered_def)
next
  case (Cons c cs)
  have d: "drop pos (chains buf) = c # cs"
    using Cons.prems(1) by simp
  have c: "chains buf ! pos = c" "cs = drop (pos + 1) (chains buf)"
    using nth_via_drop[OF d] arg_cong[OF d, of tl] by (simp_all add: drop_Suc drop_tl)
  have wfs: "chain_wf c" "\<forall>d \<in> set cs. chain_wf d"
    using Cons.prems(2) by simp_all
  let ?v = "\<lparr>iov_chain = pos, iov_base = ch_buffer c + misalign c, iov_len = ch_off c\<rparr>"
  have v: "iov_data buf ?v = chain_data c"
    by (simp add: iov_data_def c(1) chain_data_def)
  obtain n' vs' where L: "peek_loop n_vec len (idx + 1) (so_far + int (ch_off c)) (pos + 1) cs = (n', vs')"
    by (cases "peek_loop n_vec len (idx + 1) (so_far + int (ch_off c)) (pos + 1) cs") auto
  note IH = Cons.IH[OF c(2) wfs(2) L]
  consider "0 \<le> len \<and> len \<le> so_far" | "\<not> (0 \<le> len \<and> len \<le> so_far)" "idx < n_vec"
    | "\<not> (0 \<le> len \<and> len \<le> so_far)" "\<not> idx < n_vec" "len < 0" | "\<not> (0 \<le> len \<and> len \<le> so_far)" "\<not> idx < n_vec" "\<not> len < 0"
    by blast
  then show ?case
  proof cases
    case 1
    then show ?thesis
      using Cons.prems(3) by (auto simp: gathered_def)
  next
    case 2
    then have "n = n'" "vs = ?v # vs'"
      using Cons.prems(3) L by auto
    then show ?thesis
      using IH 2(2) v wfs(1) by (auto simp: gathered_def)
  next
    case 3
    then show ?thesis
      using Cons.prems(3) by (auto simp: gathered_def)
  next
    case 4
    then have "n = n'" "vs = vs'"
      using Cons.prems(3) L by auto
    then show ?thesis
      using IH 4(2) by (auto simp: gathered_def)
  qed
qed

text \<open>
  \<open>evbuffer_peek\<close> returns the number \<open>n\<close> of vectors that are needed and fills as many as there are. Their
  bytes are the bytes of the buffer from the given place on; when \<open>n\<close> vectors are there they hold the \<open>len\<close> bytes
  asked for, or all.
\<close>

theorem evbuffer_peek_correct:
  assumes wf: "evbuffer_wf buf"
    and p: "case start_at of None \<Rightarrow> True
      | Some p \<Rightarrow> \<exists>k. ptr_chain p = Some k \<and> k < length (chains buf) \<and> pos_in_chain p \<le> ch_off (chains buf ! k)"
  shows "\<exists>n vs rest. evbuffer_peek buf len start_at n_vec = Some (n, vs) \<and> length vs = min n n_vec \<and>
           data_from buf start_at = gathered buf vs @ rest \<and>
           (0 \<le> len \<and> n \<le> n_vec \<and> rest \<noteq> [] \<longrightarrow> len \<le> int (length (gathered buf vs)))"
proof (cases start_at)
  case None
  let ?len = "if n_vec = 0 \<and> len < 0 then int (total_len buf) - 0 else len"
  obtain n vs where L: "peek_loop n_vec ?len 0 0 0 (chains buf) = (n, vs)"
    by (cases "peek_loop n_vec ?len 0 0 0 (chains buf)") auto
  have "evbuffer_peek buf len start_at n_vec = Some (n, vs)"
    using L by (simp add: evbuffer_peek_def None)
  moreover have "chains buf = drop 0 (chains buf)" "\<forall>c \<in> set (chains buf). chain_wf c"
    using evbuffer_wfD(1)[OF wf] by simp_all
  note peek_loop_ok[OF this L]
  ultimately show ?thesis
    by (auto simp: data_from_def None evbuffer_content_def split: if_splits)
next
  case (Some p)
  then obtain k where k: "ptr_chain p = Some k" "k < length (chains buf)" "pos_in_chain p \<le> ch_off (chains buf ! k)"
    using p by auto
  let ?c = "chains buf ! k"
  define so_far where "so_far = int (ch_off ?c) - int (pos_in_chain p)"
  let ?len = "if n_vec = 0 \<and> len < 0 then int (total_len buf) - so_far else len"
  define v where "v = \<lparr>iov_chain = k, iov_base = ch_buffer ?c + misalign ?c + pos_in_chain p, iov_len = ch_off ?c - pos_in_chain p\<rparr>"
  obtain n vs where L: "peek_loop n_vec ?len 1 so_far (k + 1) (drop (k + 1) (chains buf)) = (n, vs)"
    by (cases "peek_loop n_vec ?len 1 so_far (k + 1) (drop (k + 1) (chains buf))") auto
  have res: "evbuffer_peek buf len start_at n_vec = Some (n, (if n_vec > 0 then [v] else []) @ vs)"
    unfolding evbuffer_peek_def Let_def Some option.case k(1) so_far_def[symmetric] v_def[symmetric] L by simp
  have "chain_wf ?c"
    using evbuffer_wfD(1)[OF wf] k(2) by simp
  have v: "iov_data buf v = drop (pos_in_chain p) (chain_data ?c)" "int (length (iov_data buf v)) = so_far"
  proof -
    show "iov_data buf v = drop (pos_in_chain p) (chain_data ?c)"
      using k(3) by (simp add: iov_data_def v_def chain_data_def drop_slice add.assoc Let_def)
    then show "int (length (iov_data buf v)) = so_far"
      using \<open>chain_wf ?c\<close> k(3) by (simp add: so_far_def)
  qed
  have "\<forall>c \<in> set (drop (k + 1) (chains buf)). chain_wf c"
    using evbuffer_wfD(1)[OF wf] by (auto dest: in_set_dropD)
  then obtain rest where P: "1 \<le> n" "length vs = min n n_vec - min 1 n_vec"
    "concat (map chain_data (drop (k + 1) (chains buf))) = gathered buf vs @ rest"
    "0 \<le> ?len \<and> n \<le> n_vec \<and> rest \<noteq> [] \<longrightarrow> ?len \<le> so_far + int (length (gathered buf vs))"
    using peek_loop_ok[OF refl _ L] by blast
  have d: "data_from buf start_at = iov_data buf v @ gathered buf vs @ rest"
    by (simp only: data_from_def Some k(1) option.case option.sel Let_def v(1) P(3))
  show ?thesis
  proof (cases "n_vec = 0")
    case True
    then show ?thesis
      using res P(1,2) d by (intro exI[of _ n] exI[of _ vs] exI[of _ "iov_data buf v @ gathered buf vs @ rest"])
        (simp add: gathered_def)
  next
    case False
    then have "gathered buf ((if n_vec > 0 then [v] else []) @ vs) = iov_data buf v @ gathered buf vs"
      by (simp add: gathered_def)
    then show ?thesis
      using res P d v(2) False
      by (intro exI[of _ n] exI[of _ "v # vs"] exI[of _ rest]) auto
  qed
qed

end
