(* ===== verification/Spec2Isabelle.thy ===== *)
theory Spec2Isabelle
  imports Epoll_System Http_Uri_Correct Evbuffer_Search Dns_Message Http_Total Evbuffer_IO
begin

text \<open>
  A model of the core of libevent 2.0.21 (\<^verbatim>\<open>src/codes/libevent-2.0.21-stable\<close>, the paths below are
  relative to it) with the theorems that make it correct.

  \<^bold>\<open>The program.\<close> libevent calls user functions when a descriptor is ready, a signal arrives or a time has
  passed. An \<^emph>\<open>event base\<close> (\<^verbatim>\<open>event.c\<close>) keeps the events that were added, the queues of active events and
  the timers; timers with the same duration can share a queue, a \<^emph>\<open>common timeout\<close>. The maps of \<^verbatim>\<open>evmap.c\<close>
  find the events of a descriptor or a signal and tell the \<^emph>\<open>back end\<close> when the first event for a direction of
  a descriptor is added and when the last one is deleted. The back end (here \<^verbatim>\<open>epoll.c\<close>) makes these changes to
  the kernel, at once or collected in a \<^emph>\<open>changelist\<close>, waits, and activates the events of the descriptors that
  are ready. The loop then activates the events whose time has come and runs the callbacks by priority.
  Above this there are byte queues (\<^verbatim>\<open>buffer.c\<close>) and, on these, an encoding of tagged values
  (\<^verbatim>\<open>event_tagging.c\<close>), HTTP (\<^verbatim>\<open>http.c\<close>) and DNS (\<^verbatim>\<open>evdns.c\<close>), with addresses and characters from \<^verbatim>\<open>evutil.c\<close>.

  \<^bold>\<open>Theories and sources.\<close>

  \<^item> \<open>Prelude\<close>: widths, sub-ranges of lists, collections of facts.
  \<^item> \<open>Event_Struct\<close>: \<^verbatim>\<open>struct timeval\<close> and the time macros (\<^verbatim>\<open>include/event2/util.h\<close>), ordered as a
    \<open>linorder\<close>, and \<^verbatim>\<open>struct event\<close>. Events live in a store indexed by their address.
  \<^item> \<open>Min_Heap\<close>: \<^verbatim>\<open>minheap-internal.h\<close>, every operation, and the interface \<open>timer_queue\<close> that it implements.
  \<^item> \<open>Event_Base\<close>, \<open>Event_Invariant\<close>: the base record of \<^verbatim>\<open>event-internal.h\<close>, its time cache and its queues
    (\<open>event_queue_insert\<close>, \<open>event_queue_remove\<close>), the invariant \<open>base_inv\<close> that relates the flags of the events,
    the queues, the heap and the counters.
  \<^item> \<open>Evmap\<close>: the descriptor and signal maps of \<^verbatim>\<open>evmap.c\<close>.
  \<^item> \<open>Event_Core\<close>: \<open>event_assign\<close>, \<open>event_add\<close>, \<open>event_del\<close>, \<open>event_active\<close> and what they call.
  \<^item> \<open>Event_Loop\<close>: timeouts, corrections of the clock, common timeouts, the closures that run callbacks,
    deferred callbacks and \<open>event_base_loop\<close>.
  \<^item> \<open>Event_System\<close>: the base as a state machine (\<open>base_step\<close>, \<open>base_reachable\<close>), the invariant \<open>sys_inv\<close>, and the
    properties of the operations.
  \<^item> \<open>Changelist\<close>, \<open>Epoll\<close>, \<open>Epoll_System\<close>: \<open>event_changelist_*\<close> of \<^verbatim>\<open>evmap.c\<close>, \<^verbatim>\<open>epoll.c\<close>, and the base
    composed with the back end.
  \<^item> \<open>Evbuffer_Chain\<close>, \<open>Evbuffer\<close>, \<open>Evbuffer_Move\<close>: \<^verbatim>\<open>buffer.c\<close> and \<^verbatim>\<open>evbuffer-internal.h\<close>.
  \<^item> \<open>Evbuffer_Space\<close>, \<open>Evbuffer_Search\<close>: expansion and formatted output, searching and lines, also of \<^verbatim>\<open>buffer.c\<close>.
    \<open>Evbuffer_IO\<close>: room reserved and committed, reading from and writing to descriptors, looking at the data.
  \<^item> \<open>Tag_Code\<close>, \<open>Event_Tagging\<close>: \<^verbatim>\<open>event_tagging.c\<close>, the codes of numbers on bytes and all operations on buffers.
  \<^item> \<open>Ascii\<close>, \<open>Inet\<close>: characters, C strings, numbers and addresses as text, from \<^verbatim>\<open>evutil.c\<close>.
  \<^item> \<open>Http_Uri\<close>, \<open>Http_Uri_Correct\<close>: escaping, URIs, queries and lists of headers of \<^verbatim>\<open>http.c\<close>, and the properties of
    them.
  \<^item> \<open>Http_Server\<close>, \<open>Http_Message\<close>: virtual hosts and callbacks for paths (\<^verbatim>\<open>struct evhttp\<close>); requests and replies
    (\<^verbatim>\<open>struct evhttp_request\<close>), how they are written (\<open>evhttp_make_header\<close>, \<open>evhttp_send_reply\<close>) and read
    (\<open>evhttp_read_cb\<close>). \<open>Http_Chunked\<close>, \<open>Http_Roundtrip\<close>: chunked bodies and messages that are written and read.
    \<open>Http_Total\<close>: the reader returns for all bytes.
  \<^item> \<open>Dns_Name\<close>, \<open>Dns_Message\<close>: names with compression, questions and responses, written and read, from
    \<^verbatim>\<open>evdns.c\<close>.

  \<^bold>\<open>Representation.\<close> A record follows each structure, with a pointer to an event as its identifier, a
  \<^verbatim>\<open>TAILQ\<close> as a list, and a pointer into a linked list as a position. Unsigned numbers are words where they
  can wrap. Result codes are the integers of the code. \<open>None\<close> as the result of an operation stands for what
  the code cannot return from: a failed assertion, \<open>event_errx\<close>, an access outside an array or through a null
  pointer, a loop that does not end. Code outside the program is a parameter: the allocator (\<open>malloc n\<close> is
  \<open>None\<close> when it fails), the clock, user callbacks, the back end as seen from \<open>Event_Base\<close>, and the system
  calls \<open>epoll_ctl\<close> and \<open>epoll_wait\<close>, whose documented behaviour is the locale \<open>epoll_kernel\<close>, and \<open>readv\<close>,
  \<open>writev\<close> and \<open>sendfile\<close>, of which only the number of bytes is assumed to be no more than what was offered.

  \<^bold>\<open>What is shown.\<close>

  \<^item> Invariants: every state of a base that is reached by the operations satisfies \<open>sys_inv\<close>; in every reachable
    state the kernel watches exactly the directions that the maps count events for.
  \<^item> Single operations: an added event is in its maps and on the timer queue with the deadline asked for, a
    deleted one is nowhere; \<open>timeout_process\<close> ends and activates the timers that are due and no others; the time
    to wait reaches to the first timer; a ready descriptor activates exactly the events that asked for it.
  \<^item> The heap keeps its shape and its indices under insertion, removal of the least and of any element.
  \<^item> The changelist refines the calls it stands for: applying it once leaves the kernel as the calls one at a
    time do.
  \<^item> Buffers behave as byte queues: adding, prepending, draining, copying out, moving between buffers and
    making the front contiguous do to \<open>evbuffer_content\<close> what they say, and keep \<open>evbuffer_wf\<close>.
  \<^item> What is read from a descriptor or stored in reserved room is appended, and exactly what the kernel took when writing
    leaves the front.
  \<^item> A search over chain bounds finds the first occurrence of a text, and lines that are written are read back.
  \<^item> A tagged value that is written is read back, also in a stream of them. The same is shown for addresses, for URIs,
    for queries, for names, questions and responses of DNS, for HTTP requests and for bodies in chunks. The reader of
    chunks gives the same result in whatever pieces the bytes arrive (the locale \<open>incremental\<close>).
  \<^item> The HTTP reader returns whatever a peer sends, with well-formed buffers and a body within the limit.
  \<^item> What the parsers of URIs, names and patterns accept is described by grammars and specifications of their own.
  \<^item> Where the code fails: sizes for which \<open>evbuffer_chain_new\<close> loops, the count \<open>evbuffer_prepend\<close> reports,
    tags with too many bytes, names that are cut off, patterns that end in a star, reserved room that cannot be committed.

  \<^bold>\<open>Loops.\<close> Loops that end are functions with a measure. Loops that depend on user callbacks
  (\<open>event_process_active_single_queue\<close>, \<open>signal_loop\<close>, \<open>event_base_loop\<close>) and \<open>timeout_loop\<close> are partial functions;
  \<open>timeout_process_correct\<close> shows that the last returns. The abstract \<open>fire_due\<close> of \<open>Min_Heap\<close> takes as fuel any
  bound on the number of timers.

  \<^bold>\<open>Not modelled.\<close> Locks and the waiting of one thread for another: the operations of the model are atomic, as
  they are under the lock of the base. The debug mode that tracks events. The hash tables that replace the
  arrays of \<^verbatim>\<open>evmap.c\<close> on Windows. Creation and destruction of a base, and the choice of a back end. Signal
  handlers and the socket pair of \<^verbatim>\<open>signal.c\<close>. Files in buffers (\<open>evbuffer_add_file\<close>).
  The other back ends, which are layers over system calls of other systems. Bufferevents, RPC and rate limits. Of HTTP the
  sockets, of DNS the sockets, the states of name servers and requests, and the configuration files.
\<close>

end
